(* ===== verification/Prelude.thy ===== *)
theory Prelude
  imports Main "HOL-Library.Word" "HOL-Library.Multiset"
begin

text \<open>
  Shared vocabulary of the development: Go's fixed-width integers as words, results with an
  error as sums, loops with an early error return as \<open>foldE\<close>, Go maps as partial functions,
  the documented contract of \<open>sort.Slice\<close>, and the arithmetic facts on unsigned words that
  every accounting component uses.  Locales state what a loop with an early return
  keeps: an invariant of its state (\<open>stepwise_inv\<close>), the sum of what each iteration changes
  (\<open>stepwise_sum\<close>), and names that are used at most once (\<open>one_shot\<close>).
\<close>

section \<open>Types\<close>

type_synonym u8 = "8 word"
type_synonym u32 = "32 word"
type_synonym u64 = "64 word"
type_synonym bytes = "u8 list"

text \<open>Go's \<open>[32]byte\<close> arrays (hashes, points, key images, scalars) are 256-bit words and its
  \<open>[64]byte\<close> arrays (signatures) 512-bit words; the
  bytes of the array are the word's bytes, most significant first.\<close>

type_synonym arr32 = "256 word"
type_synonym arr64 = "512 word"
type_synonym hash32 = arr32
type_synonym point32 = arr32
type_synonym scalar32 = arr32
type_synonym commitment = arr32
type_synonym key_image = arr32

section \<open>Definitions\<close>

definition max_u64 :: u64 where
  "max_u64 = 0xFFFFFFFFFFFFFFFF"

text \<open>A loop whose body may return an error: the first error ends it.\<close>

fun foldE :: "('x \<Rightarrow> 's \<Rightarrow> 'e + 's) \<Rightarrow> 'x list \<Rightarrow> 's \<Rightarrow> 'e + 's" where
  "foldE f [] s = Inr s"
| "foldE f (x # xs) s = (case f x s of Inl e \<Rightarrow> Inl e | Inr s' \<Rightarrow> foldE f xs s')"

fun is_ok :: "'e + 'a \<Rightarrow> bool" where
  "is_ok (Inl _) = False"
| "is_ok (Inr _) = True"

text \<open>\<open>sort.Slice\<close> sorts in place with a strict comparison and is not stable: its result is some
  permutation in which no element is strictly before an earlier one.\<close>

definition sort_slice :: "('a \<Rightarrow> 'a \<Rightarrow> bool) \<Rightarrow> 'a list \<Rightarrow> 'a list \<Rightarrow> bool" where
  "sort_slice lt xs ys \<longleftrightarrow> mset ys = mset xs \<and> sorted_wrt (\<lambda>a b. \<not> lt b a) ys"

text \<open>Iteration over a Go map visits every key once, in an order that is not specified.\<close>

definition map_order :: "('k \<rightharpoonup> 'v) \<Rightarrow> 'k list \<Rightarrow> bool" where
  "map_order m ks \<longleftrightarrow> distinct ks \<and> set ks = dom m"

section \<open>Collections of facts\<close>

named_theorems u64_arith \<open>unsigned 64-bit arithmetic as arithmetic of natural numbers\<close>
named_theorems codec_simps \<open>lengths and slices of encoded byte strings\<close>

section \<open>Loops with an early error return\<close>

lemma foldE_append:
  "foldE f (xs @ ys) s = (case foldE f xs s of Inl e \<Rightarrow> Inl e | Inr s' \<Rightarrow> foldE f ys s')"
  by (induction xs arbitrary: s) (auto split: sum.splits)

lemma foldE_Cons_Inr:
  "foldE f (x # xs) s = Inr t \<longleftrightarrow> (\<exists>s'. f x s = Inr s' \<and> foldE f xs s' = Inr t)"
  by (auto split: sum.splits)

lemma is_ok_iff: "is_ok r \<longleftrightarrow> (\<exists>x. r = Inr x)"
  by (cases r) auto

lemma foldE_rel:
  assumes "\<And>x a b. R a b \<Longrightarrow> rel_sum (=) R (f x a) (f x b)" and "R a b"
  shows "rel_sum (=) R (foldE f xs a) (foldE f xs b)"
  using assms(2)
proof (induction xs arbitrary: a b)
  case (Cons x xs)
  from assms(1) [OF Cons.prems, of x] show ?case
    by (cases "f x a"; cases "f x b") (auto intro: Cons.IH)
qed simp

locale stepwise_inv =
  fixes step :: "'x \<Rightarrow> 's \<Rightarrow> 'e + 's"
    and inv :: "'s \<Rightarrow> bool"
  assumes step_inv: "inv s \<Longrightarrow> step x s = Inr s' \<Longrightarrow> inv s'"
begin

lemma run_inv: "inv s \<Longrightarrow> foldE step xs s = Inr s' \<Longrightarrow> inv s'"
  by (induction xs arbitrary: s) (auto split: sum.splits dest: step_inv)

end

text \<open>A quantity that every iteration changes by an amount known from its element alone.\<close>

locale stepwise_sum = stepwise_inv step inv
  for step :: "'x \<Rightarrow> 's \<Rightarrow> 'e + 's" and inv :: "'s \<Rightarrow> bool" +
  fixes m :: "'s \<Rightarrow> 'n :: comm_monoid_add" and d :: "'x \<Rightarrow> 'n"
  assumes step_sum: "inv s \<Longrightarrow> step x s = Inr s' \<Longrightarrow> m s' = m s + d x"
begin

lemma run_sum: "inv s \<Longrightarrow> foldE step xs s = Inr s' \<Longrightarrow> m s' = m s + sum_list (map d xs)"
proof (induction xs arbitrary: s)
  case (Cons x xs)
  then obtain t where t: "step x s = Inr t" "foldE step xs t = Inr s'"
    by (auto split: sum.splits)
  with Cons show ?case
    using step_sum [of s x t] step_inv [of s x t] by (simp add: add.assoc)
qed simp

end

text \<open>Names that every successful iteration uses up: they were free before and stay taken.\<close>

locale one_shot = stepwise_inv step inv
  for step :: "'x \<Rightarrow> 's \<Rightarrow> 'e + 's" and inv :: "'s \<Rightarrow> bool" +
  fixes taken :: "'s \<Rightarrow> 'k \<Rightarrow> bool" and uses :: "'x \<Rightarrow> 'k list"
  assumes step_fresh: "inv s \<Longrightarrow> step x s = Inr s' \<Longrightarrow> distinct (uses x) \<and> (\<forall>k \<in> set (uses x). \<not> taken s k \<and> taken s' k)"
    and step_keeps: "inv s \<Longrightarrow> step x s = Inr s' \<Longrightarrow> taken s k \<Longrightarrow> taken s' k"
begin

lemma run_keeps: "inv s \<Longrightarrow> foldE step xs s = Inr s' \<Longrightarrow> taken s k \<Longrightarrow> taken s' k"
  by (induction xs arbitrary: s) (auto split: sum.splits dest: step_inv step_keeps)

lemma run_distinct:
  "inv s \<Longrightarrow> foldE step xs s = Inr s' \<Longrightarrow>
   distinct (concat (map uses xs)) \<and> (\<forall>k \<in> set (concat (map uses xs)). \<not> taken s k \<and> taken s' k)"
proof (induction xs arbitrary: s)
  case (Cons x xs)
  then obtain t where t: "step x s = Inr t" "foldE step xs t = Inr s'" by (auto split: sum.splits)
  have i: "inv t" using t(1) Cons.prems(1) by (rule step_inv [rotated])
  show ?case
    using Cons.IH [OF i t(2)] step_fresh [OF Cons.prems(1) t(1)] step_keeps [OF Cons.prems(1) t(1)]
      run_keeps [OF i t(2)] by auto
qed simp

end

section \<open>Two-thirds quorums\<close>

text \<open>A family of quorums, each of more than two thirds of a finite membership.\<close>

locale supermajority =
  fixes members :: "'a set"
    and quorum :: "'a set \<Rightarrow> bool"
  assumes members_finite: "finite members"
    and quorum_members: "quorum Q \<Longrightarrow> Q \<subseteq> members"
    and quorum_large: "quorum Q \<Longrightarrow> 2 * card members < 3 * card Q"
begin

lemma quorum_overlap:
  assumes "quorum P" and "quorum Q"
  shows "card members < 3 * card (P \<inter> Q)"
proof -
  have fin: "finite P" "finite Q"
    using assms quorum_members members_finite by (auto intro: finite_subset)
  have "card P + card Q = card (P \<union> Q) + card (P \<inter> Q)"
    using fin by (rule card_Un_Int)
  moreover have "card (P \<union> Q) \<le> card members"
    using assms quorum_members members_finite by (intro card_mono) auto
  ultimately show ?thesis
    using quorum_large [OF assms(1)] quorum_large [OF assms(2)] by linarith
qed

lemma quorum_honest_overlap:
  assumes "quorum P" and "quorum Q" and "finite faulty" and "3 * card faulty \<le> card members"
  shows "\<exists>m \<in> P \<inter> Q. m \<notin> faulty"
proof (rule ccontr)
  assume "\<not> ?thesis"
  then have "P \<inter> Q \<subseteq> faulty" by blast
  then have "card (P \<inter> Q) \<le> card faulty" using assms(3) by (intro card_mono)
  with quorum_overlap [OF assms(1,2)] assms(4) show False by linarith
qed

end

section \<open>Unsigned words\<close>

lemma unat_max_u64 [u64_arith]: "unat max_u64 = 2 ^ 64 - 1"
  by (simp add: max_u64_def)

lemma unat_u64_lt: "unat (x :: u64) < 2 ^ 64"
  using unsigned_less [of x] by simp

lemma unat_u64_le: "unat (x :: u64) \<le> 18446744073709551615"
  using unat_u64_lt [of x] by simp

text \<open>The overflow test \<open>math.MaxUint64 - a < b\<close> of the sources.\<close>

lemma u64_overflow_iff [u64_arith]: "max_u64 - a < b \<longleftrightarrow> 2 ^ 64 \<le> unat a + unat b"
proof -
  have "a \<le> max_u64"
    using unat_u64_le [of a] by (simp add: word_le_nat_alt unat_max_u64)
  then have "unat (max_u64 - a) = 2 ^ 64 - 1 - unat a"
    by (simp add: unat_sub unat_max_u64)
  then show ?thesis
    using unat_u64_lt [of a] by (auto simp: word_less_nat_alt)
qed

lemma unat_add_u64 [u64_arith]:
  "unat a + unat b < 2 ^ 64 \<Longrightarrow> unat (a + b :: u64) = unat a + unat b"
  by (simp add: unat_word_ariths)

lemma unat_diff_u64 [u64_arith]: "b \<le> a \<Longrightarrow> unat (a - b :: u64) = unat a - unat b"
  by (rule unat_sub)

lemma u64_eq_iff: "(a :: u64) = b \<longleftrightarrow> unat a = unat b"
  by (simp add: word_unat_eq_iff)

lemma u64_le_iff: "(a :: u64) \<le> b \<longleftrightarrow> unat a \<le> unat b"
  by (rule word_le_nat_alt)

lemma u64_less_iff: "(a :: u64) < b \<longleftrightarrow> unat a < unat b"
  by (rule word_less_nat_alt)

lemmas u64_as_nat = u64_eq_iff u64_le_iff u64_less_iff

lemma map_of_mset_eq:
  assumes "mset xs = mset ys" and "distinct (map fst xs)"
  shows "map_of xs = map_of ys"
proof
  fix k
  have "distinct (map fst ys)"
    using assms by (metis mset_map mset_eq_imp_distinct_iff)
  moreover have "set xs = set ys" using assms(1) by (rule mset_eq_setD)
  ultimately have "map_of xs k = Some v \<longleftrightarrow> map_of ys k = Some v" for v
    using assms(2) by simp
  then show "map_of xs k = map_of ys k" by (metis not_Some_eq)
qed

lemma sort_slice_set: "sort_slice lt xs ys \<Longrightarrow> set ys = set xs"
  by (metis set_mset_mset sort_slice_def)

lemma sort_slice_distinct: "sort_slice lt xs ys \<Longrightarrow> distinct xs \<Longrightarrow> distinct ys"
  by (metis mset_eq_imp_distinct_iff sort_slice_def)

lemma sort_slice_length: "sort_slice lt xs ys \<Longrightarrow> length ys = length xs"
  by (metis size_mset sort_slice_def)

end
