(* ===== verification/Bytes.thy ===== *)
theory Bytes
  imports Prelude "HOL-Library.Char_ord" "HOL-Library.List_Lexorder"
begin

text \<open>
  What the sources use of Go's \<open>encoding/binary\<close>, \<open>encoding/hex\<close> and of slices:
  fixed-width integers in either byte order, \<open>b[i:j]\<close>, \<open>copy\<close> into a zeroed buffer,
  hexadecimal strings.  The locale \<open>codec\<close> is the contract of a pair of an encoder and a
  decoder, \<open>canonical_codec\<close> that of a pair whose decoder accepts only what the encoder
  writes; each wire format of the node is an interpretation of one of them.
\<close>

section \<open>Definitions\<close>

subsection \<open>Integers in byte order\<close>

text \<open>The \<open>n\<close> least significant bytes of \<open>v\<close>, most significant byte first.\<close>

fun be_bytes :: "nat \<Rightarrow> nat \<Rightarrow> bytes" where
  "be_bytes 0 v = []"
| "be_bytes (Suc n) v = be_bytes n (v div 256) @ [word_of_nat (v mod 256)]"

definition be_val :: "bytes \<Rightarrow> nat" where
  "be_val bs = foldl (\<lambda>a b. a * 256 + unat b) 0 bs"

text \<open>\<open>binary.BigEndian.PutUint64\<close>, \<open>Uint64\<close>, \<open>PutUint32\<close>, \<open>Uint32\<close> and the
  little-endian variants.\<close>

definition be_put64 :: "u64 \<Rightarrow> bytes" where
  "be_put64 v = be_bytes 8 (unat v)"

definition be_get64 :: "bytes \<Rightarrow> u64" where
  "be_get64 bs = word_of_nat (be_val bs)"

definition be_put32 :: "u32 \<Rightarrow> bytes" where
  "be_put32 v = be_bytes 4 (unat v)"

definition be_get32 :: "bytes \<Rightarrow> u32" where
  "be_get32 bs = word_of_nat (be_val bs)"

definition le_put64 :: "u64 \<Rightarrow> bytes" where
  "le_put64 v = rev (be_bytes 8 (unat v))"

definition le_get64 :: "bytes \<Rightarrow> u64" where
  "le_get64 bs = word_of_nat (be_val (rev bs))"

text \<open>The bytes \<open>a[:]\<close> of an array of 32 bytes, and the array filled by \<open>copy\<close>.\<close>

definition arr_bytes :: "arr32 \<Rightarrow> bytes" where
  "arr_bytes a = be_bytes 32 (unat a)"

definition arr_of :: "bytes \<Rightarrow> arr32" where
  "arr_of bs = word_of_nat (be_val bs)"

definition arr64_bytes :: "arr64 \<Rightarrow> bytes" where
  "arr64_bytes a = be_bytes 64 (unat a)"

definition arr64_of :: "bytes \<Rightarrow> arr64" where
  "arr64_of bs = word_of_nat (be_val bs)"

definition le_put32 :: "u32 \<Rightarrow> bytes" where
  "le_put32 v = rev (be_bytes 4 (unat v))"

definition le_get32 :: "bytes \<Rightarrow> u32" where
  "le_get32 bs = word_of_nat (be_val (rev bs))"

definition le_put16 :: "16 word \<Rightarrow> bytes" where
  "le_put16 v = rev (be_bytes 2 (unat v))"

definition le_get16 :: "bytes \<Rightarrow> 16 word" where
  "le_get16 bs = word_of_nat (be_val (rev bs))"

subsection \<open>Slices and buffers\<close>

definition slice :: "nat \<Rightarrow> nat \<Rightarrow> bytes \<Rightarrow> bytes" where
  "slice i j bs = take (j - i) (drop i bs)"

text \<open>\<open>make([]byte, n)\<close> and \<open>copy(b[i:j], src)\<close>.\<close>

definition make_buf :: "nat \<Rightarrow> bytes" where
  "make_buf n = replicate n 0"

definition copy_at :: "nat \<Rightarrow> nat \<Rightarrow> bytes \<Rightarrow> bytes \<Rightarrow> bytes" where
  "copy_at i j src b =
     (let n = min (j - i) (length src) in take i b @ take n src @ drop (i + n) b)"

subsection \<open>Hexadecimal strings\<close>

definition hex_digit :: "nat \<Rightarrow> char" where
  "hex_digit n = ''0123456789abcdef'' ! n"

definition hex_byte :: "u8 \<Rightarrow> string" where
  "hex_byte b = [hex_digit (unat b div 16), hex_digit (unat b mod 16)]"

definition hex_encode :: "bytes \<Rightarrow> string" where
  "hex_encode bs = concat (map hex_byte bs)"

section \<open>Integers in byte order\<close>

lemma length_be_bytes [simp]: "length (be_bytes n v) = n"
  by (induction n arbitrary: v) auto

lemma be_bytes_0: "be_bytes n 0 = replicate n 0"
  by (induction n) (simp_all add: replicate_append_same)

lemma be_bytes_add: "be_bytes (m + n) v = be_bytes m (v div 256 ^ n) @ be_bytes n v"
  by (induction n arbitrary: v) (simp_all add: div_mult2_eq)

lemma be_val_snoc [simp]: "be_val (bs @ [b]) = be_val bs * 256 + unat b"
  by (simp add: be_val_def)

lemma be_val_Nil [simp]: "be_val [] = 0"
  by (simp add: be_val_def)

lemma unat_of_nat_eq_u32: "n < 2 ^ 32 \<Longrightarrow> unat (word_of_nat n :: u32) = n"
  by (simp add: unat_of_nat)

lemma unat_of_nat_eq_u16: "n < 2 ^ 16 \<Longrightarrow> unat (word_of_nat n :: 16 word) = n"
  by (simp add: unat_of_nat)

lemma unat_byte_of_nat: "unat (word_of_nat (v mod 256) :: u8) = v mod 256"
  by (simp add: unat_of_nat)

lemma be_val_be_bytes: "be_val (be_bytes n v) = v mod 256 ^ n"
proof (induction n arbitrary: v)
  case (Suc n)
  have "v mod 256 ^ Suc n = (v div 256) mod 256 ^ n * 256 + v mod 256"
    by (simp add: mod_mult2_eq)
  with Suc show ?case by (simp add: unat_byte_of_nat)
qed simp

lemma byte_lt_256: "unat (b :: u8) < 256"
  using unsigned_less [of b, where ?'a = nat] by simp

lemma be_bytes_be_val: "be_bytes (length bs) (be_val bs) = bs"
proof (induction bs rule: rev_induct)
  case (snoc b bs)
  have "(be_val bs * 256 + unat b) div 256 = be_val bs"
    using byte_lt_256 [of b] by simp
  moreover have "(be_val bs * 256 + unat b) mod 256 = unat b"
    using byte_lt_256 [of b] by simp
  ultimately show ?case using snoc by simp
qed simp

lemma be_val_lt: "be_val bs < 256 ^ length bs"
proof (induction bs rule: rev_induct)
  case (snoc b bs)
  then have "be_val bs * 256 + 256 \<le> 256 ^ length bs * 256" by simp
  with byte_lt_256 [of b] show ?case by simp
qed simp

lemma length_puts [simp, codec_simps]:
  "length (be_put64 v) = 8" "length (be_put32 w) = 4" "length (le_put64 v) = 8"
  "length (le_put32 w) = 4" "length (le_put16 h) = 2"
  "length (arr_bytes a) = 32" "length (arr64_bytes b) = 64"
  by (simp_all add: be_put64_def be_put32_def le_put64_def le_put32_def le_put16_def
      arr_bytes_def arr64_bytes_def)

lemma word_of_nat_be_val:
  assumes "256 ^ n = (2 :: nat) ^ LENGTH('l :: len)"
  shows "word_of_nat (be_val (be_bytes n (unat (w :: 'l word)))) = w"
  using unsigned_less [of w, where ?'a = nat] by (simp add: be_val_be_bytes assms)

lemma be_bytes_word_of_nat:
  assumes "256 ^ n = (2 :: nat) ^ LENGTH('l :: len)" and "length bs = n"
  shows "be_bytes n (unat (word_of_nat (be_val bs) :: 'l word)) = bs"
  using be_val_lt [of bs] be_bytes_be_val [of bs] assms by (simp add: unat_of_nat)

lemmas int_codec_defs = be_put64_def be_get64_def be_put32_def be_get32_def le_put64_def le_get64_def
  le_put32_def le_get32_def le_put16_def le_get16_def arr_bytes_def arr_of_def arr64_bytes_def arr64_of_def

lemma get_put [simp]:
  "be_get64 (be_put64 v) = v" "be_get32 (be_put32 w) = w" "le_get64 (le_put64 v) = v"
  "arr_of (arr_bytes a) = a" "le_get32 (le_put32 w) = w" "le_get16 (le_put16 h) = h"
  "arr64_of (arr64_bytes b) = b"
  unfolding int_codec_defs rev_rev_ident by (rule word_of_nat_be_val, simp)+

lemma put_get:
  "length bs = 8 \<Longrightarrow> be_put64 (be_get64 bs) = bs"
  "length bs = 4 \<Longrightarrow> be_put32 (be_get32 bs) = bs"
  "length bs = 32 \<Longrightarrow> arr_bytes (arr_of bs) = bs"
  "length bs = 64 \<Longrightarrow> arr64_bytes (arr64_of bs) = bs"
  unfolding int_codec_defs by (rule be_bytes_word_of_nat, simp_all)+

lemma put_get_le:
  "length bs = 8 \<Longrightarrow> le_put64 (le_get64 bs) = bs"
  "length bs = 4 \<Longrightarrow> le_put32 (le_get32 bs) = bs"
  using be_bytes_word_of_nat [where 'l = 64, of 8 "rev bs"]
    be_bytes_word_of_nat [where 'l = 32, of 4 "rev bs"]
  by (simp_all add: int_codec_defs)

lemma arr_bytes_inject: "arr_bytes a = arr_bytes b \<longleftrightarrow> a = b"
  by (metis get_put(4))

section \<open>Slices and buffers\<close>

lemma length_slice [simp]: "length (slice i j bs) = min (j - i) (length bs - i)"
  by (simp add: slice_def)

lemma slice_append_left: "j \<le> length xs \<Longrightarrow> slice i j (xs @ ys) = slice i j xs"
  by (simp add: slice_def)

lemma slice_append_right:
  "length xs \<le> i \<Longrightarrow> slice i j (xs @ ys) = slice (i - length xs) (j - length xs) ys"
  by (simp add: slice_def)

lemma slice_all: "length xs = n \<Longrightarrow> slice 0 n xs = xs"
  by (simp add: slice_def)

lemma slice_prefix: "length xs = n \<Longrightarrow> slice 0 n (xs @ ys) = xs"
  by (simp add: slice_def)

lemma slice_Cons: "0 < i \<Longrightarrow> slice i j (x # xs) = slice (i - 1) (j - 1) xs"
  by (cases i) (auto simp: slice_def)

lemmas slice_simps = slice_append_right slice_prefix slice_all slice_Cons

text \<open>Copies to consecutive offsets of a zeroed buffer append to the bytes written so far.\<close>

lemma copy_at_next:
  assumes "length pre = i" and "length src = j - i" and "j - i \<le> m"
  shows "copy_at i j src (pre @ make_buf m) = (pre @ src) @ make_buf (m - (j - i))"
  using assms by (simp add: copy_at_def make_buf_def Let_def)

lemma copy_at_first:
  assumes "length src = j" and "j \<le> m"
  shows "copy_at 0 j src (make_buf m) = src @ make_buf (m - j)"
  using copy_at_next [of "[]" 0 src j m] assms by simp

lemma make_buf_0 [simp]: "make_buf 0 = []"
  by (simp add: make_buf_def)

lemma slice_split: "i \<le> j \<Longrightarrow> drop i bs = slice i j bs @ drop j bs"
proof -
  assume "i \<le> j"
  then have "drop (j - i) (drop i bs) = drop j bs" by simp
  then show ?thesis
    unfolding slice_def by (metis append_take_drop_id)
qed

text \<open>A byte string is the concatenation of its slices at any increasing offsets.\<close>

fun pieces :: "nat \<Rightarrow> nat list \<Rightarrow> bytes \<Rightarrow> bytes list" where
  "pieces i [] b = [drop i b]"
| "pieces i (j # js) b = slice i j b # pieces j js b"

lemma concat_pieces: "sorted (i # js) \<Longrightarrow> concat (pieces i js b) = drop i b"
  by (induction js arbitrary: i) (auto simp: slice_split [symmetric])

lemma pieces_eq: "sorted js \<Longrightarrow> b = concat (pieces 0 js b)"
  using concat_pieces [of 0 js b] by simp

lemma single_slice: "i < length b \<Longrightarrow> j = Suc i \<Longrightarrow> slice i j b = [b ! i]"
  by (simp add: slice_def take_Suc hd_drop_conv_nth)

section \<open>Hexadecimal strings\<close>

lemma hex_digit_inj:
  "m < 16 \<Longrightarrow> n < 16 \<Longrightarrow> hex_digit m = hex_digit n \<longleftrightarrow> m = n"
proof -
  assume "m < 16" "n < 16"
  moreover have "distinct ''0123456789abcdef''" by simp
  ultimately show ?thesis
    unfolding hex_digit_def by (subst nth_eq_iff_index_eq) simp_all
qed

lemma hex_byte_inj: "hex_byte a = hex_byte b \<longleftrightarrow> a = b"
proof
  assume "hex_byte a = hex_byte b"
  moreover have "unat a div 16 < 16" "unat b div 16 < 16"
    using byte_lt_256 [of a] byte_lt_256 [of b] by auto
  ultimately have "unat a div 16 = unat b div 16" and "unat a mod 16 = unat b mod 16"
    by (auto simp: hex_byte_def hex_digit_inj)
  then have "unat a = unat b" by (metis div_mult_mod_eq)
  then show "a = b" by (simp add: word_unat_eq_iff)
qed simp

lemma length_hex_encode [simp]: "length (hex_encode bs) = 2 * length bs"
  by (induction bs) (auto simp: hex_encode_def hex_byte_def)

lemma hex_encode_Cons: "hex_encode (b # bs) = hex_byte b @ hex_encode bs"
  by (simp add: hex_encode_def)

lemma hex_encode_inj: "hex_encode xs = hex_encode ys \<longleftrightarrow> xs = ys"
proof (induction xs arbitrary: ys)
  case Nil
  then show ?case by (cases ys) (auto simp: hex_encode_def hex_byte_def)
next
  case (Cons x xs)
  show ?case
  proof (cases ys)
    case Nil
    then show ?thesis by (simp add: hex_encode_def hex_byte_def)
  next
    case (Cons y zs)
    moreover have "length (hex_byte x) = length (hex_byte y)" by (simp add: hex_byte_def)
    ultimately show ?thesis by (simp add: hex_encode_Cons hex_byte_inj Cons.IH)
  qed
qed

section \<open>Codecs\<close>

text \<open>An encoder defined on the well-formed values, and a decoder that recovers them.\<close>

locale codec =
  fixes enc :: "'a \<Rightarrow> 'e + bytes"
    and dec :: "bytes \<Rightarrow> 'f + 'a"
    and ok :: "'a \<Rightarrow> bool"
  assumes enc_ok: "ok x \<Longrightarrow> \<exists>b. enc x = Inr b"
    and dec_enc: "enc x = Inr b \<Longrightarrow> dec b = Inr x"
begin

lemma enc_inj: "enc x = Inr b \<Longrightarrow> enc y = Inr b \<Longrightarrow> x = y"
  by (metis dec_enc sum.inject(2))

lemma ok_round_trip: "ok x \<Longrightarrow> \<exists>b. enc x = Inr b \<and> dec b = Inr x"
  using enc_ok dec_enc by blast

end

locale canonical_codec = codec +
  assumes enc_dec: "dec b = Inr x \<Longrightarrow> enc x = Inr b"
begin

lemma dec_inj: "dec b = Inr x \<Longrightarrow> dec c = Inr x \<Longrightarrow> b = c"
  by (metis enc_dec sum.inject(2))

lemma dec_iff_enc: "dec b = Inr x \<longleftrightarrow> enc x = Inr b"
  using enc_dec dec_enc by blast

end

end
