(* ===== verification/Lpod_Accounting.thy ===== *)
theory Lpod_Accounting
  imports Bytes "HOL-Library.AList"
begin

text \<open>
  The LPoD reserve accounting of \<open>lpod/accounting.go\<close>: the tier table, the conserved pool state,
  the per-vault remainders (\<open>Carry\<close>) and \<open>Settle\<close>, which plans the payments of one block.
  Amounts are 64-bit words with the overflow checks of the code; \<open>big.Int\<close> products are natural
  numbers.  A Go map of carries is an association list in the order the range loop visits it.
  The lemmas show that the conservation laws of \<open>Validate\<close> are kept by every vault step, that no
  subtraction wraps, that remainders stay below their divisors and that no rounding is lost.
\<close>

section \<open>Definitions\<close>

definition InitialNAPRO :: u64 where "InitialNAPRO = 100000000000000000"
definition LpodUnit :: u64 where "LpodUnit = 100000000"
definition YearSeconds :: u64 where "YearSeconds = 31536000"
definition denominator :: u64 where "denominator = 3153600000"

record Tier =
  Threshold :: u64
  MinimumDeposit :: u64
  LeaderPercent :: u64
  APRPercent :: u64

definition mk_tier :: "u64 \<Rightarrow> u64 \<Rightarrow> u64 \<Rightarrow> u64 \<Rightarrow> Tier" where
  "mk_tier th md l a =
     \<lparr>Threshold = th * LpodUnit, MinimumDeposit = md * LpodUnit, LeaderPercent = l, APRPercent = a\<rparr>"

definition tiers :: "Tier list" where
  "tiers =
    [mk_tier 100000 100 8 3,
     mk_tier 500000 1000 10 5,
     mk_tier 1000000 10000 12 6,
     mk_tier 5000000 20000 15 8,
     mk_tier 10000000 50000 16 9,
     mk_tier 30000000 80000 16 9,
     mk_tier 50000000 100000 16 9,
     mk_tier 80000000 150000 16 9,
     mk_tier 100000000 200000 20 10]"

datatype lpod_error =
    LStakeOutside
  | LOverflow
  | LRationalOverflow
  | LMissingDebit
  | LIncomeConservation
  | LReserveConservation
  | LLiabilityConservation
  | LNonsequential
  | LInvalidCarry
  | LVaultOrder
  | LGuardianStake
  | LArrears
  | LUnreachable

text \<open>The backward scan of \<open>TierFor\<close>: the last tier whose threshold is reached.\<close>

fun scan_tiers :: "u64 \<Rightarrow> Tier list \<Rightarrow> lpod_error + Tier" where
  "scan_tiers tot [] = Inl LUnreachable"
| "scan_tiers tot (t # ts) = (if Threshold t \<le> tot then Inr t else scan_tiers tot ts)"

definition TierFor :: "u64 \<Rightarrow> lpod_error + Tier" where
  "TierFor tot =
     (if tot < Threshold (hd tiers) \<or> Threshold (last tiers) < tot then Inl LStakeOutside
      else scan_tiers tot (rev tiers))"

record LpodState =
  FundingDebit :: u64
  Balance :: u64
  RewardInflow :: u64
  LeaderPaid :: u64
  AngelPaid :: u64
  SurplusInflow :: u64
  DeficitOutflow :: u64
  UnfundedLiability :: u64
  AccruedLiability :: u64
  LastHeight :: u64

record Carry =
  CarryAPR :: u64
  CarryLeader :: u64

record Vault =
  VaultID :: string
  TotalStake :: u64
  GuardianStake :: u64
  ActualIncome :: u64
  ElapsedSeconds :: u64
  ExactAccrual :: "u64 option"
  Arrears :: u64

record Payment =
  PayVaultID :: string
  PayLeader :: u64
  PayAngels :: u64
  PayUnfunded :: u64

definition add64 :: "u64 \<Rightarrow> u64 \<Rightarrow> lpod_error + u64" where
  "add64 a b = (if max_u64 - a < b then Inl LOverflow else Inr (a + b))"

definition rational :: "u64 \<Rightarrow> u64 \<Rightarrow> u64 \<Rightarrow> u64 \<Rightarrow> u64 \<Rightarrow> lpod_error + (u64 \<times> u64)" where
  "rational a b c carry divisor =
     (let n = unat a * unat b * unat c + unat carry;
          q = n div unat divisor; r = n mod unat divisor
      in if 2 ^ 64 \<le> q then Inl LRationalOverflow else Inr (word_of_nat q, word_of_nat r))"

definition lpod_Validate :: "LpodState \<Rightarrow> lpod_error + unit" where
  "lpod_Validate s =
     (if FundingDebit s \<noteq> InitialNAPRO then Inl LMissingDebit
      else case add64 (FundingDebit s) (RewardInflow s) of Inl e \<Rightarrow> Inl e | Inr lhs \<Rightarrow>
      (case add64 (Balance s) (LeaderPaid s) of Inl e \<Rightarrow> Inl e | Inr rhs0 \<Rightarrow>
      (case add64 rhs0 (AngelPaid s) of Inl e \<Rightarrow> Inl e | Inr rhs \<Rightarrow>
       if lhs \<noteq> rhs then Inl LIncomeConservation
       else case add64 (FundingDebit s) (SurplusInflow s) of Inl e \<Rightarrow> Inl e | Inr available \<Rightarrow>
       if available < DeficitOutflow s \<or> available - DeficitOutflow s \<noteq> Balance s
       then Inl LReserveConservation
       else case add64 (AngelPaid s) (UnfundedLiability s) of Inl e \<Rightarrow> Inl e | Inr liability \<Rightarrow>
       if liability \<noteq> AccruedLiability s then Inl LLiabilityConservation else Inr ())))"

text \<open>One entry of the increment table of \<open>Settle\<close>: \<open>*inc.dst, err = add(*inc.dst, inc.amount)\<close>.\<close>

definition bump :: "(LpodState \<Rightarrow> u64) \<Rightarrow> ((u64 \<Rightarrow> u64) \<Rightarrow> LpodState \<Rightarrow> LpodState) \<Rightarrow> u64
    \<Rightarrow> LpodState \<Rightarrow> lpod_error + LpodState" where
  "bump get upd amount s =
     (case add64 (get s) amount of Inl e \<Rightarrow> Inl e | Inr v \<Rightarrow> Inr (upd (\<lambda>_. v) s))"

definition increments :: "u64 \<Rightarrow> u64 \<Rightarrow> u64 \<Rightarrow> u64 \<Rightarrow> u64 \<Rightarrow> u64 \<Rightarrow> u64
    \<Rightarrow> (LpodState \<Rightarrow> lpod_error + LpodState) list" where
  "increments income leader paid missing newDue surplus deficit =
     [bump RewardInflow RewardInflow_update income,
      bump LeaderPaid LeaderPaid_update leader,
      bump AngelPaid AngelPaid_update paid,
      bump UnfundedLiability UnfundedLiability_update missing,
      bump AccruedLiability AccruedLiability_update newDue,
      bump SurplusInflow SurplusInflow_update surplus,
      bump DeficitOutflow DeficitOutflow_update deficit]"

record split_out =
  so_state :: LpodState
  so_paid :: u64
  so_missing :: u64
  so_surplus :: u64
  so_deficit :: u64

text \<open>The surplus or deficit branch: the residual income against the amount due.\<close>

definition split_residual :: "u64 \<Rightarrow> u64 \<Rightarrow> LpodState \<Rightarrow> lpod_error + split_out" where
  "split_residual residual due s =
     (if due \<le> residual then
        (let surplus = residual - due in
         case add64 (Balance s) surplus of Inl e \<Rightarrow> Inl e
         | Inr b \<Rightarrow> Inr \<lparr>so_state = s\<lparr>Balance := b\<rparr>, so_paid = due, so_missing = 0,
                        so_surplus = surplus, so_deficit = 0\<rparr>)
      else
        (let deficit0 = due - residual;
             deficit = (if Balance s < deficit0 then Balance s else deficit0);
             paid = residual + deficit
         in Inr \<lparr>so_state = s\<lparr>Balance := Balance s - deficit\<rparr>, so_paid = paid,
                 so_missing = due - paid, so_surplus = 0, so_deficit = deficit\<rparr>))"

type_synonym carries = "(string \<times> Carry) list"
type_synonym settle_acc = "LpodState \<times> carries \<times> Payment list"

definition carry_of :: "carries \<Rightarrow> string \<Rightarrow> Carry" where
  "carry_of cs i = (case map_of cs i of Some c \<Rightarrow> c | None \<Rightarrow> \<lparr>CarryAPR = 0, CarryLeader = 0\<rparr>)"

definition settle_vault :: "string option \<Rightarrow> Vault \<Rightarrow> settle_acc \<Rightarrow> lpod_error + settle_acc" where
  "settle_vault prev v acc =
     (case acc of (nxt, out, payments) \<Rightarrow>
      if VaultID v = '''' \<or> (case prev of None \<Rightarrow> False | Some p \<Rightarrow> VaultID v \<le> p) then Inl LVaultOrder
      else case TierFor (TotalStake v) of Inl e \<Rightarrow> Inl e | Inr t \<Rightarrow>
      if TotalStake v < GuardianStake v then Inl LGuardianStake
      else let c = carry_of out (VaultID v) in
      case rational (ActualIncome v) (LeaderPercent t) 1 (CarryLeader c) 100 of
        Inl e \<Rightarrow> Inl e | Inr (leader, lrem) \<Rightarrow>
      (case rational (GuardianStake v) (APRPercent t) (ElapsedSeconds v) (CarryAPR c) denominator of
        Inl e \<Rightarrow> Inl e | Inr (due0, arem0) \<Rightarrow>
       let newDue = (case ExactAccrual v of Some x \<Rightarrow> x | None \<Rightarrow> due0);
           arem = (case ExactAccrual v of Some _ \<Rightarrow> CarryAPR c | None \<Rightarrow> arem0)
       in if UnfundedLiability nxt < Arrears v then Inl LArrears
       else let nxt1 = nxt\<lparr>UnfundedLiability := UnfundedLiability nxt - Arrears v\<rparr> in
       case add64 newDue (Arrears v) of Inl e \<Rightarrow> Inl e | Inr due \<Rightarrow>
       let residual = ActualIncome v - leader in
       (case split_residual residual due nxt1 of Inl e \<Rightarrow> Inl e | Inr so \<Rightarrow>
       (case foldE (\<lambda>f s. f s)
               (increments (ActualIncome v) leader (so_paid so) (so_missing so) newDue
                  (so_surplus so) (so_deficit so)) (so_state so) of
          Inl e \<Rightarrow> Inl e
        | Inr nxt2 \<Rightarrow>
            Inr (nxt2,
                 AList.update (VaultID v) \<lparr>CarryAPR = arem, CarryLeader = lrem\<rparr> out,
                 payments @ [\<lparr>PayVaultID = VaultID v, PayLeader = leader,
                              PayAngels = so_paid so, PayUnfunded = so_missing so\<rparr>])))))"

text \<open>The loop over the vaults, each with the identifier of the one before it.\<close>

definition settle_vaults :: "Vault list \<Rightarrow> settle_acc \<Rightarrow> lpod_error + settle_acc" where
  "settle_vaults vs =
     foldE (\<lambda>p. settle_vault (fst p) (snd p)) (zip (None # map (Some \<circ> VaultID) vs) vs)"

definition carry_ok :: "string \<times> Carry \<Rightarrow> bool" where
  "carry_ok p \<longleftrightarrow> fst p \<noteq> '''' \<and> CarryAPR (snd p) < denominator \<and> CarryLeader (snd p) < 100"

definition Settle :: "LpodState \<Rightarrow> carries \<Rightarrow> u64 \<Rightarrow> Vault list \<Rightarrow> lpod_error + settle_acc" where
  "Settle before cs height vaults =
     (case lpod_Validate before of Inl e \<Rightarrow> Inl e | Inr _ \<Rightarrow>
      if LastHeight before = max_u64 \<or> height \<noteq> LastHeight before + 1 then Inl LNonsequential
      else if \<not> list_all carry_ok cs then Inl LInvalidCarry
      else case settle_vaults vaults (before, cs, []) of Inl e \<Rightarrow> Inl e
      | Inr (nxt, out, payments) \<Rightarrow>
          (let final = nxt\<lparr>LastHeight := height\<rparr> in
           case lpod_Validate final of Inl e \<Rightarrow> Inl e | Inr _ \<Rightarrow> Inr (final, out, payments)))"

text \<open>The conservation laws of \<open>Validate\<close> over natural numbers, with no wrap-around.\<close>

definition conserved :: "LpodState \<Rightarrow> bool" where
  "conserved s \<longleftrightarrow> FundingDebit s = InitialNAPRO \<and>
     unat (FundingDebit s) + unat (RewardInflow s)
       = unat (Balance s) + unat (LeaderPaid s) + unat (AngelPaid s) \<and>
     unat (FundingDebit s) + unat (SurplusInflow s) = unat (DeficitOutflow s) + unat (Balance s) \<and>
     unat (AngelPaid s) + unat (UnfundedLiability s) = unat (AccruedLiability s)"

text \<open>A run of settlements, block after block, with all payments they plan.\<close>

definition settle_block :: "u64 \<times> Vault list \<Rightarrow> settle_acc \<Rightarrow> lpod_error + settle_acc" where
  "settle_block b acc =
     (case acc of (s, cs, ps) \<Rightarrow>
      case Settle s cs (fst b) (snd b) of Inl e \<Rightarrow> Inl e
      | Inr (s', cs', qs) \<Rightarrow> Inr (s', cs', ps @ qs))"

definition tier_leader_percent :: "u64 \<Rightarrow> nat" where
  "tier_leader_percent stake =
     (case TierFor stake of Inl _ \<Rightarrow> 0 | Inr t \<Rightarrow> unat (LeaderPercent t))"

definition tier_apr_percent :: "u64 \<Rightarrow> nat" where
  "tier_apr_percent stake = (case TierFor stake of Inl _ \<Rightarrow> 0 | Inr t \<Rightarrow> unat (APRPercent t))"

text \<open>The exact share of one vault in one block: the leader's, in hundredths.\<close>

definition leader_share :: "string \<Rightarrow> Vault \<Rightarrow> nat" where
  "leader_share i v =
     (if VaultID v = i
      then unat (ActualIncome v) * tier_leader_percent (TotalStake v) else 0)"

text \<open>The amount due to the angels of a vault, in units of \<open>1 / denominator\<close>.\<close>

definition angel_share :: "string \<Rightarrow> Vault \<Rightarrow> nat" where
  "angel_share i v =
     (if VaultID v = i
      then unat denominator * unat (Arrears v) +
               (case ExactAccrual v of
                   Some x \<Rightarrow> unat denominator * unat x
                 | None \<Rightarrow> unat (GuardianStake v) * tier_apr_percent (TotalStake v) * unat (ElapsedSeconds v))
      else 0)"

definition paid_leader :: "string \<Rightarrow> Payment list \<Rightarrow> nat" where
  "paid_leader i ps = sum_list (map (\<lambda>p. if PayVaultID p = i then unat (PayLeader p) else 0) ps)"

definition paid_angels :: "string \<Rightarrow> Payment list \<Rightarrow> nat" where
  "paid_angels i ps =
     sum_list (map (\<lambda>p. if PayVaultID p = i
                        then unat (PayAngels p) + unat (PayUnfunded p) else 0) ps)"

definition paid_total :: "Payment list \<Rightarrow> nat" where
  "paid_total ps = sum_list (map (\<lambda>p. unat (PayLeader p) + unat (PayAngels p)) ps)"

section \<open>Checked arithmetic\<close>

lemma add64_Inr: "add64 a b = Inr c \<longleftrightarrow> unat c = unat a + unat b"
  using unat_u64_lt [of c] by (auto simp: add64_def u64_arith u64_eq_iff not_le)

lemma add64_error: "add64 a b = Inl e \<Longrightarrow> e = LOverflow"
  by (auto simp: add64_def split: if_splits)

lemma rational_Inr:
  assumes "rational a b c r d = Inr (q, s)" and "d \<noteq> 0"
  shows "unat q * unat d + unat s = unat a * unat b * unat c + unat r" and "unat s < unat d"
proof -
  let ?n = "unat a * unat b * unat c + unat r"
  have d: "0 < unat d" using assms(2) by (simp add: unat_gt_0)
  have q: "?n div unat d < 2 ^ 64" and qs: "q = word_of_nat (?n div unat d)" "s = word_of_nat (?n mod unat d)"
    using assms(1) by (auto simp: rational_def Let_def split: if_splits)
  have "?n mod unat d < 2 ^ 64"
    using mod_less_divisor [OF d, of ?n] unat_u64_lt [of d] by (rule less_trans)
  with q qs have "unat q = ?n div unat d" "unat s = ?n mod unat d"
    by (simp_all add: unat_of_nat)
  with d show "unat q * unat d + unat s = ?n" "unat s < unat d" by simp_all
qed

lemma rational_error: "rational a b c r d = Inl e \<Longrightarrow> e = LRationalOverflow"
  by (auto simp: rational_def Let_def split: if_splits)

section \<open>Tiers\<close>

lemma scan_tiers_Inr: "scan_tiers x ts = Inr t \<Longrightarrow> t \<in> set ts \<and> Threshold t \<le> x"
  by (induction ts) (auto split: if_splits)

lemma TierFor_percent:
  assumes "TierFor x = Inr t"
  shows "unat (LeaderPercent t) \<le> 20"
proof -
  have "t \<in> set tiers"
    using assms scan_tiers_Inr [of x "rev tiers" t] by (auto simp: TierFor_def split: if_splits)
  then show ?thesis by (auto simp: tiers_def mk_tier_def)
qed

text \<open>A leader takes at most the income: the subtraction of \<open>Settle\<close> does not wrap.\<close>

lemma leader_le_income:
  assumes "rational income p 1 c 100 = Inr (leader, r)" and "unat p \<le> 20" and "c < 100"
  shows "leader \<le> income"
proof -
  have eq: "unat leader * 100 + unat r = unat income * unat p + unat c"
    using rational_Inr(1) [OF assms(1)] by simp
  have "unat income * unat p \<le> unat income * 20"
    using assms(2) by simp
  moreover have "unat c < 100"
    using assms(3) by (simp add: u64_less_iff)
  ultimately have "unat leader * 100 < unat income * 20 + 100"
    using eq by linarith
  then have "unat leader \<le> unat income" by linarith
  then show ?thesis by (simp add: u64_le_iff)
qed

section \<open>One vault\<close>

lemma split_residual_effect:
  assumes "split_residual residual due s = Inr so"
  shows "so_state so = s\<lparr>Balance := Balance (so_state so)\<rparr>"
    and "unat (Balance (so_state so)) + unat (so_paid so) = unat (Balance s) + unat residual"
    and "unat (so_paid so) + unat (so_missing so) = unat due"
    and "unat (Balance (so_state so)) + unat (so_deficit so) = unat (Balance s) + unat (so_surplus so)"
    and "so_missing so \<noteq> 0 \<Longrightarrow> Balance (so_state so) = 0"
proof -
  note unfolds = split_residual_def Let_def
  show "so_state so = s\<lparr>Balance := Balance (so_state so)\<rparr>"
    using assms by (auto simp: unfolds split: if_splits sum.splits)
  have "unat (Balance (so_state so)) + unat (so_paid so) = unat (Balance s) + unat residual \<and>
    unat (so_paid so) + unat (so_missing so) = unat due \<and>
    unat (Balance (so_state so)) + unat (so_deficit so) = unat (Balance s) + unat (so_surplus so) \<and>
    (so_missing so \<noteq> 0 \<longrightarrow> Balance (so_state so) = 0)"
  proof (cases "due \<le> residual")
    case True
    then show ?thesis
      using assms unat_diff_u64 [OF True]
      by (auto simp: unfolds add64_Inr u64_le_iff split: sum.splits)
  next
    case False
    then have le: "residual \<le> due" and d: "unat (due - residual) = unat due - unat residual"
      by (simp_all add: unat_diff_u64)
    define x where "x = (if Balance s < due - residual then Balance s else due - residual)"
    have x: "unat x = min (unat (Balance s)) (unat due - unat residual)"
      by (simp add: x_def u64_less_iff d min_def)
    have "x \<le> Balance s" by (simp add: u64_le_iff x)
    then have bal: "unat (Balance s - x) = unat (Balance s) - unat x"
      by (rule unat_diff_u64)
    have paid: "unat (residual + x) = unat residual + unat x"
      using le unat_u64_lt [of due] x by (intro unat_add_u64) (simp add: u64_le_iff)
    then have "residual + x \<le> due"
      using le x by (simp add: u64_le_iff)
    then have miss: "unat (due - (residual + x)) = unat due - (unat residual + unat x)"
      by (simp add: unat_diff_u64 paid)
    have so: "so = \<lparr>so_state = s\<lparr>Balance := Balance s - x\<rparr>, so_paid = residual + x,
        so_missing = due - (residual + x), so_surplus = 0, so_deficit = x\<rparr>"
      using assms False by (simp add: unfolds x_def)
    show ?thesis
      using le by (simp add: so bal paid miss x u64_eq_iff u64_le_iff)
  qed
  then show "unat (Balance (so_state so)) + unat (so_paid so) = unat (Balance s) + unat residual"
    and "unat (so_paid so) + unat (so_missing so) = unat due"
    and "unat (Balance (so_state so)) + unat (so_deficit so) = unat (Balance s) + unat (so_surplus so)"
    and "so_missing so \<noteq> 0 \<Longrightarrow> Balance (so_state so) = 0"
    by blast+
qed

lemma bump_Inr:
  "bump get upd x s = Inr s' \<longleftrightarrow> (\<exists>v. unat v = unat (get s) + unat x \<and> s' = upd (\<lambda>_. v) s)"
  by (auto simp: bump_def simp flip: add64_Inr split: sum.splits)

lemma increments_effect:
  assumes "foldE (\<lambda>f s. f s) (increments income leader paid missing newDue surplus deficit) s = Inr s'"
  shows "FundingDebit s' = FundingDebit s" "Balance s' = Balance s" "LastHeight s' = LastHeight s"
    "unat (RewardInflow s') = unat (RewardInflow s) + unat income"
    "unat (LeaderPaid s') = unat (LeaderPaid s) + unat leader"
    "unat (AngelPaid s') = unat (AngelPaid s) + unat paid"
    "unat (UnfundedLiability s') = unat (UnfundedLiability s) + unat missing"
    "unat (AccruedLiability s') = unat (AccruedLiability s) + unat newDue"
    "unat (SurplusInflow s') = unat (SurplusInflow s) + unat surplus"
    "unat (DeficitOutflow s') = unat (DeficitOutflow s) + unat deficit"
  using assms by (auto simp: increments_def bump_Inr foldE_Cons_Inr simp del: foldE.simps(2))

text \<open>What a successful step of the loop has computed.\<close>

lemma settle_vaultE:
  assumes "settle_vault prev v (s, out, ps) = Inr (s', out', ps')"
  obtains t leader lrem due0 arem0 newDue arem due so where
    "VaultID v \<noteq> ''''"
    "TierFor (TotalStake v) = Inr t"
    "rational (ActualIncome v) (LeaderPercent t) 1 (CarryLeader (carry_of out (VaultID v))) 100
       = Inr (leader, lrem)"
    "rational (GuardianStake v) (APRPercent t) (ElapsedSeconds v)
       (CarryAPR (carry_of out (VaultID v))) denominator = Inr (due0, arem0)"
    "newDue = (case ExactAccrual v of Some x \<Rightarrow> x | None \<Rightarrow> due0)"
    "arem = (case ExactAccrual v of Some _ \<Rightarrow> CarryAPR (carry_of out (VaultID v)) | None \<Rightarrow> arem0)"
    "Arrears v \<le> UnfundedLiability s"
    "unat due = unat newDue + unat (Arrears v)"
    "split_residual (ActualIncome v - leader) due
       (s\<lparr>UnfundedLiability := UnfundedLiability s - Arrears v\<rparr>) = Inr so"
    "foldE (\<lambda>f s. f s) (increments (ActualIncome v) leader (so_paid so) (so_missing so) newDue
       (so_surplus so) (so_deficit so)) (so_state so) = Inr s'"
    "out' = AList.update (VaultID v) \<lparr>CarryAPR = arem, CarryLeader = lrem\<rparr> out"
    "ps' = ps @ [\<lparr>PayVaultID = VaultID v, PayLeader = leader, PayAngels = so_paid so,
                  PayUnfunded = so_missing so\<rparr>]"
  using assms
  by (auto simp: settle_vault_def Let_def not_less simp flip: add64_Inr
      split: if_splits sum.splits prod.splits)

lemma carries_ok_carry_of:
  assumes "list_all carry_ok cs"
  shows "CarryAPR (carry_of cs i) < denominator" and "CarryLeader (carry_of cs i) < 100"
  using assms by (auto simp: carry_of_def carry_ok_def list_all_iff denominator_def
      split: option.splits dest!: map_of_SomeD)

lemma carries_ok_update:
  assumes "list_all carry_ok cs" and "i \<noteq> ''''" and "CarryAPR c < denominator" and "CarryLeader c < 100"
  shows "list_all carry_ok (AList.update i c cs)"
  using assms by (induction cs) (auto simp: carry_ok_def)

lemma carry_of_update:
  "carry_of (AList.update i c cs) j = (if j = i then c else carry_of cs j)"
  by (simp add: carry_of_def update_conv')

text \<open>The invariant of the loop: conservation and bounded remainders.\<close>

definition settle_inv :: "settle_acc \<Rightarrow> bool" where
  "settle_inv acc \<longleftrightarrow> conserved (fst acc) \<and> list_all carry_ok (fst (snd acc))"

lemma settle_vault_amounts:
  assumes "settle_vault prev v (s, out, ps) = Inr (s', out', ps')" and "list_all carry_ok out"
  obtains leader paid missing newDue surplus deficit lrem arem :: u64 where
    "unat (Balance s') + unat leader + unat paid = unat (Balance s) + unat (ActualIncome v)"
    "unat paid + unat missing = unat newDue + unat (Arrears v)"
    "unat (Balance s') + unat deficit = unat (Balance s) + unat surplus"
    "missing \<noteq> 0 \<Longrightarrow> Balance s' = 0"
    "Arrears v \<le> UnfundedLiability s"
    "FundingDebit s' = FundingDebit s" "LastHeight s' = LastHeight s"
    "unat (RewardInflow s') = unat (RewardInflow s) + unat (ActualIncome v)"
    "unat (LeaderPaid s') = unat (LeaderPaid s) + unat leader"
    "unat (AngelPaid s') = unat (AngelPaid s) + unat paid"
    "unat (UnfundedLiability s') + unat (Arrears v) = unat (UnfundedLiability s) + unat missing"
    "unat (AccruedLiability s') = unat (AccruedLiability s) + unat newDue"
    "unat (SurplusInflow s') = unat (SurplusInflow s) + unat surplus"
    "unat (DeficitOutflow s') = unat (DeficitOutflow s) + unat deficit"
    "out' = AList.update (VaultID v) \<lparr>CarryAPR = arem, CarryLeader = lrem\<rparr> out"
    "ps' = ps @ [\<lparr>PayVaultID = VaultID v, PayLeader = leader, PayAngels = paid, PayUnfunded = missing\<rparr>]"
    "VaultID v \<noteq> ''''" "lrem < 100" "arem < denominator"
    "unat leader * 100 + unat lrem = unat (ActualIncome v) * tier_leader_percent (TotalStake v)
       + unat (CarryLeader (carry_of out (VaultID v)))"
    "unat denominator * (unat newDue + unat (Arrears v)) + unat arem
       = angel_share (VaultID v) v + unat (CarryAPR (carry_of out (VaultID v)))"
  using assms(1)
proof (rule settle_vaultE)
  fix t leader lrem due0 arem0 newDue arem due so
  let ?c = "carry_of out (VaultID v)"
  let ?s1 = "s\<lparr>UnfundedLiability := UnfundedLiability s - Arrears v\<rparr>"
  assume id: "VaultID v \<noteq> ''''" and tier: "TierFor (TotalStake v) = Inr t"
    and L: "rational (ActualIncome v) (LeaderPercent t) 1 (CarryLeader ?c) 100 = Inr (leader, lrem)"
    and A: "rational (GuardianStake v) (APRPercent t) (ElapsedSeconds v) (CarryAPR ?c) denominator
      = Inr (due0, arem0)"
    and nd: "newDue = (case ExactAccrual v of Some x \<Rightarrow> x | None \<Rightarrow> due0)"
    and ar: "arem = (case ExactAccrual v of Some _ \<Rightarrow> CarryAPR ?c | None \<Rightarrow> arem0)"
    and arr: "Arrears v \<le> UnfundedLiability s"
    and due: "unat due = unat newDue + unat (Arrears v)"
    and so: "split_residual (ActualIncome v - leader) due ?s1 = Inr so"
    and inc: "foldE (\<lambda>f s. f s) (increments (ActualIncome v) leader (so_paid so) (so_missing so) newDue
       (so_surplus so) (so_deficit so)) (so_state so) = Inr s'"
    and out': "out' = AList.update (VaultID v) \<lparr>CarryAPR = arem, CarryLeader = lrem\<rparr> out"
    and ps': "ps' = ps @ [\<lparr>PayVaultID = VaultID v, PayLeader = leader, PayAngels = so_paid so,
                  PayUnfunded = so_missing so\<rparr>]"
  note c = carries_ok_carry_of [OF assms(2), of "VaultID v"]
  have le: "leader \<le> ActualIncome v"
    using leader_le_income [OF L TierFor_percent [OF tier]] c(2) by blast
  have den: "denominator \<noteq> 0" by (simp add: denominator_def)
  note eL = rational_Inr [OF L] and eA = rational_Inr [OF A den]
  note e = split_residual_effect [OF so] and i = increments_effect [OF inc]
  have flds: "RewardInflow (so_state so) = RewardInflow s" "LeaderPaid (so_state so) = LeaderPaid s"
    "AngelPaid (so_state so) = AngelPaid s" "AccruedLiability (so_state so) = AccruedLiability s"
    "UnfundedLiability (so_state so) = UnfundedLiability s - Arrears v"
    "SurplusInflow (so_state so) = SurplusInflow s" "DeficitOutflow (so_state so) = DeficitOutflow s"
    "FundingDebit (so_state so) = FundingDebit s" "LastHeight (so_state so) = LastHeight s"
    by (subst e(1), simp)+
  have res: "unat (ActualIncome v - leader) = unat (ActualIncome v) - unat leader"
    "unat leader \<le> unat (ActualIncome v)"
    using le by (simp_all add: unat_diff_u64 u64_le_iff)
  have ul: "unat (UnfundedLiability s - Arrears v) = unat (UnfundedLiability s) - unat (Arrears v)"
    "unat (Arrears v) \<le> unat (UnfundedLiability s)"
    using arr by (simp_all add: unat_diff_u64 u64_le_iff)
  have lr: "lrem < 100" using eL(2) by (simp add: u64_less_iff)
  have am: "arem < denominator"
    using eA(2) c(1) by (auto simp: ar u64_less_iff split: option.splits)
  have lsh: "unat leader * 100 + unat lrem = unat (ActualIncome v) * tier_leader_percent (TotalStake v)
       + unat (CarryLeader ?c)"
    using eL(1) by (simp add: tier_leader_percent_def tier)
  have ash: "unat denominator * (unat newDue + unat (Arrears v)) + unat arem
       = angel_share (VaultID v) v + unat (CarryAPR ?c)"
  proof (cases "ExactAccrual v")
    case None
    then have "unat denominator * unat newDue + unat arem
        = unat (GuardianStake v) * tier_apr_percent (TotalStake v) * unat (ElapsedSeconds v) + unat (CarryAPR ?c)"
      using eA(1) by (simp add: nd ar tier_apr_percent_def tier mult.commute)
    with None show ?thesis by (simp add: angel_share_def algebra_simps)
  next
    case (Some x)
    then show ?thesis by (simp add: nd ar angel_share_def algebra_simps)
  qed
  have bal: "unat (Balance s') + unat leader + unat (so_paid so)
      = unat (Balance s) + unat (ActualIncome v)"
    using e(2) i(2) res by simp
  have dues: "unat (so_paid so) + unat (so_missing so) = unat newDue + unat (Arrears v)"
    using e(3) due by simp
  have res2: "unat (Balance s') + unat (so_deficit so) = unat (Balance s) + unat (so_surplus so)"
    using e(4) i(2) by simp
  have miss: "so_missing so \<noteq> 0 \<Longrightarrow> Balance s' = 0"
    using e(5) i(2) by simp
  have unf: "unat (UnfundedLiability s') + unat (Arrears v)
      = unat (UnfundedLiability s) + unat (so_missing so)"
    using i(7) ul by (simp add: flds)
  show thesis
    by (rule that [OF bal dues res2 miss arr i(1,3-6) [unfolded flds] unf i(8-10) [unfolded flds]
          out' ps' id lr am lsh ash])
qed

section \<open>Conservation\<close>

lemma validate_conserved: "lpod_Validate s = Inr u \<Longrightarrow> conserved s"
  by (auto simp: lpod_Validate_def conserved_def add64_Inr not_less u64_le_iff u64_eq_iff unat_diff_u64
      split: if_splits sum.splits)

lemma conserved_validate:
  assumes "conserved s"
  shows "lpod_Validate s = Inr () \<or> lpod_Validate s = Inl LOverflow"
  using assms
  by (auto simp: lpod_Validate_def conserved_def add64_Inr not_less u64_le_iff u64_eq_iff u64_less_iff unat_diff_u64
      split: if_splits sum.splits dest: add64_error)

lemma conserved_height: "conserved (s\<lparr>LastHeight := h\<rparr>) = conserved s"
  by (simp add: conserved_def)

lemma settle_vault_inv:
  assumes "settle_inv acc" and "settle_vault prev v acc = Inr acc'"
  shows "settle_inv acc'"
proof (cases acc, cases acc')
  fix s out ps s' out' ps'
  assume acc: "acc = (s, out, ps)" "acc' = (s', out', ps')"
  with assms have ok: "list_all carry_ok out" and c: "conserved s"
    and step: "settle_vault prev v (s, out, ps) = Inr (s', out', ps')"
    by (auto simp: settle_inv_def)
  from step ok show ?thesis
  proof (rule settle_vault_amounts)
  qed (use acc c ok in \<open>auto simp: settle_inv_def conserved_def carries_ok_update\<close>)
qed

interpretation vault_loop: stepwise_inv "\<lambda>p. settle_vault (fst p) (snd p)" settle_inv
  by unfold_locales (rule settle_vault_inv)

text \<open>Per vault identifier: leaders in hundredths plus the remainder grow by the exact share.\<close>

definition leader_total :: "string \<Rightarrow> settle_acc \<Rightarrow> nat" where
  "leader_total i acc =
     100 * paid_leader i (snd (snd acc)) + unat (CarryLeader (carry_of (fst (snd acc)) i))"

definition angel_total :: "string \<Rightarrow> settle_acc \<Rightarrow> nat" where
  "angel_total i acc =
     unat denominator * paid_angels i (snd (snd acc)) + unat (CarryAPR (carry_of (fst (snd acc)) i))"

definition pool_total :: "settle_acc \<Rightarrow> nat" where
  "pool_total acc = unat (Balance (fst acc)) + paid_total (snd (snd acc))"

lemma settle_vault_leader:
  assumes "settle_inv acc" and "settle_vault prev v acc = Inr acc'"
  shows "leader_total i acc' = leader_total i acc + leader_share i v"
    and "angel_total i acc' = angel_total i acc + angel_share i v"
    and "pool_total acc' = pool_total acc + unat (ActualIncome v)"
proof -
  obtain s out ps s' out' ps' where acc: "acc = (s, out, ps)" "acc' = (s', out', ps')"
    by (cases acc, cases acc')
  with assms have ok: "list_all carry_ok out"
    and step: "settle_vault prev v (s, out, ps) = Inr (s', out', ps')"
    by (auto simp: settle_inv_def)
  from step ok show "leader_total i acc' = leader_total i acc + leader_share i v"
    by (rule settle_vault_amounts)
      (simp add: acc leader_total_def leader_share_def paid_leader_def carry_of_update algebra_simps)
  from step ok show "angel_total i acc' = angel_total i acc + angel_share i v"
    by (rule settle_vault_amounts)
      (auto simp: acc angel_total_def angel_share_def paid_angels_def carry_of_update algebra_simps)
  from step ok show "pool_total acc' = pool_total acc + unat (ActualIncome v)"
    by (rule settle_vault_amounts) (simp add: acc pool_total_def paid_total_def)
qed

interpretation vault_leader: stepwise_sum "\<lambda>p. settle_vault (fst p) (snd p)" settle_inv
    "leader_total i" "\<lambda>p. leader_share i (snd p)"
  by unfold_locales (rule settle_vault_leader(1))

interpretation vault_angel: stepwise_sum "\<lambda>p. settle_vault (fst p) (snd p)" settle_inv
    "angel_total i" "\<lambda>p. angel_share i (snd p)"
  by unfold_locales (rule settle_vault_leader(2))

interpretation vault_pool: stepwise_sum "\<lambda>p. settle_vault (fst p) (snd p)" settle_inv
    pool_total "\<lambda>p. unat (ActualIncome (snd p))"
  by unfold_locales (rule settle_vault_leader(3))

lemma map_snd_prev_zip: "map (\<lambda>p. f (snd p)) (zip (None # map g vs) vs) = map f vs"
proof -
  have "map f (map snd (zip (None # map g vs) vs)) = map f vs" by (simp add: map_snd_zip_take)
  then show ?thesis by (simp add: comp_def)
qed

lemma settle_vaults_inv: "settle_inv acc \<Longrightarrow> settle_vaults vs acc = Inr acc' \<Longrightarrow> settle_inv acc'"
  unfolding settle_vaults_def by (rule vault_loop.run_inv)

lemma settle_vaults_sums:
  assumes "settle_inv acc" and "settle_vaults vs acc = Inr acc'"
  shows "leader_total i acc' = leader_total i acc + sum_list (map (leader_share i) vs)"
    and "angel_total i acc' = angel_total i acc + sum_list (map (angel_share i) vs)"
    and "pool_total acc' = pool_total acc + sum_list (map (\<lambda>v. unat (ActualIncome v)) vs)"
  using vault_leader.run_sum [of acc _ acc' i] vault_angel.run_sum [of acc _ acc' i]
    vault_pool.run_sum [of acc _ acc'] assms
    map_snd_prev_zip [of "\<lambda>v. unat (ActualIncome v)" "Some \<circ> VaultID" vs]
  by (simp_all add: settle_vaults_def map_snd_prev_zip)

lemma SettleE:
  assumes "Settle before cs h vs = Inr (s', cs', ps)"
  obtains s where "conserved before" "list_all carry_ok cs" "LastHeight before \<noteq> max_u64"
    "h = LastHeight before + 1" "settle_vaults vs (before, cs, []) = Inr (s, cs', ps)"
    "s' = s\<lparr>LastHeight := h\<rparr>" "conserved s'"
  using assms by (auto simp: Settle_def Let_def split: sum.splits if_splits dest!: validate_conserved)

lemma settle_inv_start: "conserved s \<Longrightarrow> list_all carry_ok cs \<Longrightarrow> settle_inv (s, cs, ps)"
  by (simp add: settle_inv_def)

lemma Settle_inv:
  assumes "Settle before cs h vs = Inr (s', cs', ps)"
  shows "settle_inv (s', cs', ps)"
  using assms
proof (rule SettleE)
  fix s
  assume a: "conserved before" "list_all carry_ok cs" "settle_vaults vs (before, cs, []) = Inr (s, cs', ps)"
    "conserved s'"
  from settle_vaults_inv [OF settle_inv_start [OF a(1,2)] a(3)] a(4) show ?thesis
    by (simp add: settle_inv_def)
qed

lemma Settle_sums:
  assumes "Settle before cs h vs = Inr (s', cs', ps)"
  shows "100 * paid_leader i ps + unat (CarryLeader (carry_of cs' i))
      = unat (CarryLeader (carry_of cs i)) + sum_list (map (leader_share i) vs)"
    and "unat denominator * paid_angels i ps + unat (CarryAPR (carry_of cs' i))
      = unat (CarryAPR (carry_of cs i)) + sum_list (map (angel_share i) vs)"
    and "unat (Balance s') + paid_total ps
      = unat (Balance before) + sum_list (map (\<lambda>v. unat (ActualIncome v)) vs)"
proof -
  obtain s where a: "conserved before" "list_all carry_ok cs"
    "settle_vaults vs (before, cs, []) = Inr (s, cs', ps)" "s' = s\<lparr>LastHeight := h\<rparr>"
    using assms by (rule SettleE)
  note sums = settle_vaults_sums [OF settle_inv_start [OF a(1,2)] a(3)]
  show "100 * paid_leader i ps + unat (CarryLeader (carry_of cs' i))
      = unat (CarryLeader (carry_of cs i)) + sum_list (map (leader_share i) vs)"
    using sums(1) [of i] by (simp add: leader_total_def paid_leader_def)
  show "unat denominator * paid_angels i ps + unat (CarryAPR (carry_of cs' i))
      = unat (CarryAPR (carry_of cs i)) + sum_list (map (angel_share i) vs)"
    using sums(2) [of i] by (simp add: angel_total_def paid_angels_def)
  show "unat (Balance s') + paid_total ps
      = unat (Balance before) + sum_list (map (\<lambda>v. unat (ActualIncome v)) vs)"
    using sums(3) by (simp add: pool_total_def paid_total_def a(4))
qed

section \<open>Errors\<close>

lemma split_residual_error: "split_residual r d s = Inl e \<Longrightarrow> e = LOverflow"
  by (auto simp: split_residual_def Let_def split: if_splits sum.splits dest!: add64_error)

lemma bump_error: "bump get upd x s = Inl e \<Longrightarrow> e = LOverflow"
  by (auto simp: bump_def split: sum.splits dest!: add64_error)

lemma increments_error:
  "foldE (\<lambda>f s. f s) (increments a b c d x y z) s = Inl e \<Longrightarrow> e = LOverflow"
  by (auto simp: increments_def split: sum.splits dest!: bump_error)

lemma scan_tiers_error: "scan_tiers x ts = Inl e \<Longrightarrow> e = LUnreachable"
  by (induction ts) (auto split: if_splits)

lemma TierFor_error: "TierFor x = Inl e \<Longrightarrow> e = LStakeOutside \<or> e = LUnreachable"
  by (auto simp: TierFor_def split: if_splits dest: scan_tiers_error)

lemma settle_vault_error:
  assumes "settle_vault p v acc = Inl e"
  shows "e \<in> {LVaultOrder, LStakeOutside, LUnreachable, LGuardianStake, LRationalOverflow, LArrears, LOverflow}"
  using assms
  by (auto simp: settle_vault_def Let_def
      split: if_splits sum.splits prod.splits
      dest!: TierFor_error rational_error add64_error split_residual_error increments_error)

section \<open>Runs of blocks\<close>

lemma settle_block_sums:
  assumes "settle_block b acc = Inr acc'"
  shows "leader_total i acc' = leader_total i acc + sum_list (map (leader_share i) (snd b))"
    and "angel_total i acc' = angel_total i acc + sum_list (map (angel_share i) (snd b))"
    and "pool_total acc' = pool_total acc + sum_list (map (\<lambda>v. unat (ActualIncome v)) (snd b))"
proof -
  obtain s cs ps s' cs' qs where acc: "acc = (s, cs, ps)" "acc' = (s', cs', ps @ qs)"
    and step: "Settle s cs (fst b) (snd b) = Inr (s', cs', qs)"
    using assms by (cases acc) (auto simp: settle_block_def split: sum.splits)
  note sums = Settle_sums [OF step]
  show "leader_total i acc' = leader_total i acc + sum_list (map (leader_share i) (snd b))"
    using sums(1) [of i] by (simp add: acc leader_total_def paid_leader_def)
  show "angel_total i acc' = angel_total i acc + sum_list (map (angel_share i) (snd b))"
    using sums(2) [of i] by (simp add: acc angel_total_def paid_angels_def distrib_left)
  show "pool_total acc' = pool_total acc + sum_list (map (\<lambda>v. unat (ActualIncome v)) (snd b))"
    using sums(3) by (simp add: acc pool_total_def paid_total_def)
qed

interpretation block_leader: stepwise_sum settle_block "\<lambda>_. True" "leader_total i"
    "\<lambda>b. sum_list (map (leader_share i) (snd b))"
  by unfold_locales (simp_all add: settle_block_sums(1))

interpretation block_angel: stepwise_sum settle_block "\<lambda>_. True" "angel_total i"
    "\<lambda>b. sum_list (map (angel_share i) (snd b))"
  by unfold_locales (simp add: settle_block_sums(2))

interpretation block_pool: stepwise_sum settle_block "\<lambda>_. True" pool_total
    "\<lambda>b. sum_list (map (\<lambda>v. unat (ActualIncome v)) (snd b))"
  by unfold_locales (simp add: settle_block_sums(3))

section \<open>Independence of the iteration order of the carries\<close>

lemma carry_of_cong: "map_of xs = map_of ys \<Longrightarrow> carry_of xs = carry_of ys"
  by (simp add: carry_of_def fun_eq_iff)

definition same_acc :: "settle_acc \<Rightarrow> settle_acc \<Rightarrow> bool" where
  "same_acc a b \<longleftrightarrow> fst a = fst b \<and> map_of (fst (snd a)) = map_of (fst (snd b)) \<and> snd (snd a) = snd (snd b)"

lemma settle_vault_same:
  assumes "same_acc a b"
  shows "rel_sum (=) same_acc (settle_vault prev v a) (settle_vault prev v b)"
proof -
  obtain s xs ps where a: "a = (s, xs, ps)" by (cases a)
  moreover obtain ys where b: "b = (s, ys, ps)" and m: "map_of xs = map_of ys"
    using assms a by (cases b) (auto simp: same_acc_def)
  ultimately show ?thesis
    using carry_of_cong [OF m]
    by (auto simp: settle_vault_def Let_def same_acc_def update_conv' split: sum.splits prod.splits)
qed

section \<open>Properties\<close>

text \<open>C31: A successful settlement of a block leaves a state that passes \<open>Validate\<close>, advances the
  height by exactly one without wrapping, keeps every remainder below its divisor, and moves exactly
  the income of the vaults: the new balance plus everything planned for leaders and angels is the old
  balance plus the income, over the natural numbers, so nothing is minted, lost or wrapped.\<close>

theorem Settle_conserves:
  assumes "Settle before cs h vs = Inr (s', cs', ps)"
  shows "lpod_Validate s' = Inr () \<and> unat (LastHeight s') = unat (LastHeight before) + 1 \<and>
    list_all carry_ok cs' \<and>
    unat (Balance s') + paid_total ps
      = unat (Balance before) + sum_list (map (\<lambda>v. unat (ActualIncome v)) vs)"
proof -
  have v: "lpod_Validate s' = Inr ()"
    using assms by (auto simp: Settle_def Let_def split: sum.splits if_splits)
  have "LastHeight before \<noteq> max_u64" "LastHeight s' = LastHeight before + 1"
    using assms by (auto elim: SettleE)
  moreover from this(1) have "unat (LastHeight before) + 1 < 2 ^ 64"
    using unat_u64_le [of "LastHeight before"] by (simp add: u64_eq_iff unat_max_u64)
  ultimately have "unat (LastHeight s') = unat (LastHeight before) + 1"
    by (simp add: unat_add_u64)
  with v Settle_inv [OF assms] Settle_sums(3) [OF assms] show ?thesis
    by (simp add: settle_inv_def)
qed

definition demo_state :: LpodState where
  "demo_state = \<lparr>FundingDebit = InitialNAPRO, Balance = InitialNAPRO, RewardInflow = 0, LeaderPaid = 0,
     AngelPaid = 0, SurplusInflow = 0, DeficitOutflow = 0, UnfundedLiability = 0, AccruedLiability = 0,
     LastHeight = 6\<rparr>"

definition demo_vault :: Vault where
  "demo_vault = \<lparr>VaultID = ''v1'', TotalStake = 10000000000000, GuardianStake = 5000000000000,
     ActualIncome = 1234, ElapsedSeconds = 60, ExactAccrual = None, Arrears = 0\<rparr>"

lemmas settle_eval = Settle_def lpod_Validate_def add64_def max_u64_def InitialNAPRO_def
  carry_ok_def settle_vaults_def settle_vault_def TierFor_def tiers_def mk_tier_def LpodUnit_def
  carry_of_def rational_def denominator_def split_residual_def increments_def bump_def Let_def

lemma demo_settle: "is_ok (Settle demo_state [] 7 [demo_vault])"
  by (simp add: settle_eval demo_state_def demo_vault_def)

theorem Settle_conserves_witness:
  "\<exists>s' cs' ps. Settle demo_state [] 7 [demo_vault] = Inr (s', cs', ps) \<and>
     unat (LastHeight s') = 7 \<and> unat (Balance s') + paid_total ps = 100000000000001234"
proof -
  obtain s' cs' ps where s: "Settle demo_state [] 7 [demo_vault] = Inr (s', cs', ps)"
    using demo_settle by (auto simp: is_ok_iff)
  from Settle_conserves [OF this] s show ?thesis
    by (intro exI [of _ s'] exI [of _ cs'] exI [of _ ps])
      (simp add: demo_state_def demo_vault_def InitialNAPRO_def)
qed

text \<open>Over any run of consecutive block settlements no fraction is lost to rounding: for every
  vault, one hundred times what its leader was paid plus the leader remainder at the end is the
  remainder at the start plus the exact percentage shares of all blocks, and the same holds for the
  angel side in units of \<open>1 / denominator\<close>, whatever the tier changes on the way.\<close>

theorem settlements_lose_no_rounding:
  assumes "foldE settle_block bs (s, cs, []) = Inr (s', cs', ps)"
  shows "100 * paid_leader i ps + unat (CarryLeader (carry_of cs' i))
      = unat (CarryLeader (carry_of cs i))
        + sum_list (map (\<lambda>b. sum_list (map (leader_share i) (snd b))) bs) \<and>
    unat denominator * paid_angels i ps + unat (CarryAPR (carry_of cs' i))
      = unat (CarryAPR (carry_of cs i))
        + sum_list (map (\<lambda>b. sum_list (map (angel_share i) (snd b))) bs)"
  using block_leader.run_sum [OF _ assms, of i] block_angel.run_sum [OF _ assms, of i]
  by (simp add: leader_total_def angel_total_def paid_leader_def paid_angels_def)

lemma demo_blocks:
  "is_ok (foldE settle_block [(7, [demo_vault]), (8, [demo_vault])] (demo_state, [], []))"
  by (simp add: settle_block_def settle_eval demo_state_def demo_vault_def)

lemma demo_tier: "TierFor 10000000000000 = Inr (mk_tier 100000 100 8 3)"
  by (simp add: TierFor_def tiers_def mk_tier_def LpodUnit_def)

theorem settlements_lose_no_rounding_witness:
  "\<exists>s' cs' ps. foldE settle_block [(7, [demo_vault]), (8, [demo_vault])] (demo_state, [], []) = Inr (s', cs', ps) \<and>
     100 * paid_leader ''v1'' ps + unat (CarryLeader (carry_of cs' ''v1'')) = 2 * 1234 * 8"
proof -
  obtain s' cs' ps where s:
    "foldE settle_block [(7, [demo_vault]), (8, [demo_vault])] (demo_state, [], []) = Inr (s', cs', ps)"
    using demo_blocks by (auto simp: is_ok_iff)
  from settlements_lose_no_rounding [OF this, of "''v1''"] s show ?thesis
    by (intro exI [of _ s'] exI [of _ cs'] exI [of _ ps])
      (simp add: leader_share_def tier_leader_percent_def demo_vault_def demo_tier mk_tier_def carry_of_def)
qed

text \<open>On a conserved state \<open>Settle\<close> never fails with one of the three conservation errors: its
  final \<open>Validate\<close> can only report that a sum does not fit in 64 bits.\<close>

theorem Settle_no_conservation_error:
  assumes "conserved before"
  shows "Settle before cs h vs \<notin> {Inl LIncomeConservation, Inl LReserveConservation, Inl LLiabilityConservation}"
proof -
  have loop: "foldE (\<lambda>p. settle_vault (fst p) (snd p)) ps acc = Inl e \<Longrightarrow>
      e \<notin> {LIncomeConservation, LReserveConservation, LLiabilityConservation}" for ps acc e
    by (induction ps arbitrary: acc) (auto split: sum.splits dest!: settle_vault_error)
  show ?thesis
  proof (cases "list_all carry_ok cs")
    case True
    have "conserved (s\<lparr>LastHeight := h\<rparr>)"
      if "settle_vaults vs (before, cs, []) = Inr (s, out, ps)" for s out ps
      using settle_vaults_inv [OF settle_inv_start [OF assms True] that]
      by (simp add: settle_inv_def conserved_height)
    then show ?thesis
      using conserved_validate [OF assms] conserved_validate loop
      by (fastforce simp: Settle_def Let_def settle_vaults_def split: sum.splits if_splits)
  next
    case False
    then show ?thesis
      using conserved_validate [OF assms] by (auto simp: Settle_def split: if_splits)
  qed
qed

theorem Settle_no_conservation_error_witness:
  "conserved demo_state \<and> Settle demo_state [] 7 [demo_vault] \<noteq> Inl LReserveConservation"
proof
  show c: "conserved demo_state" by (simp add: conserved_def demo_state_def)
  show "Settle demo_state [] 7 [demo_vault] \<noteq> Inl LReserveConservation"
    using Settle_no_conservation_error [OF c, of "[]" 7 "[demo_vault]"] by simp
qed

text \<open>\<open>TierFor\<close> is total and never reaches its panic: outside 100K to 100M APRO it reports the
  range error, inside it returns the tier of the table with the largest threshold reached.\<close>

theorem TierFor_spec:
  "case TierFor x of
     Inl e \<Rightarrow> e = LStakeOutside \<and> (x < Threshold (hd tiers) \<or> Threshold (last tiers) < x)
   | Inr t \<Rightarrow> t \<in> set tiers \<and> Threshold t \<le> x \<and> Threshold (hd tiers) \<le> x \<and> x \<le> Threshold (last tiers) \<and>
       list_all (\<lambda>u. Threshold t < Threshold u \<longrightarrow> x < Threshold u) tiers"
proof -
  have scan: "sorted_wrt (\<lambda>a b. Threshold b \<le> Threshold a) ts \<Longrightarrow> scan_tiers x ts = Inr t \<Longrightarrow>
      \<forall>u \<in> set ts. Threshold t < Threshold u \<longrightarrow> x < Threshold u" for ts t
    by (induction ts) (auto split: if_splits)
  have sorted: "sorted_wrt (\<lambda>a b. Threshold b \<le> Threshold a) (rev tiers)"
    by (simp add: tiers_def mk_tier_def LpodUnit_def)
  have found: "scan_tiers x (rev tiers) = Inl e \<Longrightarrow> x < Threshold (hd tiers)" for e
    by (simp add: tiers_def mk_tier_def LpodUnit_def not_le split: if_splits)
  show ?thesis
    using scan [OF sorted] scan_tiers_Inr [of x "rev tiers"] found
    by (auto simp: TierFor_def list_all_iff not_less split: sum.splits if_splits)
qed

text \<open>The property has an implication inside its last conjunct; it is instantiated in the third tier.\<close>

theorem TierFor_spec_witness:
  "Threshold (mk_tier 1000000 10000 12 6) \<le> 200000000000000 \<and>
   list_all (\<lambda>u. Threshold (mk_tier 1000000 10000 12 6) < Threshold u \<longrightarrow> 200000000000000 < Threshold u) tiers"
proof -
  have "TierFor 200000000000000 = Inr (mk_tier 1000000 10000 12 6)"
    by (simp add: TierFor_def tiers_def mk_tier_def LpodUnit_def)
  with TierFor_spec [of 200000000000000] show ?thesis by simp
qed

text \<open>The result of a settlement does not depend on the order in which the map of carries is
  iterated: two association lists of the same map give the same error, or the same state, the same
  payments and carries that are the same map.\<close>

theorem Settle_order_independent:
  assumes "mset cs = mset ds" and "distinct (map fst cs)"
  shows "rel_sum (=) same_acc (Settle s cs h vs) (Settle s ds h vs)"
proof -
  have m: "map_of cs = map_of ds"
    using assms by (rule map_of_mset_eq)
  have ok: "list_all carry_ok cs = list_all carry_ok ds"
    using assms(1) by (metis list_all_iff set_mset_mset)
  have "rel_sum (=) same_acc (settle_vaults vs (s, cs, [])) (settle_vaults vs (s, ds, []))"
    unfolding settle_vaults_def using settle_vault_same m
    by (intro foldE_rel) (auto simp: same_acc_def)
  then show ?thesis
    by (cases "settle_vaults vs (s, cs, [])"; cases "settle_vaults vs (s, ds, [])")
      (auto simp: Settle_def Let_def ok same_acc_def split: sum.splits)
qed

theorem Settle_order_independent_witness:
  "rel_sum (=) same_acc
     (Settle demo_state [(''a'', \<lparr>CarryAPR = 1, CarryLeader = 2\<rparr>), (''b'', \<lparr>CarryAPR = 3, CarryLeader = 4\<rparr>)] 7 [demo_vault])
     (Settle demo_state [(''b'', \<lparr>CarryAPR = 3, CarryLeader = 4\<rparr>), (''a'', \<lparr>CarryAPR = 1, CarryLeader = 2\<rparr>)] 7 [demo_vault])"
  by (rule Settle_order_independent) simp_all

text \<open>An amount stays unfunded only when the reserve is empty: if the payment a vault step plans
  leaves something unfunded, the pool balance after the step is zero.  In every case the step pays or
  records as unfunded exactly the new accrual plus the arrears, and never more than the reserve and
  the income hold.\<close>

theorem unfunded_only_when_empty:
  assumes "settle_vault prev v (s, out, ps) = Inr (s', out', ps')" and "list_all carry_ok out"
  shows "(PayUnfunded (last ps') \<noteq> 0 \<longrightarrow> Balance s' = 0) \<and>
    unat (PayLeader (last ps')) \<le> unat (ActualIncome v) \<and>
    unat (PayLeader (last ps')) + unat (PayAngels (last ps')) \<le> unat (Balance s) + unat (ActualIncome v) \<and>
    unat denominator * (unat (PayAngels (last ps')) + unat (PayUnfunded (last ps')))
      \<le> angel_share (VaultID v) v + unat (CarryAPR (carry_of out (VaultID v)))"
proof -
  from assms show ?thesis
  proof (rule settle_vault_amounts)
    fix leader paid missing newDue surplus deficit lrem arem :: u64
    assume bal: "unat (Balance s') + unat leader + unat paid = unat (Balance s) + unat (ActualIncome v)"
      and due: "unat paid + unat missing = unat newDue + unat (Arrears v)"
      and miss: "missing \<noteq> 0 \<Longrightarrow> Balance s' = 0"
      and ps': "ps' = ps @ [\<lparr>PayVaultID = VaultID v, PayLeader = leader, PayAngels = paid, PayUnfunded = missing\<rparr>]"
      and L: "unat leader * 100 + unat lrem = unat (ActualIncome v) * tier_leader_percent (TotalStake v)
       + unat (CarryLeader (carry_of out (VaultID v)))"
      and A: "unat denominator * (unat newDue + unat (Arrears v)) + unat arem
       = angel_share (VaultID v) v + unat (CarryAPR (carry_of out (VaultID v)))"
    have "tier_leader_percent (TotalStake v) \<le> 20"
      using TierFor_percent by (auto simp: tier_leader_percent_def split: sum.splits)
    then have "unat (ActualIncome v) * tier_leader_percent (TotalStake v) \<le> unat (ActualIncome v) * 20"
      by simp
    moreover have "unat (CarryLeader (carry_of out (VaultID v))) < 100"
      using carries_ok_carry_of(2) [OF assms(2), of "VaultID v"] by (simp add: u64_less_iff)
    ultimately have "unat leader * 100 < unat (ActualIncome v) * 20 + 100" using L by linarith
    then have "unat leader \<le> unat (ActualIncome v)" by linarith
    with bal due miss ps' A show ?thesis by simp
  qed
qed

definition empty_pool :: LpodState where
  "empty_pool = demo_state\<lparr>Balance := 0, AngelPaid := InitialNAPRO, AccruedLiability := InitialNAPRO,
     DeficitOutflow := InitialNAPRO\<rparr>"

lemma demo_unfunded:
  "\<exists>s' out' ps'. settle_vault None demo_vault (empty_pool, [], []) = Inr (s', out', ps') \<and>
     PayUnfunded (last ps') = 284252"
  by (simp add: settle_eval empty_pool_def demo_state_def demo_vault_def)

theorem unfunded_only_when_empty_witness:
  "\<exists>s' out' ps'. settle_vault None demo_vault (empty_pool, [], []) = Inr (s', out', ps') \<and>
     PayUnfunded (last ps') = 284252 \<and> Balance s' = 0"
  using demo_unfunded unfunded_only_when_empty [of None demo_vault empty_pool "[]" "[]"] by fastforce

end
