(* ===== verification/Crypto.thy ===== *)
theory Crypto
  imports Bytes
begin

text \<open>
  The interface to the cryptographic primitives and the byte-level code of \<open>crypto/\<close> on top of
  them: \<open>HashBytes\<close> (\<open>hash.go\<close>), validator keys (\<open>keys.go\<close>) and addresses (\<open>address.go\<close>).
  The record \<open>lib\<close> collects the functions of libraries (\<open>crypto/sha256\<close>, \<open>crypto/ed25519\<close>,
  \<open>filippo.io/edwards25519\<close>, \<open>btcutil/base58\<close>) and of the curve code of \<open>crypto/\<close> written over
  them; it is an argument of every definition that uses one, and no property of it is assumed
  except where a theorem names it as a hypothesis.
\<close>

section \<open>Definitions\<close>

text \<open>\<open>crypto.MLSAGSignature\<close>, \<open>crypto.CLSAGSignature\<close> and \<open>crypto.RangeProof\<close>.\<close>

record MLSAGSignature =
  mls_C0 :: arr32
  mls_SS :: "arr32 list"
  mls_KeyImage :: key_image
  mls_BlindSS :: "arr32 list"
  mls_ValueSS :: "arr32 list"
  mls_LinkR :: point32
  mls_LinkS :: arr32

record CLSAGSignature =
  cls_C1 :: arr32
  cls_S :: "arr32 list"
  cls_KeyImage :: key_image
  cls_D :: point32

record RangeProof =
  rp_V :: arr32
  rp_A :: arr32
  rp_S :: arr32
  rp_T1 :: arr32
  rp_T2 :: arr32
  rp_Taux :: arr32
  rp_Mu :: arr32
  rp_Tx :: arr32
  rp_Ls :: "arr32 list"
  rp_Rs :: "arr32 list"
  rp_AFin :: arr32
  rp_BFin :: arr32
  rp_ValueCommit :: commitment

record KeyImageDLEQProof =
  ki_CommitmentG :: point32
  ki_CommitmentHp :: point32
  ki_Response :: scalar32

record lib =
  sha256 :: "bytes \<Rightarrow> hash32"
  ed25519_verify :: "bytes \<Rightarrow> bytes \<Rightarrow> bytes \<Rightarrow> bool"
  base58_encode :: "bytes \<Rightarrow> string"
  base58_decode :: "string \<Rightarrow> bytes"
  hash_to_curve :: "bytes \<Rightarrow> point32"
  prime_point :: "point32 \<Rightarrow> bool"
  pedersen_commit :: "u64 \<Rightarrow> scalar32 \<Rightarrow> commitment option"
  value_opening_ok :: "u64 \<Rightarrow> commitment \<Rightarrow> bytes \<Rightarrow> bool"
  canonical_key_image :: "key_image \<Rightarrow> key_image option"
  key_image_proof_ok :: "point32 \<Rightarrow> key_image \<Rightarrow> bytes \<Rightarrow> KeyImageDLEQProof \<Rightarrow> bool"
  mint_blind_v2 :: "point32 \<Rightarrow> u64 \<Rightarrow> u64 \<Rightarrow> scalar32 option"
  scalar_mul_base :: "u64 \<Rightarrow> point32 option"
  add_points :: "point32 \<Rightarrow> point32 \<Rightarrow> point32 option"
  mlsag_verify_v4 :: "hash32 \<Rightarrow> point32 list \<Rightarrow> commitment \<Rightarrow> u8 \<Rightarrow> MLSAGSignature \<Rightarrow> bool"

definition RingSize :: nat where "RingSize = 16"

text \<open>The bytes of a string literal, \<open>[]byte(s)\<close>.\<close>

definition str_bytes :: "string \<Rightarrow> bytes" where
  "str_bytes s = map (\<lambda>c. word_of_nat (of_char c)) s"

definition HashBytes :: "lib \<Rightarrow> bytes list \<Rightarrow> hash32" where
  "HashBytes K parts = sha256 K (concat parts)"

definition DoubleSHA3 :: "lib \<Rightarrow> bytes \<Rightarrow> hash32" where
  "DoubleSHA3 K payload = HashBytes K [arr_bytes (HashBytes K [payload])]"

subsection \<open>Validator keys\<close>

type_synonym ValidatorPubKey = bytes

definition ValidatorPubKeyFromBytes :: "bytes \<Rightarrow> ValidatorPubKey option" where
  "ValidatorPubKeyFromBytes b = (if length b \<noteq> 32 then None else Some b)"

definition pub_Hex :: "ValidatorPubKey \<Rightarrow> string" where
  "pub_Hex k = hex_encode k"

definition pub_ID :: "ValidatorPubKey \<Rightarrow> string" where
  "pub_ID k = (let h = hex_encode k in if length h < 8 then h else take 8 h)"

definition pub_Verify :: "lib \<Rightarrow> ValidatorPubKey \<Rightarrow> hash32 \<Rightarrow> bytes \<Rightarrow> bool" where
  "pub_Verify K k hash sig =
     (if length sig \<noteq> 64 then False else ed25519_verify K k (arr_bytes hash) sig)"

subsection \<open>Addresses\<close>

type_synonym Address = string

definition MainnetByte :: u8 where "MainnetByte = 0x41"
definition TestnetByte :: u8 where "TestnetByte = 0x54"
definition DevnetByte :: u8 where "DevnetByte = 0x44"

definition hrPrefix :: "u8 \<Rightarrow> string" where
  "hrPrefix net =
     (if net = MainnetByte then ''apro''
      else if net = TestnetByte then ''tapr''
      else if net = DevnetByte then ''dapr''
      else ''net'' @ hex_byte net)"

definition EncodeAddress :: "lib \<Rightarrow> u8 \<Rightarrow> point32 \<Rightarrow> point32 \<Rightarrow> Address" where
  "EncodeAddress K net spend view =
     (let payload = [net] @ arr_bytes spend @ arr_bytes view;
          checksum = DoubleSHA3 K payload;
          full = payload @ take 4 (arr_bytes checksum)
      in hrPrefix net @ base58_encode K full)"

datatype address_error =
    AddrNoPrefix
  | AddrLength
  | AddrChecksum
  | AddrNetwork

definition has_prefix :: "string \<Rightarrow> string \<Rightarrow> bool" where
  "has_prefix s p \<longleftrightarrow> take (length p) s = p"

definition strip_prefix :: "Address \<Rightarrow> (string \<times> u8) option" where
  "strip_prefix s =
     (if has_prefix s ''tapr'' then Some (drop 4 s, TestnetByte)
      else if has_prefix s ''dapr'' then Some (drop 4 s, DevnetByte)
      else if has_prefix s ''apro'' then Some (drop 4 s, MainnetByte)
      else None)"

definition DecodeAddress :: "lib \<Rightarrow> Address \<Rightarrow> address_error + (u8 \<times> point32 \<times> point32)" where
  "DecodeAddress K addr =
     (case strip_prefix addr of None \<Rightarrow> Inl AddrNoPrefix
      | Some (stripped, expectedNet) \<Rightarrow>
        let decoded = base58_decode K stripped in
        if length decoded \<noteq> 69 then Inl AddrLength
        else let payload = take 65 decoded; gotChecksum = drop 65 decoded;
                 wantChecksum = DoubleSHA3 K payload in
        if gotChecksum \<noteq> take 4 (arr_bytes wantChecksum) then Inl AddrChecksum
        else let net = hd payload in
        if net \<noteq> expectedNet then Inl AddrNetwork
        else Inr (net, arr_of (slice 1 33 payload), arr_of (slice 33 65 payload)))"

definition known_network :: "u8 \<Rightarrow> bool" where
  "known_network net \<longleftrightarrow> net = MainnetByte \<or> net = TestnetByte \<or> net = DevnetByte"

section \<open>Addresses\<close>

lemmas network_bytes = MainnetByte_def TestnetByte_def DevnetByte_def

lemma strip_prefix_hrPrefix:
  "strip_prefix (hrPrefix net @ s) = (if known_network net then Some (s, net) else None)"
  by (auto simp: strip_prefix_def hrPrefix_def known_network_def has_prefix_def network_bytes)

lemma payload_slices:
  assumes "p = [net] @ arr_bytes spend @ arr_bytes view"
  shows "length p = 65" and "hd p = net" and "slice 1 33 p = arr_bytes spend"
    and "slice 33 65 p = arr_bytes view"
  using assms by (simp_all add: slice_def)

lemma address_decode_encode:
  assumes "\<And>b. base58_decode K (base58_encode K b) = b"
  shows "DecodeAddress K (EncodeAddress K net spend view)
    = (if known_network net then Inr (net, spend, view) else Inl AddrNoPrefix)"
proof -
  define p where "p = [net] @ arr_bytes spend @ arr_bytes view"
  note s = payload_slices [OF p_def]
  have enc: "EncodeAddress K net spend view
      = hrPrefix net @ base58_encode K (p @ take 4 (arr_bytes (DoubleSHA3 K p)))"
    by (simp add: EncodeAddress_def Let_def p_def)
  show ?thesis
    using s by (simp add: enc DecodeAddress_def Let_def strip_prefix_hrPrefix assms)
qed

text \<open>An address of a known network decodes to the network and the two keys it was built from,
  and an address built for any other network byte is always rejected for its prefix.  The only fact
  used of the base58 library is that decoding inverts encoding.\<close>

theorem address_round_trip:
  assumes "\<And>b. base58_decode K (base58_encode K b) = b"
  shows "DecodeAddress K (EncodeAddress K net spend view)
    = (if known_network net then Inr (net, spend, view) else Inl AddrNoPrefix)"
  using assms by (rule address_decode_encode)

text \<open>A library with invertible stand-ins for the codecs, for concrete instances.\<close>

definition demo_lib :: lib where
  "demo_lib = \<lparr>sha256 = (\<lambda>b. word_of_nat (be_val b + 1)),
     ed25519_verify = (\<lambda>pub msg sig. take 32 sig = take 32 msg),
     base58_encode = map (\<lambda>b. char_of (unat b)),
     base58_decode = map (\<lambda>c. word_of_nat (of_char c)),
     hash_to_curve = (\<lambda>b. word_of_nat (be_val b)),
     prime_point = (\<lambda>p. p \<noteq> 0),
     pedersen_commit = (\<lambda>v r. Some (ucast v + r)),
     value_opening_ok = (\<lambda>v c p. c = ucast v),
     canonical_key_image = (\<lambda>ki. if ki = 0 then None else Some ki),
     key_image_proof_ok = (\<lambda>pub ki ctx p. ki = pub),
     mint_blind_v2 = (\<lambda>p a h. Some (p + ucast h)),
     scalar_mul_base = (\<lambda>n. Some (ucast n)),
     add_points = (\<lambda>p q. Some (p + q)),
     mlsag_verify_v4 = (\<lambda>m ring c i s. mls_C0 s = m)\<rparr>"

lemma demo_base58: "base58_decode demo_lib (base58_encode demo_lib b) = b"
  by (induction b) (simp_all add: demo_lib_def byte_lt_256)

theorem address_round_trip_witness:
  "DecodeAddress demo_lib (EncodeAddress demo_lib MainnetByte 5 7) = Inr (MainnetByte, 5, 7) \<and>
   DecodeAddress demo_lib (EncodeAddress demo_lib 0x20 5 7) = Inl AddrNoPrefix"
  using address_round_trip [OF demo_base58, of MainnetByte 5 7]
    address_round_trip [OF demo_base58, of "0x20" 5 7]
  by (simp add: known_network_def network_bytes)

end
