(* ===== verification/Transactions.thy ===== *)
theory Transactions
  imports Crypto
begin

text \<open>
  Transactions: the types of \<open>core/transaction.go\<close>, the contract payload of \<open>core/avm.go\<close>, the
  burn marker, the checkpoint, position, payout, guardian and sale transactions of \<open>core/lpod.go\<close>,
  \<open>core/lpod_position.go\<close>, \<open>core/guardian_fund.go\<close> and \<open>core/sale.go\<close>, the transaction hash, the
  structural validation \<open>Validate\<close>, the height policy \<open>ValidateTxVersionAtHeight\<close>, and the size and
  fee rules.  Pointers that may be nil are options; slices are lists (nil and empty are one value).
  The record \<open>jsonlib\<close> stands for \<open>encoding/json\<close> on the three structures that go through it.
\<close>

section \<open>Definitions\<close>

subsection \<open>Types\<close>

record AVMAccess =
  acc_Key :: bytes
  acc_Write :: bool

record AVMPayload =
  avm_Action :: u8
  avm_ContractID :: hash32
  avm_Code :: bytes
  avm_Entry :: string
  avm_Calldata :: bytes
  avm_GasLimit :: u64
  avm_Nonce :: u64
  avm_Signer :: arr32
  avm_Signature :: arr64
  avm_AccessList :: "AVMAccess list"

record RingInput =
  in_KeyImage :: key_image
  in_Ring :: "point32 list"
  in_AmountCommit :: commitment
  in_RingCommitments :: "commitment list"
  in_PseudoOut :: commitment
  in_RealIndex :: u8

record TxOutput =
  out_OneTimePub :: point32
  out_TxPubKey :: point32
  out_AmountCommit :: commitment
  out_EncAmount :: u64

record Transaction =
  tx_Version :: u8
  tx_Inputs :: "RingInput list"
  tx_Outputs :: "TxOutput list"
  tx_Fee :: u64
  tx_FeeCommit :: commitment
  tx_RangeProofs :: "RangeProof option list"
  tx_Signatures :: "MLSAGSignature option list"
  tx_CLSAGSignatures :: "CLSAGSignature option list"
  tx_Extra :: bytes
  tx_AVM :: "AVMPayload option"

record LPoDPositionAction =
  pos_Action :: u8
  pos_Genesis :: hash32
  pos_PositionID :: hash32
  pos_Vault :: point32
  pos_Nonce :: u64
  pos_Beneficiary :: Address
  pos_Owner :: point32
  pos_SourceTx :: hash32
  pos_SourceIndex :: u32
  pos_SourcePub :: point32
  pos_Amount :: u64
  pos_Blind :: scalar32
  pos_WithdrawAmount :: u64

record LPoDPayoutAuthorization =
  pay_LeaderAddr :: Address
  pay_Digest :: hash32

record SaleAuthorization =
  sa_Genesis :: hash32
  sa_Height :: u64
  sa_Parent :: hash32
  sa_Order :: hash32
  sa_Payment :: hash32
  sa_Amount :: u64
  sa_Opening :: arr64
  sa_Signature :: arr64

record jsonlib =
  json_position :: "LPoDPositionAction \<Rightarrow> bytes"
  json_position_parse :: "bytes \<Rightarrow> LPoDPositionAction option"
  json_position_id :: "hash32 \<Rightarrow> hash32 \<Rightarrow> u32 \<Rightarrow> bytes"
  json_payout :: "LPoDPayoutAuthorization \<Rightarrow> bytes"
  json_payout_parse :: "bytes \<Rightarrow> LPoDPayoutAuthorization option"

definition TxVersionBase :: u8 where "TxVersionBase = 1"
definition TxVersionGameAsset :: u8 where "TxVersionGameAsset = 2"
definition TxVersionStake :: u8 where "TxVersionStake = 3"
definition TxVersionCommitmentBinding :: u8 where "TxVersionCommitmentBinding = 4"
definition TxVersionCLSAG :: u8 where "TxVersionCLSAG = 5"
definition TxVersionAVM :: u8 where "TxVersionAVM = 6"
definition TxVersionGuardianFund :: u8 where "TxVersionGuardianFund = 7"
definition TxVersionLPoD :: u8 where "TxVersionLPoD = 8"
definition TxVersionLPoDPosition :: u8 where "TxVersionLPoDPosition = 9"
definition TxVersionLPoDPayout :: u8 where "TxVersionLPoDPayout = 10"
definition TxVersionSale :: u8 where "TxVersionSale = 11"

lemmas tx_versions = TxVersionBase_def TxVersionGameAsset_def TxVersionStake_def
  TxVersionCommitmentBinding_def TxVersionCLSAG_def TxVersionAVM_def TxVersionGuardianFund_def
  TxVersionLPoD_def TxVersionLPoDPosition_def TxVersionLPoDPayout_def TxVersionSale_def

definition empty_tx :: "u8 \<Rightarrow> Transaction" where
  "empty_tx v = \<lparr>tx_Version = v, tx_Inputs = [], tx_Outputs = [], tx_Fee = 0, tx_FeeCommit = 0,
     tx_RangeProofs = [], tx_Signatures = [], tx_CLSAGSignatures = [], tx_Extra = [], tx_AVM = None\<rparr>"

definition IsStake :: "Transaction \<Rightarrow> bool" where
  "IsStake tx \<longleftrightarrow> tx_Version tx = TxVersionStake"

definition IsAVM :: "Transaction \<Rightarrow> bool" where
  "IsAVM tx \<longleftrightarrow> tx_Version tx = TxVersionAVM"

definition IsGuardianFund :: "Transaction \<Rightarrow> bool" where
  "IsGuardianFund tx \<longleftrightarrow> tx_Version tx = TxVersionGuardianFund"

definition IsLPoD :: "Transaction \<Rightarrow> bool" where
  "IsLPoD tx \<longleftrightarrow> tx_Version tx = TxVersionLPoD"

definition IsLPoDPosition :: "Transaction \<Rightarrow> bool" where
  "IsLPoDPosition tx \<longleftrightarrow> tx_Version tx = TxVersionLPoDPosition"

definition IsLPoDPayout :: "Transaction \<Rightarrow> bool" where
  "IsLPoDPayout tx \<longleftrightarrow> tx_Version tx = TxVersionLPoDPayout"

definition IsSale :: "Transaction \<Rightarrow> bool" where
  "IsSale tx \<longleftrightarrow> tx_Version tx = TxVersionSale"

definition UsesCLSAG :: "Transaction \<Rightarrow> bool" where
  "UsesCLSAG tx \<longleftrightarrow> tx_Version tx = TxVersionCLSAG \<or> tx_Version tx = TxVersionAVM"

definition IsCoinbase :: "Transaction \<Rightarrow> bool" where
  "IsCoinbase tx \<longleftrightarrow> tx_Inputs tx = [] \<and> \<not> IsGuardianFund tx \<and> \<not> IsLPoD tx \<and> \<not> IsLPoDPosition tx
     \<and> \<not> IsLPoDPayout tx \<and> \<not> IsSale tx"

lemmas tx_kinds = IsStake_def IsAVM_def IsGuardianFund_def IsLPoD_def IsLPoDPosition_def
  IsLPoDPayout_def IsSale_def UsesCLSAG_def IsCoinbase_def

subsection \<open>Contract payloads\<close>

definition AVMMaxCodeSize :: nat where "AVMMaxCodeSize = 1048576"
definition AVMMaxCalldataSize :: nat where "AVMMaxCalldataSize = 65536"
definition AVMMaxEntrySize :: nat where "AVMMaxEntrySize = 64"
definition AVMMaxAccessListKeys :: nat where "AVMMaxAccessListKeys = 64"
definition AVMMaxStateKeySize :: nat where "AVMMaxStateKeySize = 64"
definition AVMMinGasLimit :: u64 where "AVMMinGasLimit = 100"
definition AVMMaxGasLimit :: u64 where "AVMMaxGasLimit = 10000000"
definition AVMGasPriceNAPR :: u64 where "AVMGasPriceNAPR = 10"

definition writeAVMBytes :: "bytes \<Rightarrow> bytes" where
  "writeAVMBytes v = le_put32 (word_of_nat (length v)) @ v"

definition access_bytes :: "AVMAccess \<Rightarrow> bytes" where
  "access_bytes a = writeAVMBytes (acc_Key a) @ [if acc_Write a then 1 else 0]"

definition canonicalBytes :: "bool \<Rightarrow> AVMPayload \<Rightarrow> bytes" where
  "canonicalBytes includeSignature p =
     [avm_Action p] @ arr_bytes (avm_ContractID p) @ writeAVMBytes (avm_Code p)
     @ writeAVMBytes (str_bytes (avm_Entry p)) @ writeAVMBytes (avm_Calldata p)
     @ le_put64 (avm_GasLimit p) @ le_put64 (avm_Nonce p) @ arr_bytes (avm_Signer p)
     @ le_put16 (word_of_nat (length (avm_AccessList p)))
     @ concat (map access_bytes (avm_AccessList p))
     @ (if includeSignature then arr64_bytes (avm_Signature p) else [])"

definition SigningHash :: "lib \<Rightarrow> AVMPayload \<Rightarrow> hash32" where
  "SigningHash K p = HashBytes K [str_bytes ''APRO/AVM/SIGN/V1'', canonicalBytes False p]"

definition DeriveAVMContractID :: "lib \<Rightarrow> arr32 \<Rightarrow> u64 \<Rightarrow> bytes \<Rightarrow> hash32" where
  "DeriveAVMContractID K signer nonce code =
     HashBytes K [str_bytes ''APRO/AVM/CONTRACT/V1'', arr_bytes signer, le_put64 nonce,
                  arr_bytes (HashBytes K [code])]"

text \<open>\<open>utf8.ValidString\<close> of the standard library.\<close>

definition utf8_cont :: "nat \<Rightarrow> bool" where
  "utf8_cont b \<longleftrightarrow> 0x80 \<le> b \<and> b \<le> 0xBF"

fun utf8_valid :: "nat list \<Rightarrow> bool" where
  "utf8_valid [] = True"
| "utf8_valid (b0 # r) =
     (if b0 < 0x80 then utf8_valid r
      else if 0xC2 \<le> b0 \<and> b0 \<le> 0xDF then
        (case r of b1 # r1 \<Rightarrow> utf8_cont b1 \<and> utf8_valid r1 | _ \<Rightarrow> False)
      else if 0xE0 \<le> b0 \<and> b0 \<le> 0xEF then
        (case r of b1 # b2 # r2 \<Rightarrow>
           (if b0 = 0xE0 then 0xA0 else 0x80) \<le> b1 \<and> b1 \<le> (if b0 = 0xED then 0x9F else 0xBF)
           \<and> utf8_cont b2 \<and> utf8_valid r2
         | _ \<Rightarrow> False)
      else if 0xF0 \<le> b0 \<and> b0 \<le> 0xF4 then
        (case r of b1 # b2 # b3 # r3 \<Rightarrow>
           (if b0 = 0xF0 then 0x90 else 0x80) \<le> b1 \<and> b1 \<le> (if b0 = 0xF4 then 0x8F else 0xBF)
           \<and> utf8_cont b2 \<and> utf8_cont b3 \<and> utf8_valid r3
         | _ \<Rightarrow> False)
      else False)"

datatype avm_error =
    AvmMissing
  | AvmCodeSize
  | AvmContractID
  | AvmUnexpectedCode
  | AvmNoContract
  | AvmUnknownAction
  | AvmEntry
  | AvmCalldata
  | AvmGasLimit
  | AvmSigner
  | AvmAccessCount
  | AvmAccessKey
  | AvmAccessOrder
  | AvmSignature

text \<open>The loop over the access list, with the previous key; \<open>bytes.Compare\<close> is lexicographic.\<close>

fun check_access :: "bytes option \<Rightarrow> AVMAccess list \<Rightarrow> avm_error + unit" where
  "check_access prev [] = Inr ()"
| "check_access prev (a # as) =
     (if acc_Key a = [] \<or> AVMMaxStateKeySize < length (acc_Key a) then Inl AvmAccessKey
      else if (case prev of None \<Rightarrow> False | Some p \<Rightarrow> \<not> p < acc_Key a) then Inl AvmAccessOrder
      else check_access (Some (acc_Key a)) as)"

definition avm_check_action :: "lib \<Rightarrow> AVMPayload \<Rightarrow> avm_error option" where
  "avm_check_action K p =
     (if avm_Action p = 1 then
        (if avm_Code p = [] \<or> AVMMaxCodeSize < length (avm_Code p) then Some AvmCodeSize
         else if avm_ContractID p \<noteq> DeriveAVMContractID K (avm_Signer p) (avm_Nonce p) (avm_Code p)
         then Some AvmContractID else None)
      else if avm_Action p = 2 then
        (if avm_Code p \<noteq> [] then Some AvmUnexpectedCode
         else if avm_ContractID p = 0 then Some AvmNoContract else None)
      else Some AvmUnknownAction)"

definition avm_Validate :: "lib \<Rightarrow> AVMPayload option \<Rightarrow> avm_error + unit" where
  "avm_Validate K op =
     (case op of None \<Rightarrow> Inl AvmMissing | Some p \<Rightarrow>
      case avm_check_action K p of Some e \<Rightarrow> Inl e | None \<Rightarrow>
      if avm_Entry p = [] \<or> AVMMaxEntrySize < length (avm_Entry p)
         \<or> \<not> utf8_valid (map of_char (avm_Entry p)) then Inl AvmEntry
      else if AVMMaxCalldataSize < length (avm_Calldata p) then Inl AvmCalldata
      else if avm_GasLimit p < AVMMinGasLimit \<or> AVMMaxGasLimit < avm_GasLimit p then Inl AvmGasLimit
      else if avm_Signer p = 0 then Inl AvmSigner
      else if AVMMaxAccessListKeys < length (avm_AccessList p) then Inl AvmAccessCount
      else case check_access None (avm_AccessList p) of Inl e \<Rightarrow> Inl e | Inr _ \<Rightarrow>
      if \<not> ed25519_verify K (arr_bytes (avm_Signer p)) (arr_bytes (SigningHash K p))
            (arr64_bytes (avm_Signature p)) then Inl AvmSignature
      else Inr ())"

definition AVMGasFee :: "u64 \<Rightarrow> u64 option" where
  "AVMGasFee gasLimit =
     (if max_u64 div AVMGasPriceNAPR < gasLimit then None else Some (gasLimit * AVMGasPriceNAPR))"

subsection \<open>Burn markers\<close>

definition intentionalBurnPrefix :: bytes where
  "intentionalBurnPrefix = str_bytes ''APRO-BURN'' @ [1]"

definition IntentionalBurnExtra :: "u64 \<Rightarrow> bytes" where
  "IntentionalBurnExtra amount =
     (let n = length intentionalBurnPrefix; extra = make_buf (n + 8);
          extra = copy_at 0 (n + 8) intentionalBurnPrefix extra
      in copy_at n (n + 8) (le_put64 amount) extra)"

datatype burn_error =
    BurnMalformed
  | BurnZero

text \<open>The amount, whether the marker is present, and the error.\<close>

definition parseIntentionalBurnExtra :: "bytes \<Rightarrow> u64 \<times> bool \<times> burn_error option" where
  "parseIntentionalBurnExtra extra =
     (let n = length intentionalBurnPrefix in
      if length extra < n \<or> take n extra \<noteq> intentionalBurnPrefix then (0, False, None)
      else if length extra \<noteq> n + 8 then (0, True, Some BurnMalformed)
      else let amount = le_get64 (drop n extra) in
      if amount = 0 then (0, True, Some BurnZero) else (amount, True, None))"

definition BurnAmount :: "Transaction \<Rightarrow> u64 \<times> bool" where
  "BurnAmount tx =
     (case parseIntentionalBurnExtra (tx_Extra tx) of
        (amount, marked, err) \<Rightarrow> (amount, marked \<and> err = None))"

definition IsBurnTx :: "Transaction \<Rightarrow> bool" where
  "IsBurnTx tx = snd (BurnAmount tx)"

subsection \<open>The transaction hash\<close>

text \<open>The bytes an input contributes; \<open>v\<close> is the version of the transaction.\<close>

definition clsag_ring_bytes :: "RingInput \<Rightarrow> bytes" where
  "clsag_ring_bytes inp =
     concat (map (\<lambda>i. arr_bytes (in_Ring inp ! i) @
                      (if i < length (in_RingCommitments inp)
                       then arr_bytes (in_RingCommitments inp ! i) else []))
                 [0..<length (in_Ring inp)])
     @ arr_bytes (in_PseudoOut inp)"

definition input_hash_bytes :: "Transaction \<Rightarrow> RingInput \<Rightarrow> bytes" where
  "input_hash_bytes tx inp =
     arr_bytes (in_KeyImage inp) @ arr_bytes (in_AmountCommit inp)
     @ concat (map arr_bytes (in_Ring inp))
     @ (if tx_Version tx = TxVersionCommitmentBinding then [in_RealIndex inp] else [])
     @ (if UsesCLSAG tx then clsag_ring_bytes inp else [])"

definition output_hash_bytes :: "TxOutput \<Rightarrow> bytes" where
  "output_hash_bytes out =
     arr_bytes (out_OneTimePub out) @ arr_bytes (out_AmountCommit out)
     @ arr_bytes (out_TxPubKey out) @ be_put64 (out_EncAmount out)"

definition tx_hash_parts :: "Transaction \<Rightarrow> bytes list" where
  "tx_hash_parts tx =
     [[tx_Version tx], le_put64 (tx_Fee tx), arr_bytes (tx_FeeCommit tx), tx_Extra tx]
     @ (case tx_AVM tx of None \<Rightarrow> [] | Some p \<Rightarrow> [canonicalBytes True p])
     @ map (input_hash_bytes tx) (tx_Inputs tx)
     @ map output_hash_bytes (tx_Outputs tx)"

definition tx_Hash :: "lib \<Rightarrow> Transaction \<Rightarrow> hash32" where
  "tx_Hash K tx = HashBytes K (tx_hash_parts tx)"

subsection \<open>Checkpoint, position and payout transactions\<close>

datatype lpod_tx_error =
    LpodMalformed
  | LpodNotCheckpoint

datatype position_error =
    PosPayload
  | PosJson
  | PosNoncanonical
  | PosIdentity
  | PosBeneficiary
  | PosFields
  | PosMissingProof
  | PosOwnerSignature
  | PosWithdrawal
  | PosDeposit
  | PosCommit
  | PosInput
  | PosSourceProof

datatype payout_error =
    PayMalformed
  | PayJson
  | PayNoncanonical
  | PayAddress address_error

datatype sale_tx_error =
    SaleStructure
  | SaleEmptyField
  | SalePoints
  | SaleOpening

datatype ring_error =
    RingSizeMismatch
  | ZeroKeyImage
  | RealIndexRange
  | OpeningLength
  | RealIndexDisclosed
  | RingCommitmentCount
  | ClsagLength

datatype shape_error =
    NoOutputs
  | TooManyOutputs
  | ExtraTooLarge
  | CoinbaseVersion
  | NoInputs
  | LegacySigs
  | ClsagCount
  | ClsagUnexpected
  | SigCount
  | RangeCount

datatype burn_tx_error =
    BurnParse burn_error
  | BurnVersion
  | BurnCoinbase
  | BurnAmountZero
  | BurnOutputs

datatype stake_tx_error =
    StakeExtraSize
  | StakeUnknownAction
  | StakeOutputs

datatype tx_error =
    TxVersionZero
  | TxVersionUnsupported
  | TxLpod lpod_tx_error
  | TxSale sale_tx_error
  | TxPosition position_error
  | TxPayout payout_error
  | TxAvmExtra
  | TxAvm avm_error
  | TxAvmShape
  | TxAvmUnexpected
  | TxGuardianStructure
  | TxGuardianExtra
  | TxStake stake_tx_error
  | TxBurn burn_tx_error
  | TxShape shape_error
  | TxRing ring_error

datatype policy_error =
    PolicyTx tx_error
  | PolicyCoinbaseVersion
  | PolicyAvmInactive
  | PolicyAvmNeedsClsag
  | PolicyInactive
  | PolicyClsagRequired
  | PolicyLegacyDisabled

definition lpodPrefix :: bytes where
  "lpodPrefix = str_bytes ''APRO-LPOD-CHECKPOINT'' @ [1]"

definition LPoDCheckpointTx :: "hash32 \<Rightarrow> Transaction" where
  "LPoDCheckpointTx digest = (empty_tx TxVersionLPoD)\<lparr>tx_Extra := lpodPrefix @ arr_bytes digest\<rparr>"

definition validateLPoD :: "Transaction \<Rightarrow> lpod_tx_error + unit" where
  "validateLPoD tx =
     (if tx_Inputs tx \<noteq> [] \<or> tx_Outputs tx \<noteq> [] \<or> tx_Fee tx \<noteq> 0 \<or> tx_FeeCommit tx \<noteq> 0
         \<or> tx_RangeProofs tx \<noteq> [] \<or> tx_Signatures tx \<noteq> [] \<or> tx_CLSAGSignatures tx \<noteq> []
         \<or> tx_AVM tx \<noteq> None \<or> length (tx_Extra tx) \<noteq> length lpodPrefix + 32
         \<or> take (length lpodPrefix) (tx_Extra tx) \<noteq> lpodPrefix
      then Inl LpodMalformed else Inr ())"

definition LPoDCheckpointDigest :: "Transaction \<Rightarrow> lpod_tx_error + hash32" where
  "LPoDCheckpointDigest tx =
     (if \<not> IsLPoD tx then Inl LpodNotCheckpoint
      else case validateLPoD tx of Inl e \<Rightarrow> Inl e
      | Inr _ \<Rightarrow> Inr (arr_of (drop (length lpodPrefix) (tx_Extra tx))))"

definition position_Message :: "lib \<Rightarrow> jsonlib \<Rightarrow> LPoDPositionAction \<Rightarrow> hash32" where
  "position_Message K J a = HashBytes K [str_bytes ''aperod/lpod/position/v1'', json_position J a]"

definition LPoDPositionID :: "lib \<Rightarrow> jsonlib \<Rightarrow> hash32 \<Rightarrow> hash32 \<Rightarrow> u32 \<Rightarrow> hash32" where
  "LPoDPositionID K J genesis source index =
     HashBytes K [str_bytes ''aperod/lpod/position-id/v1'', json_position_id J genesis source index]"

definition LPoDOwnershipRing :: "lib \<Rightarrow> point32 \<Rightarrow> point32 list" where
  "LPoDOwnershipRing K pub =
     pub # map (\<lambda>i. hash_to_curve K (str_bytes ''aperod/lpod/direct-proof-decoy/v1'' @ arr_bytes pub
                                     @ [word_of_nat i])) [1..<RingSize]"

text \<open>\<open>MLSAGVerifyV4\<close> returns an error on a nil signature.\<close>

definition mlsag_v4_ok :: "lib \<Rightarrow> hash32 \<Rightarrow> point32 list \<Rightarrow> commitment \<Rightarrow> MLSAGSignature option \<Rightarrow> bool" where
  "mlsag_v4_ok K msg ring commit sig =
     (case sig of None \<Rightarrow> False | Some s \<Rightarrow> mlsag_verify_v4 K msg ring commit 0 s)"

definition deposit_proof :: "lib \<Rightarrow> jsonlib \<Rightarrow> Transaction \<Rightarrow> LPoDPositionAction
    \<Rightarrow> position_error + LPoDPositionAction" where
  "deposit_proof K J tx a =
     (case tx_Signatures tx ! 1 of None \<Rightarrow> Inl PosDeposit | Some sig \<Rightarrow>
      if pos_Nonce a \<noteq> 0 \<or> pos_WithdrawAmount a \<noteq> 0 \<or> length (tx_Inputs tx) \<noteq> 1 then Inl PosDeposit
      else case pedersen_commit K (pos_Amount a) (pos_Blind a) of None \<Rightarrow> Inl PosCommit
      | Some commit \<Rightarrow>
        let expected = \<lparr>in_KeyImage = mls_KeyImage sig, in_Ring = LPoDOwnershipRing K (pos_SourcePub a),
              in_AmountCommit = commit, in_RingCommitments = [], in_PseudoOut = 0, in_RealIndex = 0\<rparr>
        in if expected \<noteq> hd (tx_Inputs tx) then Inl PosInput
        else if \<not> mlsag_v4_ok K (position_Message K J a) (in_Ring expected) commit (Some sig)
        then Inl PosSourceProof else Inr a)"

definition tx_LPoDPositionAction :: "lib \<Rightarrow> jsonlib \<Rightarrow> Transaction \<Rightarrow> position_error + LPoDPositionAction" where
  "tx_LPoDPositionAction K J tx =
     (if \<not> IsLPoDPosition tx \<or> 4096 < length (tx_Extra tx) \<or> tx_Extra tx = [] then Inl PosPayload
      else case json_position_parse J (tx_Extra tx) of None \<Rightarrow> Inl PosJson | Some a \<Rightarrow>
      if json_position J a \<noteq> tx_Extra tx then Inl PosNoncanonical
      else if pos_Genesis a = 0
         \<or> pos_PositionID a \<noteq> LPoDPositionID K J (pos_Genesis a) (pos_SourceTx a) (pos_SourceIndex a)
         \<or> (pos_Action a \<noteq> 1 \<and> pos_Action a \<noteq> 2) \<or> pos_Amount a = 0 then Inl PosIdentity
      else case DecodeAddress K (pos_Beneficiary a) of Inl _ \<Rightarrow> Inl PosBeneficiary
      | Inr (net, spend, view) \<Rightarrow>
      if spend \<noteq> pos_Owner a then Inl PosBeneficiary
      else if tx_Outputs tx \<noteq> [] \<or> tx_Fee tx \<noteq> 0 \<or> tx_FeeCommit tx \<noteq> 0 \<or> tx_RangeProofs tx \<noteq> []
         \<or> tx_CLSAGSignatures tx \<noteq> [] \<or> tx_AVM tx \<noteq> None then Inl PosFields
      else if length (tx_Signatures tx) \<noteq> (if pos_Action a = 1 then 2 else 1) then Inl PosMissingProof
      else if \<not> mlsag_v4_ok K (position_Message K J a) (LPoDOwnershipRing K (pos_Owner a)) (pos_Owner a)
                 (hd (tx_Signatures tx)) then Inl PosOwnerSignature
      else if pos_Action a = 2 then
        (if tx_Inputs tx \<noteq> [] \<or> pos_Nonce a = 0 then Inl PosWithdrawal else Inr a)
      else deposit_proof K J tx a)"

definition tx_LPoDPayoutAuthorization :: "lib \<Rightarrow> jsonlib \<Rightarrow> Transaction \<Rightarrow> payout_error + LPoDPayoutAuthorization" where
  "tx_LPoDPayoutAuthorization K J tx =
     (if \<not> IsLPoDPayout tx \<or> tx_Inputs tx \<noteq> [] \<or> 4097 < length (tx_Outputs tx) \<or> tx_Fee tx \<noteq> 0
         \<or> tx_FeeCommit tx \<noteq> 0 \<or> tx_Signatures tx \<noteq> [] \<or> tx_CLSAGSignatures tx \<noteq> []
         \<or> tx_RangeProofs tx \<noteq> [] \<or> tx_AVM tx \<noteq> None \<or> 512 < length (tx_Extra tx)
      then Inl PayMalformed
      else case json_payout_parse J (tx_Extra tx) of None \<Rightarrow> Inl PayJson | Some a \<Rightarrow>
      if json_payout J a \<noteq> tx_Extra tx then Inl PayNoncanonical
      else case DecodeAddress K (pay_LeaderAddr a) of Inl e \<Rightarrow> Inl (PayAddress e) | Inr _ \<Rightarrow> Inr a)"

subsection \<open>Sale transactions\<close>

definition saleExtraSize :: nat where "saleExtraSize = 280"

definition salePrefix :: bytes where
  "salePrefix = str_bytes ''APSALE'' @ [1, 0]"

definition sale_extra :: "SaleAuthorization \<Rightarrow> bytes" where
  "sale_extra a =
     (let out = make_buf saleExtraSize;
          out = copy_at 0 8 salePrefix out;
          out = copy_at 8 40 (arr_bytes (sa_Genesis a)) out;
          out = copy_at 40 48 (be_put64 (sa_Height a)) out;
          out = copy_at 48 80 (arr_bytes (sa_Parent a)) out;
          out = copy_at 80 112 (arr_bytes (sa_Order a)) out;
          out = copy_at 112 144 (arr_bytes (sa_Payment a)) out;
          out = copy_at 144 152 (be_put64 (sa_Amount a)) out;
          out = copy_at 152 216 (arr64_bytes (sa_Opening a)) out
      in copy_at 216 280 (arr64_bytes (sa_Signature a)) out)"

definition sale_fields :: "bytes \<Rightarrow> SaleAuthorization" where
  "sale_fields extra =
     \<lparr>sa_Genesis = arr_of (slice 8 40 extra), sa_Height = be_get64 (slice 40 48 extra),
      sa_Parent = arr_of (slice 48 80 extra), sa_Order = arr_of (slice 80 112 extra),
      sa_Payment = arr_of (slice 112 144 extra), sa_Amount = be_get64 (slice 144 152 extra),
      sa_Opening = arr64_of (slice 152 216 extra), sa_Signature = arr64_of (drop 216 extra)\<rparr>"

definition tx_SaleAuthorization :: "lib \<Rightarrow> Transaction \<Rightarrow> sale_tx_error + SaleAuthorization" where
  "tx_SaleAuthorization K tx =
     (if \<not> IsSale tx \<or> length (tx_Extra tx) \<noteq> saleExtraSize \<or> take 8 (tx_Extra tx) \<noteq> salePrefix
         \<or> tx_Inputs tx \<noteq> [] \<or> length (tx_Outputs tx) \<noteq> 1 \<or> tx_Fee tx \<noteq> 0 \<or> tx_FeeCommit tx \<noteq> 0
         \<or> tx_AVM tx \<noteq> None \<or> tx_RangeProofs tx \<noteq> [] \<or> tx_Signatures tx \<noteq> []
         \<or> tx_CLSAGSignatures tx \<noteq> [] then Inl SaleStructure
      else let a = sale_fields (tx_Extra tx); o0 = hd (tx_Outputs tx) in
      if sa_Height a = 0 \<or> sa_Amount a = 0 \<or> sa_Genesis a = 0 \<or> sa_Parent a = 0 \<or> sa_Order a = 0
         \<or> sa_Payment a = 0 then Inl SaleEmptyField
      else if \<not> prime_point K (out_OneTimePub o0) \<or> \<not> prime_point K (out_TxPubKey o0) then Inl SalePoints
      else if \<not> value_opening_ok K (sa_Amount a) (out_AmountCommit o0) (arr64_bytes (sa_Opening a))
      then Inl SaleOpening else Inr a)"

definition SaleSigningMessage :: "lib \<Rightarrow> Transaction \<Rightarrow> hash32" where
  "SaleSigningMessage K tx =
     (let extra = (if length (tx_Extra tx) = saleExtraSize
                   then take 216 (tx_Extra tx) @ make_buf (saleExtraSize - 216) else tx_Extra tx);
          unsigned = tx\<lparr>tx_Extra := extra\<rparr>
      in HashBytes K [str_bytes ''aperod/sale/confidential-output-authorization/v1'',
                      arr_bytes (tx_Hash K unsigned)])"

subsection \<open>Structural validation\<close>

definition GuardianFundNAPR :: u64 where "GuardianFundNAPR = 100000000000000000"

definition guardianFundDomain :: bytes where
  "guardianFundDomain = str_bytes ''APRO-GUARDIAN-FUND''"

definition guardianFundExtraSize :: nat where
  "guardianFundExtraSize = length ''APRO-GUARDIAN-FUND'' + 1 + 32 + 8"

definition StakePayloadSize :: nat where "StakePayloadSize = 105"
definition StakePayloadSizeV2 :: nat where "StakePayloadSizeV2 = 173"
definition StakePayloadSizeV3 :: nat where "StakePayloadSizeV3 = 237"
definition StakePayloadSizeV4 :: nat where "StakePayloadSizeV4 = 301"
definition StakeWithdrawalPayloadSizeV2 :: nat where "StakeWithdrawalPayloadSizeV2 = 193"

lemmas stake_sizes = StakePayloadSize_def StakePayloadSizeV2_def StakePayloadSizeV3_def
  StakePayloadSizeV4_def StakeWithdrawalPayloadSizeV2_def

definition validate_stake_shape :: "Transaction \<Rightarrow> stake_tx_error + unit" where
  "validate_stake_shape tx =
     (if length (tx_Extra tx) \<notin> {StakePayloadSize, StakeWithdrawalPayloadSizeV2, StakePayloadSizeV2,
           StakePayloadSizeV3, StakePayloadSizeV4} then Inl StakeExtraSize
      else if hd (tx_Extra tx) \<notin> {1, 2, 3} then Inl StakeUnknownAction
      else if tx_Outputs tx = [] then Inr () else Inl StakeOutputs)"

text \<open>The checks on input \<open>i\<close>.\<close>

definition validate_input :: "Transaction \<Rightarrow> nat \<Rightarrow> ring_error + unit" where
  "validate_input tx i =
     (let inp = tx_Inputs tx ! i in
      if length (in_Ring inp) \<noteq> RingSize then Inl RingSizeMismatch
      else if in_KeyImage inp = 0 then Inl ZeroKeyImage
      else if tx_Version tx = TxVersionCommitmentBinding \<and> RingSize \<le> unat (in_RealIndex inp)
        then Inl RealIndexRange
      else if tx_Version tx = TxVersionCommitmentBinding \<and>
           (case tx_Signatures tx ! i of None \<Rightarrow> False
            | Some s \<Rightarrow> length (mls_BlindSS s) \<noteq> RingSize \<or> length (mls_ValueSS s) \<noteq> RingSize)
        then Inl OpeningLength
      else if UsesCLSAG tx \<and> in_RealIndex inp \<noteq> 0 then Inl RealIndexDisclosed
      else if UsesCLSAG tx \<and> length (in_RingCommitments inp) \<noteq> RingSize then Inl RingCommitmentCount
      else if UsesCLSAG tx \<and>
           (case tx_CLSAGSignatures tx ! i of None \<Rightarrow> True | Some s \<Rightarrow> length (cls_S s) \<noteq> RingSize)
        then Inl ClsagLength
      else Inr ())"

definition validate_inputs :: "Transaction \<Rightarrow> ring_error + unit" where
  "validate_inputs tx = foldE (\<lambda>i _. validate_input tx i) [0..<length (tx_Inputs tx)] ()"

definition validate_burn :: "Transaction \<Rightarrow> burn_tx_error + bool" where
  "validate_burn tx =
     (case parseIntentionalBurnExtra (tx_Extra tx) of (burnAmount, burnMarked, burnErr) \<Rightarrow>
      case burnErr of Some e \<Rightarrow> Inl (BurnParse e) | None \<Rightarrow>
      if burnMarked then
        (if tx_Version tx \<noteq> TxVersionCommitmentBinding \<and> tx_Version tx \<noteq> TxVersionCLSAG then Inl BurnVersion
         else if IsCoinbase tx then Inl BurnCoinbase
         else if burnAmount = 0 then Inl BurnAmountZero
         else if 1 < length (tx_Outputs tx) then Inl BurnOutputs
         else Inr True)
      else Inr False)"

definition validate_signature_counts :: "Transaction \<Rightarrow> shape_error + unit" where
  "validate_signature_counts tx =
     (if tx_Inputs tx = [] then Inl NoInputs
      else if UsesCLSAG tx \<and> tx_Signatures tx \<noteq> [] then Inl LegacySigs
      else if UsesCLSAG tx \<and> length (tx_CLSAGSignatures tx) \<noteq> length (tx_Inputs tx) then Inl ClsagCount
      else if \<not> UsesCLSAG tx \<and> tx_CLSAGSignatures tx \<noteq> [] then Inl ClsagUnexpected
      else if \<not> UsesCLSAG tx \<and> length (tx_Signatures tx) \<noteq> length (tx_Inputs tx) then Inl SigCount
      else if length (tx_RangeProofs tx) \<noteq> length (tx_Outputs tx) then Inl RangeCount
      else Inr ())"

text \<open>The part of \<open>Validate\<close> for transfers and coinbases, after the special kinds.\<close>

definition validate_transfer :: "Transaction \<Rightarrow> tx_error + unit" where
  "validate_transfer tx =
     (case validate_burn tx of Inl e \<Rightarrow> Inl (TxBurn e) | Inr burnMarked \<Rightarrow>
      if tx_Outputs tx = [] \<and> \<not> burnMarked then Inl (TxShape NoOutputs)
      else if 16 < length (tx_Outputs tx) then Inl (TxShape TooManyOutputs)
      else if 255 < length (tx_Extra tx) then Inl (TxShape ExtraTooLarge)
      else if IsCoinbase tx then
        (if tx_Version tx \<noteq> TxVersionBase then Inl (TxShape CoinbaseVersion) else Inr ())
      else case validate_signature_counts tx of Inl e \<Rightarrow> Inl (TxShape e) | Inr _ \<Rightarrow>
      (case validate_inputs tx of Inl e \<Rightarrow> Inl (TxRing e) | Inr _ \<Rightarrow> Inr ()))"

definition validate_avm_part :: "lib \<Rightarrow> Transaction \<Rightarrow> tx_error + unit" where
  "validate_avm_part K tx =
     (if IsAVM tx then
        (if tx_Extra tx \<noteq> [] then Inl TxAvmExtra
         else case avm_Validate K (tx_AVM tx) of Inl e \<Rightarrow> Inl (TxAvm e)
         | Inr _ \<Rightarrow> if tx_Inputs tx = [] \<or> tx_Outputs tx = [] then Inl TxAvmShape else Inr ())
      else if tx_AVM tx \<noteq> None then Inl TxAvmUnexpected
      else Inr ())"

definition validate_guardian :: "Transaction \<Rightarrow> tx_error + unit" where
  "validate_guardian tx =
     (if tx_Inputs tx \<noteq> [] \<or> length (tx_Outputs tx) \<noteq> 1 \<or> tx_Fee tx \<noteq> 0 \<or> tx_FeeCommit tx \<noteq> 0
         \<or> tx_RangeProofs tx \<noteq> [] \<or> tx_Signatures tx \<noteq> [] \<or> tx_CLSAGSignatures tx \<noteq> []
      then Inl TxGuardianStructure
      else if length (tx_Extra tx) \<noteq> guardianFundExtraSize then Inl TxGuardianExtra
      else Inr ())"

definition tx_Validate :: "lib \<Rightarrow> jsonlib \<Rightarrow> Transaction \<Rightarrow> tx_error + unit" where
  "tx_Validate K J tx =
     (if tx_Version tx = 0 then Inl TxVersionZero
      else if tx_Version tx \<notin> {TxVersionBase, TxVersionGameAsset, TxVersionStake, TxVersionCommitmentBinding,
           TxVersionCLSAG, TxVersionAVM, TxVersionGuardianFund, TxVersionLPoD, TxVersionLPoDPosition,
           TxVersionLPoDPayout, TxVersionSale} then Inl TxVersionUnsupported
      else if IsLPoD tx then
        (case validateLPoD tx of Inl e \<Rightarrow> Inl (TxLpod e) | Inr _ \<Rightarrow> Inr ())
      else if IsSale tx then
        (case tx_SaleAuthorization K tx of Inl e \<Rightarrow> Inl (TxSale e) | Inr _ \<Rightarrow> Inr ())
      else if IsLPoDPosition tx then
        (case tx_LPoDPositionAction K J tx of Inl e \<Rightarrow> Inl (TxPosition e) | Inr _ \<Rightarrow> Inr ())
      else if IsLPoDPayout tx then
        (case tx_LPoDPayoutAuthorization K J tx of Inl e \<Rightarrow> Inl (TxPayout e) | Inr _ \<Rightarrow> Inr ())
      else case validate_avm_part K tx of Inl e \<Rightarrow> Inl e | Inr _ \<Rightarrow>
      if IsGuardianFund tx then validate_guardian tx
      else if IsStake tx then
        (case validate_stake_shape tx of Inl e \<Rightarrow> Inl (TxStake e) | Inr _ \<Rightarrow> Inr ())
      else validate_transfer tx)"

subsection \<open>Height policy\<close>

text \<open>The variadic activation heights are arguments that are 0 when absent.\<close>

definition ValidateTxVersionAtHeight :: "lib \<Rightarrow> jsonlib \<Rightarrow> Transaction \<Rightarrow> u64 \<Rightarrow> u64 \<Rightarrow> u64 \<Rightarrow> u64
    \<Rightarrow> policy_error + unit" where
  "ValidateTxVersionAtHeight K J tx height v4Height clsagHeight avmHeight =
     (if IsLPoD tx then
        (case validateLPoD tx of Inl e \<Rightarrow> Inl (PolicyTx (TxLpod e)) | Inr _ \<Rightarrow> Inr ())
      else if IsLPoDPosition tx \<or> IsLPoDPayout tx then
        (case tx_Validate K J tx of Inl e \<Rightarrow> Inl (PolicyTx e) | Inr _ \<Rightarrow> Inr ())
      else if IsStake tx then Inr ()
      else if IsGuardianFund tx then Inr ()
      else if IsCoinbase tx then
        (if tx_Version tx \<noteq> TxVersionBase then Inl PolicyCoinbaseVersion else Inr ())
      else if IsAVM tx then
        (if avmHeight = 0 \<or> height < avmHeight then Inl PolicyAvmInactive
         else if clsagHeight = 0 \<or> height < clsagHeight then Inl PolicyAvmNeedsClsag
         else Inr ())
      else if tx_Version tx = TxVersionCLSAG \<and> (clsagHeight = 0 \<or> height < clsagHeight)
        then Inl PolicyInactive
      else if tx_Version tx = TxVersionCommitmentBinding \<and> 0 < v4Height \<and> height < v4Height
        then Inl PolicyInactive
      else if 0 < clsagHeight \<and> clsagHeight \<le> height \<and> \<not> UsesCLSAG tx then Inl PolicyClsagRequired
      else if (v4Height = 0 \<or> v4Height \<le> height) \<and>
           (tx_Version tx = TxVersionBase \<or> tx_Version tx = TxVersionGameAsset)
        then Inl PolicyLegacyDisabled
      else Inr ())"

subsection \<open>Size and fees\<close>

definition tx_Size :: "Transaction \<Rightarrow> nat" where
  "tx_Size tx =
     (let nin = length (tx_Inputs tx);
          size = 1 + 8 + 32;
          size = size + nin * (32 + RingSize * 32 + 32);
          size = (if tx_Version tx = TxVersionCommitmentBinding then size + nin else size);
          size = size + length (tx_Outputs tx) * (32 + 32 + 32 + 8);
          sigBytes = 32 + RingSize * 32 + 32;
          sigBytes = (if tx_Version tx = TxVersionCommitmentBinding
                      then sigBytes + 2 * RingSize * 32 + 64 else sigBytes);
          size = (if UsesCLSAG tx then size + nin * (RingSize * 32 + 32 + 608)
                  else size + length (tx_Signatures tx) * sigBytes);
          size = (case tx_AVM tx of None \<Rightarrow> size | Some p \<Rightarrow> size + length (canonicalBytes True p));
          size = size + length (tx_RangeProofs tx) * 675
      in size + length (tx_Extra tx))"

definition InitialBaseFeePerByte :: u64 where "InitialBaseFeePerByte = 200"
definition MinBaseFeePerByte :: u64 where "MinBaseFeePerByte = 50"

definition MinFeeAt :: "Transaction \<Rightarrow> u64 \<Rightarrow> u64" where
  "MinFeeAt tx baseFeePerByte =
     (let fee = (if baseFeePerByte = 0 then InitialBaseFeePerByte else baseFeePerByte);
          size = word_of_nat (tx_Size tx)
      in if size \<noteq> 0 \<and> max_u64 div size < fee then max_u64 else size * fee)"

definition KeyImages :: "Transaction \<Rightarrow> key_image list" where
  "KeyImages tx = map in_KeyImage (tx_Inputs tx)"

subsection \<open>The guardian allocation\<close>

definition guardianFundExtra :: "hash32 \<Rightarrow> u64 \<Rightarrow> bytes" where
  "guardianFundExtra anchor height =
     guardianFundDomain @ [1] @ arr_bytes anchor @ le_put64 height"

definition BuildGuardianFundTx :: "lib \<Rightarrow> hash32 \<Rightarrow> u64 \<Rightarrow> Transaction option" where
  "BuildGuardianFundTx K chainAnchor activationHeight =
     (if chainAnchor = 0 then None
      else let extra = guardianFundExtra chainAnchor activationHeight;
               pub = hash_to_curve K (str_bytes ''aperod/guardian-fund/key/v1'' @ extra)
      in case pedersen_commit K GuardianFundNAPR 0 of None \<Rightarrow> None
      | Some commit \<Rightarrow>
          Some ((empty_tx TxVersionGuardianFund)\<lparr>tx_Outputs :=
                  [\<lparr>out_OneTimePub = pub, out_TxPubKey = 0, out_AmountCommit = commit, out_EncAmount = 0\<rparr>],
                tx_Extra := extra\<rparr>))"

definition GuardianFundTxAt :: "lib \<Rightarrow> jsonlib \<Rightarrow> Transaction \<Rightarrow> hash32 \<Rightarrow> u64 \<Rightarrow> bool" where
  "GuardianFundTxAt K J tx chainAnchor activationHeight =
     (is_ok (tx_Validate K J tx) \<and> BuildGuardianFundTx K chainAnchor activationHeight = Some tx)"

subsection \<open>Decoders as functions of the payload\<close>

text \<open>The part of \<open>SaleAuthorization\<close> that reads the payload, and the burn marker as a codec.\<close>

definition sale_decode :: "bytes \<Rightarrow> sale_tx_error + SaleAuthorization" where
  "sale_decode extra =
     (if length extra \<noteq> saleExtraSize \<or> take 8 extra \<noteq> salePrefix then Inl SaleStructure
      else Inr (sale_fields extra))"

definition burn_decode :: "bytes \<Rightarrow> burn_error option + u64" where
  "burn_decode extra =
     (case parseIntentionalBurnExtra extra of
        (amount, marked, Some e) \<Rightarrow> Inl (Some e)
      | (amount, marked, None) \<Rightarrow> if marked then Inr amount else Inl None)"

section \<open>Codecs\<close>

lemma length_str_bytes [simp]: "length (str_bytes s) = length s"
  by (simp add: str_bytes_def)

lemma str_bytes_inj: "str_bytes s = str_bytes t \<longleftrightarrow> s = t"
proof
  have inv: "map (\<lambda>b. char_of (unat b)) (str_bytes u) = u" for u
    by (induction u) (simp_all add: str_bytes_def unat_of_nat)
  assume "str_bytes s = str_bytes t"
  then show "s = t" by (metis inv)
qed simp

lemma length_salePrefix [simp]: "length salePrefix = 8"
  by (simp add: salePrefix_def)

lemma sale_extra_append:
  "sale_extra a = salePrefix @ arr_bytes (sa_Genesis a) @ be_put64 (sa_Height a) @ arr_bytes (sa_Parent a)
     @ arr_bytes (sa_Order a) @ arr_bytes (sa_Payment a) @ be_put64 (sa_Amount a)
     @ arr64_bytes (sa_Opening a) @ arr64_bytes (sa_Signature a)"
  unfolding sale_extra_def Let_def saleExtraSize_def
  by (subst copy_at_first, simp, simp) ((subst copy_at_next, simp, simp, simp)+, simp)

lemma sale_fields_extra: "sale_fields (sale_extra a) = a"
  by (simp add: sale_fields_def sale_extra_append slice_simps)

lemma slice_chain:
  assumes "length e = 280"
  shows "e = take 8 e @ slice 8 40 e @ slice 40 48 e @ slice 48 80 e @ slice 80 112 e
    @ slice 112 144 e @ slice 144 152 e @ slice 152 216 e @ drop 216 e"
proof -
  have "e = take 8 e @ drop 8 e" by simp
  then show ?thesis
    using slice_split [of 8 40 e] slice_split [of 40 48 e] slice_split [of 48 80 e]
      slice_split [of 80 112 e] slice_split [of 112 144 e] slice_split [of 144 152 e]
      slice_split [of 152 216 e] by simp
qed

lemma sale_extra_fields:
  assumes "length e = 280" and "take 8 e = salePrefix"
  shows "sale_extra (sale_fields e) = e"
  using slice_chain [OF assms(1)] assms by (simp add: sale_extra_append sale_fields_def put_get)

interpretation sale_codec: canonical_codec "\<lambda>a. Inr (sale_extra a) :: sale_tx_error + bytes" sale_decode "\<lambda>_. True"
proof unfold_locales
  show "sale_decode b = Inr x" if "(Inr (sale_extra x) :: sale_tx_error + bytes) = Inr b" for x b
    using that sale_fields_extra [of x] by (auto simp: sale_decode_def sale_extra_append saleExtraSize_def)
  show "(Inr (sale_extra x) :: sale_tx_error + bytes) = Inr b" if "sale_decode b = Inr x" for x b
    using that by (auto simp: sale_decode_def saleExtraSize_def sale_extra_fields split: if_splits)
qed simp

lemma length_intentionalBurnPrefix [simp]: "length intentionalBurnPrefix = 10"
  by (simp add: intentionalBurnPrefix_def)

lemma IntentionalBurnExtra_append: "IntentionalBurnExtra v = intentionalBurnPrefix @ le_put64 v"
  by (simp add: IntentionalBurnExtra_def Let_def copy_at_def make_buf_def)

interpretation burn_codec: canonical_codec
    "\<lambda>v. if v = 0 then Inl () else Inr (IntentionalBurnExtra v)" burn_decode "\<lambda>v. v \<noteq> 0"
proof unfold_locales
  show "burn_decode b = Inr x" if "(if x = 0 then Inl () else Inr (IntentionalBurnExtra x)) = Inr b" for x b
    using that
    by (auto simp: burn_decode_def parseIntentionalBurnExtra_def Let_def IntentionalBurnExtra_append
        split: if_splits)
  show "(if x = 0 then Inl () else Inr (IntentionalBurnExtra x)) = Inr b" if "burn_decode b = Inr x" for x b
  proof -
    have "x \<noteq> 0" "length b = 18" "take 10 b = intentionalBurnPrefix" "x = le_get64 (drop 10 b)"
      using that by (auto simp: burn_decode_def parseIntentionalBurnExtra_def Let_def split: if_splits)
    moreover from this have "b = intentionalBurnPrefix @ drop 10 b" "le_put64 (le_get64 (drop 10 b)) = drop 10 b"
      by (metis append_take_drop_id) (simp add: put_get_le \<open>length b = 18\<close>)
    ultimately show ?thesis by (simp add: IntentionalBurnExtra_append)
  qed
qed simp

section \<open>The signed bytes of a contract payload\<close>

lemma le_put32_inject: "le_put32 v = le_put32 w \<longleftrightarrow> v = w"
  by (metis get_put(5))

lemma le_put16_inject: "le_put16 v = le_put16 w \<longleftrightarrow> v = w"
  by (metis get_put(6))

lemma le_put64_inject: "le_put64 v = le_put64 w \<longleftrightarrow> v = w"
  by (metis get_put(3))

lemma arr64_bytes_inject: "arr64_bytes v = arr64_bytes w \<longleftrightarrow> v = w"
  by (metis get_put(7))

lemma fixed_append_eq:
  "length a = length b \<Longrightarrow> a @ x = b @ y \<longleftrightarrow> a = b \<and> x = y"
  by simp

lemma writeAVMBytes_append_eq:
  assumes "length v < 2 ^ 32" and "length w < 2 ^ 32"
  shows "writeAVMBytes v @ x = writeAVMBytes w @ y \<longleftrightarrow> v = w \<and> x = y"
proof
  assume eq: "writeAVMBytes v @ x = writeAVMBytes w @ y"
  then have "le_put32 (word_of_nat (length v)) = le_put32 (word_of_nat (length w))"
    and vw: "v @ x = w @ y"
    by (simp_all add: writeAVMBytes_def)
  then have "(word_of_nat (length v) :: u32) = word_of_nat (length w)"
    by (simp add: le_put32_inject)
  then have "length v = length w"
    using assms by (metis unat_of_nat_eq_u32)
  with vw show "v = w \<and> x = y" by simp
qed simp

lemma access_bytes_append_eq:
  assumes "length (acc_Key a) < 2 ^ 32" and "length (acc_Key b) < 2 ^ 32"
  shows "access_bytes a @ x = access_bytes b @ y \<longleftrightarrow> a = b \<and> x = y"
  using writeAVMBytes_append_eq [OF assms, of "[if acc_Write a then 1 else 0] @ x"
      "[if acc_Write b then 1 else 0] @ y"]
  by (auto simp: access_bytes_def)

lemma access_list_append_eq:
  assumes "length as = length bs" and "\<forall>a \<in> set as \<union> set bs. length (acc_Key a) < 2 ^ 32"
    and "concat (map access_bytes as) @ x = concat (map access_bytes bs) @ y"
  shows "as = bs \<and> x = y"
  using assms
proof (induction as bs rule: list_induct2)
  case (Cons a as b bs)
  then show ?case
    using access_bytes_append_eq [of a b "concat (map access_bytes as) @ x" "concat (map access_bytes bs) @ y"]
    by auto
qed simp

definition payload_sizes_ok :: "AVMPayload \<Rightarrow> bool" where
  "payload_sizes_ok p \<longleftrightarrow> length (avm_Code p) < 2 ^ 32 \<and> length (avm_Entry p) < 2 ^ 32
     \<and> length (avm_Calldata p) < 2 ^ 32 \<and> length (avm_AccessList p) < 2 ^ 16
     \<and> list_all (\<lambda>a. length (acc_Key a) < 2 ^ 32) (avm_AccessList p)"

lemma canonicalBytes_append_eq:
  assumes "payload_sizes_ok p" and "payload_sizes_ok q"
    and "canonicalBytes s p @ x = canonicalBytes s q @ y"
  shows "p\<lparr>avm_Signature := 0\<rparr> = q\<lparr>avm_Signature := 0\<rparr>" and "s \<Longrightarrow> p = q" and "x = y"
proof -
  note sz = assms(1,2)[unfolded payload_sizes_ok_def]
  let ?tail = "\<lambda>p x. concat (map access_bytes (avm_AccessList p))
     @ ((if s then arr64_bytes (avm_Signature p) else []) @ x)"
  have eqs: "avm_Action p = avm_Action q" "avm_ContractID p = avm_ContractID q" "avm_Code p = avm_Code q"
    "avm_Entry p = avm_Entry q" "avm_Calldata p = avm_Calldata q" "avm_GasLimit p = avm_GasLimit q"
    "avm_Nonce p = avm_Nonce q" "avm_Signer p = avm_Signer q"
    "(word_of_nat (length (avm_AccessList p)) :: 16 word) = word_of_nat (length (avm_AccessList q))"
    and tail: "?tail p x = ?tail q y"
    using assms(3) sz
    by (simp_all add: canonicalBytes_def writeAVMBytes_append_eq arr_bytes_inject le_put64_inject
        le_put16_inject str_bytes_inj)
  have len: "length (avm_AccessList p) = length (avm_AccessList q)"
    using eqs(9) sz by (metis unat_of_nat_eq_u16)
  have keys: "\<forall>a \<in> set (avm_AccessList p) \<union> set (avm_AccessList q). length (acc_Key a) < 2 ^ 32"
    using sz by (auto simp: list_all_iff)
  have al: "avm_AccessList p = avm_AccessList q"
    and rest: "(if s then arr64_bytes (avm_Signature p) else []) @ x
      = (if s then arr64_bytes (avm_Signature q) else []) @ y"
    using access_list_append_eq [OF len keys tail] by simp_all
  show "p\<lparr>avm_Signature := 0\<rparr> = q\<lparr>avm_Signature := 0\<rparr>" using eqs al by simp
  show "s \<Longrightarrow> p = q" using eqs al rest by (simp add: arr64_bytes_inject)
  show "x = y" using rest by (simp split: if_splits)
qed

lemma check_access_ok: "check_access prev as = Inr u \<Longrightarrow> list_all (\<lambda>a. length (acc_Key a) \<le> 64) as"
  by (induction prev as rule: check_access.induct) (auto simp: AVMMaxStateKeySize_def split: if_splits)

lemma avm_Validate_sizes: "avm_Validate K (Some p) = Inr u \<Longrightarrow> payload_sizes_ok p"
proof -
  assume ok: "avm_Validate K (Some p) = Inr u"
  then have "avm_check_action K p = None" "length (avm_Entry p) \<le> 64" "length (avm_Calldata p) \<le> 65536"
    "length (avm_AccessList p) \<le> 64" "\<exists>u. check_access None (avm_AccessList p) = Inr u"
    by (auto simp: avm_Validate_def AVMMaxEntrySize_def AVMMaxCalldataSize_def AVMMaxAccessListKeys_def
        split: option.splits sum.splits if_splits)
  then show ?thesis
    using check_access_ok [of None "avm_AccessList p"]
    by (auto simp: payload_sizes_ok_def avm_check_action_def AVMMaxCodeSize_def list_all_iff split: if_splits)
qed

section \<open>Validation by kind\<close>

definition transfer_versions :: "u8 set" where
  "transfer_versions = {TxVersionBase, TxVersionGameAsset, TxVersionCommitmentBinding, TxVersionCLSAG, TxVersionAVM}"

lemma tx_Validate_transfer:
  assumes "tx_Version tx \<in> transfer_versions"
  shows "tx_Validate K J tx
    = (case validate_avm_part K tx of Inl e \<Rightarrow> Inl e | Inr _ \<Rightarrow> validate_transfer tx)"
  using assms unfolding transfer_versions_def insert_iff empty_iff
  by (elim disjE) (simp_all add: tx_Validate_def tx_kinds tx_versions)

lemma tx_Validate_stake:
  assumes "IsStake tx"
  shows "tx_Validate K J tx = (case validate_avm_part K tx of Inl e \<Rightarrow> Inl e
    | Inr _ \<Rightarrow> (case validate_stake_shape tx of Inl e \<Rightarrow> Inl (TxStake e) | Inr _ \<Rightarrow> Inr ()))"
  using assms by (simp add: tx_Validate_def tx_kinds tx_versions)

lemma tx_Validate_position:
  assumes "IsLPoDPosition tx"
  shows "tx_Validate K J tx
    = (case tx_LPoDPositionAction K J tx of Inl e \<Rightarrow> Inl (TxPosition e) | Inr _ \<Rightarrow> Inr ())"
  using assms by (simp add: tx_Validate_def tx_kinds tx_versions)

lemma tx_Validate_lpod:
  assumes "IsLPoD tx"
  shows "tx_Validate K J tx = (case validateLPoD tx of Inl e \<Rightarrow> Inl (TxLpod e) | Inr _ \<Rightarrow> Inr ())"
  using assms by (simp add: tx_Validate_def tx_kinds tx_versions)

lemma tx_Validate_versions:
  "tx_Validate K J tx = Inr u \<Longrightarrow> tx_Version tx \<in> transfer_versions \<union> {TxVersionStake, TxVersionGuardianFund,
     TxVersionLPoD, TxVersionLPoDPosition, TxVersionLPoDPayout, TxVersionSale}"
proof (rule ccontr)
  assume a: "tx_Validate K J tx = Inr u" "\<not> ?thesis"
  from a(2) have "tx_Validate K J tx \<in> {Inl TxVersionZero, Inl TxVersionUnsupported}"
    by (simp add: tx_Validate_def transfer_versions_def)
  with a(1) show False by auto
qed

lemma valid_stake_outputs: "IsStake tx \<Longrightarrow> tx_Validate K J tx = Inr u \<Longrightarrow> tx_Outputs tx = []"
  by (auto simp: tx_Validate_stake validate_stake_shape_def split: sum.splits if_splits)

lemma valid_lpod_outputs: "IsLPoD tx \<Longrightarrow> tx_Validate K J tx = Inr u \<Longrightarrow> tx_Outputs tx = []"
  by (auto simp: tx_Validate_lpod validateLPoD_def split: sum.splits if_splits)

lemma valid_position_outputs: "IsLPoDPosition tx \<Longrightarrow> tx_Validate K J tx = Inr u \<Longrightarrow> tx_Outputs tx = []"
  by (auto simp: tx_Validate_position tx_LPoDPositionAction_def split: sum.splits option.splits if_splits)

lemma validate_input_ok:
  "validate_input tx i = Inr u \<Longrightarrow>
     length (in_Ring (tx_Inputs tx ! i)) = RingSize \<and> in_KeyImage (tx_Inputs tx ! i) \<noteq> 0"
  by (simp add: validate_input_def Let_def split: if_split_asm)

lemma validate_inputs_ok:
  assumes "validate_inputs tx = Inr u"
  shows "list_all (\<lambda>inp. length (in_Ring inp) = RingSize \<and> in_KeyImage inp \<noteq> 0) (tx_Inputs tx)"
proof -
  have step: "foldE (\<lambda>i _. validate_input tx i) is () = Inr u \<Longrightarrow>
      \<forall>i \<in> set is. validate_input tx i = Inr ()" for "is" u
    by (induction "is") (auto split: sum.splits)
  have "\<forall>i < length (tx_Inputs tx). validate_input tx i = Inr ()"
    using step [of "[0..<length (tx_Inputs tx)]"] assms by (simp add: validate_inputs_def)
  then show ?thesis
    using validate_input_ok by (auto simp: list_all_length)
qed

section \<open>Fees\<close>

lemma u64_mul_overflow_iff:
  assumes "sz \<noteq> (0 :: u64)"
  shows "max_u64 div sz < fee \<longleftrightarrow> 2 ^ 64 \<le> unat sz * unat fee"
proof -
  have s: "0 < unat sz" using assms by (simp add: unat_gt_0)
  have "max_u64 div sz < fee \<longleftrightarrow> (2 ^ 64 - 1) div unat sz < unat fee"
    by (simp add: u64_less_iff unat_div unat_max_u64)
  also have "\<dots> \<longleftrightarrow> 2 ^ 64 - 1 < unat fee * unat sz"
    using s by (simp add: div_less_iff_less_mult)
  finally show ?thesis by (auto simp: mult.commute)
qed

lemma unat_mult_u64: "unat a * unat b < 2 ^ 64 \<Longrightarrow> unat (a * b :: u64) = unat a * unat b"
  by (simp add: unat_word_ariths)

section \<open>Properties\<close>

text \<open>The bytes a contract payload signs determine it: two payloads that pass \<open>Validate\<close> and have
  the same unsigned canonical bytes agree on every field but the signature, so a signature binds the
  action, code, entry, calldata, gas, nonce, signer and access list at once.\<close>

theorem avm_signing_bytes_binding:
  assumes "avm_Validate K (Some p) = Inr u" and "avm_Validate K (Some q) = Inr v"
    and "canonicalBytes False p = canonicalBytes False q"
  shows "p\<lparr>avm_Signature := 0\<rparr> = q\<lparr>avm_Signature := 0\<rparr>"
  using canonicalBytes_append_eq(1) [of p q False "[]" "[]"] assms avm_Validate_sizes by simp

definition demo_payload :: "arr64 \<Rightarrow> AVMPayload" where
  "demo_payload sig = \<lparr>avm_Action = 2, avm_ContractID = 9, avm_Code = [], avm_Entry = ''run'',
     avm_Calldata = [1, 2], avm_GasLimit = 5000, avm_Nonce = 1, avm_Signer = 3, avm_Signature = sig,
     avm_AccessList = [\<lparr>acc_Key = [7], acc_Write = True\<rparr>]\<rparr>"

definition sign_lib :: lib where
  "sign_lib = demo_lib\<lparr>ed25519_verify := \<lambda>pub msg sig. True\<rparr>"

lemma demo_payload_valid: "avm_Validate sign_lib (Some (demo_payload sig)) = Inr ()"
  by (simp add: avm_Validate_def avm_check_action_def demo_payload_def sign_lib_def AVMMaxEntrySize_def
      AVMMaxCalldataSize_def AVMMinGasLimit_def AVMMaxGasLimit_def AVMMaxAccessListKeys_def
      AVMMaxStateKeySize_def utf8_cont_def)

theorem avm_signing_bytes_binding_witness:
  "(demo_payload 4)\<lparr>avm_Signature := 0\<rparr> = (demo_payload 5)\<lparr>avm_Signature := 0\<rparr>"
  by (rule avm_signing_bytes_binding [OF demo_payload_valid demo_payload_valid])
    (simp add: canonicalBytes_def demo_payload_def)

text \<open>The minimum fee is the product of size and rate, saturated at the largest 64-bit value
  instead of wrapping; a rate of zero means the initial rate.\<close>

theorem MinFeeAt_saturates:
  assumes "tx_Size tx < 2 ^ 64"
  shows "unat (MinFeeAt tx rate)
    = min (2 ^ 64 - 1) (tx_Size tx * (if rate = 0 then 200 else unat rate))"
proof -
  define fee where "fee = (if rate = 0 then InitialBaseFeePerByte else rate)"
  define sz :: u64 where "sz = word_of_nat (tx_Size tx)"
  have szn: "unat sz = tx_Size tx" using assms by (simp add: sz_def unat_of_nat)
  have fe: "unat fee = (if rate = 0 then 200 else unat rate)"
    by (simp add: fee_def InitialBaseFeePerByte_def)
  have "0 < tx_Size tx" by (simp add: tx_Size_def Let_def split: option.splits)
  with szn have nz: "sz \<noteq> 0" by auto
  show ?thesis
  proof (cases "2 ^ 64 \<le> unat sz * unat fee")
    case True
    then have "max_u64 div sz < fee" using u64_mul_overflow_iff [OF nz] by blast
    with nz have "MinFeeAt tx rate = max_u64"
      by (simp add: MinFeeAt_def Let_def flip: fee_def sz_def)
    with True show ?thesis by (simp add: unat_max_u64 flip: szn fe)
  next
    case False
    then have "\<not> max_u64 div sz < fee" using u64_mul_overflow_iff [OF nz] by blast
    then have "MinFeeAt tx rate = sz * fee"
      by (simp add: MinFeeAt_def Let_def flip: fee_def sz_def)
    with False show ?thesis by (simp add: unat_mult_u64 flip: szn fe)
  qed
qed

theorem MinFeeAt_saturates_witness:
  "unat (MinFeeAt (empty_tx TxVersionBase) max_u64) = 2 ^ 64 - 1 \<and>
   unat (MinFeeAt (empty_tx TxVersionBase) 0) = 41 * 200"
  using MinFeeAt_saturates [of "empty_tx TxVersionBase" max_u64]
    MinFeeAt_saturates [of "empty_tx TxVersionBase" 0]
  by (simp add: tx_Size_def empty_tx_def tx_versions UsesCLSAG_def Let_def max_u64_def)

lemma length_guardianFundExtra: "length (guardianFundExtra a h) = guardianFundExtraSize"
  by (simp add: guardianFundExtra_def guardianFundDomain_def guardianFundExtraSize_def)

text \<open>\<open>BuildGuardianFundTx\<close> builds the only transaction \<open>GuardianFundTxAt\<close> accepts: what it builds
  is accepted, and an accepted transaction is accepted for one anchor and one height only.\<close>

theorem guardian_fund_unique:
  "(BuildGuardianFundTx K anchor height = Some tx \<longrightarrow> GuardianFundTxAt K J tx anchor height) \<and>
   (GuardianFundTxAt K J tx anchor height \<longrightarrow> GuardianFundTxAt K J tx anchor' height' \<longrightarrow>
      anchor' = anchor \<and> height' = height)"
proof (intro conjI impI)
  assume b: "BuildGuardianFundTx K anchor height = Some tx"
  then obtain o1 where tx: "tx = (empty_tx TxVersionGuardianFund)\<lparr>tx_Outputs := [o1],
      tx_Extra := guardianFundExtra anchor height\<rparr>"
    by (auto simp: BuildGuardianFundTx_def Let_def split: if_splits option.splits)
  have kind: "IsGuardianFund tx" "\<not> IsLPoD tx" "\<not> IsSale tx" "\<not> IsLPoDPosition tx" "\<not> IsLPoDPayout tx"
    "\<not> IsAVM tx" "tx_Version tx = TxVersionGuardianFund" "TxVersionGuardianFund \<noteq> 0"
    by (simp_all add: tx empty_tx_def tx_kinds tx_versions)
  have "validate_avm_part K tx = Inr ()" "validate_guardian tx = Inr ()"
    by (simp_all add: tx validate_avm_part_def validate_guardian_def empty_tx_def length_guardianFundExtra
        kind(6) [unfolded tx empty_tx_def, simplified])
  then have "is_ok (tx_Validate K J tx)"
    by (simp add: tx_Validate_def kind)
  with b show "GuardianFundTxAt K J tx anchor height" by (simp add: GuardianFundTxAt_def)
next
  have extra: "GuardianFundTxAt K J tx a h \<Longrightarrow> tx_Extra tx = guardianFundExtra a h" for a h
    by (auto simp: GuardianFundTxAt_def BuildGuardianFundTx_def Let_def split: if_splits option.splits)
  assume "GuardianFundTxAt K J tx anchor height" "GuardianFundTxAt K J tx anchor' height'"
  from extra [OF this(1)] extra [OF this(2)] have "guardianFundExtra anchor' height' = guardianFundExtra anchor height" by simp
  then show "anchor' = anchor" "height' = height"
    by (simp_all add: guardianFundExtra_def arr_bytes_inject le_put64_inject)
qed

theorem guardian_fund_unique_witness:
  "\<exists>tx. BuildGuardianFundTx demo_lib 1 100 = Some tx \<and>
     GuardianFundTxAt demo_lib \<lparr>json_position = (\<lambda>_. []), json_position_parse = (\<lambda>_. None),
       json_position_id = (\<lambda>_ _ _. []), json_payout = (\<lambda>_. []), json_payout_parse = (\<lambda>_. None)\<rparr> tx 1 100"
proof -
  obtain tx where "BuildGuardianFundTx demo_lib 1 100 = Some tx"
    by (simp add: BuildGuardianFundTx_def demo_lib_def Let_def)
  with guardian_fund_unique show ?thesis by blast
qed

text \<open>Structural validation confines value creation without inputs: a valid transaction that has
  outputs but no inputs is a version 1 coinbase, the guardian allocation, a payout or a sale, and
  every valid spend has one signature per input, one range proof per output, full rings and non-zero
  key images.\<close>

theorem valid_tx_value_sources:
  assumes "tx_Validate K J tx = Inr ()"
  shows "(tx_Inputs tx = [] \<and> tx_Outputs tx \<noteq> [] \<longrightarrow>
      tx_Version tx \<in> {TxVersionBase, TxVersionGuardianFund, TxVersionLPoDPayout, TxVersionSale}) \<and>
    (tx_Version tx \<in> transfer_versions \<and> tx_Inputs tx \<noteq> [] \<longrightarrow>
      length (tx_RangeProofs tx) = length (tx_Outputs tx) \<and>
      (if UsesCLSAG tx then length (tx_CLSAGSignatures tx) else length (tx_Signatures tx))
        = length (tx_Inputs tx) \<and>
      list_all (\<lambda>inp. length (in_Ring inp) = RingSize \<and> in_KeyImage inp \<noteq> 0) (tx_Inputs tx))"
proof (cases "tx_Version tx \<in> transfer_versions")
  case True
  then have t: "validate_transfer tx = Inr ()"
    using assms by (simp add: tx_Validate_transfer split: sum.splits)
  have "IsCoinbase tx \<longleftrightarrow> tx_Inputs tx = []"
    using True by (auto simp: transfer_versions_def tx_kinds tx_versions)
  with t show ?thesis
    by (auto simp: validate_transfer_def validate_signature_counts_def
        split: sum.splits if_splits dest: validate_inputs_ok)
next
  case False
  have "tx_Version tx \<in> {TxVersionStake, TxVersionGuardianFund, TxVersionLPoD, TxVersionLPoDPosition,
      TxVersionLPoDPayout, TxVersionSale}"
    using tx_Validate_versions [OF assms] False by blast
  then show ?thesis
    using False valid_stake_outputs [OF _ assms] valid_lpod_outputs [OF _ assms]
      valid_position_outputs [OF _ assms]
    by (auto simp: IsStake_def IsLPoD_def IsLPoDPosition_def)
qed

definition no_json :: jsonlib where
  "no_json = \<lparr>json_position = (\<lambda>_. []), json_position_parse = (\<lambda>_. None),
     json_position_id = (\<lambda>_ _ _. []), json_payout = (\<lambda>_. []), json_payout_parse = (\<lambda>_. None)\<rparr>"

definition demo_coinbase :: "bytes \<Rightarrow> TxOutput list \<Rightarrow> Transaction" where
  "demo_coinbase extra outs = (empty_tx TxVersionBase)\<lparr>tx_Extra := extra, tx_Outputs := outs\<rparr>"

definition demo_output :: TxOutput where
  "demo_output = \<lparr>out_OneTimePub = 1, out_TxPubKey = 2, out_AmountCommit = 3, out_EncAmount = 4\<rparr>"

lemma coinbase_valid:
  assumes "outs \<noteq> []" and "length outs \<le> 16" and "length extra \<le> 255"
    and "take 10 extra \<noteq> intentionalBurnPrefix"
  shows "tx_Validate K J (demo_coinbase extra outs) = Inr ()"
  using assms
  by (simp add: tx_Validate_transfer transfer_versions_def demo_coinbase_def empty_tx_def
      validate_avm_part_def validate_transfer_def validate_burn_def parseIntentionalBurnExtra_def Let_def
      tx_kinds tx_versions)

theorem valid_tx_value_sources_witness:
  "tx_Version (demo_coinbase [] [demo_output])
     \<in> {TxVersionBase, TxVersionGuardianFund, TxVersionLPoDPayout, TxVersionSale}"
proof -
  have "tx_Validate demo_lib no_json (demo_coinbase [] [demo_output]) = Inr ()"
    by (rule coinbase_valid) (simp_all add: intentionalBurnPrefix_def)
  from valid_tx_value_sources [OF this] show ?thesis
    by (simp add: demo_coinbase_def empty_tx_def)
qed

text \<open>C34: The transaction hash does not determine the transaction: the length of \<open>Extra\<close> is not
  hashed, so a coinbase with two outputs and one whose \<open>Extra\<close> holds the first output's bytes have
  the same hash, whatever the hash function, and both pass \<open>Validate\<close>.\<close>

theorem tx_hash_ambiguous:
  "\<exists>t1 t2. t1 \<noteq> t2 \<and> length (tx_Outputs t1) \<noteq> length (tx_Outputs t2) \<and>
     (\<forall>K J. tx_Validate K J t1 = Inr () \<and> tx_Validate K J t2 = Inr () \<and> tx_Hash K t1 = tx_Hash K t2)"
proof -
  let ?t1 = "demo_coinbase [] [demo_output, demo_output]"
  let ?t2 = "demo_coinbase (output_hash_bytes demo_output) [demo_output]"
  have v1: "tx_Validate K J ?t1 = Inr ()" for K J
    by (rule coinbase_valid) (simp_all add: intentionalBurnPrefix_def)
  have len: "length (output_hash_bytes demo_output) = 104"
    by (simp add: output_hash_bytes_def)
  have "arr_bytes 1 = replicate 31 0 @ [1]"
    using be_bytes_add [of 31 1 1] by (simp add: arr_bytes_def be_bytes_0)
  then have "hd (output_hash_bytes demo_output) = 0" "output_hash_bytes demo_output \<noteq> []"
    by (simp_all add: output_hash_bytes_def demo_output_def)
  moreover have "hd intentionalBurnPrefix \<noteq> 0"
    by (simp add: intentionalBurnPrefix_def str_bytes_def)
  ultimately have "take 10 (output_hash_bytes demo_output) \<noteq> intentionalBurnPrefix"
    by (metis hd_take zero_less_numeral)
  with len have v2: "tx_Validate K J ?t2 = Inr ()" for K J
    by (intro coinbase_valid) simp_all
  have "tx_Hash K ?t1 = tx_Hash K ?t2" for K
    by (simp add: tx_Hash_def HashBytes_def tx_hash_parts_def demo_coinbase_def empty_tx_def)
  moreover have "length (tx_Outputs ?t1) \<noteq> length (tx_Outputs ?t2)"
    by (simp add: demo_coinbase_def)
  ultimately show ?thesis
    using v1 v2 by (intro exI [of _ ?t1] exI [of _ ?t2]) auto
qed

end
