(* ===== verification/Sale.thy ===== *)
theory Sale
  imports Transactions
begin

text \<open>
  The sale protocol of \<open>sale/\<close>: the authority-attested checkpoint and its two-thirds rule
  (\<open>accounting.go\<close>), the purchase ledger with its replay sets (\<open>accounting.go\<close>,
  \<open>canonical.go\<close>), the constant-size state with its durable fence (\<open>state.go\<close>), and the
  reconciliation of the nominal 10B cap (\<open>net_allocation.go\<close>, \<open>allocation_epoch.go\<close>,
  \<open>reconciliation.go\<close>).  The locale \<open>supermajority\<close> proves quorum intersection once; the lemmas show
  the ledger invariant, that no order or payment is consumed twice, and that \<open>State.Advance\<close> refines
  the ledger.
\<close>

section \<open>Definitions\<close>

definition CapNAPRO :: u64 where "CapNAPRO = 1000000000000000000"

record Attestation =
  att_Validator :: ValidatorPubKey
  att_Signature :: bytes

record Checkpoint =
  cp_Genesis :: hash32
  cp_Network :: u8
  cp_Height :: u64
  cp_Parent :: hash32
  cp_SnapshotRoot :: hash32
  cp_HistoricIssued :: u64
  cp_OtherReserved :: u64
  cp_SaleRemaining :: u64
  cp_SaleAuthority :: ValidatorPubKey
  cp_Attestations :: "Attestation list"

datatype sale_error =
    SaleCheckpointBinding
  | SaleNetwork
  | SaleBudget
  | SaleTrustedSet
  | SaleNoAuthorities
  | SaleAttestation
  | SaleQuorum
  | SaleParent
  | SalePurchase
  | SaleOrderConsumed
  | SalePaymentConsumed
  | SaleAllocation
  | SaleAuthTx sale_tx_error
  | SaleUnauthorized
  | SaleStateMismatch
  | SaleFence
  | SaleFenceError
  | SaleNetBasis
  | SaleEpochBasis
  | SaleMixedBases
  | SaleEpochBurn
  | SaleNetMismatch
  | SaleOverCap
  | SaleEpochAvailable
  | SaleEpochLate
  | SaleEpochCheckpoint
  | SaleReconBinding
  | SaleReconClaims

definition cp_message :: "lib \<Rightarrow> Checkpoint \<Rightarrow> hash32" where
  "cp_message K c =
     HashBytes K [str_bytes ''aperod/sale/forward-checkpoint/authorization/v1'',
       arr_bytes (cp_Genesis c), [cp_Network c], be_put64 (cp_Height c), arr_bytes (cp_Parent c),
       arr_bytes (cp_SnapshotRoot c), be_put64 (cp_HistoricIssued c), be_put64 (cp_OtherReserved c),
       be_put64 (cp_SaleRemaining c), cp_SaleAuthority c]"

definition nonzeroPub :: "ValidatorPubKey \<Rightarrow> bool" where
  "nonzeroPub key \<longleftrightarrow> length key = 32 \<and> list_ex (\<lambda>b. b \<noteq> 0) key"

definition allow_key :: "ValidatorPubKey \<Rightarrow> ValidatorPubKey list \<Rightarrow> sale_error + ValidatorPubKey list" where
  "allow_key key allowed =
     (if \<not> nonzeroPub key \<or> key \<in> set allowed then Inl SaleTrustedSet else Inr (key # allowed))"

definition count_attestation :: "lib \<Rightarrow> Checkpoint \<Rightarrow> ValidatorPubKey list \<Rightarrow> Attestation
    \<Rightarrow> ValidatorPubKey list \<Rightarrow> sale_error + ValidatorPubKey list" where
  "count_attestation K c allowed a seen =
     (let key = att_Validator a in
      if key \<notin> set allowed \<or> key \<in> set seen \<or> \<not> pub_Verify K key (cp_message K c) (att_Signature a)
      then Inl SaleAttestation else Inr (key # seen))"

definition cp_Verify :: "lib \<Rightarrow> Checkpoint \<Rightarrow> hash32 \<Rightarrow> hash32 \<Rightarrow> u64 \<Rightarrow> ValidatorPubKey list
    \<Rightarrow> sale_error + unit" where
  "cp_Verify K c genesis parent height trusted =
     (if height = 0 \<or> cp_Height c \<noteq> height \<or> cp_Parent c \<noteq> parent \<or> parent = 0
         \<or> cp_Genesis c \<noteq> genesis \<or> genesis = 0 \<or> cp_SnapshotRoot c = 0
         \<or> \<not> nonzeroPub (cp_SaleAuthority c) then Inl SaleCheckpointBinding
      else if cp_Network c \<noteq> MainnetByte \<and> cp_Network c \<noteq> TestnetByte \<and> cp_Network c \<noteq> DevnetByte
        then Inl SaleNetwork
      else if cp_SaleRemaining c = 0 \<or> CapNAPRO < cp_HistoricIssued c
         \<or> CapNAPRO - cp_HistoricIssued c < cp_OtherReserved c
         \<or> CapNAPRO - cp_HistoricIssued c - cp_OtherReserved c < cp_SaleRemaining c then Inl SaleBudget
      else case foldE allow_key trusted [] of Inl e \<Rightarrow> Inl e | Inr allowed \<Rightarrow>
      if allowed = [] then Inl SaleNoAuthorities
      else case foldE (count_attestation K c allowed) (cp_Attestations c) [] of Inl e \<Rightarrow> Inl e
      | Inr seen \<Rightarrow>
        if length seen \<le> 2 * length allowed div 3 then Inl SaleQuorum else Inr ())"

record Purchase =
  pu_Genesis :: hash32
  pu_Height :: u64
  pu_Parent :: hash32
  pu_OrderHash :: hash32
  pu_PaymentHash :: hash32
  pu_Recipient :: Address
  pu_Amount :: u64
  pu_Signature :: bytes

definition pu_Message :: "lib \<Rightarrow> Purchase \<Rightarrow> hash32" where
  "pu_Message K p =
     HashBytes K [str_bytes ''aperod/sale/purchase/authorization/v1'', arr_bytes (pu_Genesis p),
       be_put64 (pu_Height p), arr_bytes (pu_Parent p), arr_bytes (pu_OrderHash p),
       arr_bytes (pu_PaymentHash p), be_put64 (pu_Amount p), str_bytes (pu_Recipient p)]"

text \<open>The two sets of consumed identities are the maps \<open>seen\<close> and \<open>paid\<close>.\<close>

record Ledger =
  l_checkpoint :: Checkpoint
  l_height :: u64
  l_hash :: hash32
  l_remaining :: u64
  l_sold :: u64
  l_seen :: "hash32 set"
  l_paid :: "hash32 set"

definition Begin :: "lib \<Rightarrow> Checkpoint \<Rightarrow> hash32 \<Rightarrow> hash32 \<Rightarrow> u64 \<Rightarrow> ValidatorPubKey list
    \<Rightarrow> sale_error + Ledger" where
  "Begin K c genesis parent height trusted =
     (case cp_Verify K c genesis parent height trusted of Inl e \<Rightarrow> Inl e | Inr _ \<Rightarrow>
      Inr \<lparr>l_checkpoint = c\<lparr>cp_Attestations := []\<rparr>, l_height = height - 1, l_hash = parent,
           l_remaining = cp_SaleRemaining c, l_sold = 0, l_seen = {}, l_paid = {}\<rparr>)"

text \<open>The replay checks and the debit, common to both transitions of the ledger.\<close>

definition ledger_debit :: "hash32 \<Rightarrow> hash32 \<Rightarrow> u64 \<Rightarrow> Ledger \<Rightarrow> sale_error + Ledger" where
  "ledger_debit order payment amount nxt =
     (if order \<in> l_seen nxt then Inl SaleOrderConsumed
      else if payment \<in> l_paid nxt then Inl SalePaymentConsumed
      else if l_remaining nxt < amount \<or> max_u64 - l_sold nxt < amount then Inl SaleAllocation
      else Inr (nxt\<lparr>l_seen := insert order (l_seen nxt), l_paid := insert payment (l_paid nxt),
                    l_remaining := l_remaining nxt - amount, l_sold := l_sold nxt + amount\<rparr>))"

definition apply_purchase :: "lib \<Rightarrow> Checkpoint \<Rightarrow> u64 \<Rightarrow> hash32 \<Rightarrow> Purchase \<Rightarrow> Ledger \<Rightarrow> sale_error + Ledger" where
  "apply_purchase K cp height parent p nxt =
     (if pu_Genesis p \<noteq> cp_Genesis cp \<or> pu_Height p \<noteq> height \<or> pu_Parent p \<noteq> parent
         \<or> pu_OrderHash p = 0 \<or> pu_PaymentHash p = 0 \<or> pu_Amount p = 0
         \<or> (case DecodeAddress K (pu_Recipient p) of Inl _ \<Rightarrow> True | Inr (net, _, _) \<Rightarrow> net \<noteq> cp_Network cp)
         \<or> \<not> pub_Verify K (cp_SaleAuthority cp) (pu_Message K p) (pu_Signature p)
      then Inl SalePurchase
      else ledger_debit (pu_OrderHash p) (pu_PaymentHash p) (pu_Amount p) nxt)"

definition ApplyAccountedPurchases :: "lib \<Rightarrow> Ledger \<Rightarrow> u64 \<Rightarrow> hash32 \<Rightarrow> hash32 \<Rightarrow> Purchase list
    \<Rightarrow> sale_error + Ledger" where
  "ApplyAccountedPurchases K s height parent blockHash purchases =
     (if height = 0 \<or> height \<noteq> l_height s + 1 \<or> parent \<noteq> l_hash s \<or> blockHash = 0 \<or> blockHash = parent
      then Inl SaleParent
      else foldE (apply_purchase K (l_checkpoint s) height parent) purchases
             (s\<lparr>l_height := height, l_hash := blockHash\<rparr>))"

definition apply_sale_tx :: "lib \<Rightarrow> Checkpoint \<Rightarrow> u64 \<Rightarrow> hash32 \<Rightarrow> Transaction \<Rightarrow> Ledger \<Rightarrow> sale_error + Ledger" where
  "apply_sale_tx K cp height parent tx nxt =
     (case tx_SaleAuthorization K tx of Inl e \<Rightarrow> Inl (SaleAuthTx e) | Inr a \<Rightarrow>
      if sa_Genesis a \<noteq> cp_Genesis cp \<or> sa_Height a \<noteq> height \<or> sa_Parent a \<noteq> parent
         \<or> \<not> pub_Verify K (cp_SaleAuthority cp) (SaleSigningMessage K tx) (arr64_bytes (sa_Signature a))
      then Inl SaleUnauthorized
      else ledger_debit (sa_Order a) (sa_Payment a) (sa_Amount a) nxt)"

definition ApplyCanonicalTransactions :: "lib \<Rightarrow> Ledger \<Rightarrow> u64 \<Rightarrow> hash32 \<Rightarrow> hash32 \<Rightarrow> Transaction list
    \<Rightarrow> sale_error + Ledger" where
  "ApplyCanonicalTransactions K s height parent blockHash txs =
     (if height = 0 \<or> height \<noteq> l_height s + 1 \<or> parent \<noteq> l_hash s \<or> blockHash = 0 \<or> blockHash = parent
      then Inl SaleParent
      else foldE (apply_sale_tx K (l_checkpoint s) height parent) txs
             (s\<lparr>l_height := height, l_hash := blockHash\<rparr>))"

subsection \<open>The durable state\<close>

record SaleState =
  ss_Checkpoint :: hash32
  ss_Height :: u64
  ss_Hash :: hash32
  ss_Remaining :: u64
  ss_Sold :: u64

definition InitialState :: "lib \<Rightarrow> Checkpoint \<Rightarrow> SaleState" where
  "InitialState K c = \<lparr>ss_Checkpoint = cp_message K c, ss_Height = cp_Height c - 1, ss_Hash = cp_Parent c,
     ss_Remaining = cp_SaleRemaining c, ss_Sold = 0\<rparr>"

text \<open>The kinds of identity in the durable fence, \<open>'o'\<close> and \<open>'p'\<close>; \<open>None\<close> is a read error.\<close>

datatype fence_kind = FenceOrder | FencePayment

type_synonym fence = "fence_kind \<Rightarrow> hash32 \<Rightarrow> bool option"

definition check_fence :: "fence \<Rightarrow> fence_kind \<times> hash32 \<Rightarrow> unit \<Rightarrow> sale_error + unit" where
  "check_fence consumed ref u =
     (case consumed (fst ref) (snd ref) of None \<Rightarrow> Inl SaleFenceError
      | Some used \<Rightarrow> if used then Inl SaleFence else Inr ())"

definition fence_tx :: "lib \<Rightarrow> fence \<Rightarrow> Transaction \<Rightarrow> unit \<Rightarrow> sale_error + unit" where
  "fence_tx K consumed tx u =
     (case tx_SaleAuthorization K tx of Inl e \<Rightarrow> Inl (SaleAuthTx e)
      | Inr a \<Rightarrow> foldE (check_fence consumed) [(FenceOrder, sa_Order a), (FencePayment, sa_Payment a)] ())"

definition Advance :: "lib \<Rightarrow> SaleState \<Rightarrow> Checkpoint \<Rightarrow> u64 \<Rightarrow> hash32 \<Rightarrow> hash32 \<Rightarrow> Transaction list \<Rightarrow> fence
    \<Rightarrow> sale_error + SaleState" where
  "Advance K s c height parent hash txs consumed =
     (if ss_Checkpoint s \<noteq> cp_message K c \<or> ss_Height s + 1 \<noteq> height \<or> height < cp_Height c
         \<or> ss_Hash s \<noteq> parent \<or> hash = 0 \<or> hash = parent
         \<or> cp_SaleRemaining c < ss_Remaining s \<or> ss_Sold s \<noteq> cp_SaleRemaining c - ss_Remaining s
      then Inl SaleStateMismatch
      else case foldE (fence_tx K consumed) txs () of Inl e \<Rightarrow> Inl e | Inr _ \<Rightarrow>
      (case ApplyCanonicalTransactions K \<lparr>l_checkpoint = c, l_height = ss_Height s, l_hash = ss_Hash s,
              l_remaining = ss_Remaining s, l_sold = ss_Sold s, l_seen = {}, l_paid = {}\<rparr>
              height parent hash txs of Inl e \<Rightarrow> Inl e
       | Inr nxt \<Rightarrow> Inr \<lparr>ss_Checkpoint = ss_Checkpoint s, ss_Height = height, ss_Hash = hash,
                       ss_Remaining = l_remaining nxt, ss_Sold = l_sold nxt\<rparr>))"

subsection \<open>Reconciliation\<close>

record NetAllocationBasis =
  na_Burned :: u64
  na_WalletNet :: u64
  na_WalletAccountingRoot :: hash32

definition na_Consumed :: "NetAllocationBasis \<Rightarrow> sale_error + u64" where
  "na_Consumed n =
     (if na_WalletAccountingRoot n = 0 \<or> CapNAPRO < na_Burned n \<or> CapNAPRO - na_Burned n < na_WalletNet n
      then Inl SaleNetBasis else Inr (na_Burned n + na_WalletNet n))"

definition na_Digest :: "lib \<Rightarrow> NetAllocationBasis \<Rightarrow> hash32" where
  "na_Digest K n =
     HashBytes K [str_bytes ''aperod/sale/post-burn-wallet-basis/v2'', be_put64 (na_Burned n),
       be_put64 (na_WalletNet n), arr_bytes (na_WalletAccountingRoot n)]"

record AllocationEpochBasis =
  ae_FundingHeight :: u64
  ae_FundingHash :: hash32
  ae_Burned :: u64
  ae_Available :: u64
  ae_ProtectedLPoDPrincipal :: u64
  ae_LegacyHoldingsUnverified :: bool

definition ae_Validate :: "AllocationEpochBasis \<Rightarrow> sale_error + unit" where
  "ae_Validate e =
     (if ae_FundingHash e = 0 \<or> \<not> ae_LegacyHoldingsUnverified e \<or> ae_Available e = 0
         \<or> CapNAPRO < ae_Available e \<or> CapNAPRO < ae_Burned e \<or> CapNAPRO < ae_ProtectedLPoDPrincipal e
      then Inl SaleEpochBasis else Inr ())"

definition ae_Digest :: "lib \<Rightarrow> AllocationEpochBasis \<Rightarrow> hash32" where
  "ae_Digest K e =
     HashBytes K [str_bytes ''aperod/sale/operator-allocation-epoch/legacy-holdings-unverified/v1'',
       be_put64 (ae_FundingHeight e), arr_bytes (ae_FundingHash e), be_put64 (ae_Burned e),
       be_put64 (ae_Available e), be_put64 (ae_ProtectedLPoDPrincipal e),
       [if ae_LegacyHoldingsUnverified e then 1 else 0]]"

record Reconciliation =
  rc_NetAllocation :: "NetAllocationBasis option"
  rc_AllocationEpoch :: "AllocationEpochBasis option"
  rc_Genesis :: hash32
  rc_Parent :: hash32
  rc_LPoDCommitment :: hash32
  rc_OtherClaimsRoot :: hash32
  rc_HistoricIssued :: u64
  rc_ValidatorReserved :: u64
  rc_LPoDReserved :: u64
  rc_GuardianReserved :: u64
  rc_OtherReserved :: u64

definition rc_Digest :: "lib \<Rightarrow> Reconciliation \<Rightarrow> hash32" where
  "rc_Digest K r =
     (let legacy = HashBytes K [str_bytes ''aperod/sale/disjoint-forward-reconciliation/v1'',
            arr_bytes (rc_Genesis r), arr_bytes (rc_Parent r), arr_bytes (rc_LPoDCommitment r),
            arr_bytes (rc_OtherClaimsRoot r), be_put64 (rc_HistoricIssued r),
            be_put64 (rc_ValidatorReserved r), be_put64 (rc_LPoDReserved r),
            be_put64 (rc_GuardianReserved r), be_put64 (rc_OtherReserved r)]
      in case rc_AllocationEpoch r of
           Some ep \<Rightarrow>
             (let epoch = ae_Digest K ep in
              case rc_NetAllocation r of
                Some n \<Rightarrow> HashBytes K [str_bytes ''aperod/sale/invalid-mixed-allocation-bases/v1'',
                            arr_bytes legacy, arr_bytes epoch, arr_bytes (na_Digest K n)]
              | None \<Rightarrow> HashBytes K [str_bytes ''aperod/sale/operator-epoch-reconciliation/v3'',
                            arr_bytes legacy, arr_bytes epoch])
         | None \<Rightarrow>
             (case rc_NetAllocation r of
                None \<Rightarrow> legacy
              | Some n \<Rightarrow> HashBytes K [str_bytes ''aperod/sale/disjoint-forward-reconciliation/v2'',
                            arr_bytes legacy, arr_bytes (na_Digest K n)]))"

definition check_epoch :: "Reconciliation \<Rightarrow> sale_error + unit" where
  "check_epoch r =
     (case rc_AllocationEpoch r of None \<Rightarrow> Inr () | Some ep \<Rightarrow>
      if rc_NetAllocation r \<noteq> None then Inl SaleMixedBases
      else case ae_Validate ep of Inl e \<Rightarrow> Inl e | Inr _ \<Rightarrow>
      if rc_HistoricIssued r \<noteq> ae_Burned ep then Inl SaleEpochBurn else Inr ())"

definition check_net :: "Reconciliation \<Rightarrow> sale_error + unit" where
  "check_net r =
     (case rc_NetAllocation r of None \<Rightarrow> Inr () | Some n \<Rightarrow>
      case na_Consumed n of Inl e \<Rightarrow> Inl e | Inr consumed \<Rightarrow>
      if consumed \<noteq> rc_HistoricIssued r then Inl SaleNetMismatch else Inr ())"

definition take_claim :: "u64 \<Rightarrow> u64 \<Rightarrow> sale_error + u64" where
  "take_claim claim remaining =
     (if remaining < claim then Inl SaleOverCap else Inr (remaining - claim))"

definition Unassigned :: "Reconciliation \<Rightarrow> sale_error + (u64 \<times> u64)" where
  "Unassigned r =
     (case check_epoch r of Inl e \<Rightarrow> Inl e | Inr _ \<Rightarrow>
      (case check_net r of Inl e \<Rightarrow> Inl e | Inr _ \<Rightarrow>
      (case foldE take_claim [rc_HistoricIssued r, rc_ValidatorReserved r, rc_LPoDReserved r,
              rc_GuardianReserved r, rc_OtherReserved r] CapNAPRO of Inl e \<Rightarrow> Inl e
       | Inr remaining \<Rightarrow>
         if (case rc_AllocationEpoch r of None \<Rightarrow> False | Some ep \<Rightarrow> remaining \<noteq> ae_Available ep)
         then Inl SaleEpochAvailable
         else Inr (remaining, CapNAPRO - remaining - rc_HistoricIssued r))))"

text \<open>The issuance the reconciliation has to cover: an explicit basis replaces the declared one.\<close>

definition declared_issued :: "Checkpoint \<Rightarrow> Reconciliation \<Rightarrow> u64 \<Rightarrow> u64 \<Rightarrow> sale_error + u64" where
  "declared_issued c r height lpodDeclaredIssued =
     (case (case rc_AllocationEpoch r of None \<Rightarrow> Inr lpodDeclaredIssued | Some ep \<Rightarrow>
              if rc_NetAllocation r \<noteq> None then Inl SaleMixedBases
              else case ae_Validate ep of Inl e \<Rightarrow> Inl e | Inr _ \<Rightarrow>
              if height \<le> ae_FundingHeight ep then Inl SaleEpochLate
              else if cp_SaleRemaining c \<noteq> ae_Available ep then Inl SaleEpochCheckpoint
              else Inr (ae_Burned ep)) of
        Inl e \<Rightarrow> Inl e
      | Inr issued \<Rightarrow>
          (case rc_NetAllocation r of None \<Rightarrow> Inr issued | Some n \<Rightarrow> na_Consumed n))"

definition VerifyReconciledCheckpoint :: "lib \<Rightarrow> Checkpoint \<Rightarrow> Reconciliation \<Rightarrow> hash32 \<Rightarrow> hash32 \<Rightarrow> hash32
    \<Rightarrow> u64 \<Rightarrow> u64 \<Rightarrow> ValidatorPubKey list \<Rightarrow> sale_error + unit" where
  "VerifyReconciledCheckpoint K c r genesis parent canonicalLPoD height lpodDeclaredIssued trusted =
     (case declared_issued c r height lpodDeclaredIssued of Inl e \<Rightarrow> Inl e | Inr issued \<Rightarrow>
      if canonicalLPoD = 0 \<or> rc_LPoDCommitment r \<noteq> canonicalLPoD \<or> rc_OtherClaimsRoot r = 0
         \<or> rc_Genesis r \<noteq> genesis \<or> rc_Parent r \<noteq> parent \<or> rc_HistoricIssued r < issued
         \<or> cp_SnapshotRoot c \<noteq> rc_Digest K r then Inl SaleReconBinding
      else case Unassigned r of Inl e \<Rightarrow> Inl e | Inr (available, reserved) \<Rightarrow>
      if cp_HistoricIssued c \<noteq> rc_HistoricIssued r \<or> cp_OtherReserved c \<noteq> reserved
         \<or> available < cp_SaleRemaining c then Inl SaleReconClaims
      else cp_Verify K c genesis parent height trusted)"

section \<open>Checkpoints\<close>

lemma allow_key_fold:
  assumes "foldE allow_key ks acc = Inr allowed"
  shows "set allowed = set acc \<union> set ks" and "distinct acc \<Longrightarrow> distinct allowed"
    and "length allowed = length acc + length ks"
proof -
  have "set allowed = set acc \<union> set ks \<and> (distinct acc \<longrightarrow> distinct allowed)
      \<and> length allowed = length acc + length ks"
    using assms by (induction ks arbitrary: acc) (fastforce simp: allow_key_def split: sum.splits if_splits)+
  then show "set allowed = set acc \<union> set ks" "distinct acc \<Longrightarrow> distinct allowed"
    "length allowed = length acc + length ks" by auto
qed

lemma count_attestation_Inr:
  "count_attestation K c allowed a seen = Inr seen' \<longleftrightarrow> att_Validator a \<in> set allowed \<and>
     att_Validator a \<notin> set seen \<and> pub_Verify K (att_Validator a) (cp_message K c) (att_Signature a) \<and>
     seen' = att_Validator a # seen"
  by (auto simp: count_attestation_def Let_def)

lemma count_attestation_fold:
  assumes "foldE (count_attestation K c allowed) as acc = Inr seen" and "set acc \<subseteq> set allowed" and "distinct acc"
  shows "set seen \<subseteq> set allowed \<and> distinct seen \<and> set seen = set acc \<union> att_Validator ` set as \<and>
    (\<forall>a \<in> set as. pub_Verify K (att_Validator a) (cp_message K c) (att_Signature a))"
  using assms
proof (induction as arbitrary: acc)
  case (Cons a as)
  then have a: "att_Validator a \<in> set allowed" "att_Validator a \<notin> set acc"
    "pub_Verify K (att_Validator a) (cp_message K c) (att_Signature a)"
    and rest: "foldE (count_attestation K c allowed) as (att_Validator a # acc) = Inr seen"
    by (auto simp: count_attestation_Inr foldE_Cons_Inr simp del: foldE.simps(2))
  from Cons.IH [OF rest] Cons.prems(2,3) a show ?case by auto
qed simp

text \<open>The authorities whose signature over the checkpoint's message it carries.\<close>

definition attesters :: "Checkpoint \<Rightarrow> ValidatorPubKey set" where
  "attesters c = att_Validator ` set (cp_Attestations c)"

lemma cp_VerifyD:
  assumes "cp_Verify K c genesis parent height trusted = Inr u"
  shows "attesters c \<subseteq> set trusted" and "2 * card (set trusted) < 3 * card (attesters c)"
    and "\<And>v. v \<in> attesters c \<Longrightarrow> \<exists>sig. pub_Verify K v (cp_message K c) sig"
    and "cp_Height c = height" and "height \<noteq> 0" and "cp_Parent c = parent"
    and "unat (cp_HistoricIssued c) + unat (cp_OtherReserved c) + unat (cp_SaleRemaining c) \<le> unat CapNAPRO"
proof -
  obtain allowed seen where
    a: "foldE allow_key trusted [] = Inr allowed" and
    s: "foldE (count_attestation K c allowed) (cp_Attestations c) [] = Inr seen" and
    q: "\<not> length seen \<le> 2 * length allowed div 3" and
    b: "\<not> CapNAPRO < cp_HistoricIssued c" "\<not> CapNAPRO - cp_HistoricIssued c < cp_OtherReserved c"
      "\<not> CapNAPRO - cp_HistoricIssued c - cp_OtherReserved c < cp_SaleRemaining c" and
    h: "cp_Height c = height" "height \<noteq> 0" "cp_Parent c = parent"
    using assms by (auto simp: cp_Verify_def split: if_splits sum.splits)
  note al = allow_key_fold [OF a]
  have se: "set seen \<subseteq> set allowed" "distinct seen" "set seen = attesters c"
    "\<forall>x \<in> set (cp_Attestations c). pub_Verify K (att_Validator x) (cp_message K c) (att_Signature x)"
    using count_attestation_fold [OF s] by (auto simp: attesters_def)
  show "attesters c \<subseteq> set trusted" using se al by simp
  have "card (attesters c) = length seen" "card (set trusted) = length allowed"
    using se al distinct_card [of seen] distinct_card [of allowed] by simp_all
  with q show "2 * card (set trusted) < 3 * card (attesters c)" by linarith
  show "\<exists>sig. pub_Verify K v (cp_message K c) sig" if "v \<in> attesters c" for v
    using that se(4) by (auto simp: attesters_def)
  show "cp_Height c = height" "height \<noteq> 0" "cp_Parent c = parent" using h by simp_all
  show "unat (cp_HistoricIssued c) + unat (cp_OtherReserved c) + unat (cp_SaleRemaining c) \<le> unat CapNAPRO"
    using b by (simp add: not_less u64_le_iff unat_diff_u64)
qed

interpretation checkpoint_quorum: supermajority "set trusted"
    "\<lambda>Q. \<exists>c genesis parent height. cp_Verify K c genesis parent height trusted = Inr () \<and> Q = attesters c"
  by unfold_locales (use cp_VerifyD in \<open>blast+\<close>)

section \<open>The ledger\<close>

definition ledger_inv :: "Ledger \<Rightarrow> bool" where
  "ledger_inv l \<longleftrightarrow>
     unat (l_remaining l) + unat (l_sold l) = unat (cp_SaleRemaining (l_checkpoint l)) \<and>
     cp_Height (l_checkpoint l) \<noteq> 0 \<and> unat (cp_Height (l_checkpoint l)) \<le> unat (l_height l) + 1"

lemma ledger_debitE:
  assumes "ledger_debit order payment amount l = Inr l'"
  obtains "order \<notin> l_seen l" "payment \<notin> l_paid l" "amount \<le> l_remaining l"
    "unat (l_sold l') = unat (l_sold l) + unat amount"
    "unat (l_remaining l') + unat amount = unat (l_remaining l)"
    "l_seen l' = insert order (l_seen l)" "l_paid l' = insert payment (l_paid l)"
    "l_checkpoint l' = l_checkpoint l" "l_height l' = l_height l" "l_hash l' = l_hash l"
proof -
  have a: "order \<notin> l_seen l" "payment \<notin> l_paid l" "amount \<le> l_remaining l"
    "unat (l_sold l) + unat amount < 2 ^ 64"
    and l': "l' = l\<lparr>l_seen := insert order (l_seen l), l_paid := insert payment (l_paid l),
       l_remaining := l_remaining l - amount, l_sold := l_sold l + amount\<rparr>"
    using assms by (auto simp: ledger_debit_def u64_overflow_iff not_less not_le split: if_splits)
  show thesis
    by (rule that) (use a in \<open>simp_all add: l' unat_add_u64 unat_diff_u64 u64_le_iff\<close>)
qed

lemma ledger_debit_inv: "ledger_inv l \<Longrightarrow> ledger_debit i p a l = Inr l' \<Longrightarrow> ledger_inv l'"
  by (erule ledger_debitE) (simp add: ledger_inv_def)

lemma apply_sale_txE:
  assumes "apply_sale_tx K cp h parent tx l = Inr l'"
  obtains a where "tx_SaleAuthorization K tx = Inr a"
    "ledger_debit (sa_Order a) (sa_Payment a) (sa_Amount a) l = Inr l'"
  using assms by (auto simp: apply_sale_tx_def split: sum.splits if_splits)

lemma apply_purchaseE:
  assumes "apply_purchase K cp h parent p l = Inr l'"
  shows "ledger_debit (pu_OrderHash p) (pu_PaymentHash p) (pu_Amount p) l = Inr l'"
  using assms by (auto simp: apply_purchase_def split: if_splits)

interpretation sale_loop: stepwise_inv "apply_sale_tx K cp h parent" ledger_inv
  by unfold_locales (blast elim: apply_sale_txE intro: ledger_debit_inv)

interpretation purchase_loop: stepwise_inv "apply_purchase K cp h parent" ledger_inv
  by unfold_locales (blast dest: apply_purchaseE intro: ledger_debit_inv)

lemma Begin_inv: "Begin K c genesis parent height trusted = Inr l \<Longrightarrow> ledger_inv l"
proof -
  assume b: "Begin K c genesis parent height trusted = Inr l"
  then have v: "cp_Verify K c genesis parent height trusted = Inr ()"
    and l: "l = \<lparr>l_checkpoint = c\<lparr>cp_Attestations := []\<rparr>, l_height = height - 1, l_hash = parent,
           l_remaining = cp_SaleRemaining c, l_sold = 0, l_seen = {}, l_paid = {}\<rparr>"
    by (auto simp: Begin_def split: sum.splits)
  have "height \<noteq> 0" "cp_Height c = height" using cp_VerifyD(4,5) [OF v] by simp_all
  then have "unat (height - 1) = unat height - 1" "0 < unat height"
    by (simp_all add: unat_diff_u64 u64_le_iff unat_gt_0 Suc_leI)
  with \<open>cp_Height c = height\<close> \<open>height \<noteq> 0\<close> show ?thesis by (simp add: l ledger_inv_def)
qed

text \<open>The identities and amounts that a run of the ledger consumes.\<close>

definition auth_of :: "lib \<Rightarrow> Transaction \<Rightarrow> SaleAuthorization" where
  "auth_of K tx = (case tx_SaleAuthorization K tx of Inr a \<Rightarrow> a | Inl _ \<Rightarrow> sale_fields [])"

definition orders :: "lib \<Rightarrow> Transaction list \<Rightarrow> hash32 list" where
  "orders K txs = map (\<lambda>tx. sa_Order (auth_of K tx)) txs"

definition payments :: "lib \<Rightarrow> Transaction list \<Rightarrow> hash32 list" where
  "payments K txs = map (\<lambda>tx. sa_Payment (auth_of K tx)) txs"

definition sale_amounts :: "lib \<Rightarrow> Transaction list \<Rightarrow> nat" where
  "sale_amounts K txs = sum_list (map (\<lambda>tx. unat (sa_Amount (auth_of K tx))) txs)"

lemma apply_sale_tx_auth:
  assumes "apply_sale_tx K cp h parent tx l = Inr l'"
  shows "ledger_debit (sa_Order (auth_of K tx)) (sa_Payment (auth_of K tx)) (sa_Amount (auth_of K tx)) l = Inr l'"
  using assms by (auto elim!: apply_sale_txE simp: auth_of_def)

lemma sale_txs_effect:
  assumes "foldE (apply_sale_tx K cp h parent) txs l = Inr l'"
  shows "distinct (orders K txs) \<and> set (orders K txs) \<inter> l_seen l = {} \<and> l_seen l' = l_seen l \<union> set (orders K txs)"
    and "distinct (payments K txs) \<and> set (payments K txs) \<inter> l_paid l = {} \<and> l_paid l' = l_paid l \<union> set (payments K txs)"
    and "unat (l_sold l') = unat (l_sold l) + sale_amounts K txs"
    and "l_checkpoint l' = l_checkpoint l \<and> l_height l' = l_height l \<and> l_hash l' = l_hash l"
proof -
  have "(distinct (orders K txs) \<and> set (orders K txs) \<inter> l_seen l = {} \<and> l_seen l' = l_seen l \<union> set (orders K txs)) \<and>
    (distinct (payments K txs) \<and> set (payments K txs) \<inter> l_paid l = {} \<and> l_paid l' = l_paid l \<union> set (payments K txs)) \<and>
    unat (l_sold l') = unat (l_sold l) + sale_amounts K txs \<and>
    l_checkpoint l' = l_checkpoint l \<and> l_height l' = l_height l \<and> l_hash l' = l_hash l"
    using assms
  proof (induction txs arbitrary: l)
    case Nil
    then show ?case by (simp add: orders_def payments_def sale_amounts_def)
  next
    case (Cons tx txs)
    then obtain m where m: "apply_sale_tx K cp h parent tx l = Inr m"
      and rest: "foldE (apply_sale_tx K cp h parent) txs m = Inr l'"
      by (auto split: sum.splits)
    from apply_sale_tx_auth [OF m] Cons.IH [OF rest] show ?case
      by (elim ledger_debitE) (auto simp: orders_def payments_def sale_amounts_def)
  qed
  then show "distinct (orders K txs) \<and> set (orders K txs) \<inter> l_seen l = {} \<and> l_seen l' = l_seen l \<union> set (orders K txs)"
    "distinct (payments K txs) \<and> set (payments K txs) \<inter> l_paid l = {} \<and> l_paid l' = l_paid l \<union> set (payments K txs)"
    "unat (l_sold l') = unat (l_sold l) + sale_amounts K txs"
    "l_checkpoint l' = l_checkpoint l \<and> l_height l' = l_height l \<and> l_hash l' = l_hash l"
    by blast+
qed

lemma ApplyCanonicalE:
  assumes "ApplyCanonicalTransactions K s h parent bh txs = Inr s'"
  obtains "h \<noteq> 0" "h = l_height s + 1" "parent = l_hash s" "bh \<noteq> 0" "bh \<noteq> parent"
    "foldE (apply_sale_tx K (l_checkpoint s) h parent) txs (s\<lparr>l_height := h, l_hash := bh\<rparr>) = Inr s'"
  using assms by (auto simp: ApplyCanonicalTransactions_def split: if_splits)

lemma next_height:
  assumes "h = x + 1" and "h \<noteq> (0 :: u64)"
  shows "unat h = unat x + 1"
proof -
  have "unat x + 1 < 2 ^ 64"
  proof (rule ccontr)
    assume "\<not> ?thesis"
    then have "unat x = 2 ^ 64 - 1" using unat_u64_le [of x] by simp
    then have "x = max_u64" by (simp add: u64_eq_iff unat_max_u64)
    with assms show False by (simp add: max_u64_def)
  qed
  with assms(1) show ?thesis by (simp add: unat_add_u64)
qed

lemma ApplyCanonical_inv:
  assumes "ledger_inv s" and "ApplyCanonicalTransactions K s h parent bh txs = Inr s'"
  shows "ledger_inv s'"
  using assms(2)
proof (rule ApplyCanonicalE)
  assume h: "h \<noteq> 0" "h = l_height s + 1"
    and run: "foldE (apply_sale_tx K (l_checkpoint s) h parent) txs (s\<lparr>l_height := h, l_hash := bh\<rparr>) = Inr s'"
  have "ledger_inv (s\<lparr>l_height := h, l_hash := bh\<rparr>)"
    using assms(1) next_height [OF h(2,1)] by (simp add: ledger_inv_def)
  from sale_loop.run_inv [OF this run] show ?thesis .
qed

text \<open>A chain of sale blocks: height, parent, hash and sale transactions of each.\<close>

type_synonym sale_block = "u64 \<times> hash32 \<times> hash32 \<times> Transaction list"

definition apply_sale_block :: "lib \<Rightarrow> sale_block \<Rightarrow> Ledger \<Rightarrow> sale_error + Ledger" where
  "apply_sale_block K b l =
     (case b of (h, parent, bh, txs) \<Rightarrow> ApplyCanonicalTransactions K l h parent bh txs)"

definition block_txs :: "sale_block list \<Rightarrow> Transaction list" where
  "block_txs bs = concat (map (\<lambda>(h, parent, bh, txs). txs) bs)"

interpretation sale_chain: stepwise_inv "apply_sale_block K" ledger_inv
  by unfold_locales (auto simp: apply_sale_block_def split: prod.splits intro: ApplyCanonical_inv)

lemma apply_sale_block_effect:
  assumes "apply_sale_block K (h, parent, bh, txs) l = Inr l'"
  shows "distinct (orders K txs)" "set (orders K txs) \<inter> l_seen l = {}" "l_seen l' = l_seen l \<union> set (orders K txs)"
    "distinct (payments K txs)" "set (payments K txs) \<inter> l_paid l = {}" "l_paid l' = l_paid l \<union> set (payments K txs)"
    "unat (l_sold l') = unat (l_sold l) + sale_amounts K txs" "l_checkpoint l' = l_checkpoint l"
proof -
  have "foldE (apply_sale_tx K (l_checkpoint l) h parent) txs (l\<lparr>l_height := h, l_hash := bh\<rparr>) = Inr l'"
    using assms by (auto simp: apply_sale_block_def elim: ApplyCanonicalE)
  from sale_txs_effect [OF this]
  show "distinct (orders K txs)" "set (orders K txs) \<inter> l_seen l = {}" "l_seen l' = l_seen l \<union> set (orders K txs)"
    "distinct (payments K txs)" "set (payments K txs) \<inter> l_paid l = {}" "l_paid l' = l_paid l \<union> set (payments K txs)"
    "unat (l_sold l') = unat (l_sold l) + sale_amounts K txs" "l_checkpoint l' = l_checkpoint l"
    by simp_all
qed

lemma sale_blocks_effect:
  assumes "foldE (apply_sale_block K) bs l = Inr l'"
  shows "distinct (orders K (block_txs bs)) \<and> set (orders K (block_txs bs)) \<inter> l_seen l = {} \<and>
    distinct (payments K (block_txs bs)) \<and> set (payments K (block_txs bs)) \<inter> l_paid l = {} \<and>
    unat (l_sold l') = unat (l_sold l) + sale_amounts K (block_txs bs) \<and> l_checkpoint l' = l_checkpoint l"
  using assms
proof (induction bs arbitrary: l)
  case Nil
  then show ?case by (simp add: block_txs_def orders_def payments_def sale_amounts_def)
next
  case (Cons b bs)
  obtain h parent bh txs where b: "b = (h, parent, bh, txs)" by (cases b)
  from Cons.prems obtain m where m: "apply_sale_block K (h, parent, bh, txs) l = Inr m"
    and rest: "foldE (apply_sale_block K) bs m = Inr l'"
    by (auto simp: b split: sum.splits)
  have app: "orders K (block_txs (b # bs)) = orders K txs @ orders K (block_txs bs)"
    "payments K (block_txs (b # bs)) = payments K txs @ payments K (block_txs bs)"
    "sale_amounts K (block_txs (b # bs)) = sale_amounts K txs + sale_amounts K (block_txs bs)"
    by (simp_all add: b block_txs_def orders_def payments_def sale_amounts_def)
  from apply_sale_block_effect [OF m] Cons.IH [OF rest] show ?case
    unfolding app by auto
qed

section \<open>The durable state refines the ledger\<close>

definition ok_of :: "'e + 'a \<Rightarrow> 'a option" where
  "ok_of r = (case r of Inl _ \<Rightarrow> None | Inr x \<Rightarrow> Some x)"

definition ledger_abs :: "lib \<Rightarrow> Ledger \<Rightarrow> SaleState" where
  "ledger_abs K l = \<lparr>ss_Checkpoint = cp_message K (l_checkpoint l), ss_Height = l_height l, ss_Hash = l_hash l,
     ss_Remaining = l_remaining l, ss_Sold = l_sold l\<rparr>"

definition ledger_fence :: "Ledger \<Rightarrow> fence" where
  "ledger_fence l k i = (case k of FenceOrder \<Rightarrow> Some (i \<in> l_seen l) | FencePayment \<Rightarrow> Some (i \<in> l_paid l))"

definition with_seen :: "hash32 set \<Rightarrow> hash32 set \<Rightarrow> Ledger \<Rightarrow> Ledger" where
  "with_seen S P l = l\<lparr>l_seen := S \<union> l_seen l, l_paid := P \<union> l_paid l\<rparr>"

definition fresh_tx :: "lib \<Rightarrow> hash32 set \<Rightarrow> hash32 set \<Rightarrow> Transaction \<Rightarrow> bool" where
  "fresh_tx K S P tx =
     (case tx_SaleAuthorization K tx of Inl _ \<Rightarrow> False | Inr a \<Rightarrow> sa_Order a \<notin> S \<and> sa_Payment a \<notin> P)"

lemma ok_of_simps [simp]: "ok_of (Inl e) = None" "ok_of (Inr x) = Some x"
  by (simp_all add: ok_of_def)

lemma ok_of_None: "ok_of r = None \<longleftrightarrow> (\<exists>e. r = Inl e)"
  by (cases r) simp_all

lemma ok_of_Some: "ok_of r = Some x \<longleftrightarrow> r = Inr x"
  by (cases r) simp_all

lemma ledger_debit_with_seen:
  "ok_of (ledger_debit i p a (with_seen S P l))
    = (if i \<in> S \<or> p \<in> P then None else map_option (with_seen S P) (ok_of (ledger_debit i p a l)))"
  by (simp add: ledger_debit_def with_seen_def)

lemma apply_sale_tx_with_seen:
  "ok_of (apply_sale_tx K cp h parent tx (with_seen S P l))
    = (if fresh_tx K S P tx then map_option (with_seen S P) (ok_of (apply_sale_tx K cp h parent tx l)) else None)"
  by (auto simp: apply_sale_tx_def fresh_tx_def ledger_debit_with_seen split: sum.splits)

lemma ok_of_foldE_Cons:
  "ok_of (foldE f (x # xs) s) = Option.bind (ok_of (f x s)) (\<lambda>t. ok_of (foldE f xs t))"
  by (cases "f x s") simp_all

lemma sale_txs_with_seen:
  "ok_of (foldE (apply_sale_tx K cp h parent) txs (with_seen S P l))
    = (if list_all (fresh_tx K S P) txs
       then map_option (with_seen S P) (ok_of (foldE (apply_sale_tx K cp h parent) txs l)) else None)"
proof (induction txs arbitrary: l)
  case (Cons tx txs)
  show ?case
    by (cases "ok_of (apply_sale_tx K cp h parent tx l)")
      (simp_all add: ok_of_foldE_Cons apply_sale_tx_with_seen Cons.IH del: foldE.simps)
qed simp

lemma fence_txs_ok:
  "is_ok (foldE (fence_tx K (ledger_fence l)) txs ()) \<longleftrightarrow> list_all (fresh_tx K (l_seen l) (l_paid l)) txs"
proof (induction txs)
  case (Cons tx txs)
  have "fence_tx K (ledger_fence l) tx () = Inr () \<longleftrightarrow> fresh_tx K (l_seen l) (l_paid l) tx"
    by (auto simp: fence_tx_def fresh_tx_def check_fence_def ledger_fence_def split: sum.splits)
  moreover have "is_ok (foldE (fence_tx K (ledger_fence l)) (tx # txs) ()) \<longleftrightarrow>
      fence_tx K (ledger_fence l) tx () = Inr () \<and> is_ok (foldE (fence_tx K (ledger_fence l)) txs ())"
    by (cases "fence_tx K (ledger_fence l) tx ()") simp_all
  ultimately show ?case using Cons.IH by simp
qed simp

section \<open>Properties\<close>

text \<open>C32: A sale ledger opened from a verified checkpoint and advanced through any chain of sale blocks
  is sound: what is left plus what is sold is the opening allocation, what is sold is the sum of the
  authorized amounts, issued plus reserved plus sold never exceed the 10B cap, and no order and no
  payment is consumed twice anywhere in the chain.\<close>

theorem sale_ledger_sound:
  assumes "Begin K c genesis parent height trusted = Inr l0" and "foldE (apply_sale_block K) bs l0 = Inr l"
  shows "unat (l_remaining l) + unat (l_sold l) = unat (cp_SaleRemaining c) \<and>
    unat (l_sold l) = sale_amounts K (block_txs bs) \<and>
    unat (cp_HistoricIssued c) + unat (cp_OtherReserved c) + unat (l_sold l) \<le> unat CapNAPRO \<and>
    distinct (orders K (block_txs bs)) \<and> distinct (payments K (block_txs bs))"
proof -
  have v: "cp_Verify K c genesis parent height trusted = Inr ()"
    and l0: "l_checkpoint l0 = c\<lparr>cp_Attestations := []\<rparr>" "l_sold l0 = 0"
    using assms(1) by (auto simp: Begin_def split: sum.splits)
  have inv: "ledger_inv l"
    using sale_chain.run_inv [OF Begin_inv [OF assms(1)] assms(2)] .
  show ?thesis
    using inv sale_blocks_effect [OF assms(2)] cp_VerifyD(7) [OF v]
    by (simp add: ledger_inv_def l0)
qed

definition sale_lib :: lib where
  "sale_lib = demo_lib\<lparr>sha256 := \<lambda>_. 7, ed25519_verify := \<lambda>pub msg sig. msg = arr_bytes 7\<rparr>"

definition demo_authority :: ValidatorPubKey where
  "demo_authority = 1 # replicate 31 0"

definition demo_checkpoint :: Checkpoint where
  "demo_checkpoint = \<lparr>cp_Genesis = 1, cp_Network = MainnetByte, cp_Height = 10, cp_Parent = 2,
     cp_SnapshotRoot = 7, cp_HistoricIssued = 500, cp_OtherReserved = 100000000000000000, cp_SaleRemaining = 1000,
     cp_SaleAuthority = demo_authority,
     cp_Attestations = [\<lparr>att_Validator = demo_authority, att_Signature = replicate 64 0\<rparr>]\<rparr>"

lemma demo_authority_nonzero: "nonzeroPub demo_authority"
  by (simp add: nonzeroPub_def demo_authority_def)

lemma sale_lib_message: "cp_message sale_lib c = 7"
  by (simp add: cp_message_def HashBytes_def sale_lib_def)

lemma sale_lib_verify: "pub_Verify sale_lib k m s \<longleftrightarrow> length s = 64 \<and> m = 7"
  by (simp add: pub_Verify_def sale_lib_def arr_bytes_inject)

lemma demo_checkpoint_ok: "cp_Verify sale_lib demo_checkpoint 1 2 10 [demo_authority] = Inr ()"
  using demo_authority_nonzero
  by (simp add: cp_Verify_def demo_checkpoint_def CapNAPRO_def allow_key_def count_attestation_def
      sale_lib_verify sale_lib_message)

definition demo_auth :: SaleAuthorization where
  "demo_auth = \<lparr>sa_Genesis = 1, sa_Height = 10, sa_Parent = 2, sa_Order = 21, sa_Payment = 22,
     sa_Amount = 40, sa_Opening = 0, sa_Signature = 0\<rparr>"

definition demo_sale_tx :: Transaction where
  "demo_sale_tx = (empty_tx TxVersionSale)\<lparr>tx_Extra := sale_extra demo_auth,
     tx_Outputs := [\<lparr>out_OneTimePub = 1, out_TxPubKey = 1, out_AmountCommit = 40, out_EncAmount = 0\<rparr>]\<rparr>"

lemma demo_sale_auth: "tx_SaleAuthorization sale_lib demo_sale_tx = Inr demo_auth"
proof -
  have "length (sale_extra demo_auth) = saleExtraSize" "take 8 (sale_extra demo_auth) = salePrefix"
    by (simp_all add: sale_extra_append saleExtraSize_def)
  then show ?thesis
    by (simp add: tx_SaleAuthorization_def demo_sale_tx_def empty_tx_def IsSale_def sale_fields_extra)
      (simp add: demo_auth_def sale_lib_def demo_lib_def)
qed

lemma demo_signing: "SaleSigningMessage sale_lib demo_sale_tx = 7"
  by (simp add: SaleSigningMessage_def HashBytes_def Let_def) (simp add: sale_lib_def)

definition demo_ledger :: Ledger where
  "demo_ledger = \<lparr>l_checkpoint = demo_checkpoint\<lparr>cp_Attestations := []\<rparr>, l_height = 9, l_hash = 2,
     l_remaining = 1000, l_sold = 0, l_seen = {}, l_paid = {}\<rparr>"

lemma demo_begin: "Begin sale_lib demo_checkpoint 1 2 10 [demo_authority] = Inr demo_ledger"
  using demo_checkpoint_ok by (simp add: Begin_def demo_ledger_def demo_checkpoint_def)

lemma demo_apply:
  "ApplyCanonicalTransactions sale_lib demo_ledger 10 2 3 [demo_sale_tx]
    = Inr (demo_ledger\<lparr>l_height := 10, l_hash := 3, l_remaining := 960, l_sold := 40,
        l_seen := {21}, l_paid := {22}\<rparr>)"
  by (simp add: ApplyCanonicalTransactions_def apply_sale_tx_def demo_sale_auth demo_signing sale_lib_verify
      ledger_debit_def demo_ledger_def demo_checkpoint_def demo_auth_def max_u64_def)

theorem sale_ledger_sound_witness:
  "\<exists>l. foldE (apply_sale_block sale_lib) [(10, 2, 3, [demo_sale_tx])] demo_ledger = Inr l \<and>
     unat (l_remaining l) + unat (l_sold l) = 1000 \<and> distinct (orders sale_lib [demo_sale_tx])"
proof -
  obtain l where l: "foldE (apply_sale_block sale_lib) [(10, 2, 3, [demo_sale_tx])] demo_ledger = Inr l"
    by (simp add: apply_sale_block_def demo_apply)
  from sale_ledger_sound [OF demo_begin l] l show ?thesis
    by (simp add: demo_checkpoint_def block_txs_def)
qed

text \<open>C33: The constant-size \<open>State\<close> with its durable replay fence refines the ledger that keeps all
  identities: on the abstraction of a reachable ledger, with a fence that answers by the ledger's
  sets, \<open>Advance\<close> succeeds exactly when \<open>ApplyCanonicalTransactions\<close> does and returns the
  abstraction of its result.\<close>

theorem Advance_refines_ledger:
  assumes "ledger_inv l"
  shows "ok_of (Advance K (ledger_abs K l) (l_checkpoint l) h parent bh txs (ledger_fence l))
    = map_option (ledger_abs K) (ok_of (ApplyCanonicalTransactions K l h parent bh txs))"
proof (cases "h = 0 \<or> h \<noteq> l_height l + 1 \<or> parent \<noteq> l_hash l \<or> bh = 0 \<or> bh = parent")
  case True
  have "h = 0 \<Longrightarrow> h < cp_Height (l_checkpoint l)"
    using assms by (simp add: ledger_inv_def word_gt_0)
  with True show ?thesis
    by (auto simp: Advance_def ApplyCanonicalTransactions_def ledger_abs_def)
next
  case False
  then have h: "h \<noteq> 0" "h = l_height l + 1" by simp_all
  have "\<not> h < cp_Height (l_checkpoint l)"
    using assms next_height [OF h(2,1)] by (simp add: ledger_inv_def u64_less_iff)
  moreover have "l_remaining l \<le> cp_SaleRemaining (l_checkpoint l)"
    "l_sold l = cp_SaleRemaining (l_checkpoint l) - l_remaining l"
    using assms by (auto simp: ledger_inv_def u64_le_iff u64_eq_iff unat_diff_u64)
  ultimately have guard: "\<not> h < cp_Height (l_checkpoint l)"
    "\<not> cp_SaleRemaining (l_checkpoint l) < l_remaining l"
    "l_sold l = cp_SaleRemaining (l_checkpoint l) - l_remaining l" by simp_all
  define l0 where "l0 = \<lparr>l_checkpoint = l_checkpoint l, l_height = h, l_hash = bh,
    l_remaining = l_remaining l, l_sold = l_sold l, l_seen = {}, l_paid = {}\<rparr>"
  let ?run = "foldE (apply_sale_tx K (l_checkpoint l) h parent) txs"
  let ?fresh = "list_all (fresh_tx K (l_seen l) (l_paid l)) txs"
  have full: "l\<lparr>l_height := h, l_hash := bh\<rparr> = with_seen (l_seen l) (l_paid l) l0"
    by (simp add: with_seen_def l0_def)
  have rhs: "ok_of (ApplyCanonicalTransactions K l h parent bh txs)
      = (if ?fresh then map_option (with_seen (l_seen l) (l_paid l)) (ok_of (?run l0)) else None)"
  proof -
    have "ApplyCanonicalTransactions K l h parent bh txs = ?run (l\<lparr>l_height := h, l_hash := bh\<rparr>)"
      using False by (simp add: ApplyCanonicalTransactions_def)
    then show ?thesis by (simp only: full sale_txs_with_seen)
  qed
  have lhs: "ok_of (Advance K (ledger_abs K l) (l_checkpoint l) h parent bh txs (ledger_fence l))
      = (if ?fresh then map_option (\<lambda>n. \<lparr>ss_Checkpoint = cp_message K (l_checkpoint l), ss_Height = h,
             ss_Hash = bh, ss_Remaining = l_remaining n, ss_Sold = l_sold n\<rparr>) (ok_of (?run l0)) else None)"
    using False guard fence_txs_ok [of K l txs]
    by (auto simp: Advance_def ledger_abs_def ApplyCanonicalTransactions_def is_ok_iff l0_def
        split: sum.splits)
  have "n \<in> set_option (ok_of (?run l0)) \<Longrightarrow>
      l_checkpoint n = l_checkpoint l \<and> l_height n = h \<and> l_hash n = bh" for n
    using sale_txs_effect(4) [of K "l_checkpoint l" h parent txs l0 n]
    by (auto simp: ok_of_Some l0_def)
  then show ?thesis
    unfolding lhs rhs by (auto simp: option.map_comp ledger_abs_def with_seen_def intro!: option.map_cong0)
qed

theorem Advance_refines_ledger_witness:
  "\<exists>st. Advance sale_lib (ledger_abs sale_lib demo_ledger) (l_checkpoint demo_ledger) 10 2 3 [demo_sale_tx]
      (ledger_fence demo_ledger) = Inr st \<and> ss_Remaining st = 960 \<and> ss_Sold st = 40"
  using Advance_refines_ledger [OF Begin_inv [OF demo_begin], of sale_lib 10 2 3 "[demo_sale_tx]"]
  by (simp add: demo_apply ok_of_Some ledger_abs_def [of _ "demo_ledger\<lparr>l_height := 10, l_hash := 3,
        l_remaining := 960, l_sold := 40, l_seen := {21}, l_paid := {22}\<rparr>"])

text \<open>Two checkpoints that verify against the same trusted authorities are attested in common by more
  than a third of them.  If at most a third of the authorities is faulty, some honest authority signed
  both, so honest authorities that sign a single checkpoint message leave room for one message only.\<close>

theorem checkpoint_agreement:
  assumes "cp_Verify K c1 g1 p1 h1 trusted = Inr ()" and "cp_Verify K c2 g2 p2 h2 trusted = Inr ()"
    and "3 * card faulty \<le> card (set trusted)" and "finite faulty"
    and "\<And>v a b s1 s2. v \<in> set trusted - faulty \<Longrightarrow> pub_Verify K v (cp_message K a) s1 \<Longrightarrow>
      pub_Verify K v (cp_message K b) s2 \<Longrightarrow> cp_message K a = cp_message K b"
  shows "card (set trusted) < 3 * card (attesters c1 \<inter> attesters c2) \<and> cp_message K c1 = cp_message K c2"
proof -
  have q1: "\<exists>c genesis parent height. cp_Verify K c genesis parent height trusted = Inr () \<and> attesters c1 = attesters c"
    and q2: "\<exists>c genesis parent height. cp_Verify K c genesis parent height trusted = Inr () \<and> attesters c2 = attesters c"
    using assms(1,2) by blast+
  obtain v where v: "v \<in> attesters c1" "v \<in> attesters c2" "v \<notin> faulty"
    using checkpoint_quorum.quorum_honest_overlap [OF q1 q2 assms(4,3)] by blast
  moreover have "v \<in> set trusted" using cp_VerifyD(1) [OF assms(1)] v(1) by blast
  ultimately have "cp_message K c1 = cp_message K c2"
    using cp_VerifyD(3) [OF assms(1) v(1)] cp_VerifyD(3) [OF assms(2) v(2)] assms(5) [of v] by blast
  with checkpoint_quorum.quorum_overlap [OF q1 q2] show ?thesis by simp
qed

theorem checkpoint_agreement_witness:
  "cp_message sale_lib demo_checkpoint = cp_message sale_lib (demo_checkpoint\<lparr>cp_SaleRemaining := 1\<rparr>)"
proof -
  have other: "cp_Verify sale_lib (demo_checkpoint\<lparr>cp_SaleRemaining := 1\<rparr>) 1 2 10 [demo_authority] = Inr ()"
    using demo_authority_nonzero
    by (simp add: cp_Verify_def demo_checkpoint_def CapNAPRO_def allow_key_def count_attestation_def
        sale_lib_verify sale_lib_message)
  show ?thesis
    using checkpoint_agreement [OF demo_checkpoint_ok other, of "{}"] by (simp add: sale_lib_verify)
qed

text \<open>A reconciliation divides the cap without overlap: when \<open>Unassigned\<close> succeeds, the available
  amount and all five claims add up to the 10B cap exactly, the reserved amount it reports is the sum
  of the four reserves, and a checkpoint accepted by \<open>VerifyReconciledCheckpoint\<close> sells no more than
  what is available and declares no less issuance than its basis.\<close>

theorem reconciliation_conserves_cap:
  assumes "VerifyReconciledCheckpoint K c r genesis parent lpod height issued trusted = Inr ()"
  shows "\<exists>available reserved. Unassigned r = Inr (available, reserved) \<and>
    unat available + unat (rc_HistoricIssued r) + unat (rc_ValidatorReserved r) + unat (rc_LPoDReserved r)
      + unat (rc_GuardianReserved r) + unat (rc_OtherReserved r) = unat CapNAPRO \<and>
    unat reserved = unat (rc_ValidatorReserved r) + unat (rc_LPoDReserved r)
      + unat (rc_GuardianReserved r) + unat (rc_OtherReserved r) \<and>
    cp_OtherReserved c = reserved \<and> cp_SaleRemaining c \<le> available \<and>
    (rc_NetAllocation r = None \<and> rc_AllocationEpoch r = None \<longrightarrow> issued \<le> rc_HistoricIssued r)"
proof -
  obtain available reserved iss where u: "Unassigned r = Inr (available, reserved)"
    and c: "cp_OtherReserved c = reserved" "cp_SaleRemaining c \<le> available"
    and d: "declared_issued c r height issued = Inr iss" "iss \<le> rc_HistoricIssued r"
    using assms by (auto simp: VerifyReconciledCheckpoint_def not_less split: sum.splits if_splits)
  have step: "take_claim a b = Inr d \<longleftrightarrow> unat d + unat a = unat b" for a b d
  proof
    show "take_claim a b = Inr d \<Longrightarrow> unat d + unat a = unat b"
      by (auto simp: take_claim_def not_less unat_diff_u64 u64_le_iff split: if_splits)
    assume eq: "unat d + unat a = unat b"
    then have "a \<le> b" by (simp add: u64_le_iff)
    moreover from this eq have "d = b - a" by (simp add: u64_eq_iff unat_diff_u64)
    ultimately show "take_claim a b = Inr d" by (simp add: take_claim_def not_less)
  qed
  have sum: "unat available + unat (rc_HistoricIssued r) + unat (rc_ValidatorReserved r) + unat (rc_LPoDReserved r)
      + unat (rc_GuardianReserved r) + unat (rc_OtherReserved r) = unat CapNAPRO"
    and res: "reserved = CapNAPRO - available - rc_HistoricIssued r"
    using u by (auto simp: Unassigned_def step split: sum.splits if_splits)
  have "available \<le> CapNAPRO" using sum by (simp add: u64_le_iff)
  moreover have "rc_HistoricIssued r \<le> CapNAPRO - available"
    using sum calculation by (simp add: u64_le_iff unat_diff_u64)
  ultimately have "unat reserved = unat CapNAPRO - unat available - unat (rc_HistoricIssued r)"
    by (simp add: res unat_diff_u64)
  with sum c u d show ?thesis by (auto simp: declared_issued_def)
qed

definition demo_recon :: Reconciliation where
  "demo_recon = \<lparr>rc_NetAllocation = None, rc_AllocationEpoch = None, rc_Genesis = 1, rc_Parent = 2,
     rc_LPoDCommitment = 4, rc_OtherClaimsRoot = 5, rc_HistoricIssued = 500, rc_ValidatorReserved = 0,
     rc_LPoDReserved = 0, rc_GuardianReserved = 100000000000000000, rc_OtherReserved = 0\<rparr>"

theorem reconciliation_conserves_cap_witness:
  "\<exists>available reserved. Unassigned demo_recon = Inr (available, reserved) \<and>
     unat available + 500 + 100000000000000000 = unat CapNAPRO \<and> 500 \<le> rc_HistoricIssued demo_recon"
proof -
  have "rc_Digest sale_lib demo_recon = 7"
    by (simp add: rc_Digest_def demo_recon_def HashBytes_def sale_lib_def)
  moreover have "Unassigned demo_recon = Inr (899999999999999500, 100000000000000000)"
    by (simp add: Unassigned_def check_epoch_def check_net_def take_claim_def demo_recon_def CapNAPRO_def)
  ultimately have "VerifyReconciledCheckpoint sale_lib demo_checkpoint demo_recon 1 2 4 10 500 [demo_authority] = Inr ()"
    using demo_checkpoint_ok
    by (simp add: VerifyReconciledCheckpoint_def declared_issued_def)
      (simp add: demo_recon_def demo_checkpoint_def)
  from reconciliation_conserves_cap [OF this] show ?thesis
    by (auto simp: demo_recon_def)
qed

end
