(* ===== verification/Merkle.thy ===== *)
theory Merkle
  imports Transactions
begin

text \<open>
  Merkle roots and inclusion proofs of \<open>core/merkle.go\<close>.  Every proof the code generates verifies
  against the root; a proof of full depth for a hash that is not a leaf yields two explicit
  different inputs with the same hash; and duplicating the last of an odd number of transactions
  keeps the root.
\<close>

section \<open>Definitions\<close>

definition emptyMerkleRoot :: "lib \<Rightarrow> hash32" where
  "emptyMerkleRoot K = HashBytes K [str_bytes ''aperod/merkle-empty/v1'']"

definition pad_even :: "'a list \<Rightarrow> 'a list" where
  "pad_even hs = (if odd (length hs) then hs @ [last hs] else hs)"

definition node_hash :: "lib \<Rightarrow> hash32 \<Rightarrow> hash32 \<Rightarrow> hash32" where
  "node_hash K a b = HashBytes K [arr_bytes a, arr_bytes b]"

fun hash_pairs :: "lib \<Rightarrow> hash32 list \<Rightarrow> hash32 list" where
  "hash_pairs K (a # b # hs) = node_hash K a b # hash_pairs K hs"
| "hash_pairs K _ = []"

text \<open>The next level of the tree.\<close>

definition merkle_level :: "lib \<Rightarrow> hash32 list \<Rightarrow> hash32 list" where
  "merkle_level K hs = hash_pairs K (pad_even hs)"

lemma length_hash_pairs [simp]: "length (hash_pairs K hs) = length hs div 2"
  by (induction K hs rule: hash_pairs.induct) auto

lemma length_pad_even: "length (pad_even hs) = (if odd (length hs) then length hs + 1 else length hs)"
  by (simp add: pad_even_def)

lemma length_merkle_level: "length (merkle_level K hs) = (length hs + 1) div 2"
  by (simp add: merkle_level_def length_pad_even)

text \<open>Callers never pass an empty slice, on which the recursion of the code would not end.\<close>

function merkleReduce :: "lib \<Rightarrow> hash32 list \<Rightarrow> hash32" where
  "merkleReduce K hs =
     (if length hs \<le> 1 then (case hs of [] \<Rightarrow> 0 | h # _ \<Rightarrow> h)
      else merkleReduce K (merkle_level K hs))"
  by pat_completeness auto
termination
  by (relation "measure (\<lambda>(K, hs). length hs)") (auto simp: length_merkle_level)

declare merkleReduce.simps [simp del]

definition MerkleRoot :: "lib \<Rightarrow> Transaction list \<Rightarrow> hash32" where
  "MerkleRoot K txs = (if txs = [] then emptyMerkleRoot K else merkleReduce K (map (tx_Hash K) txs))"

record MerkleNode =
  mn_Hash :: hash32
  mn_Right :: bool

record MerkleProof =
  mp_Leaf :: hash32
  mp_Path :: "MerkleNode list"

text \<open>The loop of \<open>GenerateMerkleProof\<close>: the siblings from position \<open>pos\<close> of a level to the root.\<close>

function merkle_path :: "lib \<Rightarrow> hash32 list \<Rightarrow> nat \<Rightarrow> MerkleNode list" where
  "merkle_path K hs pos =
     (if length hs \<le> 1 then []
      else let hs' = pad_even hs;
               sibling = (if even pos then \<lparr>mn_Hash = hs' ! (pos + 1), mn_Right = True\<rparr>
                          else \<lparr>mn_Hash = hs' ! (pos - 1), mn_Right = False\<rparr>)
           in sibling # merkle_path K (hash_pairs K hs') (pos div 2))"
  by pat_completeness auto
termination
  by (relation "measure (\<lambda>(K, hs, pos). length hs)") (auto simp: length_pad_even elim!: oddE)

declare merkle_path.simps [simp del]

definition GenerateMerkleProof :: "lib \<Rightarrow> Transaction list \<Rightarrow> nat \<Rightarrow> MerkleProof option" where
  "GenerateMerkleProof K txs idx =
     (if length txs \<le> idx then None
      else let hashes = map (tx_Hash K) txs
           in Some \<lparr>mp_Leaf = hashes ! idx, mp_Path = merkle_path K hashes idx\<rparr>)"

definition verify_step :: "lib \<Rightarrow> MerkleNode \<Rightarrow> hash32 \<Rightarrow> hash32" where
  "verify_step K node cur =
     (if mn_Right node then node_hash K cur (mn_Hash node) else node_hash K (mn_Hash node) cur)"

definition merkle_Verify :: "lib \<Rightarrow> MerkleProof \<Rightarrow> hash32 \<Rightarrow> bool" where
  "merkle_Verify K p root \<longleftrightarrow> fold (verify_step K) (mp_Path p) (mp_Leaf p) = root"

text \<open>The number of levels above a level of \<open>n\<close> hashes.\<close>

function merkle_depth :: "nat \<Rightarrow> nat" where
  "merkle_depth n = (if n \<le> 1 then 0 else Suc (merkle_depth ((n + 1) div 2)))"
  by pat_completeness auto
termination
  by (relation "measure id") auto

declare merkle_depth.simps [simp del]

text \<open>The bytes hashed by one step of the verification, and the search for the step that hashes the
  bytes of no pair of the tree although its result is a node of the next level.\<close>

definition step_bytes :: "MerkleNode \<Rightarrow> hash32 \<Rightarrow> bytes" where
  "step_bytes node cur =
     (if mn_Right node then arr_bytes cur @ arr_bytes (mn_Hash node)
      else arr_bytes (mn_Hash node) @ arr_bytes cur)"

fun level_bytes :: "hash32 list \<Rightarrow> bytes list" where
  "level_bytes (a # b # hs) = (arr_bytes a @ arr_bytes b) # level_bytes hs"
| "level_bytes _ = []"

fun find_collision :: "lib \<Rightarrow> hash32 list \<Rightarrow> MerkleNode list \<Rightarrow> hash32 \<Rightarrow> (bytes \<times> bytes) option" where
  "find_collision K hs [] cur = None"
| "find_collision K hs (n # ns) cur =
     (let x = step_bytes n cur; h = verify_step K n cur in
      case find_collision K (merkle_level K hs) ns h of
        Some c \<Rightarrow> Some c
      | None \<Rightarrow>
          (case filter (\<lambda>y. y \<noteq> x \<and> sha256 K y = sha256 K x) (level_bytes (pad_even hs)) of
             [] \<Rightarrow> None
           | y # _ \<Rightarrow> Some (x, y)))"

section \<open>Completeness\<close>

lemma hash_pairs_nth:
  "2 * i + 1 < length hs \<Longrightarrow> hash_pairs K hs ! i = node_hash K (hs ! (2 * i)) (hs ! (2 * i + 1))"
proof (induction K hs arbitrary: i rule: hash_pairs.induct)
  case (1 K a b hs)
  then show ?case by (cases i) auto
qed auto

lemma pad_even_nth: "i < length hs \<Longrightarrow> pad_even hs ! i = hs ! i"
  by (simp add: pad_even_def nth_append)

lemma merkle_path_verifies:
  "pos < length hs \<Longrightarrow> fold (verify_step K) (merkle_path K hs pos) (hs ! pos) = merkleReduce K hs"
proof (induction K hs pos rule: merkle_path.induct)
  case (1 K hs pos)
  show ?case
  proof (cases "length hs \<le> 1")
    case True
    with 1 obtain a where "hs = [a]" "pos = 0" by (cases hs) auto
    then show ?thesis by (simp add: merkle_path.simps [of K "[a]"] merkleReduce.simps [of K "[a]"])
  next
    case False
    let ?hs = "pad_even hs"
    have len: "length ?hs = (if odd (length hs) then length hs + 1 else length hs)"
      by (rule length_pad_even)
    have even: "even (length ?hs)" by (simp add: len)
    have pos: "pos < length ?hs" using 1 by (simp add: len)
    then have half: "2 * (pos div 2) + 1 < length ?hs" using even by presburger
    have idx: "2 * (pos div 2) = (if even pos then pos else pos - 1)"
      "2 * (pos div 2) + 1 = (if even pos then pos + 1 else pos)" by (auto elim: oddE evenE)
    define sib where "sib = (if even pos then \<lparr>mn_Hash = ?hs ! (pos + 1), mn_Right = True\<rparr>
                          else \<lparr>mn_Hash = ?hs ! (pos - 1), mn_Right = False\<rparr>)"
    have "verify_step K sib (hs ! pos) = hash_pairs K ?hs ! (pos div 2)"
      unfolding hash_pairs_nth [OF half] idx sib_def
      using pad_even_nth [of pos hs] 1 by (simp add: verify_step_def)
    moreover have "pos div 2 < length (hash_pairs K ?hs)" using half by simp
    ultimately show ?thesis
      using 1 False by (simp add: merkle_path.simps [of K hs] merkleReduce.simps [of K hs]
          merkle_level_def Let_def flip: sib_def)
  qed
qed

text \<open>Every inclusion proof the node generates verifies against the Merkle root of the block, and
  a proof is generated for exactly the positions of the block.\<close>

theorem merkle_proof_complete:
  "(case GenerateMerkleProof K txs i of
      None \<Rightarrow> length txs \<le> i
    | Some p \<Rightarrow> i < length txs \<and> mp_Leaf p = tx_Hash K (txs ! i) \<and> merkle_Verify K p (MerkleRoot K txs))"
  using merkle_path_verifies [of i "map (tx_Hash K) txs" K]
  by (auto simp: GenerateMerkleProof_def merkle_Verify_def MerkleRoot_def Let_def)

section \<open>Soundness\<close>

lemma find_collision_valid:
  "find_collision K hs ns cur = Some (x, y) \<Longrightarrow> x \<noteq> y \<and> sha256 K x = sha256 K y"
proof (induction K hs ns cur rule: find_collision.induct)
  case (2 K hs n ns cur)
  show ?case
  proof (cases "find_collision K (merkle_level K hs) ns (verify_step K n cur)")
    case None
    then show ?thesis
      using "2.prems" by (auto simp: Let_def filter_eq_Cons_iff split: list.splits)
  next
    case (Some c)
    then show ?thesis using 2 by (simp add: Let_def)
  qed
qed simp

lemma verify_step_sha: "verify_step K n cur = sha256 K (step_bytes n cur)"
  by (simp add: verify_step_def step_bytes_def node_hash_def HashBytes_def)

lemma hash_pairs_bytes:
  "h \<in> set (hash_pairs K hs) \<Longrightarrow> \<exists>y \<in> set (level_bytes hs). sha256 K y = h"
  by (induction K hs rule: hash_pairs.induct) (auto simp: node_hash_def HashBytes_def)

lemma level_bytes_members:
  "step_bytes n cur \<in> set (level_bytes hs) \<Longrightarrow> cur \<in> set hs"
  by (induction hs rule: level_bytes.induct)
    (auto simp: step_bytes_def arr_bytes_inject split: if_splits)

lemma set_pad_even: "set (pad_even hs) = set hs"
  by (cases "hs = []") (auto simp: pad_even_def)

lemma merkle_collision:
  "length ns = merkle_depth (length hs) \<Longrightarrow> hs \<noteq> [] \<Longrightarrow> cur \<notin> set hs \<Longrightarrow>
   fold (verify_step K) ns cur = merkleReduce K hs \<Longrightarrow> \<exists>c. find_collision K hs ns cur = Some c"
proof (induction ns arbitrary: hs cur)
  case Nil
  then have "length hs = 1"
    using merkle_depth.simps [of "length hs"] by (cases hs) (auto split: if_splits)
  then obtain a where "hs = [a]" by (cases hs) auto
  with Nil show ?case by (simp add: merkleReduce.simps [of K "[a]"])
next
  case (Cons n ns)
  let ?h = "verify_step K n cur" and ?next = "merkle_level K hs"
  have long: "\<not> length hs \<le> 1"
    using Cons.prems(1) merkle_depth.simps [of "length hs"] by (auto split: if_splits)
  have len: "length ns = merkle_depth (length ?next)"
    using Cons.prems(1) long merkle_depth.simps [of "length hs"] by (simp add: length_merkle_level)
  have ne: "?next \<noteq> []" using long by (auto simp: length_merkle_level simp flip: length_0_conv)
  have run: "fold (verify_step K) ns ?h = merkleReduce K ?next"
    using Cons.prems(4) long merkleReduce.simps [of K hs] by simp
  show ?case
  proof (cases "find_collision K ?next ns ?h")
    case None
    then have "?h \<in> set ?next" using Cons.IH [OF len ne _ run] by auto
    then obtain y where y: "y \<in> set (level_bytes (pad_even hs))" "sha256 K y = sha256 K (step_bytes n cur)"
      using hash_pairs_bytes [of ?h K "pad_even hs"] by (auto simp: merkle_level_def verify_step_sha)
    moreover have "y \<noteq> step_bytes n cur"
      using y(1) level_bytes_members [of n cur "pad_even hs"] Cons.prems(3) set_pad_even by metis
    ultimately have "filter (\<lambda>y. y \<noteq> step_bytes n cur \<and> sha256 K y = sha256 K (step_bytes n cur))
        (level_bytes (pad_even hs)) \<noteq> []"
      by (auto simp: filter_empty_conv)
    with None show ?thesis by (auto simp: Let_def split: list.splits)
  qed (simp add: Let_def)
qed

text \<open>C35: A proof of full depth that verifies against the root of a block for a hash that is not one of
  the block's transactions exhibits a hash collision: \<open>find_collision\<close> computes two different byte
  strings with the same hash from it.  Inclusion is therefore as hard to forge as a collision.\<close>

theorem merkle_proof_sound:
  assumes "merkle_Verify K p (MerkleRoot K txs)" and "txs \<noteq> []"
    and "length (mp_Path p) = merkle_depth (length txs)"
    and "mp_Leaf p \<notin> tx_Hash K ` set txs"
  shows "\<exists>x y. find_collision K (map (tx_Hash K) txs) (mp_Path p) (mp_Leaf p) = Some (x, y)
    \<and> x \<noteq> y \<and> sha256 K x = sha256 K y"
proof -
  obtain c where c: "find_collision K (map (tx_Hash K) txs) (mp_Path p) (mp_Leaf p) = Some c"
    using merkle_collision [of "mp_Path p" "map (tx_Hash K) txs" "mp_Leaf p" K] assms
    by (auto simp: merkle_Verify_def MerkleRoot_def)
  with find_collision_valid show ?thesis by (cases c) blast
qed

text \<open>A constant hash function, for which every proof verifies.\<close>

definition weak_lib :: lib where
  "weak_lib = demo_lib\<lparr>sha256 := \<lambda>b. if length b = 64 then 5 else 6\<rparr>"

lemma weak_lib_tx_hash: "tx_Hash weak_lib (demo_coinbase [] [demo_output]) = 6"
  by (simp add: tx_Hash_def HashBytes_def weak_lib_def tx_hash_parts_def demo_coinbase_def empty_tx_def
      output_hash_bytes_def)

theorem merkle_proof_sound_witness:
  "\<exists>x y. x \<noteq> y \<and> sha256 weak_lib x = sha256 weak_lib y"
proof -
  let ?tx = "demo_coinbase [] [demo_output]"
  let ?p = "\<lparr>mp_Leaf = 9, mp_Path = [\<lparr>mn_Hash = 1, mn_Right = True\<rparr>]\<rparr>"
  have "MerkleRoot weak_lib [?tx, ?tx] = 5"
    by (simp add: MerkleRoot_def weak_lib_tx_hash merkleReduce.simps merkle_level_def pad_even_def
        node_hash_def HashBytes_def) (simp add: weak_lib_def)
  then have "merkle_Verify weak_lib ?p (MerkleRoot weak_lib [?tx, ?tx])"
    by (simp add: merkle_Verify_def verify_step_def node_hash_def HashBytes_def) (simp add: weak_lib_def)
  moreover have "length (mp_Path ?p) = merkle_depth (length [?tx, ?tx])"
    by (simp add: merkle_depth.simps)
  moreover have "mp_Leaf ?p \<notin> tx_Hash weak_lib ` set [?tx, ?tx]"
    by (simp add: weak_lib_tx_hash)
  ultimately show ?thesis
    using merkle_proof_sound [of weak_lib ?p "[?tx, ?tx]"] by blast
qed

section \<open>Padding\<close>

lemma merkle_root_duplicate_level:
  assumes "odd (length txs)" and "1 < length txs"
  shows "MerkleRoot K (txs @ [last txs]) = MerkleRoot K txs"
proof -
  let ?hs = "map (tx_Hash K) txs"
  have "txs \<noteq> []" using assms(2) by (cases txs) auto
  then have l: "map (tx_Hash K) (txs @ [last txs]) = pad_even ?hs"
    using assms(1) by (simp add: pad_even_def last_map)
  have "pad_even (pad_even ?hs) = pad_even ?hs"
    by (simp add: pad_even_def)
  then have "merkle_level K (pad_even ?hs) = merkle_level K ?hs"
    by (simp add: merkle_level_def)
  moreover have "\<not> length (pad_even ?hs) \<le> 1" "\<not> length ?hs \<le> 1"
    using assms by (auto simp: length_pad_even)
  ultimately have "merkleReduce K (pad_even ?hs) = merkleReduce K ?hs"
    by (simp add: merkleReduce.simps [of K "pad_even ?hs"] merkleReduce.simps [of K ?hs])
  with \<open>txs \<noteq> []\<close> show ?thesis unfolding MerkleRoot_def l by simp
qed

text \<open>The root does not determine the list of transactions: with an odd number of them, more than
  one, appending a copy of the last keeps the root, for every hash function.\<close>

theorem merkle_root_duplicate:
  assumes "odd (length txs)" and "1 < length txs"
  shows "MerkleRoot K (txs @ [last txs]) = MerkleRoot K txs"
  using assms by (rule merkle_root_duplicate_level)

theorem merkle_root_duplicate_witness:
  "let t = demo_coinbase [] [demo_output] in
   MerkleRoot demo_lib [t, t, t, t] = MerkleRoot demo_lib [t, t, t]"
  using merkle_root_duplicate [of "[demo_coinbase [] [demo_output], demo_coinbase [] [demo_output],
    demo_coinbase [] [demo_output]]" demo_lib]
  by (simp add: Let_def)

end
