(* ===== verification/Blocks.thy ===== *)
theory Blocks
  imports Merkle
begin

text \<open>
  Blocks of \<open>core/block.go\<close> and the authorized validator reward of \<open>core/reward.go\<close>: the header
  hash, the signature check, structural validation, and the codec and validation of the reward
  authorization carried in a coinbase.  Timestamps are 64-bit words read as signed.
\<close>

section \<open>Definitions\<close>

subsection \<open>Blocks\<close>

record BlockHeader =
  bh_Height :: u64
  bh_PrevHash :: hash32
  bh_MerkleRoot :: hash32
  bh_Timestamp :: u64
  bh_Round :: u32
  bh_ValidatorPub :: ValidatorPubKey
  bh_OraclePrice :: u64
  bh_BaseFee :: u64
  bh_Signature :: bytes

record Block =
  blk_Header :: BlockHeader
  blk_Txs :: "Transaction list"

definition header_bytes :: "BlockHeader \<Rightarrow> bytes list" where
  "header_bytes h =
     [le_put64 (bh_Height h), arr_bytes (bh_PrevHash h), arr_bytes (bh_MerkleRoot h),
      le_put64 (bh_Timestamp h), le_put32 (bh_Round h), bh_ValidatorPub h,
      le_put64 (bh_OraclePrice h), le_put64 (bh_BaseFee h)]"

definition header_Hash :: "lib \<Rightarrow> BlockHeader \<Rightarrow> hash32" where
  "header_Hash K h = HashBytes K (header_bytes h)"

definition VerifySignature :: "lib \<Rightarrow> BlockHeader \<Rightarrow> ValidatorPubKey list \<Rightarrow> bool" where
  "VerifySignature K h authority =
     (let pub = (case authority of [a] \<Rightarrow> a | _ \<Rightarrow> bh_ValidatorPub h)
      in pub_Verify K pub (header_Hash K h) (bh_Signature h))"

definition block_Hash :: "lib \<Rightarrow> Block \<Rightarrow> hash32" where
  "block_Hash K b = header_Hash K (blk_Header b)"

definition IsGenesis :: "Block \<Rightarrow> bool" where
  "IsGenesis b \<longleftrightarrow> bh_Height (blk_Header b) = 0 \<and> bh_PrevHash (blk_Header b) = 0"

datatype block_error =
    BlkTimestamp
  | BlkNoValidator
  | BlkSignature
  | BlkMerkleRoot
  | BlkTx tx_error

definition block_Validate :: "lib \<Rightarrow> jsonlib \<Rightarrow> Block \<Rightarrow> ValidatorPubKey list \<Rightarrow> block_error + unit" where
  "block_Validate K J b authority =
     (let h = blk_Header b in
      if sint (bh_Timestamp h) \<le> 0 then Inl BlkTimestamp
      else if bh_ValidatorPub h = [] then Inl BlkNoValidator
      else if \<not> VerifySignature K h authority then Inl BlkSignature
      else if MerkleRoot K (blk_Txs b) \<noteq> bh_MerkleRoot h then Inl BlkMerkleRoot
      else foldE (\<lambda>tx _. case tx_Validate K J tx of Inl e \<Rightarrow> Inl (BlkTx e) | Inr _ \<Rightarrow> Inr ()) (blk_Txs b) ())"

definition block_Size :: "Block \<Rightarrow> nat" where
  "block_Size b = 32 + 32 + 32 + 8 + 4 + 32 + 64 + sum_list (map tx_Size (blk_Txs b))"

subsection \<open>Reward authorizations\<close>

record RewardAuthorization =
  ra_Version :: u8
  ra_Height :: u64
  ra_ParentHash :: hash32
  ra_RecipientNetwork :: u8
  ra_RecipientSpendPub :: point32
  ra_RecipientViewPub :: point32
  ra_Amount :: u64
  ra_RewardID :: hash32
  ra_Signature :: bytes

definition RewardAuthorizationVersion :: u8 where "RewardAuthorizationVersion = 1"
definition RewardAuthorizationSize :: nat where "RewardAuthorizationSize = 1 + 8 + 32 + 1 + 32 + 32 + 8 + 32 + 64"

definition RewardAuthorizationID :: "lib \<Rightarrow> u8 \<Rightarrow> u64 \<Rightarrow> hash32 \<Rightarrow> u8 \<Rightarrow> point32 \<Rightarrow> point32 \<Rightarrow> u64 \<Rightarrow> hash32" where
  "RewardAuthorizationID K version height parent network spend view amount =
     HashBytes K [str_bytes ''aperod/reward-id/v1'', [version], be_put64 height, arr_bytes parent, [network],
       arr_bytes spend, arr_bytes view, be_put64 amount]"

definition RewardAuthorizationSignMsg :: "lib \<Rightarrow> RewardAuthorization \<Rightarrow> hash32" where
  "RewardAuthorizationSignMsg K a =
     HashBytes K [str_bytes ''aperod/reward-authorization/v1'', [ra_Version a], be_put64 (ra_Height a),
       arr_bytes (ra_ParentHash a), [ra_RecipientNetwork a], arr_bytes (ra_RecipientSpendPub a),
       arr_bytes (ra_RecipientViewPub a), be_put64 (ra_Amount a), arr_bytes (ra_RewardID a)]"

datatype reward_error =
    RwVersion
  | RwHeight
  | RwParent
  | RwAmount
  | RwNetwork
  | RwID
  | RwSignature
  | RwSignatureSize
  | RwSize
  | RwNotCoinbase
  | RwTxVersion
  | RwFee
  | RwOutputs
  | RwTransparent
  | RwBlind
  | RwCommitError
  | RwCommit
  | RwHeightKey
  | RwAddPoints
  | RwOutputKey

definition reward_Validate :: "lib \<Rightarrow> RewardAuthorization \<Rightarrow> u64 \<Rightarrow> hash32 \<Rightarrow> ValidatorPubKey \<Rightarrow> reward_error + unit" where
  "reward_Validate K a blockHeight parentHash validatorPub =
     (if ra_Version a \<noteq> RewardAuthorizationVersion then Inl RwVersion
      else if ra_Height a \<noteq> blockHeight then Inl RwHeight
      else if ra_ParentHash a \<noteq> parentHash then Inl RwParent
      else if ra_Amount a = 0 then Inl RwAmount
      else if \<not> known_network (ra_RecipientNetwork a) then Inl RwNetwork
      else if ra_RewardID a \<noteq> RewardAuthorizationID K (ra_Version a) (ra_Height a) (ra_ParentHash a)
             (ra_RecipientNetwork a) (ra_RecipientSpendPub a) (ra_RecipientViewPub a) (ra_Amount a) then Inl RwID
      else if \<not> pub_Verify K validatorPub (RewardAuthorizationSignMsg K a) (ra_Signature a) then Inl RwSignature
      else Inr ())"

definition EncodeRewardAuthorization :: "RewardAuthorization \<Rightarrow> reward_error + bytes" where
  "EncodeRewardAuthorization a =
     (if length (ra_Signature a) \<noteq> 64 then Inl RwSignatureSize
      else let b = make_buf RewardAuthorizationSize;
               b = copy_at 0 1 [ra_Version a] b;
               b = copy_at 1 9 (be_put64 (ra_Height a)) b;
               b = copy_at 9 41 (arr_bytes (ra_ParentHash a)) b;
               b = copy_at 41 42 [ra_RecipientNetwork a] b;
               b = copy_at 42 74 (arr_bytes (ra_RecipientSpendPub a)) b;
               b = copy_at 74 106 (arr_bytes (ra_RecipientViewPub a)) b;
               b = copy_at 106 114 (be_put64 (ra_Amount a)) b;
               b = copy_at 114 146 (arr_bytes (ra_RewardID a)) b
      in Inr (copy_at 146 210 (ra_Signature a) b))"

definition DecodeRewardAuthorization :: "bytes \<Rightarrow> reward_error + RewardAuthorization" where
  "DecodeRewardAuthorization b =
     (if length b \<noteq> RewardAuthorizationSize then Inl RwSize
      else Inr \<lparr>ra_Version = b ! 0, ra_Height = be_get64 (slice 1 9 b), ra_ParentHash = arr_of (slice 9 41 b),
                ra_RecipientNetwork = b ! 41, ra_RecipientSpendPub = arr_of (slice 42 74 b),
                ra_RecipientViewPub = arr_of (slice 74 106 b), ra_Amount = be_get64 (slice 106 114 b),
                ra_RewardID = arr_of (slice 114 146 b), ra_Signature = drop 146 b\<rparr>)"

definition reward_output_ok :: "lib \<Rightarrow> RewardAuthorization \<Rightarrow> TxOutput \<Rightarrow> reward_error + unit" where
  "reward_output_ok K auth o0 =
     (if out_TxPubKey o0 \<noteq> 0 \<or> out_EncAmount o0 \<noteq> 0 then Inl RwTransparent
      else case mint_blind_v2 K (ra_RecipientSpendPub auth) (ra_Amount auth) (ra_Height auth) of
        None \<Rightarrow> Inl RwBlind | Some blind \<Rightarrow>
      (case pedersen_commit K (ra_Amount auth) blind of None \<Rightarrow> Inl RwCommitError | Some commit \<Rightarrow>
       if out_AmountCommit o0 \<noteq> commit then Inl RwCommit
       else case scalar_mul_base K (ra_Height auth) of None \<Rightarrow> Inl RwHeightKey | Some heightPub \<Rightarrow>
       (case add_points K (ra_RecipientSpendPub auth) heightPub of None \<Rightarrow> Inl RwAddPoints
        | Some oneTimePub \<Rightarrow> if out_OneTimePub o0 \<noteq> oneTimePub then Inl RwOutputKey else Inr ())))"

definition ValidateAuthorizedRewardTx :: "lib \<Rightarrow> Transaction \<Rightarrow> u64 \<Rightarrow> hash32 \<Rightarrow> ValidatorPubKey
    \<Rightarrow> reward_error + RewardAuthorization" where
  "ValidateAuthorizedRewardTx K tx blockHeight parentHash validatorPub =
     (if \<not> IsCoinbase tx then Inl RwNotCoinbase
      else if tx_Version tx \<noteq> TxVersionBase then Inl RwTxVersion
      else if tx_Fee tx \<noteq> 0 then Inl RwFee
      else if length (tx_Outputs tx) \<noteq> 1 then Inl RwOutputs
      else case DecodeRewardAuthorization (tx_Extra tx) of Inl e \<Rightarrow> Inl e | Inr auth \<Rightarrow>
      (case reward_Validate K auth blockHeight parentHash validatorPub of Inl e \<Rightarrow> Inl e | Inr _ \<Rightarrow>
      (case reward_output_ok K auth (hd (tx_Outputs tx)) of Inl e \<Rightarrow> Inl e | Inr _ \<Rightarrow> Inr auth)))"

section \<open>Header hash\<close>

lemma header_bytes_inj:
  assumes "concat (header_bytes g) = concat (header_bytes h)"
  shows "g\<lparr>bh_Signature := []\<rparr> = h\<lparr>bh_Signature := []\<rparr>"
proof -
  have eqs: "le_put64 (bh_Height g) = le_put64 (bh_Height h)"
    "arr_bytes (bh_PrevHash g) = arr_bytes (bh_PrevHash h)"
    "arr_bytes (bh_MerkleRoot g) = arr_bytes (bh_MerkleRoot h)"
    "le_put64 (bh_Timestamp g) = le_put64 (bh_Timestamp h)" "le_put32 (bh_Round g) = le_put32 (bh_Round h)"
    and tail: "bh_ValidatorPub g @ le_put64 (bh_OraclePrice g) @ le_put64 (bh_BaseFee g)
      = bh_ValidatorPub h @ le_put64 (bh_OraclePrice h) @ le_put64 (bh_BaseFee h)"
    using assms by (simp_all add: header_bytes_def)
  from tail have "length (bh_ValidatorPub g) = length (bh_ValidatorPub h)"
    by (drule_tac f = length in arg_cong) simp
  with tail have "bh_ValidatorPub g = bh_ValidatorPub h"
    "le_put64 (bh_OraclePrice g) = le_put64 (bh_OraclePrice h)"
    "le_put64 (bh_BaseFee g) = le_put64 (bh_BaseFee h)" by simp_all
  with eqs show ?thesis
    by (simp add: arr_bytes_inject le_put64_inject le_put32_inject)
qed

section \<open>Reward codec\<close>

lemma EncodeRewardAuthorization_append:
  assumes "length (ra_Signature a) = 64"
  shows "EncodeRewardAuthorization a = Inr ([ra_Version a] @ be_put64 (ra_Height a) @ arr_bytes (ra_ParentHash a)
     @ [ra_RecipientNetwork a] @ arr_bytes (ra_RecipientSpendPub a) @ arr_bytes (ra_RecipientViewPub a)
     @ be_put64 (ra_Amount a) @ arr_bytes (ra_RewardID a) @ ra_Signature a)"
  using assms unfolding EncodeRewardAuthorization_def Let_def RewardAuthorizationSize_def
  by (simp, subst copy_at_first, simp, simp) ((subst copy_at_next, simp, simp, simp)+, simp)

lemma reward_dec_enc:
  assumes "EncodeRewardAuthorization a = Inr b"
  shows "DecodeRewardAuthorization b = Inr a"
proof -
  have sig: "length (ra_Signature a) = 64"
    using assms by (auto simp: EncodeRewardAuthorization_def split: if_splits)
  have b: "b = [ra_Version a] @ be_put64 (ra_Height a) @ arr_bytes (ra_ParentHash a)
     @ [ra_RecipientNetwork a] @ arr_bytes (ra_RecipientSpendPub a) @ arr_bytes (ra_RecipientViewPub a)
     @ be_put64 (ra_Amount a) @ arr_bytes (ra_RewardID a) @ ra_Signature a"
    using EncodeRewardAuthorization_append [OF sig] assms by simp
  have "b ! 41 = ra_RecipientNetwork a" by (simp add: b nth_append)
  then show ?thesis
    using sig by (simp add: DecodeRewardAuthorization_def RewardAuthorizationSize_def)
      (simp add: b slice_simps sig)
qed

lemma reward_enc_dec:
  assumes "DecodeRewardAuthorization b = Inr a"
  shows "EncodeRewardAuthorization a = Inr b"
proof -
  have len: "length b = 210"
    using assms by (auto simp: DecodeRewardAuthorization_def RewardAuthorizationSize_def split: if_splits)
  have a: "a = \<lparr>ra_Version = b ! 0, ra_Height = be_get64 (slice 1 9 b), ra_ParentHash = arr_of (slice 9 41 b),
                ra_RecipientNetwork = b ! 41, ra_RecipientSpendPub = arr_of (slice 42 74 b),
                ra_RecipientViewPub = arr_of (slice 74 106 b), ra_Amount = be_get64 (slice 106 114 b),
                ra_RewardID = arr_of (slice 114 146 b), ra_Signature = drop 146 b\<rparr>"
    using assms by (auto simp: DecodeRewardAuthorization_def split: if_splits)
  have bytes: "slice 0 1 b = [b ! 0]" "slice 41 42 b = [b ! 41]"
    using len by (simp_all add: single_slice)
  have sorted: "sorted [1 :: nat, 9, 41, 42, 74, 106, 114, 146]" by simp
  note b = pieces_eq [OF sorted, of b, unfolded pieces.simps concat.simps bytes append_Nil2]
  have "EncodeRewardAuthorization a = Inr ([b ! 0] @ slice 1 9 b @ slice 9 41 b @ [b ! 41] @ slice 42 74 b
      @ slice 74 106 b @ slice 106 114 b @ slice 114 146 b @ drop 146 b)"
    using len by (subst EncodeRewardAuthorization_append) (simp_all add: a put_get)
  then show ?thesis by (simp only: b [symmetric])
qed

interpretation reward_codec: canonical_codec EncodeRewardAuthorization DecodeRewardAuthorization
    "\<lambda>a. length (ra_Signature a) = 64"
  by unfold_locales (rule exI, erule EncodeRewardAuthorization_append, erule reward_dec_enc, erule reward_enc_dec)

lemma reward_output_unique:
  assumes "reward_output_ok K a o1 = Inr u" and "reward_output_ok K a o2 = Inr v"
  shows "o1 = o2"
  using assms
  by (auto simp: reward_output_ok_def split: if_splits option.splits intro!: TxOutput.equality)

lemma ValidateRewardE:
  assumes "ValidateAuthorizedRewardTx K tx h parent pub = Inr a"
  obtains o0 where "tx_Outputs tx = [o0]" "IsCoinbase tx" "tx_Version tx = TxVersionBase" "tx_Fee tx = 0"
    "DecodeRewardAuthorization (tx_Extra tx) = Inr a" "reward_Validate K a h parent pub = Inr ()"
    "reward_output_ok K a o0 = Inr ()"
proof -
  have "length (tx_Outputs tx) = 1"
    using assms by (auto simp: ValidateAuthorizedRewardTx_def split: if_splits)
  then obtain o0 where "tx_Outputs tx = [o0]" by (cases "tx_Outputs tx") auto
  with assms show thesis
    by (intro that [of o0]) (auto simp: ValidateAuthorizedRewardTx_def split: if_splits sum.splits)
qed

section \<open>Properties\<close>

text \<open>The bytes a block header hashes determine every header field except the signature, so a
  proposer's signature binds the height, the parent, the Merkle root, the time, the round, the
  proposer, the oracle price and the base fee.\<close>

theorem header_hash_binding:
  assumes "concat (header_bytes g) = concat (header_bytes h)"
  shows "g\<lparr>bh_Signature := []\<rparr> = h\<lparr>bh_Signature := []\<rparr>"
  using assms by (rule header_bytes_inj)

definition demo_header :: BlockHeader where
  "demo_header = \<lparr>bh_Height = 1, bh_PrevHash = 2, bh_MerkleRoot = 3, bh_Timestamp = 4, bh_Round = 5,
     bh_ValidatorPub = [6, 7], bh_OraclePrice = 8, bh_BaseFee = 9, bh_Signature = []\<rparr>"

theorem header_hash_binding_witness:
  "demo_header\<lparr>bh_Signature := []\<rparr> = (demo_header\<lparr>bh_Signature := [1]\<rparr>)\<lparr>bh_Signature := []\<rparr>"
  by (rule header_hash_binding) (simp add: demo_header_def header_bytes_def)

text \<open>Structural block validation cannot tell a block from the one with the last of an odd number of
  transactions repeated: the header, its hash and signature and the verdict are the same.\<close>

theorem block_duplicate_undetected:
  assumes "odd (length txs)" and "1 < length txs"
  shows "block_Validate K J \<lparr>blk_Header = h, blk_Txs = txs @ [last txs]\<rparr> authority
       = block_Validate K J \<lparr>blk_Header = h, blk_Txs = txs\<rparr> authority"
proof -
  let ?f = "\<lambda>tx (_ :: unit). case tx_Validate K J tx of Inl e \<Rightarrow> Inl (BlkTx e) | Inr _ \<Rightarrow> Inr ()"
  have ok: "foldE ?f xs () = Inr () \<Longrightarrow> x \<in> set xs \<Longrightarrow> ?f x () = Inr ()" for xs x
    by (induction xs) (auto split: sum.splits)
  have "txs \<noteq> []" using assms(2) by auto
  then have "foldE ?f (txs @ [last txs]) () = foldE ?f txs ()"
    using ok [of txs "last txs"] by (auto simp: foldE_append split: sum.splits)
  then show ?thesis
    using merkle_root_duplicate_level [OF assms] by (simp add: block_Validate_def Let_def)
qed

theorem block_duplicate_undetected_witness:
  "let t = demo_coinbase [] [demo_output] in
   block_Validate demo_lib no_json \<lparr>blk_Header = demo_header, blk_Txs = [t, t, t, t]\<rparr> []
     = block_Validate demo_lib no_json \<lparr>blk_Header = demo_header, blk_Txs = [t, t, t]\<rparr> []"
  using block_duplicate_undetected [of "[demo_coinbase [] [demo_output], demo_coinbase [] [demo_output],
      demo_coinbase [] [demo_output]]" demo_lib no_json demo_header "[]"]
  by (simp add: Let_def)

text \<open>The reward authorization codec is canonical (each 210-byte payload decodes to one authorization,
  which encodes back to it), and an accepted reward transaction is bound to its block: the payload names
  the block's height and parent, and payload and output are determined by the authorization.\<close>

theorem authorized_reward_determined:
  assumes "ValidateAuthorizedRewardTx K tx1 h1 p1 pub1 = Inr a" and "ValidateAuthorizedRewardTx K tx2 h2 p2 pub2 = Inr a"
  shows "h1 = h2 \<and> p1 = p2 \<and> ra_Amount a \<noteq> 0 \<and> tx_Extra tx1 = tx_Extra tx2 \<and> tx_Outputs tx1 = tx_Outputs tx2 \<and>
    EncodeRewardAuthorization a = Inr (tx_Extra tx1) \<and>
    pub_Verify K pub1 (RewardAuthorizationSignMsg K a) (ra_Signature a)"
proof -
  obtain o1 where t1: "tx_Outputs tx1 = [o1]" "DecodeRewardAuthorization (tx_Extra tx1) = Inr a"
    "reward_Validate K a h1 p1 pub1 = Inr ()" "reward_output_ok K a o1 = Inr ()"
    using assms(1) by (rule ValidateRewardE)
  obtain o2 where t2: "tx_Outputs tx2 = [o2]" "DecodeRewardAuthorization (tx_Extra tx2) = Inr a"
    "reward_Validate K a h2 p2 pub2 = Inr ()" "reward_output_ok K a o2 = Inr ()"
    using assms(2) by (rule ValidateRewardE)
  have "o1 = o2" using t1(4) t2(4) by (rule reward_output_unique)
  moreover have "tx_Extra tx1 = tx_Extra tx2" using t1(2) t2(2) by (rule reward_codec.dec_inj)
  ultimately show ?thesis
    using t1 t2 reward_codec.enc_dec [OF t1(2)] by (auto simp: reward_Validate_def split: if_splits)
qed

definition reward_lib :: lib where
  "reward_lib = demo_lib\<lparr>sha256 := \<lambda>_. 7, ed25519_verify := \<lambda>pub msg sig. True\<rparr>"

definition demo_reward :: RewardAuthorization where
  "demo_reward = \<lparr>ra_Version = 1, ra_Height = 5, ra_ParentHash = 2, ra_RecipientNetwork = MainnetByte,
     ra_RecipientSpendPub = 11, ra_RecipientViewPub = 12, ra_Amount = 40, ra_RewardID = 7,
     ra_Signature = replicate 64 0\<rparr>"

definition demo_reward_tx :: Transaction where
  "demo_reward_tx = demo_coinbase
     (case EncodeRewardAuthorization demo_reward of Inr b \<Rightarrow> b | Inl _ \<Rightarrow> [])
     [\<lparr>out_OneTimePub = 16, out_TxPubKey = 0, out_AmountCommit = 56, out_EncAmount = 0\<rparr>]"

lemma demo_reward_valid: "ValidateAuthorizedRewardTx reward_lib demo_reward_tx 5 2 [1] = Inr demo_reward"
proof -
  obtain b where b: "EncodeRewardAuthorization demo_reward = Inr b"
    using reward_codec.enc_ok [of demo_reward] by (auto simp: demo_reward_def)
  have "DecodeRewardAuthorization b = Inr demo_reward" using b by (rule reward_codec.dec_enc)
  moreover have "reward_Validate reward_lib demo_reward 5 2 [1] = Inr ()"
    by (simp add: reward_Validate_def demo_reward_def reward_lib_def RewardAuthorizationVersion_def
        known_network_def RewardAuthorizationID_def HashBytes_def pub_Verify_def)
  moreover have "reward_output_ok reward_lib demo_reward
      \<lparr>out_OneTimePub = 16, out_TxPubKey = 0, out_AmountCommit = 56, out_EncAmount = 0\<rparr> = Inr ()"
    by (simp add: reward_output_ok_def demo_reward_def reward_lib_def demo_lib_def)
  ultimately show ?thesis
    by (simp add: ValidateAuthorizedRewardTx_def demo_reward_tx_def demo_coinbase_def empty_tx_def b
        tx_kinds tx_versions)
qed

theorem authorized_reward_determined_witness:
  "EncodeRewardAuthorization demo_reward = Inr (tx_Extra demo_reward_tx) \<and> ra_Amount demo_reward \<noteq> 0"
  using authorized_reward_determined [OF demo_reward_valid demo_reward_valid] by simp

end
