(* ===== verification/Vesting.thy ===== *)
theory Vesting
  imports Crypto
begin

text \<open>
  Vesting schedules of \<open>core/vesting.go\<close> and genesis allocations of \<open>core/genesis.go\<close>.  A signed
  64-bit time is an integer; additions and subtractions wrap through \<open>i64\<close>.  The schedules are
  bounded and monotone as long as no sum of times leaves the signed range; an unknown type unlocks
  nothing; and a validated genesis gives each spend key at most one allocation.
\<close>

section \<open>Definitions\<close>

definition i64 :: "int \<Rightarrow> int" where
  "i64 x = (x + 2 ^ 63) mod 2 ^ 64 - 2 ^ 63"

definition u64_of :: "int \<Rightarrow> nat" where
  "u64_of x = nat (x mod 2 ^ 64)"

definition SecondsPerMonth :: int where "SecondsPerMonth = 30 * 86400"

record VestingSchedule =
  vs_Type :: string
  vs_CliffSeconds :: int
  vs_VestSeconds :: int

text \<open>\<open>mulDiv\<close> computes in unbounded integers and saturates at its first argument.\<close>

definition mulDiv :: "u64 \<Rightarrow> nat \<Rightarrow> nat \<Rightarrow> u64" where
  "mulDiv a b c =
     (let result = unat a * b div c in if 2 ^ 64 \<le> result then a else word_of_nat result)"

definition VestedAmount :: "VestingSchedule \<Rightarrow> u64 \<Rightarrow> int \<Rightarrow> int \<Rightarrow> u64" where
  "VestedAmount v totalAmount genesisTime now =
     (if vs_Type v = ''immediate'' \<or> vs_Type v = '''' then totalAmount
      else if vs_Type v = ''linear'' then
        (if vs_VestSeconds v \<le> 0 then totalAmount
         else let elapsed = i64 (now - genesisTime) in
              if elapsed \<le> 0 then 0
              else if vs_VestSeconds v \<le> elapsed then totalAmount
              else mulDiv totalAmount (u64_of elapsed) (u64_of (vs_VestSeconds v)))
      else if vs_Type v = ''cliff_linear'' then
        (let cliffEnd = i64 (genesisTime + vs_CliffSeconds v) in
         if now < cliffEnd then 0
         else if vs_VestSeconds v \<le> 0 then totalAmount
         else let elapsed = i64 (now - cliffEnd) in
              if vs_VestSeconds v \<le> elapsed then totalAmount
              else mulDiv totalAmount (u64_of elapsed) (u64_of (vs_VestSeconds v)))
      else 0)"

definition LockedAmount :: "VestingSchedule \<Rightarrow> u64 \<Rightarrow> int \<Rightarrow> int \<Rightarrow> u64" where
  "LockedAmount v totalAmount genesisTime now =
     (let vested = VestedAmount v totalAmount genesisTime now
      in if totalAmount \<le> vested then 0 else totalAmount - vested)"

definition CliffAt :: "VestingSchedule \<Rightarrow> int \<Rightarrow> int" where
  "CliffAt v genesisTime =
     (if vs_Type v = ''cliff_linear'' then i64 (genesisTime + vs_CliffSeconds v) else genesisTime)"

definition FullUnlockAt :: "VestingSchedule \<Rightarrow> int \<Rightarrow> int" where
  "FullUnlockAt v genesisTime =
     (if vs_Type v = ''immediate'' \<or> vs_Type v = '''' then genesisTime
      else if vs_Type v = ''linear'' then i64 (genesisTime + vs_VestSeconds v)
      else if vs_Type v = ''cliff_linear'' then i64 (i64 (genesisTime + vs_CliffSeconds v) + vs_VestSeconds v)
      else 2 ^ 62 - 1)"

subsection \<open>Genesis allocations\<close>

record GenesisAlloc =
  ga_Address :: string
  ga_Amount :: u64
  ga_Vesting :: "VestingSchedule option"

definition alloc_VestedAmount :: "GenesisAlloc \<Rightarrow> int \<Rightarrow> int \<Rightarrow> u64" where
  "alloc_VestedAmount a now genesisTime =
     (case ga_Vesting a of None \<Rightarrow> ga_Amount a | Some v \<Rightarrow> VestedAmount v (ga_Amount a) genesisTime now)"

definition alloc_LockedAmount :: "GenesisAlloc \<Rightarrow> int \<Rightarrow> int \<Rightarrow> u64" where
  "alloc_LockedAmount a now genesisTime =
     (case ga_Vesting a of None \<Rightarrow> 0 | Some v \<Rightarrow> LockedAmount v (ga_Amount a) genesisTime now)"

datatype genesis_error =
    GenDuplicateAddress
  | GenDuplicateSpendKey

text \<open>The loop over the allocations, with the addresses and spend keys seen so far.\<close>

definition check_alloc :: "lib \<Rightarrow> GenesisAlloc \<Rightarrow> string list \<times> point32 list
    \<Rightarrow> genesis_error + (string list \<times> point32 list)" where
  "check_alloc K alloc seen =
     (case seen of (addrs, pubs) \<Rightarrow>
      if ga_Address alloc = '''' then Inr (addrs, pubs)
      else if ga_Address alloc \<in> set addrs then Inl GenDuplicateAddress
      else case DecodeAddress K (ga_Address alloc) of
             Inl _ \<Rightarrow> Inr (ga_Address alloc # addrs, pubs)
           | Inr (net, spend, view) \<Rightarrow>
               if spend \<in> set pubs then Inl GenDuplicateSpendKey
               else Inr (ga_Address alloc # addrs, spend # pubs))"

definition check_allocations :: "lib \<Rightarrow> GenesisAlloc list \<Rightarrow> genesis_error + (string list \<times> point32 list)" where
  "check_allocations K allocs = foldE (check_alloc K) allocs ([], [])"

definition alloc_spend_key :: "lib \<Rightarrow> GenesisAlloc \<Rightarrow> point32 option" where
  "alloc_spend_key K a =
     (if ga_Address a = '''' then None
      else case DecodeAddress K (ga_Address a) of Inl _ \<Rightarrow> None | Inr (net, spend, view) \<Rightarrow> Some spend)"

section \<open>Arithmetic\<close>

lemma i64_id: "- (2 ^ 63) \<le> x \<Longrightarrow> x < 2 ^ 63 \<Longrightarrow> i64 x = x"
  by (simp add: i64_def)

lemma u64_of_id: "0 \<le> x \<Longrightarrow> x < 2 ^ 64 \<Longrightarrow> int (u64_of x) = x"
  by (simp add: u64_of_def)

lemma mulDiv_small:
  assumes "b \<le> c" and "0 < c"
  shows "unat (mulDiv a b c) = unat a * b div c" and "unat (mulDiv a b c) \<le> unat a"
proof -
  have le: "unat a * b div c \<le> unat a"
    using assms by (metis div_le_mono div_mult_self_is_m mult_le_mono2)
  then have "unat a * b div c < 2 ^ 64" using unat_u64_lt [of a] by (rule le_less_trans)
  then show eq: "unat (mulDiv a b c) = unat a * b div c" by (simp add: mulDiv_def Let_def unat_of_nat)
  with le show "unat (mulDiv a b c) \<le> unat a" by simp
qed

lemma mulDiv_mono:
  assumes "b \<le> b'" and "b' \<le> c" and "0 < c"
  shows "unat (mulDiv a b c) \<le> unat (mulDiv a b' c)"
proof -
  have "b \<le> c" using assms by simp
  then show ?thesis
    using assms by (simp add: mulDiv_small div_le_mono)
qed

text \<open>The unlocked amount after \<open>e\<close> seconds of a window of \<open>w\<close> seconds.\<close>

definition window :: "u64 \<Rightarrow> int \<Rightarrow> int \<Rightarrow> nat" where
  "window tot e w = (if e \<le> 0 then 0 else if w \<le> e then unat tot else unat tot * nat e div nat w)"

lemma window_le: "window t e w \<le> unat t"
proof -
  have "0 < e \<Longrightarrow> e < w \<Longrightarrow> unat t * nat e div nat w \<le> unat t"
    by (metis (no_types) div_le_mono div_mult_self_is_m less_imp_le mult_le_mono2 nat_mono
        order_less_trans zero_less_nat_eq)
  then show ?thesis by (auto simp: window_def)
qed

lemma window_mono: "e \<le> e' \<Longrightarrow> window t e w \<le> window t e' w"
  using window_le [of t e w] by (auto simp: window_def div_le_mono nat_mono)

lemma mulDiv_window:
  assumes "0 \<le> e" and "e < w" and "w < 2 ^ 63"
  shows "unat (mulDiv t (u64_of e) (u64_of w)) = window t e w"
proof -
  have "u64_of e = nat e" "u64_of w = nat w"
    using assms by (simp_all add: u64_of_def)
  moreover have "nat e \<le> nat w" "0 < nat w" using assms by simp_all
  ultimately have "unat (mulDiv t (u64_of e) (u64_of w)) = unat t * nat e div nat w"
    by (simp add: mulDiv_small)
  then show ?thesis using assms by (auto simp: window_def)
qed

text \<open>Times for which no sum leaves the signed 64-bit range.\<close>

definition times_ok :: "VestingSchedule \<Rightarrow> int \<Rightarrow> int \<Rightarrow> bool" where
  "times_ok v genesisTime now \<longleftrightarrow>
     0 \<le> genesisTime \<and> 0 \<le> now \<and> now < 2 ^ 63 \<and> 0 \<le> vs_CliffSeconds v \<and> vs_VestSeconds v < 2 ^ 63 \<and>
     0 \<le> vs_VestSeconds v \<and> genesisTime + vs_CliffSeconds v + vs_VestSeconds v < 2 ^ 63"

lemma VestedAmount_window:
  assumes "times_ok v g now"
  shows "unat (VestedAmount v tot g now)
    = (if vs_Type v = ''immediate'' \<or> vs_Type v = '''' then unat tot
       else if vs_Type v = ''linear'' then (if vs_VestSeconds v = 0 then unat tot else window tot (now - g) (vs_VestSeconds v))
       else if vs_Type v = ''cliff_linear'' then
         (if now < g + vs_CliffSeconds v then 0 else if vs_VestSeconds v = 0 then unat tot
          else window tot (now - (g + vs_CliffSeconds v)) (vs_VestSeconds v))
       else 0)"
proof -
  note ok = assms[unfolded times_ok_def]
  have e1: "i64 (now - g) = now - g" using ok by (intro i64_id) auto
  have ce: "i64 (g + vs_CliffSeconds v) = g + vs_CliffSeconds v" using ok by (intro i64_id) auto
  have e2: "i64 (now - (g + vs_CliffSeconds v)) = now - (g + vs_CliffSeconds v)"
    using ok by (intro i64_id) auto
  have w1: "0 < now - g \<Longrightarrow> now - g < vs_VestSeconds v \<Longrightarrow>
      unat (mulDiv tot (u64_of (now - g)) (u64_of (vs_VestSeconds v))) = window tot (now - g) (vs_VestSeconds v)"
    using ok by (intro mulDiv_window) auto
  have w2: "g + vs_CliffSeconds v \<le> now \<Longrightarrow> now - (g + vs_CliffSeconds v) < vs_VestSeconds v \<Longrightarrow>
      unat (mulDiv tot (u64_of (now - (g + vs_CliffSeconds v))) (u64_of (vs_VestSeconds v)))
        = window tot (now - (g + vs_CliffSeconds v)) (vs_VestSeconds v)"
    using ok by (intro mulDiv_window) auto
  show ?thesis
    using ok w1 w2 by (auto simp: VestedAmount_def Let_def e1 ce e2 window_def)
qed

section \<open>Genesis allocations\<close>

lemma check_alloc_fold:
  assumes "foldE (check_alloc K) allocs (addrs, pubs) = Inr (addrs', pubs')"
  shows "distinct (List.map_filter (alloc_spend_key K) allocs) \<and>
    set (List.map_filter (alloc_spend_key K) allocs) \<inter> set pubs = {} \<and>
    set pubs' = set pubs \<union> set (List.map_filter (alloc_spend_key K) allocs)"
  using assms
proof (induction allocs arbitrary: addrs pubs)
  case Nil
  then show ?case by (simp add: map_filter_simps)
next
  case (Cons a allocs)
  then obtain addrs1 pubs1 where step: "check_alloc K a (addrs, pubs) = Inr (addrs1, pubs1)"
    and rest: "foldE (check_alloc K) allocs (addrs1, pubs1) = Inr (addrs', pubs')"
    by (auto split: sum.splits)
  have "(case alloc_spend_key K a of None \<Rightarrow> pubs1 = pubs | Some k \<Rightarrow> k \<notin> set pubs \<and> pubs1 = k # pubs)"
    using step by (auto simp: check_alloc_def alloc_spend_key_def split: if_splits sum.splits)
  with Cons.IH [OF rest] show ?case
    by (cases "alloc_spend_key K a") (auto simp: map_filter_simps)
qed

section \<open>Properties\<close>

text \<open>A vesting schedule never unlocks more than the allocation, unlocks no less as time passes, and
  the locked and unlocked amounts always add up to the allocation, as long as the times involved stay
  in the signed 64-bit range.\<close>

theorem vesting_bounded_monotone:
  assumes "times_ok v g now" and "times_ok v g now'" and "now \<le> now'"
  shows "unat (VestedAmount v tot g now) \<le> unat (VestedAmount v tot g now') \<and>
    unat (VestedAmount v tot g now') \<le> unat tot \<and>
    unat (LockedAmount v tot g now) + unat (VestedAmount v tot g now) = unat tot"
proof -
  have le: "unat (VestedAmount v tot g n) \<le> unat tot" if "times_ok v g n" for n
    using window_le by (auto simp: VestedAmount_window [OF that])
  have "unat (VestedAmount v tot g now) \<le> unat (VestedAmount v tot g now')"
    using assms(3) window_mono
    by (auto simp: VestedAmount_window [OF assms(1)] VestedAmount_window [OF assms(2)])
  moreover have "unat (LockedAmount v tot g now) + unat (VestedAmount v tot g now) = unat tot"
    using le [OF assms(1)] by (auto simp: LockedAmount_def Let_def u64_le_iff unat_diff_u64)
  ultimately show ?thesis using le [OF assms(2)] by simp
qed

definition team_schedule :: VestingSchedule where
  "team_schedule = \<lparr>vs_Type = ''cliff_linear'', vs_CliffSeconds = 31104000, vs_VestSeconds = 62208000\<rparr>"

theorem vesting_bounded_monotone_witness:
  "unat (VestedAmount team_schedule 1000 1700000000 1740000000)
     \<le> unat (VestedAmount team_schedule 1000 1700000000 1750000000) \<and>
   unat (LockedAmount team_schedule 1000 1700000000 1740000000)
     + unat (VestedAmount team_schedule 1000 1700000000 1740000000) = 1000"
  using vesting_bounded_monotone [of team_schedule 1700000000 1740000000 1750000000 1000]
  by (simp add: times_ok_def team_schedule_def)

text \<open>A schedule of a known type locks everything before \<open>CliffAt\<close> (for the cliff type), releases
  everything from \<open>FullUnlockAt\<close> on, and an unknown type releases nothing at any time.\<close>

theorem vesting_endpoints:
  assumes "times_ok v g now"
  shows "(vs_Type v = ''cliff_linear'' \<and> now < CliffAt v g \<longrightarrow> VestedAmount v tot g now = 0) \<and>
    (vs_Type v \<in> {'''', ''immediate'', ''linear'', ''cliff_linear''} \<and> FullUnlockAt v g \<le> now \<longrightarrow>
       VestedAmount v tot g now = tot) \<and>
    (vs_Type v \<notin> {'''', ''immediate'', ''linear'', ''cliff_linear''} \<longrightarrow> VestedAmount v tot g now = 0)"
proof -
  note ok = assms[unfolded times_ok_def]
  have ce: "i64 (g + vs_CliffSeconds v) = g + vs_CliffSeconds v" "i64 (g + vs_VestSeconds v) = g + vs_VestSeconds v"
    "i64 (g + vs_CliffSeconds v + vs_VestSeconds v) = g + vs_CliffSeconds v + vs_VestSeconds v"
    using ok by (simp_all add: i64_id)
  show ?thesis
    using ok
    by (auto simp: u64_eq_iff VestedAmount_window [OF assms] CliffAt_def FullUnlockAt_def ce window_def)
qed

theorem vesting_endpoints_witness:
  "VestedAmount team_schedule 1000 1700000000 1700000001 = 0 \<and>
   VestedAmount team_schedule 1000 1700000000 1800000000 = 1000"
  using vesting_endpoints [of team_schedule 1700000000 1700000001 1000]
    vesting_endpoints [of team_schedule 1700000000 1800000000 1000]
  by (simp add: times_ok_def team_schedule_def CliffAt_def FullUnlockAt_def i64_def)

text \<open>A genesis configuration that passes validation gives every spend key at most one allocation,
  so no later entry can replace the vesting schedule of an earlier one.\<close>

theorem genesis_spend_keys_distinct:
  assumes "is_ok (check_allocations K allocs)"
  shows "distinct (List.map_filter (alloc_spend_key K) allocs)"
  using assms check_alloc_fold [of K allocs "[]" "[]"]
  by (auto simp: check_allocations_def is_ok_iff)

theorem genesis_spend_keys_distinct_witness:
  "distinct (List.map_filter (alloc_spend_key demo_lib)
     [\<lparr>ga_Address = EncodeAddress demo_lib MainnetByte 5 7, ga_Amount = 10, ga_Vesting = None\<rparr>,
      \<lparr>ga_Address = EncodeAddress demo_lib MainnetByte 6 7, ga_Amount = 20, ga_Vesting = None\<rparr>])"
proof (rule genesis_spend_keys_distinct)
  have d: "DecodeAddress demo_lib (EncodeAddress demo_lib MainnetByte k 7) = Inr (MainnetByte, k, 7)" for k
    using address_decode_encode [OF demo_base58, of MainnetByte k 7] by (simp add: known_network_def)
  have ne: "EncodeAddress demo_lib MainnetByte k 7 \<noteq> ''''" for k
    by (simp add: EncodeAddress_def Let_def hrPrefix_def)
  have "EncodeAddress demo_lib MainnetByte 5 7 \<noteq> EncodeAddress demo_lib MainnetByte 6 7"
    using d [of 5] d [of 6] by auto
  then show "is_ok (check_allocations demo_lib
     [\<lparr>ga_Address = EncodeAddress demo_lib MainnetByte 5 7, ga_Amount = 10, ga_Vesting = None\<rparr>,
      \<lparr>ga_Address = EncodeAddress demo_lib MainnetByte 6 7, ga_Amount = 20, ga_Vesting = None\<rparr>])"
    by (simp add: check_allocations_def check_alloc_def d ne)
qed

end
