(* ===== verification/Stake_Codec.thy ===== *)
theory Stake_Codec
  imports Transactions
begin

text \<open>
  The stake payloads of \<open>core/staking.go\<close>: the withdrawal formats V1 and V2, the deposit formats
  V2, V3 and V4, the messages they sign and the context of the key-image proof.  Each format is an
  interpretation of \<open>canonical_codec\<close>: decoding inverts encoding and every payload that decodes is the
  encoding of what it decodes to.
\<close>

section \<open>Definitions\<close>

definition StakeDeposit :: u8 where "StakeDeposit = 1"
definition StakeWithdraw :: u8 where "StakeWithdraw = 2"
definition StakePartialWithdraw :: u8 where "StakePartialWithdraw = 3"

lemmas stake_actions = StakeDeposit_def StakeWithdraw_def StakePartialWithdraw_def

datatype stake_codec_error =
    ScPubKey
  | ScSignature
  | ScOneTimeSig
  | ScLength
  | ScAction

record stake_v1 =
  sp_Action :: u8
  sp_PubKey :: ValidatorPubKey
  sp_Amount :: u64
  sp_Sig :: bytes

record stake_v2 = stake_v1 +
  sp_BurnTxHash :: hash32
  sp_BurnOutIdx :: u32
  sp_BurnBlind :: scalar32

record stake_v3 = stake_v2 +
  sp_OneTimeSig :: bytes

record stake_v4 = stake_v2 +
  sp_KeyImage :: key_image
  sp_Proof :: KeyImageDLEQProof

record StakeWithdrawalAuthorizationV2 =
  sw_Action :: u8
  sw_PubKey :: ValidatorPubKey
  sw_Amount :: u64
  sw_Genesis :: hash32
  sw_Nonce :: u64
  sw_Generation :: u64
  sw_ExpiryHeight :: u64
  sw_StakeRef :: hash32
  sw_Signature :: bytes

definition StakeReferenceV2 :: "lib \<Rightarrow> hash32 \<Rightarrow> ValidatorPubKey \<Rightarrow> u64 \<Rightarrow> u64 \<Rightarrow> hash32" where
  "StakeReferenceV2 K genesis pub generation stake =
     HashBytes K [str_bytes ''aperod/stake-withdrawal/reference/v2'', arr_bytes genesis, pub,
       be_put64 generation, be_put64 stake]"

definition StakeWithdrawalSignMsgV2 :: "lib \<Rightarrow> StakeWithdrawalAuthorizationV2 \<Rightarrow> hash32" where
  "StakeWithdrawalSignMsgV2 K a =
     HashBytes K [str_bytes ''aperod/stake-withdrawal/authorization/v2'', [sw_Action a], sw_PubKey a,
       be_put64 (sw_Amount a), arr_bytes (sw_Genesis a), be_put64 (sw_Nonce a), be_put64 (sw_Generation a),
       be_put64 (sw_ExpiryHeight a), arr_bytes (sw_StakeRef a)]"

definition withdraw_action :: "u8 \<Rightarrow> bool" where
  "withdraw_action a \<longleftrightarrow> a = StakeWithdraw \<or> a = StakePartialWithdraw"

definition EncodeStakeWithdrawalExtraV2 :: "StakeWithdrawalAuthorizationV2 \<Rightarrow> stake_codec_error + bytes" where
  "EncodeStakeWithdrawalExtraV2 a =
     (if length (sw_PubKey a) \<noteq> 32 \<or> length (sw_Signature a) \<noteq> 64 then Inl ScPubKey
      else if \<not> withdraw_action (sw_Action a) then Inl ScAction
      else let b = make_buf StakeWithdrawalPayloadSizeV2;
               b = copy_at 0 1 [sw_Action a] b;
               b = copy_at 1 33 (sw_PubKey a) b;
               b = copy_at 33 41 (be_put64 (sw_Amount a)) b;
               b = copy_at 41 73 (arr_bytes (sw_Genesis a)) b;
               b = copy_at 73 81 (be_put64 (sw_Nonce a)) b;
               b = copy_at 81 89 (be_put64 (sw_Generation a)) b;
               b = copy_at 89 97 (be_put64 (sw_ExpiryHeight a)) b;
               b = copy_at 97 129 (arr_bytes (sw_StakeRef a)) b
      in Inr (copy_at 129 193 (sw_Signature a) b))"

definition DecodeStakeWithdrawalExtraV2 :: "bytes \<Rightarrow> stake_codec_error + StakeWithdrawalAuthorizationV2" where
  "DecodeStakeWithdrawalExtraV2 extra =
     (if length extra \<noteq> StakeWithdrawalPayloadSizeV2 then Inl ScLength
      else let a = \<lparr>sw_Action = extra ! 0, sw_PubKey = slice 1 33 extra,
               sw_Amount = be_get64 (slice 33 41 extra), sw_Genesis = arr_of (slice 41 73 extra),
               sw_Nonce = be_get64 (slice 73 81 extra), sw_Generation = be_get64 (slice 81 89 extra),
               sw_ExpiryHeight = be_get64 (slice 89 97 extra), sw_StakeRef = arr_of (slice 97 129 extra),
               sw_Signature = slice 129 193 extra\<rparr>
      in if \<not> withdraw_action (sw_Action a) then Inl ScAction else Inr a)"

text \<open>The first 105 bytes are common to V1 and the deposit formats.\<close>

definition put_stake_v1 :: "'z stake_v1_scheme \<Rightarrow> bytes \<Rightarrow> bytes" where
  "put_stake_v1 p b =
     (let b = copy_at 0 1 [sp_Action p] b;
          b = copy_at 1 33 (sp_PubKey p) b;
          b = copy_at 33 41 (be_put64 (sp_Amount p)) b
      in copy_at 41 105 (sp_Sig p) b)"

definition put_stake_burn :: "'z stake_v2_scheme \<Rightarrow> bytes \<Rightarrow> bytes" where
  "put_stake_burn p b =
     (let b = copy_at 105 137 (arr_bytes (sp_BurnTxHash p)) b;
          b = copy_at 137 141 (be_put32 (sp_BurnOutIdx p)) b
      in copy_at 141 173 (arr_bytes (sp_BurnBlind p)) b)"

definition EncodeStakeExtra :: "stake_v1 \<Rightarrow> stake_codec_error + bytes" where
  "EncodeStakeExtra p =
     (if length (sp_PubKey p) \<noteq> 32 then Inl ScPubKey
      else if length (sp_Sig p) \<noteq> 64 then Inl ScSignature
      else Inr (put_stake_v1 p (make_buf StakePayloadSize)))"

definition DecodeStakeExtra :: "bytes \<Rightarrow> stake_codec_error + stake_v1" where
  "DecodeStakeExtra extra =
     (if length extra \<noteq> StakePayloadSize then Inl ScLength
      else Inr \<lparr>sp_Action = extra ! 0, sp_PubKey = slice 1 33 extra, sp_Amount = be_get64 (slice 33 41 extra),
                sp_Sig = slice 41 105 extra\<rparr>)"

definition EncodeStakeExtraV2 :: "stake_v2 \<Rightarrow> stake_codec_error + bytes" where
  "EncodeStakeExtraV2 p =
     (if length (sp_PubKey p) \<noteq> 32 then Inl ScPubKey
      else if length (sp_Sig p) \<noteq> 64 then Inl ScSignature
      else Inr (put_stake_burn p (put_stake_v1 p (make_buf StakePayloadSizeV2))))"

definition DecodeStakeExtraV2 :: "bytes \<Rightarrow> stake_codec_error + stake_v2" where
  "DecodeStakeExtraV2 extra =
     (if length extra \<noteq> StakePayloadSizeV2 then Inl ScLength
      else Inr \<lparr>sp_Action = extra ! 0, sp_PubKey = slice 1 33 extra, sp_Amount = be_get64 (slice 33 41 extra),
                sp_Sig = slice 41 105 extra, sp_BurnTxHash = arr_of (slice 105 137 extra),
                sp_BurnOutIdx = be_get32 (slice 137 141 extra), sp_BurnBlind = arr_of (slice 141 173 extra)\<rparr>)"

definition EncodeStakeExtraV3 :: "stake_v3 \<Rightarrow> stake_codec_error + bytes" where
  "EncodeStakeExtraV3 p =
     (if length (sp_PubKey p) \<noteq> 32 then Inl ScPubKey
      else if length (sp_Sig p) \<noteq> 64 then Inl ScSignature
      else if length (sp_OneTimeSig p) \<noteq> 64 then Inl ScOneTimeSig
      else Inr (copy_at 173 237 (sp_OneTimeSig p)
                  (put_stake_burn p (put_stake_v1 p (make_buf StakePayloadSizeV3)))))"

definition DecodeStakeExtraV3 :: "bytes \<Rightarrow> stake_codec_error + stake_v3" where
  "DecodeStakeExtraV3 extra =
     (if length extra \<noteq> StakePayloadSizeV3 then Inl ScLength
      else Inr \<lparr>sp_Action = extra ! 0, sp_PubKey = slice 1 33 extra, sp_Amount = be_get64 (slice 33 41 extra),
                sp_Sig = slice 41 105 extra, sp_BurnTxHash = arr_of (slice 105 137 extra),
                sp_BurnOutIdx = be_get32 (slice 137 141 extra), sp_BurnBlind = arr_of (slice 141 173 extra),
                sp_OneTimeSig = slice 173 237 extra\<rparr>)"

definition EncodeStakeExtraV4 :: "stake_v4 \<Rightarrow> stake_codec_error + bytes" where
  "EncodeStakeExtraV4 p =
     (if length (sp_PubKey p) \<noteq> 32 then Inl ScPubKey
      else if length (sp_Sig p) \<noteq> 64 then Inl ScSignature
      else let b = put_stake_burn p (put_stake_v1 p (make_buf StakePayloadSizeV4));
               b = copy_at 173 205 (arr_bytes (sp_KeyImage p)) b;
               b = copy_at 205 237 (arr_bytes (ki_CommitmentG (sp_Proof p))) b;
               b = copy_at 237 269 (arr_bytes (ki_CommitmentHp (sp_Proof p))) b
      in Inr (copy_at 269 301 (arr_bytes (ki_Response (sp_Proof p))) b))"

definition DecodeStakeExtraV4 :: "bytes \<Rightarrow> stake_codec_error + stake_v4" where
  "DecodeStakeExtraV4 extra =
     (if length extra \<noteq> StakePayloadSizeV4 then Inl ScLength
      else Inr \<lparr>sp_Action = extra ! 0, sp_PubKey = slice 1 33 extra, sp_Amount = be_get64 (slice 33 41 extra),
                sp_Sig = slice 41 105 extra, sp_BurnTxHash = arr_of (slice 105 137 extra),
                sp_BurnOutIdx = be_get32 (slice 137 141 extra), sp_BurnBlind = arr_of (slice 141 173 extra),
                sp_KeyImage = arr_of (slice 173 205 extra),
                sp_Proof = \<lparr>ki_CommitmentG = arr_of (slice 205 237 extra),
                            ki_CommitmentHp = arr_of (slice 237 269 extra),
                            ki_Response = arr_of (slice 269 301 extra)\<rparr>\<rparr>)"

definition StakeSignMsg :: "lib \<Rightarrow> u8 \<Rightarrow> ValidatorPubKey \<Rightarrow> u64 \<Rightarrow> hash32" where
  "StakeSignMsg K action pub amount =
     HashBytes K [str_bytes ''aperod/stake/v1'', [action], pub, be_put64 amount]"

definition StakeSignMsgV2 :: "lib \<Rightarrow> u8 \<Rightarrow> ValidatorPubKey \<Rightarrow> u64 \<Rightarrow> hash32 \<Rightarrow> u32 \<Rightarrow> hash32" where
  "StakeSignMsgV2 K action pub amount burnTxHash burnOutIdx =
     HashBytes K [str_bytes ''aperod/stake/v2'', [action], pub, be_put64 amount, arr_bytes burnTxHash,
       be_put32 burnOutIdx]"

definition StakeOwnershipSignMsg :: "lib \<Rightarrow> hash32 \<Rightarrow> u32 \<Rightarrow> hash32" where
  "StakeOwnershipSignMsg K burnTxHash burnOutIdx =
     HashBytes K [str_bytes ''aperod/stake/ownership/v1'', arr_bytes burnTxHash, be_put32 burnOutIdx]"

definition StakeKeyImageProofContext :: "u8 \<Rightarrow> ValidatorPubKey \<Rightarrow> u64 \<Rightarrow> hash32 \<Rightarrow> u32 \<Rightarrow> scalar32 \<Rightarrow> bytes" where
  "StakeKeyImageProofContext action pub amount burnTxHash burnOutIdx burnBlind =
     (let c = make_buf (1 + 32 + 8 + 32 + 4 + 32);
          c = copy_at 0 1 [action] c;
          c = copy_at 1 33 pub c;
          c = copy_at 33 41 (be_put64 amount) c;
          c = copy_at 41 73 (arr_bytes burnTxHash) c;
          c = copy_at 73 77 (be_put32 burnOutIdx) c
      in copy_at 77 109 (arr_bytes burnBlind) c)"

section \<open>Encodings as concatenations\<close>

definition v1_bytes :: "'z stake_v1_scheme \<Rightarrow> bytes" where
  "v1_bytes p = [sp_Action p] @ sp_PubKey p @ be_put64 (sp_Amount p) @ sp_Sig p"

definition burn_bytes :: "'z stake_v2_scheme \<Rightarrow> bytes" where
  "burn_bytes p = arr_bytes (sp_BurnTxHash p) @ be_put32 (sp_BurnOutIdx p) @ arr_bytes (sp_BurnBlind p)"

lemma put_stake_v1_append:
  assumes "length (sp_PubKey p) = 32" and "length (sp_Sig p) = 64" and "105 \<le> n"
  shows "put_stake_v1 p (make_buf n) = v1_bytes p @ make_buf (n - 105)"
  using assms unfolding put_stake_v1_def Let_def v1_bytes_def
  by (subst copy_at_first, simp, simp) ((subst copy_at_next, simp, simp, simp)+, simp)

lemma length_v1_bytes: "length (sp_PubKey p) = 32 \<Longrightarrow> length (sp_Sig p) = 64 \<Longrightarrow> length (v1_bytes p) = 105"
  by (simp add: v1_bytes_def)

lemma put_stake_burn_append:
  assumes "length v = 105" and "68 \<le> n"
  shows "put_stake_burn p (v @ make_buf n) = v @ burn_bytes p @ make_buf (n - 68)"
  using assms unfolding put_stake_burn_def Let_def burn_bytes_def
  by ((subst copy_at_next, simp, simp, simp)+, simp)

lemma length_burn_bytes [simp]: "length (burn_bytes p) = 68"
  by (simp add: burn_bytes_def)

lemma EncodeStakeExtra_Inr:
  "EncodeStakeExtra p = Inr b \<longleftrightarrow> length (sp_PubKey p) = 32 \<and> length (sp_Sig p) = 64 \<and> b = v1_bytes p"
  by (auto simp: EncodeStakeExtra_def put_stake_v1_append stake_sizes)

lemma EncodeStakeExtraV2_Inr:
  "EncodeStakeExtraV2 p = Inr b \<longleftrightarrow>
     length (sp_PubKey p) = 32 \<and> length (sp_Sig p) = 64 \<and> b = v1_bytes p @ burn_bytes p"
  by (auto simp: EncodeStakeExtraV2_def put_stake_v1_append put_stake_burn_append length_v1_bytes stake_sizes)

lemma EncodeStakeExtraV3_Inr:
  "EncodeStakeExtraV3 p = Inr b \<longleftrightarrow>
     length (sp_PubKey p) = 32 \<and> length (sp_Sig p) = 64 \<and> length (sp_OneTimeSig p) = 64 \<and>
     b = v1_bytes p @ burn_bytes p @ sp_OneTimeSig p"
proof -
  have "copy_at 173 237 (sp_OneTimeSig p) (v1_bytes p @ burn_bytes p @ make_buf 64)
      = v1_bytes p @ burn_bytes p @ sp_OneTimeSig p"
    if "length (sp_PubKey p) = 32" "length (sp_Sig p) = 64" "length (sp_OneTimeSig p) = 64"
    using copy_at_next [of "v1_bytes p @ burn_bytes p" 173 "sp_OneTimeSig p" 237 64] that
    by (simp add: length_v1_bytes)
  then show ?thesis
    by (auto simp: EncodeStakeExtraV3_def put_stake_v1_append put_stake_burn_append length_v1_bytes stake_sizes)
qed

definition proof_bytes :: "KeyImageDLEQProof \<Rightarrow> bytes" where
  "proof_bytes q = arr_bytes (ki_CommitmentG q) @ arr_bytes (ki_CommitmentHp q) @ arr_bytes (ki_Response q)"

lemma put_stake_proof_append:
  assumes "length v = 173"
  shows "copy_at 269 301 (arr_bytes (ki_Response q)) (copy_at 237 269 (arr_bytes (ki_CommitmentHp q))
      (copy_at 205 237 (arr_bytes (ki_CommitmentG q)) (copy_at 173 205 (arr_bytes ki) (v @ make_buf 128))))
    = v @ arr_bytes ki @ proof_bytes q"
  using assms unfolding proof_bytes_def
  by ((subst copy_at_next, simp, simp, simp)+, simp)

lemma EncodeStakeExtraV4_Inr:
  "EncodeStakeExtraV4 p = Inr b \<longleftrightarrow>
     length (sp_PubKey p) = 32 \<and> length (sp_Sig p) = 64 \<and>
     b = v1_bytes p @ burn_bytes p @ arr_bytes (sp_KeyImage p) @ proof_bytes (sp_Proof p)"
  using put_stake_proof_append [of "v1_bytes p @ burn_bytes p" "sp_Proof p" "sp_KeyImage p"]
  by (auto simp: EncodeStakeExtraV4_def put_stake_v1_append put_stake_burn_append length_v1_bytes
      stake_sizes Let_def)

lemma EncodeStakeWithdrawalExtraV2_Inr:
  "EncodeStakeWithdrawalExtraV2 a = Inr b \<longleftrightarrow>
     length (sw_PubKey a) = 32 \<and> length (sw_Signature a) = 64 \<and> withdraw_action (sw_Action a) \<and>
     b = [sw_Action a] @ sw_PubKey a @ be_put64 (sw_Amount a) @ arr_bytes (sw_Genesis a) @ be_put64 (sw_Nonce a)
       @ be_put64 (sw_Generation a) @ be_put64 (sw_ExpiryHeight a) @ arr_bytes (sw_StakeRef a) @ sw_Signature a"
proof -
  have "EncodeStakeWithdrawalExtraV2 a = Inr ([sw_Action a] @ sw_PubKey a @ be_put64 (sw_Amount a)
       @ arr_bytes (sw_Genesis a) @ be_put64 (sw_Nonce a)
       @ be_put64 (sw_Generation a) @ be_put64 (sw_ExpiryHeight a) @ arr_bytes (sw_StakeRef a) @ sw_Signature a)"
    if "length (sw_PubKey a) = 32" "length (sw_Signature a) = 64" "withdraw_action (sw_Action a)"
    using that unfolding EncodeStakeWithdrawalExtraV2_def Let_def StakeWithdrawalPayloadSizeV2_def
    by (simp, subst copy_at_first, simp, simp) ((subst copy_at_next, simp, simp, simp)+, simp)
  then show ?thesis
    by (auto simp: EncodeStakeWithdrawalExtraV2_def split: if_splits)
qed

section \<open>Decoding inverts encoding\<close>

lemma v1_nth0 [simp]: "(v1_bytes p @ x) ! 0 = sp_Action p" "v1_bytes p ! 0 = sp_Action p"
  by (simp_all add: v1_bytes_def)

lemma v1_slices:
  assumes "length (sp_PubKey p) = 32" and "length (sp_Sig p) = 64"
  shows "slice 1 33 (v1_bytes p @ x) = sp_PubKey p"
    and "slice 33 41 (v1_bytes p @ x) = be_put64 (sp_Amount p)"
    and "slice 41 105 (v1_bytes p @ x) = sp_Sig p"
  using assms by (simp_all add: v1_bytes_def slice_simps)

lemma burn_slices:
  assumes "length v = 105"
  shows "slice 105 137 (v @ burn_bytes p @ x) = arr_bytes (sp_BurnTxHash p)"
    and "slice 137 141 (v @ burn_bytes p @ x) = be_put32 (sp_BurnOutIdx p)"
    and "slice 141 173 (v @ burn_bytes p @ x) = arr_bytes (sp_BurnBlind p)"
  using assms by (simp_all add: burn_bytes_def slice_simps)

lemma proof_slices:
  assumes "length v = 173"
  shows "slice 173 205 (v @ arr_bytes ki @ proof_bytes q) = arr_bytes ki"
    and "slice 205 237 (v @ arr_bytes ki @ proof_bytes q) = arr_bytes (ki_CommitmentG q)"
    and "slice 237 269 (v @ arr_bytes ki @ proof_bytes q) = arr_bytes (ki_CommitmentHp q)"
    and "slice 269 301 (v @ arr_bytes ki @ proof_bytes q) = arr_bytes (ki_Response q)"
  using assms by (simp_all add: proof_bytes_def slice_simps)

lemma stake_v1_dec_enc: "EncodeStakeExtra p = Inr b \<Longrightarrow> DecodeStakeExtra b = Inr p"
  using v1_slices [of p "[]"]
  by (auto simp: EncodeStakeExtra_Inr DecodeStakeExtra_def length_v1_bytes stake_sizes)

lemma stake_v2_dec_enc: "EncodeStakeExtraV2 p = Inr b \<Longrightarrow> DecodeStakeExtraV2 b = Inr p"
  using v1_slices [of p "burn_bytes p"] burn_slices [of "v1_bytes p" p "[]"]
  by (auto simp: EncodeStakeExtraV2_Inr DecodeStakeExtraV2_def length_v1_bytes stake_sizes)

lemma stake_v3_dec_enc: "EncodeStakeExtraV3 p = Inr b \<Longrightarrow> DecodeStakeExtraV3 b = Inr p"
  using v1_slices [of p "burn_bytes p @ sp_OneTimeSig p"] burn_slices [of "v1_bytes p" p "sp_OneTimeSig p"]
  by (auto simp: EncodeStakeExtraV3_Inr DecodeStakeExtraV3_def length_v1_bytes stake_sizes slice_simps)

lemma stake_v4_dec_enc: "EncodeStakeExtraV4 p = Inr b \<Longrightarrow> DecodeStakeExtraV4 b = Inr p"
  using v1_slices [of p "burn_bytes p @ arr_bytes (sp_KeyImage p) @ proof_bytes (sp_Proof p)"]
    burn_slices [of "v1_bytes p" p "arr_bytes (sp_KeyImage p) @ proof_bytes (sp_Proof p)"]
    proof_slices [of "v1_bytes p @ burn_bytes p" "sp_KeyImage p" "sp_Proof p"]
  by (auto simp: EncodeStakeExtraV4_Inr DecodeStakeExtraV4_def length_v1_bytes stake_sizes proof_bytes_def)

lemma withdrawal_v2_dec_enc:
  "EncodeStakeWithdrawalExtraV2 a = Inr b \<Longrightarrow> DecodeStakeWithdrawalExtraV2 b = Inr a"
  by (auto simp: EncodeStakeWithdrawalExtraV2_Inr DecodeStakeWithdrawalExtraV2_def stake_sizes Let_def slice_simps)

section \<open>Encoding inverts decoding\<close>

lemma byte0: "0 < length b \<Longrightarrow> slice 0 1 b = [b ! 0]"
  by (simp add: single_slice)

lemma slice_to_end: "length b = j \<Longrightarrow> drop i b = slice i j b"
  by (simp add: slice_def)

text \<open>A payload cut at the offsets of the V1, V2, V3, V4 and withdrawal layouts.\<close>

lemma v1_pieces:
  assumes "105 \<le> length b"
  shows "b = [b ! 0] @ slice 1 33 b @ slice 33 41 b @ slice 41 105 b @ drop 105 b"
proof -
  have s: "sorted [1 :: nat, 33, 41, 105]" by simp
  have z: "slice 0 1 b = [b ! 0]" using assms by (intro byte0) linarith
  show ?thesis by (rule pieces_eq [OF s, of b, unfolded pieces.simps concat.simps z append_Nil2])
qed

lemma burn_pieces:
  "drop 105 b = slice 105 137 b @ slice 137 141 b @ slice 141 173 b @ drop 173 b"
  using concat_pieces [of 105 "[137, 141, 173]" b] by simp

lemma proof_pieces:
  "drop 173 b = slice 173 205 b @ slice 205 237 b @ slice 237 269 b @ drop 269 b"
  using concat_pieces [of 173 "[205, 237, 269]" b] by simp

lemma stake_v1_enc_dec:
  assumes "DecodeStakeExtra b = Inr p"
  shows "EncodeStakeExtra p = Inr b"
proof -
  have len: "length b = 105" and p: "p = \<lparr>sp_Action = b ! 0, sp_PubKey = slice 1 33 b,
      sp_Amount = be_get64 (slice 33 41 b), sp_Sig = slice 41 105 b\<rparr>"
    using assms by (auto simp: DecodeStakeExtra_def stake_sizes split: if_splits)
  have "v1_bytes p = [b ! 0] @ slice 1 33 b @ slice 33 41 b @ slice 41 105 b @ drop 105 b"
    using len by (simp add: v1_bytes_def p put_get)
  then have "v1_bytes p = b" using v1_pieces [of b] len by simp
  then show ?thesis using len by (simp add: EncodeStakeExtra_Inr) (simp add: p)
qed

lemma stake_v2_enc_dec:
  assumes "DecodeStakeExtraV2 b = Inr p"
  shows "EncodeStakeExtraV2 p = Inr b"
proof -
  have len: "length b = 173" and p: "p = \<lparr>sp_Action = b ! 0, sp_PubKey = slice 1 33 b,
      sp_Amount = be_get64 (slice 33 41 b), sp_Sig = slice 41 105 b, sp_BurnTxHash = arr_of (slice 105 137 b),
      sp_BurnOutIdx = be_get32 (slice 137 141 b), sp_BurnBlind = arr_of (slice 141 173 b)\<rparr>"
    using assms by (auto simp: DecodeStakeExtraV2_def stake_sizes split: if_splits)
  have "burn_bytes p = drop 105 b"
    unfolding burn_pieces using len by (simp add: burn_bytes_def p put_get)
  moreover have "v1_bytes p = [b ! 0] @ slice 1 33 b @ slice 33 41 b @ slice 41 105 b"
    using len by (simp add: v1_bytes_def p put_get)
  ultimately have "v1_bytes p @ burn_bytes p = b"
    using v1_pieces [of b] len by simp
  then show ?thesis using len by (simp add: EncodeStakeExtraV2_Inr) (simp add: p)
qed

lemma stake_v3_enc_dec:
  assumes "DecodeStakeExtraV3 b = Inr p"
  shows "EncodeStakeExtraV3 p = Inr b"
proof -
  have len: "length b = 237" and p: "p = \<lparr>sp_Action = b ! 0, sp_PubKey = slice 1 33 b,
      sp_Amount = be_get64 (slice 33 41 b), sp_Sig = slice 41 105 b, sp_BurnTxHash = arr_of (slice 105 137 b),
      sp_BurnOutIdx = be_get32 (slice 137 141 b), sp_BurnBlind = arr_of (slice 141 173 b),
      sp_OneTimeSig = slice 173 237 b\<rparr>"
    using assms by (auto simp: DecodeStakeExtraV3_def stake_sizes split: if_splits)
  have "burn_bytes p @ sp_OneTimeSig p = drop 105 b"
    unfolding burn_pieces using len slice_to_end [of b 237 173] by (simp add: burn_bytes_def p put_get)
  moreover have "v1_bytes p = [b ! 0] @ slice 1 33 b @ slice 33 41 b @ slice 41 105 b"
    using len by (simp add: v1_bytes_def p put_get)
  ultimately have "v1_bytes p @ burn_bytes p @ sp_OneTimeSig p = b"
    using v1_pieces [of b] len by simp
  then show ?thesis using len by (simp add: EncodeStakeExtraV3_Inr) (simp add: p)
qed

lemma stake_v4_enc_dec:
  assumes "DecodeStakeExtraV4 b = Inr p"
  shows "EncodeStakeExtraV4 p = Inr b"
proof -
  have len: "length b = 301" and p: "p = \<lparr>sp_Action = b ! 0, sp_PubKey = slice 1 33 b,
      sp_Amount = be_get64 (slice 33 41 b), sp_Sig = slice 41 105 b, sp_BurnTxHash = arr_of (slice 105 137 b),
      sp_BurnOutIdx = be_get32 (slice 137 141 b), sp_BurnBlind = arr_of (slice 141 173 b),
      sp_KeyImage = arr_of (slice 173 205 b),
      sp_Proof = \<lparr>ki_CommitmentG = arr_of (slice 205 237 b), ki_CommitmentHp = arr_of (slice 237 269 b),
                  ki_Response = arr_of (slice 269 301 b)\<rparr>\<rparr>"
    using assms by (auto simp: DecodeStakeExtraV4_def stake_sizes split: if_splits)
  have "arr_bytes (sp_KeyImage p) @ proof_bytes (sp_Proof p) = drop 173 b"
    unfolding proof_pieces using len slice_to_end [of b 301 269] by (simp add: proof_bytes_def p put_get)
  moreover have "burn_bytes p = slice 105 137 b @ slice 137 141 b @ slice 141 173 b"
    using len by (simp add: burn_bytes_def p put_get)
  moreover have "v1_bytes p = [b ! 0] @ slice 1 33 b @ slice 33 41 b @ slice 41 105 b"
    using len by (simp add: v1_bytes_def p put_get)
  ultimately have "v1_bytes p @ burn_bytes p @ arr_bytes (sp_KeyImage p) @ proof_bytes (sp_Proof p) = b"
    using v1_pieces [of b] burn_pieces [of b] len by simp
  then show ?thesis using len by (simp add: EncodeStakeExtraV4_Inr) (simp add: p)
qed

lemma withdrawal_v2_enc_dec:
  assumes "DecodeStakeWithdrawalExtraV2 b = Inr a"
  shows "EncodeStakeWithdrawalExtraV2 a = Inr b"
proof -
  have len: "length b = 193" and act: "withdraw_action (b ! 0)"
    and a: "a = \<lparr>sw_Action = b ! 0, sw_PubKey = slice 1 33 b,
               sw_Amount = be_get64 (slice 33 41 b), sw_Genesis = arr_of (slice 41 73 b),
               sw_Nonce = be_get64 (slice 73 81 b), sw_Generation = be_get64 (slice 81 89 b),
               sw_ExpiryHeight = be_get64 (slice 89 97 b), sw_StakeRef = arr_of (slice 97 129 b),
               sw_Signature = slice 129 193 b\<rparr>"
    using assms by (auto simp: DecodeStakeWithdrawalExtraV2_def stake_sizes Let_def split: if_splits)
  have s: "sorted [1 :: nat, 33, 41, 73, 81, 89, 97, 129]" by simp
  have z: "slice 0 1 b = [b ! 0]" "drop 129 b = slice 129 193 b"
    using len by (simp_all add: single_slice slice_to_end)
  note b = pieces_eq [OF s, of b, unfolded pieces.simps concat.simps z append_Nil2]
  have "[sw_Action a] @ sw_PubKey a @ be_put64 (sw_Amount a) @ arr_bytes (sw_Genesis a) @ be_put64 (sw_Nonce a)
       @ be_put64 (sw_Generation a) @ be_put64 (sw_ExpiryHeight a) @ arr_bytes (sw_StakeRef a) @ sw_Signature a
      = [b ! 0] @ slice 1 33 b @ slice 33 41 b @ slice 41 73 b @ slice 73 81 b @ slice 81 89 b @ slice 89 97 b
        @ slice 97 129 b @ slice 129 193 b"
    using len by (simp add: a put_get)
  also have "\<dots> = b" by (rule b [symmetric])
  finally show ?thesis using len act by (simp add: EncodeStakeWithdrawalExtraV2_Inr) (simp add: a)
qed

section \<open>The codecs\<close>

definition stake_lengths_ok :: "'z stake_v1_scheme \<Rightarrow> bool" where
  "stake_lengths_ok p \<longleftrightarrow> length (sp_PubKey p) = 32 \<and> length (sp_Sig p) = 64"

interpretation v1_codec: canonical_codec EncodeStakeExtra DecodeStakeExtra stake_lengths_ok
  by unfold_locales (simp add: EncodeStakeExtra_Inr stake_lengths_ok_def, erule stake_v1_dec_enc, erule stake_v1_enc_dec)

interpretation v2_codec: canonical_codec EncodeStakeExtraV2 DecodeStakeExtraV2 stake_lengths_ok
  by unfold_locales (simp add: EncodeStakeExtraV2_Inr stake_lengths_ok_def, erule stake_v2_dec_enc, erule stake_v2_enc_dec)

interpretation v3_codec: canonical_codec EncodeStakeExtraV3 DecodeStakeExtraV3
    "\<lambda>p. stake_lengths_ok p \<and> length (sp_OneTimeSig p) = 64"
  by unfold_locales (simp add: EncodeStakeExtraV3_Inr stake_lengths_ok_def, erule stake_v3_dec_enc, erule stake_v3_enc_dec)

interpretation v4_codec: canonical_codec EncodeStakeExtraV4 DecodeStakeExtraV4 stake_lengths_ok
  by unfold_locales (simp add: EncodeStakeExtraV4_Inr stake_lengths_ok_def, erule stake_v4_dec_enc, erule stake_v4_enc_dec)

interpretation withdrawal_codec: canonical_codec EncodeStakeWithdrawalExtraV2 DecodeStakeWithdrawalExtraV2
    "\<lambda>a. length (sw_PubKey a) = 32 \<and> length (sw_Signature a) = 64 \<and> withdraw_action (sw_Action a)"
  by unfold_locales
    (simp add: EncodeStakeWithdrawalExtraV2_Inr, erule withdrawal_v2_dec_enc, erule withdrawal_v2_enc_dec)

section \<open>Properties\<close>

text \<open>C37: All five stake payload formats are canonical: a payload decodes to a value exactly when it is
  that value's encoding, so no two payloads of a format mean the same operation and none is lost.\<close>

theorem stake_codecs_canonical:
  "(DecodeStakeExtra b = Inr p1 \<longleftrightarrow> EncodeStakeExtra p1 = Inr b) \<and>
   (DecodeStakeExtraV2 b = Inr p2 \<longleftrightarrow> EncodeStakeExtraV2 p2 = Inr b) \<and>
   (DecodeStakeExtraV3 b = Inr p3 \<longleftrightarrow> EncodeStakeExtraV3 p3 = Inr b) \<and>
   (DecodeStakeExtraV4 b = Inr p4 \<longleftrightarrow> EncodeStakeExtraV4 p4 = Inr b) \<and>
   (DecodeStakeWithdrawalExtraV2 b = Inr w \<longleftrightarrow> EncodeStakeWithdrawalExtraV2 w = Inr b)"
  using v1_codec.dec_iff_enc v2_codec.dec_iff_enc v3_codec.dec_iff_enc v4_codec.dec_iff_enc
    withdrawal_codec.dec_iff_enc by blast

end
