(* ===== verification/Key_Images.thy ===== *)
theory Key_Images
  imports Stake_Codec
begin

text \<open>
  The set of spent key images: the three-tier \<open>compactKeyImageSet\<close> of \<open>core/utxo.go\<close> and the
  persistent index \<open>k/\<close> of \<open>store/leveldb.go\<close> behind it.  LevelDB is a record of its three calls
  on an abstract database state; \<open>leveldb_ok\<close> is its documented contract on a disk that does not
  fail.  The locale \<open>spent_set\<close> is what the rest of the node relies on, and it is interpreted on
  the definitions of this theory.
\<close>

section \<open>Definitions\<close>

subsection \<open>The persistent index\<close>

record 'd leveldb =
  ldb_has :: "'d \<Rightarrow> bytes \<Rightarrow> bool \<times> string option"
  ldb_put :: "'d \<Rightarrow> bytes \<Rightarrow> bytes \<Rightarrow> 'd \<times> string option"
  ldb_delete :: "'d \<Rightarrow> bytes \<Rightarrow> 'd \<times> string option"

definition prefixKeyImage :: bytes where "prefixKeyImage = str_bytes ''k/''"

definition keyImageSpentKey :: "lib \<Rightarrow> key_image \<Rightarrow> bytes" where
  "keyImageSpentKey K ki =
     (case canonical_key_image K ki of
        None \<Rightarrow> prefixKeyImage @ arr_bytes ki
      | Some canonical \<Rightarrow> prefixKeyImage @ arr_bytes canonical)"

definition MarkKeyImageSpent :: "lib \<Rightarrow> 'd leveldb \<Rightarrow> 'd \<Rightarrow> key_image \<Rightarrow> 'd \<times> string option" where
  "MarkKeyImageSpent K L d ki = ldb_put L d (keyImageSpentKey K ki) [0x01]"

definition DeleteKeyImage :: "lib \<Rightarrow> 'd leveldb \<Rightarrow> 'd \<Rightarrow> key_image \<Rightarrow> 'd \<times> string option" where
  "DeleteKeyImage K L d ki =
     (let rawKey = prefixKeyImage @ arr_bytes ki in
      case canonical_key_image K ki of
        Some canonical \<Rightarrow>
          (case ldb_delete L d (prefixKeyImage @ arr_bytes canonical) of
             (d', Some delErr) \<Rightarrow> (d', Some delErr)
           | (d', None) \<Rightarrow> ldb_delete L d' rawKey)
      | None \<Rightarrow> ldb_delete L d rawKey)"

definition IsKeyImageSpent :: "lib \<Rightarrow> 'd leveldb \<Rightarrow> 'd \<Rightarrow> key_image \<Rightarrow> bool \<times> string option" where
  "IsKeyImageSpent K L d ki =
     (case canonical_key_image K ki of
        None \<Rightarrow> ldb_has L d (prefixKeyImage @ arr_bytes ki)
      | Some canonical \<Rightarrow> ldb_has L d (prefixKeyImage @ arr_bytes canonical))"

subsection \<open>The three-tier set\<close>

text \<open>A nil \<open>recent\<close> map reads like an empty one, so the map is a set of key images; \<open>kiDB\<close> holds
  the state of the persistent index, \<open>None\<close> for a nil backend.\<close>

record 'd compactKeyImageSet =
  ki_sorted :: "key_image list"
  ki_recent :: "key_image set"
  ki_DB :: "'d option"

fun bytes_less :: "bytes \<Rightarrow> bytes \<Rightarrow> bool" where
  "bytes_less (x # xs) (y # ys) = (if x \<noteq> y then x < y else bytes_less xs ys)"
| "bytes_less _ _ = False"

definition kiLess :: "key_image \<Rightarrow> key_image \<Rightarrow> bool" where
  "kiLess a b = bytes_less (arr_bytes a) (arr_bytes b)"

text \<open>\<open>sort.Search\<close>: binary search for the first index in \<open>[i, j)\<close> where the predicate holds.\<close>

function sort_search :: "(nat \<Rightarrow> bool) \<Rightarrow> nat \<Rightarrow> nat \<Rightarrow> nat" where
  "sort_search f i j =
     (if i < j then
        let h = (i + j) div 2 in
        if \<not> f h then sort_search f (h + 1) j else sort_search f i h
      else i)"
  by auto
termination by (relation "measure (\<lambda>(f, i, j). j - i)") auto

declare sort_search.simps [simp del]

definition ki_index :: "key_image list \<Rightarrow> key_image \<Rightarrow> nat" where
  "ki_index xs ki = sort_search (\<lambda>i. \<not> kiLess (xs ! i) ki) 0 (length xs)"

definition ki_contains :: "lib \<Rightarrow> 'd leveldb \<Rightarrow> 'd compactKeyImageSet \<Rightarrow> key_image \<Rightarrow> bool" where
  "ki_contains K L c ki =
     (if ki \<in> ki_recent c then True
      else case ki_DB c of
        Some d \<Rightarrow> fst (IsKeyImageSpent K L d ki)
      | None \<Rightarrow>
          let idx = ki_index (ki_sorted c) ki
          in idx < length (ki_sorted c) \<and> ki_sorted c ! idx = ki)"

definition ki_insert :: "lib \<Rightarrow> 'd leveldb \<Rightarrow> 'd compactKeyImageSet \<Rightarrow> key_image \<Rightarrow> 'd compactKeyImageSet" where
  "ki_insert K L c ki =
     (if ki_contains K L c ki then c else c\<lparr>ki_recent := insert ki (ki_recent c)\<rparr>)"

definition ki_remove :: "lib \<Rightarrow> 'd leveldb \<Rightarrow> 'd compactKeyImageSet \<Rightarrow> key_image \<Rightarrow> 'd compactKeyImageSet" where
  "ki_remove K L c ki =
     (let c' = c\<lparr>ki_recent := ki_recent c - {ki}\<rparr> in
      case ki_DB c of
        Some d \<Rightarrow> c'\<lparr>ki_DB := Some (fst (DeleteKeyImage K L d ki))\<rparr>
      | None \<Rightarrow>
          let idx = ki_index (ki_sorted c) ki in
          if idx < length (ki_sorted c) \<and> ki_sorted c ! idx = ki
          then c'\<lparr>ki_sorted := take idx (ki_sorted c) @ drop (idx + 1) (ki_sorted c)\<rparr>
          else c')"

definition ki_length :: "'d compactKeyImageSet \<Rightarrow> nat" where
  "ki_length c = length (ki_sorted c) + card (ki_recent c)"

text \<open>Sorting with \<open>kiLess\<close>, a strict linear order, has one result; insertion sort computes it.\<close>

fun ki_insort :: "key_image \<Rightarrow> key_image list \<Rightarrow> key_image list" where
  "ki_insort k [] = [k]"
| "ki_insort k (x # xs) = (if kiLess x k then x # ki_insort k xs else k # x # xs)"

definition ki_sort :: "key_image list \<Rightarrow> key_image list" where
  "ki_sort xs = foldr ki_insort xs []"

text \<open>\<open>ks\<close> is the order in which the iteration visits the \<open>recent\<close> map.\<close>

definition CompactKeyImages :: "lib \<Rightarrow> 'd leveldb \<Rightarrow> key_image list \<Rightarrow> 'd compactKeyImageSet
    \<Rightarrow> 'd compactKeyImageSet \<times> nat" where
  "CompactKeyImages K L ks c =
     (let before = card (ki_recent c) in
      if before = 0 then (c, 0)
      else case ki_DB c of
        Some d \<Rightarrow> (c\<lparr>ki_DB := Some (fold (\<lambda>ki d. fst (MarkKeyImageSpent K L d ki)) ks d),
                     ki_recent := {}\<rparr>, before)
      | None \<Rightarrow> (c\<lparr>ki_sorted := ki_sort (ki_sorted c @ ks), ki_recent := {}\<rparr>, before))"

definition ki_toSlice :: "key_image list \<Rightarrow> 'd compactKeyImageSet \<Rightarrow> key_image list" where
  "ki_toSlice ks c = (if ki_length c = 0 then [] else ki_sort (ki_sorted c @ ks))"

definition ki_restoreFromSlice :: "'d compactKeyImageSet \<Rightarrow> key_image list \<Rightarrow> 'd compactKeyImageSet" where
  "ki_restoreFromSlice c kis = c\<lparr>ki_recent := {}\<rparr>"

subsection \<open>Contracts\<close>

text \<open>LevelDB on a disk that does not fail: \<open>V d\<close> is the set of keys stored in \<open>d\<close>.\<close>

definition leveldb_ok :: "'d leveldb \<Rightarrow> ('d \<Rightarrow> bytes set) \<Rightarrow> bool" where
  "leveldb_ok L V \<longleftrightarrow>
     (\<forall>d k. ldb_has L d k = (k \<in> V d, None)) \<and>
     (\<forall>d k v. snd (ldb_put L d k v) = None \<and> V (fst (ldb_put L d k v)) = insert k (V d)) \<and>
     (\<forall>d k. snd (ldb_delete L d k) = None \<and> V (fst (ldb_delete L d k)) = V d - {k})"

text \<open>Clearing the torsion of a key image twice is the same as clearing it once.\<close>

definition canonical_ok :: "lib \<Rightarrow> bool" where
  "canonical_ok K \<longleftrightarrow> (\<forall>ki c. canonical_key_image K ki = Some c \<longrightarrow> canonical_key_image K c = Some c)"

definition ki_normal :: "lib \<Rightarrow> key_image \<Rightarrow> bool" where
  "ki_normal K ki \<longleftrightarrow> canonical_key_image K ki = None \<or> canonical_key_image K ki = Some ki"

text \<open>The form of a key image under which it is stored: canonical, or raw when it has none.\<close>

definition ki_norm :: "lib \<Rightarrow> key_image \<Rightarrow> key_image" where
  "ki_norm K ki = (case canonical_key_image K ki of None \<Rightarrow> ki | Some c \<Rightarrow> c)"

definition ki_inv :: "lib \<Rightarrow> 'd leveldb \<Rightarrow> ('d \<Rightarrow> bytes set) \<Rightarrow> 'd compactKeyImageSet \<Rightarrow> bool" where
  "ki_inv K L V c \<longleftrightarrow>
     canonical_ok K \<and> leveldb_ok L V \<and> finite (ki_recent c) \<and> (\<forall>k \<in> ki_recent c. ki_normal K k) \<and>
     sorted_wrt kiLess (ki_sorted c) \<and> (ki_DB c = None \<longrightarrow> ki_recent c \<inter> set (ki_sorted c) = {})"

locale spent_set =
  fixes contains :: "'s \<Rightarrow> 'k \<Rightarrow> bool"
    and add :: "'s \<Rightarrow> 'k \<Rightarrow> 's"
    and del :: "'s \<Rightarrow> 'k \<Rightarrow> 's"
    and inv :: "'s \<Rightarrow> bool"
    and normal :: "'k \<Rightarrow> bool"
  assumes add_inv: "inv c \<Longrightarrow> normal k \<Longrightarrow> inv (add c k)"
    and del_inv: "inv c \<Longrightarrow> normal k \<Longrightarrow> inv (del c k)"
    and contains_add: "inv c \<Longrightarrow> normal k \<Longrightarrow> normal k' \<Longrightarrow> contains (add c k) k' \<longleftrightarrow> k' = k \<or> contains c k'"
    and contains_del: "inv c \<Longrightarrow> normal k \<Longrightarrow> normal k' \<Longrightarrow> contains (del c k) k' \<longleftrightarrow> k' \<noteq> k \<and> contains c k'"
begin

lemma adds:
  assumes "inv c" and "list_all normal ks"
  shows "inv (foldl add c ks) \<and> (\<forall>k. normal k \<longrightarrow> contains (foldl add c ks) k = (k \<in> set ks \<or> contains c k))"
  using assms by (induction ks arbitrary: c) (auto simp: add_inv contains_add)

lemma dels:
  assumes "inv c" and "list_all normal ks"
  shows "inv (foldl del c ks) \<and> (\<forall>k. normal k \<longrightarrow> contains (foldl del c ks) k = (k \<notin> set ks \<and> contains c k))"
  using assms by (induction ks arbitrary: c) (auto simp: del_inv contains_del)

lemma dels_adds:
  assumes "inv c" and "list_all normal ks" and "\<forall>k \<in> set ks. \<not> contains c k" and "normal k"
  shows "contains (foldl del (foldl add c ks) ks) k = contains c k"
  using adds [OF assms(1,2)] dels [of "foldl add c ks", OF _ assms(2)] assms(3,4) by auto

end

section \<open>Binary search\<close>

lemma sort_search_spec:
  assumes "i \<le> j" and "\<And>a b. a \<le> b \<Longrightarrow> b < j \<Longrightarrow> f a \<Longrightarrow> f b"
  shows "i \<le> sort_search f i j \<and> sort_search f i j \<le> j \<and> (\<forall>a. i \<le> a \<and> a < sort_search f i j \<longrightarrow> \<not> f a) \<and>
    (\<forall>a. sort_search f i j \<le> a \<and> a < j \<longrightarrow> f a)"
  using assms
proof (induction f i j rule: sort_search.induct)
  case (1 f i j)
  define h where "h = (i + j) div 2"
  show ?case
  proof (cases "i < j")
    case True
    then have h: "i \<le> h" "h < j" by (auto simp: h_def)
    show ?thesis
    proof (cases "f h")
      case fh: True
      have "f a" if "h \<le> a" "a < j" for a using "1.prems"(2) fh that by blast
      with "1.IH"(2) [OF True h_def] fh h "1.prems"(2) show ?thesis
        by (subst (1 2 3 4) sort_search.simps) (simp add: True h_def [symmetric] Let_def, force)
    next
      case fh: False
      have "\<not> f a" if "a \<le> h" for a using "1.prems"(2) fh h(2) that by blast
      with "1.IH"(1) [OF True h_def] fh h "1.prems"(2) show ?thesis
        by (subst (1 2 3 4) sort_search.simps)
          (simp add: True h_def [symmetric] Let_def, metis Suc_leI not_less_eq_eq Suc_leD)
    qed
  qed (use "1.prems" in \<open>auto simp: sort_search.simps\<close>)
qed

lemma bytes_less_irrefl [simp]: "\<not> bytes_less a a"
  by (induction a) auto

lemma bytes_less_trans: "bytes_less a b \<Longrightarrow> bytes_less b c \<Longrightarrow> bytes_less a c"
proof (induction a b arbitrary: c rule: bytes_less.induct)
  case (1 x xs y ys)
  then show ?case by (cases c) (auto split: if_splits)
qed auto

lemma bytes_less_linear: "length a = length b \<Longrightarrow> bytes_less a b \<or> a = b \<or> bytes_less b a"
  by (induction a b rule: list_induct2) auto

lemma kiLess_irrefl [simp]: "\<not> kiLess a a"
  by (simp add: kiLess_def)

lemma kiLess_trans: "kiLess a b \<Longrightarrow> kiLess b c \<Longrightarrow> kiLess a c"
  by (auto simp: kiLess_def intro: bytes_less_trans)

lemma kiLess_linear: "kiLess a b \<or> a = b \<or> kiLess b a"
  using bytes_less_linear [of "arr_bytes a" "arr_bytes b"] by (auto simp: kiLess_def arr_bytes_inject)

lemma ki_index_spec:
  assumes "sorted_wrt kiLess xs"
  shows "ki_index xs ki \<le> length xs \<and> (\<forall>a < ki_index xs ki. kiLess (xs ! a) ki) \<and>
    (\<forall>a < length xs. ki_index xs ki \<le> a \<longrightarrow> \<not> kiLess (xs ! a) ki)"
proof -
  have mono: "\<not> kiLess (xs ! b) ki" if "a \<le> b" "b < length xs" "\<not> kiLess (xs ! a) ki" for a b
  proof (cases "a = b")
    case False
    then have "kiLess (xs ! a) (xs ! b)" using assms that by (simp add: sorted_wrt_iff_nth_less)
    then show ?thesis using that(3) kiLess_trans by blast
  qed (use that in simp)
  show ?thesis
    using sort_search_spec [of 0 "length xs" "\<lambda>i. \<not> kiLess (xs ! i) ki"] mono
    unfolding ki_index_def by (metis (no_types, lifting) le0)
qed

lemma ki_index_found:
  assumes "sorted_wrt kiLess xs"
  shows "ki_index xs ki < length xs \<and> xs ! ki_index xs ki = ki \<longleftrightarrow> ki \<in> set xs"
proof
  assume "ki \<in> set xs"
  then obtain a where a: "a < length xs" "xs ! a = ki" by (auto simp: in_set_conv_nth)
  note spec = ki_index_spec [OF assms, of ki]
  have le: "ki_index xs ki \<le> a" using spec a by (metis kiLess_irrefl not_le)
  moreover have "\<not> ki_index xs ki < a"
    using assms spec a unfolding sorted_wrt_iff_nth_less by (metis order.strict_trans order_refl)
  ultimately show "ki_index xs ki < length xs \<and> xs ! ki_index xs ki = ki" using a by simp
qed (auto simp: in_set_conv_nth)

lemma sorted_delete:
  assumes "sorted_wrt kiLess xs" and "i < length xs"
  shows "sorted_wrt kiLess (take i xs @ drop (i + 1) xs) \<and> set (take i xs @ drop (i + 1) xs) = set xs - {xs ! i}"
proof -
  have xs: "xs = take i xs @ xs ! i # drop (i + 1) xs" using assms(2) by (simp add: id_take_nth_drop)
  have "sorted_wrt kiLess (take i xs @ xs ! i # drop (i + 1) xs)" using assms(1) xs by simp
  then have s: "sorted_wrt kiLess (take i xs @ drop (i + 1) xs)"
    and d: "xs ! i \<notin> set (take i xs @ drop (i + 1) xs)"
    by (auto simp: sorted_wrt_append)
  have "set xs = insert (xs ! i) (set (take i xs @ drop (i + 1) xs))" by (subst xs) auto
  with s d show ?thesis by auto
qed

lemma sorted_kiLess_distinct: "sorted_wrt kiLess xs \<Longrightarrow> distinct xs"
  by (induction xs) auto

lemma set_ki_insort [simp]: "set (ki_insort k xs) = insert k (set xs)"
  by (induction xs) auto

lemma sorted_ki_insort: "sorted_wrt kiLess xs \<Longrightarrow> k \<notin> set xs \<Longrightarrow> sorted_wrt kiLess (ki_insort k xs)"
proof (induction xs)
  case (Cons x xs)
  then show ?case using kiLess_linear [of x k] kiLess_trans [of k x] by auto
qed simp

lemma set_ki_sort [simp]: "set (ki_sort xs) = set xs"
  by (induction xs) (auto simp: ki_sort_def)

lemma sorted_ki_sort: "distinct xs \<Longrightarrow> sorted_wrt kiLess (ki_sort xs)"
proof (induction xs)
  case (Cons x xs)
  then show ?case using set_ki_sort [of xs] by (simp add: ki_sort_def sorted_ki_insort)
qed (simp add: ki_sort_def)

section \<open>The set refines a set of key images\<close>

lemma leveldb_okD:
  assumes "leveldb_ok L V"
  shows "ldb_has L d k = (k \<in> V d, None)"
    and "V (fst (ldb_put L d k v)) = insert k (V d)" and "snd (ldb_put L d k v) = None"
    and "V (fst (ldb_delete L d k)) = V d - {k}" and "snd (ldb_delete L d k) = None"
  using assms by (auto simp: leveldb_ok_def)

lemma ki_key_inject: "prefixKeyImage @ arr_bytes a = prefixKeyImage @ arr_bytes b \<longleftrightarrow> a = b"
  by (simp add: arr_bytes_inject)

lemma ki_normal_norm: "canonical_ok K \<Longrightarrow> ki_normal K (ki_norm K ki)"
  by (auto simp: canonical_ok_def ki_normal_def ki_norm_def split: option.splits)

lemma ki_norm_normal: "ki_normal K ki \<Longrightarrow> ki_norm K ki = ki"
  by (auto simp: ki_normal_def ki_norm_def)

lemma IsKeyImageSpent_eq:
  "leveldb_ok L V \<Longrightarrow> IsKeyImageSpent K L d ki = (prefixKeyImage @ arr_bytes (ki_norm K ki) \<in> V d, None)"
  by (simp add: IsKeyImageSpent_def ki_norm_def leveldb_okD split: option.splits)

lemma MarkKeyImageSpent_view:
  "leveldb_ok L V \<Longrightarrow> V (fst (MarkKeyImageSpent K L d ki))
     = insert (prefixKeyImage @ arr_bytes (ki_norm K ki)) (V d)"
  by (simp add: MarkKeyImageSpent_def keyImageSpentKey_def ki_norm_def leveldb_okD split: option.splits)

lemma DeleteKeyImage_view:
  "leveldb_ok L V \<Longrightarrow> V (fst (DeleteKeyImage K L d ki))
     = V d - {prefixKeyImage @ arr_bytes (ki_norm K ki), prefixKeyImage @ arr_bytes ki}"
  using leveldb_okD(4,5) [of L V]
  by (auto simp: DeleteKeyImage_def ki_norm_def Let_def prod.case_eq_if split: option.splits)

text \<open>What a set holds, as far as normal key images can tell.\<close>

definition ki_view :: "('d \<Rightarrow> bytes set) \<Rightarrow> 'd compactKeyImageSet \<Rightarrow> key_image set" where
  "ki_view V c = ki_recent c \<union>
     (case ki_DB c of Some d \<Rightarrow> {k. prefixKeyImage @ arr_bytes k \<in> V d} | None \<Rightarrow> set (ki_sorted c))"

lemma ki_contains_view:
  assumes "ki_inv K L V c" and "ki_normal K ki"
  shows "ki_contains K L c ki \<longleftrightarrow> ki \<in> ki_view V c"
  using assms ki_index_found [of "ki_sorted c" ki]
  by (auto simp: ki_inv_def ki_contains_def ki_view_def IsKeyImageSpent_eq ki_norm_normal Let_def split: option.splits)

lemma ki_insert_ok:
  assumes "ki_inv K L V c" and "ki_normal K ki"
  shows "ki_inv K L V (ki_insert K L c ki) \<and> ki_view V (ki_insert K L c ki) = insert ki (ki_view V c)"
proof (cases "ki_contains K L c ki")
  case True
  then show ?thesis using assms by (auto simp: ki_insert_def ki_contains_view)
next
  case False
  then have "ki_DB c = None \<Longrightarrow> ki \<notin> set (ki_sorted c)" using assms by (auto simp: ki_contains_view ki_view_def)
  then show ?thesis using assms False
    by (auto simp: ki_insert_def ki_inv_def ki_view_def split: option.splits)
qed

lemma ki_remove_ok:
  assumes "ki_inv K L V c" and "ki_normal K ki"
  shows "ki_inv K L V (ki_remove K L c ki) \<and> ki_view V (ki_remove K L c ki) = ki_view V c - {ki}"
proof (cases "ki_DB c")
  case None
  let ?i = "ki_index (ki_sorted c) ki"
  have s: "sorted_wrt kiLess (ki_sorted c)" using assms by (simp add: ki_inv_def)
  show ?thesis
  proof (cases "ki \<in> set (ki_sorted c)")
    case True
    then have i: "?i < length (ki_sorted c)" "ki_sorted c ! ?i = ki" using ki_index_found [OF s, of ki] by auto
    have "ki_remove K L c ki = c\<lparr>ki_recent := ki_recent c - {ki},
        ki_sorted := take ?i (ki_sorted c) @ drop (?i + 1) (ki_sorted c)\<rparr>"
      using None i by (simp add: ki_remove_def Let_def)
    with sorted_delete [OF s i(1)] i(2) assms None show ?thesis
      by (auto simp: ki_inv_def ki_view_def simp del: set_append)
  next
    case False
    then have "ki_remove K L c ki = c\<lparr>ki_recent := ki_recent c - {ki}\<rparr>"
      using None ki_index_found [OF s, of ki] by (auto simp: ki_remove_def Let_def)
    with assms None False show ?thesis by (auto simp: ki_inv_def ki_view_def)
  qed
next
  case (Some d)
  then show ?thesis using assms
    by (auto simp: ki_remove_def ki_inv_def ki_view_def DeleteKeyImage_view ki_norm_normal arr_bytes_inject Let_def)
qed

lemma mark_all_view:
  "leveldb_ok L V \<Longrightarrow> list_all (ki_normal K) ks \<Longrightarrow>
   V (fold (\<lambda>ki d. fst (MarkKeyImageSpent K L d ki)) ks d) = (\<lambda>k. prefixKeyImage @ arr_bytes k) ` set ks \<union> V d"
  by (induction ks arbitrary: d) (auto simp: MarkKeyImageSpent_view ki_norm_normal)

lemma CompactKeyImages_ok:
  assumes "ki_inv K L V c" and "distinct ks" and "set ks = ki_recent c"
  shows "ki_inv K L V (fst (CompactKeyImages K L ks c)) \<and>
    ki_view V (fst (CompactKeyImages K L ks c)) = ki_view V c"
proof (cases "ki_recent c = {}")
  case True
  then show ?thesis using assms by (simp add: CompactKeyImages_def)
next
  case False
  then have n: "card (ki_recent c) \<noteq> 0" using assms(1) by (simp add: ki_inv_def)
  have nrm: "list_all (ki_normal K) ks" using assms(1,3) by (simp add: ki_inv_def list_all_iff)
  show ?thesis
  proof (cases "ki_DB c")
    case None
    have "distinct (ki_sorted c @ ks)"
      using assms None by (auto simp: ki_inv_def sorted_kiLess_distinct)
    from sorted_ki_sort [OF this] assms None n show ?thesis
      by (auto simp: CompactKeyImages_def ki_inv_def ki_view_def Let_def)
  next
    case (Some d)
    then show ?thesis using assms n nrm mark_all_view [of L V K ks d]
      by (auto simp: CompactKeyImages_def ki_inv_def ki_view_def arr_bytes_inject Let_def)
  qed
qed

interpretation ki: spent_set "ki_contains K L" "ki_insert K L" "ki_remove K L" "ki_inv K L V" "ki_normal K"
proof unfold_locales
  fix c k assume a: "ki_inv K L V c" "ki_normal K k"
  show i: "ki_inv K L V (ki_insert K L c k)" and d: "ki_inv K L V (ki_remove K L c k)"
    using ki_insert_ok [OF a] ki_remove_ok [OF a] by auto
  fix k' assume b: "ki_normal K k'"
  show "ki_contains K L (ki_insert K L c k) k' \<longleftrightarrow> k' = k \<or> ki_contains K L c k'"
    using ki_insert_ok [OF a] a b i by (auto simp: ki_contains_view)
  show "ki_contains K L (ki_remove K L c k) k' \<longleftrightarrow> k' \<noteq> k \<and> ki_contains K L c k'"
    using ki_remove_ok [OF a] a b d by (auto simp: ki_contains_view)
qed

text \<open>Compacting the key images keeps membership: whatever order the recent map is iterated in,
  flushing it to the index (production) or merging it into the sorted slice changes no lookup of a
  stored key-image form, and the recent tier is empty afterwards.\<close>

theorem compaction_keeps_membership:
  assumes "ki_inv K L V c" and "distinct ks" and "set ks = ki_recent c" and "ki_normal K ki"
  shows "ki_contains K L (fst (CompactKeyImages K L ks c)) ki = ki_contains K L c ki \<and>
    ki_recent (fst (CompactKeyImages K L ks c)) = {} \<and> snd (CompactKeyImages K L ks c) = length ks"
proof -
  have "card (ki_recent c) = length ks" using assms(2,3) distinct_card by fastforce
  moreover have "finite (ki_recent c)" using assms(1) by (simp add: ki_inv_def)
  ultimately have "ki_recent (fst (CompactKeyImages K L ks c)) = {} \<and> snd (CompactKeyImages K L ks c) = length ks"
    using assms(3) by (auto simp: CompactKeyImages_def Let_def split: option.splits)
  with CompactKeyImages_ok [OF assms(1-3)] assms show ?thesis by (simp add: ki_contains_view [of K L V])
qed

text \<open>A LevelDB that keeps its pairs in a map, for concrete instances.\<close>

definition mem_leveldb :: "(bytes \<rightharpoonup> bytes) leveldb" where
  "mem_leveldb = \<lparr>ldb_has = (\<lambda>d k. (d k \<noteq> None, None)), ldb_put = (\<lambda>d k v. (d(k \<mapsto> v), None)),
     ldb_delete = (\<lambda>d k. (d(k := None), None))\<rparr>"

lemma mem_leveldb_ok: "leveldb_ok mem_leveldb dom"
  by (auto simp: leveldb_ok_def mem_leveldb_def)

lemma demo_canonical_ok: "canonical_ok demo_lib"
  by (auto simp: canonical_ok_def demo_lib_def)

lemma demo_ki_normal [simp]: "ki_normal demo_lib ki"
  by (simp add: ki_normal_def demo_lib_def)

theorem compaction_keeps_membership_witness:
  "ki_contains demo_lib mem_leveldb (fst (CompactKeyImages demo_lib mem_leveldb [7, 3]
     \<lparr>ki_sorted = [], ki_recent = {3, 7}, ki_DB = Some Map.empty\<rparr>)) 7
   = ki_contains demo_lib mem_leveldb \<lparr>ki_sorted = [], ki_recent = {3, 7}, ki_DB = Some Map.empty\<rparr> 7"
  using compaction_keeps_membership [of demo_lib mem_leveldb dom
      "\<lparr>ki_sorted = [], ki_recent = {3, 7}, ki_DB = Some Map.empty\<rparr>" "[7, 3]" 7]
  by (simp add: ki_inv_def demo_canonical_ok mem_leveldb_ok insert_commute)

text \<open>When the index cannot be written, compaction still clears the recent tier: the images it held
  are no longer found.\<close>

lemma compaction_drops_unwritten:
  assumes "\<And>d k v. ldb_put L d k v = (d, Some e)" and "\<not> fst (IsKeyImageSpent K L d ki)"
    and "finite (ki_recent c)" and "ki \<in> ki_recent c" and "ki_DB c = Some d"
  shows "ki_contains K L c ki \<and> \<not> ki_contains K L (fst (CompactKeyImages K L ks c)) ki"
proof -
  have "fold (\<lambda>ki d. fst (MarkKeyImageSpent K L d ki)) ks d = d"
    by (induction ks) (simp_all add: MarkKeyImageSpent_def assms(1))
  then show ?thesis using assms(2-5) by (auto simp: ki_contains_def CompactKeyImages_def Let_def)
qed

end
