(* ===== verification/Utxo.thy ===== *)
theory Utxo
  imports Blocks Key_Images
begin

text \<open>
  The UTXO set of \<open>core/utxo.go\<close>: the primary index, the ring-member index, the staked outputs, the
  retained decoys, the rollback journal and the spent key images; block application in two passes,
  rollback, staking of outputs and the lookups.  Records are copied on every entry and exit in the
  code, so a \<open>*UTXO\<close> is a value here; the mutex makes each operation one step.  The callbacks into
  the persistent index are arguments where their result matters, and the calls of \<open>OnUTXOSpent\<close>
  are recorded in order in \<open>us_spentCalls\<close>.
\<close>

section \<open>Definitions\<close>

record UTXO =
  u_TxHash :: hash32
  u_OutputIndex :: u32
  u_OneTimePub :: point32
  u_TxPubKey :: point32
  u_AmountCommit :: commitment
  u_EncAmount :: u64
  u_BlockHeight :: u64
  u_ProtocolLocked :: bool

type_synonym UTXOKey = "hash32 \<times> u32"

definition utxo_key :: "UTXO \<Rightarrow> UTXOKey" where
  "utxo_key u = (u_TxHash u, u_OutputIndex u)"

definition isProtocolLockedUTXO :: "UTXO option \<Rightarrow> bool" where
  "isProtocolLockedUTXO u = (case u of None \<Rightarrow> False | Some u \<Rightarrow> u_ProtocolLocked u)"

definition maxSpentDecoys :: nat where "maxSpentDecoys = 10000"
definition maxCLSAGRecentOutputs :: nat where "maxCLSAGRecentOutputs = 100000"
definition maxRollbackDepth :: nat where "maxRollbackDepth = 256"

record rollbackEntry =
  re_ringMember :: point32
  re_utxo :: UTXO

record 'd UTXOSet =
  us_utxos :: "UTXOKey \<rightharpoonup> UTXO"
  us_keyImages :: "'d compactKeyImageSet"
  us_byPubKey :: "point32 \<rightharpoonup> UTXO"
  us_stakedUTXOs :: "UTXOKey \<rightharpoonup> UTXO"
  us_spentPubKeys :: "point32 \<rightharpoonup> UTXO"
  us_rollbackJournal :: "u64 \<rightharpoonup> rollbackEntry list"
  us_clsagActivationHeight :: u64
  us_clsagRecentOutputs :: "UTXOKey list"
  us_spentCalls :: "UTXOKey list"

definition NewUTXOSetWithDB :: "'d option \<Rightarrow> 'd UTXOSet" where
  "NewUTXOSetWithDB kiDB = \<lparr>us_utxos = Map.empty,
     us_keyImages = \<lparr>ki_sorted = [], ki_recent = {}, ki_DB = kiDB\<rparr>,
     us_byPubKey = Map.empty, us_stakedUTXOs = Map.empty, us_spentPubKeys = Map.empty,
     us_rollbackJournal = Map.empty, us_clsagActivationHeight = 0, us_clsagRecentOutputs = [],
     us_spentCalls = []\<rparr>"

definition SetCLSAGActivationHeight :: "u64 \<Rightarrow> 'd UTXOSet \<Rightarrow> 'd UTXOSet" where
  "SetCLSAGActivationHeight height s = s\<lparr>us_clsagActivationHeight := height\<rparr>"

subsection \<open>Single outputs\<close>

definition trackCLSAGRecentLocked :: "UTXOKey \<Rightarrow> u64 \<Rightarrow> 'd UTXOSet \<Rightarrow> 'd UTXOSet" where
  "trackCLSAGRecentLocked key height s =
     (if isProtocolLockedUTXO (us_utxos s key) then s
      else if us_clsagActivationHeight s = 0 \<or> height < us_clsagActivationHeight s then s
      else let recent = us_clsagRecentOutputs s @ [key] in
        if length recent \<le> maxCLSAGRecentOutputs then s\<lparr>us_clsagRecentOutputs := recent\<rparr>
        else let oldest = hd recent; s = s\<lparr>us_clsagRecentOutputs := tl recent\<rparr> in
          case us_utxos s oldest of
            None \<Rightarrow> s
          | Some old \<Rightarrow> s\<lparr>us_byPubKey := (us_byPubKey s)(u_OneTimePub old := None),
                         us_utxos := (us_utxos s)(oldest := None)\<rparr>)"

definition Add :: "UTXO \<Rightarrow> 'd UTXOSet \<Rightarrow> 'd UTXOSet" where
  "Add u s =
     (let key = utxo_key u;
          s = s\<lparr>us_utxos := (us_utxos s)(key \<mapsto> u)\<rparr>;
          s = (if u_ProtocolLocked u then s else s\<lparr>us_byPubKey := (us_byPubKey s)(u_OneTimePub u \<mapsto> u)\<rparr>)
      in trackCLSAGRecentLocked key (u_BlockHeight u) s)"

definition Get :: "'d UTXOSet \<Rightarrow> hash32 \<Rightarrow> u32 \<Rightarrow> UTXO option" where
  "Get s txHash outIdx = us_utxos s (txHash, outIdx)"

definition GetByPubKey :: "'d UTXOSet \<Rightarrow> point32 \<Rightarrow> UTXO option" where
  "GetByPubKey s pub = us_byPubKey s pub"

text \<open>\<open>store\<close> is the persistent ring-member index, \<open>None\<close> when there is none; its lookup returns a
  record or nothing, and an error.\<close>

definition GetRingMember :: "(point32 \<Rightarrow> string + UTXO option) option \<Rightarrow> 'd UTXOSet \<Rightarrow> point32 \<Rightarrow> UTXO option" where
  "GetRingMember store s pub =
     (if us_byPubKey s pub \<noteq> None \<and> \<not> isProtocolLockedUTXO (us_byPubKey s pub) then us_byPubKey s pub
      else if us_spentPubKeys s pub \<noteq> None \<and> \<not> isProtocolLockedUTXO (us_spentPubKeys s pub) then us_spentPubKeys s pub
      else case store of
        None \<Rightarrow> None
      | Some lookup \<Rightarrow>
          (case lookup pub of Inl _ \<Rightarrow> None
           | Inr u \<Rightarrow> if isProtocolLockedUTXO u then None else u))"

definition Remove :: "hash32 \<Rightarrow> u32 \<Rightarrow> 'd UTXOSet \<Rightarrow> 'd UTXOSet" where
  "Remove txHash outIdx s =
     (let k = (txHash, outIdx);
          s = (case us_utxos s k of None \<Rightarrow> s
               | Some u \<Rightarrow> s\<lparr>us_byPubKey := (us_byPubKey s)(u_OneTimePub u := None)\<rparr>)
      in s\<lparr>us_utxos := (us_utxos s)(k := None)\<rparr>)"

subsection \<open>Key images\<close>

definition ClearKeyImages :: "'d UTXOSet \<Rightarrow> 'd UTXOSet" where
  "ClearKeyImages s = s\<lparr>us_keyImages := \<lparr>ki_sorted = [], ki_recent = {}, ki_DB = ki_DB (us_keyImages s)\<rparr>\<rparr>"

definition MarkSpent :: "lib \<Rightarrow> 'd leveldb \<Rightarrow> key_image \<Rightarrow> 'd UTXOSet \<Rightarrow> 'd UTXOSet" where
  "MarkSpent K L ki s =
     (case canonical_key_image K ki of
        None \<Rightarrow> s\<lparr>us_keyImages := ki_insert K L (us_keyImages s) ki\<rparr>
      | Some canonical \<Rightarrow> s\<lparr>us_keyImages := ki_insert K L (us_keyImages s) canonical\<rparr>)"

definition IsSpent :: "lib \<Rightarrow> 'd leveldb \<Rightarrow> 'd UTXOSet \<Rightarrow> key_image \<Rightarrow> bool" where
  "IsSpent K L s ki =
     (case canonical_key_image K ki of
        None \<Rightarrow> ki_contains K L (us_keyImages s) ki
      | Some canonical \<Rightarrow> ki_contains K L (us_keyImages s) canonical)"

datatype ki_error = KiInvalid | KiStore string

definition HasSpentKeyImage :: "lib \<Rightarrow> 'd leveldb \<Rightarrow> 'd UTXOSet \<Rightarrow> key_image \<Rightarrow> bool \<times> ki_error option" where
  "HasSpentKeyImage K L s ki =
     (case canonical_key_image K ki of
        None \<Rightarrow> (False, Some KiInvalid)
      | Some canonical \<Rightarrow>
          if ki_contains K L (us_keyImages s) canonical then (True, None)
          else case ki_DB (us_keyImages s) of
            Some d \<Rightarrow> (case IsKeyImageSpent K L d canonical of (b, e) \<Rightarrow> (b, map_option KiStore e))
          | None \<Rightarrow> (False, None))"

definition ClearPhantomSpent :: "lib \<Rightarrow> 'd leveldb \<Rightarrow> key_image \<Rightarrow> 'd UTXOSet \<Rightarrow> 'd UTXOSet \<times> (string + bool)" where
  "ClearPhantomSpent K L ki s =
     (let ki = (case canonical_key_image K ki of None \<Rightarrow> ki | Some canonical \<Rightarrow> canonical);
          c = us_keyImages s in
      if ki \<in> ki_recent c then (s, Inr False)
      else case ki_DB c of
        Some d \<Rightarrow>
          (case DeleteKeyImage K L d ki of
             (d', Some e) \<Rightarrow> (s\<lparr>us_keyImages := c\<lparr>ki_DB := Some d'\<rparr>\<rparr>, Inl e)
           | (d', None) \<Rightarrow> (s\<lparr>us_keyImages := c\<lparr>ki_DB := Some d'\<rparr>\<rparr>, Inr True))
      | None \<Rightarrow> (s\<lparr>us_keyImages := ki_remove K L c ki\<rparr>, Inr True))"

subsection \<open>Block application, pass 1\<close>

datatype apply_error =
    StakeDecode stake_codec_error
  | StakeKeyImageInvalid
  | StakeKeyImageSpent
  | StakeKeyImageReused nat nat
  | RealIndexOut nat
  | KeyImageInvalid nat
  | SpentHistorically
  | SpentWithinBlock nat nat
  | RealMemberInactive nat nat
  | RealMemberCommitment nat nat
  | RingAlreadyConsumed nat nat UTXOKey
  | RingNoMatch nat nat
  | ConsumedBy nat nat UTXOKey nat

text \<open>Key images seen in the block and outputs it consumes, each with the index of the transaction.\<close>

record pass1 =
  p1_seen :: "key_image \<rightharpoonup> nat"
  p1_consumed :: "UTXOKey \<rightharpoonup> nat"

fun scan_ring :: "(point32 \<rightharpoonup> UTXO) \<Rightarrow> (UTXOKey \<rightharpoonup> nat) \<Rightarrow> commitment \<Rightarrow> point32 list \<Rightarrow> UTXO option
    \<Rightarrow> UTXO option \<times> UTXO option" where
  "scan_ring byPub consumed c [] alreadyReserved = (None, alreadyReserved)"
| "scan_ring byPub consumed c (member # ring) alreadyReserved =
     (case byPub member of
        None \<Rightarrow> scan_ring byPub consumed c ring alreadyReserved
      | Some candidate \<Rightarrow>
          if u_AmountCommit candidate = c then
            (if consumed (utxo_key candidate) \<noteq> None
             then scan_ring byPub consumed c ring (Some candidate)
             else (Some candidate, alreadyReserved))
          else scan_ring byPub consumed c ring alreadyReserved)"

definition resolve_input :: "'d UTXOSet \<Rightarrow> (UTXOKey \<rightharpoonup> nat) \<Rightarrow> Transaction \<Rightarrow> nat \<Rightarrow> nat \<Rightarrow> RingInput
    \<Rightarrow> apply_error + UTXO" where
  "resolve_input s consumed tx txIdx inputIdx inp =
     (if tx_Version tx = TxVersionCommitmentBinding then
        (case us_byPubKey s (in_Ring inp ! unat (in_RealIndex inp)) of
           None \<Rightarrow> Inl (RealMemberInactive txIdx inputIdx)
         | Some u \<Rightarrow> if u_AmountCommit u \<noteq> in_AmountCommit inp then Inl (RealMemberCommitment txIdx inputIdx)
                     else Inr u)
      else case scan_ring (us_byPubKey s) consumed (in_AmountCommit inp) (in_Ring inp) None of
        (Some u, _) \<Rightarrow> Inr u
      | (None, Some r) \<Rightarrow> Inl (RingAlreadyConsumed txIdx inputIdx (utxo_key r))
      | (None, None) \<Rightarrow> Inl (RingNoMatch txIdx inputIdx))"

definition check_input :: "lib \<Rightarrow> 'd leveldb \<Rightarrow> 'd UTXOSet \<Rightarrow> Transaction \<Rightarrow> nat \<Rightarrow> nat \<times> RingInput \<Rightarrow> pass1
    \<Rightarrow> apply_error + pass1" where
  "check_input K L s tx txIdx iinp p =
     (case iinp of (inputIdx, inp) \<Rightarrow>
      if tx_Version tx = TxVersionCommitmentBinding \<and> length (in_Ring inp) \<le> unat (in_RealIndex inp)
        then Inl (RealIndexOut txIdx)
      else case canonical_key_image K (in_KeyImage inp) of
        None \<Rightarrow> Inl (KeyImageInvalid txIdx)
      | Some canonical \<Rightarrow>
          if ki_contains K L (us_keyImages s) canonical then Inl SpentHistorically
          else case p1_seen p canonical of
            Some firstIdx \<Rightarrow> Inl (SpentWithinBlock firstIdx txIdx)
          | None \<Rightarrow>
              let p = p\<lparr>p1_seen := (p1_seen p)(canonical \<mapsto> txIdx)\<rparr> in
              if UsesCLSAG tx then Inr p
              else case resolve_input s (p1_consumed p) tx txIdx inputIdx inp of
                Inl e \<Rightarrow> Inl e
              | Inr u \<Rightarrow>
                  (case p1_consumed p (utxo_key u) of
                     Some firstIdx \<Rightarrow> Inl (ConsumedBy txIdx inputIdx (utxo_key u) firstIdx)
                   | None \<Rightarrow> Inr (p\<lparr>p1_consumed := (p1_consumed p)(utxo_key u \<mapsto> txIdx)\<rparr>)))"

definition stake_v4_tx :: "Transaction \<Rightarrow> bool" where
  "stake_v4_tx tx \<longleftrightarrow> IsStake tx \<and> length (tx_Extra tx) = StakePayloadSizeV4"

definition check_stake_image :: "lib \<Rightarrow> 'd leveldb \<Rightarrow> 'd UTXOSet \<Rightarrow> nat \<Rightarrow> Transaction \<Rightarrow> pass1
    \<Rightarrow> apply_error + pass1" where
  "check_stake_image K L s txIdx tx p =
     (case DecodeStakeExtraV4 (tx_Extra tx) of
        Inl e \<Rightarrow> Inl (StakeDecode e)
      | Inr sp \<Rightarrow>
          case canonical_key_image K (sp_KeyImage sp) of
            None \<Rightarrow> Inl StakeKeyImageInvalid
          | Some canonical \<Rightarrow>
              if ki_contains K L (us_keyImages s) canonical then Inl StakeKeyImageSpent
              else case p1_seen p canonical of
                Some firstIdx \<Rightarrow> Inl (StakeKeyImageReused firstIdx txIdx)
              | None \<Rightarrow> Inr (p\<lparr>p1_seen := (p1_seen p)(canonical \<mapsto> txIdx)\<rparr>))"

definition check_tx :: "lib \<Rightarrow> 'd leveldb \<Rightarrow> 'd UTXOSet \<Rightarrow> nat \<times> Transaction \<Rightarrow> pass1 \<Rightarrow> apply_error + pass1" where
  "check_tx K L s itx p =
     (case itx of (txIdx, tx) \<Rightarrow>
      if stake_v4_tx tx then check_stake_image K L s txIdx tx p
      else if IsCoinbase tx \<or> IsStake tx then Inr p
      else foldE (check_input K L s tx txIdx) (enumerate 0 (tx_Inputs tx)) p)"

definition check_block :: "lib \<Rightarrow> 'd leveldb \<Rightarrow> 'd UTXOSet \<Rightarrow> Transaction list \<Rightarrow> apply_error + pass1" where
  "check_block K L s txs =
     foldE (check_tx K L s) (enumerate 0 txs) \<lparr>p1_seen = Map.empty, p1_consumed = Map.empty\<rparr>"

subsection \<open>Block application, pass 2\<close>

definition stateTransitionRingMembers :: "Transaction \<Rightarrow> RingInput \<Rightarrow> point32 list" where
  "stateTransitionRingMembers tx inp =
     (if IsLPoDPosition tx then (if in_Ring inp = [] then [] else take 1 (in_Ring inp))
      else if tx_Version tx \<noteq> TxVersionCommitmentBinding then in_Ring inp
      else let idx = unat (in_RealIndex inp) in
        if length (in_Ring inp) \<le> idx then [] else [in_Ring inp ! idx])"

definition journal_append :: "u64 \<Rightarrow> rollbackEntry \<Rightarrow> (u64 \<rightharpoonup> rollbackEntry list) \<Rightarrow> (u64 \<rightharpoonup> rollbackEntry list)" where
  "journal_append height e j =
     (let j = j(height \<mapsto> (case j height of None \<Rightarrow> [] | Some es \<Rightarrow> es) @ [e]) in
      if maxRollbackDepth < card (dom j) then j(Min (insert max_u64 (dom j)) := None) else j)"

definition spend_member :: "u64 \<Rightarrow> point32 \<Rightarrow> UTXO \<Rightarrow> 'd UTXOSet \<Rightarrow> 'd UTXOSet" where
  "spend_member height member u s =
     s\<lparr>us_byPubKey := (us_byPubKey s)(member := None),
       us_utxos := (us_utxos s)(utxo_key u := None),
       us_spentCalls := us_spentCalls s @ [utxo_key u],
       us_rollbackJournal := journal_append height \<lparr>re_ringMember = member, re_utxo = u\<rparr> (us_rollbackJournal s),
       us_spentPubKeys := (if card (dom (us_spentPubKeys s)) < maxSpentDecoys
         then (us_spentPubKeys s)(member \<mapsto> u) else us_spentPubKeys s)\<rparr>"

fun spend_ring :: "u64 \<Rightarrow> commitment \<Rightarrow> point32 list \<Rightarrow> 'd UTXOSet \<Rightarrow> 'd UTXOSet" where
  "spend_ring height c [] s = s"
| "spend_ring height c (member # ring) s =
     (case us_byPubKey s member of
        None \<Rightarrow> spend_ring height c ring s
      | Some u \<Rightarrow> if u_AmountCommit u = c then spend_member height member u s
                  else spend_ring height c ring s)"

definition apply_input :: "lib \<Rightarrow> 'd leveldb \<Rightarrow> u64 \<Rightarrow> Transaction \<Rightarrow> 'd UTXOSet \<Rightarrow> RingInput \<Rightarrow> 'd UTXOSet" where
  "apply_input K L height tx s inp =
     (let s = (case canonical_key_image K (in_KeyImage inp) of
                 Some canonical \<Rightarrow> s\<lparr>us_keyImages := ki_insert K L (us_keyImages s) canonical\<rparr>
               | None \<Rightarrow> s\<lparr>us_keyImages := ki_insert K L (us_keyImages s) (in_KeyImage inp)\<rparr>)
      in if UsesCLSAG tx then s
         else spend_ring height (in_AmountCommit inp) (stateTransitionRingMembers tx inp) s)"

definition apply_stake_image :: "lib \<Rightarrow> 'd leveldb \<Rightarrow> Transaction \<Rightarrow> 'd UTXOSet \<Rightarrow> 'd UTXOSet" where
  "apply_stake_image K L tx s =
     (if stake_v4_tx tx then
        (case DecodeStakeExtraV4 (tx_Extra tx) of
           Inl _ \<Rightarrow> s
         | Inr sp \<Rightarrow> (case canonical_key_image K (sp_KeyImage sp) of
             None \<Rightarrow> s
           | Some canonical \<Rightarrow> s\<lparr>us_keyImages := ki_insert K L (us_keyImages s) canonical\<rparr>))
      else s)"

definition new_utxo :: "lib \<Rightarrow> u64 \<Rightarrow> Transaction \<Rightarrow> nat \<Rightarrow> TxOutput \<Rightarrow> UTXO" where
  "new_utxo K height tx i out =
     \<lparr>u_TxHash = tx_Hash K tx, u_OutputIndex = word_of_nat i, u_OneTimePub = out_OneTimePub out,
      u_TxPubKey = out_TxPubKey out, u_AmountCommit = out_AmountCommit out,
      u_EncAmount = out_EncAmount out, u_BlockHeight = height, u_ProtocolLocked = IsGuardianFund tx\<rparr>"

definition apply_output :: "lib \<Rightarrow> u64 \<Rightarrow> Transaction \<Rightarrow> 'd UTXOSet \<Rightarrow> nat \<times> TxOutput \<Rightarrow> 'd UTXOSet" where
  "apply_output K height tx s iout =
     (case iout of (i, out) \<Rightarrow>
      let u = new_utxo K height tx i out; key = utxo_key u;
          s = s\<lparr>us_utxos := (us_utxos s)(key \<mapsto> u)\<rparr>;
          s = (if u_ProtocolLocked u then s else s\<lparr>us_byPubKey := (us_byPubKey s)(out_OneTimePub out \<mapsto> u)\<rparr>)
      in trackCLSAGRecentLocked key height s)"

definition apply_tx :: "lib \<Rightarrow> 'd leveldb \<Rightarrow> u64 \<Rightarrow> 'd UTXOSet \<Rightarrow> Transaction \<Rightarrow> 'd UTXOSet" where
  "apply_tx K L height s tx =
     (let s = foldl (apply_input K L height tx) s (tx_Inputs tx);
          s = apply_stake_image K L tx s
      in foldl (apply_output K height tx) s (enumerate 0 (tx_Outputs tx)))"

definition applyTxsLocked :: "lib \<Rightarrow> 'd leveldb \<Rightarrow> Block \<Rightarrow> 'd UTXOSet \<Rightarrow> 'd UTXOSet" where
  "applyTxsLocked K L block s = foldl (apply_tx K L (bh_Height (blk_Header block))) s (blk_Txs block)"

definition ApplyBlock :: "lib \<Rightarrow> 'd leveldb \<Rightarrow> Block \<Rightarrow> 'd UTXOSet \<Rightarrow> apply_error + 'd UTXOSet" where
  "ApplyBlock K L block s =
     (case check_block K L s (blk_Txs block) of
        Inl e \<Rightarrow> Inl e
      | Inr _ \<Rightarrow> Inr (applyTxsLocked K L block s))"

definition ReplayBlockKnownSpends :: "lib \<Rightarrow> 'd leveldb \<Rightarrow> Block \<Rightarrow> 'd UTXOSet \<Rightarrow> 'd UTXOSet" where
  "ReplayBlockKnownSpends K L block s = applyTxsLocked K L block s"

text \<open>The rebuild of the decoy pool after a restart moves spent members without journal or callback.\<close>

fun decoy_ring :: "commitment \<Rightarrow> point32 list \<Rightarrow> 'd UTXOSet \<Rightarrow> 'd UTXOSet" where
  "decoy_ring c [] s = s"
| "decoy_ring c (member # ring) s =
     (case us_byPubKey s member of
        None \<Rightarrow> decoy_ring c ring s
      | Some u \<Rightarrow>
          if u_AmountCommit u = c then
            s\<lparr>us_byPubKey := (us_byPubKey s)(member := None),
              us_utxos := (us_utxos s)(utxo_key u := None),
              us_spentPubKeys := (if card (dom (us_spentPubKeys s)) < maxSpentDecoys
                then (us_spentPubKeys s)(member \<mapsto> u) else us_spentPubKeys s)\<rparr>
          else decoy_ring c ring s)"

definition ApplyBlockForSpentDecoys :: "Block \<Rightarrow> 'd UTXOSet \<Rightarrow> 'd UTXOSet" where
  "ApplyBlockForSpentDecoys block s =
     foldl (\<lambda>s tx. if UsesCLSAG tx then s
       else foldl (\<lambda>s inp. decoy_ring (in_AmountCommit inp) (stateTransitionRingMembers tx inp) s) s (tx_Inputs tx))
       s (blk_Txs block)"

subsection \<open>Rollback\<close>

text \<open>The state of the rollback: the set, the ring members restored from the journal, and the keys
  whose restoration and deletion is reported to the persistent index.\<close>

record 'd rollback =
  rb_set :: "'d UTXOSet"
  rb_restoredKeys :: "UTXOKey list"
  rb_deletedKeys :: "UTXOKey list"

definition restore_entry :: "rollbackEntry \<Rightarrow> 'd UTXOSet \<Rightarrow> 'd UTXOSet" where
  "restore_entry e s =
     s\<lparr>us_utxos := (us_utxos s)(utxo_key (re_utxo e) \<mapsto> re_utxo e),
       us_byPubKey := (us_byPubKey s)(re_ringMember e \<mapsto> re_utxo e),
       us_spentPubKeys := (us_spentPubKeys s)(re_ringMember e := None)\<rparr>"

fun fallback_ring :: "point32 set \<Rightarrow> commitment \<Rightarrow> point32 list \<Rightarrow> 'd rollback \<Rightarrow> 'd rollback" where
  "fallback_ring journalRestored c [] r = r"
| "fallback_ring journalRestored c (member # ring) r =
     (if member \<in> journalRestored then r
      else case us_spentPubKeys (rb_set r) member of
        None \<Rightarrow> fallback_ring journalRestored c ring r
      | Some u \<Rightarrow>
          if u_AmountCommit u = c then
            r\<lparr>rb_set := (rb_set r)\<lparr>
                us_spentPubKeys := (us_spentPubKeys (rb_set r))(member := None),
                us_byPubKey := (us_byPubKey (rb_set r))(member \<mapsto> u),
                us_utxos := (us_utxos (rb_set r))(utxo_key u \<mapsto> u)\<rparr>,
              rb_restoredKeys := rb_restoredKeys r @ [utxo_key u]\<rparr>
          else fallback_ring journalRestored c ring r)"

definition rollback_output :: "lib \<Rightarrow> Transaction \<Rightarrow> 'd rollback \<Rightarrow> nat \<times> TxOutput \<Rightarrow> 'd rollback" where
  "rollback_output K tx r iout =
     (case iout of (i, out) \<Rightarrow>
      let key = (tx_Hash K tx, word_of_nat i) in
      r\<lparr>rb_set := (rb_set r)\<lparr>us_utxos := (us_utxos (rb_set r))(key := None),
          us_byPubKey := (us_byPubKey (rb_set r))(out_OneTimePub out := None)\<rparr>,
        rb_deletedKeys := rb_deletedKeys r @ [key]\<rparr>)"

definition rollback_image :: "lib \<Rightarrow> 'd leveldb \<Rightarrow> key_image \<Rightarrow> 'd rollback \<Rightarrow> 'd rollback" where
  "rollback_image K L ki r =
     r\<lparr>rb_set := (rb_set r)\<lparr>us_keyImages := ki_remove K L (us_keyImages (rb_set r)) ki\<rparr>\<rparr>"

definition rollback_input :: "lib \<Rightarrow> 'd leveldb \<Rightarrow> point32 set \<Rightarrow> Transaction \<Rightarrow> 'd rollback \<Rightarrow> RingInput
    \<Rightarrow> 'd rollback" where
  "rollback_input K L journalRestored tx r inp =
     (let r = (case canonical_key_image K (in_KeyImage inp) of
                 Some canonical \<Rightarrow> rollback_image K L canonical r
               | None \<Rightarrow> rollback_image K L (in_KeyImage inp) r)
      in fallback_ring journalRestored (in_AmountCommit inp) (stateTransitionRingMembers tx inp) r)"

definition rollback_stake_image :: "lib \<Rightarrow> 'd leveldb \<Rightarrow> Transaction \<Rightarrow> 'd rollback \<Rightarrow> 'd rollback" where
  "rollback_stake_image K L tx r =
     (if stake_v4_tx tx then
        (case DecodeStakeExtraV4 (tx_Extra tx) of
           Inl _ \<Rightarrow> r
         | Inr sp \<Rightarrow> (case canonical_key_image K (sp_KeyImage sp) of
             None \<Rightarrow> r
           | Some canonical \<Rightarrow> rollback_image K L canonical r))
      else r)"

definition rollback_tx :: "lib \<Rightarrow> 'd leveldb \<Rightarrow> point32 set \<Rightarrow> 'd rollback \<Rightarrow> Transaction \<Rightarrow> 'd rollback" where
  "rollback_tx K L journalRestored r tx =
     (let r = foldl (rollback_output K tx) r (enumerate 0 (tx_Outputs tx));
          r = foldl (rollback_input K L journalRestored tx) r (tx_Inputs tx)
      in rollback_stake_image K L tx r)"

definition rollback_entries :: "Block \<Rightarrow> 'd UTXOSet \<Rightarrow> rollbackEntry list" where
  "rollback_entries block s =
     (case us_rollbackJournal s (bh_Height (blk_Header block)) of None \<Rightarrow> [] | Some es \<Rightarrow> es)"

definition rollback_state :: "lib \<Rightarrow> 'd leveldb \<Rightarrow> Block \<Rightarrow> 'd UTXOSet \<Rightarrow> 'd rollback" where
  "rollback_state K L block s =
     (let height = bh_Height (blk_Header block); es = rollback_entries block s;
          s = fold restore_entry es s;
          s = s\<lparr>us_rollbackJournal := (us_rollbackJournal s)(height := None)\<rparr>
      in foldl (rollback_tx K L (re_ringMember ` set es))
           \<lparr>rb_set = s, rb_restoredKeys = map (utxo_key \<circ> re_utxo) es, rb_deletedKeys = []\<rparr> (blk_Txs block))"

text \<open>Every inverse update is attempted and the first error is reported; an absent callback is the
  one that never fails.\<close>

fun first_failure :: "(UTXOKey \<Rightarrow> string option) \<Rightarrow> UTXOKey list \<Rightarrow> (UTXOKey \<times> string) option" where
  "first_failure cb [] = None"
| "first_failure cb (k # ks) = (case cb k of Some e \<Rightarrow> Some (k, e) | None \<Rightarrow> first_failure cb ks)"

definition RollbackBlock :: "lib \<Rightarrow> 'd leveldb \<Rightarrow> (UTXOKey \<Rightarrow> string option) \<Rightarrow> (UTXOKey \<Rightarrow> string option)
    \<Rightarrow> Block \<Rightarrow> 'd UTXOSet \<Rightarrow> 'd UTXOSet \<times> (UTXOKey \<times> string) option" where
  "RollbackBlock K L onRestored onDeleted block s =
     (let r = rollback_state K L block s in
      (rb_set r,
       case first_failure onRestored (rb_restoredKeys r) of
         Some e \<Rightarrow> Some e
       | None \<Rightarrow> first_failure onDeleted (rb_deletedKeys r)))"

subsection \<open>Staked outputs\<close>

datatype staked_error = AlreadyStaked | NotActive

definition MarkStaked :: "hash32 \<Rightarrow> u32 \<Rightarrow> 'd UTXOSet \<Rightarrow> staked_error + 'd UTXOSet" where
  "MarkStaked txHash outIdx s =
     (let k = (txHash, outIdx) in
      if us_stakedUTXOs s k \<noteq> None then Inl AlreadyStaked
      else case us_utxos s k of
        None \<Rightarrow> Inl NotActive
      | Some u \<Rightarrow> Inr (s\<lparr>us_byPubKey := (us_byPubKey s)(u_OneTimePub u := None),
                         us_utxos := (us_utxos s)(k := None),
                         us_stakedUTXOs := (us_stakedUTXOs s)(k \<mapsto> u)\<rparr>))"

definition MarkStakedKnown :: "hash32 \<Rightarrow> u32 \<Rightarrow> UTXO \<Rightarrow> 'd UTXOSet \<Rightarrow> 'd UTXOSet" where
  "MarkStakedKnown txHash outIdx u s =
     (let k = (txHash, outIdx) in
      if us_stakedUTXOs s k \<noteq> None then s
      else case us_utxos s k of
        Some existing \<Rightarrow> s\<lparr>us_byPubKey := (us_byPubKey s)(u_OneTimePub existing := None),
                           us_utxos := (us_utxos s)(k := None),
                           us_stakedUTXOs := (us_stakedUTXOs s)(k \<mapsto> existing)\<rparr>
      | None \<Rightarrow> s\<lparr>us_stakedUTXOs := (us_stakedUTXOs s)(k \<mapsto> u)\<rparr>)"

definition UnmarkStaked :: "hash32 \<Rightarrow> u32 \<Rightarrow> 'd UTXOSet \<Rightarrow> 'd UTXOSet" where
  "UnmarkStaked txHash outIdx s =
     (let k = (txHash, outIdx) in
      case us_stakedUTXOs s k of
        None \<Rightarrow> s
      | Some u \<Rightarrow> s\<lparr>us_stakedUTXOs := (us_stakedUTXOs s)(k := None),
                    us_utxos := (us_utxos s)(k \<mapsto> u),
                    us_byPubKey := (us_byPubKey s)(u_OneTimePub u \<mapsto> u)\<rparr>)"

definition IsStaked :: "'d UTXOSet \<Rightarrow> hash32 \<Rightarrow> u32 \<Rightarrow> bool" where
  "IsStaked s txHash outIdx \<longleftrightarrow> us_stakedUTXOs s (txHash, outIdx) \<noteq> None"

section \<open>Key images are used once\<close>

text \<open>The key images that pass 1 checks and those that pass 2 records, in stored form.  Of a stake transaction pass 1
  looks only at the image in the payload of a V4 deposit; the images of its inputs, if it has any, are recorded unchecked.\<close>

definition input_images :: "lib \<Rightarrow> Transaction \<Rightarrow> key_image list" where
  "input_images K tx = map (\<lambda>inp. ki_norm K (in_KeyImage inp)) (tx_Inputs tx)"

definition stake_images :: "lib \<Rightarrow> Transaction \<Rightarrow> key_image list" where
  "stake_images K tx =
     (if stake_v4_tx tx then
        (case DecodeStakeExtraV4 (tx_Extra tx) of
           Inl _ \<Rightarrow> []
         | Inr sp \<Rightarrow> (case canonical_key_image K (sp_KeyImage sp) of None \<Rightarrow> [] | Some c \<Rightarrow> [c]))
      else [])"

definition checked_images :: "lib \<Rightarrow> Transaction \<Rightarrow> key_image list" where
  "checked_images K tx =
     (if stake_v4_tx tx then stake_images K tx
      else if IsCoinbase tx \<or> IsStake tx then []
      else input_images K tx)"

definition block_images :: "lib \<Rightarrow> Block \<Rightarrow> key_image list" where
  "block_images K b = concat (map (checked_images K) (blk_Txs b))"

definition recorded_images :: "lib \<Rightarrow> Block \<Rightarrow> key_image list" where
  "recorded_images K b = concat (map (\<lambda>tx. input_images K tx @ stake_images K tx) (blk_Txs b))"

lemma concat_map_enumerate: "concat (map (\<lambda>(i, x). f x) (enumerate n xs)) = concat (map f xs)"
  by (induction xs arbitrary: n) auto

lemma checked_recorded: "set (checked_images K tx) \<subseteq> set (input_images K tx @ stake_images K tx)"
  by (auto simp: checked_images_def)

lemma block_images_recorded: "set (block_images K b) \<subseteq> set (recorded_images K b)"
  using checked_recorded by (fastforce simp: block_images_def recorded_images_def)

interpretation input_pass: one_shot "check_input K L s tx i" "\<lambda>_. True"
  "\<lambda>p k. p1_seen p k \<noteq> None \<or> ki_contains K L (us_keyImages s) k"
  "\<lambda>(j, inp). [ki_norm K (in_KeyImage inp)]"
  by unfold_locales
    (auto simp: check_input_def ki_norm_def Let_def split: if_splits option.splits sum.splits prod.splits)

lemma check_tx_fresh:
  assumes "check_tx K L s itx p = Inr p'"
  shows "distinct (checked_images K (snd itx)) \<and>
    (\<forall>k \<in> set (checked_images K (snd itx)). \<not> (p1_seen p k \<noteq> None \<or> ki_contains K L (us_keyImages s) k) \<and>
       (p1_seen p' k \<noteq> None \<or> ki_contains K L (us_keyImages s) k)) \<and>
    (\<forall>k. p1_seen p k \<noteq> None \<longrightarrow> p1_seen p' k \<noteq> None \<or> ki_contains K L (us_keyImages s) k)"
proof (cases itx)
  case (Pair i tx)
  show ?thesis
  proof (cases "stake_v4_tx tx \<or> IsCoinbase tx \<or> IsStake tx")
    case True
    then show ?thesis using assms Pair
      by (auto simp: check_tx_def check_stake_image_def checked_images_def stake_images_def
        split: if_splits option.splits sum.splits)
  next
    case False
    with assms Pair have run: "foldE (check_input K L s tx i) (enumerate 0 (tx_Inputs tx)) p = Inr p'"
      by (simp add: check_tx_def)
    have "concat (map (\<lambda>(j, inp). [ki_norm K (in_KeyImage inp)]) (enumerate 0 (tx_Inputs tx))) = input_images K tx"
      by (simp add: concat_map_enumerate input_images_def concat_map_singleton)
    with input_pass.run_distinct [OF _ run] input_pass.run_keeps [OF _ run] False Pair show ?thesis
      by (auto simp: checked_images_def)
  qed
qed

interpretation tx_pass: one_shot "check_tx K L s" "\<lambda>_. True"
  "\<lambda>p k. p1_seen p k \<noteq> None \<or> ki_contains K L (us_keyImages s) k" "\<lambda>itx. checked_images K (snd itx)"
proof
  fix p itx p' k
  assume "check_tx K L s itx p = Inr p'"
  from check_tx_fresh [OF this]
  show "distinct (checked_images K (snd itx)) \<and> (\<forall>k \<in> set (checked_images K (snd itx)).
      \<not> (p1_seen p k \<noteq> None \<or> ki_contains K L (us_keyImages s) k) \<and>
      (p1_seen p' k \<noteq> None \<or> ki_contains K L (us_keyImages s) k))" by blast
  show "p1_seen p k \<noteq> None \<or> ki_contains K L (us_keyImages s) k \<Longrightarrow>
      p1_seen p' k \<noteq> None \<or> ki_contains K L (us_keyImages s) k"
    using check_tx_fresh [OF \<open>check_tx K L s itx p = Inr p'\<close>] by blast
qed simp

lemma check_block_fresh:
  assumes "check_block K L s (blk_Txs b) = Inr p"
  shows "distinct (block_images K b) \<and> (\<forall>k \<in> set (block_images K b). \<not> ki_contains K L (us_keyImages s) k)"
proof -
  have "concat (map (\<lambda>itx. checked_images K (snd itx)) (enumerate 0 (blk_Txs b))) = block_images K b"
    using concat_map_enumerate [of "checked_images K" 0 "blk_Txs b"]
    by (simp add: block_images_def case_prod_beta' comp_def)
  with tx_pass.run_distinct [OF _ assms [unfolded check_block_def]] show ?thesis by auto
qed

text \<open>Pass 2 touches the key images only by recording those of the block.\<close>

lemma spend_ring_images [simp]: "us_keyImages (spend_ring h c ring s) = us_keyImages s"
  by (induction ring) (auto simp: spend_member_def split: option.splits)

lemma track_images [simp]: "us_keyImages (trackCLSAGRecentLocked k h s) = us_keyImages s"
  by (simp add: trackCLSAGRecentLocked_def Let_def split: option.splits)

lemma apply_outputs_images [simp]: "us_keyImages (foldl (apply_output K h tx) s outs) = us_keyImages s"
  by (induction outs arbitrary: s) (auto simp: apply_output_def Let_def)

lemma apply_inputs_images:
  "us_keyImages (foldl (apply_input K L h tx) s inps)
     = foldl (ki_insert K L) (us_keyImages s) (map (\<lambda>inp. ki_norm K (in_KeyImage inp)) inps)"
  by (induction inps arbitrary: s) (auto simp: apply_input_def ki_norm_def Let_def split: option.splits)

lemma apply_tx_images:
  "us_keyImages (apply_tx K L h s tx)
     = foldl (ki_insert K L) (us_keyImages s) (input_images K tx @ stake_images K tx)"
  by (simp add: apply_tx_def apply_inputs_images apply_stake_image_def stake_images_def input_images_def Let_def
      split: sum.splits option.splits)

lemma foldl_concat_map: "foldl (\<lambda>s x. foldl f s (g x)) s xs = foldl f s (concat (map g xs))"
  by (induction xs arbitrary: s) auto

lemma applyTxsLocked_images:
  "us_keyImages (applyTxsLocked K L b s) = foldl (ki_insert K L) (us_keyImages s) (recorded_images K b)"
proof -
  have "us_keyImages (foldl (apply_tx K L h) s txs) = foldl (ki_insert K L) (us_keyImages s)
      (concat (map (\<lambda>tx. input_images K tx @ stake_images K tx) txs))" for h txs
    by (induction txs arbitrary: s) (simp_all add: apply_tx_images)
  then show ?thesis by (simp add: applyTxsLocked_def recorded_images_def)
qed

lemma stake_images_canonical: "k \<in> set (stake_images K tx) \<Longrightarrow> \<exists>ki. canonical_key_image K ki = Some k"
proof (cases "DecodeStakeExtraV4 (tx_Extra tx)")
  case (Inr sp)
  assume k: "k \<in> set (stake_images K tx)"
  then show ?thesis using Inr
    by (cases "stake_v4_tx tx"; cases "canonical_key_image K (sp_KeyImage sp)") (simp_all add: stake_images_def, blast)
next
  case (Inl e)
  assume "k \<in> set (stake_images K tx)"
  then show ?thesis using Inl by (cases "stake_v4_tx tx") (simp_all add: stake_images_def)
qed

lemma stake_images_normal: "canonical_ok K \<Longrightarrow> k \<in> set (stake_images K tx) \<Longrightarrow> ki_normal K k"
  using stake_images_canonical [of k K tx] unfolding canonical_ok_def ki_normal_def by metis

lemma recorded_normal: "canonical_ok K \<Longrightarrow> list_all (ki_normal K) (recorded_images K b)"
  by (auto simp: recorded_images_def input_images_def list_all_iff ki_normal_norm dest: stake_images_normal)

lemma ApplyBlock_images:
  assumes "ki_inv K L V (us_keyImages s)" and "ApplyBlock K L b s = Inr s'"
  shows "ki_inv K L V (us_keyImages s')"
    and "ki_normal K k \<Longrightarrow> ki_contains K L (us_keyImages s') k \<longleftrightarrow>
       k \<in> set (recorded_images K b) \<or> ki_contains K L (us_keyImages s) k"
proof -
  have s': "us_keyImages s' = foldl (ki_insert K L) (us_keyImages s) (recorded_images K b)"
    using assms(2) by (auto simp: ApplyBlock_def applyTxsLocked_images split: sum.splits)
  have n: "list_all (ki_normal K) (recorded_images K b)" using assms(1) recorded_normal by (auto simp: ki_inv_def)
  from ki.adds [OF assms(1) n] show "ki_inv K L V (us_keyImages s')"
    "ki_normal K k \<Longrightarrow> ki_contains K L (us_keyImages s') k \<longleftrightarrow>
       k \<in> set (recorded_images K b) \<or> ki_contains K L (us_keyImages s) k" by (auto simp: s')
qed

text \<open>What a running node does to the key images: accept blocks, and compact in some map order.\<close>

datatype chain_event = AcceptBlock Block | CompactImages "key_image list"

fun chain_step :: "lib \<Rightarrow> 'd leveldb \<Rightarrow> chain_event \<Rightarrow> 'd UTXOSet \<Rightarrow> apply_error option + 'd UTXOSet" where
  "chain_step K L (AcceptBlock b) s = (case ApplyBlock K L b s of Inl e \<Rightarrow> Inl (Some e) | Inr s' \<Rightarrow> Inr s')"
| "chain_step K L (CompactImages ks) s =
     (if distinct ks \<and> set ks = ki_recent (us_keyImages s)
      then Inr (s\<lparr>us_keyImages := fst (CompactKeyImages K L ks (us_keyImages s))\<rparr>) else Inl None)"

fun event_images :: "lib \<Rightarrow> chain_event \<Rightarrow> key_image list" where
  "event_images K (AcceptBlock b) = block_images K b"
| "event_images K (CompactImages ks) = []"

lemma compact_contains:
  assumes "ki_inv K L V c" and "distinct ks" and "set ks = ki_recent c" and "ki_normal K k"
  shows "ki_contains K L (fst (CompactKeyImages K L ks c)) k = ki_contains K L c k"
  using CompactKeyImages_ok [OF assms(1-3)] assms by (simp add: ki_contains_view [of K L V])

interpretation spending: one_shot "chain_step K L" "\<lambda>s. ki_inv K L V (us_keyImages s)"
  "\<lambda>s k. ki_normal K k \<and> ki_contains K L (us_keyImages s) k" "event_images K"
proof
  fix s e s' k
  assume i: "ki_inv K L V (us_keyImages s)" and step: "chain_step K L e s = Inr s'"
  have canon: "canonical_ok K" using i by (simp add: ki_inv_def)
  show "ki_inv K L V (us_keyImages s')"
    using i step ApplyBlock_images(1) [OF i] CompactKeyImages_ok [OF i]
    by (cases e) (auto split: sum.splits if_splits)
  show "distinct (event_images K e) \<and> (\<forall>k \<in> set (event_images K e).
      \<not> (ki_normal K k \<and> ki_contains K L (us_keyImages s) k) \<and> ki_normal K k \<and> ki_contains K L (us_keyImages s') k)"
  proof (cases e)
    case (AcceptBlock b)
    with step have a: "ApplyBlock K L b s = Inr s'" by (auto split: sum.splits)
    then obtain p where "check_block K L s (blk_Txs b) = Inr p" by (auto simp: ApplyBlock_def split: sum.splits)
    with check_block_fresh [OF this] recorded_normal [OF canon, of b] block_images_recorded [of K b]
      ApplyBlock_images(2) [OF i a] AcceptBlock show ?thesis by (auto simp: list_all_iff)
  qed simp
  show "ki_normal K k \<and> ki_contains K L (us_keyImages s) k \<Longrightarrow> ki_normal K k \<and> ki_contains K L (us_keyImages s') k"
    using i step ApplyBlock_images(2) [OF i] compact_contains [OF i]
    by (cases e) (auto split: sum.splits if_splits)
qed

lemma run_records:
  assumes "ki_inv K L V (us_keyImages s)" and "foldE (chain_step K L) events s = Inr s'"
    and "AcceptBlock b \<in> set events" and "k \<in> set (recorded_images K b)"
  shows "ki_normal K k \<and> ki_contains K L (us_keyImages s') k"
  using assms(1-3)
proof (induction events arbitrary: s)
  case (Cons ev events)
  then obtain t where t: "chain_step K L ev s = Inr t" "foldE (chain_step K L) events t = Inr s'" by (auto split: sum.splits)
  have i: "ki_inv K L V (us_keyImages t)" using Cons.prems(1) t(1) by (rule spending.step_inv)
  show ?case
  proof (cases "ev = AcceptBlock b")
    case True
    then have a: "ApplyBlock K L b s = Inr t" using t(1) by (auto split: sum.splits)
    have n: "ki_normal K k" using recorded_normal [of K b] Cons.prems(1) assms(4) by (simp add: ki_inv_def list_all_iff)
    then show ?thesis using spending.run_keeps [OF i t(2), of k] ApplyBlock_images(2) [OF Cons.prems(1) a n] assms(4) by blast
  next
    case False
    then show ?thesis using Cons.IH [OF i t(2)] Cons.prems(3) by simp
  qed
qed simp

text \<open>C1: No double spend.  Over any sequence of accepted blocks, with compactions of the key-image set
  in between in any map order: the key images of all inputs of transactions other than stake transactions, together with those
  of the V4 stake deposits, are pairwise different, none of them was spent before the sequence, and each of them is spent after it.  The
  images of inputs that a stake transaction carries are not compared with the others; but they too are spent afterwards.\<close>

theorem no_double_spend:
  assumes "ki_inv K L V (us_keyImages s)" and "foldE (chain_step K L) events s = Inr s'"
  shows "distinct (concat (map (event_images K) events)) \<and>
    (\<forall>k \<in> set (concat (map (event_images K) events)). \<not> IsSpent K L s k \<and> IsSpent K L s' k) \<and>
    (\<forall>b k. AcceptBlock b \<in> set events \<longrightarrow> k \<in> set (recorded_images K b) \<longrightarrow> IsSpent K L s' k)"
proof -
  have sp: "IsSpent K L t k = ki_contains K L (us_keyImages t) k" if "ki_normal K k" for t k
    using that by (auto simp: IsSpent_def ki_normal_def)
  then have "\<forall>b k. AcceptBlock b \<in> set events \<longrightarrow> k \<in> set (recorded_images K b) \<longrightarrow> IsSpent K L s' k"
    using run_records [OF assms] by blast
  with spending.run_distinct [OF assms] sp show ?thesis by blast
qed

text \<open>The exception is real: two stake transactions of one block may carry the same key image, whether or not it is spent already.\<close>

theorem stake_inputs_unchecked:
  assumes "blk_Txs b = [tx, tx']" and "IsStake tx" "\<not> stake_v4_tx tx" and "IsStake tx'" "\<not> stake_v4_tx tx'"
  shows "ApplyBlock K L b s = Inr (applyTxsLocked K L b s)"
  using assms by (simp add: ApplyBlock_def check_block_def check_tx_def)

definition demo_input :: "key_image \<Rightarrow> point32 list \<Rightarrow> commitment \<Rightarrow> RingInput" where
  "demo_input ki ring c = \<lparr>in_KeyImage = ki, in_Ring = ring, in_AmountCommit = c, in_RingCommitments = [],
     in_PseudoOut = 0, in_RealIndex = 0\<rparr>"

definition demo_clsag_block :: "key_image \<Rightarrow> Block" where
  "demo_clsag_block ki = \<lparr>blk_Header = demo_header,
     blk_Txs = [(empty_tx TxVersionCLSAG)\<lparr>tx_Inputs := [demo_input ki [] 0]\<rparr>]\<rparr>"

lemmas demo_block_defs = demo_clsag_block_def demo_input_def empty_tx_def tx_versions tx_kinds stake_v4_tx_def

lemma demo_clsag_apply:
  assumes "ki \<noteq> 0" and "\<not> ki_contains demo_lib mem_leveldb (us_keyImages s) ki"
  shows "ApplyBlock demo_lib mem_leveldb (demo_clsag_block ki) s
    = Inr (s\<lparr>us_keyImages := ki_insert demo_lib mem_leveldb (us_keyImages s) ki\<rparr>)"
  using assms
  by (simp add: ApplyBlock_def check_block_def check_tx_def check_input_def demo_block_defs applyTxsLocked_def
      apply_tx_def apply_input_def apply_stake_image_def demo_lib_def Let_def)

lemma demo_clsag_images: "ki \<noteq> 0 \<Longrightarrow> block_images demo_lib (demo_clsag_block ki) = [ki]"
  by (simp add: block_images_def checked_images_def input_images_def demo_block_defs demo_lib_def ki_norm_def)

theorem no_double_spend_witness:
  "IsSpent demo_lib mem_leveldb (applyTxsLocked demo_lib mem_leveldb (demo_clsag_block 5)
      (NewUTXOSetWithDB (Some Map.empty))) 5"
proof -
  let ?s = "NewUTXOSetWithDB (Some Map.empty) :: (bytes \<rightharpoonup> bytes) UTXOSet"
  have i: "ki_inv demo_lib mem_leveldb dom (us_keyImages ?s)"
    by (simp add: NewUTXOSetWithDB_def ki_inv_def demo_canonical_ok mem_leveldb_ok)
  have "\<not> ki_contains demo_lib mem_leveldb (us_keyImages ?s) 5"
    by (simp add: NewUTXOSetWithDB_def ki_contains_def IsKeyImageSpent_def demo_lib_def mem_leveldb_def)
  then have "ApplyBlock demo_lib mem_leveldb (demo_clsag_block 5) ?s
      = Inr (applyTxsLocked demo_lib mem_leveldb (demo_clsag_block 5) ?s)"
    using demo_clsag_apply [of 5 ?s] by (auto simp: ApplyBlock_def split: sum.splits)
  then show ?thesis
    using no_double_spend [OF i, of "[AcceptBlock (demo_clsag_block 5)]"] by (simp add: demo_clsag_images)
qed

section \<open>Rollback undoes application\<close>

definition tx_out_keys :: "lib \<Rightarrow> Transaction \<Rightarrow> UTXOKey list" where
  "tx_out_keys K tx = map (\<lambda>(i, out). (tx_Hash K tx, word_of_nat i)) (enumerate 0 (tx_Outputs tx))"

definition block_out_keys :: "lib \<Rightarrow> Block \<Rightarrow> UTXOKey list" where
  "block_out_keys K b = concat (map (tx_out_keys K) (blk_Txs b))"

definition block_out_pubs :: "Block \<Rightarrow> point32 list" where
  "block_out_pubs b = concat (map (\<lambda>tx. map out_OneTimePub (tx_Outputs tx)) (blk_Txs b))"

text \<open>Every indexed ring member is an active output under its own key.\<close>

definition index_ok :: "'d UTXOSet \<Rightarrow> bool" where
  "index_ok s \<longleftrightarrow> (\<forall>p u. us_byPubKey s p = Some u \<longrightarrow> u_OneTimePub u = p \<and> us_utxos s (utxo_key u) = Some u)"

text \<open>The block brings new outputs, its height is not in the journal yet, the journal and the window of
  recent outputs have room, and no ring of the block names a retained spent output under its own
  commitment.\<close>

definition rollback_ready :: "lib \<Rightarrow> Block \<Rightarrow> 'd UTXOSet \<Rightarrow> bool" where
  "rollback_ready K b s \<longleftrightarrow>
     index_ok s \<and>
     (\<forall>k \<in> set (block_out_keys K b). us_utxos s k = None) \<and>
     (\<forall>p \<in> set (block_out_pubs b). us_byPubKey s p = None \<and> us_spentPubKeys s p = None) \<and>
     dom (us_byPubKey s) \<inter> dom (us_spentPubKeys s) = {} \<and>
     finite (dom (us_rollbackJournal s)) \<and> card (dom (us_rollbackJournal s)) < maxRollbackDepth \<and>
     us_rollbackJournal s (bh_Height (blk_Header b)) = None \<and>
     length (us_clsagRecentOutputs s) + length (block_out_keys K b) \<le> maxCLSAGRecentOutputs \<and>
     (\<forall>tx \<in> set (blk_Txs b). IsStake tx \<longrightarrow> tx_Inputs tx = []) \<and>
     (\<forall>tx \<in> set (blk_Txs b). \<forall>inp \<in> set (tx_Inputs tx). \<forall>m \<in> set (stateTransitionRingMembers tx inp).
        \<forall>u. us_spentPubKeys s m = Some u \<longrightarrow> u_AmountCommit u \<noteq> in_AmountCommit inp)"

text \<open>The state \<open>s\<close> in the middle of pass 2, relative to the state \<open>s0\<close> before the block: \<open>es\<close> are the
  journal entries written so far and \<open>n\<close> bounds the outputs added.\<close>

definition mid :: "lib \<Rightarrow> Block \<Rightarrow> 'd UTXOSet \<Rightarrow> nat \<Rightarrow> rollbackEntry list \<Rightarrow> 'd UTXOSet \<Rightarrow> bool" where
  "mid K b s0 n es s \<longleftrightarrow>
     (\<forall>k. k \<notin> set (block_out_keys K b) \<longrightarrow>
        us_utxos s k = (if k \<in> (\<lambda>e. utxo_key (re_utxo e)) ` set es then None else us_utxos s0 k)) \<and>
     (\<forall>p. p \<notin> set (block_out_pubs b) \<longrightarrow>
        us_byPubKey s p = (if p \<in> re_ringMember ` set es then None else us_byPubKey s0 p)) \<and>
     (\<forall>p. p \<notin> re_ringMember ` set es \<longrightarrow> us_spentPubKeys s p = us_spentPubKeys s0 p) \<and>
     (\<forall>e \<in> set es. us_byPubKey s0 (re_ringMember e) = Some (re_utxo e) \<or>
        re_ringMember e \<in> set (block_out_pubs b) \<and> utxo_key (re_utxo e) \<in> set (block_out_keys K b)) \<and>
     us_rollbackJournal s = (if es = [] then us_rollbackJournal s0
        else (us_rollbackJournal s0)(bh_Height (blk_Header b) \<mapsto> es)) \<and>
     us_stakedUTXOs s = us_stakedUTXOs s0 \<and> us_clsagActivationHeight s = us_clsagActivationHeight s0 \<and>
     (\<forall>p \<in> set (block_out_pubs b). \<forall>u. us_byPubKey s p = Some u \<longrightarrow> utxo_key u \<in> set (block_out_keys K b)) \<and>
     length (us_clsagRecentOutputs s) \<le> length (us_clsagRecentOutputs s0) + n"

lemma mid_start: "rollback_ready K b s \<Longrightarrow> mid K b s 0 [] s"
  by (auto simp: mid_def rollback_ready_def)

lemma mid_images: "mid K b s0 n es s \<Longrightarrow> mid K b s0 n es (s\<lparr>us_keyImages := c\<rparr>)"
  by (simp add: mid_def)

lemma journal_append_mid:
  assumes "rollback_ready K b s0" and "mid K b s0 n es s"
  shows "journal_append (bh_Height (blk_Header b)) e (us_rollbackJournal s)
    = (us_rollbackJournal s0)(bh_Height (blk_Header b) \<mapsto> es @ [e])"
proof -
  let ?h = "bh_Height (blk_Header b)"
  have "(us_rollbackJournal s)(?h \<mapsto> (case us_rollbackJournal s ?h of None \<Rightarrow> [] | Some es \<Rightarrow> es) @ [e])
      = (us_rollbackJournal s0)(?h \<mapsto> es @ [e])"
    using assms by (auto simp: mid_def rollback_ready_def)
  moreover have "\<not> maxRollbackDepth < card (dom ((us_rollbackJournal s0)(?h \<mapsto> es @ [e])))"
    using assms(1) by (simp add: rollback_ready_def domIff card_insert_if)
  ultimately show ?thesis by (simp add: journal_append_def Let_def)
qed

lemma mid_spend:
  assumes r: "rollback_ready K b s0" and m: "mid K b s0 n es s" and u: "us_byPubKey s p = Some u"
  shows "mid K b s0 n (es @ [\<lparr>re_ringMember = p, re_utxo = u\<rparr>]) (spend_member (bh_Height (blk_Header b)) p u s)"
proof -
  have entry: "us_byPubKey s0 p = Some u \<or> p \<in> set (block_out_pubs b) \<and> utxo_key u \<in> set (block_out_keys K b)"
  proof (cases "p \<in> set (block_out_pubs b)")
    case True
    then show ?thesis using m u by (simp add: mid_def)
  next
    case False
    then have "us_byPubKey s p = (if p \<in> re_ringMember ` set es then None else us_byPubKey s0 p)"
      using m unfolding mid_def by blast
    then show ?thesis using u by (simp split: if_splits)
  qed
  show ?thesis
    using m entry journal_append_mid [OF r m]
    unfolding mid_def spend_member_def by (auto simp: journal_append_mid [OF r m])
qed

lemma mid_spend_ring:
  assumes r: "rollback_ready K b s0" and m: "mid K b s0 n es s"
  shows "\<exists>es'. mid K b s0 n es' (spend_ring (bh_Height (blk_Header b)) c ring s)"
proof (induction ring)
  case Nil
  then show ?case using m by auto
next
  case (Cons p ring)
  then show ?case using mid_spend [OF r m, of p] by (auto split: option.splits)
qed

lemma mid_input:
  assumes "rollback_ready K b s0" and "mid K b s0 n es s"
  shows "\<exists>es'. mid K b s0 n es' (apply_input K L (bh_Height (blk_Header b)) tx s inp)"
  using mid_images [OF assms(2)] mid_spend_ring [OF assms(1) mid_images [OF assms(2)]]
  by (cases "canonical_key_image K (in_KeyImage inp)") (auto simp: apply_input_def Let_def)

lemma mid_inputs:
  assumes "rollback_ready K b s0" and "mid K b s0 n es s"
  shows "\<exists>es'. mid K b s0 n es' (foldl (apply_input K L (bh_Height (blk_Header b)) tx) s inps)"
  using assms(2)
proof (induction inps arbitrary: s es)
  case (Cons inp inps)
  obtain es' where "mid K b s0 n es' (apply_input K L (bh_Height (blk_Header b)) tx s inp)"
    using mid_input [OF assms(1) Cons.prems] by blast
  from Cons.IH [OF this] show ?case by simp
qed auto

lemma track_room:
  assumes "length (us_clsagRecentOutputs s) < maxCLSAGRecentOutputs"
  shows "\<exists>rs. trackCLSAGRecentLocked k h s = s\<lparr>us_clsagRecentOutputs := rs\<rparr> \<and> length rs \<le> Suc (length (us_clsagRecentOutputs s))"
proof (cases "isProtocolLockedUTXO (us_utxos s k) \<or> us_clsagActivationHeight s = 0 \<or> h < us_clsagActivationHeight s")
  case True
  then have "trackCLSAGRecentLocked k h s = s\<lparr>us_clsagRecentOutputs := us_clsagRecentOutputs s\<rparr>"
    by (auto simp: trackCLSAGRecentLocked_def)
  then show ?thesis by (metis le_SucI order_refl)
next
  case False
  with assms have "trackCLSAGRecentLocked k h s = s\<lparr>us_clsagRecentOutputs := us_clsagRecentOutputs s @ [k]\<rparr>"
    by (simp add: trackCLSAGRecentLocked_def Let_def)
  then show ?thesis by (metis length_append_singleton order_refl)
qed

lemma mid_output:
  assumes r: "rollback_ready K b s0" and m: "mid K b s0 n es s" and n: "n < length (block_out_keys K b)"
    and k: "(tx_Hash K tx, word_of_nat i) \<in> set (block_out_keys K b)" and p: "out_OneTimePub out \<in> set (block_out_pubs b)"
  shows "mid K b s0 (Suc n) es (apply_output K h tx s (i, out))"
proof -
  define u where "u = new_utxo K h tx i out"
  have uk: "utxo_key u = (tx_Hash K tx, word_of_nat i)" by (simp add: u_def utxo_key_def new_utxo_def)
  define t where "t = (if u_ProtocolLocked u then s\<lparr>us_utxos := (us_utxos s)(utxo_key u \<mapsto> u)\<rparr>
    else s\<lparr>us_utxos := (us_utxos s)(utxo_key u \<mapsto> u), us_byPubKey := (us_byPubKey s)(out_OneTimePub out \<mapsto> u)\<rparr>)"
  have len: "length (us_clsagRecentOutputs s) < maxCLSAGRecentOutputs"
    using r m n unfolding rollback_ready_def mid_def by linarith
  have out: "apply_output K h tx s (i, out) = trackCLSAGRecentLocked (utxo_key u) h t"
    by (simp add: apply_output_def u_def t_def Let_def)
  have "length (us_clsagRecentOutputs t) < maxCLSAGRecentOutputs" using len by (simp add: t_def)
  from track_room [OF this] obtain rs where rs: "apply_output K h tx s (i, out) = t\<lparr>us_clsagRecentOutputs := rs\<rparr>"
    "length rs \<le> Suc (length (us_clsagRecentOutputs t))" using out by metis
  have "mid K b s0 n es t" using m k p uk by (auto simp: t_def mid_def)
  then show ?thesis using rs by (simp add: mid_def)
qed

lemma mid_outputs:
  assumes r: "rollback_ready K b s0" and m: "mid K b s0 n es s" and n: "n + length outs \<le> length (block_out_keys K b)"
    and "\<forall>(i, out) \<in> set outs. (tx_Hash K tx, word_of_nat i) \<in> set (block_out_keys K b) \<and>
      out_OneTimePub out \<in> set (block_out_pubs b)"
  shows "mid K b s0 (n + length outs) es (foldl (apply_output K h tx) s outs)"
  using m n assms(4)
proof (induction outs arbitrary: s n)
  case (Cons io outs)
  obtain i out where io: "io = (i, out)" by (cases io)
  have "mid K b s0 (Suc n) es (apply_output K h tx s io)"
    using mid_output [OF r Cons.prems(1)] Cons.prems(2,3) io by auto
  from Cons.IH [OF this] Cons.prems(2,3) show ?case by simp
qed simp

lemma mid_stake_image: "mid K b s0 n es s \<Longrightarrow> mid K b s0 n es (apply_stake_image K L tx s)"
  by (simp add: apply_stake_image_def mid_images split: sum.splits option.splits)

lemma tx_outputs_in_block:
  assumes "tx \<in> set (blk_Txs b)"
  shows "\<forall>(i, out) \<in> set (enumerate 0 (tx_Outputs tx)). (tx_Hash K tx, word_of_nat i) \<in> set (block_out_keys K b) \<and>
      out_OneTimePub out \<in> set (block_out_pubs b)"
proof clarify
  fix i out assume a: "(i, out) \<in> set (enumerate 0 (tx_Outputs tx))"
  then have "out \<in> set (tx_Outputs tx)" by (metis enumerate_eq_zip set_zip_rightD)
  moreover have "(tx_Hash K tx, word_of_nat i) \<in> set (tx_out_keys K tx)" using a by (force simp: tx_out_keys_def)
  ultimately show "(tx_Hash K tx, word_of_nat i) \<in> set (block_out_keys K b) \<and> out_OneTimePub out \<in> set (block_out_pubs b)"
    using assms by (auto simp: block_out_keys_def block_out_pubs_def)
qed

lemma mid_txs:
  assumes "rollback_ready K b s0" and "set txs \<subseteq> set (blk_Txs b)"
    and "mid K b s0 n es s" and "n + length (concat (map (tx_out_keys K) txs)) \<le> length (block_out_keys K b)"
  shows "\<exists>n' es'. mid K b s0 n' es' (foldl (apply_tx K L (bh_Height (blk_Header b))) s txs)"
  using assms(2-4)
proof (induction txs arbitrary: s n es)
  case (Cons tx txs)
  let ?h = "bh_Height (blk_Header b)"
  obtain es' where "mid K b s0 n es' (foldl (apply_input K L ?h tx) s (tx_Inputs tx))"
    using mid_inputs [OF assms(1) Cons.prems(2)] by blast
  from mid_outputs [OF assms(1) mid_stake_image [OF this], where outs = "enumerate 0 (tx_Outputs tx)"]
  have "mid K b s0 (n + length (tx_Outputs tx)) es' (apply_tx K L ?h s tx)"
    using Cons.prems tx_outputs_in_block [of tx b K] by (simp add: apply_tx_def tx_out_keys_def Let_def)
  from Cons.IH [OF _ this] Cons.prems show ?case by (simp add: tx_out_keys_def)
qed auto

text \<open>Rollback on the maps: restoring the journal, then deleting the block's outputs.\<close>

lemma fold_restore:
  "us_utxos (fold restore_entry es s) = fold (\<lambda>e m. m(utxo_key (re_utxo e) \<mapsto> re_utxo e)) es (us_utxos s)"
  "us_byPubKey (fold restore_entry es s) = fold (\<lambda>e m. m(re_ringMember e \<mapsto> re_utxo e)) es (us_byPubKey s)"
  "us_spentPubKeys (fold restore_entry es s) p = (if p \<in> re_ringMember ` set es then None else us_spentPubKeys s p)"
  "us_keyImages (fold restore_entry es s) = us_keyImages s"
  "us_rollbackJournal (fold restore_entry es s) = us_rollbackJournal s"
  "us_stakedUTXOs (fold restore_entry es s) = us_stakedUTXOs s"
  by (induction es arbitrary: s) (auto simp: restore_entry_def)

lemma fold_upd_target:
  assumes "\<forall>e \<in> set es. P (f e) \<longrightarrow> m0 (f e) = Some (g e)" and "\<forall>k. P k \<and> k \<notin> f ` set es \<longrightarrow> m k = m0 k"
  shows "P k \<Longrightarrow> fold (\<lambda>e m. m(f e \<mapsto> g e)) es m k = m0 k"
  using assms
proof (induction es arbitrary: m)
  case (Cons e es)
  have "fold (\<lambda>e m. m(f e \<mapsto> g e)) es (m(f e \<mapsto> g e)) k = m0 k"
    by (rule Cons.IH) (use Cons.prems in auto)
  then show ?case by (simp only: fold_simps)
qed simp

text \<open>The fallback to the decoy pool does nothing when no ring member is retained under the commitment.\<close>

definition no_stale :: "(point32 \<rightharpoonup> UTXO) \<Rightarrow> Transaction \<Rightarrow> bool" where
  "no_stale sp tx \<longleftrightarrow> (\<forall>inp \<in> set (tx_Inputs tx). \<forall>m \<in> set (stateTransitionRingMembers tx inp).
     \<forall>u. sp m = Some u \<longrightarrow> u_AmountCommit u \<noteq> in_AmountCommit inp)"

lemma fallback_noop:
  "\<forall>m \<in> set ring. \<forall>u. us_spentPubKeys (rb_set r) m = Some u \<longrightarrow> u_AmountCommit u \<noteq> c \<Longrightarrow> fallback_ring J c ring r = r"
  by (induction ring) (auto split: option.splits)

lemma rollback_inputs:
  assumes "\<forall>inp \<in> set inps. \<forall>m \<in> set (stateTransitionRingMembers tx inp).
     \<forall>u. us_spentPubKeys (rb_set r) m = Some u \<longrightarrow> u_AmountCommit u \<noteq> in_AmountCommit inp"
  shows "rb_set (foldl (rollback_input K L J tx) r inps) = (rb_set r)\<lparr>us_keyImages :=
     foldl (ki_remove K L) (us_keyImages (rb_set r)) (map (\<lambda>inp. ki_norm K (in_KeyImage inp)) inps)\<rparr>"
  using assms
proof (induction inps arbitrary: r)
  case (Cons inp inps)
  have step: "rb_set (rollback_input K L J tx r inp) = (rb_set r)\<lparr>us_keyImages :=
      ki_remove K L (us_keyImages (rb_set r)) (ki_norm K (in_KeyImage inp))\<rparr>"
    using Cons.prems by (simp add: rollback_input_def rollback_image_def ki_norm_def fallback_noop split: option.splits)
  show ?case using Cons.IH [of "rollback_input K L J tx r inp"] Cons.prems by (simp add: step)
qed simp

lemma rollback_outputs:
  "rb_set (foldl (rollback_output K tx) r outs) = (rb_set r)\<lparr>
     us_utxos := us_utxos (rb_set r) |` (- (\<lambda>(i, out). (tx_Hash K tx, word_of_nat i)) ` set outs),
     us_byPubKey := us_byPubKey (rb_set r) |` (- (\<lambda>(i, out). out_OneTimePub out) ` set outs)\<rparr>"
  by (induction outs arbitrary: r)
    (auto simp: rollback_output_def Let_def restrict_map_def fun_eq_iff split: prod.splits)

lemma rollback_tx_set:
  assumes "no_stale (us_spentPubKeys (rb_set r)) tx"
  shows "rb_set (rollback_tx K L J r tx) = (rb_set r)\<lparr>
     us_utxos := us_utxos (rb_set r) |` (- set (tx_out_keys K tx)),
     us_byPubKey := us_byPubKey (rb_set r) |` (- set (map out_OneTimePub (tx_Outputs tx))),
     us_keyImages := foldl (ki_remove K L) (us_keyImages (rb_set r)) (input_images K tx @ stake_images K tx)\<rparr>"
proof -
  have pubs: "(\<lambda>(i, out). out_OneTimePub out) ` set (enumerate 0 outs) = out_OneTimePub ` set outs" for outs
    by (simp add: case_prod_beta' image_image [symmetric, of out_OneTimePub snd] flip: set_map)
  define r' where "r' = foldl (rollback_output K tx) r (enumerate 0 (tx_Outputs tx))"
  have r': "rb_set r' = (rb_set r)\<lparr>us_utxos := us_utxos (rb_set r) |` (- set (tx_out_keys K tx)),
     us_byPubKey := us_byPubKey (rb_set r) |` (- set (map out_OneTimePub (tx_Outputs tx)))\<rparr>"
    by (simp add: r'_def rollback_outputs tx_out_keys_def pubs)
  have "rb_set (foldl (rollback_input K L J tx) r' (tx_Inputs tx)) = (rb_set r')\<lparr>us_keyImages :=
     foldl (ki_remove K L) (us_keyImages (rb_set r')) (input_images K tx)\<rparr>"
    unfolding input_images_def by (rule rollback_inputs) (use assms r' in \<open>auto simp: no_stale_def\<close>)
  then show ?thesis
    by (simp add: rollback_tx_def rollback_stake_image_def stake_images_def rollback_image_def r'_def [symmetric] r' Let_def
        split: sum.splits option.splits)
qed

lemma rollback_txs_set:
  assumes "\<forall>tx \<in> set txs. no_stale (us_spentPubKeys (rb_set r)) tx"
  shows "rb_set (foldl (rollback_tx K L J) r txs) = (rb_set r)\<lparr>
     us_utxos := us_utxos (rb_set r) |` (- set (concat (map (tx_out_keys K) txs))),
     us_byPubKey := us_byPubKey (rb_set r) |` (- set (concat (map (\<lambda>tx. map out_OneTimePub (tx_Outputs tx)) txs))),
     us_keyImages := foldl (ki_remove K L) (us_keyImages (rb_set r))
       (concat (map (\<lambda>tx. input_images K tx @ stake_images K tx) txs))\<rparr>"
  using assms
proof (induction txs arbitrary: r)
  case Nil
  then show ?case by simp
next
  case (Cons tx txs)
  have tx: "no_stale (us_spentPubKeys (rb_set r)) tx" using Cons.prems by simp
  have "\<forall>t \<in> set txs. no_stale (us_spentPubKeys (rb_set (rollback_tx K L J r tx))) t"
    using Cons.prems by (simp add: rollback_tx_set [OF tx])
  from Cons.IH [OF this] show ?case
    by (simp add: rollback_tx_set [OF tx] restrict_map_def fun_eq_iff Un_commute)
qed

lemma rollback_mid:
  assumes r: "rollback_ready K b s0" and m: "mid K b s0 n es s"
  shows "let t = rb_set (rollback_state K L b s) in
    us_utxos t = us_utxos s0 \<and> us_byPubKey t = us_byPubKey s0 \<and> us_spentPubKeys t = us_spentPubKeys s0 \<and>
    us_rollbackJournal t = us_rollbackJournal s0 \<and> us_stakedUTXOs t = us_stakedUTXOs s0 \<and>
    us_keyImages t = foldl (ki_remove K L) (us_keyImages s) (recorded_images K b)"
proof -
  let ?h = "bh_Height (blk_Header b)"
  have es: "rollback_entries b s = es" using r m by (auto simp: rollback_entries_def mid_def rollback_ready_def)
  define t where "t = (fold restore_entry es s)\<lparr>us_rollbackJournal := (us_rollbackJournal s)(?h := None)\<rparr>"
  have t: "us_utxos t = us_utxos (fold restore_entry es s)" "us_byPubKey t = us_byPubKey (fold restore_entry es s)"
    by (simp_all add: t_def)
  have utxos: "us_utxos t k = us_utxos s0 k" if "k \<notin> set (block_out_keys K b)" for k
    unfolding t fold_restore
    by (rule fold_upd_target [where P = "\<lambda>k. k \<notin> set (block_out_keys K b)"])
      (use m r that in \<open>auto simp: mid_def rollback_ready_def index_ok_def\<close>)
  have pubs: "us_byPubKey t p = us_byPubKey s0 p" if "p \<notin> set (block_out_pubs b)" for p
    unfolding t fold_restore
    by (rule fold_upd_target [where P = "\<lambda>p. p \<notin> set (block_out_pubs b)"])
      (use m that in \<open>auto simp: mid_def\<close>)
  have spent: "us_spentPubKeys t = us_spentPubKeys s0"
  proof
    fix p
    show "us_spentPubKeys t p = us_spentPubKeys s0 p"
    proof (cases "p \<in> re_ringMember ` set es")
      case True
      then have "us_byPubKey s0 p \<noteq> None \<or> p \<in> set (block_out_pubs b)" using m by (auto simp: mid_def)
      then have "us_spentPubKeys s0 p = None" using r by (auto simp: rollback_ready_def)
      with True show ?thesis by (simp add: t_def fold_restore)
    qed (use m in \<open>simp add: t_def fold_restore mid_def\<close>)
  qed
  have rest: "us_rollbackJournal t = us_rollbackJournal s0" "us_stakedUTXOs t = us_stakedUTXOs s0"
    "us_keyImages t = us_keyImages s"
    using m r by (auto simp: t_def fold_restore mid_def rollback_ready_def)
  have "\<forall>tx \<in> set (blk_Txs b). no_stale (us_spentPubKeys t) tx"
    using r unfolding spent by (simp add: rollback_ready_def no_stale_def)
  then have "rb_set (rollback_state K L b s) = t\<lparr>us_utxos := us_utxos t |` (- set (block_out_keys K b)),
      us_byPubKey := us_byPubKey t |` (- set (block_out_pubs b)),
      us_keyImages := foldl (ki_remove K L) (us_keyImages t) (recorded_images K b)\<rparr>"
    by (simp add: rollback_state_def es rollback_txs_set t_def fold_restore Let_def block_out_keys_def block_out_pubs_def
        recorded_images_def)
  moreover have "us_utxos t |` (- set (block_out_keys K b)) = us_utxos s0"
    using utxos r by (auto simp: restrict_map_def fun_eq_iff rollback_ready_def)
  moreover have "us_byPubKey t |` (- set (block_out_pubs b)) = us_byPubKey s0"
    using pubs r by (auto simp: restrict_map_def fun_eq_iff rollback_ready_def)
  ultimately show ?thesis using spent rest by (simp add: Let_def)
qed

lemma ready_images: "rollback_ready K b s \<Longrightarrow> recorded_images K b = block_images K b"
proof -
  assume "rollback_ready K b s"
  then have "\<forall>tx \<in> set (blk_Txs b). IsStake tx \<longrightarrow> tx_Inputs tx = []" by (simp add: rollback_ready_def)
  then have "\<forall>tx \<in> set (blk_Txs b). input_images K tx @ stake_images K tx = checked_images K tx"
    by (auto simp: checked_images_def input_images_def stake_images_def stake_v4_tx_def IsCoinbase_def)
  then show ?thesis unfolding recorded_images_def block_images_def by (metis (no_types, lifting) map_eq_conv)
qed

lemma IsSpent_norm: "IsSpent K L s ki = ki_contains K L (us_keyImages s) (ki_norm K ki)"
  by (simp add: IsSpent_def ki_norm_def split: option.splits)

text \<open>C9: Rolling back the block just applied restores the maps of the UTXO set, as long as applying it evicted nothing: the rollback journal
  holds fewer than 256 heights and none for the height of the block, and the window of recent CLSAG outputs has room for the outputs of the block.
  It is also assumed that the spent set satisfies its invariant, that the index by key agrees with the outputs and shares no key with the spent decoys, that the
  identifiers and keys of the block's outputs are new, that its stake transactions have no inputs, and that no ring member is retained as a
  spent decoy under the commitment of its input.  Then both indexes, the staked outputs, the decoy pool and the journal are the maps they were
  before, every key image is spent exactly if it was before, and no error is reported unless a callback fails.  (The code does not take the
  identifiers of the block's outputs out of the window again, and the theorem does not say so.)\<close>

theorem rollback_exact:
  assumes "ki_inv K L V (us_keyImages s)" and "rollback_ready K b s" and "ApplyBlock K L b s = Inr s'"
  shows "case RollbackBlock K L onRestored onDeleted b s' of (t, err) \<Rightarrow>
    us_utxos t = us_utxos s \<and> us_byPubKey t = us_byPubKey s \<and> us_spentPubKeys t = us_spentPubKeys s \<and>
    us_rollbackJournal t = us_rollbackJournal s \<and> us_stakedUTXOs t = us_stakedUTXOs s \<and>
    (\<forall>ki. IsSpent K L t ki = IsSpent K L s ki) \<and>
    (\<forall>k e. err = Some (k, e) \<longrightarrow> onRestored k = Some e \<or> onDeleted k = Some e)"
proof -
  have s': "s' = applyTxsLocked K L b s" and c: "\<exists>p. check_block K L s (blk_Txs b) = Inr p"
    using assms(3) by (auto simp: ApplyBlock_def split: sum.splits)
  obtain n es where m: "mid K b s n es s'"
    using mid_txs [OF assms(2) subset_refl mid_start [OF assms(2)], where L = L]
    by (auto simp: s' applyTxsLocked_def block_out_keys_def)
  define t where "t = rb_set (rollback_state K L b s')"
  note maps = rollback_mid [OF assms(2) m, of L, unfolded Let_def, folded t_def]
  have canon: "canonical_ok K" using assms(1) by (simp add: ki_inv_def)
  have "us_keyImages t = foldl (ki_remove K L) (foldl (ki_insert K L) (us_keyImages s) (recorded_images K b))
      (recorded_images K b)" using maps by (simp add: s' applyTxsLocked_images)
  moreover have "\<forall>k \<in> set (recorded_images K b). \<not> ki_contains K L (us_keyImages s) k"
    using c check_block_fresh ready_images [OF assms(2)] by metis
  ultimately have images: "IsSpent K L t ki = IsSpent K L s ki" for ki
    using ki.dels_adds [OF assms(1) recorded_normal [OF canon]] ki_normal_norm [OF canon] by (simp add: IsSpent_norm)
  have first: "first_failure cb ks = Some (k, e) \<Longrightarrow> cb k = Some e" for cb ks k e
    by (induction ks) (auto split: option.splits)
  have "\<forall>k e. snd (RollbackBlock K L onRestored onDeleted b s') = Some (k, e) \<longrightarrow>
      onRestored k = Some e \<or> onDeleted k = Some e"
    by (auto simp: RollbackBlock_def Let_def dest: first split: option.splits)
  then show ?thesis using maps images by (simp add: RollbackBlock_def Let_def t_def)
qed

definition demo_utxo :: UTXO where
  "demo_utxo = \<lparr>u_TxHash = 1, u_OutputIndex = 7, u_OneTimePub = 9, u_TxPubKey = 2, u_AmountCommit = 4,
     u_EncAmount = 0, u_BlockHeight = 0, u_ProtocolLocked = False\<rparr>"

definition demo_set :: "(bytes \<rightharpoonup> bytes) UTXOSet" where
  "demo_set = Add demo_utxo (NewUTXOSetWithDB (Some Map.empty))"

definition demo_spend :: Transaction where
  "demo_spend = (empty_tx TxVersionCommitmentBinding)\<lparr>tx_Inputs := [demo_input 5 [9] 4],
     tx_Outputs := [\<lparr>out_OneTimePub = 11, out_TxPubKey = 3, out_AmountCommit = 6, out_EncAmount = 0\<rparr>]\<rparr>"

definition demo_spend_block :: Block where
  "demo_spend_block = \<lparr>blk_Header = demo_header, blk_Txs = [demo_spend]\<rparr>"

lemmas demo_set_simps = demo_set_def Add_def demo_utxo_def NewUTXOSetWithDB_def utxo_key_def
  trackCLSAGRecentLocked_def Let_def isProtocolLockedUTXO_def

lemma demo_set_ok: "ki_inv demo_lib mem_leveldb dom (us_keyImages demo_set)"
  by (simp add: demo_set_simps ki_inv_def demo_canonical_ok mem_leveldb_ok)

lemma demo_ready: "rollback_ready demo_lib demo_spend_block demo_set"
  by (simp add: rollback_ready_def index_ok_def demo_set_simps demo_spend_block_def demo_spend_def demo_input_def
      empty_tx_def block_out_keys_def block_out_pubs_def tx_out_keys_def maxRollbackDepth_def maxCLSAGRecentOutputs_def
      tx_kinds tx_versions stateTransitionRingMembers_def)

lemma demo_spend_applies:
  "ApplyBlock demo_lib mem_leveldb demo_spend_block demo_set
     = Inr (applyTxsLocked demo_lib mem_leveldb demo_spend_block demo_set)"
  by (simp add: ApplyBlock_def check_block_def check_tx_def check_input_def resolve_input_def demo_set_simps
      demo_spend_block_def demo_spend_def demo_input_def empty_tx_def tx_kinds tx_versions stake_v4_tx_def
      ki_contains_def IsKeyImageSpent_def demo_lib_def mem_leveldb_def)

theorem rollback_exact_witness:
  "us_utxos (fst (RollbackBlock demo_lib mem_leveldb (\<lambda>k. None) (\<lambda>k. None) demo_spend_block
     (applyTxsLocked demo_lib mem_leveldb demo_spend_block demo_set))) = [(1, 7) \<mapsto> demo_utxo]"
  using rollback_exact [OF demo_set_ok demo_ready demo_spend_applies, of "\<lambda>k. None" "\<lambda>k. None"]
  by (simp add: case_prod_beta) (simp add: demo_set_simps)

text \<open>Without room in the window the set is not restored: the output that the window pushes out of memory stays away.\<close>

theorem rollback_loses_evicted:
  fixes s :: "'d UTXOSet"
  assumes b: "blk_Txs b = [tx]" and tx: "IsCoinbase tx" "\<not> IsStake tx" "tx_Outputs tx = [out]"
    and active: "0 < us_clsagActivationHeight s" "us_clsagActivationHeight s \<le> bh_Height (blk_Header b)"
    and full: "us_clsagRecentOutputs s = k # ks" "length (k # ks) = maxCLSAGRecentOutputs"
    and "us_rollbackJournal s (bh_Height (blk_Header b)) = None"
  shows "\<exists>s'. ApplyBlock K L b s = Inr s' \<and> us_utxos (fst (RollbackBlock K L onRestored onDeleted b s')) k = None"
proof -
  have kinds: "tx_Inputs tx = []" "\<not> IsGuardianFund tx" "\<not> stake_v4_tx tx" using tx by (simp_all add: IsCoinbase_def stake_v4_tx_def)
  have a: "ApplyBlock K L b s = Inr (applyTxsLocked K L b s)"
    using b tx kinds by (simp add: ApplyBlock_def check_block_def check_tx_def)
  let ?u = "new_utxo K (bh_Height (blk_Header b)) tx 0 out"
  have out: "utxo_key ?u = (tx_Hash K tx, 0)" "\<not> u_ProtocolLocked ?u" using kinds(2) by (simp_all add: new_utxo_def utxo_key_def)
  have track: "us_utxos (trackCLSAGRecentLocked key h t) k = None \<and> us_rollbackJournal (trackCLSAGRecentLocked key h t) = us_rollbackJournal t"
    if "us_utxos t key = Some v" "\<not> u_ProtocolLocked v" "us_clsagActivationHeight t = us_clsagActivationHeight s"
      "us_clsagRecentOutputs t = k # ks" "h = bh_Height (blk_Header b)" for key v h and t :: "'d UTXOSet"
    using that active full by (auto simp: trackCLSAGRecentLocked_def isProtocolLockedUTXO_def Let_def split: option.splits)
  have s': "applyTxsLocked K L b s = trackCLSAGRecentLocked (tx_Hash K tx, 0) (bh_Height (blk_Header b))
      (s\<lparr>us_utxos := (us_utxos s)((tx_Hash K tx, 0) \<mapsto> ?u), us_byPubKey := (us_byPubKey s)(out_OneTimePub out \<mapsto> ?u)\<rparr>)"
    using b tx(3) kinds out by (simp add: applyTxsLocked_def apply_tx_def apply_output_def apply_stake_image_def Let_def)
  have "us_utxos (applyTxsLocked K L b s) k = None \<and> us_rollbackJournal (applyTxsLocked K L b s) = us_rollbackJournal s"
    unfolding s' using track [of _ "(tx_Hash K tx, 0)" ?u] out(2) full(1) by simp
  then have "us_utxos (fst (RollbackBlock K L onRestored onDeleted b (applyTxsLocked K L b s))) k = None"
    using b tx(3) kinds assms(9)
    by (simp add: RollbackBlock_def rollback_state_def rollback_entries_def rollback_tx_def rollback_output_def rollback_stake_image_def Let_def)
  with a show ?thesis by blast
qed

section \<open>Pass 2 spends what pass 1 reserved\<close>

text \<open>Rings name no output of the block itself, and the ownership ring of a position deposit names no
  active output but its source.\<close>

definition rings_settled :: "Block \<Rightarrow> 'd UTXOSet \<Rightarrow> bool" where
  "rings_settled b s \<longleftrightarrow> (\<forall>tx \<in> set (blk_Txs b). \<forall>inp \<in> set (tx_Inputs tx).
     set (in_Ring inp) \<inter> set (block_out_pubs b) = {} \<and>
     (IsLPoDPosition tx \<longrightarrow> (\<forall>m \<in> set (tl (in_Ring inp)). us_byPubKey s m = None)))"

definition entry_keys :: "rollbackEntry list \<Rightarrow> UTXOKey list" where
  "entry_keys es = map (\<lambda>e. utxo_key (re_utxo e)) es"

text \<open>The journal entries of pass 2 so far are the reservations of pass 1 so far; \<open>A\<close> holds the
  outputs added so far.\<close>

definition in_step :: "lib \<Rightarrow> Block \<Rightarrow> 'd UTXOSet \<Rightarrow> UTXOKey set \<Rightarrow> pass1 \<Rightarrow> nat \<Rightarrow> rollbackEntry list \<Rightarrow> 'd UTXOSet \<Rightarrow> bool" where
  "in_step K b s0 A p n es s \<longleftrightarrow> mid K b s0 n es s \<and> dom (p1_consumed p) = set (entry_keys es) \<and>
     distinct (entry_keys es) \<and> (\<forall>e \<in> set es. us_byPubKey s0 (re_ringMember e) = Some (re_utxo e)) \<and>
     A \<subseteq> set (block_out_keys K b) \<and> (\<forall>k \<in> A. us_utxos s k \<noteq> None)"

lemma in_step_member:
  assumes "rollback_ready K b s0" and "in_step K b s0 A p n es s" and "m \<notin> set (block_out_pubs b)"
    and "us_byPubKey s0 m = Some u"
  shows "us_byPubKey s m = (if p1_consumed p (utxo_key u) = None then Some u else None)"
proof -
  have "m \<in> re_ringMember ` set es \<longleftrightarrow> utxo_key u \<in> set (entry_keys es)"
  proof
    assume "utxo_key u \<in> set (entry_keys es)"
    then obtain e where e: "e \<in> set es" "utxo_key (re_utxo e) = utxo_key u" by (auto simp: entry_keys_def)
    then have "us_byPubKey s0 (re_ringMember e) = Some (re_utxo e)" using assms(2) by (simp add: in_step_def)
    moreover have "index_ok s0" using assms(1) by (simp add: rollback_ready_def)
    ultimately have "re_ringMember e = m" using e assms(4) unfolding index_ok_def by (metis option.inject)
    then show "m \<in> re_ringMember ` set es" using e by blast
  qed (use assms in \<open>auto simp: in_step_def entry_keys_def\<close>)
  moreover have "p1_consumed p (utxo_key u) = None \<longleftrightarrow> utxo_key u \<notin> set (entry_keys es)"
    using assms(2) by (auto simp: in_step_def domIff)
  moreover have "us_byPubKey s m = (if m \<in> re_ringMember ` set es then None else us_byPubKey s0 m)"
    using assms(2,3) unfolding in_step_def mid_def by blast
  ultimately show ?thesis using assms(4) by simp
qed

lemma in_step_absent:
  assumes "in_step K b s0 A p n es s" and "m \<notin> set (block_out_pubs b)" and "us_byPubKey s0 m = None"
  shows "us_byPubKey s m = None"
proof -
  have "us_byPubKey s m = (if m \<in> re_ringMember ` set es then None else us_byPubKey s0 m)"
    using assms(1,2) unfolding in_step_def mid_def by blast
  with assms(3) show ?thesis by simp
qed

lemma scan_ring_spend:
  assumes "rollback_ready K b s0" and "in_step K b s0 A p n es s" and "set ring \<inter> set (block_out_pubs b) = {}"
    and "scan_ring (us_byPubKey s0) (p1_consumed p) c ring r = (Some u, r')"
  shows "\<exists>m. m \<in> set ring \<and> us_byPubKey s0 m = Some u \<and> us_byPubKey s m = Some u \<and>
    spend_ring h c ring s = spend_member h m u s"
  using assms(3,4)
proof (induction ring arbitrary: r)
  case (Cons m ring)
  have m: "m \<notin> set (block_out_pubs b)" using Cons.prems(1) by auto
  show ?case
  proof (cases "us_byPubKey s0 m")
    case None
    then show ?thesis using Cons in_step_absent [OF assms(2) m] by auto
  next
    case (Some v)
    then show ?thesis using Cons in_step_member [OF assms(1,2) m Some] by (auto split: if_splits)
  qed
qed simp

lemma scan_ring_commit: "scan_ring byPub cs c ring r = (Some u, r') \<Longrightarrow> u_AmountCommit u = c"
  by (induction ring arbitrary: r) (auto split: option.splits if_splits)

lemma in_step_spend:
  assumes r: "rollback_ready K b s0" and st: "in_step K b s0 A p n es s"
    and m: "us_byPubKey s0 m = Some u" "us_byPubKey s m = Some u" and new: "p1_consumed p (utxo_key u) = None"
  shows "in_step K b s0 A (p\<lparr>p1_consumed := (p1_consumed p)(utxo_key u \<mapsto> i)\<rparr>) n
     (es @ [\<lparr>re_ringMember = m, re_utxo = u\<rparr>]) (spend_member (bh_Height (blk_Header b)) m u s)"
proof -
  have "utxo_key u \<notin> set (entry_keys es)" using st new by (auto simp: in_step_def domIff)
  moreover have "utxo_key u \<notin> set (block_out_keys K b)"
    using r m(1) by (auto simp: rollback_ready_def index_ok_def)
  then have "\<forall>k \<in> A. us_utxos (spend_member h m u s) k \<noteq> None" for h
    using st by (auto simp: in_step_def spend_member_def)
  ultimately show ?thesis using mid_spend [OF r _ m(2)] st m by (auto simp: in_step_def entry_keys_def)
qed

lemma in_step_seen: "in_step K b s0 A (p\<lparr>p1_seen := q\<rparr>) n es s = in_step K b s0 A p n es s"
  by (simp add: in_step_def)

lemma in_step_images: "in_step K b s0 A p n es s \<Longrightarrow> in_step K b s0 A p n es (s\<lparr>us_keyImages := c\<rparr>)"
  by (simp add: in_step_def mid_images)

lemma spend_ring_resolved:
  assumes r: "rollback_ready K b s0" and st: "in_step K b s0 A p n es s"
    and ring: "set (in_Ring inp) \<inter> set (block_out_pubs b) = {}"
      "IsLPoDPosition tx \<longrightarrow> (\<forall>m \<in> set (tl (in_Ring inp)). us_byPubKey s0 m = None)"
    and idx: "\<not> (tx_Version tx = TxVersionCommitmentBinding \<and> length (in_Ring inp) \<le> unat (in_RealIndex inp))"
    and res: "resolve_input s0 (p1_consumed p) tx i j inp = Inr u" and new: "p1_consumed p (utxo_key u) = None"
  shows "\<exists>m. us_byPubKey s0 m = Some u \<and> us_byPubKey s m = Some u \<and>
     spend_ring h (in_AmountCommit inp) (stateTransitionRingMembers tx inp) s = spend_member h m u s"
proof (cases "tx_Version tx = TxVersionCommitmentBinding")
  case True
  let ?m = "in_Ring inp ! unat (in_RealIndex inp)"
  have i: "unat (in_RealIndex inp) < length (in_Ring inp)" using idx True by auto
  have u: "us_byPubKey s0 ?m = Some u" "u_AmountCommit u = in_AmountCommit inp"
    using res True by (auto simp: resolve_input_def split: option.splits if_splits)
  have "?m \<notin> set (block_out_pubs b)" using ring(1) nth_mem [OF i] by blast
  from in_step_member [OF r st this u(1)] new have "us_byPubKey s ?m = Some u" by simp
  with u i True show ?thesis by (auto simp: stateTransitionRingMembers_def tx_kinds tx_versions)
next
  case False
  then obtain r' where scan: "scan_ring (us_byPubKey s0) (p1_consumed p) (in_AmountCommit inp) (in_Ring inp) None = (Some u, r')"
    using res by (auto simp: resolve_input_def split: prod.splits option.splits)
  from scan_ring_spend [OF r st ring(1) scan] obtain m where m: "m \<in> set (in_Ring inp)" "us_byPubKey s0 m = Some u"
    "us_byPubKey s m = Some u" "spend_ring h (in_AmountCommit inp) (in_Ring inp) s = spend_member h m u s" by blast
  show ?thesis
  proof (cases "IsLPoDPosition tx")
    case True
    then obtain rest where hd: "in_Ring inp = m # rest" using m(1,2) ring(2) by (cases "in_Ring inp") auto
    have "u_AmountCommit u = in_AmountCommit inp" using scan_ring_commit [OF scan] .
    then have "spend_ring h (in_AmountCommit inp) [m] s = spend_member h m u s" using m(3) by simp
    moreover have "stateTransitionRingMembers tx inp = [m]" using True hd by (simp add: stateTransitionRingMembers_def)
    ultimately show ?thesis using m by auto
  next
    case not_pos: False
    then show ?thesis using m False by (auto simp: stateTransitionRingMembers_def)
  qed
qed

lemma in_step_input:
  assumes r: "rollback_ready K b s0" and st: "in_step K b s0 A p n es s" and c: "check_input K L s0 tx i (j, inp) p = Inr p'"
    and ring: "set (in_Ring inp) \<inter> set (block_out_pubs b) = {}"
      "IsLPoDPosition tx \<longrightarrow> (\<forall>m \<in> set (tl (in_Ring inp)). us_byPubKey s0 m = None)"
  shows "\<exists>es'. in_step K b s0 A p' n es' (apply_input K L (bh_Height (blk_Header b)) tx s inp) \<and>
    length es' = length es + (if UsesCLSAG tx then 0 else 1)"
proof -
  define t where "t = s\<lparr>us_keyImages := ki_insert K L (us_keyImages s) (ki_norm K (in_KeyImage inp))\<rparr>"
  have t: "apply_input K L (bh_Height (blk_Header b)) tx s inp = (if UsesCLSAG tx then t
      else spend_ring (bh_Height (blk_Header b)) (in_AmountCommit inp) (stateTransitionRingMembers tx inp) t)"
    by (simp add: apply_input_def t_def ki_norm_def Let_def split: option.splits)
  obtain q where q: "UsesCLSAG tx \<and> p' = p\<lparr>p1_seen := q\<rparr> \<or> \<not> UsesCLSAG tx \<and>
      (\<exists>u. resolve_input s0 (p1_consumed p) tx i j inp = Inr u \<and> p1_consumed p (utxo_key u) = None \<and>
        p' = p\<lparr>p1_seen := q, p1_consumed := (p1_consumed p)(utxo_key u \<mapsto> i)\<rparr>)"
    and idx: "\<not> (tx_Version tx = TxVersionCommitmentBinding \<and> length (in_Ring inp) \<le> unat (in_RealIndex inp))"
    using c by (auto simp: check_input_def Let_def split: if_splits option.splits sum.splits)
  have st': "in_step K b s0 A (p\<lparr>p1_seen := q\<rparr>) n es t" using st by (simp add: t_def in_step_images in_step_seen)
  show ?thesis
  proof (cases "UsesCLSAG tx")
    case True
    then show ?thesis using q st' t by auto
  next
    case False
    then obtain u where u: "resolve_input s0 (p1_consumed p) tx i j inp = Inr u" "p1_consumed p (utxo_key u) = None"
      "p' = p\<lparr>p1_seen := q, p1_consumed := (p1_consumed p)(utxo_key u \<mapsto> i)\<rparr>" using q by blast
    from spend_ring_resolved [OF r in_step_images [OF st] ring idx u(1,2)]
    obtain m where m: "us_byPubKey s0 m = Some u" "us_byPubKey t m = Some u"
      "apply_input K L (bh_Height (blk_Header b)) tx s inp = spend_member (bh_Height (blk_Header b)) m u t"
      using t False unfolding t_def by auto
    from in_step_spend [OF r st' m(1,2), of i] u(2,3) m(3) show ?thesis
      by (intro exI [of _ "es @ [\<lparr>re_ringMember = m, re_utxo = u\<rparr>]"]) (simp add: False)
  qed
qed

lemma in_step_inputs:
  assumes "rollback_ready K b s0" and "foldE (check_input K L s0 tx i) (enumerate j inps) p = Inr p'"
    and "in_step K b s0 A p n es s"
    and "\<forall>inp \<in> set inps. set (in_Ring inp) \<inter> set (block_out_pubs b) = {} \<and>
      (IsLPoDPosition tx \<longrightarrow> (\<forall>m \<in> set (tl (in_Ring inp)). us_byPubKey s0 m = None))"
  shows "\<exists>es'. in_step K b s0 A p' n es' (foldl (apply_input K L (bh_Height (blk_Header b)) tx) s inps) \<and>
    length es' = length es + (if UsesCLSAG tx then 0 else length inps)"
  using assms(2-)
proof (induction inps arbitrary: j p s es)
  case Nil
  then show ?case by auto
next
  case (Cons inp inps)
  then obtain q where q: "check_input K L s0 tx i (j, inp) p = Inr q"
    "foldE (check_input K L s0 tx i) (enumerate (Suc j) inps) q = Inr p'" by (auto split: sum.splits)
  from in_step_input [OF assms(1) Cons.prems(2) q(1)] Cons.prems(3) obtain es1 where
    es1: "in_step K b s0 A q n es1 (apply_input K L (bh_Height (blk_Header b)) tx s inp)"
    "length es1 = length es + (if UsesCLSAG tx then 0 else 1)" by auto
  from Cons.IH [OF q(2) es1(1)] Cons.prems(3) es1(2) show ?case by (auto split: if_splits)
qed

text \<open>The number of outputs a transaction removes from the active set.\<close>

definition tx_spends :: "Transaction \<Rightarrow> nat" where
  "tx_spends tx = (if UsesCLSAG tx then 0 else length (tx_Inputs tx))"

lemma outputs_present:
  assumes r: "rollback_ready K b s0" and "mid K b s0 n es s" and "n + length outs \<le> length (block_out_keys K b)"
    and "\<forall>(i, out) \<in> set outs. (tx_Hash K tx, word_of_nat i) \<in> set (block_out_keys K b) \<and>
      out_OneTimePub out \<in> set (block_out_pubs b)"
  shows "k \<in> (\<lambda>(i, out). (tx_Hash K tx, word_of_nat i)) ` set outs \<or> us_utxos s k \<noteq> None \<Longrightarrow>
    us_utxos (foldl (apply_output K h tx) s outs) k \<noteq> None"
  using assms(2-)
proof (induction outs arbitrary: s n)
  case (Cons io outs)
  obtain i out where io: "io = (i, out)" by (cases io)
  let ?t = "apply_output K h tx s io"
  have "length (us_clsagRecentOutputs s) < maxCLSAGRecentOutputs"
    using r Cons.prems(2,3) unfolding rollback_ready_def mid_def by simp
  then have pres: "k = (tx_Hash K tx, word_of_nat i) \<or> us_utxos s k \<noteq> None \<Longrightarrow> us_utxos ?t k \<noteq> None"
    by (auto simp: io apply_output_def new_utxo_def utxo_key_def trackCLSAGRecentLocked_def Let_def split: option.splits)
  have m: "mid K b s0 (Suc n) es ?t" using mid_output [OF r Cons.prems(2)] Cons.prems(3,4) io by auto
  have "k \<in> (\<lambda>(i, out). (tx_Hash K tx, word_of_nat i)) ` set outs \<or> us_utxos ?t k \<noteq> None"
    using pres Cons.prems(1) by (simp add: io) blast
  from Cons.IH [OF this m] Cons.prems(3,4) show ?case by simp
qed simp

lemma in_step_tx:
  assumes r: "rollback_ready K b s0" and set: "rings_settled b s0" and tx: "tx \<in> set (blk_Txs b)"
    and c: "check_tx K L s0 (i, tx) p = Inr p'" and st: "in_step K b s0 A p n es s"
    and n: "n + length (tx_Outputs tx) \<le> length (block_out_keys K b)"
  shows "\<exists>es'. in_step K b s0 (A \<union> set (tx_out_keys K tx)) p' (n + length (tx_Outputs tx)) es' (apply_tx K L (bh_Height (blk_Header b)) s tx) \<and>
    length es' = length es + tx_spends tx"
proof -
  let ?s1 = "foldl (apply_input K L (bh_Height (blk_Header b)) tx) s (tx_Inputs tx)"
  have "\<exists>es'. in_step K b s0 A p' n es' ?s1 \<and> length es' = length es + tx_spends tx"
  proof (cases "stake_v4_tx tx \<or> IsCoinbase tx \<or> IsStake tx")
    case True
    then have "tx_Inputs tx = []" using r tx by (auto simp: rollback_ready_def stake_v4_tx_def IsCoinbase_def)
    moreover have "p1_consumed p' = p1_consumed p"
      using True c by (auto simp: check_tx_def check_stake_image_def split: if_splits sum.splits option.splits)
    ultimately show ?thesis using st by (auto simp: in_step_def tx_spends_def)
  next
    case False
    then have "foldE (check_input K L s0 tx i) (enumerate 0 (tx_Inputs tx)) p = Inr p'" using c by (simp add: check_tx_def)
    from in_step_inputs [OF r this st] set tx show ?thesis by (auto simp: rings_settled_def tx_spends_def)
  qed
  then obtain es' where es': "in_step K b s0 A p' n es' ?s1" "length es' = length es + tx_spends tx" by blast
  from es'(1) have "mid K b s0 n es' (apply_stake_image K L tx ?s1)" by (simp add: in_step_def mid_stake_image)
  from mid_outputs [OF r this, where outs = "enumerate 0 (tx_Outputs tx)"] outputs_present [OF r this, where outs = "enumerate 0 (tx_Outputs tx)"]
    n tx_outputs_in_block [OF tx]
  have m: "mid K b s0 (n + length (tx_Outputs tx)) es' (apply_tx K L (bh_Height (blk_Header b)) s tx)"
    and new: "k \<in> set (tx_out_keys K tx) \<or> us_utxos (apply_stake_image K L tx ?s1) k \<noteq> None \<Longrightarrow>
      us_utxos (apply_tx K L (bh_Height (blk_Header b)) s tx) k \<noteq> None" for k
    by (simp_all add: apply_tx_def tx_out_keys_def Let_def)
  have "set (tx_out_keys K tx) \<subseteq> set (block_out_keys K b)" using tx by (auto simp: block_out_keys_def)
  moreover have "us_utxos (apply_stake_image K L tx ?s1) = us_utxos ?s1"
    by (simp add: apply_stake_image_def split: sum.splits option.splits)
  ultimately show ?thesis using es' m new by (intro exI [of _ es']) (auto simp: in_step_def)
qed

lemma in_step_txs:
  assumes r: "rollback_ready K b s0" and set: "rings_settled b s0" and "set txs \<subseteq> set (blk_Txs b)"
    and "foldE (check_tx K L s0) (enumerate i txs) p = Inr p'" and "in_step K b s0 A p n es s"
    and "n + length (concat (map (tx_out_keys K) txs)) \<le> length (block_out_keys K b)"
  shows "\<exists>n' es'. in_step K b s0 (A \<union> set (concat (map (tx_out_keys K) txs))) p' n' es' (foldl (apply_tx K L (bh_Height (blk_Header b))) s txs) \<and>
    length es' = length es + sum_list (map tx_spends txs)"
  using assms(3-)
proof (induction txs arbitrary: i p n es s A)
  case Nil
  then show ?case by auto
next
  case (Cons tx txs)
  then obtain q where q: "check_tx K L s0 (i, tx) p = Inr q" "foldE (check_tx K L s0) (enumerate (Suc i) txs) q = Inr p'"
    by (auto split: sum.splits)
  from in_step_tx [OF r set _ q(1) Cons.prems(3)] Cons.prems(1,4) obtain es1 where
    es1: "in_step K b s0 (A \<union> set (tx_out_keys K tx)) q (n + length (tx_Outputs tx)) es1 (apply_tx K L (bh_Height (blk_Header b)) s tx)"
    "length es1 = length es + tx_spends tx" by (auto simp: tx_out_keys_def)
  from Cons.IH [OF _ q(2) es1(1)] Cons.prems(1,4) es1(2) show ?case by (auto simp: tx_out_keys_def add.assoc Un_assoc)
qed

text \<open>Block application spends exactly what pass 1 reserved.  Every input of a transparent transaction
  removes one output that was active before the block, no output twice; every output the block creates
  is in the set afterwards; and no other entry of the primary index changes.\<close>

theorem apply_spends_exactly:
  assumes "rollback_ready K b s" and "rings_settled b s" and "ApplyBlock K L b s = Inr s'"
  shows "\<exists>spent. length spent = sum_list (map tx_spends (blk_Txs b)) \<and> distinct (map utxo_key spent) \<and>
    (\<forall>u \<in> set spent. us_utxos s (utxo_key u) = Some u \<and> us_byPubKey s (u_OneTimePub u) = Some u) \<and>
    (\<forall>k \<in> set (block_out_keys K b). us_utxos s' k \<noteq> None) \<and>
    (\<forall>k. k \<notin> set (block_out_keys K b) \<longrightarrow> us_utxos s' k = (if k \<in> utxo_key ` set spent then None else us_utxos s k))"
proof -
  obtain p where p: "check_block K L s (blk_Txs b) = Inr p" and s': "s' = applyTxsLocked K L b s"
    using assms(3) by (auto simp: ApplyBlock_def split: sum.splits)
  have "in_step K b s {} \<lparr>p1_seen = Map.empty, p1_consumed = Map.empty\<rparr> 0 [] s"
    using mid_start [OF assms(1)] by (simp add: in_step_def entry_keys_def)
  from in_step_txs [OF assms(1,2) subset_refl p [unfolded check_block_def] this]
  obtain n es where st: "in_step K b s (set (block_out_keys K b)) p n es s'"
    and len: "length es = sum_list (map tx_spends (blk_Txs b))"
    by (auto simp: s' applyTxsLocked_def block_out_keys_def)
  have ix: "index_ok s" using assms(1) by (simp add: rollback_ready_def)
  show ?thesis
  proof (intro exI conjI)
    show "length (map re_utxo es) = sum_list (map tx_spends (blk_Txs b))" using len by simp
    show "distinct (map utxo_key (map re_utxo es))" using st by (simp add: in_step_def entry_keys_def comp_def)
    show "\<forall>u \<in> set (map re_utxo es). us_utxos s (utxo_key u) = Some u \<and> us_byPubKey s (u_OneTimePub u) = Some u"
      using st ix by (fastforce simp: in_step_def index_ok_def)
    show "\<forall>k \<in> set (block_out_keys K b). us_utxos s' k \<noteq> None" using st by (simp add: in_step_def)
    show "\<forall>k. k \<notin> set (block_out_keys K b) \<longrightarrow>
        us_utxos s' k = (if k \<in> utxo_key ` set (map re_utxo es) then None else us_utxos s k)"
      using st unfolding in_step_def mid_def by (simp add: image_image)
  qed
qed

theorem apply_spends_exactly_witness:
  "\<exists>spent. length spent = 1 \<and> (\<forall>u \<in> set spent. us_utxos demo_set (utxo_key u) = Some u) \<and>
    (\<forall>k \<in> set (block_out_keys demo_lib demo_spend_block).
       us_utxos (applyTxsLocked demo_lib mem_leveldb demo_spend_block demo_set) k \<noteq> None)"
proof -
  have settled: "rings_settled demo_spend_block demo_set"
    by (simp add: rings_settled_def demo_spend_block_def demo_spend_def demo_input_def empty_tx_def block_out_pubs_def)
  have "sum_list (map tx_spends (blk_Txs demo_spend_block)) = 1"
    by (simp add: demo_spend_block_def demo_spend_def empty_tx_def tx_spends_def tx_kinds tx_versions)
  with apply_spends_exactly [OF demo_ready settled demo_spend_applies] show ?thesis by auto
qed

section \<open>Staked outputs\<close>

text \<open>What the validator registry relies on: an output that was locked as collateral can be released
  again, in any order, with no trace.  \<open>good\<close> are the outputs the client may lock.\<close>

locale collateral_store =
  fixes mark :: "'k \<Rightarrow> 's \<Rightarrow> 'e + 's"
    and unmark :: "'k \<Rightarrow> 's \<Rightarrow> 's"
    and staked :: "'s \<Rightarrow> 'k \<Rightarrow> bool"
    and inv :: "'s \<Rightarrow> bool"
    and good :: "'k \<Rightarrow> bool"
  assumes mark_inv: "inv s \<Longrightarrow> good k \<Longrightarrow> mark k s = Inr t \<Longrightarrow> inv t"
    and unmark_mark: "inv s \<Longrightarrow> good k \<Longrightarrow> mark k s = Inr t \<Longrightarrow> unmark k t = s"
    and mark_swap: "inv s \<Longrightarrow> good k \<Longrightarrow> good l \<Longrightarrow> mark k s = Inr t \<Longrightarrow> mark l t = Inr u \<Longrightarrow>
       \<exists>t'. mark l s = Inr t' \<and> mark k t' = Inr u"
    and mark_fresh: "mark k s = Inr t \<Longrightarrow> \<not> staked s k \<and> staked t k"
begin

lemma mark_later:
  assumes "inv s" and "good k" and "\<forall>l \<in> set ls. good l" and "mark k s = Inr t" and "foldE mark ls t = Inr u"
  shows "\<exists>t'. foldE mark ls s = Inr t' \<and> mark k t' = Inr u"
  using assms
proof (induction ls arbitrary: s t)
  case (Cons l ls)
  then obtain v where v: "mark l t = Inr v" "foldE mark ls v = Inr u" by (auto split: sum.splits)
  obtain t' where t': "mark l s = Inr t'" "mark k t' = Inr v" using mark_swap [OF Cons.prems(1,2) _ Cons.prems(4) v(1)] Cons.prems(3) by auto
  have "inv t'" using mark_inv [OF _ _ t'(1)] Cons.prems by simp
  from Cons.IH [OF this _ _ t'(2) v(2)] Cons.prems(2,3) t'(1) show ?case by simp
qed simp

lemma marks_inv: "inv s \<Longrightarrow> \<forall>k \<in> set ks. good k \<Longrightarrow> foldE mark ks s = Inr t \<Longrightarrow> inv t"
  by (induction ks arbitrary: s) (auto split: sum.splits intro: mark_inv)

lemma release_all:
  assumes "inv s" and "\<forall>k \<in> set ks. good k" and "foldE mark ks s = Inr t"
  shows "foldl (\<lambda>s k. unmark k s) t ks = s"
  using assms
proof (induction ks arbitrary: t)
  case (Cons k ks)
  then obtain v where v: "mark k s = Inr v" "foldE mark ks v = Inr t" by (auto split: sum.splits)
  obtain t' where t': "foldE mark ks s = Inr t'" "mark k t' = Inr t" using mark_later [OF _ _ _ v] Cons.prems by auto
  have "inv t'" using marks_inv [OF _ _ t'(1)] Cons.prems(1,2) by simp
  with Cons.IH [OF _ _ t'(1)] Cons.prems unmark_mark [OF _ _ t'(2)] show ?case by simp
qed simp

end

text \<open>The outputs of \<open>G\<close> that are active are indexed as ring members under their own key.\<close>

definition stake_index_ok :: "UTXOKey set \<Rightarrow> 'd UTXOSet \<Rightarrow> bool" where
  "stake_index_ok G s \<longleftrightarrow> (\<forall>k \<in> G. \<forall>u. us_utxos s k = Some u \<longrightarrow>
     utxo_key u = k \<and> us_byPubKey s (u_OneTimePub u) = Some u)"

definition mark_key :: "UTXOKey \<Rightarrow> 'd UTXOSet \<Rightarrow> staked_error + 'd UTXOSet" where
  "mark_key k s = MarkStaked (fst k) (snd k) s"

definition unmark_key :: "UTXOKey \<Rightarrow> 'd UTXOSet \<Rightarrow> 'd UTXOSet" where
  "unmark_key k s = UnmarkStaked (fst k) (snd k) s"

lemma mark_key_Inr: "mark_key k s = Inr t \<longleftrightarrow> us_stakedUTXOs s k = None \<and> (\<exists>u. us_utxos s k = Some u \<and>
   t = s\<lparr>us_byPubKey := (us_byPubKey s)(u_OneTimePub u := None), us_utxos := (us_utxos s)(k := None),
         us_stakedUTXOs := (us_stakedUTXOs s)(k \<mapsto> u)\<rparr>)"
  by (auto simp: mark_key_def MarkStaked_def Let_def split: option.splits)

interpretation collateral: collateral_store mark_key unmark_key "\<lambda>s k. us_stakedUTXOs s k \<noteq> None"
  "stake_index_ok G" "\<lambda>k. k \<in> G"
proof
  fix s t k
  assume i: "stake_index_ok G s" and k: "k \<in> G" and m: "mark_key k s = Inr t"
  from m obtain u where u: "us_stakedUTXOs s k = None" "us_utxos s k = Some u"
    "t = s\<lparr>us_byPubKey := (us_byPubKey s)(u_OneTimePub u := None), us_utxos := (us_utxos s)(k := None),
         us_stakedUTXOs := (us_stakedUTXOs s)(k \<mapsto> u)\<rparr>" by (auto simp: mark_key_Inr)
  have iu: "utxo_key u = k" "us_byPubKey s (u_OneTimePub u) = Some u" using i k u by (auto simp: stake_index_ok_def)
  show "stake_index_ok G t"
    unfolding stake_index_ok_def
  proof (intro ballI allI impI)
    fix l w assume l: "l \<in> G" "us_utxos t l = Some w"
    then have lk: "l \<noteq> k" "us_utxos s l = Some w" by (auto simp: u(3) split: if_splits)
    then have w: "utxo_key w = l" "us_byPubKey s (u_OneTimePub w) = Some w" using i l(1) by (auto simp: stake_index_ok_def)
    then have "u_OneTimePub w \<noteq> u_OneTimePub u" using iu lk(1) by (metis option.inject)
    then show "utxo_key w = l \<and> us_byPubKey t (u_OneTimePub w) = Some w" using w by (simp add: u(3))
  qed
  show "unmark_key k t = s"
    by (rule UTXOSet.equality)
      (simp_all add: u(3) unmark_key_def UnmarkStaked_def fun_upd_idem_iff u(1,2) iu(2))
  fix l v assume l: "l \<in> G" and ml: "mark_key l t = Inr v"
  then obtain w where w: "us_stakedUTXOs t l = None" "us_utxos t l = Some w"
    "v = t\<lparr>us_byPubKey := (us_byPubKey t)(u_OneTimePub w := None), us_utxos := (us_utxos t)(l := None),
         us_stakedUTXOs := (us_stakedUTXOs t)(l \<mapsto> w)\<rparr>" by (auto simp: mark_key_Inr)
  have kl: "l \<noteq> k" using w u by auto
  then have "us_utxos s l = Some w" "us_stakedUTXOs s l = None" using u w by auto
  then have "mark_key l s = Inr (s\<lparr>us_byPubKey := (us_byPubKey s)(u_OneTimePub w := None),
      us_utxos := (us_utxos s)(l := None), us_stakedUTXOs := (us_stakedUTXOs s)(l \<mapsto> w)\<rparr>)" (is "_ = Inr ?t'")
    by (simp add: mark_key_Inr)
  moreover have "mark_key k ?t' = Inr v"
  proof -
    have "(us_byPubKey s)(u_OneTimePub u := None, u_OneTimePub w := None)
        = (us_byPubKey s)(u_OneTimePub w := None, u_OneTimePub u := None)" by auto
    then show ?thesis using u w kl by (simp add: mark_key_Inr fun_upd_twist)
  qed
  ultimately show "\<exists>t'. mark_key l s = Inr t' \<and> mark_key k t' = Inr v" by blast
next
  fix s t :: "'a UTXOSet" and k
  assume "mark_key k s = Inr t"
  then show "\<not> us_stakedUTXOs s k \<noteq> None \<and> us_stakedUTXOs t k \<noteq> None" by (auto simp: mark_key_Inr)
qed

text \<open>C10: Locking collateral is exclusive and reversible: an output locked by \<open>MarkStaked\<close> leaves the primary
  index and the ring-member index, cannot be locked again, and \<open>UnmarkStaked\<close> gives back exactly the
  set that was there, provided the output was indexed under its one-time key.\<close>

theorem staking_exclusive_reversible:
  assumes "stake_index_ok {(h, i)} s" and "MarkStaked h i s = Inr t"
  shows "Get t h i = None \<and> IsStaked t h i \<and> MarkStaked h i t = Inl AlreadyStaked \<and>
    (\<forall>u. Get s h i = Some u \<longrightarrow> GetByPubKey t (u_OneTimePub u) = None) \<and> UnmarkStaked h i t = s"
proof -
  have m: "mark_key (h, i) s = Inr t" using assms(2) by (simp add: mark_key_def)
  have "UnmarkStaked h i t = s" using collateral.unmark_mark [OF assms(1) _ m] by (simp add: unmark_key_def)
  moreover have "Get t h i = None \<and> IsStaked t h i \<and> MarkStaked h i t = Inl AlreadyStaked \<and>
      (\<forall>u. Get s h i = Some u \<longrightarrow> GetByPubKey t (u_OneTimePub u) = None)"
    using m by (auto simp: mark_key_Inr Get_def GetByPubKey_def IsStaked_def MarkStaked_def)
  ultimately show ?thesis by blast
qed

theorem staking_exclusive_reversible_witness:
  "\<exists>t. MarkStaked 1 7 demo_set = Inr t \<and> Get t 1 7 = None \<and> UnmarkStaked 1 7 t = demo_set"
proof -
  have ok: "stake_index_ok {(1, 7)} demo_set" by (auto simp: stake_index_ok_def demo_set_simps)
  have "\<exists>t. MarkStaked 1 7 demo_set = Inr t" by (simp add: MarkStaked_def demo_set_simps)
  then show ?thesis using staking_exclusive_reversible [OF ok] by auto
qed

end
