(* ===== verification/Registry.thy ===== *)
theory Registry
  imports Utxo "HOL-Library.List_Lexorder" "HOL-Library.Char_ord"
begin

text \<open>
  The validator registry of \<open>core/staking.go\<close> with the signature-authority fork of
  \<open>core/validator_authority.go\<close>: deposits backed by burned outputs, full and partial withdrawals,
  their authorization with nonces, the stateful dry run of a block, its transactional application,
  replay at startup and the epoch update that selects the active validators.  Iteration over the map of
  validators and \<open>sort.Slice\<close> appear as an order chosen by the environment.
\<close>

section \<open>Definitions\<close>

subsection \<open>Constants and records\<close>

definition MaxValidators :: nat where "MaxValidators = 21"
definition MinStakeNAPR :: u64 where "MinStakeNAPR = 10000000000000"
definition EpochLength :: u64 where "EpochLength = 100"
definition ChurnLimit :: nat where "ChurnLimit = 3"
definition MaxStakeNAPR :: u64 where "MaxStakeNAPR = 10000000000000000"
definition UnbondingBlocks :: u64 where "UnbondingBlocks = 144000"
definition PartialUnbondingBlocks :: u64 where "PartialUnbondingBlocks = 43200"
definition StakeWithdrawalMaxExpiryBlocks :: u64 where "StakeWithdrawalMaxExpiryBlocks = 100"

datatype ValidatorStatus = ValidatorPending | ValidatorActive | ValidatorUnbonding | ValidatorExited

record UnbondingEntry =
  ub_Amount :: u64
  ub_EndBlock :: u64

record ValidatorEntry =
  ve_PubKey :: ValidatorPubKey
  ve_StakeNAPR :: u64
  ve_Status :: ValidatorStatus
  ve_ActivationEpoch :: u64
  ve_UnbondEndBlock :: u64
  ve_UnbondingQueue :: "UnbondingEntry list"
  ve_Seeded :: bool
  ve_StakeGeneration :: u64
  ve_StakeAuthNonce :: u64

definition PendingUnbondingNAPR :: "ValidatorEntry \<Rightarrow> u64" where
  "PendingUnbondingNAPR e = sum_list (map ub_Amount (ve_UnbondingQueue e))"

text \<open>The signing rule: from \<open>vf_Height\<close> on, the key of one identity is replaced.\<close>

record ValidatorAuthorityFork =
  vf_Version :: u32
  vf_Genesis :: hash32
  vf_Height :: u64
  vf_Parent :: hash32
  vf_Identity :: ValidatorPubKey
  vf_Replacement :: ValidatorPubKey
  vf_RegistrySHA256 :: hash32
  vf_LegacyWitnessSHA256 :: hash32
  vf_Possession :: bytes

text \<open>\<open>message\<close> stands for the JSON text of the rule without its possession signature.\<close>

definition fork_Message :: "lib \<Rightarrow> (ValidatorAuthorityFork \<Rightarrow> bytes) \<Rightarrow> ValidatorAuthorityFork \<Rightarrow> hash32" where
  "fork_Message K json f =
     HashBytes K [str_bytes ''aperod/validator-authority-fork/v1'', json (f\<lparr>vf_Possession := []\<rparr>)]"

definition fork_Validate :: "lib \<Rightarrow> (ValidatorAuthorityFork \<Rightarrow> bytes) \<Rightarrow> ValidatorAuthorityFork \<Rightarrow> bool" where
  "fork_Validate K json f \<longleftrightarrow>
     \<not> (vf_Version f \<noteq> 1 \<or> vf_Height f < 2 \<or> vf_Genesis f = 0 \<or> vf_Parent f = 0 \<or> vf_RegistrySHA256 f = 0 \<or>
        length (vf_Identity f) \<noteq> 32 \<or> length (vf_Replacement f) \<noteq> 32 \<or> vf_Identity f = vf_Replacement f) \<and>
     \<not> (length (vf_Possession f) \<noteq> 64 \<or>
        \<not> pub_Verify K (vf_Replacement f) (fork_Message K json f) (vf_Possession f))"

definition Authority :: "ValidatorAuthorityFork option \<Rightarrow> ValidatorPubKey \<Rightarrow> u64 \<Rightarrow> ValidatorPubKey" where
  "Authority fork identity height =
     (case fork of
        Some f \<Rightarrow> if vf_Height f \<le> height \<and> identity = vf_Identity f then vf_Replacement f else identity
      | None \<Rightarrow> identity)"

definition LocalIdentity :: "ValidatorAuthorityFork option \<Rightarrow> ValidatorPubKey \<Rightarrow> u64 \<Rightarrow> ValidatorPubKey" where
  "LocalIdentity fork key height =
     (case fork of
        Some f \<Rightarrow> if vf_Height f \<le> height \<and> key = vf_Replacement f then vf_Identity f else key
      | None \<Rightarrow> key)"

definition CheckParent :: "ValidatorAuthorityFork option \<Rightarrow> BlockHeader \<Rightarrow> bool" where
  "CheckParent fork header =
     (case fork of
        Some f \<Rightarrow> \<not> (bh_Height header = vf_Height f \<and> bh_PrevHash header \<noteq> vf_Parent f)
      | None \<Rightarrow> True)"

record 'd ValidatorRegistry =
  rg_validators :: "string \<rightharpoonup> ValidatorEntry"
  rg_dynamicMinNAPR :: u64
  rg_utxos :: "'d UTXOSet option"
  rg_stakeWithdrawalGenesis :: hash32
  rg_stakeWithdrawalActivation :: u64
  rg_stakeKeyImageActivation :: u64
  rg_signatureFork :: "ValidatorAuthorityFork option"
  rg_signatureAdmissionHeight :: u64

datatype stake_error =
    NotStakeTx
  | BadPayload stake_codec_error
  | DepositNeedsProof
  | LegacyWithdrawalDisabled
  | BadStakeSignature
  | UnknownAction
  | BadLength nat
  | DepositsDisabled
  | WrongActionForPayload
  | UtxosNotWired
  | BurnNotFound
  | BurnTransparent
  | BurnCommitFailed
  | BurnMismatch
  | OwnershipProof
  | BurnFailed staked_error
  | V4Inactive
  | KeyImageProofInvalid
  | KeyImageCheck ki_error
  | KeyImageAlreadySpent
  | DepositTooLow
  | DepositTooHigh
  | CannotStake
  | TopUpOverflow
  | GenerationExhausted
  | NotRegistered
  | AlreadyLeaving
  | ZeroWithdrawal
  | WithdrawalTooLarge
  | RemainingTooLow
  | W2BeforeActivation
  | W2WrongGenesis
  | W2Expired
  | W2ExpiryTooFar
  | W2NotAuthentic
  | W2Stale
  | W2StakeRef
  | W2Signature
  | W2FullAmount
  | W2InvalidAction
  | W2Invalid
  | ReservedUTXO nat
  | KeyImageInvalidV4
  | KeyImageInBlock nat
  | KeyImageReserved nat
  | LegacyDepositDisabled

definition NewValidatorRegistry :: "'d ValidatorRegistry" where
  "NewValidatorRegistry = \<lparr>rg_validators = Map.empty, rg_dynamicMinNAPR = 0, rg_utxos = None,
     rg_stakeWithdrawalGenesis = 0, rg_stakeWithdrawalActivation = 0, rg_stakeKeyImageActivation = 0,
     rg_signatureFork = None, rg_signatureAdmissionHeight = 0\<rparr>"

definition SetUTXOSet :: "'d UTXOSet \<Rightarrow> 'd ValidatorRegistry \<Rightarrow> 'd ValidatorRegistry" where
  "SetUTXOSet utxos r = r\<lparr>rg_utxos := Some utxos\<rparr>"

definition ConfigureStakeWithdrawalV2 :: "hash32 \<Rightarrow> u64 \<Rightarrow> 'd ValidatorRegistry \<Rightarrow> bool \<times> 'd ValidatorRegistry" where
  "ConfigureStakeWithdrawalV2 genesis activation r =
     (if genesis = 0 \<or> activation = 0 then (False, r)
      else if rg_stakeWithdrawalActivation r \<noteq> 0 \<and>
           (rg_stakeWithdrawalActivation r \<noteq> activation \<or> rg_stakeWithdrawalGenesis r \<noteq> genesis) then (False, r)
      else (True, r\<lparr>rg_stakeWithdrawalGenesis := genesis, rg_stakeWithdrawalActivation := activation\<rparr>))"

definition ConfigureStakeKeyImageV4 :: "u64 \<Rightarrow> 'd ValidatorRegistry \<Rightarrow> bool \<times> 'd ValidatorRegistry" where
  "ConfigureStakeKeyImageV4 activation r =
     (if activation = 0 then (False, r)
      else if rg_stakeKeyImageActivation r \<noteq> 0 \<and> rg_stakeKeyImageActivation r \<noteq> activation then (False, r)
      else (True, r\<lparr>rg_stakeKeyImageActivation := activation\<rparr>))"

definition ConfigureSignatureAuthority :: "lib \<Rightarrow> (ValidatorAuthorityFork \<Rightarrow> bytes) \<Rightarrow> ValidatorAuthorityFork option
    \<Rightarrow> u64 \<Rightarrow> 'd ValidatorRegistry \<Rightarrow> bool \<times> 'd ValidatorRegistry" where
  "ConfigureSignatureAuthority K json fork nextHeight r =
     (case fork of
        None \<Rightarrow> (True, r)
      | Some f \<Rightarrow>
          if \<not> fork_Validate K json f then (False, r)
          else case rg_signatureFork r of
            None \<Rightarrow> (True, r\<lparr>rg_signatureFork := Some f, rg_signatureAdmissionHeight := nextHeight\<rparr>)
          | Some g \<Rightarrow> if fork_Message K json g \<noteq> fork_Message K json f then (False, r)
                      else (True, r\<lparr>rg_signatureAdmissionHeight := nextHeight\<rparr>))"

definition effective_min :: "'d ValidatorRegistry \<Rightarrow> u64" where
  "effective_min r = (if rg_dynamicMinNAPR r = 0 then MinStakeNAPR else rg_dynamicMinNAPR r)"

definition CurrentMinStake :: "'d ValidatorRegistry \<Rightarrow> u64" where
  "CurrentMinStake r = (if 0 < rg_dynamicMinNAPR r then rg_dynamicMinNAPR r else MinStakeNAPR)"

definition verifyValidatorSignature :: "lib \<Rightarrow> 'd ValidatorRegistry \<Rightarrow> ValidatorPubKey \<Rightarrow> u64 \<Rightarrow> hash32 \<Rightarrow> bytes
    \<Rightarrow> bool" where
  "verifyValidatorSignature K r identity height msg signature =
     pub_Verify K (Authority (rg_signatureFork r) identity height) msg signature"

definition seed_entry :: "ValidatorPubKey \<Rightarrow> u64 \<Rightarrow> bool \<Rightarrow> ValidatorEntry" where
  "seed_entry pub stake seeded = \<lparr>ve_PubKey = pub, ve_StakeNAPR = stake, ve_Status = ValidatorActive,
     ve_ActivationEpoch = 0, ve_UnbondEndBlock = 0, ve_UnbondingQueue = [], ve_Seeded = seeded,
     ve_StakeGeneration = 1, ve_StakeAuthNonce = 0\<rparr>"

definition seed_one :: "u64 \<Rightarrow> bool \<Rightarrow> ValidatorPubKey \<Rightarrow> 'd ValidatorRegistry \<Rightarrow> 'd ValidatorRegistry" where
  "seed_one stake seeded pub r =
     (let key = pub_Hex pub in
      if rg_validators r key \<noteq> None then r
      else r\<lparr>rg_validators := (rg_validators r)(key \<mapsto> seed_entry pub stake seeded)\<rparr>)"

definition InitFromGenesis :: "ValidatorPubKey list \<Rightarrow> u64 \<Rightarrow> 'd ValidatorRegistry \<Rightarrow> 'd ValidatorRegistry" where
  "InitFromGenesis pubs genesisStake r = fold (seed_one genesisStake False) pubs r"

definition SeedFromObservedProducers :: "ValidatorPubKey list \<Rightarrow> 'd ValidatorRegistry \<Rightarrow> 'd ValidatorRegistry" where
  "SeedFromObservedProducers pubs r = fold (seed_one MinStakeNAPR True) pubs r"

subsection \<open>Deposits and withdrawals\<close>

definition demoteSeededLocked :: "'d ValidatorRegistry \<Rightarrow> 'd ValidatorRegistry" where
  "demoteSeededLocked r = r\<lparr>rg_validators := (\<lambda>k. map_option
     (\<lambda>e. if ve_Seeded e then e\<lparr>ve_Status := ValidatorExited, ve_Seeded := False\<rparr> else e) (rg_validators r k))\<rparr>"

definition deposit_existing :: "u64 \<Rightarrow> u64 \<Rightarrow> ValidatorEntry \<Rightarrow> stake_error + ValidatorEntry" where
  "deposit_existing amount height e =
     (if ve_Status e = ValidatorUnbonding \<or> ve_Status e = ValidatorExited then Inl CannotStake
      else if ve_Seeded e then
        (let g = ve_StakeGeneration e + 1 in
         Inr (e\<lparr>ve_StakeNAPR := amount, ve_Status := ValidatorPending,
           ve_ActivationEpoch := height div EpochLength + 1, ve_Seeded := False, ve_UnbondEndBlock := 0,
           ve_UnbondingQueue := [], ve_StakeGeneration := (if g = 0 then 1 else g)\<rparr>))
      else if max_u64 - amount < ve_StakeNAPR e then Inl TopUpOverflow
      else if ve_StakeGeneration e = max_u64 then Inl GenerationExhausted
      else Inr (e\<lparr>ve_StakeNAPR := ve_StakeNAPR e + amount, ve_StakeGeneration := ve_StakeGeneration e + 1\<rparr>))"

definition new_entry :: "ValidatorPubKey \<Rightarrow> u64 \<Rightarrow> u64 \<Rightarrow> ValidatorEntry" where
  "new_entry pub amount height = \<lparr>ve_PubKey = pub, ve_StakeNAPR = amount, ve_Status = ValidatorPending,
     ve_ActivationEpoch = height div EpochLength + 1, ve_UnbondEndBlock = 0, ve_UnbondingQueue = [],
     ve_Seeded = False, ve_StakeGeneration = 1, ve_StakeAuthNonce = 0\<rparr>"

definition applyDeposit :: "string \<Rightarrow> ValidatorPubKey \<Rightarrow> u64 \<Rightarrow> u64 \<Rightarrow> 'd ValidatorRegistry
    \<Rightarrow> stake_error + 'd ValidatorRegistry" where
  "applyDeposit key pub amount height r =
     (if amount < effective_min r then Inl DepositTooLow
      else if MaxStakeNAPR < amount then Inl DepositTooHigh
      else case rg_validators r key of
        Some existing \<Rightarrow>
          (case deposit_existing amount height existing of
             Inl e \<Rightarrow> Inl e
           | Inr e \<Rightarrow> Inr (demoteSeededLocked (r\<lparr>rg_validators := (rg_validators r)(key \<mapsto> e)\<rparr>)))
      | None \<Rightarrow> Inr (demoteSeededLocked (r\<lparr>rg_validators := (rg_validators r)(key \<mapsto> new_entry pub amount height)\<rparr>)))"

definition leaving :: "ValidatorStatus \<Rightarrow> bool" where
  "leaving st \<longleftrightarrow> st = ValidatorUnbonding \<or> st = ValidatorExited"

definition applyWithdraw :: "string \<Rightarrow> u64 \<Rightarrow> 'd ValidatorRegistry \<Rightarrow> stake_error + 'd ValidatorRegistry" where
  "applyWithdraw key height r =
     (case rg_validators r key of
        None \<Rightarrow> Inl NotRegistered
      | Some entry \<Rightarrow>
          if leaving (ve_Status entry) then Inl AlreadyLeaving
          else Inr (r\<lparr>rg_validators := (rg_validators r)(key \<mapsto>
            entry\<lparr>ve_Status := ValidatorUnbonding, ve_UnbondEndBlock := height + UnbondingBlocks\<rparr>)\<rparr>))"

definition applyPartialWithdraw :: "string \<Rightarrow> u64 \<Rightarrow> u64 \<Rightarrow> 'd ValidatorRegistry \<Rightarrow> stake_error + 'd ValidatorRegistry" where
  "applyPartialWithdraw key amount height r =
     (case rg_validators r key of
        None \<Rightarrow> Inl NotRegistered
      | Some entry \<Rightarrow>
          if leaving (ve_Status entry) then Inl AlreadyLeaving
          else if amount = 0 then Inl ZeroWithdrawal
          else if ve_StakeNAPR entry \<le> amount then Inl WithdrawalTooLarge
          else let remaining = ve_StakeNAPR entry - amount in
            if remaining < effective_min r then Inl RemainingTooLow
            else Inr (r\<lparr>rg_validators := (rg_validators r)(key \<mapsto>
              entry\<lparr>ve_StakeNAPR := remaining, ve_UnbondingQueue := ve_UnbondingQueue entry @
                [\<lparr>ub_Amount = amount, ub_EndBlock = height + PartialUnbondingBlocks\<rparr>]\<rparr>)\<rparr>))"

definition validateWithdrawalV2Locked :: "lib \<Rightarrow> 'd ValidatorRegistry \<Rightarrow> StakeWithdrawalAuthorizationV2 \<Rightarrow> u64
    \<Rightarrow> stake_error + ValidatorEntry" where
  "validateWithdrawalV2Locked K r a height =
     (if rg_stakeWithdrawalActivation r = 0 \<or> height < rg_stakeWithdrawalActivation r then Inl W2BeforeActivation
      else if sw_Genesis a \<noteq> rg_stakeWithdrawalGenesis r then Inl W2WrongGenesis
      else if sw_ExpiryHeight a < height then Inl W2Expired
      else if StakeWithdrawalMaxExpiryBlocks < sw_ExpiryHeight a - height then Inl W2ExpiryTooFar
      else case rg_validators r (pub_Hex (sw_PubKey a)) of
        None \<Rightarrow> Inl W2NotAuthentic
      | Some entry \<Rightarrow>
          if ve_Seeded entry then Inl W2NotAuthentic
          else if ve_StakeAuthNonce entry = max_u64 \<or> sw_Nonce a \<noteq> ve_StakeAuthNonce entry + 1
               \<or> sw_Generation a \<noteq> ve_StakeGeneration entry then Inl W2Stale
          else if sw_StakeRef a \<noteq> StakeReferenceV2 K (sw_Genesis a) (sw_PubKey a) (ve_StakeGeneration entry) (ve_StakeNAPR entry)
               then Inl W2StakeRef
          else if \<not> verifyValidatorSignature K r (sw_PubKey a) height (StakeWithdrawalSignMsgV2 K a) (sw_Signature a)
               then Inl W2Signature
          else Inr entry)"

text \<open>The nonce is written to the entry that was just updated.\<close>

definition set_nonce :: "string \<Rightarrow> u64 \<Rightarrow> 'd ValidatorRegistry \<Rightarrow> 'd ValidatorRegistry" where
  "set_nonce key nonce r =
     r\<lparr>rg_validators := (rg_validators r)(key := map_option (\<lambda>e. e\<lparr>ve_StakeAuthNonce := nonce\<rparr>) (rg_validators r key))\<rparr>"

definition applyWithdrawalV2Locked :: "lib \<Rightarrow> StakeWithdrawalAuthorizationV2 \<Rightarrow> u64 \<Rightarrow> 'd ValidatorRegistry
    \<Rightarrow> stake_error + 'd ValidatorRegistry" where
  "applyWithdrawalV2Locked K a height r =
     (case validateWithdrawalV2Locked K r a height of
        Inl e \<Rightarrow> Inl e
      | Inr entry \<Rightarrow>
          let key = pub_Hex (sw_PubKey a) in
          case (if sw_Action a = StakeWithdraw then
                  (if sw_Amount a \<noteq> 0 then Inl W2FullAmount else applyWithdraw key height r)
                else if sw_Action a = StakePartialWithdraw then applyPartialWithdraw key (sw_Amount a) height r
                else Inl W2InvalidAction) of
            Inl e \<Rightarrow> Inl e
          | Inr r' \<Rightarrow> Inr (set_nonce key (sw_Nonce a) r'))"

subsection \<open>Checks of a deposit\<close>

text \<open>The checks of the second and third payload before the burned output is looked at.\<close>

definition deposit_auth :: "lib \<Rightarrow> 'd ValidatorRegistry \<Rightarrow> u64 \<Rightarrow> 'z stake_v2_scheme \<Rightarrow> stake_error + unit" where
  "deposit_auth K r height p =
     (if rg_stakeKeyImageActivation r \<noteq> 0 \<and> rg_stakeKeyImageActivation r \<le> height then Inl DepositsDisabled
      else if sp_Action p \<noteq> StakeDeposit then Inl WrongActionForPayload
      else if \<not> verifyValidatorSignature K r (sp_PubKey p) height
           (StakeSignMsgV2 K (sp_Action p) (sp_PubKey p) (sp_Amount p) (sp_BurnTxHash p) (sp_BurnOutIdx p)) (sp_Sig p)
        then Inl BadStakeSignature
      else Inr ())"

definition check_commit :: "lib \<Rightarrow> 'z stake_v2_scheme \<Rightarrow> UTXO \<Rightarrow> stake_error + UTXO" where
  "check_commit K p u =
     (case pedersen_commit K (sp_Amount p) (sp_BurnBlind p) of
        None \<Rightarrow> Inl BurnCommitFailed
      | Some expected \<Rightarrow> if expected \<noteq> u_AmountCommit u then Inl BurnMismatch else Inr u)"

definition find_burn :: "'d ValidatorRegistry \<Rightarrow> 'z stake_v2_scheme \<Rightarrow> stake_error + UTXO" where
  "find_burn r p =
     (case rg_utxos r of
        None \<Rightarrow> Inl UtxosNotWired
      | Some us \<Rightarrow> (case Get us (sp_BurnTxHash p) (sp_BurnOutIdx p) of None \<Rightarrow> Inl BurnNotFound | Some u \<Rightarrow> Inr u))"

definition check_burn_v2 :: "lib \<Rightarrow> 'd ValidatorRegistry \<Rightarrow> stake_v2 \<Rightarrow> stake_error + UTXO" where
  "check_burn_v2 K r p =
     (case find_burn r p of Inl e \<Rightarrow> Inl e
      | Inr u \<Rightarrow> if u_TxPubKey u = 0 then Inl BurnTransparent else check_commit K p u)"

definition check_burn_v3 :: "lib \<Rightarrow> 'd ValidatorRegistry \<Rightarrow> stake_v3 \<Rightarrow> stake_error + UTXO" where
  "check_burn_v3 K r p =
     (case find_burn r p of Inl e \<Rightarrow> Inl e
      | Inr u \<Rightarrow>
          case check_commit K p u of Inl e \<Rightarrow> Inl e
          | Inr _ \<Rightarrow>
              if \<not> pub_Verify K (arr_bytes (u_OneTimePub u)) (StakeOwnershipSignMsg K (sp_BurnTxHash p) (sp_BurnOutIdx p))
                   (sp_OneTimeSig p)
              then Inl OwnershipProof else Inr u)"

definition validateStakeDepositV4 :: "lib \<Rightarrow> 'd leveldb \<Rightarrow> 'd ValidatorRegistry \<Rightarrow> u64 \<Rightarrow> u64 \<Rightarrow> stake_v4 \<Rightarrow> bool
    \<Rightarrow> stake_error + UTXO" where
  "validateStakeDepositV4 K L r height activation p checkSpent =
     (if activation = 0 \<or> height < activation then Inl V4Inactive
      else if sp_Action p \<noteq> StakeDeposit then Inl WrongActionForPayload
      else if \<not> verifyValidatorSignature K r (sp_PubKey p) height
           (StakeSignMsgV2 K (sp_Action p) (sp_PubKey p) (sp_Amount p) (sp_BurnTxHash p) (sp_BurnOutIdx p)) (sp_Sig p)
        then Inl BadStakeSignature
      else case rg_utxos r of
        None \<Rightarrow> Inl UtxosNotWired
      | Some us \<Rightarrow>
          case Get us (sp_BurnTxHash p) (sp_BurnOutIdx p) of
            None \<Rightarrow> Inl BurnNotFound
          | Some u \<Rightarrow>
              case check_commit K p u of Inl e \<Rightarrow> Inl e
              | Inr _ \<Rightarrow>
                  let context = StakeKeyImageProofContext (sp_Action p) (sp_PubKey p) (sp_Amount p) (sp_BurnTxHash p)
                        (sp_BurnOutIdx p) (sp_BurnBlind p) in
                  if \<not> key_image_proof_ok K (u_OneTimePub u) (sp_KeyImage p) context (sp_Proof p)
                    then Inl KeyImageProofInvalid
                  else if checkSpent then
                    (case HasSpentKeyImage K L us (sp_KeyImage p) of
                       (_, Some e) \<Rightarrow> Inl (KeyImageCheck e)
                     | (spent, None) \<Rightarrow> if spent then Inl KeyImageAlreadySpent else Inr u)
                  else Inr u)"

subsection \<open>One stake transaction\<close>

definition burn_key :: "'z stake_v2_scheme \<Rightarrow> UTXOKey" where
  "burn_key p = (sp_BurnTxHash p, sp_BurnOutIdx p)"

definition burn :: "'z stake_v2_scheme \<Rightarrow> 'd ValidatorRegistry \<Rightarrow> stake_error + 'd ValidatorRegistry" where
  "burn p r =
     (case rg_utxos r of
        None \<Rightarrow> Inl UtxosNotWired
      | Some us \<Rightarrow> (case MarkStaked (sp_BurnTxHash p) (sp_BurnOutIdx p) us of
          Inl e \<Rightarrow> Inl (BurnFailed e)
        | Inr us' \<Rightarrow> Inr (r\<lparr>rg_utxos := Some us'\<rparr>)))"

definition unburn :: "UTXOKey \<Rightarrow> 'd ValidatorRegistry \<Rightarrow> 'd ValidatorRegistry" where
  "unburn k r = r\<lparr>rg_utxos := map_option (UnmarkStaked (fst k) (snd k)) (rg_utxos r)\<rparr>"

text \<open>\<open>ProcessStakeTx\<close> returns the registry it leaves behind, also when it reports an error.\<close>

definition process_deposit :: "'z stake_v2_scheme \<Rightarrow> u64 \<Rightarrow> 'd ValidatorRegistry \<Rightarrow> 'd ValidatorRegistry \<times> stake_error option" where
  "process_deposit p height r =
     (case burn p r of
        Inl e \<Rightarrow> (r, Some e)
      | Inr r' \<Rightarrow>
          case applyDeposit (pub_Hex (sp_PubKey p)) (sp_PubKey p) (sp_Amount p) height r' of
            Inl e \<Rightarrow> (r', Some e)
          | Inr r'' \<Rightarrow> (r'', None))"

definition settle_result :: "'d ValidatorRegistry \<Rightarrow> stake_error + 'd ValidatorRegistry \<Rightarrow> 'd ValidatorRegistry \<times> stake_error option" where
  "settle_result r res = (case res of Inl e \<Rightarrow> (r, Some e) | Inr r' \<Rightarrow> (r', None))"

definition legacy_disabled :: "'d ValidatorRegistry \<Rightarrow> u64 \<Rightarrow> bool" where
  "legacy_disabled r height \<longleftrightarrow> rg_stakeWithdrawalActivation r \<noteq> 0 \<and> rg_stakeWithdrawalActivation r \<le> height"

definition apply_v1 :: "lib \<Rightarrow> stake_v1 \<Rightarrow> u64 \<Rightarrow> 'd ValidatorRegistry \<Rightarrow> stake_error + 'd ValidatorRegistry" where
  "apply_v1 K p height r =
     (if sp_Action p = StakeDeposit then Inl DepositNeedsProof
      else if legacy_disabled r height then Inl LegacyWithdrawalDisabled
      else if \<not> verifyValidatorSignature K r (sp_PubKey p) height (StakeSignMsg K (sp_Action p) (sp_PubKey p) (sp_Amount p)) (sp_Sig p)
        then Inl BadStakeSignature
      else if sp_Action p = StakeWithdraw then applyWithdraw (pub_Hex (sp_PubKey p)) height r
      else if sp_Action p = StakePartialWithdraw then applyPartialWithdraw (pub_Hex (sp_PubKey p)) (sp_Amount p) height r
      else Inl UnknownAction)"

definition ProcessStakeTx :: "lib \<Rightarrow> 'd leveldb \<Rightarrow> Transaction \<Rightarrow> u64 \<Rightarrow> 'd ValidatorRegistry
    \<Rightarrow> 'd ValidatorRegistry \<times> stake_error option" where
  "ProcessStakeTx K L tx height r =
     (if tx_Version tx \<noteq> TxVersionStake then (r, Some NotStakeTx)
      else let extra = tx_Extra tx; n = length extra in
      if n = StakePayloadSize then
        (case DecodeStakeExtra extra of Inl e \<Rightarrow> (r, Some (BadPayload e))
         | Inr p \<Rightarrow> settle_result r (apply_v1 K p height r))
      else if n = StakeWithdrawalPayloadSizeV2 then
        (case DecodeStakeWithdrawalExtraV2 extra of Inl e \<Rightarrow> (r, Some (BadPayload e))
         | Inr a \<Rightarrow> settle_result r (applyWithdrawalV2Locked K a height r))
      else if n = StakePayloadSizeV2 then
        (case DecodeStakeExtraV2 extra of Inl e \<Rightarrow> (r, Some (BadPayload e))
         | Inr p \<Rightarrow> (case deposit_auth K r height p of Inl e \<Rightarrow> (r, Some e)
             | Inr _ \<Rightarrow> (case check_burn_v2 K r p of Inl e \<Rightarrow> (r, Some e)
                 | Inr _ \<Rightarrow> process_deposit p height r)))
      else if n = StakePayloadSizeV3 then
        (case DecodeStakeExtraV3 extra of Inl e \<Rightarrow> (r, Some (BadPayload e))
         | Inr p \<Rightarrow> (case deposit_auth K r height p of Inl e \<Rightarrow> (r, Some e)
             | Inr _ \<Rightarrow> (case check_burn_v3 K r p of Inl e \<Rightarrow> (r, Some e)
                 | Inr _ \<Rightarrow> process_deposit p height r)))
      else if n = StakePayloadSizeV4 then
        (case DecodeStakeExtraV4 extra of Inl e \<Rightarrow> (r, Some (BadPayload e))
         | Inr p \<Rightarrow> (case validateStakeDepositV4 K L r height (rg_stakeKeyImageActivation r) p True of Inl e \<Rightarrow> (r, Some e)
             | Inr _ \<Rightarrow> process_deposit p height r))
      else (r, Some (BadLength n)))"

text \<open>In a block the output is released again when the deposit is refused; the key of the burned output
  is returned on success.\<close>

definition deposit_burned :: "'z stake_v2_scheme \<Rightarrow> u64 \<Rightarrow> 'd ValidatorRegistry
    \<Rightarrow> 'd ValidatorRegistry \<times> (stake_error + UTXOKey option)" where
  "deposit_burned p height r =
     (case burn p r of
        Inl e \<Rightarrow> (r, Inl e)
      | Inr r' \<Rightarrow>
          case applyDeposit (pub_Hex (sp_PubKey p)) (sp_PubKey p) (sp_Amount p) height r' of
            Inl e \<Rightarrow> (unburn (burn_key p) r', Inl e)
          | Inr r'' \<Rightarrow> (r'', Inr (Some (burn_key p))))"

definition no_key :: "'d ValidatorRegistry \<Rightarrow> stake_error + 'd ValidatorRegistry
    \<Rightarrow> 'd ValidatorRegistry \<times> (stake_error + UTXOKey option)" where
  "no_key r res = (case res of Inl e \<Rightarrow> (r, Inl e) | Inr r' \<Rightarrow> (r', Inr None))"

definition applyOneTxLocked :: "lib \<Rightarrow> 'd leveldb \<Rightarrow> Transaction \<Rightarrow> u64 \<Rightarrow> 'd ValidatorRegistry
    \<Rightarrow> 'd ValidatorRegistry \<times> (stake_error + UTXOKey option)" where
  "applyOneTxLocked K L tx height r =
     (if tx_Version tx \<noteq> TxVersionStake then (r, Inl NotStakeTx)
      else let extra = tx_Extra tx; n = length extra in
      if n = StakePayloadSize then
        (case DecodeStakeExtra extra of Inl e \<Rightarrow> (r, Inl (BadPayload e))
         | Inr p \<Rightarrow> no_key r (apply_v1 K p height r))
      else if n = StakeWithdrawalPayloadSizeV2 then
        (case DecodeStakeWithdrawalExtraV2 extra of Inl e \<Rightarrow> (r, Inl (BadPayload e))
         | Inr a \<Rightarrow> no_key r (applyWithdrawalV2Locked K a height r))
      else if n = StakePayloadSizeV2 then
        (case DecodeStakeExtraV2 extra of Inl e \<Rightarrow> (r, Inl (BadPayload e))
         | Inr p \<Rightarrow> (case deposit_auth K r height p of Inl e \<Rightarrow> (r, Inl e)
             | Inr _ \<Rightarrow> (case check_burn_v2 K r p of Inl e \<Rightarrow> (r, Inl e)
                 | Inr _ \<Rightarrow> deposit_burned p height r)))
      else if n = StakePayloadSizeV3 then
        (case DecodeStakeExtraV3 extra of Inl e \<Rightarrow> (r, Inl (BadPayload e))
         | Inr p \<Rightarrow> (case deposit_auth K r height p of Inl e \<Rightarrow> (r, Inl e)
             | Inr _ \<Rightarrow> (case check_burn_v3 K r p of Inl e \<Rightarrow> (r, Inl e)
                 | Inr _ \<Rightarrow> deposit_burned p height r)))
      else if n = StakePayloadSizeV4 then
        (case DecodeStakeExtraV4 extra of Inl e \<Rightarrow> (r, Inl (BadPayload e))
         | Inr p \<Rightarrow> (case validateStakeDepositV4 K L r height (rg_stakeKeyImageActivation r) p False of Inl e \<Rightarrow> (r, Inl e)
             | Inr _ \<Rightarrow> deposit_burned p height r))
      else (r, Inl (BadLength n)))"

subsection \<open>The stake transactions of a block\<close>

text \<open>Restoring the snapshot and releasing the outputs burned so far, first to last.\<close>

definition undo_stake :: "(string \<rightharpoonup> ValidatorEntry) \<Rightarrow> UTXOKey list \<Rightarrow> 'd ValidatorRegistry \<Rightarrow> 'd ValidatorRegistry" where
  "undo_stake snap keys r = foldl (\<lambda>r k. unburn k r) (r\<lparr>rg_validators := snap\<rparr>) keys"

fun apply_stake_loop :: "lib \<Rightarrow> 'd leveldb \<Rightarrow> u64 \<Rightarrow> (string \<rightharpoonup> ValidatorEntry) \<Rightarrow> Transaction list \<Rightarrow> UTXOKey list
    \<Rightarrow> 'd ValidatorRegistry \<Rightarrow> 'd ValidatorRegistry \<times> (stake_error + UTXOKey list)" where
  "apply_stake_loop K L height snap [] keys r = (r, Inr keys)"
| "apply_stake_loop K L height snap (tx # txs) keys r =
     (if \<not> IsStake tx then apply_stake_loop K L height snap txs keys r
      else case applyOneTxLocked K L tx height r of
        (r', Inl e) \<Rightarrow> (undo_stake snap keys r', Inl e)
      | (r', Inr None) \<Rightarrow> apply_stake_loop K L height snap txs keys r'
      | (r', Inr (Some k)) \<Rightarrow> apply_stake_loop K L height snap txs (keys @ [k]) r')"

text \<open>The rollback closure captures the snapshot and the burned keys; \<open>None\<close> is the empty closure.\<close>

type_synonym stake_rollback = "((string \<rightharpoonup> ValidatorEntry) \<times> UTXOKey list) option"

definition ApplyBlockStakeTxs :: "lib \<Rightarrow> 'd leveldb \<Rightarrow> Transaction list \<Rightarrow> u64 \<Rightarrow> 'd ValidatorRegistry
    \<Rightarrow> 'd ValidatorRegistry \<times> (stake_error + stake_rollback)" where
  "ApplyBlockStakeTxs K L txs height r =
     (if \<not> list_ex IsStake txs then (r, Inr None)
      else let snap = rg_validators r in
        case apply_stake_loop K L height snap txs [] r of
          (r', Inl e) \<Rightarrow> (r', Inl e)
        | (r', Inr keys) \<Rightarrow> (r', Inr (Some (snap, keys))))"

definition run_rollback :: "stake_rollback \<Rightarrow> 'd ValidatorRegistry \<Rightarrow> 'd ValidatorRegistry" where
  "run_rollback rb r = (case rb of None \<Rightarrow> r | Some (snap, keys) \<Rightarrow> undo_stake snap keys r)"

subsection \<open>The dry run of a block\<close>

record shadowEntry =
  sh_stakeNAPR :: u64
  sh_status :: ValidatorStatus
  sh_generation :: u64
  sh_nonce :: u64
  sh_seeded :: bool

definition shadow_of :: "ValidatorEntry \<Rightarrow> shadowEntry" where
  "shadow_of v = \<lparr>sh_stakeNAPR = ve_StakeNAPR v, sh_status = ve_Status v, sh_generation = ve_StakeGeneration v,
     sh_nonce = ve_StakeAuthNonce v, sh_seeded = ve_Seeded v\<rparr>"

record dry_run =
  dr_snapshot :: "string \<rightharpoonup> shadowEntry"
  dr_reserved :: "UTXOKey \<rightharpoonup> nat"
  dr_reservedKeyImages :: "key_image \<rightharpoonup> nat"

definition shadow_withdraw :: "shadowEntry option \<Rightarrow> stake_error + shadowEntry" where
  "shadow_withdraw se =
     (case se of None \<Rightarrow> Inl NotRegistered
      | Some se \<Rightarrow> if leaving (sh_status se) then Inl AlreadyLeaving else Inr (se\<lparr>sh_status := ValidatorUnbonding\<rparr>))"

definition shadow_partial :: "u64 \<Rightarrow> u64 \<Rightarrow> shadowEntry option \<Rightarrow> stake_error + shadowEntry" where
  "shadow_partial effectiveMin amount se =
     (case se of None \<Rightarrow> Inl NotRegistered
      | Some se \<Rightarrow>
          if leaving (sh_status se) then Inl AlreadyLeaving
          else if amount = 0 then Inl ZeroWithdrawal
          else if sh_stakeNAPR se \<le> amount then Inl WithdrawalTooLarge
          else let remaining = sh_stakeNAPR se - amount in
            if remaining < effectiveMin then Inl RemainingTooLow else Inr (se\<lparr>sh_stakeNAPR := remaining\<rparr>))"

definition put_shadow :: "string \<Rightarrow> dry_run \<Rightarrow> stake_error + shadowEntry \<Rightarrow> stake_error + dry_run" where
  "put_shadow key s res =
     (case res of Inl e \<Rightarrow> Inl e | Inr se \<Rightarrow> Inr (s\<lparr>dr_snapshot := (dr_snapshot s)(key \<mapsto> se)\<rparr>))"

definition dry_v1 :: "lib \<Rightarrow> 'd ValidatorRegistry \<Rightarrow> u64 \<Rightarrow> stake_v1 \<Rightarrow> dry_run \<Rightarrow> stake_error + dry_run" where
  "dry_v1 K r height p s =
     (if sp_Action p = StakeDeposit then Inl DepositNeedsProof
      else if legacy_disabled r height then Inl LegacyWithdrawalDisabled
      else if \<not> verifyValidatorSignature K r (sp_PubKey p) height (StakeSignMsg K (sp_Action p) (sp_PubKey p) (sp_Amount p)) (sp_Sig p)
        then Inl BadStakeSignature
      else let key = pub_Hex (sp_PubKey p); se = dr_snapshot s key in
        if sp_Action p = StakeWithdraw then put_shadow key s (shadow_withdraw se)
        else if sp_Action p = StakePartialWithdraw then put_shadow key s (shadow_partial (effective_min r) (sp_Amount p) se)
        else Inl UnknownAction)"

text \<open>A version-2 withdrawal that is neither full nor partial only advances the nonce of the shadow.\<close>

definition dry_withdrawal_v2 :: "lib \<Rightarrow> 'd ValidatorRegistry \<Rightarrow> u64 \<Rightarrow> StakeWithdrawalAuthorizationV2 \<Rightarrow> dry_run
    \<Rightarrow> stake_error + dry_run" where
  "dry_withdrawal_v2 K r height a s =
     (if rg_stakeWithdrawalActivation r = 0 \<or> height < rg_stakeWithdrawalActivation r \<or>
         sw_Genesis a \<noteq> rg_stakeWithdrawalGenesis r \<or> sw_ExpiryHeight a < height \<or>
         StakeWithdrawalMaxExpiryBlocks < sw_ExpiryHeight a - height \<or>
         \<not> verifyValidatorSignature K r (sw_PubKey a) height (StakeWithdrawalSignMsgV2 K a) (sw_Signature a)
      then Inl W2Invalid
      else let key = pub_Hex (sw_PubKey a) in
      case dr_snapshot s key of
        None \<Rightarrow> Inl W2Stale
      | Some se \<Rightarrow>
          if sh_seeded se \<or> sh_nonce se = max_u64 \<or> sw_Nonce a \<noteq> sh_nonce se + 1 \<or> sw_Generation a \<noteq> sh_generation se \<or>
             sw_StakeRef a \<noteq> StakeReferenceV2 K (sw_Genesis a) (sw_PubKey a) (sh_generation se) (sh_stakeNAPR se)
          then Inl W2Stale
          else if sw_Action a = StakeWithdraw then
            (if sw_Amount a \<noteq> 0 \<or> leaving (sh_status se) then Inl W2Invalid
             else Inr (s\<lparr>dr_snapshot := (dr_snapshot s)(key \<mapsto>
               se\<lparr>sh_status := ValidatorUnbonding, sh_nonce := sw_Nonce a\<rparr>)\<rparr>))
          else if sw_Action a = StakePartialWithdraw then
            (if sw_Amount a = 0 \<or> sh_stakeNAPR se \<le> sw_Amount a \<or> leaving (sh_status se) then Inl W2Invalid
             else let remaining = sh_stakeNAPR se - sw_Amount a in
               if remaining < effective_min r then Inl RemainingTooLow
               else Inr (s\<lparr>dr_snapshot := (dr_snapshot s)(key \<mapsto>
                 se\<lparr>sh_stakeNAPR := remaining, sh_nonce := sw_Nonce a\<rparr>)\<rparr>))
          else Inr (s\<lparr>dr_snapshot := (dr_snapshot s)(key \<mapsto> se\<lparr>sh_nonce := sw_Nonce a\<rparr>)\<rparr>))"

text \<open>The stateful part of a deposit, the same for the three payloads.\<close>

definition shadow_deposit :: "u64 \<Rightarrow> shadowEntry option \<Rightarrow> stake_error + shadowEntry" where
  "shadow_deposit amount se =
     (case se of
        Some se \<Rightarrow>
          if leaving (sh_status se) then Inl CannotStake
          else if max_u64 - amount < sh_stakeNAPR se then Inl TopUpOverflow
          else if sh_generation se = max_u64 then Inl GenerationExhausted
          else Inr (se\<lparr>sh_stakeNAPR := sh_stakeNAPR se + amount, sh_generation := sh_generation se + 1\<rparr>)
      | None \<Rightarrow> Inr \<lparr>sh_stakeNAPR = amount, sh_status = ValidatorPending, sh_generation = 1, sh_nonce = 0, sh_seeded = False\<rparr>)"

definition dry_deposit :: "'d ValidatorRegistry \<Rightarrow> nat \<Rightarrow> 'z stake_v2_scheme \<Rightarrow> dry_run \<Rightarrow> stake_error + dry_run" where
  "dry_deposit r i p s =
     (if sp_Amount p < effective_min r then Inl DepositTooLow
      else if MaxStakeNAPR < sp_Amount p then Inl DepositTooHigh
      else let key = pub_Hex (sp_PubKey p) in
        case shadow_deposit (sp_Amount p) (dr_snapshot s key) of
          Inl e \<Rightarrow> Inl e
        | Inr se \<Rightarrow> Inr (s\<lparr>dr_reserved := (dr_reserved s)(burn_key p \<mapsto> i), dr_snapshot := (dr_snapshot s)(key \<mapsto> se)\<rparr>))"

definition check_reserved :: "'z stake_v2_scheme \<Rightarrow> dry_run \<Rightarrow> stake_error + unit" where
  "check_reserved p s = (case dr_reserved s (burn_key p) of Some firstIdx \<Rightarrow> Inl (ReservedUTXO firstIdx) | None \<Rightarrow> Inr ())"

definition dry_v2 :: "lib \<Rightarrow> 'd ValidatorRegistry \<Rightarrow> u64 \<Rightarrow> nat \<Rightarrow> stake_v2 \<Rightarrow> dry_run \<Rightarrow> stake_error + dry_run" where
  "dry_v2 K r height i p s =
     (case deposit_auth K r height p of Inl e \<Rightarrow> Inl e | Inr _ \<Rightarrow>
      case check_reserved p s of Inl e \<Rightarrow> Inl e | Inr _ \<Rightarrow>
      case check_burn_v2 K r p of Inl e \<Rightarrow> Inl e | Inr _ \<Rightarrow> dry_deposit r i p s)"

definition dry_v3 :: "lib \<Rightarrow> 'd ValidatorRegistry \<Rightarrow> u64 \<Rightarrow> nat \<Rightarrow> stake_v3 \<Rightarrow> dry_run \<Rightarrow> stake_error + dry_run" where
  "dry_v3 K r height i p s =
     (case deposit_auth K r height p of Inl e \<Rightarrow> Inl e | Inr _ \<Rightarrow>
      case check_reserved p s of Inl e \<Rightarrow> Inl e | Inr _ \<Rightarrow>
      case check_burn_v3 K r p of Inl e \<Rightarrow> Inl e | Inr _ \<Rightarrow> dry_deposit r i p s)"

definition dry_v4 :: "lib \<Rightarrow> 'd leveldb \<Rightarrow> 'd ValidatorRegistry \<Rightarrow> u64 \<Rightarrow> (key_image \<rightharpoonup> nat) \<Rightarrow> nat \<Rightarrow> stake_v4 \<Rightarrow> dry_run
    \<Rightarrow> stake_error + dry_run" where
  "dry_v4 K L r height blockInputKeyImages i p s =
     (case validateStakeDepositV4 K L r height (rg_stakeKeyImageActivation r) p True of Inl e \<Rightarrow> Inl e | Inr _ \<Rightarrow>
      case check_reserved p s of Inl e \<Rightarrow> Inl e | Inr _ \<Rightarrow>
      case canonical_key_image K (sp_KeyImage p) of
        None \<Rightarrow> Inl KeyImageInvalidV4
      | Some canonical \<Rightarrow>
          case blockInputKeyImages canonical of
            Some inputIdx \<Rightarrow> Inl (KeyImageInBlock inputIdx)
          | None \<Rightarrow>
              case dr_reservedKeyImages s canonical of
                Some firstIdx \<Rightarrow> Inl (KeyImageReserved firstIdx)
              | None \<Rightarrow>
                  case dry_deposit r i p s of Inl e \<Rightarrow> Inl e
                  | Inr s' \<Rightarrow> Inr (s'\<lparr>dr_reservedKeyImages := (dr_reservedKeyImages s')(canonical \<mapsto> i)\<rparr>))"

definition dry_tx :: "lib \<Rightarrow> 'd leveldb \<Rightarrow> 'd ValidatorRegistry \<Rightarrow> u64 \<Rightarrow> (key_image \<rightharpoonup> nat) \<Rightarrow> nat \<times> Transaction \<Rightarrow> dry_run
    \<Rightarrow> stake_error + dry_run" where
  "dry_tx K L r height blockInputKeyImages itx s =
     (case itx of (i, tx) \<Rightarrow>
      if \<not> IsStake tx then Inr s
      else if tx_Version tx \<noteq> TxVersionStake then Inl NotStakeTx
      else let extra = tx_Extra tx; n = length extra in
      if n = StakePayloadSize then
        (case DecodeStakeExtra extra of Inl e \<Rightarrow> Inl (BadPayload e) | Inr p \<Rightarrow> dry_v1 K r height p s)
      else if n = StakeWithdrawalPayloadSizeV2 then
        (case DecodeStakeWithdrawalExtraV2 extra of Inl e \<Rightarrow> Inl (BadPayload e) | Inr a \<Rightarrow> dry_withdrawal_v2 K r height a s)
      else if n = StakePayloadSizeV2 then
        (case DecodeStakeExtraV2 extra of Inl e \<Rightarrow> Inl (BadPayload e) | Inr p \<Rightarrow> dry_v2 K r height i p s)
      else if n = StakePayloadSizeV3 then
        (case DecodeStakeExtraV3 extra of Inl e \<Rightarrow> Inl (BadPayload e) | Inr p \<Rightarrow> dry_v3 K r height i p s)
      else if n = StakePayloadSizeV4 then
        (case DecodeStakeExtraV4 extra of Inl e \<Rightarrow> Inl (BadPayload e)
         | Inr p \<Rightarrow> dry_v4 K L r height blockInputKeyImages i p s)
      else Inl (BadLength n))"

definition block_input_images :: "lib \<Rightarrow> Transaction list \<Rightarrow> (key_image \<rightharpoonup> nat)" where
  "block_input_images K txs = foldl (\<lambda>m (i, tx). if IsStake tx then m
     else foldl (\<lambda>m inp. case canonical_key_image K (in_KeyImage inp) of None \<Rightarrow> m | Some c \<Rightarrow> m(c \<mapsto> i)) m (tx_Inputs tx))
     Map.empty (enumerate 0 txs)"

definition ValidateBlockStakeTxs :: "lib \<Rightarrow> 'd leveldb \<Rightarrow> Transaction list \<Rightarrow> u64 \<Rightarrow> 'd ValidatorRegistry
    \<Rightarrow> stake_error + unit" where
  "ValidateBlockStakeTxs K L txs height r =
     (case foldE (dry_tx K L r height (block_input_images K txs)) (enumerate 0 txs)
        \<lparr>dr_snapshot = (\<lambda>k. map_option shadow_of (rg_validators r k)), dr_reserved = Map.empty,
         dr_reservedKeyImages = Map.empty\<rparr> of
        Inl e \<Rightarrow> Inl e | Inr _ \<Rightarrow> Inr ())"

subsection \<open>Admission and replay\<close>

definition ValidateStakeTx :: "lib \<Rightarrow> 'd leveldb \<Rightarrow> Transaction \<Rightarrow> 'd ValidatorRegistry \<Rightarrow> stake_error + unit" where
  "ValidateStakeTx K L tx r =
     (let height = rg_signatureAdmissionHeight r; extra = tx_Extra tx; n = length extra in
      if tx_Version tx \<noteq> TxVersionStake then Inl NotStakeTx
      else if n = StakePayloadSize then
        (case DecodeStakeExtra extra of Inl e \<Rightarrow> Inl (BadPayload e)
         | Inr p \<Rightarrow>
             if sp_Action p = StakeDeposit then Inl DepositNeedsProof
             else if \<not> verifyValidatorSignature K r (sp_PubKey p) height
                  (StakeSignMsg K (sp_Action p) (sp_PubKey p) (sp_Amount p)) (sp_Sig p) then Inl BadStakeSignature
             else Inr ())
      else if n = StakeWithdrawalPayloadSizeV2 then
        (case DecodeStakeWithdrawalExtraV2 extra of Inl e \<Rightarrow> Inl (BadPayload e)
         | Inr a \<Rightarrow>
             if rg_stakeWithdrawalActivation r = 0 \<or> sw_Genesis a \<noteq> rg_stakeWithdrawalGenesis r \<or>
                \<not> verifyValidatorSignature K r (sw_PubKey a) height (StakeWithdrawalSignMsgV2 K a) (sw_Signature a)
             then Inl W2Invalid else Inr ())
      else if n = StakePayloadSizeV2 then
        (case DecodeStakeExtraV2 extra of Inl e \<Rightarrow> Inl (BadPayload e)
         | Inr p \<Rightarrow> (case deposit_auth K r height p of Inl e \<Rightarrow> Inl e
             | Inr _ \<Rightarrow> (case check_burn_v2 K r p of Inl e \<Rightarrow> Inl e | Inr _ \<Rightarrow> Inr ())))
      else if n = StakePayloadSizeV3 then
        (case DecodeStakeExtraV3 extra of Inl e \<Rightarrow> Inl (BadPayload e)
         | Inr p \<Rightarrow> (case deposit_auth K r height p of Inl e \<Rightarrow> Inl e
             | Inr _ \<Rightarrow> (case check_burn_v3 K r p of Inl e \<Rightarrow> Inl e | Inr _ \<Rightarrow> Inr ())))
      else if n = StakePayloadSizeV4 then
        (case DecodeStakeExtraV4 extra of Inl e \<Rightarrow> Inl (BadPayload e)
         | Inr p \<Rightarrow> (case validateStakeDepositV4 K L r height (rg_stakeKeyImageActivation r) p True of Inl e \<Rightarrow> Inl e
             | Inr _ \<Rightarrow> Inr ()))
      else Inl (BadLength n))"

text \<open>At startup a burned output may be gone already; the record kept for it is rebuilt from the payload,
  with a zero commitment when the commitment cannot be computed.\<close>

definition known_burn :: "lib \<Rightarrow> 'z stake_v2_scheme \<Rightarrow> UTXO" where
  "known_burn K p = \<lparr>u_TxHash = sp_BurnTxHash p, u_OutputIndex = sp_BurnOutIdx p, u_OneTimePub = 0, u_TxPubKey = 0,
     u_AmountCommit = (case pedersen_commit K (sp_Amount p) (sp_BurnBlind p) of None \<Rightarrow> 0 | Some c \<Rightarrow> c),
     u_EncAmount = 0, u_BlockHeight = 0, u_ProtocolLocked = False\<rparr>"

definition replay_deposit :: "'z stake_v2_scheme \<Rightarrow> UTXO \<Rightarrow> u64 \<Rightarrow> 'd ValidatorRegistry \<Rightarrow> 'd ValidatorRegistry \<times> stake_error option" where
  "replay_deposit p u height r =
     (let r' = r\<lparr>rg_utxos := map_option (MarkStakedKnown (sp_BurnTxHash p) (sp_BurnOutIdx p) u) (rg_utxos r)\<rparr>
      in settle_result r' (applyDeposit (pub_Hex (sp_PubKey p)) (sp_PubKey p) (sp_Amount p) height r'))"

definition replay_v1 :: "lib \<Rightarrow> stake_v1 \<Rightarrow> u64 \<Rightarrow> 'd ValidatorRegistry \<Rightarrow> stake_error + 'd ValidatorRegistry" where
  "replay_v1 K p height r =
     (if sp_Action p = StakeDeposit \<and> rg_stakeKeyImageActivation r \<noteq> 0 \<and> rg_stakeKeyImageActivation r \<le> height
        then Inl LegacyDepositDisabled
      else if legacy_disabled r height \<and> (sp_Action p = StakeWithdraw \<or> sp_Action p = StakePartialWithdraw)
        then Inl LegacyWithdrawalDisabled
      else if \<not> verifyValidatorSignature K r (sp_PubKey p) height (StakeSignMsg K (sp_Action p) (sp_PubKey p) (sp_Amount p)) (sp_Sig p)
        then Inl BadStakeSignature
      else let key = pub_Hex (sp_PubKey p) in
        if sp_Action p = StakeWithdraw then applyWithdraw key height r
        else if sp_Action p = StakePartialWithdraw then applyPartialWithdraw key (sp_Amount p) height r
        else if sp_Action p = StakeDeposit then applyDeposit key (sp_PubKey p) (sp_Amount p) height r
        else Inl UnknownAction)"

definition replayOneTxLocked :: "lib \<Rightarrow> 'd leveldb \<Rightarrow> Transaction \<Rightarrow> u64 \<Rightarrow> 'd ValidatorRegistry
    \<Rightarrow> 'd ValidatorRegistry \<times> stake_error option" where
  "replayOneTxLocked K L tx height r =
     (if tx_Version tx \<noteq> TxVersionStake then (r, None)
      else let extra = tx_Extra tx; n = length extra in
      if n = StakePayloadSize then
        (case DecodeStakeExtra extra of Inl e \<Rightarrow> (r, Some (BadPayload e))
         | Inr p \<Rightarrow> settle_result r (replay_v1 K p height r))
      else if n = StakeWithdrawalPayloadSizeV2 then
        (case DecodeStakeWithdrawalExtraV2 extra of Inl e \<Rightarrow> (r, Some (BadPayload e))
         | Inr a \<Rightarrow> settle_result r (applyWithdrawalV2Locked K a height r))
      else if n = StakePayloadSizeV2 then
        (case DecodeStakeExtraV2 extra of Inl e \<Rightarrow> (r, Some (BadPayload e))
         | Inr p \<Rightarrow> (case deposit_auth K r height p of Inl e \<Rightarrow> (r, Some e)
             | Inr _ \<Rightarrow> replay_deposit p (known_burn K p) height r))
      else if n = StakePayloadSizeV3 then
        (case DecodeStakeExtraV3 extra of Inl e \<Rightarrow> (r, Some (BadPayload e))
         | Inr p \<Rightarrow> (case deposit_auth K r height p of Inl e \<Rightarrow> (r, Some e)
             | Inr _ \<Rightarrow> replay_deposit p (known_burn K p) height r))
      else if n = StakePayloadSizeV4 then
        (case DecodeStakeExtraV4 extra of Inl e \<Rightarrow> (r, Some (BadPayload e))
         | Inr p \<Rightarrow> (case validateStakeDepositV4 K L r height (rg_stakeKeyImageActivation r) p False of Inl e \<Rightarrow> (r, Some e)
             | Inr u \<Rightarrow> replay_deposit p u height r))
      else (r, Some (BadLength n)))"

fun ReplayBlockStakeTxs :: "lib \<Rightarrow> 'd leveldb \<Rightarrow> Transaction list \<Rightarrow> u64 \<Rightarrow> 'd ValidatorRegistry
    \<Rightarrow> 'd ValidatorRegistry \<times> stake_error option" where
  "ReplayBlockStakeTxs K L [] height r = (r, None)"
| "ReplayBlockStakeTxs K L (tx # txs) height r =
     (if \<not> IsStake tx then ReplayBlockStakeTxs K L txs height r
      else case replayOneTxLocked K L tx height r of
        (r', Some e) \<Rightarrow> (r', Some e)
      | (r', None) \<Rightarrow> ReplayBlockStakeTxs K L txs height r')"

end
