(* ===== verification/Staking.thy ===== *)
theory Staking
  imports Registry
begin

text \<open>
  Correctness of stake transactions.  The relation \<open>reg_step\<close> is the abstract specification of what a
  transaction may do to the registry; every accepted transaction refines one of its transitions, and the
  properties follow from the effect of the transitions: the stake transactions of a block apply all or
  not at all, authorizations and burned outputs are used once, stake grows only by burned collateral,
  and the dry run of a block predicts its application.
\<close>

section \<open>What a stake transaction may do\<close>

text \<open>The transitions of the registry, as an abstract specification: an exit, a reduction, either of them
  authorized by the next nonce of the validator, or a deposit whose amount opens the commitment of the
  active output that is locked for it.\<close>

datatype stake_label =
    Exits ValidatorPubKey
  | Reduces ValidatorPubKey u64
  | Authorized ValidatorPubKey u64 stake_label
  | Deposits ValidatorPubKey u64 scalar32 UTXOKey

inductive reg_step :: "lib \<Rightarrow> u64 \<Rightarrow> 'd ValidatorRegistry \<Rightarrow> stake_label \<Rightarrow> 'd ValidatorRegistry \<Rightarrow> bool"
  for K :: lib and height :: u64 where
  exits: "applyWithdraw (pub_Hex pub) height r = Inr r' \<Longrightarrow> reg_step K height r (Exits pub) r'"
| reduces: "applyPartialWithdraw (pub_Hex pub) amount height r = Inr r' \<Longrightarrow> reg_step K height r (Reduces pub amount) r'"
| authorized: "\<lbrakk>rg_validators r (pub_Hex pub) = Some e; \<not> ve_Seeded e; ve_StakeAuthNonce e \<noteq> max_u64; nonce = ve_StakeAuthNonce e + 1;
    l = Exits pub \<or> l = Reduces pub amount; reg_step K height r l r'\<rbrakk>
    \<Longrightarrow> reg_step K height r (Authorized pub nonce l) (set_nonce (pub_Hex pub) nonce r')"
| deposits: "\<lbrakk>rg_utxos r = Some us; us_utxos us key = Some u; pedersen_commit K amount blind = Some (u_AmountCommit u);
    mark_key key us = Inr us'; applyDeposit (pub_Hex pub) pub amount height (r\<lparr>rg_utxos := Some us'\<rparr>) = Inr r'\<rbrakk>
    \<Longrightarrow> reg_step K height r (Deposits pub amount blind key) r'"

inductive_cases exits_stepE: "reg_step K height r (Exits pub) r'"
inductive_cases reduces_stepE: "reg_step K height r (Reduces pub amount) r'"
inductive_cases authorized_stepE: "reg_step K height r (Authorized pub nonce l) r'"
inductive_cases deposits_stepE: "reg_step K height r (Deposits pub amount blind key) r'"

text \<open>The label of a transaction is read off its payload.\<close>

definition deposit_label :: "'z stake_v2_scheme \<Rightarrow> stake_label" where
  "deposit_label p = Deposits (sp_PubKey p) (sp_Amount p) (sp_BurnBlind p) (burn_key p)"

definition tx_label :: "Transaction \<Rightarrow> stake_label option" where
  "tx_label tx =
     (let extra = tx_Extra tx in
      case DecodeStakeExtra extra of Inr p \<Rightarrow>
        Some (if sp_Action p = StakeWithdraw then Exits (sp_PubKey p) else Reduces (sp_PubKey p) (sp_Amount p))
      | Inl _ \<Rightarrow>
      case DecodeStakeWithdrawalExtraV2 extra of Inr a \<Rightarrow>
        Some (Authorized (sw_PubKey a) (sw_Nonce a)
          (if sw_Action a = StakeWithdraw then Exits (sw_PubKey a) else Reduces (sw_PubKey a) (sw_Amount a)))
      | Inl _ \<Rightarrow>
      case DecodeStakeExtraV2 extra of Inr p \<Rightarrow> Some (deposit_label p) | Inl _ \<Rightarrow>
      case DecodeStakeExtraV3 extra of Inr p \<Rightarrow> Some (deposit_label p) | Inl _ \<Rightarrow>
      case DecodeStakeExtraV4 extra of Inr p \<Rightarrow> Some (deposit_label p) | Inl _ \<Rightarrow> None)"

fun label_burn :: "stake_label \<Rightarrow> UTXOKey option" where
  "label_burn (Deposits _ _ _ key) = Some key"
| "label_burn _ = None"

fun label_nonces :: "stake_label \<Rightarrow> (string \<times> u64) list" where
  "label_nonces (Authorized pub nonce _) = [(pub_Hex pub, nonce)]"
| "label_nonces _ = []"

lemmas stake_decode_defs = DecodeStakeExtra_def DecodeStakeWithdrawalExtraV2_def DecodeStakeExtraV2_def
  DecodeStakeExtraV3_def DecodeStakeExtraV4_def

lemma tx_label_v1: "DecodeStakeExtra (tx_Extra tx) = Inr p \<Longrightarrow> tx_label tx =
    Some (if sp_Action p = StakeWithdraw then Exits (sp_PubKey p) else Reduces (sp_PubKey p) (sp_Amount p))"
  by (simp add: tx_label_def)

lemma tx_label_w2: "DecodeStakeWithdrawalExtraV2 (tx_Extra tx) = Inr a \<Longrightarrow> tx_label tx =
    Some (Authorized (sw_PubKey a) (sw_Nonce a)
      (if sw_Action a = StakeWithdraw then Exits (sw_PubKey a) else Reduces (sw_PubKey a) (sw_Amount a)))"
proof -
  assume a: "DecodeStakeWithdrawalExtraV2 (tx_Extra tx) = Inr a"
  then have "length (tx_Extra tx) = StakeWithdrawalPayloadSizeV2" by (auto simp: DecodeStakeWithdrawalExtraV2_def split: if_splits)
  then have "DecodeStakeExtra (tx_Extra tx) = Inl ScLength" by (simp add: DecodeStakeExtra_def stake_sizes)
  with a show ?thesis by (simp add: tx_label_def)
qed

lemma tx_label_deposit:
  "DecodeStakeExtraV2 (tx_Extra tx) = Inr p2 \<Longrightarrow> tx_label tx = Some (deposit_label p2)"
  "DecodeStakeExtraV3 (tx_Extra tx) = Inr p3 \<Longrightarrow> tx_label tx = Some (deposit_label p3)"
  "DecodeStakeExtraV4 (tx_Extra tx) = Inr p4 \<Longrightarrow> tx_label tx = Some (deposit_label p4)"
  by (simp_all add: tx_label_def stake_decode_defs stake_sizes split: if_splits)

section \<open>Stake transactions refine the specification\<close>

lemma burn_Inr: "burn p r = Inr r' \<longleftrightarrow> (\<exists>us us'. rg_utxos r = Some us \<and> mark_key (burn_key p) us = Inr us' \<and>
    r' = r\<lparr>rg_utxos := Some us'\<rparr>)"
  by (auto simp: burn_def mark_key_def burn_key_def split: option.splits sum.splits)

lemma check_commit_Inr: "check_commit K p u = Inr v \<longleftrightarrow> v = u \<and> pedersen_commit K (sp_Amount p) (sp_BurnBlind p) = Some (u_AmountCommit u)"
  by (auto simp: check_commit_def split: option.splits)

text \<open>Every accepted deposit has found its output with a matching commitment.\<close>

definition burn_opens :: "lib \<Rightarrow> 'd ValidatorRegistry \<Rightarrow> 'z stake_v2_scheme \<Rightarrow> bool" where
  "burn_opens K r p \<longleftrightarrow> (\<exists>us u. rg_utxos r = Some us \<and> us_utxos us (burn_key p) = Some u \<and>
     pedersen_commit K (sp_Amount p) (sp_BurnBlind p) = Some (u_AmountCommit u))"

lemma find_burn_Inr: "find_burn r p = Inr u \<longleftrightarrow> (\<exists>us. rg_utxos r = Some us \<and> us_utxos us (burn_key p) = Some u)"
  by (auto simp: find_burn_def Get_def burn_key_def split: option.splits)

lemma check_burn_opens:
  "check_burn_v2 K r p2 = Inr u \<Longrightarrow> burn_opens K r p2"
  "check_burn_v3 K r p3 = Inr u \<Longrightarrow> burn_opens K r p3"
  by (auto simp: check_burn_v2_def check_burn_v3_def burn_opens_def find_burn_Inr check_commit_Inr
      split: sum.splits if_splits)

lemma validate_v4_opens: "validateStakeDepositV4 K L r height act p chk = Inr u \<Longrightarrow> burn_opens K r p"
  by (auto simp: validateStakeDepositV4_def burn_opens_def check_commit_Inr Get_def burn_key_def Let_def
      split: if_splits option.splits sum.splits prod.splits)

lemma deposit_burned_step:
  assumes "burn_opens K r p" and "deposit_burned p height r = (r', Inr ko)"
  shows "reg_step K height r (deposit_label p) r' \<and> ko = Some (burn_key p)"
proof -
  obtain r1 where r1: "burn p r = Inr r1" "applyDeposit (pub_Hex (sp_PubKey p)) (sp_PubKey p) (sp_Amount p) height r1 = Inr r'"
    "ko = Some (burn_key p)"
    using assms(2) by (auto simp: deposit_burned_def split: sum.splits)
  with assms(1) show ?thesis
    unfolding burn_Inr burn_opens_def deposit_label_def by (auto intro: reg_step.deposits)
qed

lemma apply_v1_step:
  assumes "apply_v1 K p height r = Inr r'"
  shows "reg_step K height r (if sp_Action p = StakeWithdraw then Exits (sp_PubKey p) else Reduces (sp_PubKey p) (sp_Amount p)) r'"
  using assms by (auto simp: apply_v1_def stake_actions split: if_splits intro: reg_step.exits reg_step.reduces)

lemma applyWithdrawalV2_step:
  assumes "applyWithdrawalV2Locked K a height r = Inr r'"
  shows "reg_step K height r (Authorized (sw_PubKey a) (sw_Nonce a)
      (if sw_Action a = StakeWithdraw then Exits (sw_PubKey a) else Reduces (sw_PubKey a) (sw_Amount a))) r'"
proof -
  obtain e where e: "validateWithdrawalV2Locked K r a height = Inr e"
    using assms by (auto simp: applyWithdrawalV2Locked_def split: sum.splits)
  then have en: "rg_validators r (pub_Hex (sw_PubKey a)) = Some e" "\<not> ve_Seeded e" "ve_StakeAuthNonce e \<noteq> max_u64"
    "sw_Nonce a = ve_StakeAuthNonce e + 1"
    by (auto simp: validateWithdrawalV2Locked_def split: if_splits option.splits)
  obtain r1 where r1: "(if sw_Action a = StakeWithdraw then
        (if sw_Amount a \<noteq> 0 then Inl W2FullAmount else applyWithdraw (pub_Hex (sw_PubKey a)) height r)
      else if sw_Action a = StakePartialWithdraw then applyPartialWithdraw (pub_Hex (sw_PubKey a)) (sw_Amount a) height r
      else Inl W2InvalidAction) = Inr r1" and r': "r' = set_nonce (pub_Hex (sw_PubKey a)) (sw_Nonce a) r1"
    using assms e by (auto simp: applyWithdrawalV2Locked_def Let_def split: sum.splits)
  from r1 have "reg_step K height r (if sw_Action a = StakeWithdraw then Exits (sw_PubKey a)
      else Reduces (sw_PubKey a) (sw_Amount a)) r1"
    by (auto split: if_splits intro: reg_step.exits reg_step.reduces)
  then show ?thesis unfolding r' by (rule reg_step.authorized [OF en, of _ "sw_Amount a", rotated]) simp
qed

lemma no_key_Inr: "no_key r res = (r', Inr ko) \<longleftrightarrow> res = Inr r' \<and> ko = None"
  by (auto simp: no_key_def split: sum.splits)

text \<open>The branches of a transaction that is accepted.\<close>

lemma applyOne_cases:
  assumes "applyOneTxLocked K L tx height r = (r', Inr ko)"
  obtains (v1) p where "DecodeStakeExtra (tx_Extra tx) = Inr p" "apply_v1 K p height r = Inr r'" "ko = None"
  | (w2) a where "DecodeStakeWithdrawalExtraV2 (tx_Extra tx) = Inr a" "applyWithdrawalV2Locked K a height r = Inr r'" "ko = None"
  | (v2) p where "DecodeStakeExtraV2 (tx_Extra tx) = Inr p" "burn_opens K r p" "deposit_burned p height r = (r', Inr ko)"
  | (v3) p where "DecodeStakeExtraV3 (tx_Extra tx) = Inr p" "burn_opens K r p" "deposit_burned p height r = (r', Inr ko)"
  | (v4) p where "DecodeStakeExtraV4 (tx_Extra tx) = Inr p" "burn_opens K r p" "deposit_burned p height r = (r', Inr ko)"
  using assms
  by (auto simp: applyOneTxLocked_def Let_def no_key_Inr split: if_splits sum.splits
      dest: check_burn_opens validate_v4_opens)

text \<open>Every accepted stake transaction is one transition of the specification, with the label its payload
  names.\<close>

lemma applyOne_refines:
  assumes "applyOneTxLocked K L tx height r = (r', Inr ko)"
  shows "\<exists>l. tx_label tx = Some l \<and> reg_step K height r l r' \<and> ko = label_burn l"
  using assms
proof (cases rule: applyOne_cases)
  case (v1 p)
  then show ?thesis using apply_v1_step [OF v1(2)] by (auto simp: tx_label_v1)
next
  case (w2 a)
  then show ?thesis using applyWithdrawalV2_step [OF w2(2)] by (auto simp: tx_label_w2)
next
  case (v2 p)
  then show ?thesis using deposit_burned_step [OF v2(2,3)] tx_label_deposit(1) [OF v2(1)] by (auto simp: deposit_label_def)
next
  case (v3 p)
  then show ?thesis using deposit_burned_step [OF v3(2,3)] tx_label_deposit(2) [OF v3(1)] by (auto simp: deposit_label_def)
next
  case (v4 p)
  then show ?thesis using deposit_burned_step [OF v4(2,3)] tx_label_deposit(3) [OF v4(1)] by (auto simp: deposit_label_def)
qed

section \<open>Effect of the transitions\<close>

lemma demoteSeeded_frame: "demoteSeededLocked r = r\<lparr>rg_validators := rg_validators (demoteSeededLocked r)\<rparr>"
  by (simp add: demoteSeededLocked_def)

lemma demoteSeeded_lookup: "rg_validators (demoteSeededLocked r) k = map_option
    (\<lambda>e. if ve_Seeded e then e\<lparr>ve_Status := ValidatorExited, ve_Seeded := False\<rparr> else e) (rg_validators r k)"
  by (simp add: demoteSeededLocked_def)

lemma applyDeposit_frame: "applyDeposit key pub amount height r = Inr r' \<Longrightarrow> r' = r\<lparr>rg_validators := rg_validators r'\<rparr>"
  by (auto simp: applyDeposit_def demoteSeededLocked_def split: if_splits option.splits sum.splits)

lemma withdraw_frame:
  "applyWithdraw key height r = Inr r' \<Longrightarrow> r' = r\<lparr>rg_validators := rg_validators r'\<rparr>"
  "applyPartialWithdraw key amount height r = Inr r' \<Longrightarrow> r' = r\<lparr>rg_validators := rg_validators r'\<rparr>"
  by (auto simp: applyWithdraw_def applyPartialWithdraw_def Let_def split: if_splits option.splits)

lemma frame_utxos: "r' = r\<lparr>rg_validators := v\<rparr> \<Longrightarrow> rg_utxos r' = rg_utxos r"
  by simp

lemma set_nonce_utxos [simp]: "rg_utxos (set_nonce key n r) = rg_utxos r"
  by (simp add: set_nonce_def)

lemma frame_restore:
  "r' = r\<lparr>rg_utxos := u, rg_validators := v\<rparr> \<Longrightarrow> r'\<lparr>rg_validators := rg_validators r, rg_utxos := rg_utxos r\<rparr> = r"
  "r' = r\<lparr>rg_validators := v\<rparr> \<Longrightarrow> r'\<lparr>rg_validators := rg_validators r, rg_utxos := rg_utxos r\<rparr> = r"
  by simp_all

text \<open>Nothing but the validators and the output set changes.\<close>

lemma reg_step_frame:
  assumes "reg_step K height r l r'"
  shows "r'\<lparr>rg_validators := rg_validators r, rg_utxos := rg_utxos r\<rparr> = r"
  using assms
proof induction
  case (exits pub r r')
  then show ?case by (rule frame_restore(2) [OF withdraw_frame(1)])
next
  case (reduces pub amount r r')
  then show ?case by (rule frame_restore(2) [OF withdraw_frame(2)])
next
  case (authorized r pub e nonce l amount r')
  then show ?case by (simp add: set_nonce_def)
next
  case (deposits r us key u amount blind us' pub r')
  then show ?case by (intro frame_restore(1) [OF applyDeposit_frame]) simp
qed

lemma reg_step_utxos:
  assumes "reg_step K height r l r'"
  shows "case label_burn l of None \<Rightarrow> rg_utxos r' = rg_utxos r
    | Some key \<Rightarrow> \<exists>us us'. rg_utxos r = Some us \<and> mark_key key us = Inr us' \<and> rg_utxos r' = Some us'"
  using assms
proof induction
  case (exits pub r r')
  then show ?case using frame_utxos [OF withdraw_frame(1)] by auto
next
  case (reduces pub amount r r')
  then show ?case using frame_utxos [OF withdraw_frame(2)] by auto
next
  case (authorized r pub e nonce l amount r')
  then show ?case by auto
next
  case (deposits r us key u amount blind us' pub r')
  then show ?case using frame_utxos [OF applyDeposit_frame] by fastforce
qed

definition tx_burn :: "Transaction \<Rightarrow> UTXOKey option" where
  "tx_burn tx = (case tx_label tx of None \<Rightarrow> None | Some l \<Rightarrow> label_burn l)"

definition block_burns :: "Transaction list \<Rightarrow> UTXOKey set" where
  "block_burns txs = {k. \<exists>tx \<in> set txs. IsStake tx \<and> tx_burn tx = Some k}"

lemma deposit_burned_error:
  assumes "\<And>us. rg_utxos r = Some us \<Longrightarrow> stake_index_ok {burn_key p} us"
    and "deposit_burned p height r = (r', Inl e)"
  shows "r' = r"
proof (cases "burn p r")
  case (Inr r1)
  then obtain us us' where us: "rg_utxos r = Some us" "mark_key (burn_key p) us = Inr us'" "r1 = r\<lparr>rg_utxos := Some us'\<rparr>"
    by (auto simp: burn_Inr)
  have "unmark_key (burn_key p) us' = us" using collateral.unmark_mark [OF assms(1) [OF us(1)] _ us(2)] by simp
  moreover have "r' = unburn (burn_key p) r1" using assms(2) Inr by (auto simp: deposit_burned_def split: sum.splits)
  ultimately show ?thesis using us by (simp add: unburn_def unmark_key_def)
qed (use assms(2) in \<open>auto simp: deposit_burned_def\<close>)

lemma no_key_Inl: "no_key r res = (r', Inl e) \<Longrightarrow> r' = r"
  by (auto simp: no_key_def split: sum.splits)

lemma applyOne_error:
  assumes "\<And>us k. rg_utxos r = Some us \<Longrightarrow> tx_burn tx = Some k \<Longrightarrow> stake_index_ok {k} us"
    and "applyOneTxLocked K L tx height r = (r', Inl e)"
  shows "r' = r"
proof -
  have burned: "r' = r" if "deposit_burned p height r = (r', Inl e)" "tx_label tx = Some (deposit_label p)" for p :: "'z stake_v2_scheme"
    by (rule deposit_burned_error [OF _ that(1)]) (use assms(1) that(2) in \<open>auto simp: tx_burn_def deposit_label_def\<close>)
  show ?thesis
  proof (cases "tx_Version tx = TxVersionStake")
    case True
    then show ?thesis using assms(2)
      by (auto simp: applyOneTxLocked_def Let_def split: if_splits sum.splits
        dest: no_key_Inl burned [OF _ tx_label_deposit(1)] burned [OF _ tx_label_deposit(2)] burned [OF _ tx_label_deposit(3)])
  qed (use assms(2) in \<open>simp add: applyOneTxLocked_def\<close>)
qed

section \<open>A block applies all its stake transactions or none\<close>

text \<open>In the middle of the block the output set is the initial one with the collected keys locked.\<close>

definition burned_since :: "'d ValidatorRegistry \<Rightarrow> UTXOKey list \<Rightarrow> 'd ValidatorRegistry \<Rightarrow> bool" where
  "burned_since r0 keys r \<longleftrightarrow> r\<lparr>rg_validators := rg_validators r0, rg_utxos := rg_utxos r0\<rparr> = r0 \<and>
     (case rg_utxos r0 of
        None \<Rightarrow> keys = [] \<and> rg_utxos r = None
      | Some us0 \<Rightarrow> \<exists>us. rg_utxos r = Some us \<and> foldE mark_key keys us0 = Inr us)"

lemma burned_since_validators [simp]: "burned_since r0 keys (r\<lparr>rg_validators := v\<rparr>) = burned_since r0 keys r"
  by (simp add: burned_since_def split: option.splits)

lemma unburn_all_utxos:
  "rg_utxos (foldl (\<lambda>r k. unburn k r) r keys) = map_option (\<lambda>us. foldl (\<lambda>s k. unmark_key k s) us keys) (rg_utxos r)"
  "foldl (\<lambda>r k. unburn k r) r keys = r\<lparr>rg_utxos := rg_utxos (foldl (\<lambda>r k. unburn k r) r keys)\<rparr>"
  by (induction keys arbitrary: r rule: rev_induct)
    (simp_all add: unburn_def unmark_key_def option.map_comp comp_def option.map_ident)

lemma undo_burned:
  assumes "\<And>us. rg_utxos r0 = Some us \<Longrightarrow> stake_index_ok (set keys) us" and "burned_since r0 keys r"
  shows "undo_stake (rg_validators r0) keys r = r0"
proof -
  let ?r = "r\<lparr>rg_validators := rg_validators r0\<rparr>"
  have "rg_utxos (foldl (\<lambda>r k. unburn k r) ?r keys) = rg_utxos r0"
  proof (cases "rg_utxos r0")
    case None
    then show ?thesis using assms(2) by (simp add: burned_since_def unburn_all_utxos(1))
  next
    case (Some us0)
    then obtain us where us: "rg_utxos r = Some us" "foldE mark_key keys us0 = Inr us"
      using assms(2) by (auto simp: burned_since_def)
    from collateral.release_all [OF assms(1) [OF Some] _ us(2)] show ?thesis
      by (simp add: unburn_all_utxos(1) us Some)
  qed
  then have "foldl (\<lambda>r k. unburn k r) ?r keys = ?r\<lparr>rg_utxos := rg_utxos r0\<rparr>"
    using unburn_all_utxos(2) [of ?r keys] by metis
  then show ?thesis using assms(2) by (simp add: undo_stake_def burned_since_def)
qed

lemma burned_since_step:
  assumes "burned_since r0 keys r" and "reg_step K height r l r'"
  shows "burned_since r0 (keys @ (case label_burn l of None \<Rightarrow> [] | Some k \<Rightarrow> [k])) r'"
proof -
  have "r'\<lparr>rg_validators := rg_validators r0, rg_utxos := rg_utxos r0\<rparr>
      = r'\<lparr>rg_validators := rg_validators r, rg_utxos := rg_utxos r\<rparr>\<lparr>rg_validators := rg_validators r0, rg_utxos := rg_utxos r0\<rparr>"
    by simp
  also have "\<dots> = r0" using reg_step_frame [OF assms(2)] assms(1) by (simp add: burned_since_def)
  finally have frame: "r'\<lparr>rg_validators := rg_validators r0, rg_utxos := rg_utxos r0\<rparr> = r0" .
  with reg_step_utxos [OF assms(2)] assms(1) show ?thesis
    by (auto simp: burned_since_def foldE_append split: option.splits)
qed

lemma burned_since_error:
  assumes "\<And>us. rg_utxos r0 = Some us \<Longrightarrow> stake_index_ok G us" and "set keys \<subseteq> G" and "burned_since r0 keys r"
    and "\<forall>k. tx_burn tx = Some k \<longrightarrow> k \<in> G" and "applyOneTxLocked K L tx height r = (r', Inl e)"
  shows "r' = r"
proof (rule applyOne_error [OF _ assms(5)])
  fix us k assume us: "rg_utxos r = Some us" and k: "tx_burn tx = Some k"
  obtain us0 where us0: "rg_utxos r0 = Some us0" "foldE mark_key keys us0 = Inr us"
    using assms(3) us by (auto simp: burned_since_def split: option.splits)
  have "stake_index_ok G us" using collateral.marks_inv [OF assms(1) [OF us0(1)] _ us0(2)] assms(2) by auto
  then show "stake_index_ok {k} us" using assms(4) k by (auto simp: stake_index_ok_def)
qed

lemma apply_stake_loop_undo:
  assumes ix: "\<And>us. rg_utxos r0 = Some us \<Longrightarrow> stake_index_ok G us" and "block_burns txs \<subseteq> G"
    and "set keys \<subseteq> G" and "burned_since r0 keys r"
  shows "case apply_stake_loop K L height (rg_validators r0) txs keys r of
      (r', Inl e) \<Rightarrow> r' = r0
    | (r', Inr keys') \<Rightarrow> set keys' \<subseteq> G \<and> burned_since r0 keys' r'"
  using assms(2-)
proof (induction txs arbitrary: keys r)
  case (Cons tx txs)
  have burns: "block_burns txs \<subseteq> G" using Cons.prems(1) by (auto simp: block_burns_def)
  show ?case
  proof (cases "IsStake tx")
    case False
    then show ?thesis using Cons.IH [OF burns Cons.prems(2,3)] by simp
  next
    case True
    then have g: "\<forall>k. tx_burn tx = Some k \<longrightarrow> k \<in> G" using Cons.prems(1) by (auto simp: block_burns_def)
    obtain r1 res where one: "applyOneTxLocked K L tx height r = (r1, res)" by (cases "applyOneTxLocked K L tx height r")
    show ?thesis
    proof (cases res)
      case (Inl e)
      then have "r1 = r" using burned_since_error [OF ix Cons.prems(2,3) g] one by simp
      moreover have "stake_index_ok (set keys) us" if "rg_utxos r0 = Some us" for us
        using ix [OF that] Cons.prems(2) by (auto simp: stake_index_ok_def)
      ultimately show ?thesis using undo_burned [OF _ Cons.prems(3)] True one Inl by simp
    next
      case (Inr ko)
      then obtain l where l: "tx_label tx = Some l" "reg_step K height r l r1" "ko = label_burn l"
        using applyOne_refines one by blast
      have b: "burned_since r0 (keys @ (case ko of None \<Rightarrow> [] | Some k \<Rightarrow> [k])) r1"
        using burned_since_step [OF Cons.prems(3) l(2)] l(3) by simp
      have k: "set (keys @ (case ko of None \<Rightarrow> [] | Some k \<Rightarrow> [k])) \<subseteq> G"
        using Cons.prems(2) g l by (auto simp: tx_burn_def split: option.splits)
      from Cons.IH [OF burns k b] True one Inr show ?thesis by (cases ko) simp_all
    qed
  qed
qed simp

text \<open>C25: The stake transactions of a block are atomic.  If one of them is refused, the registry and the
  output set are exactly what they were before the block, and after a block that was applied the
  returned rollback restores them exactly, provided the burned outputs were indexed under their
  one-time keys.\<close>

theorem stake_block_atomic:
  assumes "\<forall>us. rg_utxos r = Some us \<longrightarrow> stake_index_ok (block_burns txs) us"
  shows "case ApplyBlockStakeTxs K L txs height r of
      (r', Inl e) \<Rightarrow> r' = r
    | (r', Inr rb) \<Rightarrow> run_rollback rb r' = r"
proof (cases "list_ex IsStake txs")
  case True
  let ?G = "block_burns txs"
  have "burned_since r [] r" by (auto simp: burned_since_def split: option.splits)
  from apply_stake_loop_undo [of r ?G, OF _ subset_refl _ this] assms
  have loop: "case apply_stake_loop K L height (rg_validators r) txs [] r of
      (r', Inl e) \<Rightarrow> r' = r | (r', Inr keys') \<Rightarrow> set keys' \<subseteq> ?G \<and> burned_since r keys' r'" by simp
  have "undo_stake (rg_validators r) keys r' = r" if "set keys \<subseteq> ?G" "burned_since r keys r'" for keys r'
    by (rule undo_burned [OF _ that(2)]) (use assms that(1) in \<open>auto simp: stake_index_ok_def\<close>)
  with loop True show ?thesis
    by (auto simp: ApplyBlockStakeTxs_def run_rollback_def Let_def split: prod.splits sum.splits)
next
  case False
  then show ?thesis by (simp add: ApplyBlockStakeTxs_def run_rollback_def)
qed

section \<open>Nonces and stake\<close>

definition nonce_of :: "'d ValidatorRegistry \<Rightarrow> string \<Rightarrow> u64 option" where
  "nonce_of r k = map_option ve_StakeAuthNonce (rg_validators r k)"

text \<open>The stake that counts: sentinels of the startup scan and validators that have left carry none.\<close>

definition live_stake :: "'d ValidatorRegistry \<Rightarrow> string \<Rightarrow> nat" where
  "live_stake r k = (case rg_validators r k of None \<Rightarrow> 0
     | Some e \<Rightarrow> if ve_Seeded e \<or> ve_Status e = ValidatorExited then 0 else unat (ve_StakeNAPR e))"

lemma nonce_of_utxos [simp]: "nonce_of (r\<lparr>rg_utxos := u\<rparr>) = nonce_of r"
  by (simp add: nonce_of_def fun_eq_iff)

lemma live_stake_utxos [simp]: "live_stake (r\<lparr>rg_utxos := u\<rparr>) = live_stake r"
  by (simp add: live_stake_def fun_eq_iff)

lemma nonce_of_demote [simp]: "nonce_of (demoteSeededLocked r) = nonce_of r"
  by (auto simp: nonce_of_def fun_eq_iff demoteSeeded_lookup option.map_comp comp_def if_distrib [of ve_StakeAuthNonce]
      cong: if_cong)

lemma live_stake_demote [simp]: "live_stake (demoteSeededLocked r) = live_stake r"
  by (auto simp: live_stake_def fun_eq_iff demoteSeeded_lookup split: option.splits)

lemma withdraw_nonce:
  "applyWithdraw key height r = Inr r' \<Longrightarrow> nonce_of r' = nonce_of r"
  "applyPartialWithdraw key amount height r = Inr r' \<Longrightarrow> nonce_of r' = nonce_of r"
  by (auto simp: applyWithdraw_def applyPartialWithdraw_def nonce_of_def fun_eq_iff Let_def split: option.splits if_splits)

lemma withdraw_stake:
  "applyWithdraw key height r = Inr r' \<Longrightarrow> live_stake r' = live_stake r"
  "applyPartialWithdraw key amount height r = Inr r' \<Longrightarrow> live_stake r' k \<le> live_stake r k"
  by (auto simp: applyWithdraw_def applyPartialWithdraw_def live_stake_def fun_eq_iff leaving_def Let_def
      unat_diff_u64 not_le less_imp_le split: option.splits if_splits)

lemma deposit_existing_Inr:
  assumes "deposit_existing amount height e = Inr e'"
  shows "ve_StakeAuthNonce e' = ve_StakeAuthNonce e" and "\<not> ve_Seeded e'" and "\<not> leaving (ve_Status e')"
    and "unat (ve_StakeNAPR e') = (if ve_Seeded e then 0 else unat (ve_StakeNAPR e)) + unat amount"
    and "\<not> leaving (ve_Status e)"
proof -
  have no_wrap: "unat (s + amount) = unat s + unat amount" if "\<not> max_u64 - amount < s" for s :: u64
    using that by (intro unat_add_u64) (simp add: u64_overflow_iff not_le add.commute)
  show "ve_StakeAuthNonce e' = ve_StakeAuthNonce e" "\<not> ve_Seeded e'" "\<not> leaving (ve_Status e')" "\<not> leaving (ve_Status e)"
    using assms by (auto simp: deposit_existing_def leaving_def Let_def split: if_splits)
  show "unat (ve_StakeNAPR e') = (if ve_Seeded e then 0 else unat (ve_StakeNAPR e)) + unat amount"
    using assms no_wrap by (auto simp: deposit_existing_def Let_def split: if_splits)
qed

lemma applyDeposit_Inr:
  assumes "applyDeposit key pub amount height r = Inr r'"
  shows "effective_min r \<le> amount \<and> amount \<le> MaxStakeNAPR \<and>
    (\<exists>e'. r' = demoteSeededLocked (r\<lparr>rg_validators := (rg_validators r)(key \<mapsto> e')\<rparr>) \<and> \<not> ve_Seeded e' \<and> \<not> leaving (ve_Status e') \<and>
      (case rg_validators r key of
         None \<Rightarrow> ve_StakeAuthNonce e' = 0 \<and> ve_StakeNAPR e' = amount
       | Some e \<Rightarrow> ve_StakeAuthNonce e' = ve_StakeAuthNonce e \<and> \<not> leaving (ve_Status e) \<and>
           unat (ve_StakeNAPR e') = (if ve_Seeded e then 0 else unat (ve_StakeNAPR e)) + unat amount))"
proof (cases "rg_validators r key")
  case None
  then show ?thesis using assms
    by (auto simp: applyDeposit_def new_entry_def leaving_def not_less split: if_splits)
next
  case (Some e)
  then obtain e' where e': "deposit_existing amount height e = Inr e'"
    "r' = demoteSeededLocked (r\<lparr>rg_validators := (rg_validators r)(key \<mapsto> e')\<rparr>)"
    using assms by (auto simp: applyDeposit_def split: if_splits sum.splits)
  then show ?thesis using assms Some deposit_existing_Inr [OF e'(1)]
    by (auto simp: applyDeposit_def not_less split: if_splits)
qed

lemma applyDeposit_nonce:
  assumes "applyDeposit key pub amount height r = Inr r'"
  shows "nonce_of r' = (nonce_of r)(key := Some (case nonce_of r key of None \<Rightarrow> 0 | Some n \<Rightarrow> n))"
proof -
  obtain e' where e': "r' = demoteSeededLocked (r\<lparr>rg_validators := (rg_validators r)(key \<mapsto> e')\<rparr>)"
    "ve_StakeAuthNonce e' = (case nonce_of r key of None \<Rightarrow> 0 | Some n \<Rightarrow> n)"
    using applyDeposit_Inr [OF assms] by (auto simp: nonce_of_def split: option.splits)
  then have "nonce_of r' = nonce_of (r\<lparr>rg_validators := (rg_validators r)(key \<mapsto> e')\<rparr>)" by simp
  then show ?thesis using e'(2) by (auto simp: nonce_of_def fun_eq_iff)
qed

lemma applyDeposit_stake:
  assumes "applyDeposit key pub amount height r = Inr r'"
  shows "live_stake r' = (live_stake r)(key := live_stake r key + unat amount)"
proof -
  obtain e' where e': "r' = demoteSeededLocked (r\<lparr>rg_validators := (rg_validators r)(key \<mapsto> e')\<rparr>)" "\<not> ve_Seeded e'"
    "\<not> leaving (ve_Status e')" "unat (ve_StakeNAPR e') = live_stake r key + unat amount"
    using applyDeposit_Inr [OF assms] by (fastforce simp: live_stake_def leaving_def split: option.splits)
  then show ?thesis by (auto simp: live_stake_def fun_eq_iff leaving_def demoteSeeded_lookup split: option.splits)
qed

lemma u64_next: "(n :: u64) \<noteq> max_u64 \<Longrightarrow> n < n + 1"
  using unat_add_u64 [of n 1] unat_u64_le [of n] by (auto simp: u64_as_nat unat_max_u64)

lemma reg_step_nonce:
  assumes "reg_step K height r l r'"
  shows "nonce_of r k = Some n \<Longrightarrow> \<exists>n' \<ge> n. nonce_of r' k = Some n'"
    and "(k, n) \<in> set (label_nonces l) \<Longrightarrow> (\<exists>m < n. nonce_of r k = Some m) \<and> nonce_of r' k = Some n"
proof -
  have "(nonce_of r k = Some n \<longrightarrow> (\<exists>n' \<ge> n. nonce_of r' k = Some n')) \<and>
      ((k, n) \<in> set (label_nonces l) \<longrightarrow> (\<exists>m < n. nonce_of r k = Some m) \<and> nonce_of r' k = Some n)"
    using assms
  proof (induction arbitrary: n k)
    case (exits pub r r')
    then show ?case using withdraw_nonce(1) by fastforce
  next
    case (reduces pub amount r r')
    then show ?case using withdraw_nonce(2) by fastforce
  next
    case (authorized r pub e nonce l amount r')
    let ?k = "pub_Hex pub"
    have same: "nonce_of r' = nonce_of r"
      using authorized.hyps(5,6) withdraw_nonce by (auto elim!: exits_stepE reduces_stepE)
    have lt: "ve_StakeAuthNonce e < nonce"
      using authorized.hyps(3,4) by (simp add: u64_next)
    have old: "nonce_of r ?k = Some (ve_StakeAuthNonce e)" using authorized.hyps(1) by (simp add: nonce_of_def)
    obtain e1 where "rg_validators r' ?k = Some e1" using same old by (metis map_option_is_None nonce_of_def not_None_eq)
    then have "nonce_of (set_nonce ?k nonce r') = (nonce_of r')(?k := Some nonce)"
      by (auto simp: nonce_of_def set_nonce_def fun_eq_iff)
    then have "nonce_of (set_nonce ?k nonce r') = (nonce_of r)(?k := Some nonce)" by (simp add: same)
    then show ?case using lt old by (auto simp: less_imp_le)
  next
    case (deposits r us key u amount blind us' pub r')
    then show ?case using applyDeposit_nonce [OF deposits.hyps(5)] by (auto split: option.splits)
  qed
  then show "nonce_of r k = Some n \<Longrightarrow> \<exists>n' \<ge> n. nonce_of r' k = Some n'"
    and "(k, n) \<in> set (label_nonces l) \<Longrightarrow> (\<exists>m < n. nonce_of r k = Some m) \<and> nonce_of r' k = Some n" by auto
qed

fun label_deposit :: "stake_label \<Rightarrow> string \<Rightarrow> nat" where
  "label_deposit (Deposits pub amount _ _) k = (if k = pub_Hex pub then unat amount else 0)"
| "label_deposit _ k = 0"

lemma set_nonce_stake [simp]: "live_stake (set_nonce key n r) = live_stake r"
  by (auto simp: live_stake_def set_nonce_def fun_eq_iff split: option.splits)

lemma reg_step_stake:
  assumes "reg_step K height r l r'"
  shows "live_stake r' k \<le> live_stake r k + label_deposit l k"
  using assms
proof induction
  case (exits pub r r')
  then show ?case using withdraw_stake(1) by fastforce
next
  case (reduces pub amount r r')
  then show ?case using withdraw_stake(2) by fastforce
next
  case (authorized r pub e nonce l amount r')
  then show ?case by auto
next
  case (deposits r us key u amount blind us' pub r')
  then show ?case using applyDeposit_stake [OF deposits.hyps(5)] by auto
qed

section \<open>The dry run predicts the application\<close>

definition no_seeded :: "'d ValidatorRegistry \<Rightarrow> bool" where
  "no_seeded r \<longleftrightarrow> (\<forall>k e. rg_validators r k = Some e \<longrightarrow> \<not> ve_Seeded e)"

definition collateral_inactive :: "'d ValidatorRegistry \<Rightarrow> bool" where
  "collateral_inactive r \<longleftrightarrow> (\<forall>us k. rg_utxos r = Some us \<longrightarrow> us_stakedUTXOs us k \<noteq> None \<longrightarrow> us_utxos us k = None)"

text \<open>The dry run \<open>s\<close>, started from \<open>r0\<close>, has reached the registry \<open>r\<close>.\<close>

definition dry_sim :: "'d ValidatorRegistry \<Rightarrow> dry_run \<Rightarrow> 'd ValidatorRegistry \<Rightarrow> bool" where
  "dry_sim r0 s r \<longleftrightarrow> no_seeded r \<and> (\<forall>k. dr_snapshot s k = map_option shadow_of (rg_validators r k)) \<and>
     (\<exists>keys. burned_since r0 keys r \<and> set keys = dom (dr_reserved s))"

lemma dry_sim_config:
  assumes "dry_sim r0 s r"
  shows "rg_dynamicMinNAPR r = rg_dynamicMinNAPR r0" "rg_stakeWithdrawalGenesis r = rg_stakeWithdrawalGenesis r0"
    "rg_stakeWithdrawalActivation r = rg_stakeWithdrawalActivation r0" "rg_stakeKeyImageActivation r = rg_stakeKeyImageActivation r0"
    "rg_signatureFork r = rg_signatureFork r0"
proof -
  have "r\<lparr>rg_validators := rg_validators r0, rg_utxos := rg_utxos r0\<rparr> = r0"
    using assms by (auto simp: dry_sim_def burned_since_def)
  then show "rg_dynamicMinNAPR r = rg_dynamicMinNAPR r0" "rg_stakeWithdrawalGenesis r = rg_stakeWithdrawalGenesis r0"
    "rg_stakeWithdrawalActivation r = rg_stakeWithdrawalActivation r0" "rg_stakeKeyImageActivation r = rg_stakeKeyImageActivation r0"
    "rg_signatureFork r = rg_signatureFork r0"
    by (cases r, cases r0, simp)+
qed

lemma dry_sim_checks:
  assumes "dry_sim r0 s r"
  shows "verifyValidatorSignature K r = verifyValidatorSignature K r0" and "effective_min r = effective_min r0"
    and "legacy_disabled r = legacy_disabled r0" and "deposit_auth K r height p = deposit_auth K r0 height p"
proof -
  show v: "verifyValidatorSignature K r = verifyValidatorSignature K r0"
    by (simp add: verifyValidatorSignature_def fun_eq_iff dry_sim_config [OF assms])
  show "effective_min r = effective_min r0" "legacy_disabled r = legacy_disabled r0"
    by (simp_all add: effective_min_def legacy_disabled_def fun_eq_iff dry_sim_config [OF assms])
  show "deposit_auth K r height p = deposit_auth K r0 height p"
    by (simp add: deposit_auth_def v dry_sim_config [OF assms])
qed

lemma marks_other:
  "foldE mark_key keys us0 = Inr us \<Longrightarrow> k \<notin> set keys \<Longrightarrow>
     us_utxos us k = us_utxos us0 k \<and> us_stakedUTXOs us k = us_stakedUTXOs us0 k"
  by (induction keys arbitrary: us0) (auto split: sum.splits simp: mark_key_Inr)

lemma dry_sim_burn:
  assumes "dry_sim r0 s r" and "dr_reserved s (burn_key p) = None"
  shows "find_burn r p = find_burn r0 p"
    and "collateral_inactive r0 \<Longrightarrow> find_burn r0 p = Inr u \<Longrightarrow> \<exists>us us'. rg_utxos r = Some us \<and> mark_key (burn_key p) us = Inr us'"
proof -
  obtain keys where k: "burned_since r0 keys r" "burn_key p \<notin> set keys"
    using assms by (auto simp: dry_sim_def domIff)
  show f: "find_burn r p = find_burn r0 p"
  proof (cases "rg_utxos r0")
    case None
    then show ?thesis using k by (simp add: burned_since_def find_burn_def)
  next
    case (Some us0)
    then obtain us where "rg_utxos r = Some us" "foldE mark_key keys us0 = Inr us" using k by (auto simp: burned_since_def)
    with marks_other [OF this(2) k(2)] Some show ?thesis by (simp add: find_burn_def Get_def burn_key_def)
  qed
  assume i: "collateral_inactive r0" and u: "find_burn r0 p = Inr u"
  then obtain us0 where us0: "rg_utxos r0 = Some us0" "us_utxos us0 (burn_key p) = Some u" by (auto simp: find_burn_Inr)
  then obtain us where us: "rg_utxos r = Some us" "foldE mark_key keys us0 = Inr us" using k by (auto simp: burned_since_def)
  have "us_stakedUTXOs us0 (burn_key p) = None" using i us0 unfolding collateral_inactive_def by (metis option.discI)
  with marks_other [OF us(2) k(2)] us0 us show "\<exists>us us'. rg_utxos r = Some us \<and> mark_key (burn_key p) us = Inr us'"
    by (auto simp: mark_key_Inr)
qed

lemma demote_none: "no_seeded r \<Longrightarrow> demoteSeededLocked r = r"
  by (rule ValidatorRegistry.equality)
    (auto simp: demoteSeededLocked_def no_seeded_def fun_eq_iff map_option_case split: option.splits)

lemma shadow_deposit_entry:
  assumes "shadow_deposit amount (map_option shadow_of eo) = Inr se" and "\<And>e. eo = Some e \<Longrightarrow> \<not> ve_Seeded e"
  shows "case eo of None \<Rightarrow> shadow_of (new_entry pub amount height) = se
    | Some e \<Rightarrow> \<exists>e'. deposit_existing amount height e = Inr e' \<and> shadow_of e' = se \<and> \<not> ve_Seeded e'"
  using assms
  by (cases eo) (auto simp: shadow_deposit_def shadow_of_def new_entry_def deposit_existing_def leaving_def split: if_splits)

lemma dry_deposit_applies:
  assumes sim: "dry_sim r0 s r" and i: "collateral_inactive r0" and u: "find_burn r0 p = Inr u"
    and fresh: "dr_reserved s (burn_key p) = None" and dry: "dry_deposit r0 i p s = Inr s'"
  shows "\<exists>r' ko. deposit_burned p height r = (r', Inr ko) \<and> dry_sim r0 s' r'"
proof -
  let ?k = "pub_Hex (sp_PubKey p)"
  obtain us us' where us: "rg_utxos r = Some us" "mark_key (burn_key p) us = Inr us'"
    using dry_sim_burn(2) [OF sim fresh i u] by blast
  define r1 where "r1 = r\<lparr>rg_utxos := Some us'\<rparr>"
  have burn: "burn p r = Inr r1" using us by (auto simp: burn_Inr r1_def)
  have ns: "no_seeded r" and snap: "\<And>k. dr_snapshot s k = map_option shadow_of (rg_validators r k)"
    using sim by (auto simp: dry_sim_def)
  obtain keys where keys: "burned_since r0 keys r" "set keys = dom (dr_reserved s)" using sim by (auto simp: dry_sim_def)
  obtain se where se: "shadow_deposit (sp_Amount p) (map_option shadow_of (rg_validators r ?k)) = Inr se"
    and s': "s' = s\<lparr>dr_reserved := (dr_reserved s)(burn_key p \<mapsto> i), dr_snapshot := (dr_snapshot s)(?k \<mapsto> se)\<rparr>"
    and amount: "\<not> sp_Amount p < effective_min r0" "\<not> MaxStakeNAPR < sp_Amount p"
    using dry snap by (auto simp: dry_deposit_def Let_def split: if_splits sum.splits)
  have min: "effective_min r1 = effective_min r0"
    using dry_sim_config(1) [OF sim] by (simp add: r1_def effective_min_def)
  have "\<exists>e'. shadow_of e' = se \<and> \<not> ve_Seeded e' \<and> applyDeposit ?k (sp_PubKey p) (sp_Amount p) height r1
      = Inr (demoteSeededLocked (r1\<lparr>rg_validators := (rg_validators r1)(?k \<mapsto> e')\<rparr>))"
  proof (cases "rg_validators r ?k")
    case None
    have "\<not> ve_Seeded (new_entry (sp_PubKey p) (sp_Amount p) height)" by (simp add: new_entry_def)
    moreover have "shadow_of (new_entry (sp_PubKey p) (sp_Amount p) height) = se" using shadow_deposit_entry [OF se] None by simp
    ultimately show ?thesis using None amount min by (intro exI conjI) (auto simp: applyDeposit_def r1_def)
  next
    case (Some e)
    then have "\<not> ve_Seeded e" using ns by (auto simp: no_seeded_def)
    then obtain e' where "deposit_existing (sp_Amount p) height e = Inr e'" "shadow_of e' = se" "\<not> ve_Seeded e'"
      using shadow_deposit_entry [OF se] Some by auto
    then show ?thesis using Some amount min by (intro exI [of _ e'] conjI) (auto simp: applyDeposit_def r1_def)
  qed
  then obtain e' where e': "shadow_of e' = se" "\<not> ve_Seeded e'"
    "applyDeposit ?k (sp_PubKey p) (sp_Amount p) height r1
      = Inr (demoteSeededLocked (r1\<lparr>rg_validators := (rg_validators r1)(?k \<mapsto> e')\<rparr>))" by blast
  define r2 where "r2 = r1\<lparr>rg_validators := (rg_validators r1)(?k \<mapsto> e')\<rparr>"
  have ns2: "no_seeded r2" using ns e'(2) by (auto simp: no_seeded_def r2_def r1_def)
  have app: "applyDeposit ?k (sp_PubKey p) (sp_Amount p) height r1 = Inr r2" using e'(3) demote_none [OF ns2] by (simp add: r2_def)
  have "burned_since r0 (keys @ [burn_key p]) r2"
    using keys(1) us by (auto simp: burned_since_def r2_def r1_def foldE_append split: option.splits)
  moreover have "dr_snapshot s' k = map_option shadow_of (rg_validators r2 k)" for k
    using snap e'(1) by (simp add: s' r2_def r1_def)
  moreover have "set (keys @ [burn_key p]) = dom (dr_reserved s')" using keys(2) by (auto simp: s')
  ultimately have "dry_sim r0 s' r2" using ns2 unfolding dry_sim_def by blast
  then show ?thesis using burn app by (auto simp: deposit_burned_def)
qed

text \<open>Replacing the entry of one validator keeps the simulation when the shadow is replaced alike.\<close>

lemma dry_sim_entry:
  assumes "dry_sim r0 s r" and "shadow_of e = se" and "\<not> ve_Seeded e"
  shows "dry_sim r0 (s\<lparr>dr_snapshot := (dr_snapshot s)(k \<mapsto> se)\<rparr>) (r\<lparr>rg_validators := (rg_validators r)(k \<mapsto> e)\<rparr>)"
  using assms by (auto simp: dry_sim_def no_seeded_def)

lemma dry_v1_applies:
  assumes sim: "dry_sim r0 s r" and dry: "dry_v1 K r0 height p s = Inr s'"
  shows "\<exists>r'. apply_v1 K p height r = Inr r' \<and> dry_sim r0 s' r'"
proof -
  let ?k = "pub_Hex (sp_PubKey p)"
  note cfg = dry_sim_checks [OF sim]
  have snap: "dr_snapshot s ?k = map_option shadow_of (rg_validators r ?k)" using sim by (auto simp: dry_sim_def)
  obtain e where e: "rg_validators r ?k = Some e"
    using dry snap by (cases "rg_validators r ?k")
      (auto simp: dry_v1_def put_shadow_def shadow_withdraw_def shadow_partial_def Let_def split: if_splits)
  then have ns: "\<not> ve_Seeded e" using sim by (auto simp: dry_sim_def no_seeded_def)
  have act: "sp_Action p = StakeWithdraw \<or> sp_Action p = StakePartialWithdraw"
    using dry by (auto simp: dry_v1_def Let_def split: if_splits)
  then show ?thesis
  proof
    assume a: "sp_Action p = StakeWithdraw"
    then show ?thesis using dry snap e ns dry_sim_entry [OF sim]
      by (auto simp: dry_v1_def apply_v1_def put_shadow_def shadow_withdraw_def applyWithdraw_def cfg shadow_of_def Let_def
          split: if_splits)
  next
    assume a: "sp_Action p = StakePartialWithdraw"
    then show ?thesis using dry snap e ns dry_sim_entry [OF sim]
      by (auto simp: dry_v1_def apply_v1_def put_shadow_def shadow_partial_def applyPartialWithdraw_def cfg shadow_of_def Let_def
          stake_actions split: if_splits)
  qed
qed

lemma set_nonce_entry: "rg_validators r k = Some e \<Longrightarrow>
   set_nonce k n r = r\<lparr>rg_validators := (rg_validators r)(k \<mapsto> e\<lparr>ve_StakeAuthNonce := n\<rparr>)\<rparr>"
  by (simp add: set_nonce_def)

lemma dry_withdrawal_v2_applies:
  assumes sim: "dry_sim r0 s r" and dry: "dry_withdrawal_v2 K r0 height a s = Inr s'"
    and act: "sw_Action a = StakeWithdraw \<or> sw_Action a = StakePartialWithdraw"
  shows "\<exists>r'. applyWithdrawalV2Locked K a height r = Inr r' \<and> dry_sim r0 s' r'"
proof -
  let ?k = "pub_Hex (sw_PubKey a)"
  note cfg = dry_sim_checks [OF sim] dry_sim_config [OF sim]
  have snap: "dr_snapshot s ?k = map_option shadow_of (rg_validators r ?k)" using sim by (auto simp: dry_sim_def)
  obtain e where e: "rg_validators r ?k = Some e"
    using dry snap by (cases "rg_validators r ?k") (auto simp: dry_withdrawal_v2_def Let_def split: if_splits)
  then have ns: "\<not> ve_Seeded e" using sim by (auto simp: dry_sim_def no_seeded_def)
  have ok: "validateWithdrawalV2Locked K r a height = Inr e"
    using dry snap e ns by (auto simp: dry_withdrawal_v2_def validateWithdrawalV2Locked_def cfg shadow_of_def Let_def split: if_splits)
  from act show ?thesis
  proof
    assume a: "sw_Action a = StakeWithdraw"
    then show ?thesis using dry snap e ns ok dry_sim_entry [OF sim]
      by (auto simp: dry_withdrawal_v2_def applyWithdrawalV2Locked_def applyWithdraw_def set_nonce_entry cfg shadow_of_def Let_def
          split: if_splits)
  next
    assume a: "sw_Action a = StakePartialWithdraw"
    then show ?thesis using dry snap e ns ok dry_sim_entry [OF sim]
      by (auto simp: dry_withdrawal_v2_def applyWithdrawalV2Locked_def applyPartialWithdraw_def set_nonce_entry cfg shadow_of_def
          Let_def stake_actions split: if_splits)
  qed
qed

lemma check_burn_find:
  "check_burn_v2 K r p2 = Inr u \<Longrightarrow> find_burn r p2 = Inr u"
  "check_burn_v3 K r p3 = Inr u \<Longrightarrow> find_burn r p3 = Inr u"
  by (auto simp: check_burn_v2_def check_burn_v3_def check_commit_Inr split: sum.splits if_splits)

lemma validate_v4_find: "validateStakeDepositV4 K L r height act p chk = Inr u \<Longrightarrow> find_burn r p = Inr u"
  by (auto simp: validateStakeDepositV4_def find_burn_def check_commit_Inr Let_def
      split: if_splits option.splits sum.splits prod.splits)

lemma validate_v4_alt:
  "validateStakeDepositV4 K L r height act p False =
     (if act = 0 \<or> height < act then Inl V4Inactive
      else if sp_Action p \<noteq> StakeDeposit then Inl WrongActionForPayload
      else if \<not> verifyValidatorSignature K r (sp_PubKey p) height
           (StakeSignMsgV2 K (sp_Action p) (sp_PubKey p) (sp_Amount p) (sp_BurnTxHash p) (sp_BurnOutIdx p)) (sp_Sig p)
        then Inl BadStakeSignature
      else case find_burn r p of Inl e \<Rightarrow> Inl e
      | Inr u \<Rightarrow> case check_commit K p u of Inl e \<Rightarrow> Inl e
          | Inr _ \<Rightarrow> if \<not> key_image_proof_ok K (u_OneTimePub u) (sp_KeyImage p) (StakeKeyImageProofContext (sp_Action p)
              (sp_PubKey p) (sp_Amount p) (sp_BurnTxHash p) (sp_BurnOutIdx p) (sp_BurnBlind p)) (sp_Proof p)
              then Inl KeyImageProofInvalid else Inr u)"
  by (auto simp: validateStakeDepositV4_def find_burn_def Let_def split: option.splits sum.splits)

lemma validate_v4_unspent:
  "validateStakeDepositV4 K L r height act p True = Inr u \<Longrightarrow> validateStakeDepositV4 K L r height act p False = Inr u"
  by (auto simp: validateStakeDepositV4_def Let_def split: if_splits option.splits sum.splits prod.splits)

lemma dry_tx_applies:
  assumes sim: "dry_sim r0 s r" and i: "collateral_inactive r0" and st: "IsStake tx"
    and dry: "dry_tx K L r0 height bim (j, tx) s = Inr s'"
  shows "\<exists>r' ko. applyOneTxLocked K L tx height r = (r', Inr ko) \<and> dry_sim r0 s' r'"
proof -
  let ?x = "tx_Extra tx"
  have v: "tx_Version tx = TxVersionStake" using st by (simp add: IsStake_def)
  consider (v1) p where "length ?x = StakePayloadSize" "DecodeStakeExtra ?x = Inr p" "dry_v1 K r0 height p s = Inr s'"
    | (w2) a where "length ?x = StakeWithdrawalPayloadSizeV2" "DecodeStakeWithdrawalExtraV2 ?x = Inr a"
        "dry_withdrawal_v2 K r0 height a s = Inr s'"
    | (v2) p where "length ?x = StakePayloadSizeV2" "DecodeStakeExtraV2 ?x = Inr p" "dry_v2 K r0 height j p s = Inr s'"
    | (v3) p where "length ?x = StakePayloadSizeV3" "DecodeStakeExtraV3 ?x = Inr p" "dry_v3 K r0 height j p s = Inr s'"
    | (v4) p where "length ?x = StakePayloadSizeV4" "DecodeStakeExtraV4 ?x = Inr p" "dry_v4 K L r0 height bim j p s = Inr s'"
    using dry st v by (auto simp: dry_tx_def Let_def split: if_splits sum.splits)
  then show ?thesis
  proof cases
    case (v1 p)
    then show ?thesis using dry_v1_applies [OF sim v1(3)] v by (auto simp: applyOneTxLocked_def no_key_def)
  next
    case (w2 a)
    have "sw_Action a = StakeWithdraw \<or> sw_Action a = StakePartialWithdraw"
      using w2(2) by (auto simp: DecodeStakeWithdrawalExtraV2_def withdraw_action_def Let_def split: if_splits)
    then show ?thesis using dry_withdrawal_v2_applies [OF sim w2(3)] v w2 by (auto simp: applyOneTxLocked_def no_key_def stake_sizes)
  next
    case (v2 p)
    then obtain u where u: "deposit_auth K r0 height p = Inr ()" "dr_reserved s (burn_key p) = None" "check_burn_v2 K r0 p = Inr u"
      "dry_deposit r0 j p s = Inr s'" by (auto simp: dry_v2_def check_reserved_def split: sum.splits option.splits)
    have "check_burn_v2 K r p = Inr u" using u(3) dry_sim_burn(1) [OF sim u(2)] by (simp add: check_burn_v2_def)
    then show ?thesis using dry_deposit_applies [OF sim i check_burn_find(1) [OF u(3)] u(2,4)] u(1) v v2
      by (auto simp: applyOneTxLocked_def dry_sim_checks(4) [OF sim] stake_sizes)
  next
    case (v3 p)
    then obtain u where u: "deposit_auth K r0 height p = Inr ()" "dr_reserved s (burn_key p) = None" "check_burn_v3 K r0 p = Inr u"
      "dry_deposit r0 j p s = Inr s'" by (auto simp: dry_v3_def check_reserved_def split: sum.splits option.splits)
    have "check_burn_v3 K r p = Inr u" using u(3) dry_sim_burn(1) [OF sim u(2)] by (simp add: check_burn_v3_def)
    then show ?thesis using dry_deposit_applies [OF sim i check_burn_find(2) [OF u(3)] u(2,4)] u(1) v v3
      by (auto simp: applyOneTxLocked_def dry_sim_checks(4) [OF sim] stake_sizes)
  next
    case (v4 p)
    let ?act = "rg_stakeKeyImageActivation r0"
    from v4 obtain u c s1 where u: "validateStakeDepositV4 K L r0 height ?act p True = Inr u" "dr_reserved s (burn_key p) = None"
      "dry_deposit r0 j p s = Inr s1" "s' = s1\<lparr>dr_reservedKeyImages := c\<rparr>"
      by (auto simp: dry_v4_def check_reserved_def split: sum.splits option.splits)
    have "validateStakeDepositV4 K L r height (rg_stakeKeyImageActivation r) p False = Inr u"
      using validate_v4_unspent [OF u(1)]
      unfolding validate_v4_alt dry_sim_checks(1) [OF sim] dry_sim_config(4) [OF sim] dry_sim_burn(1) [OF sim u(2)] .
    moreover have "\<exists>r' ko. deposit_burned p height r = (r', Inr ko) \<and> dry_sim r0 s' r'"
      using dry_deposit_applies [OF sim i validate_v4_find [OF u(1)] u(2,3)] by (simp add: u(4) dry_sim_def)
    ultimately show ?thesis using v v4 by (auto simp: applyOneTxLocked_def stake_sizes)
  qed
qed

lemma dry_run_loop:
  assumes "foldE (dry_tx K L r0 height bim) (enumerate j txs) s = Inr s'" and "dry_sim r0 s r" and "collateral_inactive r0"
  shows "\<exists>r' keys'. apply_stake_loop K L height snap txs keys r = (r', Inr keys') \<and> dry_sim r0 s' r'"
  using assms(1,2)
proof (induction txs arbitrary: j s r keys)
  case (Cons tx txs)
  then obtain s1 where s1: "dry_tx K L r0 height bim (j, tx) s = Inr s1"
    "foldE (dry_tx K L r0 height bim) (enumerate (Suc j) txs) s1 = Inr s'" by (auto split: sum.splits)
  show ?case
  proof (cases "IsStake tx")
    case True
    from dry_tx_applies [OF Cons.prems(2) assms(3) True s1(1)] obtain r1 ko where
      "applyOneTxLocked K L tx height r = (r1, Inr ko)" "dry_sim r0 s1 r1" by blast
    with Cons.IH [OF s1(2)] True show ?thesis by (cases ko) simp_all
  next
    case False
    then have "s1 = s" using s1(1) by (simp add: dry_tx_def)
    with Cons.IH [OF s1(2)] Cons.prems(2) False show ?thesis by simp
  qed
qed simp

lemma dry_run_applies:
  assumes "no_seeded r" and "collateral_inactive r" and "ValidateBlockStakeTxs K L txs height r = Inr ()"
  shows "\<exists>r' rb. ApplyBlockStakeTxs K L txs height r = (r', Inr rb)"
proof (cases "list_ex IsStake txs")
  case True
  let ?s = "\<lparr>dr_snapshot = (\<lambda>k. map_option shadow_of (rg_validators r k)), dr_reserved = Map.empty,
    dr_reservedKeyImages = Map.empty\<rparr>"
  obtain s' where s': "foldE (dry_tx K L r height (block_input_images K txs)) (enumerate 0 txs) ?s = Inr s'"
    using assms(3) by (auto simp: ValidateBlockStakeTxs_def split: sum.splits)
  have "burned_since r [] r" by (auto simp: burned_since_def split: option.splits)
  then have "dry_sim r ?s r" using assms(1) by (auto simp: dry_sim_def)
  from dry_run_loop [OF s' this assms(2), of "rg_validators r" "[]"] show ?thesis
    using True by (auto simp: ApplyBlockStakeTxs_def)
qed (simp add: ApplyBlockStakeTxs_def)

text \<open>C26: The dry run is sound.  If \<open>ValidateBlockStakeTxs\<close> accepts the stake transactions of a block,
  \<open>ApplyBlockStakeTxs\<close> applies every one of them, in a registry without startup sentinels whose locked
  outputs are not active; so a block that passes validation is never refused half-way.\<close>

theorem dry_run_sound:
  assumes "no_seeded r" and "collateral_inactive r" and "ValidateBlockStakeTxs K L txs height r = Inr ()"
  shows "\<exists>r' rb. ApplyBlockStakeTxs K L txs height r = (r', Inr rb)"
  using assms by (rule dry_run_applies)

section \<open>Concrete instances\<close>

definition demo_pub :: ValidatorPubKey where "demo_pub = replicate 32 7"

definition demo_stake :: stake_v2 where
  "demo_stake = \<lparr>sp_Action = StakeDeposit, sp_PubKey = demo_pub, sp_Amount = MinStakeNAPR,
     sp_Sig = arr_bytes (StakeSignMsgV2 demo_lib StakeDeposit demo_pub MinStakeNAPR 1 7) @ replicate 32 0,
     sp_BurnTxHash = 1, sp_BurnOutIdx = 7, sp_BurnBlind = 4 - ucast MinStakeNAPR\<rparr>"

definition demo_stake_tx :: Transaction where
  "demo_stake_tx = (empty_tx TxVersionStake)\<lparr>tx_Extra := (case EncodeStakeExtraV2 demo_stake of Inl _ \<Rightarrow> [] | Inr b \<Rightarrow> b)\<rparr>"

definition demo_registry :: "(bytes \<rightharpoonup> bytes) ValidatorRegistry" where
  "demo_registry = SetUTXOSet demo_set NewValidatorRegistry"

lemma demo_stake_decodes: "DecodeStakeExtraV2 (tx_Extra demo_stake_tx) = Inr demo_stake"
proof -
  have "stake_lengths_ok demo_stake" by (simp add: stake_lengths_ok_def demo_stake_def demo_pub_def)
  then obtain b where "EncodeStakeExtraV2 demo_stake = Inr b" "DecodeStakeExtraV2 b = Inr demo_stake"
    using v2_codec.ok_round_trip by blast
  then show ?thesis by (simp add: demo_stake_tx_def)
qed

lemma demo_stake_length: "length (tx_Extra demo_stake_tx) = StakePayloadSizeV2"
  using demo_stake_decodes by (auto simp: DecodeStakeExtraV2_def split: if_splits)

lemma demo_stake_kind: "IsStake demo_stake_tx" "tx_Version demo_stake_tx = TxVersionStake"
  by (simp_all add: demo_stake_tx_def empty_tx_def tx_kinds)

lemma demo_utxo_lookup: "us_utxos demo_set (1, 7) = Some demo_utxo" "us_stakedUTXOs demo_set k = None"
  by (simp_all add: demo_set_simps)

lemma demo_deposit_auth: "deposit_auth demo_lib demo_registry height demo_stake = Inr ()"
  by (simp add: deposit_auth_def demo_registry_def SetUTXOSet_def NewValidatorRegistry_def demo_stake_def
      verifyValidatorSignature_def Authority_def pub_Verify_def) (simp add: demo_lib_def)

lemma demo_check_burn: "check_burn_v2 demo_lib demo_registry demo_stake = Inr demo_utxo"
  by (simp add: check_burn_v2_def find_burn_def check_commit_def demo_registry_def SetUTXOSet_def Get_def demo_stake_def
      demo_utxo_lookup) (simp add: demo_utxo_def demo_lib_def)

lemma demo_registry_ok: "no_seeded demo_registry" "collateral_inactive demo_registry"
  by (simp_all add: no_seeded_def collateral_inactive_def demo_registry_def SetUTXOSet_def NewValidatorRegistry_def demo_utxo_lookup)

lemma demo_dry_run: "ValidateBlockStakeTxs demo_lib mem_leveldb [demo_stake_tx] height demo_registry = Inr ()"
proof -
  have "\<not> sp_Amount demo_stake < effective_min demo_registry" "\<not> MaxStakeNAPR < sp_Amount demo_stake"
    by (simp_all add: demo_stake_def effective_min_def demo_registry_def SetUTXOSet_def NewValidatorRegistry_def
        MinStakeNAPR_def MaxStakeNAPR_def)
  then show ?thesis
    by (simp add: ValidateBlockStakeTxs_def dry_tx_def demo_stake_kind demo_stake_length stake_sizes Let_def dry_v2_def demo_stake_decodes
        demo_deposit_auth demo_check_burn check_reserved_def dry_deposit_def shadow_deposit_def)
      (simp add: demo_registry_def SetUTXOSet_def NewValidatorRegistry_def)
qed

theorem dry_run_sound_witness:
  "\<exists>r' rb. ApplyBlockStakeTxs demo_lib mem_leveldb [demo_stake_tx] 250 demo_registry = (r', Inr rb)"
  using dry_run_sound [OF demo_registry_ok demo_dry_run] .

lemma demo_burns: "block_burns [demo_stake_tx] = {(1, 7)}"
  using tx_label_deposit(1) [OF demo_stake_decodes] by (simp add: block_burns_def tx_burn_def deposit_label_def demo_stake_kind
      burn_key_def) (simp add: demo_stake_def)

lemma demo_index: "\<forall>us. rg_utxos demo_registry = Some us \<longrightarrow> stake_index_ok {(1, 7)} us"
  by (auto simp: demo_registry_def SetUTXOSet_def stake_index_ok_def demo_set_simps)

theorem stake_block_atomic_witness:
  "\<exists>r' rb. ApplyBlockStakeTxs demo_lib mem_leveldb [demo_stake_tx] 250 demo_registry = (r', Inr rb) \<and>
     run_rollback rb r' = demo_registry"
proof -
  obtain r' rb where a: "ApplyBlockStakeTxs demo_lib mem_leveldb [demo_stake_tx] 250 demo_registry = (r', Inr rb)"
    using dry_run_applies [OF demo_registry_ok demo_dry_run] by blast
  with stake_block_atomic [of demo_registry "[demo_stake_tx]" demo_lib mem_leveldb 250] demo_index show ?thesis
    by (simp add: demo_burns)
qed

end
