(* ===== verification/Epochs.thy ===== *)
theory Epochs
  imports Staking
begin

text \<open>
  Epoch transitions of the validator registry (\<open>UpdateEpoch\<close> of \<open>core/staking.go\<close>): release of
  unbonded validators, activation of pending ones within the churn limit, and the cap on the active set.
  Iteration over the map and \<open>sort.Slice\<close> are orders chosen by the environment: every theorem holds for
  all orders the sort may produce.
\<close>

section \<open>Definitions\<close>

definition release_entry :: "u64 \<Rightarrow> ValidatorEntry \<Rightarrow> ValidatorEntry" where
  "release_entry height e =
     (let e = (if ve_Status e = ValidatorUnbonding \<and> ve_UnbondEndBlock e \<le> height then e\<lparr>ve_Status := ValidatorExited\<rparr> else e)
      in e\<lparr>ve_UnbondingQueue := filter (\<lambda>ub. height < ub_EndBlock ub) (ve_UnbondingQueue e)\<rparr>)"

definition release_all_entries :: "u64 \<Rightarrow> (string \<rightharpoonup> ValidatorEntry) \<Rightarrow> (string \<rightharpoonup> ValidatorEntry)" where
  "release_all_entries height vs = (\<lambda>k. map_option (release_entry height) (vs k))"

definition with_status :: "ValidatorStatus \<Rightarrow> (string \<rightharpoonup> ValidatorEntry) \<Rightarrow> string set" where
  "with_status st vs = {k. \<exists>e. vs k = Some e \<and> ve_Status e = st}"

text \<open>Walking the pending validators in the order \<open>ks\<close>, with \<open>slots\<close> seats left.\<close>

fun activate :: "u64 \<Rightarrow> nat \<Rightarrow> string list \<Rightarrow> (string \<rightharpoonup> ValidatorEntry) \<Rightarrow> (string \<rightharpoonup> ValidatorEntry)" where
  "activate currentEpoch slots [] vs = vs"
| "activate currentEpoch slots (k # ks) vs =
     (if slots = 0 then vs
      else case vs k of
        None \<Rightarrow> activate currentEpoch slots ks vs
      | Some e \<Rightarrow>
          if ve_ActivationEpoch e \<le> currentEpoch
          then activate currentEpoch (slots - 1) ks (vs(k \<mapsto> e\<lparr>ve_Status := ValidatorActive\<rparr>))
          else activate currentEpoch slots ks vs)"

definition demote :: "string \<Rightarrow> (string \<rightharpoonup> ValidatorEntry) \<Rightarrow> (string \<rightharpoonup> ValidatorEntry)" where
  "demote k vs = vs(k := map_option (\<lambda>e. e\<lparr>ve_Status := ValidatorPending,
     ve_ActivationEpoch := ve_ActivationEpoch e + 1\<rparr>) (vs k))"

definition rebalanceLocked :: "string list \<Rightarrow> (string \<rightharpoonup> ValidatorEntry) \<Rightarrow> (string \<rightharpoonup> ValidatorEntry)" where
  "rebalanceLocked ranked vs =
     (if card (with_status ValidatorActive vs) \<le> MaxValidators then vs
      else fold demote (drop MaxValidators ranked) vs)"

text \<open>A list of keys that \<open>sort.Slice\<close> may produce from the validators of one status: all of them once, no
  one behind a validator with less stake.\<close>

definition stake_order :: "ValidatorStatus \<Rightarrow> (string \<rightharpoonup> ValidatorEntry) \<Rightarrow> string list \<Rightarrow> bool" where
  "stake_order st vs ks \<longleftrightarrow> distinct ks \<and> set ks = with_status st vs \<and>
     sorted_wrt (\<lambda>a b. \<not> ve_StakeNAPR (the (vs a)) < ve_StakeNAPR (the (vs b))) ks"

definition activation_slots :: "(string \<rightharpoonup> ValidatorEntry) \<Rightarrow> nat" where
  "activation_slots vs =
     (let activeCount = card (with_status ValidatorActive vs) in
      if activeCount < MaxValidators then min (MaxValidators - activeCount) ChurnLimit else 0)"

text \<open>The epoch update for the order \<open>pending\<close> of the pending validators and the order \<open>ranked\<close> of the active
  ones after activation.\<close>

definition epoch_validators :: "u64 \<Rightarrow> string list \<Rightarrow> string list \<Rightarrow> (string \<rightharpoonup> ValidatorEntry) \<Rightarrow> (string \<rightharpoonup> ValidatorEntry)" where
  "epoch_validators height pending ranked vs =
     (let vs = release_all_entries height vs;
          vs = activate (height div EpochLength) (activation_slots vs) pending vs
      in rebalanceLocked ranked vs)"

definition epoch_orders :: "u64 \<Rightarrow> string list \<Rightarrow> string list \<Rightarrow> (string \<rightharpoonup> ValidatorEntry) \<Rightarrow> bool" where
  "epoch_orders height pending ranked vs \<longleftrightarrow>
     (let vs = release_all_entries height vs in
      stake_order ValidatorPending vs pending \<and>
      stake_order ValidatorActive (activate (height div EpochLength) (activation_slots vs) pending vs) ranked)"

text \<open>The active keys in lexicographic order; \<open>ks\<close> is the order in which the map is iterated.\<close>

definition activeSetLocked :: "string list \<Rightarrow> (string \<rightharpoonup> ValidatorEntry) \<Rightarrow> ValidatorPubKey list" where
  "activeSetLocked ks vs =
     sort_key pub_Hex (map (\<lambda>k. ve_PubKey (the (vs k))) (filter (\<lambda>k. k \<in> with_status ValidatorActive vs) ks))"

definition UpdateEpoch :: "u64 \<Rightarrow> string list \<Rightarrow> string list \<Rightarrow> string list \<Rightarrow> 'd ValidatorRegistry
    \<Rightarrow> 'd ValidatorRegistry \<times> ValidatorPubKey list" where
  "UpdateEpoch height pending ranked ks r =
     (let vs = epoch_validators height pending ranked (rg_validators r)
      in (r\<lparr>rg_validators := vs\<rparr>, activeSetLocked ks vs))"

definition IsActive :: "'d ValidatorRegistry \<Rightarrow> ValidatorPubKey \<Rightarrow> bool" where
  "IsActive r pub \<longleftrightarrow> (case rg_validators r (pub_Hex pub) of None \<Rightarrow> False | Some e \<Rightarrow> ve_Status e = ValidatorActive)"

definition GetEntry :: "'d ValidatorRegistry \<Rightarrow> ValidatorPubKey \<Rightarrow> ValidatorEntry option" where
  "GetEntry r pub = rg_validators r (pub_Hex pub)"

definition registry_Count :: "'d ValidatorRegistry \<Rightarrow> nat \<times> nat" where
  "registry_Count r = (card (with_status ValidatorActive (rg_validators r)), card (dom (rg_validators r)))"

section \<open>The loops in closed form\<close>

definition eligible :: "u64 \<Rightarrow> (string \<rightharpoonup> ValidatorEntry) \<Rightarrow> string \<Rightarrow> bool" where
  "eligible currentEpoch vs k \<longleftrightarrow> (\<exists>e. vs k = Some e \<and> ve_ActivationEpoch e \<le> currentEpoch)"

text \<open>The validators that one pass activates.\<close>

definition chosen :: "u64 \<Rightarrow> nat \<Rightarrow> string list \<Rightarrow> (string \<rightharpoonup> ValidatorEntry) \<Rightarrow> string set" where
  "chosen currentEpoch slots ks vs = set (take slots (filter (eligible currentEpoch vs) ks))"

lemma activate_lookup:
  assumes "distinct ks"
  shows "activate ce slots ks vs k = (if k \<in> chosen ce slots ks vs
    then map_option (\<lambda>e. e\<lparr>ve_Status := ValidatorActive\<rparr>) (vs k) else vs k)"
  using assms
proof (induction ks arbitrary: slots vs)
  case (Cons a ks)
  show ?case
  proof (cases "slots \<noteq> 0 \<and> eligible ce vs a")
    case True
    then obtain e n where e: "vs a = Some e" "ve_ActivationEpoch e \<le> ce" and n: "slots = Suc n"
      by (auto simp: eligible_def gr0_conv_Suc)
    let ?vs = "vs(a \<mapsto> e\<lparr>ve_Status := ValidatorActive\<rparr>)"
    have "filter (eligible ce ?vs) ks = filter (eligible ce vs) ks"
      using Cons.prems by (intro filter_cong) (auto simp: eligible_def)
    then have same: "chosen ce n ks ?vs = chosen ce n ks vs" by (simp add: chosen_def)
    have "distinct ks" using Cons.prems by simp
    note ih = Cons.IH [OF this, of n ?vs, unfolded same]
    have "activate ce slots (a # ks) vs k = activate ce n ks ?vs k" using e by (simp add: n)
    moreover have "chosen ce slots (a # ks) vs = insert a (chosen ce n ks vs)" using True by (simp add: chosen_def n)
    moreover have "a \<notin> chosen ce n ks vs" using Cons.prems by (auto simp: chosen_def dest: in_set_takeD)
    ultimately show ?thesis using e by (auto simp: ih)
  next
    case False
    then have "chosen ce slots (a # ks) vs = chosen ce slots ks vs" by (auto simp: chosen_def)
    moreover have "activate ce slots (a # ks) vs = activate ce slots ks vs"
      using False by (cases ks) (auto simp: eligible_def split: option.splits)
    ultimately show ?thesis using Cons.IH [of slots vs] Cons.prems by simp
  qed
qed (simp add: chosen_def)

lemma demotes_lookup:
  assumes "distinct ks"
  shows "fold demote ks vs k = (if k \<in> set ks
    then map_option (\<lambda>e. e\<lparr>ve_Status := ValidatorPending, ve_ActivationEpoch := ve_ActivationEpoch e + 1\<rparr>) (vs k) else vs k)"
  using assms by (induction ks arbitrary: vs) (auto simp: demote_def)

lemma release_lookup: "release_all_entries h vs k = map_option (release_entry h) (vs k)"
  by (simp add: release_all_entries_def)

lemma release_entry_fields [simp]:
  "ve_StakeNAPR (release_entry h e) = ve_StakeNAPR e" "ve_ActivationEpoch (release_entry h e) = ve_ActivationEpoch e"
  "ve_Seeded (release_entry h e) = ve_Seeded e" "ve_StakeAuthNonce (release_entry h e) = ve_StakeAuthNonce e"
  "ve_PubKey (release_entry h e) = ve_PubKey e"
  by (simp_all add: release_entry_def Let_def)

lemma release_status: "ve_Status (release_entry h e) =
    (if ve_Status e = ValidatorUnbonding \<and> ve_UnbondEndBlock e \<le> h then ValidatorExited else ve_Status e)"
  by (simp add: release_entry_def Let_def)

lemma release_with_status:
  "with_status ValidatorActive (release_all_entries h vs) = with_status ValidatorActive vs"
  "with_status ValidatorPending (release_all_entries h vs) = with_status ValidatorPending vs"
  by (auto simp: with_status_def release_lookup release_status split: if_splits)

lemma release_dom [simp]: "dom (release_all_entries h vs) = dom vs"
  by (auto simp: release_lookup dom_def)

lemma with_status_dom: "with_status st vs \<subseteq> dom vs"
  by (auto simp: with_status_def)

section \<open>The transition of an epoch\<close>

definition stake_at :: "(string \<rightharpoonup> ValidatorEntry) \<Rightarrow> string \<Rightarrow> u64" where
  "stake_at vs k = ve_StakeNAPR (the (vs k))"

lemma stake_order_behind:
  assumes "stake_order st vs ks" and "a \<in> set (take n (filter P ks))" and "b \<in> set (drop n (filter P ks))"
  shows "stake_at vs b \<le> stake_at vs a"
proof -
  have "sorted_wrt (\<lambda>a b. stake_at vs b \<le> stake_at vs a) (filter P ks)"
    using assms(1) by (intro sorted_wrt_filter) (simp add: stake_order_def stake_at_def not_less)
  then have "sorted_wrt (\<lambda>a b. stake_at vs b \<le> stake_at vs a) (take n (filter P ks) @ drop n (filter P ks))" by simp
  with assms(2,3) show ?thesis unfolding sorted_wrt_append by blast
qed

lemma stake_order_chosen:
  assumes "stake_order st vs ks" and "a \<in> chosen ce n ks vs" and "b \<in> set ks" and "eligible ce vs b" and "b \<notin> chosen ce n ks vs"
  shows "stake_at vs b \<le> stake_at vs a"
proof -
  have "b \<in> set (take n (filter (eligible ce vs) ks) @ drop n (filter (eligible ce vs) ks))" using assms(3,4) by simp
  then have "b \<in> set (drop n (filter (eligible ce vs) ks))" using assms(5) unfolding set_append chosen_def by blast
  with assms(2) show ?thesis unfolding chosen_def by (rule stake_order_behind [OF assms(1)])
qed

lemma chosen_card: "card (chosen ce n ks vs) \<le> n"
  using card_length [of "take n (filter (eligible ce vs) ks)"] by (simp add: chosen_def)

lemma chosen_pending: "stake_order ValidatorPending vs ks \<Longrightarrow> chosen ce n ks vs \<subseteq> with_status ValidatorPending vs"
  using set_take_subset [of n "filter (eligible ce vs) ks"] unfolding chosen_def stake_order_def by auto

lemma activate_stake: "distinct ks \<Longrightarrow> stake_at (activate ce n ks vs) k = stake_at vs k"
  by (cases "vs k") (simp_all add: stake_at_def activate_lookup)

lemma activate_active:
  assumes "stake_order ValidatorPending vs ks"
  shows "with_status ValidatorActive (activate ce n ks vs) = with_status ValidatorActive vs \<union> chosen ce n ks vs"
    and "with_status ValidatorActive vs \<inter> chosen ce n ks vs = {}"
proof -
  have d: "distinct ks" using assms by (simp add: stake_order_def)
  have p: "\<exists>e. vs k = Some e \<and> ve_Status e = ValidatorPending" if "k \<in> chosen ce n ks vs" for k
    using chosen_pending [OF assms] that unfolding with_status_def by blast
  show "with_status ValidatorActive vs \<inter> chosen ce n ks vs = {}"
    unfolding with_status_def by (auto dest: p)
  have "k \<in> with_status ValidatorActive (activate ce n ks vs) \<longleftrightarrow> k \<in> with_status ValidatorActive vs \<or> k \<in> chosen ce n ks vs" for k
    using p [of k] by (cases "k \<in> chosen ce n ks vs") (force simp: with_status_def activate_lookup [OF d])+
  then show "with_status ValidatorActive (activate ce n ks vs) = with_status ValidatorActive vs \<union> chosen ce n ks vs"
    by blast
qed

lemma rebalance_active:
  assumes "finite (dom vs)" and "stake_order ValidatorActive vs ranked"
  shows "with_status ValidatorActive (rebalanceLocked ranked vs) = set (take MaxValidators ranked)"
    and "stake_at (rebalanceLocked ranked vs) k = stake_at vs k"
proof -
  have r: "distinct ranked" "set ranked = with_status ValidatorActive vs" using assms(2) by (auto simp: stake_order_def)
  have c: "card (with_status ValidatorActive vs) = length ranked" using r distinct_card by metis
  show "with_status ValidatorActive (rebalanceLocked ranked vs) = set (take MaxValidators ranked)"
  proof (cases "length ranked \<le> MaxValidators")
    case True
    then show ?thesis by (simp add: rebalanceLocked_def c r)
  next
    case False
    have d: "set (take MaxValidators ranked) \<inter> set (drop MaxValidators ranked) = {}"
      using r(1) by (rule set_take_disj_set_drop_if_distinct) simp
    have "set (take MaxValidators ranked) \<union> set (drop MaxValidators ranked) = with_status ValidatorActive vs"
      by (metis append_take_drop_id r(2) set_append)
    moreover have "rebalanceLocked ranked vs = fold demote (drop MaxValidators ranked) vs"
      using False by (simp add: rebalanceLocked_def c)
    ultimately show ?thesis using d r(1) by (auto simp: demotes_lookup with_status_def)
  qed
  show "stake_at (rebalanceLocked ranked vs) k = stake_at vs k"
    by (cases "vs k") (simp_all add: rebalanceLocked_def stake_at_def demotes_lookup r(1))
qed

lemma activation_slots_bound:
  "activation_slots vs \<le> ChurnLimit" "activation_slots vs + card (with_status ValidatorActive vs) \<le>
     max MaxValidators (card (with_status ValidatorActive vs))"
  by (auto simp: activation_slots_def Let_def)

lemma activation_slots_room:
  "activation_slots vs \<noteq> 0 \<Longrightarrow> activation_slots vs + card (with_status ValidatorActive vs) \<le> MaxValidators"
  by (auto simp: activation_slots_def Let_def split: if_splits)

text \<open>The active set after the update, when the two sorts have returned \<open>pending\<close> and \<open>ranked\<close>.\<close>

lemma epoch_parts:
  assumes "finite (dom vs)" and "epoch_orders height pending ranked vs"
  defines "vs1 \<equiv> release_all_entries height vs"
  defines "new \<equiv> chosen (height div EpochLength) (activation_slots vs1) pending vs1"
  shows "stake_order ValidatorPending vs1 pending"
    and "set ranked = with_status ValidatorActive vs \<union> new" and "with_status ValidatorActive vs \<inter> new = {}"
    and "stake_order ValidatorActive (activate (height div EpochLength) (activation_slots vs1) pending vs1) ranked"
    and "with_status ValidatorActive (epoch_validators height pending ranked vs) = set (take MaxValidators ranked)"
    and "stake_at (epoch_validators height pending ranked vs) k = stake_at vs1 k"
proof -
  let ?vs2 = "activate (height div EpochLength) (activation_slots vs1) pending vs1"
  show p: "stake_order ValidatorPending vs1 pending" and r: "stake_order ValidatorActive ?vs2 ranked"
    using assms(2) by (simp_all add: epoch_orders_def vs1_def Let_def)
  have d: "distinct pending" using p by (simp add: stake_order_def)
  have fin: "finite (dom ?vs2)"
  proof (rule finite_subset)
    show "dom ?vs2 \<subseteq> dom vs" by (auto simp: activate_lookup [OF d] vs1_def release_lookup split: if_splits)
  qed (rule assms(1))
  show "set ranked = with_status ValidatorActive vs \<union> new" "with_status ValidatorActive vs \<inter> new = {}"
    using r activate_active [OF p, of "height div EpochLength" "activation_slots vs1"]
    by (simp_all add: stake_order_def new_def vs1_def release_with_status)
  have ev: "epoch_validators height pending ranked vs = rebalanceLocked ranked ?vs2"
    by (simp add: epoch_validators_def vs1_def Let_def)
  show "with_status ValidatorActive (epoch_validators height pending ranked vs) = set (take MaxValidators ranked)"
    unfolding ev by (rule rebalance_active(1) [OF fin r])
  show "stake_at (epoch_validators height pending ranked vs) k = stake_at vs1 k"
    unfolding ev by (simp add: rebalance_active(2) [OF fin r] activate_stake [OF d])
qed

lemma release_stake_at: "stake_at (release_all_entries h vs) k = stake_at vs k" if "k \<in> dom vs"
  using that by (auto simp: stake_at_def release_lookup)

text \<open>C28: At an epoch boundary the active set never exceeds the cap of 21, at most 3 validators enter it,
  nobody is removed while the set is within the cap, those who enter have at least the stake of every eligible
  validator still waiting, and those who stay at least the stake of everyone removed, whatever
  order the unstable sort returns.\<close>

theorem epoch_active_set:
  assumes "finite (dom (rg_validators r))" and "epoch_orders height pending ranked (rg_validators r)"
    and "UpdateEpoch height pending ranked ks r = (r', out)"
  defines "A \<equiv> with_status ValidatorActive (rg_validators r)" and "A' \<equiv> with_status ValidatorActive (rg_validators r')"
  shows "card A' \<le> MaxValidators \<and> card (A' - A) \<le> ChurnLimit \<and> (card A \<le> MaxValidators \<longrightarrow> A \<subseteq> A') \<and>
    (\<forall>a \<in> A' - A. \<forall>b \<in> with_status ValidatorPending (rg_validators r) - A'.
       eligible (height div EpochLength) (rg_validators r) b \<longrightarrow> stake_at (rg_validators r) b \<le> stake_at (rg_validators r) a) \<and>
    (\<forall>a \<in> A'. \<forall>b \<in> A - A'. stake_at (rg_validators r) b \<le> stake_at (rg_validators r) a)"
proof (intro conjI impI ballI)
  let ?vs = "rg_validators r" and ?ce = "height div EpochLength"
  let ?vs1 = "release_all_entries height ?vs"
  let ?n = "activation_slots ?vs1" let ?new = "chosen ?ce ?n pending ?vs1"
  note ep = epoch_parts [OF assms(1,2)]
  have A': "A' = set (take MaxValidators ranked)" 
  proof -
    have "rg_validators r' = epoch_validators height pending ranked ?vs"
      using assms(3) unfolding UpdateEpoch_def Let_def prod.inject by auto
    then show ?thesis unfolding A'_def by (simp only: ep(5))
  qed
  have all: "set ranked = A \<union> ?new" and disj: "A \<inter> ?new = {}" using ep(2,3) by (simp_all add: A_def)
  have sub: "A' \<subseteq> A \<union> ?new" using all unfolding A' by (auto dest: in_set_takeD)
  have d: "distinct ranked" using ep(4) by (simp add: stake_order_def)
  have fin: "finite A" using with_status_dom assms(1) unfolding A_def by (rule finite_subset)
  show "card A' \<le> MaxValidators" unfolding A' using card_length [of "take MaxValidators ranked"] by simp
  have "card (A' - A) \<le> card ?new" using sub by (intro card_mono) (auto simp: chosen_def)
  then show "card (A' - A) \<le> ChurnLimit" using chosen_card [of ?ce ?n pending ?vs1] activation_slots_bound(1) [of ?vs1] by linarith
  have len: "card A + card ?new = length ranked"
    using card_Un_disjoint [OF fin _ disj] distinct_card [OF d] all by (simp add: chosen_def)
  have "?n + card A \<le> max MaxValidators (card A)"
    using activation_slots_bound(2) [of ?vs1] by (simp add: release_with_status A_def)
  then show "A \<subseteq> A'" if "card A \<le> MaxValidators"
    using that len chosen_card [of ?ce ?n pending ?vs1] all unfolding A' by (simp add: max_def split: if_splits)
  have dom: "stake_at ?vs1 k = stake_at ?vs k" if "k \<in> A \<union> A' \<union> with_status ValidatorPending ?vs" for k
  proof (rule release_stake_at)
    have "?new \<subseteq> dom ?vs"
      using chosen_pending [OF ep(1), of ?ce ?n] with_status_dom unfolding release_with_status by (rule subset_trans)
    then show "k \<in> dom ?vs" using that sub with_status_dom unfolding A_def by blast
  qed
  have sa: "stake_at (activate ?ce ?n pending ?vs1) k = stake_at ?vs1 k" for k
    using ep(1) by (simp add: activate_stake stake_order_def)
  show "stake_at ?vs b \<le> stake_at ?vs a" if "a \<in> A'" "b \<in> A - A'" for a b
  proof -
    have "b \<in> set (drop MaxValidators ranked)"
      using that(2) all unfolding A' by (metis DiffD1 DiffD2 UnI1 append_take_drop_id set_append Un_iff)
    from stake_order_behind [OF ep(4), of a MaxValidators "\<lambda>_. True" b] this that show ?thesis
      by (simp add: A' sa dom)
  qed
  show "stake_at ?vs b \<le> stake_at ?vs a" if "a \<in> A' - A" "b \<in> with_status ValidatorPending ?vs - A'" "eligible ?ce ?vs b" for a b
  proof -
    have a: "a \<in> ?new" using that(1) sub by blast
    have "b \<in> set pending" "eligible ?ce ?vs1 b"
      using that(2,3) ep(1) by (auto simp: stake_order_def release_with_status eligible_def release_lookup)
    moreover have "b \<notin> ?new"
    proof -
      have "length ranked \<le> MaxValidators" using activation_slots_room [of ?vs1] chosen_card [of ?ce ?n pending ?vs1] len a
      by (cases "?n = 0") (auto simp: chosen_def release_with_status A_def)
      then show ?thesis using that(2) all unfolding A' by simp
    qed
    ultimately have "stake_at ?vs1 b \<le> stake_at ?vs1 a" by (intro stake_order_chosen [OF ep(1) a])
    then show ?thesis using that by (simp add: dom)
  qed
qed

section \<open>When the update is a function of the state\<close>

lemma strict_order_unique:
  assumes "stake_order st vs xs" and "stake_order st vs ys" and "inj_on (stake_at vs) (with_status st vs)"
  shows "xs = ys"
proof -
  have sets: "set xs = with_status st vs" "set ys = with_status st vs" and d: "distinct xs" "distinct ys"
    using assms(1,2) by (auto simp: stake_order_def)
  have sorted: "sorted (map (stake_at vs) (rev zs))" if "stake_order st vs zs" for zs
    using that unfolding stake_order_def stake_at_def [symmetric] not_less sorted_map sorted_wrt_rev by blast
  have "map (stake_at vs) (rev xs) = map (stake_at vs) (rev ys)"
    by (rule sorted_distinct_set_unique [OF sorted [OF assms(1)] _ sorted [OF assms(2)]])
      (use assms(3) d sets in \<open>simp_all add: distinct_map\<close>)
  then have "map (stake_at vs) xs = map (stake_at vs) ys" by (metis rev_map rev_rev_ident)
  then show ?thesis by (rule map_inj_on) (use assms(3) sets in simp)
qed

definition registry_keyed :: "(string \<rightharpoonup> ValidatorEntry) \<Rightarrow> bool" where
  "registry_keyed vs \<longleftrightarrow> finite (dom vs) \<and> (\<forall>k e. vs k = Some e \<longrightarrow> pub_Hex (ve_PubKey e) = k)"

lemma activeSet_order:
  assumes "registry_keyed vs" and "map_order vs ks" and "map_order vs ks'"
  shows "activeSetLocked ks vs = activeSetLocked ks' vs"
proof -
  let ?A = "with_status ValidatorActive vs" and ?pub = "\<lambda>k. ve_PubKey (the (vs k))"
  have hex: "pub_Hex (?pub k) = k" if "k \<in> ?A" for k
    using that assms(1) by (auto simp: registry_keyed_def with_status_def)
  have "mset ks = mset ks'" using assms(2,3) by (metis map_order_def set_eq_iff_mset_eq_distinct)
  then have m: "mset (map ?pub (filter (\<lambda>k. k \<in> ?A) ks)) = mset (map ?pub (filter (\<lambda>k. k \<in> ?A) ks'))"
    by simp
  have inj: "inj_on pub_Hex (set (map ?pub (filter (\<lambda>k. k \<in> ?A) ks)))"
    using hex by (auto intro!: inj_onI)
  have "sort_key pub_Hex (map ?pub (filter (\<lambda>k. k \<in> ?A) ks)) = sort_key pub_Hex (map ?pub (filter (\<lambda>k. k \<in> ?A) ks'))"
    by (rule sort_key_inj_key_eq [OF _ inj]) (use m in simp_all)
  then show ?thesis by (simp add: activeSetLocked_def)
qed

lemma epoch_keyed:
  assumes "registry_keyed vs" and "distinct pending" and "distinct ranked"
  shows "registry_keyed (epoch_validators height pending ranked vs)" and "dom (epoch_validators height pending ranked vs) = dom vs"
proof -
  have e: "\<exists>e'. epoch_validators height pending ranked vs k = Some e' \<and> ve_PubKey e' = ve_PubKey e" if "vs k = Some e" for k e
    using assms(2,3) that
    by (auto simp: epoch_validators_def rebalanceLocked_def Let_def demotes_lookup activate_lookup release_lookup)
  have n: "epoch_validators height pending ranked vs k = None" if "vs k = None" for k
    using assms(2,3) that
    by (auto simp: epoch_validators_def rebalanceLocked_def Let_def demotes_lookup activate_lookup release_lookup)
  show dom: "dom (epoch_validators height pending ranked vs) = dom vs"
    using e n by (metis (no_types, lifting) domD domIff option.distinct(1) subsetI subset_antisym)
  show "registry_keyed (epoch_validators height pending ranked vs)"
    unfolding registry_keyed_def dom
  proof (intro conjI allI impI)
    show "finite (dom vs)" using assms(1) by (simp add: registry_keyed_def)
    fix k e' assume e': "epoch_validators height pending ranked vs k = Some e'"
    then obtain e0 where "vs k = Some e0" using n by (metis not_None_eq option.distinct(1))
    then show "pub_Hex (ve_PubKey e') = k" using e e' assms(1) by (fastforce simp: registry_keyed_def)
  qed
qed

text \<open>When no two validators that are active or waiting have the same stake, the epoch update is a function of the
  registry: neither the order in which the map is visited nor the unstable sort can change the new registry or
  the ordered validator list that is returned.\<close>

theorem epoch_deterministic:
  assumes "registry_keyed (rg_validators r)"
    and "inj_on (stake_at (rg_validators r)) (with_status ValidatorPending (rg_validators r) \<union> with_status ValidatorActive (rg_validators r))"
    and "epoch_orders height pending ranked (rg_validators r)" and "epoch_orders height pending' ranked' (rg_validators r)"
    and "map_order (rg_validators r) ks" and "map_order (rg_validators r) ks'"
  shows "UpdateEpoch height pending ranked ks r = UpdateEpoch height pending' ranked' ks' r"
proof -
  let ?vs = "rg_validators r" and ?ce = "height div EpochLength"
  let ?vs1 = "release_all_entries height ?vs"
  let ?vs2 = "activate ?ce (activation_slots ?vs1) pending ?vs1"
  have fin: "finite (dom ?vs)" using assms(1) by (simp add: registry_keyed_def)
  note ep = epoch_parts [OF fin assms(3)] and ep' = epoch_parts [OF fin assms(4)]
  have pend: "with_status ValidatorPending ?vs \<subseteq> dom ?vs" and act: "with_status ValidatorActive ?vs \<subseteq> dom ?vs" by (rule with_status_dom)+
  have "inj_on (stake_at ?vs1) (with_status ValidatorPending ?vs1)"
    unfolding release_with_status
    by (rule inj_on_cong [THEN iffD1, OF _ inj_on_subset [OF assms(2)]]) (use pend in \<open>auto simp: release_stake_at [OF subsetD]\<close>)
  then have p: "pending = pending'" by (rule strict_order_unique [OF ep(1) ep'(1)])
  have new: "set ranked \<subseteq> with_status ValidatorPending ?vs \<union> with_status ValidatorActive ?vs"
    using ep(2) chosen_pending [OF ep(1), of ?ce "activation_slots ?vs1"] by (auto simp: release_with_status)
  have "inj_on (stake_at ?vs2) (set ranked)"
  proof (rule inj_on_cong [THEN iffD1, OF _ inj_on_subset [OF assms(2) new]])
    fix k assume "k \<in> set ranked"
    then have "k \<in> dom ?vs" using new pend act by blast
    then show "stake_at ?vs k = stake_at ?vs2 k" using ep(1) by (simp add: activate_stake stake_order_def release_stake_at)
  qed
  moreover have s: "set ranked = with_status ValidatorActive ?vs2" using ep(4) by (simp add: stake_order_def)
  ultimately have ra: "ranked = ranked'" using strict_order_unique [OF ep(4)] ep'(4) p by simp
  have d: "distinct pending" "distinct ranked" using ep(1,4) by (simp_all add: stake_order_def)
  note k = epoch_keyed [OF assms(1) d, of height]
  have "activeSetLocked ks (epoch_validators height pending ranked ?vs) = activeSetLocked ks' (epoch_validators height pending ranked ?vs)"
    by (rule activeSet_order [OF k(1)]) (use assms(5,6) k(2) in \<open>simp_all add: map_order_def\<close>)
  then show ?thesis by (simp add: UpdateEpoch_def p ra Let_def)
qed

section \<open>Equal stakes\<close>

text \<open>A registry in which all validators wait with the same stake; every order of the map is then an order of the sort.\<close>

definition all_tied :: "u64 \<Rightarrow> u64 \<Rightarrow> (string \<rightharpoonup> ValidatorEntry) \<Rightarrow> bool" where
  "all_tied ce stake vs \<longleftrightarrow> (\<forall>k e. vs k = Some e \<longrightarrow> ve_Status e = ValidatorPending \<and> ve_StakeNAPR e = stake \<and> ve_ActivationEpoch e \<le> ce)"

lemma tied_update:
  assumes "all_tied (height div EpochLength) stake vs" and "map_order vs ks"
  shows "epoch_orders height ks (take ChurnLimit ks) vs" (is ?o)
    and "with_status ValidatorActive (epoch_validators height ks (take ChurnLimit ks) vs) = set (take ChurnLimit ks)" (is ?a)
proof -
  let ?ce = "height div EpochLength" and ?vs1 = "release_all_entries height vs"
  have ks: "distinct ks" "set ks = dom vs" using assms(2) by (auto simp: map_order_def)
  have fin: "finite (dom vs)" using ks(2) by (metis finite_set)
  have t: "ve_Status e = ValidatorPending \<and> ve_StakeNAPR e = stake \<and> ve_ActivationEpoch e \<le> ?ce" if "?vs1 k = Some e" for k e
    using assms(1) that by (auto simp: all_tied_def release_lookup release_status)
  have none: "with_status ValidatorActive ?vs1 = {}" "with_status ValidatorPending ?vs1 = dom vs"
    using t release_dom [of height vs] by (fastforce simp: with_status_def simp del: release_dom)+
  have slots: "activation_slots ?vs1 = ChurnLimit" by (simp add: activation_slots_def none MaxValidators_def ChurnLimit_def)
  have lookup: "\<exists>e. ?vs1 k = Some e" if "k \<in> set ks" for k using that ks(2) by (auto simp: release_lookup)
  have "filter (eligible ?ce ?vs1) ks = ks" using lookup t by (fastforce simp: filter_id_conv eligible_def)
  then have ch: "chosen ?ce ChurnLimit ks ?vs1 = set (take ChurnLimit ks)" by (simp add: chosen_def)
  have same: "stake_at ?vs1 k = stake" if "k \<in> set ks" for k
    using lookup [OF that] t by (auto simp: stake_at_def)
  then have p: "stake_order ValidatorPending ?vs1 ks"
    using ks none by (auto simp: stake_order_def stake_at_def [symmetric] intro!: sorted_wrt_mono_rel [OF _ sorted_wrt_true])
  show ?o unfolding epoch_orders_def Let_def slots
  proof (intro conjI p)
    show "stake_order ValidatorActive (activate ?ce ChurnLimit ks ?vs1) (take ChurnLimit ks)"
      unfolding stake_order_def stake_at_def [symmetric] activate_active(1) [OF p] none ch
      using ks same by (auto simp: activate_stake intro!: sorted_wrt_mono_rel [OF _ sorted_wrt_true] dest!: in_set_takeD)
  qed
  then show ?a using epoch_parts(5) [OF fin] by (simp add: MaxValidators_def ChurnLimit_def min_def)
qed

text \<open>The seats end inside a group of candidates with equal stake: fewer waiting, eligible validators than there are seats have more than \<open>stake\<close>, but
  more than there are seats have at least that much.\<close>

definition candidates :: "u64 \<Rightarrow> (string \<rightharpoonup> ValidatorEntry) \<Rightarrow> string set" where
  "candidates height vs = {k \<in> with_status ValidatorPending vs. eligible (height div EpochLength) vs k}"

definition tied_cut :: "u64 \<Rightarrow> u64 \<Rightarrow> (string \<rightharpoonup> ValidatorEntry) \<Rightarrow> bool" where
  "tied_cut height stake vs \<longleftrightarrow> card {k \<in> candidates height vs. stake < stake_at vs k} < activation_slots vs \<and>
     activation_slots vs < card {k \<in> candidates height vs. stake \<le> stake_at vs k}"

lemma stake_order_exists:
  assumes "finite (dom vs)"
  shows "\<exists>ks. stake_order st vs ks"
proof -
  have "finite (with_status st vs)" using with_status_dom assms by (rule finite_subset)
  then obtain xs where xs: "set xs = with_status st vs" "distinct xs" using finite_distinct_list by blast
  have "sorted_wrt (\<lambda>a b. stake_at vs b \<le> stake_at vs a) (rev (sort_key (stake_at vs) xs))"
    using sorted_sort_key [of "stake_at vs" xs] by (simp add: sorted_wrt_rev sorted_map)
  then show ?thesis
    using xs by (intro exI [of _ "rev (sort_key (stake_at vs) xs)"]) (simp add: stake_order_def stake_at_def [symmetric] not_less)
qed

definition exchange :: "string \<Rightarrow> string \<Rightarrow> string \<Rightarrow> string" where
  "exchange a b = id(a := b, b := a)"

lemma exchange_order:
  assumes "stake_order st vs ks" and "a \<in> set ks" "b \<in> set ks" and "stake_at vs a = stake_at vs b"
  shows "stake_order st vs (map (exchange a b) ks)"
proof -
  have "inj (exchange a b)" by (auto simp: exchange_def inj_def)
  moreover have "exchange a b ` set ks = set ks" using assms(2,3) by (force simp: exchange_def image_iff)
  moreover have "stake_at vs (exchange a b k) = stake_at vs k" for k using assms(4) by (simp add: exchange_def)
  ultimately show ?thesis
    using assms(1) by (simp add: stake_order_def stake_at_def [symmetric] distinct_map sorted_wrt_map inj_on_def inj_def)
qed

lemma exchange_filter:
  assumes "P a" and "P b"
  shows "filter P (map (exchange a b) ks) = map (exchange a b) (filter P ks)"
proof -
  have "P (exchange a b k) = P k" for k using assms by (simp add: exchange_def)
  then show ?thesis by (simp add: filter_map comp_def)
qed

lemma tied_neighbours:
  assumes p: "stake_order ValidatorPending vs ks" and cut: "tied_cut height stake vs"
  defines "L \<equiv> filter (eligible (height div EpochLength) vs) ks" and "n \<equiv> activation_slots vs"
  shows "0 < n \<and> n < length L \<and> stake_at vs (L ! (n - 1)) = stake_at vs (L ! n)"
proof -
  have L: "distinct L" "set L = candidates height vs" using p by (auto simp: stake_order_def L_def candidates_def)
  have srt: "sorted_wrt (\<lambda>a b. stake_at vs b \<le> stake_at vs a) L"
    using p unfolding L_def by (intro sorted_wrt_filter) (simp add: stake_order_def stake_at_def not_less)
  have c: "card {k \<in> set L. stake < stake_at vs k} < n" "n < card {k \<in> set L. stake \<le> stake_at vs k}"
    using cut by (simp_all add: tied_cut_def L(2) n_def)
  have "card {k \<in> set L. stake \<le> stake_at vs k} \<le> length L" using card_mono [of "set L"] distinct_card [OF L(1)] by (metis (no_types, lifting) List.finite_set mem_Collect_eq subsetI)
  then have n: "0 < n" "n < length L" using c by linarith+
  have low: "stake_at vs (L ! (n - 1)) \<le> stake"
  proof (rule ccontr)
    assume "\<not> ?thesis"
    then have "stake < stake_at vs k" if "k \<in> set (take n L)" for k
    proof -
      obtain i where i: "i < n" "k = L ! i" using \<open>k \<in> set (take n L)\<close> by (auto simp: in_set_conv_nth)
      have "i < n - 1 \<or> i = n - 1" using i(1) by linarith
      then have "stake_at vs (L ! (n - 1)) \<le> stake_at vs k" using sorted_wrt_nth_less [OF srt, of i "n - 1"] i n by auto
      then show ?thesis using \<open>\<not> stake_at vs (L ! (n - 1)) \<le> stake\<close> by simp
    qed
    then have "set (take n L) \<subseteq> {k \<in> set L. stake < stake_at vs k}" by (auto dest: in_set_takeD)
    then have "card (set (take n L)) \<le> card {k \<in> set L. stake < stake_at vs k}" by (intro card_mono) auto
    then show False using c(1) distinct_card [OF distinct_take [OF L(1)], of n] n(2) by simp
  qed
  have high: "stake \<le> stake_at vs (L ! n)"
  proof (rule ccontr)
    assume a: "\<not> ?thesis"
    have "k \<in> set (take n L)" if k: "k \<in> set L" "stake \<le> stake_at vs k" for k
    proof -
      obtain i where i: "i < length L" "k = L ! i" using k(1) by (auto simp: in_set_conv_nth)
      have "i < n"
      proof (rule ccontr)
        assume "\<not> i < n"
        then have "stake_at vs k \<le> stake_at vs (L ! n)" using sorted_wrt_nth_less [OF srt, of n i] i by (cases "i = n") auto
        then show False using a k(2) by simp
      qed
      then show ?thesis using i by (auto simp: in_set_conv_nth)
    qed
    then have "card {k \<in> set L. stake \<le> stake_at vs k} \<le> card (set (take n L))" by (intro card_mono) auto
    then show False using c(2) card_length [of "take n L"] by simp
  qed
  have "stake_at vs (L ! n) \<le> stake_at vs (L ! (n - 1))" using sorted_wrt_nth_less [OF srt, of "n - 1" n] n by simp
  then show ?thesis using low high n by auto
qed

lemma release_cut: "tied_cut height stake vs \<Longrightarrow> tied_cut height stake (release_all_entries height vs)"
proof -
  have c: "candidates height (release_all_entries height vs) = candidates height vs"
    by (auto simp: candidates_def release_with_status eligible_def release_lookup)
  have "stake_at (release_all_entries height vs) k = stake_at vs k" if "k \<in> candidates height vs" for k
    using that by (intro release_stake_at) (auto simp: candidates_def with_status_def)
  then have "{k \<in> candidates height vs. stake < stake_at (release_all_entries height vs) k} = {k \<in> candidates height vs. stake < stake_at vs k}"
    "{k \<in> candidates height vs. stake \<le> stake_at (release_all_entries height vs) k} = {k \<in> candidates height vs. stake \<le> stake_at vs k}"
    by (intro Collect_cong conj_cong refl; simp)+
  then show "tied_cut height stake vs \<Longrightarrow> tied_cut height stake (release_all_entries height vs)"
    by (simp add: tied_cut_def c activation_slots_def release_with_status)
qed

text \<open>When there are seats, everybody who is activated stays.\<close>

lemma epoch_active_chosen:
  assumes "finite (dom vs)" and "stake_order ValidatorPending (release_all_entries height vs) pending" and "activation_slots (release_all_entries height vs) \<noteq> 0"
  shows "\<exists>ranked. epoch_orders height pending ranked vs \<and> with_status ValidatorActive (epoch_validators height pending ranked vs) =
    with_status ValidatorActive vs \<union> chosen (height div EpochLength) (activation_slots (release_all_entries height vs)) pending (release_all_entries height vs)"
proof -
  let ?vs1 = "release_all_entries height vs" and ?ce = "height div EpochLength"
  let ?n = "activation_slots ?vs1"
  let ?new = "chosen ?ce ?n pending ?vs1"
  have d: "distinct pending" using assms(2) by (simp add: stake_order_def)
  have "dom (activate ?ce ?n pending ?vs1) \<subseteq> dom vs" by (auto simp: activate_lookup [OF d] release_lookup split: if_splits)
  then have "finite (dom (activate ?ce ?n pending ?vs1))" using assms(1) by (rule finite_subset)
  from stake_order_exists [OF this] obtain ranked where r: "stake_order ValidatorActive (activate ?ce ?n pending ?vs1) ranked" by blast
  have o: "epoch_orders height pending ranked vs" using assms(2) r by (simp add: epoch_orders_def Let_def)
  note ep = epoch_parts [OF assms(1) o]
  have fin: "finite (with_status ValidatorActive vs)" using with_status_dom assms(1) by (rule finite_subset)
  have "length ranked = card (set ranked)" using r distinct_card [of ranked] by (simp add: stake_order_def)
  also have "\<dots> = card (with_status ValidatorActive vs) + card ?new"
    using card_Un_disjoint [OF fin _ ep(3)] unfolding ep(2) by (simp add: chosen_def)
  also have "\<dots> \<le> MaxValidators"
    using chosen_card [of ?ce ?n pending ?vs1] activation_slots_room [OF assms(3)] by (simp add: release_with_status)
  finally have "take MaxValidators ranked = ranked" by simp
  then show ?thesis using o ep(2,5) by auto
qed

text \<open>C29: When the free seats of an epoch (at most 3) end inside a group of waiting, eligible validators with equal stake, so that some but not all of the group can be
  activated, then the update is not determined by the registry: there are two runs, both allowed by the unspecified map order and the unstable
  sort, after which the active sets differ.\<close>

theorem epoch_tie_divergence:
  assumes "tied_cut height stake (rg_validators r)" and fin: "finite (dom (rg_validators r))"
  shows "\<exists>pending ranked pending' ranked'. epoch_orders height pending ranked (rg_validators r) \<and>
    epoch_orders height pending' ranked' (rg_validators r) \<and>
    with_status ValidatorActive (rg_validators (fst (UpdateEpoch height pending ranked pending r))) \<noteq>
    with_status ValidatorActive (rg_validators (fst (UpdateEpoch height pending' ranked' pending' r)))"
proof -
  let ?vs = "rg_validators r" and ?ce = "height div EpochLength"
  let ?vs1 = "release_all_entries height ?vs"
  let ?n = "activation_slots ?vs1"
  obtain ks where ks: "stake_order ValidatorPending ?vs1 ks" using stake_order_exists [of ?vs1] fin by auto
  define L where "L = filter (eligible ?ce ?vs1) ks"
  define x y where "x = L ! (?n - 1)" and "y = L ! ?n"
  have t: "0 < ?n" "?n < length L" "stake_at ?vs1 x = stake_at ?vs1 y"
    using tied_neighbours [OF ks release_cut [OF assms(1)]] by (simp_all add: L_def x_def y_def)
  have dL: "distinct L" using ks by (simp add: stake_order_def L_def)
  have "x \<in> set L" "y \<in> set L" using t(1,2) by (simp_all add: x_def y_def)
  then have xy: "x \<in> set ks" "y \<in> set ks" "eligible ?ce ?vs1 x" "eligible ?ce ?vs1 y" by (simp_all add: L_def)
  let ?ks = "map (exchange x y) ks"
  have ks': "stake_order ValidatorPending ?vs1 ?ks" by (rule exchange_order [OF ks xy(1,2) t(3)])
  have new: "chosen ?ce ?n ks ?vs1 = set (take ?n L)" "chosen ?ce ?n ?ks ?vs1 = exchange x y ` set (take ?n L)"
    using exchange_filter [of "eligible ?ce ?vs1", OF xy(3,4)] by (simp_all add: chosen_def L_def take_map)
  have "x \<in> set (take ?n L)" using t(1,2) by (auto simp: x_def in_set_conv_nth intro!: exI [of _ "?n - 1"])
  then have y: "y \<in> chosen ?ce ?n ?ks ?vs1" unfolding new(2) by (rule image_eqI [rotated]) (simp add: exchange_def)
  have y': "y \<notin> chosen ?ce ?n ks ?vs1" using dL t(2) by (auto simp: new(1) y_def in_set_conv_nth nth_eq_iff_index_eq)
  have "y \<in> with_status ValidatorPending ?vs" using xy(2) ks by (simp add: stake_order_def release_with_status)
  then have pend: "y \<notin> with_status ValidatorActive ?vs" by (auto simp: with_status_def)
  obtain r1 r2 where "epoch_orders height ks r1 ?vs" "with_status ValidatorActive (epoch_validators height ks r1 ?vs) = with_status ValidatorActive ?vs \<union> chosen ?ce ?n ks ?vs1"
    "epoch_orders height ?ks r2 ?vs" "with_status ValidatorActive (epoch_validators height ?ks r2 ?vs) = with_status ValidatorActive ?vs \<union> chosen ?ce ?n ?ks ?vs1"
    using epoch_active_chosen [OF fin ks] epoch_active_chosen [OF fin ks'] t(1) by blast
  then show ?thesis
    using y y' pend by (intro exI [of _ ks] exI [of _ r1] exI [of _ ?ks] exI [of _ r2]) (auto simp: UpdateEpoch_def Let_def)
qed

section \<open>Histories of the registry\<close>

text \<open>What happens to a registry while the node runs: accepted stake transactions, epoch transitions and
  a new minimum stake (\<open>UpdateMinStake\<close> computes it from a floating-point price, so it is an input here).  Orders
  that the sorts cannot return are not transitions.\<close>

datatype reg_event =
    StakeTx Transaction u64
  | EpochAt u64 "string list" "string list"
  | NewMinimum u64

fun reg_run :: "lib \<Rightarrow> 'd leveldb \<Rightarrow> reg_event \<Rightarrow> 'd ValidatorRegistry \<Rightarrow> stake_error + 'd ValidatorRegistry" where
  "reg_run K L (StakeTx tx height) r = (case applyOneTxLocked K L tx height r of (r', Inl e) \<Rightarrow> Inl e | (r', Inr _) \<Rightarrow> Inr r')"
| "reg_run K L (EpochAt height pending ranked) r =
     (if epoch_orders height pending ranked (rg_validators r) then Inr (fst (UpdateEpoch height pending ranked [] r)) else Inr r)"
| "reg_run K L (NewMinimum m) r = Inr (r\<lparr>rg_dynamicMinNAPR := m\<rparr>)"

fun event_label :: "reg_event \<Rightarrow> stake_label option" where
  "event_label (StakeTx tx _) = tx_label tx"
| "event_label _ = None"

definition event_nonces :: "reg_event \<Rightarrow> (string \<times> u64) list" where
  "event_nonces ev = (case event_label ev of None \<Rightarrow> [] | Some l \<Rightarrow> label_nonces l)"

definition event_burns :: "reg_event \<Rightarrow> UTXOKey list" where
  "event_burns ev = (case event_label ev of None \<Rightarrow> [] | Some l \<Rightarrow> (case label_burn l of None \<Rightarrow> [] | Some k \<Rightarrow> [k]))"

definition event_deposit :: "string \<Rightarrow> reg_event \<Rightarrow> nat" where
  "event_deposit k ev = (case event_label ev of None \<Rightarrow> 0 | Some l \<Rightarrow> label_deposit l k)"

text \<open>An epoch transition and a new minimum change neither nonces nor the output set, and add no stake.\<close>

lemma epoch_orders_distinct: "epoch_orders height pending ranked vs \<Longrightarrow> distinct pending \<and> distinct ranked"
  by (simp add: epoch_orders_def stake_order_def Let_def)

lemma epoch_entry:
  assumes "distinct pending" and "distinct ranked" and "vs k = Some e"
  shows "\<exists>e'. epoch_validators height pending ranked vs k = Some e' \<and> ve_StakeAuthNonce e' = ve_StakeAuthNonce e \<and>
    ve_StakeNAPR e' = ve_StakeNAPR e \<and> ve_Seeded e' = ve_Seeded e"
  using assms by (auto simp: epoch_validators_def rebalanceLocked_def Let_def demotes_lookup activate_lookup release_lookup)

lemma epoch_none:
  assumes "distinct pending" and "distinct ranked" and "vs k = None"
  shows "epoch_validators height pending ranked vs k = None"
  using assms by (auto simp: epoch_validators_def rebalanceLocked_def Let_def demotes_lookup activate_lookup release_lookup)

lemma epoch_exited:
  assumes "epoch_orders height pending ranked vs" and "vs k = Some e" and "ve_Status e = ValidatorExited"
  shows "\<exists>e'. epoch_validators height pending ranked vs k = Some e' \<and> ve_Status e' = ValidatorExited"
proof -
  let ?vs1 = "release_all_entries height vs" and ?ce = "height div EpochLength"
  let ?vs2 = "activate ?ce (activation_slots ?vs1) pending ?vs1"
  have p: "stake_order ValidatorPending ?vs1 pending" and r: "stake_order ValidatorActive ?vs2 ranked"
    using assms(1) by (simp_all add: epoch_orders_def Let_def)
  have "k \<notin> chosen ?ce (activation_slots ?vs1) pending ?vs1"
    using chosen_pending [OF p, of ?ce "activation_slots ?vs1"] assms(2,3) unfolding release_with_status
    by (auto simp: with_status_def)
  then have vs2: "?vs2 k = Some (release_entry height e)"
    using p assms(2) by (simp add: activate_lookup stake_order_def release_lookup)
  then have "k \<notin> set ranked" using r assms(3) by (auto simp: stake_order_def with_status_def release_status)
  then have "k \<notin> set (drop MaxValidators ranked)" using in_set_dropD by fast
  then show ?thesis
    using vs2 r assms(3) by (simp add: epoch_validators_def rebalanceLocked_def Let_def demotes_lookup stake_order_def release_status)
qed

lemma epoch_nonce: "epoch_orders height pending ranked (rg_validators r) \<Longrightarrow>
    nonce_of (fst (UpdateEpoch height pending ranked ks r)) = nonce_of r"
proof
  fix k assume "epoch_orders height pending ranked (rg_validators r)"
  then have d: "distinct pending" "distinct ranked" using epoch_orders_distinct by blast+
  show "nonce_of (fst (UpdateEpoch height pending ranked ks r)) k = nonce_of r k"
    using epoch_entry [OF d, of "rg_validators r" k _ height] epoch_none [OF d, of "rg_validators r" k height]
    by (cases "rg_validators r k") (force simp: nonce_of_def UpdateEpoch_def Let_def)+
qed

lemma epoch_stake:
  assumes "epoch_orders height pending ranked (rg_validators r)"
  shows "live_stake (fst (UpdateEpoch height pending ranked ks r)) k \<le> live_stake r k"
proof (cases "rg_validators r k")
  case None
  then show ?thesis using epoch_none epoch_orders_distinct [OF assms] by (simp add: live_stake_def UpdateEpoch_def Let_def)
next
  case (Some e)
  have d: "distinct pending" "distinct ranked" using epoch_orders_distinct [OF assms] by blast+
  obtain e' where e': "epoch_validators height pending ranked (rg_validators r) k = Some e'"
    "ve_StakeNAPR e' = ve_StakeNAPR e" "ve_Seeded e' = ve_Seeded e" using epoch_entry [OF d, of "rg_validators r" k e height] Some by blast
  have "ve_Status e' = ValidatorExited" if "ve_Status e = ValidatorExited"
    using epoch_exited [OF assms Some that] e'(1) by simp
  then show ?thesis using e' Some by (auto simp: live_stake_def UpdateEpoch_def Let_def)
qed

lemma reg_run_StakeTx:
  assumes "reg_run K L (StakeTx tx height) r = Inr r'"
  shows "\<exists>l. event_label (StakeTx tx height) = Some l \<and> reg_step K height r l r'"
  using assms applyOne_refines [of K L tx height r] by (fastforce split: prod.splits sum.splits)

text \<open>The outputs that are locked as collateral.\<close>

definition reg_locked :: "'d ValidatorRegistry \<Rightarrow> UTXOKey \<Rightarrow> bool" where
  "reg_locked r k \<longleftrightarrow> (\<exists>us. rg_utxos r = Some us \<and> us_stakedUTXOs us k \<noteq> None)"

definition nonce_used :: "'d ValidatorRegistry \<Rightarrow> string \<times> u64 \<Rightarrow> bool" where
  "nonce_used r kn \<longleftrightarrow> (\<exists>m. nonce_of r (fst kn) = Some m \<and> snd kn \<le> m)"

lemma reg_run_cases:
  assumes "reg_run K L ev r = Inr r'"
  obtains (stake) tx height l where "ev = StakeTx tx height" "event_label ev = Some l" "reg_step K height r l r'"
  | (other) "event_label ev = None" "nonce_of r' = nonce_of r" "rg_utxos r' = rg_utxos r" "\<And>k. live_stake r' k \<le> live_stake r k"
proof (cases ev)
  case (StakeTx tx height)
  then show thesis using stake reg_run_StakeTx assms by blast
next
  case (NewMinimum m)
  then have "r' = r\<lparr>rg_dynamicMinNAPR := m\<rparr>" using assms by simp
  then show thesis using other NewMinimum by (simp add: nonce_of_def live_stake_def fun_eq_iff)
next
  case (EpochAt height pending ranked)
  show thesis
  proof (cases "epoch_orders height pending ranked (rg_validators r)")
    case True
    then have r': "r' = fst (UpdateEpoch height pending ranked [] r)" using assms EpochAt by simp
    moreover have "rg_utxos r' = rg_utxos r" by (simp add: r' UpdateEpoch_def Let_def)
    ultimately show thesis using other EpochAt epoch_nonce [OF True] epoch_stake [OF True] by simp
  next
    case False
    then show thesis using assms EpochAt other by simp
  qed
qed

interpretation nonces: one_shot "reg_run K L" "\<lambda>_. True" nonce_used event_nonces
proof
  fix r ev r' kn
  assume step: "reg_run K L ev r = Inr r'"
  show "distinct (event_nonces ev) \<and> (\<forall>kn \<in> set (event_nonces ev). \<not> nonce_used r kn \<and> nonce_used r' kn)"
    using step
  proof (cases rule: reg_run_cases)
    case (stake tx height l)
    have "distinct (label_nonces l)" by (cases l) auto
    then show ?thesis using stake reg_step_nonce(2) [OF stake(3)] by (fastforce simp: event_nonces_def nonce_used_def)
  qed (simp add: event_nonces_def)
  assume n: "nonce_used r kn"
  show "nonce_used r' kn" using step
  proof (cases rule: reg_run_cases)
    case (stake tx height l)
    then show ?thesis using n reg_step_nonce(1) [OF stake(3)] order_trans unfolding nonce_used_def by blast
  qed (use n in \<open>simp add: nonce_used_def\<close>)
qed

interpretation burns: one_shot "reg_run K L" "\<lambda>_. True" reg_locked event_burns
proof
  fix r ev r' k
  assume step: "reg_run K L ev r = Inr r'"
  show "distinct (event_burns ev) \<and> (\<forall>k \<in> set (event_burns ev). \<not> reg_locked r k \<and> reg_locked r' k)"
    using step
  proof (cases rule: reg_run_cases)
    case (stake tx height l)
    then show ?thesis using reg_step_utxos [OF stake(3)]
      by (auto simp: event_burns_def reg_locked_def mark_key_Inr split: option.splits)
  qed (simp add: event_burns_def)
  assume k: "reg_locked r k"
  show "reg_locked r' k" using step
  proof (cases rule: reg_run_cases)
    case (stake tx height l)
    then show ?thesis using reg_step_utxos [OF stake(3)] k
      by (auto simp: reg_locked_def mark_key_Inr split: option.splits)
  qed (use k in \<open>simp add: reg_locked_def\<close>)
qed

lemma run_stake:
  "foldE (reg_run K L) evs r = Inr r' \<Longrightarrow> live_stake r' k \<le> live_stake r k + sum_list (map (event_deposit k) evs)"
proof (induction evs arbitrary: r)
  case (Cons ev evs)
  then obtain r1 where r1: "reg_run K L ev r = Inr r1" "foldE (reg_run K L) evs r1 = Inr r'" by (auto split: sum.splits)
  have "live_stake r1 k \<le> live_stake r k + event_deposit k ev"
    using r1(1) by (cases rule: reg_run_cases) (simp_all add: event_deposit_def reg_step_stake trans_le_add1)
  then show ?case using Cons.IH [OF r1(2)] by simp
qed simp

text \<open>C27: Over any history of accepted stake transactions, epoch transitions and changes of the minimum, every
  withdrawal nonce of a validator is used at most once and was not used before, every burned output
  backs at most one deposit and stays locked, and the stake of a validator never exceeds what it had plus
  the amounts of its burned deposits.\<close>

theorem stake_history_sound:
  assumes "foldE (reg_run K L) evs r = Inr r'"
  shows "distinct (concat (map event_nonces evs)) \<and> (\<forall>kn \<in> set (concat (map event_nonces evs)). \<not> nonce_used r kn) \<and>
    distinct (concat (map event_burns evs)) \<and>
    (\<forall>k \<in> set (concat (map event_burns evs)). \<not> reg_locked r k \<and> reg_locked r' k) \<and>
    (\<forall>k. live_stake r' k \<le> live_stake r k + sum_list (map (event_deposit k) evs))"
  using nonces.run_distinct [OF _ assms] burns.run_distinct [OF _ assms] run_stake [OF assms] by blast

section \<open>Leaving is final\<close>

definition has_exited :: "string \<Rightarrow> 'd ValidatorRegistry \<Rightarrow> bool" where
  "has_exited k r \<longleftrightarrow> (\<exists>e. rg_validators r k = Some e \<and> ve_Status e = ValidatorExited)"

lemma withdraw_exited:
  "applyWithdraw key height r = Inr r' \<Longrightarrow> has_exited k r \<Longrightarrow> has_exited k r'"
  "applyPartialWithdraw key amount height r = Inr r' \<Longrightarrow> has_exited k r \<Longrightarrow> has_exited k r'"
  by (auto simp: applyWithdraw_def applyPartialWithdraw_def has_exited_def leaving_def Let_def split: option.splits if_splits)

lemma set_nonce_exited: "has_exited k r \<Longrightarrow> has_exited k (set_nonce key n r)"
  by (auto simp: has_exited_def set_nonce_def split: option.splits)

lemma deposit_exited:
  assumes "applyDeposit key pub amount height r = Inr r'" and "has_exited k r"
  shows "has_exited k r'"
proof -
  obtain e' where e': "r' = demoteSeededLocked (r\<lparr>rg_validators := (rg_validators r)(key \<mapsto> e')\<rparr>)"
    "\<forall>e. rg_validators r key = Some e \<longrightarrow> \<not> leaving (ve_Status e)"
    using applyDeposit_Inr [OF assms(1)] by (fastforce split: option.splits)
  then have "k \<noteq> key" using assms(2) by (auto simp: has_exited_def leaving_def)
  moreover obtain e where "rg_validators r k = Some e" "ve_Status e = ValidatorExited" using assms(2) by (auto simp: has_exited_def)
  ultimately show ?thesis by (cases "ve_Seeded e") (simp_all add: e'(1) has_exited_def demoteSeeded_lookup)
qed

lemma reg_step_exited: "reg_step K height r l r' \<Longrightarrow> has_exited k r \<Longrightarrow> has_exited k r'"
proof (induction rule: reg_step.induct)
  case (deposits r us key u amount blind us' pub r')
  then show ?case using deposit_exited [OF deposits.hyps(5)] by (simp add: has_exited_def)
qed (auto intro: withdraw_exited set_nonce_exited)

interpretation exited: stepwise_inv "reg_run K L" "has_exited k"
proof
  fix r ev r' assume x: "has_exited k r" and step: "reg_run K L ev r = Inr r'"
  show "has_exited k r'"
  proof (cases ev)
    case (StakeTx tx height)
    then show ?thesis using reg_run_StakeTx step reg_step_exited x by blast
  next
    case (EpochAt height pending ranked)
    then show ?thesis using step x epoch_exited [of height pending ranked "rg_validators r" k]
      by (auto simp: has_exited_def UpdateEpoch_def Let_def split: if_splits)
  next
    case (NewMinimum m)
    then show ?thesis using step x by (auto simp: has_exited_def)
  qed
qed

text \<open>C30: A validator that has exited stays exited for ever: whatever stake transactions, epoch transitions and
  changes of the minimum follow, it is never active again and has no stake that counts.\<close>

theorem exit_is_final:
  assumes "has_exited (pub_Hex pub) r" and "foldE (reg_run K L) evs r = Inr r'"
  shows "\<not> IsActive r' pub \<and> live_stake r' (pub_Hex pub) = 0"
  using exited.run_inv [OF assms] by (auto simp: has_exited_def IsActive_def live_stake_def)

section \<open>Concrete registries\<close>

definition demo_entry :: "u8 \<Rightarrow> u64 \<Rightarrow> ValidatorEntry" where
  "demo_entry i stake = new_entry (replicate 32 i) stake 0"

definition demo_key :: "u8 \<Rightarrow> string" where "demo_key i = pub_Hex (replicate 32 i)"

definition staked_registry :: "(u8 \<times> u64) list \<Rightarrow> (bytes \<rightharpoonup> bytes) ValidatorRegistry" where
  "staked_registry ss = NewValidatorRegistry\<lparr>rg_validators := map_of (map (\<lambda>(i, s). (demo_key i, demo_entry i s)) ss)\<rparr>"

lemma demo_keys: "distinct (map demo_key [1, 2, 3, 4])"
  by code_simp

definition tied_registry :: "(bytes \<rightharpoonup> bytes) ValidatorRegistry" where
  "tied_registry = staked_registry [(1, MinStakeNAPR), (2, MinStakeNAPR), (3, MinStakeNAPR), (4, MinStakeNAPR)]"

lemma tied_registry_dom: "dom (rg_validators tied_registry) = set (map demo_key [1, 2, 3, 4])"
  by (auto simp: tied_registry_def staked_registry_def)

lemma tied_registry_tied: "all_tied (200 div EpochLength) MinStakeNAPR (rg_validators tied_registry)"
  by (auto simp: all_tied_def tied_registry_def staked_registry_def demo_entry_def new_entry_def EpochLength_def split: if_splits)

lemma tied_registry_card: "ChurnLimit < card (dom (rg_validators tied_registry))"
  using distinct_card [OF demo_keys] by (simp add: tied_registry_dom ChurnLimit_def)

lemma tied_registry_cut: "tied_cut 200 MinStakeNAPR (rg_validators tied_registry)"
proof -
  let ?vs = "rg_validators tied_registry"
  have t: "ve_Status e = ValidatorPending \<and> ve_StakeNAPR e = MinStakeNAPR \<and> ve_ActivationEpoch e \<le> 200 div EpochLength" if "?vs k = Some e" for k e
    using tied_registry_tied that by (auto simp: all_tied_def)
  have c: "candidates 200 ?vs = dom ?vs" using t by (fastforce simp: candidates_def with_status_def eligible_def)
  have none: "with_status ValidatorActive ?vs = {}" using t by (fastforce simp: with_status_def)
  have stake: "stake_at ?vs k = MinStakeNAPR" if "k \<in> dom ?vs" for k using t that by (auto simp: stake_at_def)
  then have "{k \<in> dom ?vs. MinStakeNAPR < stake_at ?vs k} = {k \<in> dom ?vs. False}" "{k \<in> dom ?vs. MinStakeNAPR \<le> stake_at ?vs k} = {k \<in> dom ?vs. True}"
    by (intro Collect_cong conj_cong refl; simp)+
  then have "card {k \<in> dom ?vs. MinStakeNAPR < stake_at ?vs k} = 0" "card {k \<in> dom ?vs. MinStakeNAPR \<le> stake_at ?vs k} = card (dom ?vs)"
    by (simp_all only: simp_thms empty_def [symmetric] card.empty Collect_mem_eq)
  then show ?thesis
    using tied_registry_card by (simp only: tied_cut_def c activation_slots_def none) (simp add: MaxValidators_def ChurnLimit_def)
qed

lemma tied_registry_finite: "finite (dom (rg_validators tied_registry))"
  by (simp add: tied_registry_dom)

theorem epoch_tie_divergence_witness:
  "\<exists>pending ranked pending' ranked'. epoch_orders 200 pending ranked (rg_validators tied_registry) \<and>
    epoch_orders 200 pending' ranked' (rg_validators tied_registry) \<and>
    with_status ValidatorActive (rg_validators (fst (UpdateEpoch 200 pending ranked pending tied_registry))) \<noteq>
    with_status ValidatorActive (rg_validators (fst (UpdateEpoch 200 pending' ranked' pending' tied_registry)))"
  by (rule epoch_tie_divergence [OF tied_registry_cut tied_registry_finite])

lemma tied_registry_orders:
  "epoch_orders 200 (map demo_key [1, 2, 3, 4]) (map demo_key [1, 2, 3]) (rg_validators tied_registry)"
proof -
  have "map_order (rg_validators tied_registry) (map demo_key [1, 2, 3, 4])"
    unfolding map_order_def tied_registry_dom using demo_keys by blast
  from tied_update(1) [OF tied_registry_tied this] show ?thesis by (simp add: ChurnLimit_def numeral_3_eq_3)
qed

theorem epoch_active_set_witness:
  "\<exists>r' out. UpdateEpoch 200 (map demo_key [1, 2, 3, 4]) (map demo_key [1, 2, 3]) [] tied_registry = (r', out) \<and>
     card (with_status ValidatorActive (rg_validators r')) \<le> MaxValidators"
proof -
  obtain r' out where u: "UpdateEpoch 200 (map demo_key [1, 2, 3, 4]) (map demo_key [1, 2, 3]) [] tied_registry = (r', out)"
    by (metis surj_pair)
  from epoch_active_set [OF tied_registry_finite tied_registry_orders this] u show ?thesis by blast
qed

definition ranked_registry :: "(bytes \<rightharpoonup> bytes) ValidatorRegistry" where
  "ranked_registry = staked_registry [(1, MinStakeNAPR), (2, MinStakeNAPR + 1)]"

lemma ranked_lookup: "rg_validators ranked_registry k = (if k = demo_key 1 then Some (demo_entry 1 MinStakeNAPR)
    else if k = demo_key 2 then Some (demo_entry 2 (MinStakeNAPR + 1)) else None)"
  by (simp add: ranked_registry_def staked_registry_def)

lemma ranked_keys: "demo_key 1 \<noteq> demo_key 2" "demo_key 2 \<noteq> demo_key 1"
  using demo_keys by auto

lemma ranked_dom: "dom (rg_validators ranked_registry) = {demo_key 1, demo_key 2}"
  by (auto simp: ranked_lookup split: if_splits)

lemma ranked_status:
  "with_status ValidatorPending (rg_validators ranked_registry) = {demo_key 1, demo_key 2}"
  "with_status ValidatorActive (rg_validators ranked_registry) = {}"
  using ranked_keys by (auto simp: with_status_def ranked_lookup demo_entry_def new_entry_def split: if_splits)

lemma ranked_stakes: "stake_at (rg_validators ranked_registry) (demo_key 1) = MinStakeNAPR"
    "stake_at (rg_validators ranked_registry) (demo_key 2) = MinStakeNAPR + 1"
  using ranked_keys by (simp_all add: stake_at_def ranked_lookup demo_entry_def new_entry_def)

lemma ranked_orders: "epoch_orders 200 [demo_key 2, demo_key 1] [demo_key 2, demo_key 1] (rg_validators ranked_registry)"
proof -
  let ?vs1 = "release_all_entries 200 (rg_validators ranked_registry)" and ?ks = "[demo_key 2, demo_key 1]"
  have st: "stake_at ?vs1 (demo_key 2) = MinStakeNAPR + 1" "stake_at ?vs1 (demo_key 1) = MinStakeNAPR"
    by (simp_all add: release_stake_at ranked_dom ranked_stakes)
  have le: "MinStakeNAPR \<le> MinStakeNAPR + 1" by (simp add: MinStakeNAPR_def)
  have p: "stake_order ValidatorPending ?vs1 ?ks"
    unfolding stake_order_def stake_at_def [symmetric] release_with_status ranked_status using ranked_keys le st by auto
  have slots: "activation_slots ?vs1 = ChurnLimit"
    by (simp add: activation_slots_def release_with_status ranked_status MaxValidators_def ChurnLimit_def)
  have "filter (eligible (200 div EpochLength) ?vs1) ?ks = ?ks"
    using ranked_keys by (simp add: eligible_def release_lookup ranked_lookup demo_entry_def new_entry_def EpochLength_def)
  then have ch: "chosen (200 div EpochLength) ChurnLimit ?ks ?vs1 = set ?ks" by (simp add: chosen_def ChurnLimit_def)
  have "stake_order ValidatorActive (activate (200 div EpochLength) ChurnLimit ?ks ?vs1) ?ks"
    unfolding stake_order_def stake_at_def [symmetric] activate_active(1) [OF p] ch
    using ranked_keys le by (auto simp: activate_stake st release_with_status ranked_status simp del: activate.simps)
  with p show ?thesis unfolding epoch_orders_def Let_def slots by blast
qed

theorem epoch_deterministic_witness:
  "UpdateEpoch 200 [demo_key 2, demo_key 1] [demo_key 2, demo_key 1] [demo_key 1, demo_key 2] ranked_registry =
   UpdateEpoch 200 [demo_key 2, demo_key 1] [demo_key 2, demo_key 1] [demo_key 2, demo_key 1] ranked_registry"
proof (rule epoch_deterministic [OF _ _ ranked_orders ranked_orders])
  show "registry_keyed (rg_validators ranked_registry)"
    by (auto simp: registry_keyed_def ranked_dom ranked_lookup demo_entry_def new_entry_def demo_key_def split: if_splits)
  show "inj_on (stake_at (rg_validators ranked_registry)) (with_status ValidatorPending (rg_validators ranked_registry) \<union>
      with_status ValidatorActive (rg_validators ranked_registry))"
    using ranked_keys by (auto simp: ranked_status ranked_stakes inj_on_def)
qed (use ranked_keys in \<open>auto simp: map_order_def ranked_dom\<close>)

theorem stake_history_sound_witness:
  "\<exists>r'. foldE (reg_run demo_lib mem_leveldb) [NewMinimum 0, StakeTx demo_stake_tx 250] demo_registry = Inr r' \<and>
     \<not> reg_locked demo_registry (1, 7) \<and> reg_locked r' (1, 7)"
proof -
  obtain r' rb where a: "ApplyBlockStakeTxs demo_lib mem_leveldb [demo_stake_tx] 250 demo_registry = (r', Inr rb)"
    using dry_run_applies [OF demo_registry_ok demo_dry_run] by blast
  then have "\<exists>ko. applyOneTxLocked demo_lib mem_leveldb demo_stake_tx 250 demo_registry = (r', Inr ko)"
    by (auto simp: ApplyBlockStakeTxs_def demo_stake_kind Let_def split: prod.splits sum.splits option.splits)
  moreover have "demo_registry\<lparr>rg_dynamicMinNAPR := 0\<rparr> = demo_registry"
    by (simp add: demo_registry_def SetUTXOSet_def NewValidatorRegistry_def)
  ultimately have run: "foldE (reg_run demo_lib mem_leveldb) [NewMinimum 0, StakeTx demo_stake_tx 250] demo_registry = Inr r'"
    by auto
  have "tx_label demo_stake_tx = Some (deposit_label demo_stake)" by (rule tx_label_deposit(1) [OF demo_stake_decodes])
  then have "event_burns (StakeTx demo_stake_tx 250) = [(1, 7)]"
    by (simp add: event_burns_def deposit_label_def burn_key_def) (simp add: demo_stake_def)
  then have "(1, 7) \<in> set (concat (map event_burns [NewMinimum 0, StakeTx demo_stake_tx 250]))" by simp
  then show ?thesis using stake_history_sound [OF run] run by blast
qed

definition exited_registry :: "(bytes \<rightharpoonup> bytes) ValidatorRegistry" where
  "exited_registry = demoteSeededLocked (SeedFromObservedProducers [replicate 32 1] NewValidatorRegistry)"

lemma exited_example: "has_exited (pub_Hex (replicate 32 1)) exited_registry"
  by (simp add: exited_registry_def has_exited_def demoteSeeded_lookup SeedFromObservedProducers_def seed_one_def seed_entry_def
      Let_def NewValidatorRegistry_def)

theorem exit_is_final_witness:
  "\<exists>r'. foldE (reg_run demo_lib mem_leveldb) [NewMinimum 5] exited_registry = Inr r' \<and> \<not> IsActive r' (replicate 32 1)"
proof -
  obtain r' where run: "foldE (reg_run demo_lib mem_leveldb) [NewMinimum 5] exited_registry = Inr r'" by simp
  from exit_is_final [OF exited_example this] run show ?thesis by blast
qed

end
