(* ===== verification/Chain_State.thy ===== *)
theory Chain_State
  imports Blocks
begin

text \<open>
  The canonical chain in memory (\<open>core/chain.go\<close>): blocks by hash and by height, the index of transactions,
  the sliding window that bounds it, the reversal of the last addition, bulk loading, reorganization
  and the answers to peers that synchronize.  Blocks are values; the lock is not modelled.
\<close>

section \<open>Definitions\<close>

abbreviation height_of :: "Block \<Rightarrow> u64" where
  "height_of b \<equiv> bh_Height (blk_Header b)"

abbreviation prev_of :: "Block \<Rightarrow> hash32" where
  "prev_of b \<equiv> bh_PrevHash (blk_Header b)"

definition MaxInMemoryBlocks :: u64 where "MaxInMemoryBlocks = 1000"

record TxLocation =
  loc_Block :: Block
  loc_TxIndex :: nat

record chainAddRollback =
  ca_blockHash :: hash32
  ca_previousTip :: Block
  ca_evicted :: "Block option"

record Chain =
  ch_blocks :: "hash32 \<rightharpoonup> Block"
  ch_byHeight :: "u64 \<rightharpoonup> Block"
  ch_txIndex :: "hash32 \<rightharpoonup> TxLocation"
  ch_tip :: "Block option"
  ch_genesis :: "Block option"
  ch_maxInMemoryBlocks :: u64
  ch_lastAdd :: "chainAddRollback option"

datatype chain_error =
    NotGenesis
  | NotInitialized
  | NotExtending
  | PrevHashMismatch
  | NotLatestAdd
  | ParentLinkage
  | ReorgEmpty
  | ReorgStart
  | ReorgGap
  | ReorgPrevHash

definition NewChain :: "u64 list \<Rightarrow> Chain" where
  "NewChain maxBlocks = \<lparr>ch_blocks = Map.empty, ch_byHeight = Map.empty, ch_txIndex = Map.empty, ch_tip = None,
     ch_genesis = None,
     ch_maxInMemoryBlocks = (case maxBlocks of m # _ \<Rightarrow> if 0 < m then m else MaxInMemoryBlocks | [] \<Rightarrow> MaxInMemoryBlocks),
     ch_lastAdd = None\<rparr>"

text \<open>Later transactions of the block overwrite earlier ones with the same hash.\<close>

definition index_tx :: "lib \<Rightarrow> Block \<Rightarrow> nat \<times> Transaction \<Rightarrow> (hash32 \<rightharpoonup> TxLocation) \<Rightarrow> (hash32 \<rightharpoonup> TxLocation)" where
  "index_tx K b itx ix = ix(tx_Hash K (snd itx) \<mapsto> \<lparr>loc_Block = b, loc_TxIndex = fst itx\<rparr>)"

definition index_block :: "lib \<Rightarrow> Block \<Rightarrow> (hash32 \<rightharpoonup> TxLocation) \<Rightarrow> (hash32 \<rightharpoonup> TxLocation)" where
  "index_block K b ix = fold (index_tx K b) (enumerate 0 (blk_Txs b)) ix"

definition unindex_block :: "lib \<Rightarrow> Block \<Rightarrow> (hash32 \<rightharpoonup> TxLocation) \<Rightarrow> (hash32 \<rightharpoonup> TxLocation)" where
  "unindex_block K b ix = fold (\<lambda>tx ix. ix(tx_Hash K tx := None)) (blk_Txs b) ix"

definition indexTxs :: "lib \<Rightarrow> Block \<Rightarrow> Chain \<Rightarrow> Chain" where
  "indexTxs K b c = c\<lparr>ch_txIndex := index_block K b (ch_txIndex c)\<rparr>"

definition put_block :: "lib \<Rightarrow> Block \<Rightarrow> Chain \<Rightarrow> Chain" where
  "put_block K b c = c\<lparr>ch_blocks := (ch_blocks c)(block_Hash K b \<mapsto> b), ch_byHeight := (ch_byHeight c)(height_of b \<mapsto> b)\<rparr>"

text \<open>Removing a block that is indexed at \<open>h\<close> from the three indexes.\<close>

definition remove_at :: "lib \<Rightarrow> u64 \<Rightarrow> Block \<Rightarrow> Chain \<Rightarrow> Chain" where
  "remove_at K h old c = c\<lparr>ch_byHeight := (ch_byHeight c)(h := None), ch_blocks := (ch_blocks c)(block_Hash K old := None),
     ch_txIndex := unindex_block K old (ch_txIndex c)\<rparr>"

definition evicted_at :: "u64 \<Rightarrow> Chain \<Rightarrow> Block option" where
  "evicted_at height c =
     (if ch_maxInMemoryBlocks c \<le> height then ch_byHeight c (height - ch_maxInMemoryBlocks c) else None)"

definition evict :: "lib \<Rightarrow> u64 \<Rightarrow> Chain \<Rightarrow> Chain" where
  "evict K height c =
     (case evicted_at height c of
        None \<Rightarrow> c
      | Some old \<Rightarrow> remove_at K (height - ch_maxInMemoryBlocks c) old c)"

definition SetGenesis :: "lib \<Rightarrow> Block \<Rightarrow> Chain \<Rightarrow> chain_error + Chain" where
  "SetGenesis K b c =
     (if \<not> IsGenesis b then Inl NotGenesis
      else Inr (indexTxs K b (c\<lparr>ch_blocks := (ch_blocks c)(block_Hash K b \<mapsto> b), ch_byHeight := (ch_byHeight c)(0 \<mapsto> b),
             ch_tip := Some b, ch_genesis := Some b, ch_lastAdd := None\<rparr>)))"

definition chain_Height :: "Chain \<Rightarrow> u64" where
  "chain_Height c = (case ch_tip c of None \<Rightarrow> 0 | Some t \<Rightarrow> height_of t)"

definition GetByHash :: "Chain \<Rightarrow> hash32 \<Rightarrow> Block option" where
  "GetByHash c h = ch_blocks c h"

definition GetByHeight :: "Chain \<Rightarrow> u64 \<Rightarrow> Block option" where
  "GetByHeight c h = ch_byHeight c h"

definition HasBlock :: "Chain \<Rightarrow> hash32 \<Rightarrow> bool" where
  "HasBlock c h \<longleftrightarrow> ch_blocks c h \<noteq> None"

definition InMemoryBlockCount :: "Chain \<Rightarrow> nat" where
  "InMemoryBlockCount c = card (dom (ch_blocks c))"

definition AddBlock :: "lib \<Rightarrow> Block \<Rightarrow> Chain \<Rightarrow> chain_error + Chain" where
  "AddBlock K b c =
     (case ch_tip c of
        None \<Rightarrow> Inl NotInitialized
      | Some tip \<Rightarrow>
          if height_of b \<noteq> height_of tip + 1 then Inl NotExtending
          else if prev_of b \<noteq> block_Hash K tip then Inl PrevHashMismatch
          else
            let c = indexTxs K b ((put_block K b c)\<lparr>ch_tip := Some b\<rparr>)
            in Inr ((evict K (height_of b) c)\<lparr>ch_lastAdd := Some \<lparr>ca_blockHash = block_Hash K b, ca_previousTip = tip,
                     ca_evicted = evicted_at (height_of b) c\<rparr>\<rparr>))"

definition restore_block :: "lib \<Rightarrow> Block option \<Rightarrow> Chain \<Rightarrow> Chain" where
  "restore_block K bo c = (case bo of None \<Rightarrow> c | Some b \<Rightarrow> indexTxs K b (put_block K b c))"

definition RollbackLastBlock :: "lib \<Rightarrow> Block \<Rightarrow> Chain \<Rightarrow> chain_error + Chain" where
  "RollbackLastBlock K b c =
     (case (ch_tip c, ch_lastAdd c) of
        (Some tip, Some rb) \<Rightarrow>
          if block_Hash K tip \<noteq> block_Hash K b \<or> ca_blockHash rb \<noteq> block_Hash K b then Inl NotLatestAdd
          else if height_of b = 0 \<or> height_of (ca_previousTip rb) + 1 \<noteq> height_of b \<or>
                  prev_of b \<noteq> block_Hash K (ca_previousTip rb) then Inl ParentLinkage
          else
            let c = remove_at K (height_of b) b c;
                c = restore_block K (Some (ca_previousTip rb)) c;
                c = (if ca_evicted rb \<noteq> Some (ca_previousTip rb) then restore_block K (ca_evicted rb) c else c)
            in Inr (c\<lparr>ch_tip := Some (ca_previousTip rb), ch_lastAdd := None\<rparr>)
      | _ \<Rightarrow> Inl NotLatestAdd)"

text \<open>Loading blocks without checking that they are linked.\<close>

definition load_block :: "lib \<Rightarrow> Block \<Rightarrow> Chain \<Rightarrow> Chain" where
  "load_block K b c = evict K (height_of b) (indexTxs K b ((put_block K b c)\<lparr>ch_tip := Some b\<rparr>))"

definition FastForward :: "lib \<Rightarrow> Block list \<Rightarrow> Chain \<Rightarrow> Chain" where
  "FastForward K blocks c = (if blocks = [] then c else fold (load_block K) blocks (c\<lparr>ch_lastAdd := None\<rparr>))"

record TxIndexEntry =
  te_Height :: u64
  te_TxIdx :: int

text \<open>The entries are visited in the order in which the map is iterated.\<close>

definition load_entry :: "hash32 \<times> TxIndexEntry \<Rightarrow> Chain \<Rightarrow> Chain" where
  "load_entry e c =
     (case ch_byHeight c (te_Height (snd e)) of
        None \<Rightarrow> c
      | Some blk \<Rightarrow>
          if te_TxIdx (snd e) < 0 \<or> int (length (blk_Txs blk)) \<le> te_TxIdx (snd e) then c
          else c\<lparr>ch_txIndex := (ch_txIndex c)(fst e \<mapsto> \<lparr>loc_Block = blk, loc_TxIndex = nat (te_TxIdx (snd e))\<rparr>)\<rparr>)"

definition FastForwardWithIndex :: "lib \<Rightarrow> Block list \<Rightarrow> (hash32 \<times> TxIndexEntry) list \<Rightarrow> Chain \<Rightarrow> Chain" where
  "FastForwardWithIndex K blocks entries c =
     (if blocks = [] then c
      else fold load_entry entries
        (fold (\<lambda>b c. evict K (height_of b) ((put_block K b c)\<lparr>ch_tip := Some b\<rparr>)) blocks (c\<lparr>ch_lastAdd := None\<rparr>)))"

definition GetTransaction :: "Chain \<Rightarrow> hash32 \<Rightarrow> (Transaction \<times> TxLocation) option" where
  "GetTransaction c h = map_option (\<lambda>loc. (blk_Txs (loc_Block loc) ! loc_TxIndex loc, loc)) (ch_txIndex c h)"

text \<open>The height below which old bodies may be pruned.\<close>

definition prune_below :: "Chain \<Rightarrow> u64 \<Rightarrow> u64 option" where
  "prune_below c keepBlocks =
     (case ch_tip c of
        None \<Rightarrow> None
      | Some tip \<Rightarrow> if height_of tip \<le> keepBlocks then None else Some (height_of tip - keepBlocks))"

fun reorg_contiguous :: "lib \<Rightarrow> Block list \<Rightarrow> chain_error + unit" where
  "reorg_contiguous K (a # b # bs) =
     (if height_of b \<noteq> height_of a + 1 then Inl ReorgGap
      else if prev_of b \<noteq> block_Hash K a then Inl ReorgPrevHash
      else reorg_contiguous K (b # bs))"
| "reorg_contiguous K _ = Inr ()"

text \<open>Removing the canonical blocks above the fork point, from the old tip down.\<close>

definition remove_canonical :: "lib \<Rightarrow> u64 \<Rightarrow> Chain \<Rightarrow> Chain" where
  "remove_canonical K h c = (case ch_byHeight c h of None \<Rightarrow> c | Some old \<Rightarrow> remove_at K h old c)"

definition remove_above :: "lib \<Rightarrow> u64 \<Rightarrow> u64 \<Rightarrow> Chain \<Rightarrow> Chain" where
  "remove_above K tipHeight forkPoint c =
     fold (remove_canonical K) (rev (map of_nat [Suc (unat forkPoint) ..< Suc (unat tipHeight)])) c"

definition install_block :: "lib \<Rightarrow> Block \<Rightarrow> Chain \<Rightarrow> Chain" where
  "install_block K b c = evict K (height_of b) (indexTxs K b (put_block K b c))"

text \<open>Without a tip the code would dereference a null pointer; callers initialize the chain first.\<close>

definition Reorg :: "lib \<Rightarrow> u64 \<Rightarrow> Block list \<Rightarrow> Chain \<Rightarrow> Chain \<times> chain_error option" where
  "Reorg K forkPoint newBlocks c =
     (let c = c\<lparr>ch_lastAdd := None\<rparr> in
      if newBlocks = [] then (c, Some ReorgEmpty)
      else if height_of (hd newBlocks) \<noteq> forkPoint + 1 then (c, Some ReorgStart)
      else case reorg_contiguous K newBlocks of
        Inl e \<Rightarrow> (c, Some e)
      | Inr _ \<Rightarrow>
          case ch_tip c of
            None \<Rightarrow> (c, Some NotInitialized)
          | Some oldTip \<Rightarrow>
              ((fold (install_block K) newBlocks (remove_above K (height_of oldTip) forkPoint c))
                 \<lparr>ch_tip := Some (last newBlocks)\<rparr>, None))"

subsection \<open>Answers to peers\<close>

definition known_start :: "lib \<Rightarrow> Chain \<Rightarrow> hash32 \<Rightarrow> u64 \<Rightarrow> u64" where
  "known_start K c h startHeight =
     (case ch_blocks c h of
        None \<Rightarrow> startHeight
      | Some b \<Rightarrow>
          case ch_byHeight c (height_of b) of
            None \<Rightarrow> startHeight
          | Some canon \<Rightarrow> if block_Hash K canon = h \<and> startHeight < height_of b + 1 then height_of b + 1 else startHeight)"

definition clamp_limit :: "int \<Rightarrow> nat" where
  "clamp_limit limit = (if limit \<le> 0 \<or> 500 < limit then 500 else nat limit)"

definition HeadersFrom :: "lib \<Rightarrow> Chain \<Rightarrow> hash32 list \<Rightarrow> int \<Rightarrow> BlockHeader list" where
  "HeadersFrom K c knownHashes limit =
     (case ch_tip c of
        None \<Rightarrow> []
      | Some tip \<Rightarrow>
          let startHeight = fold (known_start K c) knownHashes 1 in
          if height_of tip < startHeight then []
          else take (clamp_limit limit) (map blk_Header
                 (List.map_filter (\<lambda>h. ch_byHeight c (of_nat h)) [unat startHeight ..< Suc (unat (height_of tip))])))"

definition TailHashes :: "lib \<Rightarrow> Chain \<Rightarrow> int \<Rightarrow> hash32 list" where
  "TailHashes K c n =
     (case ch_tip c of
        None \<Rightarrow> []
      | Some tip \<Rightarrow>
          let start = sint (height_of tip) - n + 1;
              start = (if start < 0 then 0 else start)
          in map (block_Hash K) (List.map_filter (\<lambda>h. ch_byHeight c (of_nat h)) [nat start ..< Suc (unat (height_of tip))]))"

text \<open>A page of retained blocks, newest first, with the cursor of the next page.\<close>

definition oldest_retained :: "Chain \<Rightarrow> Block \<Rightarrow> u64" where
  "oldest_retained c tip =
     (if 0 < ch_maxInMemoryBlocks c \<and> ch_maxInMemoryBlocks c \<le> height_of tip
      then height_of tip - ch_maxInMemoryBlocks c + 1 else 0)"

definition BlocksNewestFirstPage :: "Chain \<Rightarrow> u64 \<Rightarrow> bool \<Rightarrow> int \<Rightarrow> Block list \<times> u64 \<times> bool \<times> u64" where
  "BlocksNewestFirstPage c startHeight startAtTip maxHeightScan =
     (case ch_tip c of
        None \<Rightarrow> ([], 0, False, 0)
      | Some tip \<Rightarrow>
          if ch_byHeight c = Map.empty \<or> maxHeightScan \<le> 0 then ([], 0, False, 0)
          else
            let oldest = oldest_retained c tip;
                start = (if startAtTip \<or> height_of tip < startHeight then height_of tip else startHeight)
            in if start < oldest then ([], 0, False, oldest)
            else
              let cut = of_int maxHeightScan < start - oldest + 1;
                  first = (if cut then start - of_int maxHeightScan + 1 else oldest);
                  hasMore = cut \<and> oldest < first
              in (List.map_filter (\<lambda>h. ch_byHeight c (of_nat h)) (rev [unat first ..< Suc (unat start)]),
                  if hasMore then first - 1 else 0, hasMore, oldest))"

section \<open>The indexes\<close>

definition tx_hashes :: "lib \<Rightarrow> Block \<Rightarrow> hash32 set" where
  "tx_hashes K b = tx_Hash K ` set (blk_Txs b)"

lemma unindex_lookup: "unindex_block K b ix h = (if h \<in> tx_hashes K b then None else ix h)"
proof -
  have "fold (\<lambda>tx ix. ix(tx_Hash K tx := None)) txs ix h = (if h \<in> tx_Hash K ` set txs then None else ix h)" for txs
    by (induction txs arbitrary: ix) auto
  then show ?thesis by (simp add: unindex_block_def tx_hashes_def)
qed

lemma index_other: "h \<notin> tx_hashes K b \<Longrightarrow> index_block K b ix h = ix h"
proof -
  have "h \<notin> tx_Hash K ` set txs \<Longrightarrow> fold (index_tx K b) (enumerate n txs) ix h = ix h" for txs n
    by (induction txs arbitrary: ix n) (auto simp: index_tx_def)
  then show "h \<notin> tx_hashes K b \<Longrightarrow> index_block K b ix h = ix h" by (simp add: index_block_def tx_hashes_def)
qed

lemma index_own:
  assumes "distinct (map (tx_Hash K) (blk_Txs b))" and "i < length (blk_Txs b)"
  shows "index_block K b ix (tx_Hash K (blk_Txs b ! i)) = Some \<lparr>loc_Block = b, loc_TxIndex = i\<rparr>"
proof -
  have other: "h \<notin> tx_Hash K ` set txs \<Longrightarrow> fold (index_tx K b) (enumerate n txs) ix h = ix h" for txs n h ix
    by (induction txs arbitrary: ix n) (auto simp: index_tx_def)
  have "distinct (map (tx_Hash K) txs) \<Longrightarrow> i < length txs \<Longrightarrow>
      fold (index_tx K b) (enumerate n txs) ix (tx_Hash K (txs ! i)) = Some \<lparr>loc_Block = b, loc_TxIndex = n + i\<rparr>" for txs n
  proof (induction txs arbitrary: i n ix)
    case (Cons tx txs)
    have "tx_Hash K tx \<notin> tx_Hash K ` set txs" using Cons.prems(1) by auto
    from other [OF this] show ?case using Cons by (cases i) (simp_all add: index_tx_def [of K b "(n, tx)"])
  qed simp
  from this [OF assms, of 0] show ?thesis by (simp add: index_block_def)
qed

section \<open>The invariant of the chain\<close>

text \<open>Both indexes hold the same blocks; the retained blocks are linked, and lie in the window below the tip (the
  genesis block may be kept beyond it after a bulk load).\<close>

definition window_ok :: "u64 \<Rightarrow> u64 \<Rightarrow> u64 \<Rightarrow> bool" where
  "window_ok m tip n \<longleftrightarrow> n \<le> tip \<and> (n = 0 \<or> unat tip < unat n + unat m)"

definition same_blocks :: "lib \<Rightarrow> Chain \<Rightarrow> bool" where
  "same_blocks K c \<longleftrightarrow>
     (\<forall>h b. ch_blocks c h = Some b \<longleftrightarrow> block_Hash K b = h \<and> ch_byHeight c (height_of b) = Some b) \<and>
     (\<forall>n b. ch_byHeight c n = Some b \<longrightarrow> height_of b = n)"

definition linked_blocks :: "lib \<Rightarrow> Chain \<Rightarrow> bool" where
  "linked_blocks K c \<longleftrightarrow>
     (\<forall>n b p. n \<noteq> 0 \<longrightarrow> ch_byHeight c n = Some b \<longrightarrow> ch_byHeight c (n - 1) = Some p \<longrightarrow> prev_of b = block_Hash K p)"

definition tip_window :: "Chain \<Rightarrow> bool" where
  "tip_window c \<longleftrightarrow> 0 < ch_maxInMemoryBlocks c \<and>
     (\<exists>t. ch_tip c = Some t \<and> ch_byHeight c (height_of t) = Some t \<and>
        (\<forall>n. ch_byHeight c n \<noteq> None \<longrightarrow> window_ok (ch_maxInMemoryBlocks c) (height_of t) n))"

definition chain_wf :: "lib \<Rightarrow> Chain \<Rightarrow> bool" where
  "chain_wf K c \<longleftrightarrow> same_blocks K c \<and> linked_blocks K c \<and> tip_window c"

definition txs_indexed :: "lib \<Rightarrow> Chain \<Rightarrow> bool" where
  "txs_indexed K c \<longleftrightarrow>
     (\<forall>n b i. ch_byHeight c n = Some b \<longrightarrow> i < length (blk_Txs b) \<longrightarrow>
        ch_txIndex c (tx_Hash K (blk_Txs b ! i)) = Some \<lparr>loc_Block = b, loc_TxIndex = i\<rparr>) \<and>
     (\<forall>h loc. ch_txIndex c h = Some loc \<longrightarrow> ch_byHeight c (height_of (loc_Block loc)) = Some (loc_Block loc) \<and>
        loc_TxIndex loc < length (blk_Txs (loc_Block loc)) \<and> tx_Hash K (blk_Txs (loc_Block loc) ! loc_TxIndex loc) = h)"

text \<open>A block whose identifiers are new to the chain.\<close>

definition block_fresh :: "lib \<Rightarrow> Block \<Rightarrow> Chain \<Rightarrow> bool" where
  "block_fresh K b c \<longleftrightarrow> height_of b \<noteq> 0 \<and> \<not> HasBlock c (block_Hash K b) \<and> distinct (map (tx_Hash K) (blk_Txs b)) \<and>
     (\<forall>h \<in> tx_hashes K b. ch_txIndex c h = None)"

lemma tx_hashes_nth: "h \<in> tx_hashes K b \<longleftrightarrow> (\<exists>i < length (blk_Txs b). h = tx_Hash K (blk_Txs b ! i))"
  unfolding tx_hashes_def by (metis (no_types, lifting) image_iff in_set_conv_nth)

lemma retained_distinct:
  assumes "txs_indexed K c" and "ch_byHeight c n = Some b"
  shows "distinct (map (tx_Hash K) (blk_Txs b))"
proof -
  have "i = j" if "i < length (blk_Txs b)" "j < length (blk_Txs b)" "tx_Hash K (blk_Txs b ! i) = tx_Hash K (blk_Txs b ! j)" for i j
    using assms that unfolding txs_indexed_def by (metis TxLocation.iffs option.inject)
  then show ?thesis by (auto simp: distinct_conv_nth)
qed

lemma reindex_retained:
  assumes "txs_indexed K c" and "ch_byHeight c n = Some b"
  shows "index_block K b ix h = (if h \<in> tx_hashes K b then ch_txIndex c h else ix h)"
proof (cases "h \<in> tx_hashes K b")
  case True
  then obtain i where i: "i < length (blk_Txs b)" "h = tx_Hash K (blk_Txs b ! i)" by (auto simp: tx_hashes_nth)
  then show ?thesis
    using index_own [OF retained_distinct [OF assms] i(1)] assms True by (auto simp: txs_indexed_def)
qed (simp add: index_other)

lemma chain_wfD:
  assumes "chain_wf K c"
  shows "0 < ch_maxInMemoryBlocks c"
    and "ch_blocks c h = Some b \<longleftrightarrow> block_Hash K b = h \<and> ch_byHeight c (height_of b) = Some b"
    and "ch_byHeight c n = Some b \<Longrightarrow> height_of b = n"
    and "n \<noteq> 0 \<Longrightarrow> ch_byHeight c n = Some b \<Longrightarrow> ch_byHeight c (n - 1) = Some p \<Longrightarrow> prev_of b = block_Hash K p"
    and "ch_tip c = Some t \<Longrightarrow> ch_byHeight c (height_of t) = Some t"
    and "ch_tip c = Some t \<Longrightarrow> ch_byHeight c n \<noteq> None \<Longrightarrow> window_ok (ch_maxInMemoryBlocks c) (height_of t) n"
proof -
  have w: "same_blocks K c" "linked_blocks K c" "tip_window c" using assms by (simp_all add: chain_wf_def)
  show "ch_blocks c h = Some b \<longleftrightarrow> block_Hash K b = h \<and> ch_byHeight c (height_of b) = Some b"
    and "ch_byHeight c n = Some b \<Longrightarrow> height_of b = n" using w(1) unfolding same_blocks_def by blast+
  show "n \<noteq> 0 \<Longrightarrow> ch_byHeight c n = Some b \<Longrightarrow> ch_byHeight c (n - 1) = Some p \<Longrightarrow> prev_of b = block_Hash K p"
    using w(2) unfolding linked_blocks_def by blast
  show "0 < ch_maxInMemoryBlocks c" and "ch_tip c = Some t \<Longrightarrow> ch_byHeight c (height_of t) = Some t"
    and "ch_tip c = Some t \<Longrightarrow> ch_byHeight c n \<noteq> None \<Longrightarrow> window_ok (ch_maxInMemoryBlocks c) (height_of t) n"
    using w(3) by (auto simp: tip_window_def)
qed

lemma wf_blocks_by_hash: "chain_wf K c \<Longrightarrow> ch_byHeight c n = Some b \<Longrightarrow> ch_blocks c (block_Hash K b) = Some b"
  using chain_wfD(2,3) by blast

text \<open>What a successful addition does, index by index.\<close>

lemma AddBlock_Inr:
  assumes "AddBlock K b c = Inr c'"
  shows "\<exists>tip. ch_tip c = Some tip \<and> height_of b = height_of tip + 1 \<and> prev_of b = block_Hash K tip \<and> ch_tip c' = Some b"
    and "ch_genesis c' = ch_genesis c" and "ch_maxInMemoryBlocks c' = ch_maxInMemoryBlocks c"
  using assms by (auto simp: AddBlock_def evict_def remove_at_def indexTxs_def put_block_def Let_def split: option.splits if_splits)

lemma AddBlock_indexes:
  assumes "AddBlock K b c = Inr c'" and "0 < ch_maxInMemoryBlocks c"
  defines "old \<equiv> evicted_at (height_of b) c"
  shows "ch_byHeight c' = (case old of None \<Rightarrow> (ch_byHeight c)(height_of b \<mapsto> b)
      | Some _ \<Rightarrow> (ch_byHeight c)(height_of b \<mapsto> b, height_of b - ch_maxInMemoryBlocks c := None))"
    and "ch_blocks c' = (case old of None \<Rightarrow> (ch_blocks c)(block_Hash K b \<mapsto> b)
      | Some e \<Rightarrow> (ch_blocks c)(block_Hash K b \<mapsto> b, block_Hash K e := None))"
    and "ch_txIndex c' = (case old of None \<Rightarrow> index_block K b (ch_txIndex c)
      | Some e \<Rightarrow> unindex_block K e (index_block K b (ch_txIndex c)))"
    and "ch_lastAdd c' = map_option (\<lambda>tip. \<lparr>ca_blockHash = block_Hash K b, ca_previousTip = tip, ca_evicted = old\<rparr>) (ch_tip c)"
proof -
  let ?c = "indexTxs K b ((put_block K b c)\<lparr>ch_tip := Some b\<rparr>)"
  have "height_of b - ch_maxInMemoryBlocks c \<noteq> height_of b" using assms(2) by auto
  then have old: "evicted_at (height_of b) ?c = old"
    by (simp add: old_def evicted_at_def indexTxs_def put_block_def)
  obtain tip where tip: "ch_tip c = Some tip" using AddBlock_Inr(1) [OF assms(1)] by blast
  have c': "c' = (evict K (height_of b) ?c)\<lparr>ch_lastAdd := Some
      \<lparr>ca_blockHash = block_Hash K b, ca_previousTip = tip, ca_evicted = old\<rparr>\<rparr>"
    using assms(1) unfolding AddBlock_def tip Let_def old by (simp split: if_splits)
  have e: "evict K (height_of b) ?c = (case old of None \<Rightarrow> ?c | Some e \<Rightarrow> remove_at K (height_of b - ch_maxInMemoryBlocks c) e ?c)"
    unfolding evict_def old by (cases old) (simp_all add: indexTxs_def put_block_def)
  show "ch_byHeight c' = (case old of None \<Rightarrow> (ch_byHeight c)(height_of b \<mapsto> b)
      | Some _ \<Rightarrow> (ch_byHeight c)(height_of b \<mapsto> b, height_of b - ch_maxInMemoryBlocks c := None))"
    "ch_blocks c' = (case old of None \<Rightarrow> (ch_blocks c)(block_Hash K b \<mapsto> b)
      | Some e \<Rightarrow> (ch_blocks c)(block_Hash K b \<mapsto> b, block_Hash K e := None))"
    "ch_txIndex c' = (case old of None \<Rightarrow> index_block K b (ch_txIndex c)
      | Some e \<Rightarrow> unindex_block K e (index_block K b (ch_txIndex c)))"
    "ch_lastAdd c' = map_option (\<lambda>tip. \<lparr>ca_blockHash = block_Hash K b, ca_previousTip = tip, ca_evicted = old\<rparr>) (ch_tip c)"
    unfolding c' e tip by (simp_all add: remove_at_def indexTxs_def put_block_def split: option.splits)
qed

lemma evicted_retained:
  assumes "chain_wf K c" and "evicted_at h c = Some old"
  shows "ch_byHeight c (h - ch_maxInMemoryBlocks c) = Some old" and "height_of old = h - ch_maxInMemoryBlocks c"
    and "ch_maxInMemoryBlocks c \<le> h"
  using assms(2) chain_wfD(3) [OF assms(1)] by (auto simp: evicted_at_def split: if_splits)

section \<open>Adding and removing blocks keeps the invariant\<close>

lemma unat_next: "n + 1 \<noteq> 0 \<Longrightarrow> unat (n + 1 :: u64) = Suc (unat n)"
  by (metis add.commute unatSuc)

lemma same_blocks_frame [simp]:
  "same_blocks K (indexTxs K' b c) = same_blocks K c" "same_blocks K (c\<lparr>ch_tip := t\<rparr>) = same_blocks K c"
  "same_blocks K (c\<lparr>ch_lastAdd := l\<rparr>) = same_blocks K c"
  "linked_blocks K (indexTxs K' b c) = linked_blocks K c" "linked_blocks K (c\<lparr>ch_tip := t\<rparr>) = linked_blocks K c"
  "linked_blocks K (c\<lparr>ch_lastAdd := l\<rparr>) = linked_blocks K c"
  "tip_window (indexTxs K' b c) = tip_window c" "tip_window (c\<lparr>ch_lastAdd := l\<rparr>) = tip_window c"
  "same_blocks K (c\<lparr>ch_genesis := t\<rparr>) = same_blocks K c" "linked_blocks K (c\<lparr>ch_genesis := t\<rparr>) = linked_blocks K c"
  by (simp_all add: same_blocks_def linked_blocks_def tip_window_def indexTxs_def)

lemma put_same:
  assumes "same_blocks K c" and "ch_blocks c (block_Hash K b) = None" and "ch_byHeight c (height_of b) = None"
  shows "same_blocks K (put_block K b c)"
proof -
  have w: "ch_blocks c h = Some x \<longleftrightarrow> block_Hash K x = h \<and> ch_byHeight c (height_of x) = Some x"
    and n: "ch_byHeight c n = Some x \<Longrightarrow> height_of x = n" for h x n
    using assms(1) unfolding same_blocks_def by blast+
  have "ch_blocks (put_block K b c) h = Some x \<longleftrightarrow> block_Hash K x = h \<and> ch_byHeight (put_block K b c) (height_of x) = Some x" for h x
  proof (cases "x = b")
    case True
    then show ?thesis using assms(3) w [of h b] by (auto simp: put_block_def)
  next
    case False
    have "block_Hash K x \<noteq> block_Hash K b" if "ch_byHeight c (height_of x) = Some x" using w [of "block_Hash K x" x] assms(2) that by auto
    then show ?thesis using False w [of h x] assms(2,3) by (auto simp: put_block_def)
  qed
  then show ?thesis using n unfolding same_blocks_def by (auto simp: put_block_def)
qed

lemma remove_same:
  assumes "same_blocks K c" and "ch_byHeight c h = Some old"
  shows "same_blocks K (remove_at K h old c)"
proof -
  have w: "ch_blocks c g = Some x \<longleftrightarrow> block_Hash K x = g \<and> ch_byHeight c (height_of x) = Some x"
    and n: "ch_byHeight c n = Some x \<Longrightarrow> height_of x = n" for g x n
    using assms(1) unfolding same_blocks_def by blast+
  have old: "height_of old = h" "ch_blocks c (block_Hash K old) = Some old" using w n assms(2) by auto
  have "ch_blocks (remove_at K h old c) g = Some x \<longleftrightarrow>
      block_Hash K x = g \<and> ch_byHeight (remove_at K h old c) (height_of x) = Some x" for g x
  proof (cases "x = old")
    case False
    have "block_Hash K x \<noteq> block_Hash K old" if "ch_byHeight c (height_of x) = Some x"
      using w [of "block_Hash K x" x] old(2) that False by auto
    moreover have "height_of x \<noteq> h" if "ch_byHeight c (height_of x) = Some x" using that assms(2) False by auto
    ultimately show ?thesis using w [of g x] by (auto simp: remove_at_def)
  qed (auto simp: remove_at_def old(1) w)
  then show ?thesis using n unfolding same_blocks_def by (auto simp: remove_at_def)
qed

lemma put_linked:
  assumes "linked_blocks K c" and "\<And>p. height_of b \<noteq> 0 \<Longrightarrow> ch_byHeight c (height_of b - 1) = Some p \<Longrightarrow> prev_of b = block_Hash K p"
    and "height_of b + 1 \<noteq> 0 \<Longrightarrow> ch_byHeight c (height_of b + 1) = None"
  shows "linked_blocks K (put_block K b c)"
  unfolding linked_blocks_def
proof (intro allI impI)
  fix n x p
  assume n: "n \<noteq> 0" "ch_byHeight (put_block K b c) n = Some x" "ch_byHeight (put_block K b c) (n - 1) = Some p"
  have "n - 1 \<noteq> n" by auto
  moreover have "n \<noteq> height_of b + 1" if "n \<noteq> height_of b" using assms(3) n(1,2) that by (auto simp: put_block_def)
  then have "n - 1 \<noteq> height_of b" if "n \<noteq> height_of b" using that by (auto simp: algebra_simps)
  ultimately show "prev_of x = block_Hash K p"
    using n assms(1,2) by (cases "n = height_of b") (auto simp: put_block_def linked_blocks_def)
qed

lemma remove_linked: "linked_blocks K c \<Longrightarrow> linked_blocks K (remove_at K h old c)"
  by (auto simp: linked_blocks_def remove_at_def split: if_splits)

lemma evict_wf:
  assumes "same_blocks K c" and "linked_blocks K c"
  shows "same_blocks K (evict K h c)" and "linked_blocks K (evict K h c)"
  using assms remove_same remove_linked by (auto simp: evict_def evicted_at_def split: option.splits if_splits)

lemma evict_window:
  assumes "0 < ch_maxInMemoryBlocks c" and "ch_tip c = Some b" and "ch_byHeight c (height_of b) = Some b" and "height_of b = t + 1" and "height_of b \<noteq> 0"
    and "\<forall>n. n \<noteq> height_of b \<longrightarrow> ch_byHeight c n \<noteq> None \<longrightarrow> window_ok (ch_maxInMemoryBlocks c) t n"
  shows "tip_window (evict K (height_of b) c)"
proof -
  let ?m = "ch_maxInMemoryBlocks c" and ?h = "height_of b"
  have t: "unat ?h = unat t + 1" using assms(4,5) by (simp add: unat_next)
  have ne: "?h - ?m \<noteq> ?h" using assms(1) by auto
  have keep: "window_ok ?m ?h n" if "n \<noteq> ?h" "n \<noteq> ?h - ?m \<or> \<not> ?m \<le> ?h" "ch_byHeight c n \<noteq> None" for n
  proof -
    have w: "n \<le> t" "n = 0 \<or> unat t < unat n + unat ?m" using assms(6) that by (auto simp: window_ok_def)
    have "unat n + unat ?m \<noteq> unat ?h" if "n \<noteq> 0"
    proof
      assume e: "unat n + unat ?m = unat ?h"
      then have "?m \<le> ?h" "n = ?h - ?m" by (auto simp: u64_as_nat unat_diff_u64)
      then show False using \<open>n \<noteq> ?h - ?m \<or> \<not> ?m \<le> ?h\<close> by blast
    qed
    then show ?thesis using w t by (cases "n = 0") (auto simp: window_ok_def u64_le_iff)
  qed
  have own: "window_ok ?m ?h ?h" using assms(1) by (simp add: window_ok_def u64_less_iff)
  show ?thesis
  proof (cases "evicted_at ?h c")
    case None
    then have "\<forall>n. ch_byHeight c n \<noteq> None \<longrightarrow> window_ok ?m ?h n" using keep own by (force simp: evicted_at_def split: if_splits)
    then show ?thesis using None assms(1-3) by (simp add: evict_def tip_window_def)
  next
    case (Some old)
    then have "?m \<le> ?h" by (simp add: evicted_at_def split: if_splits)
    then have "\<forall>n. n \<noteq> ?h - ?m \<longrightarrow> ch_byHeight c n \<noteq> None \<longrightarrow> window_ok ?m ?h n" using keep own by metis
    then show ?thesis using Some assms(1-3) ne by (simp add: evict_def tip_window_def remove_at_def)
  qed
qed

lemma AddBlock_shape:
  assumes "AddBlock K b c = Inr c'"
  shows "\<exists>l. c' = (evict K (height_of b) (indexTxs K b ((put_block K b c)\<lparr>ch_tip := Some b\<rparr>)))\<lparr>ch_lastAdd := l\<rparr>"
  using assms by (auto simp: AddBlock_def Let_def split: option.splits if_splits)

lemma above_tip_empty:
  assumes "chain_wf K c" and "ch_tip c = Some t" and "height_of t < n"
  shows "ch_byHeight c n = None"
  using chain_wfD(6) [OF assms(1,2), of n] assms(3) unfolding window_ok_def by (meson not_le)

lemma AddBlock_wf:
  assumes "chain_wf K c" and "block_fresh K b c" and "AddBlock K b c = Inr c'"
  shows "chain_wf K c'"
proof -
  obtain tip where tip: "ch_tip c = Some tip" "height_of b = height_of tip + 1" "prev_of b = block_Hash K tip"
    using AddBlock_Inr(1) [OF assms(3)] by blast
  have b: "height_of b \<noteq> 0" "ch_blocks c (block_Hash K b) = None" using assms(2) by (auto simp: block_fresh_def HasBlock_def)
  have lt: "height_of tip < height_of b" using tip(2) b(1) by (simp add: u64_as_nat unat_next)
  have none: "ch_byHeight c (height_of b) = None" by (rule above_tip_empty [OF assms(1) tip(1) lt])
  let ?c = "indexTxs K b ((put_block K b c)\<lparr>ch_tip := Some b\<rparr>)"
  have next_none: "ch_byHeight c (height_of b + 1) = None" if "height_of b + 1 \<noteq> 0"
  proof (rule above_tip_empty [OF assms(1) tip(1)])
    have "height_of b < height_of b + 1" using that by (simp add: u64_as_nat unat_next)
    then show "height_of tip < height_of b + 1" using lt by (rule order.strict_trans [rotated])
  qed
  have "same_blocks K ?c" using put_same b(2) none assms(1) by (simp add: chain_wf_def)
  moreover have "linked_blocks K ?c"
    using put_linked [of K c b] assms(1) next_none tip chain_wfD(5) [OF assms(1) tip(1)] by (simp add: chain_wf_def)
  moreover have "tip_window (evict K (height_of b) ?c)"
    by (rule evict_window [OF _ _ _ tip(2) b(1)])
      (use chain_wfD(1,6) [OF assms(1)] tip(1) in \<open>auto simp: indexTxs_def put_block_def\<close>)
  ultimately show ?thesis using AddBlock_shape [OF assms(3)] evict_wf [of K ?c] by (auto simp: chain_wf_def)
qed

lemma txs_indexed_frame [simp]:
  "txs_indexed K (c\<lparr>ch_tip := t\<rparr>) = txs_indexed K c" "txs_indexed K (c\<lparr>ch_lastAdd := l\<rparr>) = txs_indexed K c"
  "txs_indexed K (c\<lparr>ch_genesis := t\<rparr>) = txs_indexed K c"
  by (simp_all add: txs_indexed_def)

lemma put_indexed:
  assumes "txs_indexed K c" and "distinct (map (tx_Hash K) (blk_Txs b))" and "\<forall>h \<in> tx_hashes K b. ch_txIndex c h = None"
    and "ch_byHeight c (height_of b) = None"
  shows "txs_indexed K (indexTxs K b (put_block K b c))"
  unfolding txs_indexed_def
proof (intro conjI allI impI)
  let ?c = "indexTxs K b (put_block K b c)"
  have ix: "ch_txIndex ?c = index_block K b (ch_txIndex c)" and bh: "ch_byHeight ?c = (ch_byHeight c)(height_of b \<mapsto> b)"
    by (simp_all add: indexTxs_def put_block_def)
  note old = assms(1) [unfolded txs_indexed_def]
  show "ch_txIndex ?c (tx_Hash K (blk_Txs x ! i)) = Some \<lparr>loc_Block = x, loc_TxIndex = i\<rparr>"
    if "ch_byHeight ?c n = Some x" "i < length (blk_Txs x)" for n x i
  proof (cases "n = height_of b")
    case True
    then have "x = b" using that(1) by (simp add: bh)
    then show ?thesis using that(2) by (simp only: ix index_own [OF assms(2)])
  next
    case False
    then have o: "ch_txIndex c (tx_Hash K (blk_Txs x ! i)) = Some \<lparr>loc_Block = x, loc_TxIndex = i\<rparr>" using that old by (simp add: bh)
    then have "tx_Hash K (blk_Txs x ! i) \<notin> tx_hashes K b" using assms(3) by auto
    then show ?thesis using o by (simp add: ix index_other)
  qed
  fix h loc assume l: "ch_txIndex ?c h = Some loc"
  have "ch_byHeight ?c (height_of (loc_Block loc)) = Some (loc_Block loc) \<and> loc_TxIndex loc < length (blk_Txs (loc_Block loc)) \<and>
      tx_Hash K (blk_Txs (loc_Block loc) ! loc_TxIndex loc) = h"
  proof (cases "h \<in> tx_hashes K b")
    case True
    then obtain i where i: "i < length (blk_Txs b)" "h = tx_Hash K (blk_Txs b ! i)" by (auto simp: tx_hashes_nth)
    then have "loc = \<lparr>loc_Block = b, loc_TxIndex = i\<rparr>" using l index_own [OF assms(2)] by (simp add: ix)
    then show ?thesis using i by (simp add: bh)
  next
    case False
    then have "ch_txIndex c h = Some loc" using l by (simp add: ix index_other)
    then have o: "ch_byHeight c (height_of (loc_Block loc)) = Some (loc_Block loc)" "loc_TxIndex loc < length (blk_Txs (loc_Block loc))"
      "tx_Hash K (blk_Txs (loc_Block loc) ! loc_TxIndex loc) = h" using old by blast+
    moreover have "height_of (loc_Block loc) \<noteq> height_of b" using o(1) assms(4) by auto
    ultimately show ?thesis by (simp add: bh)
  qed
  then show "ch_byHeight ?c (height_of (loc_Block loc)) = Some (loc_Block loc)" "loc_TxIndex loc < length (blk_Txs (loc_Block loc))"
    "tx_Hash K (blk_Txs (loc_Block loc) ! loc_TxIndex loc) = h" by blast+
qed

lemma remove_indexed:
  assumes "txs_indexed K c" and "same_blocks K c" and "ch_byHeight c h = Some old"
  shows "txs_indexed K (remove_at K h old c)"
  unfolding txs_indexed_def
proof (intro conjI allI impI)
  let ?c = "remove_at K h old c"
  have ix: "ch_txIndex ?c = unindex_block K old (ch_txIndex c)" and bh: "ch_byHeight ?c = (ch_byHeight c)(h := None)"
    by (simp_all add: remove_at_def)
  have oh: "height_of old = h" using assms(2,3) by (simp add: same_blocks_def)
  note o = assms(1) [unfolded txs_indexed_def]
  show "ch_txIndex ?c (tx_Hash K (blk_Txs x ! i)) = Some \<lparr>loc_Block = x, loc_TxIndex = i\<rparr>"
    if "ch_byHeight ?c n = Some x" "i < length (blk_Txs x)" for n x i
  proof -
    have x: "ch_byHeight c n = Some x" "n \<noteq> h" using that(1) by (auto simp: bh split: if_splits)
    then have "x \<noteq> old" using oh assms(2) by (auto simp: same_blocks_def)
    moreover have ixx: "ch_txIndex c (tx_Hash K (blk_Txs x ! i)) = Some \<lparr>loc_Block = x, loc_TxIndex = i\<rparr>" using o x(1) that(2) by blast
    ultimately have "tx_Hash K (blk_Txs x ! i) \<notin> tx_hashes K old"
      using reindex_retained [OF assms(1,3)] o assms(3) by (auto simp: tx_hashes_nth)
    then show ?thesis using ixx by (simp add: ix unindex_lookup)
  qed
  fix g loc assume l: "ch_txIndex ?c g = Some loc"
  then have g: "g \<notin> tx_hashes K old" "ch_txIndex c g = Some loc" by (auto simp: ix unindex_lookup split: if_splits)
  then have r: "ch_byHeight c (height_of (loc_Block loc)) = Some (loc_Block loc)" "loc_TxIndex loc < length (blk_Txs (loc_Block loc))"
    "tx_Hash K (blk_Txs (loc_Block loc) ! loc_TxIndex loc) = g" using o by blast+
  then have "loc_Block loc \<noteq> old" using g(1) by (auto simp: tx_hashes_nth)
  then have "height_of (loc_Block loc) \<noteq> h" using r(1) assms(3) by auto
  with r show "ch_byHeight ?c (height_of (loc_Block loc)) = Some (loc_Block loc)" "loc_TxIndex loc < length (blk_Txs (loc_Block loc))"
    "tx_Hash K (blk_Txs (loc_Block loc) ! loc_TxIndex loc) = g" by (simp_all add: bh)
qed

lemma AddBlock_indexed:
  assumes "chain_wf K c" and "txs_indexed K c" and "block_fresh K b c" and "AddBlock K b c = Inr c'"
  shows "txs_indexed K c'"
proof -
  obtain tip where tip: "ch_tip c = Some tip" "height_of b = height_of tip + 1" using AddBlock_Inr(1) [OF assms(4)] by blast
  have f: "height_of b \<noteq> 0" "ch_blocks c (block_Hash K b) = None" using assms(3) by (auto simp: block_fresh_def HasBlock_def)
  have none: "ch_byHeight c (height_of b) = None"
    by (rule above_tip_empty [OF assms(1) tip(1)]) (use tip(2) f(1) in \<open>simp add: u64_as_nat unat_next\<close>)
  let ?c = "indexTxs K b ((put_block K b c)\<lparr>ch_tip := Some b\<rparr>)"
  have "txs_indexed K (indexTxs K b (put_block K b c))" using put_indexed assms(2,3) none by (simp add: block_fresh_def)
  then have "txs_indexed K ?c" by (simp add: txs_indexed_def indexTxs_def)
  moreover have "same_blocks K ?c" using put_same f(2) none assms(1) by (simp add: chain_wf_def)
  ultimately have "txs_indexed K (evict K (height_of b) ?c)"
    using remove_indexed by (auto simp: evict_def evicted_at_def split: option.splits if_splits)
  then show ?thesis using AddBlock_shape [OF assms(4)] by auto
qed

section \<open>Reversing the last addition\<close>

lemma restore_fields:
  "ch_blocks (restore_block K (Some b) c) = (ch_blocks c)(block_Hash K b \<mapsto> b)"
  "ch_byHeight (restore_block K (Some b) c) = (ch_byHeight c)(height_of b \<mapsto> b)"
  "ch_txIndex (restore_block K (Some b) c) = index_block K b (ch_txIndex c)"
  "ch_genesis (restore_block K (Some b) c) = ch_genesis c"
  "ch_maxInMemoryBlocks (restore_block K (Some b) c) = ch_maxInMemoryBlocks c"
  by (simp_all add: restore_block_def indexTxs_def put_block_def)

lemma rollback_add:
  assumes "chain_wf K c" and "txs_indexed K c" and "block_fresh K b c" and "AddBlock K b c = Inr c'"
  shows "RollbackLastBlock K b c' = Inr (c\<lparr>ch_lastAdd := None\<rparr>)"
proof -
  obtain tip where tip: "ch_tip c = Some tip" "height_of b = height_of tip + 1" "prev_of b = block_Hash K tip" "ch_tip c' = Some b"
    using AddBlock_Inr(1) [OF assms(4)] by blast
  have f: "height_of b \<noteq> 0" "ch_blocks c (block_Hash K b) = None" "\<forall>h \<in> tx_hashes K b. ch_txIndex c h = None"
    using assms(3) by (auto simp: block_fresh_def HasBlock_def)
  have none: "ch_byHeight c (height_of b) = None"
    by (rule above_tip_empty [OF assms(1) tip(1)]) (use tip(2) f(1) in \<open>simp add: u64_as_nat unat_next\<close>)
  have t: "ch_byHeight c (height_of tip) = Some tip" "ch_blocks c (block_Hash K tip) = Some tip"
    using chain_wfD(5) [OF assms(1) tip(1)] wf_blocks_by_hash [OF assms(1)] by blast+
  note a = AddBlock_indexes [OF assms(4) chain_wfD(1) [OF assms(1)]] AddBlock_Inr(2,3) [OF assms(4)]
  let ?old = "evicted_at (height_of b) c"
  let ?c1 = "restore_block K (Some tip) (remove_at K (height_of b) b c')"
  let ?c2 = "if ?old \<noteq> Some tip then restore_block K ?old ?c1 else ?c1"
  have rb: "RollbackLastBlock K b c' = Inr (?c2\<lparr>ch_tip := Some tip, ch_lastAdd := None\<rparr>)"
    using f(1) by (simp add: RollbackLastBlock_def a(4) tip Let_def)
  note re = reindex_retained [OF assms(2) t(1)]
  have "ch_blocks ?c2 = ch_blocks c \<and> ch_byHeight ?c2 = ch_byHeight c \<and> ch_txIndex ?c2 = ch_txIndex c \<and>
    ch_genesis ?c2 = ch_genesis c \<and> ch_maxInMemoryBlocks ?c2 = ch_maxInMemoryBlocks c"
  proof (cases ?old)
    case None
    then have c2: "?c2 = ?c1" by (simp add: restore_block_def)
    show ?thesis unfolding c2 restore_fields using None f none t
      by (auto simp: remove_at_def a fun_eq_iff re unindex_lookup index_other)
  next
    case (Some old)
    note o = evicted_retained [OF assms(1) Some]
    have ob: "ch_blocks c (block_Hash K old) = Some old" using wf_blocks_by_hash [OF assms(1) o(1)] .
    note ro = reindex_retained [OF assms(2) o(1)]
    have "height_of b \<noteq> height_of old" using o none by auto
    show ?thesis
    proof (cases "old = tip")
      case True
      then have c2: "?c2 = ?c1" using Some by simp
      show ?thesis unfolding c2 restore_fields using Some True f none t o
        by (auto simp: remove_at_def a fun_eq_iff re unindex_lookup index_other)
    next
      case False
      then have c2: "?c2 = restore_block K (Some old) ?c1" using Some by simp
      show ?thesis unfolding c2 restore_fields using Some f none t o ob
        by (auto simp: remove_at_def a fun_eq_iff re ro unindex_lookup index_other)
    qed
  qed
  then have "?c2\<lparr>ch_tip := Some tip, ch_lastAdd := None\<rparr> = c\<lparr>ch_lastAdd := None\<rparr>"
    by (intro Chain.equality) (simp_all add: tip(1))
  then show ?thesis by (simp add: rb)
qed

section \<open>Histories of the chain\<close>

text \<open>How a running node changes the chain: installing the genesis block, appending a block whose identifiers are
  new, and reversing the last addition.\<close>

inductive chain_reach :: "lib \<Rightarrow> Chain \<Rightarrow> bool" for K :: lib where
  genesis: "\<lbrakk>SetGenesis K g (NewChain sizes) = Inr c; distinct (map (tx_Hash K) (blk_Txs g))\<rbrakk> \<Longrightarrow> chain_reach K c"
| extend: "\<lbrakk>chain_reach K c; block_fresh K b c; AddBlock K b c = Inr c'\<rbrakk> \<Longrightarrow> chain_reach K c'"
| undo: "\<lbrakk>chain_reach K c; ch_tip c = Some b; RollbackLastBlock K b c = Inr c'\<rbrakk> \<Longrightarrow> chain_reach K c'"

lemma genesis_wf:
  assumes "SetGenesis K g (NewChain sizes) = Inr c" and "distinct (map (tx_Hash K) (blk_Txs g))"
  shows "chain_wf K c \<and> txs_indexed K c \<and> ch_lastAdd c = None"
proof -
  let ?c = "NewChain sizes"
  have g: "height_of g = 0" and c: "c = (indexTxs K g (put_block K g ?c))\<lparr>ch_tip := Some g, ch_genesis := Some g, ch_lastAdd := None\<rparr>"
    using assms(1) by (auto simp: SetGenesis_def IsGenesis_def put_block_def indexTxs_def split: if_splits)
  have e: "ch_blocks ?c = Map.empty" "ch_byHeight ?c = Map.empty" "ch_txIndex ?c = Map.empty" "0 < ch_maxInMemoryBlocks ?c"
    by (auto simp: NewChain_def MaxInMemoryBlocks_def split: list.splits)
  have "same_blocks K ?c" "linked_blocks K ?c" "txs_indexed K ?c"
    using e by (auto simp: same_blocks_def linked_blocks_def txs_indexed_def)
  then have "same_blocks K (put_block K g ?c)" "linked_blocks K (put_block K g ?c)" "txs_indexed K (indexTxs K g (put_block K g ?c))"
    using put_same [of K ?c g] put_linked [of K ?c g] put_indexed [of K ?c g] assms(2) e by simp_all
  moreover have "tip_window c" using e(2,4) by (simp add: c tip_window_def window_ok_def indexTxs_def put_block_def g)
  ultimately show ?thesis by (simp add: c chain_wf_def)
qed

definition added_from :: "lib \<Rightarrow> Chain \<Rightarrow> bool" where
  "added_from K c \<longleftrightarrow> (\<exists>c0 b. chain_wf K c0 \<and> txs_indexed K c0 \<and> block_fresh K b c0 \<and> AddBlock K b c0 = Inr c)"

lemma chain_reach_inv: "chain_reach K c \<Longrightarrow> chain_wf K c \<and> txs_indexed K c \<and> (ch_lastAdd c = None \<or> added_from K c)"
proof (induction rule: chain_reach.induct)
  case (genesis g sizes c)
  then show ?case using genesis_wf by blast
next
  case (extend c b c')
  then show ?case using AddBlock_wf AddBlock_indexed unfolding added_from_def by blast
next
  case (undo c b c')
  then have "ch_lastAdd c \<noteq> None" by (auto simp: RollbackLastBlock_def split: option.splits)
  then obtain c0 b0 where c0: "chain_wf K c0" "txs_indexed K c0" "block_fresh K b0 c0" "AddBlock K b0 c0 = Inr c"
    using undo.IH by (auto simp: added_from_def)
  then have "b0 = b" using AddBlock_Inr(1) undo.hyps(2) by fastforce
  then have c': "c' = c0\<lparr>ch_lastAdd := None\<rparr>" using rollback_add [OF c0] undo.hyps(3) by simp
  have "chain_wf K c'" using c0(1) unfolding c' chain_wf_def by simp
  then show ?case using c0(2) by (simp add: c')
qed

lemma retained_bound:
  assumes "chain_wf K c"
  shows "InMemoryBlockCount c \<le> Suc (unat (ch_maxInMemoryBlocks c))"
proof -
  let ?m = "unat (ch_maxInMemoryBlocks c)"
  obtain t where t: "ch_tip c = Some t" using assms by (auto simp: chain_wf_def tip_window_def)
  let ?R = "insert 0 {Suc (unat (height_of t)) - ?m ..< Suc (unat (height_of t))}"
  have "(\<lambda>h. unat (height_of (the (ch_blocks c h)))) ` dom (ch_blocks c) \<subseteq> ?R"
  proof (rule image_subsetI)
    fix h assume "h \<in> dom (ch_blocks c)"
    then obtain b where b: "ch_blocks c h = Some b" by blast
    then have "ch_byHeight c (height_of b) = Some b" using chain_wfD(2) [OF assms] by blast
    then have "window_ok (ch_maxInMemoryBlocks c) (height_of t) (height_of b)" using chain_wfD(6) [OF assms t] by simp
    then show "unat (height_of (the (ch_blocks c h))) \<in> ?R" by (auto simp: b window_ok_def u64_le_iff)
  qed
  moreover have "inj_on (\<lambda>h. unat (height_of (the (ch_blocks c h)))) (dom (ch_blocks c))"
  proof (rule inj_onI)
    fix g h assume gh: "g \<in> dom (ch_blocks c)" "h \<in> dom (ch_blocks c)"
      "unat (height_of (the (ch_blocks c g))) = unat (height_of (the (ch_blocks c h)))"
    then obtain x y where "ch_blocks c g = Some x" "ch_blocks c h = Some y" "height_of x = height_of y" by (auto simp: word_unat_eq_iff)
    then show "g = h" using chain_wfD(2) [OF assms] by (metis option.inject)
  qed
  ultimately have "card (dom (ch_blocks c)) \<le> card ?R" by (metis card_inj_on_le finite.insertI finite_atLeastLessThan)
  also have "\<dots> \<le> Suc ?m" by (rule order_trans [OF card_insert_le_m1 [of "Suc ?m"]]) auto
  finally show ?thesis by (simp add: InMemoryBlockCount_def)
qed

text \<open>C13: Whatever sequence of additions and reversals a chain has gone through since its genesis block, if every block that was added
  was new to the chain (its hash and the hashes of its transactions, which differ from each other, were not in the indexes; the code does not check this),
  then its two block indexes agree, consecutive retained blocks are linked by hash, memory is bounded by the window plus the
  genesis block, and the transaction index returns exactly the transactions of the retained blocks.\<close>

theorem chain_index_consistent:
  assumes "chain_reach K c"
  shows "(\<forall>h b. GetByHash c h = Some b \<longleftrightarrow> block_Hash K b = h \<and> GetByHeight c (height_of b) = Some b) \<and>
    (\<forall>n b p. n \<noteq> 0 \<longrightarrow> GetByHeight c n = Some b \<longrightarrow> GetByHeight c (n - 1) = Some p \<longrightarrow> prev_of b = block_Hash K p) \<and>
    InMemoryBlockCount c \<le> Suc (unat (ch_maxInMemoryBlocks c)) \<and>
    (\<forall>h tx. (\<exists>loc. GetTransaction c h = Some (tx, loc)) \<longleftrightarrow>
       (\<exists>n b. GetByHeight c n = Some b \<and> tx \<in> set (blk_Txs b) \<and> tx_Hash K tx = h))"
proof (intro conjI)
  have wf: "chain_wf K c" "txs_indexed K c" using chain_reach_inv [OF assms] by blast+
  show "\<forall>h b. GetByHash c h = Some b \<longleftrightarrow> block_Hash K b = h \<and> GetByHeight c (height_of b) = Some b"
    using chain_wfD(2) [OF wf(1)] by (simp add: GetByHash_def GetByHeight_def)
  show "\<forall>n b p. n \<noteq> 0 \<longrightarrow> GetByHeight c n = Some b \<longrightarrow> GetByHeight c (n - 1) = Some p \<longrightarrow> prev_of b = block_Hash K p"
    using chain_wfD(4) [OF wf(1)] by (auto simp: GetByHeight_def)
  show "InMemoryBlockCount c \<le> Suc (unat (ch_maxInMemoryBlocks c))" by (rule retained_bound [OF wf(1)])
  show "\<forall>h tx. (\<exists>loc. GetTransaction c h = Some (tx, loc)) \<longleftrightarrow>
       (\<exists>n b. GetByHeight c n = Some b \<and> tx \<in> set (blk_Txs b) \<and> tx_Hash K tx = h)"
  proof (intro allI iffI)
    fix h tx assume "\<exists>loc. GetTransaction c h = Some (tx, loc)"
    then obtain loc where l: "ch_txIndex c h = Some loc" "tx = blk_Txs (loc_Block loc) ! loc_TxIndex loc"
      by (auto simp: GetTransaction_def)
    then show "\<exists>n b. GetByHeight c n = Some b \<and> tx \<in> set (blk_Txs b) \<and> tx_Hash K tx = h"
      using wf(2) unfolding txs_indexed_def GetByHeight_def by (metis nth_mem)
  next
    fix h tx assume "\<exists>n b. GetByHeight c n = Some b \<and> tx \<in> set (blk_Txs b) \<and> tx_Hash K tx = h"
    then obtain n b i where b: "ch_byHeight c n = Some b" "i < length (blk_Txs b)" "blk_Txs b ! i = tx" "tx_Hash K tx = h"
      by (auto simp: GetByHeight_def in_set_conv_nth)
    then have "ch_txIndex c h = Some \<lparr>loc_Block = b, loc_TxIndex = i\<rparr>" using wf(2) unfolding txs_indexed_def by blast
    then show "\<exists>loc. GetTransaction c h = Some (tx, loc)" using b by (simp add: GetTransaction_def)
  qed
qed

text \<open>The condition is needed: when a block repeats a transaction of the block that its addition evicts, the eviction removes the entry of
  the new one, and the transaction of the tip cannot be found.\<close>

theorem repeated_tx_unindexed:
  assumes "AddBlock K b c = Inr c'" and "0 < ch_maxInMemoryBlocks c" and "evicted_at (height_of b) c = Some old"
    and "tx \<in> set (blk_Txs b)" and "tx' \<in> set (blk_Txs old)" and "tx_Hash K tx = tx_Hash K tx'"
  shows "ch_tip c' = Some b \<and> GetTransaction c' (tx_Hash K tx) = None"
proof -
  have "ch_txIndex c' (tx_Hash K tx) = None"
    using AddBlock_indexes(3) [OF assms(1,2)] assms(3,5,6) by (auto simp: unindex_lookup tx_hashes_def)
  then show ?thesis using AddBlock_Inr(1) [OF assms(1)] by (auto simp: GetTransaction_def)
qed

text \<open>C14: A block that was just appended can be taken back exactly: on a chain reached from genesis, if
  appending a block with new identifiers succeeds, then rolling that block back succeeds and restores every index, the evicted
  block included.\<close>

theorem add_then_rollback:
  assumes "chain_reach K c" and "block_fresh K b c" and "AddBlock K b c = Inr c'"
  shows "RollbackLastBlock K b c' = Inr (c\<lparr>ch_lastAdd := None\<rparr>)"
  using rollback_add chain_reach_inv assms by blast

section \<open>Concrete chains\<close>

text \<open>A hash function that tells the genesis block from the others.\<close>

definition chain_lib :: lib where
  "chain_lib = demo_lib\<lparr>sha256 := \<lambda>b. if take 8 b = le_put64 0 then 0 else 1\<rparr>"

definition demo_block :: "u64 \<Rightarrow> hash32 \<Rightarrow> Block" where
  "demo_block height prev = \<lparr>blk_Header = \<lparr>bh_Height = height, bh_PrevHash = prev, bh_MerkleRoot = 0, bh_Timestamp = 1,
     bh_Round = 0, bh_ValidatorPub = [], bh_OraclePrice = 0, bh_BaseFee = 0, bh_Signature = []\<rparr>, blk_Txs = []\<rparr>"

definition demo_chain :: Chain where
  "demo_chain = (case SetGenesis chain_lib (demo_block 0 0) (NewChain [1]) of Inl _ \<Rightarrow> NewChain [1] | Inr c \<Rightarrow> c)"

lemma demo_hashes: "block_Hash chain_lib (demo_block n p) = (if n = 0 then 0 else 1)"
  by (simp add: block_Hash_def header_Hash_def HashBytes_def header_bytes_def chain_lib_def demo_block_def le_put64_inject codec_simps)

lemma demo_chain_genesis: "SetGenesis chain_lib (demo_block 0 0) (NewChain [1]) = Inr demo_chain"
  by (simp add: demo_chain_def SetGenesis_def IsGenesis_def demo_block_def)

lemma demo_chain_reach: "chain_reach chain_lib demo_chain"
  by (rule chain_reach.genesis [OF demo_chain_genesis]) (simp add: demo_block_def)

lemma demo_chain_fields:
  "ch_tip demo_chain = Some (demo_block 0 0)" "ch_blocks demo_chain = [0 \<mapsto> demo_block 0 0]"
  by (simp_all add: demo_chain_def SetGenesis_def IsGenesis_def demo_block_def indexTxs_def NewChain_def)
    (simp add: demo_hashes [unfolded demo_block_def])

lemma demo_block_fresh: "block_fresh chain_lib (demo_block 1 0) demo_chain"
  by (simp add: block_fresh_def HasBlock_def demo_chain_fields demo_hashes tx_hashes_def) (simp add: demo_block_def)

lemma demo_chain_add: "\<exists>c. AddBlock chain_lib (demo_block 1 0) demo_chain = Inr c"
  by (simp add: AddBlock_def demo_chain_fields demo_hashes Let_def) (simp add: demo_block_def)

theorem chain_index_consistent_witness:
  "\<exists>c. AddBlock chain_lib (demo_block 1 0) demo_chain = Inr c \<and> InMemoryBlockCount c \<le> Suc (unat (ch_maxInMemoryBlocks c))"
proof -
  obtain c where c: "AddBlock chain_lib (demo_block 1 0) demo_chain = Inr c" using demo_chain_add by blast
  have "chain_reach chain_lib c" by (rule chain_reach.extend [OF demo_chain_reach demo_block_fresh c])
  from chain_index_consistent [OF this] have "InMemoryBlockCount c \<le> Suc (unat (ch_maxInMemoryBlocks c))" by (elim conjE)
  with c show ?thesis by (intro exI conjI)
qed

theorem add_then_rollback_witness:
  "\<exists>c. AddBlock chain_lib (demo_block 1 0) demo_chain = Inr c \<and>
     RollbackLastBlock chain_lib (demo_block 1 0) c = Inr (demo_chain\<lparr>ch_lastAdd := None\<rparr>)"
proof -
  obtain c where c: "AddBlock chain_lib (demo_block 1 0) demo_chain = Inr c" using demo_chain_add by blast
  from add_then_rollback [OF demo_chain_reach demo_block_fresh c] c show ?thesis by blast
qed

end
