(* ===== verification/Finality.thy ===== *)
theory Finality
  imports Complex_Main Epochs Chain_State
begin

text \<open>
  Finalization votes of the consensus engine (\<open>consensus/poa.go\<close>, \<open>consensus/slashing.go\<close>,
  \<open>consensus/finality_migration.go\<close>) and the two durable records behind them (\<open>store/finality.go\<close>): counting votes,
  quorum certificates, votes that arrive before their block, the node's own vote, restart, and the detection of
  double signing.  LevelDB with the JSON codec of the records is a parameter.
\<close>

section \<open>Definitions\<close>

subsection \<open>Hexadecimal strings\<close>

definition unhex_digit :: "char \<Rightarrow> nat option" where
  "unhex_digit c =
     (let n = of_char c :: nat in
      if 48 \<le> n \<and> n \<le> 57 then Some (n - 48)
      else if 97 \<le> n \<and> n \<le> 102 then Some (n - 87)
      else if 65 \<le> n \<and> n \<le> 70 then Some (n - 55) else None)"

fun hex_decode :: "string \<Rightarrow> bytes option" where
  "hex_decode [] = Some []"
| "hex_decode [c] = None"
| "hex_decode (c # d # s) =
     (case (unhex_digit c, unhex_digit d, hex_decode s) of
        (Some m, Some n, Some bs) \<Rightarrow> Some (word_of_nat (16 * m + n) # bs)
      | _ \<Rightarrow> None)"

subsection \<open>Durable records\<close>

record FinalityVote =
  fv_Validator :: ValidatorPubKey
  fv_Signature :: bytes

record FinalityCertificate =
  fc_Version :: u8
  fc_Height :: u64
  fc_BlockHash :: hash32
  fc_Votes :: "FinalityVote list"

record LocalFinalityVote =
  lv_Version :: u8
  lv_Height :: u64
  lv_BlockHash :: hash32
  lv_Validator :: ValidatorPubKey
  lv_Signature :: bytes

datatype finality_error =
    StoreFault
  | InvalidRecord
  | UnsupportedVersion
  | HeightRegression
  | ConflictingRecord
  | UnknownValidator
  | BadVoteSignature
  | NotCanonicalBlock
  | RebindsKnownBlock
  | DuplicateStagedVote
  | FutureQueueFull
  | CorruptIdentity
  | AboveTip
  | TipMismatch
  | IndexMismatch
  | BodyMissing
  | BodyMismatch
  | BadCertificateVote
  | QuorumMissing
  | MigrationConfig
  | MigrationBinding
  | SignFailed

text \<open>What the engine uses of the database: reading and decoding, encoding and writing, for the two records,
  and the canonical tip, height index and bodies.\<close>

record 'd finality_db =
  db_cert :: "'d \<Rightarrow> finality_error + FinalityCertificate option"
  db_put_cert :: "FinalityCertificate \<Rightarrow> 'd \<Rightarrow> finality_error + 'd"
  db_vote :: "'d \<Rightarrow> finality_error + LocalFinalityVote option"
  db_put_vote :: "LocalFinalityVote \<Rightarrow> 'd \<Rightarrow> finality_error + 'd"
  db_GetTip :: "'d \<Rightarrow> finality_error + hash32 \<times> u64"
  db_GetCanonicalHash :: "u64 \<Rightarrow> 'd \<Rightarrow> finality_error + hash32 option"
  db_GetBlock :: "hash32 \<Rightarrow> 'd \<Rightarrow> finality_error + Block option"

definition LoadLocalFinalityVote :: "'d finality_db \<Rightarrow> 'd \<Rightarrow> finality_error + LocalFinalityVote option" where
  "LoadLocalFinalityVote D d =
     (case db_vote D d of
        Inl e \<Rightarrow> Inl e
      | Inr None \<Rightarrow> Inr None
      | Inr (Some v) \<Rightarrow> if lv_Version v \<noteq> 1 then Inl UnsupportedVersion else Inr (Some v))"

definition SaveLocalFinalityVote :: "'d finality_db \<Rightarrow> LocalFinalityVote \<Rightarrow> 'd \<Rightarrow> finality_error + 'd" where
  "SaveLocalFinalityVote D v d =
     (if lv_Version v \<noteq> 1 \<or> lv_BlockHash v = 0 \<or> lv_Signature v = [] then Inl InvalidRecord
      else case LoadLocalFinalityVote D d of
        Inl e \<Rightarrow> Inl e
      | Inr None \<Rightarrow> db_put_vote D v d
      | Inr (Some prior) \<Rightarrow>
          if lv_Height v < lv_Height prior then Inl HeightRegression
          else if lv_Height v = lv_Height prior \<and> (lv_BlockHash v \<noteq> lv_BlockHash prior \<or> lv_Validator v \<noteq> lv_Validator prior)
            then Inl ConflictingRecord
          else db_put_vote D v d)"

definition LoadFinalityCertificate :: "'d finality_db \<Rightarrow> 'd \<Rightarrow> finality_error + FinalityCertificate option" where
  "LoadFinalityCertificate D d =
     (case db_cert D d of
        Inl e \<Rightarrow> Inl e
      | Inr None \<Rightarrow> Inr None
      | Inr (Some c) \<Rightarrow> if fc_Version c \<noteq> 1 then Inl UnsupportedVersion else Inr (Some c))"

definition SaveFinalityCertificate :: "'d finality_db \<Rightarrow> FinalityCertificate \<Rightarrow> 'd \<Rightarrow> finality_error + 'd" where
  "SaveFinalityCertificate D c d =
     (if fc_Version c \<noteq> 1 \<or> fc_BlockHash c = 0 \<or> fc_Votes c = [] then Inl InvalidRecord
      else case LoadFinalityCertificate D d of
        Inl e \<Rightarrow> Inl e
      | Inr None \<Rightarrow> db_put_cert D c d
      | Inr (Some prior) \<Rightarrow>
          if fc_Height c < fc_Height prior then Inl HeightRegression
          else if fc_Height c = fc_Height prior \<and> fc_BlockHash c \<noteq> fc_BlockHash prior then Inl ConflictingRecord
          else db_put_cert D c d)"

subsection \<open>The engine\<close>

record FinalizeMsg =
  fm_BlockHash :: hash32
  fm_Height :: u64
  fm_ValidatorPub :: ValidatorPubKey
  fm_Signature :: bytes

type_synonym futureVoteKey = "u64 \<times> hash32 \<times> string"

definition futureVoteWindow :: u64 where "futureVoteWindow = 2"
definition futureVoteLimit :: nat where "futureVoteLimit = 256"
definition votePruneDepth :: u64 where "votePruneDepth = 256"

text \<open>The configuration: the quorum fraction, the rounding of a product of two doubles, the signing rule, and the
  order in which a map is iterated.\<close>

record finality_cfg =
  cfg_BFTThreshold :: real
  cfg_round :: "real \<Rightarrow> real"
  cfg_fork :: "ValidatorAuthorityFork option"
  cfg_order :: "(string \<times> bytes) list \<Rightarrow> (string \<times> bytes) list"
  cfg_future_order :: "(futureVoteKey \<times> FinalizeMsg) list \<Rightarrow> (futureVoteKey \<times> FinalizeMsg) list"

text \<open>The votes of one block and the staged votes are kept as the list of their entries.\<close>

record 'd Engine =
  en_chain :: Chain
  en_votes :: "hash32 \<rightharpoonup> (string \<times> bytes) list"
  en_finalized :: "u64 set"
  en_pendingVoteHeight :: "hash32 \<rightharpoonup> u64"
  en_futureVotes :: "(futureVoteKey \<times> FinalizeMsg) list"
  en_latestLocalVote :: "FinalizeMsg option"
  en_lpodFinalizedHashes :: "u64 \<rightharpoonup> hash32"
  en_halted :: bool
  en_store :: "'d option"
  en_cast :: "FinalizeMsg list"

text \<open>The active set is read from the registry; a registry without entries falls back to the static list.\<close>

definition activeValidators :: "ValidatorPubKey list \<Rightarrow> string list \<Rightarrow> 'r ValidatorRegistry option \<Rightarrow> ValidatorPubKey list" where
  "activeValidators validators ks registry =
     (case registry of
        None \<Rightarrow> validators
      | Some r \<Rightarrow>
          let vs = activeSetLocked ks (rg_validators r) in
          if vs \<noteq> [] \<or> rg_validators r \<noteq> Map.empty then vs else validators)"

definition isKnownValidator :: "ValidatorPubKey list \<Rightarrow> ValidatorPubKey \<Rightarrow> bool" where
  "isKnownValidator active pub = list_ex (\<lambda>v. v = pub) active"

definition proposerAt :: "ValidatorPubKey list \<Rightarrow> u32 \<Rightarrow> ValidatorPubKey option" where
  "proposerAt active r = (if active = [] then None else Some (active ! (unat r mod length active)))"

definition vote_message :: "lib \<Rightarrow> hash32 \<Rightarrow> hash32" where
  "vote_message K h = HashBytes K [str_bytes ''aperod/finalize/v1'', arr_bytes h]"

definition vote_verifies :: "lib \<Rightarrow> finality_cfg \<Rightarrow> ValidatorPubKey \<Rightarrow> u64 \<Rightarrow> hash32 \<Rightarrow> bytes \<Rightarrow> bool" where
  "vote_verifies K C pub height h sig = pub_Verify K (Authority (cfg_fork C) pub height) (vote_message K h) sig"

definition needed_votes :: "finality_cfg \<Rightarrow> nat \<Rightarrow> nat" where
  "needed_votes C n = nat \<lfloor>cfg_round C (real n * cfg_BFTThreshold C)\<rfloor> + 1"

definition stage_vote :: "FinalizeMsg \<Rightarrow> 'd Engine \<Rightarrow> 'd Engine \<times> finality_error option" where
  "stage_vote v e =
     (case ch_tip (en_chain e) of
        None \<Rightarrow> (e, Some NotCanonicalBlock)
      | Some tip \<Rightarrow>
          if fm_Height v \<le> height_of tip \<or> max_u64 - futureVoteWindow < height_of tip \<or>
             height_of tip + futureVoteWindow < fm_Height v then (e, Some NotCanonicalBlock)
          else if GetByHash (en_chain e) (fm_BlockHash v) \<noteq> None then (e, Some RebindsKnownBlock)
          else
            let key = (fm_Height v, fm_BlockHash v, pub_Hex (fm_ValidatorPub v)) in
            if key \<in> fst ` set (en_futureVotes e) then (e, Some DuplicateStagedVote)
            else if futureVoteLimit \<le> length (en_futureVotes e) then (e, Some FutureQueueFull)
            else (e\<lparr>en_futureVotes := en_futureVotes e @ [(key, v)]\<rparr>, None))"

text \<open>The certificate lists the collected votes; an identifier that is not the hexadecimal form of 32
  bytes ends with an error.\<close>

fun certificate_votes :: "(string \<times> bytes) list \<Rightarrow> finality_error + FinalityVote list" where
  "certificate_votes [] = Inr []"
| "certificate_votes ((validatorHex, signature) # vs) =
     (case hex_decode validatorHex of
        None \<Rightarrow> Inl CorruptIdentity
      | Some raw \<Rightarrow>
          if length raw \<noteq> 32 then Inl CorruptIdentity
          else case certificate_votes vs of
            Inl e \<Rightarrow> Inl e
          | Inr rest \<Rightarrow> Inr (\<lparr>fv_Validator = raw, fv_Signature = signature\<rparr> # rest))"

definition save_certificate :: "'d finality_db \<Rightarrow> FinalityCertificate \<Rightarrow> 'd Engine \<Rightarrow> finality_error + 'd Engine" where
  "save_certificate D c e =
     (case en_store e of
        None \<Rightarrow> Inr e
      | Some d \<Rightarrow> (case SaveFinalityCertificate D c d of Inl er \<Rightarrow> Inl er | Inr d' \<Rightarrow> Inr (e\<lparr>en_store := Some d'\<rparr>)))"

definition finalize :: "finality_cfg \<Rightarrow> 'd finality_db \<Rightarrow> FinalizeMsg \<Rightarrow> (string \<times> bytes) list \<Rightarrow> 'd Engine
    \<Rightarrow> finality_error + 'd Engine" where
  "finalize C D v collected e =
     (case certificate_votes (cfg_order C collected) of
        Inl er \<Rightarrow> Inl er
      | Inr votes \<Rightarrow>
          case save_certificate D \<lparr>fc_Version = 1, fc_Height = fm_Height v, fc_BlockHash = fm_BlockHash v, fc_Votes = votes\<rparr> e of
            Inl er \<Rightarrow> Inl er
          | Inr e \<Rightarrow> Inr (e\<lparr>en_finalized := insert (fm_Height v) (en_finalized e),
                en_lpodFinalizedHashes := (en_lpodFinalizedHashes e)(fm_Height v \<mapsto> fm_BlockHash v),
                en_votes := (en_votes e)(fm_BlockHash v := None),
                en_pendingVoteHeight := (en_pendingVoteHeight e)(fm_BlockHash v := None)\<rparr>))"

definition prune_votes :: "u64 \<Rightarrow> 'd Engine \<Rightarrow> 'd Engine" where
  "prune_votes height e =
     (if height \<le> votePruneDepth then e
      else
        let pruneBelow = height - votePruneDepth;
            stale = (\<lambda>bh. case en_pendingVoteHeight e bh of None \<Rightarrow> False | Some ht \<Rightarrow> ht < pruneBelow);
            old = (\<lambda>h. h \<in> en_finalized e \<and> h < pruneBelow)
        in e\<lparr>en_votes := (\<lambda>bh. if stale bh then None else en_votes e bh),
             en_pendingVoteHeight := (\<lambda>bh. if stale bh then None else en_pendingVoteHeight e bh),
             en_lpodFinalizedHashes := (\<lambda>h. if old h then None else en_lpodFinalizedHashes e h),
             en_finalized := {h \<in> en_finalized e. \<not> old h}\<rparr>)"

text \<open>Counting a vote for a canonical block.  An error may be reported after the vote was recorded.\<close>

definition record_vote :: "FinalizeMsg \<Rightarrow> 'd Engine \<Rightarrow> 'd Engine" where
  "record_vote v e =
     (case en_votes e (fm_BlockHash v) of
        None \<Rightarrow> e\<lparr>en_votes := (en_votes e)(fm_BlockHash v \<mapsto> [(pub_Hex (fm_ValidatorPub v), fm_Signature v)]),
                   en_pendingVoteHeight := (en_pendingVoteHeight e)(fm_BlockHash v \<mapsto> fm_Height v)\<rparr>
      | Some al \<Rightarrow> e\<lparr>en_votes := (en_votes e)(fm_BlockHash v \<mapsto> al @ [(pub_Hex (fm_ValidatorPub v), fm_Signature v)])\<rparr>)"

definition has_voted :: "FinalizeMsg \<Rightarrow> 'd Engine \<Rightarrow> bool" where
  "has_voted v e = (case en_votes e (fm_BlockHash v) of None \<Rightarrow> False | Some al \<Rightarrow> pub_Hex (fm_ValidatorPub v) \<in> fst ` set al)"

definition count_vote :: "finality_cfg \<Rightarrow> 'd finality_db \<Rightarrow> ValidatorPubKey list \<Rightarrow> FinalizeMsg \<Rightarrow> 'd Engine
    \<Rightarrow> 'd Engine \<times> finality_error option" where
  "count_vote C D active v e =
     (if fm_Height v \<in> en_finalized e then (e, None)
      else if has_voted v e then (e, None)
      else
        let e = record_vote v e; collected = the (en_votes e (fm_BlockHash v)) in
        if needed_votes C (length active) \<le> length collected then
          (case finalize C D v collected e of
             Inl er \<Rightarrow> (e, Some er)
           | Inr e' \<Rightarrow> (prune_votes (fm_Height v) e', None))
        else (prune_votes (fm_Height v) e, None))"

definition handleVote :: "lib \<Rightarrow> finality_cfg \<Rightarrow> 'd finality_db \<Rightarrow> ValidatorPubKey list \<Rightarrow> FinalizeMsg \<Rightarrow> 'd Engine
    \<Rightarrow> 'd Engine \<times> finality_error option" where
  "handleVote K C D active v e =
     (if \<not> isKnownValidator active (fm_ValidatorPub v) then (e, Some UnknownValidator)
      else if \<not> vote_verifies K C (fm_ValidatorPub v) (fm_Height v) (fm_BlockHash v) (fm_Signature v) then (e, Some BadVoteSignature)
      else case GetByHeight (en_chain e) (fm_Height v) of
        None \<Rightarrow> stage_vote v e
      | Some block \<Rightarrow>
          if height_of block \<noteq> fm_Height v \<or> block_Hash K block \<noteq> fm_BlockHash v then (e, Some NotCanonicalBlock)
          else count_vote C D active v e)"

text \<open>Votes that were staged for the block that has now arrived; older ones are dropped.\<close>

definition replayFutureVotes :: "lib \<Rightarrow> finality_cfg \<Rightarrow> 'd finality_db \<Rightarrow> ValidatorPubKey list \<Rightarrow> Block \<Rightarrow> 'd Engine \<Rightarrow> 'd Engine" where
  "replayFutureVotes K C D active block e =
     (let staged = cfg_future_order C (en_futureVotes e);
          replay = filter (\<lambda>((h, bh, _), v). h = height_of block \<and> bh = block_Hash K block) staged
      in fold (\<lambda>(_, v) e. fst (handleVote K C D active v e)) replay
           (e\<lparr>en_futureVotes := filter (\<lambda>((h, _, _), v). height_of block < h) (en_futureVotes e)\<rparr>))"

subsection \<open>The node's own vote\<close>

text \<open>Signing with the node's key may fail; \<open>en_cast\<close> lists the votes handed over for dissemination.\<close>

definition castVote :: "lib \<Rightarrow> finality_cfg \<Rightarrow> 'd finality_db \<Rightarrow> ValidatorPubKey list \<Rightarrow> ValidatorPubKey \<Rightarrow> (hash32 \<Rightarrow> bytes option)
    \<Rightarrow> Block \<Rightarrow> 'd Engine \<Rightarrow> 'd Engine \<times> finality_error option" where
  "castVote K C D active me sign block e =
     (let h = block_Hash K block in
      case sign (vote_message K h) of
        None \<Rightarrow> (e, Some SignFailed)
      | Some sig \<Rightarrow>
          let vote = \<lparr>fm_BlockHash = h, fm_Height = height_of block,
                fm_ValidatorPub = LocalIdentity (cfg_fork C) me (height_of block), fm_Signature = sig\<rparr> in
          case handleVote K C D active vote e of
            (e, Some er) \<Rightarrow> (e, Some er)
          | (e, None) \<Rightarrow>
              let saved = (case en_store e of
                  None \<Rightarrow> Inr None
                | Some d \<Rightarrow> (case SaveLocalFinalityVote D \<lparr>lv_Version = 1, lv_Height = fm_Height vote, lv_BlockHash = fm_BlockHash vote,
                      lv_Validator = fm_ValidatorPub vote, lv_Signature = fm_Signature vote\<rparr> d of
                    Inl er \<Rightarrow> Inl er | Inr d' \<Rightarrow> Inr (Some d')))
              in case saved of
                Inl er \<Rightarrow> (e\<lparr>en_halted := True\<rparr>, Some er)
              | Inr d' \<Rightarrow> (e\<lparr>en_store := d', en_latestLocalVote := Some vote, en_cast := en_cast e @ [vote]\<rparr>, None))"

text \<open>Walking the stored blocks from the durable tip down to the height of the vote.\<close>

fun ancestry :: "lib \<Rightarrow> 'd finality_db \<Rightarrow> 'd \<Rightarrow> u64 \<Rightarrow> hash32 \<Rightarrow> nat \<Rightarrow> hash32 \<Rightarrow> finality_error option" where
  "ancestry K D d voteHeight voteHash height h =
     (case db_GetCanonicalHash D (of_nat height) d of
        Inl e \<Rightarrow> Some e
      | Inr indexed \<Rightarrow>
          if indexed \<noteq> Some h then Some IndexMismatch
          else case db_GetBlock D h d of
            Inl e \<Rightarrow> Some e
          | Inr None \<Rightarrow> Some BodyMissing
          | Inr (Some block) \<Rightarrow>
              if height_of block \<noteq> of_nat height \<or> block_Hash K block \<noteq> h then Some BodyMismatch
              else if of_nat height = voteHeight then (if h \<noteq> voteHash then Some NotCanonicalBlock else None)
              else (case height of
                  0 \<Rightarrow> Some AboveTip
                | Suc n \<Rightarrow> ancestry K D d voteHeight voteHash n (prev_of block)))"

definition verifyLocalVoteAncestry :: "lib \<Rightarrow> 'd finality_db \<Rightarrow> u64 \<Rightarrow> hash32 \<Rightarrow> 'd Engine \<Rightarrow> finality_error option" where
  "verifyLocalVoteAncestry K D voteHeight voteHash e =
     (case en_store e of
        None \<Rightarrow> Some StoreFault
      | Some d \<Rightarrow>
          case db_GetTip D d of
            Inl er \<Rightarrow> Some er
          | Inr (tipHash, tipHeight) \<Rightarrow>
              if tipHash = 0 \<or> tipHeight < voteHeight then Some AboveTip
              else case ch_tip (en_chain e) of
                None \<Rightarrow> Some TipMismatch
              | Some memoryTip \<Rightarrow>
                  if height_of memoryTip \<noteq> tipHeight \<or> block_Hash K memoryTip \<noteq> tipHash then Some TipMismatch
                  else ancestry K D d voteHeight voteHash (unat tipHeight) tipHash)"

definition restoreLocalFinalityVote :: "lib \<Rightarrow> finality_cfg \<Rightarrow> 'd finality_db \<Rightarrow> ValidatorPubKey list \<Rightarrow> 'd Engine
    \<Rightarrow> finality_error + 'd Engine" where
  "restoreLocalFinalityVote K C D active e =
     (case en_store e of
        None \<Rightarrow> Inr e
      | Some d \<Rightarrow>
          case LoadLocalFinalityVote D d of
            Inl er \<Rightarrow> Inl er
          | Inr None \<Rightarrow> Inr e
          | Inr (Some v) \<Rightarrow>
              if \<not> isKnownValidator active (lv_Validator v) then Inl UnknownValidator
              else if \<not> vote_verifies K C (lv_Validator v) (lv_Height v) (lv_BlockHash v) (lv_Signature v) then Inl BadVoteSignature
              else case verifyLocalVoteAncestry K D (lv_Height v) (lv_BlockHash v) e of
                Some er \<Rightarrow> Inl er
              | None \<Rightarrow> Inr (e\<lparr>en_latestLocalVote := Some \<lparr>fm_BlockHash = lv_BlockHash v, fm_Height = lv_Height v,
                    fm_ValidatorPub = lv_Validator v, fm_Signature = lv_Signature v\<rparr>\<rparr>))"

definition LatestLocalVote :: "lib \<Rightarrow> 'd finality_db \<Rightarrow> 'd Engine \<Rightarrow> 'd Engine \<times> FinalizeMsg option" where
  "LatestLocalVote K D e =
     (case en_latestLocalVote e of
        None \<Rightarrow> (e, None)
      | Some v \<Rightarrow>
          case verifyLocalVoteAncestry K D (fm_Height v) (fm_BlockHash v) e of
            Some er \<Rightarrow> (e\<lparr>en_halted := True\<rparr>, None)
          | None \<Rightarrow> (e, Some v))"

definition IsFinalized :: "'d Engine \<Rightarrow> u64 \<Rightarrow> bool" where
  "IsFinalized e height \<longleftrightarrow> height \<in> en_finalized e"

subsection \<open>Restart with a certificate\<close>

record FinalityCommitteeMigration =
  mg_Version :: u8
  mg_Genesis :: hash32
  mg_CertificateHeight :: u64
  mg_CertificateBlockHash :: hash32
  mg_ApprovalHeight :: u64
  mg_ApprovalBlockHash :: hash32
  mg_BFTThresholdPPM :: u32
  mg_HistoricalCommittee :: "ValidatorPubKey list"
  mg_Approvals :: "FinalityVote list"

definition FinalityCommitteeMigrationVersion :: u8 where "FinalityCommitteeMigrationVersion = 1"

definition isZeroFinalityKey :: "ValidatorPubKey \<Rightarrow> bool" where
  "isZeroFinalityKey key \<longleftrightarrow> length key = 32 \<and> list_all (\<lambda>b. b = 0) key"

fun strictly_ascending :: "bytes list \<Rightarrow> bool" where
  "strictly_ascending (a # b # bs) \<longleftrightarrow> bytes_less a b \<and> strictly_ascending (b # bs)"
| "strictly_ascending _ \<longleftrightarrow> True"

definition SigningMessage :: "lib \<Rightarrow> FinalityCommitteeMigration \<Rightarrow> hash32 option" where
  "SigningMessage K m =
     (if mg_Version m \<noteq> FinalityCommitteeMigrationVersion \<or> mg_Genesis m = 0 \<or> mg_CertificateHeight m = 0 \<or>
         mg_CertificateBlockHash m = 0 \<or> mg_ApprovalHeight m < mg_CertificateHeight m \<or> mg_ApprovalBlockHash m = 0 \<or>
         mg_BFTThresholdPPM m = 0 \<or> 1000000 \<le> mg_BFTThresholdPPM m \<or>
         mg_HistoricalCommittee m = [] \<or> 256 < length (mg_HistoricalCommittee m) then None
      else if \<not> list_all (\<lambda>v. length v = 32 \<and> \<not> isZeroFinalityKey v) (mg_HistoricalCommittee m) \<or>
              \<not> strictly_ascending (mg_HistoricalCommittee m) then None
      else if \<not> list_all (\<lambda>a. length (fv_Validator a) = 32 \<and> \<not> isZeroFinalityKey (fv_Validator a) \<and>
                length (fv_Signature a) = 64) (mg_Approvals m) \<or>
              \<not> strictly_ascending (map fv_Validator (mg_Approvals m)) then None
      else Some (HashBytes K [str_bytes ''aperod/finality-committee-migration/v1'' @ [0], [mg_Version m], arr_bytes (mg_Genesis m),
        be_put64 (mg_CertificateHeight m), arr_bytes (mg_CertificateBlockHash m), be_put64 (mg_ApprovalHeight m),
        arr_bytes (mg_ApprovalBlockHash m), be_put32 (mg_BFTThresholdPPM m),
        be_put32 (word_of_nat (length (mg_HistoricalCommittee m))), concat (mg_HistoricalCommittee m)]))"

text \<open>Votes or approvals by members of a committee: no member twice, every signature valid.\<close>

fun check_votes :: "(ValidatorPubKey \<Rightarrow> bytes \<Rightarrow> bool) \<Rightarrow> ValidatorPubKey list \<Rightarrow> FinalityVote list \<Rightarrow> string set \<Rightarrow> string set option" where
  "check_votes ok committee [] seen = Some seen"
| "check_votes ok committee (v # vs) seen =
     (let id = pub_Hex (fv_Validator v) in
      if id \<notin> pub_Hex ` set committee \<or> id \<in> seen \<or> \<not> ok (fv_Validator v) (fv_Signature v) then None
      else check_votes ok committee vs (insert id seen))"

text \<open>Trust authorities: well-formed and different.\<close>

fun check_authorities :: "ValidatorPubKey list \<Rightarrow> string set \<Rightarrow> bool" where
  "check_authorities [] seen \<longleftrightarrow> True"
| "check_authorities (a # as) seen \<longleftrightarrow>
     length a = 32 \<and> \<not> isZeroFinalityKey a \<and> pub_Hex a \<notin> seen \<and> check_authorities as (insert (pub_Hex a) seen)"

text \<open>The argument \<open>thresholdPPM\<close> is the threshold in millionths as \<open>math.Round\<close> returns it.\<close>

definition verifyFinalityCommitteeMigration :: "lib \<Rightarrow> finality_cfg \<Rightarrow> 'd finality_db \<Rightarrow> int \<Rightarrow> FinalityCommitteeMigration
    \<Rightarrow> ValidatorPubKey list \<Rightarrow> FinalityCertificate \<Rightarrow> 'd \<Rightarrow> Chain \<Rightarrow> finality_error + ValidatorPubKey list" where
  "verifyFinalityCommitteeMigration K C D thresholdPPM m authorities cert d c =
     (case (ch_genesis c, ch_tip c) of
        (Some genesis, Some tip) \<Rightarrow>
          if mg_Genesis m \<noteq> block_Hash K genesis then Inl MigrationBinding
          else if mg_CertificateHeight m \<noteq> fc_Height cert \<or> mg_CertificateBlockHash m \<noteq> fc_BlockHash cert then Inl MigrationBinding
          else if height_of tip < mg_ApprovalHeight m then Inl AboveTip
          else if db_GetTip D d \<noteq> Inr (block_Hash K tip, height_of tip) then Inl TipMismatch
          else if db_GetCanonicalHash D (mg_ApprovalHeight m) d \<noteq> Inr (Some (mg_ApprovalBlockHash m)) then Inl IndexMismatch
          else if thresholdPPM < 1 \<or> 1000000 \<le> thresholdPPM \<or> of_int thresholdPPM \<noteq> mg_BFTThresholdPPM m then Inl MigrationConfig
          else if authorities = [] \<or> 256 < length authorities \<or> \<not> check_authorities authorities {} then Inl MigrationConfig
          else (case SigningMessage K m of
              None \<Rightarrow> Inl MigrationBinding
            | Some msg \<Rightarrow>
                (case check_votes (\<lambda>pub sig. pub_Verify K (Authority (cfg_fork C) pub (mg_ApprovalHeight m)) msg sig)
                       authorities (mg_Approvals m) {} of
                   None \<Rightarrow> Inl BadCertificateVote
                 | Some verified \<Rightarrow>
                     if card verified < needed_votes C (length authorities) then Inl QuorumMissing
                     else Inr (mg_HistoricalCommittee m)))
      | _ \<Rightarrow> Inl MigrationBinding)"

definition certificate_bound :: "lib \<Rightarrow> 'd finality_db \<Rightarrow> FinalityCertificate \<Rightarrow> 'd \<Rightarrow> Chain \<Rightarrow> finality_error option" where
  "certificate_bound K D cert d c =
     (case ch_tip c of
        None \<Rightarrow> Some AboveTip
      | Some tip \<Rightarrow>
          if height_of tip < fc_Height cert then Some AboveTip
          else if fc_Height cert = height_of tip then (if block_Hash K tip \<noteq> fc_BlockHash cert then Some TipMismatch else None)
          else case db_GetTip D d of
            Inl er \<Rightarrow> Some er
          | Inr (storedTipHash, storedTipHeight) \<Rightarrow>
              if storedTipHeight \<noteq> height_of tip \<or> storedTipHash \<noteq> block_Hash K tip then Some TipMismatch
              else case db_GetCanonicalHash D (fc_Height cert) d of
                Inl er \<Rightarrow> Some er
              | Inr indexed \<Rightarrow>
                  if indexed \<noteq> Some (fc_BlockHash cert) then Some IndexMismatch
                  else case db_GetBlock D (fc_BlockHash cert) d of
                    Inl er \<Rightarrow> Some er
                  | Inr None \<Rightarrow> Some BodyMissing
                  | Inr (Some block) \<Rightarrow>
                      if height_of block \<noteq> fc_Height cert \<or> block_Hash K block \<noteq> fc_BlockHash cert then Some BodyMismatch else None)"

definition restoreFinalityCertificate :: "lib \<Rightarrow> finality_cfg \<Rightarrow> 'd finality_db \<Rightarrow> int \<Rightarrow> FinalityCommitteeMigration option
    \<Rightarrow> ValidatorPubKey list \<Rightarrow> ValidatorPubKey list \<Rightarrow> 'd Engine \<Rightarrow> finality_error + 'd Engine" where
  "restoreFinalityCertificate K C D thresholdPPM migration authorities active e =
     (let configured = migration \<noteq> None \<or> authorities \<noteq> [] in
      case en_store e of
        None \<Rightarrow> if configured then Inl MigrationConfig else Inr e
      | Some d \<Rightarrow>
          case LoadFinalityCertificate D d of
            Inl er \<Rightarrow> Inl er
          | Inr None \<Rightarrow> if configured then Inl MigrationConfig else Inr e
          | Inr (Some cert) \<Rightarrow>
              case certificate_bound K D cert d (en_chain e) of
                Some er \<Rightarrow> Inl er
              | None \<Rightarrow>
                  case (case migration of
                      Some m \<Rightarrow> verifyFinalityCommitteeMigration K C D thresholdPPM m authorities cert d (en_chain e)
                    | None \<Rightarrow> if authorities \<noteq> [] then Inl MigrationConfig else Inr active) of
                    Inl er \<Rightarrow> Inl er
                  | Inr committee \<Rightarrow>
                      case check_votes (\<lambda>pub sig. vote_verifies K C pub (fc_Height cert) (fc_BlockHash cert) sig) committee (fc_Votes cert) {} of
                        None \<Rightarrow> Inl BadCertificateVote
                      | Some seen \<Rightarrow>
                          if card seen < needed_votes C (length committee) then Inl QuorumMissing
                          else Inr (e\<lparr>en_finalized := insert (fc_Height cert) (en_finalized e),
                            en_lpodFinalizedHashes := (en_lpodFinalizedHashes e)(fc_Height cert \<mapsto> fc_BlockHash cert)\<rparr>))"

subsection \<open>Double signing\<close>

record DoubleSignEvidence =
  ds_Height :: u64
  ds_Round1 :: u32
  ds_Validator :: ValidatorPubKey
  ds_Hash1 :: hash32
  ds_Sig1 :: bytes
  ds_Round2 :: u32
  ds_Hash2 :: hash32
  ds_Sig2 :: bytes

record signedSlot =
  ss_hash :: hash32
  ss_sig :: bytes
  ss_round :: u32

type_synonym slashingDetector = "u64 \<times> string \<rightharpoonup> signedSlot"

definition newSlashingDetector :: slashingDetector where
  "newSlashingDetector = Map.empty"

definition PruneBelow :: "u64 \<Rightarrow> slashingDetector \<Rightarrow> slashingDetector" where
  "PruneBelow height sd = (\<lambda>k. if fst k < height then None else sd k)"

definition CheckBlock :: "u64 \<Rightarrow> u32 \<Rightarrow> ValidatorPubKey \<Rightarrow> hash32 \<Rightarrow> bytes \<Rightarrow> slashingDetector
    \<Rightarrow> slashingDetector \<times> DoubleSignEvidence option" where
  "CheckBlock height rnd pub h sig sd =
     (let key = (height, pub_ID pub) in
      case sd key of
        None \<Rightarrow>
          let sd = sd(key \<mapsto> \<lparr>ss_hash = h, ss_sig = sig, ss_round = rnd\<rparr>)
          in (if 2048 < height then PruneBelow (height - 2048) sd else sd, None)
      | Some prev \<Rightarrow>
          if ss_hash prev = h then (sd, None)
          else (sd, Some \<lparr>ds_Height = height, ds_Round1 = ss_round prev, ds_Validator = pub, ds_Hash1 = ss_hash prev,
                  ds_Sig1 = ss_sig prev, ds_Round2 = rnd, ds_Hash2 = h, ds_Sig2 = sig\<rparr>))"

subsection \<open>Start and restart\<close>

definition new_engine :: "Chain \<Rightarrow> 'd option \<Rightarrow> FinalizeMsg list \<Rightarrow> 'd Engine" where
  "new_engine c store cast = \<lparr>en_chain = c, en_votes = Map.empty, en_finalized = {}, en_pendingVoteHeight = Map.empty,
     en_futureVotes = [], en_latestLocalVote = None, en_lpodFinalizedHashes = Map.empty, en_halted = False,
     en_store = store, en_cast = cast\<rparr>"

text \<open>A node that cannot restore its certificate or its own vote stays halted.\<close>

definition boot_engine :: "lib \<Rightarrow> finality_cfg \<Rightarrow> 'd finality_db \<Rightarrow> ValidatorPubKey list \<Rightarrow> Chain \<Rightarrow> 'd option \<Rightarrow> FinalizeMsg list
    \<Rightarrow> 'd Engine" where
  "boot_engine K C D active c store cast =
     (let e = new_engine c store cast;
          e = (case restoreFinalityCertificate K C D 0 None [] active e of Inl _ \<Rightarrow> e\<lparr>en_halted := True\<rparr> | Inr e' \<Rightarrow> e')
      in case restoreLocalFinalityVote K C D active e of Inl _ \<Rightarrow> e\<lparr>en_halted := True\<rparr> | Inr e' \<Rightarrow> e')"

text \<open>What may happen to the engine while the validator set \<open>V\<close> is in force: votes from the network, the arrival of a
  block with votes staged for it, the node's own vote, any change of the chain, and restarts.  \<open>M\<close> are the votes in
  circulation, those that were sent by anybody and those of the certificates that nodes load from their disks, and \<open>B\<close> the blocks in
  circulation, those that a node has on its chain or on its disk.\<close>

definition chain_known :: "Block set \<Rightarrow> Chain \<Rightarrow> bool" where
  "chain_known B c \<longleftrightarrow> (\<forall>h b. GetByHeight c h = Some b \<longrightarrow> b \<in> B) \<and> (\<forall>b. ch_tip c = Some b \<longrightarrow> b \<in> B)"

definition cert_vote :: "FinalityCertificate \<Rightarrow> FinalityVote \<Rightarrow> FinalizeMsg" where
  "cert_vote cert v = \<lparr>fm_BlockHash = fc_BlockHash cert, fm_Height = fc_Height cert, fm_ValidatorPub = fv_Validator v, fm_Signature = fv_Signature v\<rparr>"

definition store_known :: "'d finality_db \<Rightarrow> FinalizeMsg set \<Rightarrow> Block set \<Rightarrow> 'd option \<Rightarrow> bool" where
  "store_known D M B store \<longleftrightarrow> (\<forall>d cert. store = Some d \<longrightarrow> LoadFinalityCertificate D d = Inr (Some cert) \<longrightarrow>
     cert_vote cert ` set (fc_Votes cert) \<subseteq> M \<and> (\<forall>b. db_GetBlock D (fc_BlockHash cert) d = Inr (Some b) \<longrightarrow> b \<in> B))"

definition own_vote :: "lib \<Rightarrow> finality_cfg \<Rightarrow> ValidatorPubKey \<Rightarrow> Block \<Rightarrow> bytes \<Rightarrow> FinalizeMsg" where
  "own_vote K C me b sig = \<lparr>fm_BlockHash = block_Hash K b, fm_Height = height_of b,
     fm_ValidatorPub = LocalIdentity (cfg_fork C) me (height_of b), fm_Signature = sig\<rparr>"

inductive net_reach :: "lib \<Rightarrow> finality_cfg \<Rightarrow> 'd finality_db \<Rightarrow> ValidatorPubKey list \<Rightarrow> FinalizeMsg set \<Rightarrow> Block set \<Rightarrow> 'd Engine \<Rightarrow> bool"
  for K :: lib and C :: finality_cfg and D :: "'d finality_db" and V :: "ValidatorPubKey list" and M :: "FinalizeMsg set" and B :: "Block set" where
  boot: "\<lbrakk>chain_known B c; store_known D M B store\<rbrakk> \<Longrightarrow> net_reach K C D V M B (boot_engine K C D V c store [])"
| restart: "\<lbrakk>net_reach K C D V M B e; chain_known B c; store_known D M B (en_store e)\<rbrakk>
    \<Longrightarrow> net_reach K C D V M B (boot_engine K C D V c (en_store e) (en_cast e))"
| vote: "\<lbrakk>net_reach K C D V M B e; v \<in> M\<rbrakk> \<Longrightarrow> net_reach K C D V M B (fst (handleVote K C D V v e))"
| arrival: "net_reach K C D V M B e \<Longrightarrow> net_reach K C D V M B (replayFutureVotes K C D V b e)"
| own: "\<lbrakk>net_reach K C D V M B e; \<forall>sig. sign (vote_message K (block_Hash K b)) = Some sig \<longrightarrow> own_vote K C me b sig \<in> M\<rbrakk>
    \<Longrightarrow> net_reach K C D V M B (fst (castVote K C D V me sign b e))"
| chain: "\<lbrakk>net_reach K C D V M B e; chain_known B c\<rbrakk> \<Longrightarrow> net_reach K C D V M B (e\<lparr>en_chain := c\<rparr>)"
| latest: "net_reach K C D V M B e \<Longrightarrow> net_reach K C D V M B (fst (LatestLocalVote K D e))"

text \<open>With no restriction on what circulates.\<close>

abbreviation fin_reach :: "lib \<Rightarrow> finality_cfg \<Rightarrow> 'd finality_db \<Rightarrow> ValidatorPubKey list \<Rightarrow> 'd Engine \<Rightarrow> bool" where
  "fin_reach K C D V \<equiv> net_reach K C D V UNIV UNIV"

section \<open>Quorums\<close>

text \<open>Rounding to the nearest double is monotone and exact on integers up to \<open>2 ^ 53\<close>.\<close>

definition rounding_ok :: "finality_cfg \<Rightarrow> bool" where
  "rounding_ok C \<longleftrightarrow> mono (cfg_round C) \<and> (\<forall>n :: nat. n \<le> 2 ^ 53 \<longrightarrow> cfg_round C (real n) = real n)"

definition bft_config :: "finality_cfg \<Rightarrow> ValidatorPubKey list \<Rightarrow> bool" where
  "bft_config C V \<longleftrightarrow> rounding_ok C \<and> 2 / 3 \<le> cfg_BFTThreshold C \<and> distinct V \<and> length V \<le> 2 ^ 53"

lemma needed_votes_two_thirds:
  assumes "bft_config C V"
  shows "2 * length V < 3 * needed_votes C (length V)"
proof -
  let ?n = "length V" let ?k = "2 * ?n div 3"
  have c: "rounding_ok C" "2 / 3 \<le> cfg_BFTThreshold C" "?n \<le> 2 ^ 53" using assms by (auto simp: bft_config_def)
  have "real ?k \<le> 2 * real ?n / 3" by (simp add: le_divide_eq)
  also have "\<dots> \<le> real ?n * cfg_BFTThreshold C" using mult_left_mono [OF c(2), of "real ?n"] by (simp add: field_simps)
  finally have "cfg_round C (real ?k) \<le> cfg_round C (real ?n * cfg_BFTThreshold C)" using c(1) by (simp add: rounding_ok_def monoD)
  moreover have "cfg_round C (real ?k) = real ?k" using c(1,3) unfolding rounding_ok_def by auto
  ultimately have "?k \<le> nat \<lfloor>cfg_round C (real ?n * cfg_BFTThreshold C)\<rfloor>" by (simp add: le_nat_floor)
  then show ?thesis by (simp add: needed_votes_def)
qed

definition finality_quorum :: "finality_cfg \<Rightarrow> ValidatorPubKey list \<Rightarrow> ValidatorPubKey set \<Rightarrow> bool" where
  "finality_quorum C V Q \<longleftrightarrow> bft_config C V \<and> Q \<subseteq> set V \<and> needed_votes C (length V) \<le> card Q"

interpretation vote_quorum: supermajority "set V" "finality_quorum C V"
proof
  fix Q assume Q: "finality_quorum C V Q"
  then have "distinct V" "2 * length V < 3 * needed_votes C (length V)"
    using needed_votes_two_thirds by (auto simp: finality_quorum_def bft_config_def)
  then show "2 * card (set V) < 3 * card Q" using Q by (simp add: finality_quorum_def distinct_card)
qed (auto simp: finality_quorum_def)

section \<open>Finality needs a quorum of valid votes\<close>

text \<open>The validator \<open>pub\<close> has sent a valid vote for the block with hash \<open>x\<close>.\<close>

definition has_signed :: "lib \<Rightarrow> finality_cfg \<Rightarrow> FinalizeMsg set \<Rightarrow> ValidatorPubKey \<Rightarrow> hash32 \<Rightarrow> bool" where
  "has_signed K C M pub x \<longleftrightarrow> (\<exists>v \<in> M. fm_ValidatorPub v = pub \<and> fm_BlockHash v = x \<and> vote_verifies K C pub (fm_Height v) x (fm_Signature v))"

definition vote_entry_ok :: "lib \<Rightarrow> finality_cfg \<Rightarrow> ValidatorPubKey list \<Rightarrow> FinalizeMsg set \<Rightarrow> hash32 \<Rightarrow> string \<times> bytes \<Rightarrow> bool" where
  "vote_entry_ok K C V M x p \<longleftrightarrow> (\<exists>pub \<in> set V. fst p = pub_Hex pub \<and> has_signed K C M pub x)"

definition certified :: "lib \<Rightarrow> finality_cfg \<Rightarrow> ValidatorPubKey list \<Rightarrow> FinalizeMsg set \<Rightarrow> Block set \<Rightarrow> u64 \<Rightarrow> hash32 \<Rightarrow> bool" where
  "certified K C V M B h x \<longleftrightarrow> (\<exists>b \<in> B. block_Hash K b = x \<and> height_of b = h) \<and>
     (\<exists>Q \<subseteq> set V. needed_votes C (length V) \<le> card Q \<and> (\<forall>pub \<in> Q. has_signed K C M pub x))"

definition engine_ok :: "lib \<Rightarrow> finality_cfg \<Rightarrow> ValidatorPubKey list \<Rightarrow> FinalizeMsg set \<Rightarrow> Block set \<Rightarrow> 'd Engine \<Rightarrow> bool" where
  "engine_ok K C V M B e \<longleftrightarrow> chain_known B (en_chain e) \<and> snd ` set (en_futureVotes e) \<subseteq> M \<and>
     (\<forall>x al. en_votes e x = Some al \<longrightarrow> distinct (map fst al) \<and> (\<forall>p \<in> set al. vote_entry_ok K C V M x p)) \<and>
     (\<forall>h x. en_lpodFinalizedHashes e h = Some x \<longrightarrow> certified K C V M B h x)"

text \<open>The staged votes are visited in some order.\<close>

definition order_ok :: "finality_cfg \<Rightarrow> bool" where
  "order_ok C \<longleftrightarrow> (\<forall>vs. set (cfg_future_order C vs) \<subseteq> set vs)"

lemma pub_Hex_inject [simp]: "pub_Hex a = pub_Hex b \<longleftrightarrow> a = b"
  by (simp add: pub_Hex_def hex_encode_inj)

lemma collected_quorum:
  assumes "distinct (map fst al)" and "\<forall>p \<in> set al. vote_entry_ok K C V M x p"
  shows "\<exists>Q \<subseteq> set V. card Q = length al \<and> (\<forall>pub \<in> Q. has_signed K C M pub x)"
proof -
  let ?Q = "{pub \<in> set V. pub_Hex pub \<in> fst ` set al}"
  have img: "pub_Hex ` ?Q = fst ` set al" using assms(2) by (force simp: vote_entry_ok_def)
  have "card ?Q = card (pub_Hex ` ?Q)" by (rule card_image [symmetric]) (simp add: inj_on_def)
  also have "\<dots> = length al" unfolding img using distinct_card [OF assms(1)] by simp
  finally have card: "card ?Q = length al" .
  have ok: "\<forall>pub \<in> ?Q. has_signed K C M pub x"
    using assms(2) by (fastforce simp: vote_entry_ok_def)
  show ?thesis by (rule exI [of _ ?Q], intro conjI card ok) blast
qed

lemma engine_ok_frame [simp]:
  "engine_ok K C V M B (e\<lparr>en_store := s\<rparr>) = engine_ok K C V M B e"
  "engine_ok K C V M B (e\<lparr>en_halted := b\<rparr>) = engine_ok K C V M B e"
  "engine_ok K C V M B (e\<lparr>en_latestLocalVote := l\<rparr>) = engine_ok K C V M B e" "engine_ok K C V M B (e\<lparr>en_cast := vs\<rparr>) = engine_ok K C V M B e"
  by (simp_all add: engine_ok_def)

lemma prune_ok: "engine_ok K C V M B e \<Longrightarrow> engine_ok K C V M B (prune_votes h e)"
  by (auto simp: engine_ok_def prune_votes_def Let_def split: if_splits)

lemma record_ok:
  assumes "engine_ok K C V M B e" and "vote_entry_ok K C V M (fm_BlockHash v) (pub_Hex (fm_ValidatorPub v), fm_Signature v)" and "\<not> has_voted v e"
  shows "engine_ok K C V M B (record_vote v e)" and "\<exists>al. en_votes (record_vote v e) (fm_BlockHash v) = Some al"
  using assms by (auto simp: engine_ok_def record_vote_def has_voted_def split: option.splits if_splits)

lemma save_certificate_store: "save_certificate D c e = Inr e' \<Longrightarrow> \<exists>s. e' = e\<lparr>en_store := s\<rparr>"
  by (auto simp: save_certificate_def split: option.splits sum.splits intro: exI [of _ "en_store e"])

lemma finalize_ok:
  assumes "engine_ok K C V M B e" and "certified K C V M B (fm_Height v) (fm_BlockHash v)" and "finalize C D v al e = Inr e'"
  shows "engine_ok K C V M B e'"
proof -
  obtain c e1 where e1: "save_certificate D c e = Inr e1" and e': "e' = e1\<lparr>en_finalized := insert (fm_Height v) (en_finalized e1),
      en_lpodFinalizedHashes := (en_lpodFinalizedHashes e1)(fm_Height v \<mapsto> fm_BlockHash v),
      en_votes := (en_votes e1)(fm_BlockHash v := None),
      en_pendingVoteHeight := (en_pendingVoteHeight e1)(fm_BlockHash v := None)\<rparr>"
    using assms(3) by (auto simp: finalize_def split: sum.splits)
  have "engine_ok K C V M B e1" using save_certificate_store [OF e1] assms(1) by auto
  then show ?thesis using assms(2) unfolding e' by (auto simp: engine_ok_def)
qed

lemma count_vote_ok:
  assumes "engine_ok K C V M B e" and "vote_entry_ok K C V M (fm_BlockHash v) (pub_Hex (fm_ValidatorPub v), fm_Signature v)"
    and "\<exists>b \<in> B. block_Hash K b = fm_BlockHash v \<and> height_of b = fm_Height v"
  shows "engine_ok K C V M B (fst (count_vote C D V v e))"
proof (cases "fm_Height v \<in> en_finalized e \<or> has_voted v e")
  case False
  let ?e = "record_vote v e"
  have r: "engine_ok K C V M B ?e" using record_ok(1) [OF assms(1,2)] False by blast
  obtain al where al: "en_votes ?e (fm_BlockHash v) = Some al" using record_ok(2) [OF assms(1,2)] False by blast
  have d: "distinct (map fst al)" "\<forall>p \<in> set al. vote_entry_ok K C V M (fm_BlockHash v) p" using r al unfolding engine_ok_def by blast+
  obtain Q where Q: "Q \<subseteq> set V" "card Q = length al" "\<forall>pub \<in> Q. has_signed K C M pub (fm_BlockHash v)"
    using collected_quorum [OF d] by (elim exE conjE)
  have "certified K C V M B (fm_Height v) (fm_BlockHash v)" if "needed_votes C (length V) \<le> length al"
    unfolding certified_def using that Q(2) by (intro conjI assms(3) exI [of _ Q] Q(1,3)) simp
  then show ?thesis
    using False r al by (auto simp: count_vote_def Let_def split: sum.splits intro: prune_ok finalize_ok [OF r])
qed (auto simp: count_vote_def assms(1))

lemma handleVote_ok:
  assumes e: "engine_ok K C V M B e" and "v \<in> M"
  shows "engine_ok K C V M B (fst (handleVote K C D V v e))"
proof -
  have known: "vote_entry_ok K C V M (fm_BlockHash v) (pub_Hex (fm_ValidatorPub v), fm_Signature v)"
    if "isKnownValidator V (fm_ValidatorPub v)" "vote_verifies K C (fm_ValidatorPub v) (fm_Height v) (fm_BlockHash v) (fm_Signature v)"
    using that assms(2) by (auto simp: vote_entry_ok_def isKnownValidator_def list_ex_iff has_signed_def)
  have staged: "engine_ok K C V M B (fst (stage_vote v e))"
    using assms by (auto simp: stage_vote_def engine_ok_def Let_def split: option.splits)
  have block: "\<exists>b \<in> B. block_Hash K b = fm_BlockHash v \<and> height_of b = fm_Height v"
    if "GetByHeight (en_chain e) (fm_Height v) = Some b" "block_Hash K b = fm_BlockHash v" "height_of b = fm_Height v" for b
    using that e unfolding engine_ok_def chain_known_def by blast
  show ?thesis
    using e known staged block count_vote_ok [OF e]
    by (auto simp: handleVote_def split: option.splits)
qed

lemma castVote_ok:
  assumes "engine_ok K C V M B e" and "\<forall>sig. sign (vote_message K (block_Hash K b)) = Some sig \<longrightarrow> own_vote K C me b sig \<in> M"
  shows "engine_ok K C V M B (fst (castVote K C D V me sign b e))"
proof (cases "sign (vote_message K (block_Hash K b))")
  case (Some sig)
  obtain e1 r where h: "handleVote K C D V (own_vote K C me b sig) e = (e1, r)" by fastforce
  then have "engine_ok K C V M B e1" using handleVote_ok [OF assms(1), of "own_vote K C me b sig" D] assms(2) Some by simp
  then show ?thesis using h Some by (auto simp: castVote_def own_vote_def Let_def split: option.splits sum.splits)
qed (use assms(1) in \<open>simp add: castVote_def\<close>)

lemma replay_ok:
  assumes "engine_ok K C V M B e" and "order_ok C"
  shows "engine_ok K C V M B (replayFutureVotes K C D V b e)"
proof -
  let ?e = "e\<lparr>en_futureVotes := filter (\<lambda>((h, _, _), v). height_of b < h) (en_futureVotes e)\<rparr>"
  let ?vs = "filter (\<lambda>((h, bh, _), v). h = height_of b \<and> bh = block_Hash K b) (cfg_future_order C (en_futureVotes e))"
  have run: "engine_ok K C V M B e' \<Longrightarrow> snd ` set vs \<subseteq> M \<Longrightarrow> engine_ok K C V M B (fold (\<lambda>(_, v) e. fst (handleVote K C D V v e)) vs e')"
    for vs :: "(futureVoteKey \<times> FinalizeMsg) list" and e'
    by (induction vs arbitrary: e') (auto simp: handleVote_ok)
  have staged: "snd ` set (en_futureVotes e) \<subseteq> M" using assms(1) by (simp add: engine_ok_def)
  have "engine_ok K C V M B ?e" using assms(1) unfolding engine_ok_def by fastforce
  moreover have "snd ` set ?vs \<subseteq> M" using staged assms(2) unfolding order_ok_def by fastforce
  ultimately show ?thesis unfolding replayFutureVotes_def Let_def by (rule run)
qed

lemma check_votes_Some:
  assumes "check_votes ok committee vs seen = Some seen'"
  shows "seen \<subseteq> seen' \<and> (\<forall>id \<in> seen' - seen. \<exists>v \<in> set vs. fv_Validator v \<in> set committee \<and> id = pub_Hex (fv_Validator v) \<and>
    ok (fv_Validator v) (fv_Signature v))"
  using assms
proof (induction vs arbitrary: seen)
  case (Cons v vs)
  then have v: "pub_Hex (fv_Validator v) \<in> pub_Hex ` set committee" "ok (fv_Validator v) (fv_Signature v)"
    and rest: "check_votes ok committee vs (insert (pub_Hex (fv_Validator v)) seen) = Some seen'"
    by (auto simp: Let_def split: if_splits)
  have "fv_Validator v \<in> set committee" using v(1) by auto
  then show ?case using Cons.IH [OF rest] v(2) by fastforce
qed simp

lemma restore_certified:
  assumes "restoreFinalityCertificate K C D 0 None [] V e = Inr e'" and ok: "engine_ok K C V M B e" and known: "store_known D M B (en_store e)"
  shows "engine_ok K C V M B e'"
proof (cases "e' = e")
  case False
  then obtain d cert seen where cert: "en_store e = Some d" "LoadFinalityCertificate D d = Inr (Some cert)"
    and d: "certificate_bound K D cert d (en_chain e) = None"
    and seen: "check_votes (\<lambda>pub sig. vote_verifies K C pub (fc_Height cert) (fc_BlockHash cert) sig) V (fc_Votes cert) {} = Some seen"
    and n: "needed_votes C (length V) \<le> card seen"
    and e': "e' = e\<lparr>en_finalized := insert (fc_Height cert) (en_finalized e),
        en_lpodFinalizedHashes := (en_lpodFinalizedHashes e)(fc_Height cert \<mapsto> fc_BlockHash cert)\<rparr>"
    using assms(1) by (auto simp: restoreFinalityCertificate_def Let_def not_less split: option.splits sum.splits if_splits)
  have M: "cert_vote cert ` set (fc_Votes cert) \<subseteq> M" "\<And>b. db_GetBlock D (fc_BlockHash cert) d = Inr (Some b) \<Longrightarrow> b \<in> B"
    using known cert unfolding store_known_def by blast+
  have "\<And>b. ch_tip (en_chain e) = Some b \<Longrightarrow> b \<in> B" using ok unfolding engine_ok_def chain_known_def by blast
  then have block: "\<exists>b \<in> B. block_Hash K b = fc_BlockHash cert \<and> height_of b = fc_Height cert"
    using d M(2) by (auto simp: certificate_bound_def split: option.splits if_splits sum.splits prod.splits)
  let ?Q = "{pub \<in> set V. pub_Hex pub \<in> seen}"
  have voted: "\<forall>n \<in> seen. \<exists>v \<in> set (fc_Votes cert). fv_Validator v \<in> set V \<and> n = pub_Hex (fv_Validator v) \<and>
      vote_verifies K C (fv_Validator v) (fc_Height cert) (fc_BlockHash cert) (fv_Signature v)"
    using check_votes_Some [OF seen] by simp
  have cv: "\<exists>pub \<in> set V. n = pub_Hex pub \<and> has_signed K C M pub (fc_BlockHash cert)" if n: "n \<in> seen" for n
  proof -
    obtain v where "v \<in> set (fc_Votes cert)" "fv_Validator v \<in> set V" "n = pub_Hex (fv_Validator v)"
      "vote_verifies K C (fv_Validator v) (fc_Height cert) (fc_BlockHash cert) (fv_Signature v)"
      using bspec [OF voted n] by (elim bexE conjE)
    moreover from this(1) have "cert_vote cert v \<in> M" using M(1) by blast
    ultimately show ?thesis unfolding has_signed_def by (force simp: cert_vote_def)
  qed
  have img: "pub_Hex ` ?Q = seen" using cv by fastforce
  have "card ?Q = card seen" using card_image [of pub_Hex ?Q] img by (simp add: inj_on_def)
  moreover have "\<forall>pub \<in> ?Q. has_signed K C M pub (fc_BlockHash cert)" using cv by fastforce
  ultimately have "certified K C V M B (fc_Height cert) (fc_BlockHash cert)"
    unfolding certified_def using n by (intro conjI block exI [of _ ?Q]) auto
  then show ?thesis using ok unfolding e' by (auto simp: engine_ok_def)
qed (use ok in simp)

lemma boot_ok:
  assumes "chain_known B c" and "store_known D M B store"
  shows "engine_ok K C V M B (boot_engine K C D V c store cast)"
proof -
  let ?e = "new_engine c store cast"
  have new: "engine_ok K C V M B ?e" "store_known D M B (en_store ?e)" using assms by (simp_all add: engine_ok_def new_engine_def)
  have local: "engine_ok K C V M B (case restoreLocalFinalityVote K C D V e of Inl _ \<Rightarrow> e\<lparr>en_halted := True\<rparr> | Inr e' \<Rightarrow> e')"
    if "engine_ok K C V M B e" for e
    using that by (auto simp: restoreLocalFinalityVote_def split: option.splits sum.splits)
  show ?thesis unfolding boot_engine_def Let_def
    by (rule local) (use new restore_certified [OF _ new] in \<open>auto split: sum.splits\<close>)
qed

lemma net_reach_ok:
  assumes "net_reach K C D V M B e" and "order_ok C"
  shows "engine_ok K C V M B e"
  using assms(1)
proof (induction rule: net_reach.induct)
  case (chain e c)
  then show ?case by (simp add: engine_ok_def)
next
  case (latest e)
  then show ?case by (auto simp: LatestLocalVote_def split: option.splits)
qed (use assms(2) in \<open>auto intro: boot_ok handleVote_ok replay_ok castVote_ok\<close>)

text \<open>Two blocks of one height that both have a quorum share more than a third of the validators, and each of these
  has sent valid votes for both.\<close>

lemma certified_culprits:
  assumes "bft_config C V" and "certified K C V M B h x" and "certified K C V M B h y"
  shows "\<exists>Q \<subseteq> set V. card (set V) < 3 * card Q \<and> (\<forall>pub \<in> Q. has_signed K C M pub x \<and> has_signed K C M pub y)"
proof -
  obtain P Q where P: "P \<subseteq> set V" "needed_votes C (length V) \<le> card P" "\<forall>pub \<in> P. has_signed K C M pub x"
    and Q: "Q \<subseteq> set V" "needed_votes C (length V) \<le> card Q" "\<forall>pub \<in> Q. has_signed K C M pub y"
    using assms(2,3) unfolding certified_def by blast
  have "finality_quorum C V P" "finality_quorum C V Q" using P Q assms(1) by (simp_all add: finality_quorum_def)
  from vote_quorum.quorum_overlap [OF this] show ?thesis using P Q by (intro exI [of _ "P \<inter> Q"]) auto
qed

text \<open>C11: Finality is agreed, or the culprits are known.  Take two nodes with the same validator set, which does not change, and a threshold of at least two thirds, whatever
  votes they have received, in whatever order, and however often they restarted.  If they hold different finalized blocks for a
  height, then more than a third of the validators have each sent valid votes for both blocks, and both are blocks of
  that height.  So as long as at most a third of the validators vote for two blocks of one height, the nodes agree.\<close>

theorem finality_agreement:
  assumes "bft_config C V" and "order_ok C" and "net_reach K C D V M B e" and "net_reach K C D' V M B e'"
    and "en_lpodFinalizedHashes e h = Some x" and "en_lpodFinalizedHashes e' h = Some y"
  shows "x = y \<or>
    (\<exists>Q \<subseteq> set V. card (set V) < 3 * card Q \<and> (\<forall>pub \<in> Q. has_signed K C M pub x \<and> has_signed K C M pub y)) \<and>
    (\<exists>b \<in> B. \<exists>b' \<in> B. block_Hash K b = x \<and> block_Hash K b' = y \<and> height_of b = h \<and> height_of b' = h)"
proof -
  have c: "certified K C V M B h x" "certified K C V M B h y"
    using net_reach_ok [OF assms(3,2)] net_reach_ok [OF assms(4,2)] assms(5,6) unfolding engine_ok_def by blast+
  show ?thesis using certified_culprits [OF assms(1) c] c unfolding certified_def by blast
qed

section \<open>The node never contradicts itself\<close>

text \<open>What is relied on of the database: a written record is read back, and the other one is untouched.\<close>

definition db_ok :: "'d finality_db \<Rightarrow> bool" where
  "db_ok D \<longleftrightarrow> (\<forall>v d d'. db_put_vote D v d = Inr d' \<longrightarrow> db_vote D d' = Inr (Some v)) \<and>
     (\<forall>c d d'. db_put_cert D c d = Inr d' \<longrightarrow> db_cert D d' = Inr (Some c) \<and> db_vote D d' = db_vote D d)"

text \<open>The saved vote is the last of the votes that were sent, and no two of them contradict each other.\<close>

definition saved_last :: "'d finality_db \<Rightarrow> 'd \<Rightarrow> FinalizeMsg list \<Rightarrow> bool" where
  "saved_last D d vs \<longleftrightarrow> (vs \<noteq> [] \<longrightarrow> (\<exists>s. LoadLocalFinalityVote D d = Inr (Some s) \<and>
     (\<forall>v \<in> set vs. fm_Height v < lv_Height s \<or> fm_Height v = lv_Height s \<and> fm_BlockHash v = lv_BlockHash s)))"

definition consistent_votes :: "FinalizeMsg list \<Rightarrow> bool" where
  "consistent_votes vs \<longleftrightarrow> (\<forall>v \<in> set vs. \<forall>w \<in> set vs. fm_Height v = fm_Height w \<longrightarrow> fm_BlockHash v = fm_BlockHash w)"

definition cast_ok :: "'d finality_db \<Rightarrow> 'd Engine \<Rightarrow> bool" where
  "cast_ok D e \<longleftrightarrow> (\<exists>d. en_store e = Some d \<and> saved_last D d (en_cast e)) \<and> consistent_votes (en_cast e)"

lemma consistent_snoc:
  assumes "consistent_votes vs" and "\<forall>w \<in> set vs. fm_Height w < fm_Height v \<or> fm_Height w = fm_Height v \<and> fm_BlockHash w = fm_BlockHash v"
  shows "consistent_votes (vs @ [v])"
  unfolding consistent_votes_def
proof (intro ballI impI)
  fix a b assume ab: "a \<in> set (vs @ [v])" "b \<in> set (vs @ [v])" "fm_Height a = fm_Height b"
  have w: "fm_BlockHash w = fm_BlockHash v" if "w \<in> set vs" "fm_Height w = fm_Height v" for w
    using bspec [OF assms(2) that(1)] that(2) by simp
  have c: "fm_BlockHash x = fm_BlockHash y" if "x \<in> set vs" "y \<in> set vs" "fm_Height x = fm_Height y" for x y
    using assms(1) that unfolding consistent_votes_def by blast
  from ab(1,2) consider "a \<in> set vs" "b \<in> set vs" | "a \<in> set vs" "b = v" | "a = v" "b \<in> set vs" | "a = v" "b = v" by auto
  then show "fm_BlockHash a = fm_BlockHash b"
    using ab(3) w [of a] w [of b] c [of a b] by cases simp_all
qed

definition same_votes :: "'d finality_db \<Rightarrow> 'd Engine \<Rightarrow> 'd Engine \<Rightarrow> bool" where
  "same_votes D e e' \<longleftrightarrow> en_cast e' = en_cast e \<and>
     (case en_store e of None \<Rightarrow> en_store e' = None | Some d \<Rightarrow> \<exists>d'. en_store e' = Some d' \<and> db_vote D d' = db_vote D d)"

lemma same_votes_cast: "same_votes D e e' \<Longrightarrow> cast_ok D e \<Longrightarrow> cast_ok D e'"
  by (auto simp: same_votes_def cast_ok_def saved_last_def LoadLocalFinalityVote_def)

lemma same_votes_refl [simp]: "same_votes D e e"
  by (auto simp: same_votes_def split: option.splits)

lemma same_votes_trans: "same_votes D e e' \<Longrightarrow> same_votes D e' e'' \<Longrightarrow> same_votes D e e''"
  by (auto simp: same_votes_def split: option.splits)

lemma finalize_same:
  assumes "db_ok D" and "finalize C D v al e = Inr e'"
  shows "same_votes D e e'"
proof -
  have "same_votes D e e1" if "save_certificate D c e = Inr e1" for c e1
    using that assms(1) by (auto simp: save_certificate_def SaveFinalityCertificate_def same_votes_def db_ok_def
        split: option.splits sum.splits if_splits)
  then show ?thesis using assms(2)
    by (fastforce simp: finalize_def same_votes_def split: sum.splits option.splits)
qed

lemma record_prune_same: "same_votes D e (record_vote v e)" "same_votes D e (prune_votes h e)"
  by (auto simp: same_votes_def record_vote_def prune_votes_def Let_def split: option.splits)

lemma handleVote_same:
  assumes "db_ok D"
  shows "same_votes D e (fst (handleVote K C D V v e))"
proof -
  have "same_votes D e (fst (count_vote C D V v e))"
  proof -
    let ?e = "record_vote v e"
    have r: "same_votes D e ?e" by (rule record_prune_same)
    have "same_votes D e (prune_votes h e')" if "finalize C D v al ?e = Inr e'" for h e' al
      by (rule same_votes_trans [OF same_votes_trans [OF r finalize_same [OF assms that]] record_prune_same(2)])
    moreover have "same_votes D e (prune_votes h ?e)" for h by (rule same_votes_trans [OF r record_prune_same(2)])
    ultimately show ?thesis using r unfolding count_vote_def Let_def by (simp split: sum.splits)
  qed
  moreover have "same_votes D e (fst (stage_vote v e))"
    by (auto simp: stage_vote_def Let_def same_votes_def split: option.splits)
  ultimately show ?thesis by (auto simp: handleVote_def split: option.splits)
qed

lemma replay_same:
  assumes "db_ok D"
  shows "same_votes D e (replayFutureVotes K C D V b e)"
proof -
  have "same_votes D e (fold (\<lambda>(_, v) e. fst (handleVote K C D V v e)) vs e)" for vs e
  proof (induction vs arbitrary: e)
    case (Cons a vs)
    show ?case using same_votes_trans [OF handleVote_same [OF assms] Cons.IH] by (cases a) simp
  qed simp
  moreover have "same_votes D e (e\<lparr>en_futureVotes := f\<rparr>)" for f by (auto simp: same_votes_def split: option.splits)
  ultimately show ?thesis unfolding replayFutureVotes_def Let_def by (blast intro: same_votes_trans)
qed

lemma castVote_cast:
  assumes "db_ok D" and "cast_ok D e"
  shows "cast_ok D (fst (castVote K C D V me sign b e))"
proof (cases "sign (vote_message K (block_Hash K b))")
  case (Some sig)
  let ?v = "\<lparr>fm_BlockHash = block_Hash K b, fm_Height = height_of b, fm_ValidatorPub = LocalIdentity (cfg_fork C) me (height_of b), fm_Signature = sig\<rparr>"
  let ?lv = "\<lparr>lv_Version = 1, lv_Height = height_of b, lv_BlockHash = block_Hash K b,
    lv_Validator = LocalIdentity (cfg_fork C) me (height_of b), lv_Signature = sig\<rparr>"
  obtain e1 r where e1: "handleVote K C D V ?v e = (e1, r)" by (metis surj_pair)
  have ok: "cast_ok D e1" using same_votes_cast [OF _ assms(2)] handleVote_same [OF assms(1), of e K C V ?v] e1 by simp
  then obtain d where d: "en_store e1 = Some d" by (auto simp: cast_ok_def)
  show ?thesis
  proof (cases r)
    case None
    show ?thesis
    proof (cases "SaveLocalFinalityVote D ?lv d")
      case (Inl er)
      then show ?thesis using Some e1 None d ok by (simp add: castVote_def Let_def cast_ok_def)
    next
      case (Inr d')
      then have put: "db_put_vote D ?lv d = Inr d'"
        and prior: "\<And>s. LoadLocalFinalityVote D d = Inr (Some s) \<Longrightarrow> \<not> height_of b < lv_Height s \<and>
          (height_of b = lv_Height s \<longrightarrow> block_Hash K b = lv_BlockHash s)"
        by (auto simp: SaveLocalFinalityVote_def split: if_splits sum.splits option.splits)
      have load: "LoadLocalFinalityVote D d' = Inr (Some ?lv)" using put assms(1) by (simp add: db_ok_def LoadLocalFinalityVote_def)
      have last: "fm_Height w < height_of b \<or> fm_Height w = height_of b \<and> fm_BlockHash w = block_Hash K b" if w: "w \<in> set (en_cast e1)" for w
      proof -
        have "saved_last D d (en_cast e1)" using ok d by (simp add: cast_ok_def)
        then obtain s where "LoadLocalFinalityVote D d = Inr (Some s)"
          "fm_Height w < lv_Height s \<or> fm_Height w = lv_Height s \<and> fm_BlockHash w = lv_BlockHash s"
          using w by (auto simp: saved_last_def)
        then show ?thesis using prior by (auto simp: not_less)
      qed
      have "saved_last D d' (en_cast e1 @ [?v])" using last load by (auto simp: saved_last_def)
      moreover have "consistent_votes (en_cast e1 @ [?v])"
        by (rule consistent_snoc) (use ok last in \<open>simp_all add: cast_ok_def\<close>)
      ultimately have "cast_ok D (e1\<lparr>en_store := Some d', en_latestLocalVote := Some ?v, en_cast := en_cast e1 @ [?v]\<rparr>)"
        by (simp add: cast_ok_def)
      then show ?thesis using Some e1 None d Inr by (simp add: castVote_def Let_def)
    qed
  qed (use Some e1 ok in \<open>simp add: castVote_def Let_def\<close>)
qed (use assms(2) in \<open>simp add: castVote_def\<close>)

lemma boot_cast: "en_cast (boot_engine K C D V c store vs) = vs" "en_store (boot_engine K C D V c store vs) = store"
proof -
  have r: "en_cast e' = en_cast e \<and> en_store e' = en_store e" if "restoreFinalityCertificate K C D 0 None [] V e = Inr e'" for e e'
    using that by (auto simp: restoreFinalityCertificate_def Let_def split: option.splits sum.splits if_splits)
  have l: "en_cast e' = en_cast e \<and> en_store e' = en_store e" if "restoreLocalFinalityVote K C D V e = Inr e'" for e e'
    using that by (auto simp: restoreLocalFinalityVote_def split: option.splits sum.splits if_splits)
  show "en_cast (boot_engine K C D V c store vs) = vs" "en_store (boot_engine K C D V c store vs) = store"
    by (auto simp: boot_engine_def Let_def new_engine_def split: sum.splits dest!: r l)
qed

lemma net_reach_cast:
  assumes "db_ok D" and "net_reach K C D V M B e"
  shows "en_store e = None \<or> cast_ok D e"
  using assms(2)
proof (induction rule: net_reach.induct)
  case (boot c store)
  then show ?case by (auto simp: cast_ok_def boot_cast saved_last_def consistent_votes_def)
next
  case (restart e c)
  then show ?case by (simp add: cast_ok_def boot_cast)
next
  case (vote e v)
  show ?case using vote.IH same_votes_cast [OF handleVote_same [OF assms(1)]] handleVote_same [OF assms(1), of e K C V v]
    by (auto simp: same_votes_def split: option.splits)
next
  case (arrival e b)
  show ?case using arrival.IH same_votes_cast [OF replay_same [OF assms(1)]] replay_same [OF assms(1), of e K C V b]
    by (auto simp: same_votes_def split: option.splits)
next
  case (own e sign b me)
  have "en_store (fst (castVote K C D V me sign b e)) = None" if n: "en_store e = None"
  proof -
    have h: "en_store (fst (handleVote K C D V v e)) = None" for v
      using handleVote_same [OF assms(1), of e K C V v] n by (simp add: same_votes_def)
    show ?thesis
    proof (cases "sign (vote_message K (block_Hash K b))")
      case (Some sig)
      let ?v = "\<lparr>fm_BlockHash = block_Hash K b, fm_Height = height_of b,
        fm_ValidatorPub = LocalIdentity (cfg_fork C) me (height_of b), fm_Signature = sig\<rparr>"
      show ?thesis using h [of ?v] Some
        by (cases "handleVote K C D V ?v e"; cases "snd (handleVote K C D V ?v e)") (simp_all add: castVote_def Let_def)
    qed (use n in \<open>simp add: castVote_def\<close>)
  qed
  then show ?case using own.IH castVote_cast [OF assms(1), of e K C V me sign b] by auto
next
  case (chain e c)
  then show ?case by (simp add: cast_ok_def)
next
  case (latest e)
  then show ?case by (auto simp: LatestLocalVote_def cast_ok_def split: option.splits)
qed

text \<open>C12: A node with a durable store never sends two finalization votes for different blocks of one height, not
  even across restarts: a vote is saved before it is sent, and a vote that contradicts or precedes
  the saved one is refused.\<close>

theorem own_votes_consistent:
  assumes "db_ok D" and "fin_reach K C D V e" and "en_store e \<noteq> None" and "v \<in> set (en_cast e)" and "w \<in> set (en_cast e)"
    and "fm_Height v = fm_Height w"
  shows "fm_BlockHash v = fm_BlockHash w"
proof -
  have "consistent_votes (en_cast e)" using net_reach_cast [OF assms(1,2)] assms(3) by (simp add: cast_ok_def)
  then show ?thesis using assms(4-6) unfolding consistent_votes_def by blast
qed

section \<open>Double signing\<close>

definition detector_runs :: "(u64 \<times> u32 \<times> ValidatorPubKey \<times> hash32 \<times> bytes) list \<Rightarrow> slashingDetector \<Rightarrow> slashingDetector" where
  "detector_runs bs sd = fold (\<lambda>(h, r, pub, x, sig) sd. fst (CheckBlock h r pub x sig sd)) bs sd"

lemma CheckBlock_keeps:
  assumes "sd (h, i) = Some slot" and "unat h' \<le> unat h + 2048"
  shows "fst (CheckBlock h' r pub x sig sd) (h, i) = Some slot"
proof -
  have "\<not> h < h' - 2048" if "2048 < h'"
    using that assms(2) by (auto simp: u64_less_iff unat_diff_u64 less_imp_le not_less)
  then show ?thesis using assms(1) by (auto simp: CheckBlock_def PruneBelow_def Let_def split: option.splits)
qed

lemma detector_keeps:
  assumes "sd (h, i) = Some slot" and "\<forall>(h', r, pub, x, sig) \<in> set bs. unat h' \<le> unat h + 2048"
  shows "detector_runs bs sd (h, i) = Some slot"
  using assms
proof (induction bs arbitrary: sd)
  case (Cons b bs)
  obtain h' r pub x sig where b: "b = (h', r, pub, x, sig)" by (cases b)
  have "fst (CheckBlock h' r pub x sig sd) (h, i) = Some slot" using Cons.prems CheckBlock_keeps by (simp add: b)
  then show ?case using Cons by (simp add: detector_runs_def b)
qed (simp add: detector_runs_def)

text \<open>A double signature is reported: when the detector has the first block of a validator for a height, a
  second, different block of that validator at that height yields evidence with both hashes and signatures, whatever
  other blocks were checked in between, as long as they were at most 2048 heights above it.\<close>

theorem double_sign_reported:
  assumes "sd (h, pub_ID pub) = None" and "x \<noteq> y" and "\<forall>(h', r, pub, x, sig) \<in> set bs. unat h' \<le> unat h + 2048"
  shows "snd (CheckBlock h r2 pub y sig2 (detector_runs bs (fst (CheckBlock h r1 pub x sig1 sd)))) =
    Some \<lparr>ds_Height = h, ds_Round1 = r1, ds_Validator = pub, ds_Hash1 = x, ds_Sig1 = sig1, ds_Round2 = r2, ds_Hash2 = y, ds_Sig2 = sig2\<rparr>"
proof -
  have "fst (CheckBlock h r1 pub x sig1 sd) (h, pub_ID pub) = Some \<lparr>ss_hash = x, ss_sig = sig1, ss_round = r1\<rparr>"
    using assms(1) by (auto simp: CheckBlock_def PruneBelow_def Let_def u64_less_iff unat_diff_u64 less_imp_le)
  from detector_keeps [where sd = "fst (CheckBlock h r1 pub x sig1 sd)" and bs = bs, OF this assms(3)] show ?thesis using assms(2) by (simp add: CheckBlock_def Let_def)
qed

text \<open>The detector tells validators apart by the first four bytes of their keys only: for any two different validators whose
  keys agree there, the first block of one and a different block of the other at the same height are
  reported as a double signature of the second, who signed only one block.\<close>

theorem double_sign_false_report:
  assumes "take 4 pub = take 4 other" and "length pub = 32" and "length other = 32" and "x \<noteq> y"
  shows "\<exists>ev. snd (CheckBlock h r2 other y sig2 (fst (CheckBlock h r1 pub x sig1 newSlashingDetector))) = Some ev \<and>
    ds_Validator ev = other \<and> ds_Hash1 ev = x \<and> ds_Sig1 ev = sig1"
proof -
  have "take 8 (hex_encode b) = hex_encode (take 4 b)" if "4 \<le> length b" for b
  proof -
    have "hex_encode b = hex_encode (take 4 b) @ hex_encode (drop 4 b)" by (metis append_take_drop_id concat_append hex_encode_def map_append)
    then show ?thesis using that by simp
  qed
  then have "pub_ID pub = pub_ID other" using assms(1-3) by (simp add: pub_ID_def Let_def)
  then show ?thesis using assms(4)
    by (auto simp: CheckBlock_def newSlashingDetector_def PruneBelow_def Let_def u64_less_iff unat_diff_u64 less_imp_le)
qed

section \<open>Concrete instances\<close>

lemma unhex_hex: "n < 16 \<Longrightarrow> unhex_digit (hex_digit n) = Some n"
proof -
  have "\<forall>n \<in> set [0..<16]. unhex_digit (hex_digit n) = Some n" by code_simp
  then show "n < 16 \<Longrightarrow> unhex_digit (hex_digit n) = Some n" by simp
qed

lemma hex_decode_encode: "hex_decode (hex_encode bs) = Some bs"
proof (induction bs)
  case (Cons b bs)
  have lt: "unat b < 256" by (rule byte_lt_256)
  then have "word_of_nat (16 * (unat b div 16) + unat b mod 16) = b" by simp
  then show ?case using Cons lt by (simp add: hex_encode_Cons hex_byte_def unhex_hex less_mult_imp_div_less)
qed (simp add: hex_encode_def)

text \<open>A database of two cells in memory.\<close>

definition mem_db :: "(FinalityCertificate option \<times> LocalFinalityVote option) finality_db" where
  "mem_db = \<lparr>db_cert = \<lambda>d. Inr (fst d), db_put_cert = \<lambda>c d. Inr (Some c, snd d), db_vote = \<lambda>d. Inr (snd d),
     db_put_vote = \<lambda>v d. Inr (fst d, Some v), db_GetTip = \<lambda>d. Inl StoreFault, db_GetCanonicalHash = \<lambda>h d. Inl StoreFault,
     db_GetBlock = \<lambda>h d. Inl StoreFault\<rparr>"

lemma mem_db_ok: "db_ok mem_db"
  by (auto simp: db_ok_def mem_db_def)

definition demo_cfg :: finality_cfg where
  "demo_cfg = \<lparr>cfg_BFTThreshold = 2 / 3, cfg_round = (\<lambda>x. x), cfg_fork = None, cfg_order = (\<lambda>x. x), cfg_future_order = (\<lambda>x. x)\<rparr>"

definition demo_validator :: ValidatorPubKey where "demo_validator = replicate 32 1"

definition demo_sign :: "hash32 \<Rightarrow> bytes option" where
  "demo_sign m = Some (arr_bytes m @ replicate 32 0)"

definition demo_vote :: FinalizeMsg where
  "demo_vote = \<lparr>fm_BlockHash = 1, fm_Height = 1, fm_ValidatorPub = demo_validator,
     fm_Signature = arr_bytes (vote_message chain_lib 1) @ replicate 32 0\<rparr>"

definition voted_chain :: Chain where
  "voted_chain = demo_chain\<lparr>ch_byHeight := [1 \<mapsto> demo_block 1 0]\<rparr>"

definition demo_engine :: "(FinalityCertificate option \<times> LocalFinalityVote option) option
    \<Rightarrow> (FinalityCertificate option \<times> LocalFinalityVote option) Engine" where
  "demo_engine store = fst (castVote chain_lib demo_cfg mem_db [demo_validator] demo_validator demo_sign (demo_block 1 0)
     (boot_engine chain_lib demo_cfg mem_db [demo_validator] voted_chain store []))"

lemma demo_bft: "bft_config demo_cfg [demo_validator]"
  by (simp add: bft_config_def rounding_ok_def demo_cfg_def mono_def)

lemma demo_engine_reach: "fin_reach chain_lib demo_cfg mem_db [demo_validator] (demo_engine store)"
  unfolding demo_engine_def by (intro net_reach.own net_reach.boot) (simp_all add: chain_known_def store_known_def)

lemma demo_boot: "boot_engine chain_lib demo_cfg mem_db V c store [] = new_engine c store []" if "store = None \<or> store = Some (None, None)"
  using that by (auto simp: boot_engine_def Let_def new_engine_def restoreFinalityCertificate_def restoreLocalFinalityVote_def
      LoadFinalityCertificate_def LoadLocalFinalityVote_def mem_db_def)

lemma demo_verifies: "vote_verifies chain_lib demo_cfg demo_validator h x (arr_bytes (vote_message chain_lib x) @ replicate 32 0)"
  by (simp add: vote_verifies_def demo_cfg_def Authority_def pub_Verify_def) (simp add: chain_lib_def demo_lib_def)

lemma demo_votes: "certificate_votes [(pub_Hex demo_validator, sig)] = Inr [\<lparr>fv_Validator = demo_validator, fv_Signature = sig\<rparr>]"
  by (simp add: pub_Hex_def hex_decode_encode demo_validator_def)

lemma demo_needed: "needed_votes demo_cfg (length [demo_validator]) = 1"
  by (simp add: needed_votes_def demo_cfg_def)

lemma demo_finalized:
  assumes "store = None \<or> store = Some (None, None)"
  shows "en_lpodFinalizedHashes (demo_engine store) 1 = Some 1" and "en_cast (demo_engine store) = [demo_vote]"
    and "en_store (demo_engine store) = None \<longleftrightarrow> store = None"
proof -
  have b: "height_of (demo_block 1 0) = 1" "block_Hash chain_lib (demo_block 1 0) = 1" by (simp_all add: demo_hashes) (simp add: demo_block_def)
  let ?e = "new_engine voted_chain store []"
  have e: "en_chain ?e = voted_chain" "GetByHeight voted_chain 1 = Some (demo_block 1 0)" "en_votes ?e = Map.empty" "en_finalized ?e = {}"
    "en_store ?e = store" "en_cast ?e = []"
    by (simp_all add: new_engine_def voted_chain_def GetByHeight_def)
  have v: "fm_BlockHash demo_vote = 1" "fm_Height demo_vote = 1" "fm_ValidatorPub demo_vote = demo_validator"
    "fm_Signature demo_vote = arr_bytes (vote_message chain_lib 1) @ replicate 32 0" by (simp_all add: demo_vote_def)
  have fin: "finalize demo_cfg mem_db demo_vote [(pub_Hex demo_validator, fm_Signature demo_vote)] (record_vote demo_vote ?e) =
      Inr e1 \<Longrightarrow> en_lpodFinalizedHashes e1 1 = Some 1 \<and> en_cast e1 = [] \<and> (en_store e1 = None \<longleftrightarrow> store = None)" for e1
    by (auto simp: finalize_def save_certificate_def record_vote_def new_engine_def v split: sum.splits option.splits)
  have ok: "\<exists>e1. finalize demo_cfg mem_db demo_vote [(pub_Hex demo_validator, fm_Signature demo_vote)] (record_vote demo_vote ?e) = Inr e1 \<and>
      (case en_store e1 of None \<Rightarrow> store = None | Some d \<Rightarrow> snd d = None)"
    using assms demo_votes
    by (auto simp: finalize_def save_certificate_def record_vote_def new_engine_def v demo_cfg_def SaveFinalityCertificate_def
        LoadFinalityCertificate_def mem_db_def)
  then obtain e1 where e1: "finalize demo_cfg mem_db demo_vote [(pub_Hex demo_validator, fm_Signature demo_vote)] (record_vote demo_vote ?e) = Inr e1"
    "case en_store e1 of None \<Rightarrow> store = None | Some d \<Rightarrow> snd d = None" by blast
  have "handleVote chain_lib demo_cfg mem_db [demo_validator] demo_vote ?e = (e1, None)"
    using demo_verifies e1(1) demo_needed
    by (simp add: handleVote_def isKnownValidator_def e v b count_vote_def has_voted_def Let_def record_vote_def prune_votes_def votePruneDepth_def)
  then have "demo_engine store = e1\<lparr>en_store := map_option (\<lambda>d. (fst d, Some \<lparr>lv_Version = 1, lv_Height = 1, lv_BlockHash = 1,
      lv_Validator = demo_validator, lv_Signature = fm_Signature demo_vote\<rparr>)) (en_store e1), en_latestLocalVote := Some demo_vote,
      en_cast := en_cast e1 @ [demo_vote]\<rparr>"
    using e1(2) unfolding demo_engine_def demo_boot [OF assms]
    by (auto simp: castVote_def b demo_sign_def LocalIdentity_def demo_cfg_def demo_vote_def Let_def SaveLocalFinalityVote_def
        LoadLocalFinalityVote_def mem_db_def split: option.splits)
  then show "en_lpodFinalizedHashes (demo_engine store) 1 = Some 1" "en_cast (demo_engine store) = [demo_vote]"
    "en_store (demo_engine store) = None \<longleftrightarrow> store = None" using fin [OF e1(1)] by simp_all
qed

text \<open>One vote and three blocks circulate, two of them of height 1.\<close>

definition demo_blocks :: "Block set" where
  "demo_blocks = {demo_block 0 0, demo_block 1 0, demo_block 1 7}"

lemma demo_engine_net:
  assumes "store = None \<or> store = Some (None, None)"
  shows "net_reach chain_lib demo_cfg mem_db [demo_validator] {demo_vote} demo_blocks (demo_engine store)"
  unfolding demo_engine_def
proof (intro net_reach.own net_reach.boot allI impI)
  show "chain_known demo_blocks voted_chain"
    by (auto simp: chain_known_def voted_chain_def GetByHeight_def demo_chain_fields demo_blocks_def split: if_splits)
  show "store_known mem_db {demo_vote} demo_blocks store"
    using assms by (auto simp: store_known_def LoadFinalityCertificate_def mem_db_def)
  show "own_vote chain_lib demo_cfg demo_validator (demo_block 1 0) sig \<in> {demo_vote}"
    if "demo_sign (vote_message chain_lib (block_Hash chain_lib (demo_block 1 0))) = Some sig" for sig
    using that by (simp add: own_vote_def demo_vote_def demo_sign_def demo_hashes LocalIdentity_def demo_cfg_def) (simp add: demo_block_def)
qed

theorem finality_agreement_witness:
  "\<exists>x y. en_lpodFinalizedHashes (demo_engine None) 1 = Some x \<and> en_lpodFinalizedHashes (demo_engine (Some (None, None))) 1 = Some y \<and>
    (x = y \<or> (\<exists>pub. has_signed chain_lib demo_cfg {demo_vote} pub x \<and> has_signed chain_lib demo_cfg {demo_vote} pub y))"
proof -
  have o: "order_ok demo_cfg" by (simp add: order_ok_def demo_cfg_def)
  have f: "en_lpodFinalizedHashes (demo_engine None) 1 = Some 1" "en_lpodFinalizedHashes (demo_engine (Some (None, None))) 1 = Some 1"
    using demo_finalized(1) by simp_all
  from finality_agreement [OF demo_bft o demo_engine_net demo_engine_net f] f show ?thesis by blast
qed

theorem own_votes_consistent_witness:
  "\<exists>v \<in> set (en_cast (demo_engine (Some (None, None)))). \<exists>w \<in> set (en_cast (demo_engine (Some (None, None)))).
     fm_Height v = fm_Height w \<and> fm_BlockHash v = fm_BlockHash w"
  using own_votes_consistent [OF mem_db_ok demo_engine_reach, of "Some (None, None)" demo_vote demo_vote]
    demo_finalized(2,3) [of "Some (None, None)"] by simp

theorem double_sign_reported_witness:
  "snd (CheckBlock 7 1 demo_validator 6 [2] (detector_runs [(7, 0, replicate 32 9, 3, [])] (fst (CheckBlock 7 0 demo_validator 5 [1] newSlashingDetector)))) =
    Some \<lparr>ds_Height = 7, ds_Round1 = 0, ds_Validator = demo_validator, ds_Hash1 = 5, ds_Sig1 = [1], ds_Round2 = 1, ds_Hash2 = 6, ds_Sig2 = [2]\<rparr>"
  by (rule double_sign_reported) (simp_all add: newSlashingDetector_def)

theorem double_sign_false_report_witness:
  "\<exists>ev. snd (CheckBlock 7 1 (replicate 31 1 @ [2]) 6 [2] (fst (CheckBlock 7 0 demo_validator 5 [1] newSlashingDetector))) = Some ev \<and>
    ds_Validator ev = replicate 31 1 @ [2] \<and> ds_Hash1 ev = 5 \<and> ds_Sig1 ev = [1]"
  by (rule double_sign_false_report) (simp_all add: demo_validator_def numeral_eq_Suc)

end
