(* ===== verification/Curve.thy ===== *)
theory Curve
  imports Complex_Main Crypto
begin

text \<open>
  The group and scalar layer of \<open>crypto/\<close>: scalars and points of \<open>wallet.go\<close>, hashing to the curve
  and key images of \<open>keyimage.go\<close> and \<open>bulletproof.go\<close>, Pedersen commitments of \<open>pedersen.go\<close>, the
  subgroup checks of \<open>clsag.go\<close>, wallet keys and burn addresses.  The points of
  \<open>filippo.io/edwards25519\<close> are a type of class \<open>ab_group_add\<close>; the record \<open>curve\<close> holds its base
  point, its encoding and the two hash functions.  Scalars are integers reduced modulo the group order
  \<open>ell\<close>.  \<open>curve_ok\<close> collects the documented facts about the curve that the theorems use; the type
  \<open>zl\<close> of integers modulo \<open>ell\<close> is a concrete group in which they hold.
\<close>

unbundle bit_operations_syntax

section \<open>Definitions\<close>

subsection \<open>Scalars\<close>

definition ell :: int where
  "ell = 7237005577332262213973186563042994240857116359379907606001950938285454250989"

text \<open>\<open>SetUniformBytes\<close> reads 64 bytes, \<open>SetCanonicalBytes\<close> 32 bytes of a value below the order;
  both are little-endian.\<close>

definition sc_uniform :: "arr64 \<Rightarrow> int" where
  "sc_uniform w = int (be_val (rev (arr64_bytes w))) mod ell"

definition ScalarFromBytes :: "scalar32 \<Rightarrow> int option" where
  "ScalarFromBytes b = (let v = int (be_val (rev (arr_bytes b))) in if v < ell then Some v else None)"

definition sc_bytes :: "int \<Rightarrow> scalar32" where
  "sc_bytes s = arr_of (rev (be_bytes 32 (nat s)))"

definition sc_add :: "int \<Rightarrow> int \<Rightarrow> int" where "sc_add a b = (a + b) mod ell"
definition sc_sub :: "int \<Rightarrow> int \<Rightarrow> int" where "sc_sub a b = (a - b) mod ell"
definition sc_mul :: "int \<Rightarrow> int \<Rightarrow> int" where "sc_mul a b = (a * b) mod ell"
definition sc_neg :: "int \<Rightarrow> int" where "sc_neg a = (- a) mod ell"

text \<open>\<open>MultiplyAdd(x, y, z)\<close> is \<open>x * y + z\<close>; the inverse of a scalar without one (zero) is zero.\<close>

definition sc_muladd :: "int \<Rightarrow> int \<Rightarrow> int \<Rightarrow> int" where "sc_muladd a b c = (a * b + c) mod ell"

definition sc_invert :: "int \<Rightarrow> int" where
  "sc_invert a = (if coprime a ell then fst (bezw (nat (a mod ell)) (nat ell)) mod ell else 0)"

definition scalarFromUint64 :: "u64 \<Rightarrow> int" where
  "scalarFromUint64 v = int (unat v)"

definition ScalarFromUint64 :: "u64 \<Rightarrow> scalar32" where
  "ScalarFromUint64 n = arr_of (le_put64 n @ make_buf 24)"

datatype crypto_error =
    BadPoint
  | BadScalar
  | SmallOrder
  | IdentityPoint
  | IdentityEncoding
  | NotInSubgroup
  | RingLength
  | RealIndexOutOfRange
  | DuplicateMember
  | ResponseLength
  | NoRandomness
  | KeyMismatch
  | BlindMismatch
  | NilSignature
  | ZeroNonce
  | ProofRejected
  | SeedTooShort

definition AddScalars :: "scalar32 \<Rightarrow> scalar32 \<Rightarrow> crypto_error + scalar32" where
  "AddScalars a b =
     (case ScalarFromBytes a of None \<Rightarrow> Inl BadScalar | Some sa \<Rightarrow>
      case ScalarFromBytes b of None \<Rightarrow> Inl BadScalar | Some sb \<Rightarrow> Inr (sc_bytes (sc_add sa sb)))"

subsection \<open>Points\<close>

record 'p curve =
  cv_base :: 'p
  cv_bytes :: "'p \<Rightarrow> point32"
  cv_parse :: "point32 \<Rightarrow> 'p option"
  cv_sha512 :: "bytes \<Rightarrow> arr64"
  cv_sha256 :: "bytes \<Rightarrow> hash32"

text \<open>\<open>ScalarMult\<close> adds the point to itself; \<open>MultByCofactor\<close> multiplies by 8.\<close>

primrec nmul :: "nat \<Rightarrow> 'p::ab_group_add \<Rightarrow> 'p" where
  "nmul 0 p = 0"
| "nmul (Suc n) p = p + nmul n p"

definition smul :: "int \<Rightarrow> 'p::ab_group_add \<Rightarrow> 'p" where
  "smul k p = (if 0 \<le> k then nmul (nat k) p else - nmul (nat (- k)) p)"

definition base_mul :: "('p::ab_group_add) curve \<Rightarrow> int \<Rightarrow> 'p" where
  "base_mul C k = smul k (cv_base C)"

definition PointFromBytes :: "('p::ab_group_add) curve \<Rightarrow> point32 \<Rightarrow> crypto_error + 'p" where
  "PointFromBytes C b = (case cv_parse C b of None \<Rightarrow> Inl BadPoint | Some p \<Rightarrow> Inr p)"

definition scalarMulBase :: "('p::ab_group_add) curve \<Rightarrow> scalar32 \<Rightarrow> crypto_error + point32" where
  "scalarMulBase C s =
     (case ScalarFromBytes s of None \<Rightarrow> Inl BadScalar | Some k \<Rightarrow> Inr (cv_bytes C (base_mul C k)))"

definition AddPoints :: "('p::ab_group_add) curve \<Rightarrow> point32 \<Rightarrow> point32 \<Rightarrow> crypto_error + point32" where
  "AddPoints C a b =
     (case PointFromBytes C a of Inl e \<Rightarrow> Inl e | Inr pa \<Rightarrow>
      case PointFromBytes C b of Inl e \<Rightarrow> Inl e | Inr pb \<Rightarrow> Inr (cv_bytes C (pa + pb)))"

subsection \<open>Hashing to scalars and points\<close>

definition hashToScalar :: "('p::ab_group_add) curve \<Rightarrow> bytes \<Rightarrow> string \<Rightarrow> int" where
  "hashToScalar C data tag = sc_uniform (cv_sha512 C (data @ str_bytes tag))"

text \<open>One candidate encoding: the point times the cofactor, unless that is the identity.\<close>

definition cleared :: "('p::ab_group_add) curve \<Rightarrow> bytes \<Rightarrow> 'p option" where
  "cleared C buf =
     (case cv_parse C (arr_of buf) of None \<Rightarrow> None
      | Some p \<Rightarrow> let r = smul 8 p in if r = 0 then None else Some r)"

definition hash_attempt :: "('p::ab_group_add) curve \<Rightarrow> bytes \<Rightarrow> bytes \<Rightarrow> u64 \<Rightarrow> 'p option" where
  "hash_attempt C domain data ctr =
     (let digest = arr_bytes (cv_sha256 C (domain @ data @ le_put64 ctr)) in
      case cleared C (digest[31 := (digest ! 31) AND 0x7f]) of Some r \<Rightarrow> Some r
      | None \<Rightarrow> cleared C (digest[31 := (digest ! 31) OR 0x80]))"

partial_function (option) hash_loop :: "('p::ab_group_add) curve \<Rightarrow> bytes \<Rightarrow> bytes \<Rightarrow> u64 \<Rightarrow> 'p option" where
  "hash_loop C domain data ctr =
     (case hash_attempt C domain data ctr of Some r \<Rightarrow> Some r
      | None \<Rightarrow> hash_loop C domain data (ctr + 1))"

definition hash_domain :: bytes where
  "hash_domain = str_bytes ''Aperod/hash-to-curve/v2''"

definition h2p_domain :: bytes where
  "h2p_domain = str_bytes ''Aperod/H2P/v1''"

definition HashToCurvePoint :: "('p::ab_group_add) curve \<Rightarrow> bytes \<Rightarrow> 'p" where
  "HashToCurvePoint C data = the (hash_loop C hash_domain data 0)"

definition hashToPoint :: "('p::ab_group_add) curve \<Rightarrow> bytes \<Rightarrow> 'p" where
  "hashToPoint C seed = the (hash_loop C h2p_domain seed 0)"

definition BpH :: "('p::ab_group_add) curve \<Rightarrow> 'p" where
  "BpH C = hashToPoint C (str_bytes ''Aperod/BP/H/v2'')"

definition hGenerator :: "('p::ab_group_add) curve \<Rightarrow> 'p" where
  "hGenerator C = BpH C"

subsection \<open>Key images\<close>

definition ComputeKeyImage :: "('p::ab_group_add) curve \<Rightarrow> scalar32 \<Rightarrow> point32 \<Rightarrow> crypto_error + key_image" where
  "ComputeKeyImage C x P =
     (case ScalarFromBytes x of None \<Rightarrow> Inl BadScalar
      | Some k \<Rightarrow> Inr (cv_bytes C (smul k (HashToCurvePoint C (arr_bytes P)))))"

definition inv8ModL :: bytes where
  "inv8ModL = [0x79, 0x2f, 0xdc, 0xe2, 0x29, 0xe5, 0x06, 0x61, 0xd0, 0xda, 0x1c, 0x7d, 0xb3, 0x9d, 0xd3, 0x07,
     0, 0, 0, 0, 0, 0, 0, 0, 0, 0, 0, 0, 0, 0, 0, 0x06]"

definition inv8 :: int where
  "inv8 = int (be_val (rev inv8ModL))"

definition CanonicalKeyImage :: "('p::ab_group_add) curve \<Rightarrow> key_image \<Rightarrow> crypto_error + key_image" where
  "CanonicalKeyImage C ki =
     (case cv_parse C ki of None \<Rightarrow> Inl BadPoint
      | Some p \<Rightarrow> let q = smul 8 p in
          if q = 0 then Inl SmallOrder else Inr (cv_bytes C (smul inv8 q)))"

definition checkedCLSAGSubgroupPoint :: "('p::ab_group_add) curve \<Rightarrow> point32 \<Rightarrow> bool \<Rightarrow> crypto_error + 'p" where
  "checkedCLSAGSubgroupPoint C encoded allowIdentity =
     (case PointFromBytes C encoded of Inl e \<Rightarrow> Inl e | Inr p \<Rightarrow>
      if p = 0 then
        (if \<not> allowIdentity then Inl IdentityPoint
         else if encoded \<noteq> cv_bytes C 0 then Inl IdentityEncoding else Inr p)
      else case CanonicalKeyImage C encoded of Inl e \<Rightarrow> Inl e
      | Inr canonical \<Rightarrow> if canonical \<noteq> encoded then Inl NotInSubgroup else Inr p)"

definition checkedCLSAGPrimePoint :: "('p::ab_group_add) curve \<Rightarrow> point32 \<Rightarrow> crypto_error + 'p" where
  "checkedCLSAGPrimePoint C encoded = checkedCLSAGSubgroupPoint C encoded False"

definition checkedCLSAGDPoint :: "('p::ab_group_add) curve \<Rightarrow> point32 \<Rightarrow> crypto_error + 'p" where
  "checkedCLSAGDPoint C encoded = checkedCLSAGSubgroupPoint C encoded True"

definition checkedDLEQPoint :: "('p::ab_group_add) curve \<Rightarrow> point32 \<Rightarrow> crypto_error + 'p" where
  "checkedDLEQPoint C encoded =
     (case CanonicalKeyImage C encoded of Inl e \<Rightarrow> Inl e
      | Inr canonical \<Rightarrow> if canonical \<noteq> encoded then Inl NotInSubgroup else PointFromBytes C encoded)"

definition ValidateAuthorizedOutputPoints :: "('p::ab_group_add) curve \<Rightarrow> point32 \<Rightarrow> point32 \<Rightarrow> crypto_error + unit" where
  "ValidateAuthorizedOutputPoints C pub ephemeral =
     (case checkedCLSAGPrimePoint C pub of Inl e \<Rightarrow> Inl e | Inr _ \<Rightarrow>
      case checkedCLSAGPrimePoint C ephemeral of Inl e \<Rightarrow> Inl e | Inr _ \<Rightarrow> Inr ())"

subsection \<open>Pedersen commitments\<close>

definition pedersen :: "('p::ab_group_add) curve \<Rightarrow> int \<Rightarrow> int \<Rightarrow> 'p" where
  "pedersen C r v = base_mul C r + smul v (hGenerator C)"

definition Commit :: "('p::ab_group_add) curve \<Rightarrow> u64 \<Rightarrow> scalar32 \<Rightarrow> crypto_error + commitment" where
  "Commit C value blind =
     (case ScalarFromBytes blind of None \<Rightarrow> Inl BadScalar
      | Some r \<Rightarrow> Inr (cv_bytes C (pedersen C r (scalarFromUint64 value))))"

definition add_commitment :: "('p::ab_group_add) curve \<Rightarrow> commitment \<Rightarrow> 'p \<Rightarrow> crypto_error + 'p" where
  "add_commitment C c acc = (case PointFromBytes C c of Inl e \<Rightarrow> Inl e | Inr p \<Rightarrow> Inr (acc + p))"

definition CommitSum :: "('p::ab_group_add) curve \<Rightarrow> commitment list \<Rightarrow> commitment list \<Rightarrow> commitment
    \<Rightarrow> crypto_error + bool" where
  "CommitSum C inputs outputs feeCommit =
     (case foldE (add_commitment C) inputs 0 of Inl e \<Rightarrow> Inl e | Inr sumIn \<Rightarrow>
      case foldE (add_commitment C) outputs 0 of Inl e \<Rightarrow> Inl e | Inr sumOut \<Rightarrow>
      case PointFromBytes C feeCommit of Inl e \<Rightarrow> Inl e | Inr feePt \<Rightarrow> Inr (sumIn = sumOut + feePt))"

definition blind_of :: "('p::ab_group_add) curve \<Rightarrow> bytes \<Rightarrow> scalar32" where
  "blind_of C preimage = sc_bytes (sc_uniform (cv_sha512 C preimage))"

definition DeterministicMintBlind :: "('p::ab_group_add) curve \<Rightarrow> point32 \<Rightarrow> u64 \<Rightarrow> scalar32" where
  "DeterministicMintBlind C spendPub amount =
     blind_of C (str_bytes ''aperod-mint-blind-v1'' @ arr_bytes spendPub @ le_put64 amount)"

definition DeterministicMintBlindV2 :: "('p::ab_group_add) curve \<Rightarrow> point32 \<Rightarrow> u64 \<Rightarrow> u64 \<Rightarrow> scalar32" where
  "DeterministicMintBlindV2 C spendPub amount height =
     blind_of C (str_bytes ''aperod-mint-blind-v2'' @ arr_bytes spendPub @ le_put64 amount @ le_put64 height)"

definition DeterministicPaymentBlind :: "('p::ab_group_add) curve \<Rightarrow> scalar32 \<Rightarrow> u64 \<Rightarrow> scalar32" where
  "DeterministicPaymentBlind C hs amount =
     blind_of C (str_bytes ''aperod-pay-blind-v1'' @ arr_bytes hs @ le_put64 amount)"

definition add_blind :: "scalar32 \<Rightarrow> int \<Rightarrow> crypto_error + int" where
  "add_blind b acc = (case ScalarFromBytes b of None \<Rightarrow> Inl BadScalar | Some s \<Rightarrow> Inr (sc_add acc s))"

definition sub_blind :: "scalar32 \<Rightarrow> int \<Rightarrow> crypto_error + int" where
  "sub_blind b acc =
     (case ScalarFromBytes b of None \<Rightarrow> Inl BadScalar | Some s \<Rightarrow> Inr (sc_add acc (sc_neg s)))"

definition BlindSum :: "scalar32 list \<Rightarrow> scalar32 list \<Rightarrow> crypto_error + scalar32" where
  "BlindSum ins outs =
     (case foldE add_blind ins 0 of Inl e \<Rightarrow> Inl e | Inr acc \<Rightarrow>
      case foldE sub_blind outs acc of Inl e \<Rightarrow> Inl e | Inr acc \<Rightarrow> Inr (sc_bytes acc))"

subsection \<open>Wallet keys and burn addresses\<close>

definition deriveScalar :: "('p::ab_group_add) curve \<Rightarrow> bytes \<Rightarrow> string \<Rightarrow> scalar32" where
  "deriveScalar C data tag = sc_bytes (hashToScalar C data tag)"

record WalletKeyPair =
  wk_spendPriv :: scalar32
  wk_spendPub :: point32
  wk_viewPriv :: scalar32
  wk_viewPub :: point32

definition WalletKeysFromSeed :: "('p::ab_group_add) curve \<Rightarrow> bytes \<Rightarrow> crypto_error + WalletKeyPair" where
  "WalletKeysFromSeed C seed =
     (if length seed < 32 then Inl SeedTooShort else
      let spend = deriveScalar C seed ''aperod-spend'' in
      case scalarMulBase C spend of Inl e \<Rightarrow> Inl e | Inr spendPub \<Rightarrow>
      let view = deriveScalar C (arr_bytes spend) ''aperod-view'' in
      case scalarMulBase C view of Inl e \<Rightarrow> Inl e | Inr viewPub \<Rightarrow>
      Inr \<lparr>wk_spendPriv = spend, wk_spendPub = spendPub, wk_viewPriv = view, wk_viewPub = viewPub\<rparr>)"

definition burnPoint :: "('p::ab_group_add) curve \<Rightarrow> string \<Rightarrow> u8 \<Rightarrow> point32" where
  "burnPoint C domain net = cv_bytes C (HashToCurvePoint C (str_bytes domain @ [net]))"

definition BurnAddress :: "lib \<Rightarrow> ('p::ab_group_add) curve \<Rightarrow> u8 \<Rightarrow> Address" where
  "BurnAddress K C net =
     EncodeAddress K net (burnPoint C ''aperod/canonical-burn/spend/v1'' net)
                         (burnPoint C ''aperod/canonical-burn/view/v1'' net)"

definition IsBurnAddress :: "lib \<Rightarrow> ('p::ab_group_add) curve \<Rightarrow> Address \<Rightarrow> bool" where
  "IsBurnAddress K C addr =
     (case DecodeAddress K addr of Inl _ \<Rightarrow> False | Inr (net, _, _) \<Rightarrow> addr = BurnAddress K C net)"

subsection \<open>What the theorems use of the curve\<close>

text \<open>Encodings round-trip, the base point has order \<open>ell\<close>, every point has an order dividing
  \<open>8 * ell\<close>, and the try-and-increment loops return.\<close>

definition curve_ok :: "('p::ab_group_add) curve \<Rightarrow> bool" where
  "curve_ok C \<longleftrightarrow>
     (\<forall>p. cv_parse C (cv_bytes C p) = Some p) \<and> smul ell (cv_base C) = 0 \<and> (\<forall>p :: 'p. smul (8 * ell) p = 0)
     \<and> (\<forall>data. hash_loop C hash_domain data 0 \<noteq> None) \<and> (\<forall>data. hash_loop C h2p_domain data 0 \<noteq> None)"

section \<open>Multiples of a point\<close>

lemma nmul_add: "nmul (m + n) p = nmul m p + nmul n p"
  by (induction m) (simp_all add: add.assoc)

lemma nmul_add_point: "nmul n (p + q) = nmul n p + nmul n q"
  by (induction n) (simp_all add: algebra_simps)

lemma smul_of_nat: "smul (int n) p = nmul n p"
  by (simp add: smul_def)

lemma smul_diff_nat: "smul (int m - int n) p = nmul m p - nmul n p"
proof (cases "n \<le> m")
  case True
  then obtain k where "m = n + k" using le_Suc_ex by blast
  then show ?thesis by (simp add: smul_of_nat nmul_add)
next
  case False
  then obtain k where k: "n = m + k" "0 < k" using less_imp_add_positive [of m n] by auto
  then show ?thesis by (simp add: smul_def nmul_add)
qed

lemma smul_add_left: "smul (a + b) p = smul a p + smul b p"
proof -
  obtain m n where a: "a = int m - int n" by (rule int_diff_cases)
  obtain i j where b: "b = int i - int j" by (rule int_diff_cases)
  have "a + b = int (m + i) - int (n + j)" by (simp add: a b)
  then show ?thesis unfolding a b by (simp only: smul_diff_nat nmul_add) (simp add: algebra_simps)
qed

lemma smul_add_right: "smul a (p + q) = smul a p + smul a q"
  by (simp add: smul_def nmul_add_point)

interpretation points: module smul
proof
  fix a b :: int and x y :: 'a
  show "smul a (x + y) = smul a x + smul a y" by (rule smul_add_right)
  show "smul (a + b) x = smul a x + smul b x" by (rule smul_add_left)
  show "smul 1 x = x" by (simp add: smul_def)
  have nat_mul: "smul (int n * b) x = nmul n (smul b x)" for n
  proof (induction n)
    case (Suc n)
    have "int (Suc n) * b = b + int n * b" by (simp add: algebra_simps)
    with Suc show ?case by (simp add: smul_add_left)
  qed (simp add: smul_def)
  have neg: "smul (- k) y = - smul k y" for k and y :: 'a
    using smul_add_left [of "- k" k y] by (simp add: eq_neg_iff_add_eq_0 smul_def [of 0])
  show "smul a (smul b x) = smul (a * b) x"
    by (cases a rule: int_cases2) (simp_all add: nat_mul smul_of_nat neg)
qed

declare points.scale_scale [simp del]

lemmas smul_simps = points.scale_left_distrib points.scale_right_distrib points.scale_scale
  points.scale_minus_left points.scale_minus_right points.scale_left_diff_distrib points.scale_right_diff_distrib

text \<open>A point whose order divides \<open>ell\<close> is multiplied by scalars, that is modulo \<open>ell\<close>.\<close>

lemma smul_mod:
  assumes "smul ell p = 0"
  shows "smul (k mod ell) p = smul k p"
proof -
  have "smul k p = smul (k div ell * ell + k mod ell) p" by simp
  also have "\<dots> = smul (k div ell) (smul ell p) + smul (k mod ell) p"
    by (simp only: points.scale_left_distrib points.scale_scale)
  finally show ?thesis by (simp add: assms)
qed

lemma smul_cong:
  assumes "smul ell p = 0" and "a mod ell = b mod ell"
  shows "smul a p = smul b p"
  by (metis assms smul_mod)

lemma smul_order: "smul ell p = 0 \<Longrightarrow> smul ell (smul k p) = 0"
  by (simp only: points.scale_left_commute [of ell]) simp

section \<open>Scalars\<close>

lemma ell_pos [simp]: "0 < ell" "ell \<noteq> 0" "0 \<le> ell"
  by (simp_all add: ell_def)

lemma ell_bound: "ell < 2 ^ 256" "2 ^ 64 \<le> ell"
  by (simp_all add: ell_def)

lemma u64_lt_ell: "uint (v :: u64) < ell"
proof -
  have "uint v < 2 ^ 64" using uint_bounded [of v] by simp
  then show ?thesis using ell_bound(2) by simp
qed

definition sc_ok :: "int \<Rightarrow> bool" where
  "sc_ok s \<longleftrightarrow> 0 \<le> s \<and> s < ell"

lemma sc_ok_ops [simp]:
  "sc_ok (sc_add a b)" "sc_ok (sc_sub a b)" "sc_ok (sc_mul a b)" "sc_ok (sc_neg a)" "sc_ok (sc_muladd a b c)"
  "sc_ok (sc_uniform w)" "sc_ok (scalarFromUint64 v)" "sc_ok 0" "sc_ok (x mod ell)"
  using u64_lt_ell [of v]
  by (auto simp: sc_ok_def sc_add_def sc_sub_def sc_mul_def sc_neg_def sc_muladd_def sc_uniform_def
      scalarFromUint64_def)

lemma sc_ok_hash [simp]: "sc_ok (hashToScalar C data tag)"
  by (simp add: hashToScalar_def)

lemma ScalarFromBytes_ok: "ScalarFromBytes b = Some s \<Longrightarrow> sc_ok s"
  by (auto simp: ScalarFromBytes_def sc_ok_def Let_def split: if_splits)

lemma ScalarFromBytes_bytes [simp]:
  assumes "sc_ok s"
  shows "ScalarFromBytes (sc_bytes s) = Some s"
proof -
  have "nat s < 256 ^ 32"
    using assms ell_bound(1) by (simp add: sc_ok_def nat_less_iff)
  then have "be_val (rev (arr_bytes (sc_bytes s))) = nat s"
    by (simp add: sc_bytes_def put_get be_val_be_bytes)
  then show ?thesis using assms by (simp add: ScalarFromBytes_def sc_ok_def Let_def)
qed

lemma be_val_zeros: "be_val (replicate n 0 @ bs) = be_val bs"
proof -
  have "be_val (replicate n (0 :: u8) @ bs) = foldl (\<lambda>a b. a * 256 + unat b) (be_val (replicate n 0)) bs"
    by (simp add: be_val_def)
  moreover have "be_val (replicate n (0 :: u8)) = 0" by (induction n) (simp_all add: be_val_def)
  ultimately show ?thesis by (simp add: be_val_def)
qed

lemma ScalarFromUint64_value: "ScalarFromBytes (ScalarFromUint64 n) = Some (scalarFromUint64 n)"
proof -
  have "be_val (rev (arr_bytes (ScalarFromUint64 n))) = unat n"
    using unat_u64_lt [of n]
    by (simp add: ScalarFromUint64_def put_get make_buf_def be_val_zeros le_put64_def be_val_be_bytes)
  then show ?thesis
    using u64_lt_ell [of n] by (simp add: ScalarFromBytes_def scalarFromUint64_def Let_def)
qed

lemma sc_invert_ok [simp]: "sc_ok (sc_invert a)"
  by (simp add: sc_invert_def)

lemma sc_invert_correct:
  assumes "coprime a ell"
  shows "(a * sc_invert a) mod ell = 1"
proof -
  let ?u = "fst (bezw (nat (a mod ell)) (nat ell))" and ?v = "snd (bezw (nat (a mod ell)) (nat ell))"
  have "gcd (a mod ell) ell = 1"
    using assms by (simp add: coprime_iff_gcd_eq_1 gcd.commute flip: gcd_red_int)
  then have "gcd (nat (a mod ell)) (nat ell) = 1" by (simp add: gcd_int_def)
  then have "1 = ?u * (a mod ell) + ?v * ell"
    using bezw_aux [of "nat (a mod ell)" "nat ell"] by simp
  then have "(?u * (a mod ell) + ?v * ell) mod ell = 1 mod ell" by simp
  then have "(?u * a) mod ell = 1" by (simp add: mod_mult_right_eq ell_def)
  then show ?thesis using assms by (simp add: sc_invert_def mod_mult_right_eq mult.commute)
qed

lemmas sc_defs = sc_add_def sc_sub_def sc_mul_def sc_neg_def sc_muladd_def

section \<open>Hashing to the curve\<close>

lemma cleared_order:
  assumes "\<forall>p :: 'p. smul (8 * ell) p = 0" and "cleared C buf = Some (r :: 'p::ab_group_add)"
  shows "smul ell r = 0 \<and> r \<noteq> 0"
proof -
  from assms(2) obtain p where "r = smul 8 p" "r \<noteq> 0"
    by (auto simp: cleared_def Let_def split: option.splits if_splits)
  with assms(1) show ?thesis by (simp add: points.scale_scale mult.commute)
qed

lemma hash_attempt_order:
  assumes "\<forall>p :: 'p. smul (8 * ell) p = 0" and "hash_attempt C domain data ctr = Some (r :: 'p::ab_group_add)"
  shows "smul ell r = 0 \<and> r \<noteq> 0"
  using assms by (auto simp: hash_attempt_def Let_def split: option.splits dest: cleared_order)

text \<open>Whenever the loop returns, the point lies in the prime-order subgroup and is not the identity.\<close>

lemma hash_loop_order:
  assumes "\<forall>p :: 'p. smul (8 * ell) p = 0" and "hash_loop C domain data ctr = Some (r :: 'p::ab_group_add)"
  shows "smul ell r = 0 \<and> r \<noteq> 0"
proof -
  note induct = hash_loop.raw_induct [where P = "\<lambda>C domain data ctr r. (\<forall>p :: 'p. smul (8 * ell) p = 0) \<longrightarrow> smul ell r = 0 \<and> r \<noteq> (0 :: 'p)"]
  have "(\<forall>p :: 'p. smul (8 * ell) p = 0) \<longrightarrow> smul ell r = 0 \<and> r \<noteq> (0 :: 'p)"
    by (rule induct [OF _ assms(2)]) (auto split: option.splits dest: hash_attempt_order)
  with assms(1) show ?thesis by blast
qed

text \<open>The loop returns as soon as one of the counters it reaches gives a point.\<close>

lemma hash_loop_returns:
  "hash_attempt C domain data (ctr + word_of_nat n) \<noteq> None \<Longrightarrow> hash_loop C domain data ctr \<noteq> None"
proof (induction n arbitrary: ctr)
  case 0
  then show ?case by (subst hash_loop.simps) (auto split: option.splits)
next
  case (Suc n)
  then have "hash_loop C domain data (ctr + 1) \<noteq> None" by (simp add: add.assoc)
  then show ?case by (subst hash_loop.simps) (auto split: option.splits)
qed

lemma curve_order: "curve_ok (C :: 'p::ab_group_add curve) \<Longrightarrow> smul (8 * ell) (p :: 'p) = 0"
  unfolding curve_ok_def by blast

lemma curve_parse [simp]: "curve_ok C \<Longrightarrow> cv_parse C (cv_bytes C p) = Some p"
  by (simp add: curve_ok_def)

lemma PointFromBytes_bytes [simp]: "curve_ok C \<Longrightarrow> PointFromBytes C (cv_bytes C p) = Inr p"
  by (simp add: PointFromBytes_def)

lemma cv_bytes_inj: "curve_ok C \<Longrightarrow> cv_bytes C p = cv_bytes C q \<longleftrightarrow> p = q"
  by (metis curve_parse option.inject)

lemma base_order [simp]: "curve_ok C \<Longrightarrow> smul ell (cv_base C) = 0"
  by (simp add: curve_ok_def)

lemma hash_point_order:
  assumes "curve_ok C"
  shows "smul ell (HashToCurvePoint C data) = 0" "HashToCurvePoint C data \<noteq> 0"
    "smul ell (hashToPoint C data) = 0" "hashToPoint C data \<noteq> 0"
proof -
  have ord: "\<forall>p :: 'a. smul (8 * ell) p = 0" using curve_order [OF assms] by blast
  from assms obtain p q where pq: "hash_loop C hash_domain data 0 = Some p" "hash_loop C h2p_domain data 0 = Some q"
    unfolding curve_ok_def by (metis not_None_eq)
  with hash_loop_order [OF ord pq(1)] hash_loop_order [OF ord pq(2)]
  show "smul ell (HashToCurvePoint C data) = 0" "HashToCurvePoint C data \<noteq> 0"
    "smul ell (hashToPoint C data) = 0" "hashToPoint C data \<noteq> 0"
    by (simp_all add: HashToCurvePoint_def hashToPoint_def)
qed

lemma H_order [simp]: "curve_ok C \<Longrightarrow> smul ell (hGenerator C) = 0" "curve_ok C \<Longrightarrow> smul ell (BpH C) = 0"
  by (simp_all add: hGenerator_def BpH_def hash_point_order)

lemma base_mul_order [simp]: "curve_ok C \<Longrightarrow> smul ell (base_mul C k) = 0"
  by (simp add: base_mul_def smul_order)

lemma base_mul_mod [simp]: "curve_ok C \<Longrightarrow> base_mul C (k mod ell) = base_mul C k"
  by (simp add: base_mul_def smul_mod)

section \<open>Key images\<close>

lemma inv8_value: "8 * inv8 = 3 * ell + 1"
  by (simp add: inv8_def inv8ModL_def ell_def be_val_def)

lemma smul_inv8:
  assumes "smul ell p = 0"
  shows "smul inv8 (smul 8 p) = p"
proof -
  have "smul inv8 (smul 8 p) = smul (8 * inv8) p"
    by (simp only: points.scale_scale mult.commute)
  also have "\<dots> = smul (3 * ell + 1) p" by (simp only: inv8_value)
  also have "\<dots> = smul 3 (smul ell p) + p" by (simp only: points.scale_left_distrib points.scale_scale points.scale_one)
  finally show ?thesis by (simp add: assms)
qed

lemma prime_iff_unchanged:
  fixes C :: "'p::ab_group_add curve" and p :: 'p
  assumes "curve_ok C"
  shows "smul inv8 (smul 8 p) = p \<longleftrightarrow> smul ell p = 0"
proof
  assume eq: "smul inv8 (smul 8 p) = p"
  have "smul ell (smul inv8 (smul 8 p)) = smul inv8 (smul (8 * ell) p)"
    by (simp only: points.scale_scale mult.commute mult.left_commute)
  also have "\<dots> = 0" by (simp only: curve_order [OF assms] points.scale_zero_right)
  finally show "smul ell p = 0" by (simp only: eq)
qed (rule smul_inv8)

text \<open>What the subgroup checks accept: exactly the canonical encodings of points of order \<open>ell\<close>.\<close>

lemma CanonicalKeyImage_fixed_iff:
  assumes "curve_ok C"
  shows "CanonicalKeyImage C ki = Inr ki \<longleftrightarrow> (\<exists>p. ki = cv_bytes C p \<and> smul ell p = 0 \<and> smul 8 p \<noteq> 0)"
proof
  assume "CanonicalKeyImage C ki = Inr ki"
  then obtain p where p: "cv_parse C ki = Some p" "smul 8 p \<noteq> 0" "ki = cv_bytes C (smul inv8 (smul 8 p))"
    by (auto simp: CanonicalKeyImage_def Let_def split: option.splits if_splits)
  then have "smul inv8 (smul 8 p) = p"
    using assms by (metis curve_parse option.inject)
  with p show "\<exists>p. ki = cv_bytes C p \<and> smul ell p = 0 \<and> smul 8 p \<noteq> 0"
    using prime_iff_unchanged [OF assms] by metis
next
  assume "\<exists>p. ki = cv_bytes C p \<and> smul ell p = 0 \<and> smul 8 p \<noteq> 0"
  then show "CanonicalKeyImage C ki = Inr ki"
    using assms by (auto simp: CanonicalKeyImage_def Let_def smul_inv8)
qed

lemma order_8_trivial:
  assumes "smul ell p = 0" and "smul 8 p = 0"
  shows "p = 0"
  using smul_inv8 [OF assms(1)] assms(2) by simp

lemma checkedCLSAG_bytes:
  assumes "curve_ok C" and "smul ell p = 0"
  shows "checkedCLSAGSubgroupPoint C (cv_bytes C p) allow = (if p = 0 \<and> \<not> allow then Inl IdentityPoint else Inr p)"
proof (cases "p = 0")
  case False
  then have "CanonicalKeyImage C (cv_bytes C p) = Inr (cv_bytes C p)"
    using assms order_8_trivial by (auto simp: CanonicalKeyImage_fixed_iff)
  with False show ?thesis using assms by (simp add: checkedCLSAGSubgroupPoint_def)
qed (use assms in \<open>simp add: checkedCLSAGSubgroupPoint_def\<close>)

lemma checkedCLSAG_Inr:
  assumes "curve_ok C" and "checkedCLSAGSubgroupPoint C b allow = Inr p"
  shows "b = cv_bytes C p \<and> smul ell p = 0"
  using assms by (auto simp: checkedCLSAGSubgroupPoint_def PointFromBytes_def CanonicalKeyImage_fixed_iff
      split: sum.splits option.splits if_splits)

lemma checkedDLEQ_bytes:
  assumes "curve_ok C" and "smul ell p = 0" and "p \<noteq> 0"
  shows "checkedDLEQPoint C (cv_bytes C p) = Inr p"
proof -
  have "CanonicalKeyImage C (cv_bytes C p) = Inr (cv_bytes C p)"
    using assms order_8_trivial by (auto simp: CanonicalKeyImage_fixed_iff)
  then show ?thesis using assms by (simp add: checkedDLEQPoint_def)
qed

section \<open>Commitments\<close>

lemma add_commitment_bytes:
  "curve_ok C \<Longrightarrow> foldE (add_commitment C) (map (cv_bytes C) ps) acc = Inr (acc + sum_list ps)"
  by (induction ps arbitrary: acc) (simp_all add: add_commitment_def add.assoc)

lemma CommitSum_bytes:
  assumes "curve_ok C"
  shows "CommitSum C (map (cv_bytes C) ins) (map (cv_bytes C) outs) (cv_bytes C f) = Inr (sum_list ins = sum_list outs + f)"
  using assms by (simp add: CommitSum_def add_commitment_bytes)

lemma pedersen_add: "pedersen C a b + pedersen C c d = pedersen C (a + c) (b + d)"
  by (simp add: pedersen_def base_mul_def smul_simps)

lemma pedersen_sum:
  "sum_list (map (\<lambda>(r, v). pedersen C r v) xs) = pedersen C (sum_list (map fst xs)) (sum_list (map snd xs))"
  by (induction xs) (auto simp: pedersen_def base_mul_def smul_simps)

lemma pedersen_order: "curve_ok C \<Longrightarrow> smul ell (pedersen C r v) = 0"
  by (simp add: pedersen_def points.scale_right_distrib smul_order)

text \<open>The openings \<open>(r, v)\<close> of a list of commitments.\<close>

definition opens :: "('p::ab_group_add) curve \<Rightarrow> commitment list \<Rightarrow> (int \<times> u64) list \<Rightarrow> bool" where
  "opens C cs os \<longleftrightarrow> cs = map (\<lambda>(r, v). cv_bytes C (pedersen C r (scalarFromUint64 v))) os"

definition blinds :: "(int \<times> u64) list \<Rightarrow> int" where
  "blinds os = sum_list (map fst os)"

definition amounts :: "(int \<times> u64) list \<Rightarrow> int" where
  "amounts os = sum_list (map (\<lambda>(r, v). int (unat v)) os)"

lemma opens_sum:
  assumes "opens C cs os"
  shows "\<exists>ps. cs = map (cv_bytes C) ps \<and> sum_list ps = pedersen C (blinds os) (amounts os)"
proof (intro exI conjI)
  let ?ps = "map (\<lambda>(r, v). pedersen C r (scalarFromUint64 v)) os"
  show "cs = map (cv_bytes C) ?ps" using assms by (auto simp: opens_def)
  show "sum_list ?ps = pedersen C (blinds os) (amounts os)"
    by (induction os) (auto simp: pedersen_def base_mul_def blinds_def amounts_def scalarFromUint64_def smul_simps)
qed

lemma CommitSum_opens:
  assumes "curve_ok C" and "opens C cin ins" and "opens C cout outs"
  shows "CommitSum C cin cout (cv_bytes C (pedersen C 0 fee))
     = Inr (base_mul C (blinds ins - blinds outs) = smul (amounts outs + fee - amounts ins) (hGenerator C))"
proof -
  obtain ps qs where p: "cin = map (cv_bytes C) ps" "sum_list ps = pedersen C (blinds ins) (amounts ins)"
    and q: "cout = map (cv_bytes C) qs" "sum_list qs = pedersen C (blinds outs) (amounts outs)"
    using opens_sum [OF assms(2)] opens_sum [OF assms(3)] by blast
  have "sum_list ps = sum_list qs + pedersen C 0 fee
      \<longleftrightarrow> base_mul C (blinds ins - blinds outs) = smul (amounts outs + fee - amounts ins) (hGenerator C)"
    unfolding p(2) q(2) pedersen_add
    by (simp add: pedersen_def base_mul_def points.scale_left_diff_distrib) (auto simp: algebra_simps)
  then show ?thesis by (simp add: p(1) q(1) CommitSum_bytes [OF assms(1)])
qed

lemma amounts_bound: "0 \<le> amounts os \<and> amounts os \<le> int (length os) * (2 ^ 64 - 1)"
proof (induction os)
  case (Cons x os)
  obtain r v where x: "x = (r, v)" by fastforce
  have "uint v \<le> 2 ^ 64 - 1" using uint_bounded [of v] by simp
  with Cons show ?case by (simp add: x amounts_def algebra_simps)
qed (simp add: amounts_def)

section \<open>A concrete group\<close>

typedef zl = "{0 ..< ell}"
  morphisms zl_rep zl_abs
  by (rule exI [of _ 0]) simp

setup_lifting type_definition_zl

instantiation zl :: ab_group_add
begin

lift_definition zero_zl :: zl is 0 by simp

lift_definition plus_zl :: "zl \<Rightarrow> zl \<Rightarrow> zl" is "\<lambda>a b. (a + b) mod ell" by simp

lift_definition minus_zl :: "zl \<Rightarrow> zl \<Rightarrow> zl" is "\<lambda>a b. (a - b) mod ell" by simp

lift_definition uminus_zl :: "zl \<Rightarrow> zl" is "\<lambda>a. (- a) mod ell" by simp

instance
  by standard (transfer, simp add: mod_simps algebra_simps)+

end

definition zl_of :: "int \<Rightarrow> zl" where
  "zl_of k = zl_abs (k mod ell)"

lemma zl_rep_of: "zl_rep (zl_of k) = k mod ell"
  by (simp add: zl_of_def zl_abs_inverse)

lemma zl_eqI: "zl_rep a = zl_rep b \<Longrightarrow> a = b"
  by (simp add: zl_rep_inject)

lemma zl_of_ops: "zl_of a + zl_of b = zl_of (a + b)" "zl_of a - zl_of b = zl_of (a - b)" "- zl_of a = zl_of (- a)"
  "zl_of 0 = 0"
  by (rule zl_eqI, simp add: zl_rep_of plus_zl.rep_eq minus_zl.rep_eq uminus_zl.rep_eq zero_zl.rep_eq mod_simps)+

lemma zl_of_eq_iff: "zl_of a = zl_of b \<longleftrightarrow> a mod ell = b mod ell"
  by (metis zl_of_def zl_rep_of)

lemma zl_of_rep: "zl_of (zl_rep p) = p"
  using zl_rep [of p] by (intro zl_eqI) (simp add: zl_rep_of)

lemma nmul_zl: "nmul n (zl_of k) = zl_of (int n * k)"
  by (induction n) (simp_all add: zl_of_ops algebra_simps)

lemma smul_zl: "smul a (zl_of k) = zl_of (a * k)"
  by (simp add: smul_def nmul_zl zl_of_ops)

text \<open>Points are encoded by their representative, \<open>SHA-256\<close> always gives the encoding of the point 2
  and \<open>SHA-512\<close> the scalar 1.\<close>

definition wide :: "nat \<Rightarrow> arr64" where
  "wide k = arr64_of (rev (be_bytes 64 k))"

lemma sc_uniform_wide: "k < 256 ^ 64 \<Longrightarrow> sc_uniform (wide k) = int k mod ell"
  by (simp add: sc_uniform_def wide_def put_get be_val_be_bytes)

definition zl_curve :: "zl curve" where
  "zl_curve = \<lparr>cv_base = zl_of 1, cv_bytes = (\<lambda>p. word_of_int (zl_rep p)),
     cv_parse = (\<lambda>b. if uint b < ell then Some (zl_of (uint b)) else None),
     cv_sha512 = (\<lambda>_. wide 1), cv_sha256 = (\<lambda>_. 2)\<rparr>"

lemma zl_uint_rep: "uint (word_of_int (zl_rep p) :: 256 word) = zl_rep p"
proof -
  have "0 \<le> zl_rep p" "zl_rep p < 2 ^ 256" using zl_rep [of p] ell_bound(1) by auto
  then show ?thesis by (simp add: uint_word_of_int)
qed

lemma zl_arr_of_2: "arr_of ((arr_bytes 2)[31 := (arr_bytes 2 ! 31) AND 0x7f]) = 2"
proof -
  have "arr_bytes 2 = be_bytes 31 0 @ [2]" using be_bytes.simps(2) [of 31 2] by (simp add: arr_bytes_def)
  then have last: "arr_bytes 2 ! 31 = 2" by (simp add: nth_append)
  have "(2 :: u8) AND 0x7f = 2" by simp
  then have "(arr_bytes 2)[31 := (arr_bytes 2 ! 31) AND 0x7f] = arr_bytes 2"
    unfolding last using list_update_id [of "arr_bytes 2" 31] by (simp add: last)
  then show ?thesis by simp
qed

lemma zl_hash_attempt: "hash_attempt zl_curve domain data ctr = Some (zl_of 16)"
proof -
  have "zl_of 16 \<noteq> 0" by (simp add: zl_of_eq_iff ell_def flip: zl_of_ops(4))
  then have "cleared zl_curve ((arr_bytes 2)[31 := (arr_bytes 2 ! 31) AND 0x7f]) = Some (zl_of 16)"
    by (simp only: cleared_def zl_arr_of_2) (simp add: zl_curve_def ell_def smul_zl Let_def)
  then show ?thesis by (simp add: hash_attempt_def zl_curve_def Let_def)
qed

lemma zl_challenge: "sc_uniform (cv_sha512 zl_curve data) = 1"
  by (simp add: zl_curve_def sc_uniform_wide) (simp add: ell_def)

lemma zl_curve_ok: "curve_ok zl_curve"
proof -
  have loops: "hash_loop zl_curve domain data ctr = Some (zl_of 16)" for domain data ctr
    by (subst hash_loop.simps) (simp add: zl_hash_attempt)
  have parse: "cv_parse zl_curve (cv_bytes zl_curve p) = Some p" for p
    using zl_rep [of p] by (simp add: zl_curve_def zl_uint_rep zl_of_rep)
  have base: "smul ell (cv_base zl_curve) = 0"
    by (simp add: zl_curve_def smul_zl zl_of_eq_iff flip: zl_of_ops(4))
  have "smul (8 * ell) (zl_of k) = 0" for k
    by (simp only: smul_zl zl_of_eq_iff zl_of_ops(4) [symmetric]) simp
  then have "smul (8 * ell) p = 0" for p :: zl by (metis zl_of_rep)
  with loops parse base show ?thesis unfolding curve_ok_def by simp
qed

section \<open>Properties\<close>

lemma smul_8_inv8: "curve_ok (C :: 'p::ab_group_add curve) \<Longrightarrow> smul 8 (smul inv8 (smul 8 (p :: 'p))) = smul 8 p"
proof -
  assume ok: "curve_ok C"
  have "smul 8 (smul inv8 (smul 8 p)) = smul (8 * inv8) (smul 8 p)"
    by (simp only: points.scale_scale mult.assoc)
  also have "\<dots> = smul (3 * (8 * ell)) p + smul 8 p"
  proof -
    have "8 * inv8 * 8 = 3 * (8 * ell) + 8" by (simp only: inv8_value) simp
    then show ?thesis by (simp only: points.scale_scale points.scale_left_distrib)
  qed
  also have "\<dots> = smul 3 (smul (8 * ell) p) + smul 8 p" by (simp only: points.scale_scale)
  finally show ?thesis by (simp only: curve_order [OF ok] points.scale_zero_right add_0)
qed

lemma CanonicalKeyImage_bytes:
  assumes "curve_ok C"
  shows "CanonicalKeyImage C (cv_bytes C p) = (if smul 8 p = 0 then Inl SmallOrder else Inr (cv_bytes C (smul inv8 (smul 8 p))))"
  using assms by (simp add: CanonicalKeyImage_def Let_def)

lemma canonical_eq_iff:
  assumes "curve_ok C" and "CanonicalKeyImage C (cv_bytes C p) = Inr a" and "CanonicalKeyImage C (cv_bytes C q) = Inr b"
  shows "a = b \<longleftrightarrow> smul 8 (p - q) = 0"
proof -
  have ab: "a = cv_bytes C (smul inv8 (smul 8 p))" "b = cv_bytes C (smul inv8 (smul 8 q))"
    using assms(2,3) unfolding CanonicalKeyImage_bytes [OF assms(1)] by (auto split: if_splits)
  have "a = b \<longleftrightarrow> smul inv8 (smul 8 p) = smul inv8 (smul 8 q)"
    unfolding ab by (rule cv_bytes_inj [OF assms(1)])
  also have "\<dots> \<longleftrightarrow> smul 8 p = smul 8 q" using smul_8_inv8 [OF assms(1)] by metis
  also have "\<dots> \<longleftrightarrow> smul 8 (p - q) = 0" by (simp add: points.scale_right_diff_distrib)
  finally show ?thesis .
qed

lemma canonical_idem:
  assumes "curve_ok C" and "CanonicalKeyImage C ki = Inr a"
  shows "CanonicalKeyImage C a = Inr a"
proof -
  obtain p where p: "smul 8 p \<noteq> 0" "a = cv_bytes C (smul inv8 (smul 8 p))"
    using assms(2) unfolding CanonicalKeyImage_def Let_def by (auto split: option.splits if_splits)
  then show ?thesis
    by (simp only: CanonicalKeyImage_bytes [OF assms(1)] smul_8_inv8 [OF assms(1)] if_False)
qed

lemma computed_key_image:
  assumes "ComputeKeyImage C x P = Inr ki"
  obtains k where "ScalarFromBytes x = Some k" "ki = cv_bytes C (smul k (HashToCurvePoint C (arr_bytes P)))"
  using assms by (auto simp: ComputeKeyImage_def split: option.splits)

lemma computed_canonical:
  assumes "curve_ok C" and "ComputeKeyImage C x P = Inr ki" and "ki \<noteq> cv_bytes C 0"
  shows "CanonicalKeyImage C ki = Inr ki"
proof -
  obtain k where k: "ki = cv_bytes C (smul k (HashToCurvePoint C (arr_bytes P)))" (is "_ = cv_bytes C ?I")
    using computed_key_image [OF assms(2)] .
  have ord: "smul ell ?I = 0" by (rule smul_order) (rule hash_point_order(1) [OF assms(1)])
  have "?I \<noteq> 0" using assms(3) k by auto
  with order_8_trivial [OF ord] have "smul 8 ?I \<noteq> 0" by blast
  with ord show ?thesis unfolding k CanonicalKeyImage_fixed_iff [OF assms(1)] by blast
qed

text \<open>The canonical form of a key image removes exactly the small-order component.  Two encodings of points have the
  same canonical form if and only if the points differ by a point of order dividing 8 (and neither is itself of small
  order); the canonical form of a canonical form is itself; and a point of the prime-order subgroup, in
  particular every key image \<open>x * Hp(P)\<close> computed by \<open>ComputeKeyImage\<close>, is its own canonical form unless it is the identity.\<close>

theorem canonical_key_image_torsion:
  fixes C :: "'p::ab_group_add curve"
  assumes "curve_ok C"
  shows "(\<forall>p q a b. CanonicalKeyImage C (cv_bytes C p) = Inr a \<and> CanonicalKeyImage C (cv_bytes C q) = Inr b
            \<longrightarrow> (a = b \<longleftrightarrow> smul 8 (p - q) = 0))
       \<and> (\<forall>ki a. CanonicalKeyImage C ki = Inr a \<longrightarrow> CanonicalKeyImage C a = Inr a)
       \<and> (\<forall>x P ki. ComputeKeyImage C x P = Inr ki \<and> ki \<noteq> cv_bytes C 0 \<longrightarrow> CanonicalKeyImage C ki = Inr ki)"
  using canonical_eq_iff [OF assms] canonical_idem [OF assms] computed_canonical [OF assms] by blast

lemma zl_key_image:
  assumes "sc_ok k"
  shows "ComputeKeyImage zl_curve (sc_bytes k) P = Inr (cv_bytes zl_curve (zl_of (k * 16)))"
  using assms by (simp add: ComputeKeyImage_def HashToCurvePoint_def hash_loop.simps zl_hash_attempt smul_zl)

theorem canonical_key_image_torsion_witness:
  "curve_ok zl_curve \<and> CanonicalKeyImage zl_curve (cv_bytes zl_curve (zl_of 80)) = Inr (cv_bytes zl_curve (zl_of 80))"
proof -
  have "cv_bytes zl_curve (zl_of 80) \<noteq> cv_bytes zl_curve 0"
    by (simp add: cv_bytes_inj [OF zl_curve_ok] zl_of_eq_iff ell_def flip: zl_of_ops(4))
  moreover have "ComputeKeyImage zl_curve (sc_bytes 5) 0 = Inr (cv_bytes zl_curve (zl_of 80))"
    using zl_key_image [of 5 0] by (simp add: sc_ok_def ell_def)
  ultimately show ?thesis
    using zl_curve_ok canonical_key_image_torsion [OF zl_curve_ok] by blast
qed

end
