(* ===== verification/Ring_Signatures.thy ===== *)
theory Ring_Signatures
  imports Curve
begin

text \<open>
  Ring signatures and the proofs of knowledge beside them: \<open>MLSAGSign\<close>, \<open>MLSAGVerify\<close> and their
  commitment-binding version 4 (\<open>crypto/ringct.go\<close>), \<open>CLSAGSign\<close> and \<open>CLSAGVerify\<close> (\<open>crypto/clsag.go\<close>), the key-image
  proof of a stake deposit (\<open>crypto/keyimage_proof.go\<close>) and the opening proof of a sale
  (\<open>crypto/value_authorization.go\<close>).  The reads of \<open>crypto/rand\<close> are an argument \<open>rnd\<close>: the \<open>n\<close>-th
  read gives 64 bytes or fails.  The locale \<open>ring_loop\<close> is what the three signing loops share;
  it carries the proof that the challenges close to a ring, so that every signature made is accepted.
\<close>

section \<open>Definitions\<close>

type_synonym randomness = "nat \<Rightarrow> arr64 option"

definition randomScalar :: "randomness \<Rightarrow> nat \<Rightarrow> crypto_error + int" where
  "randomScalar rnd n = (case rnd n of None \<Rightarrow> Inl NoRandomness | Some w \<Rightarrow> Inr (sc_uniform w))"

definition nextIdx :: "nat \<Rightarrow> nat" where
  "nextIdx i = (i + 1) mod RingSize"

text \<open>The array of challenges with only the one after the signer's.\<close>

definition ring_start :: "nat \<Rightarrow> int \<Rightarrow> int list" where
  "ring_start ri c = (replicate (RingSize + 1) 0)[nextIdx ri := c]"

definition ringL :: "('p::ab_group_add) curve \<Rightarrow> int \<Rightarrow> int \<Rightarrow> 'p \<Rightarrow> 'p" where
  "ringL C s c P = base_mul C s + smul c P"

definition ringR :: "int \<Rightarrow> int \<Rightarrow> 'p::ab_group_add \<Rightarrow> 'p \<Rightarrow> 'p" where
  "ringR s c Hp I = smul s Hp + smul c I"

definition pt_data :: "('p::ab_group_add) curve \<Rightarrow> 'p \<Rightarrow> bytes" where
  "pt_data C p = arr_bytes (cv_bytes C p)"

definition ringChallenge :: "('p::ab_group_add) curve \<Rightarrow> hash32 \<Rightarrow> 'p \<Rightarrow> 'p \<Rightarrow> int" where
  "ringChallenge C msg L R =
     sc_uniform (cv_sha512 C (str_bytes ''Aperod/MLSAG/v1'' @ arr_bytes msg @ pt_data C L @ pt_data C R))"

definition ring_hash :: "('p::ab_group_add) curve \<Rightarrow> point32 \<Rightarrow> 'p" where
  "ring_hash C P = HashToCurvePoint C (arr_bytes P)"

subsection \<open>MLSAG\<close>

definition mlsag_sign_step :: "('p::ab_group_add) curve \<Rightarrow> hash32 \<Rightarrow> point32 list \<Rightarrow> 'p \<Rightarrow> nat \<Rightarrow> randomness
    \<Rightarrow> nat \<Rightarrow> int list \<times> int list \<Rightarrow> crypto_error + int list \<times> int list" where
  "mlsag_sign_step C msg ring I realIdx rnd i st =
     (let (ss, cc) = st; idx = (realIdx + i) mod RingSize; nextI = (realIdx + i + 1) mod RingSize in
      case randomScalar rnd i of Inl e \<Rightarrow> Inl e | Inr s \<Rightarrow>
      case PointFromBytes C (ring ! idx) of Inl e \<Rightarrow> Inl e | Inr Pi \<Rightarrow>
      let L = ringL C s (cc ! idx) Pi; R = ringR s (cc ! idx) (ring_hash C (ring ! idx)) I
      in Inr (ss[idx := s], cc[nextI := ringChallenge C msg L R]))"

definition MLSAGSign :: "('p::ab_group_add) curve \<Rightarrow> hash32 \<Rightarrow> point32 list \<Rightarrow> int \<Rightarrow> scalar32 \<Rightarrow> randomness
    \<Rightarrow> crypto_error + MLSAGSignature" where
  "MLSAGSign C msg ring realIdx privKey rnd =
     (if length ring \<noteq> RingSize then Inl RingLength
      else if realIdx < 0 \<or> int RingSize \<le> realIdx then Inl RealIndexOutOfRange
      else if \<not> distinct ring then Inl DuplicateMember
      else let ri = nat realIdx in
      case ScalarFromBytes privKey of None \<Rightarrow> Inl BadScalar | Some x \<Rightarrow>
      case ComputeKeyImage C privKey (ring ! ri) of Inl e \<Rightarrow> Inl e | Inr ki \<Rightarrow>
      case PointFromBytes C ki of Inl e \<Rightarrow> Inl e | Inr I \<Rightarrow>
      case randomScalar rnd 0 of Inl e \<Rightarrow> Inl e | Inr alpha \<Rightarrow>
      let L = base_mul C alpha; R = smul alpha (ring_hash C (ring ! ri));
          cc = ring_start ri (ringChallenge C msg L R) in
      case foldE (mlsag_sign_step C msg ring I ri rnd) [1..<RingSize] (replicate RingSize 0, cc) of
        Inl e \<Rightarrow> Inl e
      | Inr (ss, cc) \<Rightarrow>
          let ss = ss[ri := sc_sub alpha (sc_mul (cc ! ri) x)]
          in Inr \<lparr>mls_C0 = sc_bytes (cc ! 0), mls_SS = map sc_bytes ss, mls_KeyImage = ki,
                  mls_BlindSS = [], mls_ValueSS = [], mls_LinkR = 0, mls_LinkS = 0\<rparr>)"

definition mlsag_verify_step :: "('p::ab_group_add) curve \<Rightarrow> hash32 \<Rightarrow> point32 list \<Rightarrow> 'p \<Rightarrow> scalar32 list
    \<Rightarrow> nat \<Rightarrow> int \<Rightarrow> crypto_error + int" where
  "mlsag_verify_step C msg ring I SS i c =
     (case ScalarFromBytes (SS ! i) of None \<Rightarrow> Inl BadScalar | Some s \<Rightarrow>
      case PointFromBytes C (ring ! i) of Inl e \<Rightarrow> Inl e | Inr Pi \<Rightarrow>
      Inr (ringChallenge C msg (ringL C s c Pi) (ringR s c (ring_hash C (ring ! i)) I)))"

text \<open>The key image must decode and be in the prime-order subgroup.\<close>

definition image_point :: "('p::ab_group_add) curve \<Rightarrow> key_image \<Rightarrow> crypto_error + 'p" where
  "image_point C ki =
     (case PointFromBytes C ki of Inl e \<Rightarrow> Inl e | Inr I \<Rightarrow>
      case CanonicalKeyImage C ki of Inl e \<Rightarrow> Inl e
      | Inr canonical \<Rightarrow> if canonical \<noteq> ki then Inl NotInSubgroup else Inr I)"

definition MLSAGVerify :: "('p::ab_group_add) curve \<Rightarrow> hash32 \<Rightarrow> point32 list \<Rightarrow> MLSAGSignature option
    \<Rightarrow> crypto_error + bool" where
  "MLSAGVerify C msg ring osig =
     (case osig of None \<Rightarrow> Inl NilSignature | Some sig \<Rightarrow>
      if length ring \<noteq> RingSize \<or> length (mls_SS sig) \<noteq> RingSize then Inl RingLength
      else if \<not> distinct ring then Inl DuplicateMember
      else case image_point C (mls_KeyImage sig) of Inl e \<Rightarrow> Inl e | Inr I \<Rightarrow>
      case ScalarFromBytes (mls_C0 sig) of None \<Rightarrow> Inl BadScalar | Some c0 \<Rightarrow>
      case foldE (mlsag_verify_step C msg ring I (mls_SS sig)) [0..<RingSize] c0 of Inl e \<Rightarrow> Inl e
      | Inr c \<Rightarrow> Inr (sc_bytes c0 = sc_bytes c))"

subsection \<open>MLSAG bound to a commitment\<close>

definition ringCommitmentQ :: "('p::ab_group_add) curve \<Rightarrow> int \<Rightarrow> int \<Rightarrow> int \<Rightarrow> 'p \<Rightarrow> 'p" where
  "ringCommitmentQ C sr sv c commitment = base_mul C sr + smul sv (hGenerator C) + smul c commitment"

definition ringChallengeV4 :: "('p::ab_group_add) curve \<Rightarrow> hash32 \<Rightarrow> u32 \<Rightarrow> 'p \<Rightarrow> 'p \<Rightarrow> 'p \<Rightarrow> int" where
  "ringChallengeV4 C msg index l r q =
     sc_uniform (cv_sha512 C (str_bytes ''Aperod/MLSAG/v4/commitment-binding'' @ arr_bytes msg @ le_put32 index
       @ pt_data C l @ pt_data C r @ pt_data C q))"

definition ringLinkChallenge :: "('p::ab_group_add) curve \<Rightarrow> hash32 \<Rightarrow> u32 \<Rightarrow> point32 \<Rightarrow> commitment \<Rightarrow> key_image \<Rightarrow> 'p \<Rightarrow> int" where
  "ringLinkChallenge C msg index pub commitment ki linkR =
     sc_uniform (cv_sha512 C (str_bytes ''Aperod/RingCT/v4/real-input-link'' @ arr_bytes msg @ le_put32 index
       @ arr_bytes pub @ arr_bytes commitment @ arr_bytes ki @ pt_data C linkR))"

definition amountCommitForV4 :: "('p::ab_group_add) curve \<Rightarrow> int \<Rightarrow> int \<Rightarrow> commitment" where
  "amountCommitForV4 C r v = cv_bytes C (base_mul C r + smul v (hGenerator C))"

definition validateRingForV4 :: "point32 list \<Rightarrow> int \<Rightarrow> crypto_error + unit" where
  "validateRingForV4 ring realIdx =
     (if length ring \<noteq> RingSize then Inl RingLength
      else if realIdx < 0 \<or> int RingSize \<le> realIdx then Inl RealIndexOutOfRange
      else if \<not> distinct ring then Inl DuplicateMember else Inr ())"

definition v4_challenge :: "('p::ab_group_add) curve \<Rightarrow> hash32 \<Rightarrow> point32 list \<Rightarrow> 'p \<Rightarrow> 'p \<Rightarrow> nat \<Rightarrow> int \<times> int \<times> int \<Rightarrow> int \<Rightarrow> 'p \<Rightarrow> int" where
  "v4_challenge C msg ring I claimed i s c P =
     (let (sx, sr, sv) = s in
      ringChallengeV4 C msg (word_of_nat i) (ringL C sx c P) (ringR sx c (ring_hash C (ring ! i)) I)
        (ringCommitmentQ C sr sv c claimed))"

text \<open>The three arrays of responses are one list of triples.\<close>

definition v4_sign_step :: "('p::ab_group_add) curve \<Rightarrow> hash32 \<Rightarrow> point32 list \<Rightarrow> 'p \<Rightarrow> 'p \<Rightarrow> nat \<Rightarrow> randomness
    \<Rightarrow> nat \<Rightarrow> (int \<times> int \<times> int) list \<times> int list \<Rightarrow> crypto_error + (int \<times> int \<times> int) list \<times> int list" where
  "v4_sign_step C msg ring I claimed realIdx rnd i st =
     (let (ss, cc) = st; idx = (realIdx + i) mod RingSize; nextI = (realIdx + i + 1) mod RingSize in
      case randomScalar rnd (3 * i) of Inl e \<Rightarrow> Inl e | Inr sx \<Rightarrow>
      case randomScalar rnd (3 * i + 1) of Inl e \<Rightarrow> Inl e | Inr sr \<Rightarrow>
      case randomScalar rnd (3 * i + 2) of Inl e \<Rightarrow> Inl e | Inr sv \<Rightarrow>
      case PointFromBytes C (ring ! idx) of Inl e \<Rightarrow> Inl e | Inr Pi \<Rightarrow>
      Inr (ss[idx := (sx, sr, sv)], cc[nextI := v4_challenge C msg ring I claimed idx (sx, sr, sv) (cc ! idx) Pi]))"

definition v4_finish :: "('p::ab_group_add) curve \<Rightarrow> hash32 \<Rightarrow> nat \<Rightarrow> point32 \<Rightarrow> commitment \<Rightarrow> key_image \<Rightarrow> int
    \<Rightarrow> (int \<times> int \<times> int) list \<Rightarrow> int \<Rightarrow> crypto_error + int \<Rightarrow> crypto_error + MLSAGSignature" where
  "v4_finish C msg ri pub amountCommit ki x ss c0 nonce =
     (case nonce of Inl e \<Rightarrow> Inl e | Inr linkAlpha \<Rightarrow>
      let linkR = base_mul C linkAlpha;
          linkC = ringLinkChallenge C msg (word_of_nat ri) pub amountCommit ki linkR;
          linkS = sc_sub linkAlpha (sc_mul linkC x)
      in Inr \<lparr>mls_C0 = sc_bytes c0, mls_SS = map (\<lambda>s. sc_bytes (fst s)) ss, mls_KeyImage = ki,
              mls_BlindSS = map (\<lambda>s. sc_bytes (fst (snd s))) ss, mls_ValueSS = map (\<lambda>s. sc_bytes (snd (snd s))) ss,
              mls_LinkR = cv_bytes C linkR, mls_LinkS = sc_bytes linkS\<rparr>)"

definition v4_ring :: "('p::ab_group_add) curve \<Rightarrow> hash32 \<Rightarrow> point32 list \<Rightarrow> nat \<Rightarrow> int \<Rightarrow> int \<Rightarrow> int \<Rightarrow> commitment \<Rightarrow> 'p
    \<Rightarrow> key_image \<Rightarrow> 'p \<Rightarrow> randomness \<Rightarrow> crypto_error + MLSAGSignature" where
  "v4_ring C msg ring ri x r v amountCommit claimed ki I rnd =
     (case randomScalar rnd 0 of Inl e \<Rightarrow> Inl e | Inr alphaX \<Rightarrow>
      case randomScalar rnd 1 of Inl e \<Rightarrow> Inl e | Inr alphaR \<Rightarrow>
      case randomScalar rnd 2 of Inl e \<Rightarrow> Inl e | Inr alphaV \<Rightarrow>
      let l = base_mul C alphaX; rr = smul alphaX (ring_hash C (ring ! ri));
          q = base_mul C alphaR + smul alphaV (hGenerator C);
          cc = ring_start ri (ringChallengeV4 C msg (word_of_nat ri) l rr q) in
      case foldE (v4_sign_step C msg ring I claimed ri rnd) [1..<RingSize] (replicate RingSize (0, 0, 0), cc) of
        Inl e \<Rightarrow> Inl e
      | Inr (ss, cc) \<Rightarrow>
          let c = cc ! ri;
              ss = ss[ri := (sc_sub alphaX (sc_mul c x), sc_sub alphaR (sc_mul c r), sc_sub alphaV (sc_mul c v))]
          in v4_finish C msg ri (ring ! ri) amountCommit ki x ss (cc ! 0) (randomScalar rnd (3 * RingSize)))"

definition MLSAGSignV4 :: "('p::ab_group_add) curve \<Rightarrow> hash32 \<Rightarrow> point32 list \<Rightarrow> int \<Rightarrow> scalar32 \<Rightarrow> scalar32 \<Rightarrow> u64 \<Rightarrow> randomness
    \<Rightarrow> crypto_error + MLSAGSignature" where
  "MLSAGSignV4 C msg ring realIdx privKey blind value rnd =
     (case validateRingForV4 ring realIdx of Inl e \<Rightarrow> Inl e | Inr _ \<Rightarrow>
      let ri = nat realIdx in
      case ScalarFromBytes privKey of None \<Rightarrow> Inl BadScalar | Some x \<Rightarrow>
      case ScalarFromBytes blind of None \<Rightarrow> Inl BadScalar | Some r \<Rightarrow>
      let v = scalarFromUint64 value; amountCommit = amountCommitForV4 C r v in
      case PointFromBytes C amountCommit of Inl e \<Rightarrow> Inl e | Inr claimed \<Rightarrow>
      case ComputeKeyImage C privKey (ring ! ri) of Inl e \<Rightarrow> Inl e | Inr ki \<Rightarrow>
      case PointFromBytes C ki of Inl e \<Rightarrow> Inl e | Inr I \<Rightarrow>
      v4_ring C msg ring ri x r v amountCommit claimed ki I rnd)"

definition v4_verify_step :: "('p::ab_group_add) curve \<Rightarrow> hash32 \<Rightarrow> point32 list \<Rightarrow> 'p \<Rightarrow> 'p \<Rightarrow> MLSAGSignature
    \<Rightarrow> nat \<Rightarrow> int \<Rightarrow> crypto_error + int" where
  "v4_verify_step C msg ring I claimed sig i c =
     (case ScalarFromBytes (mls_SS sig ! i) of None \<Rightarrow> Inl BadScalar | Some sx \<Rightarrow>
      case ScalarFromBytes (mls_BlindSS sig ! i) of None \<Rightarrow> Inl BadScalar | Some sr \<Rightarrow>
      case ScalarFromBytes (mls_ValueSS sig ! i) of None \<Rightarrow> Inl BadScalar | Some sv \<Rightarrow>
      case PointFromBytes C (ring ! i) of Inl e \<Rightarrow> Inl e | Inr Pi \<Rightarrow>
      Inr (v4_challenge C msg ring I claimed i (sx, sr, sv) c Pi))"

definition v4_link :: "('p::ab_group_add) curve \<Rightarrow> hash32 \<Rightarrow> point32 list \<Rightarrow> commitment \<Rightarrow> nat \<Rightarrow> MLSAGSignature
    \<Rightarrow> crypto_error + bool" where
  "v4_link C msg ring amountCommit ri sig =
     (case PointFromBytes C (mls_LinkR sig) of Inl e \<Rightarrow> Inl e | Inr linkR \<Rightarrow>
      case ScalarFromBytes (mls_LinkS sig) of None \<Rightarrow> Inl BadScalar | Some linkS \<Rightarrow>
      case PointFromBytes C (ring ! ri) of Inl e \<Rightarrow> Inl e | Inr realPub \<Rightarrow>
      let linkC = ringLinkChallenge C msg (word_of_nat ri) (ring ! ri) amountCommit (mls_KeyImage sig) linkR
      in Inr (cv_bytes C (ringL C linkS linkC realPub) = cv_bytes C linkR))"

definition MLSAGVerifyV4 :: "('p::ab_group_add) curve \<Rightarrow> hash32 \<Rightarrow> point32 list \<Rightarrow> commitment \<Rightarrow> int \<Rightarrow> MLSAGSignature option
    \<Rightarrow> crypto_error + bool" where
  "MLSAGVerifyV4 C msg ring amountCommit realIdx osig =
     (case osig of None \<Rightarrow> Inl NilSignature | Some sig \<Rightarrow>
      if length (mls_SS sig) \<noteq> RingSize \<or> length (mls_BlindSS sig) \<noteq> RingSize \<or> length (mls_ValueSS sig) \<noteq> RingSize
        then Inl ResponseLength
      else case validateRingForV4 ring 0 of Inl e \<Rightarrow> Inl e | Inr _ \<Rightarrow>
      if realIdx < 0 \<or> int RingSize \<le> realIdx then Inl RealIndexOutOfRange
      else case image_point C (mls_KeyImage sig) of Inl e \<Rightarrow> Inl e | Inr I \<Rightarrow>
      case ScalarFromBytes (mls_C0 sig) of None \<Rightarrow> Inl BadScalar | Some c0 \<Rightarrow>
      case PointFromBytes C amountCommit of Inl e \<Rightarrow> Inl e | Inr claimed \<Rightarrow>
      case foldE (v4_verify_step C msg ring I claimed sig) [0..<RingSize] c0 of Inl e \<Rightarrow> Inl e
      | Inr c \<Rightarrow> if sc_bytes c0 \<noteq> sc_bytes c then Inr False else v4_link C msg ring amountCommit (nat realIdx) sig)"

subsection \<open>CLSAG\<close>

definition clsag_transcript :: "string \<Rightarrow> hash32 \<Rightarrow> point32 list \<Rightarrow> commitment list \<Rightarrow> commitment \<Rightarrow> key_image \<Rightarrow> point32 \<Rightarrow> bytes" where
  "clsag_transcript domain msg keys commitments pseudo ki d =
     str_bytes domain @ arr_bytes msg
     @ concat (map (\<lambda>i. arr_bytes (keys ! i) @ arr_bytes (commitments ! i)) [0..<RingSize])
     @ arr_bytes pseudo @ arr_bytes ki @ arr_bytes d"

definition clsagMus :: "('p::ab_group_add) curve \<Rightarrow> hash32 \<Rightarrow> point32 list \<Rightarrow> commitment list \<Rightarrow> commitment \<Rightarrow> key_image \<Rightarrow> point32
    \<Rightarrow> int \<times> int" where
  "clsagMus C msg keys commitments pseudo ki d =
     (sc_uniform (cv_sha512 C (clsag_transcript ''Aperod/CLSAG/v1/muP'' msg keys commitments pseudo ki d)),
      sc_uniform (cv_sha512 C (clsag_transcript ''Aperod/CLSAG/v1/muC'' msg keys commitments pseudo ki d)))"

definition clsagChallenge :: "('p::ab_group_add) curve \<Rightarrow> hash32 \<Rightarrow> point32 list \<Rightarrow> commitment list \<Rightarrow> commitment \<Rightarrow> key_image \<Rightarrow> point32
    \<Rightarrow> nat \<Rightarrow> 'p \<Rightarrow> 'p \<Rightarrow> int" where
  "clsagChallenge C msg keys commitments pseudo ki d index l r =
     sc_uniform (cv_sha512 C (clsag_transcript ''Aperod/CLSAG/v1/challenge'' msg keys commitments pseudo ki d
       @ le_put32 (word_of_nat index) @ pt_data C l @ pt_data C r))"

definition clsagAggregateW :: "int \<Rightarrow> int \<Rightarrow> 'p::ab_group_add list \<Rightarrow> 'p list \<Rightarrow> 'p \<Rightarrow> 'p list" where
  "clsagAggregateW muP muC keys commitments pseudo =
     map (\<lambda>i. smul muP (keys ! i) + smul muC (commitments ! i - pseudo)) [0..<RingSize]"

definition clsag_member :: "('p::ab_group_add) curve \<Rightarrow> point32 list \<Rightarrow> commitment list \<Rightarrow> nat \<Rightarrow> 'p list \<times> 'p list
    \<Rightarrow> crypto_error + 'p list \<times> 'p list" where
  "clsag_member C ringKeys ringCommitments i acc =
     (let (keys, commitments) = acc in
      if ringKeys ! i \<in> set (take i ringKeys) then Inl DuplicateMember
      else case checkedCLSAGSubgroupPoint C (ringKeys ! i) False of Inl e \<Rightarrow> Inl e | Inr k \<Rightarrow>
      case checkedCLSAGSubgroupPoint C (ringCommitments ! i) True of Inl e \<Rightarrow> Inl e | Inr c \<Rightarrow>
      Inr (keys @ [k], commitments @ [c]))"

definition validateCLSAGInputs :: "('p::ab_group_add) curve \<Rightarrow> point32 list \<Rightarrow> commitment list \<Rightarrow> commitment \<Rightarrow> int
    \<Rightarrow> crypto_error + 'p list \<times> 'p list \<times> 'p" where
  "validateCLSAGInputs C ringKeys ringCommitments pseudoOut realIdx =
     (if length ringKeys \<noteq> RingSize \<or> length ringCommitments \<noteq> RingSize then Inl RingLength
      else if realIdx < 0 \<or> int RingSize \<le> realIdx then Inl RealIndexOutOfRange
      else case foldE (clsag_member C ringKeys ringCommitments) [0..<RingSize] ([], []) of Inl e \<Rightarrow> Inl e
      | Inr (keys, commitments) \<Rightarrow>
      (case checkedCLSAGSubgroupPoint C pseudoOut True of Inl e \<Rightarrow> Inl e
       | Inr pseudo \<Rightarrow> Inr (keys, commitments, pseudo)))"

definition clsag_sign_step :: "('p::ab_group_add) curve \<Rightarrow> (nat \<Rightarrow> 'p \<Rightarrow> 'p \<Rightarrow> int) \<Rightarrow> point32 list \<Rightarrow> 'p list \<Rightarrow> 'p \<Rightarrow> nat \<Rightarrow> randomness
    \<Rightarrow> nat \<Rightarrow> int list \<times> int list \<Rightarrow> crypto_error + int list \<times> int list" where
  "clsag_sign_step C chal ringKeys w J realIdx rnd offset st =
     (let (s, c) = st; i = (realIdx + offset) mod RingSize in
      case randomScalar rnd offset of Inl e \<Rightarrow> Inl e | Inr si \<Rightarrow>
      let l = ringL C si (c ! i) (w ! i); r = ringR si (c ! i) (ring_hash C (ringKeys ! i)) J
      in Inr (s[i := si], c[nextIdx i := chal i l r]))"

definition clsag_ring :: "('p::ab_group_add) curve \<Rightarrow> (nat \<Rightarrow> 'p \<Rightarrow> 'p \<Rightarrow> int) \<Rightarrow> point32 list \<Rightarrow> 'p list \<Rightarrow> 'p \<Rightarrow> nat \<Rightarrow> int \<Rightarrow> randomness
    \<Rightarrow> crypto_error + int list \<times> int" where
  "clsag_ring C chal ringKeys w J ri witness rnd =
     (case randomScalar rnd 0 of Inl e \<Rightarrow> Inl e | Inr alpha \<Rightarrow>
      let l = base_mul C alpha; r = smul alpha (ring_hash C (ringKeys ! ri));
          c = ring_start ri (chal ri l r) in
      case foldE (clsag_sign_step C chal ringKeys w J ri rnd) [1..<RingSize] (replicate RingSize 0, c) of
        Inl e \<Rightarrow> Inl e
      | Inr (s, c) \<Rightarrow> Inr (s[ri := sc_sub alpha (sc_mul (c ! ri) witness)], c ! 0))"

text \<open>The secrets of the signer, checked against its ring member.\<close>

definition clsag_secrets :: "('p::ab_group_add) curve \<Rightarrow> 'p \<Rightarrow> 'p \<Rightarrow> scalar32 \<Rightarrow> scalar32 \<Rightarrow> scalar32 \<Rightarrow> crypto_error + int \<times> int" where
  "clsag_secrets C key diff privateKey inputBlind pseudoBlind =
     (case ScalarFromBytes privateKey of None \<Rightarrow> Inl BadScalar | Some x \<Rightarrow>
      case ScalarFromBytes inputBlind of None \<Rightarrow> Inl BadScalar | Some inBlind \<Rightarrow>
      case ScalarFromBytes pseudoBlind of None \<Rightarrow> Inl BadScalar | Some outBlind \<Rightarrow>
      if base_mul C x \<noteq> key then Inl KeyMismatch
      else let z = sc_sub inBlind outBlind in
      if base_mul C z \<noteq> diff then Inl BlindMismatch else Inr (x, z))"

definition CLSAGSign :: "('p::ab_group_add) curve \<Rightarrow> hash32 \<Rightarrow> point32 list \<Rightarrow> commitment list \<Rightarrow> commitment \<Rightarrow> int
    \<Rightarrow> scalar32 \<Rightarrow> scalar32 \<Rightarrow> scalar32 \<Rightarrow> randomness \<Rightarrow> crypto_error + CLSAGSignature" where
  "CLSAGSign C msg ringKeys ringCommitments pseudoOut realIdx privateKey inputBlind pseudoBlind rnd =
     (case validateCLSAGInputs C ringKeys ringCommitments pseudoOut realIdx of Inl e \<Rightarrow> Inl e
      | Inr (keys, commitments, pseudo) \<Rightarrow>
      let ri = nat realIdx in
      case clsag_secrets C (keys ! ri) (commitments ! ri - pseudo) privateKey inputBlind pseudoBlind of Inl e \<Rightarrow> Inl e
      | Inr (x, z) \<Rightarrow>
      case ComputeKeyImage C privateKey (ringKeys ! ri) of Inl e \<Rightarrow> Inl e | Inr ki \<Rightarrow>
      case checkedCLSAGPrimePoint C ki of Inl e \<Rightarrow> Inl e | Inr I \<Rightarrow>
      let D = smul z (ring_hash C (ringKeys ! ri)); d = cv_bytes C D in
      case checkedCLSAGDPoint C d of Inl e \<Rightarrow> Inl e | Inr _ \<Rightarrow>
      let (muP, muC) = clsagMus C msg ringKeys ringCommitments pseudoOut ki d;
          witness = sc_muladd muC z (sc_mul muP x);
          w = clsagAggregateW muP muC keys commitments pseudo;
          J = smul muP I + smul muC D;
          chal = clsagChallenge C msg ringKeys ringCommitments pseudoOut ki d in
      case clsag_ring C chal ringKeys w J ri witness rnd of Inl e \<Rightarrow> Inl e
      | Inr (s, c0) \<Rightarrow> Inr \<lparr>cls_C1 = sc_bytes c0, cls_S = map sc_bytes s, cls_KeyImage = ki, cls_D = d\<rparr>)"

definition clsag_verify_step :: "('p::ab_group_add) curve \<Rightarrow> (nat \<Rightarrow> 'p \<Rightarrow> 'p \<Rightarrow> int) \<Rightarrow> point32 list \<Rightarrow> 'p list \<Rightarrow> 'p \<Rightarrow> scalar32 list
    \<Rightarrow> nat \<Rightarrow> int \<Rightarrow> crypto_error + int" where
  "clsag_verify_step C chal ringKeys w J S i c =
     (case ScalarFromBytes (S ! i) of None \<Rightarrow> Inl BadScalar
      | Some s \<Rightarrow> Inr (chal i (ringL C s c (w ! i)) (ringR s c (ring_hash C (ringKeys ! i)) J)))"

definition CLSAGVerify :: "('p::ab_group_add) curve \<Rightarrow> hash32 \<Rightarrow> point32 list \<Rightarrow> commitment list \<Rightarrow> commitment \<Rightarrow> CLSAGSignature option
    \<Rightarrow> crypto_error + bool" where
  "CLSAGVerify C msg ringKeys ringCommitments pseudoOut osig =
     (case osig of None \<Rightarrow> Inl NilSignature | Some sig \<Rightarrow>
      if length (cls_S sig) \<noteq> RingSize then Inl ResponseLength
      else case validateCLSAGInputs C ringKeys ringCommitments pseudoOut 0 of Inl e \<Rightarrow> Inl e
      | Inr (keys, commitments, pseudo) \<Rightarrow>
      case checkedCLSAGPrimePoint C (cls_KeyImage sig) of Inl e \<Rightarrow> Inl e | Inr I \<Rightarrow>
      case checkedCLSAGDPoint C (cls_D sig) of Inl e \<Rightarrow> Inl e | Inr D \<Rightarrow>
      case ScalarFromBytes (cls_C1 sig) of None \<Rightarrow> Inl BadScalar | Some c0 \<Rightarrow>
      let (muP, muC) = clsagMus C msg ringKeys ringCommitments pseudoOut (cls_KeyImage sig) (cls_D sig);
          w = clsagAggregateW muP muC keys commitments pseudo;
          J = smul muP I + smul muC D;
          chal = clsagChallenge C msg ringKeys ringCommitments pseudoOut (cls_KeyImage sig) (cls_D sig) in
      case foldE (clsag_verify_step C chal ringKeys w J (cls_S sig)) [0..<RingSize] c0 of Inl e \<Rightarrow> Inl e
      | Inr c \<Rightarrow> Inr (sc_bytes c0 = sc_bytes c))"

subsection \<open>The key-image proof of a stake deposit\<close>

definition keyImageDLEQChallenge :: "('p::ab_group_add) curve \<Rightarrow> point32 \<Rightarrow> key_image \<Rightarrow> point32 \<Rightarrow> point32 \<Rightarrow> bytes \<Rightarrow> int" where
  "keyImageDLEQChallenge C P ki A B context =
     hashToScalar C (str_bytes ''aperod/stake/key-image-dleq/v1'' @ be_put64 (word_of_nat (length context)) @ context
       @ arr_bytes P @ arr_bytes ki @ arr_bytes A @ arr_bytes B) ''aperod/stake/key-image-dleq/challenge/v1''"

text \<open>A zero nonce is drawn once more.\<close>

definition dleq_nonce :: "randomness \<Rightarrow> crypto_error + int" where
  "dleq_nonce rnd =
     (case randomScalar rnd 0 of Inl e \<Rightarrow> Inl e | Inr w \<Rightarrow>
      if w \<noteq> 0 then Inr w
      else case randomScalar rnd 1 of Inl e \<Rightarrow> Inl e
      | Inr w \<Rightarrow> if w = 0 then Inl ZeroNonce else Inr w)"

definition ProveKeyImage :: "('p::ab_group_add) curve \<Rightarrow> scalar32 \<Rightarrow> point32 \<Rightarrow> bytes \<Rightarrow> randomness
    \<Rightarrow> crypto_error + key_image \<times> KeyImageDLEQProof" where
  "ProveKeyImage C secret P context rnd =
     (case ScalarFromBytes secret of None \<Rightarrow> Inl BadScalar | Some x \<Rightarrow>
      case checkedDLEQPoint C P of Inl e \<Rightarrow> Inl e | Inr _ \<Rightarrow>
      if cv_bytes C (base_mul C x) \<noteq> P then Inl KeyMismatch
      else case ComputeKeyImage C secret P of Inl e \<Rightarrow> Inl e | Inr ki \<Rightarrow>
      case dleq_nonce rnd of Inl e \<Rightarrow> Inl e | Inr w \<Rightarrow>
      let hp = ring_hash C P; A = cv_bytes C (base_mul C w); B = cv_bytes C (smul w hp);
          c = keyImageDLEQChallenge C P ki A B context; z = sc_muladd c x w
      in Inr (ki, \<lparr>ki_CommitmentG = A, ki_CommitmentHp = B, ki_Response = sc_bytes z\<rparr>))"

definition VerifyKeyImageProof :: "('p::ab_group_add) curve \<Rightarrow> point32 \<Rightarrow> key_image \<Rightarrow> bytes \<Rightarrow> KeyImageDLEQProof
    \<Rightarrow> crypto_error + unit" where
  "VerifyKeyImageProof C P ki context proof =
     (case checkedDLEQPoint C P of Inl e \<Rightarrow> Inl e | Inr p \<Rightarrow>
      case checkedDLEQPoint C ki of Inl e \<Rightarrow> Inl e | Inr imagePoint \<Rightarrow>
      case checkedDLEQPoint C (ki_CommitmentG proof) of Inl e \<Rightarrow> Inl e | Inr A \<Rightarrow>
      case checkedDLEQPoint C (ki_CommitmentHp proof) of Inl e \<Rightarrow> Inl e | Inr B \<Rightarrow>
      case ScalarFromBytes (ki_Response proof) of None \<Rightarrow> Inl BadScalar | Some z \<Rightarrow>
      let hp = ring_hash C P;
          c = keyImageDLEQChallenge C P ki (ki_CommitmentG proof) (ki_CommitmentHp proof) context
      in if base_mul C z \<noteq> A + smul c p \<or> smul z hp \<noteq> B + smul c imagePoint then Inl ProofRejected else Inr ())"

subsection \<open>The opening proof of a sale output\<close>

definition valueAuthorizationChallenge :: "('p::ab_group_add) curve \<Rightarrow> u64 \<Rightarrow> commitment \<Rightarrow> bytes \<Rightarrow> int" where
  "valueAuthorizationChallenge C amount commit nonce =
     sc_uniform (cv_sha512 C (str_bytes ''aperod/sale/known-value-opening/v1'' @ be_put64 amount @ arr_bytes commit @ nonce))"

definition ProveValueAuthorization :: "('p::ab_group_add) curve \<Rightarrow> u64 \<Rightarrow> scalar32 \<Rightarrow> randomness
    \<Rightarrow> crypto_error + commitment \<times> point32 \<times> scalar32" where
  "ProveValueAuthorization C amount blind rnd =
     (case Commit C amount blind of Inl e \<Rightarrow> Inl e | Inr commit \<Rightarrow>
      case ScalarFromBytes blind of None \<Rightarrow> Inl BadScalar | Some r \<Rightarrow>
      case randomScalar rnd 0 of Inl e \<Rightarrow> Inl e | Inr k \<Rightarrow>
      let R = cv_bytes C (base_mul C k);
          challenge = valueAuthorizationChallenge C amount commit (arr_bytes R)
      in Inr (commit, R, sc_bytes (sc_muladd challenge r k)))"

definition VerifyValueAuthorization :: "('p::ab_group_add) curve \<Rightarrow> u64 \<Rightarrow> commitment \<Rightarrow> point32 \<times> scalar32
    \<Rightarrow> crypto_error + unit" where
  "VerifyValueAuthorization C amount commit proof =
     (case checkedCLSAGSubgroupPoint C commit True of Inl e \<Rightarrow> Inl e | Inr c \<Rightarrow>
      case checkedCLSAGPrimePoint C (fst proof) of Inl e \<Rightarrow> Inl e | Inr R \<Rightarrow>
      case ScalarFromBytes (snd proof) of None \<Rightarrow> Inl BadScalar | Some s \<Rightarrow>
      let difference = c - smul (scalarFromUint64 amount) (hGenerator C);
          challenge = valueAuthorizationChallenge C amount commit (arr_bytes (fst proof))
      in if base_mul C s \<noteq> R + smul challenge difference then Inl ProofRejected else Inr ())"

section \<open>Closing the ring\<close>

lemma ring_size_pos [simp]: "0 < RingSize" "RingSize \<noteq> 0"
  by (simp_all add: RingSize_def)

lemma mod_shift_neq:
  assumes "i < j" and "j < i + RingSize"
  shows "(a + i) mod RingSize \<noteq> (a + j) mod RingSize"
proof
  assume "(a + i) mod RingSize = (a + j) mod RingSize"
  then have "RingSize dvd (a + j) - (a + i)" using assms(1) by (metis mod_eq_dvd_iff_nat add_le_cancel_left less_imp_le)
  then have "RingSize dvd j - i" by simp
  then have "RingSize \<le> j - i" using assms(1) by (intro dvd_imp_le) simp_all
  with assms show False by linarith
qed

lemma ring_offset:
  assumes "j < RingSize" and "a < RingSize"
  obtains i where "i < RingSize" "j = (a + i) mod RingSize" "i = 0 \<longleftrightarrow> j = a"
proof (cases "a \<le> j")
  case True
  then show ?thesis using that [of "j - a"] assms by simp
next
  case False
  then show ?thesis using that [of "j + RingSize - a"] assms by simp
qed

text \<open>
  A signing loop visits the members after the signer's: it draws a response for each, and stores
  the challenge it determines for the next member.
\<close>

locale ring_loop =
  fixes body :: "nat \<Rightarrow> 's list \<times> int list \<Rightarrow> crypto_error + 's list \<times> int list"
    and F :: "nat \<Rightarrow> 's \<Rightarrow> int \<Rightarrow> int"
    and first :: nat
    and good :: "'s \<Rightarrow> bool"
  assumes body_form: "body i (ss, cc) = Inr st \<Longrightarrow>
      \<exists>s. good s \<and> st = (ss[(first + i) mod RingSize := s],
             cc[(first + i + 1) mod RingSize := F ((first + i) mod RingSize) s (cc ! ((first + i) mod RingSize))])"
    and F_scalar: "sc_ok (F j s c)"
begin

definition linked :: "nat \<Rightarrow> 's list \<Rightarrow> int list \<Rightarrow> bool" where
  "linked i ss cc \<longleftrightarrow>
     (let j = (first + i) mod RingSize in good (ss ! j) \<and> cc ! ((first + i + 1) mod RingSize) = F j (ss ! j) (cc ! j))"

lemma loop_links:
  assumes "foldE body [1..<Suc k] (ss0, cc0) = Inr (ss, cc)" and "k < RingSize"
    and "length ss0 = RingSize" and "length cc0 = RingSize + 1"
  shows "length ss = RingSize \<and> length cc = RingSize + 1
    \<and> cc ! ((first + 1) mod RingSize) = cc0 ! ((first + 1) mod RingSize) \<and> (\<forall>i. 1 \<le> i \<and> i \<le> k \<longrightarrow> linked i ss cc)"
  using assms(1,2)
proof (induction k arbitrary: ss cc)
  case 0
  then show ?case using assms(3,4) by auto
next
  case (Suc k)
  from Suc.prems(1) obtain ss1 cc1 where
    pre: "foldE body [1..<Suc k] (ss0, cc0) = Inr (ss1, cc1)" and last: "body (Suc k) (ss1, cc1) = Inr (ss, cc)"
    by (auto simp: foldE_append split: sum.splits)
  let ?j = "(first + Suc k) mod RingSize" and ?n = "(first + Suc k + 1) mod RingSize"
  from body_form [OF last] obtain s where s: "good s" "ss = ss1[?j := s]" "cc = cc1[?n := F ?j s (cc1 ! ?j)]"
    by auto
  have IH: "length ss1 = RingSize" "length cc1 = RingSize + 1"
    "cc1 ! ((first + 1) mod RingSize) = cc0 ! ((first + 1) mod RingSize)" "\<And>i. 1 \<le> i \<Longrightarrow> i \<le> k \<Longrightarrow> linked i ss1 cc1"
    using Suc.IH [OF pre] Suc.prems(2) by auto
  have lt: "?j < length ss1" "?j < length cc1" "?n < length cc1" by (simp_all add: IH less_Suc_eq)
  have nj: "?j \<noteq> ?n" using mod_shift_neq [of "Suc k" "Suc k + 1" first] by (simp add: RingSize_def)
  have "linked i ss cc" if "1 \<le> i" "i \<le> Suc k" for i
  proof (cases "i = Suc k")
    case True
    then show ?thesis using s lt nj by (simp add: linked_def Let_def)
  next
    case False
    let ?ji = "(first + i) mod RingSize" and ?ni = "(first + i + 1) mod RingSize"
    have "?ji \<noteq> ?j" "?ji \<noteq> ?n" "?ni \<noteq> ?n"
      using mod_shift_neq [of i "Suc k" first] mod_shift_neq [of i "Suc k + 1" first]
        mod_shift_neq [of "i + 1" "Suc k + 1" first] that False Suc.prems(2) by (auto simp: add.assoc)
    then show ?thesis using IH(4) [of i] that False s by (simp add: linked_def Let_def)
  qed
  moreover have "(first + 1) mod RingSize \<noteq> ?n"
    using mod_shift_neq [of 1 "Suc k + 1" first] Suc.prems(2) by (simp add: add.assoc)
  ultimately show ?case using IH s by simp
qed

text \<open>With the response of the signer itself, the challenges form a ring, and a walk around it
  from the first challenge ends there.\<close>

lemma ring_complete:
  assumes loop: "foldE body [1..<RingSize] (ss0, cc0) = Inr (ss, cc)"
    and len: "length ss0 = RingSize" "length cc0 = RingSize + 1" and fl: "first < RingSize"
    and sr: "good sr" "F first sr (cc ! first) = cc0 ! nextIdx first"
  shows "length ss = RingSize"
    and "j < RingSize \<Longrightarrow> good (ss[first := sr] ! j)"
    and "j < RingSize \<Longrightarrow> cc ! ((j + 1) mod RingSize) = F j (ss[first := sr] ! j) (cc ! j)"
proof -
  obtain k where k: "RingSize = Suc k" by (metis ring_size_pos(1) gr0_implies_Suc)
  have L: "length ss = RingSize" "length cc = RingSize + 1"
    "cc ! ((first + 1) mod RingSize) = cc0 ! ((first + 1) mod RingSize)" "\<And>i. 1 \<le> i \<Longrightarrow> i < RingSize \<Longrightarrow> linked i ss cc"
    using loop_links [of k ss0 cc0 ss cc] loop len by (auto simp: k)
  let ?ss = "ss[first := sr]"
  have "good (?ss ! j) \<and> cc ! ((j + 1) mod RingSize) = F j (?ss ! j) (cc ! j)" if j: "j < RingSize" for j
  proof (rule ring_offset [OF j fl])
    fix i assume i: "i < RingSize" "j = (first + i) mod RingSize" "i = 0 \<longleftrightarrow> j = first"
    show ?thesis
    proof (cases "i = 0")
      case True
      then show ?thesis using i sr L fl by (simp add: nextIdx_def)
    next
      case False
      then have "linked i ss cc" using L(4) i by simp
      moreover have "(first + i + 1) mod RingSize = (j + 1) mod RingSize" by (simp add: i(2) mod_simps)
      ultimately show ?thesis using i False by (simp add: linked_def Let_def)
    qed
  qed
  then show "j < RingSize \<Longrightarrow> good (ss[first := sr] ! j)"
    "j < RingSize \<Longrightarrow> cc ! ((j + 1) mod RingSize) = F j (ss[first := sr] ! j) (cc ! j)" by blast+
  show "length ss = RingSize" by (fact L(1))
qed

lemma ring_walk:
  assumes "\<And>j. j < RingSize \<Longrightarrow> cc ! ((j + 1) mod RingSize) = F j (ss ! j) (cc ! j)"
    and step: "\<And>i c. i < RingSize \<Longrightarrow> vstep i c = Inr (F i (ss ! i) c)"
  shows "foldE vstep [0..<RingSize] (cc ! 0) = Inr (cc ! 0)" and "sc_ok (cc ! 0)"
proof -
  have "foldE vstep [0..<n] (cc ! 0) = Inr (cc ! (n mod RingSize))" if "n \<le> RingSize" for n
    using that
  proof (induction n)
    case (Suc n)
    then show ?case using step [of n] assms(1) [of n] by (simp add: foldE_append)
  qed simp
  from this [of RingSize] show "foldE vstep [0..<RingSize] (cc ! 0) = Inr (cc ! 0)" by simp
  have "cc ! ((RingSize - 1 + 1) mod RingSize) = F (RingSize - 1) (ss ! (RingSize - 1)) (cc ! (RingSize - 1))"
    using assms(1) [of "RingSize - 1"] by simp
  moreover have "(RingSize - 1 + 1) mod RingSize = 0" by simp
  ultimately show "sc_ok (cc ! 0)" using F_scalar by metis
qed

end

lemma ring_start [simp]: "length (ring_start ri c) = Suc RingSize" "ring_start ri c ! nextIdx ri = c"
proof -
  have "nextIdx ri < RingSize" by (simp add: nextIdx_def)
  then have "nextIdx ri < length (replicate (RingSize + 1) (0 :: int))" by simp
  then show "ring_start ri c ! nextIdx ri = c" unfolding ring_start_def by (rule nth_list_update_eq)
  show "length (ring_start ri c) = Suc RingSize" by (simp add: ring_start_def del: replicate_Suc)
qed

lemma decoded_responses:
  assumes "i < RingSize" and "length ss = RingSize" and "\<And>j. j < RingSize \<Longrightarrow> sc_ok (ss ! j)"
  shows "ScalarFromBytes (map sc_bytes ss ! i) = Some (ss ! i)"
  using assms by simp

section \<open>Every signature that is made is accepted\<close>

lemma foldE_each:
  assumes "foldE f xs s = Inr t" and "x \<in> set xs"
  shows "\<exists>u v. f x u = Inr v"
  using assms by (induction xs arbitrary: s) (auto split: sum.splits)

lemma randomScalar_ok: "randomScalar rnd n = Inr s \<Longrightarrow> sc_ok s"
  by (auto simp: randomScalar_def split: option.splits)

lemma ring_hash_order [simp]: "curve_ok C \<Longrightarrow> smul ell (ring_hash C P) = 0"
  by (simp add: ring_hash_def hash_point_order)

text \<open>The response of the signer cancels its secret in both equations.\<close>

lemma response_cancels:
  assumes "smul ell p = 0"
  shows "smul (sc_sub a (sc_mul c x)) p + smul c (smul x p) = smul a p"
proof -
  have "smul (sc_sub a (sc_mul c x)) p = smul (a - c * x) p"
    by (rule smul_cong [OF assms]) (simp add: sc_sub_def sc_mul_def mod_simps)
  then show ?thesis by (simp add: points.scale_scale flip: points.scale_left_distrib)
qed

lemma ringL_cancels:
  "curve_ok C \<Longrightarrow> ringL C (sc_sub a (sc_mul c x)) c (base_mul C x) = base_mul C a"
  by (simp add: ringL_def base_mul_def response_cancels)

lemma ringR_cancels:
  "curve_ok C \<Longrightarrow> ringR (sc_sub a (sc_mul c x)) c (ring_hash C P) (smul x (ring_hash C P)) = smul a (ring_hash C P)"
  by (simp add: ringR_def response_cancels)

definition mlsag_link :: "('p::ab_group_add) curve \<Rightarrow> hash32 \<Rightarrow> point32 list \<Rightarrow> 'p \<Rightarrow> nat \<Rightarrow> int \<Rightarrow> int \<Rightarrow> int" where
  "mlsag_link C msg ring I j s c =
     ringChallenge C msg (ringL C s c (the (cv_parse C (ring ! j)))) (ringR s c (ring_hash C (ring ! j)) I)"

interpretation mlsag: ring_loop "mlsag_sign_step C msg ring I ri rnd" "mlsag_link C msg ring I" ri sc_ok
  by unfold_locales
     (auto simp: mlsag_sign_step_def mlsag_link_def ringChallenge_def Let_def PointFromBytes_def dest: randomScalar_ok split: sum.splits option.splits)

lemma mlsag_sign_parses:
  assumes "mlsag_sign_step C msg ring I ri rnd i st = Inr st'"
  shows "cv_parse C (ring ! ((ri + i) mod RingSize)) \<noteq> None"
  using assms by (auto simp: mlsag_sign_step_def Let_def PointFromBytes_def split: sum.splits option.splits prod.splits)

lemma other_members_parse:
  assumes "foldE body [1..<RingSize] st = Inr st'" and "ri < RingSize" and "cv_parse C (ring ! ri) \<noteq> None"
    and "\<And>i u v. body i u = Inr v \<Longrightarrow> cv_parse C (ring ! ((ri + i) mod RingSize)) \<noteq> None"
  shows "\<forall>j < RingSize. cv_parse C (ring ! j) \<noteq> None"
proof (intro allI impI)
  fix j assume j: "j < RingSize"
  show "cv_parse C (ring ! j) \<noteq> None"
  proof (rule ring_offset [OF j assms(2)])
    fix i assume i: "i < RingSize" "j = (ri + i) mod RingSize" "i = 0 \<longleftrightarrow> j = ri"
    show ?thesis
    proof (cases "i = 0")
      case False
      then show ?thesis using foldE_each [OF assms(1), of i] assms(4) i by auto
    qed (use i assms(3) in simp)
  qed
qed

lemma image_point_computed:
  assumes "curve_ok C" and "ComputeKeyImage C privKey P = Inr ki" and "ScalarFromBytes privKey = Some x" and "ki \<noteq> cv_bytes C 0"
  shows "image_point C ki = Inr (smul x (ring_hash C P))" and "PointFromBytes C ki = Inr (smul x (ring_hash C P))"
proof -
  have ki: "ki = cv_bytes C (smul x (ring_hash C P))"
    using assms(2,3) by (simp add: ComputeKeyImage_def ring_hash_def)
  then show parse: "PointFromBytes C ki = Inr (smul x (ring_hash C P))" using assms(1) by simp
  show "image_point C ki = Inr (smul x (ring_hash C P))"
    using computed_canonical [OF assms(1,2,4)] parse by (simp add: image_point_def)
qed

lemma MLSAGSign_Inr:
  assumes "MLSAGSign C msg ring realIdx privKey rnd = Inr sig"
  obtains ri x ki I alpha ss cc where
    "ri = nat realIdx" "ri < RingSize" "length ring = RingSize" "distinct ring" "ScalarFromBytes privKey = Some x"
    "ComputeKeyImage C privKey (ring ! ri) = Inr ki" "PointFromBytes C ki = Inr I" "randomScalar rnd 0 = Inr alpha"
    "foldE (mlsag_sign_step C msg ring I ri rnd) [1..<RingSize] (replicate RingSize 0,
       ring_start ri (ringChallenge C msg (base_mul C alpha) (smul alpha (ring_hash C (ring ! ri))))) = Inr (ss, cc)"
    "mls_C0 sig = sc_bytes (cc ! 0)" "mls_SS sig = map sc_bytes (ss[ri := sc_sub alpha (sc_mul (cc ! ri) x)])"
    "mls_KeyImage sig = ki"
  using assms by (auto simp: MLSAGSign_def Let_def split: if_splits option.splits sum.splits prod.splits)

lemma mlsag_accepted:
  assumes ok: "curve_ok C" and sign: "MLSAGSign C msg ring realIdx privKey rnd = Inr sig"
    and key: "ScalarFromBytes privKey = Some x" "PointFromBytes C (ring ! nat realIdx) = Inr (base_mul C x)"
    and ki0: "mls_KeyImage sig \<noteq> cv_bytes C 0"
  shows "MLSAGVerify C msg ring (Some sig) = Inr True"
proof (rule MLSAGSign_Inr [OF sign], goal_cases)
  case (1 ri x' ki I alpha ss cc)
  then have x: "x' = x" using key by simp
  have I: "I = smul x (ring_hash C (ring ! ri))" "image_point C ki = Inr I"
    using image_point_computed [OF ok 1(6)] 1(5,7,12) ki0 x by auto
  have real: "cv_parse C (ring ! ri) = Some (base_mul C x)"
    using key 1(1) by (simp add: PointFromBytes_def split: option.splits)
  have parses: "\<forall>j < RingSize. cv_parse C (ring ! j) \<noteq> None"
    by (rule other_members_parse [OF 1(9) 1(2)]) (use real mlsag_sign_parses in auto)
  let ?ss = "ss[ri := sc_sub alpha (sc_mul (cc ! ri) x)]"
  have close: "mlsag_link C msg ring I ri (sc_sub alpha (sc_mul (cc ! ri) x)) (cc ! ri)
      = ring_start ri (ringChallenge C msg (base_mul C alpha) (smul alpha (ring_hash C (ring ! ri)))) ! nextIdx ri"
    by (simp add: mlsag_link_def real I(1) ringL_cancels [OF ok] ringR_cancels [OF ok])
  note complete = mlsag.ring_complete [OF 1(9) length_replicate _ 1(2) sc_ok_ops(2) close]
  have len: "length ss = RingSize" and sc: "\<And>j. j < RingSize \<Longrightarrow> sc_ok (?ss ! j)"
    and links: "\<And>j. j < RingSize \<Longrightarrow> cc ! ((j + 1) mod RingSize) = mlsag_link C msg ring I j (?ss ! j) (cc ! j)"
    using complete by simp_all
  have step: "mlsag_verify_step C msg ring I (mls_SS sig) i c = Inr (mlsag_link C msg ring I i (?ss ! i) c)"
    if "i < RingSize" for i c
    using that parses decoded_responses [of i ?ss] len sc 1(11) x
    by (auto simp: mlsag_verify_step_def mlsag_link_def PointFromBytes_def split: option.splits)
  show ?thesis
    using 1 I(2) len mlsag.ring_walk [OF links step] by (simp add: MLSAGVerify_def)
qed

subsection \<open>Version 4\<close>

definition v4_next :: "('p::ab_group_add) curve \<Rightarrow> hash32 \<Rightarrow> point32 list \<Rightarrow> 'p \<Rightarrow> 'p \<Rightarrow> nat \<Rightarrow> int \<times> int \<times> int \<Rightarrow> int \<Rightarrow> int" where
  "v4_next C msg ring I claimed j s c = v4_challenge C msg ring I claimed j s c (the (cv_parse C (ring ! j)))"

definition triple_ok :: "int \<times> int \<times> int \<Rightarrow> bool" where
  "triple_ok s \<longleftrightarrow> sc_ok (fst s) \<and> sc_ok (fst (snd s)) \<and> sc_ok (snd (snd s))"

interpretation v4: ring_loop "v4_sign_step C msg ring I claimed ri rnd" "v4_next C msg ring I claimed" ri triple_ok
proof
  fix i ss cc st assume "v4_sign_step C msg ring I claimed ri rnd i (ss, cc) = Inr st"
  then obtain sx sr sv P where "randomScalar rnd (3 * i) = Inr sx" "randomScalar rnd (3 * i + 1) = Inr sr"
    "randomScalar rnd (3 * i + 2) = Inr sv" "PointFromBytes C (ring ! ((ri + i) mod RingSize)) = Inr P"
    "st = (ss[(ri + i) mod RingSize := (sx, sr, sv)], cc[(ri + i + 1) mod RingSize :=
       v4_challenge C msg ring I claimed ((ri + i) mod RingSize) (sx, sr, sv) (cc ! ((ri + i) mod RingSize)) P])"
    by (auto simp: v4_sign_step_def Let_def split: sum.splits)
  then show "\<exists>s. triple_ok s \<and> st = (ss[(ri + i) mod RingSize := s], cc[(ri + i + 1) mod RingSize :=
       v4_next C msg ring I claimed ((ri + i) mod RingSize) s (cc ! ((ri + i) mod RingSize))])"
    by (intro exI [of _ "(sx, sr, sv)"])
       (auto simp: v4_next_def triple_ok_def PointFromBytes_def dest: randomScalar_ok split: option.splits)
next
  fix j s c show "sc_ok (v4_next C msg ring I claimed j s c)"
    by (simp add: v4_next_def v4_challenge_def ringChallengeV4_def split: prod.splits)
qed

lemma v4_sign_parses:
  assumes "v4_sign_step C msg ring I claimed ri rnd i st = Inr st'"
  shows "cv_parse C (ring ! ((ri + i) mod RingSize)) \<noteq> None"
  using assms by (auto simp: v4_sign_step_def Let_def PointFromBytes_def split: sum.splits option.splits prod.splits)

lemma commitmentQ_cancels:
  assumes "curve_ok C"
  shows "ringCommitmentQ C (sc_sub a (sc_mul c r)) (sc_sub b (sc_mul c v)) c (base_mul C r + smul v (hGenerator C))
    = base_mul C a + smul b (hGenerator C)"
  using response_cancels [of "cv_base C" a c r] response_cancels [of "hGenerator C" b c v] assms
  by (simp add: ringCommitmentQ_def base_mul_def points.scale_right_distrib) (metis (no_types) add.assoc add.commute)

lemma v4_ring_Inr:
  assumes "v4_ring C msg ring ri x r v amountCommit claimed ki I rnd = Inr sig"
  obtains aX aR aV ss cc linkAlpha where
    "foldE (v4_sign_step C msg ring I claimed ri rnd) [1..<RingSize] (replicate RingSize (0, 0, 0),
       ring_start ri (ringChallengeV4 C msg (word_of_nat ri) (base_mul C aX) (smul aX (ring_hash C (ring ! ri)))
         (base_mul C aR + smul aV (hGenerator C)))) = Inr (ss, cc)"
    "v4_finish C msg ri (ring ! ri) amountCommit ki x
       (ss[ri := (sc_sub aX (sc_mul (cc ! ri) x), sc_sub aR (sc_mul (cc ! ri) r), sc_sub aV (sc_mul (cc ! ri) v))])
       (cc ! 0) (Inr linkAlpha) = Inr sig"
  using assms by (auto simp: v4_ring_def Let_def split: sum.splits prod.splits) (auto simp: v4_finish_def split: sum.splits)

lemma v4_ring_accepted:
  fixes I :: "'p::ab_group_add"
  assumes ok: "curve_ok C" and sign: "v4_ring C msg ring ri x r v amountCommit claimed ki I rnd = Inr sig"
    and ring: "length ring = RingSize" "distinct ring" "ri < RingSize"
    and real: "cv_parse C (ring ! ri) = Some (base_mul C x)"
    and I: "I = smul x (ring_hash C (ring ! ri))" "image_point C ki = Inr I"
    and claimed: "claimed = base_mul C r + smul v (hGenerator C)" "amountCommit = cv_bytes C claimed"
  shows "MLSAGVerifyV4 C msg ring amountCommit (int ri) (Some sig) = Inr True"
proof (rule v4_ring_Inr [OF sign], goal_cases)
  case (1 aX aR aV ss cc linkAlpha)
  let ?sr = "(sc_sub aX (sc_mul (cc ! ri) x), sc_sub aR (sc_mul (cc ! ri) r), sc_sub aV (sc_mul (cc ! ri) v))"
  let ?ss = "ss[ri := ?sr]"
  have sig: "mls_SS sig = map sc_bytes (map fst ?ss)" "mls_BlindSS sig = map sc_bytes (map (fst \<circ> snd) ?ss)"
    "mls_ValueSS sig = map sc_bytes (map (snd \<circ> snd) ?ss)" "mls_C0 sig = sc_bytes (cc ! 0)" "mls_KeyImage sig = ki"
    "mls_LinkR sig = cv_bytes C (base_mul C linkAlpha)"
    "mls_LinkS sig = sc_bytes (sc_sub linkAlpha (sc_mul (ringLinkChallenge C msg (word_of_nat ri) (ring ! ri) amountCommit ki (base_mul C linkAlpha)) x))"
    using 1(2) by (auto simp: v4_finish_def Let_def comp_def)
  have parses: "\<forall>j < RingSize. cv_parse C (ring ! j) \<noteq> None"
    by (rule other_members_parse [OF 1(1) ring(3)]) (use real v4_sign_parses in auto)
  have close: "v4_next C msg ring I claimed ri ?sr (cc ! ri) = ring_start ri (ringChallengeV4 C msg (word_of_nat ri)
      (base_mul C aX) (smul aX (ring_hash C (ring ! ri))) (base_mul C aR + smul aV (hGenerator C))) ! nextIdx ri"
    by (simp add: v4_next_def v4_challenge_def real I(1) claimed(1) ringL_cancels [OF ok] ringR_cancels [OF ok] commitmentQ_cancels [OF ok])
  have sr_ok: "triple_ok ?sr" by (simp add: triple_ok_def)
  note complete = v4.ring_complete [OF 1(1) length_replicate _ ring(3) sr_ok close]
  have len: "length ss = RingSize" and good: "\<And>j. j < RingSize \<Longrightarrow> triple_ok (?ss ! j)"
    and links: "\<And>j. j < RingSize \<Longrightarrow> cc ! ((j + 1) mod RingSize) = v4_next C msg ring I claimed j (?ss ! j) (cc ! j)"
    using complete by simp_all
  have step: "v4_verify_step C msg ring I claimed sig i c = Inr (v4_next C msg ring I claimed i (?ss ! i) c)"
    if i: "i < RingSize" for i c
  proof -
    have "ScalarFromBytes (mls_SS sig ! i) = Some (fst (?ss ! i))" "ScalarFromBytes (mls_BlindSS sig ! i) = Some (fst (snd (?ss ! i)))"
      "ScalarFromBytes (mls_ValueSS sig ! i) = Some (snd (snd (?ss ! i)))"
      unfolding sig(1-3) using i len good [OF i] by (simp_all add: triple_ok_def)
    then show ?thesis
      using parses i by (auto simp: v4_verify_step_def v4_next_def PointFromBytes_def split: option.splits)
  qed
  have link: "v4_link C msg ring amountCommit ri sig = Inr True"
    using real by (simp add: v4_link_def sig ok PointFromBytes_def Let_def ringL_cancels)
  show ?thesis
    using ring I(2) len claimed(2) ok v4.ring_walk [OF links step] link
    by (simp add: MLSAGVerifyV4_def validateRingForV4_def sig(4,5)) (simp add: sig(1-3))
qed

lemma mlsag_v4_accepted:
  assumes ok: "curve_ok C" and sign: "MLSAGSignV4 C msg ring realIdx privKey blind value rnd = Inr sig"
    and key: "ScalarFromBytes privKey = Some x" "PointFromBytes C (ring ! nat realIdx) = Inr (base_mul C x)"
    and commit: "Commit C value blind = Inr amountCommit" and ki0: "mls_KeyImage sig \<noteq> cv_bytes C 0"
  shows "MLSAGVerifyV4 C msg ring amountCommit realIdx (Some sig) = Inr True"
proof -
  let ?ri = "nat realIdx"
  obtain r ki I where parts: "validateRingForV4 ring realIdx = Inr ()" "ScalarFromBytes blind = Some r"
    "ComputeKeyImage C privKey (ring ! ?ri) = Inr ki" "PointFromBytes C ki = Inr I"
    and core: "v4_ring C msg ring ?ri x r (scalarFromUint64 value) amountCommit (pedersen C r (scalarFromUint64 value)) ki I rnd = Inr sig"
    using sign key commit ok
    by (auto simp: MLSAGSignV4_def Let_def amountCommitForV4_def Commit_def pedersen_def split: sum.splits option.splits)
  have ki: "mls_KeyImage sig = ki"
    using core by (auto simp: v4_ring_def v4_finish_def Let_def split: sum.splits prod.splits)
  have ring: "length ring = RingSize" "distinct ring" "?ri < RingSize" "realIdx = int ?ri"
    using parts(1) by (auto simp: validateRingForV4_def split: if_splits)
  have "MLSAGVerifyV4 C msg ring amountCommit (int ?ri) (Some sig) = Inr True"
    using v4_ring_accepted [OF ok core ring(1-3)] image_point_computed [OF ok parts(3) key(1)] parts(2,4) ki ki0 key(2) commit
    by (auto simp: PointFromBytes_def pedersen_def Commit_def split: option.splits)
  then show ?thesis using ring(4) by simp
qed

subsection \<open>CLSAG\<close>

definition clsag_next :: "('p::ab_group_add) curve \<Rightarrow> (nat \<Rightarrow> 'p \<Rightarrow> 'p \<Rightarrow> int) \<Rightarrow> point32 list \<Rightarrow> 'p list \<Rightarrow> 'p \<Rightarrow> nat \<Rightarrow> int \<Rightarrow> int \<Rightarrow> int" where
  "clsag_next C chal ringKeys w J j s c = chal j (ringL C s c (w ! j)) (ringR s c (ring_hash C (ringKeys ! j)) J)"

interpretation clsag: ring_loop "clsag_sign_step C (clsagChallenge C msg keys comms pseudo ki d) ringKeys w J ri rnd"
    "clsag_next C (clsagChallenge C msg keys comms pseudo ki d) ringKeys w J" ri sc_ok
  by unfold_locales
     (auto simp: clsag_sign_step_def clsag_next_def clsagChallenge_def nextIdx_def mod_simps Let_def dest: randomScalar_ok split: sum.splits)

lemma clsag_ring_accepted:
  fixes J :: "'p::ab_group_add"
  assumes ok: "curve_ok C" and chal: "chal = clsagChallenge C msg keys comms pseudo ki d"
    and sign: "clsag_ring C chal ringKeys w J ri witness rnd = Inr (s, c0)" and ri: "ri < RingSize"
    and w: "w ! ri = base_mul C witness" and J: "J = smul witness (ring_hash C (ringKeys ! ri))"
  shows "foldE (clsag_verify_step C chal ringKeys w J (map sc_bytes s)) [0..<RingSize] c0 = Inr c0" and "sc_ok c0"
    and "length s = RingSize"
proof -
  obtain alpha ss cc where loop: "foldE (clsag_sign_step C chal ringKeys w J ri rnd) [1..<RingSize] (replicate RingSize 0,
      ring_start ri (chal ri (base_mul C alpha) (smul alpha (ring_hash C (ringKeys ! ri))))) = Inr (ss, cc)"
    and s: "s = ss[ri := sc_sub alpha (sc_mul (cc ! ri) witness)]" and c0: "c0 = cc ! 0"
    using sign by (auto simp: clsag_ring_def Let_def split: sum.splits prod.splits)
  have close: "clsag_next C chal ringKeys w J ri (sc_sub alpha (sc_mul (cc ! ri) witness)) (cc ! ri)
      = ring_start ri (chal ri (base_mul C alpha) (smul alpha (ring_hash C (ringKeys ! ri)))) ! nextIdx ri"
    by (simp add: clsag_next_def w J ringL_cancels [OF ok] ringR_cancels [OF ok])
  note complete = clsag.ring_complete [OF loop [unfolded chal] length_replicate _ ri sc_ok_ops(2) close [unfolded chal]]
  have len: "length s = RingSize" and good: "\<And>j. j < RingSize \<Longrightarrow> sc_ok (s ! j)"
    and links: "\<And>j. j < RingSize \<Longrightarrow> cc ! ((j + 1) mod RingSize) = clsag_next C chal ringKeys w J j (s ! j) (cc ! j)"
    using complete by (simp_all add: s chal)
  have step: "clsag_verify_step C chal ringKeys w J (map sc_bytes s) i c = Inr (clsag_next C chal ringKeys w J i (s ! i) c)"
    if "i < RingSize" for i c
    using that decoded_responses [OF that len good] by (simp add: clsag_verify_step_def clsag_next_def)
  show "foldE (clsag_verify_step C chal ringKeys w J (map sc_bytes s)) [0..<RingSize] c0 = Inr c0" "sc_ok c0"
    using clsag.ring_walk [OF links [unfolded chal] step [unfolded chal]] by (simp_all add: c0 chal)
  show "length s = RingSize" by (fact len)
qed

lemma witness_multiple:
  assumes "smul ell p = 0"
  shows "smul (sc_muladd b z (sc_mul a x)) p = smul a (smul x p) + smul b (smul z p)"
proof -
  have "smul (sc_muladd b z (sc_mul a x)) p = smul (b * z + a * x) p"
    by (rule smul_cong [OF assms]) (simp add: sc_muladd_def sc_mul_def mod_simps)
  then show ?thesis by (simp add: points.scale_scale points.scale_left_distrib)
qed

lemma validate_index:
  "validateCLSAGInputs C ringKeys comms pseudo realIdx = Inr r \<Longrightarrow>
   validateCLSAGInputs C ringKeys comms pseudo 0 = Inr r \<and> 0 \<le> realIdx \<and> nat realIdx < RingSize"
  by (auto simp: validateCLSAGInputs_def split: if_splits)

lemma CLSAGSign_Inr:
  assumes "CLSAGSign C msg ringKeys comms pseudoOut realIdx privateKey inputBlind pseudoBlind rnd = Inr sig"
  obtains keys cs pseudo x z ki I muP muC s c0 where
    "validateCLSAGInputs C ringKeys comms pseudoOut realIdx = Inr (keys, cs, pseudo)"
    "base_mul C x = keys ! nat realIdx" "base_mul C z = cs ! nat realIdx - pseudo"
    "ki = cv_bytes C (smul x (ring_hash C (ringKeys ! nat realIdx)))" "checkedCLSAGPrimePoint C ki = Inr I"
    "clsagMus C msg ringKeys comms pseudoOut ki (cv_bytes C (smul z (ring_hash C (ringKeys ! nat realIdx)))) = (muP, muC)"
    "clsag_ring C (clsagChallenge C msg ringKeys comms pseudoOut ki (cv_bytes C (smul z (ring_hash C (ringKeys ! nat realIdx)))))
       ringKeys (clsagAggregateW muP muC keys cs pseudo) (smul muP I + smul muC (smul z (ring_hash C (ringKeys ! nat realIdx))))
       (nat realIdx) (sc_muladd muC z (sc_mul muP x)) rnd = Inr (s, c0)"
    "sig = \<lparr>cls_C1 = sc_bytes c0, cls_S = map sc_bytes s, cls_KeyImage = ki,
            cls_D = cv_bytes C (smul z (ring_hash C (ringKeys ! nat realIdx)))\<rparr>"
  using assms
  by (auto simp: CLSAGSign_def clsag_secrets_def ComputeKeyImage_def ring_hash_def Let_def
      split: if_splits option.splits sum.splits prod.splits)

lemma clsag_accepted:
  assumes ok: "curve_ok C"
    and sign: "CLSAGSign C msg ringKeys comms pseudoOut realIdx privateKey inputBlind pseudoBlind rnd = Inr sig"
  shows "CLSAGVerify C msg ringKeys comms pseudoOut (Some sig) = Inr True"
proof (rule CLSAGSign_Inr [OF sign], goal_cases)
  case (1 keys cs pseudo x z ki I muP muC s c0)
  let ?ri = "nat realIdx" and ?hp = "ring_hash C (ringKeys ! nat realIdx)"
  note idx = validate_index [OF 1(1)]
  have I: "I = smul x ?hp"
    using 1(4,5) checkedCLSAG_Inr [OF ok] ok by (metis checkedCLSAGPrimePoint_def cv_bytes_inj)
  have D: "checkedCLSAGDPoint C (cv_bytes C (smul z ?hp)) = Inr (smul z ?hp)"
    using checkedCLSAG_bytes [OF ok smul_order [OF ring_hash_order [OF ok]]] by (simp add: checkedCLSAGDPoint_def)
  have w: "clsagAggregateW muP muC keys cs pseudo ! ?ri = base_mul C (sc_muladd muC z (sc_mul muP x))"
    using idx 1(2,3) witness_multiple [OF base_order [OF ok]] by (simp add: clsagAggregateW_def base_mul_def)
  have J: "smul muP I + smul muC (smul z ?hp) = smul (sc_muladd muC z (sc_mul muP x)) ?hp"
    by (simp add: I witness_multiple ok)
  show ?thesis
    using clsag_ring_accepted [OF ok refl 1(7) _ w J] idx 1(5,6,8) D by (simp add: CLSAGVerify_def Let_def)
qed

subsection \<open>Proofs of knowledge\<close>

lemma dleq_accepted:
  assumes ok: "curve_ok C" and prove: "ProveKeyImage C secret P context rnd = Inr (ki, proof)"
    and ki0: "ki \<noteq> cv_bytes C 0" and nz: "ki_CommitmentG proof \<noteq> cv_bytes C 0" "ki_CommitmentHp proof \<noteq> cv_bytes C 0"
  shows "VerifyKeyImageProof C P ki context proof = Inr ()"
proof -
  obtain x p w where parts: "checkedDLEQPoint C P = Inr p" "P = cv_bytes C (base_mul C x)"
    "ki = cv_bytes C (smul x (ring_hash C P))" "ki_CommitmentG proof = cv_bytes C (base_mul C w)"
    "ki_CommitmentHp proof = cv_bytes C (smul w (ring_hash C P))"
    "ki_Response proof = sc_bytes (sc_muladd (keyImageDLEQChallenge C P ki (ki_CommitmentG proof) (ki_CommitmentHp proof) context) x w)"
    using prove by (auto simp: ProveKeyImage_def ComputeKeyImage_def ring_hash_def Let_def split: option.splits sum.splits if_splits)
  let ?c = "keyImageDLEQChallenge C P ki (ki_CommitmentG proof) (ki_CommitmentHp proof) context"
  have p: "p = base_mul C x"
    using parts(1,2) ok by (auto simp: checkedDLEQPoint_def split: sum.splits if_splits)
  have pts: "checkedDLEQPoint C ki = Inr (smul x (ring_hash C P))"
    "checkedDLEQPoint C (ki_CommitmentG proof) = Inr (base_mul C w)"
    "checkedDLEQPoint C (ki_CommitmentHp proof) = Inr (smul w (ring_hash C P))"
    using ki0 nz unfolding parts(3-5) by (auto intro!: checkedDLEQ_bytes ok smul_order ring_hash_order base_mul_order)
  have eq: "smul (sc_muladd ?c x w) q = smul w q + smul ?c (smul x q)" if "smul ell q = 0" for q :: 'a
  proof -
    have "smul (sc_muladd ?c x w) q = smul (?c * x + w) q"
      by (rule smul_cong [OF that]) (simp add: sc_muladd_def)
    then show ?thesis by (simp add: points.scale_left_distrib points.scale_scale add.commute)
  qed
  show ?thesis
    using parts(1) pts parts(6) eq [OF base_order [OF ok]] eq [OF ring_hash_order [OF ok]]
    by (simp add: VerifyKeyImageProof_def Let_def p base_mul_def)
qed

lemma opening_accepted:
  assumes ok: "curve_ok C" and prove: "ProveValueAuthorization C amount blind rnd = Inr (commit, R, s)" and R: "R \<noteq> cv_bytes C 0"
  shows "VerifyValueAuthorization C amount commit (R, s) = Inr ()"
proof -
  obtain r k where parts: "commit = cv_bytes C (pedersen C r (scalarFromUint64 amount))" "R = cv_bytes C (base_mul C k)"
    "s = sc_bytes (sc_muladd (valueAuthorizationChallenge C amount commit (arr_bytes R)) r k)"
    using prove by (auto simp: ProveValueAuthorization_def Commit_def Let_def split: option.splits sum.splits)
  let ?c = "valueAuthorizationChallenge C amount commit (arr_bytes R)"
  have pts: "checkedCLSAGSubgroupPoint C commit True = Inr (pedersen C r (scalarFromUint64 amount))"
    "checkedCLSAGPrimePoint C R = Inr (base_mul C k)"
    using R unfolding checkedCLSAGPrimePoint_def parts(1,2)
    by (auto simp: checkedCLSAG_bytes [OF ok] pedersen_order [OF ok] ok)
  have "base_mul C (sc_muladd ?c r k) = base_mul C k + smul ?c (base_mul C r)"
  proof -
    have "base_mul C (sc_muladd ?c r k) = smul (?c * r + k) (cv_base C)"
      unfolding base_mul_def by (rule smul_cong [OF base_order [OF ok]]) (simp add: sc_muladd_def)
    then show ?thesis by (simp add: base_mul_def points.scale_left_distrib points.scale_scale add.commute)
  qed
  moreover have "pedersen C r (scalarFromUint64 amount) - smul (scalarFromUint64 amount) (hGenerator C) = base_mul C r"
    by (simp add: pedersen_def)
  ultimately show ?thesis
    using pts parts(3) by (simp add: VerifyValueAuthorization_def Let_def)
qed

section \<open>Signing returns\<close>

definition draws :: "randomness \<Rightarrow> nat \<Rightarrow> bool" where
  "draws rnd n \<longleftrightarrow> (\<forall>i < n. rnd i \<noteq> None)"

lemma draws_scalar: "draws rnd n \<Longrightarrow> i < n \<Longrightarrow> \<exists>s. randomScalar rnd i = Inr s"
  by (auto simp: draws_def randomScalar_def)

lemma foldE_total: "(\<And>x s. x \<in> set xs \<Longrightarrow> \<exists>t. f x s = Inr t) \<Longrightarrow> \<exists>t. foldE f xs s = Inr t"
proof (induction xs arbitrary: s)
  case (Cons x xs)
  then obtain t where "f x s = Inr t" by fastforce
  with Cons show ?case by simp
qed simp

lemma clsag_members:
  assumes ok: "curve_ok C" and len: "length keys = RingSize" "length cs = RingSize" and dist: "distinct keys"
    and keys: "\<forall>p \<in> set keys. p \<noteq> 0 \<and> smul ell p = 0" and cs: "\<forall>p \<in> set cs. smul ell p = 0"
  shows "k \<le> RingSize \<Longrightarrow> foldE (clsag_member C (map (cv_bytes C) keys) (map (cv_bytes C) cs)) [0..<k] ([], [])
           = Inr (take k keys, take k cs)"
proof (induction k)
  case (Suc k)
  then have k: "k < length keys" "k < length cs" using len by simp_all
  have "cv_bytes C (keys ! k) \<notin> set (take k (map (cv_bytes C) keys))"
    using dist k by (auto simp: take_map cv_bytes_inj [OF ok] in_set_conv_nth nth_eq_iff_index_eq)
  moreover have "checkedCLSAGSubgroupPoint C (cv_bytes C (keys ! k)) False = Inr (keys ! k)"
    "checkedCLSAGSubgroupPoint C (cv_bytes C (cs ! k)) True = Inr (cs ! k)"
    using keys cs k by (simp_all add: checkedCLSAG_bytes [OF ok])
  ultimately show ?case
    using Suc k by (simp add: foldE_append clsag_member_def take_Suc_conv_app_nth)
qed simp

lemma clsag_inputs:
  assumes ok: "curve_ok C" and len: "length keys = RingSize" "length cs = RingSize" and dist: "distinct keys"
    and keys: "\<forall>p \<in> set keys. p \<noteq> 0 \<and> smul ell p = 0" and cs: "\<forall>p \<in> set cs. smul ell p = 0" and ps: "smul ell pseudo = 0"
    and idx: "0 \<le> realIdx" "realIdx < int RingSize"
  shows "validateCLSAGInputs C (map (cv_bytes C) keys) (map (cv_bytes C) cs) (cv_bytes C pseudo) realIdx = Inr (keys, cs, pseudo)"
  using clsag_members [OF ok len dist keys cs le_refl] len idx
  by (simp add: validateCLSAGInputs_def checkedCLSAG_bytes [OF ok ps])

lemma clsag_ring_returns:
  assumes "draws rnd RingSize"
  shows "\<exists>s c. clsag_ring C chal ringKeys w J ri witness rnd = Inr (s, c)"
proof -
  obtain alpha where a: "randomScalar rnd 0 = Inr alpha" using draws_scalar [OF assms, of 0] by auto
  have "\<exists>t. foldE (clsag_sign_step C chal ringKeys w J ri rnd) [1..<RingSize] st = Inr t" for st
  proof (rule foldE_total)
    fix i :: nat and u :: "int list \<times> int list" assume "i \<in> set [1..<RingSize]"
    then obtain s where "randomScalar rnd i = Inr s" using draws_scalar [OF assms, of i] by auto
    then show "\<exists>t. clsag_sign_step C chal ringKeys w J ri rnd i u = Inr t"
      by (cases u) (simp add: clsag_sign_step_def Let_def)
  qed
  then show ?thesis
    by (auto simp: clsag_ring_def a Let_def split: sum.splits prod.splits) (metis Inl_Inr_False old.sum.exhaust surj_pair)+
qed

section \<open>Properties\<close>

lemma clsag_signs:
  assumes ok: "curve_ok C" and len: "length keys = RingSize" "length cs = RingSize" and dist: "distinct keys"
    and keys: "\<forall>p \<in> set keys. p \<noteq> 0 \<and> smul ell p = 0" and cs: "\<forall>p \<in> set cs. smul ell p = 0" and ps: "smul ell pseudo = 0"
    and idx: "0 \<le> realIdx" "realIdx < int RingSize"
    and x: "sc_ok x" "keys ! nat realIdx = base_mul C x" and blind: "sc_ok r" "sc_ok r'" "cs ! nat realIdx - pseudo = base_mul C (r - r')"
    and ki: "smul x (ring_hash C (cv_bytes C (base_mul C x))) \<noteq> 0" and rnd: "draws rnd RingSize"
  shows "\<exists>sig. CLSAGSign C msg (map (cv_bytes C) keys) (map (cv_bytes C) cs) (cv_bytes C pseudo) realIdx
             (sc_bytes x) (sc_bytes r) (sc_bytes r') rnd = Inr sig
           \<and> cls_KeyImage sig = cv_bytes C (smul x (ring_hash C (cv_bytes C (base_mul C x))))
           \<and> CLSAGVerify C msg (map (cv_bytes C) keys) (map (cv_bytes C) cs) (cv_bytes C pseudo) (Some sig) = Inr True"
proof -
  let ?ks = "map (cv_bytes C) keys" and ?cs = "map (cv_bytes C) cs" and ?hp = "ring_hash C (cv_bytes C (base_mul C x))"
  let ?ki = "cv_bytes C (smul x ?hp)" and ?z = "sc_sub r r'"
  have i: "nat realIdx < length keys" using idx len by simp
  then have member: "?ks ! nat realIdx = cv_bytes C (base_mul C x)" using x(2) by simp
  have secrets: "clsag_secrets C (keys ! nat realIdx) (cs ! nat realIdx - pseudo) (sc_bytes x) (sc_bytes r) (sc_bytes r') = Inr (x, ?z)"
    using x blind ok by (simp add: clsag_secrets_def sc_sub_def)
  have image: "ComputeKeyImage C (sc_bytes x) (cv_bytes C (base_mul C x)) = Inr ?ki"
    using x by (simp add: ComputeKeyImage_def ring_hash_def)
  have checked: "checkedCLSAGPrimePoint C ?ki = Inr (smul x ?hp)" "checkedCLSAGDPoint C (cv_bytes C (smul ?z ?hp)) = Inr (smul ?z ?hp)"
    using ki by (simp_all add: checkedCLSAGPrimePoint_def checkedCLSAGDPoint_def checkedCLSAG_bytes ok smul_order)
  obtain muP muC where mus: "clsagMus C msg ?ks ?cs (cv_bytes C pseudo) ?ki (cv_bytes C (smul ?z ?hp)) = (muP, muC)" by fastforce
  obtain s c0 where ring: "clsag_ring C (clsagChallenge C msg ?ks ?cs (cv_bytes C pseudo) ?ki (cv_bytes C (smul ?z ?hp))) ?ks
      (clsagAggregateW muP muC keys cs pseudo) (smul muP (smul x ?hp) + smul muC (smul ?z ?hp)) (nat realIdx)
      (sc_muladd muC ?z (sc_mul muP x)) rnd = Inr (s, c0)"
    using clsag_ring_returns [OF rnd] by blast
  obtain sig where sig: "CLSAGSign C msg ?ks ?cs (cv_bytes C pseudo) realIdx (sc_bytes x) (sc_bytes r) (sc_bytes r') rnd = Inr sig"
    "cls_KeyImage sig = ?ki"
    using clsag_inputs [OF ok len dist keys cs ps idx] secrets image checked mus ring member
    by (auto simp: CLSAGSign_def Let_def)
  then show ?thesis using clsag_accepted [OF ok sig(1)] by blast
qed

text \<open>C8: CLSAG signatures are complete and linkable.  For any ring of 16 distinct points of prime order, with their
  commitments and a pseudo output, a signer who knows the key of one member, and blinding factors whose difference
  opens the difference of its commitment and the pseudo output, obtains a signature from \<open>CLSAGSign\<close>; \<open>CLSAGVerify\<close>
  accepts it, whatever the message, the position and the randomness (no draw fails, and the key image is not the neutral element), and its key image is the one
  of the signing key, so two signatures of one output always show the same key image.\<close>

theorem clsag_complete:
  assumes ok: "curve_ok C" and len: "length keys = RingSize" "length cs = RingSize" and dist: "distinct keys"
    and keys: "\<forall>p \<in> set keys. p \<noteq> 0 \<and> smul ell p = 0" and cs: "\<forall>p \<in> set cs. smul ell p = 0" and ps: "smul ell pseudo = 0"
    and idx: "0 \<le> realIdx" "realIdx < int RingSize"
    and x: "sc_ok x" "keys ! nat realIdx = base_mul C x" and blind: "sc_ok r" "sc_ok r'" "cs ! nat realIdx - pseudo = base_mul C (r - r')"
    and ki: "smul x (ring_hash C (cv_bytes C (base_mul C x))) \<noteq> 0" and rnd: "draws rnd RingSize"
  shows "\<exists>sig. CLSAGSign C msg (map (cv_bytes C) keys) (map (cv_bytes C) cs) (cv_bytes C pseudo) realIdx
             (sc_bytes x) (sc_bytes r) (sc_bytes r') rnd = Inr sig
           \<and> cls_KeyImage sig = cv_bytes C (smul x (ring_hash C (cv_bytes C (base_mul C x))))
           \<and> CLSAGVerify C msg (map (cv_bytes C) keys) (map (cv_bytes C) cs) (cv_bytes C pseudo) (Some sig) = Inr True"
  by (rule clsag_signs [OF assms])

definition demo_keys :: "zl list" where
  "demo_keys = map (\<lambda>i. zl_of (int i)) [1..<17]"

lemma zl_small_inj: "i < 2 ^ 64 \<Longrightarrow> j < 2 ^ 64 \<Longrightarrow> zl_of (int i) = zl_of (int j) \<longleftrightarrow> i = j"
proof -
  assume "i < 2 ^ 64" "j < 2 ^ 64"
  then have "int i < ell" "int j < ell" by (simp_all add: ell_def)
  then show ?thesis by (simp add: zl_of_eq_iff)
qed

lemma demo_keys_ring: "length demo_keys = RingSize" "distinct demo_keys" "\<forall>p \<in> set demo_keys. p \<noteq> 0 \<and> smul ell p = 0"
  "demo_keys ! 0 = zl_of 1"
proof -
  show "length demo_keys = RingSize" "demo_keys ! 0 = zl_of 1" by (simp_all add: demo_keys_def RingSize_def)
  show "distinct demo_keys"
    by (auto simp: demo_keys_def distinct_map inj_on_def zl_small_inj)
  have "zl_of (int i) \<noteq> 0" if "0 < i" "i < 17" for i
    using that zl_small_inj [of i 0] by (simp add: zl_of_ops(4))
  moreover have "smul ell (zl_of k) = 0" for k
    by (simp add: smul_zl zl_of_eq_iff flip: zl_of_ops(4))
  ultimately show "\<forall>p \<in> set demo_keys. p \<noteq> 0 \<and> smul ell p = 0" by (auto simp: demo_keys_def)
qed

lemma zl_base_mul: "base_mul zl_curve k = zl_of k"
  by (simp add: base_mul_def zl_curve_def smul_zl)

lemma zl_ring_hash: "ring_hash zl_curve P = zl_of 16"
  by (simp add: ring_hash_def HashToCurvePoint_def hash_loop.simps zl_hash_attempt)

lemma zl_image_nonzero: "smul 1 (zl_of 16) \<noteq> 0"
  by (simp add: zl_of_eq_iff ell_def flip: zl_of_ops(4))

theorem clsag_complete_witness:
  "\<exists>sig. CLSAGSign zl_curve 7 (map (cv_bytes zl_curve) demo_keys) (map (cv_bytes zl_curve) (replicate RingSize 0)) (cv_bytes zl_curve 0) 0
        (sc_bytes 1) (sc_bytes 5) (sc_bytes 5) (\<lambda>_. Some 3) = Inr sig
     \<and> CLSAGVerify zl_curve 7 (map (cv_bytes zl_curve) demo_keys) (map (cv_bytes zl_curve) (replicate RingSize 0)) (cv_bytes zl_curve 0)
        (Some sig) = Inr True"
proof -
  have "sc_ok 1" "sc_ok 5" by (simp_all add: sc_ok_def ell_def)
  moreover have "draws (\<lambda>_. Some 3) RingSize" by (simp add: draws_def)
  ultimately show ?thesis
    using clsag_complete [of zl_curve demo_keys "replicate RingSize 0" 0 0 1 5 5 "\<lambda>_. Some 3" 7]
      zl_curve_ok demo_keys_ring zl_image_nonzero
    by (auto simp: zl_base_mul zl_ring_hash zl_of_ops(4))
qed

lemma mlsag_loop_returns:
  assumes "draws rnd (3 * RingSize)" and "\<forall>j < RingSize. cv_parse C (ring ! j) \<noteq> None"
  shows "\<exists>t. foldE (mlsag_sign_step C msg ring I ri rnd) [1..<RingSize] st = Inr t"
    and "\<exists>t. foldE (v4_sign_step C msg ring I claimed ri rnd) [1..<RingSize] st4 = Inr t"
proof -
  have rnd: "\<exists>s. randomScalar rnd n = Inr s" if "n < 3 * RingSize" for n using draws_scalar [OF assms(1) that] .
  have parse: "\<exists>P. PointFromBytes C (ring ! (j mod RingSize)) = Inr P" for j
    using assms(2) by (fastforce simp: PointFromBytes_def split: option.splits)
  show "\<exists>t. foldE (mlsag_sign_step C msg ring I ri rnd) [1..<RingSize] st = Inr t"
  proof (rule foldE_total)
    fix i :: nat and u :: "int list \<times> int list" assume "i \<in> set [1..<RingSize]"
    then obtain s P where "randomScalar rnd i = Inr s" "PointFromBytes C (ring ! ((ri + i) mod RingSize)) = Inr P"
      using rnd [of i] parse [of "ri + i"] by auto
    then show "\<exists>t. mlsag_sign_step C msg ring I ri rnd i u = Inr t" by (cases u) (simp add: mlsag_sign_step_def Let_def)
  qed
  show "\<exists>t. foldE (v4_sign_step C msg ring I claimed ri rnd) [1..<RingSize] st4 = Inr t"
  proof (rule foldE_total)
    fix i :: nat and u :: "(int \<times> int \<times> int) list \<times> int list" assume "i \<in> set [1..<RingSize]"
    then obtain sx sr sv P where "randomScalar rnd (3 * i) = Inr sx" "randomScalar rnd (3 * i + 1) = Inr sr"
      "randomScalar rnd (3 * i + 2) = Inr sv" "PointFromBytes C (ring ! ((ri + i) mod RingSize)) = Inr P"
      using rnd [of "3 * i"] rnd [of "3 * i + 1"] rnd [of "3 * i + 2"] parse [of "ri + i"] by auto
    then show "\<exists>t. v4_sign_step C msg ring I claimed ri rnd i u = Inr t" by (cases u) (simp add: v4_sign_step_def Let_def)
  qed
qed

lemma mlsag_signs:
  assumes ok: "curve_ok C" and len: "length keys = RingSize" and dist: "distinct keys"
    and idx: "0 \<le> realIdx" "realIdx < int RingSize" and x: "sc_ok x" "keys ! nat realIdx = base_mul C x" and r: "sc_ok r"
    and ki: "smul x (ring_hash C (cv_bytes C (base_mul C x))) \<noteq> 0" and rnd: "draws rnd (3 * RingSize + 1)"
  shows "(\<exists>sig. MLSAGSign C msg (map (cv_bytes C) keys) realIdx (sc_bytes x) rnd = Inr sig
             \<and> mls_KeyImage sig = cv_bytes C (smul x (ring_hash C (cv_bytes C (base_mul C x))))
             \<and> MLSAGVerify C msg (map (cv_bytes C) keys) (Some sig) = Inr True)
       \<and> (\<exists>sig. MLSAGSignV4 C msg (map (cv_bytes C) keys) realIdx (sc_bytes x) (sc_bytes r) v rnd = Inr sig
             \<and> mls_KeyImage sig = cv_bytes C (smul x (ring_hash C (cv_bytes C (base_mul C x))))
             \<and> MLSAGVerifyV4 C msg (map (cv_bytes C) keys) (cv_bytes C (pedersen C r (scalarFromUint64 v))) realIdx (Some sig) = Inr True)"
proof -
  let ?ring = "map (cv_bytes C) keys" and ?ri = "nat realIdx" and ?hp = "ring_hash C (cv_bytes C (base_mul C x))"
  let ?ki = "cv_bytes C (smul x ?hp)" and ?v = "scalarFromUint64 v"
  have i: "?ri < length keys" using idx len by simp
  then have member: "?ring ! ?ri = cv_bytes C (base_mul C x)" using x(2) by simp
  have real: "PointFromBytes C (?ring ! ?ri) = Inr (base_mul C x)" unfolding member using ok by simp
  have shape: "distinct ?ring" "length ?ring = RingSize"
    using dist len ok by (simp_all add: distinct_map inj_on_def cv_bytes_inj)
  have parses: "\<forall>j < RingSize. cv_parse C (?ring ! j) \<noteq> None" using ok len by simp
  have image: "ComputeKeyImage C (sc_bytes x) (?ring ! ?ri) = Inr ?ki" "?ki \<noteq> cv_bytes C 0"
    using x ki by (simp_all add: ComputeKeyImage_def ring_hash_def member cv_bytes_inj [OF ok])
  have rnd': "draws rnd (3 * RingSize)" using rnd by (simp add: draws_def)
  obtain aX aR aV la where draws: "randomScalar rnd 0 = Inr aX" "randomScalar rnd 1 = Inr aR" "randomScalar rnd 2 = Inr aV"
    "randomScalar rnd (3 * RingSize) = Inr la"
    using draws_scalar [OF rnd, of 0] draws_scalar [OF rnd, of 1] draws_scalar [OF rnd, of 2] draws_scalar [OF rnd, of "3 * RingSize"]
    by (auto simp: RingSize_def)
  obtain t where t: "foldE (mlsag_sign_step C msg ?ring (smul x ?hp) ?ri rnd) [1..<RingSize] (replicate RingSize 0,
      ring_start ?ri (ringChallenge C msg (base_mul C aX) (smul aX (ring_hash C (?ring ! ?ri))))) = Inr t"
    using mlsag_loop_returns(1) [OF rnd' parses] by blast
  obtain t4 where t4: "foldE (v4_sign_step C msg ?ring (smul x ?hp) (pedersen C r ?v) ?ri rnd) [1..<RingSize] (replicate RingSize (0, 0, 0),
      ring_start ?ri (ringChallengeV4 C msg (word_of_nat ?ri) (base_mul C aX) (smul aX (ring_hash C (?ring ! ?ri)))
        (base_mul C aR + smul aV (hGenerator C)))) = Inr t4"
    using mlsag_loop_returns(2) [OF rnd' parses] by blast
  obtain sig where sig: "MLSAGSign C msg ?ring realIdx (sc_bytes x) rnd = Inr sig" "mls_KeyImage sig = ?ki"
    using shape idx x(1) image(1) draws(1) t ok by (cases t) (auto simp: MLSAGSign_def Let_def)
  have acc: "MLSAGVerify C msg ?ring (Some sig) = Inr True"
    by (rule mlsag_accepted [OF ok sig(1) _ real]) (use x sig image in auto)
  obtain sig4 where sig4: "MLSAGSignV4 C msg ?ring realIdx (sc_bytes x) (sc_bytes r) v rnd = Inr sig4" "mls_KeyImage sig4 = ?ki"
    using shape idx x(1) r image(1) draws t4 ok
    by (cases t4) (auto simp: MLSAGSignV4_def v4_ring_def v4_finish_def validateRingForV4_def amountCommitForV4_def Let_def simp flip: pedersen_def)
  have acc4: "MLSAGVerifyV4 C msg ?ring (cv_bytes C (pedersen C r ?v)) realIdx (Some sig4) = Inr True"
    by (rule mlsag_v4_accepted [OF ok sig4(1) _ real]) (use x r sig4 image in \<open>auto simp: Commit_def\<close>)
  show ?thesis using sig acc sig4 acc4 by blast
qed

text \<open>MLSAG signatures, the original ones and the commitment-binding version 4, are complete: for any ring of 16
  distinct points, the holder of the key of one member obtains a signature for any message and any randomness, its
  key image is the one of the key, and the verifier accepts it.  In version 4 the signature also verifies
  against the Pedersen commitment of the signed amount and the disclosed position.\<close>

theorem mlsag_complete:
  assumes ok: "curve_ok C" and len: "length keys = RingSize" and dist: "distinct keys"
    and idx: "0 \<le> realIdx" "realIdx < int RingSize" and x: "sc_ok x" "keys ! nat realIdx = base_mul C x" and r: "sc_ok r"
    and ki: "smul x (ring_hash C (cv_bytes C (base_mul C x))) \<noteq> 0" and rnd: "draws rnd (3 * RingSize + 1)"
  shows "(\<exists>sig. MLSAGSign C msg (map (cv_bytes C) keys) realIdx (sc_bytes x) rnd = Inr sig
             \<and> mls_KeyImage sig = cv_bytes C (smul x (ring_hash C (cv_bytes C (base_mul C x))))
             \<and> MLSAGVerify C msg (map (cv_bytes C) keys) (Some sig) = Inr True)
       \<and> (\<exists>sig. MLSAGSignV4 C msg (map (cv_bytes C) keys) realIdx (sc_bytes x) (sc_bytes r) v rnd = Inr sig
             \<and> mls_KeyImage sig = cv_bytes C (smul x (ring_hash C (cv_bytes C (base_mul C x))))
             \<and> MLSAGVerifyV4 C msg (map (cv_bytes C) keys) (cv_bytes C (pedersen C r (scalarFromUint64 v))) realIdx (Some sig) = Inr True)"
  by (rule mlsag_signs [OF assms])

theorem mlsag_complete_witness:
  "\<exists>sig. MLSAGSignV4 zl_curve 7 (map (cv_bytes zl_curve) demo_keys) 0 (sc_bytes 1) (sc_bytes 5) 1000 (\<lambda>_. Some 3) = Inr sig
     \<and> MLSAGVerifyV4 zl_curve 7 (map (cv_bytes zl_curve) demo_keys) (cv_bytes zl_curve (pedersen zl_curve 5 (scalarFromUint64 1000))) 0
        (Some sig) = Inr True"
proof -
  have "sc_ok 1" "sc_ok 5" by (simp_all add: sc_ok_def ell_def)
  moreover have "draws (\<lambda>_. Some 3) (3 * RingSize + 1)" by (simp add: draws_def)
  ultimately show ?thesis
    using mlsag_complete [of zl_curve demo_keys 0 1 5 "\<lambda>_. Some 3" 7 1000] zl_curve_ok demo_keys_ring zl_image_nonzero
    by (auto simp: zl_base_mul zl_ring_hash)
qed

text \<open>The two proofs of knowledge are complete.  A key image and the proof that \<open>ProveKeyImage\<close> makes for a stake
  deposit are accepted by \<open>VerifyKeyImageProof\<close> for the same key and the same context, and the opening proof of
  \<open>ProveValueAuthorization\<close> is accepted by \<open>VerifyValueAuthorization\<close> for the amount and the commitment it was made for, unless a
  nonce or the key image is the identity, which the verifiers refuse.\<close>

theorem knowledge_proofs_complete:
  assumes "curve_ok C"
  shows "(ProveKeyImage C secret P context rnd = Inr (ki, proof) \<and> ki \<noteq> cv_bytes C 0 \<and> ki_CommitmentG proof \<noteq> cv_bytes C 0
            \<and> ki_CommitmentHp proof \<noteq> cv_bytes C 0 \<longrightarrow> VerifyKeyImageProof C P ki context proof = Inr ())
       \<and> (ProveValueAuthorization C amount blind rnd = Inr (commit, R, s) \<and> R \<noteq> cv_bytes C 0
            \<longrightarrow> VerifyValueAuthorization C amount commit (R, s) = Inr ())"
  using dleq_accepted [OF assms] opening_accepted [OF assms] by blast

lemma zl_bytes_nonzero: "0 < k \<Longrightarrow> k < 2 ^ 64 \<Longrightarrow> cv_bytes zl_curve (zl_of (int k)) \<noteq> cv_bytes zl_curve 0"
  using zl_small_inj [of k 0] by (simp add: cv_bytes_inj [OF zl_curve_ok] zl_of_ops(4))

theorem knowledge_proofs_complete_witness:
  "\<exists>commit R s. ProveValueAuthorization zl_curve 1000 (sc_bytes 5) (\<lambda>_. Some (wide 1)) = Inr (commit, R, s)
     \<and> VerifyValueAuthorization zl_curve 1000 commit (R, s) = Inr ()"
proof -
  have one: "sc_uniform (wide 1) = 1" using zl_challenge by (simp add: zl_curve_def)
  have "sc_ok 5" by (simp add: sc_ok_def ell_def)
  then obtain commit s where p: "ProveValueAuthorization zl_curve 1000 (sc_bytes 5) (\<lambda>_. Some (wide 1))
      = Inr (commit, cv_bytes zl_curve (zl_of 1), s)"
    using one by (simp add: ProveValueAuthorization_def Commit_def randomScalar_def zl_base_mul Let_def)
  then have "VerifyValueAuthorization zl_curve 1000 commit (cv_bytes zl_curve (zl_of 1), s) = Inr ()"
    using zl_bytes_nonzero [of 1] knowledge_proofs_complete [OF zl_curve_ok, where amount = 1000 and blind = "sc_bytes 5"
        and rnd = "\<lambda>_. Some (wide 1)" and commit = commit and R = "cv_bytes zl_curve (zl_of 1)" and s = s] by simp
  with p show ?thesis by blast
qed

end
