(* ===== verification/Stealth.thy ===== *)
theory Stealth
  imports Ring_Signatures Chain_State Utxo
begin

text \<open>
  One-time addresses and the wallet side of the chain: \<open>crypto/stealth.go\<close> and \<open>core/wallet_scanner.go\<close>.
  A sender derives the output key from an ephemeral scalar and the two public keys of the
  recipient; the recipient recognizes the output with its view key, decrypts the amount and can spend it with its
  spend key.
\<close>

section \<open>Definitions\<close>

record StealthOutput =
  so_OneTimePub :: point32
  so_TxPubKey :: point32
  so_HsScalar :: scalar32

definition stealth_tag :: string where
  "stealth_tag = ''aperod-stealth''"

definition createStealthOutputWithScalar :: "('p::ab_group_add) curve \<Rightarrow> point32 \<Rightarrow> point32 \<Rightarrow> int \<Rightarrow> crypto_error + StealthOutput" where
  "createStealthOutputWithScalar C spendPub viewPub r =
     (case PointFromBytes C viewPub of Inl e \<Rightarrow> Inl e | Inr V \<Rightarrow>
      let hs = hashToScalar C (pt_data C (smul r V)) stealth_tag in
      case PointFromBytes C spendPub of Inl e \<Rightarrow> Inl e | Inr S \<Rightarrow>
      Inr \<lparr>so_OneTimePub = cv_bytes C (base_mul C hs + S), so_TxPubKey = cv_bytes C (base_mul C r), so_HsScalar = sc_bytes hs\<rparr>)"

definition CreateStealthOutputWithEphemeralSecret :: "('p::ab_group_add) curve \<Rightarrow> point32 \<Rightarrow> point32 \<Rightarrow> randomness
    \<Rightarrow> crypto_error + StealthOutput \<times> scalar32" where
  "CreateStealthOutputWithEphemeralSecret C spendPub viewPub rnd =
     (case randomScalar rnd 0 of Inl e \<Rightarrow> Inl e | Inr r \<Rightarrow>
      case createStealthOutputWithScalar C spendPub viewPub r of Inl e \<Rightarrow> Inl e | Inr out \<Rightarrow> Inr (out, sc_bytes r))"

definition CreateStealthOutput :: "('p::ab_group_add) curve \<Rightarrow> point32 \<Rightarrow> point32 \<Rightarrow> randomness \<Rightarrow> crypto_error + StealthOutput" where
  "CreateStealthOutput C spendPub viewPub rnd =
     (case CreateStealthOutputWithEphemeralSecret C spendPub viewPub rnd of Inl e \<Rightarrow> Inl e | Inr (out, _) \<Rightarrow> Inr out)"

definition CreateStealthOutputFromEphemeralBytes :: "('p::ab_group_add) curve \<Rightarrow> point32 \<Rightarrow> point32 \<Rightarrow> scalar32
    \<Rightarrow> crypto_error + StealthOutput" where
  "CreateStealthOutputFromEphemeralBytes C spendPub viewPub rBytes =
     (case ScalarFromBytes rBytes of None \<Rightarrow> Inl BadScalar | Some r \<Rightarrow> createStealthOutputWithScalar C spendPub viewPub r)"

definition CreateStealthAddress :: "('p::ab_group_add) curve \<Rightarrow> point32 \<Rightarrow> point32 \<Rightarrow> randomness \<Rightarrow> crypto_error + point32 \<times> point32" where
  "CreateStealthAddress C spendPub viewPub rnd =
     (case randomScalar rnd 0 of Inl e \<Rightarrow> Inl e | Inr r \<Rightarrow>
      case PointFromBytes C viewPub of Inl e \<Rightarrow> Inl e | Inr V \<Rightarrow>
      let hs = hashToScalar C (pt_data C (smul r V)) stealth_tag in
      case PointFromBytes C spendPub of Inl e \<Rightarrow> Inl e | Inr S \<Rightarrow>
      Inr (cv_bytes C (base_mul C hs + S), cv_bytes C (base_mul C r)))"

definition ScanForOutput :: "('p::ab_group_add) curve \<Rightarrow> scalar32 \<Rightarrow> point32 \<Rightarrow> point32 \<Rightarrow> point32 \<Rightarrow> crypto_error + scalar32 option" where
  "ScanForOutput C viewPriv spendPub txPubKey oneTimePub =
     (case ScalarFromBytes viewPriv of None \<Rightarrow> Inl BadScalar | Some v \<Rightarrow>
      case PointFromBytes C txPubKey of Inl e \<Rightarrow> Inl e | Inr R \<Rightarrow>
      let hs = hashToScalar C (pt_data C (smul v R)) stealth_tag in
      case PointFromBytes C spendPub of Inl e \<Rightarrow> Inl e | Inr S \<Rightarrow>
      if cv_bytes C (base_mul C hs + S) \<noteq> oneTimePub then Inr None else Inr (Some (sc_bytes hs)))"

subsection \<open>Amounts\<close>

definition amount_stream :: "lib \<Rightarrow> scalar32 \<Rightarrow> bytes" where
  "amount_stream K hs = take 8 (arr_bytes (HashBytes K [str_bytes ''aperod/amount-enc/v1'', arr_bytes hs]))"

definition xor_bytes :: "bytes \<Rightarrow> bytes \<Rightarrow> bytes" where
  "xor_bytes a b = map (\<lambda>(x, y). x XOR y) (zip a b)"

text \<open>The 8 bytes of an encrypted amount are read as \<open>out_EncAmount\<close>, first byte most significant.\<close>

definition decryptAmount :: "lib \<Rightarrow> u64 \<Rightarrow> scalar32 \<Rightarrow> u64" where
  "decryptAmount K enc hs = le_get64 (xor_bytes (be_put64 enc) (amount_stream K hs))"

definition EncryptAmount :: "lib \<Rightarrow> u64 \<Rightarrow> scalar32 \<Rightarrow> u64" where
  "EncryptAmount K amount hs = be_get64 (xor_bytes (le_put64 amount) (amount_stream K hs))"

subsection \<open>The scanner\<close>

record OwnedUTXO =
  ow_UTXO :: UTXO
  ow_HsScalar :: scalar32
  ow_Amount :: u64
  ow_Blind :: scalar32

record WalletScanner =
  ws_viewPriv :: scalar32
  ws_spendPub :: point32

definition scan_output :: "lib \<Rightarrow> ('p::ab_group_add) curve \<Rightarrow> WalletScanner \<Rightarrow> u64 \<Rightarrow> hash32 \<Rightarrow> nat \<times> TxOutput \<Rightarrow> OwnedUTXO list" where
  "scan_output K C s height txHash iout =
     (let (i, out) = iout in
      case ScanForOutput C (ws_viewPriv s) (ws_spendPub s) (out_TxPubKey out) (out_OneTimePub out) of
        Inr (Some hs) \<Rightarrow>
          [\<lparr>ow_UTXO = \<lparr>u_TxHash = txHash, u_OutputIndex = word_of_nat i, u_OneTimePub = out_OneTimePub out,
              u_TxPubKey = out_TxPubKey out, u_AmountCommit = out_AmountCommit out, u_EncAmount = out_EncAmount out,
              u_BlockHeight = height, u_ProtocolLocked = False\<rparr>,
            ow_HsScalar = hs, ow_Amount = decryptAmount K (out_EncAmount out) hs, ow_Blind = 0\<rparr>]
      | _ \<Rightarrow> [])"

definition scan_tx :: "lib \<Rightarrow> ('p::ab_group_add) curve \<Rightarrow> WalletScanner \<Rightarrow> u64 \<Rightarrow> Transaction \<Rightarrow> OwnedUTXO list" where
  "scan_tx K C s height tx =
     concat (map (scan_output K C s height (tx_Hash K tx)) (enumerate 0 (tx_Outputs tx)))"

definition ScanBlock :: "lib \<Rightarrow> ('p::ab_group_add) curve \<Rightarrow> WalletScanner \<Rightarrow> Block \<Rightarrow> OwnedUTXO list" where
  "ScanBlock K C s b = concat (map (scan_tx K C s (height_of b)) (blk_Txs b))"

text \<open>The loop over heights ends at the first height without a block; with the largest height as its
  end it relies on there being one.\<close>

partial_function (option) scan_heights :: "lib \<Rightarrow> ('p::ab_group_add) curve \<Rightarrow> WalletScanner \<Rightarrow> Chain \<Rightarrow> u64 \<Rightarrow> OwnedUTXO list \<Rightarrow> u64
    \<Rightarrow> OwnedUTXO list option" where
  "scan_heights K C s c endHeight all h =
     (if endHeight < h then Some all
      else case GetByHeight c h of None \<Rightarrow> Some all
      | Some b \<Rightarrow> scan_heights K C s c endHeight (all @ ScanBlock K C s b) (h + 1))"

definition ScanChain :: "lib \<Rightarrow> ('p::ab_group_add) curve \<Rightarrow> WalletScanner \<Rightarrow> Chain \<Rightarrow> u64 \<Rightarrow> u64 \<Rightarrow> OwnedUTXO list option" where
  "ScanChain K C s c startHeight endHeight = scan_heights K C s c endHeight [] startHeight"

definition Balance :: "OwnedUTXO list \<Rightarrow> u64" where
  "Balance us = sum_list (map ow_Amount us)"

section \<open>Amounts\<close>

lemma xor_bytes_length [simp]: "length (xor_bytes a b) = min (length a) (length b)"
  by (simp add: xor_bytes_def)

lemma xor_bytes_cancel: "length a \<le> length b \<Longrightarrow> xor_bytes (xor_bytes a b) b = a"
proof (rule nth_equalityI)
  fix i assume "length a \<le> length b" "i < length (xor_bytes (xor_bytes a b) b)"
  then show "xor_bytes (xor_bytes a b) b ! i = a ! i"
    by (simp add: xor_bytes_def xor.assoc)
qed simp

lemma amount_stream_length [simp]: "length (amount_stream K hs) = 8"
  by (simp add: amount_stream_def)

lemma amount_round_trip: "decryptAmount K (EncryptAmount K amount hs) hs = amount"
  by (simp add: decryptAmount_def EncryptAmount_def put_get xor_bytes_cancel)

section \<open>Recognizing and spending an output\<close>

lemma scan_own:
  assumes ok: "curve_ok C" and v: "sc_ok v"
    and out: "createStealthOutputWithScalar C (cv_bytes C S) (cv_bytes C (base_mul C v)) r = Inr out"
  shows "ScanForOutput C (sc_bytes v) (cv_bytes C S) (so_TxPubKey out) (so_OneTimePub out) = Inr (Some (so_HsScalar out))"
proof -
  have "smul r (base_mul C v) = smul v (base_mul C r)"
    by (simp add: base_mul_def points.scale_left_commute)
  with out show ?thesis
    using ok v by (auto simp: createStealthOutputWithScalar_def ScanForOutput_def Let_def)
qed

lemma scanned_spendable:
  assumes ok: "curve_ok C" and s: "sc_ok s"
    and scan: "ScanForOutput C viewPriv (cv_bytes C (base_mul C s)) txPub oneTimePub = Inr (Some hs)"
  shows "\<exists>x. AddScalars hs (sc_bytes s) = Inr x \<and> scalarMulBase C x = Inr oneTimePub"
proof -
  obtain d where h: "hs = sc_bytes (hashToScalar C d stealth_tag)"
    "oneTimePub = cv_bytes C (base_mul C (hashToScalar C d stealth_tag) + base_mul C s)"
    using scan ok by (auto simp: ScanForOutput_def Let_def split: option.splits sum.splits if_splits)
  let ?h = "hashToScalar C d stealth_tag"
  have "base_mul C (sc_add ?h s) = base_mul C ?h + base_mul C s"
    using ok by (simp add: sc_add_def) (simp add: base_mul_def points.scale_left_distrib)
  then show ?thesis using h s by (simp add: AddScalars_def scalarMulBase_def)
qed

lemma scan_output_member:
  assumes "u \<in> set (ScanBlock K C ws b)"
  obtains tx i where "tx \<in> set (blk_Txs b)" "i < length (tx_Outputs tx)"
    "ScanForOutput C (ws_viewPriv ws) (ws_spendPub ws) (out_TxPubKey (tx_Outputs tx ! i)) (out_OneTimePub (tx_Outputs tx ! i)) = Inr (Some (ow_HsScalar u))"
    "u_OneTimePub (ow_UTXO u) = out_OneTimePub (tx_Outputs tx ! i)"
  using assms
  by (auto simp: ScanBlock_def scan_tx_def scan_output_def in_set_enumerate_eq split: sum.splits option.splits prod.splits)

lemma scan_finds:
  assumes "tx \<in> set (blk_Txs b)" and "i < length (tx_Outputs tx)" and "out = tx_Outputs tx ! i"
    and "ScanForOutput C (ws_viewPriv ws) (ws_spendPub ws) (out_TxPubKey out) (out_OneTimePub out) = Inr (Some hs)"
  shows "\<exists>u \<in> set (ScanBlock K C ws b). ow_HsScalar u = hs \<and> u_OneTimePub (ow_UTXO u) = out_OneTimePub out
     \<and> ow_Amount u = decryptAmount K (out_EncAmount out) hs \<and> utxo_key (ow_UTXO u) = (tx_Hash K tx, word_of_nat i)"
proof -
  let ?us = "scan_output K C ws (height_of b) (tx_Hash K tx) (i, out)"
  have "(i, out) \<in> set (enumerate 0 (tx_Outputs tx))" using assms by (simp add: in_set_enumerate_eq)
  then have "set ?us \<subseteq> set (ScanBlock K C ws b)" using assms(1) by (auto simp: ScanBlock_def scan_tx_def)
  moreover have "\<exists>u \<in> set ?us. ow_HsScalar u = hs \<and> u_OneTimePub (ow_UTXO u) = out_OneTimePub out
     \<and> ow_Amount u = decryptAmount K (out_EncAmount out) hs \<and> utxo_key (ow_UTXO u) = (tx_Hash K tx, word_of_nat i)"
    using assms(4) by (simp add: scan_output_def utxo_key_def)
  ultimately show ?thesis by blast
qed

text \<open>The scan of a chain returns for every end below the largest height.\<close>

lemma scan_heights_returns:
  assumes "endHeight < max_u64"
  shows "\<exists>us. scan_heights K C s c endHeight all h = Some us"
proof (induction "unat endHeight + 1 - unat h" arbitrary: h all)
  case 0
  then have "endHeight < h" by (simp add: u64_as_nat)
  then show ?case by (subst scan_heights.simps) simp
next
  case (Suc n)
  then have le: "h \<le> endHeight" by (simp add: u64_as_nat)
  then have "unat (h + 1) = unat h + 1"
    using assms unat_add_u64 [of h 1] by (simp add: u64_as_nat unat_max_u64)
  then have "n = unat endHeight + 1 - unat (h + 1)" using Suc(2) by simp
  from Suc(1) [OF this] show ?case by (subst scan_heights.simps) (auto split: option.splits)
qed

lemma ScanChain_returns: "endHeight < max_u64 \<Longrightarrow> \<exists>us. ScanChain K C s c startHeight endHeight = Some us"
  unfolding ScanChain_def by (rule scan_heights_returns)

section \<open>Properties\<close>

text \<open>C22: Payments to an address reach their recipient.  When a transaction of a block has an output that a sender
  built, with any ephemeral scalar, for the public keys of a wallet and whose amount it encrypted with the shared
  secret, the scan of the block with the wallet's view key reports this output with its place and its amount.
  And every output a scan reports can be spent: the reported scalar plus the spend key is the private key of the
  output's one-time public key.\<close>

theorem stealth_payment_received:
  assumes ok: "curve_ok C" and s: "sc_ok s" and v: "sc_ok v"
    and ws: "ws = \<lparr>ws_viewPriv = sc_bytes v, ws_spendPub = cv_bytes C (base_mul C s)\<rparr>"
  shows "(createStealthOutputWithScalar C (cv_bytes C (base_mul C s)) (cv_bytes C (base_mul C v)) r = Inr out
          \<and> tx \<in> set (blk_Txs b) \<and> i < length (tx_Outputs tx)
          \<and> out_TxPubKey (tx_Outputs tx ! i) = so_TxPubKey out \<and> out_OneTimePub (tx_Outputs tx ! i) = so_OneTimePub out
          \<and> out_EncAmount (tx_Outputs tx ! i) = EncryptAmount K amount (so_HsScalar out)
          \<longrightarrow> (\<exists>u \<in> set (ScanBlock K C ws b). utxo_key (ow_UTXO u) = (tx_Hash K tx, word_of_nat i) \<and> ow_Amount u = amount))
       \<and> (u \<in> set (ScanBlock K C ws b)
          \<longrightarrow> (\<exists>x. AddScalars (ow_HsScalar u) (sc_bytes s) = Inr x \<and> scalarMulBase C x = Inr (u_OneTimePub (ow_UTXO u))))"
proof (intro conjI impI)
  assume a: "createStealthOutputWithScalar C (cv_bytes C (base_mul C s)) (cv_bytes C (base_mul C v)) r = Inr out
          \<and> tx \<in> set (blk_Txs b) \<and> i < length (tx_Outputs tx)
          \<and> out_TxPubKey (tx_Outputs tx ! i) = so_TxPubKey out \<and> out_OneTimePub (tx_Outputs tx ! i) = so_OneTimePub out
          \<and> out_EncAmount (tx_Outputs tx ! i) = EncryptAmount K amount (so_HsScalar out)"
  then have "ScanForOutput C (ws_viewPriv ws) (ws_spendPub ws) (out_TxPubKey (tx_Outputs tx ! i)) (out_OneTimePub (tx_Outputs tx ! i))
      = Inr (Some (so_HsScalar out))"
    using scan_own [OF ok v, of "base_mul C s" r out] ws by simp
  from scan_finds [OF _ _ refl this, of b K] a
  show "\<exists>u \<in> set (ScanBlock K C ws b). utxo_key (ow_UTXO u) = (tx_Hash K tx, word_of_nat i) \<and> ow_Amount u = amount"
    by (auto simp: amount_round_trip)
next
  assume "u \<in> set (ScanBlock K C ws b)"
  then show "\<exists>x. AddScalars (ow_HsScalar u) (sc_bytes s) = Inr x \<and> scalarMulBase C x = Inr (u_OneTimePub (ow_UTXO u))"
    using scanned_spendable [OF ok s] ws by (elim scan_output_member) simp
qed

definition demo_stealth :: StealthOutput where
  "demo_stealth = \<lparr>so_OneTimePub = cv_bytes zl_curve (zl_of 3), so_TxPubKey = cv_bytes zl_curve (zl_of 5), so_HsScalar = sc_bytes 1\<rparr>"

definition demo_paid_tx :: "lib \<Rightarrow> Transaction" where
  "demo_paid_tx K = (empty_tx TxVersionCLSAG)\<lparr>tx_Outputs := [\<lparr>out_OneTimePub = so_OneTimePub demo_stealth,
     out_TxPubKey = so_TxPubKey demo_stealth, out_AmountCommit = 0, out_EncAmount = EncryptAmount K 250 (so_HsScalar demo_stealth)\<rparr>]\<rparr>"

theorem stealth_payment_received_witness:
  "\<forall>K. \<exists>u \<in> set (ScanBlock K zl_curve \<lparr>ws_viewPriv = sc_bytes 3, ws_spendPub = cv_bytes zl_curve (base_mul zl_curve 2)\<rparr>
          \<lparr>blk_Header = demo_header, blk_Txs = [demo_paid_tx K]\<rparr>).
      utxo_key (ow_UTXO u) = (tx_Hash K (demo_paid_tx K), 0) \<and> ow_Amount u = 250"
proof
  fix K
  have "sc_ok 2" "sc_ok 3" by (simp_all add: sc_ok_def ell_def)
  moreover have "createStealthOutputWithScalar zl_curve (cv_bytes zl_curve (base_mul zl_curve 2)) (cv_bytes zl_curve (base_mul zl_curve 3)) 5 = Inr demo_stealth"
    using zl_curve_ok
    by (simp add: createStealthOutputWithScalar_def demo_stealth_def hashToScalar_def zl_challenge zl_base_mul zl_of_ops(1))
  ultimately show "\<exists>u \<in> set (ScanBlock K zl_curve \<lparr>ws_viewPriv = sc_bytes 3, ws_spendPub = cv_bytes zl_curve (base_mul zl_curve 2)\<rparr>
          \<lparr>blk_Header = demo_header, blk_Txs = [demo_paid_tx K]\<rparr>).
      utxo_key (ow_UTXO u) = (tx_Hash K (demo_paid_tx K), 0) \<and> ow_Amount u = 250"
    using stealth_payment_received [OF zl_curve_ok, of 2 3 _ 5 demo_stealth "demo_paid_tx K"
        "\<lparr>blk_Header = demo_header, blk_Txs = [demo_paid_tx K]\<rparr>" 0 K 250, OF _ _ refl]
    by (simp add: demo_paid_tx_def)
qed

end
