(* ===== verification/Bulletproof.thy ===== *)
theory Bulletproof
  imports Ring_Signatures
begin

text \<open>
  The range proofs of \<open>crypto/bulletproof.go\<close>: the generators, the Fiat-Shamir transcript, the vector
  helpers, \<open>ProveRange\<close>, the inner-product argument \<open>ipaProve\<close> and \<open>VerifyRange\<close>.  The 64 entries of an array are a
  list of 64.  The main theorem is that every proof made is accepted, whatever the value, the blinding
  factor and the randomness.
\<close>

section \<open>Definitions\<close>

definition bpBits :: nat where "bpBits = 64"
definition bpLog :: nat where "bpLog = 6"

definition bpU :: "('p::ab_group_add) curve \<Rightarrow> 'p" where
  "bpU C = hashToPoint C (str_bytes ''Aperod/BP/U/v2'')"

definition bpGvec :: "('p::ab_group_add) curve \<Rightarrow> 'p list" where
  "bpGvec C = map (\<lambda>i. hashToPoint C (str_bytes ''Aperod/BP/Gvec/v2/'' @ le_put64 (word_of_nat i))) [0..<bpBits]"

definition bpHvec :: "('p::ab_group_add) curve \<Rightarrow> 'p list" where
  "bpHvec C = map (\<lambda>i. hashToPoint C (str_bytes ''Aperod/BP/Hvec/v2/'' @ le_put64 (word_of_nat i))) [0..<bpBits]"

subsection \<open>Transcript\<close>

definition newBPTranscript :: "('p::ab_group_add) curve \<Rightarrow> string \<Rightarrow> hash32" where
  "newBPTranscript C label = cv_sha256 C (str_bytes ''Aperod/BP/transcript/v2/'' @ str_bytes label)"

definition absorb :: "('p::ab_group_add) curve \<Rightarrow> bytes \<Rightarrow> hash32 \<Rightarrow> hash32" where
  "absorb C b acc = cv_sha256 C (arr_bytes acc @ b)"

definition absorbPoint :: "('p::ab_group_add) curve \<Rightarrow> 'p \<Rightarrow> hash32 \<Rightarrow> hash32" where
  "absorbPoint C p acc = absorb C (pt_data C p) acc"

definition absorbScalar :: "('p::ab_group_add) curve \<Rightarrow> int \<Rightarrow> hash32 \<Rightarrow> hash32" where
  "absorbScalar C s acc = absorb C (arr_bytes (sc_bytes s)) acc"

definition bp_challenge :: "('p::ab_group_add) curve \<Rightarrow> hash32 \<Rightarrow> int \<times> hash32" where
  "bp_challenge C acc =
     (let s = sc_uniform (cv_sha512 C (str_bytes ''challenge'' @ arr_bytes acc))
      in (s, absorb C (arr_bytes (sc_bytes s)) acc))"

subsection \<open>Vectors\<close>

fun powers :: "int \<Rightarrow> int \<Rightarrow> nat \<Rightarrow> int list" where
  "powers b x 0 = []"
| "powers b x (Suc n) = x # powers b (sc_mul x b) n"

definition powerVec :: "int \<Rightarrow> nat \<Rightarrow> int list" where
  "powerVec b n = powers b 1 n"

definition pow2Vec :: "nat \<Rightarrow> int list" where
  "pow2Vec n = powerVec (scalarFromUint64 2) n"

definition innerProduct :: "int list \<Rightarrow> int list \<Rightarrow> int" where
  "innerProduct a b = foldl (\<lambda>r (x, y). sc_muladd x y r) 0 (zip a b)"

definition vecAddS :: "int list \<Rightarrow> int \<Rightarrow> int list" where "vecAddS v s = map (\<lambda>x. sc_add x s) v"
definition vecSubS :: "int list \<Rightarrow> int \<Rightarrow> int list" where "vecSubS v s = map (\<lambda>x. sc_sub x s) v"
definition vecHadamard :: "int list \<Rightarrow> int list \<Rightarrow> int list" where "vecHadamard a b = map2 sc_mul a b"
definition vecAddVec :: "int list \<Rightarrow> int list \<Rightarrow> int list" where "vecAddVec a b = map2 sc_add a b"
definition vecScale :: "int \<Rightarrow> int list \<Rightarrow> int list" where "vecScale s v = map (sc_mul s) v"

definition msm :: "int list \<Rightarrow> 'p::ab_group_add list \<Rightarrow> 'p" where
  "msm scalars points = sum_list (map2 smul scalars points)"

definition sc_sum :: "int list \<Rightarrow> int" where
  "sc_sum xs = foldl sc_add 0 xs"

subsection \<open>The inner-product argument\<close>

definition fold_points :: "int \<Rightarrow> 'p::ab_group_add list \<Rightarrow> 'p list \<Rightarrow> 'p list" where
  "fold_points k xs ys = map2 (\<lambda>x y. x + smul k y) xs ys"

definition fold_scalars :: "int \<Rightarrow> int list \<Rightarrow> int list \<Rightarrow> int list" where
  "fold_scalars k xs ys = map2 (\<lambda>x y. sc_muladd k y x) xs ys"

text \<open>\<open>IPA: n is not a power of 2\<close> is the only error.\<close>

function ipaProve :: "('p::ab_group_add) curve \<Rightarrow> 'p list \<Rightarrow> 'p list \<Rightarrow> int list \<Rightarrow> int list \<Rightarrow> 'p \<Rightarrow> hash32
    \<Rightarrow> unit + ('p list \<times> 'p list \<times> int \<times> int)" where
  "ipaProve C G H a b U tr =
     (if length a \<le> 1 then Inr ([], [], a ! 0, b ! 0)
      else if length a mod 2 \<noteq> 0 then Inl ()
      else
        let half = length a div 2;
            aL = take half a; aR = drop half a; bL = take half b; bR = drop half b;
            GL = take half G; GR = drop half G; HL = take half H; HR = drop half H;
            L = msm aR GL + msm bL HR + smul (innerProduct aR bL) U;
            R = msm aL GR + msm bR HL + smul (innerProduct aL bR) U;
            (u, tr) = bp_challenge C (absorbPoint C R (absorbPoint C L tr));
            uInv = sc_invert u
        in case ipaProve C (fold_points uInv GL GR) (fold_points u HL HR) (fold_scalars u aL aR) (fold_scalars uInv bL bR) U tr of
             Inl e \<Rightarrow> Inl e
           | Inr (Ls, Rs, aFin, bFin) \<Rightarrow> Inr (L # Ls, R # Rs, aFin, bFin))"
  by pat_completeness auto

termination
  by (relation "measure (\<lambda>(C, G, H, a, b, U, tr). length a)") (auto simp: fold_scalars_def)

declare ipaProve.simps [simp del]

subsection \<open>Proving\<close>

text \<open>\<open>ProveRange\<close> drops the error of \<open>NewBlindFactor\<close>, which then is the zero factor.\<close>

definition drawn :: "randomness \<Rightarrow> nat \<Rightarrow> int" where
  "drawn rnd n = (case rnd n of None \<Rightarrow> 0 | Some w \<Rightarrow> sc_uniform w)"

definition value_bits :: "u64 \<Rightarrow> int list" where
  "value_bits value = map (\<lambda>i. scalarFromUint64 (drop_bit i value AND 1)) [0..<bpBits]"

definition y_generators :: "int \<Rightarrow> 'p::ab_group_add list \<Rightarrow> 'p list" where
  "y_generators y hv = map2 smul (powerVec (sc_invert y) bpBits) hv"

record 'p range_parts =
  rg_V :: 'p
  rg_A :: 'p
  rg_S :: 'p
  rg_T1 :: 'p
  rg_T2 :: 'p
  rg_taux :: int
  rg_mu :: int
  rg_tHat :: int

text \<open>The challenges \<open>y\<close>, \<open>z\<close>, \<open>x\<close>, \<open>w\<close> and the transcript before the inner-product argument, as prover and
  verifier derive them.\<close>

definition challenges_yz :: "('p::ab_group_add) curve \<Rightarrow> 'p \<Rightarrow> 'p \<Rightarrow> 'p \<Rightarrow> int \<times> int \<times> hash32" where
  "challenges_yz C V A S =
     (let tr = absorbPoint C S (absorbPoint C A (absorbPoint C V (newBPTranscript C ''range-proof/v2'')));
          (y, tr) = bp_challenge C tr; (z, tr) = bp_challenge C tr
      in (y, z, tr))"

definition challenge_x :: "('p::ab_group_add) curve \<Rightarrow> 'p \<Rightarrow> 'p \<Rightarrow> hash32 \<Rightarrow> int \<times> hash32" where
  "challenge_x C T1 T2 tr = bp_challenge C (absorbPoint C T2 (absorbPoint C T1 tr))"

definition challenge_w :: "('p::ab_group_add) curve \<Rightarrow> int \<Rightarrow> int \<Rightarrow> int \<Rightarrow> hash32 \<Rightarrow> int \<times> hash32" where
  "challenge_w C taux mu tHat tr =
     bp_challenge C (absorbScalar C tHat (absorbScalar C mu (absorbScalar C taux tr)))"

text \<open>The polynomials \<open>l\<close> and \<open>r\<close>: constant and linear coefficients.\<close>

definition poly_l0 :: "int list \<Rightarrow> int \<Rightarrow> int list" where
  "poly_l0 aL z = vecSubS aL z"

definition poly_r0 :: "int list \<Rightarrow> int \<Rightarrow> int \<Rightarrow> int list" where
  "poly_r0 aR y z = vecAddVec (vecHadamard (powerVec y bpBits) (vecAddS aR z)) (vecScale (sc_mul z z) (pow2Vec bpBits))"

definition poly_r1 :: "int list \<Rightarrow> int \<Rightarrow> int list" where
  "poly_r1 sR y = vecHadamard (powerVec y bpBits) sR"

definition vector_commit :: "('p::ab_group_add) curve \<Rightarrow> int \<Rightarrow> int list \<Rightarrow> int list \<Rightarrow> 'p" where
  "vector_commit C k xs ys = base_mul C k + msm xs (bpGvec C) + msm ys (bpHvec C)"

definition encode_proof :: "('p::ab_group_add) curve \<Rightarrow> 'p range_parts \<Rightarrow> 'p list \<times> 'p list \<times> int \<times> int \<Rightarrow> RangeProof" where
  "encode_proof C p ipa =
     (let (Ls, Rs, aFin, bFin) = ipa in
      \<lparr>rp_V = cv_bytes C (rg_V p), rp_A = cv_bytes C (rg_A p), rp_S = cv_bytes C (rg_S p), rp_T1 = cv_bytes C (rg_T1 p),
       rp_T2 = cv_bytes C (rg_T2 p), rp_Taux = sc_bytes (rg_taux p), rp_Mu = sc_bytes (rg_mu p), rp_Tx = sc_bytes (rg_tHat p),
       rp_Ls = map (cv_bytes C) Ls, rp_Rs = map (cv_bytes C) Rs, rp_AFin = sc_bytes aFin, rp_BFin = sc_bytes bFin,
       rp_ValueCommit = cv_bytes C (rg_V p)\<rparr>)"

text \<open>Steps 1 to 9 of \<open>ProveRange\<close>: the parts of the proof, the vectors \<open>l(x)\<close> and \<open>r(x)\<close>, the challenge \<open>y\<close> and the
  transcript.\<close>

definition range_vectors :: "('p::ab_group_add) curve \<Rightarrow> u64 \<Rightarrow> int \<Rightarrow> randomness \<Rightarrow> 'p range_parts \<times> int list \<times> int list \<times> int \<times> hash32" where
  "range_vectors C value gamma rnd =
     (let V = base_mul C gamma + smul (scalarFromUint64 value) (BpH C);
          aL = value_bits value; aR = map (\<lambda>a. sc_sub a 1) aL;
          alpha = drawn rnd 0; A = vector_commit C alpha aL aR;
          sL = map (\<lambda>i. drawn rnd (1 + 2 * i)) [0..<bpBits]; sR = map (\<lambda>i. drawn rnd (2 + 2 * i)) [0..<bpBits];
          rho = drawn rnd (2 * bpBits + 1); S = vector_commit C rho sL sR;
          (y, z, tr) = challenges_yz C V A S;
          l0 = poly_l0 aL z; r0 = poly_r0 aR y z; r1 = poly_r1 sR y;
          t1 = sc_add (innerProduct l0 r1) (innerProduct sL r0); t2 = innerProduct sL r1;
          tau1 = drawn rnd (2 * bpBits + 2); tau2 = drawn rnd (2 * bpBits + 3);
          T1 = base_mul C tau1 + smul t1 (BpH C); T2 = base_mul C tau2 + smul t2 (BpH C);
          (x, tr) = challenge_x C T1 T2 tr;
          l = vecAddVec l0 (vecScale x sL); r = vecAddVec r0 (vecScale x r1);
          taux = sc_muladd (sc_mul z z) gamma (sc_muladd tau1 x (sc_muladd tau2 (sc_mul x x) 0));
          mu = sc_muladd rho x alpha
      in (\<lparr>rg_V = V, rg_A = A, rg_S = S, rg_T1 = T1, rg_T2 = T2, rg_taux = taux, rg_mu = mu, rg_tHat = innerProduct l r\<rparr>,
          l, r, y, tr))"

datatype range_error = RangeBlind | RangeIpa

definition ProveRange :: "('p::ab_group_add) curve \<Rightarrow> u64 \<Rightarrow> scalar32 \<Rightarrow> randomness \<Rightarrow> range_error + RangeProof" where
  "ProveRange C value blind rnd =
     (case ScalarFromBytes blind of None \<Rightarrow> Inl RangeBlind | Some gamma \<Rightarrow>
      let (p, l, r, y, tr) = range_vectors C value gamma rnd;
          (w, tr) = challenge_w C (rg_taux p) (rg_mu p) (rg_tHat p) tr;
          Uw = smul w (bpU C) in
      case ipaProve C (bpGvec C) (y_generators y (bpHvec C)) l r Uw tr of Inl e \<Rightarrow> Inl RangeIpa
      | Inr ipa \<Rightarrow> Inr (encode_proof C p ipa))"

subsection \<open>Verifying\<close>

definition decPts :: "('p::ab_group_add) curve \<Rightarrow> point32 list \<Rightarrow> crypto_error + 'p list" where
  "decPts C bs = foldE (\<lambda>b ps. case PointFromBytes C b of Inl e \<Rightarrow> Inl e | Inr p \<Rightarrow> Inr (ps @ [p])) bs []"

definition decScs :: "scalar32 list \<Rightarrow> crypto_error + int list" where
  "decScs bs = foldE (\<lambda>b ss. case ScalarFromBytes b of None \<Rightarrow> Inl BadScalar | Some s \<Rightarrow> Inr (ss @ [s])) bs []"

definition range_delta :: "int \<Rightarrow> int \<Rightarrow> int" where
  "range_delta y z =
     (let z2 = sc_mul z z; z3 = sc_mul z2 z
      in sc_muladd (sc_sub z z2) (sc_sum (powerVec y bpBits)) (sc_neg (sc_mul z3 (sc_sum (pow2Vec bpBits)))))"

definition check_polynomial :: "('p::ab_group_add) curve \<Rightarrow> 'p range_parts \<Rightarrow> int \<Rightarrow> int \<Rightarrow> int \<Rightarrow> bool" where
  "check_polynomial C p y z x \<longleftrightarrow>
     smul (rg_tHat p) (BpH C) + base_mul C (rg_taux p)
     = smul (sc_mul z z) (rg_V p) + smul (range_delta y z) (BpH C) + smul x (rg_T1 p) + smul (sc_mul x x) (rg_T2 p)"

definition ipa_term :: "('p::ab_group_add) curve \<Rightarrow> int \<Rightarrow> 'p list \<Rightarrow> 'p \<Rightarrow> nat \<Rightarrow> 'p" where
  "ipa_term C z hPrime P i =
     P + smul (sc_neg z) (bpGvec C ! i) + smul z (bpHvec C ! i) + smul (sc_mul (sc_mul z z) (pow2Vec bpBits ! i)) (hPrime ! i)"

definition ipa_point :: "('p::ab_group_add) curve \<Rightarrow> 'p range_parts \<Rightarrow> int \<Rightarrow> int \<Rightarrow> 'p list \<Rightarrow> 'p \<Rightarrow> 'p" where
  "ipa_point C p z x hPrime Uw =
     foldl (ipa_term C z hPrime)
       (rg_A p + smul x (rg_S p) + base_mul C (sc_neg (rg_mu p)) + smul (rg_tHat p) Uw) [0..<bpBits]"

fun ipa_replay :: "('p::ab_group_add) curve \<Rightarrow> ('p \<times> 'p) list \<Rightarrow> 'p \<Rightarrow> hash32 \<Rightarrow> int list \<times> 'p" where
  "ipa_replay C [] P tr = ([], P)"
| "ipa_replay C ((L, R) # LRs) P tr =
     (let (u, tr) = bp_challenge C (absorbPoint C R (absorbPoint C L tr));
          (us, P') = ipa_replay C LRs (P + smul u L + smul (sc_invert u) R) tr
      in (u # us, P'))"

fun fold_generators :: "int list \<Rightarrow> 'p::ab_group_add list \<Rightarrow> 'p list \<Rightarrow> 'p list \<times> 'p list" where
  "fold_generators [] G H = (G, H)"
| "fold_generators (u # us) G H =
     (let half = length G div 2
      in fold_generators us (fold_points (sc_invert u) (take half G) (drop half G)) (fold_points u (take half H) (drop half H)))"

definition check_ipa :: "('p::ab_group_add) curve \<Rightarrow> 'p list \<Rightarrow> 'p list \<Rightarrow> 'p \<Rightarrow> 'p \<Rightarrow> ('p \<times> 'p) list \<Rightarrow> int \<Rightarrow> int \<Rightarrow> hash32 \<Rightarrow> bool" where
  "check_ipa C G H U P LRs aFin bFin tr \<longleftrightarrow>
     (let (us, P) = ipa_replay C LRs P tr; (Gfin, Hfin) = fold_generators us G H
      in smul aFin (Gfin ! 0) + smul bFin (Hfin ! 0) + smul (sc_mul aFin bFin) U = P)"

text \<open>The checks on decoded parts.\<close>

definition verify_parts :: "('p::ab_group_add) curve \<Rightarrow> 'p range_parts \<Rightarrow> ('p \<times> 'p) list \<Rightarrow> int \<Rightarrow> int \<Rightarrow> bool" where
  "verify_parts C p LRs aFin bFin \<longleftrightarrow>
     (let (y, z, tr) = challenges_yz C (rg_V p) (rg_A p) (rg_S p); (x, tr) = challenge_x C (rg_T1 p) (rg_T2 p) tr;
          (w, tr) = challenge_w C (rg_taux p) (rg_mu p) (rg_tHat p) tr;
          Uw = smul w (bpU C); hPrime = y_generators y (bpHvec C)
      in check_polynomial C p y z x
         \<and> check_ipa C (bpGvec C) hPrime Uw (ipa_point C p z x hPrime Uw) LRs aFin bFin tr)"

definition VerifyRange :: "('p::ab_group_add) curve \<Rightarrow> RangeProof option \<Rightarrow> crypto_error + bool" where
  "VerifyRange C oproof =
     (case oproof of None \<Rightarrow> Inl NilSignature | Some proof \<Rightarrow>
      if rp_ValueCommit proof \<noteq> rp_V proof then Inr False
      else case decPts C [rp_V proof, rp_A proof, rp_S proof, rp_T1 proof, rp_T2 proof] of Inl e \<Rightarrow> Inl e | Inr ps \<Rightarrow>
      case decScs [rp_Taux proof, rp_Mu proof, rp_Tx proof, rp_AFin proof, rp_BFin proof] of Inl e \<Rightarrow> Inl e | Inr ss \<Rightarrow>
      case decPts C (concat (map2 (\<lambda>l r. [l, r]) (rp_Ls proof) (rp_Rs proof))) of Inl e \<Rightarrow> Inl e | Inr lrs \<Rightarrow>
      Inr (verify_parts C \<lparr>rg_V = ps ! 0, rg_A = ps ! 1, rg_S = ps ! 2, rg_T1 = ps ! 3, rg_T2 = ps ! 4,
             rg_taux = ss ! 0, rg_mu = ss ! 1, rg_tHat = ss ! 2\<rparr>
           (map (\<lambda>k. (lrs ! (2 * k), lrs ! (2 * k + 1))) [0..<bpLog]) (ss ! 3) (ss ! 4)))"

section \<open>Scalars modulo the group order\<close>

definition cong :: "int \<Rightarrow> int \<Rightarrow> bool" where
  "cong a b \<longleftrightarrow> a mod ell = b mod ell"

lemma cong_refl [simp]: "cong a a"
  by (simp add: cong_def)

lemma cong_sym: "cong a b \<Longrightarrow> cong b a"
  by (simp add: cong_def)

lemma cong_trans [trans]: "cong a b \<Longrightarrow> cong b c \<Longrightarrow> cong a c"
  by (simp add: cong_def)

lemma cong_mod [simp]: "cong (a mod ell) a" "cong (sc_add a b) (a + b)" "cong (sc_sub a b) (a - b)" "cong (sc_mul a b) (a * b)"
  "cong (sc_neg a) (- a)" "cong (sc_muladd a b c) (a * b + c)"
  by (simp_all add: cong_def sc_defs)

lemma cong_add: "cong a b \<Longrightarrow> cong c d \<Longrightarrow> cong (a + c) (b + d)"
  unfolding cong_def by (metis mod_add_eq)

lemma cong_mult: "cong a b \<Longrightarrow> cong c d \<Longrightarrow> cong (a * c) (b * d)"
  unfolding cong_def by (metis mod_mult_eq)

lemma cong_diff: "cong a b \<Longrightarrow> cong c d \<Longrightarrow> cong (a - c) (b - d)"
  unfolding cong_def by (metis mod_diff_eq)

lemma cong_sum: "(\<And>i. i \<in> I \<Longrightarrow> cong (f i) (g i)) \<Longrightarrow> cong (sum f I) (sum g I)"
  by (induction I rule: infinite_finite_induct) (auto intro: cong_add)

lemma smul_congI: "smul ell p = 0 \<Longrightarrow> cong a b \<Longrightarrow> smul a p = smul b p"
  unfolding cong_def by (rule smul_cong)

lemma cong_invert: "coprime u ell \<Longrightarrow> cong (u * sc_invert u) 1"
  using sc_invert_correct [of u] by (simp add: cong_def ell_def)

definition dot :: "int list \<Rightarrow> int list \<Rightarrow> int" where
  "dot a b = sum_list (map2 (*) a b)"

lemma innerProduct_cong: "cong (innerProduct a b) (dot a b)"
proof -
  have "cong (foldl (\<lambda>r (x, y). sc_muladd x y r) r0 xs) (r0 + sum_list (map (\<lambda>(x, y). x * y) xs))" for r0 xs
  proof (induction xs arbitrary: r0)
    case (Cons p xs)
    obtain x y where p: "p = (x, y)" by fastforce
    have "cong (foldl (\<lambda>r (x, y). sc_muladd x y r) (sc_muladd x y r0) xs) (sc_muladd x y r0 + sum_list (map (\<lambda>(x, y). x * y) xs))"
      by (rule Cons)
    also have "cong \<dots> ((x * y + r0) + sum_list (map (\<lambda>(x, y). x * y) xs))" by (intro cong_add) simp_all
    finally show ?case by (simp add: p algebra_simps)
  qed simp
  from this [of 0 "zip a b"] show ?thesis by (simp add: innerProduct_def dot_def)
qed

lemma innerProduct_ok [simp]: "sc_ok (innerProduct a b)"
proof -
  have "sc_ok r0 \<Longrightarrow> sc_ok (foldl (\<lambda>r (x, y). sc_muladd x y r) r0 xs)" for r0 xs
    by (induction xs arbitrary: r0) auto
  then show ?thesis by (simp add: innerProduct_def)
qed

section \<open>The inner-product argument\<close>

definition prime_points :: "'p::ab_group_add list \<Rightarrow> bool" where
  "prime_points ps \<longleftrightarrow> (\<forall>p \<in> set ps. smul ell p = 0)"

lemma fold_points_length [simp]: "length (fold_points k xs ys) = min (length xs) (length ys)"
  by (simp add: fold_points_def)

lemma fold_scalars_length [simp]: "length (fold_scalars k xs ys) = min (length xs) (length ys)"
  by (simp add: fold_scalars_def)

lemma fold_points_prime:
  assumes "prime_points xs" and "prime_points ys"
  shows "prime_points (fold_points k xs ys)"
  unfolding prime_points_def
proof
  fix p assume "p \<in> set (fold_points k xs ys)"
  then obtain x y where "x \<in> set xs" "y \<in> set ys" "p = x + smul k y"
    by (auto simp: fold_points_def dest: set_zip_leftD set_zip_rightD)
  then show "smul ell p = 0" using assms by (simp add: prime_points_def points.scale_right_distrib smul_order)
qed

lemma msm_append: "length xs = length ps \<Longrightarrow> msm (xs @ ys) (ps @ qs) = msm xs ps + msm ys qs"
  by (simp add: msm_def)

lemma dot_append: "length a = length b \<Longrightarrow> dot (a @ c) (b @ d) = dot a b + dot c d"
  by (simp add: dot_def)

lemma sum_list_order: "prime_points qs \<Longrightarrow> smul ell (sum_list qs) = 0"
  by (induction qs) (simp_all add: prime_points_def points.scale_right_distrib)

lemma msm_order: "prime_points ps \<Longrightarrow> smul ell (msm xs ps) = 0"
  unfolding msm_def by (rule sum_list_order) (auto simp: prime_points_def intro!: smul_order dest: set_zip_rightD)

lemma msm_fold:
  assumes "length xs = length ys" and "length ys = length ps" and "length ps = length qs" and "cong (u * v) 1"
    and "prime_points ps" and "prime_points qs"
  shows "msm (fold_scalars u xs ys) (fold_points v ps qs) = msm xs ps + smul v (msm xs qs) + smul u (msm ys ps) + msm ys qs"
  using assms(1-3,5,6)
proof (induction xs ys ps qs rule: list_induct4)
  case (Cons x xs y ys p ps q qs)
  then have ord: "smul ell p = 0" "smul ell q = 0" by (simp_all add: prime_points_def)
  have "smul (sc_muladd u y x) (p + smul v q) = smul (u * y + x) (p + smul v q)"
    by (rule smul_congI) (simp_all add: points.scale_right_distrib smul_order ord)
  also have "\<dots> = smul x p + smul v (smul x q) + smul u (smul y p) + smul (u * v * y) q"
    by (simp add: smul_simps algebra_simps)
  also have "smul (u * v * y) q = smul y q"
    using cong_mult [OF assms(4), of y y] by (intro smul_congI ord) simp
  finally have head: "smul (sc_muladd u y x) (p + smul v q) = smul x p + smul v (smul x q) + smul u (smul y p) + smul y q" .
  moreover have "msm (fold_scalars u xs ys) (fold_points v ps qs) = msm xs ps + smul v (msm xs qs) + smul u (msm ys ps) + msm ys qs"
    using Cons by (simp add: prime_points_def)
  ultimately show ?case
    by (simp add: msm_def fold_scalars_def fold_points_def points.scale_right_distrib add_ac)
qed (simp add: msm_def fold_scalars_def fold_points_def)

lemma dot_fold:
  assumes "length a = length c" and "length c = length b" and "length b = length d" and "cong (u * v) 1"
  shows "cong (dot (fold_scalars u a c) (fold_scalars v b d)) (dot a b + v * dot a d + u * dot c b + dot c d)"
  using assms(1-3)
proof (induction a c b d rule: list_induct4)
  case (Cons a as c cs b bs d ds)
  have "cong (sc_muladd u c a * sc_muladd v d b) ((u * c + a) * (v * d + b))" by (intro cong_mult) simp_all
  also have "(u * c + a) * (v * d + b) = a * b + v * (a * d) + u * (c * b) + u * v * (c * d)" by (simp add: algebra_simps)
  also have "cong \<dots> (a * b + v * (a * d) + u * (c * b) + 1 * (c * d))"
    by (intro cong_add cong_mult assms(4)) simp_all
  finally have "cong (sc_muladd u c a * sc_muladd v d b + dot (fold_scalars u as cs) (fold_scalars v bs ds))
      (a * b + v * (a * d) + u * (c * b) + 1 * (c * d) + (dot as bs + v * dot as ds + u * dot cs bs + dot cs ds))"
    by (rule cong_add) (rule Cons.IH)
  then show ?case by (simp add: dot_def fold_scalars_def algebra_simps)
qed (simp add: dot_def fold_scalars_def)

text \<open>The commitment of two vectors and their inner product.\<close>

definition ipa_commit :: "'p::ab_group_add list \<Rightarrow> 'p list \<Rightarrow> int list \<Rightarrow> int list \<Rightarrow> 'p \<Rightarrow> 'p" where
  "ipa_commit G H a b U = msm a G + msm b H + smul (dot a b) U"

lemma ipa_step:
  assumes len: "length a = 2 * n" "length b = 2 * n" "length G = 2 * n" "length H = 2 * n" and u: "coprime u ell"
    and ord: "prime_points G" "prime_points H" "smul ell U = 0"
  shows "ipa_commit (fold_points (sc_invert u) (take n G) (drop n G)) (fold_points u (take n H) (drop n H))
       (fold_scalars u (take n a) (drop n a)) (fold_scalars (sc_invert u) (take n b) (drop n b)) U
     = ipa_commit G H a b U
       + smul u (msm (drop n a) (take n G) + msm (take n b) (drop n H) + smul (innerProduct (drop n a) (take n b)) U)
       + smul (sc_invert u) (msm (take n a) (drop n G) + msm (drop n b) (take n H) + smul (innerProduct (take n a) (drop n b)) U)"
proof -
  let ?v = "sc_invert u"
  have uv: "cong (u * ?v) 1" "cong (?v * u) 1" using cong_invert [OF u] by (simp_all add: mult.commute)
  have pp: "prime_points (take n G)" "prime_points (drop n G)" "prime_points (take n H)" "prime_points (drop n H)"
    using ord by (auto simp: prime_points_def dest: in_set_takeD in_set_dropD)
  have split: "msm a G = msm (take n a) (take n G) + msm (drop n a) (drop n G)"
    "msm b H = msm (take n b) (take n H) + msm (drop n b) (drop n H)"
    "dot a b = dot (take n a) (take n b) + dot (drop n a) (drop n b)"
    using len msm_append [of "take n a" "take n G" "drop n a" "drop n G"] msm_append [of "take n b" "take n H" "drop n b" "drop n H"]
      dot_append [of "take n a" "take n b" "drop n a" "drop n b"] by simp_all
  have g: "msm (fold_scalars u (take n a) (drop n a)) (fold_points ?v (take n G) (drop n G))
      = msm (take n a) (take n G) + smul ?v (msm (take n a) (drop n G)) + smul u (msm (drop n a) (take n G)) + msm (drop n a) (drop n G)"
    by (rule msm_fold) (use len uv pp in simp_all)
  have h: "msm (fold_scalars ?v (take n b) (drop n b)) (fold_points u (take n H) (drop n H))
      = msm (take n b) (take n H) + smul u (msm (take n b) (drop n H)) + smul ?v (msm (drop n b) (take n H)) + msm (drop n b) (drop n H)"
    by (rule msm_fold) (use len uv pp in simp_all)
  have "cong (dot (fold_scalars u (take n a) (drop n a)) (fold_scalars ?v (take n b) (drop n b)))
      (dot (take n a) (take n b) + ?v * dot (take n a) (drop n b) + u * dot (drop n a) (take n b) + dot (drop n a) (drop n b))"
    by (rule dot_fold) (use len uv in simp_all)
  also have "cong \<dots> (dot (take n a) (take n b) + ?v * innerProduct (take n a) (drop n b)
      + u * innerProduct (drop n a) (take n b) + dot (drop n a) (drop n b))"
    by (intro cong_add cong_mult cong_refl cong_sym [OF innerProduct_cong])
  finally have d: "smul (dot (fold_scalars u (take n a) (drop n a)) (fold_scalars ?v (take n b) (drop n b))) U
      = smul (dot (take n a) (take n b)) U + smul ?v (smul (innerProduct (take n a) (drop n b)) U)
        + smul u (smul (innerProduct (drop n a) (take n b)) U) + smul (dot (drop n a) (drop n b)) U"
    using smul_congI [OF ord(3)] by (simp add: points.scale_left_distrib points.scale_scale)
  show ?thesis
    unfolding ipa_commit_def g h d split by (simp add: points.scale_right_distrib points.scale_left_distrib add_ac)
qed

lemma power_of_two:
  assumes "n = (2 :: nat) ^ Suc k"
  shows "\<not> n \<le> 1" and "n mod 2 = 0"
proof -
  have "0 < (2 :: nat) ^ k" by simp
  moreover have "n = 2 * 2 ^ k" using assms by simp
  ultimately show "\<not> n \<le> 1" by linarith
  show "n mod 2 = 0" using assms by simp
qed

definition cross_left :: "nat \<Rightarrow> 'p::ab_group_add list \<Rightarrow> 'p list \<Rightarrow> int list \<Rightarrow> int list \<Rightarrow> 'p \<Rightarrow> 'p" where
  "cross_left n G H a b U = msm (drop n a) (take n G) + msm (take n b) (drop n H) + smul (innerProduct (drop n a) (take n b)) U"

definition cross_right :: "nat \<Rightarrow> 'p::ab_group_add list \<Rightarrow> 'p list \<Rightarrow> int list \<Rightarrow> int list \<Rightarrow> 'p \<Rightarrow> 'p" where
  "cross_right n G H a b U = msm (take n a) (drop n G) + msm (drop n b) (take n H) + smul (innerProduct (take n a) (drop n b)) U"

text \<open>One round of the argument on vectors of even length.\<close>

lemma ipaProve_half:
  assumes len: "length a = 2 ^ Suc k"
    and ch: "bp_challenge C (absorbPoint C (cross_right (2 ^ k) G H a b U) (absorbPoint C (cross_left (2 ^ k) G H a b U) tr)) = (u, tr')"
  shows "ipaProve C G H a b U tr =
    (case ipaProve C (fold_points (sc_invert u) (take (2 ^ k) G) (drop (2 ^ k) G)) (fold_points u (take (2 ^ k) H) (drop (2 ^ k) H))
        (fold_scalars u (take (2 ^ k) a) (drop (2 ^ k) a)) (fold_scalars (sc_invert u) (take (2 ^ k) b) (drop (2 ^ k) b)) U tr' of
       Inl e \<Rightarrow> Inl e
     | Inr (Ls, Rs, aFin, bFin) \<Rightarrow> Inr (cross_left (2 ^ k) G H a b U # Ls, cross_right (2 ^ k) G H a b U # Rs, aFin, bFin))"
proof -
  have half: "length a div 2 = 2 ^ k" using len by simp
  show ?thesis
    unfolding ipaProve.simps [of C G H a b U tr] if_not_P [OF power_of_two(1) [OF len]] half Let_def
    by (simp only: cross_left_def [symmetric] cross_right_def [symmetric] ch prod.case power_of_two(2) [OF len] not_False_eq_True if_False simp_thms)
qed

lemma ipa_scalars_ok:
  assumes "length a = 2 ^ k" "length b = 2 ^ k" "list_all sc_ok a" "list_all sc_ok b"
    and "ipaProve C G H a b U tr = Inr (Ls, Rs, aFin, bFin)"
  shows "sc_ok aFin \<and> sc_ok bFin"
  using assms
proof (induction k arbitrary: a b G H tr Ls Rs)
  case 0
  then obtain x y where "a = [x]" "b = [y]" by (auto simp: length_Suc_conv)
  then show ?case using 0 by (auto simp: ipaProve.simps [of C G H "[x]" "[y]" U tr])
next
  case (Suc k)
  obtain u tr' where ch: "bp_challenge C (absorbPoint C (cross_right (2 ^ k) G H a b U) (absorbPoint C (cross_left (2 ^ k) G H a b U) tr)) = (u, tr')"
    by fastforce
  have ok: "list_all sc_ok (fold_scalars c xs ys)" for c xs ys
    by (auto simp: fold_scalars_def list_all_iff)
  show ?case
    using Suc.prems(5) unfolding ipaProve_half [OF Suc.prems(1) ch]
    by (auto split: sum.splits dest!: Suc.IH [rotated -1] simp: ok Suc.prems)
qed

lemma ipa_complete:
  assumes "length a = 2 ^ k" "length b = 2 ^ k" "length G = 2 ^ k" "length H = 2 ^ k"
    and "prime_points G" "prime_points H" "smul ell U = 0"
    and "ipaProve C G H a b U tr = Inr (Ls, Rs, aFin, bFin)"
    and "ipa_replay C (zip Ls Rs) (ipa_commit G H a b U) tr = (us, P)" and "\<forall>u \<in> set us. coprime u ell"
  shows "\<exists>g h. fold_generators us G H = ([g], [h]) \<and> P = smul aFin g + smul bFin h + smul (aFin * bFin) U \<and> length Ls = k \<and> length Rs = k"
  using assms
proof (induction k arbitrary: a b G H tr Ls Rs us P)
  case 0
  then obtain x y g h where "a = [x]" "b = [y]" "G = [g]" "H = [h]"
    by (auto simp: length_Suc_conv)
  then show ?case using 0 by (auto simp: ipa_commit_def msm_def dot_def ipaProve.simps [of C "[g]" "[h]" "[x]" "[y]" U tr])
next
  case (Suc k)
  let ?n = "2 ^ k :: nat"
  have half: "length G div 2 = ?n" using Suc.prems by simp
  define L where "L = cross_left ?n G H a b U"
  define R where "R = cross_right ?n G H a b U"
  obtain u tr' where ch: "bp_challenge C (absorbPoint C R (absorbPoint C L tr)) = (u, tr')" by fastforce
  let ?G = "fold_points (sc_invert u) (take ?n G) (drop ?n G)" and ?H = "fold_points u (take ?n H) (drop ?n H)"
  let ?a = "fold_scalars u (take ?n a) (drop ?n a)" and ?b = "fold_scalars (sc_invert u) (take ?n b) (drop ?n b)"
  obtain Ls' Rs' where rec: "ipaProve C ?G ?H ?a ?b U tr' = Inr (Ls', Rs', aFin, bFin)" "Ls = L # Ls'" "Rs = R # Rs'"
    using Suc.prems(8) ipaProve_half [OF Suc.prems(1) ch [unfolded L_def R_def]] by (auto simp: L_def R_def split: sum.splits)
  obtain us' where us: "us = u # us'"
    "ipa_replay C (zip Ls' Rs') (ipa_commit G H a b U + smul u L + smul (sc_invert u) R) tr' = (us', P)"
    using Suc.prems(9) rec ch by (auto simp: Let_def split: prod.splits)
  have u: "coprime u ell" and us': "\<forall>u \<in> set us'. coprime u ell" using Suc.prems(10) us by simp_all
  have step: "ipa_commit G H a b U + smul u L + smul (sc_invert u) R = ipa_commit ?G ?H ?a ?b U"
    unfolding L_def R_def cross_left_def cross_right_def by (rule ipa_step [symmetric]) (use Suc.prems u in simp_all)
  have pp: "prime_points ?G" "prime_points ?H"
    by (rule fold_points_prime; use Suc.prems(5,6) in \<open>auto simp: prime_points_def dest: in_set_takeD in_set_dropD\<close>)+
  have "\<exists>g h. fold_generators us' ?G ?H = ([g], [h]) \<and> P = smul aFin g + smul bFin h + smul (aFin * bFin) U \<and> length Ls' = k \<and> length Rs' = k"
    by (rule Suc.IH [OF _ _ _ _ pp Suc.prems(7) rec(1) us(2) [unfolded step] us']) (use Suc.prems in simp_all)
  then show ?case using us rec half by (simp add: Let_def)
qed

lemma ipa_returns:
  assumes "length a = 2 ^ k"
  shows "\<exists>r. ipaProve C G H a b U tr = Inr r"
  using assms
proof (induction k arbitrary: a b G H tr)
  case 0
  then show ?case by (subst ipaProve.simps) simp
next
  case (Suc k)
  obtain u tr' where ch: "bp_challenge C (absorbPoint C (cross_right (2 ^ k) G H a b U) (absorbPoint C (cross_left (2 ^ k) G H a b U) tr)) = (u, tr')"
    by fastforce
  obtain Ls Rs x y where "ipaProve C (fold_points (sc_invert u) (take (2 ^ k) G) (drop (2 ^ k) G)) (fold_points u (take (2 ^ k) H) (drop (2 ^ k) H))
      (fold_scalars u (take (2 ^ k) a) (drop (2 ^ k) a)) (fold_scalars (sc_invert u) (take (2 ^ k) b) (drop (2 ^ k) b)) U tr' = Inr (Ls, Rs, x, y)"
    using Suc.IH [of "fold_scalars u (take (2 ^ k) a) (drop (2 ^ k) a)"] Suc.prems by fastforce
  then show ?case unfolding ipaProve_half [OF Suc.prems ch] by simp
qed

section \<open>The range proof\<close>

lemma msm_nth: "length xs = n \<Longrightarrow> length ps = n \<Longrightarrow> msm xs ps = (\<Sum>i<n. smul (xs ! i) (ps ! i))"
  by (simp add: msm_def sum_list_sum_nth lessThan_atLeast0)

lemma dot_nth: "length a = n \<Longrightarrow> length b = n \<Longrightarrow> dot a b = (\<Sum>i<n. a ! i * b ! i)"
  by (simp add: dot_def sum_list_sum_nth lessThan_atLeast0)

lemma powers_length [simp]: "length (powers b x n) = n"
  by (induction n arbitrary: x) simp_all

lemma powers_nth: "i < n \<Longrightarrow> cong (powers b x n ! i) (x * b ^ i)"
proof (induction n arbitrary: x i)
  case (Suc n)
  show ?case
  proof (cases i)
    case (Suc j)
    then have "cong (powers b (sc_mul x b) n ! j) (sc_mul x b * b ^ j)" using Suc.IH Suc.prems by simp
    also have "cong \<dots> ((x * b) * b ^ j)" by (intro cong_mult) simp_all
    finally show ?thesis by (simp add: Suc algebra_simps)
  qed simp
qed simp

lemma powerVec_length [simp]: "length (powerVec b n) = n" "length (pow2Vec n) = n"
  by (simp_all add: powerVec_def pow2Vec_def)

lemma powerVec_nth: "i < n \<Longrightarrow> cong (powerVec b n ! i) (b ^ i)"
  using powers_nth [of i n b 1] by (simp add: powerVec_def)

lemma pow2Vec_nth: "i < n \<Longrightarrow> cong (pow2Vec n ! i) (2 ^ i)"
  using powerVec_nth [of i n 2] by (simp add: pow2Vec_def scalarFromUint64_def)

lemma sc_sum_cong: "cong (sc_sum xs) (sum_list xs)"
proof -
  have "cong (foldl sc_add r0 xs) (r0 + sum_list xs)" for r0
  proof (induction xs arbitrary: r0)
    case (Cons x xs)
    have "cong (foldl sc_add (sc_add r0 x) xs) (sc_add r0 x + sum_list xs)" by (rule Cons)
    also have "cong \<dots> ((r0 + x) + sum_list xs)" by (intro cong_add) simp_all
    finally show ?case by (simp add: add.assoc)
  qed simp
  from this [of 0] show ?thesis by (simp add: sc_sum_def)
qed

lemma sum_powers: "cong (sc_sum (powerVec b n)) (\<Sum>i<n. b ^ i)" "cong (sc_sum (pow2Vec n)) (\<Sum>i<n. 2 ^ i)"
proof -
  have "sum_list (powerVec b n) = (\<Sum>i<n. powerVec b n ! i)" "sum_list (pow2Vec n) = (\<Sum>i<n. pow2Vec n ! i)"
    by (simp_all add: sum_list_sum_nth lessThan_atLeast0)
  moreover have "cong (\<Sum>i<n. powerVec b n ! i) (\<Sum>i<n. b ^ i)" "cong (\<Sum>i<n. pow2Vec n ! i) (\<Sum>i<n. 2 ^ i)"
    by (auto intro!: cong_sum powerVec_nth pow2Vec_nth)
  ultimately show "cong (sc_sum (powerVec b n)) (\<Sum>i<n. b ^ i)" "cong (sc_sum (pow2Vec n)) (\<Sum>i<n. 2 ^ i)"
    using sc_sum_cong cong_trans by metis+
qed

subsection \<open>The bits of the value\<close>

lemma value_bits_length [simp]: "length (value_bits v) = bpBits"
  by (simp add: value_bits_def)

lemma value_bits_nth: "i < bpBits \<Longrightarrow> value_bits v ! i = of_bool (bit v i)"
  by (simp add: value_bits_def scalarFromUint64_def and_one_eq bit_iff_odd_drop_bit odd_iff_mod_2_eq_one)

lemma value_bits_sum: "(\<Sum>i<bpBits. value_bits v ! i * 2 ^ i) = int (unat v)"
proof -
  have "(\<Sum>i<bpBits. value_bits v ! i * 2 ^ i) = (\<Sum>i<64. of_bool (bit (uint v) i) * 2 ^ i)"
    by (rule sum.cong) (simp_all add: value_bits_nth bpBits_def bit_uint_iff)
  also have "\<dots> = horner_sum of_bool 2 (map (bit (uint v)) [0..<64])"
    by (simp add: horner_sum_eq_sum lessThan_atLeast0)
  also have "\<dots> = take_bit 64 (uint v)" by (rule horner_sum_bit_eq_take_bit)
  also have "\<dots> = uint v" using uint_bounded [of v] by (intro take_bit_int_eq_self) simp_all
  finally show ?thesis by simp
qed

subsection \<open>The coefficients of the polynomials\<close>

lemma poly_lengths [simp]:
  "length (poly_l0 aL z) = length aL" "length aR = bpBits \<Longrightarrow> length (poly_r0 aR y z) = bpBits"
  "length sR = bpBits \<Longrightarrow> length (poly_r1 sR y) = bpBits" "length (vecScale x v) = length v"
  "length (vecAddVec a b) = min (length a) (length b)"
  by (simp_all add: poly_l0_def poly_r0_def poly_r1_def vecSubS_def vecAddVec_def vecScale_def vecHadamard_def vecAddS_def)

lemma l0_nth: "i < length aL \<Longrightarrow> cong (poly_l0 aL z ! i) (aL ! i - z)"
  by (simp add: poly_l0_def vecSubS_def)

lemma r0_nth:
  assumes "i < bpBits" and "length aR = bpBits"
  shows "cong (poly_r0 aR y z ! i) (y ^ i * (aR ! i + z) + z ^ 2 * 2 ^ i)"
proof -
  let ?y = "powerVec y bpBits ! i" and ?t = "pow2Vec bpBits ! i"
  have "poly_r0 aR y z ! i = sc_add (sc_mul ?y (sc_add (aR ! i) z)) (sc_mul (sc_mul z z) ?t)"
    using assms by (simp add: poly_r0_def vecAddVec_def vecHadamard_def vecAddS_def vecScale_def)
  moreover have "cong (sc_mul ?y (sc_add (aR ! i) z)) (y ^ i * (aR ! i + z))"
    by (rule cong_trans [OF cong_mod(4)], rule cong_mult) (simp_all add: powerVec_nth assms)
  moreover have "cong (sc_mul (sc_mul z z) ?t) (z ^ 2 * 2 ^ i)"
    by (rule cong_trans [OF cong_mod(4)], rule cong_mult) (simp_all add: pow2Vec_nth assms power2_eq_square)
  ultimately show ?thesis by (simp only: cong_trans [OF cong_mod(2) cong_add])
qed

lemma r1_nth:
  assumes "i < bpBits" and "length sR = bpBits"
  shows "cong (poly_r1 sR y ! i) (y ^ i * sR ! i)"
proof -
  have "poly_r1 sR y ! i = sc_mul (powerVec y bpBits ! i) (sR ! i)"
    using assms by (simp add: poly_r1_def vecHadamard_def)
  then show ?thesis using cong_trans [OF cong_mod(4) cong_mult [OF powerVec_nth cong_refl]] assms by simp
qed

lemma linear_nth:
  assumes "i < length a" and "i < length b" and "cong (a ! i) p" and "cong (b ! i) q"
  shows "cong (vecAddVec a (vecScale x b) ! i) (p + x * q)"
proof -
  have "vecAddVec a (vecScale x b) ! i = sc_add (a ! i) (sc_mul x (b ! i))"
    using assms by (simp add: vecAddVec_def vecScale_def)
  moreover have "cong (sc_add (a ! i) (sc_mul x (b ! i))) (a ! i + sc_mul x (b ! i))" by simp
  moreover have "cong (a ! i + sc_mul x (b ! i)) (p + x * q)"
    by (intro cong_add assms(3) cong_trans [OF cong_mod(4)] cong_mult cong_refl assms(4))
  ultimately show ?thesis using cong_trans by metis
qed

lemma dot_cong:
  assumes "length a = n" "length b = n" "\<And>i. i < n \<Longrightarrow> cong (a ! i) (f i)" "\<And>i. i < n \<Longrightarrow> cong (b ! i) (g i)"
  shows "cong (innerProduct a b) (\<Sum>i<n. f i * g i)"
proof -
  have "cong (dot a b) (\<Sum>i<n. f i * g i)"
    unfolding dot_nth [OF assms(1,2)] by (intro cong_sum cong_mult assms(3,4)) simp_all
  then show ?thesis using innerProduct_cong cong_trans by blast
qed

text \<open>The constant coefficient of \<open>t(x)\<close> is \<open>z\<^sup>2 v + \<delta>(y, z)\<close>.\<close>

lemma constant_coefficient:
  "(\<Sum>i<bpBits. (value_bits v ! i - z) * (y ^ i * (value_bits v ! i - 1 + z) + z ^ 2 * 2 ^ i))
   = z ^ 2 * int (unat v) + (z - z ^ 2) * (\<Sum>i<bpBits. y ^ i) - z ^ 3 * (\<Sum>i<bpBits. 2 ^ i)"
proof -
  have "(value_bits v ! i - z) * (y ^ i * (value_bits v ! i - 1 + z) + z ^ 2 * 2 ^ i)
      = z ^ 2 * (value_bits v ! i * 2 ^ i) + (z - z ^ 2) * y ^ i - z ^ 3 * 2 ^ i" if "i < bpBits" for i
    using that by (cases "bit v i") (simp_all add: value_bits_nth algebra_simps power2_eq_square power3_eq_cube)
  then have "(\<Sum>i<bpBits. (value_bits v ! i - z) * (y ^ i * (value_bits v ! i - 1 + z) + z ^ 2 * 2 ^ i))
      = (\<Sum>i<bpBits. z ^ 2 * (value_bits v ! i * 2 ^ i) + (z - z ^ 2) * y ^ i - z ^ 3 * 2 ^ i)"
    by (intro sum.cong) simp_all
  also have "\<dots> = z ^ 2 * (\<Sum>i<bpBits. value_bits v ! i * 2 ^ i) + (z - z ^ 2) * (\<Sum>i<bpBits. y ^ i) - z ^ 3 * (\<Sum>i<bpBits. 2 ^ i)"
    by (simp add: sum.distrib sum_subtractf sum_distrib_left)
  finally show ?thesis by (simp add: value_bits_sum)
qed

lemma delta_cong: "cong (range_delta y z) ((z - z ^ 2) * (\<Sum>i<bpBits. y ^ i) - z ^ 3 * (\<Sum>i<bpBits. 2 ^ i))"
proof -
  have sq: "cong (sc_mul z z) (z ^ 2)" by (simp add: power2_eq_square)
  have "cong (sc_mul (sc_mul z z) z) (sc_mul z z * z)" by simp
  also have "cong \<dots> (z ^ 2 * z)" by (intro cong_mult sq cong_refl)
  finally have cube: "cong (sc_mul (sc_mul z z) z) (z ^ 3)" by (simp add: power2_eq_square power3_eq_cube)
  have neg: "cong (sc_neg a) (- b)" if "cong a b" for a b
    using cong_trans [OF cong_mod(5) cong_diff [OF cong_refl [of 0] that, simplified]] .
  have "cong (range_delta y z) (sc_sub z (sc_mul z z) * sc_sum (powerVec y bpBits) + sc_neg (sc_mul (sc_mul (sc_mul z z) z) (sc_sum (pow2Vec bpBits))))"
    by (simp add: range_delta_def Let_def)
  also have "cong \<dots> ((z - z ^ 2) * (\<Sum>i<bpBits. y ^ i) + - (z ^ 3 * (\<Sum>i<bpBits. 2 ^ i)))"
    by (intro cong_add cong_mult neg cong_trans [OF cong_mod(3)] cong_trans [OF cong_mod(4)] cong_diff cong_refl sq cube sum_powers)
  finally show ?thesis by simp
qed

subsection \<open>The polynomial identity\<close>

abbreviation l_at :: "u64 \<Rightarrow> int list \<Rightarrow> int \<Rightarrow> int \<Rightarrow> int list" where
  "l_at v sL z x \<equiv> vecAddVec (poly_l0 (value_bits v) z) (vecScale x sL)"

abbreviation aR_of :: "u64 \<Rightarrow> int list" where
  "aR_of v \<equiv> map (\<lambda>a. sc_sub a 1) (value_bits v)"

abbreviation r_at :: "u64 \<Rightarrow> int list \<Rightarrow> int \<Rightarrow> int \<Rightarrow> int \<Rightarrow> int list" where
  "r_at v sR y z x \<equiv> vecAddVec (poly_r0 (aR_of v) y z) (vecScale x (poly_r1 sR y))"

lemma aR_r0_nth:
  assumes "i < bpBits"
  shows "cong (poly_r0 (aR_of v) y z ! i) (y ^ i * (value_bits v ! i - 1 + z) + z ^ 2 * 2 ^ i)"
proof -
  have "cong (poly_r0 (aR_of v) y z ! i) (y ^ i * (aR_of v ! i + z) + z ^ 2 * 2 ^ i)" by (rule r0_nth) (use assms in simp_all)
  also have "cong \<dots> (y ^ i * ((value_bits v ! i - 1) + z) + z ^ 2 * 2 ^ i)"
    using assms by (intro cong_add cong_mult) simp_all
  finally show ?thesis .
qed

lemma quadratic_sum:
  fixes f g h k :: "nat \<Rightarrow> int"
  shows "(\<Sum>i\<in>I. (f i + x * g i) * (h i + x * k i))
     = (\<Sum>i\<in>I. f i * h i) + x * ((\<Sum>i\<in>I. f i * k i) + (\<Sum>i\<in>I. g i * h i)) + x ^ 2 * (\<Sum>i\<in>I. g i * k i)"
  by (simp add: algebra_simps sum.distrib sum_distrib_left power2_eq_square)

lemma polynomial_value:
  fixes v :: u64 and y z x :: int
  assumes "length sL = bpBits" and "length sR = bpBits"
  defines "t1 \<equiv> sc_add (innerProduct (poly_l0 (value_bits v) z) (poly_r1 sR y)) (innerProduct sL (poly_r0 (aR_of v) y z))"
    and "t2 \<equiv> innerProduct sL (poly_r1 sR y)"
  shows "cong (innerProduct (l_at v sL z x) (r_at v sR y z x)) (z ^ 2 * int (unat v) + range_delta y z + x * t1 + x ^ 2 * t2)"
proof -
  let ?l0 = "\<lambda>i. value_bits v ! i - z" and ?r0 = "\<lambda>i. y ^ i * (value_bits v ! i - 1 + z) + z ^ 2 * 2 ^ i"
    and ?l1 = "\<lambda>i. sL ! i" and ?r1 = "\<lambda>i. y ^ i * sR ! i"
  have l0: "cong (poly_l0 (value_bits v) z ! i) (?l0 i)" if "i < bpBits" for i using that by (simp add: l0_nth)
  have r0: "cong (poly_r0 (aR_of v) y z ! i) (?r0 i)" if "i < bpBits" for i using that by (rule aR_r0_nth)
  have r1: "cong (poly_r1 sR y ! i) (?r1 i)" if "i < bpBits" for i using that assms(2) by (rule r1_nth)
  have ip: "cong (innerProduct (poly_l0 (value_bits v) z) (poly_r1 sR y)) (\<Sum>i<bpBits. ?l0 i * ?r1 i)"
    "cong (innerProduct sL (poly_r0 (aR_of v) y z)) (\<Sum>i<bpBits. ?l1 i * ?r0 i)"
    "cong t2 (\<Sum>i<bpBits. ?l1 i * ?r1 i)"
    unfolding t2_def by (rule dot_cong; use assms l0 r0 r1 in simp)+
  have t1: "cong t1 ((\<Sum>i<bpBits. ?l0 i * ?r1 i) + (\<Sum>i<bpBits. ?l1 i * ?r0 i))"
    unfolding t1_def by (rule cong_trans [OF cong_mod(2) cong_add [OF ip(1,2)]])
  have "cong (innerProduct (l_at v sL z x) (r_at v sR y z x)) (\<Sum>i<bpBits. (?l0 i + x * ?l1 i) * (?r0 i + x * ?r1 i))"
    by (rule dot_cong; (rule linear_nth)?; use assms l0 r0 r1 in simp)
  also have "(\<Sum>i<bpBits. (?l0 i + x * ?l1 i) * (?r0 i + x * ?r1 i))
      = (\<Sum>i<bpBits. ?l0 i * ?r0 i) + x * ((\<Sum>i<bpBits. ?l0 i * ?r1 i) + (\<Sum>i<bpBits. ?l1 i * ?r0 i)) + x ^ 2 * (\<Sum>i<bpBits. ?l1 i * ?r1 i)"
    by (rule quadratic_sum)
  also have "(\<Sum>i<bpBits. ?l0 i * ?r0 i)
      = z ^ 2 * int (unat v) + ((z - z ^ 2) * (\<Sum>i<bpBits. y ^ i) - z ^ 3 * (\<Sum>i<bpBits. 2 ^ i))"
    unfolding constant_coefficient by simp
  also have "cong (\<dots> + x * ((\<Sum>i<bpBits. ?l0 i * ?r1 i) + (\<Sum>i<bpBits. ?l1 i * ?r0 i)) + x ^ 2 * (\<Sum>i<bpBits. ?l1 i * ?r1 i))
      (z ^ 2 * int (unat v) + range_delta y z + x * t1 + x ^ 2 * t2)"
    by (intro cong_add cong_mult cong_refl cong_sym [OF delta_cong] cong_sym [OF t1] cong_sym [OF ip(3)])
  finally show ?thesis .
qed

text \<open>The first equation of the verifier.\<close>

lemma check_polynomial_holds:
  assumes ok: "curve_ok C" and tHat: "cong tHat (z ^ 2 * int (unat v) + delta + x * t1 + x ^ 2 * t2)"
  shows "smul tHat (BpH C) + base_mul C (sc_muladd (sc_mul z z) gamma (sc_muladd tau1 x (sc_muladd tau2 (sc_mul x x) 0)))
     = smul (sc_mul z z) (base_mul C gamma + smul (scalarFromUint64 v) (BpH C)) + smul delta (BpH C)
       + smul x (base_mul C tau1 + smul t1 (BpH C)) + smul (sc_mul x x) (base_mul C tau2 + smul t2 (BpH C))"
proof -
  have sq: "cong (sc_mul c c) (c ^ 2)" for c by (simp add: power2_eq_square)
  have "cong (sc_mul z z * scalarFromUint64 v + delta + x * t1 + sc_mul x x * t2) (z ^ 2 * int (unat v) + delta + x * t1 + x ^ 2 * t2)"
    by (intro cong_add cong_mult cong_refl sq) (simp add: scalarFromUint64_def)
  then have h: "smul tHat (BpH C) = smul (sc_mul z z * scalarFromUint64 v + delta + x * t1 + sc_mul x x * t2) (BpH C)"
    using ok by (intro smul_congI cong_trans [OF tHat cong_sym]) simp_all
  have "cong (sc_muladd (sc_mul z z) gamma (sc_muladd tau1 x (sc_muladd tau2 (sc_mul x x) 0)))
      (sc_mul z z * gamma + (tau1 * x + (tau2 * sc_mul x x + 0)))"
    by (intro cong_trans [OF cong_mod(6)] cong_add cong_refl)
  also have "\<dots> = sc_mul z z * gamma + (x * tau1 + sc_mul x x * tau2)" by (simp only: mult.commute add_0_right)
  finally have b: "base_mul C (sc_muladd (sc_mul z z) gamma (sc_muladd tau1 x (sc_muladd tau2 (sc_mul x x) 0)))
      = smul (sc_mul z z * gamma + (x * tau1 + sc_mul x x * tau2)) (cv_base C)"
    unfolding base_mul_def by (rule smul_congI [OF base_order [OF ok]])
  show ?thesis
    unfolding h b by (simp only: base_mul_def points.scale_right_distrib points.scale_left_distrib points.scale_scale add_ac)
qed

subsection \<open>The point of the inner-product argument\<close>

lemma generators_length [simp]: "length (bpGvec C) = bpBits" "length (bpHvec C) = bpBits"
  by (simp_all add: bpGvec_def bpHvec_def)

lemma generators_order [simp]:
  assumes "curve_ok C"
  shows "prime_points (bpGvec C)" "prime_points (bpHvec C)" "smul ell (bpU C) = 0"
  using assms by (auto simp: prime_points_def bpGvec_def bpHvec_def bpU_def hash_point_order)

lemma y_generators_length [simp]: "length hv = bpBits \<Longrightarrow> length (y_generators y hv) = bpBits"
  by (simp add: y_generators_def)

lemma y_generators_nth: "i < bpBits \<Longrightarrow> length hv = bpBits \<Longrightarrow> y_generators y hv ! i = smul (powerVec (sc_invert y) bpBits ! i) (hv ! i)"
  by (simp add: y_generators_def)

lemma y_generators_prime: "prime_points hv \<Longrightarrow> prime_points (y_generators y hv)"
  unfolding prime_points_def y_generators_def by (auto intro!: smul_order dest: set_zip_rightD)

lemma foldl_ipa_term:
  "foldl (ipa_term C z hPrime) P xs
   = P + sum_list (map (\<lambda>i. smul (sc_neg z) (bpGvec C ! i) + smul z (bpHvec C ! i)
       + smul (sc_mul (sc_mul z z) (pow2Vec bpBits ! i)) (hPrime ! i)) xs)"
  by (induction xs arbitrary: P) (simp_all add: ipa_term_def add_ac)

text \<open>The scalar of \<open>G\<^sub>i\<close> and that of \<open>H\<^sub>i\<close>.\<close>

lemma g_scalar:
  assumes "i < bpBits" and "length sL = bpBits" and "smul ell g = 0"
  shows "smul (l_at v sL z x ! i) g = smul (value_bits v ! i) g + smul x (smul (sL ! i) g) + smul (sc_neg z) g"
proof -
  have "cong (l_at v sL z x ! i) ((value_bits v ! i - z) + x * sL ! i)"
    by (rule linear_nth) (use assms in \<open>simp_all add: l0_nth\<close>)
  then have "smul (l_at v sL z x ! i) g = smul ((value_bits v ! i - z) + x * sL ! i) g" by (rule smul_congI [OF assms(3)])
  moreover have "smul (sc_neg z) g = smul (- z) g" by (rule smul_congI [OF assms(3)]) simp
  ultimately show ?thesis by (simp add: points.scale_left_distrib points.scale_left_diff_distrib points.scale_scale add_ac)
qed

lemma y_cancels:
  assumes "coprime y ell" and "i < bpBits"
  shows "cong (y ^ i * powerVec (sc_invert y) bpBits ! i) 1"
proof -
  have "cong (y ^ i * powerVec (sc_invert y) bpBits ! i) (y ^ i * sc_invert y ^ i)"
    by (intro cong_mult cong_refl powerVec_nth assms)
  also have "\<dots> = (y * sc_invert y) ^ i" by (simp add: power_mult_distrib)
  also have "cong \<dots> (1 ^ i)"
    by (induction i) (use cong_mult [OF cong_invert [OF assms(1)]] in \<open>auto\<close>)
  finally show ?thesis by simp
qed

lemma h_scalar:
  fixes v :: u64
  assumes i: "i < bpBits" and len: "length sR = bpBits" and h: "smul ell h = 0" and y: "coprime y ell"
  defines "h' \<equiv> smul (powerVec (sc_invert y) bpBits ! i) h"
  shows "smul (r_at v sR y z x ! i) h'
     = smul (aR_of v ! i) h + smul x (smul (sR ! i) h) + smul z h + smul (sc_mul (sc_mul z z) (pow2Vec bpBits ! i)) h'"
proof -
  let ?p = "powerVec (sc_invert y) bpBits ! i" and ?q = "sc_mul (sc_mul z z) (pow2Vec bpBits ! i)" and ?a = "aR_of v ! i"
  have q: "cong (z ^ 2 * 2 ^ i) ?q"
    by (rule cong_sym, rule cong_trans [OF cong_mod(4)], rule cong_mult) (simp_all add: pow2Vec_nth i power2_eq_square)
  have "cong (r_at v sR y z x ! i) ((y ^ i * (?a + z) + z ^ 2 * 2 ^ i) + x * (y ^ i * sR ! i))"
    by (rule linear_nth) (use i len in \<open>simp_all del: nth_map add: r0_nth r1_nth\<close>)
  also have "cong \<dots> ((y ^ i * (?a + z) + ?q) + x * (y ^ i * sR ! i))"
    by (intro cong_add cong_refl q)
  finally have "cong (r_at v sR y z x ! i * ?p) (((y ^ i * (?a + z) + ?q) + x * (y ^ i * sR ! i)) * ?p)"
    by (rule cong_mult [OF _ cong_refl])
  also have "\<dots> = (?a + z + x * sR ! i) * (y ^ i * ?p) + ?q * ?p" by (simp only: algebra_simps)
  also have "cong \<dots> ((?a + z + x * sR ! i) * 1 + ?q * ?p)"
    by (intro cong_add cong_mult cong_refl y_cancels [OF y i])
  finally have "smul (r_at v sR y z x ! i * ?p) h = smul ((?a + z + x * sR ! i) * 1 + ?q * ?p) h" by (rule smul_congI [OF h])
  then show ?thesis unfolding h'_def
    by (simp only: points.scale_left_distrib points.scale_scale mult_1_right add_ac)
qed

lemma ipa_point_commits:
  fixes v :: u64
  assumes ok: "curve_ok C" and len: "length sL = bpBits" "length sR = bpBits" and y: "coprime y ell"
    and A: "rg_A p = vector_commit C alpha (value_bits v) (aR_of v)" and S: "rg_S p = vector_commit C rho sL sR"
    and mu: "rg_mu p = sc_muladd rho x alpha" and tHat: "rg_tHat p = innerProduct (l_at v sL z x) (r_at v sR y z x)"
    and U: "smul ell U = 0"
  defines "H' \<equiv> y_generators y (bpHvec C)"
  shows "ipa_point C p z x H' U = ipa_commit (bpGvec C) H' (l_at v sL z x) (r_at v sR y z x) U"
proof -
  let ?G = "bpGvec C" and ?H = "bpHvec C" and ?l = "l_at v sL z x" and ?r = "r_at v sR y z x"
  have ord: "smul ell (?G ! i) = 0" "smul ell (?H ! i) = 0" if "i < bpBits" for i
    using generators_order [OF ok] that by (simp_all add: prime_points_def)
  have neg: "base_mul C (sc_neg (rg_mu p)) = smul (- (rho * x + alpha)) (cv_base C)"
    unfolding base_mul_def mu
    by (rule smul_congI [OF base_order [OF ok]], rule cong_trans [OF cong_mod(5)])
      (use cong_diff [OF cong_refl [of 0] cong_mod(6)] in simp)
  have blind: "base_mul C alpha + smul x (base_mul C rho) + base_mul C (sc_neg (rg_mu p)) = 0"
    unfolding neg unfolding points.scale_minus_left points.scale_left_distrib base_mul_def points.scale_scale by (simp add: mult.commute)
  have U': "smul (rg_tHat p) U = smul (dot ?l ?r) U"
    unfolding tHat by (rule smul_congI [OF U innerProduct_cong])
  have g: "msm ?l ?G = (\<Sum>i<bpBits. smul (value_bits v ! i) (?G ! i) + smul x (smul (sL ! i) (?G ! i)) + smul (sc_neg z) (?G ! i))"
    using len by (subst msm_nth [of _ bpBits]) (auto intro!: sum.cong g_scalar ord)
  have h: "msm ?r H' = (\<Sum>i<bpBits. smul (aR_of v ! i) (?H ! i) + smul x (smul (sR ! i) (?H ! i)) + smul z (?H ! i)
      + smul (sc_mul (sc_mul z z) (pow2Vec bpBits ! i)) (H' ! i))"
    unfolding H'_def using len y
    by (subst msm_nth [of _ bpBits]) (auto intro!: sum.cong h_scalar ord simp: y_generators_nth simp del: nth_map)
  have c: "vector_commit C k xs ys = base_mul C k + (\<Sum>i<bpBits. smul (xs ! i) (?G ! i)) + (\<Sum>i<bpBits. smul (ys ! i) (?H ! i))"
    if "length xs = bpBits" "length ys = bpBits" for k xs ys
    using that by (simp add: vector_commit_def msm_nth)
  have "ipa_point C p z x H' U = (base_mul C alpha + smul x (base_mul C rho) + base_mul C (sc_neg (rg_mu p))) + msm ?l ?G + msm ?r H' + smul (rg_tHat p) U"
    unfolding ipa_point_def foldl_ipa_term A S g h
    by (simp add: c len points.scale_right_distrib points.scale_sum_right sum.distrib sum_list_distinct_conv_sum_set lessThan_atLeast0 add_ac del: nth_map)
  then show ?thesis unfolding blind U' ipa_commit_def by simp
qed

subsection \<open>Encoding and decoding\<close>

lemma decPts_bytes: "curve_ok C \<Longrightarrow> decPts C (map (cv_bytes C) ps) = Inr ps"
proof -
  assume ok: "curve_ok C"
  have "foldE (\<lambda>b ps. case PointFromBytes C b of Inl e \<Rightarrow> Inl e | Inr p \<Rightarrow> Inr (ps @ [p])) (map (cv_bytes C) ps) qs = Inr (qs @ ps)" for qs
    by (induction ps arbitrary: qs) (simp_all add: ok)
  then show ?thesis by (simp add: decPts_def)
qed

lemma decScs_bytes: "list_all sc_ok ss \<Longrightarrow> decScs (map sc_bytes ss) = Inr ss"
proof -
  assume ok: "list_all sc_ok ss"
  have "list_all sc_ok ss \<Longrightarrow>
      foldE (\<lambda>b ss. case ScalarFromBytes b of None \<Rightarrow> Inl BadScalar | Some s \<Rightarrow> Inr (ss @ [s])) (map sc_bytes ss) ts = Inr (ts @ ss)" for ts
    by (induction ss arbitrary: ts) simp_all
  then show ?thesis using ok by (simp add: decScs_def)
qed

lemma interleave_map: "concat (map2 (\<lambda>l r. [l, r]) (map f xs) (map f ys)) = map f (concat (map2 (\<lambda>l r. [l, r]) xs ys))"
  by (induction xs ys rule: list_induct2') simp_all

lemma interleave_nth:
  "length xs = length ys \<Longrightarrow> k < length xs \<Longrightarrow>
   concat (map2 (\<lambda>l r. [l, r]) xs ys) ! (2 * k) = xs ! k \<and> concat (map2 (\<lambda>l r. [l, r]) xs ys) ! (2 * k + 1) = ys ! k"
proof (induction xs ys arbitrary: k rule: list_induct2)
  case (Cons x xs y ys)
  then show ?case by (cases k) simp_all
qed simp

lemma interleave_pairs:
  assumes "length xs = n" and "length ys = n"
  shows "map (\<lambda>k. (concat (map2 (\<lambda>l r. [l, r]) xs ys) ! (2 * k), concat (map2 (\<lambda>l r. [l, r]) xs ys) ! (2 * k + 1))) [0..<n] = zip xs ys"
  using assms by (intro nth_equalityI) (simp_all add: interleave_nth del: One_nat_def)

text \<open>An encoded proof is decoded to its own parts.\<close>

lemma VerifyRange_encoded:
  assumes ok: "curve_ok C" and len: "length Ls = bpLog" "length Rs = bpLog"
    and sc: "sc_ok (rg_taux p)" "sc_ok (rg_mu p)" "sc_ok (rg_tHat p)" "sc_ok aFin" "sc_ok bFin"
  shows "VerifyRange C (Some (encode_proof C p (Ls, Rs, aFin, bFin))) = Inr (verify_parts C p (zip Ls Rs) aFin bFin)"
proof -
  have pts: "decPts C [cv_bytes C (rg_V p), cv_bytes C (rg_A p), cv_bytes C (rg_S p), cv_bytes C (rg_T1 p), cv_bytes C (rg_T2 p)]
      = Inr [rg_V p, rg_A p, rg_S p, rg_T1 p, rg_T2 p]"
    using decPts_bytes [OF ok, of "[rg_V p, rg_A p, rg_S p, rg_T1 p, rg_T2 p]"] by simp
  have scs: "decScs [sc_bytes (rg_taux p), sc_bytes (rg_mu p), sc_bytes (rg_tHat p), sc_bytes aFin, sc_bytes bFin]
      = Inr [rg_taux p, rg_mu p, rg_tHat p, aFin, bFin]"
    using decScs_bytes [of "[rg_taux p, rg_mu p, rg_tHat p, aFin, bFin]"] sc by simp
  have lrs: "decPts C (concat (map2 (\<lambda>l r. [l, r]) (map (cv_bytes C) Ls) (map (cv_bytes C) Rs))) = Inr (concat (map2 (\<lambda>l r. [l, r]) Ls Rs))"
    by (simp only: interleave_map decPts_bytes [OF ok])
  show ?thesis
    unfolding VerifyRange_def encode_proof_def
    using pts scs lrs interleave_pairs [OF len]
    by (cases p) (simp del: interleave_map add: numeral_2_eq_2 numeral_3_eq_3 numeral_eq_Suc)
qed

subsection \<open>Every proof made is accepted\<close>

text \<open>The challenges that have to be invertible: \<open>y\<close> and those of the inner-product argument.\<close>

definition prover_challenges :: "('p::ab_group_add) curve \<Rightarrow> u64 \<Rightarrow> int \<Rightarrow> randomness \<Rightarrow> int list" where
  "prover_challenges C value gamma rnd =
     (let (p, l, r, y, tr) = range_vectors C value gamma rnd;
          (w, tr) = challenge_w C (rg_taux p) (rg_mu p) (rg_tHat p) tr in
      case ipaProve C (bpGvec C) (y_generators y (bpHvec C)) l r (smul w (bpU C)) tr of
        Inl e \<Rightarrow> []
      | Inr (Ls, Rs, aFin, bFin) \<Rightarrow> y # fst (ipa_replay C (zip Ls Rs) 0 tr))"

lemma ipa_replay_challenges: "fst (ipa_replay C LRs P tr) = fst (ipa_replay C LRs Q tr)"
proof (induction LRs arbitrary: P Q tr)
  case (Cons LR LRs)
  have "fst (ipa_replay C LRs (P + d) t) = fst (ipa_replay C LRs (Q + d) t)" for d t by (rule Cons.IH)
  then show ?case by (cases LR) (simp add: Let_def split_beta add.assoc)
qed simp

text \<open>What the first nine steps of the prover establish.\<close>

lemma range_vectors_facts:
  assumes ok: "curve_ok C" and run: "range_vectors C v gamma rnd = (p, l, r, y, tr)"
  obtains z x tr1 where "challenges_yz C (rg_V p) (rg_A p) (rg_S p) = (y, z, tr1)" "challenge_x C (rg_T1 p) (rg_T2 p) tr1 = (x, tr)"
    "check_polynomial C p y z x" "length l = bpBits" "length r = bpBits" "list_all sc_ok l" "list_all sc_ok r"
    "sc_ok (rg_taux p)" "sc_ok (rg_mu p)" "sc_ok (rg_tHat p)"
    "rg_V p = base_mul C gamma + smul (scalarFromUint64 v) (BpH C)"
    "\<And>U. coprime y ell \<Longrightarrow> smul ell U = 0 \<Longrightarrow>
       ipa_point C p z x (y_generators y (bpHvec C)) U = ipa_commit (bpGvec C) (y_generators y (bpHvec C)) l r U"
proof -
  define sL where "sL = map (\<lambda>i. drawn rnd (1 + 2 * i)) [0..<bpBits]"
  define sR where "sR = map (\<lambda>i. drawn rnd (2 + 2 * i)) [0..<bpBits]"
  have len: "length sL = bpBits" "length sR = bpBits" by (simp_all add: sL_def sR_def)
  obtain z tr1 where yz: "challenges_yz C (rg_V p) (rg_A p) (rg_S p) = (y, z, tr1)"
    using run unfolding range_vectors_def Let_def by (auto split: prod.splits)
  obtain x where x: "challenge_x C (rg_T1 p) (rg_T2 p) tr1 = (x, tr)"
    using run yz unfolding range_vectors_def Let_def by (auto split: prod.splits)
  have vecs: "l = l_at v sL z x" "r = r_at v sR y z x"
    using run yz x unfolding range_vectors_def Let_def sL_def sR_def by (auto split: prod.splits)
  have parts: "rg_V p = base_mul C gamma + smul (scalarFromUint64 v) (BpH C)"
    "rg_A p = vector_commit C (drawn rnd 0) (value_bits v) (aR_of v)"
    "rg_S p = vector_commit C (drawn rnd (2 * bpBits + 1)) sL sR"
    "rg_T1 p = base_mul C (drawn rnd (2 * bpBits + 2))
       + smul (sc_add (innerProduct (poly_l0 (value_bits v) z) (poly_r1 sR y)) (innerProduct sL (poly_r0 (aR_of v) y z))) (BpH C)"
    "rg_T2 p = base_mul C (drawn rnd (2 * bpBits + 3)) + smul (innerProduct sL (poly_r1 sR y)) (BpH C)"
    "rg_taux p = sc_muladd (sc_mul z z) gamma (sc_muladd (drawn rnd (2 * bpBits + 2)) x (sc_muladd (drawn rnd (2 * bpBits + 3)) (sc_mul x x) 0))"
    "rg_mu p = sc_muladd (drawn rnd (2 * bpBits + 1)) x (drawn rnd 0)" "rg_tHat p = innerProduct l r"
    using run yz x unfolding range_vectors_def Let_def sL_def sR_def by (auto split: prod.splits)
  have okv: "list_all sc_ok l" "list_all sc_ok r" unfolding vecs by (auto simp: vecAddVec_def list_all_iff)
  have poly: "check_polynomial C p y z x"
    unfolding check_polynomial_def parts vecs by (rule check_polynomial_holds [OF ok polynomial_value [OF len]])
  have point: "ipa_point C p z x (y_generators y (bpHvec C)) U = ipa_commit (bpGvec C) (y_generators y (bpHvec C)) l r U"
    if "coprime y ell" "smul ell U = 0" for U
    unfolding vecs by (rule ipa_point_commits [OF ok len that(1) parts(2,3,7)]) (use that parts vecs in simp_all)
  show thesis
    by (rule that [OF yz x poly _ _ okv _ _ _ parts(1) point]) (simp_all add: vecs len parts)
qed

lemma range_proof_made:
  assumes ok: "curve_ok C" and blind: "ScalarFromBytes blind = Some gamma"
    and ch: "\<forall>u \<in> set (prover_challenges C v gamma rnd). coprime u ell"
  shows "\<exists>proof. ProveRange C v blind rnd = Inr proof \<and> VerifyRange C (Some proof) = Inr True
    \<and> rp_ValueCommit proof = cv_bytes C (base_mul C gamma + smul (scalarFromUint64 v) (BpH C))"
proof -
  obtain p l r y tr where run: "range_vectors C v gamma rnd = (p, l, r, y, tr)" by (metis prod_cases5)
  obtain w tr' where w: "challenge_w C (rg_taux p) (rg_mu p) (rg_tHat p) tr = (w, tr')" by fastforce
  let ?H = "y_generators y (bpHvec C)" and ?U = "smul w (bpU C)"
  obtain z x tr1 where facts: "challenges_yz C (rg_V p) (rg_A p) (rg_S p) = (y, z, tr1)"
    "challenge_x C (rg_T1 p) (rg_T2 p) tr1 = (x, tr)" "check_polynomial C p y z x"
    and len: "length l = bpBits" "length r = bpBits" and okv: "list_all sc_ok l" "list_all sc_ok r"
    and oks: "sc_ok (rg_taux p)" "sc_ok (rg_mu p)" "sc_ok (rg_tHat p)"
    and V: "rg_V p = base_mul C gamma + smul (scalarFromUint64 v) (BpH C)"
    and point: "\<And>U. coprime y ell \<Longrightarrow> smul ell U = 0 \<Longrightarrow> ipa_point C p z x ?H U = ipa_commit (bpGvec C) ?H l r U"
    using range_vectors_facts [OF ok run] by metis
  have bits: "bpBits = 2 ^ bpLog" by (simp add: bpBits_def bpLog_def)
  obtain Ls Rs aFin bFin where ipa: "ipaProve C (bpGvec C) ?H l r ?U tr' = Inr (Ls, Rs, aFin, bFin)"
    using ipa_returns [of l bpLog] len bits by (metis prod_cases4)
  obtain us P where replay: "ipa_replay C (zip Ls Rs) (ipa_commit (bpGvec C) ?H l r ?U) tr' = (us, P)" by fastforce
  have "prover_challenges C v gamma rnd = y # us"
    using ipa_replay_challenges [of C "zip Ls Rs" 0 tr'] replay by (simp add: prover_challenges_def run w ipa) (metis fst_conv)
  then have y: "coprime y ell" and us: "\<forall>u \<in> set us. coprime u ell" using ch by simp_all
  have U: "smul ell ?U = 0" using ok by (simp add: smul_order)
  obtain g h where fin: "fold_generators us (bpGvec C) ?H = ([g], [h])" "P = smul aFin g + smul bFin h + smul (aFin * bFin) ?U"
    "length Ls = bpLog" "length Rs = bpLog"
    using ipa_complete [OF _ _ _ _ _ _ U ipa replay us, of bpLog] ok len y_generators_prime [OF generators_order(2) [OF ok], of y]
    unfolding bits [symmetric] by auto
  have fin_ok: "sc_ok aFin \<and> sc_ok bFin" using ipa_scalars_ok [OF _ _ okv ipa, of bpLog] len bits by simp
  have "smul (sc_mul aFin bFin) ?U = smul (aFin * bFin) ?U" by (rule smul_congI [OF U]) simp
  then have "check_ipa C (bpGvec C) ?H ?U (ipa_point C p z x ?H ?U) (zip Ls Rs) aFin bFin tr'"
    using replay fin by (simp add: check_ipa_def point [OF y U])
  then have "verify_parts C p (zip Ls Rs) aFin bFin"
    by (simp add: verify_parts_def facts w)
  then have "VerifyRange C (Some (encode_proof C p (Ls, Rs, aFin, bFin))) = Inr True"
    using VerifyRange_encoded [OF ok fin(3,4) oks] fin_ok by simp
  moreover have "ProveRange C v blind rnd = Inr (encode_proof C p (Ls, Rs, aFin, bFin))"
    by (simp add: ProveRange_def blind run w ipa)
  ultimately show ?thesis by (auto simp: encode_proof_def V)
qed

text \<open>C7: Completeness of the range proofs, for every 64-bit value, every canonical blinding factor and all
  randomness (including randomness that fails, which counts as zero): \<open>ProveRange\<close> returns a proof,
  \<open>VerifyRange\<close> decodes and accepts it, and its commitment is the Pedersen commitment of the value, as long
  as the challenges drawn are invertible modulo the group order.\<close>

theorem range_proof_complete:
  assumes ok: "curve_ok C" and blind: "ScalarFromBytes blind = Some gamma"
    and ch: "\<forall>u \<in> set (prover_challenges C v gamma rnd). coprime u ell"
  shows "\<exists>proof. ProveRange C v blind rnd = Inr proof \<and> VerifyRange C (Some proof) = Inr True
    \<and> rp_ValueCommit proof = cv_bytes C (base_mul C gamma + smul (scalarFromUint64 v) (BpH C))"
  by (rule range_proof_made [OF assms])

lemma ipa_replay_unit: "(\<And>t. fst (bp_challenge C t) = 1) \<Longrightarrow> \<forall>u \<in> set (fst (ipa_replay C LRs P tr)). u = 1"
  by (induction LRs arbitrary: P tr) (auto simp: Let_def split_beta)

lemma zl_bp_challenge: "fst (bp_challenge zl_curve t) = 1"
  by (simp add: bp_challenge_def Let_def zl_challenge)

lemma zl_prover_challenges: "\<forall>u \<in> set (prover_challenges zl_curve v gamma rnd). coprime u ell"
proof -
  obtain p l r y tr where run: "range_vectors zl_curve v gamma rnd = (p, l, r, y, tr)" by (metis prod_cases5)
  then obtain z x tr1 where "challenges_yz zl_curve (rg_V p) (rg_A p) (rg_S p) = (y, z, tr1)"
    using range_vectors_facts [OF zl_curve_ok] by metis
  then have "y = 1" unfolding challenges_yz_def Let_def split_beta by (simp add: zl_bp_challenge)
  moreover note ipa_replay_unit [of zl_curve, OF zl_bp_challenge]
  ultimately show ?thesis by (fastforce simp: prover_challenges_def run split: prod.splits sum.splits)
qed

theorem range_proof_complete_witness:
  "ScalarFromBytes (sc_bytes 9) = Some 9
   \<and> (\<exists>proof. ProveRange zl_curve 1234567 (sc_bytes 9) (\<lambda>n. None) = Inr proof \<and> VerifyRange zl_curve (Some proof) = Inr True
    \<and> rp_ValueCommit proof = cv_bytes zl_curve (base_mul zl_curve 9 + smul (scalarFromUint64 1234567) (BpH zl_curve)))"
proof -
  have "ScalarFromBytes (sc_bytes 9) = Some 9" by (simp add: sc_ok_def ell_def)
  then show ?thesis using range_proof_complete [OF zl_curve_ok _ zl_prover_challenges] by blast
qed

end
