(* ===== verification/Tx_Verifier.thy ===== *)
theory Tx_Verifier
  imports Bulletproof Vesting Chain_State Utxo
begin

text \<open>
  Verification of transactions and blocks: \<open>core/tx_verifier.go\<close>, \<open>core/block_verifier.go\<close> and \<open>core/mint.go\<close>.
  The cryptographic checks are the ones of the theories on the curve, the ring signatures and the range
  proofs, applied to the UTXO set of the theory \<open>Utxo\<close>.  An access out of the bounds of a slice is the
  error \<open>VIndexPanic\<close>.  The theorems state what an accepted transaction satisfies, value conservation above all.
\<close>

section \<open>Definitions\<close>

subsection \<open>The vesting lock\<close>

record VestingLock =
  vl_allocs :: "point32 \<rightharpoonup> GenesisAlloc"
  vl_genesisTime :: int

datatype verify_error =
    VTx tx_error
  | VPosition position_error
  | VLpodImage
  | VLpodSource
  | VLpodAmbiguous
  | VLpodVesting
  | VCoinbase
  | VDuplicateImage nat
  | VDoubleSpend nat
  | VVesting nat
  | VRingMember nat nat
  | VRingCommitment nat nat
  | VRingStaked nat nat
  | VRealMember nat
  | VRealCommitment nat
  | VAllAbsent nat
  | VNoMatch nat
  | VNilSignature nat
  | VImageMismatch nat
  | VRingSig nat crypto_error
  | VRingSigInvalid nat
  | VRangeError nat crypto_error
  | VRangeInvalid nat
  | VRangeCommitment nat
  | VFeeDerivation crypto_error
  | VFeeMismatch
  | VBalanceError crypto_error
  | VUnbalanced
  | VHeightRequired
  | VNilBlock
  | VBlockTx nat verify_error
  | VIndexPanic

definition tracked_alloc :: "GenesisAlloc \<Rightarrow> bool" where
  "tracked_alloc alloc \<longleftrightarrow> ga_Address alloc \<noteq> ''''
     \<and> (case ga_Vesting alloc of None \<Rightarrow> False | Some v \<Rightarrow> vs_Type v \<noteq> ''immediate'' \<and> vs_Type v \<noteq> '''')"

definition lock_alloc :: "lib \<Rightarrow> GenesisAlloc \<Rightarrow> (point32 \<rightharpoonup> GenesisAlloc) \<Rightarrow> unit + (point32 \<rightharpoonup> GenesisAlloc)" where
  "lock_alloc K alloc m =
     (if \<not> tracked_alloc alloc then Inr m
      else case DecodeAddress K (ga_Address alloc) of Inl _ \<Rightarrow> Inr m
      | Inr (net, spendPub, view) \<Rightarrow> if m spendPub \<noteq> None then Inl () else Inr (m(spendPub \<mapsto> alloc)))"

text \<open>The only error is a duplicate spend key.\<close>

definition BuildVestingLock :: "lib \<Rightarrow> GenesisAlloc list \<Rightarrow> int \<Rightarrow> unit + VestingLock" where
  "BuildVestingLock K allocations genesisTime =
     (case foldE (lock_alloc K) allocations Map.empty of Inl e \<Rightarrow> Inl e
      | Inr m \<Rightarrow> Inr \<lparr>vl_allocs = m, vl_genesisTime = genesisTime\<rparr>)"

definition LockedAllocsCount :: "VestingLock \<Rightarrow> nat" where
  "LockedAllocsCount vl = card (dom (vl_allocs vl))"

definition lockedAt :: "VestingLock \<Rightarrow> point32 \<Rightarrow> int \<Rightarrow> u64" where
  "lockedAt vl pub now = (case vl_allocs vl pub of None \<Rightarrow> 0 | Some alloc \<Rightarrow> alloc_LockedAmount alloc now (vl_genesisTime vl))"

subsection \<open>Transactions\<close>

record 'd TxVerifier =
  tv_utxos :: "'d UTXOSet option"
  tv_vestingLock :: "VestingLock option"
  tv_stakedActivation :: u64

definition NewTxVerifier :: "'d UTXOSet option \<Rightarrow> 'd TxVerifier" where
  "NewTxVerifier utxos = \<lparr>tv_utxos = utxos, tv_vestingLock = None, tv_stakedActivation = 0\<rparr>"

definition SetVestingLock :: "VestingLock option \<Rightarrow> 'd TxVerifier \<Rightarrow> 'd TxVerifier" where
  "SetVestingLock vl v = v\<lparr>tv_vestingLock := vl\<rparr>"

definition SetStakedActivation :: "u64 \<Rightarrow> 'd TxVerifier \<Rightarrow> 'd TxVerifier" where
  "SetStakedActivation height v = v\<lparr>tv_stakedActivation := height\<rparr>"

definition ringSignMessage :: "lib \<Rightarrow> hash32 \<Rightarrow> u32 \<Rightarrow> hash32" where
  "ringSignMessage K txHash inputIdx = HashBytes K [str_bytes ''aperod/ring-sign/v1'', arr_bytes txHash, be_put32 inputIdx]"

text \<open>A slice index: \<open>None\<close> is the run-time panic.\<close>

definition at_index :: "'a list \<Rightarrow> nat \<Rightarrow> 'a option" where
  "at_index xs i = (if i < length xs then Some (xs ! i) else None)"

text \<open>The persistent ring-member index of the UTXO set and the database of key images are arguments, as is
  the time \<open>now\<close> read by the vesting check.\<close>

type_synonym ring_store = "(point32 \<Rightarrow> string + UTXO option) option"

definition verify_position :: "lib \<Rightarrow> jsonlib \<Rightarrow> 'd leveldb \<Rightarrow> int \<Rightarrow> 'd TxVerifier \<Rightarrow> Transaction \<Rightarrow> verify_error + unit" where
  "verify_position K J L now v tx =
     (case tx_LPoDPositionAction K J tx of Inl e \<Rightarrow> Inl (VPosition e) | Inr a \<Rightarrow>
      if pos_Action a = 2 then Inr ()
      else case tv_utxos v of None \<Rightarrow> Inl VLpodImage | Some s \<Rightarrow>
      if IsSpent K L s (in_KeyImage (hd (tx_Inputs tx))) then Inl VLpodImage
      else case Get s (pos_SourceTx a) (pos_SourceIndex a) of None \<Rightarrow> Inl VLpodSource | Some u \<Rightarrow>
      if u_OneTimePub u \<noteq> pos_SourcePub a \<or> u_AmountCommit u \<noteq> in_AmountCommit (hd (tx_Inputs tx)) \<or> u_ProtocolLocked u
         \<or> IsStaked s (pos_SourceTx a) (pos_SourceIndex a) then Inl VLpodSource
      else if \<not> (case GetByPubKey s (pos_SourcePub a) of None \<Rightarrow> False
                 | Some r \<Rightarrow> u_TxHash r = pos_SourceTx a \<and> u_OutputIndex r = pos_SourceIndex a) then Inl VLpodAmbiguous
      else if (case tv_vestingLock v of None \<Rightarrow> False | Some vl \<Rightarrow> 0 < lockedAt vl (pos_SourcePub a) now) then Inl VLpodVesting
      else Inr ())"

definition check_duplicate :: "nat \<times> RingInput \<Rightarrow> key_image set \<Rightarrow> verify_error + key_image set" where
  "check_duplicate ii seen =
     (case ii of (i, inp) \<Rightarrow> if in_KeyImage inp \<in> seen then Inl (VDuplicateImage i) else Inr (insert (in_KeyImage inp) seen))"

definition check_unspent :: "lib \<Rightarrow> 'd leveldb \<Rightarrow> 'd UTXOSet \<Rightarrow> nat \<times> RingInput \<Rightarrow> unit \<Rightarrow> verify_error + unit" where
  "check_unspent K L s ii _ = (case ii of (i, inp) \<Rightarrow> if IsSpent K L s (in_KeyImage inp) then Inl (VDoubleSpend i) else Inr ())"

definition check_vesting :: "VestingLock \<Rightarrow> int \<Rightarrow> nat \<times> RingInput \<Rightarrow> unit \<Rightarrow> verify_error + unit" where
  "check_vesting vl now ii _ =
     (case ii of (i, inp) \<Rightarrow>
      foldE (\<lambda>member _. if 0 < lockedAt vl member now then Inl (VVesting i) else Inr ()) (in_Ring inp) ())"

text \<open>Binding of the ring members to outputs of the chain: every member for CLSAG, the proven real member for
  version 4, at least one member with the claimed commitment before.\<close>

definition check_member :: "ring_store \<Rightarrow> 'd UTXOSet \<Rightarrow> u64 \<Rightarrow> u64 \<Rightarrow> UTXOKey set \<Rightarrow> nat \<Rightarrow> RingInput \<Rightarrow> nat \<Rightarrow> unit
    \<Rightarrow> verify_error + unit" where
  "check_member store s activation height burns i inp j _ =
     (case GetRingMember store s (in_Ring inp ! j) of None \<Rightarrow> Inl (VRingMember i j) | Some utxo \<Rightarrow>
      case at_index (in_RingCommitments inp) j of None \<Rightarrow> Inl VIndexPanic | Some c \<Rightarrow>
      if u_AmountCommit utxo \<noteq> c then Inl (VRingCommitment i j)
      else if 0 < activation \<and> activation \<le> height \<and>
           (utxo_key utxo \<in> burns \<or> IsStaked s (u_TxHash utxo) (u_OutputIndex utxo)) then Inl (VRingStaked i j)
      else Inr ())"

definition check_binding :: "ring_store \<Rightarrow> 'd TxVerifier \<Rightarrow> 'd UTXOSet \<Rightarrow> Transaction \<Rightarrow> UTXOKey set \<Rightarrow> u64
    \<Rightarrow> nat \<times> RingInput \<Rightarrow> unit \<Rightarrow> verify_error + unit" where
  "check_binding store v s tx burns height ii _ =
     (case ii of (i, inp) \<Rightarrow>
      if UsesCLSAG tx then
        foldE (check_member store s (tv_stakedActivation v) height burns i inp) [0..<length (in_Ring inp)] ()
      else if tx_Version tx = TxVersionCommitmentBinding then
        (case at_index (in_Ring inp) (unat (in_RealIndex inp)) of None \<Rightarrow> Inl VIndexPanic | Some realMember \<Rightarrow>
         case GetByPubKey s realMember of None \<Rightarrow> Inl (VRealMember i) | Some utxo \<Rightarrow>
         if u_AmountCommit utxo \<noteq> in_AmountCommit inp then Inl (VRealCommitment i) else Inr ())
      else
        let present = filter (\<lambda>m. GetByPubKey s m \<noteq> None) (in_Ring inp);
            matching = filter (\<lambda>m. u_AmountCommit (the (GetByPubKey s m)) = in_AmountCommit inp) present
        in if length present = 0 then Inl (VAllAbsent i) else if length matching = 0 then Inl (VNoMatch i) else Inr ())"

text \<open>The outcome of a ring signature check: the key image is compared when no error occurred.\<close>

definition ring_outcome :: "nat \<Rightarrow> key_image \<Rightarrow> key_image \<Rightarrow> crypto_error + bool \<Rightarrow> verify_error + unit" where
  "ring_outcome i sigImage claimed res =
     (case res of Inl e \<Rightarrow> Inl (VRingSig i e)
      | Inr ok \<Rightarrow> if sigImage \<noteq> claimed then Inl (VImageMismatch i) else if \<not> ok then Inl (VRingSigInvalid i) else Inr ())"

definition check_signature :: "lib \<Rightarrow> ('p::ab_group_add) curve \<Rightarrow> Transaction \<Rightarrow> nat \<times> RingInput \<Rightarrow> unit \<Rightarrow> verify_error + unit" where
  "check_signature K C tx ii _ =
     (case ii of (i, inp) \<Rightarrow>
      let msg = ringSignMessage K (tx_Hash K tx) (word_of_nat i) in
      if UsesCLSAG tx then
        (case at_index (tx_CLSAGSignatures tx) i of None \<Rightarrow> Inl VIndexPanic
         | Some None \<Rightarrow> Inl (VNilSignature i)
         | Some (Some sig) \<Rightarrow> ring_outcome i (cls_KeyImage sig) (in_KeyImage inp)
             (CLSAGVerify C msg (in_Ring inp) (in_RingCommitments inp) (in_PseudoOut inp) (Some sig)))
      else
        (case at_index (tx_Signatures tx) i of None \<Rightarrow> Inl VIndexPanic
         | Some None \<Rightarrow> Inl (VNilSignature i)
         | Some (Some sig) \<Rightarrow> ring_outcome i (mls_KeyImage sig) (in_KeyImage inp)
             (if tx_Version tx = TxVersionCommitmentBinding
              then MLSAGVerifyV4 C msg (in_Ring inp) (in_AmountCommit inp) (int (unat (in_RealIndex inp))) (Some sig)
              else MLSAGVerify C msg (in_Ring inp) (Some sig))))"

definition check_range :: "('p::ab_group_add) curve \<Rightarrow> Transaction \<Rightarrow> nat \<times> RangeProof option \<Rightarrow> unit \<Rightarrow> verify_error + unit" where
  "check_range C tx ip _ =
     (case ip of (i, oproof) \<Rightarrow>
      case VerifyRange C oproof of Inl e \<Rightarrow> Inl (VRangeError i e) | Inr ok \<Rightarrow>
      if \<not> ok then Inl (VRangeInvalid i)
      else case at_index (tx_Outputs tx) i of None \<Rightarrow> Inl VIndexPanic | Some out \<Rightarrow>
      if rp_ValueCommit (the oproof) \<noteq> out_AmountCommit out then Inl (VRangeCommitment i) else Inr ())"

definition input_commit :: "Transaction \<Rightarrow> RingInput \<Rightarrow> commitment" where
  "input_commit tx inp = (if UsesCLSAG tx then in_PseudoOut inp else in_AmountCommit inp)"

definition check_amounts :: "('p::ab_group_add) curve \<Rightarrow> Transaction \<Rightarrow> verify_error + unit" where
  "check_amounts C tx =
     (case Commit C (tx_Fee tx) 0 of Inl e \<Rightarrow> Inl (VFeeDerivation e) | Inr expectedFeeCommit \<Rightarrow>
      if tx_FeeCommit tx \<noteq> expectedFeeCommit then Inl VFeeMismatch
      else case CommitSum C (map (input_commit tx) (tx_Inputs tx)) (map out_AmountCommit (tx_Outputs tx)) (tx_FeeCommit tx) of
        Inl e \<Rightarrow> Inl (VBalanceError e)
      | Inr balanced \<Rightarrow> if \<not> balanced then Inl VUnbalanced else Inr ())"

definition indexed :: "'a list \<Rightarrow> (nat \<times> 'a) list" where
  "indexed xs = zip [0..<length xs] xs"

text \<open>Steps 2 to 6.\<close>

definition verify_spend :: "lib \<Rightarrow> ('p::ab_group_add) curve \<Rightarrow> 'd leveldb \<Rightarrow> ring_store \<Rightarrow> int \<Rightarrow> 'd TxVerifier
    \<Rightarrow> Transaction \<Rightarrow> UTXOKey set \<Rightarrow> u64 \<Rightarrow> verify_error + unit" where
  "verify_spend K C L store now v tx burns height =
     (let ins = indexed (tx_Inputs tx) in
      case foldE check_duplicate ins {} of Inl e \<Rightarrow> Inl e | Inr _ \<Rightarrow>
      case (case tv_utxos v of None \<Rightarrow> Inr () | Some s \<Rightarrow> foldE (check_unspent K L s) ins ()) of Inl e \<Rightarrow> Inl e | Inr _ \<Rightarrow>
      case (case tv_vestingLock v of None \<Rightarrow> Inr () | Some vl \<Rightarrow> foldE (check_vesting vl now) ins ()) of Inl e \<Rightarrow> Inl e | Inr _ \<Rightarrow>
      case (case tv_utxos v of None \<Rightarrow> Inr () | Some s \<Rightarrow> foldE (check_binding store v s tx burns height) ins ()) of Inl e \<Rightarrow> Inl e | Inr _ \<Rightarrow>
      case foldE (check_signature K C tx) ins () of Inl e \<Rightarrow> Inl e | Inr _ \<Rightarrow>
      case foldE (check_range C tx) (indexed (tx_RangeProofs tx)) () of Inl e \<Rightarrow> Inl e | Inr _ \<Rightarrow>
      check_amounts C tx)"

definition verifyTx :: "lib \<Rightarrow> jsonlib \<Rightarrow> ('p::ab_group_add) curve \<Rightarrow> 'd leveldb \<Rightarrow> ring_store \<Rightarrow> int \<Rightarrow> 'd TxVerifier
    \<Rightarrow> Transaction \<Rightarrow> UTXOKey set \<Rightarrow> u64 \<Rightarrow> verify_error + unit" where
  "verifyTx K J C L store now v tx burns height =
     (case tx_Validate K J tx of Inl e \<Rightarrow> Inl (VTx e) | Inr _ \<Rightarrow>
      if IsLPoDPosition tx then verify_position K J L now v tx
      else if tx_Inputs tx = [] then (if IsStake tx then Inr () else Inl VCoinbase)
      else verify_spend K C L store now v tx burns height)"

definition VerifyTxAtHeight :: "lib \<Rightarrow> jsonlib \<Rightarrow> ('p::ab_group_add) curve \<Rightarrow> 'd leveldb \<Rightarrow> ring_store \<Rightarrow> int \<Rightarrow> 'd TxVerifier
    \<Rightarrow> Transaction \<Rightarrow> u64 \<Rightarrow> verify_error + unit" where
  "VerifyTxAtHeight K J C L store now v tx height =
     (if 0 < tv_stakedActivation v \<and> height = 0 then Inl VHeightRequired else verifyTx K J C L store now v tx {} height)"

definition VerifyTx :: "lib \<Rightarrow> jsonlib \<Rightarrow> ('p::ab_group_add) curve \<Rightarrow> 'd leveldb \<Rightarrow> ring_store \<Rightarrow> int \<Rightarrow> 'd TxVerifier
    \<Rightarrow> Transaction \<Rightarrow> verify_error + unit" where
  "VerifyTx K J C L store now v tx =
     (if 0 < tv_stakedActivation v then Inl VHeightRequired else VerifyTxAtHeight K J C L store now v tx 0)"

subsection \<open>Blocks\<close>

text \<open>The outputs burned by the stake deposits of a block, as the switch over the payload sizes collects them.\<close>

definition stake_burn :: "Transaction \<Rightarrow> UTXOKey set" where
  "stake_burn tx =
     (if \<not> IsStake tx then {}
      else if length (tx_Extra tx) = StakePayloadSizeV2 then
        (case DecodeStakeExtraV2 (tx_Extra tx) of Inl _ \<Rightarrow> {}
         | Inr p \<Rightarrow> if sp_Action p = StakeDeposit then {(sp_BurnTxHash p, sp_BurnOutIdx p)} else {})
      else if length (tx_Extra tx) = StakePayloadSizeV3 then
        (case DecodeStakeExtraV3 (tx_Extra tx) of Inl _ \<Rightarrow> {}
         | Inr p \<Rightarrow> if sp_Action p = StakeDeposit then {(sp_BurnTxHash p, sp_BurnOutIdx p)} else {})
      else {})"

definition blockStakeBurns :: "'d TxVerifier \<Rightarrow> Block \<Rightarrow> UTXOKey set" where
  "blockStakeBurns v b =
     (if 0 < tv_stakedActivation v \<and> tv_stakedActivation v \<le> bh_Height (blk_Header b)
      then \<Union> (set (map stake_burn (blk_Txs b))) else {})"

definition crypto_exempt :: "Transaction \<Rightarrow> bool" where
  "crypto_exempt tx \<longleftrightarrow> IsCoinbase tx \<or> IsGuardianFund tx \<or> IsLPoD tx \<or> IsLPoDPayout tx"

text \<open>Each transaction reads the clock once: \<open>now\<close> is the time read for the transaction at an index.\<close>

definition VerifyBlock :: "lib \<Rightarrow> jsonlib \<Rightarrow> ('p::ab_group_add) curve \<Rightarrow> 'd leveldb \<Rightarrow> ring_store \<Rightarrow> (nat \<Rightarrow> int) \<Rightarrow> 'd TxVerifier
    \<Rightarrow> Block option \<Rightarrow> verify_error + unit" where
  "VerifyBlock K J C L store now v oblock =
     (case oblock of None \<Rightarrow> Inl VNilBlock | Some block \<Rightarrow>
      if 0 < tv_stakedActivation v \<and> bh_Height (blk_Header block) = 0 then Inl VHeightRequired
      else foldE (\<lambda>(i, tx) _.
        if crypto_exempt tx then Inr ()
        else case verifyTx K J C L store (now i) v tx (blockStakeBurns v block) (bh_Height (blk_Header block)) of
          Inl e \<Rightarrow> Inl (VBlockTx i e)
        | Inr _ \<Rightarrow> Inr ()) (indexed (blk_Txs block)) ())"

text \<open>\<open>BlockVerifierConfig\<close>: the durations in nanoseconds.\<close>

record BlockVerifierConfig =
  bv_MaxBlockTime :: int
  bv_MaxPastDrift :: int
  bv_MaxTxsPerBlock :: int
  bv_MaxBlockSize :: int

definition DefaultBlockVerifierConfig :: BlockVerifierConfig where
  "DefaultBlockVerifierConfig = \<lparr>bv_MaxBlockTime = 2 * 10 ^ 9, bv_MaxPastDrift = 30 * 10 ^ 9,
     bv_MaxTxsPerBlock = 2000, bv_MaxBlockSize = 4 * 1024 * 1024\<rparr>"

datatype block_verify_error =
    BvStructural block_error
  | BvParent
  | BvHeight
  | BvTimestampOrder
  | BvFuture
  | BvPast
  | BvTooManyTxs
  | BvTooLarge
  | BvTxCrypto verify_error

text \<open>Times are integers of nanoseconds: \<open>time.Time\<close> does not wrap within the range of a timestamp and a duration.\<close>

definition check_continuity :: "BlockVerifierConfig \<Rightarrow> Chain \<Rightarrow> int \<Rightarrow> Block \<Rightarrow> block_verify_error + unit" where
  "check_continuity cfg chain now block =
     (let h = blk_Header block; blockTime = sint (bh_Timestamp h) in
      if IsGenesis block then Inr ()
      else case GetByHash chain (bh_PrevHash h) of None \<Rightarrow> Inl BvParent | Some parent \<Rightarrow>
      if bh_Height (blk_Header parent) + 1 \<noteq> bh_Height h then Inl BvHeight
      else if \<not> sint (bh_Timestamp (blk_Header parent)) < blockTime then Inl BvTimestampOrder
      else if now + bv_MaxBlockTime cfg < blockTime then Inl BvFuture
      else if 0 < bv_MaxPastDrift cfg \<and> blockTime < now - bv_MaxPastDrift cfg then Inl BvPast
      else Inr ())"

definition bv_VerifyBlock :: "lib \<Rightarrow> jsonlib \<Rightarrow> ('p::ab_group_add) curve \<Rightarrow> 'd leveldb \<Rightarrow> ring_store \<Rightarrow> int \<Rightarrow> (nat \<Rightarrow> int)
    \<Rightarrow> BlockVerifierConfig \<Rightarrow> Chain \<Rightarrow> 'd TxVerifier option \<Rightarrow> Block \<Rightarrow> block_verify_error + unit" where
  "bv_VerifyBlock K J C L store now nows cfg chain txv block =
     (case block_Validate K J block [] of Inl e \<Rightarrow> Inl (BvStructural e) | Inr _ \<Rightarrow>
      case check_continuity cfg chain now block of Inl e \<Rightarrow> Inl e | Inr _ \<Rightarrow>
      if bv_MaxTxsPerBlock cfg < int (length (blk_Txs block)) then Inl BvTooManyTxs
      else if bv_MaxBlockSize cfg < int (block_Size block) then Inl BvTooLarge
      else case txv of None \<Rightarrow> Inr () | Some v \<Rightarrow>
      (case VerifyBlock K J C L store nows v (Some block) of Inl e \<Rightarrow> Inl (BvTxCrypto e) | Inr _ \<Rightarrow> Inr ()))"

subsection \<open>Minting\<close>

datatype mint_error =
    MintAmount
  | MintAddress address_error
  | MintCrypto crypto_error

definition BuildMintTx :: "lib \<Rightarrow> ('p::ab_group_add) curve \<Rightarrow> Address \<Rightarrow> u64 \<Rightarrow> u64 \<Rightarrow> mint_error + Transaction" where
  "BuildMintTx K C addr amount height =
     (if amount = 0 then Inl MintAmount
      else case DecodeAddress K addr of Inl e \<Rightarrow> Inl (MintAddress e) | Inr (net, spendPub, view) \<Rightarrow>
      let blind = (if 0 < height then DeterministicMintBlindV2 C spendPub amount height else DeterministicMintBlind C spendPub amount) in
      case Commit C amount blind of Inl e \<Rightarrow> Inl (MintCrypto e) | Inr commit \<Rightarrow>
      case scalarMulBase C (ScalarFromUint64 height) of Inl e \<Rightarrow> Inl (MintCrypto e) | Inr heightPub \<Rightarrow>
      case AddPoints C spendPub heightPub of Inl e \<Rightarrow> Inl (MintCrypto e) | Inr oneTimePub \<Rightarrow>
      Inr ((empty_tx TxVersionBase)\<lparr>tx_Outputs := [\<lparr>out_OneTimePub = oneTimePub, out_TxPubKey = 0,
             out_AmountCommit = commit, out_EncAmount = 0\<rparr>]\<rparr>))"

section \<open>Accepted transactions\<close>

lemma foldE_unit: "foldE f xs () = Inr u \<longleftrightarrow> (\<forall>x \<in> set xs. f x () = Inr ())"
  by (induction xs) (auto split: sum.splits)

lemma foldE_unit_error: "foldE f xs () = Inl e \<Longrightarrow> \<exists>x \<in> set xs. f x () = Inl e"
  by (induction xs) (auto split: sum.splits)

lemma set_indexed: "(i, x) \<in> set (indexed xs) \<longleftrightarrow> i < length xs \<and> x = xs ! i"
  by (force simp: indexed_def set_zip)

lemma ball_indexed: "(\<forall>p \<in> set (indexed xs). P p) \<longleftrightarrow> (\<forall>i < length xs. P (i, xs ! i))"
  using set_indexed [of _ _ xs] by fastforce

text \<open>What the checks establish, as predicates on an input.\<close>

definition ring_on_chain :: "ring_store \<Rightarrow> 'd TxVerifier \<Rightarrow> 'd UTXOSet \<Rightarrow> Transaction \<Rightarrow> UTXOKey set \<Rightarrow> u64 \<Rightarrow> RingInput \<Rightarrow> bool" where
  "ring_on_chain store v s tx burns height inp \<longleftrightarrow>
     (if UsesCLSAG tx then
        (\<forall>j < length (in_Ring inp). \<exists>utxo. GetRingMember store s (in_Ring inp ! j) = Some utxo
           \<and> j < length (in_RingCommitments inp) \<and> u_AmountCommit utxo = in_RingCommitments inp ! j
           \<and> (0 < tv_stakedActivation v \<and> tv_stakedActivation v \<le> height \<longrightarrow>
                utxo_key utxo \<notin> burns \<and> \<not> IsStaked s (u_TxHash utxo) (u_OutputIndex utxo)))
      else if tx_Version tx = TxVersionCommitmentBinding then
        unat (in_RealIndex inp) < length (in_Ring inp) \<and>
        (\<exists>utxo. GetByPubKey s (in_Ring inp ! unat (in_RealIndex inp)) = Some utxo \<and> u_AmountCommit utxo = in_AmountCommit inp)
      else (\<exists>m \<in> set (in_Ring inp). \<exists>utxo. GetByPubKey s m = Some utxo \<and> u_AmountCommit utxo = in_AmountCommit inp))"

definition signature_valid :: "lib \<Rightarrow> ('p::ab_group_add) curve \<Rightarrow> Transaction \<Rightarrow> nat \<Rightarrow> RingInput \<Rightarrow> bool" where
  "signature_valid K C tx i inp \<longleftrightarrow>
     (let msg = ringSignMessage K (tx_Hash K tx) (word_of_nat i) in
      if UsesCLSAG tx then
        (\<exists>sig. at_index (tx_CLSAGSignatures tx) i = Some (Some sig) \<and> cls_KeyImage sig = in_KeyImage inp
          \<and> CLSAGVerify C msg (in_Ring inp) (in_RingCommitments inp) (in_PseudoOut inp) (Some sig) = Inr True)
      else
        (\<exists>sig. at_index (tx_Signatures tx) i = Some (Some sig) \<and> mls_KeyImage sig = in_KeyImage inp
          \<and> (if tx_Version tx = TxVersionCommitmentBinding
             then MLSAGVerifyV4 C msg (in_Ring inp) (in_AmountCommit inp) (int (unat (in_RealIndex inp))) (Some sig)
             else MLSAGVerify C msg (in_Ring inp) (Some sig)) = Inr True))"

definition range_valid :: "('p::ab_group_add) curve \<Rightarrow> Transaction \<Rightarrow> nat \<Rightarrow> RangeProof option \<Rightarrow> bool" where
  "range_valid C tx i oproof \<longleftrightarrow>
     (\<exists>proof. oproof = Some proof \<and> VerifyRange C oproof = Inr True \<and> i < length (tx_Outputs tx)
       \<and> rp_ValueCommit proof = out_AmountCommit (tx_Outputs tx ! i))"

definition fee_commit :: "('p::ab_group_add) curve \<Rightarrow> u64 \<Rightarrow> commitment" where
  "fee_commit C fee = cv_bytes C (pedersen C 0 (int (unat fee)))"

definition spend_valid :: "lib \<Rightarrow> ('p::ab_group_add) curve \<Rightarrow> 'd leveldb \<Rightarrow> ring_store \<Rightarrow> int \<Rightarrow> 'd TxVerifier
    \<Rightarrow> Transaction \<Rightarrow> UTXOKey set \<Rightarrow> u64 \<Rightarrow> bool" where
  "spend_valid K C L store now v tx burns height \<longleftrightarrow>
     distinct (map in_KeyImage (tx_Inputs tx))
     \<and> (\<forall>s. tv_utxos v = Some s \<longrightarrow> (\<forall>inp \<in> set (tx_Inputs tx).
           \<not> IsSpent K L s (in_KeyImage inp) \<and> ring_on_chain store v s tx burns height inp))
     \<and> (\<forall>vl. tv_vestingLock v = Some vl \<longrightarrow> (\<forall>inp \<in> set (tx_Inputs tx). \<forall>m \<in> set (in_Ring inp). lockedAt vl m now = 0))
     \<and> (\<forall>i < length (tx_Inputs tx). signature_valid K C tx i (tx_Inputs tx ! i))
     \<and> (\<forall>i < length (tx_RangeProofs tx). range_valid C tx i (tx_RangeProofs tx ! i))
     \<and> tx_FeeCommit tx = fee_commit C (tx_Fee tx)
     \<and> CommitSum C (map (input_commit tx) (tx_Inputs tx)) (map out_AmountCommit (tx_Outputs tx)) (fee_commit C (tx_Fee tx)) = Inr True"

lemma images_distinct: "is_ok (foldE check_duplicate (indexed ins) {}) \<longleftrightarrow> distinct (map in_KeyImage ins)"
proof -
  have step: "is_ok (foldE check_duplicate xs seen) \<longleftrightarrow> distinct (map (in_KeyImage \<circ> snd) xs) \<and> (in_KeyImage \<circ> snd) ` set xs \<inter> seen = {}" for xs seen
    by (induction xs arbitrary: seen) (auto simp: check_duplicate_def split: prod.splits)
  have "map (in_KeyImage \<circ> snd) (indexed ins) = map in_KeyImage (map snd (indexed ins))" by simp
  then show ?thesis using step [of "indexed ins" "{}"] by (simp add: indexed_def del: map_map)
qed

lemma check_vesting_iff: "check_vesting vl now (i, inp) () = Inr () \<longleftrightarrow> (\<forall>m \<in> set (in_Ring inp). lockedAt vl m now = 0)"
  by (auto simp: check_vesting_def foldE_unit word_gt_0)

lemma check_member_iff:
  "check_member store s act height burns i inp j () = Inr () \<longleftrightarrow>
     (\<exists>utxo. GetRingMember store s (in_Ring inp ! j) = Some utxo \<and> j < length (in_RingCommitments inp)
       \<and> u_AmountCommit utxo = in_RingCommitments inp ! j
       \<and> (0 < act \<and> act \<le> height \<longrightarrow> utxo_key utxo \<notin> burns \<and> \<not> IsStaked s (u_TxHash utxo) (u_OutputIndex utxo)))"
  by (auto simp: check_member_def at_index_def split: option.splits if_splits)

lemma check_binding_iff: "check_binding store v s tx burns height (i, inp) () = Inr () \<longleftrightarrow> ring_on_chain store v s tx burns height inp"
proof -
  let ?present = "filter (\<lambda>m. GetByPubKey s m \<noteq> None) (in_Ring inp)"
  have legacy: "(if length ?present = 0 then Inl (VAllAbsent i)
      else if length (filter (\<lambda>m. u_AmountCommit (the (GetByPubKey s m)) = in_AmountCommit inp) ?present) = 0 then Inl (VNoMatch i) else Inr ())
      = Inr () \<longleftrightarrow> (\<exists>m \<in> set (in_Ring inp). \<exists>utxo. GetByPubKey s m = Some utxo \<and> u_AmountCommit utxo = in_AmountCommit inp)"
    by (force simp: filter_empty_conv)
  show ?thesis
  proof (cases "UsesCLSAG tx")
    case True
    then show ?thesis by (simp add: check_binding_def ring_on_chain_def foldE_unit check_member_iff Ball_def)
  next
    case False
    then show ?thesis
      unfolding check_binding_def ring_on_chain_def prod.case if_not_P [OF False] Let_def
      by (cases "tx_Version tx = TxVersionCommitmentBinding", simp add: at_index_def split: option.splits)
        (simp only: legacy if_not_P if_False)
  qed
qed

lemma check_signature_iff: "check_signature K C tx (i, inp) () = Inr () \<longleftrightarrow> signature_valid K C tx i inp"
  unfolding check_signature_def signature_valid_def ring_outcome_def Let_def
  by (auto split: option.splits sum.splits if_splits)

lemma check_range_iff: "check_range C tx (i, oproof) () = Inr () \<longleftrightarrow> range_valid C tx i oproof"
  unfolding check_range_def range_valid_def at_index_def
  by (cases oproof) (auto simp: VerifyRange_def split: sum.splits if_splits)

lemma zero_blind: "ScalarFromBytes 0 = Some 0"
  by code_simp

lemma check_amounts_iff:
  "check_amounts C tx = Inr () \<longleftrightarrow> tx_FeeCommit tx = fee_commit C (tx_Fee tx)
     \<and> CommitSum C (map (input_commit tx) (tx_Inputs tx)) (map out_AmountCommit (tx_Outputs tx)) (fee_commit C (tx_Fee tx)) = Inr True"
  by (auto simp: check_amounts_def Commit_def zero_blind scalarFromUint64_def fee_commit_def split: sum.splits if_splits)

lemma verify_spend_iff: "verify_spend K C L store now v tx burns height = Inr () \<longleftrightarrow> spend_valid K C L store now v tx burns height"
proof -
  have split: "(case a of Inl e \<Rightarrow> Inl e | Inr _ \<Rightarrow> b) = Inr () \<longleftrightarrow> is_ok a \<and> b = Inr ()" for a :: "verify_error + 'x" and b
    by (cases a) auto
  have ok: "is_ok (foldE f xs ()) \<longleftrightarrow> (\<forall>x \<in> set xs. f x () = Inr ())" for f :: "'x \<Rightarrow> unit \<Rightarrow> verify_error + unit" and xs
    using foldE_unit [of f xs] by (auto simp: is_ok_iff)
  have unspent: "check_unspent K L s (i, inp) () = Inr () \<longleftrightarrow> \<not> IsSpent K L s (in_KeyImage inp)" for s i inp
    by (simp add: check_unspent_def)
  have opt: "is_ok (case x of None \<Rightarrow> Inr () | Some y \<Rightarrow> g y) \<longleftrightarrow> (\<forall>y. x = Some y \<longrightarrow> is_ok (g y))"
    for x :: "'x option" and g :: "'x \<Rightarrow> verify_error + unit" by (cases x) simp_all
  show ?thesis
    unfolding verify_spend_def Let_def split opt ok images_distinct ball_indexed unspent check_vesting_iff check_binding_iff
      check_signature_iff check_range_iff check_amounts_iff spend_valid_def
    unfolding all_set_conv_all_nth by blast
qed

subsection \<open>Value conservation\<close>

lemma valid_output_count:
  assumes "tx_Validate K J tx = Inr u" and "tx_Inputs tx \<noteq> []"
  shows "length (tx_Outputs tx) \<le> 16"
proof (cases "tx_Version tx \<in> transfer_versions")
  case True
  then have "validate_transfer tx = Inr ()" using assms(1) by (auto simp: tx_Validate_transfer split: sum.splits)
  then show ?thesis by (auto simp: validate_transfer_def split: sum.splits if_splits)
next
  case False
  then have "IsStake tx \<or> IsGuardianFund tx \<or> IsLPoD tx \<or> IsLPoDPosition tx \<or> IsLPoDPayout tx \<or> IsSale tx"
    using tx_Validate_versions [OF assms(1)] by (auto simp: tx_kinds)
  then show ?thesis
    using valid_stake_outputs [OF _ assms(1)] valid_lpod_outputs [OF _ assms(1)] valid_position_outputs [OF _ assms(1)] assms
    by (auto simp: tx_Validate_def tx_kinds tx_versions validate_guardian_def tx_LPoDPayoutAuthorization_def tx_SaleAuthorization_def
        split: sum.splits if_splits option.splits)
qed

lemma verifyTx_iff:
  assumes "tx_Inputs tx \<noteq> []" and "\<not> IsLPoDPosition tx"
  shows "verifyTx K J C L store now v tx burns height = Inr () \<longleftrightarrow> tx_Validate K J tx = Inr () \<and> spend_valid K C L store now v tx burns height"
  using assms verify_spend_iff [of K C L store now v tx burns height] by (auto simp: verifyTx_def split: sum.splits)

lemma VerifyTxAtHeight_iff:
  assumes "tx_Inputs tx \<noteq> []" and "\<not> IsLPoDPosition tx"
  shows "VerifyTxAtHeight K J C L store now v tx height = Inr () \<longleftrightarrow>
     (0 < tv_stakedActivation v \<longrightarrow> height \<noteq> 0) \<and> tx_Validate K J tx = Inr () \<and> spend_valid K C L store now v tx {} height"
  by (auto simp: VerifyTxAtHeight_def verifyTx_iff [OF assms])

section \<open>Properties\<close>

text \<open>C3: What \<open>VerifyTxAtHeight\<close> accepts, for every transaction with inputs that is not an LPoD position: it accepts exactly
  the structurally valid ones whose key images are pairwise different and unspent, whose ring members are bound to
  outputs on the chain as the version requires (every member with its commitment for CLSAG, none of them staked
  collateral once that rule is active; the revealed real member for version 4; some unspent member with the claimed
  commitment before), none of whose ring members is a locked genesis allocation, whose ring signatures verify for the claimed key
  images over the transaction hash, whose range proofs verify for the output commitments, whose fee commitment is that of the
  public fee with a zero blinding factor, and whose commitments balance.  A verifier without an output set skips the questions to it, and height 0 is
  refused when the rule on staked collateral is configured.\<close>

theorem verify_accepts_exactly:
  assumes "tx_Inputs tx \<noteq> []" and "\<not> IsLPoDPosition tx"
  shows "VerifyTxAtHeight K J C L store now v tx height = Inr () \<longleftrightarrow>
     (0 < tv_stakedActivation v \<longrightarrow> height \<noteq> 0) \<and> tx_Validate K J tx = Inr () \<and> spend_valid K C L store now v tx {} height"
  using assms by (rule VerifyTxAtHeight_iff)

text \<open>C2: No inflation through an accepted transaction.  Whatever openings the commitments of its inputs and outputs have,
  with 64-bit amounts, the difference \<open>d\<close> between the amounts out with the fee and the amounts in satisfies
  \<open>(blinding in - blinding out) * G = d * H\<close>, and \<open>d\<close> is zero unless it is a nonzero scalar: a spender who creates
  value knows the discrete logarithm of \<open>H\<close>, which no one does.  There is no wrap-around modulo the group order,
  since the amounts of at most \<open>2^64\<close> inputs and of the at most 16 outputs stay far below it.\<close>

theorem accepted_value_conserved:
  assumes ok: "curve_ok C" and acc: "VerifyTxAtHeight K J C L store now v tx height = Inr ()"
    and kind: "tx_Inputs tx \<noteq> []" "\<not> IsLPoDPosition tx" and size: "length (tx_Inputs tx) \<le> 2 ^ 64"
    and ins: "opens C (map (input_commit tx) (tx_Inputs tx)) ins" and outs: "opens C (map out_AmountCommit (tx_Outputs tx)) outs"
  shows "base_mul C (blinds ins - blinds outs) = smul (amounts outs + int (unat (tx_Fee tx)) - amounts ins) (hGenerator C)
    \<and> (amounts ins = amounts outs + int (unat (tx_Fee tx)) \<or> \<not> ell dvd amounts outs + int (unat (tx_Fee tx)) - amounts ins)"
proof
  let ?d = "amounts outs + int (unat (tx_Fee tx)) - amounts ins"
  have valid: "tx_Validate K J tx = Inr ()" and spend: "spend_valid K C L store now v tx {} height"
    using acc VerifyTxAtHeight_iff [OF kind] by blast+
  show "base_mul C (blinds ins - blinds outs) = smul ?d (hGenerator C)"
    using spend CommitSum_opens [OF ok ins outs, of "int (unat (tx_Fee tx))"] by (simp add: spend_valid_def fee_commit_def)
  have "length (map (input_commit tx) (tx_Inputs tx)) = length ins" "length (map out_AmountCommit (tx_Outputs tx)) = length outs"
    using ins outs by (simp_all only: opens_def length_map)
  then have "amounts ins \<le> 2 ^ 64 * (2 ^ 64 - 1)" "amounts outs \<le> 16 * (2 ^ 64 - 1)" "0 \<le> amounts ins" "0 \<le> amounts outs"
    using amounts_bound [of ins] amounts_bound [of outs] size valid_output_count [OF valid kind(1)] by auto
  moreover have "int (unat (tx_Fee tx)) < 2 ^ 64" "0 \<le> int (unat (tx_Fee tx))" using uint_bounded [of "tx_Fee tx"] by simp_all
  moreover have "\<bar>a + f - b\<bar> < ell" if "b \<le> 2 ^ 64 * (2 ^ 64 - 1)" "a \<le> 16 * (2 ^ 64 - 1)" "0 \<le> b" "0 \<le> a" "f < 2 ^ 64" "0 \<le> f" for a b f :: int
    using that by (simp add: ell_def)
  ultimately have "\<bar>?d\<bar> < ell" by blast
  then have "ell dvd ?d \<Longrightarrow> ?d = 0" using zdvd_imp_le [of ell "\<bar>?d\<bar>"] by fastforce
  then show "amounts ins = amounts outs + int (unat (tx_Fee tx)) \<or> \<not> ell dvd ?d" by auto
qed

subsection \<open>A concrete transaction\<close>

text \<open>A version 4 spend of 1000000 into 900000 and a fee of 100000, in the group of integers modulo the group order.\<close>

definition demo_ring :: "point32 list" where
  "demo_ring = map (cv_bytes zl_curve) demo_keys"

definition demo_commit :: "u64 \<Rightarrow> commitment" where
  "demo_commit v = cv_bytes zl_curve (pedersen zl_curve 5 (scalarFromUint64 v))"

definition demo_v4_input :: RingInput where
  "demo_v4_input = \<lparr>in_KeyImage = cv_bytes zl_curve (zl_of 16), in_Ring = demo_ring, in_AmountCommit = demo_commit 1000000,
     in_RingCommitments = [], in_PseudoOut = 0, in_RealIndex = 0\<rparr>"

definition demo_v4_tx :: "RangeProof \<Rightarrow> MLSAGSignature option list \<Rightarrow> Transaction" where
  "demo_v4_tx proof sigs = (empty_tx TxVersionCommitmentBinding)\<lparr>tx_Inputs := [demo_v4_input],
     tx_Outputs := [\<lparr>out_OneTimePub = 1, out_TxPubKey = 2, out_AmountCommit = demo_commit 900000, out_EncAmount = 0\<rparr>],
     tx_Fee := 100000, tx_FeeCommit := fee_commit zl_curve 100000, tx_RangeProofs := [Some proof], tx_Signatures := sigs\<rparr>"

definition demo_owned :: UTXO where
  "demo_owned = \<lparr>u_TxHash = 9, u_OutputIndex = 0, u_OneTimePub = hd demo_ring, u_TxPubKey = 0,
     u_AmountCommit = demo_commit 1000000, u_EncAmount = 0, u_BlockHeight = 1, u_ProtocolLocked = False\<rparr>"

definition demo_verifier :: "(bytes \<rightharpoonup> bytes) TxVerifier" where
  "demo_verifier = NewTxVerifier (Some (Add demo_owned (NewUTXOSetWithDB None)))"

lemma demo_v4_fields:
  "tx_Version (demo_v4_tx p sigs) = TxVersionCommitmentBinding" "tx_Inputs (demo_v4_tx p sigs) = [demo_v4_input]"
  "map out_AmountCommit (tx_Outputs (demo_v4_tx p sigs)) = [demo_commit 900000]" "tx_Fee (demo_v4_tx p sigs) = 100000"
  "length (tx_Outputs (demo_v4_tx p sigs)) = 1" "out_AmountCommit (tx_Outputs (demo_v4_tx p sigs) ! 0) = demo_commit 900000"
  "tx_FeeCommit (demo_v4_tx p sigs) = fee_commit zl_curve 100000" "tx_RangeProofs (demo_v4_tx p sigs) = [Some p]"
  "tx_Signatures (demo_v4_tx p sigs) = sigs" "in_KeyImage demo_v4_input = cv_bytes zl_curve (zl_of 16)" "in_Ring demo_v4_input = demo_ring"
  "in_AmountCommit demo_v4_input = demo_commit 1000000" "in_RealIndex demo_v4_input = 0" "u_AmountCommit demo_owned = demo_commit 1000000"
  by (simp_all add: demo_v4_tx_def demo_v4_input_def demo_owned_def empty_tx_def)

lemma demo_unspent: "\<not> IsSpent demo_lib mem_leveldb (Add demo_owned (NewUTXOSetWithDB None)) ki"
  by (simp add: IsSpent_def Add_def trackCLSAGRecentLocked_def demo_owned_def NewUTXOSetWithDB_def ki_contains_def Let_def split: option.splits)

lemma demo_lookup: "GetByPubKey (Add demo_owned (NewUTXOSetWithDB None)) (hd demo_ring) = Some demo_owned"
  by (simp add: GetByPubKey_def Add_def trackCLSAGRecentLocked_def demo_owned_def NewUTXOSetWithDB_def Let_def)

lemma demo_balance: "CommitSum zl_curve [demo_commit 1000000] [demo_commit 900000] (fee_commit zl_curve 100000) = Inr True"
proof -
  have o: "opens zl_curve [demo_commit v] [(5, v)]" for v by (simp add: opens_def demo_commit_def)
  show ?thesis using CommitSum_opens [OF zl_curve_ok o [of 1000000] o [of 900000], of 100000]
    by (simp add: fee_commit_def blinds_def amounts_def base_mul_def)
qed

lemma demo_signature:
  "\<exists>sig. mls_KeyImage sig = cv_bytes zl_curve (zl_of 16) \<and> MLSAGVerifyV4 zl_curve msg demo_ring (demo_commit 1000000) 0 (Some sig) = Inr True"
proof -
  have "sc_ok 1" "sc_ok 5" "draws (\<lambda>_. Some 3) (3 * RingSize + 1)" by (simp_all add: sc_ok_def ell_def draws_def)
  then show ?thesis
    using mlsag_signs [of zl_curve demo_keys 0 1 5 "\<lambda>_. Some 3" msg 1000000] zl_curve_ok demo_keys_ring zl_image_nonzero
    by (auto simp: zl_base_mul zl_ring_hash demo_ring_def demo_commit_def)
qed

lemma demo_range: "\<exists>proof. VerifyRange zl_curve (Some proof) = Inr True \<and> rp_ValueCommit proof = demo_commit 900000"
proof -
  have "ScalarFromBytes (sc_bytes 5) = Some 5" by (simp add: sc_ok_def ell_def)
  from range_proof_made [OF zl_curve_ok this zl_prover_challenges, of 900000] show ?thesis
    by (auto simp: demo_commit_def pedersen_def hGenerator_def)
qed

lemma demo_image_nonzero: "cv_bytes zl_curve (zl_of 16) \<noteq> 0"
proof
  assume "cv_bytes zl_curve (zl_of 16) = 0"
  moreover have "cv_parse zl_curve 0 = Some (zl_of 0)" by (simp add: zl_curve_def ell_def)
  ultimately have "zl_of 16 = zl_of 0" using curve_parse [OF zl_curve_ok, of "zl_of 16"] by simp
  then show False using zl_small_inj [of 16 0] by simp
qed

lemma demo_v4_validates:
  assumes "length (mls_BlindSS sig) = RingSize" "length (mls_ValueSS sig) = RingSize"
  shows "tx_Validate demo_lib no_json (demo_v4_tx proof [Some sig]) = Inr ()"
proof -
  have ring: "length (in_Ring demo_v4_input) = RingSize" "in_KeyImage demo_v4_input \<noteq> 0" "in_RealIndex demo_v4_input = 0"
    using demo_image_nonzero demo_keys_ring by (simp_all add: demo_v4_input_def demo_ring_def)
  have "validate_inputs (demo_v4_tx proof [Some sig]) = Inr ()"
    using ring assms by (simp add: validate_inputs_def validate_input_def demo_v4_tx_def empty_tx_def UsesCLSAG_def tx_versions RingSize_def)
  moreover have "validate_burn (demo_v4_tx proof [Some sig]) = Inr False"
    by (simp add: validate_burn_def demo_v4_tx_def empty_tx_def parseIntentionalBurnExtra_def intentionalBurnPrefix_def str_bytes_def)
  ultimately have "validate_transfer (demo_v4_tx proof [Some sig]) = Inr ()"
    by (simp add: validate_transfer_def validate_signature_counts_def demo_v4_tx_def empty_tx_def tx_kinds tx_versions)
  moreover have "validate_avm_part demo_lib (demo_v4_tx proof [Some sig]) = Inr ()"
    by (simp add: validate_avm_part_def demo_v4_tx_def empty_tx_def tx_kinds tx_versions)
  moreover have "tx_Version (demo_v4_tx proof [Some sig]) \<in> transfer_versions"
    by (simp add: demo_v4_tx_def empty_tx_def transfer_versions_def)
  ultimately show ?thesis by (simp add: tx_Validate_transfer)
qed

lemma demo_v4_accepted:
  "\<exists>proof sig. VerifyTxAtHeight demo_lib no_json zl_curve mem_leveldb None 0 demo_verifier (demo_v4_tx proof [Some sig]) 1 = Inr ()"
proof -
  obtain rp where range: "VerifyRange zl_curve (Some rp) = Inr True" "rp_ValueCommit rp = demo_commit 900000" using demo_range by blast
  let ?tx = "demo_v4_tx rp" and ?s = "Add demo_owned (NewUTXOSetWithDB None)"
  have hash: "tx_Hash demo_lib (?tx sigs) = tx_Hash demo_lib (?tx [])" for sigs
    by (simp add: tx_Hash_def tx_hash_parts_def demo_v4_tx_def input_hash_bytes_def [abs_def] UsesCLSAG_def)
  obtain sig where sig: "mls_KeyImage sig = cv_bytes zl_curve (zl_of 16)"
    "MLSAGVerifyV4 zl_curve (ringSignMessage demo_lib (tx_Hash demo_lib (?tx [])) 0) demo_ring (demo_commit 1000000) 0 (Some sig) = Inr True"
    using demo_signature by blast
  have lens: "length (mls_BlindSS sig) = RingSize" "length (mls_ValueSS sig) = RingSize"
    using sig(2) by (auto simp: MLSAGVerifyV4_def split: if_splits)
  have hd: "demo_ring ! 0 = hd demo_ring" "demo_ring \<noteq> []" by (simp_all add: demo_ring_def demo_keys_def hd_conv_nth)
  have "spend_valid demo_lib zl_curve mem_leveldb None 0 demo_verifier (?tx [Some sig]) {} 1"
    unfolding spend_valid_def signature_valid_def range_valid_def ring_on_chain_def hash [of "[Some sig]"]
    using sig range demo_balance hd demo_lookup
    by (auto simp: demo_v4_fields demo_verifier_def NewTxVerifier_def demo_unspent UsesCLSAG_def tx_versions at_index_def Let_def input_commit_def)
  then have "VerifyTxAtHeight demo_lib no_json zl_curve mem_leveldb None 0 demo_verifier (?tx [Some sig]) 1 = Inr ()"
    using demo_v4_validates [OF lens, of rp]
    by (simp add: VerifyTxAtHeight_def verifyTx_def verify_spend_iff demo_verifier_def NewTxVerifier_def demo_v4_fields IsLPoDPosition_def tx_versions)
  then show ?thesis by blast
qed

theorem verify_accepts_exactly_witness:
  "\<exists>p sig. tx_Validate demo_lib no_json (demo_v4_tx p [Some sig]) = Inr ()
     \<and> spend_valid demo_lib zl_curve mem_leveldb None 0 demo_verifier (demo_v4_tx p [Some sig]) {} 1"
proof -
  have "tx_Inputs (demo_v4_tx p sigs) \<noteq> []" "\<not> IsLPoDPosition (demo_v4_tx p sigs)" for p sigs
    by (simp_all add: demo_v4_fields IsLPoDPosition_def tx_versions)
  from verify_accepts_exactly [OF this] show ?thesis using demo_v4_accepted by blast
qed

theorem accepted_value_conserved_witness:
  "\<exists>p sig. VerifyTxAtHeight demo_lib no_json zl_curve mem_leveldb None 0 demo_verifier (demo_v4_tx p [Some sig]) 1 = Inr ()
     \<and> (amounts [(5, 1000000)] = amounts [(5, 900000)] + 100000 \<or> \<not> ell dvd amounts [(5, 900000)] + 100000 - amounts [(5, 1000000)])"
proof -
  obtain p sig where acc: "VerifyTxAtHeight demo_lib no_json zl_curve mem_leveldb None 0 demo_verifier (demo_v4_tx p [Some sig]) 1 = Inr ()"
    using demo_v4_accepted by blast
  let ?tx = "demo_v4_tx p [Some sig]"
  have kind: "tx_Inputs ?tx \<noteq> []" "\<not> IsLPoDPosition ?tx" "length (tx_Inputs ?tx) \<le> 2 ^ 64"
    by (simp_all add: demo_v4_fields IsLPoDPosition_def tx_versions)
  have "opens zl_curve (map (input_commit ?tx) (tx_Inputs ?tx)) [(5, 1000000)]" "opens zl_curve (map out_AmountCommit (tx_Outputs ?tx)) [(5, 900000)]"
    by (simp_all add: opens_def demo_v4_fields input_commit_def UsesCLSAG_def tx_versions demo_commit_def)
  from accepted_value_conserved [OF zl_curve_ok acc kind this] acc show ?thesis by (auto simp: demo_v4_fields)
qed

subsection \<open>Index errors\<close>

lemma validate_input_index:
  assumes "validate_input tx i = Inr ()"
  shows "tx_Version tx = TxVersionCommitmentBinding \<Longrightarrow> unat (in_RealIndex (tx_Inputs tx ! i)) < length (in_Ring (tx_Inputs tx ! i))"
    and "UsesCLSAG tx \<Longrightarrow> length (in_RingCommitments (tx_Inputs tx ! i)) = length (in_Ring (tx_Inputs tx ! i))"
  using assms by (auto simp: validate_input_def Let_def split: if_splits)

lemma transfer_shape:
  assumes "tx_Version tx \<in> transfer_versions" and "tx_Validate K J tx = Inr ()" and "tx_Inputs tx \<noteq> []"
  shows "UsesCLSAG tx \<Longrightarrow> length (tx_CLSAGSignatures tx) = length (tx_Inputs tx)"
    and "\<not> UsesCLSAG tx \<Longrightarrow> length (tx_Signatures tx) = length (tx_Inputs tx)"
    and "length (tx_RangeProofs tx) = length (tx_Outputs tx)"
    and "i < length (tx_Inputs tx) \<Longrightarrow> validate_input tx i = Inr ()"
proof -
  have v: "validate_transfer tx = Inr ()" using assms(1,2) by (auto simp: tx_Validate_transfer split: sum.splits)
  have "\<not> IsCoinbase tx" using assms(3) by (simp add: IsCoinbase_def)
  with v have counts: "validate_signature_counts tx = Inr ()" and ins: "validate_inputs tx = Inr ()"
    by (auto simp: validate_transfer_def split: sum.splits if_splits)
  show "UsesCLSAG tx \<Longrightarrow> length (tx_CLSAGSignatures tx) = length (tx_Inputs tx)" "\<not> UsesCLSAG tx \<Longrightarrow> length (tx_Signatures tx) = length (tx_Inputs tx)"
    "length (tx_RangeProofs tx) = length (tx_Outputs tx)"
    using counts by (auto simp: validate_signature_counts_def split: if_splits)
  show "i < length (tx_Inputs tx) \<Longrightarrow> validate_input tx i = Inr ()"
    using ins by (auto simp: validate_inputs_def foldE_unit)
qed

lemma check_binding_no_panic:
  assumes "validate_input tx i = Inr ()"
  shows "check_binding store v s tx burns height (i, tx_Inputs tx ! i) () \<noteq> Inl VIndexPanic"
proof
  assume panic: "check_binding store v s tx burns height (i, tx_Inputs tx ! i) () = Inl VIndexPanic"
  have real: "tx_Version tx = TxVersionCommitmentBinding \<Longrightarrow>
      at_index (in_Ring (tx_Inputs tx ! i)) (unat (in_RealIndex (tx_Inputs tx ! i))) = Some (in_Ring (tx_Inputs tx ! i) ! unat (in_RealIndex (tx_Inputs tx ! i)))"
    using validate_input_index(1) [OF assms] by (simp add: at_index_def)
  show False
  proof (cases "UsesCLSAG tx")
    case True
    then have "foldE (check_member store s (tv_stakedActivation v) height burns i (tx_Inputs tx ! i)) [0..<length (in_Ring (tx_Inputs tx ! i))] ()
        = Inl VIndexPanic"
      using panic by (simp add: check_binding_def)
    then obtain j where "j < length (in_Ring (tx_Inputs tx ! i))"
      "check_member store s (tv_stakedActivation v) height burns i (tx_Inputs tx ! i) j () = Inl VIndexPanic"
      by (auto dest: foldE_unit_error)
    then show False using validate_input_index(2) [OF assms True]
      by (auto simp: check_member_def at_index_def split: option.splits if_splits)
  next
    case False
    then show False using panic real
      by (auto simp: check_binding_def Let_def split: option.splits if_splits)
  qed
qed

lemma verify_spend_no_panic:
  assumes "tx_Version tx \<in> transfer_versions" and "tx_Validate K J tx = Inr ()" and "tx_Inputs tx \<noteq> []"
  shows "verify_spend K C L store now v tx burns height \<noteq> Inl VIndexPanic"
proof -
  note shape = transfer_shape [OF assms]
  have chain: "(case a of Inl e \<Rightarrow> Inl e | Inr _ \<Rightarrow> b) \<noteq> Inl VIndexPanic" if "a \<noteq> Inl VIndexPanic" "b \<noteq> Inl VIndexPanic"
    for a :: "verify_error + 'x" and b :: "verify_error + unit" using that by (cases a) auto
  have opt: "(case x of None \<Rightarrow> Inr () | Some y \<Rightarrow> g y) \<noteq> Inl VIndexPanic" if "\<And>y. g y \<noteq> Inl VIndexPanic"
    for x :: "'x option" and g :: "'x \<Rightarrow> verify_error + unit" using that by (cases x) simp_all
  have run: "foldE f (indexed xs) () \<noteq> Inl VIndexPanic" if "\<And>i. i < length xs \<Longrightarrow> f (i, xs ! i) () \<noteq> Inl VIndexPanic"
    for f :: "nat \<times> 'x \<Rightarrow> unit \<Rightarrow> verify_error + unit" and xs
    using that foldE_unit_error [of f "indexed xs" VIndexPanic] by (auto simp: set_indexed)
  have dup: "foldE check_duplicate xs seen \<noteq> Inl VIndexPanic" for xs seen
    by (induction xs arbitrary: seen) (auto simp: check_duplicate_def split: prod.splits)
  have sig: "check_signature K C tx (i, tx_Inputs tx ! i) () \<noteq> Inl VIndexPanic" if "i < length (tx_Inputs tx)" for i
    using that shape(1,2) by (auto simp: check_signature_def at_index_def ring_outcome_def Let_def split: option.splits sum.splits if_splits)
  have rng: "check_range C tx (i, tx_RangeProofs tx ! i) () \<noteq> Inl VIndexPanic" if "i < length (tx_RangeProofs tx)" for i
    using that shape(3) by (auto simp: check_range_def at_index_def split: option.splits sum.splits if_splits)
  have vest: "check_vesting vl now (i, inp) () \<noteq> Inl VIndexPanic" for vl i and inp :: RingInput
    by (auto simp: check_vesting_def dest!: foldE_unit_error split: if_splits)
  have amt: "check_amounts C tx \<noteq> Inl VIndexPanic" by (auto simp: check_amounts_def split: sum.splits if_splits)
  have uns: "check_unspent K L s (i, inp) () \<noteq> Inl VIndexPanic" for s i inp by (simp add: check_unspent_def)
  show ?thesis
    unfolding verify_spend_def Let_def
    by (intro chain opt run dup sig rng vest uns amt check_binding_no_panic [OF shape(4)])
qed

text \<open>C38: Slice indices in the verifier.  For the transfer versions the structural check bounds every index the verifier uses, so no
  input makes it panic.  For a stake transaction it does not: the structural check returns before it
  looks at the inputs, and one input whose ring names an unspent output with its commitment and that comes without a signature
  reaches \<open>tx.Signatures[i]\<close> on an empty slice, a run-time panic in the place of an error.\<close>

theorem verifier_index_panics:
  "(tx_Version tx \<in> transfer_versions \<longrightarrow> VerifyTxAtHeight K J C L store now v tx height \<noteq> Inl VIndexPanic)
   \<and> (IsStake tx \<and> tx_Validate K J tx = Inr () \<and> tx_Inputs tx = [inp] \<and> tx_Signatures tx = [] \<and> height \<noteq> 0
      \<and> tv_utxos v = Some s \<and> tv_vestingLock v = None \<and> \<not> IsSpent K L s (in_KeyImage inp)
      \<and> m \<in> set (in_Ring inp) \<and> GetByPubKey s m = Some u \<and> u_AmountCommit u = in_AmountCommit inp
      \<longrightarrow> VerifyTxAtHeight K J C L store now v tx height = Inl VIndexPanic)"
proof (intro conjI impI)
  assume ver: "tx_Version tx \<in> transfer_versions"
  then have "\<not> IsLPoDPosition tx" by (auto simp: transfer_versions_def tx_kinds tx_versions)
  then show "VerifyTxAtHeight K J C L store now v tx height \<noteq> Inl VIndexPanic"
    using verify_spend_no_panic [OF ver, of K J C L store now v "{}" height]
    by (auto simp: VerifyTxAtHeight_def verifyTx_def split: sum.splits)
next
  assume a: "IsStake tx \<and> tx_Validate K J tx = Inr () \<and> tx_Inputs tx = [inp] \<and> tx_Signatures tx = [] \<and> height \<noteq> 0
      \<and> tv_utxos v = Some s \<and> tv_vestingLock v = None \<and> \<not> IsSpent K L s (in_KeyImage inp)
      \<and> m \<in> set (in_Ring inp) \<and> GetByPubKey s m = Some u \<and> u_AmountCommit u = in_AmountCommit inp"
  then have kind: "\<not> UsesCLSAG tx" "\<not> IsLPoDPosition tx" "tx_Version tx \<noteq> TxVersionCommitmentBinding" by (auto simp: tx_kinds tx_versions)
  have "check_binding store v s tx {} height (0, inp) () = Inr ()"
    unfolding check_binding_iff ring_on_chain_def using a kind by auto
  then have "verify_spend K C L store now v tx {} height = Inl VIndexPanic"
    using a kind by (simp add: verify_spend_def indexed_def Let_def check_duplicate_def check_unspent_def check_signature_def at_index_def)
  then show "VerifyTxAtHeight K J C L store now v tx height = Inl VIndexPanic"
    using a kind by (simp add: VerifyTxAtHeight_def verifyTx_def)
qed

definition demo_stake_spend :: Transaction where
  "demo_stake_spend = (empty_tx TxVersionStake)\<lparr>tx_Inputs := [demo_v4_input], tx_Extra := 1 # replicate 104 0\<rparr>"

theorem verifier_index_panics_witness:
  "VerifyTxAtHeight demo_lib no_json zl_curve mem_leveldb None 0 demo_verifier demo_stake_spend 1 = Inl VIndexPanic"
proof -
  have "tx_Validate demo_lib no_json demo_stake_spend = Inr ()"
    by (simp add: tx_Validate_stake demo_stake_spend_def empty_tx_def tx_kinds tx_versions validate_avm_part_def validate_stake_shape_def stake_sizes)
  moreover have "IsStake demo_stake_spend" "tx_Inputs demo_stake_spend = [demo_v4_input]" "tx_Signatures demo_stake_spend = []"
    by (simp_all add: demo_stake_spend_def empty_tx_def IsStake_def)
  moreover have "hd demo_ring \<in> set (in_Ring demo_v4_input)"
    unfolding demo_v4_fields by (rule hd_in_set) (simp add: demo_ring_def demo_keys_def)
  ultimately show ?thesis
    using verifier_index_panics [of demo_stake_spend demo_lib no_json zl_curve mem_leveldb None 0 demo_verifier 1 demo_v4_input
        "Add demo_owned (NewUTXOSetWithDB None)" "hd demo_ring" demo_owned]
    by (simp add: demo_v4_fields demo_verifier_def NewTxVerifier_def demo_unspent demo_lookup)
qed

subsection \<open>The vesting lock\<close>

lemma lock_alloc_run:
  assumes "foldE (lock_alloc K) allocs m = Inr m'"
  shows "m \<subseteq>\<^sub>m m'"
    and "alloc \<in> set allocs \<Longrightarrow> tracked_alloc alloc \<Longrightarrow> DecodeAddress K (ga_Address alloc) = Inr (net, pub, view) \<Longrightarrow> m' pub = Some alloc"
    and "m' pub = Some a \<Longrightarrow> m pub = Some a \<or> (a \<in> set allocs \<and> tracked_alloc a \<and> (\<exists>net view. DecodeAddress K (ga_Address a) = Inr (net, pub, view)))"
proof -
  have "m \<subseteq>\<^sub>m m'
      \<and> (\<forall>alloc \<in> set allocs. \<forall>net pub view. tracked_alloc alloc \<and> DecodeAddress K (ga_Address alloc) = Inr (net, pub, view) \<longrightarrow> m' pub = Some alloc)
      \<and> (\<forall>pub a. m' pub = Some a \<longrightarrow> m pub = Some a \<or> (a \<in> set allocs \<and> tracked_alloc a \<and> (\<exists>net view. DecodeAddress K (ga_Address a) = Inr (net, pub, view))))"
    using assms
  proof (induction allocs arbitrary: m)
    case (Cons x allocs)
    then obtain m1 where m1: "lock_alloc K x m = Inr m1" "foldE (lock_alloc K) allocs m1 = Inr m'" by (auto split: sum.splits)
    note ih = Cons.IH [OF m1(2)]
    consider (same) "m1 = m" "\<And>net pub view. \<not> (tracked_alloc x \<and> DecodeAddress K (ga_Address x) = Inr (net, pub, view))"
      | (new) net pub view where "tracked_alloc x" "DecodeAddress K (ga_Address x) = Inr (net, pub, view)" "m pub = None" "m1 = m(pub \<mapsto> x)"
      using m1(1) by (auto simp: lock_alloc_def split: if_splits sum.splits)
    then show ?case
    proof cases
      case same
      then show ?thesis using ih by auto
    next
      case new
      then have "m \<subseteq>\<^sub>m m1" "m1 pub = Some x" by (auto simp: map_le_def)
      moreover from ih have le: "m1 \<subseteq>\<^sub>m m'" by blast
      ultimately have m': "m \<subseteq>\<^sub>m m'" "m' pub = Some x" using map_le_trans by (blast, metis domI map_le_def)
      have "m p = Some a \<or> (a \<in> set (x # allocs) \<and> tracked_alloc a \<and> (\<exists>net view. DecodeAddress K (ga_Address a) = Inr (net, p, view)))"
        if "m' p = Some a" for p a
      proof (cases "p = pub")
        case True
        then show ?thesis using that m'(2) new by auto
      next
        case False
        then have "m1 p = m p" using new(4) by simp
        moreover have "m1 p = Some a \<or> (a \<in> set allocs \<and> tracked_alloc a \<and> (\<exists>net view. DecodeAddress K (ga_Address a) = Inr (net, p, view)))"
          using ih that by blast
        ultimately show ?thesis by auto
      qed
      moreover have "m' p = Some alloc" if "alloc \<in> set (x # allocs)" "tracked_alloc alloc" "DecodeAddress K (ga_Address alloc) = Inr (n, p, w)" for alloc n p w
        using that new m'(2) ih by auto
      ultimately show ?thesis using m'(1) by blast
    qed
  qed simp
  then show "m \<subseteq>\<^sub>m m'"
    "alloc \<in> set allocs \<Longrightarrow> tracked_alloc alloc \<Longrightarrow> DecodeAddress K (ga_Address alloc) = Inr (net, pub, view) \<Longrightarrow> m' pub = Some alloc"
    "m' pub = Some a \<Longrightarrow> m pub = Some a \<or> (a \<in> set allocs \<and> tracked_alloc a \<and> (\<exists>net view. DecodeAddress K (ga_Address a) = Inr (net, pub, view)))"
    by blast+
qed

text \<open>The vesting lock enforces the genesis schedule.  Once \<open>BuildVestingLock\<close> succeeds, the amount locked for the spend key of
  an allocation with a schedule is the one that schedule gives, for every time; every key that is locked belongs to such
  an allocation; and a transaction with the key of a still locked allocation in any of its rings is
  rejected by the verifier the lock is installed in.\<close>

theorem vesting_lock_enforced:
  assumes built: "BuildVestingLock K allocs genesisTime = Inr vl"
  shows "(\<forall>alloc \<in> set allocs. \<forall>net pub view. tracked_alloc alloc \<and> DecodeAddress K (ga_Address alloc) = Inr (net, pub, view)
            \<longrightarrow> lockedAt vl pub now = alloc_LockedAmount alloc now genesisTime)
       \<and> (\<forall>pub. lockedAt vl pub now \<noteq> 0 \<longrightarrow> (\<exists>alloc \<in> set allocs. tracked_alloc alloc \<and> (\<exists>net view. DecodeAddress K (ga_Address alloc) = Inr (net, pub, view))))
       \<and> (\<forall>inp \<in> set (tx_Inputs tx). \<forall>pub \<in> set (in_Ring inp). lockedAt vl pub now \<noteq> 0 \<and> \<not> IsLPoDPosition tx
            \<longrightarrow> VerifyTxAtHeight K J C L store now (SetVestingLock (Some vl) v) tx height \<noteq> Inr ())"
proof (intro conjI ballI allI impI)
  obtain m where m: "foldE (lock_alloc K) allocs Map.empty = Inr m" and vl: "vl = \<lparr>vl_allocs = m, vl_genesisTime = genesisTime\<rparr>"
    using built by (auto simp: BuildVestingLock_def split: sum.splits)
  note run = lock_alloc_run [OF m]
  fix pub
  show "lockedAt vl pub now = alloc_LockedAmount alloc now genesisTime"
    if "alloc \<in> set allocs" "tracked_alloc alloc \<and> DecodeAddress K (ga_Address alloc) = Inr (net, pub, view)" for alloc net view
    using run(2) that by (auto simp: lockedAt_def vl)
  show "\<exists>alloc \<in> set allocs. tracked_alloc alloc \<and> (\<exists>net view. DecodeAddress K (ga_Address alloc) = Inr (net, pub, view))"
    if "lockedAt vl pub now \<noteq> 0"
    using run(3) [of pub] that by (auto simp: lockedAt_def vl split: option.splits)
  show "VerifyTxAtHeight K J C L store now (SetVestingLock (Some vl) v) tx height \<noteq> Inr ()"
    if "inp \<in> set (tx_Inputs tx)" "pub \<in> set (in_Ring inp)" "lockedAt vl pub now \<noteq> 0 \<and> \<not> IsLPoDPosition tx" for inp
  proof
    assume "VerifyTxAtHeight K J C L store now (SetVestingLock (Some vl) v) tx height = Inr ()"
    moreover have "tx_Inputs tx \<noteq> []" using that(1) by auto
    ultimately have "spend_valid K C L store now (SetVestingLock (Some vl) v) tx {} height"
      using that(3) VerifyTxAtHeight_iff by blast
    then show False using that by (auto simp: spend_valid_def SetVestingLock_def)
  qed
qed

definition demo_alloc :: GenesisAlloc where
  "demo_alloc = \<lparr>ga_Address = EncodeAddress demo_lib MainnetByte 5 7, ga_Amount = 1000, ga_Vesting = Some team_schedule\<rparr>"

theorem vesting_lock_enforced_witness:
  "\<exists>vl. BuildVestingLock demo_lib [demo_alloc] 1000 = Inr vl \<and> lockedAt vl 5 1000 = alloc_LockedAmount demo_alloc 1000 1000
     \<and> alloc_LockedAmount demo_alloc 1000 1000 = 1000"
proof -
  have dec: "DecodeAddress demo_lib (ga_Address demo_alloc) = Inr (MainnetByte, 5, 7)"
    using address_decode_encode [of demo_lib MainnetByte 5 7] demo_base58 by (simp add: demo_alloc_def known_network_def)
  have "ga_Address demo_alloc \<noteq> ''''" using dec by (auto simp: DecodeAddress_def strip_prefix_def has_prefix_def)
  then have tr: "tracked_alloc demo_alloc" by (simp add: tracked_alloc_def demo_alloc_def team_schedule_def)
  have built: "BuildVestingLock demo_lib [demo_alloc] 1000 = Inr \<lparr>vl_allocs = [5 \<mapsto> demo_alloc], vl_genesisTime = 1000\<rparr>"
    using dec tr by (simp add: BuildVestingLock_def lock_alloc_def)
  have "alloc_LockedAmount demo_alloc 1000 1000 = 1000" by (simp add: alloc_LockedAmount_def demo_alloc_def) code_simp
  moreover have "lockedAt \<lparr>vl_allocs = [5 \<mapsto> demo_alloc], vl_genesisTime = 1000\<rparr> 5 1000 = alloc_LockedAmount demo_alloc 1000 1000"
    using vesting_lock_enforced [OF built, of 1000] dec tr by (metis list.set_intros(1))
  ultimately show ?thesis using built by blast
qed

subsection \<open>Blocks\<close>

lemma VerifyBlock_txs:
  assumes "VerifyBlock K J C L store now v (Some block) = Inr ()" and "i < length (blk_Txs block)" and "\<not> crypto_exempt (blk_Txs block ! i)"
  shows "verifyTx K J C L store (now i) v (blk_Txs block ! i) (blockStakeBurns v block) (bh_Height (blk_Header block)) = Inr ()"
proof -
  have "\<forall>p \<in> set (indexed (blk_Txs block)). (\<lambda>(i, tx) _. if crypto_exempt tx then Inr ()
        else case verifyTx K J C L store (now i) v tx (blockStakeBurns v block) (bh_Height (blk_Header block)) of
          Inl e \<Rightarrow> Inl (VBlockTx i e) | Inr _ \<Rightarrow> Inr ()) p () = Inr ()"
    using assms(1) by (simp add: VerifyBlock_def foldE_unit split: if_splits)
  from bspec [OF this, of "(i, blk_Txs block ! i)"] show ?thesis
    using assms(2,3) by (auto simp: set_indexed split: sum.splits)
qed

text \<open>C23: What a block the verifier accepts satisfies: the signature and the Merkle root are valid; unless it is the genesis
  block, its parent is known, the height follows the parent's, the timestamp is after the parent's and within the two drift bounds of
  the clock; the number of transactions and the size are within the limits; and every transaction with proofs passes
  the full check.  Once the collateral rule is active, no CLSAG ring of the block uses an output that is staked or that a
  version 2 or 3 deposit of the same block burns.  A version 4 deposit is not among them: its payload is not decoded.\<close>

theorem accepted_block_sound:
  assumes acc: "bv_VerifyBlock K J C L store now nows cfg chain (Some v) block = Inr ()" and utxos: "tv_utxos v = Some s"
  defines "h \<equiv> blk_Header block"
  shows "VerifySignature K h [] \<and> MerkleRoot K (blk_Txs block) = bh_MerkleRoot h
    \<and> int (length (blk_Txs block)) \<le> bv_MaxTxsPerBlock cfg \<and> int (block_Size block) \<le> bv_MaxBlockSize cfg
    \<and> (\<not> IsGenesis block \<longrightarrow> (\<exists>parent. GetByHash chain (bh_PrevHash h) = Some parent \<and> bh_Height (blk_Header parent) + 1 = bh_Height h
         \<and> sint (bh_Timestamp (blk_Header parent)) < sint (bh_Timestamp h) \<and> sint (bh_Timestamp h) \<le> now + bv_MaxBlockTime cfg
         \<and> (0 < bv_MaxPastDrift cfg \<longrightarrow> now - bv_MaxPastDrift cfg \<le> sint (bh_Timestamp h))))
    \<and> (\<forall>i < length (blk_Txs block). let tx = blk_Txs block ! i in
         \<not> crypto_exempt tx \<and> tx_Inputs tx \<noteq> [] \<and> \<not> IsLPoDPosition tx \<longrightarrow>
           spend_valid K C L store (nows i) v tx (blockStakeBurns v block) (bh_Height h)
           \<and> (0 < tv_stakedActivation v \<and> tv_stakedActivation v \<le> bh_Height h \<and> UsesCLSAG tx \<longrightarrow>
                (\<forall>inp \<in> set (tx_Inputs tx). \<forall>j < length (in_Ring inp). \<exists>utxo. GetRingMember store s (in_Ring inp ! j) = Some utxo
                   \<and> \<not> IsStaked s (u_TxHash utxo) (u_OutputIndex utxo) \<and> (\<forall>tx' \<in> set (blk_Txs block). utxo_key utxo \<notin> stake_burn tx'))))
    \<and> (\<forall>tx'. length (tx_Extra tx') = StakePayloadSizeV4 \<longrightarrow> stake_burn tx' = {})"
proof -
  have val: "block_Validate K J block [] = Inr ()" and cont: "check_continuity cfg chain now block = Inr ()"
    and lim: "int (length (blk_Txs block)) \<le> bv_MaxTxsPerBlock cfg" "int (block_Size block) \<le> bv_MaxBlockSize cfg"
    and vb: "VerifyBlock K J C L store nows v (Some block) = Inr ()"
    using acc by (auto simp: bv_VerifyBlock_def split: sum.splits if_splits)
  have struct: "VerifySignature K h []" "MerkleRoot K (blk_Txs block) = bh_MerkleRoot h"
    using val by (auto simp: block_Validate_def h_def Let_def split: if_splits)
  have time: "\<exists>parent. GetByHash chain (bh_PrevHash h) = Some parent \<and> bh_Height (blk_Header parent) + 1 = bh_Height h
         \<and> sint (bh_Timestamp (blk_Header parent)) < sint (bh_Timestamp h) \<and> sint (bh_Timestamp h) \<le> now + bv_MaxBlockTime cfg
         \<and> (0 < bv_MaxPastDrift cfg \<longrightarrow> now - bv_MaxPastDrift cfg \<le> sint (bh_Timestamp h))" if "\<not> IsGenesis block"
    using cont that by (auto simp: check_continuity_def h_def Let_def not_less split: option.splits if_splits)
  have spend: "spend_valid K C L store (nows i) v tx (blockStakeBurns v block) (bh_Height h)"
    if "i < length (blk_Txs block)" "tx = blk_Txs block ! i" "\<not> crypto_exempt tx" "tx_Inputs tx \<noteq> []" "\<not> IsLPoDPosition tx" for i tx
    using VerifyBlock_txs [OF vb that(1)] that verifyTx_iff unfolding h_def by blast
  have ring: "\<exists>utxo. GetRingMember store s (in_Ring inp ! j) = Some utxo
      \<and> \<not> IsStaked s (u_TxHash utxo) (u_OutputIndex utxo) \<and> (\<forall>tx' \<in> set (blk_Txs block). utxo_key utxo \<notin> stake_burn tx')"
    if "spend_valid K C L store t v tx (blockStakeBurns v block) (bh_Height h)" "0 < tv_stakedActivation v" "tv_stakedActivation v \<le> bh_Height h"
      "UsesCLSAG tx" "inp \<in> set (tx_Inputs tx)" "j < length (in_Ring inp)" for t tx inp j
    using that utxos by (fastforce simp: spend_valid_def ring_on_chain_def blockStakeBurns_def h_def)
  have v4: "stake_burn tx' = {}" if "length (tx_Extra tx') = StakePayloadSizeV4" for tx'
    using that by (simp add: stake_burn_def stake_sizes)
  show ?thesis unfolding Let_def
    by (intro conjI allI impI ballI struct lim time v4; (elim conjE)?; ((rule spend [OF _ refl] ring [OF spend [OF _ refl]]; assumption) | simp)?)
qed

lemma verifyTx_stake: "tx_Validate K J tx = Inr () \<Longrightarrow> IsStake tx \<Longrightarrow> tx_Inputs tx = [] \<Longrightarrow> verifyTx K J C L store now v tx burns height = Inr ()"
  by (simp add: verifyTx_def tx_kinds tx_versions)

definition demo_v4_header :: "RangeProof \<Rightarrow> MLSAGSignature \<Rightarrow> BlockHeader" where
  "demo_v4_header p sig = \<lparr>bh_Height = 1, bh_PrevHash = 0, bh_MerkleRoot = MerkleRoot demo_lib [demo_v4_tx p [Some sig]],
     bh_Timestamp = 2, bh_Round = 0, bh_ValidatorPub = [1], bh_OraclePrice = 0, bh_BaseFee = 0, bh_Signature = []\<rparr>"

definition demo_v4_block :: "RangeProof \<Rightarrow> MLSAGSignature \<Rightarrow> Block" where
  "demo_v4_block p sig = \<lparr>blk_Header = (demo_v4_header p sig)\<lparr>bh_Signature := arr_bytes (header_Hash demo_lib (demo_v4_header p sig)) @ make_buf 32\<rparr>,
     blk_Txs = [demo_v4_tx p [Some sig]]\<rparr>"

lemma header_Hash_unsigned: "header_Hash K (h\<lparr>bh_Signature := sig\<rparr>) = header_Hash K h"
  by (simp add: header_Hash_def header_bytes_def)

lemma demo_signed: "pub_Verify demo_lib k h (arr_bytes h @ make_buf 32)"
  by (simp add: pub_Verify_def demo_lib_def make_buf_def)

lemma demo_v4_block_fields:
  "blk_Txs (demo_v4_block p sig) = [demo_v4_tx p [Some sig]]" "bh_Height (blk_Header (demo_v4_block p sig)) = 1"
  "bh_PrevHash (blk_Header (demo_v4_block p sig)) = 0" "bh_Timestamp (blk_Header (demo_v4_block p sig)) = 2"
  "bh_MerkleRoot (blk_Header (demo_v4_block p sig)) = MerkleRoot demo_lib [demo_v4_tx p [Some sig]]"
  "bh_ValidatorPub (blk_Header (demo_v4_block p sig)) = [1]"
  by (simp_all add: demo_v4_block_def demo_v4_header_def)

lemma demo_v4_block_accepted:
  "\<exists>p sig. bv_VerifyBlock demo_lib no_json zl_curve mem_leveldb None 3 (\<lambda>_. 0) DefaultBlockVerifierConfig demo_chain (Some demo_verifier)
     (demo_v4_block p sig) = Inr ()"
proof -
  obtain p sig where acc: "VerifyTxAtHeight demo_lib no_json zl_curve mem_leveldb None 0 demo_verifier (demo_v4_tx p [Some sig]) 1 = Inr ()"
    using demo_v4_accepted by blast
  let ?tx = "demo_v4_tx p [Some sig]" and ?b = "demo_v4_block p sig"
  have kind: "tx_Inputs ?tx \<noteq> []" "\<not> IsLPoDPosition ?tx" "\<not> crypto_exempt ?tx" "\<not> IsStake ?tx"
    by (simp_all add: demo_v4_fields tx_kinds tx_versions crypto_exempt_def)
  have valid: "tx_Validate demo_lib no_json ?tx = Inr ()" using acc VerifyTxAtHeight_iff [OF kind(1,2)] by blast
  have "verifyTx demo_lib no_json zl_curve mem_leveldb None 0 demo_verifier ?tx {} 1 = Inr ()"
    using acc by (simp add: VerifyTxAtHeight_def split: if_splits)
  then have vb: "VerifyBlock demo_lib no_json zl_curve mem_leveldb None (\<lambda>_. 0) demo_verifier (Some ?b) = Inr ()"
    using kind(3) by (simp add: VerifyBlock_def demo_v4_block_fields indexed_def demo_verifier_def NewTxVerifier_def blockStakeBurns_def)
  have "VerifySignature demo_lib (blk_Header ?b) []"
    by (simp add: VerifySignature_def demo_v4_block_def Let_def header_Hash_unsigned demo_signed)
  then have "block_Validate demo_lib no_json ?b [] = Inr ()"
    using valid by (simp add: block_Validate_def demo_v4_block_fields Let_def)
  moreover have "check_continuity DefaultBlockVerifierConfig demo_chain 3 ?b = Inr ()"
    by (simp add: check_continuity_def demo_v4_block_fields Let_def IsGenesis_def GetByHash_def demo_chain_fields DefaultBlockVerifierConfig_def)
      (simp add: demo_block_def)
  moreover have "int (block_Size ?b) \<le> bv_MaxBlockSize DefaultBlockVerifierConfig" "int (length (blk_Txs ?b)) \<le> bv_MaxTxsPerBlock DefaultBlockVerifierConfig"
    by (simp_all add: block_Size_def demo_v4_block_fields DefaultBlockVerifierConfig_def)
      (simp add: tx_Size_def demo_v4_tx_def empty_tx_def UsesCLSAG_def tx_versions RingSize_def)
  ultimately have "bv_VerifyBlock demo_lib no_json zl_curve mem_leveldb None 3 (\<lambda>_. 0) DefaultBlockVerifierConfig demo_chain (Some demo_verifier) ?b = Inr ()"
    using vb by (simp add: bv_VerifyBlock_def not_less)
  then show ?thesis by blast
qed

theorem accepted_block_sound_witness:
  "\<exists>p sig. VerifySignature demo_lib (blk_Header (demo_v4_block p sig)) []
     \<and> spend_valid demo_lib zl_curve mem_leveldb None 0 demo_verifier (demo_v4_tx p [Some sig]) (blockStakeBurns demo_verifier (demo_v4_block p sig)) 1"
proof -
  obtain p sig where acc: "bv_VerifyBlock demo_lib no_json zl_curve mem_leveldb None 3 (\<lambda>_. 0) DefaultBlockVerifierConfig demo_chain
      (Some demo_verifier) (demo_v4_block p sig) = Inr ()"
    using demo_v4_block_accepted by blast
  have kind: "tx_Inputs (demo_v4_tx p [Some sig]) \<noteq> []" "\<not> IsLPoDPosition (demo_v4_tx p [Some sig])" "\<not> crypto_exempt (demo_v4_tx p [Some sig])"
    by (simp_all add: demo_v4_fields tx_kinds tx_versions crypto_exempt_def)
  have "tv_utxos demo_verifier = Some (Add demo_owned (NewUTXOSetWithDB None))" by (simp add: demo_verifier_def NewTxVerifier_def)
  from accepted_block_sound [OF acc this] show ?thesis using kind by (auto simp: Let_def demo_v4_block_fields)
qed

subsection \<open>Minting\<close>

lemma scalarMulBase_u64: "scalarMulBase C (ScalarFromUint64 n) = Inr (cv_bytes C (base_mul C (uint n)))"
  by (simp add: scalarMulBase_def ScalarFromUint64_value scalarFromUint64_def)

text \<open>A minted output belongs to the recipient and holds the amount: when the address carries the public key of \<open>x\<close>, its one-time key is
  the public key of \<open>x + height\<close>, its commitment opens to exactly the amount with the blinding factor anyone recomputes from the address,
  amount and height, the transaction passes the structural check as a coinbase, and the public transaction
  pipeline rejects it.\<close>

theorem mint_output_spendable:
  assumes ok: "curve_ok C" and mint: "BuildMintTx K C addr amount height = Inr tx"
    and addr: "DecodeAddress K addr = Inr (net, cv_bytes C (base_mul C x), view)"
  shows "(\<exists>out r. tx_Outputs tx = [out] \<and> out_OneTimePub out = cv_bytes C (base_mul C (x + uint height))
      \<and> ScalarFromBytes (if 0 < height then DeterministicMintBlindV2 C (cv_bytes C (base_mul C x)) amount height
           else DeterministicMintBlind C (cv_bytes C (base_mul C x)) amount) = Some r
      \<and> opens C [out_AmountCommit out] [(r, amount)])
    \<and> IsCoinbase tx \<and> tx_Validate K J tx = Inr () \<and> VerifyTxAtHeight K J C L store now v tx h \<noteq> Inr ()"
proof -
  let ?P = "cv_bytes C (base_mul C x)"
  let ?blind = "if 0 < height then DeterministicMintBlindV2 C ?P amount height else DeterministicMintBlind C ?P amount"
  obtain r where r: "ScalarFromBytes ?blind = Some r" using mint addr by (auto simp: BuildMintTx_def Commit_def Let_def split: if_splits option.splits)
  have add: "AddPoints C ?P (cv_bytes C (base_mul C (uint height))) = Inr (cv_bytes C (base_mul C (x + uint height)))"
    using ok by (simp add: AddPoints_def base_mul_def points.scale_left_distrib)
  have tx: "tx = (empty_tx TxVersionBase)\<lparr>tx_Outputs := [\<lparr>out_OneTimePub = cv_bytes C (base_mul C (x + uint height)), out_TxPubKey = 0,
      out_AmountCommit = cv_bytes C (pedersen C r (scalarFromUint64 amount)), out_EncAmount = 0\<rparr>]\<rparr>"
    using mint r unfolding BuildMintTx_def addr Let_def scalarMulBase_u64 by (simp add: Commit_def add split: if_splits)
  have cb: "IsCoinbase tx" by (simp add: tx empty_tx_def tx_kinds tx_versions)
  have "validate_transfer tx = Inr ()"
    using cb by (simp add: validate_transfer_def) (simp add: tx empty_tx_def validate_burn_def parseIntentionalBurnExtra_def intentionalBurnPrefix_def str_bytes_def)
  then have val: "tx_Validate K J tx = Inr ()"
    by (simp add: tx_Validate_transfer transfer_versions_def tx empty_tx_def validate_avm_part_def tx_kinds tx_versions)
  have "VerifyTxAtHeight K J C L store now v tx h \<noteq> Inr ()"
    by (simp add: VerifyTxAtHeight_def verifyTx_def val) (simp add: tx empty_tx_def tx_kinds tx_versions)
  then show ?thesis using r cb val by (auto simp: tx opens_def)
qed

theorem mint_output_spendable_witness:
  "\<exists>tx. BuildMintTx demo_lib zl_curve (EncodeAddress demo_lib MainnetByte (cv_bytes zl_curve (base_mul zl_curve 3)) 7) 500 12 = Inr tx
     \<and> (\<exists>out. tx_Outputs tx = [out] \<and> out_OneTimePub out = cv_bytes zl_curve (base_mul zl_curve 15))"
proof -
  let ?a = "EncodeAddress demo_lib MainnetByte (cv_bytes zl_curve (base_mul zl_curve 3)) 7"
  have dec: "DecodeAddress demo_lib ?a = Inr (MainnetByte, cv_bytes zl_curve (base_mul zl_curve 3), 7)"
    using address_decode_encode [of demo_lib MainnetByte _ 7] demo_base58 by (simp add: known_network_def)
  have "\<exists>tx. BuildMintTx demo_lib zl_curve ?a 500 12 = Inr tx"
    unfolding BuildMintTx_def dec
    by (simp add: Let_def Commit_def scalarMulBase_u64 AddPoints_def zl_curve_ok DeterministicMintBlindV2_def blind_of_def)
  then show ?thesis using mint_output_spendable [OF zl_curve_ok _ dec, of 500 12] by force
qed

end
