(* ===== verification/Coin_Selection.thy ===== *)
theory Coin_Selection
  imports Stealth Tx_Verifier
begin

text \<open>
  Coin selection and fee estimation of the wallet, \<open>core/tx_builder.go\<close>: the greedy choice of inputs that \<open>Build\<close> makes, the dry run
  for a given amount and the largest amount that can be sent.  The theorems state what the comments of the code require: the three stay in
  lockstep, and the largest amount is indeed the largest for which the selection succeeds.
\<close>

section \<open>Definitions\<close>

definition txOverheadBytes :: nat where "txOverheadBytes = 41"
definition txBytesPerInput :: nat where "txBytesPerInput = 2241"
definition txBytesPerOutput :: nat where "txBytesPerOutput = 779"
definition maxInputs :: nat where "maxInputs = 8"

definition txVersionUsesCLSAG :: "u8 \<Rightarrow> bool" where
  "txVersionUsesCLSAG version \<longleftrightarrow> version = TxVersionCLSAG \<or> version = TxVersionAVM"

definition txEstimatedSize :: "u8 \<Rightarrow> nat \<Rightarrow> nat \<Rightarrow> nat" where
  "txEstimatedSize version nInputs nOutputs =
     (let inputBytes = (if txVersionUsesCLSAG version then 576 + RingSize * 32 + 32 + 608 else txBytesPerInput)
      in txOverheadBytes + nInputs * inputBytes + nOutputs * txBytesPerOutput)"

definition txEstimateFeeVersion :: "u8 \<Rightarrow> nat \<Rightarrow> nat \<Rightarrow> u64 \<Rightarrow> u64" where
  "txEstimateFeeVersion version nInputs nOutputs feePerByte =
     word_of_nat (txEstimatedSize version nInputs nOutputs) * (if feePerByte = 0 then 1 else feePerByte)"

definition ExportedEstimateFee :: "nat \<Rightarrow> nat \<Rightarrow> u64 \<Rightarrow> u64" where
  "ExportedEstimateFee nInputs nOutputs feePerByte =
     word_of_nat (txOverheadBytes + nInputs * txBytesPerInput + nOutputs * txBytesPerOutput) * (if feePerByte = 0 then 1 else feePerByte)"

text \<open>The owned outputs, after \<open>sort.Slice\<close> by descending amount, without repeated one-time keys.\<close>

definition more_amount :: "OwnedUTXO \<Rightarrow> OwnedUTXO \<Rightarrow> bool" where
  "more_amount a b \<longleftrightarrow> ow_Amount b < ow_Amount a"

fun dedup_pubs :: "point32 set \<Rightarrow> OwnedUTXO list \<Rightarrow> OwnedUTXO list" where
  "dedup_pubs seen [] = []"
| "dedup_pubs seen (u # us) =
     (if u_OneTimePub (ow_UTXO u) \<in> seen then dedup_pubs seen us
      else u # dedup_pubs (insert (u_OneTimePub (ow_UTXO u)) seen) us)"

fun greedy_select :: "u64 \<Rightarrow> OwnedUTXO list \<Rightarrow> OwnedUTXO list \<Rightarrow> u64 \<Rightarrow> OwnedUTXO list \<times> u64" where
  "greedy_select needed [] selected totalIn = (selected, totalIn)"
| "greedy_select needed (u # us) selected totalIn =
     (if needed \<le> totalIn then (selected, totalIn)
      else let selected = selected @ [u]; totalIn = totalIn + ow_Amount u
      in if maxInputs \<le> length selected then (selected, totalIn) else greedy_select needed us selected totalIn)"

datatype select_error = FeeOverflow | AmountOverflow | InsufficientFunds

text \<open>A fee estimate with its overflow check, and the amount with the fee.\<close>

definition checked_need :: "u64 \<Rightarrow> nat \<Rightarrow> u64 \<Rightarrow> u64 \<Rightarrow> select_error + u64 \<times> u64" where
  "checked_need feePerByte nbytes gasFee amount =
     (if (max_u64 - gasFee) div feePerByte < word_of_nat nbytes then Inl FeeOverflow
      else let fee = word_of_nat nbytes * feePerByte + gasFee in
      if max_u64 - fee < amount then Inl AmountOverflow else Inr (fee, amount + fee))"

text \<open>The selection of \<open>Build\<close>: the selected outputs, their total and the fee; \<open>extraBytes\<close> is the burn marker and the contract payload.\<close>

definition select_coins :: "u8 \<Rightarrow> u64 \<Rightarrow> bool \<Rightarrow> nat \<Rightarrow> u64 \<Rightarrow> u64 \<Rightarrow> OwnedUTXO list \<Rightarrow> select_error + OwnedUTXO list \<times> u64 \<times> u64" where
  "select_coins version feePerByte isBurn extraBytes gasFee amount available =
     (let outs = (if isBurn then 1 else 2) in
      case checked_need feePerByte (txEstimatedSize version 1 outs + extraBytes) gasFee amount of Inl e \<Rightarrow> Inl e | Inr (_, needed) \<Rightarrow>
      case greedy_select needed available [] 0 of (selected, totalIn) \<Rightarrow>
      case checked_need feePerByte (txEstimatedSize version (length selected) outs + extraBytes) gasFee amount of Inl e \<Rightarrow> Inl e | Inr (fee, needed) \<Rightarrow>
      if totalIn < needed then Inl InsufficientFunds else Inr (selected, totalIn, fee))"

fun greedy_count :: "u64 \<Rightarrow> OwnedUTXO list \<Rightarrow> nat \<Rightarrow> u64 \<Rightarrow> nat \<times> u64" where
  "greedy_count needed [] cnt totalIn = (cnt, totalIn)"
| "greedy_count needed (u # us) cnt totalIn =
     (if needed \<le> totalIn then (cnt, totalIn)
      else let cnt = cnt + 1; totalIn = totalIn + ow_Amount u
      in if maxInputs \<le> cnt then (cnt, totalIn) else greedy_count needed us cnt totalIn)"

definition simulateGreedySelection :: "OwnedUTXO list \<Rightarrow> u64 \<Rightarrow> u64 \<Rightarrow> u8 \<Rightarrow> nat \<times> u64" where
  "simulateGreedySelection available amount feePerByte version =
     (let fee = txEstimateFeeVersion version 1 2 feePerByte
      in if max_u64 - fee < amount then (0, 0) else greedy_count (amount + fee) available 0 0)"

record FeeEstimateResult =
  fe_Fee :: u64
  fe_InputCount :: nat
  fe_TxSizeBytes :: nat
  fe_Sufficient :: bool
  fe_SpendableTotal :: u64
  fe_UTXOCount :: nat

text \<open>The dry runs, on the sorted outputs \<open>ranked\<close>.\<close>

definition EstimateFeeForAmount :: "u8 \<Rightarrow> u64 \<Rightarrow> OwnedUTXO list \<Rightarrow> u64 \<Rightarrow> FeeEstimateResult" where
  "EstimateFeeForAmount version feePerByte ranked amount =
     (let available = dedup_pubs {} ranked;
          (cnt, total) = simulateGreedySelection available amount feePerByte version;
          cnt = (if cnt < 1 then 1 else cnt);
          fee = txEstimateFeeVersion version cnt 2 feePerByte
      in \<lparr>fe_Fee = fee, fe_InputCount = cnt, fe_TxSizeBytes = txEstimatedSize version cnt 2,
          fe_Sufficient = (amount \<le> max_u64 - fee \<and> amount + fee \<le> total), fe_SpendableTotal = sum_list (map ow_Amount available),
          fe_UTXOCount = length available\<rparr>)"

record MaxSpendableResult =
  ms_MaxAmount :: u64
  ms_Fee :: u64
  ms_InputCount :: nat
  ms_SpendableTotal :: u64
  ms_UTXOCount :: nat

definition prefix_sum :: "OwnedUTXO list \<Rightarrow> nat \<Rightarrow> u64" where
  "prefix_sum available k = sum_list (map ow_Amount (take k available))"

definition try_candidate :: "u8 \<Rightarrow> u64 \<Rightarrow> OwnedUTXO list \<Rightarrow> MaxSpendableResult \<Rightarrow> nat \<Rightarrow> MaxSpendableResult" where
  "try_candidate version feePerByte available res k =
     (let fee = txEstimateFeeVersion version k 2 feePerByte; sum = prefix_sum available k in
      if sum \<le> fee then res
      else let amount = sum - fee; (selCount, selTotal) = simulateGreedySelection available amount feePerByte version;
               finalFee = txEstimateFeeVersion version selCount 2 feePerByte
      in if amount + finalFee \<le> selTotal \<and> ms_MaxAmount res < amount
         then res\<lparr>ms_MaxAmount := amount, ms_Fee := finalFee, ms_InputCount := selCount\<rparr> else res)"

definition MaxSpendable :: "u8 \<Rightarrow> u64 \<Rightarrow> OwnedUTXO list \<Rightarrow> MaxSpendableResult" where
  "MaxSpendable version feePerByte ranked =
     (let available = dedup_pubs {} ranked;
          res = \<lparr>ms_MaxAmount = 0, ms_Fee = 0, ms_InputCount = 0, ms_SpendableTotal = sum_list (map ow_Amount available), ms_UTXOCount = length available\<rparr>
      in if available = [] then res
         else foldl (try_candidate version feePerByte available) res [1..<min (length available) maxInputs + 1])"

section \<open>Greedy selection\<close>

lemma dedup_pubs_set: "set (dedup_pubs seen us) \<subseteq> set us" "u \<in> set (dedup_pubs seen us) \<Longrightarrow> u_OneTimePub (ow_UTXO u) \<notin> seen"
proof -
  show "set (dedup_pubs seen us) \<subseteq> set us" by (induction us arbitrary: seen) (simp_all add: subset_insertI2)
  show "u \<in> set (dedup_pubs seen us) \<Longrightarrow> u_OneTimePub (ow_UTXO u) \<notin> seen"
    by (induction us arbitrary: seen) (auto split: if_splits)
qed

lemma dedup_pubs_distinct: "distinct (map (\<lambda>u. u_OneTimePub (ow_UTXO u)) (dedup_pubs seen us))"
proof (induction us arbitrary: seen)
  case (Cons u us)
  have "u_OneTimePub (ow_UTXO u) \<notin> (\<lambda>u. u_OneTimePub (ow_UTXO u)) ` set (dedup_pubs (insert (u_OneTimePub (ow_UTXO u)) seen) us)"
    by (auto dest: dedup_pubs_set(2))
  then show ?case using Cons.IH by simp
qed simp

lemma greedy_count_select: "greedy_count needed us (length sel) tot = map_prod length id (greedy_select needed us sel tot)"
proof (induction us arbitrary: sel tot)
  case (Cons u us)
  show ?case using Cons.IH [of "sel @ [u]" "tot + ow_Amount u"] by (simp add: Let_def)
qed simp

text \<open>The number of inputs chosen is the least that covers the need, or as many as there are, up to eight.\<close>

lemma greedy_select_prefix:
  assumes "length sel < maxInputs"
  shows "\<exists>j \<le> length us. greedy_select needed us sel tot = (sel @ take j us, tot + prefix_sum us j) \<and> length sel + j \<le> maxInputs
    \<and> (\<forall>i < j. tot + prefix_sum us i < needed) \<and> (needed \<le> tot + prefix_sum us j \<or> j = length us \<or> length sel + j = maxInputs)"
  using assms
proof (induction us arbitrary: sel tot)
  case Nil
  then show ?case by (simp add: prefix_sum_def)
next
  case (Cons u us)
  show ?case
  proof (cases "needed \<le> tot \<or> maxInputs \<le> Suc (length sel)")
    case True
    then show ?thesis
    proof (cases "needed \<le> tot")
      case True
      then show ?thesis using Cons.prems by (intro exI [of _ 0]) (simp add: prefix_sum_def)
    next
      case False
      then show ?thesis using \<open>needed \<le> tot \<or> maxInputs \<le> Suc (length sel)\<close> Cons.prems
        by (intro exI [of _ 1]) (simp add: prefix_sum_def Let_def)
    qed
  next
    case False
    then have "length (sel @ [u]) < maxInputs" by simp
    from Cons.IH [OF this, of "tot + ow_Amount u"] obtain j where j: "j \<le> length us"
      "greedy_select needed us (sel @ [u]) (tot + ow_Amount u) = ((sel @ [u]) @ take j us, tot + ow_Amount u + prefix_sum us j)"
      "length (sel @ [u]) + j \<le> maxInputs" "\<forall>i < j. tot + ow_Amount u + prefix_sum us i < needed"
      "needed \<le> tot + ow_Amount u + prefix_sum us j \<or> j = length us \<or> length (sel @ [u]) + j = maxInputs" by blast
    have ps: "prefix_sum (u # us) (Suc i) = ow_Amount u + prefix_sum us i" "prefix_sum (u # us) 0 = 0" for i by (simp_all add: prefix_sum_def)
    have "\<forall>i < Suc j. tot + prefix_sum (u # us) i < needed"
      using j(4) False ps by (auto simp: less_Suc_eq_0_disj add.assoc)
    then show ?thesis using j False ps by (intro exI [of _ "Suc j"]) (simp add: Let_def add.assoc)
  qed
qed

lemma greedy_from_empty:
  obtains j where "greedy_select needed us [] 0 = (take j us, prefix_sum us j)" "j \<le> min (length us) maxInputs"
    "\<forall>i < j. prefix_sum us i < needed" "needed \<le> prefix_sum us j \<or> j = min (length us) maxInputs"
proof -
  obtain j where "j \<le> length us" "greedy_select needed us [] 0 = ([] @ take j us, 0 + prefix_sum us j)" "length [] + j \<le> maxInputs"
    "\<forall>i < j. 0 + prefix_sum us i < needed" "needed \<le> 0 + prefix_sum us j \<or> j = length us \<or> length [] + j = maxInputs"
    using greedy_select_prefix [of "[]" us needed 0] by (auto simp: maxInputs_def)
  then show ?thesis using that [of j] by auto
qed

section \<open>Fees\<close>

text \<open>The fee rate is set and the largest fee that the selection considers fits.\<close>

definition fees_fit :: "u8 \<Rightarrow> u64 \<Rightarrow> bool" where
  "fees_fit version feePerByte \<longleftrightarrow> feePerByte \<noteq> 0 \<and> txEstimatedSize version maxInputs 2 * unat feePerByte < 2 ^ 64"

lemma txEstimatedSize_mono: "i \<le> j \<Longrightarrow> txEstimatedSize version i n \<le> txEstimatedSize version j n"
  by (simp add: txEstimatedSize_def Let_def)

lemma fee_fits:
  assumes fit: "fees_fit version feePerByte" and k: "k \<le> maxInputs"
  shows "unat (txEstimateFeeVersion version k 2 feePerByte) = txEstimatedSize version k 2 * unat feePerByte"
    "checked_need feePerByte (txEstimatedSize version k 2) 0 amount
       = (let fee = txEstimateFeeVersion version k 2 feePerByte in if max_u64 - fee < amount then Inl AmountOverflow else Inr (fee, amount + fee))"
proof -
  let ?s = "txEstimatedSize version k 2"
  have pos: "feePerByte \<noteq> 0" "0 < unat feePerByte" using fit by (auto simp: fees_fit_def word_unat_eq_iff)
  have "?s * unat feePerByte \<le> txEstimatedSize version maxInputs 2 * unat feePerByte" using txEstimatedSize_mono [OF k] by simp
  then have prod: "?s * unat feePerByte < 2 ^ 64" using fit unfolding fees_fit_def by linarith
  have "?s \<le> ?s * unat feePerByte" using pos(2) by simp
  then have s: "?s < 2 ^ 64" using prod by linarith
  have un: "unat (word_of_nat ?s :: u64) = ?s" using s by (simp add: unat_of_nat take_bit_nat_eq_self)
  show "unat (txEstimateFeeVersion version k 2 feePerByte) = ?s * unat feePerByte"
    using prod pos(1) un by (simp add: txEstimateFeeVersion_def unat_word_ariths)
  have "?s \<le> (2 ^ 64 - 1) div unat feePerByte" using prod pos(2) by (simp add: less_eq_div_iff_mult_less_eq)
  then have "\<not> max_u64 div feePerByte < word_of_nat ?s" using un by (simp add: word_less_nat_alt unat_div unat_max_u64 not_less)
  then show "checked_need feePerByte ?s 0 amount
       = (let fee = txEstimateFeeVersion version k 2 feePerByte in if max_u64 - fee < amount then Inl AmountOverflow else Inr (fee, amount + fee))"
    using pos(1) by (simp add: checked_need_def txEstimateFeeVersion_def)
qed

text \<open>The selection of \<open>Build\<close> for a plain payment, in terms of the dry run.\<close>

lemma select_coins_payment:
  assumes fit: "fees_fit version feePerByte"
  obtains sel tot where "greedy_select (amount + txEstimateFeeVersion version 1 2 feePerByte) available [] 0 = (sel, tot)"
    "length sel \<le> maxInputs"
    "select_coins version feePerByte False 0 0 amount available
       = (let fee = txEstimateFeeVersion version (length sel) 2 feePerByte in
          if max_u64 - txEstimateFeeVersion version 1 2 feePerByte < amount \<or> max_u64 - fee < amount then Inl AmountOverflow
          else if tot < amount + fee then Inl InsufficientFunds else Inr (sel, tot, fee))"
proof -
  let ?f1 = "txEstimateFeeVersion version 1 2 feePerByte"
  obtain j where j: "greedy_select (amount + ?f1) available [] 0 = (take j available, prefix_sum available j)" "j \<le> min (length available) maxInputs"
    using greedy_from_empty [of "amount + ?f1" available] by metis
  have len: "length (take j available) \<le> maxInputs" using j(2) by simp
  note f = fee_fits(2) [OF fit, of 1 amount] fee_fits(2) [OF fit len, of amount]
  have "select_coins version feePerByte False 0 0 amount available
       = (let fee = txEstimateFeeVersion version (length (take j available)) 2 feePerByte in
          if max_u64 - ?f1 < amount \<or> max_u64 - fee < amount then Inl AmountOverflow
          else if prefix_sum available j < amount + fee then Inl InsufficientFunds else Inr (take j available, prefix_sum available j, fee))"
    using f j(1) by (simp add: select_coins_def Let_def maxInputs_def)
  then show ?thesis using that j(1) len by blast
qed

lemma simulate_select:
  assumes "greedy_select (amount + txEstimateFeeVersion version 1 2 feePerByte) available [] 0 = (sel, tot)"
    and "\<not> max_u64 - txEstimateFeeVersion version 1 2 feePerByte < amount"
  shows "simulateGreedySelection available amount feePerByte version = (length sel, tot)"
  using assms greedy_count_select [of "amount + txEstimateFeeVersion version 1 2 feePerByte" available "[]" 0]
  by (simp add: simulateGreedySelection_def)

lemma no_overflow: "\<not> max_u64 - f < a \<longleftrightarrow> unat a + unat f < 2 ^ 64"
  by (auto simp: u64_overflow_iff)

lemma fee_mono:
  assumes "fees_fit version feePerByte" and "i \<le> j" and "j \<le> maxInputs"
  shows "txEstimateFeeVersion version i 2 feePerByte \<le> txEstimateFeeVersion version j 2 feePerByte"
  using fee_fits(1) [OF assms(1), of i] fee_fits(1) [OF assms(1,3)] assms(2,3) txEstimatedSize_mono [OF assms(2), of version 2]
  by (simp add: word_le_nat_alt)

section \<open>Properties\<close>

text \<open>The fee estimate is in lockstep with \<open>Build\<close>: for a plain payment of a positive amount, the dry run says that the funds suffice exactly
  when the selection of \<open>Build\<close> succeeds on the same outputs, and then \<open>Build\<close> charges the estimated fee and uses the estimated number of
  inputs.  The fee rate is one for which the largest fee considered fits in 64 bits; amounts may be any.\<close>

theorem estimate_matches_build:
  assumes fit: "fees_fit version feePerByte" and amount: "amount \<noteq> 0"
  shows "(fe_Sufficient (EstimateFeeForAmount version feePerByte ranked amount)
           \<longleftrightarrow> is_ok (select_coins version feePerByte False 0 0 amount (dedup_pubs {} ranked)))
    \<and> (\<forall>sel tot fee. select_coins version feePerByte False 0 0 amount (dedup_pubs {} ranked) = Inr (sel, tot, fee) \<longrightarrow>
         fee = fe_Fee (EstimateFeeForAmount version feePerByte ranked amount)
         \<and> length sel = fe_InputCount (EstimateFeeForAmount version feePerByte ranked amount))"
proof -
  let ?av = "dedup_pubs {} ranked" and ?f = "\<lambda>k. txEstimateFeeVersion version k 2 feePerByte"
  let ?E = "EstimateFeeForAmount version feePerByte ranked amount"
  obtain sel tot where g: "greedy_select (amount + ?f 1) ?av [] 0 = (sel, tot)" and len: "length sel \<le> maxInputs"
    and run: "select_coins version feePerByte False 0 0 amount ?av = (let fee = ?f (length sel) in
          if max_u64 - ?f 1 < amount \<or> max_u64 - fee < amount then Inl AmountOverflow
          else if tot < amount + fee then Inl InsufficientFunds else Inr (sel, tot, fee))"
    using select_coins_payment [OF fit] by metis
  show ?thesis
  proof (cases "max_u64 - ?f 1 < amount")
    case True
    then have "simulateGreedySelection ?av amount feePerByte version = (0, 0)" by (simp add: simulateGreedySelection_def)
    then have "\<not> fe_Sufficient ?E" using True by (simp add: EstimateFeeForAmount_def Let_def not_le)
    then show ?thesis using run True by simp
  next
    case False
    have sim: "simulateGreedySelection ?av amount feePerByte version = (length sel, tot)" by (rule simulate_select [OF g False])
    show ?thesis
    proof (cases "sel = []")
      case True
      then have "tot = 0"
        using greedy_from_empty [of "amount + ?f 1" ?av] g by (metis (no_types, lifting) Pair_inject list.simps(8) prefix_sum_def sum_list.Nil)
      have "0 < amount + ?f k" if "\<not> max_u64 - ?f k < amount" for k
      proof -
        have "unat (amount + ?f k) = unat amount + unat (?f k)" using that unfolding no_overflow by (rule unat_add_u64)
        then show ?thesis using amount by (simp add: u64_as_nat)
      qed
      from this [of "length sel"] this [OF False]
      have "tot < amount + ?f (length sel) \<or> max_u64 - ?f (length sel) < amount" "\<not> amount + ?f 1 \<le> tot"
        unfolding \<open>tot = 0\<close> by (auto simp only: not_le)
      then show ?thesis using run sim True False by (auto simp: EstimateFeeForAmount_def Let_def not_le)
    next
      case ne: False
      then have "(if length sel < 1 then 1 else length sel) = length sel" by (cases sel) auto
      then have E: "fe_Fee ?E = ?f (length sel)" "fe_InputCount ?E = length sel"
        "fe_Sufficient ?E \<longleftrightarrow> amount \<le> max_u64 - ?f (length sel) \<and> amount + ?f (length sel) \<le> tot"
        by (simp_all add: EstimateFeeForAmount_def Let_def sim)
      show ?thesis unfolding E using run False by (auto simp: Let_def not_less)
    qed
  qed
qed

text \<open>A builder with two outputs of 60000 and 50000 at one unit per byte.\<close>

definition demo_coin :: "u64 \<Rightarrow> OwnedUTXO" where
  "demo_coin a = \<lparr>ow_UTXO = \<lparr>u_TxHash = 1, u_OutputIndex = 0, u_OneTimePub = ucast a, u_TxPubKey = 0, u_AmountCommit = 0, u_EncAmount = 0,
     u_BlockHeight = 1, u_ProtocolLocked = False\<rparr>, ow_HsScalar = 0, ow_Amount = a, ow_Blind = 0\<rparr>"

lemma demo_coins_fit: "fees_fit TxVersionCommitmentBinding 1"
  by (simp add: fees_fit_def txEstimatedSize_def txVersionUsesCLSAG_def tx_versions maxInputs_def txOverheadBytes_def txBytesPerInput_def txBytesPerOutput_def)

lemma demo_coins_dedup: "dedup_pubs {} [demo_coin 60000, demo_coin 50000] = [demo_coin 60000, demo_coin 50000]"
  by (simp add: demo_coin_def)

lemma demo_selects: "is_ok (select_coins TxVersionCommitmentBinding 1 False 0 0 100000 [demo_coin 60000, demo_coin 50000])"
  by (simp add: select_coins_def checked_need_def txEstimatedSize_def txVersionUsesCLSAG_def tx_versions maxInputs_def
        txOverheadBytes_def txBytesPerInput_def txBytesPerOutput_def max_u64_def Let_def) (simp add: demo_coin_def)

theorem estimate_matches_build_witness:
  "fe_Sufficient (EstimateFeeForAmount TxVersionCommitmentBinding 1 [demo_coin 60000, demo_coin 50000] 100000)
   \<and> is_ok (select_coins TxVersionCommitmentBinding 1 False 0 0 100000 [demo_coin 60000, demo_coin 50000])"
proof -
  have "fe_Sufficient (EstimateFeeForAmount TxVersionCommitmentBinding 1 [demo_coin 60000, demo_coin 50000] 100000)"
    unfolding EstimateFeeForAmount_def demo_coins_dedup
    by (simp add: simulateGreedySelection_def txEstimateFeeVersion_def txEstimatedSize_def txVersionUsesCLSAG_def tx_versions maxInputs_def
        txOverheadBytes_def txBytesPerInput_def txBytesPerOutput_def max_u64_def) (simp add: demo_coin_def)
  then show ?thesis
    using estimate_matches_build [OF demo_coins_fit, of 100000 "[demo_coin 60000, demo_coin 50000]"] unfolding demo_coins_dedup by simp
qed

subsection \<open>The largest amount\<close>

text \<open>Prefix sums as numbers, when the outputs together fit in 64 bits.\<close>

definition coins_fit :: "OwnedUTXO list \<Rightarrow> bool" where
  "coins_fit us \<longleftrightarrow> sum_list (map (unat \<circ> ow_Amount) us) < 2 ^ 64"

lemma prefix_sum_nat:
  assumes "coins_fit us"
  shows "unat (prefix_sum us k) = sum_list (map (unat \<circ> ow_Amount) (take k us))"
proof -
  have bound: "sum_list (map (unat \<circ> ow_Amount) (take k us)) < 2 ^ 64"
  proof -
    have "sum_list (map (unat \<circ> ow_Amount) (take k us)) \<le> sum_list (map (unat \<circ> ow_Amount) (take k us @ drop k us))" by (simp only: map_append sum_list_append)
    then show ?thesis using assms unfolding coins_fit_def append_take_drop_id by linarith
  qed
  have "sum_list (map (unat \<circ> ow_Amount) xs) < 2 ^ 64 \<Longrightarrow> unat (sum_list (map ow_Amount xs)) = sum_list (map (unat \<circ> ow_Amount) xs)" for xs
    by (induction xs) (simp_all add: unat_add_u64)
  from this [OF bound] show ?thesis by (simp add: prefix_sum_def)
qed

lemma prefix_sum_mono:
  assumes "coins_fit us" and "i \<le> j"
  shows "prefix_sum us i \<le> prefix_sum us j"
proof -
  have "take j us = take i us @ take (j - i) (drop i us)" using assms(2) by (metis le_add_diff_inverse take_add)
  then show ?thesis unfolding word_le_nat_alt prefix_sum_nat [OF assms(1)] by simp
qed

text \<open>What a candidate that passes is: an amount for which \<open>Build\<close> selects coins, with that fee and count.\<close>

definition sends :: "u8 \<Rightarrow> u64 \<Rightarrow> OwnedUTXO list \<Rightarrow> u64 \<Rightarrow> u64 \<Rightarrow> nat \<Rightarrow> bool" where
  "sends version feePerByte available amount fee cnt \<longleftrightarrow>
     (\<exists>sel tot. select_coins version feePerByte False 0 0 amount available = Inr (sel, tot, fee) \<and> length sel = cnt)"

lemma sends_iff:
  assumes fit: "fees_fit version feePerByte" and coins: "coins_fit available" and amount: "amount \<noteq> 0"
  shows "sends version feePerByte available amount fee j \<longleftrightarrow> fee = txEstimateFeeVersion version j 2 feePerByte \<and> 1 \<le> j
    \<and> j \<le> min (length available) maxInputs \<and> unat amount + unat fee \<le> unat (prefix_sum available j)
    \<and> (\<forall>i < j. unat (prefix_sum available i) < unat amount + unat (txEstimateFeeVersion version 1 2 feePerByte))"
    (is "?L = ?R")
proof -
  let ?f = "\<lambda>k. txEstimateFeeVersion version k 2 feePerByte" and ?P = "prefix_sum available"
  obtain sel tot where g: "greedy_select (amount + ?f 1) available [] 0 = (sel, tot)"
    and run: "select_coins version feePerByte False 0 0 amount available = (let fee = ?f (length sel) in
          if max_u64 - ?f 1 < amount \<or> max_u64 - fee < amount then Inl AmountOverflow
          else if tot < amount + fee then Inl InsufficientFunds else Inr (sel, tot, fee))"
    using select_coins_payment [OF fit] by metis
  obtain m where m: "sel = take m available" "tot = ?P m" "m \<le> min (length available) maxInputs" "\<forall>i < m. ?P i < amount + ?f 1"
    "amount + ?f 1 \<le> ?P m \<or> m = min (length available) maxInputs"
    using greedy_from_empty [of "amount + ?f 1" available] g by (metis Pair_inject)
  have len: "length sel = m" using m by simp
  have P0: "?P 0 = 0" by (simp add: prefix_sum_def)
  have L: "?L \<longleftrightarrow> m = j \<and> fee = ?f m \<and> unat amount + unat (?f 1) < 2 ^ 64 \<and> unat amount + unat (?f m) < 2 ^ 64 \<and> amount + ?f m \<le> ?P m"
    unfolding no_overflow [symmetric] sends_def run Let_def len using m(1-3) by (auto simp: not_less)
  show ?thesis
  proof
    assume ?L
    then have l: "m = j" "fee = ?f m" "unat amount + unat (?f 1) < 2 ^ 64" "unat amount + unat (?f m) < 2 ^ 64" "amount + ?f m \<le> ?P m" using L by blast+
    have "unat (amount + ?f 1) = unat amount + unat (?f 1)" "unat (amount + ?f m) = unat amount + unat (?f m)" using l by (simp_all add: unat_add_u64)
    moreover have "1 \<le> m"
    proof (rule ccontr)
      assume "\<not> 1 \<le> m"
      then have "?P m = 0" using P0 by (cases m) auto
      then have "unat (amount + ?f m) = 0" using l(5) by (simp add: word_le_nat_alt)
      then show False using amount \<open>unat (amount + ?f m) = unat amount + unat (?f m)\<close> by (simp add: word_unat_eq_iff)
    qed
    ultimately show ?R using l m(3,4) by (auto simp: word_le_nat_alt word_less_nat_alt)
  next
    assume r: ?R
    have j: "j \<le> maxInputs" using r by simp
    have "?f 1 \<le> ?f j" using fee_mono [OF fit _ j, of 1] r by simp
    then have le: "unat (?f 1) \<le> unat (?f j)" by (simp add: word_le_nat_alt)
    have Pj: "unat amount + unat (?f j) \<le> unat (?P j)" using r by auto
    have small: "unat amount + unat (?f 1) < 2 ^ 64" "unat amount + unat (?f j) < 2 ^ 64" using Pj le unat_u64_lt [of "?P j"] by linarith+
    have un: "unat (amount + ?f 1) = unat amount + unat (?f 1)" "unat (amount + ?f j) = unat amount + unat (?f j)" using small by (simp_all add: unat_add_u64)
    have "m = j"
    proof (rule ccontr)
      assume "m \<noteq> j"
      then consider "m < j" | "j < m" by linarith
      then show False
      proof cases
        assume "m < j"
        then have "m \<noteq> min (length available) maxInputs" using r by linarith
        then have "amount + ?f 1 \<le> ?P m" using m(5) by blast
        then show False using r \<open>m < j\<close> un(1) by (auto simp: word_le_nat_alt)
      next
        assume "j < m"
        then have "?P j < amount + ?f 1" using m(4) by blast
        then show False using Pj le un(1) by (simp add: word_less_nat_alt)
      qed
    qed
    then show ?L unfolding L using r small un Pj by (simp add: word_le_nat_alt)
  qed
qed

text \<open>The loop over the candidates keeps a passing one that is at least as large as every passing one.\<close>

definition candidate_ok :: "u8 \<Rightarrow> u64 \<Rightarrow> OwnedUTXO list \<Rightarrow> nat \<Rightarrow> u64 \<Rightarrow> u64 \<Rightarrow> nat \<Rightarrow> bool" where
  "candidate_ok version feePerByte available k amount fee cnt \<longleftrightarrow>
     (let f = txEstimateFeeVersion version k 2 feePerByte in
      f < prefix_sum available k \<and> amount = prefix_sum available k - f
      \<and> (\<exists>tot. simulateGreedySelection available amount feePerByte version = (cnt, tot) \<and> fee = txEstimateFeeVersion version cnt 2 feePerByte
            \<and> amount + fee \<le> tot))"

lemma try_candidate_cases:
  "(\<exists>amount fee cnt. candidate_ok version feePerByte available k amount fee cnt \<and> ms_MaxAmount res < amount
      \<and> try_candidate version feePerByte available res k = res\<lparr>ms_MaxAmount := amount, ms_Fee := fee, ms_InputCount := cnt\<rparr>)
   \<or> (try_candidate version feePerByte available res k = res
      \<and> (\<forall>amount fee cnt. candidate_ok version feePerByte available k amount fee cnt \<longrightarrow> amount \<le> ms_MaxAmount res))"
  by (auto simp: try_candidate_def candidate_ok_def Let_def not_less split: prod.splits)

lemma candidates_fold:
  assumes "ms_MaxAmount res = 0 \<or> (\<exists>k \<in> A. candidate_ok version feePerByte available k (ms_MaxAmount res) (ms_Fee res) (ms_InputCount res))"
    and "set ks \<subseteq> A"
  shows "let r = foldl (try_candidate version feePerByte available) res ks in
    (ms_MaxAmount r = 0 \<or> (\<exists>k \<in> A. candidate_ok version feePerByte available k (ms_MaxAmount r) (ms_Fee r) (ms_InputCount r)))
    \<and> ms_MaxAmount res \<le> ms_MaxAmount r
    \<and> (\<forall>k \<in> set ks. \<forall>amount fee cnt. candidate_ok version feePerByte available k amount fee cnt \<longrightarrow> amount \<le> ms_MaxAmount r)"
  using assms
proof (induction ks arbitrary: res)
  case (Cons k ks)
  let ?r = "try_candidate version feePerByte available res k" and ?t = "foldl (try_candidate version feePerByte available) res (k # ks)"
  have step: "ms_MaxAmount ?r = 0 \<or> (\<exists>k \<in> A. candidate_ok version feePerByte available k (ms_MaxAmount ?r) (ms_Fee ?r) (ms_InputCount ?r))"
    "ms_MaxAmount res \<le> ms_MaxAmount ?r" "\<forall>amount fee cnt. candidate_ok version feePerByte available k amount fee cnt \<longrightarrow> amount \<le> ms_MaxAmount ?r"
    using try_candidate_cases [of version feePerByte available k res] Cons.prems by (fastforce simp: candidate_ok_def Let_def)+
  have t: "ms_MaxAmount ?t = 0 \<or> (\<exists>k \<in> A. candidate_ok version feePerByte available k (ms_MaxAmount ?t) (ms_Fee ?t) (ms_InputCount ?t))"
    "ms_MaxAmount ?r \<le> ms_MaxAmount ?t" "\<forall>k \<in> set ks. \<forall>amount fee cnt. candidate_ok version feePerByte available k amount fee cnt \<longrightarrow> amount \<le> ms_MaxAmount ?t"
    using Cons.IH [OF step(1)] Cons.prems(2) unfolding Let_def foldl.simps by auto
  have "ms_MaxAmount res \<le> ms_MaxAmount ?t" using step(2) t(2) by (rule order_trans)
  moreover have "\<forall>i \<in> set (k # ks). \<forall>amount fee cnt. candidate_ok version feePerByte available i amount fee cnt \<longrightarrow> amount \<le> ms_MaxAmount ?t"
    using step(3) t(2,3) order_trans by fastforce
  ultimately show ?case unfolding Let_def using t(1) by blast
qed simp

lemma candidate_amount:
  assumes "(f :: u64) < p" and "amount = p - f"
  shows "unat amount + unat f = unat p" "amount \<noteq> 0"
proof -
  have "unat amount = unat p - unat f" using assms unat_sub [of f p] by simp
  moreover have "unat f < unat p" using assms(1) by (simp add: word_less_nat_alt)
  ultimately show "unat amount + unat f = unat p" "amount \<noteq> 0" by auto
qed

lemma candidate_sends:
  assumes fit: "fees_fit version feePerByte" and coins: "coins_fit available" and ok: "candidate_ok version feePerByte available k amount fee cnt"
    and k: "1 \<le> k" "k \<le> min (length available) maxInputs"
  shows "sends version feePerByte available amount fee cnt \<and> amount \<noteq> 0"
proof -
  let ?f = "\<lambda>k. txEstimateFeeVersion version k 2 feePerByte" and ?P = "prefix_sum available"
  obtain tot where c: "?f k < ?P k" "amount = ?P k - ?f k" "simulateGreedySelection available amount feePerByte version = (cnt, tot)"
    "fee = ?f cnt" "amount + fee \<le> tot" using ok by (auto simp: candidate_ok_def Let_def)
  note am = candidate_amount [OF c(1,2)]
  have le: "unat (?f 1) \<le> unat (?f k)" using fee_mono [OF fit k(1)] k(2) by (simp add: word_le_nat_alt)
  then have small: "unat amount + unat (?f 1) < 2 ^ 64" using am(1) unat_u64_lt [of "?P k"] by linarith
  then have un: "unat (amount + ?f 1) = unat amount + unat (?f 1)" by (rule unat_add_u64)
  obtain m where m: "greedy_select (amount + ?f 1) available [] 0 = (take m available, ?P m)" "m \<le> min (length available) maxInputs"
    "\<forall>i < m. ?P i < amount + ?f 1" using greedy_from_empty by metis
  have "simulateGreedySelection available amount feePerByte version = (length (take m available), ?P m)"
    by (rule simulate_select [OF m(1)]) (use small in \<open>simp only: no_overflow not_not\<close>)
  then have cm: "cnt = m" "tot = ?P m" using c(3) m(2) by simp_all
  have "m \<le> k"
  proof (rule ccontr)
    assume "\<not> m \<le> k"
    then have "?P k < amount + ?f 1" using m(3) by simp
    then show False using am(1) le un by (simp add: word_less_nat_alt)
  qed
  then have "unat (?f m) \<le> unat (?f k)" using fee_mono [OF fit] k(2) by (simp add: word_le_nat_alt)
  then have "unat amount + unat (?f m) < 2 ^ 64" using am(1) unat_u64_lt [of "?P k"] by linarith
  then have sum: "unat amount + unat (?f m) \<le> unat (?P m)" using c(4,5) cm unat_add_u64 by (metis word_le_nat_alt)
  moreover have "1 \<le> m"
  proof (rule ccontr)
    assume "\<not> 1 \<le> m"
    then have "?P m = 0" by (cases m) (simp_all add: prefix_sum_def)
    then show False using sum am(2) by (simp add: word_unat_eq_iff)
  qed
  ultimately have "sends version feePerByte available amount fee m"
    unfolding sends_iff [OF fit coins am(2)] using c(4) cm m(2,3) un by (auto simp: word_less_nat_alt)
  then show ?thesis using cm am(2) by simp
qed

lemma sends_simulate:
  assumes fit: "fees_fit version feePerByte" and s: "sends version feePerByte available amount fee j"
  shows "\<exists>tot. simulateGreedySelection available amount feePerByte version = (j, tot) \<and> amount + fee \<le> tot"
proof -
  let ?f = "\<lambda>k. txEstimateFeeVersion version k 2 feePerByte"
  obtain sel tot where g: "greedy_select (amount + ?f 1) available [] 0 = (sel, tot)"
    and run: "select_coins version feePerByte False 0 0 amount available = (let fee = ?f (length sel) in
          if max_u64 - ?f 1 < amount \<or> max_u64 - fee < amount then Inl AmountOverflow
          else if tot < amount + fee then Inl InsufficientFunds else Inr (sel, tot, fee))"
    using select_coins_payment [OF fit] by metis
  have "\<not> max_u64 - ?f 1 < amount" "length sel = j" "amount + fee \<le> tot"
    using s run by (auto simp: sends_def Let_def split: if_splits)
  then show ?thesis using simulate_select [OF g] by simp
qed

lemma sends_candidate:
  assumes fit: "fees_fit version feePerByte" and coins: "coins_fit available" and amount: "amount \<noteq> 0" and s: "sends version feePerByte available amount fee j"
  shows "\<exists>amount'. candidate_ok version feePerByte available j amount' fee j \<and> amount \<le> amount'"
proof -
  let ?f = "\<lambda>k. txEstimateFeeVersion version k 2 feePerByte" and ?P = "prefix_sum available" and ?a = "prefix_sum available j - txEstimateFeeVersion version j 2 feePerByte"
  note r = s [unfolded sends_iff [OF fit coins amount]]
  have lt: "?f j < ?P j" using r amount by (auto simp: word_less_nat_alt word_unat_eq_iff)
  note am = candidate_amount [OF lt refl]
  have le: "unat amount \<le> unat ?a" using r am(1) by auto
  have "sends version feePerByte available ?a fee j" unfolding sends_iff [OF fit coins am(2)] using r am(1) le by auto
  from sends_simulate [OF fit this] have "candidate_ok version feePerByte available j ?a fee j"
    unfolding candidate_ok_def Let_def using lt r by blast
  then show ?thesis using le by (auto simp: word_le_nat_alt)
qed

text \<open>C39: For an ordinary payment, one that is not a burn and carries no contract payload (so no marker or payload bytes and no gas fee are added),
  \<open>MaxSpendable\<close> is exact with respect to the coin selection of \<open>Build\<close>: when it reports a positive amount, the selection succeeds for that
  amount with the reported fee and number of inputs, and it fails for every larger amount; when it reports zero, it fails for every positive amount.  The
  fee rate is positive, the largest fee that is considered fits in 64 bits, and so does the sum of the wallet's outputs, which the code adds without a
  check.\<close>

theorem max_spendable_exact:
  assumes fit: "fees_fit version feePerByte" and coins: "coins_fit (dedup_pubs {} ranked)"
  shows "(ms_MaxAmount (MaxSpendable version feePerByte ranked) \<noteq> 0 \<longrightarrow>
       (\<exists>sel tot. select_coins version feePerByte False 0 0 (ms_MaxAmount (MaxSpendable version feePerByte ranked)) (dedup_pubs {} ranked)
          = Inr (sel, tot, ms_Fee (MaxSpendable version feePerByte ranked)) \<and> length sel = ms_InputCount (MaxSpendable version feePerByte ranked)))
    \<and> (\<forall>amount. amount \<noteq> 0 \<and> is_ok (select_coins version feePerByte False 0 0 amount (dedup_pubs {} ranked))
         \<longrightarrow> amount \<le> ms_MaxAmount (MaxSpendable version feePerByte ranked))"
proof -
  let ?av = "dedup_pubs {} ranked" and ?r = "MaxSpendable version feePerByte ranked"
  let ?A = "{k. 1 \<le> k \<and> k \<le> min (length (dedup_pubs {} ranked)) maxInputs}"
  have r: "(ms_MaxAmount ?r = 0 \<or> (\<exists>k \<in> ?A. candidate_ok version feePerByte ?av k (ms_MaxAmount ?r) (ms_Fee ?r) (ms_InputCount ?r)))
    \<and> (\<forall>k \<in> ?A. \<forall>amount fee cnt. candidate_ok version feePerByte ?av k amount fee cnt \<longrightarrow> amount \<le> ms_MaxAmount ?r)"
  proof (cases "?av = []")
    case True
    then show ?thesis by (simp add: MaxSpendable_def)
  next
    case False
    let ?ks = "[1..<min (length ?av) maxInputs + 1]"
    let ?res = "\<lparr>ms_MaxAmount = 0, ms_Fee = 0, ms_InputCount = 0, ms_SpendableTotal = sum_list (map ow_Amount ?av), ms_UTXOCount = length ?av\<rparr>"
    have ks: "set ?ks = ?A" by auto
    have run: "?r = foldl (try_candidate version feePerByte ?av) ?res ?ks" using False by (simp add: MaxSpendable_def Let_def)
    have "ms_MaxAmount ?res = 0" by simp
    then show ?thesis using candidates_fold [of ?res ?A version feePerByte ?av ?ks] unfolding Let_def run [symmetric] ks by blast
  qed
  have "sends version feePerByte ?av (ms_MaxAmount ?r) (ms_Fee ?r) (ms_InputCount ?r)" if "ms_MaxAmount ?r \<noteq> 0"
    using r that candidate_sends [OF fit coins] by blast
  moreover have "amount \<le> ms_MaxAmount ?r" if nz: "amount \<noteq> 0" and sel: "is_ok (select_coins version feePerByte False 0 0 amount ?av)" for amount
  proof -
    obtain fee j where s: "sends version feePerByte ?av amount fee j" using sel by (auto simp: sends_def is_ok_iff)
    obtain a where "candidate_ok version feePerByte ?av j a fee j" "amount \<le> a" using sends_candidate [OF fit coins nz s] by blast
    moreover have "j \<in> ?A" using s [unfolded sends_iff [OF fit coins nz]] by simp
    ultimately show ?thesis using r order_trans by blast
  qed
  ultimately show ?thesis by (auto simp: sends_def)
qed

theorem max_spendable_exact_witness:
  "100000 \<le> ms_MaxAmount (MaxSpendable TxVersionCommitmentBinding 1 [demo_coin 60000, demo_coin 50000])
   \<and> (\<exists>sel tot. select_coins TxVersionCommitmentBinding 1 False 0 0 (ms_MaxAmount (MaxSpendable TxVersionCommitmentBinding 1 [demo_coin 60000, demo_coin 50000]))
        [demo_coin 60000, demo_coin 50000] = Inr (sel, tot, ms_Fee (MaxSpendable TxVersionCommitmentBinding 1 [demo_coin 60000, demo_coin 50000])))"
proof -
  let ?cs = "[demo_coin 60000, demo_coin 50000]"
  have coins: "coins_fit (dedup_pubs {} ?cs)" unfolding demo_coins_dedup by (simp add: coins_fit_def demo_coin_def)
  have "is_ok (select_coins TxVersionCommitmentBinding 1 False 0 0 100000 ?cs)" using demo_selects by simp
  then have "100000 \<le> ms_MaxAmount (MaxSpendable TxVersionCommitmentBinding 1 ?cs)"
    using max_spendable_exact [OF demo_coins_fit coins] unfolding demo_coins_dedup by simp
  moreover from this have "ms_MaxAmount (MaxSpendable TxVersionCommitmentBinding 1 ?cs) \<noteq> 0" by auto
  ultimately show ?thesis using max_spendable_exact [OF demo_coins_fit coins] unfolding demo_coins_dedup by blast
qed

end
