(* ===== verification/Decoys.thy ===== *)
theory Decoys
  imports Utxo
begin

text \<open>
  Decoy selection of \<open>core/decoy_sampling.go\<close> and the samplers of \<open>core/utxo.go\<close>.  Candidates are collected from the
  indexes of the output set, in the order in which Go iterates over them, and a partial Fisher-Yates shuffle with draws from the entropy source
  picks a sample.  The persistent ring index, when one is attached, is a parameter.
\<close>

section \<open>Definitions\<close>

record DecoyUTXO =
  dc_OneTimePub :: point32
  dc_AmountCommit :: commitment

definition decoy_of :: "UTXO \<Rightarrow> DecoyUTXO" where
  "decoy_of u = \<lparr>dc_OneTimePub = u_OneTimePub u, dc_AmountCommit = u_AmountCommit u\<rparr>"

text \<open>The entropy source: the \<open>i\<close>-th draw below a bound, or an error.\<close>

type_synonym offsets = "nat \<Rightarrow> nat \<Rightarrow> nat option"

definition swap_at :: "nat \<Rightarrow> nat \<Rightarrow> 'a list \<Rightarrow> 'a list" where
  "swap_at i j xs = xs[i := xs ! j, j := xs ! i]"

definition shuffle_step :: "offsets \<Rightarrow> nat \<Rightarrow> 'a list \<Rightarrow> unit + 'a list" where
  "shuffle_step draw i cs =
     (case draw i (length cs - i) of None \<Rightarrow> Inl () | Some offset \<Rightarrow> Inr (swap_at i (i + offset) cs))"

definition sampleDecoyCandidates :: "UTXO list \<Rightarrow> int \<Rightarrow> offsets option \<Rightarrow> unit + DecoyUTXO list" where
  "sampleDecoyCandidates candidates cnt entropy =
     (if cnt \<le> 0 \<or> candidates = [] then Inr []
      else case entropy of None \<Rightarrow> Inl () | Some draw \<Rightarrow>
      let want = min (nat cnt) (length candidates) in
      case foldE (shuffle_step draw) [0..<want] candidates of Inl e \<Rightarrow> Inl e
      | Inr cs \<Rightarrow> Inr (map decoy_of (take want cs)))"

text \<open>The candidates of the two samplers; \<open>order\<close> is the order of iteration over an index.\<close>

type_synonym pub_order = "(point32 \<rightharpoonup> UTXO) \<Rightarrow> point32 list"

definition indexed_utxos :: "pub_order \<Rightarrow> (point32 \<Rightarrow> UTXO \<Rightarrow> bool) \<Rightarrow> (point32 \<rightharpoonup> UTXO) \<Rightarrow> UTXO list" where
  "indexed_utxos order keep m = map (\<lambda>pub. the (m pub)) (filter (\<lambda>pub. keep pub (the (m pub))) (order m))"

definition sampleDecoys :: "pub_order \<Rightarrow> 'd UTXOSet \<Rightarrow> int \<Rightarrow> point32 set \<Rightarrow> offsets option \<Rightarrow> unit + DecoyUTXO list" where
  "sampleDecoys order s cnt exclude entropy =
     (if cnt \<le> 0 then Inr []
      else sampleDecoyCandidates
        (indexed_utxos order (\<lambda>pub u. pub \<notin> exclude \<and> \<not> u_ProtocolLocked u) (us_spentPubKeys s)) cnt entropy)"

definition isStakedUTXOKey :: "(UTXOKey \<rightharpoonup> UTXO) \<Rightarrow> UTXO \<Rightarrow> bool" where
  "isStakedUTXOKey staked u \<longleftrightarrow> staked (u_TxHash u, u_OutputIndex u) \<noteq> None"

definition filtered_pubs :: "'d UTXOSet \<Rightarrow> point32 set \<Rightarrow> point32 set" where
  "filtered_pubs s exclude = exclude \<union> {u_OneTimePub u | k u. us_stakedUTXOs s k = Some u \<and> u_OneTimePub u \<noteq> 0}"

definition clsag_candidates :: "pub_order \<Rightarrow> 'd UTXOSet \<Rightarrow> point32 set \<Rightarrow> UTXO list" where
  "clsag_candidates order s exclude =
     (let filtered = filtered_pubs s exclude;
          keep = (\<lambda>pub u. pub \<notin> filtered \<and> \<not> isStakedUTXOKey (us_stakedUTXOs s) u \<and> \<not> u_ProtocolLocked u)
      in indexed_utxos order (\<lambda>pub u. us_byPubKey s pub = None \<and> keep pub u) (us_spentPubKeys s)
         @ indexed_utxos order keep (us_byPubKey s))"

text \<open>A store that excludes staked outputs itself is given them; another is given the keys, which must all be known.\<close>

datatype ring_sampler =
    FilterStore "int \<Rightarrow> point32 set \<Rightarrow> UTXOKey set \<Rightarrow> unit + DecoyUTXO list"
  | PlainStore "int \<Rightarrow> point32 set \<Rightarrow> unit + DecoyUTXO list"

definition sampleCLSAGDecoys :: "pub_order \<Rightarrow> ring_sampler option \<Rightarrow> 'd UTXOSet \<Rightarrow> int \<Rightarrow> point32 set \<Rightarrow> offsets option \<Rightarrow> unit + DecoyUTXO list" where
  "sampleCLSAGDecoys order store s cnt exclude entropy =
     (if cnt \<le> 0 then Inr []
      else let filtered = filtered_pubs s exclude in
      case store of
        Some st \<Rightarrow>
          (case (case st of
                   FilterStore f \<Rightarrow> f cnt exclude (dom (us_stakedUTXOs s))
                 | PlainStore f \<Rightarrow> if \<exists>u \<in> ran (us_stakedUTXOs s). u_OneTimePub u = 0 then Inl () else f cnt filtered) of
             Inl e \<Rightarrow> Inl e
           | Inr sampled \<Rightarrow> Inr (filter (\<lambda>d. dc_OneTimePub d \<notin> filtered) sampled))
      | None \<Rightarrow> sampleDecoyCandidates (clsag_candidates order s exclude) cnt entropy)"

definition sampleChainDecoys :: "pub_order \<Rightarrow> ring_sampler option \<Rightarrow> 'd UTXOSet \<Rightarrow> int \<Rightarrow> point32 set \<Rightarrow> bool \<Rightarrow> offsets \<Rightarrow> unit + DecoyUTXO list" where
  "sampleChainDecoys order store s cnt exclude clsag entropy =
     (if clsag then sampleCLSAGDecoys order store s cnt exclude (Some entropy)
      else sampleDecoys order s cnt exclude (Some entropy))"

section \<open>The partial shuffle\<close>

definition entropy_ok :: "offsets \<Rightarrow> nat \<Rightarrow> nat \<Rightarrow> bool" where
  "entropy_ok draw want n \<longleftrightarrow> (\<forall>i < want. \<exists>k < n - i. draw i (n - i) = Some k)"

lemma swap_at_length [simp]: "length (swap_at i j xs) = length xs"
  by (simp add: swap_at_def)

lemma swap_at_mset: "i < length xs \<Longrightarrow> j < length xs \<Longrightarrow> mset (swap_at i j xs) = mset xs"
  by (simp add: swap_at_def mset_swap)

text \<open>The shuffle as a recursion on the list: the chosen element comes first, the displaced one takes its place.\<close>

fun pick :: "nat list \<Rightarrow> 'a list \<Rightarrow> 'a list" where
  "pick [] xs = []"
| "pick (k # ks) [] = []"
| "pick (k # ks) (x # xs) = (x # xs) ! k # pick ks (if k = 0 then xs else xs[k - 1 := x])"

fun offsets_ok :: "nat list \<Rightarrow> nat \<Rightarrow> bool" where
  "offsets_ok [] n \<longleftrightarrow> True"
| "offsets_ok (k # ks) n \<longleftrightarrow> k < n \<and> offsets_ok ks (n - 1)"

lemma swap_rest: "k < length (x # xs) \<Longrightarrow> swap_at 0 k (x # xs) = (x # xs) ! k # (if k = 0 then xs else xs[k - 1 := x])"
  by (cases k) (simp_all add: swap_at_def)

lemma swap_at_append: "swap_at (length ps + i) (length ps + j) (ps @ xs) = ps @ swap_at i j xs"
  by (simp add: swap_at_def list_update_append nth_append)

lemma shuffle_picks:
  assumes "length ks \<le> length xs" and "offsets_ok ks (length xs)"
    and "\<And>i. i < length ks \<Longrightarrow> draw (length ps + i) (length xs - i) = Some (ks ! i)"
  shows "\<exists>ys. foldE (shuffle_step draw) [length ps..<length ps + length ks] (ps @ xs) = Inr (ps @ ys)
    \<and> mset ys = mset xs \<and> take (length ks) ys = pick ks xs"
  using assms
proof (induction ks arbitrary: ps xs)
  case (Cons k ks)
  then obtain x xs' where xs: "xs = x # xs'" by (cases xs) auto
  let ?rest = "if k = 0 then xs' else xs'[k - 1 := x]"
  have k: "k < length xs" using Cons.prems(2) by simp
  have draw: "draw (length ps) (length xs) = Some k" using Cons.prems(3) [of 0] by simp
  have swap: "swap_at (length ps) (length ps + k) (ps @ xs) = (ps @ [xs ! k]) @ ?rest"
    using swap_at_append [of ps 0 k xs] swap_rest [of k x xs'] k xs by simp
  have "\<exists>ys. foldE (shuffle_step draw) [length (ps @ [xs ! k])..<length (ps @ [xs ! k]) + length ks] ((ps @ [xs ! k]) @ ?rest)
      = Inr ((ps @ [xs ! k]) @ ys) \<and> mset ys = mset ?rest \<and> take (length ks) ys = pick ks ?rest"
  proof (rule Cons.IH)
    show "length ks \<le> length ?rest" "offsets_ok ks (length ?rest)" using Cons.prems(1,2) xs by simp_all
    show "draw (length (ps @ [xs ! k]) + i) (length ?rest - i) = Some (ks ! i)" if "i < length ks" for i
      using Cons.prems(3) [of "Suc i"] that xs by simp
  qed
  then obtain ys where ys: "foldE (shuffle_step draw) [Suc (length ps)..<Suc (length ps + length ks)] ((ps @ [xs ! k]) @ ?rest)
      = Inr (ps @ xs ! k # ys)" "mset ys = mset ?rest" "take (length ks) ys = pick ks ?rest" by auto
  have "[length ps..<length ps + length (k # ks)] = length ps # [Suc (length ps)..<Suc (length ps + length ks)]" by (simp add: upt_rec)
  then have "foldE (shuffle_step draw) [length ps..<length ps + length (k # ks)] (ps @ xs) = Inr (ps @ xs ! k # ys)"
    using ys(1) draw swap by (simp add: shuffle_step_def)
  moreover have "mset (xs ! k # ys) = mset xs"
    using ys(2) swap_rest [of k x xs'] swap_at_mset [of 0 xs k] k xs by (metis length_greater_0_conv list.distinct(1) mset.simps(2))
  moreover have "take (length (k # ks)) (xs ! k # ys) = pick (k # ks) xs" using ys(3) xs by simp
  ultimately show ?case by (intro exI [of _ "xs ! k # ys"]) simp
qed simp

lemma pick_distinct:
  "distinct xs \<Longrightarrow> offsets_ok ks (length xs) \<Longrightarrow> length ks \<le> length xs
    \<Longrightarrow> distinct (pick ks xs) \<and> set (pick ks xs) \<subseteq> set xs \<and> length (pick ks xs) = length ks"
proof (induction ks arbitrary: xs)
  case (Cons k ks)
  then obtain x xs' where xs: "xs = x # xs'" by (cases xs) auto
  let ?rest = "if k = 0 then xs' else xs'[k - 1 := x]"
  have "mset (xs ! k # ?rest) = mset xs"
    using Cons.prems swap_rest [of k x xs'] swap_at_mset [of 0 xs k] xs by (metis length_greater_0_conv list.distinct(1) offsets_ok.simps(2))
  then have d: "distinct (xs ! k # ?rest)" "set (xs ! k # ?rest) = set xs"
    using Cons.prems(1) mset_eq_imp_distinct_iff mset_eq_setD by metis+
  have "distinct (pick ks ?rest) \<and> set (pick ks ?rest) \<subseteq> set ?rest \<and> length (pick ks ?rest) = length ks"
    using Cons.prems d(1) xs by (intro Cons.IH) simp_all
  then show ?case using d xs by auto
qed simp

text \<open>Every ordered selection comes from exactly one sequence of draws.\<close>

lemma pick_unique:
  assumes "distinct xs" and "distinct ys" and "set ys \<subseteq> set xs"
  shows "\<exists>!ks. length ks = length ys \<and> offsets_ok ks (length xs) \<and> pick ks xs = ys"
  using assms
proof (induction ys arbitrary: xs)
  case (Cons y ys)
  then obtain x xs' where xs: "xs = x # xs'" by (cases xs) auto
  obtain k where k: "k < length xs" "xs ! k = y" using Cons.prems(3) by (auto simp: in_set_conv_nth)
  have k_only: "j = k" if "j < length xs" "xs ! j = y" for j using that k Cons.prems(1) nth_eq_iff_index_eq by metis
  let ?rest = "if k = 0 then xs' else xs'[k - 1 := x]"
  have "mset (y # ?rest) = mset xs" using swap_rest [of k x xs'] swap_at_mset [of 0 xs k] k xs by (metis length_greater_0_conv list.distinct(1))
  then have d: "distinct (y # ?rest)" "set (y # ?rest) = set xs"
    using Cons.prems(1) mset_eq_imp_distinct_iff mset_eq_setD by metis+
  have sub: "set ys \<subseteq> set ?rest" using Cons.prems(2,3) d(2) by auto
  have "\<exists>!ks. length ks = length ys \<and> offsets_ok ks (length ?rest) \<and> pick ks ?rest = ys"
    by (rule Cons.IH) (use d(1) Cons.prems(2) sub in simp_all)
  moreover have "length ?rest = length xs - 1" using xs by simp
  ultimately have "\<exists>!ks. length ks = length ys \<and> offsets_ok ks (length xs - 1) \<and> pick ks ?rest = ys" by metis
  then obtain ks where ks: "length ks = length ys \<and> offsets_ok ks (length xs - 1) \<and> pick ks ?rest = ys"
    and ks_only: "\<And>js. length js = length ys \<and> offsets_ok js (length xs - 1) \<and> pick js ?rest = ys \<Longrightarrow> js = ks"
    by (rule ex1E) blast
  show ?case
  proof (rule ex1I [of _ "k # ks"])
    show "length (k # ks) = length (y # ys) \<and> offsets_ok (k # ks) (length xs) \<and> pick (k # ks) xs = y # ys"
      using k ks xs by simp
    fix js assume js: "length js = length (y # ys) \<and> offsets_ok js (length xs) \<and> pick js xs = y # ys"
    then obtain j js' where j: "js = j # js'" by (cases js) auto
    then have "j = k" using js xs by (intro k_only) auto
    then show "js = k # ks" using js j xs ks_only [of js'] by auto
  qed
qed auto

text \<open>What the sampler returns for a sequence of draws.\<close>

lemma sample_picks:
  assumes "0 < cnt" and "cands \<noteq> []" and len: "length ks = min (nat cnt) (length cands)" and "offsets_ok ks (length cands)"
    and "\<forall>i < length ks. draw i (length cands - i) = Some (ks ! i)"
  shows "sampleDecoyCandidates cands cnt (Some draw) = Inr (map decoy_of (pick ks cands))"
proof -
  obtain ys where "foldE (shuffle_step draw) [0..<length ks] cands = Inr ys" "take (length ks) ys = pick ks cands"
    using shuffle_picks [of ks cands draw "[]"] assms by auto
  then show ?thesis using assms(1,2) len by (simp add: sampleDecoyCandidates_def Let_def)
qed

lemma offsets_ok_nth: "offsets_ok ks n \<longleftrightarrow> (\<forall>i < length ks. ks ! i < n - i)"
proof (induction ks arbitrary: n)
  case (Cons k ks)
  have "(\<forall>i < length (k # ks). (k # ks) ! i < n - i) \<longleftrightarrow> k < n \<and> (\<forall>i < length ks. ks ! i < n - 1 - i)"
    by (auto simp: nth_Cons less_Suc_eq_0_disj)
  then show ?case using Cons.IH [of "n - 1"] by simp
qed simp

lemma entropy_offsets:
  assumes "entropy_ok draw want n"
  obtains ks where "length ks = want" "offsets_ok ks n" "\<forall>i < length ks. draw i (n - i) = Some (ks ! i)"
proof
  let ?ks = "map (\<lambda>i. the (draw i (n - i))) [0..<want]"
  show "length ?ks = want" by simp
  have "the (draw i (n - i)) < n - i \<and> draw i (n - i) = Some (the (draw i (n - i)))" if "i < want" for i
    using assms that by (auto simp: entropy_ok_def)
  then show "offsets_ok ?ks n" "\<forall>i < length ?ks. draw i (n - i) = Some (?ks ! i)" by (simp_all add: offsets_ok_nth)
qed

section \<open>Candidates\<close>

definition pub_order_ok :: "pub_order \<Rightarrow> bool" where
  "pub_order_ok order \<longleftrightarrow> (\<forall>m. finite (dom m) \<longrightarrow> map_order m (order m))"

text \<open>Both indexes are under the one-time key of the output.\<close>

definition pubs_ok :: "'d UTXOSet \<Rightarrow> bool" where
  "pubs_ok s \<longleftrightarrow> finite (dom (us_byPubKey s)) \<and> finite (dom (us_spentPubKeys s))
     \<and> (\<forall>p u. us_byPubKey s p = Some u \<longrightarrow> u_OneTimePub u = p) \<and> (\<forall>p u. us_spentPubKeys s p = Some u \<longrightarrow> u_OneTimePub u = p)"

lemma indexed_utxos_keys:
  assumes "pub_order_ok order" and "finite (dom m)" and "\<forall>p u. m p = Some u \<longrightarrow> u_OneTimePub u = p"
  shows "distinct (map u_OneTimePub (indexed_utxos order keep m))"
    "u \<in> set (indexed_utxos order keep m) \<longleftrightarrow> m (u_OneTimePub u) = Some u \<and> keep (u_OneTimePub u) u"
proof -
  have ord: "distinct (order m)" "set (order m) = dom m" using assms(1,2) by (auto simp: pub_order_ok_def map_order_def)
  have "map u_OneTimePub (indexed_utxos order keep m) = filter (\<lambda>pub. keep pub (the (m pub))) (order m)"
    unfolding indexed_utxos_def map_map using assms(3) ord(2) by (intro map_idI) auto
  then show "distinct (map u_OneTimePub (indexed_utxos order keep m))" using ord(1) by simp
  have "u \<in> set (indexed_utxos order keep m) \<longleftrightarrow> (\<exists>p. m p = Some u \<and> keep p u)"
    unfolding indexed_utxos_def set_map set_filter ord(2) by (auto simp: image_iff dom_def)
  then show "u \<in> set (indexed_utxos order keep m) \<longleftrightarrow> m (u_OneTimePub u) = Some u \<and> keep (u_OneTimePub u) u"
    using assms(3) by blast
qed

lemma clsag_candidates_sound:
  assumes order: "pub_order_ok order" and inv: "pubs_ok s"
  shows "distinct (map u_OneTimePub (clsag_candidates order s exclude))"
    "u \<in> set (clsag_candidates order s exclude) \<Longrightarrow> GetRingMember store s (u_OneTimePub u) = Some u
       \<and> \<not> IsStaked s (u_TxHash u) (u_OutputIndex u) \<and> u_OneTimePub u \<notin> exclude"
proof -
  have by_pub: "finite (dom (us_byPubKey s))" "\<forall>p u. us_byPubKey s p = Some u \<longrightarrow> u_OneTimePub u = p"
    and spent: "finite (dom (us_spentPubKeys s))" "\<forall>p u. us_spentPubKeys s p = Some u \<longrightarrow> u_OneTimePub u = p"
    using inv by (auto simp: pubs_ok_def)
  note a = indexed_utxos_keys [OF order by_pub] and b = indexed_utxos_keys [OF order spent]
  show "distinct (map u_OneTimePub (clsag_candidates order s exclude))"
    using a b by (auto simp: clsag_candidates_def Let_def)
  show "u \<in> set (clsag_candidates order s exclude) \<Longrightarrow> GetRingMember store s (u_OneTimePub u) = Some u
       \<and> \<not> IsStaked s (u_TxHash u) (u_OutputIndex u) \<and> u_OneTimePub u \<notin> exclude"
    using a(2) b(2)
    by (auto simp: clsag_candidates_def Let_def GetRingMember_def isProtocolLockedUTXO_def IsStaked_def isStakedUTXOKey_def filtered_pubs_def
        split: option.splits)
qed

section \<open>Properties\<close>

text \<open>C40: The sampler is fair.  For distinct candidates, every sequence of draws in range yields a list of the wanted length of distinct
  candidates; and every such list, in every order, comes from exactly one sequence of draws.  So uniform draws
  give each ordered selection with the same probability, and no candidate is preferred.\<close>

theorem decoy_sampling_fair:
  assumes cands: "distinct cands" "cands \<noteq> []" and cnt: "0 < cnt" and want: "want = min (nat cnt) (length cands)"
  shows "(entropy_ok draw want (length cands) \<longrightarrow>
       (\<exists>ys. sampleDecoyCandidates cands cnt (Some draw) = Inr (map decoy_of ys) \<and> distinct ys \<and> set ys \<subseteq> set cands \<and> length ys = want))
    \<and> (\<forall>ys. distinct ys \<and> set ys \<subseteq> set cands \<and> length ys = want \<longrightarrow>
       (\<exists>!ks. length ks = want \<and> (\<forall>i < want. ks ! i < length cands - i) \<and> pick ks cands = ys)
       \<and> (\<forall>ks. length ks = want \<and> (\<forall>i < want. ks ! i < length cands - i) \<and> pick ks cands = ys
            \<and> (\<forall>i < want. draw i (length cands - i) = Some (ks ! i)) \<longrightarrow>
            sampleDecoyCandidates cands cnt (Some draw) = Inr (map decoy_of ys)))"
proof (intro conjI impI allI)
  assume "entropy_ok draw want (length cands)"
  then obtain ks where ks: "length ks = want" "offsets_ok ks (length cands)" "\<forall>i < length ks. draw i (length cands - i) = Some (ks ! i)"
    using entropy_offsets by blast
  then show "\<exists>ys. sampleDecoyCandidates cands cnt (Some draw) = Inr (map decoy_of ys) \<and> distinct ys \<and> set ys \<subseteq> set cands \<and> length ys = want"
    using sample_picks [of cnt cands ks draw] pick_distinct [OF cands(1) ks(2)] cands(2) cnt want by auto
next
  fix ys assume "distinct ys \<and> set ys \<subseteq> set cands \<and> length ys = want"
  then show "\<exists>!ks. length ks = want \<and> (\<forall>i < want. ks ! i < length cands - i) \<and> pick ks cands = ys"
    using pick_unique [OF cands(1), of ys] unfolding offsets_ok_nth by (metis (mono_tags, lifting))
next
  fix ys ks assume "length ks = want \<and> (\<forall>i < want. ks ! i < length cands - i) \<and> pick ks cands = ys
            \<and> (\<forall>i < want. draw i (length cands - i) = Some (ks ! i))"
  then show "sampleDecoyCandidates cands cnt (Some draw) = Inr (map decoy_of ys)"
    using sample_picks [of cnt cands ks draw] cands(2) cnt want by (auto simp: offsets_ok_nth)
qed

definition demo_candidate :: "nat \<Rightarrow> UTXO" where
  "demo_candidate i = \<lparr>u_TxHash = 1, u_OutputIndex = word_of_nat i, u_OneTimePub = word_of_nat i, u_TxPubKey = 0,
     u_AmountCommit = 0, u_EncAmount = 0, u_BlockHeight = 1, u_ProtocolLocked = False\<rparr>"

theorem decoy_sampling_fair_witness:
  "\<exists>ys. sampleDecoyCandidates [demo_candidate 1, demo_candidate 2, demo_candidate 3] 2 (Some (\<lambda>_ _. Some 1)) = Inr (map decoy_of ys)
     \<and> distinct ys \<and> length ys = 2"
proof -
  let ?cs = "[demo_candidate 1, demo_candidate 2, demo_candidate 3]"
  have d: "distinct ?cs" "?cs \<noteq> []" by (simp_all add: demo_candidate_def)
  have "entropy_ok (\<lambda>_ _. Some 1) 2 (length ?cs)" by (auto simp: entropy_ok_def)
  moreover have "0 < (2 :: int)" "(2 :: nat) = min (nat 2) (length ?cs)" by simp_all
  ultimately show ?thesis using conjunct1 [OF decoy_sampling_fair [OF d, of 2 2 "\<lambda>_ _. Some 1"]] by blast
qed

text \<open>The decoys of a CLSAG ring are authentic.  In an output set whose indexes are under the keys of the outputs, the sampler without a
  persistent index returns pairwise different keys, as many as asked for unless there are fewer candidates, none of them excluded, and each is a ring member
  that the verifier will find on the chain with the same commitment and that is not staked collateral.\<close>

theorem clsag_decoys_authentic:
  assumes order: "pub_order_ok order" and inv: "pubs_ok s" and cnt: "0 < cnt"
    and ent: "entropy_ok draw (min (nat cnt) (length (clsag_candidates order s exclude))) (length (clsag_candidates order s exclude))"
  shows "\<exists>ds. sampleCLSAGDecoys order None s cnt exclude (Some draw) = Inr ds
    \<and> length ds = min (nat cnt) (length (clsag_candidates order s exclude)) \<and> distinct (map dc_OneTimePub ds)
    \<and> (\<forall>d \<in> set ds. dc_OneTimePub d \<notin> exclude \<and> (\<exists>u. GetRingMember store s (dc_OneTimePub d) = Some u
         \<and> u_AmountCommit u = dc_AmountCommit d \<and> \<not> IsStaked s (u_TxHash u) (u_OutputIndex u)))"
proof -
  let ?cs = "clsag_candidates order s exclude"
  note sound = clsag_candidates_sound [OF order inv]
  have dist: "distinct ?cs" using sound(1) by (metis distinct_map)
  have "\<exists>ys. sampleDecoyCandidates ?cs cnt (Some draw) = Inr (map decoy_of ys) \<and> distinct ys \<and> set ys \<subseteq> set ?cs \<and> length ys = min (nat cnt) (length ?cs)"
  proof (cases "?cs = []")
    case False
    obtain ks where ks: "length ks = min (nat cnt) (length ?cs)" "offsets_ok ks (length ?cs)" "\<forall>i < length ks. draw i (length ?cs - i) = Some (ks ! i)"
      using entropy_offsets [OF ent] by blast
    then show ?thesis using sample_picks [of cnt ?cs ks draw] pick_distinct [OF dist ks(2)] False cnt by auto
  qed (simp add: sampleDecoyCandidates_def)
  then obtain ys where ys: "sampleDecoyCandidates ?cs cnt (Some draw) = Inr (map decoy_of ys)" "distinct ys" "set ys \<subseteq> set ?cs"
    "length ys = min (nat cnt) (length ?cs)" by blast
  have "distinct (map u_OneTimePub ys)" using sound(1) [of exclude] ys(2,3) by (auto simp: distinct_map inj_on_def subset_iff)
  then have "distinct (map dc_OneTimePub (map decoy_of ys))" by (simp add: decoy_of_def comp_def)
  moreover have "sampleCLSAGDecoys order None s cnt exclude (Some draw) = Inr (map decoy_of ys)"
    using ys(1) cnt by (simp add: sampleCLSAGDecoys_def Let_def)
  ultimately show ?thesis
    using ys(3,4) sound(2) by (intro exI [of _ "map decoy_of ys"]) (auto simp: decoy_of_def)
qed

theorem clsag_decoys_authentic_witness:
  "\<exists>ds. sampleCLSAGDecoys (\<lambda>m. sorted_list_of_set (dom m)) None ((NewUTXOSetWithDB None :: unit UTXOSet)\<lparr>us_byPubKey := [5 \<mapsto> demo_candidate 5]\<rparr>) 1 {7} (Some (\<lambda>_ _. Some 0)) = Inr ds
     \<and> length ds = 1"
proof -
  let ?s = "(NewUTXOSetWithDB None :: unit UTXOSet)\<lparr>us_byPubKey := [5 \<mapsto> demo_candidate 5]\<rparr>" and ?o = "\<lambda>m. sorted_list_of_set (dom m)"
  have "pub_order_ok ?o" by (simp add: pub_order_ok_def map_order_def)
  moreover have "pubs_ok ?s" by (simp add: pubs_ok_def NewUTXOSetWithDB_def demo_candidate_def)
  moreover have cs: "clsag_candidates ?o ?s {7} = [demo_candidate 5]"
    by (simp add: clsag_candidates_def Let_def NewUTXOSetWithDB_def indexed_utxos_def filtered_pubs_def isStakedUTXOKey_def) (simp add: demo_candidate_def)
  moreover have "entropy_ok (\<lambda>_ _. Some 0) (min (nat 1) (length (clsag_candidates ?o ?s {7}))) (length (clsag_candidates ?o ?s {7}))"
    unfolding cs by (simp add: entropy_ok_def)
  ultimately obtain ds where "sampleCLSAGDecoys ?o None ?s 1 {7} (Some (\<lambda>_ _. Some 0)) = Inr ds" "length ds = min (nat 1) (length (clsag_candidates ?o ?s {7}))"
    using clsag_decoys_authentic [of ?o ?s 1 "\<lambda>_ _. Some 0" "{7}" None] by (metis zero_less_one)
  then show ?thesis unfolding cs by simp
qed


end
