(* ===== verification/Tx_Builder.thy ===== *)
theory Tx_Builder
  imports Coin_Selection Decoys Bulletproof
begin

text \<open>
  The RingCT transaction builder, \<open>core/tx_builder.go\<close> and \<open>core/tx_builder_multi.go\<close>: from owned outputs to a signed transaction.
  Everything that Go leaves open is in the record \<open>build_rnd\<close>: the result of the unstable sort, the order of map iteration and
  the random draws for decoys, ephemeral keys, ring positions, fallback keys, proofs and signatures.  The main theorem composes the
  components in the theory \<open>Built_Spend\<close>: what \<open>Build\<close> produces, the node's verifier accepts.
\<close>

section \<open>Definitions\<close>

record 'd TxBuilder =
  tb_spendPriv :: scalar32
  tb_viewPriv :: scalar32
  tb_spendPub :: point32
  tb_ownedUTXOs :: "OwnedUTXO list"
  tb_feePerByte :: u64
  tb_utxoSet :: "'d UTXOSet option"
  tb_decoys :: "DecoyUTXO list"
  tb_txVersion :: u8
  tb_avmPayload :: "AVMPayload option"
  tb_paymentRecipientProof :: bool

definition NewTxBuilder :: "scalar32 \<Rightarrow> scalar32 \<Rightarrow> point32 \<Rightarrow> OwnedUTXO list \<Rightarrow> u64 \<Rightarrow> 'd TxBuilder" where
  "NewTxBuilder spendPriv viewPriv spendPub ownedUTXOs feePerByte =
     \<lparr>tb_spendPriv = spendPriv, tb_viewPriv = viewPriv, tb_spendPub = spendPub, tb_ownedUTXOs = ownedUTXOs,
      tb_feePerByte = (if feePerByte = 0 then InitialBaseFeePerByte else feePerByte), tb_utxoSet = None, tb_decoys = [],
      tb_txVersion = TxVersionCommitmentBinding, tb_avmPayload = None, tb_paymentRecipientProof = False\<rparr>"

definition WithDecoySet :: "'d UTXOSet \<Rightarrow> 'd TxBuilder \<Rightarrow> 'd TxBuilder" where
  "WithDecoySet utxos b = b\<lparr>tb_utxoSet := Some utxos\<rparr>"

definition WithDecoys :: "DecoyUTXO list \<Rightarrow> 'd TxBuilder \<Rightarrow> 'd TxBuilder" where
  "WithDecoys decoys b = b\<lparr>tb_decoys := decoys\<rparr>"

definition WithPaymentRecipientProof :: "'d TxBuilder \<Rightarrow> 'd TxBuilder" where
  "WithPaymentRecipientProof b = b\<lparr>tb_paymentRecipientProof := True\<rparr>"

definition WithVersion :: "u8 \<Rightarrow> 'd TxBuilder \<Rightarrow> 'd TxBuilder" where
  "WithVersion version b = b\<lparr>tb_txVersion := version\<rparr>"

definition WithAVM :: "AVMPayload \<Rightarrow> 'd TxBuilder \<Rightarrow> 'd TxBuilder" where
  "WithAVM payload b = b\<lparr>tb_avmPayload := Some payload, tb_txVersion := TxVersionAVM\<rparr>"

record build_rnd =
  br_sort :: "OwnedUTXO list \<Rightarrow> OwnedUTXO list"
  br_order :: pub_order
  br_sampler :: "ring_sampler option"
  br_offsets :: offsets
  br_output :: "nat \<Rightarrow> randomness"
  br_position :: "nat \<Rightarrow> nat option"
  br_seed :: "nat \<Rightarrow> nat \<Rightarrow> bytes option"
  br_range :: "nat \<Rightarrow> randomness"
  br_pseudo :: "nat \<Rightarrow> scalar32 option"
  br_sign :: "nat \<Rightarrow> randomness"

datatype build_error =
    BAmountZero
  | BRecipient
  | BChangeAddress
  | BAvmMissing
  | BAvmInvalid avm_error
  | BAvmUnexpected
  | BBurnVersion
  | BGasFee
  | BSelect select_error
  | BBurnFee
  | BFeeCommit crypto_error
  | BOpening nat
  | BBlindSum crypto_error
  | BOutput crypto_error
  | BAddress
  | BDecoys
  | BOneTimeKey nat crypto_error
  | BDecoyCount nat
  | BRingPosition nat
  | BDuplicateDecoy nat
  | BFallbackKey nat
  | BKeyImage nat crypto_error
  | BRangeProof nat range_error
  | BPseudoBlind nat
  | BPanicNoInput
  | BPseudoOut nat crypto_error
  | BSign nat crypto_error
  | BRecipientCount
  | BBurnRecipient nat
  | BRecipientAmount nat
  | BRecipientAddress nat

fun mapE :: "('a \<Rightarrow> 'e + 'b) \<Rightarrow> 'a list \<Rightarrow> 'e + 'b list" where
  "mapE f [] = Inr []"
| "mapE f (x # xs) = (case f x of Inl e \<Rightarrow> Inl e | Inr y \<Rightarrow> case mapE f xs of Inl e \<Rightarrow> Inl e | Inr ys \<Rightarrow> Inr (y # ys))"

definition lift_error :: "('e \<Rightarrow> 'f) \<Rightarrow> 'e + 'a \<Rightarrow> 'f + 'a" where
  "lift_error g r = (case r of Inl e \<Rightarrow> Inl (g e) | Inr x \<Rightarrow> Inr x)"

subsection \<open>Outputs\<close>

definition validateOwnedUTXOOpening :: "('p::ab_group_add) curve \<Rightarrow> OwnedUTXO \<Rightarrow> bool" where
  "validateOwnedUTXOOpening C u \<longleftrightarrow> Commit C (ow_Amount u) (ow_Blind u) = Inr (u_AmountCommit (ow_UTXO u))"

definition stealth_txout :: "lib \<Rightarrow> StealthOutput \<Rightarrow> commitment \<Rightarrow> u64 \<Rightarrow> TxOutput" where
  "stealth_txout K so commit amount =
     \<lparr>out_OneTimePub = so_OneTimePub so, out_TxPubKey = so_TxPubKey so, out_AmountCommit = commit,
      out_EncAmount = EncryptAmount K amount (so_HsScalar so)\<rparr>"

definition txBuildOutputWithBlind :: "lib \<Rightarrow> ('p::ab_group_add) curve \<Rightarrow> Address \<Rightarrow> u64 \<Rightarrow> scalar32 \<Rightarrow> randomness \<Rightarrow> build_error + TxOutput" where
  "txBuildOutputWithBlind K C addr amount blind rnd =
     (case DecodeAddress K addr of Inl _ \<Rightarrow> Inl BAddress | Inr (_, spendPub, viewPub) \<Rightarrow>
      case CreateStealthOutput C spendPub viewPub rnd of Inl e \<Rightarrow> Inl (BOutput e) | Inr so \<Rightarrow>
      case Commit C amount blind of Inl e \<Rightarrow> Inl (BOutput e) | Inr commit \<Rightarrow> Inr (stealth_txout K so commit amount))"

definition txBuildOutputWithEphemeral :: "lib \<Rightarrow> ('p::ab_group_add) curve \<Rightarrow> Address \<Rightarrow> u64 \<Rightarrow> scalar32 option \<Rightarrow> randomness
    \<Rightarrow> build_error + TxOutput \<times> scalar32 \<times> scalar32" where
  "txBuildOutputWithEphemeral K C addr amount blind rnd =
     (case DecodeAddress K addr of Inl _ \<Rightarrow> Inl BAddress | Inr (_, spendPub, viewPub) \<Rightarrow>
      case CreateStealthOutputWithEphemeralSecret C spendPub viewPub rnd of Inl e \<Rightarrow> Inl (BOutput e) | Inr (so, ephemeral) \<Rightarrow>
      let payBlind = (case blind of None \<Rightarrow> DeterministicPaymentBlind C (so_HsScalar so) amount | Some r \<Rightarrow> r) in
      case Commit C amount payBlind of Inl e \<Rightarrow> Inl (BOutput e)
      | Inr commit \<Rightarrow> Inr (stealth_txout K so commit amount, payBlind, ephemeral))"

definition txBuildOutput :: "lib \<Rightarrow> ('p::ab_group_add) curve \<Rightarrow> Address \<Rightarrow> u64 \<Rightarrow> randomness \<Rightarrow> build_error + TxOutput \<times> scalar32" where
  "txBuildOutput K C addr amount rnd =
     (case DecodeAddress K addr of Inl _ \<Rightarrow> Inl BAddress | Inr (_, spendPub, viewPub) \<Rightarrow>
      case CreateStealthOutput C spendPub viewPub rnd of Inl e \<Rightarrow> Inl (BOutput e) | Inr so \<Rightarrow>
      let blind = DeterministicPaymentBlind C (so_HsScalar so) amount in
      case Commit C amount blind of Inl e \<Rightarrow> Inl (BOutput e) | Inr commit \<Rightarrow> Inr (stealth_txout K so commit amount, blind))"

record out_entry =
  oe_output :: TxOutput
  oe_blind :: scalar32
  oe_amount :: u64
  oe_ephemeral :: scalar32

text \<open>The outputs of \<open>Build\<close>; the blinding factor of the fee is zero.\<close>

definition build_outputs :: "lib \<Rightarrow> ('p::ab_group_add) curve \<Rightarrow> (nat \<Rightarrow> randomness) \<Rightarrow> bool \<Rightarrow> u64 \<Rightarrow> Address \<Rightarrow> Address \<Rightarrow> u64 \<Rightarrow> scalar32 list
    \<Rightarrow> build_error + out_entry list" where
  "build_outputs K C rnd isBurn amount recipient changeAddr changeAmount inBlinds =
     (let hasChange = 0 < changeAmount; feeBlind = 0 in
      if isBurn \<and> hasChange then
        (case BlindSum inBlinds [feeBlind] of Inl e \<Rightarrow> Inl (BBlindSum e) | Inr changeBlind \<Rightarrow>
         case txBuildOutputWithBlind K C changeAddr changeAmount changeBlind (rnd 0) of Inl e \<Rightarrow> Inl e
         | Inr chOut \<Rightarrow> Inr [\<lparr>oe_output = chOut, oe_blind = changeBlind, oe_amount = changeAmount, oe_ephemeral = 0\<rparr>])
      else if hasChange then
        (case txBuildOutputWithEphemeral K C recipient amount None (rnd 0) of Inl e \<Rightarrow> Inl e | Inr (payOut, payBlind, ephemeral) \<Rightarrow>
         case BlindSum inBlinds [payBlind, feeBlind] of Inl e \<Rightarrow> Inl (BBlindSum e) | Inr changeBlind \<Rightarrow>
         case txBuildOutputWithBlind K C changeAddr changeAmount changeBlind (rnd 1) of Inl e \<Rightarrow> Inl e
         | Inr chOut \<Rightarrow> Inr [\<lparr>oe_output = payOut, oe_blind = payBlind, oe_amount = amount, oe_ephemeral = ephemeral\<rparr>,
                            \<lparr>oe_output = chOut, oe_blind = changeBlind, oe_amount = changeAmount, oe_ephemeral = 0\<rparr>])
      else if \<not> isBurn then
        (case BlindSum inBlinds [feeBlind] of Inl e \<Rightarrow> Inl (BBlindSum e) | Inr payBlind \<Rightarrow>
         case txBuildOutputWithEphemeral K C recipient amount (Some payBlind) (rnd 0) of Inl e \<Rightarrow> Inl e
         | Inr (payOut, _, ephemeral) \<Rightarrow> Inr [\<lparr>oe_output = payOut, oe_blind = payBlind, oe_amount = amount, oe_ephemeral = ephemeral\<rparr>])
      else Inr [])"

subsection \<open>Rings\<close>

definition GenerateWalletKeys :: "('p::ab_group_add) curve \<Rightarrow> bytes option \<Rightarrow> WalletKeyPair option" where
  "GenerateWalletKeys C seed =
     (case seed of None \<Rightarrow> None | Some s \<Rightarrow> (case WalletKeysFromSeed C s of Inl _ \<Rightarrow> None | Inr k \<Rightarrow> Some k))"

type_synonym ring_state = "point32 list \<times> point32 set \<times> nat \<times> nat"

definition ring_slot :: "('p::ab_group_add) curve \<Rightarrow> DecoyUTXO list \<Rightarrow> (nat \<Rightarrow> bytes option) \<Rightarrow> nat \<Rightarrow> nat \<Rightarrow> nat \<Rightarrow> ring_state \<Rightarrow> build_error + ring_state" where
  "ring_slot C decoys seed input realIdx i st =
     (case st of (ring, seen, di, fallbacks) \<Rightarrow>
      if i = realIdx then Inr st
      else if di < length decoys then
        (let pub = dc_OneTimePub (decoys ! di) in
         if pub \<in> seen then Inl (BDuplicateDecoy input) else Inr (ring[i := pub], insert pub seen, di + 1, fallbacks))
      else case GenerateWalletKeys C (seed i) of None \<Rightarrow> Inl (BFallbackKey input)
      | Some fake \<Rightarrow> Inr (ring[i := wk_spendPub fake], seen, di, fallbacks + 1))"

definition txBuildRing :: "('p::ab_group_add) curve \<Rightarrow> nat \<Rightarrow> point32 \<Rightarrow> DecoyUTXO list \<Rightarrow> nat option \<Rightarrow> (nat \<Rightarrow> bytes option)
    \<Rightarrow> build_error + point32 list \<times> nat \<times> nat" where
  "txBuildRing C input realPub decoys position seed =
     (case position of None \<Rightarrow> Inl (BRingPosition input) | Some realIdx \<Rightarrow>
      case foldE (ring_slot C decoys seed input realIdx) [0..<RingSize] (replicate RingSize 0, {realPub}, 0, 0) of Inl e \<Rightarrow> Inl e
      | Inr (ring, _, _, fallbacks) \<Rightarrow> Inr (ring[realIdx := realPub], realIdx, fallbacks))"

definition input_pubs :: "OwnedUTXO list \<Rightarrow> point32 set" where
  "input_pubs selected = (\<lambda>u. u_OneTimePub (ow_UTXO u)) ` set selected"

definition all_decoys :: "build_rnd \<Rightarrow> 'd TxBuilder \<Rightarrow> bool \<Rightarrow> OwnedUTXO list \<Rightarrow> build_error + DecoyUTXO list" where
  "all_decoys R b clsag selected =
     (if tb_decoys b \<noteq> [] then Inr (filter (\<lambda>d. dc_OneTimePub d \<notin> input_pubs selected) (tb_decoys b))
      else case tb_utxoSet b of None \<Rightarrow> Inr []
      | Some s \<Rightarrow>
          (case sampleChainDecoys (br_order R) (br_sampler R) s (int (length selected * (RingSize - 1))) (input_pubs selected) clsag (br_offsets R) of
             Inl _ \<Rightarrow> Inl BDecoys | Inr ds \<Rightarrow> Inr ds))"

text \<open>The decoys of the \<open>i\<close>-th ring.\<close>

definition ring_decoys :: "DecoyUTXO list \<Rightarrow> nat \<Rightarrow> DecoyUTXO list" where
  "ring_decoys ds i = take (RingSize - 1) (drop (i * (RingSize - 1)) ds)"

definition ring_commitments :: "commitment \<Rightarrow> DecoyUTXO list \<Rightarrow> nat \<Rightarrow> commitment list" where
  "ring_commitments own ds realIdx =
     map (\<lambda>j. if j = realIdx then own else dc_AmountCommit (ds ! (if j < realIdx then j else j - 1))) [0..<RingSize]"

record built_input =
  bi_input :: RingInput
  bi_priv :: scalar32
  bi_realIdx :: nat
  bi_fallbacks :: nat
  bi_coin :: OwnedUTXO

definition build_input :: "('p::ab_group_add) curve \<Rightarrow> build_rnd \<Rightarrow> scalar32 \<Rightarrow> bool \<Rightarrow> DecoyUTXO list \<Rightarrow> nat \<times> OwnedUTXO \<Rightarrow> build_error + built_input" where
  "build_input C R spendPriv clsag ds iu =
     (case iu of (i, u) \<Rightarrow>
      case AddScalars (ow_HsScalar u) spendPriv of Inl e \<Rightarrow> Inl (BOneTimeKey i e) | Inr oneTimePriv \<Rightarrow>
      let ringDecoys = ring_decoys ds i in
      if clsag \<and> length ringDecoys \<noteq> RingSize - 1 then Inl (BDecoyCount i)
      else case txBuildRing C i (u_OneTimePub (ow_UTXO u)) ringDecoys (br_position R i) (br_seed R i) of Inl e \<Rightarrow> Inl e
      | Inr (ring, realIdx, fallbacks) \<Rightarrow>
      case ComputeKeyImage C oneTimePriv (u_OneTimePub (ow_UTXO u)) of Inl e \<Rightarrow> Inl (BKeyImage i e) | Inr ki \<Rightarrow>
      Inr \<lparr>bi_input = \<lparr>in_KeyImage = ki, in_Ring = ring, in_AmountCommit = u_AmountCommit (ow_UTXO u),
             in_RingCommitments = (if clsag then ring_commitments (u_AmountCommit (ow_UTXO u)) ringDecoys realIdx else []),
             in_PseudoOut = 0, in_RealIndex = (if clsag then 0 else word_of_nat realIdx)\<rparr>,
           bi_priv = oneTimePriv, bi_realIdx = realIdx, bi_fallbacks = fallbacks, bi_coin = u\<rparr>)"

subsection \<open>Proofs and signatures\<close>

definition build_proofs :: "('p::ab_group_add) curve \<Rightarrow> (nat \<Rightarrow> randomness) \<Rightarrow> out_entry list \<Rightarrow> build_error + RangeProof option list" where
  "build_proofs C rnd entries =
     mapE (\<lambda>(i, e). case ProveRange C (oe_amount e) (oe_blind e) (rnd i) of Inl err \<Rightarrow> Inl (BRangeProof i err) | Inr p \<Rightarrow> Inr (Some p)) (enumerate 0 entries)"

text \<open>The pseudo outputs: random blinding factors except the last, which balances the outputs.  Without inputs the index of the last one
  is out of range and the builder panics.\<close>

definition pseudo_blinds :: "(nat \<Rightarrow> scalar32 option) \<Rightarrow> nat \<Rightarrow> scalar32 list \<Rightarrow> build_error + scalar32 list" where
  "pseudo_blinds rnd n outBlinds =
     (if n = 0 then Inl BPanicNoInput
      else case mapE (\<lambda>i. case rnd i of None \<Rightarrow> Inl (BPseudoBlind i) | Some r \<Rightarrow> Inr r) [0..<n - 1] of Inl e \<Rightarrow> Inl e
      | Inr rs \<Rightarrow> (case BlindSum (0 # outBlinds) rs of Inl e \<Rightarrow> Inl (BBlindSum e) | Inr r \<Rightarrow> Inr (rs @ [r])))"

definition pseudo_input :: "('p::ab_group_add) curve \<Rightarrow> nat \<times> built_input \<times> scalar32 \<Rightarrow> build_error + RingInput" where
  "pseudo_input C x =
     (case x of (i, bi, r) \<Rightarrow>
      case Commit C (ow_Amount (bi_coin bi)) r of Inl e \<Rightarrow> Inl (BPseudoOut i e) | Inr c \<Rightarrow> Inr ((bi_input bi)\<lparr>in_PseudoOut := c\<rparr>))"

definition sign_clsag :: "lib \<Rightarrow> ('p::ab_group_add) curve \<Rightarrow> build_rnd \<Rightarrow> hash32 \<Rightarrow> nat \<times> RingInput \<times> built_input \<times> scalar32 \<Rightarrow> build_error + CLSAGSignature" where
  "sign_clsag K C R txHash x =
     (case x of (i, inp, bi, pseudo) \<Rightarrow>
      lift_error (BSign i) (CLSAGSign C (ringSignMessage K txHash (word_of_nat i)) (in_Ring inp) (in_RingCommitments inp) (in_PseudoOut inp)
        (int (bi_realIdx bi)) (bi_priv bi) (ow_Blind (bi_coin bi)) pseudo (br_sign R i)))"

definition sign_mlsag :: "lib \<Rightarrow> ('p::ab_group_add) curve \<Rightarrow> build_rnd \<Rightarrow> u8 \<Rightarrow> hash32 \<Rightarrow> nat \<times> built_input \<Rightarrow> build_error + MLSAGSignature" where
  "sign_mlsag K C R version txHash x =
     (case x of (i, bi) \<Rightarrow>
      let msg = ringSignMessage K txHash (word_of_nat i); ring = in_Ring (bi_input bi); idx = int (bi_realIdx bi) in
      lift_error (BSign i)
        (if version = TxVersionCommitmentBinding
         then MLSAGSignV4 C msg ring idx (bi_priv bi) (ow_Blind (bi_coin bi)) (ow_Amount (bi_coin bi)) (br_sign R i)
         else MLSAGSign C msg ring idx (bi_priv bi) (br_sign R i)))"

text \<open>Assembling and signing, which the two builders share; the key image of an input is the one of its signature.\<close>

definition sign_tx :: "lib \<Rightarrow> ('p::ab_group_add) curve \<Rightarrow> build_rnd \<Rightarrow> bool \<Rightarrow> Transaction \<Rightarrow> built_input list \<Rightarrow> scalar32 list \<Rightarrow> build_error + Transaction" where
  "sign_tx K C R clsag tx bis outBlinds =
     (if clsag then
        (case pseudo_blinds (br_pseudo R) (length bis) outBlinds of Inl e \<Rightarrow> Inl e | Inr rs \<Rightarrow>
         case mapE (pseudo_input C) (enumerate 0 (zip bis rs)) of Inl e \<Rightarrow> Inl e | Inr inputs \<Rightarrow>
         let tx = tx\<lparr>tx_Inputs := inputs\<rparr> in
         case mapE (sign_clsag K C R (tx_Hash K tx)) (enumerate 0 (zip inputs (zip bis rs))) of Inl e \<Rightarrow> Inl e
         | Inr sigs \<Rightarrow> Inr (tx\<lparr>tx_CLSAGSignatures := map Some sigs,
              tx_Inputs := map2 (\<lambda>inp sig. inp\<lparr>in_KeyImage := cls_KeyImage sig\<rparr>) inputs sigs\<rparr>))
      else
        (let tx = tx\<lparr>tx_Inputs := map bi_input bis\<rparr> in
         case mapE (sign_mlsag K C R (tx_Version tx) (tx_Hash K tx)) (enumerate 0 bis) of Inl e \<Rightarrow> Inl e
         | Inr sigs \<Rightarrow> Inr (tx\<lparr>tx_Signatures := map Some sigs,
              tx_Inputs := map2 (\<lambda>inp sig. inp\<lparr>in_KeyImage := mls_KeyImage sig\<rparr>) (map bi_input bis) sigs\<rparr>)))"

definition check_openings :: "('p::ab_group_add) curve \<Rightarrow> OwnedUTXO list \<Rightarrow> build_error + unit" where
  "check_openings C selected =
     foldE (\<lambda>(i, u) _. if validateOwnedUTXOOpening C u then Inr () else Inl (BOpening i)) (enumerate 0 selected) ()"

text \<open>From the outputs on: decoys, rings, proofs, assembly, signatures.  \<open>tx\<close> holds the version, the fee and the payload.\<close>

definition finish_tx :: "lib \<Rightarrow> ('p::ab_group_add) curve \<Rightarrow> build_rnd \<Rightarrow> 'd TxBuilder \<Rightarrow> bool \<Rightarrow> Transaction \<Rightarrow> OwnedUTXO list \<Rightarrow> out_entry list
    \<Rightarrow> build_error + Transaction \<times> built_input list" where
  "finish_tx K C R b clsag tx selected entries =
     (case all_decoys R b clsag selected of Inl e \<Rightarrow> Inl e | Inr ds \<Rightarrow>
      case mapE (build_input C R (tb_spendPriv b) clsag ds) (enumerate 0 selected) of Inl e \<Rightarrow> Inl e | Inr bis \<Rightarrow>
      case build_proofs C (br_range R) entries of Inl e \<Rightarrow> Inl e | Inr proofs \<Rightarrow>
      case sign_tx K C R clsag (tx\<lparr>tx_Outputs := map oe_output entries, tx_RangeProofs := proofs\<rparr>) bis (map oe_blind entries) of Inl e \<Rightarrow> Inl e
      | Inr tx \<Rightarrow> Inr (tx, bis))"

subsection \<open>Build\<close>

record BuildResult =
  bd_Tx :: Transaction
  bd_ChangeAmount :: u64
  bd_TotalFee :: u64
  bd_InputCount :: nat
  bd_OutputCount :: nat
  bd_ChangeBlind :: scalar32
  bd_ChangeOutIdx :: int
  bd_PayBlind :: scalar32
  bd_PayOutIdx :: int
  bd_RealDecoyCount :: nat
  bd_FallbackDecoyCount :: nat
  bd_SelectedUTXOs :: "OwnedUTXO list"
  bd_paymentEphemeralSecret :: scalar32
  bd_hasPaymentProof :: bool

text \<open>The checks before coins are selected: whether it is a burn, the bytes of marker and payload, and the gas fee.\<close>

definition build_checks :: "lib \<Rightarrow> ('p::ab_group_add) curve \<Rightarrow> 'd TxBuilder \<Rightarrow> u64 \<Rightarrow> Address \<Rightarrow> Address \<Rightarrow> build_error + bool \<times> nat \<times> u64" where
  "build_checks K C b amount recipient changeAddr =
     (if amount = 0 then Inl BAmountZero
      else case DecodeAddress K recipient of Inl _ \<Rightarrow> Inl BRecipient | Inr _ \<Rightarrow>
      case DecodeAddress K changeAddr of Inl _ \<Rightarrow> Inl BChangeAddress | Inr _ \<Rightarrow>
      case (if tb_txVersion b = TxVersionAVM then
              (case tb_avmPayload b of None \<Rightarrow> Inl BAvmMissing | Some p \<Rightarrow> lift_error BAvmInvalid (avm_Validate K (Some p)))
            else if tb_avmPayload b \<noteq> None then Inl BAvmUnexpected else Inr ()) of Inl e \<Rightarrow> Inl e | Inr _ \<Rightarrow>
      let isBurn = IsBurnAddress K C recipient in
      if isBurn \<and> tb_txVersion b \<noteq> TxVersionCommitmentBinding \<and> \<not> txVersionUsesCLSAG (tb_txVersion b) then Inl BBurnVersion
      else let burnBytes = (if isBurn then length (IntentionalBurnExtra amount) else 0) in
      case tb_avmPayload b of None \<Rightarrow> Inr (isBurn, burnBytes, 0)
      | Some p \<Rightarrow> (case AVMGasFee (avm_GasLimit p) of None \<Rightarrow> Inl BGasFee | Some gas \<Rightarrow> Inr (isBurn, burnBytes + length (canonicalBytes True p), gas)))"

definition build_result :: "bool \<Rightarrow> bool \<Rightarrow> u64 \<Rightarrow> u64 \<Rightarrow> OwnedUTXO list \<Rightarrow> out_entry list \<Rightarrow> Transaction \<Rightarrow> built_input list \<Rightarrow> BuildResult" where
  "build_result isBurn proved changeAmount totalFee selected entries tx bis =
     \<lparr>bd_Tx = tx, bd_ChangeAmount = changeAmount, bd_TotalFee = totalFee, bd_InputCount = length bis, bd_OutputCount = length entries,
      bd_ChangeBlind = (if 0 < changeAmount then oe_blind (last entries) else 0),
      bd_ChangeOutIdx = (if 0 < changeAmount then (if isBurn then 0 else 1) else -1),
      bd_PayBlind = (if isBurn then 0 else oe_blind (hd entries)), bd_PayOutIdx = (if isBurn then -1 else 0),
      bd_RealDecoyCount = length bis * (RingSize - 1) - sum_list (map bi_fallbacks bis), bd_FallbackDecoyCount = sum_list (map bi_fallbacks bis),
      bd_SelectedUTXOs = selected, bd_paymentEphemeralSecret = (if proved \<and> \<not> isBurn then oe_ephemeral (hd entries) else 0),
      bd_hasPaymentProof = (proved \<and> \<not> isBurn)\<rparr>"

text \<open>From the selected coins on.\<close>

definition build_spend :: "lib \<Rightarrow> ('p::ab_group_add) curve \<Rightarrow> build_rnd \<Rightarrow> 'd TxBuilder \<Rightarrow> bool \<Rightarrow> u64 \<Rightarrow> Address \<Rightarrow> Address
    \<Rightarrow> OwnedUTXO list \<Rightarrow> u64 \<Rightarrow> u64 \<Rightarrow> build_error + BuildResult" where
  "build_spend K C R b isBurn amount recipient changeAddr selected totalIn fee =
     (let changeAmount = totalIn - amount - fee; totalFee = (if isBurn then fee + amount else fee) in
      if isBurn \<and> max_u64 - amount < fee then Inl BBurnFee
      else case Commit C totalFee 0 of Inl e \<Rightarrow> Inl (BFeeCommit e) | Inr feeCommit \<Rightarrow>
      case check_openings C selected of Inl e \<Rightarrow> Inl e | Inr _ \<Rightarrow>
      case build_outputs K C (br_output R) isBurn amount recipient changeAddr changeAmount (map ow_Blind selected) of Inl e \<Rightarrow> Inl e | Inr entries \<Rightarrow>
      case finish_tx K C R b (txVersionUsesCLSAG (tb_txVersion b))
             ((empty_tx (tb_txVersion b))\<lparr>tx_Fee := totalFee, tx_FeeCommit := feeCommit, tx_AVM := tb_avmPayload b,
                tx_Extra := (if isBurn then IntentionalBurnExtra amount else [])\<rparr>) selected entries of Inl e \<Rightarrow> Inl e
      | Inr (tx, bis) \<Rightarrow> Inr (build_result isBurn (tb_paymentRecipientProof b) changeAmount totalFee selected entries tx bis))"

definition Build :: "lib \<Rightarrow> ('p::ab_group_add) curve \<Rightarrow> build_rnd \<Rightarrow> 'd TxBuilder \<Rightarrow> u64 \<Rightarrow> Address \<Rightarrow> Address \<Rightarrow> build_error + BuildResult" where
  "Build K C R b amount recipient changeAddr =
     (case build_checks K C b amount recipient changeAddr of Inl e \<Rightarrow> Inl e | Inr (isBurn, extraBytes, gasFee) \<Rightarrow>
      case select_coins (tb_txVersion b) (tb_feePerByte b) isBurn extraBytes gasFee amount (dedup_pubs {} (br_sort R (tb_ownedUTXOs b))) of
        Inl e \<Rightarrow> Inl (BSelect e)
      | Inr (selected, totalIn, fee) \<Rightarrow> build_spend K C R b isBurn amount recipient changeAddr selected totalIn fee)"

text \<open>The check of the recipient proof; either way the ephemeral scalar is wiped.\<close>

datatype proof_error = ProofUnavailable | ProofIndex | ProofAddress | ProofDerivation crypto_error | ProofTxPubKey | ProofOneTimeKey

definition DiscardPaymentRecipientProof :: "BuildResult \<Rightarrow> BuildResult" where
  "DiscardPaymentRecipientProof r = r\<lparr>bd_paymentEphemeralSecret := 0, bd_hasPaymentProof := False\<rparr>"

definition VerifyPaymentRecipient :: "lib \<Rightarrow> ('p::ab_group_add) curve \<Rightarrow> BuildResult \<Rightarrow> Address \<Rightarrow> BuildResult \<times> (proof_error + unit)" where
  "VerifyPaymentRecipient K C r recipient =
     (DiscardPaymentRecipientProof r,
      if \<not> bd_hasPaymentProof r then Inl ProofUnavailable
      else if bd_PayOutIdx r < 0 \<or> int (length (tx_Outputs (bd_Tx r))) \<le> bd_PayOutIdx r then Inl ProofIndex
      else case DecodeAddress K recipient of Inl _ \<Rightarrow> Inl ProofAddress | Inr (_, spendPub, viewPub) \<Rightarrow>
      case CreateStealthOutputFromEphemeralBytes C spendPub viewPub (bd_paymentEphemeralSecret r) of Inl e \<Rightarrow> Inl (ProofDerivation e) | Inr expected \<Rightarrow>
      let actual = tx_Outputs (bd_Tx r) ! nat (bd_PayOutIdx r) in
      if out_TxPubKey actual \<noteq> so_TxPubKey expected then Inl ProofTxPubKey
      else if out_OneTimePub actual \<noteq> so_OneTimePub expected then Inl ProofOneTimeKey else Inr ())"

subsection \<open>Batch payments\<close>

type_synonym BatchRecipient = "Address \<times> u64"

record BatchBuildResult =
  bb_Tx :: Transaction
  bb_TotalFee :: u64
  bb_ChangeAmount :: u64
  bb_ChangeBlind :: scalar32
  bb_ChangeOutIdx :: int
  bb_PayBlinds :: "scalar32 list"
  bb_PayOutIdxs :: "nat list"
  bb_PayAmounts :: "u64 list"
  bb_RealDecoyCount :: nat
  bb_FallbackDecoyCount :: nat

definition check_recipient :: "lib \<Rightarrow> ('p::ab_group_add) curve \<Rightarrow> nat \<times> BatchRecipient \<Rightarrow> u64 \<Rightarrow> build_error + u64" where
  "check_recipient K C x totalAmount =
     (case x of (i, addr, amount) \<Rightarrow>
      if amount = 0 then Inl (BRecipientAmount i)
      else case DecodeAddress K addr of Inl _ \<Rightarrow> Inl (BRecipientAddress i) | Inr _ \<Rightarrow>
      if IsBurnAddress K C addr then Inl (BBurnRecipient i) else Inr (totalAmount + amount))"

definition payment_entry :: "lib \<Rightarrow> ('p::ab_group_add) curve \<Rightarrow> (nat \<Rightarrow> randomness) \<Rightarrow> nat \<times> BatchRecipient \<Rightarrow> build_error + out_entry" where
  "payment_entry K C rnd x =
     (case x of (i, addr, amount) \<Rightarrow>
      case txBuildOutput K C addr amount (rnd i) of Inl e \<Rightarrow> Inl e
      | Inr (out, blind) \<Rightarrow> Inr \<lparr>oe_output = out, oe_blind = blind, oe_amount = amount, oe_ephemeral = 0\<rparr>)"

text \<open>The balancing output: the change, or the last payment when there is no change.\<close>

definition balancing_entry :: "lib \<Rightarrow> ('p::ab_group_add) curve \<Rightarrow> randomness \<Rightarrow> Address \<Rightarrow> u64 \<Rightarrow> scalar32 list \<Rightarrow> scalar32 list \<Rightarrow> build_error + out_entry" where
  "balancing_entry K C rnd addr amount inBlinds outBlinds =
     (case BlindSum inBlinds outBlinds of Inl e \<Rightarrow> Inl (BBlindSum e) | Inr blind \<Rightarrow>
      case txBuildOutputWithBlind K C addr amount blind rnd of Inl e \<Rightarrow> Inl e
      | Inr out \<Rightarrow> Inr \<lparr>oe_output = out, oe_blind = blind, oe_amount = amount, oe_ephemeral = 0\<rparr>)"

definition multi_outputs :: "lib \<Rightarrow> ('p::ab_group_add) curve \<Rightarrow> (nat \<Rightarrow> randomness) \<Rightarrow> BatchRecipient list \<Rightarrow> Address \<Rightarrow> u64 \<Rightarrow> scalar32 list
    \<Rightarrow> build_error + out_entry list" where
  "multi_outputs K C rnd recipients changeAddr changeAmount inBlinds =
     (let pays = (if 0 < changeAmount then recipients else butlast recipients);
          (addr, amount) = (if 0 < changeAmount then (changeAddr, changeAmount) else last recipients) in
      case mapE (payment_entry K C rnd) (enumerate 0 pays) of Inl e \<Rightarrow> Inl e | Inr entries \<Rightarrow>
      case balancing_entry K C (rnd (length pays)) addr amount inBlinds (0 # map oe_blind entries) of Inl e \<Rightarrow> Inl e
      | Inr entry \<Rightarrow> Inr (entries @ [entry]))"

definition multi_result :: "u64 \<Rightarrow> u64 \<Rightarrow> BatchRecipient list \<Rightarrow> out_entry list \<Rightarrow> Transaction \<Rightarrow> built_input list \<Rightarrow> BatchBuildResult" where
  "multi_result changeAmount fee recipients entries tx bis =
     \<lparr>bb_Tx = tx, bb_TotalFee = fee, bb_ChangeAmount = changeAmount, bb_ChangeBlind = (if 0 < changeAmount then oe_blind (last entries) else 0),
      bb_ChangeOutIdx = (if 0 < changeAmount then int (length recipients) else -1), bb_PayBlinds = map oe_blind (take (length recipients) entries),
      bb_PayOutIdxs = [0..<length recipients], bb_PayAmounts = map snd recipients,
      bb_RealDecoyCount = length bis * (RingSize - 1) - sum_list (map bi_fallbacks bis), bb_FallbackDecoyCount = sum_list (map bi_fallbacks bis)\<rparr>"

definition multi_spend :: "lib \<Rightarrow> ('p::ab_group_add) curve \<Rightarrow> build_rnd \<Rightarrow> 'd TxBuilder \<Rightarrow> BatchRecipient list \<Rightarrow> Address \<Rightarrow> u64
    \<Rightarrow> OwnedUTXO list \<Rightarrow> u64 \<Rightarrow> build_error + BatchBuildResult" where
  "multi_spend K C R b recipients changeAddr changeAmount selected fee =
     (case Commit C fee 0 of Inl e \<Rightarrow> Inl (BFeeCommit e) | Inr feeCommit \<Rightarrow>
      case check_openings C selected of Inl e \<Rightarrow> Inl e | Inr _ \<Rightarrow>
      case multi_outputs K C (br_output R) recipients changeAddr changeAmount (map ow_Blind selected) of Inl e \<Rightarrow> Inl e | Inr entries \<Rightarrow>
      case finish_tx K C R b (tb_txVersion b = TxVersionCLSAG) ((empty_tx (tb_txVersion b))\<lparr>tx_Fee := fee, tx_FeeCommit := feeCommit\<rparr>)
             selected entries of Inl e \<Rightarrow> Inl e
      | Inr (tx, bis) \<Rightarrow> Inr (multi_result changeAmount fee recipients entries tx bis))"

definition BuildMulti :: "lib \<Rightarrow> ('p::ab_group_add) curve \<Rightarrow> build_rnd \<Rightarrow> 'd TxBuilder \<Rightarrow> BatchRecipient list \<Rightarrow> Address \<Rightarrow> build_error + BatchBuildResult" where
  "BuildMulti K C R b recipients changeAddr =
     (if recipients = [] \<or> 15 < length recipients then Inl BRecipientCount
      else case foldE (check_recipient K C) (enumerate 0 recipients) 0 of Inl e \<Rightarrow> Inl e | Inr totalAmount \<Rightarrow>
      case DecodeAddress K changeAddr of Inl _ \<Rightarrow> Inl BChangeAddress | Inr _ \<Rightarrow>
      let nOut = length recipients + 1;
          needed = totalAmount + txEstimateFeeVersion (tb_txVersion b) 1 nOut (tb_feePerByte b);
          (selected, totalIn) = greedy_select needed (dedup_pubs {} (br_sort R (tb_ownedUTXOs b))) [] 0;
          fee = txEstimateFeeVersion (tb_txVersion b) (length selected) nOut (tb_feePerByte b) in
      if totalIn < totalAmount + fee then Inl (BSelect InsufficientFunds)
      else multi_spend K C R b recipients changeAddr (totalIn - totalAmount - fee) selected fee)"

end
