(* ===== verification/Built_Spend.thy ===== *)
theory Built_Spend
  imports Tx_Builder
begin

text \<open>
  What the transaction builder produces, the verifier accepts.  The lemmas follow the builder: the balancing blinding factors, the rings around the
  real keys, the range proofs and the signatures; the property puts them together with the verifier of \<open>core/tx_verifier.go\<close>.
\<close>

section \<open>Lists with errors\<close>

lemma mapE_Inr: "mapE f xs = Inr ys \<longleftrightarrow> list_all2 (\<lambda>x y. f x = Inr y) xs ys"
proof (induction xs arbitrary: ys)
  case (Cons x xs)
  show ?case by (cases ys; cases "f x"; cases "mapE f xs") (simp_all flip: Cons.IH)
qed auto

lemma mapE_ok: "(\<And>x. x \<in> set xs \<Longrightarrow> \<exists>y. f x = Inr y) \<Longrightarrow> \<exists>ys. mapE f xs = Inr ys"
proof (induction xs)
  case (Cons x xs)
  obtain y where "f x = Inr y" using Cons.prems [of x] by auto
  moreover obtain ys where "mapE f xs = Inr ys" using Cons by auto
  ultimately show ?case by simp
qed simp

lemma mapE_nth: "mapE f (enumerate 0 xs) = Inr ys \<longleftrightarrow> length ys = length xs \<and> (\<forall>i < length xs. f (i, xs ! i) = Inr (ys ! i))"
  by (auto simp: mapE_Inr list_all2_conv_all_nth nth_enumerate_eq)

lemma mapE_choose:
  assumes "\<And>i. i < length xs \<Longrightarrow> \<exists>y. f (i, xs ! i) = Inr y \<and> P i y"
  shows "\<exists>ys. mapE f (enumerate 0 xs) = Inr ys \<and> length ys = length xs \<and> (\<forall>i < length xs. P i (ys ! i))"
proof -
  have "\<exists>y. f p = Inr y" if "p \<in> set (enumerate 0 xs)" for p using assms that by (cases p) (auto simp: in_set_enumerate_eq)
  then obtain ys where "mapE f (enumerate 0 xs) = Inr ys" using mapE_ok by blast
  moreover from this have "length ys = length xs" "\<forall>i < length xs. f (i, xs ! i) = Inr (ys ! i)" by (simp_all add: mapE_nth)
  ultimately show ?thesis using assms by fastforce
qed

section \<open>Balancing blinding factors\<close>

lemma add_blinds: "list_all2 (\<lambda>b r. ScalarFromBytes b = Some r) bs rs \<Longrightarrow> sc_ok acc \<Longrightarrow> foldE add_blind bs acc = Inr ((acc + sum_list rs) mod ell)"
proof (induction arbitrary: acc rule: list_all2_induct)
  case Nil
  then show ?case by (simp add: sc_ok_def)
next
  case (Cons b bs r rs)
  then show ?case by (simp add: add_blind_def sc_add_def mod_simps add.assoc)
qed

lemma sub_blinds: "list_all2 (\<lambda>b r. ScalarFromBytes b = Some r) bs rs \<Longrightarrow> sc_ok acc \<Longrightarrow> foldE sub_blind bs acc = Inr ((acc - sum_list rs) mod ell)"
proof (induction arbitrary: acc rule: list_all2_induct)
  case Nil
  then show ?case by (simp add: sc_ok_def)
next
  case (Cons b bs r rs)
  have "sc_ok (sc_add acc (sc_neg r))" by simp
  moreover have "(sc_add acc (sc_neg r) - sum_list rs) mod ell = (acc - sum_list (r # rs)) mod ell"
    by (simp add: sc_add_def sc_neg_def mod_simps algebra_simps)
  ultimately show ?case using Cons by (simp add: sub_blind_def)
qed

lemma BlindSum_value:
  assumes "list_all2 (\<lambda>b r. ScalarFromBytes b = Some r) ins rs" and "list_all2 (\<lambda>b r. ScalarFromBytes b = Some r) outs qs"
  shows "BlindSum ins outs = Inr (sc_bytes ((sum_list rs - sum_list qs) mod ell))"
proof -
  have "sc_ok 0" by (simp add: sc_ok_def)
  moreover have "sc_ok ((0 + sum_list rs) mod ell)" by (simp add: sc_ok_def)
  ultimately show ?thesis
    unfolding BlindSum_def using add_blinds [OF assms(1), of 0] sub_blinds [OF assms(2), of "(0 + sum_list rs) mod ell"] by (simp add: mod_simps)
qed

lemma balanced_commitments:
  assumes ok: "curve_ok C" and ins: "opens C cin is" and outs: "opens C cout os"
    and blinds: "ell dvd blinds is - blinds os" and amounts: "amounts is = amounts os + int (unat fee)"
  shows "CommitSum C cin cout (fee_commit C fee) = Inr True"
proof -
  have "base_mul C (blinds is - blinds os) = base_mul C ((blinds is - blinds os) mod ell)" using ok by simp
  also have "\<dots> = 0" using blinds by (simp add: dvd_imp_mod_0 base_mul_def)
  finally show ?thesis
    using CommitSum_opens [OF ok ins outs, of "int (unat fee)"] amounts by (simp add: fee_commit_def)
qed

section \<open>Rings\<close>

definition ring_with :: "nat \<Rightarrow> 'a \<Rightarrow> 'a list \<Rightarrow> 'a list" where
  "ring_with r x ds = take r ds @ x # drop r ds"

lemma ring_with_nth: "r \<le> length ds \<Longrightarrow> i \<le> length ds \<Longrightarrow> ring_with r x ds ! i = (if i = r then x else ds ! (if i < r then i else i - 1))"
  by (auto simp: ring_with_def nth_append nth_Cons' min_def)

lemma ring_with_facts:
  "r \<le> length ds \<Longrightarrow> length (ring_with r x ds) = Suc (length ds)" "r \<le> length ds \<Longrightarrow> ring_with r x ds ! r = x"
  "set (ring_with r x ds) = insert x (set ds)" "distinct (ring_with r x ds) \<longleftrightarrow> distinct ds \<and> x \<notin> set ds"
proof -
  show "r \<le> length ds \<Longrightarrow> length (ring_with r x ds) = Suc (length ds)" "r \<le> length ds \<Longrightarrow> ring_with r x ds ! r = x"
    by (simp_all add: ring_with_def nth_append)
  have m: "mset (ring_with r x ds) = mset (x # ds)"
    unfolding ring_with_def mset_append mset.simps using arg_cong [OF append_take_drop_id [of r ds], of mset, unfolded mset_append] by simp
  show "set (ring_with r x ds) = insert x (set ds)" using mset_eq_setD [OF m] by simp
  show "distinct (ring_with r x ds) \<longleftrightarrow> distinct ds \<and> x \<notin> set ds" using mset_eq_imp_distinct_iff [OF m] by auto
qed

lemma ring_with_map: "map f (ring_with r x ds) = ring_with r (f x) (map f ds)"
  by (simp add: ring_with_def take_map drop_map)

text \<open>Enough distinct decoys fill the ring around the real key, without fallback.\<close>

lemma ring_slot_own: "ring_slot C ds seed n r r st = Inr st"
  by (simp add: ring_slot_def split: prod.splits)

lemma ring_slot_decoy:
  assumes "i \<noteq> r" and "di < length P" and "P = map dc_OneTimePub ds" and "P ! di \<notin> seen"
  shows "ring_slot C ds seed n r i (ring, seen, di, f) = Inr (ring[i := P ! di], insert (P ! di) seen, Suc di, f)"
  using assms by (simp add: ring_slot_def Let_def)

lemma fresh_nth: "distinct P \<Longrightarrow> d < length P \<Longrightarrow> P ! d \<notin> set (take d P)"
  using nth_eq_iff_index_eq by (fastforce simp: in_set_conv_nth)

lemma ring_slots:
  assumes len: "length ds = RingSize - 1" and r: "r < RingSize" and dist: "distinct (map dc_OneTimePub ds)" and own: "x \<notin> dc_OneTimePub ` set ds"
    and i: "i \<le> RingSize"
  shows "foldE (ring_slot C ds seed n r) [0..<i] (replicate RingSize 0, {x}, 0, 0)
    = Inr (take i (ring_with r 0 (map dc_OneTimePub ds)) @ replicate (RingSize - i) 0,
           insert x (set (take (if i \<le> r then i else i - 1) (map dc_OneTimePub ds))), if i \<le> r then i else i - 1, 0)"
  using i
proof (induction i)
  case (Suc i)
  define P where "P = map dc_OneTimePub ds"
  define F where "F = ring_with r 0 P"
  define d where "d = (if i \<le> r then i else i - 1)"
  have P: "length P = RingSize - 1" "distinct P" "x \<notin> set P" using len dist own by (simp_all add: P_def)
  have F: "length F = RingSize" using ring_with_facts(1) [of r P 0] P r by (simp add: F_def RingSize_def)
  have rep: "replicate (RingSize - i) 0 = 0 # replicate (RingSize - Suc i) (0 :: point32)" using Suc.prems by (metis Suc_diff_Suc Suc_le_lessD replicate_Suc)
  have IH: "foldE (ring_slot C ds seed n r) [0..<i] (replicate RingSize 0, {x}, 0, 0)
    = Inr (take i F @ replicate (RingSize - i) 0, insert x (set (take d P)), d, 0)" using Suc by (simp add: P_def F_def d_def)
  have take: "take (Suc i) F = take i F @ [F ! i]" using F Suc.prems by (simp add: take_Suc_conv_app_nth)
  have Fi: "F ! i = (if i = r then 0 else P ! d)" using ring_with_nth [of r P i 0] P r Suc.prems by (simp add: RingSize_def F_def d_def)
  have step: "ring_slot C ds seed n r i (take i F @ replicate (RingSize - i) 0, insert x (set (take d P)), d, 0)
    = Inr (take (Suc i) F @ replicate (RingSize - Suc i) 0, insert x (set (take (if Suc i \<le> r then Suc i else i) P)), if Suc i \<le> r then Suc i else i, 0)"
  proof (cases "i = r")
    case True
    have "take i F @ replicate (RingSize - i) 0 = take (Suc i) F @ replicate (RingSize - Suc i) 0" unfolding take rep using Fi True by simp
    then show ?thesis using True by (simp add: ring_slot_own d_def)
  next
    case False
    have d: "d < length P" using False P(1) r Suc.prems by (simp add: d_def RingSize_def) arith
    have "P ! d \<notin> insert x (set (take d P))" using fresh_nth [OF P(2) d] P(3) d by auto
    from ring_slot_decoy [OF False d P_def this]
    have "ring_slot C ds seed n r i (take i F @ replicate (RingSize - i) 0, insert x (set (take d P)), d, 0)
      = Inr ((take i F @ replicate (RingSize - i) 0)[i := P ! d], insert (P ! d) (insert x (set (take d P))), Suc d, 0)" .
    moreover have "(take i F @ replicate (RingSize - i) 0)[i := P ! d] = take (Suc i) F @ replicate (RingSize - Suc i) 0"
      unfolding rep take using F Suc.prems Fi False by (simp add: list_update_append)
    moreover have "insert (P ! d) (insert x (set (take d P))) = insert x (set (take (Suc d) P))" using d by (simp add: take_Suc_conv_app_nth insert_commute)
    moreover have "Suc d = (if Suc i \<le> r then Suc i else i)" using False by (simp add: d_def)
    ultimately show ?thesis by simp
  qed
  show ?case using IH step by (simp add: foldE_append P_def F_def)
qed simp

lemma txBuildRing_decoys:
  assumes len: "length ds = RingSize - 1" and r: "r < RingSize" and dist: "distinct (map dc_OneTimePub ds)" and own: "x \<notin> dc_OneTimePub ` set ds"
  shows "txBuildRing C n x ds (Some r) seed = Inr (ring_with r x (map dc_OneTimePub ds), r, 0)"
proof -
  have "(ring_with r 0 (map dc_OneTimePub ds))[r := x] = ring_with r x (map dc_OneTimePub ds)"
    using len r by (simp add: ring_with_def list_update_append RingSize_def)
  moreover have "length (ring_with r 0 (map dc_OneTimePub ds)) = RingSize" using ring_with_facts(1) [of r "map dc_OneTimePub ds"] len r by (simp add: RingSize_def)
  ultimately show ?thesis using ring_slots [OF assms le_refl, of C seed n] by (simp add: txBuildRing_def)
qed

lemma ring_commitments_with:
  assumes "length ds = RingSize - 1" and "r < RingSize"
  shows "ring_commitments c ds r = ring_with r c (map dc_AmountCommit ds)"
proof (rule nth_equalityI)
  show "length (ring_commitments c ds r) = length (ring_with r c (map dc_AmountCommit ds))"
    using assms ring_with_facts(1) [of r "map dc_AmountCommit ds"] by (simp add: ring_commitments_def RingSize_def)
  fix i assume "i < length (ring_commitments c ds r)"
  then have i: "i < RingSize" by (simp add: ring_commitments_def)
  then show "ring_commitments c ds r ! i = ring_with r c (map dc_AmountCommit ds) ! i"
    using assms ring_with_nth [of r "map dc_AmountCommit ds" i c] by (auto simp: ring_commitments_def RingSize_def)
qed

section \<open>Owned coins and their rings\<close>

definition coin_image :: "('p::ab_group_add) curve \<Rightarrow> scalar32 \<Rightarrow> OwnedUTXO \<Rightarrow> key_image" where
  "coin_image C spendPriv u =
     (case AddScalars (ow_HsScalar u) spendPriv of Inl _ \<Rightarrow> 0 | Inr k \<Rightarrow>
      (case ComputeKeyImage C k (u_OneTimePub (ow_UTXO u)) of Inl _ \<Rightarrow> 0 | Inr ki \<Rightarrow> ki))"

text \<open>The wallet holds the one-time key \<open>x\<close> of the output and the blinding factor \<open>r\<close> of its commitment.\<close>

definition own_coin :: "('p::ab_group_add) curve \<Rightarrow> scalar32 \<Rightarrow> OwnedUTXO \<Rightarrow> int \<Rightarrow> int \<Rightarrow> bool" where
  "own_coin C spendPriv u x r \<longleftrightarrow> sc_ok x \<and> sc_ok r \<and> AddScalars (ow_HsScalar u) spendPriv = Inr (sc_bytes x)
     \<and> u_OneTimePub (ow_UTXO u) = cv_bytes C (base_mul C x) \<and> base_mul C x \<noteq> 0
     \<and> smul x (ring_hash C (cv_bytes C (base_mul C x))) \<noteq> 0 \<and> coin_image C spendPriv u \<noteq> 0
     \<and> ow_Blind u = sc_bytes r \<and> u_AmountCommit (ow_UTXO u) = cv_bytes C (pedersen C r (scalarFromUint64 (ow_Amount u)))"

text \<open>A decoy is an encoded point, for CLSAG of prime order and with a commitment of prime order.\<close>

definition decoy_ok :: "('p::ab_group_add) curve \<Rightarrow> bool \<Rightarrow> DecoyUTXO \<Rightarrow> bool" where
  "decoy_ok C clsag d \<longleftrightarrow>
     (\<exists>P Q. dc_OneTimePub d = cv_bytes C P \<and> (clsag \<longrightarrow> P \<noteq> 0 \<and> smul ell P = 0 \<and> dc_AmountCommit d = cv_bytes C Q \<and> smul ell Q = 0))"

definition ring_ready :: "('p::ab_group_add) curve \<Rightarrow> build_rnd \<Rightarrow> bool \<Rightarrow> DecoyUTXO list \<Rightarrow> nat \<Rightarrow> OwnedUTXO \<Rightarrow> bool" where
  "ring_ready C R clsag ds i u \<longleftrightarrow> (\<exists>p < RingSize. br_position R i = Some p) \<and> length (ring_decoys ds i) = RingSize - 1
     \<and> distinct (map dc_OneTimePub (ring_decoys ds i)) \<and> u_OneTimePub (ow_UTXO u) \<notin> dc_OneTimePub ` set (ring_decoys ds i)
     \<and> (\<forall>d \<in> set (ring_decoys ds i). decoy_ok C clsag d)"

definition made_input :: "('p::ab_group_add) curve \<Rightarrow> build_rnd \<Rightarrow> scalar32 \<Rightarrow> bool \<Rightarrow> DecoyUTXO list \<Rightarrow> nat \<Rightarrow> OwnedUTXO \<Rightarrow> int \<Rightarrow> built_input" where
  "made_input C R spendPriv clsag ds i u x =
     (let p = the (br_position R i); rd = ring_decoys ds i in
      \<lparr>bi_input = \<lparr>in_KeyImage = coin_image C spendPriv u, in_Ring = ring_with p (u_OneTimePub (ow_UTXO u)) (map dc_OneTimePub rd),
         in_AmountCommit = u_AmountCommit (ow_UTXO u),
         in_RingCommitments = (if clsag then ring_with p (u_AmountCommit (ow_UTXO u)) (map dc_AmountCommit rd) else []),
         in_PseudoOut = 0, in_RealIndex = (if clsag then 0 else word_of_nat p)\<rparr>,
       bi_priv = sc_bytes x, bi_realIdx = p, bi_fallbacks = 0, bi_coin = u\<rparr>)"

lemma build_input_made:
  assumes own: "own_coin C spendPriv u x r" and ready: "ring_ready C R clsag ds i u"
  shows "build_input C R spendPriv clsag ds (i, u) = Inr (made_input C R spendPriv clsag ds i u x)"
proof -
  obtain p where p: "br_position R i = Some p" "p < RingSize" using ready by (auto simp: ring_ready_def)
  have rd: "length (ring_decoys ds i) = RingSize - 1" "distinct (map dc_OneTimePub (ring_decoys ds i))"
    "u_OneTimePub (ow_UTXO u) \<notin> dc_OneTimePub ` set (ring_decoys ds i)" using ready by (auto simp: ring_ready_def)
  have ki: "ComputeKeyImage C (sc_bytes x) (u_OneTimePub (ow_UTXO u)) = Inr (coin_image C spendPriv u)"
    using own by (simp add: own_coin_def coin_image_def ComputeKeyImage_def)
  show ?thesis
    using own txBuildRing_decoys [OF rd(1) p(2) rd(2,3), of C i "br_seed R i"] ki rd p
    by (simp add: build_input_def own_coin_def made_input_def Let_def ring_commitments_with)
qed

lemma points_of: "(\<And>b. b \<in> set bs \<Longrightarrow> \<exists>P. b = cv_bytes C P \<and> Q P) \<Longrightarrow> \<exists>ps. bs = map (cv_bytes C) ps \<and> (\<forall>P \<in> set ps. Q P)"
proof (induction bs)
  case (Cons b bs)
  obtain P where "b = cv_bytes C P" "Q P" using Cons.prems [of b] by auto
  moreover obtain ps where "bs = map (cv_bytes C) ps" "\<forall>P \<in> set ps. Q P" using Cons by auto
  ultimately show ?case by (intro exI [of _ "P # ps"]) simp
qed simp

text \<open>The ring of a built input as points: the real key at the drawn position among different members.\<close>

lemma made_ring:
  assumes ok: "curve_ok C" and own: "own_coin C spendPriv u x r" and ready: "ring_ready C R clsag ds i u"
  defines "bi \<equiv> made_input C R spendPriv clsag ds i u x"
  shows "\<exists>keys. in_Ring (bi_input bi) = map (cv_bytes C) keys \<and> length keys = RingSize \<and> distinct keys \<and> bi_realIdx bi < RingSize
     \<and> keys ! bi_realIdx bi = base_mul C x \<and> (clsag \<longrightarrow> (\<forall>P \<in> set keys. P \<noteq> 0 \<and> smul ell P = 0))"
proof -
  let ?rd = "ring_decoys ds i"
  obtain p where p: "br_position R i = Some p" "p < RingSize" using ready by (auto simp: ring_ready_def)
  have rd: "length ?rd = RingSize - 1" "distinct (map dc_OneTimePub ?rd)" "u_OneTimePub (ow_UTXO u) \<notin> dc_OneTimePub ` set ?rd"
    "\<forall>d \<in> set ?rd. decoy_ok C clsag d" using ready by (auto simp: ring_ready_def)
  have "\<exists>P. b = cv_bytes C P \<and> (clsag \<longrightarrow> P \<noteq> 0 \<and> smul ell P = 0)" if "b \<in> set (map dc_OneTimePub ?rd)" for b
    using that rd(4) by (auto simp: decoy_ok_def)
  from points_of [OF this] obtain ps where ps: "map dc_OneTimePub ?rd = map (cv_bytes C) ps" "\<forall>P \<in> set ps. clsag \<longrightarrow> P \<noteq> 0 \<and> smul ell P = 0" by metis
  have len: "length ps = RingSize - 1" using rd(1) ps(1) by (metis length_map)
  have ring: "in_Ring (bi_input bi) = map (cv_bytes C) (ring_with p (base_mul C x) ps)"
    using own p by (simp add: bi_def made_input_def own_coin_def ring_with_map ps(1))
  have "distinct (ring_with p (u_OneTimePub (ow_UTXO u)) (map dc_OneTimePub ?rd))" using rd(2,3) by (simp add: ring_with_facts(4))
  then have "distinct (map (cv_bytes C) (ring_with p (base_mul C x) ps))" using own ps(1) by (simp add: own_coin_def ring_with_map)
  then have "distinct (ring_with p (base_mul C x) ps)" by (simp add: distinct_map)
  moreover have "length (ring_with p (base_mul C x) ps) = RingSize" "ring_with p (base_mul C x) ps ! p = base_mul C x"
    using ring_with_facts(1,2) [of p ps] len p by (simp_all add: RingSize_def)
  moreover have "bi_realIdx bi = p" using p by (simp add: bi_def made_input_def Let_def)
  moreover have "base_mul C x \<noteq> 0" "smul ell (base_mul C x) = 0" using own ok by (simp_all add: own_coin_def)
  ultimately show ?thesis using ring ps(2) p(2) by (intro exI [of _ "ring_with p (base_mul C x) ps"]) (simp add: ring_with_facts(3))
qed

lemma made_commitments:
  assumes ok: "curve_ok C" and own: "own_coin C spendPriv u x r" and ready: "ring_ready C R True ds i u"
  defines "bi \<equiv> made_input C R spendPriv True ds i u x"
  shows "\<exists>cs. in_RingCommitments (bi_input bi) = map (cv_bytes C) cs \<and> length cs = RingSize
     \<and> cs ! bi_realIdx bi = pedersen C r (scalarFromUint64 (ow_Amount u)) \<and> (\<forall>P \<in> set cs. smul ell P = 0)"
proof -
  let ?rd = "ring_decoys ds i" and ?c = "pedersen C r (scalarFromUint64 (ow_Amount u))"
  obtain p where p: "br_position R i = Some p" "p < RingSize" using ready by (auto simp: ring_ready_def)
  have rd: "length ?rd = RingSize - 1" "\<forall>d \<in> set ?rd. decoy_ok C True d" using ready by (auto simp: ring_ready_def)
  have "\<exists>P. b = cv_bytes C P \<and> smul ell P = 0" if "b \<in> set (map dc_AmountCommit ?rd)" for b
    using that rd(2) by (auto simp: decoy_ok_def)
  from points_of [OF this] obtain ps where ps: "map dc_AmountCommit ?rd = map (cv_bytes C) ps" "\<forall>P \<in> set ps. smul ell P = 0" by metis
  have len: "length ps = RingSize - 1" using rd(1) ps(1) by (metis length_map)
  have "in_RingCommitments (bi_input bi) = map (cv_bytes C) (ring_with p ?c ps)"
    using own p by (simp add: bi_def made_input_def own_coin_def ring_with_map ps(1))
  moreover have "length (ring_with p ?c ps) = RingSize" "ring_with p ?c ps ! p = ?c"
    using ring_with_facts(1,2) [of p ps] len p by (simp_all add: RingSize_def)
  moreover have "bi_realIdx bi = p" using p by (simp add: bi_def made_input_def Let_def)
  moreover have "smul ell ?c = 0" using ok by (rule pedersen_order)
  ultimately show ?thesis using ps(2) by (intro exI [of _ "ring_with p ?c ps"]) (simp add: ring_with_facts(3))
qed

section \<open>Signatures\<close>

lemma own_image: "own_coin C spendPriv u x r \<Longrightarrow> coin_image C spendPriv u = cv_bytes C (smul x (ring_hash C (cv_bytes C (base_mul C x))))"
  by (simp add: own_coin_def coin_image_def ComputeKeyImage_def ring_hash_def)

lemma made_input_fields:
  "bi_priv (made_input C R spendPriv clsag ds i u x) = sc_bytes x" "bi_coin (made_input C R spendPriv clsag ds i u x) = u"
  "in_KeyImage (bi_input (made_input C R spendPriv clsag ds i u x)) = coin_image C spendPriv u"
  "in_AmountCommit (bi_input (made_input C R spendPriv clsag ds i u x)) = u_AmountCommit (ow_UTXO u)"
  "in_RealIndex (bi_input (made_input C R spendPriv False ds i u x)) = word_of_nat (bi_realIdx (made_input C R spendPriv False ds i u x))"
  "in_RealIndex (bi_input (made_input C R spendPriv True ds i u x)) = 0"
  by (simp_all add: made_input_def Let_def)

lemma v4_input_signed:
  assumes ok: "curve_ok C" and own: "own_coin C spendPriv u x r" and ready: "ring_ready C R False ds i u" and rnd: "draws (br_sign R i) (3 * RingSize + 1)"
  defines "bi \<equiv> made_input C R spendPriv False ds i u x"
  shows "\<exists>sig. sign_mlsag K C R TxVersionCommitmentBinding txHash (i, bi) = Inr sig \<and> mls_KeyImage sig = coin_image C spendPriv u
    \<and> MLSAGVerifyV4 C (ringSignMessage K txHash (word_of_nat i)) (in_Ring (bi_input bi)) (u_AmountCommit (ow_UTXO u))
        (int (unat (in_RealIndex (bi_input bi)))) (Some sig) = Inr True"
proof -
  obtain keys where keys: "in_Ring (bi_input bi) = map (cv_bytes C) keys" "length keys = RingSize" "distinct keys" "bi_realIdx bi < RingSize"
    "keys ! bi_realIdx bi = base_mul C x" using made_ring [OF ok own ready] unfolding bi_def by blast
  have bi: "bi_priv bi = sc_bytes x" "bi_coin bi = u" by (simp_all add: bi_def made_input_fields)
  have idx: "int (unat (in_RealIndex (bi_input bi))) = int (bi_realIdx bi)"
    using keys(4) by (simp add: bi_def made_input_fields unat_of_nat RingSize_def)
  have x: "sc_ok x" "keys ! nat (int (bi_realIdx bi)) = base_mul C x" "sc_ok r" "smul x (ring_hash C (cv_bytes C (base_mul C x))) \<noteq> 0"
    and commit: "ow_Blind u = sc_bytes r" "u_AmountCommit (ow_UTXO u) = cv_bytes C (pedersen C r (scalarFromUint64 (ow_Amount u)))"
    using own keys(5) by (simp_all add: own_coin_def)
  have "0 \<le> int (bi_realIdx bi)" "int (bi_realIdx bi) < int RingSize" using keys(4) by simp_all
  from mlsag_signs [OF ok keys(2,3) this x rnd, of "ringSignMessage K txHash (word_of_nat i)" "ow_Amount u", THEN conjunct2]
  show ?thesis unfolding idx commit(2) keys(1) own_image [OF own]
    by (auto simp: sign_mlsag_def lift_error_def Let_def keys(1) commit(1) bi)
qed

lemma clsag_input_signed:
  assumes ok: "curve_ok C" and own: "own_coin C spendPriv u x r" and ready: "ring_ready C R True ds i u" and rnd: "draws (br_sign R i) RingSize"
    and q: "sc_ok q"
  defines "bi \<equiv> made_input C R spendPriv True ds i u x" and "pseudo \<equiv> cv_bytes C (pedersen C q (scalarFromUint64 (ow_Amount u)))"
  shows "\<exists>sig. sign_clsag K C R txHash (i, (bi_input bi)\<lparr>in_PseudoOut := pseudo\<rparr>, bi, sc_bytes q) = Inr sig \<and> cls_KeyImage sig = coin_image C spendPriv u
    \<and> CLSAGVerify C (ringSignMessage K txHash (word_of_nat i)) (in_Ring (bi_input bi)) (in_RingCommitments (bi_input bi)) pseudo (Some sig) = Inr True"
proof -
  obtain keys where keys: "in_Ring (bi_input bi) = map (cv_bytes C) keys" "length keys = RingSize" "distinct keys" "bi_realIdx bi < RingSize"
    "keys ! bi_realIdx bi = base_mul C x" "\<forall>P \<in> set keys. P \<noteq> 0 \<and> smul ell P = 0" using made_ring [OF ok own ready] unfolding bi_def by blast
  obtain cs where cs: "in_RingCommitments (bi_input bi) = map (cv_bytes C) cs" "length cs = RingSize"
    "cs ! bi_realIdx bi = pedersen C r (scalarFromUint64 (ow_Amount u))" "\<forall>P \<in> set cs. smul ell P = 0"
    using made_commitments [OF ok own ready] unfolding bi_def by blast
  have bi: "bi_priv bi = sc_bytes x" "bi_coin bi = u" by (simp_all add: bi_def made_input_fields)
  let ?p = "pedersen C q (scalarFromUint64 (ow_Amount u))"
  have x: "sc_ok x" "keys ! nat (int (bi_realIdx bi)) = base_mul C x" and r: "sc_ok r" and im: "smul x (ring_hash C (cv_bytes C (base_mul C x))) \<noteq> 0"
    and blind: "ow_Blind u = sc_bytes r" using own keys(5) by (simp_all add: own_coin_def)
  have diff: "cs ! nat (int (bi_realIdx bi)) - ?p = base_mul C (r - q)" using cs(3) by (simp add: pedersen_def base_mul_def smul_simps)
  have "0 \<le> int (bi_realIdx bi)" "int (bi_realIdx bi) < int RingSize" using keys(4) by simp_all
  from clsag_signs [OF ok keys(2) cs(2) keys(3,6) cs(4) pedersen_order [OF ok] this x r q diff im rnd, of "ringSignMessage K txHash (word_of_nat i)"]
  show ?thesis unfolding pseudo_def own_image [OF own]
    by (auto simp: sign_clsag_def lift_error_def keys(1) cs(1) blind bi)
qed

section \<open>Outputs and range proofs\<close>

definition entry_opens :: "('p::ab_group_add) curve \<Rightarrow> out_entry \<Rightarrow> int \<Rightarrow> bool" where
  "entry_opens C e g \<longleftrightarrow> sc_ok g \<and> oe_blind e = sc_bytes g \<and> out_AmountCommit (oe_output e) = cv_bytes C (pedersen C g (scalarFromUint64 (oe_amount e)))"

definition good_address :: "lib \<Rightarrow> ('p::ab_group_add) curve \<Rightarrow> Address \<Rightarrow> bool" where
  "good_address K C addr \<longleftrightarrow> (\<exists>net S V. DecodeAddress K addr = Inr (net, cv_bytes C S, cv_bytes C V))"

lemma ephemeral_made:
  assumes "curve_ok C" and "draws rnd 1"
  shows "\<exists>so e. CreateStealthOutputWithEphemeralSecret C (cv_bytes C S) (cv_bytes C V) rnd = Inr (so, e)"
  using draws_scalar [OF assms(2), of 0] assms(1)
  by (auto simp: CreateStealthOutputWithEphemeralSecret_def createStealthOutputWithScalar_def Let_def)

lemma output_with_blind:
  assumes "curve_ok C" and "good_address K C addr" and "draws rnd 1" and "sc_ok g"
  shows "\<exists>out. txBuildOutputWithBlind K C addr amount (sc_bytes g) rnd = Inr out
    \<and> out_AmountCommit out = cv_bytes C (pedersen C g (scalarFromUint64 amount))"
proof -
  obtain net S V where a: "DecodeAddress K addr = Inr (net, cv_bytes C S, cv_bytes C V)" using assms(2) by (auto simp: good_address_def)
  obtain so e where "CreateStealthOutputWithEphemeralSecret C (cv_bytes C S) (cv_bytes C V) rnd = Inr (so, e)"
    using ephemeral_made [OF assms(1,3)] by blast
  then show ?thesis using a assms(4) by (simp add: txBuildOutputWithBlind_def CreateStealthOutput_def Commit_def stealth_txout_def)
qed

lemma output_with_ephemeral:
  assumes "curve_ok C" and "good_address K C addr" and "draws rnd 1" and "\<forall>b. blind = Some b \<longrightarrow> (\<exists>g. sc_ok g \<and> b = sc_bytes g)"
  shows "\<exists>out g e. txBuildOutputWithEphemeral K C addr amount blind rnd = Inr (out, sc_bytes g, e) \<and> sc_ok g \<and> (\<forall>b. blind = Some b \<longrightarrow> b = sc_bytes g)
    \<and> out_AmountCommit out = cv_bytes C (pedersen C g (scalarFromUint64 amount))"
proof -
  obtain net S V where a: "DecodeAddress K addr = Inr (net, cv_bytes C S, cv_bytes C V)" using assms(2) by (auto simp: good_address_def)
  obtain so e where so: "CreateStealthOutputWithEphemeralSecret C (cv_bytes C S) (cv_bytes C V) rnd = Inr (so, e)"
    using ephemeral_made [OF assms(1,3)] by blast
  have "\<exists>g. sc_ok g \<and> (case blind of None \<Rightarrow> DeterministicPaymentBlind C (so_HsScalar so) amount | Some r \<Rightarrow> r) = sc_bytes g"
    using assms(4) by (cases blind) (auto simp: DeterministicPaymentBlind_def blind_of_def intro: sc_ok_ops)
  then obtain g where g: "sc_ok g" "(case blind of None \<Rightarrow> DeterministicPaymentBlind C (so_HsScalar so) amount | Some r \<Rightarrow> r) = sc_bytes g" by blast
  have "txBuildOutputWithEphemeral K C addr amount blind rnd = Inr (stealth_txout K so (cv_bytes C (pedersen C g (scalarFromUint64 amount))) amount, sc_bytes g, e)"
    unfolding txBuildOutputWithEphemeral_def a so sum.case prod.case g(2) Let_def using g(1) by (simp add: Commit_def)
  then show ?thesis using g by (force simp: stealth_txout_def)
qed

lemma scalars_all: "\<forall>r \<in> set rs. sc_ok r \<Longrightarrow> list_all2 (\<lambda>b r. ScalarFromBytes b = Some r) (map sc_bytes rs) rs"
  by (induction rs) simp_all

lemma payment_outputs:
  assumes ok: "curve_ok C" and addr: "good_address K C recipient" "good_address K C changeAddr" and rnd: "draws (rnd 0) 1" "draws (rnd 1) 1"
    and rs: "\<forall>r \<in> set rs. sc_ok r"
  shows "\<exists>entries gs. build_outputs K C rnd False amount recipient changeAddr change (map sc_bytes rs) = Inr entries \<and> list_all2 (entry_opens C) entries gs
    \<and> ell dvd sum_list rs - sum_list gs \<and> map oe_amount entries = (if 0 < change then [amount, change] else [amount])"
proof (cases "0 < change")
  case True
  obtain pay g e where pay: "txBuildOutputWithEphemeral K C recipient amount None (rnd 0) = Inr (pay, sc_bytes g, e)" "sc_ok g"
    "out_AmountCommit pay = cv_bytes C (pedersen C g (scalarFromUint64 amount))"
    using output_with_ephemeral [OF ok addr(1) rnd(1), of None amount] by auto
  let ?h = "(sum_list rs - g) mod ell"
  have "list_all2 (\<lambda>b r. ScalarFromBytes b = Some r) [sc_bytes g, 0] [g, 0]" using pay(2) zero_blind by simp
  from BlindSum_value [OF scalars_all [OF rs] this] have bs: "BlindSum (map sc_bytes rs) [sc_bytes g, 0] = Inr (sc_bytes ?h)" by simp
  obtain ch where ch: "txBuildOutputWithBlind K C changeAddr change (sc_bytes ?h) (rnd 1) = Inr ch"
    "out_AmountCommit ch = cv_bytes C (pedersen C ?h (scalarFromUint64 change))"
    using output_with_blind [OF ok addr(2) rnd(2), of ?h change] by auto
  have "ell dvd sum_list rs - (g + ?h)" by (simp add: mod_eq_dvd_iff [symmetric] mod_simps)
  then show ?thesis using True pay ch bs by (simp add: build_outputs_def) (intro exI [of _ "[g, ?h]"], simp add: entry_opens_def)
next
  case False
  let ?h = "sum_list rs mod ell"
  have "list_all2 (\<lambda>b r. ScalarFromBytes b = Some r) [0] [0]" using zero_blind by simp
  from BlindSum_value [OF scalars_all [OF rs] this] have bs: "BlindSum (map sc_bytes rs) [0] = Inr (sc_bytes ?h)" by simp
  obtain pay g e where pay: "txBuildOutputWithEphemeral K C recipient amount (Some (sc_bytes ?h)) (rnd 0) = Inr (pay, sc_bytes g, e)" "sc_bytes g = sc_bytes ?h"
    "sc_ok g" "out_AmountCommit pay = cv_bytes C (pedersen C g (scalarFromUint64 amount))"
    using output_with_ephemeral [OF ok addr(1) rnd(1), of "Some (sc_bytes ?h)" amount] sc_ok_ops(9) [of "sum_list rs"] by (metis option.inject)
  have "g = ?h" using pay(2,3) ScalarFromBytes_bytes by (metis option.inject sc_ok_ops(9))
  then show ?thesis using False pay(1,3,4) bs by (simp add: build_outputs_def)
      (intro exI [of _ "[?h]"], simp add: entry_opens_def mod_eq_dvd_iff [symmetric])
qed

text \<open>No challenge of the range prover is a multiple of the group order.\<close>

definition provable :: "('p::ab_group_add) curve \<Rightarrow> (nat \<Rightarrow> randomness) \<Rightarrow> out_entry list \<Rightarrow> bool" where
  "provable C rnd entries \<longleftrightarrow> (\<forall>i < length entries. \<forall>g. ScalarFromBytes (oe_blind (entries ! i)) = Some g \<longrightarrow>
     (\<forall>u \<in> set (prover_challenges C (oe_amount (entries ! i)) g (rnd i)). coprime u ell))"

lemma proofs_made:
  assumes ok: "curve_ok C" and opn: "list_all2 (entry_opens C) entries gs" and ch: "provable C rnd entries"
  shows "\<exists>ps. build_proofs C rnd entries = Inr ps \<and> length ps = length entries \<and> (\<forall>i < length entries. \<exists>p. ps ! i = Some p
    \<and> VerifyRange C (Some p) = Inr True \<and> rp_ValueCommit p = out_AmountCommit (oe_output (entries ! i)))"
proof -
  let ?f = "\<lambda>(i, e). case ProveRange C (oe_amount e) (oe_blind e) (rnd i) of Inl err \<Rightarrow> Inl (BRangeProof i err) | Inr p \<Rightarrow> Inr (Some p)"
  have each: "\<exists>p. ?f (i, entries ! i) = Inr (Some p) \<and> VerifyRange C (Some p) = Inr True \<and> rp_ValueCommit p = out_AmountCommit (oe_output (entries ! i))"
    if i: "i < length entries" for i
  proof -
    have e: "entry_opens C (entries ! i) (gs ! i)" using opn i by (simp add: list_all2_conv_all_nth)
    then have "ScalarFromBytes (oe_blind (entries ! i)) = Some (gs ! i)" by (simp add: entry_opens_def)
    moreover from this have "\<forall>u \<in> set (prover_challenges C (oe_amount (entries ! i)) (gs ! i) (rnd i)). coprime u ell" using ch i by (auto simp: provable_def)
    ultimately show ?thesis using range_proof_made [OF ok, of "oe_blind (entries ! i)" "gs ! i" "oe_amount (entries ! i)" "rnd i"] e
      by (auto simp: entry_opens_def pedersen_def hGenerator_def)
  qed
  then show ?thesis unfolding build_proofs_def
    by (intro mapE_choose [of entries ?f "\<lambda>i q. \<exists>p. q = Some p \<and> VerifyRange C (Some p) = Inr True \<and> rp_ValueCommit p = out_AmountCommit (oe_output (entries ! i))"]) blast
qed

section \<open>The signed transaction\<close>

definition made_inputs :: "('p::ab_group_add) curve \<Rightarrow> build_rnd \<Rightarrow> scalar32 \<Rightarrow> bool \<Rightarrow> DecoyUTXO list \<Rightarrow> OwnedUTXO list \<Rightarrow> int list \<Rightarrow> built_input list" where
  "made_inputs C R spendPriv clsag ds sel xs = map (\<lambda>i. made_input C R spendPriv clsag ds i (sel ! i) (xs ! i)) [0..<length sel]"

text \<open>Every selected coin is the wallet's, its ring can be built and its signature can draw its randomness.\<close>

definition signable :: "('p::ab_group_add) curve \<Rightarrow> build_rnd \<Rightarrow> scalar32 \<Rightarrow> bool \<Rightarrow> DecoyUTXO list \<Rightarrow> OwnedUTXO list \<Rightarrow> int list \<Rightarrow> int list \<Rightarrow> bool" where
  "signable C R spendPriv clsag ds sel xs rs \<longleftrightarrow> length xs = length sel \<and> length rs = length sel
     \<and> (\<forall>i < length sel. own_coin C spendPriv (sel ! i) (xs ! i) (rs ! i) \<and> ring_ready C R clsag ds i (sel ! i)
          \<and> draws (br_sign R i) (3 * RingSize + 1))"

lemma made_inputs_nth [simp]:
  "i < length sel \<Longrightarrow> made_inputs C R spendPriv clsag ds sel xs ! i = made_input C R spendPriv clsag ds i (sel ! i) (xs ! i)"
  "length (made_inputs C R spendPriv clsag ds sel xs) = length sel"
  by (simp_all add: made_inputs_def)

lemma inputs_made:
  assumes "signable C R spendPriv clsag ds sel xs rs"
  shows "mapE (build_input C R spendPriv clsag ds) (enumerate 0 sel) = Inr (made_inputs C R spendPriv clsag ds sel xs)"
  unfolding mapE_nth using assms by (auto simp: signable_def intro: build_input_made)

lemma keep_image: "in_KeyImage inp = k \<Longrightarrow> inp\<lparr>in_KeyImage := k\<rparr> = inp"
  by (cases inp) simp

lemma keep_images:
  assumes "length sigs = length ins" and "\<And>i. i < length ins \<Longrightarrow> f (sigs ! i) = in_KeyImage (ins ! i)"
  shows "map2 (\<lambda>inp sig. inp\<lparr>in_KeyImage := f sig\<rparr>) ins sigs = ins"
  using assms by (intro nth_equalityI) (simp_all add: keep_image)

lemma draws_less: "draws rnd n \<Longrightarrow> m \<le> n \<Longrightarrow> draws rnd m"
  by (simp add: draws_def)

lemma v4_signed:
  assumes ok: "curve_ok C" and sg: "signable C R spendPriv False ds sel xs rs" and v4: "tx_Version tx = TxVersionCommitmentBinding"
  defines "ins \<equiv> map bi_input (made_inputs C R spendPriv False ds sel xs)"
  shows "\<exists>sigs. sign_tx K C R False tx (made_inputs C R spendPriv False ds sel xs) outBlinds = Inr (tx\<lparr>tx_Inputs := ins, tx_Signatures := map Some sigs\<rparr>)
    \<and> length sigs = length sel \<and> (\<forall>i < length sel. mls_KeyImage (sigs ! i) = in_KeyImage (ins ! i)
        \<and> MLSAGVerifyV4 C (ringSignMessage K (tx_Hash K (tx\<lparr>tx_Inputs := ins\<rparr>)) (word_of_nat i)) (in_Ring (ins ! i)) (in_AmountCommit (ins ! i))
            (int (unat (in_RealIndex (ins ! i)))) (Some (sigs ! i)) = Inr True)"
proof -
  let ?bis = "made_inputs C R spendPriv False ds sel xs" and ?h = "tx_Hash K (tx\<lparr>tx_Inputs := ins\<rparr>)"
  let ?sign = "sign_mlsag K C R TxVersionCommitmentBinding ?h"
  let ?P = "\<lambda>i sig. mls_KeyImage sig = in_KeyImage (ins ! i) \<and> MLSAGVerifyV4 C (ringSignMessage K ?h (word_of_nat i)) (in_Ring (ins ! i))
      (in_AmountCommit (ins ! i)) (int (unat (in_RealIndex (ins ! i)))) (Some sig) = Inr True"
  have each: "\<exists>sig. ?sign (i, ?bis ! i) = Inr sig \<and> ?P i sig" if "i < length ?bis" for i
    using v4_input_signed [OF ok, of spendPriv "sel ! i" "xs ! i" "rs ! i" R ds i K ?h] sg that by (simp add: signable_def ins_def made_input_fields)
  obtain sigs where sigs: "mapE ?sign (enumerate 0 ?bis) = Inr sigs" "length sigs = length sel" and good: "\<forall>i < length sel. ?P i (sigs ! i)"
    using mapE_choose [of ?bis ?sign ?P, OF each] unfolding made_inputs_nth(2) by blast
  have len: "length ins = length sel" by (simp add: ins_def)
  have "map2 (\<lambda>inp sig. inp\<lparr>in_KeyImage := mls_KeyImage sig\<rparr>) ins sigs = ins" using good sigs(2) len by (intro keep_images) simp_all
  then have "sign_tx K C R False tx ?bis outBlinds = Inr (tx\<lparr>tx_Inputs := ins, tx_Signatures := map Some sigs\<rparr>)"
    using sigs(1) v4 by (simp add: sign_tx_def Let_def ins_def [symmetric])
  then show ?thesis using sigs(2) good by blast
qed

lemma pseudo_blinds_made:
  assumes gs: "\<forall>g \<in> set gs. sc_ok g" and n: "0 < n" and rnd: "\<forall>i < n - 1. \<exists>q. sc_ok q \<and> rnd i = Some (sc_bytes q)"
  shows "\<exists>qs. pseudo_blinds rnd n (map sc_bytes gs) = Inr (map sc_bytes qs) \<and> length qs = n \<and> (\<forall>q \<in> set qs. sc_ok q) \<and> ell dvd sum_list qs - sum_list gs"
proof -
  let ?f = "\<lambda>i. case rnd i of None \<Rightarrow> Inl (BPseudoBlind i) | Some r \<Rightarrow> Inr r"
  obtain q where q: "\<forall>i < n - 1. sc_ok (q i) \<and> rnd i = Some (sc_bytes (q i))" using rnd by metis
  let ?qs = "map q [0..<n - 1]" and ?last = "(sum_list gs - sum_list (map q [0..<n - 1])) mod ell"
  have draw: "mapE ?f [0..<n - 1] = Inr (map sc_bytes ?qs)"
    unfolding mapE_Inr using q by (auto simp: list_all2_conv_all_nth)
  have "list_all2 (\<lambda>b r. ScalarFromBytes b = Some r) (0 # map sc_bytes gs) (0 # gs)" using scalars_all [OF gs] zero_blind by simp
  moreover have "list_all2 (\<lambda>b r. ScalarFromBytes b = Some r) (map sc_bytes ?qs) ?qs" using q by (intro scalars_all) auto
  ultimately have "BlindSum (0 # map sc_bytes gs) (map sc_bytes ?qs) = Inr (sc_bytes ?last)" by (drule_tac BlindSum_value) simp_all
  then have "pseudo_blinds rnd n (map sc_bytes gs) = Inr (map sc_bytes (?qs @ [?last]))" using draw n by (simp add: pseudo_blinds_def)
  moreover have "ell dvd sum_list (?qs @ [?last]) - sum_list gs" by (simp add: mod_eq_dvd_iff [symmetric] mod_simps)
  moreover have "\<forall>x \<in> set (?qs @ [?last]). sc_ok x" using q by auto
  ultimately show ?thesis using n by (intro exI [of _ "?qs @ [?last]"]) simp
qed

definition pseudo_inputs :: "('p::ab_group_add) curve \<Rightarrow> built_input list \<Rightarrow> int list \<Rightarrow> RingInput list" where
  "pseudo_inputs C bis qs = map2 (\<lambda>bi q. (bi_input bi)\<lparr>in_PseudoOut := cv_bytes C (pedersen C q (scalarFromUint64 (ow_Amount (bi_coin bi))))\<rparr>) bis qs"

lemma clsag_signed:
  assumes ok: "curve_ok C" and sg: "signable C R spendPriv True ds sel xs rs"
    and qs: "pseudo_blinds (br_pseudo R) (length sel) outBlinds = Inr (map sc_bytes qs)" "length qs = length sel" "\<forall>q \<in> set qs. sc_ok q"
  defines "ins \<equiv> pseudo_inputs C (made_inputs C R spendPriv True ds sel xs) qs"
  shows "\<exists>sigs. sign_tx K C R True tx (made_inputs C R spendPriv True ds sel xs) outBlinds = Inr (tx\<lparr>tx_Inputs := ins, tx_CLSAGSignatures := map Some sigs\<rparr>)
    \<and> length sigs = length sel \<and> (\<forall>i < length sel. cls_KeyImage (sigs ! i) = in_KeyImage (ins ! i)
        \<and> CLSAGVerify C (ringSignMessage K (tx_Hash K (tx\<lparr>tx_Inputs := ins\<rparr>)) (word_of_nat i)) (in_Ring (ins ! i)) (in_RingCommitments (ins ! i))
            (in_PseudoOut (ins ! i)) (Some (sigs ! i)) = Inr True)"
proof -
  let ?bis = "made_inputs C R spendPriv True ds sel xs" and ?h = "tx_Hash K (tx\<lparr>tx_Inputs := ins\<rparr>)"
  let ?sign = "sign_clsag K C R ?h" and ?all = "zip ins (zip (made_inputs C R spendPriv True ds sel xs) (map sc_bytes qs))"
  let ?P = "\<lambda>i sig. cls_KeyImage sig = in_KeyImage (ins ! i) \<and> CLSAGVerify C (ringSignMessage K ?h (word_of_nat i)) (in_Ring (ins ! i))
      (in_RingCommitments (ins ! i)) (in_PseudoOut (ins ! i)) (Some sig) = Inr True"
  have len: "length ins = length sel" "length ?all = length sel" using qs(2) by (simp_all add: ins_def pseudo_inputs_def)
  have ins: "ins ! i = (bi_input (?bis ! i))\<lparr>in_PseudoOut := cv_bytes C (pedersen C (qs ! i) (scalarFromUint64 (ow_Amount (sel ! i))))\<rparr>" if "i < length sel" for i
    using that qs(2) by (simp add: ins_def pseudo_inputs_def made_input_fields)
  have pin: "mapE (pseudo_input C) (enumerate 0 (zip ?bis (map sc_bytes qs))) = Inr ins"
    unfolding mapE_nth using qs(2,3) len(1) by (auto simp: pseudo_input_def ins Commit_def made_input_fields)
  have each: "\<exists>sig. ?sign (i, ?all ! i) = Inr sig \<and> ?P i sig" if "i < length ?all" for i
  proof -
    have i: "i < length sel" using that len by simp
    then have "own_coin C spendPriv (sel ! i) (xs ! i) (rs ! i)" "ring_ready C R True ds i (sel ! i)" "draws (br_sign R i) RingSize"
      using sg draws_less [of "br_sign R i" "3 * RingSize + 1" RingSize] by (auto simp: signable_def RingSize_def)
    from clsag_input_signed [OF ok this, of "qs ! i" K ?h] show ?thesis using i qs(2,3) len ins [OF i] by (simp add: made_input_fields)
  qed
  obtain sigs where sigs: "mapE ?sign (enumerate 0 ?all) = Inr sigs" "length sigs = length sel" and good: "\<forall>i < length sel. ?P i (sigs ! i)"
    using mapE_choose [of ?all ?sign ?P, OF each] unfolding len by blast
  have "map2 (\<lambda>inp sig. inp\<lparr>in_KeyImage := cls_KeyImage sig\<rparr>) ins sigs = ins" using good sigs(2) len by (intro keep_images) simp_all
  then have "sign_tx K C R True tx ?bis outBlinds = Inr (tx\<lparr>tx_Inputs := ins, tx_CLSAGSignatures := map Some sigs\<rparr>)"
    using sigs(1) pin qs(1) by (simp add: sign_tx_def Let_def)
  then show ?thesis using sigs(2) good by blast
qed

section \<open>Acceptance\<close>

definition unlocked :: "'d TxVerifier \<Rightarrow> int \<Rightarrow> point32 \<Rightarrow> bool" where
  "unlocked v now pub \<longleftrightarrow> (\<forall>vl. tv_vestingLock v = Some vl \<longrightarrow> lockedAt vl pub now = 0)"

definition member_ok :: "ring_store \<Rightarrow> 'd TxVerifier \<Rightarrow> 'd UTXOSet \<Rightarrow> u64 \<Rightarrow> point32 \<Rightarrow> commitment \<Rightarrow> bool" where
  "member_ok store v s height pub c \<longleftrightarrow> (\<exists>utxo. GetRingMember store s pub = Some utxo \<and> u_AmountCommit utxo = c
     \<and> (0 < tv_stakedActivation v \<and> tv_stakedActivation v \<le> height \<longrightarrow> \<not> IsStaked s (u_TxHash utxo) (u_OutputIndex utxo)))"

text \<open>What the node must hold for a coin: it is not spent, its key is not a locked allocation, and the output is known with its commitment.\<close>

definition coin_known :: "lib \<Rightarrow> ('p::ab_group_add) curve \<Rightarrow> 'd leveldb \<Rightarrow> ring_store \<Rightarrow> int \<Rightarrow> 'd TxVerifier \<Rightarrow> 'd UTXOSet \<Rightarrow> u64 \<Rightarrow> bool
    \<Rightarrow> scalar32 \<Rightarrow> OwnedUTXO \<Rightarrow> bool" where
  "coin_known K C L store now v s height clsag spendPriv u \<longleftrightarrow> \<not> IsSpent K L s (coin_image C spendPriv u) \<and> unlocked v now (u_OneTimePub (ow_UTXO u))
     \<and> (if clsag then member_ok store v s height (u_OneTimePub (ow_UTXO u)) (u_AmountCommit (ow_UTXO u))
        else \<exists>utxo. GetByPubKey s (u_OneTimePub (ow_UTXO u)) = Some utxo \<and> u_AmountCommit utxo = u_AmountCommit (ow_UTXO u))"

definition decoy_known :: "ring_store \<Rightarrow> int \<Rightarrow> 'd TxVerifier \<Rightarrow> 'd UTXOSet \<Rightarrow> u64 \<Rightarrow> bool \<Rightarrow> DecoyUTXO \<Rightarrow> bool" where
  "decoy_known store now v s height clsag d \<longleftrightarrow> unlocked v now (dc_OneTimePub d) \<and> (clsag \<longrightarrow> member_ok store v s height (dc_OneTimePub d) (dc_AmountCommit d))"

lemma set_ring_decoys: "set (ring_decoys ds i) \<subseteq> set ds"
  unfolding ring_decoys_def by (meson set_drop_subset set_take_subset subset_trans)

lemma opens_zip:
  "length rs = length vs \<Longrightarrow> blinds (zip rs vs) = sum_list rs"
  "length rs = length vs \<Longrightarrow> amounts (zip rs vs) = sum_list (map (\<lambda>v. int (unat v)) vs)"
  by (induction rs vs rule: list_induct2) (simp_all add: blinds_def amounts_def)

lemma opens_nth:
  assumes "length cs = length rs" and "length vs = length rs" and "\<And>i. i < length rs \<Longrightarrow> cs ! i = cv_bytes C (pedersen C (rs ! i) (scalarFromUint64 (vs ! i)))"
  shows "opens C cs (zip rs vs)"
  unfolding opens_def using assms by (intro nth_equalityI) simp_all

lemma signing_hash:
  "tx_Hash K (tx\<lparr>tx_Inputs := ins, tx_Signatures := s1\<rparr>) = tx_Hash K (tx\<lparr>tx_Inputs := ins\<rparr>)"
  "tx_Hash K (tx\<lparr>tx_Inputs := ins, tx_CLSAGSignatures := s2\<rparr>) = tx_Hash K (tx\<lparr>tx_Inputs := ins\<rparr>)"
  by (simp_all add: tx_Hash_def tx_hash_parts_def input_hash_bytes_def [abs_def] UsesCLSAG_def)

text \<open>The members of a built ring, paired with the commitments.\<close>

lemma made_members:
  fixes C :: "('p::ab_group_add) curve" and spendPriv :: scalar32 and x :: int
  assumes "ring_ready C R clsag ds i u"
  defines "bi \<equiv> made_input C R spendPriv clsag ds i u x"
  obtains L where "in_Ring (bi_input bi) = map fst L" "clsag \<longrightarrow> in_RingCommitments (bi_input bi) = map snd L" "length L = RingSize"
    "set L \<subseteq> insert (u_OneTimePub (ow_UTXO u), u_AmountCommit (ow_UTXO u)) ((\<lambda>d. (dc_OneTimePub d, dc_AmountCommit d)) ` set ds)"
    "L ! bi_realIdx bi = (u_OneTimePub (ow_UTXO u), u_AmountCommit (ow_UTXO u))" "bi_realIdx bi < RingSize"
proof -
  let ?rd = "map (\<lambda>d. (dc_OneTimePub d, dc_AmountCommit d)) (ring_decoys ds i)" and ?own = "(u_OneTimePub (ow_UTXO u), u_AmountCommit (ow_UTXO u))"
  obtain p where p: "br_position R i = Some p" "p < RingSize" using assms(1) by (auto simp: ring_ready_def)
  have len: "length ?rd = RingSize - 1" using assms(1) by (simp add: ring_ready_def)
  have ring: "in_Ring (bi_input bi) = map fst (ring_with p ?own ?rd)" "clsag \<longrightarrow> in_RingCommitments (bi_input bi) = map snd (ring_with p ?own ?rd)" "bi_realIdx bi = p"
    using p by (simp_all add: bi_def made_input_def Let_def ring_with_map comp_def)
  have L: "length (ring_with p ?own ?rd) = RingSize" "ring_with p ?own ?rd ! p = ?own"
    using ring_with_facts(1,2) [of p ?rd ?own] len p by (simp_all add: RingSize_def)
  have sub: "set (ring_with p ?own ?rd) \<subseteq> insert ?own ((\<lambda>d. (dc_OneTimePub d, dc_AmountCommit d)) ` set ds)"
    using set_ring_decoys [of ds i] by (auto simp: ring_with_facts(3))
  show thesis by (rule that [OF ring(1,2) L(1) sub]) (simp_all add: ring(3) L(2) p(2))
qed

lemma built_validates:
  assumes ver: "tx_Version tx = (if clsag then TxVersionCLSAG else TxVersionCommitmentBinding)" and plain: "tx_AVM tx = None" "tx_Extra tx = []"
    and outs: "tx_Outputs tx \<noteq> []" "length (tx_Outputs tx) \<le> 16" "length (tx_RangeProofs tx) = length (tx_Outputs tx)" and ins: "tx_Inputs tx \<noteq> []"
    and sigs: "if clsag then tx_Signatures tx = [] \<and> length (tx_CLSAGSignatures tx) = length (tx_Inputs tx)
        else tx_CLSAGSignatures tx = [] \<and> length (tx_Signatures tx) = length (tx_Inputs tx)"
    and each: "\<And>i. i < length (tx_Inputs tx) \<Longrightarrow> length (in_Ring (tx_Inputs tx ! i)) = RingSize \<and> in_KeyImage (tx_Inputs tx ! i) \<noteq> 0
        \<and> (if clsag then in_RealIndex (tx_Inputs tx ! i) = 0 \<and> length (in_RingCommitments (tx_Inputs tx ! i)) = RingSize
             \<and> (\<exists>s. tx_CLSAGSignatures tx ! i = Some s \<and> length (cls_S s) = RingSize)
           else unat (in_RealIndex (tx_Inputs tx ! i)) < RingSize
             \<and> (\<exists>s. tx_Signatures tx ! i = Some s \<and> length (mls_BlindSS s) = RingSize \<and> length (mls_ValueSS s) = RingSize))"
  shows "tx_Validate K J tx = Inr ()"
proof -
  have "validate_input tx i = Inr ()" if "i < length (tx_Inputs tx)" for i
    using each [OF that] ver by (cases clsag) (auto simp: validate_input_def Let_def UsesCLSAG_def tx_versions)
  then have "validate_inputs tx = Inr ()" unfolding validate_inputs_def foldE_unit by simp
  moreover have "validate_burn tx = Inr False"
    using plain by (simp add: validate_burn_def parseIntentionalBurnExtra_def intentionalBurnPrefix_def str_bytes_def)
  moreover have "validate_signature_counts tx = Inr ()"
    using ins outs sigs ver by (cases clsag) (simp_all add: validate_signature_counts_def UsesCLSAG_def tx_versions)
  ultimately have "validate_transfer tx = Inr ()" using outs ins plain by (simp add: validate_transfer_def IsCoinbase_def)
  moreover have "validate_avm_part K tx = Inr ()" using ver plain by (cases clsag) (simp_all add: validate_avm_part_def tx_kinds tx_versions)
  moreover have "tx_Version tx \<in> transfer_versions" using ver by (cases clsag) (simp_all add: transfer_versions_def)
  ultimately show ?thesis by (simp add: tx_Validate_transfer)
qed

lemma built_spend_valid:
  fixes tx :: Transaction and ins :: "RingInput list"
  assumes ok: "curve_ok C" and ver: "tx_Version tx = (if clsag then TxVersionCLSAG else TxVersionCommitmentBinding)"
    and ins: "tx_Inputs tx = ins" "length ins = length sel" "\<And>i. i < length sel \<Longrightarrow> in_KeyImage (ins ! i) = coin_image C spendPriv (sel ! i)"
    and rings: "\<And>i. i < length sel \<Longrightarrow> \<exists>L. in_Ring (ins ! i) = map fst L \<and> (clsag \<longrightarrow> in_RingCommitments (ins ! i) = map snd L)
        \<and> set L \<subseteq> insert (u_OneTimePub (ow_UTXO (sel ! i)), u_AmountCommit (ow_UTXO (sel ! i))) ((\<lambda>d. (dc_OneTimePub d, dc_AmountCommit d)) ` set ds)
        \<and> (\<not> clsag \<longrightarrow> unat (in_RealIndex (ins ! i)) < length L
             \<and> L ! unat (in_RealIndex (ins ! i)) = (u_OneTimePub (ow_UTXO (sel ! i)), in_AmountCommit (ins ! i))
             \<and> in_AmountCommit (ins ! i) = u_AmountCommit (ow_UTXO (sel ! i)))"
    and known: "tv_utxos v = Some s" "\<forall>u \<in> set sel. coin_known K C L store now v s height clsag spendPriv u" "\<forall>d \<in> set ds. decoy_known store now v s height clsag d"
    and dist: "distinct (map (coin_image C spendPriv) sel)" and sigs: "\<forall>i < length sel. signature_valid K C tx i (ins ! i)"
    and ranges: "length (tx_RangeProofs tx) = length (tx_Outputs tx)" "\<forall>i < length (tx_RangeProofs tx). range_valid C tx i (tx_RangeProofs tx ! i)"
    and fee: "tx_FeeCommit tx = fee_commit C (tx_Fee tx)"
    and opens: "opens C (map (input_commit tx) ins) is" "opens C (map out_AmountCommit (tx_Outputs tx)) os"
    and bal: "ell dvd blinds is - blinds os" "amounts is = amounts os + int (unat (tx_Fee tx))"
  shows "spend_valid K C L store now v tx {} height"
proof -
  have images: "map in_KeyImage ins = map (coin_image C spendPriv) sel" using ins(2,3) by (intro nth_equalityI) simp_all
  have member: "unlocked v now a \<and> (clsag \<longrightarrow> member_ok store v s height a c)"
    if "(a, c) \<in> insert (u_OneTimePub (ow_UTXO u), u_AmountCommit (ow_UTXO u)) ((\<lambda>d. (dc_OneTimePub d, dc_AmountCommit d)) ` set ds)" "u \<in> set sel" for a c u
    using that known(2,3) by (auto simp: coin_known_def decoy_known_def)
  have each: "\<not> IsSpent K L s (in_KeyImage (ins ! i)) \<and> ring_on_chain store v s tx {} height (ins ! i) \<and> (\<forall>m \<in> set (in_Ring (ins ! i)). unlocked v now m)"
    if i: "i < length sel" for i
  proof -
    obtain L' where L': "in_Ring (ins ! i) = map fst L'" "clsag \<longrightarrow> in_RingCommitments (ins ! i) = map snd L'"
      "set L' \<subseteq> insert (u_OneTimePub (ow_UTXO (sel ! i)), u_AmountCommit (ow_UTXO (sel ! i))) ((\<lambda>d. (dc_OneTimePub d, dc_AmountCommit d)) ` set ds)"
      "\<not> clsag \<longrightarrow> unat (in_RealIndex (ins ! i)) < length L'
             \<and> L' ! unat (in_RealIndex (ins ! i)) = (u_OneTimePub (ow_UTXO (sel ! i)), in_AmountCommit (ins ! i))
             \<and> in_AmountCommit (ins ! i) = u_AmountCommit (ow_UTXO (sel ! i))" using rings [OF i] by blast
    have u: "sel ! i \<in> set sel" using i by simp
    have mem: "unlocked v now a \<and> (clsag \<longrightarrow> member_ok store v s height a c)" if "(a, c) \<in> set L'" for a c
      using member [OF _ u] L'(3) that by blast
    have coin: "coin_known K C L store now v s height clsag spendPriv (sel ! i)" using known(2) u by blast
    have "ring_on_chain store v s tx {} height (ins ! i)"
    proof (cases clsag)
      case True
      have "member_ok store v s height (in_Ring (ins ! i) ! j) (in_RingCommitments (ins ! i) ! j)" if "j < length L'" for j
        using mem [of "fst (L' ! j)" "snd (L' ! j)"] that L'(1,2) True by simp
      then show ?thesis using True L'(1,2) ver by (simp add: ring_on_chain_def UsesCLSAG_def member_ok_def)
    next
      case False
      then show ?thesis using L'(1,4) ver coin by (simp add: ring_on_chain_def UsesCLSAG_def tx_versions coin_known_def)
    qed
    then show ?thesis using mem L'(1) coin ins(3) [OF i] by (auto simp: coin_known_def)
  qed
  have "CommitSum C (map (input_commit tx) ins) (map out_AmountCommit (tx_Outputs tx)) (fee_commit C (tx_Fee tx)) = Inr True"
    by (rule balanced_commitments [OF ok opens bal])
  moreover have "\<forall>inp \<in> set ins. \<not> IsSpent K L s (in_KeyImage inp) \<and> ring_on_chain store v s tx {} height inp \<and> (\<forall>m \<in> set (in_Ring inp). unlocked v now m)"
    using each ins(2) by (simp add: all_set_conv_all_nth)
  ultimately show ?thesis
    unfolding spend_valid_def ins(1) images using dist sigs ranges(2) fee known(1) ins(2) by (simp add: unlocked_def)
qed

text \<open>The transaction that is signed: version, fee and outputs with their proofs, no payload, no marker.\<close>

definition outgoing :: "('p::ab_group_add) curve \<Rightarrow> bool \<Rightarrow> out_entry list \<Rightarrow> int list \<Rightarrow> Transaction \<Rightarrow> bool" where
  "outgoing C clsag entries gs tx \<longleftrightarrow> tx_Version tx = (if clsag then TxVersionCLSAG else TxVersionCommitmentBinding) \<and> tx_AVM tx = None \<and> tx_Extra tx = []
     \<and> tx_FeeCommit tx = fee_commit C (tx_Fee tx) \<and> tx_Signatures tx = [] \<and> tx_CLSAGSignatures tx = []
     \<and> entries \<noteq> [] \<and> length entries \<le> 16 \<and> tx_Outputs tx = map oe_output entries \<and> list_all2 (entry_opens C) entries gs
     \<and> length (tx_RangeProofs tx) = length entries \<and> (\<forall>i < length entries. \<exists>p. tx_RangeProofs tx ! i = Some p
          \<and> VerifyRange C (Some p) = Inr True \<and> rp_ValueCommit p = out_AmountCommit (oe_output (entries ! i)))"

lemma outgoing_opens:
  assumes "outgoing C clsag entries gs tx"
  shows "opens C (map out_AmountCommit (tx_Outputs tx)) (zip gs (map oe_amount entries))" "length gs = length entries"
  using assms by (auto intro!: opens_nth simp: outgoing_def list_all2_conv_all_nth entry_opens_def)

lemma made_shape:
  assumes ok: "curve_ok C" and own: "own_coin C spendPriv u x r" and ready: "ring_ready C R clsag ds i u"
    and inp: "inp = (bi_input (made_input C R spendPriv clsag ds i u x))\<lparr>in_PseudoOut := po\<rparr>"
  shows "length (in_Ring inp) = RingSize" "in_KeyImage inp = coin_image C spendPriv u" "in_KeyImage inp \<noteq> 0" "clsag \<Longrightarrow> in_RealIndex inp = 0"
    "clsag \<Longrightarrow> length (in_RingCommitments inp) = RingSize" "\<not> clsag \<Longrightarrow> unat (in_RealIndex inp) < RingSize"
    "\<exists>L. in_Ring inp = map fst L \<and> (clsag \<longrightarrow> in_RingCommitments inp = map snd L)
        \<and> set L \<subseteq> insert (u_OneTimePub (ow_UTXO u), u_AmountCommit (ow_UTXO u)) ((\<lambda>d. (dc_OneTimePub d, dc_AmountCommit d)) ` set ds)
        \<and> (\<not> clsag \<longrightarrow> unat (in_RealIndex inp) < length L \<and> L ! unat (in_RealIndex inp) = (u_OneTimePub (ow_UTXO u), in_AmountCommit inp)
             \<and> in_AmountCommit inp = u_AmountCommit (ow_UTXO u))"
proof -
  let ?bi = "made_input C R spendPriv clsag ds i u x"
  obtain L where L: "in_Ring (bi_input ?bi) = map fst L" "clsag \<longrightarrow> in_RingCommitments (bi_input ?bi) = map snd L" "length L = RingSize"
    "set L \<subseteq> insert (u_OneTimePub (ow_UTXO u), u_AmountCommit (ow_UTXO u)) ((\<lambda>d. (dc_OneTimePub d, dc_AmountCommit d)) ` set ds)"
    "L ! bi_realIdx ?bi = (u_OneTimePub (ow_UTXO u), u_AmountCommit (ow_UTXO u))" "bi_realIdx ?bi < RingSize"
    by (rule made_members [OF ready, of spendPriv x])
  show "length (in_Ring inp) = RingSize" "in_KeyImage inp = coin_image C spendPriv u" "in_KeyImage inp \<noteq> 0" "clsag \<Longrightarrow> in_RealIndex inp = 0"
    "clsag \<Longrightarrow> length (in_RingCommitments inp) = RingSize"
    using L(1-3) own by (simp_all add: inp made_input_fields own_coin_def)
  have idx: "unat (in_RealIndex inp) = bi_realIdx ?bi" if "\<not> clsag"
    using that L(6) by (simp add: inp made_input_fields unat_of_nat RingSize_def)
  then show "\<not> clsag \<Longrightarrow> unat (in_RealIndex inp) < RingSize" using L(6) by simp
  show "\<exists>L. in_Ring inp = map fst L \<and> (clsag \<longrightarrow> in_RingCommitments inp = map snd L)
        \<and> set L \<subseteq> insert (u_OneTimePub (ow_UTXO u), u_AmountCommit (ow_UTXO u)) ((\<lambda>d. (dc_OneTimePub d, dc_AmountCommit d)) ` set ds)
        \<and> (\<not> clsag \<longrightarrow> unat (in_RealIndex inp) < length L \<and> L ! unat (in_RealIndex inp) = (u_OneTimePub (ow_UTXO u), in_AmountCommit inp)
             \<and> in_AmountCommit inp = u_AmountCommit (ow_UTXO u))"
    using L idx by (intro exI [of _ L], cases clsag) (simp_all add: inp made_input_fields)
qed

lemma signature_shape:
  assumes "signature_valid K C tx i inp" and "tx_Version tx = (if clsag then TxVersionCLSAG else TxVersionCommitmentBinding)"
  shows "if clsag then \<exists>s. tx_CLSAGSignatures tx ! i = Some s \<and> length (cls_S s) = RingSize
    else \<exists>s. tx_Signatures tx ! i = Some s \<and> length (mls_BlindSS s) = RingSize \<and> length (mls_ValueSS s) = RingSize"
  using assms
  by (cases clsag) (auto simp: signature_valid_def Let_def UsesCLSAG_def tx_versions at_index_def CLSAGVerify_def MLSAGVerifyV4_def split: if_splits)

lemma signed_accepted:
  assumes ok: "curve_ok C" and sg: "signable C R spendPriv clsag ds sel xs rs" and out: "outgoing C clsag entries gs tx" and sel: "sel \<noteq> []"
    and known: "tv_utxos v = Some s" "\<forall>u \<in> set sel. coin_known K C L store now v s height clsag spendPriv u" "\<forall>d \<in> set ds. decoy_known store now v s height clsag d"
    and dist: "distinct (map (coin_image C spendPriv) sel)" and h: "0 < tv_stakedActivation v \<longrightarrow> height \<noteq> 0"
    and ins: "length ins = length sel" "\<And>i. i < length sel \<Longrightarrow> \<exists>po. ins ! i = (bi_input (made_input C R spendPriv clsag ds i (sel ! i) (xs ! i)))\<lparr>in_PseudoOut := po\<rparr>"
    and tx': "tx' = tx\<lparr>tx_Inputs := ins, tx_Signatures := s1, tx_CLSAGSignatures := s2\<rparr>"
    and sigs: "if clsag then s1 = [] \<and> length s2 = length sel else s2 = [] \<and> length s1 = length sel" "\<forall>i < length sel. signature_valid K C tx' i (ins ! i)"
    and bs: "length bs = length sel" "\<And>i. i < length sel \<Longrightarrow> input_commit tx' (ins ! i) = cv_bytes C (pedersen C (bs ! i) (scalarFromUint64 (ow_Amount (sel ! i))))"
    and bal: "ell dvd sum_list bs - sum_list gs"
      "sum_list (map (\<lambda>u. int (unat (ow_Amount u))) sel) = sum_list (map (\<lambda>e. int (unat (oe_amount e))) entries) + int (unat (tx_Fee tx))"
  shows "VerifyTxAtHeight K J C L store now v tx' height = Inr ()"
proof -
  have f: "tx_Version tx' = (if clsag then TxVersionCLSAG else TxVersionCommitmentBinding)" "tx_Inputs tx' = ins" "tx_Outputs tx' = tx_Outputs tx" "tx_Fee tx' = tx_Fee tx"
    "tx_FeeCommit tx' = fee_commit C (tx_Fee tx)" "tx_AVM tx' = None" "tx_Extra tx' = []" "tx_RangeProofs tx' = tx_RangeProofs tx"
    "tx_Signatures tx' = s1" "tx_CLSAGSignatures tx' = s2"
    using out by (simp_all add: tx' outgoing_def)
  have part: "own_coin C spendPriv (sel ! i) (xs ! i) (rs ! i)" "ring_ready C R clsag ds i (sel ! i)" if "i < length sel" for i
    using sg that by (simp_all add: signable_def)
  have shape: "length (in_Ring (ins ! i)) = RingSize \<and> in_KeyImage (ins ! i) = coin_image C spendPriv (sel ! i) \<and> in_KeyImage (ins ! i) \<noteq> 0
      \<and> (clsag \<longrightarrow> in_RealIndex (ins ! i) = 0 \<and> length (in_RingCommitments (ins ! i)) = RingSize) \<and> (\<not> clsag \<longrightarrow> unat (in_RealIndex (ins ! i)) < RingSize)"
    if i: "i < length sel" for i
  proof -
    obtain po where "ins ! i = (bi_input (made_input C R spendPriv clsag ds i (sel ! i) (xs ! i)))\<lparr>in_PseudoOut := po\<rparr>" using ins(2) [OF i] by blast
    note made_shape(1-6) [OF ok part [OF i] this]
    then show ?thesis by simp
  qed
  have images: "in_KeyImage (ins ! i) = coin_image C spendPriv (sel ! i)" if "i < length sel" for i using shape [OF that] by blast
  have ranges: "length (tx_RangeProofs tx') = length (tx_Outputs tx')" "\<forall>i < length (tx_RangeProofs tx'). range_valid C tx' i (tx_RangeProofs tx' ! i)"
    using out f by (auto simp: outgoing_def range_valid_def)
  have opens: "opens C (map (input_commit tx') ins) (zip bs (map ow_Amount sel))" using ins(1) bs by (intro opens_nth) simp_all
  have rings: "\<exists>L. in_Ring (ins ! i) = map fst L \<and> (clsag \<longrightarrow> in_RingCommitments (ins ! i) = map snd L)
        \<and> set L \<subseteq> insert (u_OneTimePub (ow_UTXO (sel ! i)), u_AmountCommit (ow_UTXO (sel ! i))) ((\<lambda>d. (dc_OneTimePub d, dc_AmountCommit d)) ` set ds)
        \<and> (\<not> clsag \<longrightarrow> unat (in_RealIndex (ins ! i)) < length L
             \<and> L ! unat (in_RealIndex (ins ! i)) = (u_OneTimePub (ow_UTXO (sel ! i)), in_AmountCommit (ins ! i))
             \<and> in_AmountCommit (ins ! i) = u_AmountCommit (ow_UTXO (sel ! i)))" if i: "i < length sel" for i
  proof -
    obtain po where "ins ! i = (bi_input (made_input C R spendPriv clsag ds i (sel ! i) (xs ! i)))\<lparr>in_PseudoOut := po\<rparr>" using ins(2) [OF i] by blast
    from made_shape(7) [OF ok part [OF i] this] show ?thesis .
  qed
  have len: "length bs = length (map ow_Amount sel)" "length gs = length (map oe_amount entries)" using bs(1) outgoing_opens(2) [OF out] by simp_all
  have "ell dvd blinds (zip bs (map ow_Amount sel)) - blinds (zip gs (map oe_amount entries))"
    "amounts (zip bs (map ow_Amount sel)) = amounts (zip gs (map oe_amount entries)) + int (unat (tx_Fee tx'))"
    unfolding opens_zip [OF len(1)] opens_zip [OF len(2)] using bal f(4) by (simp_all add: comp_def)
  from built_spend_valid [OF ok f(1,2) ins(1) images rings known dist sigs(2) ranges _ opens outgoing_opens(1) [OF out, folded f(3)] this]
  have valid: "spend_valid K C L store now v tx' {} height" using f by simp
  have "tx_Validate K J tx' = Inr ()"
  proof (rule built_validates [OF f(1)])
    fix i assume "i < length (tx_Inputs tx')"
    then have i: "i < length sel" using f(2) ins(1) by simp
    show "length (in_Ring (tx_Inputs tx' ! i)) = RingSize \<and> in_KeyImage (tx_Inputs tx' ! i) \<noteq> 0
        \<and> (if clsag then in_RealIndex (tx_Inputs tx' ! i) = 0 \<and> length (in_RingCommitments (tx_Inputs tx' ! i)) = RingSize
             \<and> (\<exists>s. tx_CLSAGSignatures tx' ! i = Some s \<and> length (cls_S s) = RingSize)
           else unat (in_RealIndex (tx_Inputs tx' ! i)) < RingSize
             \<and> (\<exists>s. tx_Signatures tx' ! i = Some s \<and> length (mls_BlindSS s) = RingSize \<and> length (mls_ValueSS s) = RingSize))"
      using shape [OF i] signature_shape [OF sigs(2) [rule_format, OF i] f(1)] unfolding f(2) by (cases clsag) auto
  qed (use f out sel ins(1) sigs(1) in \<open>auto simp: outgoing_def split: if_splits\<close>)
  moreover have "tx_Inputs tx' \<noteq> []" "\<not> IsLPoDPosition tx'" using f sel ins(1) by (auto simp: tx_kinds tx_versions)
  ultimately show ?thesis using h valid by (simp add: VerifyTxAtHeight_iff)
qed

lemma empty_sigs: "tx_CLSAGSignatures tx = [] \<Longrightarrow> tx\<lparr>tx_Inputs := ins, tx_Signatures := s1\<rparr> = tx\<lparr>tx_Inputs := ins, tx_Signatures := s1, tx_CLSAGSignatures := []\<rparr>"
  "tx_Signatures tx = [] \<Longrightarrow> tx\<lparr>tx_Inputs := ins, tx_CLSAGSignatures := s2\<rparr> = tx\<lparr>tx_Inputs := ins, tx_Signatures := [], tx_CLSAGSignatures := s2\<rparr>"
  by (cases tx, simp)+

text \<open>Signing a prepared transaction gives one that the node accepts, for both ring types.\<close>

lemma signing_accepted:
  assumes ok: "curve_ok C" and sg: "signable C R spendPriv clsag ds sel xs rs" and out: "outgoing C clsag entries gs tx" and sel: "sel \<noteq> []"
    and known: "tv_utxos v = Some s" "\<forall>u \<in> set sel. coin_known K C L store now v s height clsag spendPriv u" "\<forall>d \<in> set ds. decoy_known store now v s height clsag d"
    and dist: "distinct (map (coin_image C spendPriv) sel)" and h: "0 < tv_stakedActivation v \<longrightarrow> height \<noteq> 0"
    and pseudo: "clsag \<longrightarrow> (\<forall>i < length sel - 1. \<exists>q. sc_ok q \<and> br_pseudo R i = Some (sc_bytes q))"
    and bal: "ell dvd sum_list rs - sum_list gs"
      "sum_list (map (\<lambda>u. int (unat (ow_Amount u))) sel) = sum_list (map (\<lambda>e. int (unat (oe_amount e))) entries) + int (unat (tx_Fee tx))"
  shows "\<exists>tx'. sign_tx K C R clsag tx (made_inputs C R spendPriv clsag ds sel xs) (map oe_blind entries) = Inr tx' \<and> tx_Outputs tx' = tx_Outputs tx
    \<and> tx_Fee tx' = tx_Fee tx \<and> length (tx_Inputs tx') = length sel \<and> VerifyTxAtHeight K J C L store now v tx' height = Inr ()"
proof (cases clsag)
  case False
  let ?bis = "made_inputs C R spendPriv False ds sel xs"
  define ins where "ins = map bi_input ?bis"
  have ver: "tx_Version tx = TxVersionCommitmentBinding" "tx_CLSAGSignatures tx = []" using out False by (simp_all add: outgoing_def)
  have sg': "signable C R spendPriv False ds sel xs rs" using sg False by simp
  obtain sigs where sign: "sign_tx K C R False tx ?bis (map oe_blind entries) = Inr (tx\<lparr>tx_Inputs := ins, tx_Signatures := map Some sigs\<rparr>)" "length sigs = length sel"
    and good: "\<forall>i < length sel. mls_KeyImage (sigs ! i) = in_KeyImage (ins ! i)
        \<and> MLSAGVerifyV4 C (ringSignMessage K (tx_Hash K (tx\<lparr>tx_Inputs := ins\<rparr>)) (word_of_nat i)) (in_Ring (ins ! i)) (in_AmountCommit (ins ! i))
            (int (unat (in_RealIndex (ins ! i)))) (Some (sigs ! i)) = Inr True"
    using v4_signed [OF ok sg' ver(1), of K "map oe_blind entries"] unfolding ins_def by blast
  let ?tx = "tx\<lparr>tx_Inputs := ins, tx_Signatures := map Some sigs\<rparr>"
  have "VerifyTxAtHeight K J C L store now v ?tx height = Inr ()"
  proof (rule signed_accepted [OF ok sg out sel known dist h _ _ empty_sigs(1) [OF ver(2)] _ _ _ _ bal])
    show "\<forall>i < length sel. signature_valid K C ?tx i (ins ! i)"
      using good sign(2) ver signing_hash(1) by (simp add: signature_valid_def UsesCLSAG_def tx_versions at_index_def)
    show "\<exists>po. ins ! i = (bi_input (made_input C R spendPriv clsag ds i (sel ! i) (xs ! i)))\<lparr>in_PseudoOut := po\<rparr>" if "i < length sel" for i
      using that False by (intro exI [of _ 0]) (simp add: ins_def made_input_def Let_def)
    show "input_commit ?tx (ins ! i) = cv_bytes C (pedersen C (rs ! i) (scalarFromUint64 (ow_Amount (sel ! i))))" if "i < length sel" for i
      using that sg ver by (simp add: input_commit_def UsesCLSAG_def tx_versions ins_def made_input_fields signable_def own_coin_def)
  qed (use sign(2) False sg in \<open>simp_all add: ins_def signable_def\<close>)
  then show ?thesis using sign(1) False by (simp add: ins_def)
next
  case True
  let ?bis = "made_inputs C R spendPriv True ds sel xs"
  have ver: "tx_Version tx = TxVersionCLSAG" "tx_Signatures tx = []" using out True by (simp_all add: outgoing_def)
  have sg': "signable C R spendPriv True ds sel xs rs" using sg True by simp
  have gs: "map oe_blind entries = map sc_bytes gs" "\<forall>g \<in> set gs. sc_ok g"
    using out by (auto intro!: nth_equalityI simp: outgoing_def list_all2_conv_all_nth entry_opens_def all_set_conv_all_nth)
  obtain qs where qs: "pseudo_blinds (br_pseudo R) (length sel) (map oe_blind entries) = Inr (map sc_bytes qs)" "length qs = length sel" "\<forall>q \<in> set qs. sc_ok q"
    "ell dvd sum_list qs - sum_list gs" using pseudo_blinds_made [OF gs(2), of "length sel" "br_pseudo R"] pseudo True sel gs(1) by auto
  define ins where "ins = pseudo_inputs C ?bis qs"
  obtain sigs where sign: "sign_tx K C R True tx ?bis (map oe_blind entries) = Inr (tx\<lparr>tx_Inputs := ins, tx_CLSAGSignatures := map Some sigs\<rparr>)" "length sigs = length sel"
    and good: "\<forall>i < length sel. cls_KeyImage (sigs ! i) = in_KeyImage (ins ! i)
        \<and> CLSAGVerify C (ringSignMessage K (tx_Hash K (tx\<lparr>tx_Inputs := ins\<rparr>)) (word_of_nat i)) (in_Ring (ins ! i)) (in_RingCommitments (ins ! i))
            (in_PseudoOut (ins ! i)) (Some (sigs ! i)) = Inr True"
    using clsag_signed [OF ok sg' qs(1-3), of K tx] unfolding ins_def by blast
  let ?tx = "tx\<lparr>tx_Inputs := ins, tx_CLSAGSignatures := map Some sigs\<rparr>"
  have len: "length ins = length sel" using qs(2) by (simp add: ins_def pseudo_inputs_def)
  have "VerifyTxAtHeight K J C L store now v ?tx height = Inr ()"
  proof (rule signed_accepted [OF ok sg out sel known dist h len _ empty_sigs(2) [OF ver(2)] _ _ qs(2) _ qs(4) bal(2)])
    show "\<forall>i < length sel. signature_valid K C ?tx i (ins ! i)"
      using good sign(2) ver signing_hash(2) by (simp add: signature_valid_def UsesCLSAG_def tx_versions at_index_def)
    show "\<exists>po. ins ! i = (bi_input (made_input C R spendPriv clsag ds i (sel ! i) (xs ! i)))\<lparr>in_PseudoOut := po\<rparr>" if "i < length sel" for i
      using that True qs(2) by (simp add: ins_def pseudo_inputs_def) blast
    show "input_commit ?tx (ins ! i) = cv_bytes C (pedersen C (qs ! i) (scalarFromUint64 (ow_Amount (sel ! i))))" if "i < length sel" for i
      using that qs(2) ver by (simp add: input_commit_def UsesCLSAG_def ins_def pseudo_inputs_def made_input_fields)
  qed (use sign(2) True in simp_all)
  then show ?thesis using sign(1) True len by simp
qed

section \<open>Build\<close>

lemma selected_value:
  assumes sel: "select_coins version feePerByte False 0 0 amount av = Inr (sel, tot, fee)" and fit: "coins_fit av" and amount: "amount \<noteq> 0"
  shows "sel \<noteq> []" "unat tot = sum_list (map (unat \<circ> ow_Amount) sel)" "unat tot = unat amount + unat (tot - amount - fee) + unat fee"
proof -
  obtain n1 where "checked_need feePerByte (txEstimatedSize version 1 2) 0 amount = Inr n1" using sel by (auto simp: select_coins_def Let_def split: sum.splits prod.splits)
  obtain needed where g: "greedy_select needed av [] 0 = (sel, tot)" and c: "checked_need feePerByte (txEstimatedSize version (length sel) 2) 0 amount = Inr (fee, amount + fee)"
    and t: "\<not> tot < amount + fee"
    using sel by (auto simp: select_coins_def checked_need_def Let_def split: sum.splits prod.splits if_splits)
  obtain j where j: "sel = take j av" "tot = prefix_sum av j" using greedy_from_empty [of needed av] g by (metis Pair_inject)
  show total: "unat tot = sum_list (map (unat \<circ> ow_Amount) sel)" using prefix_sum_nat [OF fit, of j] j by simp
  have "unat amount + unat fee < 2 ^ 64" using c no_overflow [of fee amount] by (auto simp: checked_need_def Let_def split: if_splits)
  then have un: "unat (amount + fee) = unat amount + unat fee" by (simp add: unat_add_u64)
  then have le: "unat amount + unat fee \<le> unat tot" using t by (simp add: word_less_nat_alt)
  then have "amount \<le> tot" by (simp add: word_le_nat_alt)
  then have s1: "unat (tot - amount) = unat tot - unat amount" by (rule unat_sub)
  then have "fee \<le> tot - amount" using le by (simp add: word_le_nat_alt)
  then have "unat (tot - amount - fee) = unat tot - unat amount - unat fee" using s1 by (simp add: unat_sub)
  then show "unat tot = unat amount + unat (tot - amount - fee) + unat fee" using le by simp
  have "0 < unat amount" using amount by (simp add: unat_gt_0)
  then show "sel \<noteq> []" using le total by auto
qed

text \<open>The decoys suffice for all rings, are pairwise different encoded points and none of the inputs.\<close>

definition decoys_suffice :: "('p::ab_group_add) curve \<Rightarrow> bool \<Rightarrow> OwnedUTXO list \<Rightarrow> DecoyUTXO list \<Rightarrow> bool" where
  "decoys_suffice C clsag sel ds \<longleftrightarrow> length sel * (RingSize - 1) \<le> length ds \<and> distinct (map dc_OneTimePub ds)
     \<and> (\<forall>d \<in> set ds. decoy_ok C clsag d \<and> dc_OneTimePub d \<notin> input_pubs sel)"

text \<open>No random draw of a build with \<open>n\<close> inputs fails, and none is out of its range.\<close>

definition entropy_works :: "build_rnd \<Rightarrow> bool \<Rightarrow> nat \<Rightarrow> bool" where
  "entropy_works R clsag n \<longleftrightarrow> (\<forall>i < n. (\<exists>p < RingSize. br_position R i = Some p) \<and> draws (br_sign R i) (3 * RingSize + 1))
     \<and> draws (br_output R 0) 1 \<and> draws (br_output R 1) 1 \<and> (clsag \<longrightarrow> (\<forall>i < n - 1. \<exists>q. sc_ok q \<and> br_pseudo R i = Some (sc_bytes q)))"

lemma rings_ready:
  assumes "decoys_suffice C clsag sel ds" and "entropy_works R clsag (length sel)" and i: "i < length sel"
  shows "ring_ready C R clsag ds i (sel ! i)"
proof -
  have "Suc i * (RingSize - 1) \<le> length sel * (RingSize - 1)" using i by (intro mult_le_mono1) simp
  then have "i * (RingSize - 1) + (RingSize - 1) \<le> length ds" using assms(1) by (simp add: decoys_suffice_def)
  then have "length (ring_decoys ds i) = RingSize - 1" by (simp add: ring_decoys_def)
  moreover have "distinct (map dc_OneTimePub (ring_decoys ds i))"
    using assms(1) by (simp add: decoys_suffice_def ring_decoys_def take_map [symmetric] drop_map [symmetric] distinct_take distinct_drop)
  moreover have "u_OneTimePub (ow_UTXO (sel ! i)) \<in> input_pubs sel" using i by (simp add: input_pubs_def)
  moreover have "\<forall>d \<in> set (ring_decoys ds i). decoy_ok C clsag d \<and> dc_OneTimePub d \<notin> input_pubs sel"
    using assms(1) set_ring_decoys [of ds i] by (auto simp: decoys_suffice_def)
  moreover have "\<exists>p < RingSize. br_position R i = Some p" using assms(2) i by (simp add: entropy_works_def)
  ultimately show ?thesis unfolding ring_ready_def by auto
qed

lemma openings_checked:
  assumes "\<forall>u \<in> set sel. \<exists>x r. own_coin C spendPriv u x r"
  shows "check_openings C sel = Inr ()"
  unfolding check_openings_def foldE_unit
proof
  fix p assume "p \<in> set (enumerate 0 sel)"
  then have "snd p \<in> set sel" by (metis enumerate_eq_zip prod.collapse set_zip_rightD)
  then obtain x r where "own_coin C spendPriv (snd p) x r" using assms by blast
  then show "(case p of (i, u) \<Rightarrow> \<lambda>_. if validateOwnedUTXOOpening C u then Inr () else Inl (BOpening i)) () = Inr ()"
    by (cases p) (simp add: validateOwnedUTXOOpening_def Commit_def own_coin_def)
qed

lemma finish_accepted:
  assumes ok: "curve_ok C" and ds: "all_decoys R b clsag sel = Inr ds" "decoys_suffice C clsag sel ds" and ent: "entropy_works R clsag (length sel)"
    and own: "length xs = length sel" "length rs = length sel" "\<forall>i < length sel. own_coin C (tb_spendPriv b) (sel ! i) (xs ! i) (rs ! i)" "sel \<noteq> []"
    and known: "tv_utxos v = Some s" "\<forall>u \<in> set sel. coin_known K C L store now v s height clsag (tb_spendPriv b) u" "\<forall>d \<in> set ds. decoy_known store now v s height clsag d"
    and dist: "distinct (map (coin_image C (tb_spendPriv b)) sel)" and h: "0 < tv_stakedActivation v \<longrightarrow> height \<noteq> 0"
    and tx: "tx = (empty_tx (if clsag then TxVersionCLSAG else TxVersionCommitmentBinding))\<lparr>tx_Fee := fee, tx_FeeCommit := fee_commit C fee\<rparr>"
    and ent2: "list_all2 (entry_opens C) entries gs" "entries \<noteq> []" "length entries \<le> 16" "provable C (br_range R) entries"
    and bal: "ell dvd sum_list rs - sum_list gs"
      "sum_list (map (\<lambda>u. int (unat (ow_Amount u))) sel) = sum_list (map (\<lambda>e. int (unat (oe_amount e))) entries) + int (unat fee)"
  shows "\<exists>tx' bis. finish_tx K C R b clsag tx sel entries = Inr (tx', bis) \<and> tx_Outputs tx' = map oe_output entries \<and> tx_Fee tx' = fee
    \<and> length (tx_Inputs tx') = length sel \<and> sum_list (map bi_fallbacks bis) = 0 \<and> VerifyTxAtHeight K J C L store now v tx' height = Inr ()"
proof -
  have sg: "signable C R (tb_spendPriv b) clsag ds sel xs rs"
    using own rings_ready [OF ds(2) ent] ent by (simp add: signable_def entropy_works_def)
  obtain ps where ps: "build_proofs C (br_range R) entries = Inr ps" "length ps = length entries" "\<forall>i < length entries. \<exists>p. ps ! i = Some p
    \<and> VerifyRange C (Some p) = Inr True \<and> rp_ValueCommit p = out_AmountCommit (oe_output (entries ! i))" using proofs_made [OF ok ent2(1,4)] by blast
  let ?bis = "made_inputs C R (tb_spendPriv b) clsag ds sel xs" and ?tx = "tx\<lparr>tx_Outputs := map oe_output entries, tx_RangeProofs := ps\<rparr>"
  have out: "outgoing C clsag entries gs ?tx" using ent2 ps by (simp add: outgoing_def tx empty_tx_def)
  have "clsag \<longrightarrow> (\<forall>i < length sel - 1. \<exists>q. sc_ok q \<and> br_pseudo R i = Some (sc_bytes q))" using ent by (simp add: entropy_works_def)
  moreover have "tx_Fee ?tx = fee" by (simp add: tx empty_tx_def)
  ultimately obtain tx' where "sign_tx K C R clsag ?tx ?bis (map oe_blind entries) = Inr tx'" "tx_Outputs tx' = map oe_output entries" "tx_Fee tx' = fee"
    "length (tx_Inputs tx') = length sel" "VerifyTxAtHeight K J C L store now v tx' height = Inr ()"
    using signing_accepted [OF ok sg out own(4) known dist h _ bal(1), of J] bal(2) by auto
  moreover have "sum_list (map bi_fallbacks ?bis) = 0" by (simp add: made_inputs_def made_input_def Let_def comp_def)
  ultimately show ?thesis using ds(1) inputs_made [OF sg] ps(1) by (simp add: finish_tx_def)
qed

lemma int_amounts: "int (sum_list (map (unat \<circ> f) us)) = sum_list (map (\<lambda>u. int (unat (f u))) us)"
  by (induction us) simp_all

section \<open>Properties\<close>

text \<open>C4: What the wallet builds, the node accepts.  Take an ordinary payment of version 4 or with CLSAG rings: the amount is not zero, the recipient is not
  the burn address, there is no contract payload, both addresses decode to curve points, coin selection succeeds, and all the wallet's outputs together are worth
  less than $2^{64}$ (a condition of the theorem: the code adds them without a check).  Suppose that the selected coins are the wallet's (it derives their
  one-time keys, their blinding factors open the commitments, no key or key image is the neutral element) and have different key images; that the node knows
  each of them with its commitment, unspent and not a locked allocation; that there are at least fifteen decoys for each input, with different keys, none of them the key of an
  input, each an encoded point and none a locked allocation, and for CLSAG of prime order and known to the node with the same commitment; that, for CLSAG and
  from the activation of the rule on staked outputs, neither a coin nor a decoy is staked; that the height is not 0 when that rule is configured; that no random
  draw fails and no challenge of a range proof is a multiple of the group order.  Then \<open>Build\<close> succeeds, spends exactly the selected coins with no fallback
  key in a ring, their worth is the amount plus the change plus the fee as natural numbers, and the verifier of the node accepts the transaction at the given
  height.\<close>

theorem built_spend_accepted:
  fixes v :: "'d TxVerifier" and C :: "('p::ab_group_add) curve"
  assumes ok: "curve_ok C" and ver: "tb_txVersion b = (if clsag then TxVersionCLSAG else TxVersionCommitmentBinding)" and avm: "tb_avmPayload b = None"
    and pay: "amount \<noteq> 0" "good_address K C recipient" "good_address K C changeAddr" "\<not> IsBurnAddress K C recipient"
    and coins: "coins_fit (dedup_pubs {} (br_sort R (tb_ownedUTXOs b)))"
      "select_coins (tb_txVersion b) (tb_feePerByte b) False 0 0 amount (dedup_pubs {} (br_sort R (tb_ownedUTXOs b))) = Inr (sel, totalIn, fee)"
    and own: "\<forall>u \<in> set sel. \<exists>x r. own_coin C (tb_spendPriv b) u x r" "distinct (map (coin_image C (tb_spendPriv b)) sel)"
    and decoys: "all_decoys R b clsag sel = Inr ds" "decoys_suffice C clsag sel ds"
    and node: "tv_utxos v = Some s" "\<forall>u \<in> set sel. coin_known K C L store now v s height clsag (tb_spendPriv b) u"
      "\<forall>d \<in> set ds. decoy_known store now v s height clsag d" "0 < tv_stakedActivation v \<longrightarrow> height \<noteq> 0"
    and entropy: "entropy_works R clsag (length sel)"
      "\<And>entries. build_outputs K C (br_output R) False amount recipient changeAddr (totalIn - amount - fee) (map ow_Blind sel) = Inr entries
         \<Longrightarrow> provable C (br_range R) entries"
  shows "\<exists>res. Build K C R b amount recipient changeAddr = Inr res \<and> bd_SelectedUTXOs res = sel \<and> bd_TotalFee res = fee \<and> bd_FallbackDecoyCount res = 0
    \<and> unat totalIn = sum_list (map (unat \<circ> ow_Amount) sel) \<and> unat totalIn = unat amount + unat (bd_ChangeAmount res) + unat fee
    \<and> tx_Fee (bd_Tx res) = fee \<and> length (tx_Inputs (bd_Tx res)) = length sel \<and> VerifyTxAtHeight K J C L store now v (bd_Tx res) height = Inr ()"
proof -
  let ?change = "totalIn - amount - fee"
  note worth = selected_value [OF coins(2,1) pay(1)]
  have "\<forall>u \<in> set sel. \<exists>p. own_coin C (tb_spendPriv b) u (fst p) (snd p)" using own(1) by simp
  from bchoice [OF this] obtain f where f: "\<forall>u \<in> set sel. own_coin C (tb_spendPriv b) u (fst (f u)) (snd (f u))" ..
  define xs rs where "xs = map (fst \<circ> f) sel" and "rs = map (snd \<circ> f) sel"
  have keys: "length xs = length sel" "length rs = length sel" "\<forall>i < length sel. own_coin C (tb_spendPriv b) (sel ! i) (xs ! i) (rs ! i)"
    using f by (simp_all add: xs_def rs_def)
  have rs: "\<forall>r \<in> set rs. sc_ok r" "map ow_Blind sel = map sc_bytes rs"
    using keys by (auto intro!: nth_equalityI simp: all_set_conv_all_nth own_coin_def)
  obtain entries gs where out: "build_outputs K C (br_output R) False amount recipient changeAddr ?change (map ow_Blind sel) = Inr entries"
    "list_all2 (entry_opens C) entries gs" "ell dvd sum_list rs - sum_list gs" "map oe_amount entries = (if 0 < ?change then [amount, ?change] else [amount])"
    using payment_outputs [OF ok pay(2,3), of "br_output R" rs amount ?change] entropy(1) rs by (auto simp: entropy_works_def)
  have ent: "entries \<noteq> []" "length entries \<le> 16" using arg_cong [OF out(4), of length] by (auto split: if_splits)
  have "sum_list (map (\<lambda>e. int (unat (oe_amount e))) entries) = sum_list (map (\<lambda>v. int (unat v)) (map oe_amount entries))" by (simp add: comp_def)
  also have "\<dots> = int (unat amount + unat ?change)" unfolding out(4) by (simp add: word_gt_0)
  finally have bal: "sum_list (map (\<lambda>u. int (unat (ow_Amount u))) sel) = sum_list (map (\<lambda>e. int (unat (oe_amount e))) entries) + int (unat fee)"
    using worth(2,3) int_amounts [of ow_Amount sel] by linarith
  let ?tx = "(empty_tx (if clsag then TxVersionCLSAG else TxVersionCommitmentBinding))\<lparr>tx_Fee := fee, tx_FeeCommit := fee_commit C fee\<rparr>"
  obtain tx' bis where fin: "finish_tx K C R b clsag ?tx sel entries = Inr (tx', bis)" "tx_Fee tx' = fee" "length (tx_Inputs tx') = length sel"
    "sum_list (map bi_fallbacks bis) = 0" "VerifyTxAtHeight K J C L store now v tx' height = Inr ()"
    using finish_accepted [OF ok decoys entropy(1) keys worth(1) node(1-3) own(2) node(4) refl out(2) ent entropy(2) [OF out(1)] out(3) bal] by blast
  have "build_checks K C b amount recipient changeAddr = Inr (False, 0, 0)"
    using pay ver avm by (auto simp: build_checks_def good_address_def tx_versions)
  moreover have "txVersionUsesCLSAG (tb_txVersion b) = clsag" using ver by (simp add: txVersionUsesCLSAG_def tx_versions)
  moreover have "Commit C fee 0 = Inr (fee_commit C fee)" by (simp add: Commit_def zero_blind scalarFromUint64_def fee_commit_def)
  moreover have "(empty_tx (tb_txVersion b))\<lparr>tx_Fee := fee, tx_FeeCommit := fee_commit C fee, tx_AVM := tb_avmPayload b, tx_Extra := []\<rparr> = ?tx"
    using ver avm by (simp add: empty_tx_def)
  ultimately have "Build K C R b amount recipient changeAddr = Inr (build_result False (tb_paymentRecipientProof b) ?change fee sel entries tx' bis)"
    using coins(2) openings_checked [OF own(1)] out(1) fin(1) by (simp add: Build_def build_spend_def Let_def)
  then show ?thesis using worth(2,3) fin by (simp add: build_result_def)
qed

subsection \<open>A concrete payment\<close>

text \<open>The output of \<open>demo_owned\<close> pays 900000 to a wallet, with change, in a ring of fifteen decoys.\<close>

definition demo_wallet_coin :: OwnedUTXO where
  "demo_wallet_coin = \<lparr>ow_UTXO = demo_owned, ow_HsScalar = sc_bytes 0, ow_Amount = 1000000, ow_Blind = sc_bytes 5\<rparr>"

definition demo_decoys :: "DecoyUTXO list" where
  "demo_decoys = map (\<lambda>pub. \<lparr>dc_OneTimePub = pub, dc_AmountCommit = 0\<rparr>) (tl demo_ring)"

definition demo_builder :: "(bytes \<rightharpoonup> bytes) TxBuilder" where
  "demo_builder = WithDecoys demo_decoys (NewTxBuilder (sc_bytes 1) (sc_bytes 2) (hd demo_ring) [demo_wallet_coin] 1)"

definition demo_rnd :: build_rnd where
  "demo_rnd = \<lparr>br_sort = id, br_order = (\<lambda>_. []), br_sampler = None, br_offsets = (\<lambda>_ _. None), br_output = (\<lambda>_ _. Some 3),
     br_position = (\<lambda>_. Some 4), br_seed = (\<lambda>_ _. None), br_range = (\<lambda>_ _. Some 3), br_pseudo = (\<lambda>_. None), br_sign = (\<lambda>_ _. Some 3)\<rparr>"

definition demo_address :: "nat \<Rightarrow> Address" where
  "demo_address k = EncodeAddress demo_lib MainnetByte (cv_bytes zl_curve (zl_of (int k))) (cv_bytes zl_curve (zl_of 7))"

lemma demo_address_decode: "DecodeAddress demo_lib (demo_address k) = Inr (MainnetByte, cv_bytes zl_curve (zl_of (int k)), cv_bytes zl_curve (zl_of 7))"
  unfolding demo_address_def using address_decode_encode [of demo_lib MainnetByte] demo_base58 by (simp add: known_network_def)

lemma zl_bytes_inj: "cv_bytes zl_curve a = cv_bytes zl_curve b \<longleftrightarrow> a = b"
  by (metis curve_parse option.inject zl_curve_ok)

lemma demo_not_burn: "\<not> IsBurnAddress demo_lib zl_curve (demo_address 3)"
proof
  assume "IsBurnAddress demo_lib zl_curve (demo_address 3)"
  then have "demo_address 3 = BurnAddress demo_lib zl_curve MainnetByte" by (simp add: IsBurnAddress_def demo_address_decode)
  then have "cv_bytes zl_curve (zl_of (int 3)) = burnPoint zl_curve ''aperod/canonical-burn/spend/v1'' MainnetByte"
    using address_decode_encode [of demo_lib MainnetByte] demo_base58 demo_address_decode [of 3] by (simp add: BurnAddress_def known_network_def)
  then have "zl_of (int 3) = zl_of 16" by (simp add: burnPoint_def zl_bytes_inj HashToCurvePoint_def hash_loop.simps zl_hash_attempt)
  then show False using zl_small_inj [of 3 16] by simp
qed

lemma demo_builder_fields:
  "tb_txVersion demo_builder = TxVersionCommitmentBinding" "tb_avmPayload demo_builder = None" "tb_spendPriv demo_builder = sc_bytes 1"
  "tb_feePerByte demo_builder = 1" "dedup_pubs {} (br_sort demo_rnd (tb_ownedUTXOs demo_builder)) = [demo_wallet_coin]" "tb_decoys demo_builder = demo_decoys"
  by (simp_all add: demo_builder_def demo_rnd_def WithDecoys_def NewTxBuilder_def)

lemma demo_selection: "select_coins TxVersionCommitmentBinding 1 False 0 0 900000 [demo_wallet_coin] = Inr ([demo_wallet_coin], 1000000, 3840)"
  by (simp add: select_coins_def checked_need_def txEstimatedSize_def txVersionUsesCLSAG_def tx_versions maxInputs_def
      txOverheadBytes_def txBytesPerInput_def txBytesPerOutput_def max_u64_def Let_def demo_wallet_coin_def)

lemma demo_ring_points: "hd demo_ring = cv_bytes zl_curve (zl_of 1)" "hd demo_ring # tl demo_ring = demo_ring" "distinct demo_ring" "length demo_ring = RingSize"
proof -
  have ne: "demo_keys \<noteq> []" using demo_keys_ring(1) by (auto simp: RingSize_def)
  then show "hd demo_ring = cv_bytes zl_curve (zl_of 1)" using demo_keys_ring(4) by (simp add: demo_ring_def hd_map hd_conv_nth)
  show "hd demo_ring # tl demo_ring = demo_ring" using ne by (simp add: demo_ring_def)
  show "distinct demo_ring" "length demo_ring = RingSize"
    using demo_keys_ring(1,2) by (auto simp: demo_ring_def distinct_map inj_on_def zl_bytes_inj)
qed

lemma demo_coin_image: "coin_image zl_curve (sc_bytes 1) demo_wallet_coin = cv_bytes zl_curve (zl_of 16)"
proof -
  have "sc_ok 1" "sc_ok 0" by (simp_all add: sc_ok_def ell_def)
  then show ?thesis
    using zl_ring_hash [of "hd demo_ring"]
    by (simp add: coin_image_def demo_wallet_coin_def AddScalars_def ComputeKeyImage_def sc_add_def ell_def ring_hash_def demo_owned_def smul_zl)
qed

lemma demo_coin_owned: "own_coin zl_curve (sc_bytes 1) demo_wallet_coin 1 5"
proof -
  have sc: "sc_ok 1" "sc_ok 5" "sc_ok 0" by (simp_all add: sc_ok_def ell_def)
  then have "AddScalars (ow_HsScalar demo_wallet_coin) (sc_bytes 1) = Inr (sc_bytes 1)" by (simp add: demo_wallet_coin_def AddScalars_def sc_add_def ell_def)
  moreover have "zl_of 1 \<noteq> 0" using demo_keys_ring(3,4) demo_keys_ring(1) by (metis nth_mem RingSize_def zero_less_numeral)
  ultimately show ?thesis
    using sc demo_ring_points(1) zl_image_nonzero demo_image_nonzero demo_coin_image
    by (simp add: own_coin_def zl_base_mul zl_ring_hash) (simp add: demo_wallet_coin_def demo_owned_def demo_commit_def)
qed

lemma demo_decoys_facts: "decoys_suffice zl_curve False [demo_wallet_coin] demo_decoys" "demo_decoys \<noteq> []"
  "all_decoys demo_rnd demo_builder False [demo_wallet_coin] = Inr demo_decoys"
proof -
  have tl: "hd demo_ring \<notin> set (tl demo_ring)" "distinct (tl demo_ring)" "length (tl demo_ring) = RingSize - 1"
    using demo_ring_points(2-4) by (metis distinct.simps(2)) (simp_all add: demo_ring_points distinct_tl)
  show ne: "demo_decoys \<noteq> []" using tl(3) by (cases "tl demo_ring") (simp_all only: demo_decoys_def RingSize_def, simp_all)
  have pubs: "input_pubs [demo_wallet_coin] = {hd demo_ring}" by (simp add: input_pubs_def demo_wallet_coin_def demo_owned_def)
  have "set (tl demo_ring) \<subseteq> range (cv_bytes zl_curve)" by (auto simp: demo_ring_def map_tl [symmetric])
  then show suff: "decoys_suffice zl_curve False [demo_wallet_coin] demo_decoys"
    using tl by (auto simp: decoys_suffice_def demo_decoys_def pubs decoy_ok_def comp_def)
  then show "all_decoys demo_rnd demo_builder False [demo_wallet_coin] = Inr demo_decoys"
    using ne by (auto simp: all_decoys_def demo_builder_fields decoys_suffice_def intro: filter_True)
qed

theorem built_spend_accepted_witness:
  "\<exists>res. Build demo_lib zl_curve demo_rnd demo_builder 900000 (demo_address 3) (demo_address 5) = Inr res
     \<and> VerifyTxAtHeight demo_lib no_json zl_curve mem_leveldb None 0 demo_verifier (bd_Tx res) 1 = Inr ()"
proof -
  have addr: "good_address demo_lib zl_curve (demo_address k)" for k using demo_address_decode by (auto simp: good_address_def)
  have fit: "coins_fit [demo_wallet_coin]" by (simp add: coins_fit_def demo_wallet_coin_def)
  have v: "tv_vestingLock demo_verifier = None" "tv_utxos demo_verifier = Some (Add demo_owned (NewUTXOSetWithDB None))" "tv_stakedActivation demo_verifier = 0"
    by (simp_all add: demo_verifier_def NewTxVerifier_def)
  have wc: "ow_UTXO demo_wallet_coin = demo_owned" "u_OneTimePub demo_owned = hd demo_ring" by (simp_all add: demo_wallet_coin_def demo_owned_def)
  have coin: "coin_known demo_lib zl_curve mem_leveldb None 0 demo_verifier (Add demo_owned (NewUTXOSetWithDB None)) 1 False (sc_bytes 1) demo_wallet_coin"
    using v(1) by (simp add: coin_known_def unlocked_def wc demo_unspent demo_lookup)
  have decoys: "\<forall>d \<in> set demo_decoys. decoy_known None 0 demo_verifier (Add demo_owned (NewUTXOSetWithDB None)) 1 False d"
    using v(1) by (simp add: decoy_known_def unlocked_def)
  have ent: "entropy_works demo_rnd False 1" "provable zl_curve (br_range demo_rnd) entries" for entries
    using zl_prover_challenges by (simp_all add: entropy_works_def draws_def demo_rnd_def RingSize_def provable_def)
  show ?thesis
    using built_spend_accepted [OF zl_curve_ok, of demo_builder False 900000 demo_lib "demo_address 3" "demo_address 5" demo_rnd "[demo_wallet_coin]" 1000000 3840
        demo_decoys demo_verifier "Add demo_owned (NewUTXOSetWithDB None)" mem_leveldb None 0 1 no_json]
      demo_builder_fields addr demo_not_burn fit demo_selection demo_coin_owned demo_decoys_facts coin decoys ent v
    by auto
qed

end
