(* ===== verification/Crypto_Instance.thy ===== *)
theory Crypto_Instance
  imports Ring_Signatures Utxo
begin

text \<open>
  The cryptographic operations that the theories on transactions, stakes and outputs take from the record \<open>lib\<close>,
  filled with the models of the code of \<open>crypto/\<close>.  The hypothesis on canonical key images that the theorems on
  the spent set carry holds for this record on every curve.
\<close>

section \<open>Definitions\<close>

definition ok_option :: "'e + 'a \<Rightarrow> 'a option" where
  "ok_option r = (case r of Inl _ \<Rightarrow> None | Inr x \<Rightarrow> Some x)"

definition curve_lib :: "('p::ab_group_add) curve \<Rightarrow> lib \<Rightarrow> lib" where
  "curve_lib C K = K\<lparr>
     hash_to_curve := \<lambda>b. cv_bytes C (HashToCurvePoint C b),
     prime_point := \<lambda>p. is_ok (checkedCLSAGPrimePoint C p),
     pedersen_commit := \<lambda>v r. ok_option (Commit C v r),
     value_opening_ok := \<lambda>v c b. VerifyValueAuthorization C v c (arr_of (take 32 b), arr_of (drop 32 b)) = Inr (),
     canonical_key_image := \<lambda>ki. ok_option (CanonicalKeyImage C ki),
     key_image_proof_ok := \<lambda>pub ki ctx p. VerifyKeyImageProof C pub ki ctx p = Inr (),
     mint_blind_v2 := \<lambda>p a h. Some (DeterministicMintBlindV2 C p a h),
     scalar_mul_base := \<lambda>n. ok_option (scalarMulBase C (ScalarFromUint64 n)),
     add_points := \<lambda>p q. ok_option (AddPoints C p q),
     mlsag_verify_v4 := \<lambda>m ring c i s. MLSAGVerifyV4 C m ring c (int (unat i)) (Some s) = Inr True\<rparr>"

section \<open>Canonical key images\<close>

lemma curve_lib_canonical: "canonical_key_image (curve_lib C K) ki = ok_option (CanonicalKeyImage C ki)"
  by (simp add: curve_lib_def)

lemma curve_lib_canonical_ok: "curve_ok C \<Longrightarrow> canonical_ok (curve_lib C K)"
  unfolding canonical_ok_def curve_lib_canonical ok_option_def
  by (auto split: sum.splits dest: canonical_idem)

text \<open>C21: A double spend cannot hide behind the cofactor.  With the key-image operations of the code on any curve of the required shape, marking one key
  image spent makes exactly the images found spent that were before and those whose points differ from it by a point of order dividing 8: an
  attacker who adds such a point to the key image of a spent output is caught, and no other image is affected.\<close>

theorem torsion_images_share_spend:
  fixes C :: "'p::ab_group_add curve"
  assumes ok: "curve_ok C" and inv: "ki_inv (curve_lib C K) L V (us_keyImages s)" and p: "smul 8 p \<noteq> 0" and q: "smul 8 q \<noteq> 0"
  shows "IsSpent (curve_lib C K) L (MarkSpent (curve_lib C K) L (cv_bytes C p) s) (cv_bytes C q)
     \<longleftrightarrow> smul 8 (p - q) = 0 \<or> IsSpent (curve_lib C K) L s (cv_bytes C q)"
proof -
  obtain a b where a: "CanonicalKeyImage C (cv_bytes C p) = Inr a" and b: "CanonicalKeyImage C (cv_bytes C q) = Inr b"
    using p q ok by (simp add: CanonicalKeyImage_bytes)
  have normal: "ki_normal (curve_lib C K) a" "ki_normal (curve_lib C K) b"
    using canonical_idem [OF ok a] canonical_idem [OF ok b] by (simp_all add: ki_normal_def curve_lib_canonical ok_option_def)
  show ?thesis
    using ki.contains_add [OF inv normal] canonical_eq_iff [OF ok a b] a b
    by (auto simp: IsSpent_def MarkSpent_def curve_lib_canonical ok_option_def)
qed

theorem torsion_images_share_spend_witness:
  "IsSpent (curve_lib zl_curve demo_lib) mem_leveldb
     (MarkSpent (curve_lib zl_curve demo_lib) mem_leveldb (cv_bytes zl_curve (zl_of 5)) (NewUTXOSetWithDB None)) (cv_bytes zl_curve (zl_of 5))"
proof -
  have "ki_inv (curve_lib zl_curve demo_lib) mem_leveldb dom (us_keyImages (NewUTXOSetWithDB None))"
    by (simp add: ki_inv_def NewUTXOSetWithDB_def curve_lib_canonical_ok zl_curve_ok mem_leveldb_ok)
  moreover have "smul 8 (zl_of 5) \<noteq> 0" by (simp add: smul_zl zl_of_eq_iff ell_def flip: zl_of_ops(4))
  ultimately show ?thesis using torsion_images_share_spend [OF zl_curve_ok, of demo_lib mem_leveldb dom "NewUTXOSetWithDB None"] by simp
qed

end
