(* ===== verification/Mempool.thy ===== *)
theory Mempool
  imports Tx_Verifier "HOL-Library.Multiset"
begin

text \<open>
  The transaction pool of \<open>core/mempool.go\<close>.  The configured callbacks (chain height, verifier, contract nonce lookup and preflight,
  stake preflight) and the clock are a record \<open>pool_env\<close>; the verifier is \<open>VerifyTxAtHeight\<close> in the theorem on what
  is admitted.  The order in which Go iterates over the entries is a function of the map.  The theorems are about reachable pools: the
  reservation tables say exactly which transaction holds a key image, a validator or a contract signer; the caps
  hold; eviction makes room and ends; and the block proposer gets the best fee rates.
\<close>

section \<open>Definitions\<close>

record MempoolConfig =
  mc_MaxSize :: int
  mc_MaxBytes :: int
  mc_MaxTxSize :: int
  mc_TTL :: int
  mc_BaseFeePerByte :: u64
  mc_V4Height :: u64
  mc_CLSAGHeight :: u64
  mc_AVMHeight :: u64

definition DefaultMempoolConfig :: MempoolConfig where
  "DefaultMempoolConfig = \<lparr>mc_MaxSize = 10000, mc_MaxBytes = 256 * 1024 * 1024, mc_MaxTxSize = 100000, mc_TTL = 2 * 3600 * 10 ^ 9,
     mc_BaseFeePerByte = InitialBaseFeePerByte, mc_V4Height = 0, mc_CLSAGHeight = 0, mc_AVMHeight = 0\<rparr>"

record mempoolEntry =
  me_Tx :: Transaction
  me_Hash :: hash32
  me_Size :: int
  me_Received :: int
  me_privileged :: bool

definition bannedTxTTL :: int where "bannedTxTTL = 24 * 3600 * 10 ^ 9"

type_synonym entry_map = "hash32 \<rightharpoonup> mempoolEntry"

record mempool =
  mp_cfg :: MempoolConfig
  mp_entries :: entry_map
  mp_totalBytes :: int
  mp_keyImages :: "key_image \<rightharpoonup> hash32"
  mp_stakeSenders :: "string \<rightharpoonup> hash32"
  mp_avmSigners :: "arr32 \<rightharpoonup> hash32"
  mp_evictionsTotal :: u64
  mp_bannedHashes :: "hash32 \<rightharpoonup> int"

text \<open>A callback that is nil is \<open>None\<close>; the clock in nanoseconds.\<close>

record pool_env =
  pe_CurrentHeight :: "u64 option"
  pe_Verifier :: "(Transaction \<Rightarrow> u64 \<Rightarrow> verify_error + unit) option"
  pe_AVMNonceLookup :: "(arr32 \<Rightarrow> u64 option) option"
  pe_AVMAdmissionCheck :: "(AVMPayload \<Rightarrow> bool) option"
  pe_StakeAdmissionCheck :: "(Transaction \<Rightarrow> u64 \<Rightarrow> bool) option"
  pe_Now :: int

datatype mempool_error =
    MpSynthesized
  | MpCoinbase
  | MpPolicy policy_error
  | MpInvalid tx_error
  | MpCrypto verify_error
  | MpTooLarge
  | MpGasOverflow
  | MpBurnFee
  | MpFee
  | MpNonceLookup
  | MpNonce
  | MpAvmRejected
  | MpStakeExtra
  | MpStakeUnavailable
  | MpStakeStale
  | MpDuplicate
  | MpBanned
  | MpStakePending
  | MpSignerPending
  | MpDoubleSpend
  | MpCapacity

definition NewMempool :: "MempoolConfig \<Rightarrow> mempool" where
  "NewMempool cfg = \<lparr>mp_cfg = cfg, mp_entries = Map.empty, mp_totalBytes = 0, mp_keyImages = Map.empty, mp_stakeSenders = Map.empty,
     mp_avmSigners = Map.empty, mp_evictionsTotal = 0, mp_bannedHashes = Map.empty\<rparr>"

definition SetBaseFee :: "u64 \<Rightarrow> mempool \<Rightarrow> mempool" where
  "SetBaseFee fee s = s\<lparr>mp_cfg := (mp_cfg s)\<lparr>mc_BaseFeePerByte := if fee < MinBaseFeePerByte then MinBaseFeePerByte else fee\<rparr>\<rparr>"

definition nextBlockHeight :: "pool_env \<Rightarrow> u64" where
  "nextBlockHeight pe = (case pe_CurrentHeight pe of None \<Rightarrow> 0 | Some h \<Rightarrow> if h < max_u64 then h + 1 else h)"

definition NextSpendVersion :: "pool_env \<Rightarrow> mempool \<Rightarrow> u8" where
  "NextSpendVersion pe s =
     (case pe_CurrentHeight pe of None \<Rightarrow> TxVersionCommitmentBinding
      | Some _ \<Rightarrow>
          let nextHeight = nextBlockHeight pe; cfg = mp_cfg s in
          if 0 < mc_CLSAGHeight cfg \<and> mc_CLSAGHeight cfg \<le> nextHeight then TxVersionCLSAG
          else if 0 < mc_V4Height cfg \<and> nextHeight < mc_V4Height cfg then TxVersionBase
          else TxVersionCommitmentBinding)"

subsection \<open>Removing entries\<close>

definition stakeExtraPubKey :: "bytes \<Rightarrow> ValidatorPubKey option" where
  "stakeExtraPubKey extra =
     (if length extra \<noteq> StakePayloadSize \<and> length extra \<noteq> StakeWithdrawalPayloadSizeV2 \<and> length extra \<noteq> StakePayloadSizeV2
         \<and> length extra \<noteq> StakePayloadSizeV3 then None
      else Some (take 32 (drop 1 extra)))"

definition removeStakeSenderLocked :: "mempoolEntry \<Rightarrow> mempool \<Rightarrow> mempool" where
  "removeStakeSenderLocked e s =
     (if \<not> IsStake (me_Tx e) then s
      else case stakeExtraPubKey (tx_Extra (me_Tx e)) of None \<Rightarrow> s
      | Some pub \<Rightarrow>
          if mp_stakeSenders s (pub_Hex pub) = Some (me_Hash e)
          then s\<lparr>mp_stakeSenders := (mp_stakeSenders s)(pub_Hex pub := None)\<rparr> else s)"

definition removeAVMSignerLocked :: "mempoolEntry \<Rightarrow> mempool \<Rightarrow> mempool" where
  "removeAVMSignerLocked e s =
     (if \<not> IsAVM (me_Tx e) then s
      else case tx_AVM (me_Tx e) of None \<Rightarrow> s
      | Some p \<Rightarrow>
          if mp_avmSigners s (avm_Signer p) = Some (me_Hash e)
          then s\<lparr>mp_avmSigners := (mp_avmSigners s)(avm_Signer p := None)\<rparr> else s)"

definition tx_images :: "Transaction \<Rightarrow> key_image set" where
  "tx_images tx = in_KeyImage ` set (tx_Inputs tx)"

text \<open>The block of statements that every removal repeats.\<close>

definition drop_entry :: "hash32 \<Rightarrow> mempoolEntry \<Rightarrow> mempool \<Rightarrow> mempool" where
  "drop_entry hash e s =
     (let s = s\<lparr>mp_keyImages := mp_keyImages s |` (- tx_images (me_Tx e))\<rparr>;
          s = removeAVMSignerLocked e (removeStakeSenderLocked e s);
          total = mp_totalBytes s - me_Size e
      in s\<lparr>mp_totalBytes := if total < 0 then 0 else total, mp_entries := (mp_entries s)(hash := None)\<rparr>)"

definition count_eviction :: "mempool \<Rightarrow> mempool" where
  "count_eviction s = s\<lparr>mp_evictionsTotal := mp_evictionsTotal s + 1\<rparr>"

definition mp_Remove :: "hash32 \<Rightarrow> mempool \<Rightarrow> mempool" where
  "mp_Remove hash s = (case mp_entries s hash of None \<Rightarrow> s | Some e \<Rightarrow> drop_entry hash e s)"

definition RemoveBlock :: "lib \<Rightarrow> Block \<Rightarrow> mempool \<Rightarrow> mempool" where
  "RemoveBlock K block s = foldl (\<lambda>s tx. mp_Remove (tx_Hash K tx) s) s (blk_Txs block)"

definition BanTx :: "int \<Rightarrow> hash32 \<Rightarrow> mempool \<Rightarrow> mempool" where
  "BanTx now hash s =
     (let s = (case mp_entries s hash of None \<Rightarrow> s | Some e \<Rightarrow> count_eviction (drop_entry hash e s))
      in s\<lparr>mp_bannedHashes := (mp_bannedHashes s)(hash \<mapsto> now)\<rparr>)"

definition expire_entry :: "int \<Rightarrow> mempool \<Rightarrow> hash32 \<Rightarrow> mempool" where
  "expire_entry now s hash =
     (case mp_entries s hash of None \<Rightarrow> s
      | Some e \<Rightarrow> if mc_TTL (mp_cfg s) < now - me_Received e then count_eviction (drop_entry hash e s) else s)"

definition Evict :: "int \<Rightarrow> (entry_map \<Rightarrow> hash32 list) \<Rightarrow> mempool \<Rightarrow> mempool" where
  "Evict now ord s =
     (let s = foldl (expire_entry now) s (ord (mp_entries s))
      in s\<lparr>mp_bannedHashes := (\<lambda>h. case mp_bannedHashes s h of None \<Rightarrow> None
             | Some t \<Rightarrow> if bannedTxTTL < now - t then None else Some t)\<rparr>)"

subsection \<open>Eviction under pressure\<close>

definition fee_rate :: "mempoolEntry \<Rightarrow> u64" where
  "fee_rate e = tx_Fee (me_Tx e) div (if word_of_int (me_Size e) = (0 :: u64) then 1 else word_of_int (me_Size e))"

definition system_tx :: "Transaction \<Rightarrow> bool" where
  "system_tx tx \<longleftrightarrow> IsCoinbase tx \<or> IsStake tx \<or> IsLPoDPosition tx"

text \<open>The scans keep the first entry that is strictly better than all before it.\<close>

definition older :: "mempoolEntry option \<Rightarrow> mempoolEntry \<Rightarrow> mempoolEntry option" where
  "older oldest e = (case oldest of None \<Rightarrow> Some e | Some o0 \<Rightarrow> if me_Received e < me_Received o0 then Some e else Some o0)"

definition cheaper :: "mempoolEntry option \<Rightarrow> mempoolEntry \<Rightarrow> mempoolEntry option" where
  "cheaper cheapest e =
     (if system_tx (me_Tx e) then cheapest
      else case cheapest of None \<Rightarrow> Some e | Some c \<Rightarrow> if fee_rate e < fee_rate c then Some e else Some c)"

definition entry_list :: "(entry_map \<Rightarrow> hash32 list) \<Rightarrow> mempool \<Rightarrow> mempoolEntry list" where
  "entry_list ord s = map (\<lambda>h. the (mp_entries s h)) (ord (mp_entries s))"

definition evictOldest :: "(entry_map \<Rightarrow> hash32 list) \<Rightarrow> mempool \<Rightarrow> mempool \<times> bool" where
  "evictOldest ord s =
     (case foldl older None (entry_list ord s) of None \<Rightarrow> (s, False)
      | Some e \<Rightarrow> (count_eviction (drop_entry (me_Hash e) e s), True))"

definition evictLowestFeeRate :: "(entry_map \<Rightarrow> hash32 list) \<Rightarrow> mempool \<Rightarrow> mempool \<times> bool" where
  "evictLowestFeeRate ord s =
     (case foldl cheaper None (entry_list ord s) of None \<Rightarrow> evictOldest ord s
      | Some e \<Rightarrow> (count_eviction (drop_entry (me_Hash e) e s), True))"

definition mp_Count :: "mempool \<Rightarrow> nat" where
  "mp_Count s = card (dom (mp_entries s))"

definition at_capacity :: "int \<Rightarrow> mempool \<Rightarrow> bool" where
  "at_capacity sz s \<longleftrightarrow> mc_MaxSize (mp_cfg s) \<le> int (mp_Count s)
     \<or> (0 < mc_MaxBytes (mp_cfg s) \<and> mc_MaxBytes (mp_cfg s) < mp_totalBytes s + sz)"

text \<open>The loop that makes room: the pool it leaves and whether there is room.  \<open>ord\<close> gives an order for each table of entries, so every round, which
  sees a smaller table, has an order of its own.\<close>

partial_function (option) make_room :: "(entry_map \<Rightarrow> hash32 list) \<Rightarrow> int \<Rightarrow> mempool \<Rightarrow> (mempool \<times> bool) option" where
  "make_room ord sz s =
     (if at_capacity sz s then
        (let (s', removed) = evictLowestFeeRate ord s in
         if removed then make_room ord sz s' else Some (s', False))
      else Some (s, True))"

subsection \<open>Admission\<close>

definition check_fee :: "u64 \<Rightarrow> Transaction \<Rightarrow> mempool_error + unit" where
  "check_fee baseFee tx =
     (if IsStake tx \<or> IsLPoDPosition tx then Inr ()
      else case (if IsAVM tx then
               (case AVMGasFee (avm_GasLimit (the (tx_AVM tx))) of None \<Rightarrow> Inl MpGasOverflow
                | Some gasFee \<Rightarrow> if max_u64 - gasFee < MinFeeAt tx baseFee then Inl MpGasOverflow else Inr (MinFeeAt tx baseFee + gasFee))
             else Inr (MinFeeAt tx baseFee)) of
        Inl e \<Rightarrow> Inl e
      | Inr minFee \<Rightarrow>
          (case BurnAmount tx of (burn, isBurn) \<Rightarrow>
           if isBurn \<and> (max_u64 - burn < minFee \<or> tx_Fee tx < minFee + burn) then Inl MpBurnFee
           else if tx_Fee tx < minFee then Inl MpFee else Inr ()))"

definition validateAVMNonce :: "pool_env \<Rightarrow> Transaction \<Rightarrow> mempool_error + unit" where
  "validateAVMNonce pe tx =
     (if \<not> IsAVM tx then Inr ()
      else case pe_AVMNonceLookup pe of None \<Rightarrow> Inr () | Some lookup \<Rightarrow>
      let p = the (tx_AVM tx) in
      case lookup (avm_Signer p) of None \<Rightarrow> Inl MpNonceLookup | Some expected \<Rightarrow>
      if avm_Nonce p \<noteq> expected then Inl MpNonce
      else case pe_AVMAdmissionCheck pe of None \<Rightarrow> Inr () | Some check \<Rightarrow> if check p then Inr () else Inl MpAvmRejected)"

text \<open>The checks of \<open>Add\<close> that do not depend on the entries.\<close>

definition admissible :: "lib \<Rightarrow> jsonlib \<Rightarrow> pool_env \<Rightarrow> MempoolConfig \<Rightarrow> Transaction \<Rightarrow> mempool_error + unit" where
  "admissible K J pe cfg tx =
     (if IsGuardianFund tx \<or> IsLPoD tx \<or> IsLPoDPayout tx then Inl MpSynthesized
      else if IsCoinbase tx \<and> \<not> IsStake tx then Inl MpCoinbase
      else case (if pe_CurrentHeight pe = None then Inr ()
                 else ValidateTxVersionAtHeight K J tx (nextBlockHeight pe) (mc_V4Height cfg) (mc_CLSAGHeight cfg) (mc_AVMHeight cfg)) of
        Inl e \<Rightarrow> Inl (MpPolicy e) | Inr _ \<Rightarrow>
      case tx_Validate K J tx of Inl e \<Rightarrow> Inl (MpInvalid e) | Inr _ \<Rightarrow>
      case (case pe_Verifier pe of None \<Rightarrow> Inr () | Some verify \<Rightarrow> verify tx (nextBlockHeight pe)) of Inl e \<Rightarrow> Inl (MpCrypto e) | Inr _ \<Rightarrow>
      if mc_MaxTxSize cfg < int (tx_Size tx) then Inl MpTooLarge
      else case check_fee (mc_BaseFeePerByte cfg) tx of Inl e \<Rightarrow> Inl e | Inr _ \<Rightarrow> validateAVMNonce pe tx)"

text \<open>The stake preflight: the key of the validator, and the pool without its pending stake transaction when that has become stale.\<close>

definition stake_preflight :: "pool_env \<Rightarrow> Transaction \<Rightarrow> mempool \<Rightarrow> mempool_error + (string option \<times> mempool)" where
  "stake_preflight pe tx s =
     (if \<not> IsStake tx then Inr (None, s)
      else case stakeExtraPubKey (tx_Extra tx) of None \<Rightarrow> Inl MpStakeExtra | Some pub \<Rightarrow>
      let key = pub_Hex pub in
      case pe_StakeAdmissionCheck pe of
        None \<Rightarrow> if pe_CurrentHeight pe \<noteq> None then Inl MpStakeUnavailable else Inr (Some key, s)
      | Some check \<Rightarrow>
          if \<not> check tx (nextBlockHeight pe) then Inl MpStakeStale
          else Inr (Some key,
            case mp_stakeSenders s key of None \<Rightarrow> s
            | Some pendingHash \<Rightarrow>
                (case mp_entries s pendingHash of None \<Rightarrow> s
                 | Some e \<Rightarrow> if check (me_Tx e) (nextBlockHeight pe) then s else mp_Remove pendingHash s)))"

definition avm_signer :: "Transaction \<Rightarrow> arr32" where
  "avm_signer tx = (if IsAVM tx then avm_Signer (the (tx_AVM tx)) else 0)"

definition conflicts :: "Transaction \<Rightarrow> hash32 \<Rightarrow> string option \<Rightarrow> mempool \<Rightarrow> mempool_error option" where
  "conflicts tx hash stakeKey s =
     (if mp_entries s hash \<noteq> None then Some MpDuplicate
      else if mp_bannedHashes s hash \<noteq> None then Some MpBanned
      else if (case stakeKey of None \<Rightarrow> False | Some k \<Rightarrow> mp_stakeSenders s k \<noteq> None) then Some MpStakePending
      else if IsAVM tx \<and> mp_avmSigners s (avm_signer tx) \<noteq> None then Some MpSignerPending
      else if list_ex (\<lambda>inp. mp_keyImages s (in_KeyImage inp) \<noteq> None) (tx_Inputs tx) then Some MpDoubleSpend
      else None)"

definition insert_entry :: "pool_env \<Rightarrow> Transaction \<Rightarrow> hash32 \<Rightarrow> string option \<Rightarrow> mempool \<Rightarrow> mempool" where
  "insert_entry pe tx hash stakeKey s =
     (let e = \<lparr>me_Tx = tx, me_Hash = hash, me_Size = int (tx_Size tx), me_Received = pe_Now pe, me_privileged = False\<rparr>
      in s\<lparr>mp_entries := (mp_entries s)(hash \<mapsto> e), mp_totalBytes := mp_totalBytes s + int (tx_Size tx),
           mp_keyImages := (\<lambda>k. if k \<in> tx_images tx then Some hash else mp_keyImages s k),
           mp_stakeSenders := (case stakeKey of None \<Rightarrow> mp_stakeSenders s | Some k \<Rightarrow> (mp_stakeSenders s)(k \<mapsto> hash)),
           mp_avmSigners := (if avm_signer tx \<noteq> 0 then (mp_avmSigners s)(avm_signer tx \<mapsto> hash) else mp_avmSigners s)\<rparr>)"

text \<open>The pool after the call, and its error.  \<open>None\<close> would be a loop that does not end.\<close>

definition mp_Add :: "lib \<Rightarrow> jsonlib \<Rightarrow> (entry_map \<Rightarrow> hash32 list) \<Rightarrow> pool_env \<Rightarrow> Transaction \<Rightarrow> mempool
    \<Rightarrow> (mempool \<times> mempool_error option) option" where
  "mp_Add K J ord pe tx s =
     (case admissible K J pe (mp_cfg s) tx of Inl e \<Rightarrow> Some (s, Some e) | Inr _ \<Rightarrow>
      case stake_preflight pe tx s of Inl e \<Rightarrow> Some (s, Some e) | Inr (stakeKey, s) \<Rightarrow>
      case conflicts tx (tx_Hash K tx) stakeKey s of Some e \<Rightarrow> Some (s, Some e) | None \<Rightarrow>
      case make_room ord (int (tx_Size tx)) s of None \<Rightarrow> None
      | Some (s, room) \<Rightarrow>
          if room then Some (insert_entry pe tx (tx_Hash K tx) stakeKey s, None) else Some (s, Some MpCapacity))"

definition AddPrivileged :: "lib \<Rightarrow> jsonlib \<Rightarrow> (entry_map \<Rightarrow> hash32 list) \<Rightarrow> pool_env \<Rightarrow> Transaction \<Rightarrow> mempool
    \<Rightarrow> (mempool \<times> mempool_error option) option" where
  "AddPrivileged K J ord pe tx s =
     (if IsGuardianFund tx \<or> IsLPoD tx \<or> IsLPoDPayout tx then Some (s, Some MpSynthesized)
      else case tx_Validate K J tx of Inl e \<Rightarrow> Some (s, Some (MpInvalid e)) | Inr _ \<Rightarrow>
      case validateAVMNonce pe tx of Inl e \<Rightarrow> Some (s, Some e) | Inr _ \<Rightarrow>
      case (case pe_Verifier pe of None \<Rightarrow> Inr () | Some verify \<Rightarrow> if IsCoinbase tx then Inr () else verify tx (nextBlockHeight pe)) of
        Inl e \<Rightarrow> Some (s, Some (MpCrypto e)) | Inr _ \<Rightarrow>
      let size = int (tx_Size tx); hash = tx_Hash K tx in
      if mc_MaxTxSize (mp_cfg s) < size then Some (s, Some MpTooLarge)
      else if mp_entries s hash \<noteq> None then Some (s, Some MpDuplicate)
      else if IsAVM tx \<and> mp_avmSigners s (avm_signer tx) \<noteq> None then Some (s, Some MpSignerPending)
      else case make_room ord size s of None \<Rightarrow> None
      | Some (s, room) \<Rightarrow>
          if \<not> room then Some (s, Some MpCapacity)
          else Some (s\<lparr>mp_entries := (mp_entries s)(hash \<mapsto> \<lparr>me_Tx = tx, me_Hash = hash, me_Size = size, me_Received = pe_Now pe, me_privileged = True\<rparr>),
                 mp_totalBytes := mp_totalBytes s + size,
                 mp_avmSigners := (if IsAVM tx then (mp_avmSigners s)(avm_signer tx \<mapsto> hash) else mp_avmSigners s)\<rparr>, None))"

definition IsPrivileged :: "mempool \<Rightarrow> hash32 \<Rightarrow> bool" where
  "IsPrivileged s hash = (case mp_entries s hash of None \<Rightarrow> False | Some e \<Rightarrow> me_privileged e)"

definition IsBanned :: "mempool \<Rightarrow> hash32 \<Rightarrow> bool" where
  "IsBanned s hash \<longleftrightarrow> mp_bannedHashes s hash \<noteq> None"

text \<open>\<open>sort.Slice\<close> by descending fee rate is some list \<open>ranked\<close> with \<open>sort_slice\<close>; the first \<open>n\<close> are selected; making a slice of
  negative length panics (\<open>None\<close>).\<close>

definition rate_above :: "mempoolEntry \<Rightarrow> mempoolEntry \<Rightarrow> bool" where
  "rate_above a b \<longleftrightarrow> fee_rate b < fee_rate a"

definition SelectTxs :: "mempoolEntry list \<Rightarrow> int \<Rightarrow> Transaction list option" where
  "SelectTxs ranked n = (if n < 0 then None else Some (map me_Tx (take (nat n) ranked)))"

subsection \<open>Persistence\<close>

text \<open>What \<open>Save\<close> writes and what \<open>Load\<close> does with the entries of the file.\<close>

definition dump_entries :: "int \<Rightarrow> (entry_map \<Rightarrow> hash32 list) \<Rightarrow> mempool \<Rightarrow> (Transaction \<times> int) list" where
  "dump_entries now ord s =
     map (\<lambda>e. (me_Tx e, me_Received e))
       (filter (\<lambda>e. \<not> me_privileged e \<and> \<not> (0 < mc_TTL (mp_cfg s) \<and> mc_TTL (mp_cfg s) \<le> now - me_Received e)) (entry_list ord s))"

definition restore_time :: "hash32 \<Rightarrow> int \<Rightarrow> mempool \<Rightarrow> mempool" where
  "restore_time h t s =
     (case mp_entries s h of None \<Rightarrow> s | Some e \<Rightarrow> s\<lparr>mp_entries := (mp_entries s)(h \<mapsto> e\<lparr>me_Received := t\<rparr>)\<rparr>)"

definition mp_load_entry :: "lib \<Rightarrow> jsonlib \<Rightarrow> (entry_map \<Rightarrow> hash32 list) \<Rightarrow> pool_env \<Rightarrow> Transaction \<times> int \<Rightarrow> mempool \<times> nat \<Rightarrow> (mempool \<times> nat) option" where
  "mp_load_entry K J ord pe dump st =
     (case dump of (tx, received) \<Rightarrow> case st of (s, restored) \<Rightarrow>
      if 0 < mc_TTL (mp_cfg s) \<and> mc_TTL (mp_cfg s) \<le> pe_Now pe - received then Some (s, restored)
      else case mp_Add K J ord pe tx s of None \<Rightarrow> None
      | Some (s, Some e) \<Rightarrow> Some (s, restored)
      | Some (s, None) \<Rightarrow> Some (restore_time (tx_Hash K tx) received s, restored + 1))"

fun load_entries :: "lib \<Rightarrow> jsonlib \<Rightarrow> (entry_map \<Rightarrow> hash32 list) \<Rightarrow> pool_env \<Rightarrow> (Transaction \<times> int) list \<Rightarrow> mempool \<times> nat \<Rightarrow> (mempool \<times> nat) option" where
  "load_entries K J ord pe [] st = Some st"
| "load_entries K J ord pe (d # ds) st = (case mp_load_entry K J ord pe d st of None \<Rightarrow> None | Some st \<Rightarrow> load_entries K J ord pe ds st)"

section \<open>Reservation tables\<close>

text \<open>A table that maps the keys an entry holds to the entry's hash, and nothing else.\<close>

definition reserved :: "(mempoolEntry \<Rightarrow> 'k set) \<Rightarrow> entry_map \<Rightarrow> ('k \<rightharpoonup> hash32) \<Rightarrow> bool" where
  "reserved holds m t \<longleftrightarrow> (\<forall>k h. t k = Some h \<longleftrightarrow> (\<exists>e. m h = Some e \<and> k \<in> holds e))"

lemma reserved_release: "reserved holds m t \<Longrightarrow> reserved holds (m(h := None)) (\<lambda>k. if t k = Some h then None else t k)"
  unfolding reserved_def by (auto split: if_splits) (metis option.inject)

lemma reserved_take:
  assumes "reserved holds m t" and "m h = None" and "\<And>k. k \<in> holds e \<Longrightarrow> t k = None"
  shows "reserved holds (m(h \<mapsto> e)) (\<lambda>k. if k \<in> holds e then Some h else t k)"
  using assms unfolding reserved_def by (auto split: if_splits) (metis option.distinct(1))+

lemma reserved_update:
  assumes "reserved holds m t" and "m h = Some e" and "holds e' = holds e"
  shows "reserved holds (m(h \<mapsto> e')) t"
  using assms unfolding reserved_def by auto

lemma reserved_unique:
  "reserved holds m t \<Longrightarrow> m h = Some e \<Longrightarrow> m h' = Some e' \<Longrightarrow> k \<in> holds e \<Longrightarrow> k \<in> holds e' \<Longrightarrow> h = h'"
  unfolding reserved_def by (metis option.inject)

definition image_keys :: "mempoolEntry \<Rightarrow> key_image set" where
  "image_keys e = tx_images (me_Tx e)"

definition stake_keys :: "mempoolEntry \<Rightarrow> string set" where
  "stake_keys e = (if me_privileged e \<or> \<not> IsStake (me_Tx e) then {}
     else case stakeExtraPubKey (tx_Extra (me_Tx e)) of None \<Rightarrow> {} | Some pub \<Rightarrow> {pub_Hex pub})"

definition signer_keys :: "mempoolEntry \<Rightarrow> arr32 set" where
  "signer_keys e = (if \<not> IsAVM (me_Tx e) then {}
     else case tx_AVM (me_Tx e) of None \<Rightarrow> {} | Some p \<Rightarrow> if me_privileged e \<or> avm_Signer p \<noteq> 0 then {avm_Signer p} else {})"

definition entry_ok :: "lib \<Rightarrow> hash32 \<Rightarrow> mempoolEntry \<Rightarrow> bool" where
  "entry_ok K h e \<longleftrightarrow> me_Hash e = h \<and> tx_Hash K (me_Tx e) = h \<and> me_Size e = int (tx_Size (me_Tx e))
     \<and> (me_privileged e \<longrightarrow> tx_Inputs (me_Tx e) = [])"

definition pool_bytes :: "entry_map \<Rightarrow> int" where
  "pool_bytes m = (\<Sum>h \<in> dom m. me_Size (the (m h)))"

definition pool_inv :: "lib \<Rightarrow> mempool \<Rightarrow> bool" where
  "pool_inv K s \<longleftrightarrow> finite (dom (mp_entries s)) \<and> (\<forall>h e. mp_entries s h = Some e \<longrightarrow> entry_ok K h e)
     \<and> mp_totalBytes s = pool_bytes (mp_entries s)
     \<and> reserved image_keys (mp_entries s) (mp_keyImages s)
     \<and> reserved stake_keys (mp_entries s) (mp_stakeSenders s)
     \<and> reserved signer_keys (mp_entries s) (mp_avmSigners s)"

definition within_caps :: "mempool \<Rightarrow> bool" where
  "within_caps s \<longleftrightarrow> int (mp_Count s) \<le> max 0 (mc_MaxSize (mp_cfg s))
     \<and> (0 < mc_MaxBytes (mp_cfg s) \<longrightarrow> mp_totalBytes s \<le> mc_MaxBytes (mp_cfg s))"

lemma pool_bytes_remove: "finite (dom m) \<Longrightarrow> m h = Some e \<Longrightarrow> pool_bytes (m(h := None)) = pool_bytes m - me_Size e"
proof -
  assume "finite (dom m)" "m h = Some e"
  then have "pool_bytes m = me_Size e + (\<Sum>k \<in> dom m - {h}. me_Size (the (m k)))"
    unfolding pool_bytes_def by (subst sum.remove [of _ h]) auto
  moreover have "pool_bytes (m(h := None)) = (\<Sum>k \<in> dom m - {h}. me_Size (the (m k)))"
    unfolding pool_bytes_def by (intro sum.cong) auto
  ultimately show ?thesis by simp
qed

lemma pool_bytes_insert: "finite (dom m) \<Longrightarrow> m h = None \<Longrightarrow> pool_bytes (m(h \<mapsto> e)) = pool_bytes m + me_Size e"
proof -
  assume "finite (dom m)" "m h = None"
  then have "pool_bytes (m(h \<mapsto> e)) = me_Size e + (\<Sum>k \<in> dom m. me_Size (the ((m(h \<mapsto> e)) k)))"
    unfolding pool_bytes_def by (subst dom_fun_upd) (simp add: domIff)
  also have "(\<Sum>k \<in> dom m. me_Size (the ((m(h \<mapsto> e)) k))) = pool_bytes m"
    unfolding pool_bytes_def by (intro sum.cong) (use \<open>m h = None\<close> in auto)
  finally show ?thesis by (simp only: add.commute)
qed

lemma pool_bytes_nonneg: "(\<forall>h e. m h = Some e \<longrightarrow> entry_ok K h e) \<Longrightarrow> 0 \<le> pool_bytes m"
  unfolding pool_bytes_def by (intro sum_nonneg) (auto simp: entry_ok_def)

lemma release_tables:
  "mp_stakeSenders (removeAVMSignerLocked e t) = mp_stakeSenders t" "mp_avmSigners (removeStakeSenderLocked e t) = mp_avmSigners t"
  "mp_stakeSenders (removeStakeSenderLocked e t) k = (if IsStake (me_Tx e) \<and> map_option pub_Hex (stakeExtraPubKey (tx_Extra (me_Tx e))) = Some k
     \<and> mp_stakeSenders t k = Some (me_Hash e) then None else mp_stakeSenders t k)"
  "mp_avmSigners (removeAVMSignerLocked e t) g = (if IsAVM (me_Tx e) \<and> map_option avm_Signer (tx_AVM (me_Tx e)) = Some g
     \<and> mp_avmSigners t g = Some (me_Hash e) then None else mp_avmSigners t g)"
  by (auto simp: removeAVMSignerLocked_def removeStakeSenderLocked_def split: option.splits)

text \<open>Dropping an entry releases exactly what it holds.\<close>

lemma drop_entry_fields:
  assumes inv: "pool_inv K s" and e: "mp_entries s h = Some e"
  shows "mp_entries (drop_entry h e s) = (mp_entries s)(h := None)" "mp_cfg (drop_entry h e s) = mp_cfg s"
    "mp_bannedHashes (drop_entry h e s) = mp_bannedHashes s" "mp_totalBytes (drop_entry h e s) = mp_totalBytes s - me_Size e"
    "mp_keyImages (drop_entry h e s) = (\<lambda>k. if mp_keyImages s k = Some h then None else mp_keyImages s k)"
    "mp_stakeSenders (drop_entry h e s) = (\<lambda>k. if mp_stakeSenders s k = Some h then None else mp_stakeSenders s k)"
    "mp_avmSigners (drop_entry h e s) = (\<lambda>k. if mp_avmSigners s k = Some h then None else mp_avmSigners s k)"
proof -
  have fin: "finite (dom (mp_entries s))" and ok: "entry_ok K h e" and all: "\<forall>h e. mp_entries s h = Some e \<longrightarrow> entry_ok K h e"
    and tot: "mp_totalBytes s = pool_bytes (mp_entries s)"
    and img: "reserved image_keys (mp_entries s) (mp_keyImages s)" and stk: "reserved stake_keys (mp_entries s) (mp_stakeSenders s)"
    and sgn: "reserved signer_keys (mp_entries s) (mp_avmSigners s)"
    using inv e by (auto simp: pool_inv_def)
  have hash: "me_Hash e = h" using ok by (simp add: entry_ok_def)
  have other: "mp_entries (removeAVMSignerLocked e (removeStakeSenderLocked e t)) = mp_entries t"
    "mp_cfg (removeAVMSignerLocked e (removeStakeSenderLocked e t)) = mp_cfg t"
    "mp_bannedHashes (removeAVMSignerLocked e (removeStakeSenderLocked e t)) = mp_bannedHashes t"
    "mp_totalBytes (removeAVMSignerLocked e (removeStakeSenderLocked e t)) = mp_totalBytes t"
    "mp_keyImages (removeAVMSignerLocked e (removeStakeSenderLocked e t)) = mp_keyImages t" for t
    by (simp_all add: removeAVMSignerLocked_def removeStakeSenderLocked_def split: option.splits)
  have "0 \<le> pool_bytes ((mp_entries s)(h := None))" by (rule pool_bytes_nonneg [of _ K]) (use all in auto)
  then have "0 \<le> mp_totalBytes s - me_Size e" using pool_bytes_remove [OF fin e] tot by simp
  then show "mp_entries (drop_entry h e s) = (mp_entries s)(h := None)" "mp_cfg (drop_entry h e s) = mp_cfg s"
    "mp_bannedHashes (drop_entry h e s) = mp_bannedHashes s" "mp_totalBytes (drop_entry h e s) = mp_totalBytes s - me_Size e"
    by (simp_all add: drop_entry_def Let_def other)
  have "k \<in> tx_images (me_Tx e) \<longleftrightarrow> mp_keyImages s k = Some h" for k
    using img e by (auto simp: reserved_def image_keys_def)
  then show "mp_keyImages (drop_entry h e s) = (\<lambda>k. if mp_keyImages s k = Some h then None else mp_keyImages s k)"
    by (auto simp: drop_entry_def Let_def other restrict_map_def)
  have "IsStake (me_Tx e) \<and> map_option pub_Hex (stakeExtraPubKey (tx_Extra (me_Tx e))) = Some k" if "mp_stakeSenders s k = Some h" for k
  proof -
    have "k \<in> stake_keys e" using stk e that by (auto simp: reserved_def)
    then show ?thesis by (auto simp: stake_keys_def split: if_splits option.splits)
  qed
  then show "mp_stakeSenders (drop_entry h e s) = (\<lambda>k. if mp_stakeSenders s k = Some h then None else mp_stakeSenders s k)"
    unfolding drop_entry_def Let_def by (auto simp: fun_eq_iff release_tables hash)
  have "IsAVM (me_Tx e) \<and> map_option avm_Signer (tx_AVM (me_Tx e)) = Some k" if "mp_avmSigners s k = Some h" for k
  proof -
    have "k \<in> signer_keys e" using sgn e that by (auto simp: reserved_def)
    then show ?thesis by (auto simp: signer_keys_def split: if_splits option.splits)
  qed
  then show "mp_avmSigners (drop_entry h e s) = (\<lambda>k. if mp_avmSigners s k = Some h then None else mp_avmSigners s k)"
    unfolding drop_entry_def Let_def by (auto simp: fun_eq_iff release_tables hash)
qed

lemma drop_entry_inv:
  assumes "pool_inv K s" and "mp_entries s h = Some e"
  shows "pool_inv K (drop_entry h e s)"
  using assms unfolding pool_inv_def drop_entry_fields [OF assms]
  by (auto simp: pool_bytes_remove intro: reserved_release)

lemma drop_entry_caps: "pool_inv K s \<Longrightarrow> mp_entries s h = Some e \<Longrightarrow> within_caps s \<Longrightarrow> within_caps (drop_entry h e s)"
  and drop_entry_count: "pool_inv K s \<Longrightarrow> mp_entries s h = Some e \<Longrightarrow> Suc (mp_Count (drop_entry h e s)) = mp_Count s"
proof -
  assume a: "pool_inv K s" "mp_entries s h = Some e"
  then have fin: "finite (dom (mp_entries s))" "h \<in> dom (mp_entries s)" and sz: "0 \<le> me_Size e" by (auto simp: pool_inv_def entry_ok_def)
  have "mp_Count (drop_entry h e s) = card (dom (mp_entries s) - {h})" by (simp add: mp_Count_def drop_entry_fields [OF a])
  then show count: "Suc (mp_Count (drop_entry h e s)) = mp_Count s" using card.remove [OF fin] by (simp add: mp_Count_def)
  show "within_caps s \<Longrightarrow> within_caps (drop_entry h e s)"
    using count sz by (auto simp: within_caps_def drop_entry_fields [OF a])
qed

lemma count_eviction_fields [simp]:
  "mp_entries (count_eviction s) = mp_entries s" "mp_cfg (count_eviction s) = mp_cfg s" "mp_bannedHashes (count_eviction s) = mp_bannedHashes s"
  "mp_totalBytes (count_eviction s) = mp_totalBytes s" "pool_inv K (count_eviction s) = pool_inv K s"
  "within_caps (count_eviction s) = within_caps s" "mp_Count (count_eviction s) = mp_Count s"
  by (simp_all add: count_eviction_def pool_inv_def within_caps_def mp_Count_def)

section \<open>Eviction\<close>

definition ord_ok :: "(entry_map \<Rightarrow> hash32 list) \<Rightarrow> bool" where
  "ord_ok ord \<longleftrightarrow> (\<forall>m. finite (dom m) \<longrightarrow> map_order m (ord m))"

lemma entry_list_set: "pool_inv K s \<Longrightarrow> ord_ok ord \<Longrightarrow> set (entry_list ord s) = ran (mp_entries s)"
  by (force simp: entry_list_def ord_ok_def pool_inv_def map_order_def ran_def image_iff)

text \<open>A scan that keeps the first entry with a strictly smaller key, skipping some.\<close>

locale minimum_scan =
  fixes step :: "'a option \<Rightarrow> 'a \<Rightarrow> 'a option" and skip :: "'a \<Rightarrow> bool" and key :: "'a \<Rightarrow> 'k::linorder"
  assumes step: "step acc e = (if skip e then acc else case acc of None \<Rightarrow> Some e | Some c \<Rightarrow> if key e < key c then Some e else Some c)"
begin

lemma scan_none: "foldl step acc xs = None \<longleftrightarrow> acc = None \<and> (\<forall>x \<in> set xs. skip x)"
  by (induction xs arbitrary: acc) (auto simp: step split: option.splits)

lemma scan_member: "foldl step acc xs = Some e \<Longrightarrow> e \<in> set xs \<and> \<not> skip e \<or> acc = Some e"
proof (induction xs arbitrary: acc)
  case (Cons x xs)
  then have "e \<in> set xs \<and> \<not> skip e \<or> step acc x = Some e" by simp
  then show ?case by (auto simp: step split: option.splits if_splits)
qed simp

lemma scan_acc: "foldl step (Some c) xs = Some e \<Longrightarrow> key e \<le> key c"
proof (induction xs arbitrary: c)
  case (Cons x xs)
  have "\<exists>d. step (Some c) x = Some d \<and> key d \<le> key c" by (auto simp: step)
  then obtain d where "step (Some c) x = Some d" "key d \<le> key c" by blast
  then show ?case using Cons.IH [of d] Cons.prems by simp
qed simp

lemma scan_least: "foldl step acc xs = Some e \<Longrightarrow> x \<in> set xs \<Longrightarrow> \<not> skip x \<Longrightarrow> key e \<le> key x"
proof (induction xs arbitrary: acc)
  case (Cons y xs)
  show ?case
  proof (cases "x \<in> set xs")
    case True
    then show ?thesis using Cons by simp
  next
    case False
    then have xy: "x = y" using Cons.prems by simp
    have "\<exists>c. step acc y = Some c \<and> key c \<le> key y" using Cons.prems(3) xy by (cases acc) (auto simp: step)
    then obtain c where "step acc y = Some c" "key c \<le> key y" by blast
    then show ?thesis using scan_acc [of c xs e] Cons.prems(1) xy by simp
  qed
qed simp

end

interpretation oldest: minimum_scan older "\<lambda>_. False" me_Received
  by unfold_locales (simp add: older_def split: option.splits)

interpretation cheapest: minimum_scan cheaper "\<lambda>e. system_tx (me_Tx e)" fee_rate
  by unfold_locales (simp add: cheaper_def)

text \<open>One eviction takes the regular entry with the lowest fee rate, or the oldest one when there is no regular entry, or nothing when there is none.\<close>

lemma evictLowestFeeRate_spec:
  assumes inv: "pool_inv K s" and ord: "ord_ok ord"
  shows "(mp_entries s = Map.empty \<and> evictLowestFeeRate ord s = (s, False))
    \<or> (\<exists>h e. mp_entries s h = Some e \<and> evictLowestFeeRate ord s = (count_eviction (drop_entry h e s), True)
        \<and> (\<not> system_tx (me_Tx e) \<and> (\<forall>x \<in> ran (mp_entries s). \<not> system_tx (me_Tx x) \<longrightarrow> fee_rate e \<le> fee_rate x)
           \<or> (\<forall>x \<in> ran (mp_entries s). system_tx (me_Tx x) \<and> me_Received e \<le> me_Received x)))"
proof -
  note set = entry_list_set [OF inv ord]
  have hash: "\<exists>h. mp_entries s h = Some e \<and> me_Hash e = h" if "e \<in> ran (mp_entries s)" for e
    using inv that by (auto simp: pool_inv_def entry_ok_def ran_def)
  show ?thesis
  proof (cases "foldl cheaper None (entry_list ord s)")
    case (Some e)
    then show ?thesis
      using cheapest.scan_member [OF Some] cheapest.scan_least [OF Some] hash [of e] set by (auto simp: evictLowestFeeRate_def)
  next
    case None
    then have sys: "\<forall>x \<in> ran (mp_entries s). system_tx (me_Tx x)" using cheapest.scan_none set by simp
    show ?thesis
    proof (cases "foldl older None (entry_list ord s)")
      case (Some e)
      then show ?thesis
        using oldest.scan_member [OF Some] oldest.scan_least [OF Some] hash [of e] set sys None by (auto simp: evictLowestFeeRate_def evictOldest_def)
    next
      case none: None
      then have "ran (mp_entries s) = {}" using oldest.scan_none set by simp
      then have "mp_entries s h = None" for h by (cases "mp_entries s h") (auto simp: ran_def)
      then have "mp_entries s = Map.empty" by (rule ext)
      then show ?thesis using None none by (simp add: evictLowestFeeRate_def evictOldest_def)
    qed
  qed
qed

text \<open>The loop that makes room ends, keeps the invariant and only removes entries; without room it has emptied the pool.\<close>

lemma make_room_returns:
  assumes "pool_inv K s" and "ord_ok ord"
  shows "\<exists>t room. make_room ord sz s = Some (t, room) \<and> pool_inv K t \<and> mp_entries t \<subseteq>\<^sub>m mp_entries s \<and> mp_cfg t = mp_cfg s
    \<and> mp_bannedHashes t = mp_bannedHashes s \<and> (within_caps s \<longrightarrow> within_caps t)
    \<and> (if room then \<not> at_capacity sz t else mp_entries t = Map.empty \<and> at_capacity sz t) \<and> (\<not> at_capacity sz s \<longrightarrow> t = s)"
  using assms(1)
proof (induction "mp_Count s" arbitrary: s rule: less_induct)
  case less
  show ?case
  proof (cases "at_capacity sz s")
    case False
    then show ?thesis using less.prems by (subst make_room.simps) auto
  next
    case True
    consider (none) "mp_entries s = Map.empty" "evictLowestFeeRate ord s = (s, False)"
      | (some) h e where "mp_entries s h = Some e" "evictLowestFeeRate ord s = (count_eviction (drop_entry h e s), True)"
      using evictLowestFeeRate_spec [OF less.prems assms(2)] by blast
    then show ?thesis
    proof cases
      case none
      then show ?thesis using True less.prems by (subst make_room.simps) auto
    next
      case e: (some h e)
      let ?t = "count_eviction (drop_entry h e s)"
      note f = drop_entry_fields [OF less.prems e(1)]
      have "mp_Count ?t < mp_Count s" "pool_inv K ?t" "within_caps s \<longrightarrow> within_caps ?t"
        using drop_entry_count [OF less.prems e(1)] drop_entry_inv [OF less.prems e(1)] drop_entry_caps [OF less.prems e(1)] by simp_all
      moreover have "mp_entries ?t \<subseteq>\<^sub>m mp_entries s" by (simp add: f map_le_def)
      moreover have "make_room ord sz s = make_room ord sz ?t" using True e by (subst make_room.simps) simp
      ultimately show ?thesis using less.hyps [of ?t] True map_le_trans f(2,3) by (fastforce simp del: count_eviction_fields(6))
    qed
  qed
qed

text \<open>What the loop removes and what it keeps: a kept regular entry pays at least the rate of every removed one, and no system
  transaction is removed while a regular one is kept.\<close>

definition evicts_fairly :: "entry_map \<Rightarrow> entry_map \<Rightarrow> bool" where
  "evicts_fairly before after \<longleftrightarrow>
     (\<forall>h e k x. before h = Some e \<and> after h = None \<and> after k = Some x \<and> \<not> system_tx (me_Tx x) \<longrightarrow> \<not> system_tx (me_Tx e) \<and> fee_rate e \<le> fee_rate x)"

lemma evicts_fairly_refl: "evicts_fairly m m"
  by (auto simp: evicts_fairly_def)

lemma make_room_fair:
  assumes "pool_inv K s" and ord: "ord_ok ord" and "make_room ord sz s = Some (t, room)"
  shows "evicts_fairly (mp_entries s) (mp_entries t)"
  using assms(1,3)
proof (induction "mp_Count s" arbitrary: s rule: less_induct)
  case less
  show ?case
  proof (cases "at_capacity sz s")
    case False
    then have "t = s" using less.prems(2) by (subst (asm) make_room.simps) auto
    then show ?thesis by (simp add: evicts_fairly_refl)
  next
    case True
    consider (none) "evictLowestFeeRate ord s = (s, False)"
      | (some) h e where "mp_entries s h = Some e" "evictLowestFeeRate ord s = (count_eviction (drop_entry h e s), True)"
          "(\<not> system_tx (me_Tx e) \<and> (\<forall>x \<in> ran (mp_entries s). \<not> system_tx (me_Tx x) \<longrightarrow> fee_rate e \<le> fee_rate x))
            \<or> (\<forall>x \<in> ran (mp_entries s). system_tx (me_Tx x))"
      using evictLowestFeeRate_spec [OF less.prems(1) ord] by blast
    then show ?thesis
    proof cases
      case none
      then have "t = s" using True less.prems(2) by (subst (asm) make_room.simps) auto
      then show ?thesis by (simp add: evicts_fairly_refl)
    next
      case (some h e)
      note h = some(1) and ev = some(2) and e = some(3)
      let ?s = "count_eviction (drop_entry h e s)"
      have inv: "pool_inv K ?s" and cnt: "mp_Count ?s < mp_Count s" and ent: "mp_entries ?s = (mp_entries s)(h := None)"
        using drop_entry_inv [OF less.prems(1) h] drop_entry_count [OF less.prems(1) h] drop_entry_fields [OF less.prems(1) h] by simp_all
      have run: "make_room ord sz ?s = Some (t, room)" using True ev less.prems(2) by (subst (asm) make_room.simps) simp
      have fair: "evicts_fairly (mp_entries ?s) (mp_entries t)" by (rule less.hyps [OF cnt inv run])
      have "mp_entries t \<subseteq>\<^sub>m mp_entries ?s" using make_room_returns [OF inv ord, of sz] run by auto
      then have kept: "mp_entries t k = Some x \<Longrightarrow> mp_entries s k = Some x \<and> x \<in> ran (mp_entries s)" for k x
        unfolding ent map_le_def by (metis domI fun_upd_apply option.distinct(1) ranI)
      show ?thesis
        unfolding evicts_fairly_def
      proof (intro allI impI, elim conjE)
        fix g d k x
        assume g: "mp_entries s g = Some d" "mp_entries t g = None" and k: "mp_entries t k = Some x" "\<not> system_tx (me_Tx x)"
        show "\<not> system_tx (me_Tx d) \<and> fee_rate d \<le> fee_rate x"
        proof (cases "g = h")
          case True
          then show ?thesis using e g(1) h kept [OF k(1)] k(2) by auto
        next
          case False
          then show ?thesis using fair [unfolded ent] g k unfolding evicts_fairly_def by (metis fun_upd_other)
        qed
      qed
    qed
  qed
qed

text \<open>A table of entries that leaves no room for \<open>sz\<close> more bytes, and the removal of entries one after the other, each from a table without room.\<close>

definition no_room :: "MempoolConfig \<Rightarrow> int \<Rightarrow> entry_map \<Rightarrow> bool" where
  "no_room cfg sz m \<longleftrightarrow> mc_MaxSize cfg \<le> int (card (dom m)) \<or> (0 < mc_MaxBytes cfg \<and> mc_MaxBytes cfg < (\<Sum>h \<in> dom m. me_Size (the (m h))) + sz)"

definition evicts_needed :: "MempoolConfig \<Rightarrow> int \<Rightarrow> entry_map \<Rightarrow> entry_map \<Rightarrow> bool" where
  "evicts_needed cfg sz before after \<longleftrightarrow> (\<exists>hs. distinct hs \<and> set hs \<subseteq> dom before \<and> after = before |` (- set hs) \<and>
     (\<forall>i < length hs. no_room cfg sz (before |` (- set (take i hs)))))"

lemma evicts_needed_refl: "evicts_needed cfg sz m m"
  by (auto simp: evicts_needed_def restrict_map_def intro: exI [of _ "[]"])

lemma evicts_needed_step:
  assumes "no_room cfg sz m" and "h \<in> dom m" and "evicts_needed cfg sz (m(h := None)) t"
  shows "evicts_needed cfg sz m t"
proof -
  obtain hs where hs: "distinct hs" "set hs \<subseteq> dom (m(h := None))" "t = (m(h := None)) |` (- set hs)"
    "\<forall>i < length hs. no_room cfg sz ((m(h := None)) |` (- set (take i hs)))" using assms(3) unfolding evicts_needed_def by blast
  have step: "(m(h := None)) |` (- A) = m |` (- insert h A)" for A by (auto simp: restrict_map_def fun_eq_iff)
  have "no_room cfg sz (m |` (- set (take i (h # hs))))" if "i < length (h # hs)" for i
  proof (cases i)
    case 0
    have "m |` UNIV = m" by (simp add: restrict_map_def)
    then show ?thesis using assms(1) 0 by simp
  qed (use hs(4) that step in simp)
  then show ?thesis
    unfolding evicts_needed_def using hs(1-3) assms(2) step by (intro exI [of _ "h # hs"]) auto
qed

lemma at_capacity_no_room: "pool_inv K s \<Longrightarrow> at_capacity sz s = no_room (mp_cfg s) sz (mp_entries s)"
  by (simp add: at_capacity_def no_room_def pool_inv_def pool_bytes_def mp_Count_def)

lemma make_room_needed:
  assumes "pool_inv K s" and ord: "ord_ok ord" and "make_room ord sz s = Some (t, room)"
  shows "evicts_needed (mp_cfg s) sz (mp_entries s) (mp_entries t)"
  using assms(1,3)
proof (induction "mp_Count s" arbitrary: s rule: less_induct)
  case less
  show ?case
  proof (cases "at_capacity sz s")
    case False
    then have "t = s" using less.prems(2) by (subst (asm) make_room.simps) auto
    then show ?thesis by (simp add: evicts_needed_refl)
  next
    case True
    consider (none) "evictLowestFeeRate ord s = (s, False)"
      | (some) h e where "mp_entries s h = Some e" "evictLowestFeeRate ord s = (count_eviction (drop_entry h e s), True)"
      using evictLowestFeeRate_spec [OF less.prems(1) ord] by blast
    then show ?thesis
    proof cases
      case none
      then have "t = s" using True less.prems(2) by (subst (asm) make_room.simps) auto
      then show ?thesis by (simp add: evicts_needed_refl)
    next
      case (some h e)
      let ?s = "count_eviction (drop_entry h e s)"
      have inv: "pool_inv K ?s" and cnt: "mp_Count ?s < mp_Count s" and ent: "mp_entries ?s = (mp_entries s)(h := None)" "mp_cfg ?s = mp_cfg s"
        using drop_entry_inv [OF less.prems(1) some(1)] drop_entry_count [OF less.prems(1) some(1)] drop_entry_fields [OF less.prems(1) some(1)]
        by simp_all
      have run: "make_room ord sz ?s = Some (t, room)" using True some(2) less.prems(2) by (subst (asm) make_room.simps) simp
      have rest: "evicts_needed (mp_cfg s) sz ((mp_entries s)(h := None)) (mp_entries t)" using less.hyps [OF cnt inv run] by (simp only: ent)
      have "no_room (mp_cfg s) sz (mp_entries s)" using True at_capacity_no_room [OF less.prems(1)] by simp
      then show ?thesis by (rule evicts_needed_step) (use some(1) rest in auto)
    qed
  qed
qed

section \<open>Admission\<close>

lemma valid_avm_payload: "tx_Validate K J tx = Inr u \<Longrightarrow> IsAVM tx \<longrightarrow> tx_AVM tx \<noteq> None"
  by (cases "tx_AVM tx") (auto simp: tx_Validate_def tx_kinds tx_versions validate_avm_part_def avm_Validate_def split: sum.splits if_splits)

lemma admissible_accepts:
  assumes "admissible K J pe cfg tx = Inr u"
  shows "tx_Validate K J tx = Inr ()" "\<not> (IsCoinbase tx \<and> \<not> IsStake tx)" "\<not> (IsGuardianFund tx \<or> IsLPoD tx \<or> IsLPoDPayout tx)"
    "pe_Verifier pe = Some verify \<Longrightarrow> verify tx (nextBlockHeight pe) = Inr ()" "int (tx_Size tx) \<le> mc_MaxTxSize cfg"
    "check_fee (mc_BaseFeePerByte cfg) tx = Inr ()" "validateAVMNonce pe tx = Inr ()"
    "pe_CurrentHeight pe \<noteq> None \<Longrightarrow> ValidateTxVersionAtHeight K J tx (nextBlockHeight pe) (mc_V4Height cfg) (mc_CLSAGHeight cfg) (mc_AVMHeight cfg) = Inr ()"
  using assms unfolding admissible_def by (auto split: if_splits sum.splits option.splits)

lemma stake_preflight_accepts:
  assumes "stake_preflight pe tx s = Inr (key, t)"
  shows "key = (if IsStake tx then map_option pub_Hex (stakeExtraPubKey (tx_Extra tx)) else None)" "IsStake tx \<Longrightarrow> key \<noteq> None"
    and "t = s \<or> (\<exists>h e. mp_entries s h = Some e \<and> IsStake tx \<and> t = drop_entry h e s)"
  using assms unfolding stake_preflight_def mp_Remove_def Let_def
  by (auto split: if_splits option.splits)

lemma preflight_inv:
  assumes "stake_preflight pe tx s = Inr (key, t)" and "pool_inv K s"
  shows "pool_inv K t" "within_caps s \<Longrightarrow> within_caps t" "mp_cfg t = mp_cfg s" "mp_bannedHashes t = mp_bannedHashes s" "mp_entries t \<subseteq>\<^sub>m mp_entries s"
  using stake_preflight_accepts(3) [OF assms(1)] assms(2) drop_entry_inv drop_entry_caps drop_entry_fields
  by (fastforce simp: map_le_def)+

definition reserve_entry :: "hash32 \<Rightarrow> mempoolEntry \<Rightarrow> mempool \<Rightarrow> mempool" where
  "reserve_entry h e s = s\<lparr>mp_entries := (mp_entries s)(h \<mapsto> e), mp_totalBytes := mp_totalBytes s + me_Size e,
     mp_keyImages := (\<lambda>k. if k \<in> image_keys e then Some h else mp_keyImages s k),
     mp_stakeSenders := (\<lambda>k. if k \<in> stake_keys e then Some h else mp_stakeSenders s k),
     mp_avmSigners := (\<lambda>k. if k \<in> signer_keys e then Some h else mp_avmSigners s k)\<rparr>"

lemma reserve_entry_inv:
  assumes "pool_inv K s" and "mp_entries s h = None" and "entry_ok K h e" and "\<And>k. k \<in> image_keys e \<Longrightarrow> mp_keyImages s k = None"
    and "\<And>k. k \<in> stake_keys e \<Longrightarrow> mp_stakeSenders s k = None" and "\<And>k. k \<in> signer_keys e \<Longrightarrow> mp_avmSigners s k = None"
  shows "pool_inv K (reserve_entry h e s)"
  using assms(1-3) unfolding pool_inv_def reserve_entry_def
  by (auto simp: pool_bytes_insert intro!: reserved_take assms(4-6))

lemma reserve_entry_caps:
  assumes "pool_inv K s" and "\<not> at_capacity (me_Size e) s" and "mp_entries s h = None"
  shows "within_caps (reserve_entry h e s)"
proof -
  have "finite (dom (mp_entries s))" "h \<notin> dom (mp_entries s)" using assms by (auto simp: pool_inv_def)
  then have "card (insert h (dom (mp_entries s))) = Suc (mp_Count s)" by (simp add: mp_Count_def)
  then show ?thesis using assms(2) by (auto simp: within_caps_def at_capacity_def reserve_entry_def mp_Count_def)
qed

lemma check_fee_minimum: "check_fee baseFee tx = Inr u \<Longrightarrow> \<not> IsLPoDPosition tx \<Longrightarrow> IsStake tx \<or> MinFeeAt tx baseFee \<le> tx_Fee tx"
proof (rule ccontr)
  assume a: "check_fee baseFee tx = Inr u" "\<not> IsLPoDPosition tx" "\<not> (IsStake tx \<or> MinFeeAt tx baseFee \<le> tx_Fee tx)"
  then have low: "tx_Fee tx < MinFeeAt tx baseFee" by (simp add: not_le)
  show False
  proof (cases "IsAVM tx")
    case False
    then show False using a low by (auto simp: check_fee_def split: prod.splits if_splits)
  next
    case True
    then obtain g where g: "\<not> max_u64 - g < MinFeeAt tx baseFee" "\<not> tx_Fee tx < MinFeeAt tx baseFee + g"
      using a by (auto simp: check_fee_def split: prod.splits if_splits option.splits)
    then have "unat (MinFeeAt tx baseFee + g) = unat (MinFeeAt tx baseFee) + unat g" by (intro unat_add_u64) (simp add: u64_overflow_iff)
    then show False using g(2) low by (simp add: u64_as_nat)
  qed
qed

text \<open>A transaction without conflicts can be inserted.\<close>

definition pool_entry :: "lib \<Rightarrow> pool_env \<Rightarrow> bool \<Rightarrow> Transaction \<Rightarrow> mempoolEntry" where
  "pool_entry K pe privileged tx = \<lparr>me_Tx = tx, me_Hash = tx_Hash K tx, me_Size = int (tx_Size tx), me_Received = pe_Now pe, me_privileged = privileged\<rparr>"

definition stake_key :: "Transaction \<Rightarrow> string option" where
  "stake_key tx = (if IsStake tx then map_option pub_Hex (stakeExtraPubKey (tx_Extra tx)) else None)"

lemma insert_entry_reserves:
  assumes "IsAVM tx \<longrightarrow> tx_AVM tx \<noteq> None"
  shows "insert_entry pe tx (tx_Hash K tx) (stake_key tx) s = reserve_entry (tx_Hash K tx) (pool_entry K pe False tx) s"
  using assms unfolding insert_entry_def reserve_entry_def Let_def stake_key_def pool_entry_def
  by (auto simp: image_keys_def stake_keys_def signer_keys_def avm_signer_def fun_eq_iff split: option.splits)

lemma insert_entry_inv:
  assumes inv: "pool_inv K s" and new: "conflicts tx (tx_Hash K tx) (stake_key tx) s = None" and avm: "IsAVM tx \<longrightarrow> tx_AVM tx \<noteq> None"
  shows "pool_inv K (insert_entry pe tx (tx_Hash K tx) (stake_key tx) s)"
  unfolding insert_entry_reserves [OF avm]
  using new by (intro reserve_entry_inv inv)
    (auto simp: conflicts_def list_ex_iff tx_images_def pool_entry_def entry_ok_def image_keys_def stake_keys_def signer_keys_def avm_signer_def stake_key_def
      split: if_splits option.splits)

lemma reserved_mono:
  assumes "reserved holds m t" and "reserved holds m' t'" and "m' \<subseteq>\<^sub>m m" and "t k = None"
  shows "t' k = None"
proof (rule ccontr)
  assume "t' k \<noteq> None"
  then obtain h e where "m' h = Some e" "k \<in> holds e" using assms(2) by (auto simp: reserved_def)
  moreover from this have "m h = Some e" using assms(3) by (metis domI map_le_def)
  ultimately have "t k = Some h" using assms(1) by (auto simp: reserved_def)
  then show False using assms(4) by simp
qed

lemma tables_mono:
  assumes "pool_inv K s" and "pool_inv K t" and "mp_entries t \<subseteq>\<^sub>m mp_entries s"
  shows "mp_keyImages s k = None \<Longrightarrow> mp_keyImages t k = None" "mp_stakeSenders s v = None \<Longrightarrow> mp_stakeSenders t v = None"
    "mp_avmSigners s g = None \<Longrightarrow> mp_avmSigners t g = None" "mp_entries s h = None \<Longrightarrow> mp_entries t h = None"
  using assms reserved_mono [of image_keys "mp_entries s" "mp_keyImages s" "mp_entries t" "mp_keyImages t" k]
    reserved_mono [of stake_keys "mp_entries s" "mp_stakeSenders s" "mp_entries t" "mp_stakeSenders t" v]
    reserved_mono [of signer_keys "mp_entries s" "mp_avmSigners s" "mp_entries t" "mp_avmSigners t" g]
  by (simp_all add: pool_inv_def) (metis domIff map_le_def)

lemma conflicts_mono:
  assumes "pool_inv K s" and "pool_inv K t" and "mp_entries t \<subseteq>\<^sub>m mp_entries s" and "mp_bannedHashes t = mp_bannedHashes s"
    and "conflicts tx h key s = None"
  shows "conflicts tx h key t = None"
  using assms(4,5) tables_mono [OF assms(1-3)] by (auto simp: conflicts_def list_ex_iff split: if_splits option.splits)

text \<open>The outcome of \<open>Add\<close>: it returns; the pool keeps its invariant and its caps; on success the transaction is in it.\<close>

lemma mp_Add_outcome:
  assumes inv: "pool_inv K s" and ord: "ord_ok ord"
  shows "\<exists>t r. mp_Add K J ord pe tx s = Some (t, r) \<and> pool_inv K t \<and> mp_cfg t = mp_cfg s \<and> mp_bannedHashes t = mp_bannedHashes s
    \<and> (within_caps s \<longrightarrow> within_caps t)
    \<and> (r = None \<longrightarrow> admissible K J pe (mp_cfg s) tx = Inr () \<and> mp_bannedHashes s (tx_Hash K tx) = None \<and> within_caps t
         \<and> mp_entries t (tx_Hash K tx) = Some (pool_entry K pe False tx) \<and> (IsStake tx \<longrightarrow> stakeExtraPubKey (tx_Extra tx) \<noteq> None))
    \<and> (r \<noteq> None \<longrightarrow> mp_entries t \<subseteq>\<^sub>m mp_entries s)"
proof (cases "admissible K J pe (mp_cfg s) tx")
  case (Inl e)
  then show ?thesis using inv by (simp add: mp_Add_def)
next
  case adm: (Inr u)
  note acc = admissible_accepts [OF adm]
  show ?thesis
  proof (cases "stake_preflight pe tx s")
    case (Inl e)
    then show ?thesis using inv adm by (simp add: mp_Add_def)
  next
    case (Inr kt)
    then obtain key t where pre: "stake_preflight pe tx s = Inr (key, t)" by (cases kt) auto
    note pf = preflight_inv [OF pre inv]
    have key: "key = stake_key tx" "IsStake tx \<Longrightarrow> stakeExtraPubKey (tx_Extra tx) \<noteq> None"
      using stake_preflight_accepts(1,2) [OF pre] by (auto simp: stake_key_def)
    show ?thesis
    proof (cases "conflicts tx (tx_Hash K tx) key t")
      case (Some e)
      then show ?thesis using adm pre pf by (simp add: mp_Add_def)
    next
      case None
      obtain q room where room: "make_room ord (int (tx_Size tx)) t = Some (q, room)" "pool_inv K q" "mp_entries q \<subseteq>\<^sub>m mp_entries t"
        "mp_cfg q = mp_cfg t" "mp_bannedHashes q = mp_bannedHashes t" "within_caps t \<longrightarrow> within_caps q"
        "if room then \<not> at_capacity (int (tx_Size tx)) q else mp_entries q = Map.empty \<and> at_capacity (int (tx_Size tx)) q"
        using make_room_returns [OF pf(1) ord] by blast
      have free: "conflicts tx (tx_Hash K tx) (stake_key tx) q = None" using conflicts_mono [OF pf(1) room(2,3,5)] None key by simp
      have avm: "IsAVM tx \<longrightarrow> tx_AVM tx \<noteq> None" using valid_avm_payload acc(1) by blast
      have le: "mp_entries q \<subseteq>\<^sub>m mp_entries s" using room(3) pf(5) map_le_trans by blast
      show ?thesis
      proof (cases room)
        case False
        then show ?thesis using adm pre None room pf le by (simp add: mp_Add_def)
      next
        case True
        let ?r = "insert_entry pe tx (tx_Hash K tx) (stake_key tx) q"
        have none: "mp_entries q (tx_Hash K tx) = None" "mp_bannedHashes q (tx_Hash K tx) = None" using free by (auto simp: conflicts_def split: if_splits)
        have caps: "within_caps ?r"
          unfolding insert_entry_reserves [OF avm] by (rule reserve_entry_caps [OF room(2)]) (use room(7) True none in \<open>simp_all add: pool_entry_def\<close>)
        have "mp_Add K J ord pe tx s = Some (?r, None)" using adm pre None room(1) True key(1) by (simp add: mp_Add_def)
        moreover have "mp_cfg ?r = mp_cfg q" "mp_bannedHashes ?r = mp_bannedHashes q" "mp_entries ?r (tx_Hash K tx) = Some (pool_entry K pe False tx)"
          by (simp_all add: insert_entry_def Let_def pool_entry_def)
        ultimately show ?thesis
          using insert_entry_inv [OF room(2) free avm, of pe] caps adm pf(3,4) room(4,5) none(2) key(2) by auto
      qed
    qed
  qed
qed

lemma AddPrivileged_outcome:
  assumes inv: "pool_inv K s" and ord: "ord_ok ord" and ins: "tx_Inputs tx = []"
  shows "\<exists>t r. AddPrivileged K J ord pe tx s = Some (t, r) \<and> pool_inv K t \<and> mp_cfg t = mp_cfg s \<and> mp_bannedHashes t = mp_bannedHashes s
    \<and> (within_caps s \<longrightarrow> within_caps t)"
proof -
  let ?h = "tx_Hash K tx" and ?e = "pool_entry K pe True tx"
  obtain q room where room: "make_room ord (int (tx_Size tx)) s = Some (q, room)" "pool_inv K q" "mp_entries q \<subseteq>\<^sub>m mp_entries s"
    "mp_cfg q = mp_cfg s" "mp_bannedHashes q = mp_bannedHashes s" "within_caps s \<longrightarrow> within_caps q" "room \<Longrightarrow> \<not> at_capacity (int (tx_Size tx)) q"
    using make_room_returns [OF inv ord, of "int (tx_Size tx)"] by (metis (full_types))
  have "pool_inv K (reserve_entry ?h ?e q) \<and> within_caps (reserve_entry ?h ?e q)"
    if "room" "mp_entries s ?h = None" "IsAVM tx \<longrightarrow> mp_avmSigners s (avm_signer tx) = None" "IsAVM tx \<longrightarrow> tx_AVM tx \<noteq> None"
  proof -
    have none: "mp_entries q ?h = None" and sgn: "IsAVM tx \<longrightarrow> mp_avmSigners q (avm_signer tx) = None"
      using that(2,3) tables_mono [OF inv room(2,3)] by simp_all
    show ?thesis
      using none sgn that room ins
      by (auto intro!: reserve_entry_inv reserve_entry_caps [OF room(2)]
          simp: pool_entry_def entry_ok_def image_keys_def tx_images_def stake_keys_def signer_keys_def avm_signer_def split: if_splits option.splits)
  qed
  moreover have "reserve_entry ?h ?e q = q\<lparr>mp_entries := (mp_entries q)(?h \<mapsto> ?e), mp_totalBytes := mp_totalBytes q + int (tx_Size tx),
      mp_avmSigners := (if IsAVM tx then (mp_avmSigners q)(avm_signer tx \<mapsto> ?h) else mp_avmSigners q)\<rparr>" if "IsAVM tx \<longrightarrow> tx_AVM tx \<noteq> None"
    using that ins by (auto simp: reserve_entry_def pool_entry_def image_keys_def tx_images_def stake_keys_def signer_keys_def avm_signer_def fun_eq_iff split: option.splits)
  moreover have "mp_cfg (reserve_entry ?h ?e q) = mp_cfg q" "mp_bannedHashes (reserve_entry ?h ?e q) = mp_bannedHashes q" by (simp_all add: reserve_entry_def)
  ultimately show ?thesis
    using inv room valid_avm_payload [of K J tx]
    unfolding AddPrivileged_def Let_def pool_entry_def by (auto split: if_splits sum.splits option.splits)
qed

section \<open>Reachable pools\<close>

lemma mp_Remove_inv:
  assumes "pool_inv K s"
  shows "pool_inv K (mp_Remove h s)" "within_caps s \<Longrightarrow> within_caps (mp_Remove h s)"
    "mp_entries (mp_Remove h s) = (mp_entries s)(h := None)" "mp_cfg (mp_Remove h s) = mp_cfg s" "mp_bannedHashes (mp_Remove h s) = mp_bannedHashes s"
  using assms drop_entry_inv [OF assms] drop_entry_caps [OF assms] drop_entry_fields [OF assms]
  by (auto simp: mp_Remove_def split: option.splits)

lemma RemoveBlock_inv:
  assumes "pool_inv K s"
  shows "pool_inv K (RemoveBlock K b s) \<and> (within_caps s \<longrightarrow> within_caps (RemoveBlock K b s))
    \<and> mp_entries (RemoveBlock K b s) = mp_entries s |` (- tx_Hash K ` set (blk_Txs b))"
proof -
  have "pool_inv K s \<Longrightarrow> pool_inv K (foldl (\<lambda>s tx. mp_Remove (tx_Hash K tx) s) s txs)
      \<and> (within_caps s \<longrightarrow> within_caps (foldl (\<lambda>s tx. mp_Remove (tx_Hash K tx) s) s txs))
      \<and> mp_entries (foldl (\<lambda>s tx. mp_Remove (tx_Hash K tx) s) s txs) = mp_entries s |` (- tx_Hash K ` set txs)" for txs
  proof (induction txs arbitrary: s)
    case (Cons tx txs)
    from Cons.IH [OF mp_Remove_inv(1) [OF Cons.prems]] show ?case
      using mp_Remove_inv [OF Cons.prems] by (auto simp: restrict_map_def fun_eq_iff)
  qed (simp add: restrict_map_def)
  then show ?thesis using assms by (simp add: RemoveBlock_def)
qed

lemma inv_bans [simp]: "pool_inv K (s\<lparr>mp_bannedHashes := b\<rparr>) = pool_inv K s" "within_caps (s\<lparr>mp_bannedHashes := b\<rparr>) = within_caps s"
  by (simp_all add: pool_inv_def within_caps_def mp_Count_def)

lemma BanTx_inv:
  assumes "pool_inv K s"
  shows "pool_inv K (BanTx now h s)" "within_caps s \<Longrightarrow> within_caps (BanTx now h s)"
    "mp_entries (BanTx now h s) h = None" "mp_bannedHashes (BanTx now h s) = (mp_bannedHashes s)(h \<mapsto> now)"
  using assms drop_entry_inv [OF assms] drop_entry_caps [OF assms] drop_entry_fields [OF assms]
  by (auto simp: BanTx_def Let_def split: option.splits)

lemma Evict_inv:
  assumes "pool_inv K s"
  shows "pool_inv K (Evict now ord s)" "within_caps s \<Longrightarrow> within_caps (Evict now ord s)"
proof -
  have "pool_inv K s \<Longrightarrow> pool_inv K (foldl (expire_entry now) s hs) \<and> (within_caps s \<longrightarrow> within_caps (foldl (expire_entry now) s hs))" for hs
  proof (induction hs arbitrary: s)
    case (Cons h hs)
    have "pool_inv K (expire_entry now s h)" "within_caps s \<Longrightarrow> within_caps (expire_entry now s h)"
      using drop_entry_inv [OF Cons.prems] drop_entry_caps [OF Cons.prems] Cons.prems by (auto simp: expire_entry_def split: option.splits)
    then show ?case using Cons.IH by auto
  qed simp
  then show "pool_inv K (Evict now ord s)" "within_caps s \<Longrightarrow> within_caps (Evict now ord s)" using assms by (auto simp: Evict_def Let_def)
qed

lemma restore_time_inv:
  assumes "pool_inv K s"
  shows "pool_inv K (restore_time h t s)" "within_caps s \<Longrightarrow> within_caps (restore_time h t s)"
proof -
  have "pool_inv K (s\<lparr>mp_entries := (mp_entries s)(h \<mapsto> e\<lparr>me_Received := t\<rparr>)\<rparr>)"
    "within_caps s \<Longrightarrow> within_caps (s\<lparr>mp_entries := (mp_entries s)(h \<mapsto> e\<lparr>me_Received := t\<rparr>)\<rparr>)" if e: "mp_entries s h = Some e" for e
  proof -
    let ?m = "(mp_entries s)(h \<mapsto> e\<lparr>me_Received := t\<rparr>)"
    have dom: "dom ?m = dom (mp_entries s)" using e by auto
    have bytes: "pool_bytes ?m = pool_bytes (mp_entries s)" unfolding pool_bytes_def dom by (intro sum.cong) (use e in auto)
    have keys: "image_keys (e\<lparr>me_Received := t\<rparr>) = image_keys e" "stake_keys (e\<lparr>me_Received := t\<rparr>) = stake_keys e"
      "signer_keys (e\<lparr>me_Received := t\<rparr>) = signer_keys e"
      by (auto simp: image_keys_def stake_keys_def signer_keys_def split: option.splits)
    show "pool_inv K (s\<lparr>mp_entries := ?m\<rparr>)"
      using assms e keys unfolding pool_inv_def mempool.simps dom bytes
      by (auto simp: entry_ok_def bytes intro!: reserved_update [where e = e])
    show "within_caps s \<Longrightarrow> within_caps (s\<lparr>mp_entries := ?m\<rparr>)" using e by (simp add: within_caps_def mp_Count_def insert_absorb domI)
  qed
  then show "pool_inv K (restore_time h t s)" "within_caps s \<Longrightarrow> within_caps (restore_time h t s)"
    using assms by (auto simp: restore_time_def split: option.splits)
qed

lemma mp_load_entry_inv:
  assumes "pool_inv K s" and "ord_ok ord"
  shows "\<exists>t m. mp_load_entry K J ord pe d (s, n) = Some (t, m) \<and> pool_inv K t \<and> (within_caps s \<longrightarrow> within_caps t)"
proof -
  obtain t r where "mp_Add K J ord pe (fst d) s = Some (t, r)" "pool_inv K t" "within_caps s \<longrightarrow> within_caps t"
    using mp_Add_outcome [OF assms] by blast
  then show ?thesis
    using assms(1) restore_time_inv [of K t] by (cases d; cases r) (auto simp: mp_load_entry_def)
qed

lemma load_entries_inv:
  assumes "pool_inv K s" and "ord_ok ord"
  shows "\<exists>t m. load_entries K J ord pe ds (s, n) = Some (t, m) \<and> pool_inv K t \<and> (within_caps s \<longrightarrow> within_caps t)"
  using assms(1)
proof (induction ds arbitrary: s n)
  case (Cons d ds)
  obtain t m where "mp_load_entry K J ord pe d (s, n) = Some (t, m)" "pool_inv K t" "within_caps s \<longrightarrow> within_caps t"
    using mp_load_entry_inv [OF Cons.prems assms(2)] by blast
  then show ?case using Cons.IH [of t m] by auto
qed simp

text \<open>The pools that calls reach.  Privileged calls are those for mints, which have no inputs.\<close>

inductive pool_reach :: "lib \<Rightarrow> jsonlib \<Rightarrow> (entry_map \<Rightarrow> hash32 list) \<Rightarrow> mempool \<Rightarrow> bool" for K J ord where
  new: "pool_reach K J ord (NewMempool cfg)"
| add: "pool_reach K J ord s \<Longrightarrow> mp_Add K J ord pe tx s = Some (t, r) \<Longrightarrow> pool_reach K J ord t"
| privileged: "pool_reach K J ord s \<Longrightarrow> tx_Inputs tx = [] \<Longrightarrow> AddPrivileged K J ord pe tx s = Some (t, r) \<Longrightarrow> pool_reach K J ord t"
| remove: "pool_reach K J ord s \<Longrightarrow> pool_reach K J ord (mp_Remove h s)"
| block: "pool_reach K J ord s \<Longrightarrow> pool_reach K J ord (RemoveBlock K b s)"
| ban: "pool_reach K J ord s \<Longrightarrow> pool_reach K J ord (BanTx now h s)"
| expire: "pool_reach K J ord s \<Longrightarrow> pool_reach K J ord (Evict now ord s)"
| fee: "pool_reach K J ord s \<Longrightarrow> pool_reach K J ord (SetBaseFee f s)"
| load: "pool_reach K J ord s \<Longrightarrow> load_entries K J ord pe ds (s, 0) = Some (t, n) \<Longrightarrow> pool_reach K J ord t"

lemma pool_reach_inv:
  assumes "pool_reach K J ord s" and ord: "ord_ok ord"
  shows "pool_inv K s \<and> within_caps s"
  using assms(1)
proof induction
  case (new cfg)
  show ?case by (simp add: NewMempool_def pool_inv_def within_caps_def mp_Count_def pool_bytes_def reserved_def)
next
  case (add s pe tx t r)
  then show ?case using mp_Add_outcome [of K s ord J pe tx] ord by auto
next
  case (privileged s tx pe t r)
  then show ?case using AddPrivileged_outcome [of K s ord tx J pe] ord by auto
next
  case (fee s f)
  then show ?case by (auto simp: SetBaseFee_def pool_inv_def within_caps_def mp_Count_def)
next
  case (load s pe ds t n)
  then show ?case using load_entries_inv [of K s ord J pe ds 0] ord by auto
qed (auto simp: mp_Remove_inv RemoveBlock_inv BanTx_inv Evict_inv)

section \<open>Properties\<close>

text \<open>C6: Pending transactions never conflict, in any reachable pool: the table of key images says exactly which pending transaction spends an
  image, so no image is spent by two of them; at most one public stake transaction per validator and one contract call per
  signer is pending; the byte total is the sum of the sizes; every entry is under the hash of its transaction; and the count and
  byte caps hold.  The calls are \<open>Add\<close>, privileged mints, removals, blocks, bans, expiry, fee updates
  and restarts, in any order and with any outcome.\<close>

theorem pool_conflict_free:
  assumes reach: "pool_reach K J ord s" and ord: "ord_ok ord"
  shows "(\<forall>k h. mp_keyImages s k = Some h \<longleftrightarrow> (\<exists>e. mp_entries s h = Some e \<and> k \<in> tx_images (me_Tx e)))
    \<and> (\<forall>h e h' e'. mp_entries s h = Some e \<and> mp_entries s h' = Some e' \<and> h \<noteq> h' \<longrightarrow>
         tx_images (me_Tx e) \<inter> tx_images (me_Tx e') = {} \<and> stake_keys e \<inter> stake_keys e' = {} \<and> signer_keys e \<inter> signer_keys e' = {})
    \<and> (\<forall>h e. mp_entries s h = Some e \<longrightarrow> tx_Hash K (me_Tx e) = h)
    \<and> mp_totalBytes s = (\<Sum>h \<in> dom (mp_entries s). int (tx_Size (me_Tx (the (mp_entries s h)))))
    \<and> int (mp_Count s) \<le> max 0 (mc_MaxSize (mp_cfg s)) \<and> (0 < mc_MaxBytes (mp_cfg s) \<longrightarrow> mp_totalBytes s \<le> mc_MaxBytes (mp_cfg s))"
proof -
  have inv: "pool_inv K s" and caps: "within_caps s" using pool_reach_inv [OF reach ord] by auto
  have res: "reserved image_keys (mp_entries s) (mp_keyImages s)" "reserved stake_keys (mp_entries s) (mp_stakeSenders s)"
    "reserved signer_keys (mp_entries s) (mp_avmSigners s)" using inv by (auto simp: pool_inv_def)
  have "tx_images (me_Tx e) \<inter> tx_images (me_Tx e') = {} \<and> stake_keys e \<inter> stake_keys e' = {} \<and> signer_keys e \<inter> signer_keys e' = {}"
    if "mp_entries s h = Some e \<and> mp_entries s h' = Some e' \<and> h \<noteq> h'" for h e h' e'
    using that reserved_unique [OF res(1), of h e h' e'] reserved_unique [OF res(2), of h e h' e'] reserved_unique [OF res(3), of h e h' e']
    by (auto simp: image_keys_def)
  moreover have "mp_totalBytes s = (\<Sum>h \<in> dom (mp_entries s). int (tx_Size (me_Tx (the (mp_entries s h)))))"
    using inv by (auto simp: pool_inv_def pool_bytes_def entry_ok_def intro!: sum.cong)
  moreover have "\<forall>h e. mp_entries s h = Some e \<longrightarrow> tx_Hash K (me_Tx e) = h" using inv by (auto simp: pool_inv_def entry_ok_def)
  ultimately show ?thesis using res(1) caps by (auto simp: reserved_def image_keys_def within_caps_def)
qed

text \<open>An order of iteration, for concrete pools.\<close>

definition hash_order :: "entry_map \<Rightarrow> hash32 list" where
  "hash_order m = sorted_list_of_set (dom m)"

lemma hash_order_ok: "ord_ok hash_order"
  by (simp add: ord_ok_def map_order_def hash_order_def)

text \<open>The demonstration transaction is admitted to a pool whose verifier holds the output it spends.\<close>

definition demo_env :: pool_env where
  "demo_env = \<lparr>pe_CurrentHeight = Some 0, pe_Verifier = Some (VerifyTxAtHeight demo_lib no_json zl_curve mem_leveldb None 0 demo_verifier),
     pe_AVMNonceLookup = None, pe_AVMAdmissionCheck = None, pe_StakeAdmissionCheck = None, pe_Now = 7\<rparr>"

definition demo_pool :: mempool where
  "demo_pool = NewMempool (DefaultMempoolConfig\<lparr>mc_BaseFeePerByte := 1\<rparr>)"

lemma demo_pool_inv: "pool_inv K demo_pool"
  by (simp add: demo_pool_def NewMempool_def pool_inv_def pool_bytes_def reserved_def)

lemma demo_admissible:
  "\<exists>p sig. admissible demo_lib no_json demo_env (mp_cfg demo_pool) (demo_v4_tx p [Some sig]) = Inr ()"
proof -
  obtain p sig where acc: "VerifyTxAtHeight demo_lib no_json zl_curve mem_leveldb None 0 demo_verifier (demo_v4_tx p [Some sig]) 1 = Inr ()"
    using demo_v4_accepted by blast
  let ?tx = "demo_v4_tx p [Some sig]"
  have kind: "\<not> IsCoinbase ?tx" "\<not> IsGuardianFund ?tx" "\<not> IsLPoD ?tx" "\<not> IsLPoDPayout ?tx" "\<not> IsStake ?tx" "\<not> IsLPoDPosition ?tx" "\<not> IsAVM ?tx"
    by (simp_all add: demo_v4_fields tx_kinds tx_versions)
  have valid: "tx_Validate demo_lib no_json ?tx = Inr ()"
    using acc by (simp add: VerifyTxAtHeight_def verifyTx_def split: sum.splits if_splits)
  have sz: "tx_Size ?tx \<le> 100000" by (simp add: tx_Size_def demo_v4_tx_def empty_tx_def UsesCLSAG_def tx_versions RingSize_def)
  moreover have "check_fee 1 ?tx = Inr ()"
  proof -
    have "(word_of_nat (tx_Size ?tx) :: u64) \<le> 100000" using sz by (simp add: word_le_nat_alt unat_of_nat take_bit_nat_eq_self)
    moreover have "max_u64 div w \<noteq> 0" if "w \<le> 100000" "w \<noteq> 0" for w :: u64
    proof
      assume "max_u64 div w = 0"
      then have "unat max_u64 div unat w = 0" by (metis unat_0 unat_div)
      then show False using that by (auto simp: div_eq_0_iff unat_max_u64 word_le_nat_alt word_unat_eq_iff)
    qed
    ultimately have "MinFeeAt ?tx 1 \<le> 100000" by (auto simp: MinFeeAt_def Let_def)
    moreover have "snd (BurnAmount ?tx) = False"
      by (simp add: BurnAmount_def demo_v4_tx_def empty_tx_def parseIntentionalBurnExtra_def intentionalBurnPrefix_def str_bytes_def)
    ultimately show ?thesis using kind by (cases "BurnAmount ?tx") (simp add: check_fee_def demo_v4_fields not_less)
  qed
  moreover have "nextBlockHeight demo_env = 1" by (simp add: nextBlockHeight_def demo_env_def max_u64_def)
  moreover have "ValidateTxVersionAtHeight demo_lib no_json ?tx 1 0 0 0 = Inr ()"
    using kind by (simp add: ValidateTxVersionAtHeight_def) (simp add: demo_v4_fields tx_versions)
  ultimately have "admissible demo_lib no_json demo_env (mp_cfg demo_pool) ?tx = Inr ()"
    using kind valid acc
    by (simp add: admissible_def demo_pool_def NewMempool_def DefaultMempoolConfig_def validateAVMNonce_def) (simp add: demo_env_def validateAVMNonce_def)
  then show ?thesis by blast
qed

lemma demo_added:
  "\<exists>p sig t. mp_Add demo_lib no_json hash_order demo_env (demo_v4_tx p [Some sig]) demo_pool = Some (t, None)
     \<and> mp_entries t = [tx_Hash demo_lib (demo_v4_tx p [Some sig]) \<mapsto> pool_entry demo_lib demo_env False (demo_v4_tx p [Some sig])]"
proof -
  obtain p sig where adm: "admissible demo_lib no_json demo_env (mp_cfg demo_pool) (demo_v4_tx p [Some sig]) = Inr ()"
    using demo_admissible by blast
  let ?tx = "demo_v4_tx p [Some sig]"
  have kind: "\<not> IsStake ?tx" "\<not> IsAVM ?tx" by (simp_all add: demo_v4_fields tx_kinds tx_versions)
  have sz: "int (tx_Size ?tx) \<le> 100000" using admissible_accepts(5) [OF adm] by (simp add: demo_pool_def NewMempool_def DefaultMempoolConfig_def)
  then have "make_room hash_order (int (tx_Size ?tx)) demo_pool = Some (demo_pool, True)"
    by (subst make_room.simps) (simp add: at_capacity_def demo_pool_def NewMempool_def DefaultMempoolConfig_def mp_Count_def)
  then have "mp_Add demo_lib no_json hash_order demo_env ?tx demo_pool = Some (insert_entry demo_env ?tx (tx_Hash demo_lib ?tx) None demo_pool, None)"
    using adm kind
    by (simp add: mp_Add_def stake_preflight_def conflicts_def demo_pool_def NewMempool_def list_ex_iff)
  moreover have "mp_entries (insert_entry demo_env ?tx (tx_Hash demo_lib ?tx) None demo_pool) = [tx_Hash demo_lib ?tx \<mapsto> pool_entry demo_lib demo_env False ?tx]"
    by (simp add: insert_entry_def Let_def pool_entry_def demo_pool_def NewMempool_def)
  ultimately show ?thesis by blast
qed

theorem pool_conflict_free_witness:
  "\<exists>p sig t. pool_reach demo_lib no_json hash_order t \<and> mp_keyImages t (cv_bytes zl_curve (zl_of 16)) = Some (tx_Hash demo_lib (demo_v4_tx p [Some sig]))
     \<and> int (mp_Count t) \<le> max 0 (mc_MaxSize (mp_cfg t))"
proof -
  obtain p sig t where add: "mp_Add demo_lib no_json hash_order demo_env (demo_v4_tx p [Some sig]) demo_pool = Some (t, None)"
    and m: "mp_entries t = [tx_Hash demo_lib (demo_v4_tx p [Some sig]) \<mapsto> pool_entry demo_lib demo_env False (demo_v4_tx p [Some sig])]"
    using demo_added by blast
  have reach: "pool_reach demo_lib no_json hash_order t"
    using pool_reach.add [OF _ add] pool_reach.new by (simp add: demo_pool_def)
  have "cv_bytes zl_curve (zl_of 16) \<in> tx_images (demo_v4_tx p [Some sig])" by (simp add: tx_images_def demo_v4_fields)
  then show ?thesis
    using pool_conflict_free [OF reach hash_order_ok] m reach by (fastforce simp: pool_entry_def)
qed

text \<open>C15: What \<open>Add\<close> lets in.  When it succeeds on a transaction that spends outputs, in any reachable pool whose verifier is the
  node's, then the transaction is valid and its spends are valid at the next height (unspent images, rings on the chain, signatures,
  range proofs, balanced amounts); it is within the size limit, pays the minimum fee unless it is a stake transaction, is allowed by the version policy and is not banned;
  it is in the pool; and none of its key images is spent by another pending transaction.\<close>

theorem admitted_spend_valid:
  assumes reach: "pool_reach K J ord s" and ord: "ord_ok ord" and add: "mp_Add K J ord pe tx s = Some (t, None)"
    and ver: "pe_Verifier pe = Some (VerifyTxAtHeight K J C L store now v)" and spends: "tx_Inputs tx \<noteq> []" "\<not> IsLPoDPosition tx"
  shows "tx_Validate K J tx = Inr () \<and> spend_valid K C L store now v tx {} (nextBlockHeight pe)
    \<and> int (tx_Size tx) \<le> mc_MaxTxSize (mp_cfg s) \<and> (IsStake tx \<or> MinFeeAt tx (mc_BaseFeePerByte (mp_cfg s)) \<le> tx_Fee tx)
    \<and> (pe_CurrentHeight pe \<noteq> None \<longrightarrow>
         ValidateTxVersionAtHeight K J tx (nextBlockHeight pe) (mc_V4Height (mp_cfg s)) (mc_CLSAGHeight (mp_cfg s)) (mc_AVMHeight (mp_cfg s)) = Inr ())
    \<and> \<not> IsBanned s (tx_Hash K tx) \<and> mp_entries t (tx_Hash K tx) = Some (pool_entry K pe False tx)
    \<and> (\<forall>h e. mp_entries t h = Some e \<and> h \<noteq> tx_Hash K tx \<longrightarrow> tx_images (me_Tx e) \<inter> tx_images tx = {})"
proof -
  have inv: "pool_inv K s" using pool_reach_inv [OF reach ord] by simp
  from mp_Add_outcome [OF inv ord, of J pe tx] add
  have t: "pool_inv K t" "mp_entries t (tx_Hash K tx) = Some (pool_entry K pe False tx)" "mp_bannedHashes s (tx_Hash K tx) = None"
    and adm: "admissible K J pe (mp_cfg s) tx = Inr ()" by auto
  note acc = admissible_accepts [OF adm]
  have "VerifyTxAtHeight K J C L store now v tx (nextBlockHeight pe) = Inr ()" using acc(4) [OF ver] .
  then have valid: "tx_Validate K J tx = Inr ()" "spend_valid K C L store now v tx {} (nextBlockHeight pe)"
    using VerifyTxAtHeight_iff [OF spends] by blast+
  have fee: "IsStake tx \<or> MinFeeAt tx (mc_BaseFeePerByte (mp_cfg s)) \<le> tx_Fee tx"
    using acc(6) spends(2) check_fee_minimum by blast
  have "tx_images (me_Tx e) \<inter> tx_images tx = {}" if "mp_entries t h = Some e \<and> h \<noteq> tx_Hash K tx" for h e
    using that t(1,2) reserved_unique [of image_keys "mp_entries t" "mp_keyImages t" h e "tx_Hash K tx" "pool_entry K pe False tx"]
    by (auto simp: pool_inv_def image_keys_def pool_entry_def)
  then show ?thesis using valid acc(5,8) fee t(2,3) by (auto simp: IsBanned_def)
qed

theorem admitted_spend_valid_witness:
  "\<exists>p sig t. mp_Add demo_lib no_json hash_order demo_env (demo_v4_tx p [Some sig]) demo_pool = Some (t, None)
     \<and> spend_valid demo_lib zl_curve mem_leveldb None 0 demo_verifier (demo_v4_tx p [Some sig]) {} (nextBlockHeight demo_env)"
proof -
  obtain p sig t where add: "mp_Add demo_lib no_json hash_order demo_env (demo_v4_tx p [Some sig]) demo_pool = Some (t, None)"
    using demo_added by blast
  have reach: "pool_reach demo_lib no_json hash_order demo_pool" using pool_reach.new by (simp add: demo_pool_def)
  have ver: "pe_Verifier demo_env = Some (VerifyTxAtHeight demo_lib no_json zl_curve mem_leveldb None 0 demo_verifier)" by (simp add: demo_env_def)
  have spends: "tx_Inputs (demo_v4_tx p [Some sig]) \<noteq> []" "\<not> IsLPoDPosition (demo_v4_tx p [Some sig])"
    by (simp_all add: demo_v4_fields tx_kinds tx_versions)
  from admitted_spend_valid [OF reach hash_order_ok add ver spends] add show ?thesis by blast
qed

text \<open>C16: Making room ends, is fair and takes no more than needed.  In any reachable pool, \<open>Add\<close> returns, whatever the transaction.  An admissible
  transaction that is not a stake transaction and has no conflicts is let in whenever it fits at all (a pool of at least one place, and not larger than the byte cap).
  Entries leave only to make room: they leave one after the other, each from a table that has no place or too few bytes left for the newcomer, until there is room.
  A kept regular entry pays at least the fee rate of every removed entry, and no stake, coinbase or position
  transaction is removed while a regular entry is kept.\<close>

theorem add_makes_room:
  assumes reach: "pool_reach K J ord s" and ord: "ord_ok ord"
  shows "(\<exists>t r. mp_Add K J ord pe tx s = Some (t, r))
    \<and> (admissible K J pe (mp_cfg s) tx = Inr () \<and> \<not> IsStake tx \<and> conflicts tx (tx_Hash K tx) None s = None
         \<and> 1 \<le> mc_MaxSize (mp_cfg s) \<and> (mc_MaxBytes (mp_cfg s) \<le> 0 \<or> int (tx_Size tx) \<le> mc_MaxBytes (mp_cfg s))
       \<longrightarrow> (\<exists>t. mp_Add K J ord pe tx s = Some (t, None) \<and> mp_entries t (tx_Hash K tx) = Some (pool_entry K pe False tx)
              \<and> evicts_fairly (mp_entries s) ((mp_entries t)(tx_Hash K tx := None))
              \<and> evicts_needed (mp_cfg s) (int (tx_Size tx)) (mp_entries s) ((mp_entries t)(tx_Hash K tx := None))
              \<and> \<not> no_room (mp_cfg s) (int (tx_Size tx)) ((mp_entries t)(tx_Hash K tx := None))))"
proof (intro conjI impI)
  have inv: "pool_inv K s" using pool_reach_inv [OF reach ord] by simp
  then show "\<exists>t r. mp_Add K J ord pe tx s = Some (t, r)" using mp_Add_outcome [OF inv ord, of J pe tx] by blast
  assume a: "admissible K J pe (mp_cfg s) tx = Inr () \<and> \<not> IsStake tx \<and> conflicts tx (tx_Hash K tx) None s = None
    \<and> 1 \<le> mc_MaxSize (mp_cfg s) \<and> (mc_MaxBytes (mp_cfg s) \<le> 0 \<or> int (tx_Size tx) \<le> mc_MaxBytes (mp_cfg s))"
  obtain q room where room: "make_room ord (int (tx_Size tx)) s = Some (q, room)" "pool_inv K q" "mp_entries q \<subseteq>\<^sub>m mp_entries s" "mp_cfg q = mp_cfg s"
    "\<not> room \<Longrightarrow> mp_entries q = Map.empty \<and> at_capacity (int (tx_Size tx)) q"
    "room \<Longrightarrow> \<not> at_capacity (int (tx_Size tx)) q"
    using make_room_returns [OF inv ord, of "int (tx_Size tx)"] by (metis (full_types))
  have "room"
  proof (rule ccontr)
    assume "\<not> room"
    then have "mp_entries q = Map.empty" "at_capacity (int (tx_Size tx)) q" using room(5) by auto
    moreover from this(1) have "mp_totalBytes q = 0" "mp_Count q = 0" using room(2) by (auto simp: pool_inv_def pool_bytes_def mp_Count_def)
    ultimately show False using a room(4) by (auto simp: at_capacity_def)
  qed
  then have spare: "\<not> no_room (mp_cfg q) (int (tx_Size tx)) (mp_entries q)" using room(6) at_capacity_no_room [OF room(2)] by simp
  have add: "mp_Add K J ord pe tx s = Some (insert_entry pe tx (tx_Hash K tx) None q, None)"
    using a room(1) \<open>room\<close> by (simp add: mp_Add_def stake_preflight_def)
  have none: "mp_entries s (tx_Hash K tx) = None" using a by (auto simp: conflicts_def split: if_splits)
  then have q: "mp_entries q (tx_Hash K tx) = None" using room(3) by (metis domIff map_le_def)
  have "mp_entries (insert_entry pe tx (tx_Hash K tx) None q) = (mp_entries q)(tx_Hash K tx \<mapsto> pool_entry K pe False tx)"
    by (simp add: insert_entry_def Let_def pool_entry_def)
  then show "\<exists>t. mp_Add K J ord pe tx s = Some (t, None) \<and> mp_entries t (tx_Hash K tx) = Some (pool_entry K pe False tx)
      \<and> evicts_fairly (mp_entries s) ((mp_entries t)(tx_Hash K tx := None))
      \<and> evicts_needed (mp_cfg s) (int (tx_Size tx)) (mp_entries s) ((mp_entries t)(tx_Hash K tx := None))
      \<and> \<not> no_room (mp_cfg s) (int (tx_Size tx)) ((mp_entries t)(tx_Hash K tx := None))"
    using add make_room_fair [OF inv ord room(1)] make_room_needed [OF inv ord room(1)] q spare room(4) by (simp add: fun_upd_idem)
qed

theorem add_makes_room_witness:
  "\<exists>p sig t. mp_Add demo_lib no_json hash_order demo_env (demo_v4_tx p [Some sig]) demo_pool = Some (t, None)
     \<and> mp_entries t (tx_Hash demo_lib (demo_v4_tx p [Some sig])) = Some (pool_entry demo_lib demo_env False (demo_v4_tx p [Some sig]))"
proof -
  obtain p sig where adm: "admissible demo_lib no_json demo_env (mp_cfg demo_pool) (demo_v4_tx p [Some sig]) = Inr ()"
    using demo_admissible by blast
  let ?tx = "demo_v4_tx p [Some sig]"
  have reach: "pool_reach demo_lib no_json hash_order demo_pool" using pool_reach.new by (simp add: demo_pool_def)
  have "\<not> IsStake ?tx" "\<not> IsAVM ?tx" by (simp_all add: demo_v4_fields tx_kinds tx_versions)
  moreover from this have "conflicts ?tx (tx_Hash demo_lib ?tx) None demo_pool = None"
    by (simp add: conflicts_def demo_pool_def NewMempool_def list_ex_iff)
  moreover have "1 \<le> mc_MaxSize (mp_cfg demo_pool)" "int (tx_Size ?tx) \<le> mc_MaxBytes (mp_cfg demo_pool)"
    using admissible_accepts(5) [OF adm] by (simp_all add: demo_pool_def NewMempool_def DefaultMempoolConfig_def)
  ultimately show ?thesis using add_makes_room [OF reach hash_order_ok, of demo_env ?tx] adm by blast
qed

text \<open>The proposer's selection is the best one: \<open>SelectTxs\<close> returns as many pending transactions as it is asked for, or all of
  them, each once and only pending ones, best fee rate first, and no transaction it leaves out pays a higher rate than one it selects, whatever order \<open>sort.Slice\<close>
  gives equal rates.  A negative count panics.\<close>

theorem selection_best_rates:
  assumes reach: "pool_reach K J ord s" and ord: "ord_ok ord" and ranked: "sort_slice rate_above (entry_list ord s) ranked"
  shows "(n < 0 \<longrightarrow> SelectTxs ranked n = None)
    \<and> (0 \<le> n \<longrightarrow> (\<exists>es. SelectTxs ranked n = Some (map me_Tx es) \<and> length es = min (nat n) (mp_Count s) \<and> distinct es
        \<and> set es \<subseteq> ran (mp_entries s) \<and> sorted_wrt (\<lambda>a b. fee_rate b \<le> fee_rate a) es
        \<and> (\<forall>e \<in> set es. \<forall>x \<in> ran (mp_entries s) - set es. fee_rate x \<le> fee_rate e)))"
proof (intro conjI impI)
  show "n < 0 \<Longrightarrow> SelectTxs ranked n = None" by (simp add: SelectTxs_def)
  assume n: "0 \<le> n"
  have inv: "pool_inv K s" using pool_reach_inv [OF reach ord] by simp
  let ?es = "take (nat n) ranked" and ?rest = "drop (nat n) ranked"
  have set: "set ranked = ran (mp_entries s)" using sort_slice_set [OF ranked] entry_list_set [OF inv ord] by simp
  have ks: "distinct (ord (mp_entries s))" "set (ord (mp_entries s)) = dom (mp_entries s)"
    using ord inv by (auto simp: ord_ok_def map_order_def pool_inv_def)
  have "inj_on (\<lambda>h. the (mp_entries s h)) (dom (mp_entries s))"
    using inv by (auto simp: inj_on_def pool_inv_def entry_ok_def) (metis option.sel)
  then have "distinct (entry_list ord s)" using ks by (simp add: entry_list_def distinct_map)
  then have dist: "distinct ranked" using sort_slice_distinct [OF ranked] by simp
  have len: "length ranked = mp_Count s"
    using sort_slice_length [OF ranked] ks distinct_card [of "ord (mp_entries s)"] by (simp add: entry_list_def mp_Count_def)
  have srt: "sorted_wrt (\<lambda>a b. fee_rate b \<le> fee_rate a) (?es @ ?rest)"
    using ranked by (simp add: sort_slice_def rate_above_def not_less)
  have "fee_rate x \<le> fee_rate e" if "e \<in> set ?es" "x \<in> ran (mp_entries s) - set ?es" for e x
  proof -
    have "x \<in> set ?rest" using that(2) set by (metis Diff_iff Un_iff append_take_drop_id set_append)
    then show ?thesis using srt that(1) unfolding sorted_wrt_append by blast
  qed
  moreover have "sorted_wrt (\<lambda>a b. fee_rate b \<le> fee_rate a) ?es" using srt unfolding sorted_wrt_append by blast
  moreover have "set ?es \<subseteq> ran (mp_entries s)" using set set_take_subset by metis
  ultimately show "\<exists>es. SelectTxs ranked n = Some (map me_Tx es) \<and> length es = min (nat n) (mp_Count s) \<and> distinct es
      \<and> set es \<subseteq> ran (mp_entries s) \<and> sorted_wrt (\<lambda>a b. fee_rate b \<le> fee_rate a) es
      \<and> (\<forall>e \<in> set es. \<forall>x \<in> ran (mp_entries s) - set es. fee_rate x \<le> fee_rate e)"
    using n len dist by (intro exI [of _ ?es]) (auto simp: SelectTxs_def)
qed

theorem selection_best_rates_witness:
  "\<exists>t e. pool_reach demo_lib no_json hash_order t \<and> mp_Count t = 1 \<and> SelectTxs [e] 5 = Some [me_Tx e] \<and> ran (mp_entries t) = {e}"
proof -
  obtain p sig t where add: "mp_Add demo_lib no_json hash_order demo_env (demo_v4_tx p [Some sig]) demo_pool = Some (t, None)"
    and m: "mp_entries t = [tx_Hash demo_lib (demo_v4_tx p [Some sig]) \<mapsto> pool_entry demo_lib demo_env False (demo_v4_tx p [Some sig])]"
    using demo_added by blast
  let ?h = "tx_Hash demo_lib (demo_v4_tx p [Some sig])" and ?e = "pool_entry demo_lib demo_env False (demo_v4_tx p [Some sig])"
  have reach: "pool_reach demo_lib no_json hash_order t"
    using pool_reach.add [OF _ add] pool_reach.new by (simp add: demo_pool_def)
  have "entry_list hash_order t = [?e]" by (simp add: entry_list_def hash_order_def m)
  then have "sort_slice rate_above (entry_list hash_order t) [?e]" by (simp add: sort_slice_def)
  from selection_best_rates [OF reach hash_order_ok this, of 5] obtain es where
    es: "SelectTxs [?e] 5 = Some (map me_Tx es)" "length es = min (nat 5) (mp_Count t)" "set es \<subseteq> ran (mp_entries t)" by auto
  have one: "mp_Count t = 1" "ran (mp_entries t) = {?e}" by (simp_all add: m mp_Count_def)
  then have "es = [?e]" using es(2,3) by (cases es) auto
  then show ?thesis using reach one es(1) by auto
qed

end
