(* ===== verification/Doubles.thy ===== *)
theory Doubles
  imports Complex_Main Prelude
begin

text \<open>
  Go's \<open>float64\<close> arithmetic, for the few places where consensus code computes with it.  Each operation is
  the exact one on real numbers followed by rounding to the nearest double, ties to even (\<open>fl64\<close>).  The exponent is not
  bounded: the magnitudes of the code stay far from overflow and underflow.  \<open>math.Round\<close> and the conversion to
  \<open>int64\<close> are exact.
\<close>

section \<open>Definitions\<close>

definition rne :: "real \<Rightarrow> int" where
  "rne x = (let f = \<lfloor>x\<rfloor>; d = x - of_int f
     in if d < 1 / 2 then f else if 1 / 2 < d then f + 1 else if even f then f else f + 1)"

text \<open>The exponent of the unit in the last place of a 53-bit significand.\<close>

definition ulp_exp :: "real \<Rightarrow> int" where
  "ulp_exp x = \<lfloor>log 2 \<bar>x\<bar>\<rfloor> - 52"

definition fl64 :: "real \<Rightarrow> real" where
  "fl64 x = (if x = 0 then 0 else of_int (rne (x * 2 powr (- of_int (ulp_exp x)))) * 2 powr of_int (ulp_exp x))"

text \<open>\<open>math.Round\<close>: to the nearest integer, halves away from zero.\<close>

definition math_Round :: "real \<Rightarrow> int" where
  "math_Round x = (if 0 \<le> x then \<lfloor>x + 1 / 2\<rfloor> else - \<lfloor>- x + 1 / 2\<rfloor>)"

text \<open>Conversion of an integral double to \<open>int64\<close>; out of range the result is left to the implementation (on
  amd64 the smallest value).\<close>

definition int64_of :: "int \<Rightarrow> u64" where
  "int64_of r = (if - (2 ^ 63) \<le> r \<and> r < 2 ^ 63 then word_of_int r else 2 ^ 63)"

section \<open>Rounding to an integer\<close>

lemma rne_floor: "\<lfloor>x\<rfloor> \<le> rne x" "rne x \<le> \<lfloor>x\<rfloor> + 1"
  by (auto simp: rne_def Let_def)

lemma rne_of_int [simp]: "rne (of_int n) = n"
  by (simp add: rne_def)

lemma rne_mono: "x \<le> y \<Longrightarrow> rne x \<le> rne y"
proof (cases "\<lfloor>x\<rfloor> = \<lfloor>y\<rfloor>")
  case False
  moreover assume "x \<le> y"
  ultimately have "\<lfloor>x\<rfloor> + 1 \<le> \<lfloor>y\<rfloor>" using floor_mono [of x y] by simp
  then show ?thesis using rne_floor(2) [of x] rne_floor(1) [of y] by linarith
qed (auto simp: rne_def Let_def)

lemma rne_between: "of_int m \<le> x \<Longrightarrow> x \<le> of_int n \<Longrightarrow> m \<le> rne x \<and> rne x \<le> n"
  using rne_mono [of "of_int m" x] rne_mono [of x "of_int n"] by simp

lemma floor_minus_nonint: "(x :: real) \<noteq> of_int \<lfloor>x\<rfloor> \<Longrightarrow> \<lfloor>- x\<rfloor> = - \<lfloor>x\<rfloor> - 1"
  by linarith

lemma rne_minus: "rne (- x) = - rne x"
proof (cases "x = of_int \<lfloor>x\<rfloor>")
  case True
  then have "- x = of_int (- \<lfloor>x\<rfloor>)" by simp
  then show ?thesis using True rne_of_int by metis
next
  case False
  from floor_minus_nonint [OF this] show ?thesis by (auto simp: rne_def Let_def)
qed

section \<open>Rounding to a double\<close>

text \<open>The unit in the last place.\<close>

abbreviation ulp :: "real \<Rightarrow> real" where
  "ulp x \<equiv> 2 powr of_int (ulp_exp x)"

lemma powr_shift: "(2 :: real) powr of_int (a + int n) = 2 ^ n * 2 powr of_int a"
  by (simp add: powr_add powr_realpow)

lemma ulp_exp_bounds:
  assumes "0 < x"
  shows "2 ^ 52 * ulp x \<le> x" "x < 2 ^ 53 * ulp x"
proof -
  have "\<lfloor>log 2 x\<rfloor> = ulp_exp x + 52" using assms by (simp add: ulp_exp_def)
  then have "2 powr of_int (ulp_exp x + int 52) \<le> x \<and> x < 2 powr of_int (ulp_exp x + int 53)"
    using floor_log_eq_powr_iff [of x 2 "ulp_exp x + 52"] assms by (auto simp: add.commute)
  then show "2 ^ 52 * ulp x \<le> x" "x < 2 ^ 53 * ulp x" by (simp_all only: powr_shift)
qed

lemma ulp_exp_mono: "0 < x \<Longrightarrow> x \<le> y \<Longrightarrow> ulp_exp x \<le> ulp_exp y"
  by (auto simp: ulp_exp_def intro!: floor_mono)

lemma fl64_range:
  assumes "0 < x"
  shows "2 ^ 52 * ulp x \<le> fl64 x" "fl64 x \<le> 2 ^ 53 * ulp x"
proof -
  let ?m = "x * 2 powr (- of_int (ulp_exp x))"
  have u: "0 < ulp x" "?m = x / ulp x" by (simp_all add: powr_minus divide_inverse)
  have "of_int (2 ^ 52) \<le> ?m" "?m \<le> of_int (2 ^ 53)"
    using ulp_exp_bounds [OF assms] u by (simp_all add: le_divide_eq divide_le_eq)
  then have "(2 ^ 52 :: int) \<le> rne ?m \<and> rne ?m \<le> 2 ^ 53" by (rule rne_between)
  then have "of_int (2 ^ 52) \<le> (of_int (rne ?m) :: real)" "(of_int (rne ?m) :: real) \<le> of_int (2 ^ 53)"
    by (simp_all only: of_int_le_iff)
  then show "2 ^ 52 * ulp x \<le> fl64 x" "fl64 x \<le> 2 ^ 53 * ulp x"
    using u(1) assms by (simp_all add: fl64_def)
qed

lemma fl64_mono_pos:
  assumes "0 < x" "x \<le> y"
  shows "fl64 x \<le> fl64 y"
proof (cases "ulp_exp x = ulp_exp y")
  case True
  then show ?thesis using assms by (auto simp: fl64_def intro!: mult_right_mono rne_mono)
next
  case False
  then have "ulp_exp x + 1 \<le> ulp_exp y" using ulp_exp_mono [OF assms] by simp
  then have "(2 :: real) powr of_int (ulp_exp x + 1) \<le> ulp y"
    by (intro powr_mono) (linarith, simp)
  then have "2 * ulp x \<le> ulp y" by (simp add: powr_add)
  then show ?thesis using fl64_range(2) [OF assms(1)] fl64_range(1) [of y] assms by simp
qed

lemma fl64_0 [simp]: "fl64 0 = 0"
  by (simp add: fl64_def)

lemma fl64_minus: "fl64 (- x) = - fl64 x"
  by (simp add: fl64_def ulp_exp_def rne_minus)

lemma fl64_pos: "0 < x \<Longrightarrow> 0 < fl64 x"
  by (rule less_le_trans [OF _ fl64_range(1)]) simp_all

lemma fl64_mono: "x \<le> y \<Longrightarrow> fl64 x \<le> fl64 y"
proof -
  assume xy: "x \<le> y"
  consider "0 < x" | "y < 0" | "x \<le> 0" "0 \<le> y" by linarith
  then show ?thesis
  proof cases
    case 2
    then show ?thesis using fl64_mono_pos [of "- y" "- x"] xy by (simp add: fl64_minus)
  next
    case 3
    then show ?thesis using fl64_pos [of y] fl64_pos [of "- x"] by (cases "x = 0"; cases "y = 0") (auto simp: fl64_minus)
  qed (use fl64_mono_pos xy in blast)
qed

text \<open>Numbers with at most 53 significant bits are doubles.\<close>

lemma fl64_exact:
  assumes "x = of_int k / 2 ^ j" and "\<bar>k\<bar> \<le> 2 ^ 53"
  shows "fl64 x = x"
proof (cases "k = 0")
  case False
  let ?e = "ulp_exp x"
  have x0: "0 < \<bar>x\<bar>" using assms(1) False by simp
  have "\<exists>n. x * 2 powr (- of_int ?e) = of_int n"
  proof (cases "\<bar>k\<bar> = 2 ^ 53")
    case True
    have "\<bar>x\<bar> = 2 powr of_int (53 - int j)" using True assms(1) by (simp add: powr_diff powr_realpow abs_divide flip: of_int_abs)
    then have "log 2 \<bar>x\<bar> = of_int (53 - int j)" by simp
    then have e: "?e = 1 - int j" by (simp only: ulp_exp_def floor_of_int)
    have "x * 2 powr (- of_int ?e) = of_int k / 2" unfolding e by (simp add: assms(1) powr_diff powr_realpow)
    moreover have "even k" using True by (metis dvd_abs_iff even_numeral even_power zero_less_numeral)
    ultimately show ?thesis by (metis of_int_div_aux of_int_numeral real_of_int_div)
  next
    case False
    then have "\<bar>k\<bar> < 2 ^ 53" using assms(2) by simp
    then have "real_of_int \<bar>k\<bar> < of_int (2 ^ 53)" by (simp only: of_int_less_iff)
    then have "\<bar>x\<bar> < 2 powr of_int (53 - int j)"
      using assms(1) by (simp add: powr_diff powr_realpow divide_strict_right_mono)
    moreover have "2 powr of_int (?e + int 52) \<le> \<bar>x\<bar>"
      using ulp_exp_bounds(1) [OF x0] by (simp only: powr_shift) (simp add: ulp_exp_def)
    ultimately have "(2 :: real) powr of_int (?e + int 52) < 2 powr of_int (53 - int j)" by linarith
    then have "real_of_int (?e + int 52) < of_int (53 - int j)" using powr_less_cancel_iff [of 2] by simp
    then have "?e + int 52 < 53 - int j" by (simp only: of_int_less_iff)
    then have "?e = - int j - int (nat (- int j - ?e))" by simp
    then obtain n where n: "?e = - int j - int n" by blast
    have "x * 2 powr (- of_int ?e) = of_int (k * 2 ^ n)" unfolding n by (simp add: assms(1) powr_add powr_realpow)
    then show ?thesis by blast
  qed
  then obtain n where n: "x * 2 powr (- of_int ?e) = of_int n" by blast
  then have "fl64 x = of_int n * 2 powr of_int ?e" using x0 by (auto simp: fl64_def)
  also have "\<dots> = x" by (simp flip: n add: powr_minus)
  finally show ?thesis .
qed (simp add: assms(1))

lemma fl64_int: "\<bar>k\<bar> \<le> 2 ^ 53 \<Longrightarrow> fl64 (of_int k) = of_int k"
  by (rule fl64_exact [of _ k 0]) simp_all

lemma fl64_nat: "n \<le> 2 ^ 53 \<Longrightarrow> fl64 (of_nat n) = of_nat n"
  using fl64_int [of "int n"] by simp

section \<open>Rounding half away from zero\<close>

lemma math_Round_mono: "x \<le> y \<Longrightarrow> math_Round x \<le> math_Round y"
  by (auto simp: math_Round_def intro!: floor_mono) linarith

lemma math_Round_of_int [simp]: "math_Round (of_int n) = n"
  by (auto simp: math_Round_def)

end
