(* ===== verification/Economics.thy ===== *)
theory Economics
  imports Chain_State Tx_Verifier Doubles
begin

text \<open>
  The economic rules of the consensus engine (\<open>consensus/poa.go\<close>, \<open>consensus/checkpoint.go\<close> and the height
  policies of \<open>consensus/lpod.go\<close> and \<open>consensus/sale.go\<close>): the staking pool and the reward schedule, the base fee and
  its adjustment, the split of fees into burn and tip, the coinbase policy, the fee policy of a block, the guardian
  allocation and the uniqueness of key images in a block.  The settlement check of the liquidity reserve after its
  activation (\<open>prepareLPoD\<close> and the payout plan) is the argument \<open>lpod\<close>.  A dereference of the missing payload of a
  contract transaction, which panics, is the error \<open>EcNilAVM\<close>.
\<close>

section \<open>Definitions\<close>

subsection \<open>Configuration and state\<close>

text \<open>Optional migrations are known by their activation heights.\<close>

record econ_cfg =
  ec_BlockRewardNAPR :: u64
  ec_StakingPoolNAPR :: u64
  ec_TailRewardNAPR :: u64
  ec_RingCTV4ActivationHeight :: u64
  ec_RingCTCLSAGActivationHeight :: u64
  ec_AVMActivationHeight :: u64
  ec_AVMGasBurnActivationHeight :: u64
  ec_RewardAuthorizationActivationHeight :: u64
  ec_GuardianFundActivationHeight :: u64
  ec_GuardianFundChainAnchor :: hash32
  ec_LPoDMigration :: "u64 option"
  ec_SaleMigration :: "u64 option"

text \<open>What the store keeps for the pool: the persisted balance, the validator balance of the reserve checkpoint
  (\<open>None\<close> when it cannot be loaded or has no allocation), and whether reading and writing work.\<close>

record pool_store =
  ps_remaining :: "u64 option"
  ps_lpod :: "u64 option"
  ps_readable :: bool
  ps_writable :: bool

text \<open>The balance of the pool is an \<open>int64\<close>, kept as its bits; \<open>-1\<close> means that there is no pool.\<close>

record econ_state =
  es_chain :: Chain
  es_baseFee :: u64
  es_stakingPoolInit :: u64
  es_stakingPoolRemaining :: u64
  es_tailRewardNAPR :: u64
  es_store :: "pool_store option"

datatype econ_error =
    EcNilAVM
  | EcRewardOverflow
  | EcCoinbaseOrder nat
  | EcTooManyCoinbases nat
  | EcRewardEraEnded
  | EcCoinbaseCount nat
  | EcReward reward_error
  | EcRewardAmount u64 u64
  | EcBaseFeeMissing
  | EcBaseFeeMismatch u64 u64
  | EcBlockGas nat
  | EcGasFeeOverflow nat
  | EcBurnOverflow nat
  | EcFeeTooLow nat
  | EcTotalFeesOverflow
  | EcTotalMinimumOverflow
  | EcLpodInactive
  | EcLpodSettlement
  | EcGuardianAnchorUnused
  | EcGuardianNoGenesis
  | EcGuardianAnchor
  | EcGuardianHeight nat
  | EcGuardianCanonical nat
  | EcGuardianMissing
  | EcSaleInactive
  | EcSale sale_tx_error
  | EcVersion policy_error
  | EcDuplicateKeyImage nat nat

definition defaultTailRewardNAPR :: u64 where "defaultTailRewardNAPR = 100000000"
definition DefaultPoolBlockRewardNAPR :: u64 where "DefaultPoolBlockRewardNAPR = 300000000"
definition DefaultBlockRewardNAPR :: u64 where "DefaultBlockRewardNAPR = 500000000"
definition AuthorizedBlockRewardNAPR :: u64 where "AuthorizedBlockRewardNAPR = 10000000"
definition mainnetRewardAuthorizationHeight :: u64 where "mainnetRewardAuthorizationHeight = 1750000"
definition mainnetRewardCutoverHeight :: u64 where "mainnetRewardCutoverHeight = 2394572"
definition mainnetRewardGenesisHash :: hash32 where
  "mainnetRewardGenesisHash = 0xc8fde86c1764a5603eabd6d9c56c9e47b4cf06d88d299a55665694473e2c512f"
definition HalvingIntervalBlocks :: u64 where "HalvingIntervalBlocks = 21024000"
definition maxCoinbasesPerBlock :: nat where "maxCoinbasesPerBlock = 11"
definition AVMMaxBlockGas :: u64 where "AVMMaxBlockGas = 10000000"

lemmas econ_constants = defaultTailRewardNAPR_def DefaultPoolBlockRewardNAPR_def DefaultBlockRewardNAPR_def
  AuthorizedBlockRewardNAPR_def mainnetRewardAuthorizationHeight_def mainnetRewardCutoverHeight_def HalvingIntervalBlocks_def

definition lpodActive :: "econ_cfg \<Rightarrow> u64 \<Rightarrow> bool" where
  "lpodActive C height = (case ec_LPoDMigration C of None \<Rightarrow> False | Some m \<Rightarrow> m \<le> height)"

subsection \<open>Rewards\<close>

definition historicalMainnetReward :: "hash32 \<Rightarrow> u64 \<Rightarrow> u64 \<Rightarrow> bool" where
  "historicalMainnetReward genesisHash activation height \<longleftrightarrow>
     genesisHash = mainnetRewardGenesisHash \<and> activation = mainnetRewardAuthorizationHeight \<and>
     mainnetRewardAuthorizationHeight \<le> height \<and> height < mainnetRewardCutoverHeight"

definition usesHistoricalMainnetReward :: "lib \<Rightarrow> econ_cfg \<Rightarrow> econ_state \<Rightarrow> u64 \<Rightarrow> bool" where
  "usesHistoricalMainnetReward K C S height =
     (if ec_RewardAuthorizationActivationHeight C \<noteq> mainnetRewardAuthorizationHeight \<or>
         height < mainnetRewardAuthorizationHeight \<or> mainnetRewardCutoverHeight \<le> height then False
      else case ch_genesis (es_chain S) of None \<Rightarrow> False
      | Some g \<Rightarrow> historicalMainnetReward (block_Hash K g) (ec_RewardAuthorizationActivationHeight C) height)"

definition blockRewardAtHeight :: "u64 \<Rightarrow> u64 \<Rightarrow> u64" where
  "blockRewardAtHeight base height =
     (let era = height div HalvingIntervalBlocks
      in if 64 \<le> era then 0 else drop_bit (unat era) base)"

definition StakingPoolRemaining :: "econ_state \<Rightarrow> u64" where
  "StakingPoolRemaining S =
     (if sint (es_stakingPoolRemaining S) < 0 then max_u64 else es_stakingPoolRemaining S)"

datatype reward_mode = LegacyMint | TailEmission | Pool

definition RewardMode :: "econ_state \<Rightarrow> reward_mode" where
  "RewardMode S =
     (if sint (es_stakingPoolRemaining S) < 0 then LegacyMint
      else if sint (es_stakingPoolRemaining S) = 0 then TailEmission else Pool)"

definition blockRewardNAPRAt :: "econ_cfg \<Rightarrow> econ_state \<Rightarrow> u64 \<Rightarrow> u64" where
  "blockRewardNAPRAt C S height =
     (let base = ec_BlockRewardNAPR C;
          base = (if base = 0 then (if 0 < es_stakingPoolInit S then DefaultPoolBlockRewardNAPR else DefaultBlockRewardNAPR)
                  else base);
          remaining = es_stakingPoolRemaining S
      in if 0 < es_stakingPoolInit S \<and> remaining = 0 then es_tailRewardNAPR S
      else if 0 < es_stakingPoolInit S then (if 0 < sint remaining \<and> remaining < base then remaining else base)
      else blockRewardAtHeight base height)"

definition CurrentBlockRewardNAPR :: "lib \<Rightarrow> econ_cfg \<Rightarrow> econ_state \<Rightarrow> u64" where
  "CurrentBlockRewardNAPR K C S =
     (let height = chain_Height (es_chain S) + 1; activation = ec_RewardAuthorizationActivationHeight C
      in if 0 < activation \<and> activation \<le> height \<and> \<not> lpodActive C height then
           (if usesHistoricalMainnetReward K C S height then DefaultPoolBlockRewardNAPR
            else blockRewardAtHeight AuthorizedBlockRewardNAPR height)
         else blockRewardNAPRAt C S height)"

text \<open>One uncontended round of the compare-and-swap loop.\<close>

definition DecrementPool :: "econ_cfg \<Rightarrow> u64 \<Rightarrow> econ_state \<Rightarrow> econ_state" where
  "DecrementPool C height S =
     (case (if lpodActive C height then es_store S else None) of
        Some st \<Rightarrow> (case ps_lpod st of None \<Rightarrow> S | Some v \<Rightarrow> S\<lparr>es_stakingPoolRemaining := v\<rparr>)
      | None \<Rightarrow>
          if es_stakingPoolInit S = 0 then S
          else if 0 < ec_RewardAuthorizationActivationHeight C \<and> ec_RewardAuthorizationActivationHeight C \<le> height then S
          else
            let amount = (if ec_BlockRewardNAPR C = 0 then DefaultPoolBlockRewardNAPR else ec_BlockRewardNAPR C);
                cur = es_stakingPoolRemaining S
            in if sint cur \<le> 0 then S
               else
                 let next = cur - (if cur < amount then cur else amount);
                     store' = map_option (\<lambda>st. if ps_writable st then st\<lparr>ps_remaining := Some next\<rparr> else st) (es_store S)
                 in S\<lparr>es_stakingPoolRemaining := next, es_store := store'\<rparr>)"

text \<open>The part of \<open>NewEngine\<close> that sets up the pool.\<close>

definition init_pool :: "econ_cfg \<Rightarrow> econ_state \<Rightarrow> econ_state" where
  "init_pool C S =
     (if ec_StakingPoolNAPR C = 0 then S\<lparr>es_stakingPoolRemaining := -1\<rparr>
      else
        let S = S\<lparr>es_stakingPoolInit := ec_StakingPoolNAPR C,
                  es_tailRewardNAPR := (if ec_TailRewardNAPR C = 0 then defaultTailRewardNAPR else ec_TailRewardNAPR C)\<rparr>
        in case es_store S of None \<Rightarrow> S\<lparr>es_stakingPoolRemaining := ec_StakingPoolNAPR C\<rparr>
        | Some st \<Rightarrow>
            if \<not> ps_readable st then S\<lparr>es_stakingPoolRemaining := ec_StakingPoolNAPR C\<rparr>
            else case ps_remaining st of Some rem \<Rightarrow> S\<lparr>es_stakingPoolRemaining := rem\<rparr>
            | None \<Rightarrow> S\<lparr>es_stakingPoolRemaining := ec_StakingPoolNAPR C,
                es_store := Some (if ps_writable st then st\<lparr>ps_remaining := Some (ec_StakingPoolNAPR C)\<rparr> else st)\<rparr>)"

subsection \<open>The base fee\<close>

definition targetBlockSizeBytes :: nat where "targetBlockSizeBytes = 500000"
definition baseFeeMaxChangePct :: real where "baseFeeMaxChangePct = 1 / 8"

definition base_fee_delta :: "nat \<Rightarrow> nat \<Rightarrow> real" where
  "base_fee_delta current blockSizeBytes =
     (let diff = fl64 (fl64 (real blockSizeBytes) - real targetBlockSizeBytes)
      in fl64 (fl64 (fl64 (real current) * fl64 (diff / real targetBlockSizeBytes)) * baseFeeMaxChangePct))"

definition nextBaseFee :: "u64 \<Rightarrow> nat \<Rightarrow> u64" where
  "nextBaseFee current blockSizeBytes =
     (let current = (if current = 0 then InitialBaseFeePerByte else current);
          next = current + int64_of (math_Round (base_fee_delta (unat current) blockSizeBytes))
      in if sint next < sint MinBaseFeePerByte then MinBaseFeePerByte else next)"

definition expectedBaseFee :: "econ_state \<Rightarrow> u64" where
  "expectedBaseFee S = (if es_baseFee S = 0 then InitialBaseFeePerByte else es_baseFee S)"

definition expectedBaseFeeAt :: "econ_cfg \<Rightarrow> econ_state \<Rightarrow> u64 \<Rightarrow> u64" where
  "expectedBaseFeeAt C S height =
     (if 0 < ec_RingCTV4ActivationHeight C \<and> height = ec_RingCTV4ActivationHeight C then InitialBaseFeePerByte
      else case (if lpodActive C height then ch_tip (es_chain S) else None) of
        Some parent \<Rightarrow>
          (if height_of parent + 1 = height then nextBaseFee (bh_BaseFee (blk_Header parent)) (block_Size parent)
           else expectedBaseFee S)
      | None \<Rightarrow> expectedBaseFee S)"

text \<open>The base fee that \<open>NewEngine\<close> reconstructs from the tip.\<close>

definition init_base_fee :: "Chain \<Rightarrow> u64" where
  "init_base_fee c =
     (case ch_tip c of None \<Rightarrow> InitialBaseFeePerByte
      | Some tip \<Rightarrow>
          if 0 < height_of tip then
            (let f = bh_BaseFee (blk_Header tip)
             in nextBaseFee (if f = 0 then InitialBaseFeePerByte else f) (block_Size tip))
          else InitialBaseFeePerByte)"

subsection \<open>Burned fees and tips\<close>

text \<open>The part of a transaction's fee that is burned, and the fee required before any tip: \<open>None\<close> on overflow.\<close>

definition add_capped :: "u64 \<Rightarrow> u64 \<times> u64 \<Rightarrow> (u64 \<times> u64) option" where
  "add_capped x br = (case br of (burn, req) \<Rightarrow>
     if max_u64 - x < burn \<or> max_u64 - x < req then None else Some (burn + x, req + x))"

definition fee_parts :: "Transaction \<Rightarrow> u64 \<Rightarrow> bool \<Rightarrow> econ_error + (u64 \<times> u64) option" where
  "fee_parts tx baseFee burnAVMGas =
     (let minFee = MinFeeAt tx baseFee;
          burnForTx = (if tx_Fee tx < minFee then tx_Fee tx else minFee)
      in case (case BurnAmount tx of (intentionalBurn, isBurn) \<Rightarrow>
                 if isBurn then add_capped intentionalBurn (burnForTx, minFee) else Some (burnForTx, minFee))
         of None \<Rightarrow> Inr None
         | Some br \<Rightarrow>
             if burnAVMGas \<and> IsAVM tx then
               (case tx_AVM tx of None \<Rightarrow> Inl EcNilAVM
                | Some p \<Rightarrow> (case AVMGasFee (avm_GasLimit p) of None \<Rightarrow> Inr None | Some gasFee \<Rightarrow> Inr (add_capped gasFee br)))
             else Inr (Some br))"

fun fee_loop :: "u64 \<Rightarrow> bool \<Rightarrow> Transaction list \<Rightarrow> u64 \<Rightarrow> u64 \<Rightarrow> econ_error + u64 \<times> u64" where
  "fee_loop baseFee burnAVMGas [] burned tipTotal = Inr (burned, tipTotal)"
| "fee_loop baseFee burnAVMGas (tx # txs) burned tipTotal =
     (if IsCoinbase tx \<or> IsStake tx then fee_loop baseFee burnAVMGas txs burned tipTotal
      else case fee_parts tx baseFee burnAVMGas of Inl e \<Rightarrow> Inl e
      | Inr None \<Rightarrow> Inr (max_u64, 0)
      | Inr (Some (burnForTx, requiredFee)) \<Rightarrow>
          let tipTotal' = (if requiredFee < tx_Fee tx then tipTotal + (tx_Fee tx - requiredFee) else tipTotal)
          in if max_u64 - burnForTx < burned then Inr (max_u64, tipTotal')
             else fee_loop baseFee burnAVMGas txs (burned + burnForTx) tipTotal')"

definition blockFeeStatsWithAVMGasBurn :: "Transaction list \<Rightarrow> u64 \<Rightarrow> bool \<Rightarrow> econ_error + u64 \<times> u64" where
  "blockFeeStatsWithAVMGasBurn txs baseFee burnAVMGas = fee_loop baseFee burnAVMGas txs 0 0"

definition blockFeeStats :: "Transaction list \<Rightarrow> u64 \<Rightarrow> econ_error + u64 \<times> u64" where
  "blockFeeStats txs baseFee = blockFeeStatsWithAVMGasBurn txs baseFee False"

definition blockFeeStatsAtHeight :: "econ_cfg \<Rightarrow> Transaction list \<Rightarrow> u64 \<Rightarrow> u64 \<Rightarrow> econ_error + u64 \<times> u64" where
  "blockFeeStatsAtHeight C txs baseFee height =
     blockFeeStatsWithAVMGasBurn txs baseFee
       (0 < ec_AVMGasBurnActivationHeight C \<and> ec_AVMGasBurnActivationHeight C \<le> height)"

definition authorizedRewardAmount :: "lib \<Rightarrow> econ_cfg \<Rightarrow> econ_state \<Rightarrow> u64 \<Rightarrow> Transaction list \<Rightarrow> econ_error + u64" where
  "authorizedRewardAmount K C S height txs =
     (if usesHistoricalMainnetReward K C S height then Inr DefaultPoolBlockRewardNAPR
      else
        let base = blockRewardAtHeight AuthorizedBlockRewardNAPR height
        in case blockFeeStatsAtHeight C txs (expectedBaseFeeAt C S height) height of Inl e \<Rightarrow> Inl e
        | Inr (_, tips) \<Rightarrow> if max_u64 - tips < base then Inl EcRewardOverflow else Inr (base + tips))"

definition expectedAuthorizedRewardAmount :: "lib \<Rightarrow> econ_cfg \<Rightarrow> econ_state \<Rightarrow> Block \<Rightarrow> econ_error + u64" where
  "expectedAuthorizedRewardAmount K C S b = authorizedRewardAmount K C S (height_of b) (blk_Txs b)"

subsection \<open>Coinbase policy\<close>

definition is_mint :: "Transaction \<Rightarrow> bool" where
  "is_mint tx \<longleftrightarrow> IsCoinbase tx \<and> \<not> IsStake tx"

definition coinbase_step :: "nat \<times> Transaction \<Rightarrow> nat \<times> bool \<Rightarrow> econ_error + nat \<times> bool" where
  "coinbase_step = (\<lambda>(i, tx) (cnt, seenNonCoinbase).
     if is_mint tx then (if seenNonCoinbase then Inl (EcCoinbaseOrder i) else Inr (cnt + 1, seenNonCoinbase))
     else Inr (cnt, True))"

definition validateCoinbasePolicy :: "Block \<Rightarrow> econ_error + unit" where
  "validateCoinbasePolicy b =
     (case foldE coinbase_step (enumerate 0 (blk_Txs b)) (0, False) of Inl e \<Rightarrow> Inl e
      | Inr (cnt, _) \<Rightarrow> if maxCoinbasesPerBlock < cnt then Inl (EcTooManyCoinbases cnt) else Inr ())"

definition engine_validateLPoD :: "econ_cfg \<Rightarrow> (Block \<Rightarrow> econ_error + unit) \<Rightarrow> Block \<Rightarrow> econ_error + unit" where
  "engine_validateLPoD C lpod b =
     (if \<not> lpodActive C (height_of b) then
        (if \<exists>tx \<in> set (blk_Txs b). IsLPoD tx \<or> IsLPoDPosition tx \<or> IsLPoDPayout tx then Inl EcLpodInactive else Inr ())
      else lpod b)"

definition engine_validateCoinbasePolicy :: "lib \<Rightarrow> econ_cfg \<Rightarrow> econ_state \<Rightarrow> (Block \<Rightarrow> econ_error + unit) \<Rightarrow> Block
    \<Rightarrow> econ_error + unit" where
  "engine_validateCoinbasePolicy K C S lpod b =
     (if lpodActive C (height_of b) then engine_validateLPoD C lpod b
      else case validateCoinbasePolicy b of Inl e \<Rightarrow> Inl e | Inr _ \<Rightarrow>
      let coinbases = filter is_mint (blk_Txs b); rewardActivation = ec_RewardAuthorizationActivationHeight C
      in if 0 < rewardActivation \<and> rewardActivation \<le> height_of b then
           (case expectedAuthorizedRewardAmount K C S b of Inl e \<Rightarrow> Inl e
            | Inr expectedAmount \<Rightarrow>
                if expectedAmount = 0 then (if coinbases \<noteq> [] then Inl EcRewardEraEnded else Inr ())
                else case coinbases of
                  [tx] \<Rightarrow>
                    (case ValidateAuthorizedRewardTx K tx (height_of b) (prev_of b) (bh_ValidatorPub (blk_Header b)) of
                       Inl e \<Rightarrow> Inl (EcReward e)
                     | Inr auth \<Rightarrow> if ra_Amount auth \<noteq> expectedAmount then Inl (EcRewardAmount (ra_Amount auth) expectedAmount)
                                  else Inr ())
                | _ \<Rightarrow> Inl (EcCoinbaseCount (length coinbases)))
         else Inr ())"

subsection \<open>Fee policy of a block\<close>

text \<open>The running totals of fees, minimum fees and contract gas.\<close>

definition avm_required :: "nat \<Rightarrow> Transaction \<Rightarrow> u64 \<Rightarrow> u64 \<Rightarrow> econ_error + u64 \<times> u64" where
  "avm_required i tx minFee totalAVMGas =
     (if IsAVM tx then
        (case tx_AVM tx of None \<Rightarrow> Inl EcNilAVM
         | Some p \<Rightarrow>
             if AVMMaxBlockGas - totalAVMGas < avm_GasLimit p then Inl (EcBlockGas i)
             else case AVMGasFee (avm_GasLimit p) of None \<Rightarrow> Inl (EcGasFeeOverflow i)
             | Some gasFee \<Rightarrow> if max_u64 - gasFee < minFee then Inl (EcGasFeeOverflow i)
                             else Inr (minFee + gasFee, totalAVMGas + avm_GasLimit p))
      else Inr (minFee, totalAVMGas))"

definition burn_required :: "nat \<Rightarrow> Transaction \<Rightarrow> u64 \<Rightarrow> econ_error + u64" where
  "burn_required i tx requiredFee =
     (case BurnAmount tx of (intentionalBurn, isBurn) \<Rightarrow>
        if isBurn then (if max_u64 - intentionalBurn < requiredFee then Inl (EcBurnOverflow i)
                        else Inr (requiredFee + intentionalBurn))
        else Inr requiredFee)"

definition fee_exempt :: "Transaction \<Rightarrow> bool" where
  "fee_exempt tx \<longleftrightarrow> IsCoinbase tx \<or> IsStake tx \<or> IsLPoD tx \<or> IsLPoDPosition tx \<or> IsLPoDPayout tx \<or> IsSale tx"

definition economics_step :: "u64 \<Rightarrow> nat \<times> Transaction \<Rightarrow> u64 \<times> u64 \<times> u64 \<Rightarrow> econ_error + u64 \<times> u64 \<times> u64" where
  "economics_step baseFee = (\<lambda>(i, tx) (totalFees, totalMinimum, totalAVMGas).
     if fee_exempt tx then Inr (totalFees, totalMinimum, totalAVMGas)
     else
       let minFee = MinFeeAt tx baseFee
       in case avm_required i tx minFee totalAVMGas of Inl e \<Rightarrow> Inl e
       | Inr (requiredFee, totalAVMGas) \<Rightarrow>
       (case burn_required i tx requiredFee of Inl e \<Rightarrow> Inl e
        | Inr requiredFee \<Rightarrow>
            if tx_Fee tx < requiredFee then Inl (EcFeeTooLow i)
            else if max_u64 - tx_Fee tx < totalFees then Inl EcTotalFeesOverflow
            else if max_u64 - minFee < totalMinimum then Inl EcTotalMinimumOverflow
            else Inr (totalFees + tx_Fee tx, totalMinimum + minFee, totalAVMGas)))"

definition validateBlockEconomics :: "econ_cfg \<Rightarrow> econ_state \<Rightarrow> Block \<Rightarrow> econ_error + unit" where
  "validateBlockEconomics C S b =
     (let activation = ec_RingCTV4ActivationHeight C; fee = bh_BaseFee (blk_Header b) in
      if 0 < activation \<and> height_of b < activation then Inr ()
      else
        let expected = expectedBaseFeeAt C S (height_of b)
        in if fee = 0 then Inl EcBaseFeeMissing
           else if fee \<noteq> expected then Inl (EcBaseFeeMismatch fee expected)
           else case foldE (economics_step expected) (enumerate 0 (blk_Txs b)) (0, 0, 0) of Inl e \<Rightarrow> Inl e
           | Inr _ \<Rightarrow> Inr ())"

subsection \<open>The guardian allocation and transaction versions\<close>

definition validateGuardianConfig :: "lib \<Rightarrow> econ_cfg \<Rightarrow> econ_state \<Rightarrow> econ_error + unit" where
  "validateGuardianConfig K C S =
     (let active = ec_GuardianFundActivationHeight C; anchor = ec_GuardianFundChainAnchor C in
      if active = 0 then (if anchor \<noteq> 0 then Inl EcGuardianAnchorUnused else Inr ())
      else case ch_genesis (es_chain S) of None \<Rightarrow> Inl EcGuardianNoGenesis
      | Some g \<Rightarrow> if anchor = 0 \<or> block_Hash K g \<noteq> anchor then Inl EcGuardianAnchor else Inr ())"

definition guardian_step :: "lib \<Rightarrow> jsonlib \<Rightarrow> econ_cfg \<Rightarrow> Block \<Rightarrow> nat \<times> Transaction \<Rightarrow> nat \<Rightarrow> econ_error + nat" where
  "guardian_step K J C b = (\<lambda>(i, tx) cnt.
     let active = ec_GuardianFundActivationHeight C in
     if \<not> IsGuardianFund tx then Inr cnt
     else if active = 0 \<or> height_of b \<noteq> active then Inl (EcGuardianHeight i)
     else
       let expectedIndex = (case blk_Txs b of [] \<Rightarrow> 0 | t0 # _ \<Rightarrow> if IsCoinbase t0 then 1 else 0)
       in if i \<noteq> expectedIndex \<or> \<not> GuardianFundTxAt K J tx (ec_GuardianFundChainAnchor C) active
          then Inl (EcGuardianCanonical i) else Inr (cnt + 1))"

definition validateGuardianFund :: "lib \<Rightarrow> jsonlib \<Rightarrow> econ_cfg \<Rightarrow> econ_state \<Rightarrow> Block \<Rightarrow> econ_error + unit" where
  "validateGuardianFund K J C S b =
     (case validateGuardianConfig K C S of Inl e \<Rightarrow> Inl e | Inr _ \<Rightarrow>
      (case foldE (guardian_step K J C b) (enumerate 0 (blk_Txs b)) 0 of Inl e \<Rightarrow> Inl e
       | Inr cnt \<Rightarrow>
           if 0 < ec_GuardianFundActivationHeight C \<and> height_of b = ec_GuardianFundActivationHeight C \<and> cnt \<noteq> 1
           then Inl EcGuardianMissing else Inr ()))"

definition validateVersionWithSales :: "lib \<Rightarrow> jsonlib \<Rightarrow> econ_cfg \<Rightarrow> Transaction \<Rightarrow> u64 \<Rightarrow> u64 \<Rightarrow> econ_error + unit" where
  "validateVersionWithSales K J C tx height activation =
     (if IsSale tx then
        (if (case ec_SaleMigration C of None \<Rightarrow> True | Some m \<Rightarrow> height < m) then Inl EcSaleInactive
         else case tx_SaleAuthorization K tx of Inl e \<Rightarrow> Inl (EcSale e) | Inr _ \<Rightarrow> Inr ())
      else case ValidateTxVersionAtHeight K J tx height activation (ec_RingCTCLSAGActivationHeight C) (ec_AVMActivationHeight C) of
        Inl e \<Rightarrow> Inl (EcVersion e) | Inr _ \<Rightarrow> Inr ())"

definition validateRingCTV4Activation :: "lib \<Rightarrow> jsonlib \<Rightarrow> econ_cfg \<Rightarrow> econ_state \<Rightarrow> (Block \<Rightarrow> econ_error + unit) \<Rightarrow> Block
    \<Rightarrow> econ_error + unit" where
  "validateRingCTV4Activation K J C S lpod b =
     (case engine_validateLPoD C lpod b of Inl e \<Rightarrow> Inl e | Inr _ \<Rightarrow>
      (case validateGuardianFund K J C S b of Inl e \<Rightarrow> Inl e | Inr _ \<Rightarrow>
       foldE (\<lambda>tx _. validateVersionWithSales K J C tx (height_of b) (ec_RingCTV4ActivationHeight C)) (blk_Txs b) ()))"

subsection \<open>Key images of a block and checkpoints\<close>

definition image_step :: "nat \<times> key_image \<Rightarrow> (key_image \<rightharpoonup> nat) \<Rightarrow> econ_error + (key_image \<rightharpoonup> nat)" where
  "image_step = (\<lambda>(i, ki) seen. case seen ki of Some first \<Rightarrow> Inl (EcDuplicateKeyImage i first) | None \<Rightarrow> Inr (seen(ki \<mapsto> i)))"

definition tx_images_step :: "nat \<times> Transaction \<Rightarrow> (key_image \<rightharpoonup> nat) \<Rightarrow> econ_error + (key_image \<rightharpoonup> nat)" where
  "tx_images_step = (\<lambda>(i, tx) seen. if IsCoinbase tx \<or> IsStake tx then Inr seen
     else foldE image_step (map (Pair i) (KeyImages tx)) seen)"

definition blockKeyImageCheck :: "Block \<Rightarrow> econ_error + unit" where
  "blockKeyImageCheck b =
     (case foldE tx_images_step (enumerate 0 (blk_Txs b)) Map.empty of Inl e \<Rightarrow> Inl e | Inr _ \<Rightarrow> Inr ())"

definition CheckpointInterval :: u64 where "CheckpointInterval = 1000"

definition IsCheckpoint :: "u64 \<Rightarrow> bool" where
  "IsCheckpoint height \<longleftrightarrow> 0 < height \<and> height mod CheckpointInterval = 0"

definition NextCheckpoint :: "u64 \<Rightarrow> u64" where
  "NextCheckpoint h =
     (if h = 0 then CheckpointInterval
      else let rem = h mod CheckpointInterval in if rem = 0 then h else h + (CheckpointInterval - rem))"

definition PrevCheckpoint :: "u64 \<Rightarrow> u64" where
  "PrevCheckpoint h = (h div CheckpointInterval) * CheckpointInterval"

section \<open>Fees\<close>

text \<open>What a transaction owes beside the minimum fee: its intentional burn and its contract gas.\<close>

definition burn_due :: "Transaction \<Rightarrow> nat" where
  "burn_due tx = (case BurnAmount tx of (amount, isBurn) \<Rightarrow> if isBurn then unat amount else 0)"

definition gas_due :: "Transaction \<Rightarrow> nat" where
  "gas_due tx = (case tx_AVM tx of Some p \<Rightarrow> if IsAVM tx then unat (avm_GasLimit p) * 10 else 0 | None \<Rightarrow> 0)"

definition fee_paid :: "u64 \<Rightarrow> Transaction \<Rightarrow> bool" where
  "fee_paid baseFee tx \<longleftrightarrow> (IsAVM tx \<longrightarrow> tx_AVM tx \<noteq> None) \<and>
     unat (MinFeeAt tx baseFee) + burn_due tx + gas_due tx \<le> unat (tx_Fee tx)"

text \<open>The fees of the transactions that pay one.\<close>

definition payers :: "Transaction list \<Rightarrow> Transaction list" where
  "payers txs = filter (\<lambda>tx. \<not> (IsCoinbase tx \<or> IsStake tx)) txs"

definition fees_of :: "Transaction list \<Rightarrow> nat" where
  "fees_of txs = sum_list (map (unat \<circ> tx_Fee) (payers txs))"

lemma AVMGasFee_unat: "AVMGasFee g = Some f \<Longrightarrow> unat f = unat g * 10"
proof -
  assume a: "AVMGasFee g = Some f"
  then have "unat g \<le> unat (max_u64 div 10)" "f = g * 10"
    by (auto simp: AVMGasFee_def AVMGasPriceNAPR_def word_le_nat_alt not_less split: if_splits)
  then show ?thesis by (simp add: max_u64_def unat_word_ariths)
qed

lemma AVMGasFee_ok: "unat g * 10 < 2 ^ 64 \<Longrightarrow> AVMGasFee g = Some (g * 10)"
  by (auto simp: AVMGasFee_def AVMGasPriceNAPR_def word_less_nat_alt max_u64_def)

lemma add_capped_ok:
  assumes "unat b \<le> unat r" "unat r + unat x < 2 ^ 64"
  shows "add_capped x (b, r) = Some (b + x, r + x)"
  using assms by (simp add: add_capped_def u64_overflow_iff)

lemma economics_step_fee:
  assumes "economics_step baseFee (i, tx) s = Inr s'" and "\<not> fee_exempt tx"
  shows "fee_paid baseFee tx \<and> unat (fst s') = unat (fst s) + unat (tx_Fee tx)"
proof -
  obtain f m g where s: "s = (f, m, g)" by (cases s) auto
  obtain r g' where r: "avm_required i tx (MinFeeAt tx baseFee) g = Inr (r, g')"
    using assms by (auto simp: s economics_step_def Let_def split: sum.splits)
  obtain q where q: "burn_required i tx r = Inr q"
    using assms r by (auto simp: s economics_step_def Let_def split: sum.splits)
  have rest: "q \<le> tx_Fee tx" "unat (tx_Fee tx) + unat f < 2 ^ 64" "fst s' = f + tx_Fee tx"
    using assms r q by (auto simp: s economics_step_def Let_def u64_overflow_iff not_less not_le split: if_splits)
  have "(IsAVM tx \<longrightarrow> tx_AVM tx \<noteq> None) \<and> unat r = unat (MinFeeAt tx baseFee) + gas_due tx"
    using r by (auto simp: avm_required_def gas_due_def u64_overflow_iff not_le unat_add_u64 AVMGasFee_unat
        split: if_splits option.splits)
  moreover have "unat q = unat r + burn_due tx"
    using q by (auto simp: burn_required_def burn_due_def u64_overflow_iff not_le unat_add_u64 split: if_splits prod.splits)
  ultimately show ?thesis
    using rest by (auto simp: fee_paid_def s word_le_nat_alt unat_add_u64)
qed

lemma fee_exempt_step: "fee_exempt tx \<Longrightarrow> economics_step baseFee (i, tx) s = Inr s"
  by (cases s) (simp add: economics_step_def)

interpretation fee_totals: stepwise_sum "economics_step baseFee" "\<lambda>_. True" "\<lambda>s. unat (fst s)"
  "\<lambda>x. if fee_exempt (snd x) then 0 else unat (tx_Fee (snd x))"
proof
  fix x s s' assume "economics_step baseFee x s = Inr s'"
  then show "unat (fst s') = unat (fst s) + (if fee_exempt (snd x) then 0 else unat (tx_Fee (snd x)))"
    using economics_step_fee [of baseFee "fst x" "snd x" s s'] fee_exempt_step [of "snd x" baseFee "fst x" s]
    by (cases x) auto
qed simp

lemma foldE_step_ok: "foldE f xs s = Inr t \<Longrightarrow> x \<in> set xs \<Longrightarrow> \<exists>a b. f x a = Inr b"
  by (induction xs arbitrary: s) (auto split: sum.splits)

lemma enumerate_elem: "tx \<in> set txs \<Longrightarrow> \<exists>i. (i, tx) \<in> set (enumerate n txs)"
  by (metis in_set_impl_in_set_zip2 enumerate_eq_zip length_upt add_diff_cancel_left')

lemma economics_paid:
  assumes "foldE (economics_step baseFee) (enumerate n txs) s = Inr s'" and "tx \<in> set txs" and "\<not> fee_exempt tx"
  shows "fee_paid baseFee tx"
proof -
  obtain i where "(i, tx) \<in> set (enumerate n txs)" using enumerate_elem [OF assms(2)] by blast
  from foldE_step_ok [OF assms(1) this] show ?thesis using economics_step_fee assms(3) by blast
qed

text \<open>What is to be burned of a fee: the minimum fee, the intentional burn and, once that rule is active, the gas.\<close>

definition burned_due :: "u64 \<Rightarrow> bool \<Rightarrow> Transaction \<Rightarrow> nat" where
  "burned_due baseFee burnGas tx =
     (if fee_exempt tx then 0 else unat (MinFeeAt tx baseFee) + burn_due tx + (if burnGas then gas_due tx else 0))"

text \<open>A fee splits into that burn and a tip without loss.\<close>

definition splits_exactly :: "u64 \<Rightarrow> bool \<Rightarrow> Transaction \<Rightarrow> bool" where
  "splits_exactly baseFee burnGas tx \<longleftrightarrow>
     (\<exists>b r. fee_parts tx baseFee burnGas = Inr (Some (b, r)) \<and> unat b + (unat (tx_Fee tx) - unat r) = unat (tx_Fee tx) \<and>
        unat b = burned_due baseFee burnGas tx)"

lemma fee_paid_splits:
  assumes "fee_paid baseFee tx" and ex: "\<not> fee_exempt tx"
  shows "splits_exactly baseFee burnGas tx"
proof -
  let ?m = "MinFeeAt tx baseFee"
  define r where "r = (if snd (BurnAmount tx) then ?m + fst (BurnAmount tx) else ?m)"
  have lim: "unat ?m + burn_due tx + gas_due tx < 2 ^ 64" and m: "\<not> tx_Fee tx < ?m"
    using assms unat_u64_lt [of "tx_Fee tx"] by (auto simp: fee_paid_def word_less_nat_alt)
  have r: "(case BurnAmount tx of (a, isBurn) \<Rightarrow> if isBurn then add_capped a (?m, ?m) else Some (?m, ?m)) = Some (r, r)"
    using lim add_capped_ok [of ?m ?m "fst (BurnAmount tx)"] by (auto simp: r_def burn_due_def split: prod.splits)
  have ur: "unat r = unat ?m + burn_due tx"
    using lim by (auto simp: r_def burn_due_def unat_add_u64 split: prod.splits)
  show ?thesis
  proof (cases "burnGas \<and> IsAVM tx")
    case True
    then obtain p where p: "tx_AVM tx = Some p" using assms by (auto simp: fee_paid_def)
    then have g: "gas_due tx = unat (avm_GasLimit p) * 10" using True by (simp add: gas_due_def)
    then have a: "AVMGasFee (avm_GasLimit p) = Some (avm_GasLimit p * 10)" using lim by (intro AVMGasFee_ok) simp
    have ug: "unat (avm_GasLimit p * 10) = gas_due tx" using AVMGasFee_unat [OF a] g by simp
    have "fee_parts tx baseFee burnGas = Inr (Some (r + avm_GasLimit p * 10, r + avm_GasLimit p * 10))"
      using r a m True p add_capped_ok [of r r "avm_GasLimit p * 10"] lim by (simp add: fee_parts_def Let_def ur ug)
    moreover have "unat (r + avm_GasLimit p * 10) = unat ?m + burn_due tx + gas_due tx"
      using lim by (simp add: unat_add_u64 ur ug)
    ultimately show ?thesis using assms True by (auto simp: splits_exactly_def fee_paid_def burned_due_def)
  next
    case False
    have "fee_parts tx baseFee burnGas = Inr (Some (r, r))" using False r m by (auto simp: fee_parts_def Let_def)
    moreover have "burnGas \<Longrightarrow> gas_due tx = 0" using False by (auto simp: gas_due_def split: option.splits)
    ultimately show ?thesis using assms by (auto simp: splits_exactly_def fee_paid_def burned_due_def ur)
  qed
qed

lemma free_tx_splits:
  assumes "tx_Fee tx = 0" and "\<not> snd (BurnAmount tx)" and "\<not> IsAVM tx" and "fee_exempt tx"
  shows "splits_exactly baseFee burnGas tx"
  using assms by (auto simp: splits_exactly_def burned_due_def fee_parts_def Let_def word_gt_0 split: prod.splits)

lemma fee_loop_exact:
  assumes "\<forall>tx \<in> set txs. IsCoinbase tx \<or> IsStake tx \<or> splits_exactly baseFee burnGas tx"
    and "unat burned + unat tip + fees_of txs < 2 ^ 64"
  shows "\<exists>b t. fee_loop baseFee burnGas txs burned tip = Inr (b, t) \<and>
    unat b + unat t = unat burned + unat tip + fees_of txs \<and>
    unat b = unat burned + sum_list (map (burned_due baseFee burnGas) (payers txs))"
  using assms
proof (induction txs arbitrary: burned tip)
  case (Cons tx txs)
  show ?case
  proof (cases "IsCoinbase tx \<or> IsStake tx")
    case True
    then show ?thesis using Cons by (auto simp: fees_of_def payers_def)
  next
    case False
    then obtain b r where br: "fee_parts tx baseFee burnGas = Inr (Some (b, r))"
      "unat b + (unat (tx_Fee tx) - unat r) = unat (tx_Fee tx)" "unat b = burned_due baseFee burnGas tx"
      using Cons.prems(1) by (auto simp: splits_exactly_def)
    define tip' where "tip' = (if r < tx_Fee tx then tip + (tx_Fee tx - r) else tip)"
    have f: "fees_of (tx # txs) = unat (tx_Fee tx) + fees_of txs" using False by (simp add: fees_of_def payers_def)
    have ut: "unat tip' = unat tip + (unat (tx_Fee tx) - unat r)"
    proof (cases "r < tx_Fee tx")
      case True
      then have "unat (tx_Fee tx - r) = unat (tx_Fee tx) - unat r" by (intro unat_diff_u64) simp
      then show ?thesis using True Cons.prems(2) f by (simp add: tip'_def unat_add_u64)
    qed (simp add: tip'_def word_less_nat_alt)
    have ub: "unat (burned + b) = unat burned + unat b" using Cons.prems(2) f br(2) by (intro unat_add_u64) linarith
    have "\<not> max_u64 - b < burned" using Cons.prems(2) f br(2) by (simp add: u64_overflow_iff)
    then have l: "fee_loop baseFee burnGas (tx # txs) burned tip = fee_loop baseFee burnGas txs (burned + b) tip'"
      using False br(1) by (simp add: tip'_def Let_def)
    have "unat (burned + b) + unat tip' + fees_of txs < 2 ^ 64" using Cons.prems(2) f br(2) ub ut by linarith
    from Cons.IH [OF _ this] Cons.prems(1) obtain b' t' where
      "fee_loop baseFee burnGas txs (burned + b) tip' = Inr (b', t')"
      "unat b' + unat t' = unat (burned + b) + unat tip' + fees_of txs"
      "unat b' = unat (burned + b) + sum_list (map (burned_due baseFee burnGas) (payers txs))" by auto
    moreover have "payers (tx # txs) = tx # payers txs" using False by (simp add: payers_def)
    ultimately show ?thesis unfolding l using f br(2,3) ub ut by simp
  qed
qed (simp add: fees_of_def payers_def)

section \<open>Issuance\<close>

text \<open>A mint with its authorization, whose output commits to the authorized amount.\<close>

definition authorizes :: "lib \<Rightarrow> Block \<Rightarrow> Transaction \<Rightarrow> RewardAuthorization \<Rightarrow> bool" where
  "authorizes K b tx auth \<longleftrightarrow>
     ValidateAuthorizedRewardTx K tx (height_of b) (prev_of b) (bh_ValidatorPub (blk_Header b)) = Inr auth \<and>
     (\<exists>o0 blind. tx_Outputs tx = [o0] \<and> pedersen_commit K (ra_Amount auth) blind = Some (out_AmountCommit o0))"

lemma reward_authorizes:
  assumes "ValidateAuthorizedRewardTx K tx (height_of b) (prev_of b) (bh_ValidatorPub (blk_Header b)) = Inr auth"
  shows "authorizes K b tx auth"
proof -
  obtain o0 where "tx_Outputs tx = [o0]" "reward_output_ok K auth o0 = Inr ()" using assms by (rule ValidateRewardE)
  then show ?thesis using assms by (auto simp: authorizes_def reward_output_ok_def split: if_splits option.splits)
qed

lemma coinbase_policy_amount:
  assumes "engine_validateCoinbasePolicy K C S lpod b = Inr ()" and "\<not> lpodActive C (height_of b)"
    and "0 < ec_RewardAuthorizationActivationHeight C" "ec_RewardAuthorizationActivationHeight C \<le> height_of b"
  obtains amount auths where "expectedAuthorizedRewardAmount K C S b = Inr amount"
    "list_all2 (authorizes K b) (filter is_mint (blk_Txs b)) auths" "sum_list (map (unat \<circ> ra_Amount) auths) = unat amount"
proof -
  obtain amount where a: "expectedAuthorizedRewardAmount K C S b = Inr amount"
    using assms by (auto simp: engine_validateCoinbasePolicy_def Let_def split: sum.splits)
  show thesis
  proof (cases "amount = 0")
    case True
    then show thesis using assms a
      by (intro that [OF a, of "[]"]) (auto simp: engine_validateCoinbasePolicy_def Let_def split: sum.splits if_splits)
  next
    case False
    then obtain tx auth where t: "filter is_mint (blk_Txs b) = [tx]" "ra_Amount auth = amount"
        "ValidateAuthorizedRewardTx K tx (height_of b) (prev_of b) (bh_ValidatorPub (blk_Header b)) = Inr auth"
      using assms a by (auto simp: engine_validateCoinbasePolicy_def Let_def split: sum.splits if_splits list.splits)
    then show thesis using reward_authorizes [OF t(3)] by (intro that [OF a, of "[auth]"]) simp_all
  qed
qed

lemma sale_not_burn:
  assumes "tx_SaleAuthorization K tx = Inr a"
  shows "tx_Fee tx = 0 \<and> \<not> snd (BurnAmount tx)"
proof -
  have "length (tx_Extra tx) = 280" "tx_Fee tx = 0"
    using assms by (auto simp: tx_SaleAuthorization_def saleExtraSize_def split: if_splits)
  then show ?thesis
    by (simp add: BurnAmount_def parseIntentionalBurnExtra_def Let_def intentionalBurnPrefix_def str_bytes_def)
qed

text \<open>What the version policy of an accepted block says about each transaction before the reserve is active.\<close>

lemma activation_tx:
  assumes "validateRingCTV4Activation K J C S lpod b = Inr ()" and "\<not> lpodActive C (height_of b)" and "tx \<in> set (blk_Txs b)"
  shows "\<not> (IsLPoD tx \<or> IsLPoDPosition tx \<or> IsLPoDPayout tx)" "IsSale tx \<Longrightarrow> \<exists>a. tx_SaleAuthorization K tx = Inr a"
proof -
  have "validateVersionWithSales K J C tx (height_of b) (ec_RingCTV4ActivationHeight C) = Inr ()"
    using assms(1,3) by (auto simp: validateRingCTV4Activation_def foldE_unit split: sum.splits)
  then show "IsSale tx \<Longrightarrow> \<exists>a. tx_SaleAuthorization K tx = Inr a"
    by (auto simp: validateVersionWithSales_def split: if_splits sum.splits)
  show "\<not> (IsLPoD tx \<or> IsLPoDPosition tx \<or> IsLPoDPayout tx)"
    using assms by (auto simp: validateRingCTV4Activation_def engine_validateLPoD_def split: sum.splits if_splits)
qed

lemma checked_block_splits:
  assumes "foldE (economics_step baseFee) (enumerate 0 (blk_Txs b)) (0, 0, 0) = Inr s"
    and act: "validateRingCTV4Activation K J C S lpod b = Inr ()" and lp: "\<not> lpodActive C (height_of b)"
    and tx: "tx \<in> set (blk_Txs b)" "\<not> (IsCoinbase tx \<or> IsStake tx)"
  shows "splits_exactly baseFee burnGas tx"
proof (cases "IsSale tx")
  case True
  then show ?thesis
    using sale_not_burn activation_tx(2) [OF act lp tx(1)] by (intro free_tx_splits) (auto simp: fee_exempt_def tx_kinds tx_versions)
next
  case False
  then have "\<not> fee_exempt tx" using activation_tx(1) [OF act lp tx(1)] tx(2) by (auto simp: fee_exempt_def)
  then show ?thesis using economics_paid [OF assms(1) tx(1)] by (intro fee_paid_splits)
qed

lemma fees_of_checked:
  assumes "\<forall>tx \<in> set txs. fee_exempt tx \<longrightarrow> IsCoinbase tx \<or> IsStake tx \<or> tx_Fee tx = 0"
  shows "sum_list (map (\<lambda>x. if fee_exempt (snd x) then 0 else unat (tx_Fee (snd x))) (enumerate n txs)) = fees_of txs"
  using assms by (induction txs arbitrary: n) (auto simp: fees_of_def payers_def fee_exempt_def)

lemma checked_block_fees:
  assumes "validateBlockEconomics C S b = Inr ()"
    and "ec_RingCTV4ActivationHeight C = 0 \<or> ec_RingCTV4ActivationHeight C \<le> height_of b"
    and act: "validateRingCTV4Activation K J C S lpod b = Inr ()" and lp: "\<not> lpodActive C (height_of b)"
  shows "\<exists>burned tips. blockFeeStatsAtHeight C (blk_Txs b) (expectedBaseFeeAt C S (height_of b)) (height_of b) = Inr (burned, tips) \<and>
    unat burned + unat tips = fees_of (blk_Txs b) \<and>
    unat burned = sum_list (map (burned_due (expectedBaseFeeAt C S (height_of b))
      (0 < ec_AVMGasBurnActivationHeight C \<and> ec_AVMGasBurnActivationHeight C \<le> height_of b)) (payers (blk_Txs b)))"
proof -
  let ?f = "expectedBaseFeeAt C S (height_of b)"
  obtain s where s: "foldE (economics_step ?f) (enumerate 0 (blk_Txs b)) (0, 0, 0) = Inr s"
    using assms(1,2) by (auto simp: validateBlockEconomics_def Let_def not_le split: if_splits sum.splits)
  have "\<forall>tx \<in> set (blk_Txs b). fee_exempt tx \<longrightarrow> IsCoinbase tx \<or> IsStake tx \<or> tx_Fee tx = 0"
    using activation_tx [OF act lp] sale_not_burn unfolding fee_exempt_def by blast
  then have "fees_of (blk_Txs b) < 2 ^ 64"
    using fee_totals.run_sum [OF _ s] fees_of_checked unat_u64_lt [of "fst s"] by simp
  moreover have "\<forall>tx \<in> set (blk_Txs b). IsCoinbase tx \<or> IsStake tx \<or>
      splits_exactly ?f (0 < ec_AVMGasBurnActivationHeight C \<and> ec_AVMGasBurnActivationHeight C \<le> height_of b) tx"
    using checked_block_splits [OF s act lp] by blast
  ultimately show ?thesis
    using fee_loop_exact [of "blk_Txs b" ?f _ 0 0] by (auto simp: blockFeeStatsAtHeight_def blockFeeStatsWithAVMGasBurn_def)
qed

section \<open>The emission is bounded\<close>

lemma blockReward_unat: "unat (blockRewardAtHeight base h) \<le> unat base div 2 ^ (unat h div 21024000)"
  by (simp add: blockRewardAtHeight_def Let_def HalvingIntervalBlocks_def unat_div unat_drop_bit_eq drop_bit_eq_div [where 'a = nat])

lemma halvings_bounded: "(\<Sum>k < m. n div 2 ^ k) \<le> 2 * (n :: nat) - (if m = 0 then 0 else n div 2 ^ (m - 1))"
proof (induction m)
  case (Suc m)
  have le: "n div 2 ^ k \<le> n" for k by (rule div_le_dividend)
  have half: "2 * (n div 2 ^ Suc k) \<le> n div 2 ^ k" for k by (simp only: power_Suc2 div_mult2_eq)
  show ?case
  proof (cases m)
    case (Suc j)
    then show ?thesis using Suc.IH half [of j] le [of j] by simp
  qed simp
qed simp

lemma eras_sum: "0 < d \<Longrightarrow> (\<Sum>h < m * d. f (h div d)) = d * (\<Sum>k < m. f k :: nat)"
proof -
  assume d: "0 < d"
  have "(\<Sum>h = k * d ..< k * d + d. f (h div d)) = d * f k" for k
  proof -
    have "h div d = k" if "h \<in> {k * d ..< k * d + d}" for h using that d by (auto intro!: div_nat_eqI simp: algebra_simps)
    then show ?thesis by simp
  qed
  then show ?thesis using sum.nat_group [of "\<lambda>h. f (h div d)" d m] by (simp add: sum_distrib_left)
qed

section \<open>The base fee\<close>

lemma base_fee_delta_mono: "m \<le> n \<Longrightarrow> base_fee_delta c m \<le> base_fee_delta c n"
  unfolding base_fee_delta_def Let_def baseFeeMaxChangePct_def targetBlockSizeBytes_def
  by (intro fl64_mono mult_right_mono mult_left_mono divide_right_mono diff_right_mono) (use fl64_mono [of 0] in auto)

text \<open>At a multiple of the target size the computation in doubles is exact.\<close>

lemma base_fee_delta_multiple:
  assumes "c * k \<le> 2 ^ 53" and "k \<le> 1024" and "0 < k"
  shows "base_fee_delta c (k * targetBlockSizeBytes) = real c * (real k - 1) / 8"
proof -
  let ?T = "500000 :: int"
  have c: "c \<le> 2 ^ 53" using assms(1,3) by (metis One_nat_def Suc_leI le_trans mult.right_neutral mult_le_mono2)
  have s: "fl64 (real (k * targetBlockSizeBytes)) = real (k * targetBlockSizeBytes)"
    using assms(2) by (intro fl64_nat) (simp add: targetBlockSizeBytes_def)
  have d: "fl64 (of_int ((int k - 1) * ?T)) = of_int ((int k - 1) * ?T)"
    using assms(2) by (intro fl64_int) (simp add: abs_mult)
  have q: "fl64 (of_int (int k - 1)) = of_int (int k - 1)" using assms(2) by (intro fl64_int) auto
  have "\<bar>int c * (int k - 1)\<bar> \<le> int c * int k" using assms(3) by (simp add: abs_mult mult_left_mono)
  also have "\<dots> \<le> 2 ^ 53" using assms(1) by (metis of_nat_le_iff of_nat_mult of_nat_numeral of_nat_power)
  finally have b: "\<bar>int c * (int k - 1)\<bar> \<le> 2 ^ 53" .
  have p: "fl64 (of_int (int c * (int k - 1))) = of_int (int c * (int k - 1))" using b by (rule fl64_int)
  have e: "fl64 (of_int (int c * (int k - 1)) / 8) = of_int (int c * (int k - 1)) / 8"
    using b by (intro fl64_exact [of _ _ 3]) simp_all
  have "real (k * targetBlockSizeBytes) - real targetBlockSizeBytes = of_int ((int k - 1) * ?T)"
    by (simp add: targetBlockSizeBytes_def algebra_simps)
  moreover have "of_int ((int k - 1) * ?T) / real targetBlockSizeBytes = of_int (int k - 1)"
    by (simp add: targetBlockSizeBytes_def)
  moreover have "real c * of_int (int k - 1) = of_int (int c * (int k - 1))" by simp
  ultimately have "base_fee_delta c (k * targetBlockSizeBytes) = of_int (int c * (int k - 1)) / 8"
    by (simp only: base_fee_delta_def Let_def baseFeeMaxChangePct_def s d q p e fl64_nat [OF c] times_divide_eq_right mult_1_right)
  then show ?thesis by simp
qed

lemma base_fee_delta_at_0:
  assumes "c \<le> 2 ^ 53"
  shows "base_fee_delta c 0 = - real c / 8"
proof -
  have a: "fl64 (- 500000) = - 500000" using fl64_int [of "- 500000"] by simp
  have b: "fl64 (- 1) = - 1" using fl64_int [of "- 1"] by simp
  have d: "fl64 (real c / 8) = real c / 8"
    using fl64_exact [of "real c / 8" "int c" 3] assms by simp
  show ?thesis
    using a b d fl64_nat [OF assms] fl64_minus [of "real c"] fl64_minus [of "real c / 8"]
    by (simp add: base_fee_delta_def Let_def targetBlockSizeBytes_def baseFeeMaxChangePct_def)
qed

lemma math_Round_eighth: "math_Round (real n / 8) = int ((n + 4) div 8)" "math_Round (- real n / 8) = - int ((n + 4) div 8)"
proof -
  have "real n / 8 + 1 / 2 = real (n + 4) / real 8" by simp
  then have f: "\<lfloor>real n / 8 + 1 / 2\<rfloor> = int ((n + 4) div 8)" by (simp only: floor_divide_of_nat_eq)
  then show "math_Round (real n / 8) = int ((n + 4) div 8)" by (simp add: math_Round_def)
  show "math_Round (- real n / 8) = - int ((n + 4) div 8)" using f by (cases "n = 0") (auto simp: math_Round_def)
qed

lemma base_fee_rounded:
  assumes "c \<le> 2 ^ 43" "n \<le> 1024 * targetBlockSizeBytes"
  shows "- int ((c + 4) div 8) \<le> math_Round (base_fee_delta c n)" "math_Round (base_fee_delta c n) \<le> 2 ^ 51"
    "n \<le> 2 * targetBlockSizeBytes \<Longrightarrow> math_Round (base_fee_delta c n) \<le> int ((c + 4) div 8)"
proof -
  have lim: "c * k \<le> 2 ^ 53" if "k \<le> 1024" for k using mult_le_mono [OF assms(1) that] by simp
  have "- real c / 8 \<le> base_fee_delta c n"
    using base_fee_delta_at_0 [of c] base_fee_delta_mono [of 0 n c] lim [of 1] by simp
  from math_Round_mono [OF this] show "- int ((c + 4) div 8) \<le> math_Round (base_fee_delta c n)"
    by (simp only: math_Round_eighth)
  have "base_fee_delta c n \<le> real c * 1023 / 8"
    using base_fee_delta_multiple [of c 1024] base_fee_delta_mono [OF assms(2), of c] lim [of 1024] by simp
  also have "\<dots> \<le> real (2 ^ 43) * 1023 / 8"
    by (intro divide_right_mono mult_right_mono of_nat_mono assms(1)) simp_all
  also have "\<dots> \<le> of_int (2 ^ 51)" by simp
  finally have "math_Round (base_fee_delta c n) \<le> math_Round (of_int (2 ^ 51))" by (rule math_Round_mono)
  then show "math_Round (base_fee_delta c n) \<le> 2 ^ 51" by (simp only: math_Round_of_int)
  assume "n \<le> 2 * targetBlockSizeBytes"
  from base_fee_delta_mono [OF this, of c] have "base_fee_delta c n \<le> real c / 8"
    using base_fee_delta_multiple [of c 2] lim [of 2] by simp
  from math_Round_mono [OF this] show "math_Round (base_fee_delta c n) \<le> int ((c + 4) div 8)"
    by (simp only: math_Round_eighth)
qed

lemma sint_small: "- (2 ^ 63) \<le> x \<Longrightarrow> x < 2 ^ 63 \<Longrightarrow> sint (word_of_int x :: u64) = x"
  by (simp add: sint_sbintrunc' signed_take_bit_int_eq_self)

lemma nextBaseFee_unat:
  assumes "0 < c" "unat c \<le> 2 ^ 43" "n \<le> 1024 * targetBlockSizeBytes"
  shows "int (unat (nextBaseFee c n)) = max 50 (int (unat c) + math_Round (base_fee_delta (unat c) n))"
proof -
  define r where "r = math_Round (base_fee_delta (unat c) n)"
  define x where "x = int (unat c) + r"
  have r: "- int ((unat c + 4) div 8) \<le> r" "r \<le> 2 ^ 51" using base_fee_rounded(1,2) [OF assms(2,3)] by (auto simp: r_def)
  have c: "int (unat c) \<le> 2 ^ 43" "int ((unat c + 4) div 8) \<le> 2 ^ 43"
    using assms(2) by (simp_all add: nat_le_iff del: of_nat_unat)
  have x: "- (2 ^ 51) \<le> x \<and> x \<le> 2 ^ 52" using r c unfolding x_def by (auto simp del: of_nat_unat)
  have "int64_of r = word_of_int r" using r c by (simp add: int64_of_def)
  moreover have "word_of_int x = c + word_of_int r" by (simp add: x_def)
  ultimately have w: "c + int64_of r = word_of_int x" by simp
  have c0: "c \<noteq> 0" using assms(1) by auto
  have s: "sint (word_of_int x :: u64) = x" using x by (intro sint_small) auto
  have m: "sint MinBaseFeePerByte = 50" "unat MinBaseFeePerByte = 50" by (simp_all add: MinBaseFeePerByte_def)
  have u: "int (unat (word_of_int x :: u64)) = x" if "50 \<le> x"
    using that x by (simp add: uint_nat [symmetric] uint_word_of_int)
  have "nextBaseFee c n = (if x < 50 then MinBaseFeePerByte else word_of_int x)"
    using c0 w s m(1) by (simp add: nextBaseFee_def Let_def r_def)
  then show ?thesis using u m(2) by (simp add: max_def flip: r_def x_def del: of_nat_unat)
qed

section \<open>The pool\<close>

text \<open>The reward a block draws from the pool, and the balance after a number of accepted blocks.\<close>

definition pool_base :: "econ_cfg \<Rightarrow> u64" where
  "pool_base C = (if ec_BlockRewardNAPR C = 0 then DefaultPoolBlockRewardNAPR else ec_BlockRewardNAPR C)"

definition pool_era :: "econ_cfg \<Rightarrow> u64 \<Rightarrow> bool" where
  "pool_era C height \<longleftrightarrow> \<not> lpodActive C height \<and>
     (ec_RewardAuthorizationActivationHeight C = 0 \<or> height < ec_RewardAuthorizationActivationHeight C)"

fun pool_run :: "econ_cfg \<Rightarrow> u64 \<Rightarrow> nat \<Rightarrow> econ_state \<Rightarrow> u64 list \<times> econ_state" where
  "pool_run C height 0 S = ([], S)"
| "pool_run C height (Suc n) S =
     (case pool_run C (height + 1) n (DecrementPool C height S) of (rs, S') \<Rightarrow> (blockRewardNAPRAt C S height # rs, S'))"

lemma pool_base_pos: "0 < pool_base C"
  by (simp add: pool_base_def DefaultPoolBlockRewardNAPR_def word_gt_0)

lemma sint_pos_iff: "unat (x :: u64) < 2 ^ 63 \<Longrightarrow> sint x = int (unat x)"
proof -
  assume "unat x < 2 ^ 63"
  then have "int (unat x) < 2 ^ 63" by (simp del: of_nat_unat)
  then have "sint (word_of_int (int (unat x)) :: u64) = int (unat x)" by (intro sint_small) (auto simp del: of_nat_unat)
  then show ?thesis by simp
qed

lemma pool_step:
  assumes "pool_era C height" and "0 < es_stakingPoolInit S" and "unat (es_stakingPoolRemaining S) < 2 ^ 63"
  shows "unat (es_stakingPoolRemaining (DecrementPool C height S)) = unat (es_stakingPoolRemaining S) - unat (pool_base C)"
    and "es_stakingPoolInit (DecrementPool C height S) = es_stakingPoolInit S"
    and "es_tailRewardNAPR (DecrementPool C height S) = es_tailRewardNAPR S"
    and "es_stakingPoolRemaining S \<noteq> 0 \<Longrightarrow>
      unat (blockRewardNAPRAt C S height) = min (unat (es_stakingPoolRemaining S)) (unat (pool_base C))"
    and "es_stakingPoolRemaining S = 0 \<Longrightarrow> blockRewardNAPRAt C S height = es_tailRewardNAPR S"
proof -
  have s: "sint (es_stakingPoolRemaining S) = int (unat (es_stakingPoolRemaining S))" by (rule sint_pos_iff [OF assms(3)])
  have z: "(sint (es_stakingPoolRemaining S) \<le> 0) = (es_stakingPoolRemaining S = 0)"
    by (simp only: s) (simp add: unat_eq_0 del: of_nat_unat)
  note defs = DecrementPool_def pool_era_def pool_base_def Let_def z
  show "es_stakingPoolInit (DecrementPool C height S) = es_stakingPoolInit S"
    "es_tailRewardNAPR (DecrementPool C height S) = es_tailRewardNAPR S"
    using assms(1) by (auto simp: defs split: option.splits)
  have "es_stakingPoolRemaining (DecrementPool C height S) =
      es_stakingPoolRemaining S - (if es_stakingPoolRemaining S < pool_base C then es_stakingPoolRemaining S else pool_base C)"
    using assms(1,2) by (auto simp: defs word_gt_0 not_le)
  then show "unat (es_stakingPoolRemaining (DecrementPool C height S)) = unat (es_stakingPoolRemaining S) - unat (pool_base C)"
    by (auto simp: unat_diff_u64 word_less_nat_alt not_less word_le_nat_alt)
  show "unat (blockRewardNAPRAt C S height) = min (unat (es_stakingPoolRemaining S)) (unat (pool_base C))"
    if "es_stakingPoolRemaining S \<noteq> 0"
    using that assms(2) z by (auto simp: blockRewardNAPRAt_def pool_base_def Let_def min_def word_less_nat_alt)
  show "blockRewardNAPRAt C S height = es_tailRewardNAPR S" if "es_stakingPoolRemaining S = 0"
    using that assms(2) by (simp add: blockRewardNAPRAt_def Let_def)
qed

text \<open>C19: The staking pool pays out exactly what it held and then runs out.  In a run of \<open>n\<close> accepted blocks of the pool
  era (before reward authorization and before the reserve), the rewards that are due until the pool is empty and the
  balance that is left add up to the balance at the start; when \<open>n\<close> times the base reward reaches the balance, the pool is
  empty and every later reward of the run is the tail reward.\<close>

theorem pool_pays_out:
  assumes "\<forall>i < n. pool_era C (height + word_of_nat i)" and "0 < es_stakingPoolInit S"
    and "unat (es_stakingPoolRemaining S) < 2 ^ 63" and "pool_run C height n S = (rs, S')"
  shows "length rs = n \<and>
    sum_list (map unat (take ((unat (es_stakingPoolRemaining S) + unat (pool_base C) - 1) div unat (pool_base C)) rs))
      + unat (es_stakingPoolRemaining S') = unat (es_stakingPoolRemaining S) \<and>
    (unat (es_stakingPoolRemaining S) \<le> n * unat (pool_base C) \<longrightarrow> es_stakingPoolRemaining S' = 0) \<and>
    set (drop ((unat (es_stakingPoolRemaining S) + unat (pool_base C) - 1) div unat (pool_base C)) rs) \<subseteq> {es_tailRewardNAPR S}"
  using assms
proof (induction n arbitrary: height S rs S')
  case 0
  then show ?case by (auto simp: unat_eq_0)
next
  case (Suc n)
  define q where "q = unat (es_stakingPoolRemaining S)"
  define p where "p = unat (pool_base C)"
  let ?T = "DecrementPool C height S"
  have e: "pool_era C height" using Suc.prems(1) [rule_format, of 0] by simp
  note step = pool_step [OF e Suc.prems(2,3)]
  obtain rs1 where r: "pool_run C (height + 1) n ?T = (rs1, S')" "rs = blockRewardNAPRAt C S height # rs1"
    using Suc.prems(4) by (auto split: prod.splits)
  have "pool_era C (height + 1 + word_of_nat i)" if "i < n" for i
    using Suc.prems(1) [rule_format, of "Suc i"] that by (simp add: add.commute add.left_commute)
  then have IH: "length rs1 = n \<and> sum_list (map unat (take ((q - p + p - 1) div p) rs1)) + unat (es_stakingPoolRemaining S') = q - p \<and>
      (q - p \<le> n * p \<longrightarrow> es_stakingPoolRemaining S' = 0) \<and> set (drop ((q - p + p - 1) div p) rs1) \<subseteq> {es_tailRewardNAPR S}"
    using Suc.IH [OF _ _ _ r(1)] Suc.prems(2,3) step(1-3) by (simp add: q_def p_def)
  have p0: "0 < p" using pool_base_pos [of C] by (simp add: p_def word_gt_0 unat_gt_0)
  show ?case
  proof (cases "q = 0")
    case True
    then have "rs = es_tailRewardNAPR S # rs1" using step(5) r(2) by (simp add: q_def unat_eq_0)
    then show ?thesis using IH True p0 by (simp flip: q_def p_def)
  next
    case False
    then have u: "unat (blockRewardNAPRAt C S height) = min q p" using step(4) by (simp add: q_def p_def unat_eq_0)
    have k: "(q + p - 1) div p = Suc ((q - p + p - 1) div p)"
    proof (cases "q \<le> p")
      case True
      then have "(q + p - 1) div p = 1" using False p0 by (intro div_nat_eqI) auto
      then show ?thesis using True p0 by simp
    next
      case F: False
      then have eq: "q + p - 1 = (q - p + p - 1) + p" by simp
      have "(q + p - 1) div p = ((q - p + p - 1) + p) div p" by (rule arg_cong [OF eq])
      also have "\<dots> = (q - p + p - 1) div p + 1" using p0 by (intro div_add_self2) simp
      finally show ?thesis by (simp only: Suc_eq_plus1)
    qed
    have "unat (blockRewardNAPRAt C S height) + (q - p) = q" using u by (simp add: min_def)
    moreover have "q \<le> Suc n * p \<longleftrightarrow> q - p \<le> n * p" by auto
    ultimately show ?thesis using IH unfolding q_def [symmetric] p_def [symmetric] k r(2) by simp
  qed
qed

section \<open>The guardian allocation\<close>

lemma guardian_fold_none:
  "foldE (guardian_step K J C b) (enumerate n txs) cnt = Inr cnt' \<Longrightarrow> \<forall>tx \<in> set txs. \<not> IsGuardianFund tx \<Longrightarrow> cnt' = cnt"
  by (induction txs arbitrary: n cnt) (auto simp: guardian_step_def split: sum.splits)

lemma guardian_block:
  assumes "validateGuardianFund K J C S b = Inr ()" and "0 < ec_GuardianFundActivationHeight C"
    and "height_of b = ec_GuardianFundActivationHeight C"
  obtains tx where "tx \<in> set (blk_Txs b)" "IsGuardianFund tx"
    "BuildGuardianFundTx K (ec_GuardianFundChainAnchor C) (ec_GuardianFundActivationHeight C) = Some tx"
proof -
  obtain cnt where f: "foldE (guardian_step K J C b) (enumerate 0 (blk_Txs b)) 0 = Inr cnt" "cnt = 1"
    using assms by (auto simp: validateGuardianFund_def split: sum.splits if_splits)
  obtain tx where tx: "tx \<in> set (blk_Txs b)" "IsGuardianFund tx" using guardian_fold_none [OF f(1)] f(2) by auto
  obtain i where "(i, tx) \<in> set (enumerate 0 (blk_Txs b))" using enumerate_elem [OF tx(1)] by blast
  from foldE_step_ok [OF f(1) this] have "BuildGuardianFundTx K (ec_GuardianFundChainAnchor C) (ec_GuardianFundActivationHeight C) = Some tx"
    using tx(2) by (auto simp: guardian_step_def Let_def GuardianFundTxAt_def split: if_splits)
  with tx show thesis by (rule that)
qed

lemma guardian_tx_shape:
  assumes "BuildGuardianFundTx K anchor h = Some tx"
  shows "tx_Fee tx = 0" "tx_Size tx = 204" "\<not> fee_exempt tx"
proof -
  have "length (guardianFundExtra anchor h) = 59"
    by (simp add: guardianFundExtra_def guardianFundDomain_def str_bytes_def codec_simps)
  then show "tx_Fee tx = 0" "tx_Size tx = 204" "\<not> fee_exempt tx"
    using assms by (auto simp: BuildGuardianFundTx_def Let_def empty_tx_def tx_Size_def tx_kinds tx_versions fee_exempt_def
        split: if_splits option.splits)
qed

lemma MinFeeAt_pos: "tx_Size tx = 204 \<Longrightarrow> 0 < unat (MinFeeAt tx f)"
proof -
  assume s: "tx_Size tx = 204"
  define g where "g = (if f = 0 then InitialBaseFeePerByte else f)"
  have g: "g \<noteq> 0" by (auto simp: g_def InitialBaseFeePerByte_def)
  have "204 * g \<noteq> 0" if "\<not> max_u64 div 204 < g"
  proof -
    have "unat g \<le> unat (max_u64 div 204)" using that by (simp add: word_less_nat_alt)
    then have "unat (204 * g) = 204 * unat g" by (simp add: max_u64_def unat_word_ariths)
    then show ?thesis using g by (metis mult_eq_0_iff numeral_eq_iff unat_eq_0 zero_neq_numeral)
  qed
  then have "MinFeeAt tx f \<noteq> 0" by (auto simp: MinFeeAt_def s Let_def max_u64_def simp flip: g_def)
  then show ?thesis by (simp add: unat_gt_0)
qed

section \<open>Key images and checkpoints\<close>

lemma image_steps:
  "foldE image_step (map (Pair i) kis) seen = Inr seen' \<Longrightarrow>
     distinct kis \<and> set kis \<inter> dom seen = {} \<and> dom seen' = dom seen \<union> set kis"
proof (induction kis arbitrary: seen)
  case (Cons k kis)
  then have k: "seen k = None" "foldE image_step (map (Pair i) kis) (seen(k \<mapsto> i)) = Inr seen'"
    by (auto simp: image_step_def split: option.splits)
  from Cons.IH [OF k(2)] k(1) show ?case by auto
qed simp

interpretation block_images: one_shot tx_images_step "\<lambda>_. True" "\<lambda>seen ki. ki \<in> dom seen"
  "\<lambda>x. if IsCoinbase (snd x) \<or> IsStake (snd x) then [] else KeyImages (snd x)"
  by unfold_locales (auto simp: tx_images_step_def dest!: image_steps split: if_splits prod.splits)

text \<open>A block that passes the check spends no key image twice, across all of its transactions.\<close>

lemma block_images_distinct:
  assumes "blockKeyImageCheck b = Inr ()"
  shows "distinct (concat (map (\<lambda>tx. if IsCoinbase tx \<or> IsStake tx then [] else KeyImages tx) (blk_Txs b)))"
proof -
  obtain seen where "foldE tx_images_step (enumerate 0 (blk_Txs b)) Map.empty = Inr seen"
    using assms by (auto simp: blockKeyImageCheck_def split: sum.splits)
  from block_images.run_distinct [OF _ this] have
    "distinct (concat (map ((\<lambda>tx. if IsCoinbase tx \<or> IsStake tx then [] else KeyImages tx) \<circ> snd) (enumerate 0 (blk_Txs b))))"
    by (simp add: comp_def)
  then show ?thesis by (simp only: map_map [symmetric] map_snd_enumerate)
qed

lemma coinbase_prefix:
  "foldE coinbase_step (enumerate n txs) (cnt, seen) = Inr (cnt', seen') \<Longrightarrow>
     (seen \<longrightarrow> filter is_mint txs = []) \<and> takeWhile is_mint txs = filter is_mint txs \<and> cnt' = cnt + length (filter is_mint txs)"
proof (induction txs arbitrary: n cnt seen)
  case (Cons tx txs)
  show ?case
  proof (cases "is_mint tx")
    case True
    then have s: "\<not> seen" "foldE coinbase_step (enumerate (Suc n) txs) (cnt + 1, seen) = Inr (cnt', seen')"
      using Cons.prems by (auto simp: coinbase_step_def split: if_splits)
    from Cons.IH [OF s(2)] s(1) True show ?thesis by simp
  next
    case False
    then have s: "foldE coinbase_step (enumerate (Suc n) txs) (cnt, True) = Inr (cnt', seen')"
      using Cons.prems by (simp add: coinbase_step_def)
    from Cons.IH [OF s] False show ?thesis by simp
  qed
qed simp

text \<open>The structural policy holds exactly when the mints are a prefix of the block of at most eleven.\<close>

lemma coinbase_policy_prefix:
  assumes "validateCoinbasePolicy b = Inr ()"
  shows "takeWhile is_mint (blk_Txs b) = filter is_mint (blk_Txs b) \<and> length (filter is_mint (blk_Txs b)) \<le> 11"
proof -
  obtain cnt seen where f: "foldE coinbase_step (enumerate 0 (blk_Txs b)) (0, False) = Inr (cnt, seen)" "cnt \<le> 11"
    using assms by (auto simp: validateCoinbasePolicy_def maxCoinbasesPerBlock_def split: sum.splits if_splits)
  from coinbase_prefix [OF f(1)] f(2) show ?thesis by linarith
qed

text \<open>The next checkpoint is the least one not before the height, unless it lies beyond the last height.\<close>

lemma NextCheckpoint_least:
  assumes "unat h + 1000 < 2 ^ 64"
  shows "IsCheckpoint (NextCheckpoint h) \<and> h \<le> NextCheckpoint h \<and> (\<forall>k. IsCheckpoint k \<longrightarrow> h \<le> k \<longrightarrow> NextCheckpoint h \<le> k)"
proof -
  define q r where "q = unat h div 1000" and "r = unat h mod 1000"
  have h: "unat h = 1000 * q + r" "r < 1000" by (simp_all add: q_def r_def)
  have z0: "(k mod 1000 = 0) = (unat k mod 1000 = 0)" for k :: u64 by (simp add: unat_mod flip: unat_eq_0)
  have c: "IsCheckpoint k \<longleftrightarrow> (\<exists>j. unat k = 1000 * j \<and> 0 < j)" for k
    unfolding IsCheckpoint_def CheckpointInterval_def z0 word_less_nat_alt by (auto elim: dvdE)
  have m: "unat (h mod 1000) = r" "(h mod 1000 = 0) = (r = 0)" by (simp_all add: unat_mod r_def flip: unat_eq_0)
  have d: "unat (1000 - h mod 1000) = 1000 - r" using h(2) m(1) by (subst unat_diff_u64) (simp_all add: word_le_nat_alt)
  have n: "unat (NextCheckpoint h) = (if h = 0 then 1000 else if r = 0 then 1000 * q else 1000 * q + 1000)"
    using assms h d m by (auto simp: NextCheckpoint_def CheckpointInterval_def Let_def unat_add_u64)
  have z: "h = 0 \<longleftrightarrow> q = 0 \<and> r = 0" using h by (auto simp flip: unat_eq_0)
  show ?thesis
  proof (intro conjI allI impI)
    show "IsCheckpoint (NextCheckpoint h)" using z by (auto simp: c n intro: exI [of _ 1] exI [of _ q] exI [of _ "q + 1"])
    show "h \<le> NextCheckpoint h" using h by (auto simp: word_le_nat_alt n)
    fix k assume "IsCheckpoint k" "h \<le> k"
    then obtain j where j: "unat k = 1000 * j" "0 < j" "1000 * q + r \<le> 1000 * j" using h(1) by (auto simp: c word_le_nat_alt)
    have "1000 * q + 1000 \<le> 1000 * j" if "0 < r"
    proof -
      have "q < j" using j(3) that by linarith
      then show ?thesis by linarith
    qed
    then have "unat (NextCheckpoint h) \<le> 1000 * j" unfolding n using j(2,3) by simp
    then show "NextCheckpoint h \<le> k" using j(1) by (simp add: word_le_nat_alt)
  qed
qed

section \<open>Properties\<close>

text \<open>C5: The supply changes by exactly the scheduled reward minus the burn.  Take a block of the reward-authorization era
  that passes the coinbase, fee and version policies, outside the historical mainnet window and before the reserve is
  active.  Its fees then divide without loss or overflow into tips and the burn, which is the minimum fee, the intentional
  burn and, once that rule is active, the contract gas of every payer; and what its coinbases mint, as committed in
  their outputs, plus the burn equals the scheduled reward of the height plus all fees paid: tips move from payers to the
  proposer, the burn leaves the supply and nothing else is created.\<close>

theorem block_issuance_exact:
  assumes "engine_validateCoinbasePolicy K C S lpod b = Inr ()" and "validateBlockEconomics C S b = Inr ()"
    and "validateRingCTV4Activation K J C S lpod b = Inr ()" and "\<not> lpodActive C (height_of b)"
    and "\<not> usesHistoricalMainnetReward K C S (height_of b)"
    and "ec_RingCTV4ActivationHeight C = 0 \<or> ec_RingCTV4ActivationHeight C \<le> height_of b"
    and "0 < ec_RewardAuthorizationActivationHeight C" "ec_RewardAuthorizationActivationHeight C \<le> height_of b"
  shows "\<exists>burned tips auths.
    blockFeeStatsAtHeight C (blk_Txs b) (expectedBaseFeeAt C S (height_of b)) (height_of b) = Inr (burned, tips) \<and>
    unat burned = sum_list (map (burned_due (expectedBaseFeeAt C S (height_of b))
      (0 < ec_AVMGasBurnActivationHeight C \<and> ec_AVMGasBurnActivationHeight C \<le> height_of b)) (payers (blk_Txs b))) \<and>
    unat burned + unat tips = fees_of (blk_Txs b) \<and>
    list_all2 (authorizes K b) (filter is_mint (blk_Txs b)) auths \<and>
    sum_list (map (unat \<circ> ra_Amount) auths) + unat burned
      = unat (blockRewardAtHeight AuthorizedBlockRewardNAPR (height_of b)) + fees_of (blk_Txs b)"
proof -
  obtain burned tips where f: "unat burned + unat tips = fees_of (blk_Txs b)"
    "blockFeeStatsAtHeight C (blk_Txs b) (expectedBaseFeeAt C S (height_of b)) (height_of b) = Inr (burned, tips)"
    "unat burned = sum_list (map (burned_due (expectedBaseFeeAt C S (height_of b))
      (0 < ec_AVMGasBurnActivationHeight C \<and> ec_AVMGasBurnActivationHeight C \<le> height_of b)) (payers (blk_Txs b)))"
    using checked_block_fees [OF assms(2,6,3,4)] by blast
  obtain amount auths where a: "expectedAuthorizedRewardAmount K C S b = Inr amount"
    "list_all2 (authorizes K b) (filter is_mint (blk_Txs b)) auths" "sum_list (map (unat \<circ> ra_Amount) auths) = unat amount"
    using assms(1,4,7,8) by (rule coinbase_policy_amount)
  have "unat amount = unat (blockRewardAtHeight AuthorizedBlockRewardNAPR (height_of b)) + unat tips"
    using a(1) f(2) assms(5) by (auto simp: expectedAuthorizedRewardAmount_def authorizedRewardAmount_def Let_def
        u64_overflow_iff not_le unat_add_u64 split: if_splits)
  then show ?thesis using f a by auto
qed

text \<open>C20: The emission of the halving schedule is bounded for all time: whatever the number of blocks, the rewards of all
  heights together are at most twice the first reward times the halving interval.\<close>

theorem emission_bounded:
  assumes "n \<le> 2 ^ 64"
  shows "(\<Sum>h < n. unat (blockRewardAtHeight base (word_of_nat h))) \<le> 2 * unat base * 21024000"
proof -
  let ?d = "21024000 :: nat" let ?g = "\<lambda>k. unat base div 2 ^ k"
  have "(\<Sum>h < n. unat (blockRewardAtHeight base (word_of_nat h))) \<le> (\<Sum>h < n. ?g (h div ?d))"
  proof (rule sum_mono)
    fix h assume "h \<in> {..<n}"
    then have "unat (word_of_nat h :: u64) = h" using assms by (simp add: unat_of_nat)
    then show "unat (blockRewardAtHeight base (word_of_nat h)) \<le> ?g (h div ?d)"
      using blockReward_unat [of base "word_of_nat h"] by simp
  qed
  also have "\<dots> \<le> (\<Sum>h < Suc (n div ?d) * ?d. ?g (h div ?d))"
    using dividend_less_times_div [of ?d n] by (intro sum_mono2) auto
  also have "\<dots> = ?d * (\<Sum>k < Suc (n div ?d). ?g k)" by (rule eras_sum) simp
  also have "\<dots> \<le> ?d * (2 * unat base)"
    using halvings_bounded [of "unat base" "Suc (n div ?d)"] by (intro mult_le_mono2) (meson diff_le_self order_trans)
  finally show ?thesis by (simp add: mult.commute)
qed

text \<open>C17: The step of the base fee, computed in doubles, for fees up to \<open>2 ^ 43\<close> and blocks up to 1024 times the target.  The
  fee never falls below the minimum, moves in the direction of the block size and is monotone in it; it falls by at most
  an eighth (rounded), and rises by at most an eighth for blocks of up to twice the target.  A block of \<open>k\<close> times the
  target raises it by \<open>(k - 1) / 8\<close>, so the announced cap of 12.5\% per block does not hold for larger blocks.\<close>

theorem base_fee_step:
  assumes "50 \<le> unat c" "unat c \<le> 2 ^ 43" "n \<le> 1024 * targetBlockSizeBytes"
  shows "50 \<le> unat (nextBaseFee c n) \<and> unat c - (unat c + 4) div 8 \<le> unat (nextBaseFee c n) \<and>
    (n \<le> 2 * targetBlockSizeBytes \<longrightarrow> unat (nextBaseFee c n) \<le> unat c + (unat c + 4) div 8) \<and>
    (n \<le> targetBlockSizeBytes \<longrightarrow> nextBaseFee c n \<le> c) \<and> (targetBlockSizeBytes \<le> n \<longrightarrow> c \<le> nextBaseFee c n) \<and>
    (\<forall>m \<le> n. nextBaseFee c m \<le> nextBaseFee c n) \<and>
    (\<forall>k. n = k * targetBlockSizeBytes \<and> 0 < k \<longrightarrow> unat (nextBaseFee c n) = unat c + (unat c * (k - 1) + 4) div 8)"
proof -
  let ?c = "unat c" and ?T = targetBlockSizeBytes
  let ?r = "\<lambda>n. math_Round (base_fee_delta ?c n)"
  have c0: "0 < c" using assms(1) by (auto simp: word_gt_0)
  have u: "int (unat (nextBaseFee c m)) = max 50 (int ?c + ?r m)" if "m \<le> n" for m
    using nextBaseFee_unat [OF c0 assms(2)] that assms(3) by simp
  have mono: "?r m \<le> ?r m'" if "m \<le> m'" for m m' using that by (intro math_Round_mono base_fee_delta_mono)
  have mult: "?r (k * ?T) = int ((?c * (k - 1) + 4) div 8)" if "k * ?T \<le> n" "0 < k" for k
  proof -
    have k: "k \<le> 1024" using that assms(3) by (simp add: targetBlockSizeBytes_def)
    then have "base_fee_delta ?c (k * ?T) = real (?c * (k - 1)) / 8"
      using base_fee_delta_multiple [of ?c k] mult_le_mono [OF assms(2) k] that(2) by (simp add: of_nat_diff)
    then show ?thesis by (simp only: math_Round_eighth)
  qed
  have T: "?r ?T = 0" using base_fee_delta_multiple [of ?c 1] assms(2) by (simp add: math_Round_def)
  note r = base_fee_rounded [OF assms(2,3)]
  show ?thesis
  proof (intro conjI impI allI)
    show "50 \<le> unat (nextBaseFee c n)" using u [of n] by (simp del: of_nat_unat)
    show "?c - (?c + 4) div 8 \<le> unat (nextBaseFee c n)" using u [of n] r(1) by (simp del: of_nat_unat)
    show "unat (nextBaseFee c n) \<le> ?c + (?c + 4) div 8" if "n \<le> 2 * ?T"
      using u [of n] r(3) [OF that] assms(1) by (simp del: of_nat_unat)
    show "nextBaseFee c n \<le> c" if "n \<le> ?T"
      using u [of n] mono [OF that] T assms(1) by (simp add: word_le_nat_alt del: of_nat_unat)
    show "c \<le> nextBaseFee c n" if "?T \<le> n"
      using u [of n] mono [OF that] T by (simp add: word_le_nat_alt del: of_nat_unat)
    show "nextBaseFee c m \<le> nextBaseFee c n" if "m \<le> n" for m
      using u [of n] u [OF that] mono [OF that] by (simp add: word_le_nat_alt del: of_nat_unat)
    show "unat (nextBaseFee c n) = ?c + (?c * (k - 1) + 4) div 8" if "n = k * ?T \<and> 0 < k" for k
      using u [of n] mult [of k] that assms(1) by (simp add: max_def del: of_nat_unat)
  qed
qed

text \<open>C18: The guardian allocation stops the chain.  At its activation height the version policy demands exactly one guardian
  transaction, which pays no fee, while the fee policy, once it applies, does not exempt it and demands the minimum fee: no
  block of that height passes both, whatever it contains.\<close>

theorem guardian_height_unreachable:
  assumes "0 < ec_GuardianFundActivationHeight C" and "height_of b = ec_GuardianFundActivationHeight C"
    and "ec_RingCTV4ActivationHeight C = 0 \<or> ec_RingCTV4ActivationHeight C \<le> height_of b"
  shows "\<not> (validateBlockEconomics C S b = Inr () \<and> validateRingCTV4Activation K J C S lpod b = Inr ())"
proof
  assume a: "validateBlockEconomics C S b = Inr () \<and> validateRingCTV4Activation K J C S lpod b = Inr ()"
  let ?f = "expectedBaseFeeAt C S (height_of b)"
  have g: "validateGuardianFund K J C S b = Inr ()" using a by (auto simp: validateRingCTV4Activation_def split: sum.splits)
  obtain s where s: "foldE (economics_step ?f) (enumerate 0 (blk_Txs b)) (0, 0, 0) = Inr s"
    using a assms(3) by (auto simp: validateBlockEconomics_def Let_def not_le split: if_splits sum.splits)
  obtain tx where tx: "tx \<in> set (blk_Txs b)"
    "BuildGuardianFundTx K (ec_GuardianFundChainAnchor C) (ec_GuardianFundActivationHeight C) = Some tx"
    using g assms(1,2) by (rule guardian_block)
  note shape = guardian_tx_shape [OF tx(2)]
  have "unat (MinFeeAt tx ?f) \<le> unat (tx_Fee tx)" using economics_paid [OF s tx(1) shape(3)] by (simp add: fee_paid_def)
  then show False using MinFeeAt_pos [OF shape(2), of ?f] shape(1) by simp
qed

section \<open>Witnesses\<close>

definition econ_reward :: RewardAuthorization where
  "econ_reward = demo_reward\<lparr>ra_Amount := 10000007\<rparr>"

definition econ_reward_tx :: Transaction where
  "econ_reward_tx = demo_coinbase (case EncodeRewardAuthorization econ_reward of Inr b \<Rightarrow> b | Inl _ \<Rightarrow> [])
     [\<lparr>out_OneTimePub = 16, out_TxPubKey = 0, out_AmountCommit = 10000023, out_EncAmount = 0\<rparr>]"

text \<open>A spend of one coin that pays seven units more than the minimum fee.\<close>

definition econ_spend :: Transaction where
  "econ_spend = (empty_tx TxVersionCommitmentBinding)\<lparr>tx_Inputs := [demo_input 9 [] 0], tx_Outputs := [demo_output],
     tx_Fee := 144407\<rparr>"

definition econ_block :: Block where
  "econ_block = \<lparr>blk_Header = \<lparr>bh_Height = 5, bh_PrevHash = 2, bh_MerkleRoot = 0, bh_Timestamp = 1, bh_Round = 0,
     bh_ValidatorPub = [1], bh_OraclePrice = 0, bh_BaseFee = 200, bh_Signature = []\<rparr>, blk_Txs = [econ_reward_tx, econ_spend]\<rparr>"

definition econ_demo_cfg :: econ_cfg where
  "econ_demo_cfg = \<lparr>ec_BlockRewardNAPR = 0, ec_StakingPoolNAPR = 0, ec_TailRewardNAPR = 0, ec_RingCTV4ActivationHeight = 0,
     ec_RingCTCLSAGActivationHeight = 0, ec_AVMActivationHeight = 0, ec_AVMGasBurnActivationHeight = 0,
     ec_RewardAuthorizationActivationHeight = 3, ec_GuardianFundActivationHeight = 0, ec_GuardianFundChainAnchor = 0,
     ec_LPoDMigration = None, ec_SaleMigration = None\<rparr>"

definition econ_demo_state :: econ_state where
  "econ_demo_state = \<lparr>es_chain = NewChain [], es_baseFee = 200, es_stakingPoolInit = 0, es_stakingPoolRemaining = -1,
     es_tailRewardNAPR = 0, es_store = None\<rparr>"

lemmas econ_demo_defs = econ_demo_cfg_def econ_demo_state_def econ_block_def

lemma econ_reward_valid: "ValidateAuthorizedRewardTx reward_lib econ_reward_tx 5 2 [1] = Inr econ_reward"
proof -
  obtain b where b: "EncodeRewardAuthorization econ_reward = Inr b"
    using reward_codec.enc_ok [of econ_reward] by (auto simp: econ_reward_def demo_reward_def)
  have "DecodeRewardAuthorization b = Inr econ_reward" using b by (rule reward_codec.dec_enc)
  moreover have "reward_Validate reward_lib econ_reward 5 2 [1] = Inr ()"
    by (simp add: reward_Validate_def econ_reward_def demo_reward_def reward_lib_def RewardAuthorizationVersion_def
        known_network_def RewardAuthorizationID_def HashBytes_def pub_Verify_def)
  moreover have "reward_output_ok reward_lib econ_reward
      \<lparr>out_OneTimePub = 16, out_TxPubKey = 0, out_AmountCommit = 10000023, out_EncAmount = 0\<rparr> = Inr ()"
    by (simp add: reward_output_ok_def econ_reward_def demo_reward_def reward_lib_def demo_lib_def)
  ultimately show ?thesis
    by (simp add: ValidateAuthorizedRewardTx_def econ_reward_tx_def demo_coinbase_def empty_tx_def b tx_kinds tx_versions)
qed

lemma econ_kinds:
  "IsCoinbase econ_reward_tx" "\<not> IsStake econ_reward_tx" "\<not> IsCoinbase econ_spend" "\<not> IsStake econ_spend" "\<not> IsAVM econ_spend"
  "\<not> fee_exempt econ_spend" "fee_exempt econ_reward_tx" "is_mint econ_reward_tx" "\<not> is_mint econ_spend"
  by (auto simp: econ_reward_tx_def econ_spend_def demo_coinbase_def empty_tx_def demo_input_def tx_kinds tx_versions
      fee_exempt_def is_mint_def)

lemma econ_plain: "\<not> IsLPoD tx \<and> \<not> IsLPoDPosition tx \<and> \<not> IsLPoDPayout tx \<and> \<not> IsSale tx \<and> \<not> IsGuardianFund tx" if "tx \<in> {econ_reward_tx, econ_spend}"
  using that by (auto simp: econ_reward_tx_def econ_spend_def demo_coinbase_def empty_tx_def tx_kinds tx_versions)

lemma econ_spend_fee: "tx_Fee econ_spend = 144407" "MinFeeAt econ_spend 200 = 144400" "BurnAmount econ_spend = (0, False)"
  by (simp_all add: econ_spend_def demo_input_def empty_tx_def MinFeeAt_def tx_Size_def RingSize_def tx_kinds tx_versions max_u64_def
      BurnAmount_def parseIntentionalBurnExtra_def intentionalBurnPrefix_def str_bytes_def)

lemma econ_block_accepted:
  "engine_validateCoinbasePolicy reward_lib econ_demo_cfg econ_demo_state lpod econ_block = Inr ()"
  "validateBlockEconomics econ_demo_cfg econ_demo_state econ_block = Inr ()"
  "validateRingCTV4Activation reward_lib no_json econ_demo_cfg econ_demo_state lpod econ_block = Inr ()"
proof -
  have h: "usesHistoricalMainnetReward reward_lib econ_demo_cfg econ_demo_state 5 = False"
    by (simp add: usesHistoricalMainnetReward_def econ_demo_defs mainnetRewardAuthorizationHeight_def)
  have f: "expectedBaseFeeAt econ_demo_cfg econ_demo_state 5 = 200"
    by (simp add: expectedBaseFeeAt_def expectedBaseFee_def econ_demo_defs lpodActive_def)
  have t: "blockFeeStatsAtHeight econ_demo_cfg [econ_reward_tx, econ_spend] 200 5 = Inr (144400, 7)"
    by (simp add: blockFeeStatsAtHeight_def blockFeeStatsWithAVMGasBurn_def econ_kinds fee_parts_def econ_spend_fee max_u64_def)
  have "expectedAuthorizedRewardAmount reward_lib econ_demo_cfg econ_demo_state econ_block = Inr 10000007"
    by (simp add: expectedAuthorizedRewardAmount_def authorizedRewardAmount_def econ_block_def h f t blockRewardAtHeight_def
        AuthorizedBlockRewardNAPR_def HalvingIntervalBlocks_def max_u64_def)
  moreover have "validateCoinbasePolicy econ_block = Inr ()"
    by (simp add: validateCoinbasePolicy_def econ_block_def coinbase_step_def econ_kinds maxCoinbasesPerBlock_def)
  ultimately show "engine_validateCoinbasePolicy reward_lib econ_demo_cfg econ_demo_state lpod econ_block = Inr ()"
    using econ_reward_valid
    by (simp add: engine_validateCoinbasePolicy_def lpodActive_def econ_demo_defs econ_kinds econ_reward_def)
  show "validateBlockEconomics econ_demo_cfg econ_demo_state econ_block = Inr ()"
    using f by (simp add: validateBlockEconomics_def econ_demo_defs economics_step_def econ_kinds avm_required_def burn_required_def
        econ_spend_fee max_u64_def)
  show "validateRingCTV4Activation reward_lib no_json econ_demo_cfg econ_demo_state lpod econ_block = Inr ()"
    by (simp add: validateRingCTV4Activation_def engine_validateLPoD_def lpodActive_def econ_demo_defs validateGuardianFund_def
        validateGuardianConfig_def guardian_step_def econ_kinds econ_plain validateVersionWithSales_def ValidateTxVersionAtHeight_def)
      (simp add: econ_reward_tx_def econ_spend_def demo_coinbase_def empty_tx_def tx_versions)
qed

theorem block_issuance_exact_witness:
  "\<exists>burned tips auths. unat burned + unat (tips :: u64) = 144407 \<and>
    list_all2 (authorizes reward_lib econ_block) [econ_reward_tx] auths \<and>
    sum_list (map (unat \<circ> ra_Amount) auths) + unat (burned :: u64) = 10000000 + 144407"
proof -
  have r: "unat (blockRewardAtHeight AuthorizedBlockRewardNAPR (height_of econ_block)) = 10000000"
    by (simp add: blockRewardAtHeight_def AuthorizedBlockRewardNAPR_def HalvingIntervalBlocks_def econ_block_def)
  have f: "fees_of (blk_Txs econ_block) = 144407" "filter is_mint (blk_Txs econ_block) = [econ_reward_tx]"
    by (simp_all add: fees_of_def payers_def econ_block_def econ_kinds econ_spend_fee)
  have c: "\<not> lpodActive econ_demo_cfg (height_of econ_block)"
    "\<not> usesHistoricalMainnetReward reward_lib econ_demo_cfg econ_demo_state (height_of econ_block)"
    "ec_RingCTV4ActivationHeight econ_demo_cfg = 0 \<or> ec_RingCTV4ActivationHeight econ_demo_cfg \<le> height_of econ_block"
    "0 < ec_RewardAuthorizationActivationHeight econ_demo_cfg"
    "ec_RewardAuthorizationActivationHeight econ_demo_cfg \<le> height_of econ_block"
    by (simp_all add: lpodActive_def usesHistoricalMainnetReward_def econ_demo_defs mainnetRewardAuthorizationHeight_def)
  show ?thesis
    using block_issuance_exact [OF econ_block_accepted c] unfolding r f by blast
qed

theorem emission_bounded_witness:
  "(\<Sum>h < (2 :: nat) ^ 64. unat (blockRewardAtHeight AuthorizedBlockRewardNAPR (word_of_nat h))) \<le> 420480000000000"
  using emission_bounded [of "2 ^ 64" AuthorizedBlockRewardNAPR] by (simp add: AuthorizedBlockRewardNAPR_def)

theorem base_fee_step_witness:
  "unat (nextBaseFee 200 (2 * targetBlockSizeBytes)) = 225 \<and> unat (nextBaseFee 200 (8 * targetBlockSizeBytes)) = 375 \<and>
   nextBaseFee 200 0 \<le> nextBaseFee 200 (8 * targetBlockSizeBytes)"
proof -
  have "targetBlockSizeBytes \<noteq> 0" by (simp add: targetBlockSizeBytes_def)
  then show ?thesis
    using base_fee_step [of 200 "2 * targetBlockSizeBytes"] base_fee_step [of 200 "8 * targetBlockSizeBytes"] by simp
qed

theorem guardian_height_unreachable_witness:
  "let C = econ_demo_cfg\<lparr>ec_GuardianFundActivationHeight := 5, ec_GuardianFundChainAnchor := 1\<rparr> in
   \<not> (validateBlockEconomics C econ_demo_state econ_block = Inr () \<and>
      validateRingCTV4Activation reward_lib no_json C econ_demo_state (\<lambda>_. Inr ()) econ_block = Inr ())"
  unfolding Let_def by (rule guardian_height_unreachable) (simp_all add: econ_demo_defs)

text \<open>A pool of 700 with rewards of 300 pays 300, 300 and 100, and then the tail reward.\<close>

definition pool_demo_cfg :: econ_cfg where
  "pool_demo_cfg = econ_demo_cfg\<lparr>ec_BlockRewardNAPR := 300, ec_RewardAuthorizationActivationHeight := 0\<rparr>"

definition pool_demo_state :: econ_state where
  "pool_demo_state = econ_demo_state\<lparr>es_stakingPoolInit := 700, es_stakingPoolRemaining := 700, es_tailRewardNAPR := 9\<rparr>"

theorem pool_pays_out_witness:
  "case pool_run pool_demo_cfg 1 5 pool_demo_state of (rs, S') \<Rightarrow>
     length rs = 5 \<and> sum_list (map unat (take 3 rs)) = 700 \<and> es_stakingPoolRemaining S' = 0 \<and> set (drop 3 rs) \<subseteq> {9}"
proof -
  obtain rs S' where run: "pool_run pool_demo_cfg 1 5 pool_demo_state = (rs, S')" by fastforce
  have "\<forall>i < 5. pool_era pool_demo_cfg (1 + word_of_nat i)"
    by (simp add: pool_era_def lpodActive_def pool_demo_cfg_def econ_demo_cfg_def)
  moreover have "0 < es_stakingPoolInit pool_demo_state" "unat (es_stakingPoolRemaining pool_demo_state) < 2 ^ 63"
    and v: "unat (es_stakingPoolRemaining pool_demo_state) = 700" "unat (pool_base pool_demo_cfg) = 300" "es_tailRewardNAPR pool_demo_state = 9"
    by (simp_all add: pool_demo_state_def pool_demo_cfg_def pool_base_def)
  ultimately show ?thesis using pool_pays_out [OF _ _ _ run] by (auto simp: run v)
qed

end
