(* ===== verification/Block_Intake.thy ===== *)
theory Block_Intake
  imports Finality Mempool Economics
begin

text \<open>
  The intake of a block from a peer (\<open>handleIncomingBlock\<close> of \<open>consensus/poa.go\<close> with its helpers in \<open>sale.go\<close> and
  \<open>validator_authority.go\<close>): every check in the order of the code, the application to the output set, the registry and
  the chain, the durable commit, and the reversal when a later step fails.  The engine, the verifier and the registry hold
  pointers to one output set; here the set is a field of the node, and the registry and the verifier are stored without it and see it
  when they are called.  The clock, the answer of the price service, the fingerprint of the registry (a hash of its JSON form), the contract engine, the
  sale store, the settlement of the liquidity reserve, the iteration orders of maps and the callbacks are arguments; log output, fee statistics and the
  answers to waiting admin mints are left out.
\<close>

section \<open>Definitions\<close>

record ('p, 'd, 'f) intake_env =
  ie_cfg :: econ_cfg
  ie_fin :: finality_cfg
  ie_db :: "'f finality_db"
  ie_Validators :: "ValidatorPubKey list"
  ie_keys :: "'d ValidatorRegistry \<Rightarrow> string list"
  ie_epoch :: "'d ValidatorRegistry \<Rightarrow> string list \<times> string list"
  ie_snapshotSHA256 :: "'d ValidatorRegistry option \<Rightarrow> hash32 option"
  ie_now :: u64
  ie_TimestampBanThreshold :: int
  ie_OnTimestampBan :: bool
  ie_OracleURL :: bool
  ie_OracleMaxDeviation :: real
  ie_localPrice :: u64
  ie_lpod :: "Block \<Rightarrow> econ_error + unit"
  ie_lpodSettlement :: "Block \<Rightarrow> bool"
  ie_GenesisVestingActivationHeight :: u64
  ie_PrepareSaleBlock :: "(Block \<Rightarrow> string + bool) option"
  ie_AVMExecutor :: "(Block \<Rightarrow> bool) option"
  ie_OnCanonicalBlock :: "(Block \<Rightarrow> bool) option"
  ie_OnBlockAccepted :: bool
  ie_onRestored :: "UTXOKey \<Rightarrow> string option"
  ie_onDeleted :: "UTXOKey \<Rightarrow> string option"
  ie_MyKey :: "(ValidatorPubKey \<times> (hash32 \<Rightarrow> bytes option)) option"
  ie_curve :: "'p curve"
  ie_rings :: ring_store
  ie_clock :: "nat \<Rightarrow> int"

text \<open>The node: \<open>ns_banned\<close> and \<open>ns_accepted\<close> list the calls of the callbacks \<open>OnTimestampBan\<close> and \<open>OnBlockAccepted\<close>.\<close>

record ('d, 'f) node_state =
  ns_engine :: "'f Engine"
  ns_registry :: "'d ValidatorRegistry option"
  ns_utxos :: "'d UTXOSet option"
  ns_verifier :: "'d TxVerifier option"
  ns_econ :: econ_state
  ns_pool :: mempool
  ns_slashing :: slashingDetector
  ns_timestampRejected :: int
  ns_tsPerValidator :: "string \<rightharpoonup> int"
  ns_banned :: "(ValidatorPubKey \<times> int) list"
  ns_accepted :: "Block list"

datatype intake_error =
    InHalted
  | InAuthorityParent
  | InBlock block_error
  | InTimestamp
  | InNoGenesis
  | InHeight
  | InRound
  | InUnknownValidator
  | InNotProposer
  | InDoubleSign DoubleSignEvidence
  | InOracle
  | InKeyImages econ_error
  | InCoinbase econ_error
  | InFees econ_error
  | InActivation econ_error
  | InStake stake_error
  | InNoVerifier
  | InSaleOverlap
  | InSaleStore
  | InSalePrepare string
  | InVerify verify_error
  | InAvmInactive
  | InAvmExecutor
  | InAvmExecution
  | InLpodSettlement
  | InUtxo apply_error
  | InStakeApply stake_error
  | InFatalRollback
  | InAddBlock chain_error
  | InPersist
  | InPersistFatal

subsection \<open>The shared output set\<close>

definition registry_view :: "('d, 'f) node_state \<Rightarrow> 'd ValidatorRegistry option" where
  "registry_view S = map_option (\<lambda>r. r\<lparr>rg_utxos := ns_utxos S\<rparr>) (ns_registry S)"

definition put_registry :: "'d ValidatorRegistry \<Rightarrow> ('d, 'f) node_state \<Rightarrow> ('d, 'f) node_state" where
  "put_registry r S = S\<lparr>ns_registry := Some (r\<lparr>rg_utxos := None\<rparr>), ns_utxos := rg_utxos r\<rparr>"

abbreviation chain_of :: "('d, 'f) node_state \<Rightarrow> Chain" where
  "chain_of S \<equiv> en_chain (ns_engine S)"

definition set_chain :: "Chain \<Rightarrow> ('d, 'f) node_state \<Rightarrow> ('d, 'f) node_state" where
  "set_chain c S = S\<lparr>ns_engine := (ns_engine S)\<lparr>en_chain := c\<rparr>\<rparr>"

definition halt :: "('d, 'f) node_state \<Rightarrow> ('d, 'f) node_state" where
  "halt S = S\<lparr>ns_engine := (ns_engine S)\<lparr>en_halted := True\<rparr>\<rparr>"

definition econ_view :: "('d, 'f) node_state \<Rightarrow> econ_state" where
  "econ_view S = (ns_econ S)\<lparr>es_chain := chain_of S\<rparr>"

definition active_set :: "('p, 'd, 'f) intake_env \<Rightarrow> ('d, 'f) node_state \<Rightarrow> ValidatorPubKey list" where
  "active_set E S = activeValidators (ie_Validators E) (case ns_registry S of None \<Rightarrow> [] | Some r \<Rightarrow> ie_keys E r) (ns_registry S)"

subsection \<open>Checks on the header\<close>

definition checkAuthorityParent :: "('p, 'd, 'f) intake_env \<Rightarrow> ('d, 'f) node_state \<Rightarrow> BlockHeader \<Rightarrow> bool" where
  "checkAuthorityParent E S header =
     (case cfg_fork (ie_fin E) of None \<Rightarrow> True
      | Some f \<Rightarrow> CheckParent (Some f) header \<and>
          (bh_Height header = vf_Height f \<longrightarrow> ie_snapshotSHA256 E (registry_view S) = Some (vf_RegistrySHA256 f)))"

definition maxClockSkewNs :: int where "maxClockSkewNs = 15 * 1000000000"

text \<open>The difference of two \<open>int64\<close> timestamps wraps.\<close>

definition clock_skew :: "('p, 'd, 'f) intake_env \<Rightarrow> Block \<Rightarrow> int" where
  "clock_skew E b = sint (bh_Timestamp (blk_Header b) - ie_now E)"

definition reject_timestamp :: "('p, 'd, 'f) intake_env \<Rightarrow> Block \<Rightarrow> ('d, 'f) node_state \<Rightarrow> ('d, 'f) node_state" where
  "reject_timestamp E b S =
     (let S = S\<lparr>ns_timestampRejected := ns_timestampRejected S + 1\<rparr>;
          pub = bh_ValidatorPub (blk_Header b)
      in if 0 < ie_TimestampBanThreshold E \<and> ie_OnTimestampBan E then
           let cnt = (case ns_tsPerValidator S (pub_ID pub) of None \<Rightarrow> 0 | Some n \<Rightarrow> n) + 1;
               S = S\<lparr>ns_tsPerValidator := (ns_tsPerValidator S)(pub_ID pub \<mapsto> cnt)\<rparr>
           in if ie_TimestampBanThreshold E \<le> cnt then S\<lparr>ns_banned := ns_banned S @ [(pub, cnt)]\<rparr> else S
         else S)"

definition check_position :: "('p, 'd, 'f) intake_env \<Rightarrow> ('d, 'f) node_state \<Rightarrow> Block \<Rightarrow> intake_error + unit" where
  "check_position E S b =
     (let h = blk_Header b in
      case ch_tip (chain_of S) of None \<Rightarrow> Inl InNoGenesis
      | Some tip \<Rightarrow>
          if height_of tip = max_u64 \<or> bh_Height h \<noteq> height_of tip + 1 then Inl InHeight
          else if bh_Round (blk_Header tip) = 0xFFFFFFFF \<or> bh_Round h \<noteq> bh_Round (blk_Header tip) + 1 then Inl InRound
          else if \<not> isKnownValidator (active_set E S) (bh_ValidatorPub h) then Inl InUnknownValidator
          else case proposerAt (active_set E S) (bh_Round h) of
            Some expected \<Rightarrow> if expected \<noteq> bh_ValidatorPub h then Inl InNotProposer else Inr ()
          | None \<Rightarrow> Inr ())"

subsection \<open>Checks on the contents\<close>

text \<open>The deviation is computed with doubles; the local price comes from the price service and is 0 when the request fails.\<close>

definition checkOraclePriceDeviation :: "('p, 'd, 'f) intake_env \<Rightarrow> u64 \<Rightarrow> bool" where
  "checkOraclePriceDeviation E blockPrice =
     (if \<not> ie_OracleURL E \<or> ie_OracleMaxDeviation E \<le> 0 \<or> blockPrice = 0 then True
      else let localPrice = ie_localPrice E in
        if localPrice = 0 then True
        else let lp = fl64 (real (unat localPrice));
                 deviation = fl64 (\<bar>fl64 (fl64 (real (unat blockPrice)) - lp)\<bar> / lp)
             in \<not> ie_OracleMaxDeviation E < deviation)"

definition prepareSale :: "('p, 'd, 'f) intake_env \<Rightarrow> Block \<Rightarrow> intake_error + bool" where
  "prepareSale E b =
     (let gv = ie_GenesisVestingActivationHeight E; migration = ec_SaleMigration (ie_cfg E) in
      if gv \<noteq> 0 \<and> (case migration of None \<Rightarrow> False | Some m \<Rightarrow> m \<le> gv) then Inl InSaleOverlap
      else case ie_PrepareSaleBlock E of
        None \<Rightarrow>
          if list_ex IsSale (blk_Txs b) then Inl InSaleStore
          else if (case migration of None \<Rightarrow> False | Some m \<Rightarrow> m \<le> height_of b) then Inl InSaleStore
          else Inr False
      | Some prepare \<Rightarrow> (case prepare b of Inl e \<Rightarrow> Inl (InSalePrepare e) | Inr prepared \<Rightarrow> Inr prepared))"

definition verifyBlockWithSales :: "lib \<Rightarrow> jsonlib \<Rightarrow> 'd leveldb \<Rightarrow> ('p::ab_group_add, 'd, 'f) intake_env \<Rightarrow> 'd TxVerifier \<Rightarrow> Block
    \<Rightarrow> intake_error + unit" where
  "verifyBlockWithSales K J L E v b =
     (let verify = (\<lambda>b. case VerifyBlock K J (ie_curve E) L (ie_rings E) (ie_clock E) v (Some b) of
                          Inl e \<Rightarrow> Inl (InVerify e) | Inr _ \<Rightarrow> Inr ())
      in case prepareSale E b of Inl e \<Rightarrow> Inl e
      | Inr prepared \<Rightarrow>
          if \<not> prepared then verify b
          else verify (b\<lparr>blk_Txs := filter (\<lambda>tx. \<not> IsSale tx) (blk_Txs b)\<rparr>))"

definition prepareAVMOnly :: "('p, 'd, 'f) intake_env \<Rightarrow> Block \<Rightarrow> intake_error + unit" where
  "prepareAVMOnly E b =
     (let activation = ec_AVMActivationHeight (ie_cfg E) in
      if activation = 0 \<or> height_of b < activation then
        (if list_ex IsAVM (blk_Txs b) then Inl InAvmInactive else Inr ())
      else case ie_AVMExecutor E of None \<Rightarrow> Inl InAvmExecutor
      | Some execute \<Rightarrow> if execute b then Inr () else Inl InAvmExecution)"

definition prepareAVMBlock :: "('p, 'd, 'f) intake_env \<Rightarrow> Block \<Rightarrow> intake_error + unit" where
  "prepareAVMBlock E b =
     (case prepareAVMOnly E b of Inl e \<Rightarrow> Inl e
      | Inr _ \<Rightarrow>
          if lpodActive (ie_cfg E) (height_of b) \<and> \<not> ie_lpodSettlement E b then Inl InLpodSettlement
          else case prepareSale E b of Inl e \<Rightarrow> Inl e | Inr _ \<Rightarrow> Inr ())"

definition check_contents :: "lib \<Rightarrow> jsonlib \<Rightarrow> 'd leveldb \<Rightarrow> ('p::ab_group_add, 'd, 'f) intake_env \<Rightarrow> ('d, 'f) node_state \<Rightarrow> Block
    \<Rightarrow> intake_error + unit" where
  "check_contents K J L E S b =
     (if \<not> checkOraclePriceDeviation E (bh_OraclePrice (blk_Header b)) then Inl InOracle
      else case blockKeyImageCheck b of Inl e \<Rightarrow> Inl (InKeyImages e) | Inr _ \<Rightarrow>
      (case engine_validateCoinbasePolicy K (ie_cfg E) (econ_view S) (ie_lpod E) b of Inl e \<Rightarrow> Inl (InCoinbase e) | Inr _ \<Rightarrow>
      (case validateBlockEconomics (ie_cfg E) (econ_view S) b of Inl e \<Rightarrow> Inl (InFees e) | Inr _ \<Rightarrow>
      (case validateRingCTV4Activation K J (ie_cfg E) (econ_view S) (ie_lpod E) b of Inl e \<Rightarrow> Inl (InActivation e) | Inr _ \<Rightarrow>
      (case (case registry_view S of None \<Rightarrow> Inr () | Some r \<Rightarrow> ValidateBlockStakeTxs K L (blk_Txs b) (height_of b) r) of
         Inl e \<Rightarrow> Inl (InStake e) | Inr _ \<Rightarrow>
      (case ns_verifier S of None \<Rightarrow> Inl InNoVerifier
       | Some v \<Rightarrow>
           (case verifyBlockWithSales K J L E (v\<lparr>tv_utxos := ns_utxos S\<rparr>) b of Inl e \<Rightarrow> Inl e
            | Inr _ \<Rightarrow> prepareAVMBlock E b)))))))"

subsection \<open>Application and reversal\<close>

definition apply_utxos :: "lib \<Rightarrow> 'd leveldb \<Rightarrow> Block \<Rightarrow> ('d, 'f) node_state \<Rightarrow> apply_error + ('d, 'f) node_state" where
  "apply_utxos K L b S =
     (case ns_utxos S of None \<Rightarrow> Inr S
      | Some us \<Rightarrow> (case ApplyBlock K L b us of Inl e \<Rightarrow> Inl e | Inr us' \<Rightarrow> Inr (S\<lparr>ns_utxos := Some us'\<rparr>)))"

text \<open>The rollback of the output set and whether it reported an error.\<close>

definition rollback_utxos :: "lib \<Rightarrow> 'd leveldb \<Rightarrow> ('p, 'd, 'f) intake_env \<Rightarrow> Block \<Rightarrow> ('d, 'f) node_state \<Rightarrow> ('d, 'f) node_state \<times> bool" where
  "rollback_utxos K L E b S =
     (case ns_utxos S of None \<Rightarrow> (S, False)
      | Some us \<Rightarrow> (case RollbackBlock K L (ie_onRestored E) (ie_onDeleted E) b us of
                     (us', err) \<Rightarrow> (S\<lparr>ns_utxos := Some us'\<rparr>, err \<noteq> None)))"

definition apply_stakes :: "lib \<Rightarrow> 'd leveldb \<Rightarrow> Block \<Rightarrow> ('d, 'f) node_state \<Rightarrow> ('d, 'f) node_state \<times> (stake_error + stake_rollback option)" where
  "apply_stakes K L b S =
     (case registry_view S of None \<Rightarrow> (S, Inr None)
      | Some r \<Rightarrow> (case ApplyBlockStakeTxs K L (blk_Txs b) (height_of b) r of
                    (r', Inl e) \<Rightarrow> (put_registry r' S, Inl e)
                  | (r', Inr rb) \<Rightarrow> (put_registry r' S, Inr (Some rb))))"

definition stakeRollback :: "stake_rollback option \<Rightarrow> ('d, 'f) node_state \<Rightarrow> ('d, 'f) node_state" where
  "stakeRollback orb S =
     (case orb of None \<Rightarrow> S
      | Some rb \<Rightarrow> (case registry_view S of None \<Rightarrow> S | Some r \<Rightarrow> put_registry (run_rollback rb r) S))"

definition rollbackUnpersistedBlock :: "lib \<Rightarrow> 'd leveldb \<Rightarrow> ('p, 'd, 'f) intake_env \<Rightarrow> Block \<Rightarrow> stake_rollback option \<Rightarrow> ('d, 'f) node_state
    \<Rightarrow> ('d, 'f) node_state \<times> bool" where
  "rollbackUnpersistedBlock K L E b orb S =
     (let (S, chain_failed) = (case RollbackLastBlock K b (chain_of S) of Inl _ \<Rightarrow> (S, True) | Inr c \<Rightarrow> (set_chain c S, False));
          (S, utxo_failed) = rollback_utxos K L E b S
      in (stakeRollback orb S, chain_failed \<or> utxo_failed))"

definition failCanonicalPersistence :: "lib \<Rightarrow> 'd leveldb \<Rightarrow> ('p, 'd, 'f) intake_env \<Rightarrow> Block \<Rightarrow> stake_rollback option \<Rightarrow> ('d, 'f) node_state
    \<Rightarrow> ('d, 'f) node_state \<times> intake_error" where
  "failCanonicalPersistence K L E b orb S =
     (case rollbackUnpersistedBlock K L E b orb S of (S, failed) \<Rightarrow> (halt S, if failed then InPersistFatal else InPersist))"

subsection \<open>After the commit\<close>

definition SetSignatureAdmissionHeight :: "u64 \<Rightarrow> 'd ValidatorRegistry \<Rightarrow> 'd ValidatorRegistry" where
  "SetSignatureAdmissionHeight nextHeight r = r\<lparr>rg_signatureAdmissionHeight := nextHeight\<rparr>"

definition update_base_fee :: "Block \<Rightarrow> ('d, 'f) node_state \<Rightarrow> ('d, 'f) node_state" where
  "update_base_fee b S =
     (let fee = bh_BaseFee (blk_Header b);
          newFee = nextBaseFee (if fee = 0 then expectedBaseFee (ns_econ S) else fee) (block_Size b)
      in S\<lparr>ns_econ := (ns_econ S)\<lparr>es_baseFee := newFee\<rparr>, ns_pool := SetBaseFee newFee (ns_pool S)\<rparr>)"

definition update_registry :: "('p, 'd, 'f) intake_env \<Rightarrow> Block \<Rightarrow> ('d, 'f) node_state \<Rightarrow> ('d, 'f) node_state" where
  "update_registry E b S =
     (case ns_registry S of None \<Rightarrow> S
      | Some r \<Rightarrow>
          if height_of b mod EpochLength = 0 then
            (case ie_epoch E r of (pending, ranked) \<Rightarrow>
               S\<lparr>ns_registry := Some (fst (UpdateEpoch (height_of b) pending ranked (ie_keys E r) r))\<rparr>)
          else S)"

definition cast_own_vote :: "lib \<Rightarrow> ('p, 'd, 'f) intake_env \<Rightarrow> Block \<Rightarrow> ('d, 'f) node_state \<Rightarrow> ('d, 'f) node_state" where
  "cast_own_vote K E b S =
     (case ie_MyKey E of None \<Rightarrow> S
      | Some (me, sign) \<Rightarrow>
          S\<lparr>ns_engine := fst (castVote K (ie_fin E) (ie_db E) (active_set E S) me sign b (ns_engine S))\<rparr>)"

definition finish_intake :: "lib \<Rightarrow> ('p, 'd, 'f) intake_env \<Rightarrow> Block \<Rightarrow> ('d, 'f) node_state \<Rightarrow> ('d, 'f) node_state" where
  "finish_intake K E b S =
     (let S = S\<lparr>ns_registry := map_option (SetSignatureAdmissionHeight (height_of b + 1)) (ns_registry S)\<rparr>;
          S = update_base_fee b S;
          S = update_registry E b S;
          S = S\<lparr>ns_pool := RemoveBlock K b (ns_pool S)\<rparr>;
          S = (if ie_OnBlockAccepted E then S\<lparr>ns_accepted := ns_accepted S @ [b]\<rparr> else S);
          S = cast_own_vote K E b S
      in S\<lparr>ns_engine := replayFutureVotes K (ie_fin E) (ie_db E) (active_set E S) b (ns_engine S)\<rparr>)"

definition commit_block :: "lib \<Rightarrow> 'd leveldb \<Rightarrow> ('p, 'd, 'f) intake_env \<Rightarrow> Block \<Rightarrow> ('d, 'f) node_state
    \<Rightarrow> ('d, 'f) node_state \<times> intake_error option" where
  "commit_block K L E b S =
     (case apply_utxos K L b S of Inl e \<Rightarrow> (S, Some (InUtxo e))
      | Inr S1 \<Rightarrow>
      (case apply_stakes K L b S1 of
         (S2, Inl e) \<Rightarrow>
           (case rollback_utxos K L E b S2 of (S3, failed) \<Rightarrow>
              if failed then (halt S3, Some InFatalRollback) else (S3, Some (InStakeApply e)))
       | (S2, Inr orb) \<Rightarrow>
           (case AddBlock K b (chain_of S2) of
              Inl e \<Rightarrow>
                (case rollback_utxos K L E b S2 of (S3, failed) \<Rightarrow>
                   let S4 = stakeRollback orb S3
                   in if failed then (halt S4, Some InFatalRollback) else (S4, Some (InAddBlock e)))
            | Inr c \<Rightarrow>
                let S3 = set_chain c S2
                in if (case ie_OnCanonicalBlock E of None \<Rightarrow> False | Some persist \<Rightarrow> persist b)
                   then (finish_intake K E b S3, None)
                   else (case failCanonicalPersistence K L E b orb S3 of (S4, e) \<Rightarrow> (S4, Some e)))))"

definition handleIncomingBlock :: "lib \<Rightarrow> jsonlib \<Rightarrow> 'd leveldb \<Rightarrow> ('p::ab_group_add, 'd, 'f) intake_env \<Rightarrow> Block \<Rightarrow> ('d, 'f) node_state
    \<Rightarrow> ('d, 'f) node_state \<times> intake_error option" where
  "handleIncomingBlock K J L E b S =
     (let h = blk_Header b in
      if en_halted (ns_engine S) then (S, Some InHalted)
      else if \<not> checkAuthorityParent E S h then (S, Some InAuthorityParent)
      else case block_Validate K J b [Authority (cfg_fork (ie_fin E)) (bh_ValidatorPub h) (bh_Height h)] of
        Inl e \<Rightarrow> (S, Some (InBlock e))
      | Inr _ \<Rightarrow>
          if maxClockSkewNs < clock_skew E b then (reject_timestamp E b S, Some InTimestamp)
          else case check_position E S b of Inl e \<Rightarrow> (S, Some e)
          | Inr _ \<Rightarrow>
              case CheckBlock (bh_Height h) (bh_Round h) (bh_ValidatorPub h) (block_Hash K b) (bh_Signature h) (ns_slashing S) of
                (sd, Some ev) \<Rightarrow> (S\<lparr>ns_slashing := sd\<rparr>, Some (InDoubleSign ev))
              | (sd, None) \<Rightarrow>
                  let S = S\<lparr>ns_slashing := sd\<rparr>
                  in case check_contents K J L E S b of Inl e \<Rightarrow> (S, Some e)
                  | Inr _ \<Rightarrow> commit_block K L E b S)"

section \<open>Burned collateral was there before the block\<close>

lemma dry_tx_burn:
  assumes "dry_tx K L r height bim (i, tx) s = Inr s'" and "IsStake tx" and "tx_burn tx = Some k" and "rg_utxos r = Some us"
  shows "us_utxos us k \<noteq> None"
proof -
  let ?x = "tx_Extra tx"
  have found: "us_utxos us (burn_key p) \<noteq> None" if "find_burn r p = Inr u" for p :: "'z stake_v2_scheme" and u
    using that assms(4) by (auto simp: find_burn_def Get_def burn_key_def split: option.splits)
  have k: "k = burn_key p" if "tx_label tx = Some (deposit_label p)" for p :: "'z stake_v2_scheme"
    using that assms(3) by (auto simp: tx_burn_def deposit_label_def)
  consider (v1) p where "DecodeStakeExtra ?x = Inr p" | (w2) a where "length ?x \<noteq> StakePayloadSize" "DecodeStakeWithdrawalExtraV2 ?x = Inr a"
    | (v2) p where "DecodeStakeExtraV2 ?x = Inr p" "dry_v2 K r height i p s = Inr s'"
    | (v3) p where "DecodeStakeExtraV3 ?x = Inr p" "dry_v3 K r height i p s = Inr s'"
    | (v4) p where "DecodeStakeExtraV4 ?x = Inr p" "dry_v4 K L r height bim i p s = Inr s'"
    using assms(1,2) by (auto simp: dry_tx_def Let_def split: if_splits sum.splits)
  then show ?thesis
  proof cases
    case v1
    then show ?thesis using assms(3) by (auto simp: tx_burn_def tx_label_def split: if_splits)
  next
    case w2
    then have "DecodeStakeExtra ?x = Inl (case DecodeStakeExtra ?x of Inl e \<Rightarrow> e)"
      by (auto simp: DecodeStakeExtra_def)
    then have "tx_label tx = Some (Authorized (sw_PubKey a) (sw_Nonce a)
          (if sw_Action a = StakeWithdraw then Exits (sw_PubKey a) else Reduces (sw_PubKey a) (sw_Amount a)))"
      using w2 by (simp add: tx_label_def split: sum.splits)
    then show ?thesis using assms(3) by (simp add: tx_burn_def)
  next
    case (v2 p)
    then obtain u where "find_burn r p = Inr u" by (auto simp: dry_v2_def check_burn_v2_def split: sum.splits)
    then show ?thesis using found k [OF tx_label_deposit(1) [OF v2(1)]] by simp
  next
    case (v3 p)
    then obtain u where "find_burn r p = Inr u" by (auto simp: dry_v3_def check_burn_v3_def split: sum.splits)
    then show ?thesis using found k [OF tx_label_deposit(2) [OF v3(1)]] by simp
  next
    case (v4 p)
    then have "us_utxos us (burn_key p) \<noteq> None" using assms(4)
      by (auto simp: dry_v4_def validateStakeDepositV4_def Get_def burn_key_def split: if_splits sum.splits option.splits)
    then show ?thesis using k [OF tx_label_deposit(3) [OF v4(1)]] by simp
  qed
qed

lemma dry_run_burns:
  assumes "ValidateBlockStakeTxs K L txs height r = Inr ()" and "k \<in> block_burns txs" and "rg_utxos r = Some us"
  shows "us_utxos us k \<noteq> None"
proof -
  obtain tx where tx: "tx \<in> set txs" "IsStake tx" "tx_burn tx = Some k" using assms(2) by (auto simp: block_burns_def)
  obtain s s' where f: "foldE (dry_tx K L r height (block_input_images K txs)) (enumerate 0 txs) s = Inr s'"
    using assms(1) by (auto simp: ValidateBlockStakeTxs_def split: sum.splits)
  obtain i where "(i, tx) \<in> set (enumerate 0 txs)" using enumerate_elem [OF tx(1)] by blast
  from foldE_step_ok [OF f this] show ?thesis using dry_tx_burn tx(2,3) assms(3) by blast
qed

section \<open>Locking collateral commutes with the block\<close>

text \<open>An output locked after the block could have been locked before it, with the same difference between the states.\<close>

lemma mark_mid:
  assumes r: "rollback_ready K b s0" and m: "mid K b s0 n es s" and ix: "stake_index_ok {k} s0"
    and k0: "us_utxos s0 k \<noteq> None" and mk: "mark_key k s = Inr t"
  shows "\<exists>t0. mark_key k s0 = Inr t0 \<and> rollback_ready K b t0 \<and> mid K b t0 n es t"
proof -
  let ?out = "set (block_out_keys K b)" and ?pubs = "set (block_out_pubs b)"
  obtain u where u: "us_stakedUTXOs s k = None" "us_utxos s k = Some u"
    "t = s\<lparr>us_byPubKey := (us_byPubKey s)(u_OneTimePub u := None), us_utxos := (us_utxos s)(k := None),
         us_stakedUTXOs := (us_stakedUTXOs s)(k \<mapsto> u)\<rparr>" using mk by (auto simp: mark_key_Inr)
  have out: "k \<notin> ?out" using r k0 by (auto simp: rollback_ready_def)
  then have "us_utxos s k = (if k \<in> (\<lambda>e. utxo_key (re_utxo e)) ` set es then None else us_utxos s0 k)"
    using m unfolding mid_def by blast
  then have k: "us_utxos s0 k = Some u" "k \<notin> (\<lambda>e. utxo_key (re_utxo e)) ` set es"
    using u(2) by (metis option.distinct(1))+
  have iu: "utxo_key u = k" "us_byPubKey s0 (u_OneTimePub u) = Some u" using ix k(1) by (auto simp: stake_index_ok_def)
  define t0 where "t0 = s0\<lparr>us_byPubKey := (us_byPubKey s0)(u_OneTimePub u := None), us_utxos := (us_utxos s0)(k := None),
         us_stakedUTXOs := (us_stakedUTXOs s0)(k \<mapsto> u)\<rparr>"
  have staked: "us_stakedUTXOs s = us_stakedUTXOs s0" using m by (simp add: mid_def)
  have "mark_key k s0 = Inr t0" using u(1) k(1) staked by (auto simp: mark_key_Inr t0_def)
  moreover have "index_ok t0"
    unfolding index_ok_def
  proof (intro allI impI)
    fix p v assume "us_byPubKey t0 p = Some v"
    then have v: "p \<noteq> u_OneTimePub u" "us_byPubKey s0 p = Some v" by (auto simp: t0_def split: if_splits)
    then have w: "u_OneTimePub v = p" "us_utxos s0 (utxo_key v) = Some v" using r by (auto simp: rollback_ready_def index_ok_def)
    then have "utxo_key v \<noteq> k" using k(1) v(1) by auto
    then show "u_OneTimePub v = p \<and> us_utxos t0 (utxo_key v) = Some v" using w by (simp add: t0_def)
  qed
  then have "rollback_ready K b t0" using r by (auto simp: rollback_ready_def t0_def dom_def)
  moreover have "re_ringMember e \<noteq> u_OneTimePub u" if "e \<in> set es" for e
  proof
    assume e: "re_ringMember e = u_OneTimePub u"
    have "us_byPubKey s0 (re_ringMember e) = Some (re_utxo e)"
      using m that e iu(2) r by (auto simp: mid_def rollback_ready_def)
    then have "re_utxo e = u" using e iu(2) by simp
    then show False using k(2) that iu(1) by auto
  qed
  then have "mid K b t0 n es t" using m u(3) by (auto simp: mid_def t0_def)
  ultimately show ?thesis by blast
qed

lemma marks_mid:
  assumes "rollback_ready K b s0" and "mid K b s0 n es s" and "stake_index_ok G s0" and "set keys \<subseteq> G"
    and "\<forall>k \<in> G. us_utxos s0 k \<noteq> None \<or> us_stakedUTXOs s0 k \<noteq> None" and "foldE mark_key keys s = Inr t"
  shows "\<exists>t0. foldE mark_key keys s0 = Inr t0 \<and> rollback_ready K b t0 \<and> mid K b t0 n es t"
  using assms
proof (induction keys arbitrary: s0 s)
  case (Cons k keys)
  obtain s1 where s1: "mark_key k s = Inr s1" "foldE mark_key keys s1 = Inr t" using Cons.prems(6) by (auto split: sum.splits)
  have k: "k \<in> G" using Cons.prems(4) by simp
  have "us_stakedUTXOs s0 k = None" using s1(1) Cons.prems(2) by (auto simp: mark_key_Inr mid_def)
  then have k0: "us_utxos s0 k \<noteq> None" using Cons.prems(5) k by blast
  have "stake_index_ok {k} s0" using Cons.prems(3) k by (auto simp: stake_index_ok_def)
  from mark_mid [OF Cons.prems(1,2) this k0 s1(1)] obtain t0 where
    t0: "mark_key k s0 = Inr t0" "rollback_ready K b t0" "mid K b t0 n es s1" by blast
  have ix: "stake_index_ok G t0" using collateral.mark_inv [OF Cons.prems(3) k t0(1)] .
  have "\<forall>l \<in> G. us_utxos t0 l \<noteq> None \<or> us_stakedUTXOs t0 l \<noteq> None"
  proof
    fix l assume "l \<in> G"
    then show "us_utxos t0 l \<noteq> None \<or> us_stakedUTXOs t0 l \<noteq> None"
      using Cons.prems(5) t0(1) by (cases "l = k") (fastforce simp: mark_key_Inr)+
  qed
  from Cons.IH [OF t0(2,3) ix _ this s1(2)] Cons.prems(4) t0(1) show ?case by simp
qed auto

section \<open>Reversal of the output set\<close>

text \<open>Two output sets with the same maps and the same spent images; the list of recent outputs may differ.\<close>

definition same_set :: "lib \<Rightarrow> 'd leveldb \<Rightarrow> 'd UTXOSet \<Rightarrow> 'd UTXOSet \<Rightarrow> bool" where
  "same_set K L s t \<longleftrightarrow> us_utxos t = us_utxos s \<and> us_byPubKey t = us_byPubKey s \<and> us_spentPubKeys t = us_spentPubKeys s \<and>
     us_rollbackJournal t = us_rollbackJournal s \<and> us_stakedUTXOs t = us_stakedUTXOs s \<and> (\<forall>ki. IsSpent K L t ki = IsSpent K L s ki)"

lemma applied_mid:
  assumes "rollback_ready K b s" and "ApplyBlock K L b s = Inr s'"
  shows "\<exists>n es. mid K b s n es s'"
  using mid_txs [OF assms(1) subset_refl mid_start [OF assms(1)], where L = L] assms(2)
  by (auto simp: ApplyBlock_def applyTxsLocked_def block_out_keys_def split: sum.splits)

lemma images_removed:
  assumes "ki_inv K L V (us_keyImages s)" and "rollback_ready K b s" and "ApplyBlock K L b s = Inr s'"
    and "us_keyImages t = foldl (ki_remove K L) (us_keyImages s') (recorded_images K b)"
  shows "IsSpent K L t ki = IsSpent K L s ki"
proof -
  have s': "s' = applyTxsLocked K L b s" and c: "\<exists>p. check_block K L s (blk_Txs b) = Inr p"
    using assms(3) by (auto simp: ApplyBlock_def split: sum.splits)
  have canon: "canonical_ok K" using assms(1) by (simp add: ki_inv_def)
  have "\<forall>k \<in> set (recorded_images K b). \<not> ki_contains K L (us_keyImages s) k"
    using c check_block_fresh ready_images [OF assms(2)] by metis
  moreover have "us_keyImages t = foldl (ki_remove K L) (foldl (ki_insert K L) (us_keyImages s) (recorded_images K b)) (recorded_images K b)"
    using assms(4) by (simp add: s' applyTxsLocked_images)
  ultimately show ?thesis
    using ki.dels_adds [OF assms(1) recorded_normal [OF canon]] ki_normal_norm [OF canon] by (simp add: IsSpent_norm)
qed

lemma index_mid:
  assumes "rollback_ready K b s" and "mid K b s n es s'" and "stake_index_ok G s" and "\<forall>k \<in> G. us_utxos s k \<noteq> None"
  shows "stake_index_ok G s'"
  unfolding stake_index_ok_def
proof (intro ballI allI impI)
  fix k u assume k: "k \<in> G" "us_utxos s' k = Some u"
  have "k \<notin> set (block_out_keys K b)" using assms(1,4) k(1) by (auto simp: rollback_ready_def)
  then have "us_utxos s' k = (if k \<in> (\<lambda>e. utxo_key (re_utxo e)) ` set es then None else us_utxos s k)"
    using assms(2) unfolding mid_def by blast
  then have s: "us_utxos s k = Some u" "k \<notin> (\<lambda>e. utxo_key (re_utxo e)) ` set es" using k(2) by (metis option.distinct(1))+
  then have i: "utxo_key u = k" "us_byPubKey s (u_OneTimePub u) = Some u" using assms(3) k(1) by (auto simp: stake_index_ok_def)
  have out: "u_OneTimePub u \<notin> set (block_out_pubs b)" using assms(1) i(2) by (auto simp: rollback_ready_def)
  have "u_OneTimePub u \<notin> re_ringMember ` set es"
  proof
    assume "u_OneTimePub u \<in> re_ringMember ` set es"
    then obtain e where e: "e \<in> set es" "re_ringMember e = u_OneTimePub u" by auto
    then have "us_byPubKey s (re_ringMember e) = Some (re_utxo e)" using assms(2) out unfolding mid_def by metis
    then show False using e i s(2) by auto
  qed
  then show "utxo_key u = k \<and> us_byPubKey s' (u_OneTimePub u) = Some u" using i out assms(2) unfolding mid_def by metis
qed

lemma unmark_maps:
  assumes "us_utxos v = us_utxos w" "us_byPubKey v = us_byPubKey w" "us_stakedUTXOs v = us_stakedUTXOs w"
  shows "us_utxos (foldl (\<lambda>s k. unmark_key k s) v keys) = us_utxos (foldl (\<lambda>s k. unmark_key k s) w keys) \<and>
    us_byPubKey (foldl (\<lambda>s k. unmark_key k s) v keys) = us_byPubKey (foldl (\<lambda>s k. unmark_key k s) w keys) \<and>
    us_stakedUTXOs (foldl (\<lambda>s k. unmark_key k s) v keys) = us_stakedUTXOs (foldl (\<lambda>s k. unmark_key k s) w keys)"
  using assms by (induction keys arbitrary: v w) (simp_all add: unmark_key_def UnmarkStaked_def Let_def split: option.splits)

lemma unmark_frame:
  "us_spentPubKeys (foldl (\<lambda>s k. unmark_key k s) v keys) = us_spentPubKeys v \<and>
   us_rollbackJournal (foldl (\<lambda>s k. unmark_key k s) v keys) = us_rollbackJournal v \<and>
   us_keyImages (foldl (\<lambda>s k. unmark_key k s) v keys) = us_keyImages v"
  by (induction keys arbitrary: v) (simp_all add: unmark_key_def UnmarkStaked_def Let_def split: option.splits)

lemma marks_frame:
  "foldE mark_key keys s = Inr t \<Longrightarrow>
     us_keyImages t = us_keyImages s \<and> us_spentPubKeys t = us_spentPubKeys s \<and> us_rollbackJournal t = us_rollbackJournal s"
  by (induction keys arbitrary: s) (force simp: mark_key_Inr split: sum.splits)+

text \<open>The code takes back the outputs of the block first and releases the collateral afterwards, not in the reverse order of
  application; since the locked outputs were there before the block, the result is the same.\<close>

lemma rollback_after_marks:
  assumes "ki_inv K L V (us_keyImages s)" and r: "rollback_ready K b s" and a: "ApplyBlock K L b s = Inr s'"
    and ix: "stake_index_ok G s" and g: "\<forall>k \<in> G. us_utxos s k \<noteq> None" and keys: "set keys \<subseteq> G"
    and mk: "foldE mark_key keys s' = Inr t"
  shows "same_set K L s (foldl (\<lambda>s k. unmark_key k s) (rb_set (rollback_state K L b t)) keys)"
proof -
  obtain n es where m: "mid K b s n es s'" using applied_mid [OF r a] by blast
  obtain t0 where t0: "foldE mark_key keys s = Inr t0" "rollback_ready K b t0" "mid K b t0 n es t"
    using marks_mid [OF r m ix keys _ mk] g by blast
  define v where "v = rb_set (rollback_state K L b t)"
  note maps = rollback_mid [OF t0(2,3), of L, unfolded Let_def, folded v_def]
  have released: "foldl (\<lambda>s k. unmark_key k s) t0 keys = s" using collateral.release_all [OF ix _ t0(1)] keys by blast
  have "us_keyImages v = foldl (ki_remove K L) (us_keyImages s') (recorded_images K b)" using maps marks_frame [OF mk] by simp
  then have "\<forall>ki. IsSpent K L v ki = IsSpent K L s ki" using images_removed [OF assms(1) r a] by blast
  then show ?thesis
    using maps marks_frame [OF t0(1)] unmark_maps [of v t0 keys] unmark_frame [of v keys] released
    by (simp add: same_set_def IsSpent_norm flip: v_def)
qed

lemma stakes_undo:
  assumes "ApplyBlockStakeTxs K L txs height r = (r', res)" and ix: "\<forall>us. rg_utxos r = Some us \<longrightarrow> stake_index_ok (block_burns txs) us"
  shows "case res of Inl e \<Rightarrow> r' = r
    | Inr rb \<Rightarrow> \<exists>keys. set keys \<subseteq> block_burns txs \<and> burned_since r keys r' \<and>
        (\<forall>x. run_rollback rb (r'\<lparr>rg_utxos := x\<rparr>) = r\<lparr>rg_utxos := map_option (\<lambda>us. foldl (\<lambda>s k. unmark_key k s) us keys) x\<rparr>)"
proof (cases "list_ex IsStake txs")
  case False
  have "burned_since r [] r" by (auto simp: burned_since_def split: option.splits)
  then show ?thesis using assms(1) False
    by (auto simp: ApplyBlockStakeTxs_def run_rollback_def option.map_ident intro!: exI [of _ "[]"])
next
  case True
  let ?G = "block_burns txs"
  have "burned_since r [] r" by (auto simp: burned_since_def split: option.splits)
  from apply_stake_loop_undo [of r ?G, OF _ subset_refl _ this] ix
  have loop: "case apply_stake_loop K L height (rg_validators r) txs [] r of
      (r', Inl e) \<Rightarrow> r' = r | (r', Inr keys') \<Rightarrow> set keys' \<subseteq> ?G \<and> burned_since r keys' r'" by simp
  have undo: "undo_stake (rg_validators r) keys (q\<lparr>rg_utxos := x\<rparr>) = r\<lparr>rg_utxos := map_option (\<lambda>us. foldl (\<lambda>s k. unmark_key k s) us keys) x\<rparr>"
    if "burned_since r keys q" for keys q x
  proof -
    have f: "q\<lparr>rg_validators := rg_validators r, rg_utxos := rg_utxos r\<rparr> = r" using that by (simp add: burned_since_def)
    have "undo_stake (rg_validators r) keys (q\<lparr>rg_utxos := x\<rparr>) =
        q\<lparr>rg_validators := rg_validators r, rg_utxos := rg_utxos r\<rparr>\<lparr>rg_utxos := map_option (\<lambda>us. foldl (\<lambda>s k. unmark_key k s) us keys) x\<rparr>"
      using unburn_all_utxos [of "q\<lparr>rg_utxos := x, rg_validators := rg_validators r\<rparr>" keys] by (simp add: undo_stake_def)
    then show ?thesis unfolding f .
  qed
  with loop True assms(1) show ?thesis
    by (auto simp: ApplyBlockStakeTxs_def run_rollback_def Let_def split: prod.splits sum.splits)
qed

section \<open>Reversal of a node\<close>

text \<open>What the node keeps before a block: the registry is stored without the shared set, the output set satisfies its invariants and has room
  for the block, and the chain was grown from its genesis and does not know the block.\<close>

definition node_ready :: "lib \<Rightarrow> 'd leveldb \<Rightarrow> ('d \<Rightarrow> bytes set) \<Rightarrow> Block \<Rightarrow> ('d, 'f) node_state \<Rightarrow> bool" where
  "node_ready K L V b S \<longleftrightarrow>
     (\<forall>r. ns_registry S = Some r \<longrightarrow> rg_utxos r = None) \<and>
     (\<forall>us. ns_utxos S = Some us \<longrightarrow> ki_inv K L V (us_keyImages us) \<and> rollback_ready K b us \<and> stake_index_ok (block_burns (blk_Txs b)) us) \<and>
     chain_reach K (chain_of S) \<and> block_fresh K b (chain_of S)"

definition stakes_checked :: "lib \<Rightarrow> 'd leveldb \<Rightarrow> Block \<Rightarrow> ('d, 'f) node_state \<Rightarrow> bool" where
  "stakes_checked K L b S \<longleftrightarrow> (case registry_view S of None \<Rightarrow> True | Some r \<Rightarrow> ValidateBlockStakeTxs K L (blk_Txs b) (height_of b) r = Inr ())"

text \<open>The state of the node that a refused block must not change; the slashing detector and the counters of refused timestamps may.\<close>

definition same_node :: "lib \<Rightarrow> 'd leveldb \<Rightarrow> ('d, 'f) node_state \<Rightarrow> ('d, 'f) node_state \<Rightarrow> bool" where
  "same_node K L S T \<longleftrightarrow>
     ns_registry T = ns_registry S \<and> rel_option (same_set K L) (ns_utxos S) (ns_utxos T) \<and>
     (chain_of T = chain_of S \<or> chain_of T = (chain_of S)\<lparr>ch_lastAdd := None\<rparr>) \<and>
     ns_engine T = (ns_engine S)\<lparr>en_chain := chain_of T, en_halted := en_halted (ns_engine T)\<rparr> \<and>
     ns_verifier T = ns_verifier S \<and> ns_econ T = ns_econ S \<and> ns_pool T = ns_pool S \<and> ns_accepted T = ns_accepted S"

lemma RollbackBlock_parts:
  "fst (RollbackBlock K L onRestored onDeleted b s) = rb_set (rollback_state K L b s)"
  "snd (RollbackBlock K L onRestored onDeleted b s) \<noteq> None \<Longrightarrow> \<exists>k. onRestored k \<noteq> None \<or> onDeleted k \<noteq> None"
proof -
  have first: "\<exists>k. cb k \<noteq> None" if "first_failure cb ks \<noteq> None" for cb ks
  proof (rule ccontr)
    assume "\<nexists>k. cb k \<noteq> None"
    then have "cb k = None" for k by blast
    then have "first_failure cb ks = None" by (induction ks) simp_all
    then show False using that by simp
  qed
  show "fst (RollbackBlock K L onRestored onDeleted b s) = rb_set (rollback_state K L b s)" by (simp add: RollbackBlock_def Let_def)
  show "\<exists>k. onRestored k \<noteq> None \<or> onDeleted k \<noteq> None" if "snd (RollbackBlock K L onRestored onDeleted b s) \<noteq> None"
    using that first unfolding RollbackBlock_def Let_def snd_conv by (metis option.case(1) option.exhaust option.simps(5))
qed

lemma rollback_utxos_parts:
  "fst (rollback_utxos K L E b S) = S\<lparr>ns_utxos := map_option (\<lambda>us. rb_set (rollback_state K L b us)) (ns_utxos S)\<rparr>"
  "snd (rollback_utxos K L E b S) \<Longrightarrow> \<exists>k. ie_onRestored E k \<noteq> None \<or> ie_onDeleted E k \<noteq> None"
  using RollbackBlock_parts [of K L "ie_onRestored E" "ie_onDeleted E" b]
  by (auto simp: rollback_utxos_def case_prod_beta split: option.splits)

lemma registry_same [simp]: "rg_utxos r = None \<Longrightarrow> r\<lparr>rg_utxos := None\<rparr> = r"
  by simp

lemma same_set_unmarked:
  assumes "node_ready K L V b S" and "ns_utxos S = Some us" and "ApplyBlock K L b us = Inr us'"
  shows "same_set K L us (rb_set (rollback_state K L b us'))"
  using rollback_after_marks [of K L V us b us' "{}" "[]"] assms by (simp add: node_ready_def stake_index_ok_def)

lemma burns_present:
  assumes "stakes_checked K L b S" and "ns_utxos S = Some us" and "ns_registry S = Some r"
  shows "\<forall>k \<in> block_burns (blk_Txs b). us_utxos us k \<noteq> None"
  using dry_run_burns [of K L "blk_Txs b" "height_of b" "r\<lparr>rg_utxos := Some us\<rparr>" _ us] assms
  by (auto simp: stakes_checked_def registry_view_def)

lemma index_applied:
  assumes "node_ready K L V b S" and "stakes_checked K L b S" and "ns_utxos S = Some us" and "ns_registry S = Some r"
    and "ApplyBlock K L b us = Inr us'"
  shows "stake_index_ok (block_burns (blk_Txs b)) us'"
proof -
  have r: "rollback_ready K b us" "stake_index_ok (block_burns (blk_Txs b)) us" using assms(1,3) by (auto simp: node_ready_def)
  obtain n es where "mid K b us n es us'" using applied_mid [OF r(1) assms(5)] by blast
  from index_mid [OF r(1) this r(2) burns_present [OF assms(2-4)]] show ?thesis .
qed

lemma apply_utxos_parts:
  assumes "apply_utxos K L b S = Inr S1"
  shows "\<exists>x. S1 = S\<lparr>ns_utxos := x\<rparr> \<and> (case ns_utxos S of None \<Rightarrow> x = None | Some us \<Rightarrow> \<exists>us'. x = Some us' \<and> ApplyBlock K L b us = Inr us')"
  using assms by (auto simp: apply_utxos_def split: option.splits sum.splits)

text \<open>Whatever else has changed, reversing the outputs and then the stakes restores the registry and the output set.\<close>

lemma reverse_applied:
  assumes ok: "node_ready K L V b S" "stakes_checked K L b S" and a: "apply_utxos K L b S = Inr S1"
    and st: "apply_stakes K L b S1 = (S2, Inr orb)" and "ns_utxos T = ns_utxos S2" "ns_registry T = ns_registry S2"
  shows "\<exists>x. rel_option (same_set K L) (ns_utxos S) x \<and>
    stakeRollback orb (fst (rollback_utxos K L E b T)) = T\<lparr>ns_registry := ns_registry S, ns_utxos := x\<rparr>"
proof (cases "ns_registry S")
  case None
  obtain y where y: "S1 = S\<lparr>ns_utxos := y\<rparr>"
    "case ns_utxos S of None \<Rightarrow> y = None | Some us \<Rightarrow> \<exists>us'. y = Some us' \<and> ApplyBlock K L b us = Inr us'"
    using apply_utxos_parts [OF a] by blast
  then have s2: "S2 = S1" "orb = None" using st None by (auto simp: apply_stakes_def registry_view_def)
  let ?x = "map_option (\<lambda>us. rb_set (rollback_state K L b us)) y"
  have "rel_option (same_set K L) (ns_utxos S) ?x"
    using y(2) same_set_unmarked [OF ok(1)] by (cases "ns_utxos S") auto
  moreover have "stakeRollback orb (fst (rollback_utxos K L E b T)) = T\<lparr>ns_registry := ns_registry S, ns_utxos := ?x\<rparr>"
    using y(1) s2 assms(5,6) None by (simp add: stakeRollback_def rollback_utxos_parts)
  ultimately show ?thesis by blast
next
  case (Some r)
  have r: "rg_utxos r = None" using ok(1) Some by (auto simp: node_ready_def)
  obtain y where y: "S1 = S\<lparr>ns_utxos := y\<rparr>"
    "case ns_utxos S of None \<Rightarrow> y = None | Some us \<Rightarrow> \<exists>us'. y = Some us' \<and> ApplyBlock K L b us = Inr us'"
    using apply_utxos_parts [OF a] by blast
  obtain r' rb where ap: "ApplyBlockStakeTxs K L (blk_Txs b) (height_of b) (r\<lparr>rg_utxos := y\<rparr>) = (r', Inr rb)" "orb = Some rb"
    "S2 = put_registry r' S1"
    using st y(1) Some by (auto simp: apply_stakes_def registry_view_def split: prod.splits sum.splits)
  have "\<forall>us. rg_utxos (r\<lparr>rg_utxos := y\<rparr>) = Some us \<longrightarrow> stake_index_ok (block_burns (blk_Txs b)) us"
    using y(2) index_applied [OF ok _ Some] by (auto split: option.splits)
  from stakes_undo [OF ap(1) this] obtain keys where keys: "set keys \<subseteq> block_burns (blk_Txs b)"
    "burned_since (r\<lparr>rg_utxos := y\<rparr>) keys r'"
    "\<And>x. run_rollback rb (r'\<lparr>rg_utxos := x\<rparr>) = r\<lparr>rg_utxos := map_option (\<lambda>us. foldl (\<lambda>s k. unmark_key k s) us keys) x\<rparr>"
    by auto
  let ?x = "map_option (\<lambda>us. foldl (\<lambda>s k. unmark_key k s) (rb_set (rollback_state K L b us)) keys) (rg_utxos r')"
  have t: "ns_utxos T = rg_utxos r'" "ns_registry T = Some (r'\<lparr>rg_utxos := None\<rparr>)"
    using assms(5,6) ap(3) by (simp_all add: put_registry_def)
  have "rel_option (same_set K L) (ns_utxos S) ?x"
  proof (cases "ns_utxos S")
    case None
    then show ?thesis using y(2) keys(2) by (auto simp: burned_since_def)
  next
    case us: (Some us)
    then obtain us' t where t: "ApplyBlock K L b us = Inr us'" "rg_utxos r' = Some t" "foldE mark_key keys us' = Inr t"
      using y(2) keys(2) by (auto simp: burned_since_def)
    have "ki_inv K L V (us_keyImages us)" "rollback_ready K b us" "stake_index_ok (block_burns (blk_Txs b)) us"
      using ok(1) us by (auto simp: node_ready_def)
    from rollback_after_marks [OF this(1,2) t(1) this(3) burns_present [OF ok(2) us Some] keys(1) t(3)] show ?thesis
      by (simp add: us t)
  qed
  moreover have "stakeRollback orb (fst (rollback_utxos K L E b T)) = T\<lparr>ns_registry := ns_registry S, ns_utxos := ?x\<rparr>"
    using keys(3) r by (simp add: stakeRollback_def rollback_utxos_parts t ap(2) registry_view_def put_registry_def Some option.map_comp comp_def)
  ultimately show ?thesis by blast
qed

lemma apply_stakes_refused:
  assumes ok: "node_ready K L V b S" "stakes_checked K L b S" and a: "apply_utxos K L b S = Inr S1"
    and st: "apply_stakes K L b S1 = (S2, Inl e)"
  shows "S2 = S1"
proof -
  obtain y where y: "S1 = S\<lparr>ns_utxos := y\<rparr>"
    "case ns_utxos S of None \<Rightarrow> y = None | Some us \<Rightarrow> \<exists>us'. y = Some us' \<and> ApplyBlock K L b us = Inr us'"
    using apply_utxos_parts [OF a] by blast
  obtain r r' where r: "ns_registry S = Some r" "S2 = put_registry r' S1"
    "ApplyBlockStakeTxs K L (blk_Txs b) (height_of b) (r\<lparr>rg_utxos := y\<rparr>) = (r', Inl e)"
    using st y(1) by (auto simp: apply_stakes_def registry_view_def split: option.splits prod.splits sum.splits)
  have "\<forall>us. rg_utxos (r\<lparr>rg_utxos := y\<rparr>) = Some us \<longrightarrow> stake_index_ok (block_burns (blk_Txs b)) us"
    using y(2) index_applied [OF ok _ r(1)] by (auto split: option.splits)
  from stakes_undo [OF r(3) this] have "r' = r\<lparr>rg_utxos := y\<rparr>" by simp
  then show ?thesis using r(1,2) y(1) ok(1) by (simp add: put_registry_def node_ready_def)
qed

text \<open>The errors that stop the engine, and those of them that a failing rollback callback causes.\<close>

definition stops :: "intake_error \<Rightarrow> bool" where
  "stops e \<longleftrightarrow> e \<in> {InFatalRollback, InPersist, InPersistFatal}"

definition callbacks_fail :: "('p, 'd, 'f) intake_env \<Rightarrow> bool" where
  "callbacks_fail E \<longleftrightarrow> (\<exists>k. ie_onRestored E k \<noteq> None \<or> ie_onDeleted E k \<noteq> None)"

lemma same_node_halt [simp]: "same_node K L S (halt T) = same_node K L S T"
  by (cases "ns_engine S"; cases "ns_engine T") (auto simp: same_node_def halt_def)

lemma halted_halt [simp]: "en_halted (ns_engine (halt T))"
  by (simp add: halt_def)

lemma same_node_restored:
  assumes "rel_option (same_set K L) (ns_utxos S) x"
  shows "same_node K L S (S\<lparr>ns_utxos := x\<rparr>)"
    "same_node K L S (S\<lparr>ns_registry := ns_registry S, ns_utxos := x\<rparr>)"
    "same_node K L S ((set_chain ((chain_of S)\<lparr>ch_lastAdd := None\<rparr>) S)\<lparr>ns_registry := ns_registry S, ns_utxos := x\<rparr>)"
  using assms by (simp_all add: same_node_def set_chain_def)

lemma apply_stakes_frame:
  "apply_stakes K L b S = (T, res) \<Longrightarrow> T = S\<lparr>ns_registry := ns_registry T, ns_utxos := ns_utxos T\<rparr>"
  by (auto simp: apply_stakes_def put_registry_def split: option.splits prod.splits sum.splits)

lemma rollback_utxos_fails: "snd (rollback_utxos K L E b S) \<Longrightarrow> callbacks_fail E"
  unfolding callbacks_fail_def by (rule rollback_utxos_parts(2))

text \<open>The reversal after the registry has been changed: when the chain refuses the block, and when the durable commit fails.\<close>

lemma staked_frame:
  assumes "apply_utxos K L b S = Inr S1" and "apply_stakes K L b S1 = (S2, res)"
  shows "\<exists>r x. S2 = S\<lparr>ns_registry := r, ns_utxos := x\<rparr>"
proof -
  obtain y where "S1 = S\<lparr>ns_utxos := y\<rparr>" using apply_utxos_parts [OF assms(1)] by blast
  then have "S2 = S\<lparr>ns_registry := ns_registry S2, ns_utxos := ns_utxos S2\<rparr>" using apply_stakes_frame [OF assms(2)] by simp
  then show ?thesis by blast
qed

lemma late_reversal:
  assumes ok: "node_ready K L V b S" "stakes_checked K L b S" and a: "apply_utxos K L b S = Inr S1"
    and st: "apply_stakes K L b S1 = (S2, Inr orb)"
  shows "same_node K L S (stakeRollback orb (fst (rollback_utxos K L E b S2))) \<and>
    en_halted (ns_engine (stakeRollback orb (fst (rollback_utxos K L E b S2)))) = en_halted (ns_engine S)"
proof -
  obtain r y where s2: "S2 = S\<lparr>ns_registry := r, ns_utxos := y\<rparr>" using staked_frame [OF a st] by blast
  obtain x where "rel_option (same_set K L) (ns_utxos S) x"
    "stakeRollback orb (fst (rollback_utxos K L E b S2)) = S2\<lparr>ns_registry := ns_registry S, ns_utxos := x\<rparr>"
    using reverse_applied [OF ok a st refl refl] by blast
  then show ?thesis using same_node_restored(2) by (simp add: s2)
qed

lemma unpersisted_reversal:
  assumes ok: "node_ready K L V b S" "stakes_checked K L b S" and a: "apply_utxos K L b S = Inr S1"
    and st: "apply_stakes K L b S1 = (S2, Inr orb)" and add: "AddBlock K b (chain_of S2) = Inr c"
  shows "\<exists>Z failed. rollbackUnpersistedBlock K L E b orb (set_chain c S2) = (Z, failed) \<and> same_node K L S Z \<and> (failed \<longrightarrow> callbacks_fail E)"
proof -
  obtain r y where s2: "S2 = S\<lparr>ns_registry := r, ns_utxos := y\<rparr>" using staked_frame [OF a st] by blast
  let ?c = "(chain_of S)\<lparr>ch_lastAdd := None\<rparr>"
  let ?T = "set_chain ?c S2"
  have undone: "RollbackLastBlock K b c = Inr ?c"
    using rollback_add [of K "chain_of S" b c] chain_reach_inv [of K "chain_of S"] ok(1) add s2 by (simp add: node_ready_def)
  have "ns_utxos ?T = ns_utxos S2" "ns_registry ?T = ns_registry S2" by (simp_all add: set_chain_def)
  from reverse_applied [OF ok a st this] obtain z where z: "rel_option (same_set K L) (ns_utxos S) z"
    "stakeRollback orb (fst (rollback_utxos K L E b ?T)) = ?T\<lparr>ns_registry := ns_registry S, ns_utxos := z\<rparr>" by blast
  have "set_chain ?c (set_chain c S2) = ?T" "chain_of (set_chain c S2) = c" by (simp_all add: set_chain_def)
  then have "rollbackUnpersistedBlock K L E b orb (set_chain c S2) =
      (?T\<lparr>ns_registry := ns_registry S, ns_utxos := z\<rparr>, snd (rollback_utxos K L E b ?T))"
    by (simp add: rollbackUnpersistedBlock_def undone case_prod_beta z(2))
  moreover have "same_node K L S (?T\<lparr>ns_registry := ns_registry S, ns_utxos := z\<rparr>)"
    using same_node_restored(3) [OF z(1)] by (simp add: s2 set_chain_def)
  ultimately show ?thesis using rollback_utxos_fails [of K L E b ?T] by blast
qed

text \<open>A block that passed the checks and is then refused at any of the later steps leaves the node as it was.\<close>

lemma commit_atomic:
  assumes ok: "node_ready K L V b S" "stakes_checked K L b S" and run: "\<not> en_halted (ns_engine S)"
    and c: "commit_block K L E b S = (T, Some e)"
  shows "same_node K L S T \<and> (en_halted (ns_engine T) \<longleftrightarrow> stops e) \<and> (e \<in> {InFatalRollback, InPersistFatal} \<longrightarrow> callbacks_fail E)"
proof -
  have self: "rel_option (same_set K L) (ns_utxos S) (ns_utxos S)" by (simp add: option.rel_refl same_set_def)
  have same: "same_node K L S S" using same_node_restored(1) [OF self] by simp
  show ?thesis
  proof (cases "apply_utxos K L b S")
    case (Inl x)
    then show ?thesis using c run same by (auto simp: commit_block_def stops_def)
  next
    case a: (Inr S1)
    obtain y where y: "S1 = S\<lparr>ns_utxos := y\<rparr>"
      "case ns_utxos S of None \<Rightarrow> y = None | Some us \<Rightarrow> \<exists>us'. y = Some us' \<and> ApplyBlock K L b us = Inr us'"
      using apply_utxos_parts [OF a] by blast
    obtain S2 res where st: "apply_stakes K L b S1 = (S2, res)" by fastforce
    show ?thesis
    proof (cases res)
      case (Inl x)
      then have "S2 = S1" using apply_stakes_refused [OF ok a] st by simp
      have "rel_option (same_set K L) (ns_utxos S) (map_option (\<lambda>us. rb_set (rollback_state K L b us)) y)"
        using y(2) same_set_unmarked [OF ok(1)] by (cases "ns_utxos S") auto
      from same_node_restored(1) [OF this] have "same_node K L S (fst (rollback_utxos K L E b S2))"
        by (simp add: rollback_utxos_parts \<open>S2 = S1\<close> y(1))
      moreover have "\<not> en_halted (ns_engine (fst (rollback_utxos K L E b S2)))"
        using run by (simp add: rollback_utxos_parts \<open>S2 = S1\<close> y(1))
      ultimately show ?thesis using c a st Inl rollback_utxos_fails [of K L E b S2]
        by (auto simp: commit_block_def stops_def case_prod_beta split: if_splits)
    next
      case (Inr orb)
      then have st': "apply_stakes K L b S1 = (S2, Inr orb)" using st by simp
      note late = late_reversal [OF ok a st', of E] and unpersisted = unpersisted_reversal [OF ok a st', of _ E]
      show ?thesis
      proof (cases "AddBlock K b (chain_of S2)")
        case (Inl x)
        then show ?thesis using c a st' late run rollback_utxos_fails [of K L E b S2]
          by (auto simp: commit_block_def stops_def case_prod_beta Let_def split: if_splits)
      next
        case (Inr ch)
        then obtain Z failed where "rollbackUnpersistedBlock K L E b orb (set_chain ch S2) = (Z, failed)" "same_node K L S Z"
          "failed \<longrightarrow> callbacks_fail E" using unpersisted by blast
        then show ?thesis using c a st' Inr
          by (auto simp: commit_block_def stops_def failCanonicalPersistence_def Let_def split: if_splits option.splits)
      qed
    qed
  qed
qed

section \<open>Refused blocks\<close>

lemma check_contents_stakes: "check_contents K J L E S b = Inr () \<Longrightarrow> stakes_checked K L b S"
  by (auto simp: check_contents_def stakes_checked_def split: if_splits sum.splits option.splits)

lemma slashing_frame [simp]:
  "node_ready K L V b (S\<lparr>ns_slashing := sd\<rparr>) = node_ready K L V b S"
  "same_node K L (S\<lparr>ns_slashing := sd\<rparr>) T = same_node K L S T"
  "same_node K L S (T\<lparr>ns_slashing := sd\<rparr>) = same_node K L S T"
  by (auto simp: node_ready_def same_node_def)

lemma same_node_refl [simp]: "same_node K L S S"
  by (simp add: same_node_def option.rel_refl same_set_def)

lemma same_node_rejected [simp]: "same_node K L S (reject_timestamp E b S)"
  by (simp add: reject_timestamp_def same_node_def Let_def option.rel_refl same_set_def)

lemma rejected_engine [simp]: "ns_engine (reject_timestamp E b S) = ns_engine S"
  by (simp add: reject_timestamp_def Let_def)

lemma prepare_errors_go_on:
  "prepareSale E b = Inl e \<Longrightarrow> \<not> stops e"
  "verifyBlockWithSales K J L E v b = Inl e \<Longrightarrow> \<not> stops e"
  "prepareAVMBlock E b = Inl e \<Longrightarrow> \<not> stops e"
proof -
  show sale: "\<not> stops e" if "prepareSale E b = Inl e" for e
    using that by (auto simp: stops_def prepareSale_def Let_def split: if_splits sum.splits option.splits)
  show "\<not> stops e" if "verifyBlockWithSales K J L E v b = Inl e"
    using that sale by (auto simp: stops_def verifyBlockWithSales_def Let_def split: if_splits sum.splits)
  have "\<not> stops e" if "prepareAVMOnly E b = Inl e" for e
    using that by (auto simp: stops_def prepareAVMOnly_def Let_def split: if_splits option.splits)
  then show "\<not> stops e" if "prepareAVMBlock E b = Inl e"
    using that sale by (auto simp: prepareAVMBlock_def stops_def split: if_splits sum.splits)
qed

lemma check_errors_go_on:
  "check_position E S b = Inl e \<Longrightarrow> \<not> stops e"
  "check_contents K J L E S b = Inl e \<Longrightarrow> \<not> stops e"
proof -
  show "\<not> stops e" if "check_position E S b = Inl e"
    using that by (auto simp: stops_def check_position_def Let_def split: if_splits option.splits)
  have calm: "\<not> stops InOracle" "\<not> stops InNoVerifier" "\<not> stops (InKeyImages x)" "\<not> stops (InCoinbase x)" "\<not> stops (InFees x)" "\<not> stops (InActivation x)"
    "\<not> stops (InStake y)" for x y by (simp_all add: stops_def)
  show "\<not> stops e" if "check_contents K J L E S b = Inl e"
    using that unfolding check_contents_def by (auto simp: calm split: if_splits sum.splits option.splits dest: prepare_errors_go_on)
qed

text \<open>Either a check refuses the block, or the commit decides.\<close>

lemma intake_cases:
  assumes "handleIncomingBlock K J L E b S = (T, res)" and "\<not> en_halted (ns_engine S)"
  obtains (refused) e where "res = Some e" "\<not> stops e" "same_node K L S T" "ns_engine T = ns_engine S"
  | (passed) sd where "check_position E S b = Inr ()"
      "block_Validate K J b [Authority (cfg_fork (ie_fin E)) (bh_ValidatorPub (blk_Header b)) (height_of b)] = Inr ()"
      "check_contents K J L E (S\<lparr>ns_slashing := sd\<rparr>) b = Inr ()" "commit_block K L E b (S\<lparr>ns_slashing := sd\<rparr>) = (T, res)"
proof -
  have "\<not> stops InAuthorityParent" "\<not> stops InTimestamp" "\<And>x. \<not> stops (InBlock x)" "\<And>x. \<not> stops (InDoubleSign x)"
    by (simp_all add: stops_def)
  then show thesis
    using assms refused passed
    by (auto simp: handleIncomingBlock_def Let_def split: if_splits sum.splits prod.splits option.splits dest: check_errors_go_on)
qed

text \<open>C24: A refused block leaves no trace in the ledger.  When a running engine refuses a block from a peer, whichever of its checks or later steps fails
  (the output set, the registry, the chain or the durable commit), then the registry, the verifier, the fee state, the pool, the votes and certificates of the
  engine and the list of announced blocks are as before, the chain is as before except that it may forget what its last addition replaced, and the output set has the
  same outputs, indices, staked and retained outputs and answers every question whether a key image is spent as before.  (The record of seen blocks for
  double signing, the counters of refused timestamps and the list of recent outputs, which the rollback leaves alone, are not part of this.)  The
  engine stops exactly when the durable commit failed or a rollback reported an error, and a rollback reports an error only if one of the two callbacks of the persistent
  index of outputs fails.  The conditions are those under which the rollback of the output set is exact: the spent set satisfies its invariant, the indices agree, the outputs
  of the block have new identifiers and new keys, the journal holds fewer than 256 heights and not this one, the window of recent outputs has room for the outputs of
  the block, stake transactions of the block have no ring inputs, no ring names a retained spent output under its commitment, and the staked index is accurate
  for the outputs that the block burns; and the chain was grown from its genesis and knows neither the block nor one of its transactions.\<close>

theorem intake_atomic:
  assumes "node_ready K L V b S" and "\<not> en_halted (ns_engine S)" and "handleIncomingBlock K J L E b S = (T, Some e)"
  shows "same_node K L S T \<and> (en_halted (ns_engine T) \<longleftrightarrow> stops e) \<and> (e \<in> {InFatalRollback, InPersistFatal} \<longrightarrow> callbacks_fail E)"
  using assms(3,2)
proof (cases rule: intake_cases)
  case (refused e')
  then show ?thesis using assms(2) by (auto simp: stops_def)
next
  case (passed sd)
  from commit_atomic [OF _ check_contents_stakes [OF passed(3)] _ passed(4)] assms(1,2) show ?thesis by simp
qed

section \<open>Accepted blocks\<close>

lemma count_vote_chain: "en_chain (fst (count_vote C D V v e)) = en_chain e"
proof -
  have r: "en_chain (record_vote v e) = en_chain e" by (simp add: record_vote_def split: option.splits)
  have p: "en_chain (prune_votes h e) = en_chain e" for h and e :: "'a Engine" by (simp add: prune_votes_def Let_def)
  have "en_chain e' = en_chain (record_vote v e)" if "finalize C D v al (record_vote v e) = Inr e'" for al e'
    using that save_certificate_store by (fastforce simp: finalize_def split: sum.splits)
  then show ?thesis by (simp add: count_vote_def Let_def r p split: sum.splits)
qed

lemma handleVote_chain [simp]: "en_chain (fst (handleVote K C D V v e)) = en_chain e"
  by (simp add: handleVote_def stage_vote_def count_vote_chain Let_def split: option.splits)

lemma castVote_chain [simp]: "en_chain (fst (castVote K C D V me sign b e)) = en_chain e"
proof -
  have "handleVote K C D V v e = (e', x) \<Longrightarrow> en_chain e' = en_chain e" for v e' x using handleVote_chain [of K C D V v e] by simp
  then show ?thesis by (auto simp: castVote_def Let_def split: option.splits prod.splits sum.splits)
qed

lemma replay_chain [simp]: "en_chain (replayFutureVotes K C D V b e) = en_chain e"
proof -
  have "en_chain (fold (\<lambda>(_, v) e. fst (handleVote K C D V v e)) vs e) = en_chain e"
    for vs :: "((u64 \<times> hash32 \<times> string) \<times> FinalizeMsg) list" and e
    by (induction vs arbitrary: e) auto
  then show ?thesis by (simp add: replayFutureVotes_def Let_def)
qed

lemma removed_cfg [simp]: "mp_cfg (RemoveBlock K b s) = mp_cfg s"
proof -
  have "mp_cfg (foldl (\<lambda>s tx. mp_Remove (tx_Hash K tx) s) s txs) = mp_cfg s" for txs
    by (induction txs arbitrary: s) (simp_all add: mp_Remove_def drop_entry_def removeAVMSignerLocked_def removeStakeSenderLocked_def Let_def split: option.splits)
  then show ?thesis by (simp add: RemoveBlock_def)
qed

lemma nextBaseFee_minimum: "\<not> nextBaseFee c n < MinBaseFeePerByte"
proof -
  have "sint x < sint MinBaseFeePerByte" if "x < MinBaseFeePerByte" for x
  proof -
    have "unat x < 50" using that by (simp add: MinBaseFeePerByte_def word_less_nat_alt)
    then show ?thesis using sint_pos_iff [of x] by (simp add: MinBaseFeePerByte_def del: of_nat_unat)
  qed
  then show ?thesis by (auto simp: nextBaseFee_def Let_def)
qed

lemma update_registry_frame [simp]:
  "ns_engine (update_registry E b S) = ns_engine S" "ns_utxos (update_registry E b S) = ns_utxos S"
  "ns_econ (update_registry E b S) = ns_econ S" "ns_pool (update_registry E b S) = ns_pool S"
  by (simp_all add: update_registry_def case_prod_beta split: option.split)

lemma cast_own_vote_frame [simp]:
  "chain_of (cast_own_vote K E b S) = chain_of S" "ns_utxos (cast_own_vote K E b S) = ns_utxos S"
  "ns_econ (cast_own_vote K E b S) = ns_econ S" "ns_pool (cast_own_vote K E b S) = ns_pool S"
  by (simp_all add: cast_own_vote_def case_prod_beta split: option.split)

lemma update_base_fee_frame [simp]:
  "ns_engine (update_base_fee b S) = ns_engine S" "ns_utxos (update_base_fee b S) = ns_utxos S"
  "mc_BaseFeePerByte (mp_cfg (ns_pool (update_base_fee b S))) = es_baseFee (ns_econ (update_base_fee b S))"
  using nextBaseFee_minimum by (simp_all add: update_base_fee_def SetBaseFee_def Let_def)

lemma finish_intake_fields:
  "chain_of (finish_intake K E b S) = chain_of S"
  "ns_utxos (finish_intake K E b S) = ns_utxos S"
  "es_baseFee (ns_econ (finish_intake K E b S)) =
     nextBaseFee (if bh_BaseFee (blk_Header b) = 0 then expectedBaseFee (ns_econ S) else bh_BaseFee (blk_Header b)) (block_Size b)"
  "mc_BaseFeePerByte (mp_cfg (ns_pool (finish_intake K E b S))) = es_baseFee (ns_econ (finish_intake K E b S))"
  by (simp_all add: finish_intake_def Let_def) (simp_all add: update_base_fee_def Let_def)


lemma apply_block_images:
  assumes "ki_inv K L V (us_keyImages s)" and "ApplyBlock K L b s = Inr s'" and "us_keyImages t = us_keyImages s'"
  shows "distinct (block_images K b) \<and> (\<forall>k \<in> set (block_images K b). \<not> IsSpent K L s k \<and> IsSpent K L t k)"
proof -
  have "foldE (chain_step K L) [AcceptBlock b] s = Inr s'" using assms(2) by simp
  from spending.run_distinct [OF assms(1) this]
  show ?thesis by (auto simp: IsSpent_def ki_normal_def assms(3))
qed

lemma commit_accepts:
  assumes ok: "node_ready K L V b S" "stakes_checked K L b S" and c: "commit_block K L E b S = (T, None)"
  shows "\<exists>c S3. AddBlock K b (chain_of S) = Inr c \<and> T = finish_intake K E b S3 \<and> chain_of S3 = c \<and> ns_econ S3 = ns_econ S"
    and "\<exists>persist. ie_OnCanonicalBlock E = Some persist \<and> persist b"
    and "ns_utxos S = Some us \<Longrightarrow> \<exists>us' t. ApplyBlock K L b us = Inr us' \<and> ns_utxos T = Some t \<and> us_keyImages t = us_keyImages us'"
proof -
  obtain S1 S2 orb ch where a: "apply_utxos K L b S = Inr S1" and st: "apply_stakes K L b S1 = (S2, Inr orb)"
    and add: "AddBlock K b (chain_of S2) = Inr ch" and T: "T = finish_intake K E b (set_chain ch S2)"
    and p: "\<exists>persist. ie_OnCanonicalBlock E = Some persist \<and> persist b"
    using c by (auto simp: commit_block_def Let_def split: sum.splits prod.splits option.splits if_splits)
  show "\<exists>persist. ie_OnCanonicalBlock E = Some persist \<and> persist b" by (rule p)
  obtain r x where s2: "S2 = S\<lparr>ns_registry := r, ns_utxos := x\<rparr>" using staked_frame [OF a st] by blast
  show "\<exists>c S3. AddBlock K b (chain_of S) = Inr c \<and> T = finish_intake K E b S3 \<and> chain_of S3 = c \<and> ns_econ S3 = ns_econ S"
    using add T s2 by (auto simp: set_chain_def)
  assume us: "ns_utxos S = Some us"
  then obtain us' where us': "S1 = S\<lparr>ns_utxos := Some us'\<rparr>" "ApplyBlock K L b us = Inr us'" using apply_utxos_parts [OF a] by auto
  have "\<exists>t. ns_utxos S2 = Some t \<and> us_keyImages t = us_keyImages us'"
  proof (cases "ns_registry S")
    case None
    then show ?thesis using st us'(1) by (auto simp: apply_stakes_def registry_view_def)
  next
    case (Some q)
    let ?r = "q\<lparr>rg_utxos := Some us'\<rparr>"
    obtain r' rb where ap: "ApplyBlockStakeTxs K L (blk_Txs b) (height_of b) ?r = (r', Inr rb)" "S2 = put_registry r' S1"
      using st us'(1) Some by (auto simp: apply_stakes_def registry_view_def split: prod.splits sum.splits)
    have "\<forall>us. rg_utxos ?r = Some us \<longrightarrow> stake_index_ok (block_burns (blk_Txs b)) us" using index_applied [OF ok us Some us'(2)] by simp
    from stakes_undo [OF ap(1) this] obtain keys where "burned_since ?r keys r'" by auto
    then obtain t where "rg_utxos r' = Some t" "foldE mark_key keys us' = Inr t" by (auto simp: burned_since_def)
    then show ?thesis using marks_frame ap(2) by (auto simp: put_registry_def)
  qed
  then show "\<exists>us' t. ApplyBlock K L b us = Inr us' \<and> ns_utxos T = Some t \<and> us_keyImages t = us_keyImages us'"
    using us'(2) T by (simp add: finish_intake_fields set_chain_def)
qed

lemma accepted_base_fee:
  assumes "check_contents K J L E S b = Inr ()" and "\<not> (0 < ec_RingCTV4ActivationHeight (ie_cfg E) \<and> height_of b < ec_RingCTV4ActivationHeight (ie_cfg E))"
  shows "bh_BaseFee (blk_Header b) \<noteq> 0 \<and> bh_BaseFee (blk_Header b) = expectedBaseFeeAt (ie_cfg E) (econ_view S) (height_of b)"
  using assms by (auto simp: check_contents_def validateBlockEconomics_def Let_def split: if_splits sum.splits option.splits)

lemma check_position_accepts:
  assumes "check_position E S b = Inr ()"
  shows "\<exists>tip. ch_tip (chain_of S) = Some tip \<and> unat (height_of b) = unat (height_of tip) + 1 \<and>
      unat (bh_Round (blk_Header b)) = unat (bh_Round (blk_Header tip)) + 1 \<and>
      bh_ValidatorPub (blk_Header b) \<in> set (active_set E S) \<and>
      proposerAt (active_set E S) (bh_Round (blk_Header b)) = Some (bh_ValidatorPub (blk_Header b))"
proof -
  have next32: "unat (x + 1) = unat x + 1" if "x \<noteq> 0xFFFFFFFF" for x :: u32
  proof -
    have "unat x \<noteq> 0xFFFFFFFF" using that by (auto simp: word_unat_eq_iff)
    then have "unat x + 1 < 2 ^ 32" using unsigned_less [of x, where ?'a = nat] by simp
    then show ?thesis by (simp add: unat_word_ariths)
  qed
  have next64: "unat (x + 1) = unat x + 1" if "x \<noteq> max_u64" for x
  proof -
    have "unat x \<noteq> 0xFFFFFFFFFFFFFFFF" using that by (auto simp: word_unat_eq_iff max_u64_def)
    then have "unat x + 1 < 2 ^ 64" using unsigned_less [of x, where ?'a = nat] by simp
    then show ?thesis by (simp add: unat_word_ariths)
  qed
  show ?thesis using assms
    by (auto simp: check_position_def isKnownValidator_def list_ex_iff proposerAt_def next32 next64 Let_def split: option.splits if_splits)
qed

text \<open>C36: What an accepted block guarantees.  When a running engine accepts a block from a peer, the block extends the tip by its hash, by exactly one height and one round (as numbers,
  without wrap-around), it was made by the proposer scheduled for its round, it was committed durably, and it is the new tip.  If there is an output set, the key
  images that the block's payments and its V4 stake deposits spend are different from each other, were not spent before and are spent afterwards.  The pool charges
  the base fee of the engine.  From the height of the V4 activation on, the header carries the base fee that this node expected, and the new base fee is the one that a
  restarted node derives from its tip.  (The conditions on the state before the block are those of the theorem on
  refused blocks; ring inputs of stake transactions are not checked by the code and are excluded by them.)\<close>

theorem intake_accepts:
  assumes "node_ready K L V b S" and "\<not> en_halted (ns_engine S)" and "handleIncomingBlock K J L E b S = (T, None)"
  shows "(\<exists>tip. ch_tip (chain_of S) = Some tip \<and> prev_of b = block_Hash K tip \<and> unat (height_of b) = unat (height_of tip) + 1 \<and>
        unat (bh_Round (blk_Header b)) = unat (bh_Round (blk_Header tip)) + 1) \<and>
      proposerAt (active_set E S) (bh_Round (blk_Header b)) = Some (bh_ValidatorPub (blk_Header b)) \<and>
      ch_tip (chain_of T) = Some b \<and> (\<exists>persist. ie_OnCanonicalBlock E = Some persist \<and> persist b) \<and>
      (\<forall>us. ns_utxos S = Some us \<longrightarrow> distinct (block_images K b) \<and>
         (\<exists>t. ns_utxos T = Some t \<and> (\<forall>k \<in> set (block_images K b). \<not> IsSpent K L us k \<and> IsSpent K L t k))) \<and>
      mc_BaseFeePerByte (mp_cfg (ns_pool T)) = es_baseFee (ns_econ T) \<and>
      (height_of b < ec_RingCTV4ActivationHeight (ie_cfg E) \<or>
         bh_BaseFee (blk_Header b) = expectedBaseFeeAt (ie_cfg E) (econ_view S) (height_of b) \<and>
         es_baseFee (ns_econ T) = init_base_fee (chain_of T))"
  using assms(3,2)
proof (cases rule: intake_cases)
  case (passed sd)
  let ?S = "S\<lparr>ns_slashing := sd\<rparr>"
  have ok: "node_ready K L V b ?S" "stakes_checked K L b ?S" using assms(1) check_contents_stakes [OF passed(3)] by simp_all
  note commit = commit_accepts [OF ok passed(4)]
  obtain c S3 where c: "AddBlock K b (chain_of S) = Inr c" "T = finish_intake K E b S3" "chain_of S3 = c" using commit(1) by auto
  have tip: "ch_tip (chain_of T) = Some b" "\<exists>tip. ch_tip (chain_of S) = Some tip \<and> prev_of b = block_Hash K tip"
    using AddBlock_Inr(1) [OF c(1)] c(2,3) by (auto simp: finish_intake_fields)
  have images: "distinct (block_images K b) \<and> (\<exists>t. ns_utxos T = Some t \<and> (\<forall>k \<in> set (block_images K b). \<not> IsSpent K L us k \<and> IsSpent K L t k))"
    if "ns_utxos S = Some us" for us
  proof -
    have "ki_inv K L V (us_keyImages us)" using assms(1) that by (auto simp: node_ready_def)
    then show ?thesis using commit(3) [of us] apply_block_images that by fastforce
  qed
  have "0 < height_of b" using check_position_accepts [OF passed(1)] by (auto simp: word_less_nat_alt)
  then have "es_baseFee (ns_econ T) = init_base_fee (chain_of T)" if "bh_BaseFee (blk_Header b) \<noteq> 0"
    using that tip(1) by (simp add: c(2) finish_intake_fields init_base_fee_def Let_def)
  moreover have "height_of b < ec_RingCTV4ActivationHeight (ie_cfg E) \<or> bh_BaseFee (blk_Header b) \<noteq> 0 \<and>
      bh_BaseFee (blk_Header b) = expectedBaseFeeAt (ie_cfg E) (econ_view S) (height_of b)"
    using accepted_base_fee [OF passed(3)] by (auto simp: econ_view_def)
  ultimately show ?thesis
    using check_position_accepts [OF passed(1)] tip commit(2) images c(2) finish_intake_fields(4) [of K E b S3] by auto
qed simp

section \<open>A concrete block\<close>

text \<open>A node at its genesis block receives the block of its only validator, with one mint.  The durable commit may fail.\<close>

definition intake_header :: BlockHeader where
  "intake_header = \<lparr>bh_Height = 1, bh_PrevHash = 0, bh_MerkleRoot = MerkleRoot chain_lib [demo_coinbase [] [demo_output]], bh_Timestamp = 2,
     bh_Round = 1, bh_ValidatorPub = demo_validator, bh_OraclePrice = 0, bh_BaseFee = 200, bh_Signature = []\<rparr>"

definition intake_block :: Block where
  "intake_block = \<lparr>blk_Header = intake_header\<lparr>bh_Signature := arr_bytes (header_Hash chain_lib intake_header) @ replicate 32 0\<rparr>,
     blk_Txs = [demo_coinbase [] [demo_output]]\<rparr>"

definition demo_intake_env :: "bool \<Rightarrow> (zl, bytes \<rightharpoonup> bytes, FinalityCertificate option \<times> LocalFinalityVote option) intake_env" where
  "demo_intake_env stored = \<lparr>ie_cfg = econ_demo_cfg, ie_fin = demo_cfg, ie_db = mem_db, ie_Validators = [demo_validator], ie_keys = (\<lambda>_. []),
     ie_epoch = (\<lambda>_. ([], [])), ie_snapshotSHA256 = (\<lambda>_. None), ie_now = 2, ie_TimestampBanThreshold = 0, ie_OnTimestampBan = False,
     ie_OracleURL = True, ie_OracleMaxDeviation = 1 / 5, ie_localPrice = 7, ie_lpod = (\<lambda>_. Inr ()), ie_lpodSettlement = (\<lambda>_. True), ie_GenesisVestingActivationHeight = 0,
     ie_PrepareSaleBlock = None, ie_AVMExecutor = None, ie_OnCanonicalBlock = Some (\<lambda>_. stored), ie_OnBlockAccepted = True,
     ie_onRestored = (\<lambda>_. None), ie_onDeleted = (\<lambda>_. None), ie_MyKey = Some (demo_validator, demo_sign), ie_curve = zl_curve,
     ie_rings = None, ie_clock = (\<lambda>_. 0)\<rparr>"

definition demo_node :: "(bytes \<rightharpoonup> bytes, FinalityCertificate option \<times> LocalFinalityVote option) node_state" where
  "demo_node = \<lparr>ns_engine = new_engine demo_chain None [], ns_registry = None, ns_utxos = Some (NewUTXOSetWithDB None),
     ns_verifier = Some (NewTxVerifier None), ns_econ = econ_demo_state, ns_pool = demo_pool, ns_slashing = Map.empty,
     ns_timestampRejected = 0, ns_tsPerValidator = Map.empty, ns_banned = [], ns_accepted = []\<rparr>"

lemmas intake_demo_defs = intake_block_def intake_header_def demo_intake_env_def demo_node_def

lemma intake_block_fields [simp]:
  "height_of intake_block = 1" "prev_of intake_block = 0" "bh_Round (blk_Header intake_block) = 1" "bh_BaseFee (blk_Header intake_block) = 200"
  "bh_ValidatorPub (blk_Header intake_block) = demo_validator" "blk_Txs intake_block = [demo_coinbase [] [demo_output]]"
  "bh_Timestamp (blk_Header intake_block) = 2" "bh_OraclePrice (blk_Header intake_block) = 0"
  by (simp_all add: intake_block_def intake_header_def)

lemma intake_block_hash: "block_Hash chain_lib intake_block = 1"
  by (simp add: block_Hash_def intake_block_def header_Hash_unsigned)
    (simp add: header_Hash_def HashBytes_def header_bytes_def chain_lib_def intake_header_def le_put64_inject codec_simps)

lemma mint_kinds [simp]:
  "IsCoinbase (demo_coinbase [] [demo_output])" "\<not> IsStake (demo_coinbase [] [demo_output])" "\<not> IsLPoD (demo_coinbase [] [demo_output])"
  "\<not> IsLPoDPosition (demo_coinbase [] [demo_output])" "\<not> IsLPoDPayout (demo_coinbase [] [demo_output])"
  "\<not> IsSale (demo_coinbase [] [demo_output])" "\<not> IsAVM (demo_coinbase [] [demo_output])" "\<not> IsGuardianFund (demo_coinbase [] [demo_output])"
  "tx_Outputs (demo_coinbase [] [demo_output]) = [demo_output]" "tx_Inputs (demo_coinbase [] [demo_output]) = []"
  by (simp_all add: demo_coinbase_def empty_tx_def tx_kinds tx_versions)

lemma intake_block_valid: "block_Validate chain_lib no_json intake_block [Authority None demo_validator 1] = Inr ()"
proof -
  have "pub_Verify chain_lib demo_validator h (arr_bytes h @ replicate 32 0)" for h
    by (simp add: pub_Verify_def) (simp add: chain_lib_def demo_lib_def)
  then have "VerifySignature chain_lib (blk_Header intake_block) [Authority None demo_validator 1]"
    by (simp add: VerifySignature_def intake_block_def header_Hash_unsigned Authority_def Let_def)
  moreover have "MerkleRoot chain_lib [demo_coinbase [] [demo_output]] = bh_MerkleRoot (blk_Header intake_block)"
    by (simp add: intake_block_def intake_header_def)
  ultimately show ?thesis by (simp add: block_Validate_def Let_def demo_validator_def coinbase_valid intentionalBurnPrefix_def)
qed

lemma intake_position: "check_position (demo_intake_env stored) demo_node intake_block = Inr ()"
  by (simp add: check_position_def active_set_def activeValidators_def isKnownValidator_def proposerAt_def demo_chain_fields Let_def
      demo_intake_env_def demo_node_def new_engine_def max_u64_def demo_block_def)

lemma intake_contents: "check_contents chain_lib no_json mem_leveldb (demo_intake_env stored) (demo_node\<lparr>ns_slashing := sd\<rparr>) intake_block = Inr ()"
proof -
  let ?S = "demo_node\<lparr>ns_slashing := sd\<rparr>"
  have e: "expectedBaseFeeAt econ_demo_cfg (econ_view ?S) 1 = 200"
    by (simp add: expectedBaseFeeAt_def expectedBaseFee_def econ_view_def demo_node_def econ_demo_defs lpodActive_def)
  have "\<not> (3 :: u64) \<le> 1" by (simp add: word_le_nat_alt)
  moreover have "blockKeyImageCheck intake_block = Inr ()" by (simp add: blockKeyImageCheck_def tx_images_step_def)
  moreover from calculation have "engine_validateCoinbasePolicy chain_lib econ_demo_cfg (econ_view ?S) (\<lambda>_. Inr ()) intake_block = Inr ()"
    by (simp add: engine_validateCoinbasePolicy_def validateCoinbasePolicy_def coinbase_step_def is_mint_def lpodActive_def econ_demo_defs
        maxCoinbasesPerBlock_def Let_def)
  moreover have "validateBlockEconomics econ_demo_cfg (econ_view ?S) intake_block = Inr ()"
    by (simp add: validateBlockEconomics_def e economics_step_def fee_exempt_def Let_def econ_demo_cfg_def [THEN arg_cong [of _ _ ec_RingCTV4ActivationHeight]])
  moreover have "validateRingCTV4Activation chain_lib no_json econ_demo_cfg (econ_view ?S) (\<lambda>_. Inr ()) intake_block = Inr ()"
    by (simp add: validateRingCTV4Activation_def engine_validateLPoD_def lpodActive_def econ_demo_defs validateGuardianFund_def
        validateGuardianConfig_def guardian_step_def validateVersionWithSales_def ValidateTxVersionAtHeight_def)
      (simp add: demo_coinbase_def empty_tx_def)
  moreover have "VerifyBlock chain_lib no_json zl_curve mem_leveldb None (\<lambda>_. 0) v (Some intake_block) = Inr ()"
    if "tv_stakedActivation v = 0" for v
    using that by (simp add: VerifyBlock_def crypto_exempt_def indexed_def)
  ultimately show ?thesis
    by (simp add: check_contents_def checkOraclePriceDeviation_def registry_view_def demo_node_def demo_intake_env_def verifyBlockWithSales_def prepareSale_def
        prepareAVMBlock_def prepareAVMOnly_def econ_demo_cfg_def lpodActive_def NewTxVerifier_def Let_def)
qed

lemma intake_checked:
  "\<exists>sd. handleIncomingBlock chain_lib no_json mem_leveldb (demo_intake_env stored) intake_block demo_node =
     commit_block chain_lib mem_leveldb (demo_intake_env stored) intake_block (demo_node\<lparr>ns_slashing := sd\<rparr>)"
proof -
  have c: "cfg_fork (ie_fin (demo_intake_env stored)) = None" "\<not> en_halted (ns_engine demo_node)" "ns_slashing demo_node = Map.empty"
    "clock_skew (demo_intake_env stored) intake_block = 0"
    by (simp_all add: demo_intake_env_def demo_cfg_def demo_node_def new_engine_def clock_skew_def)
  obtain sd where "CheckBlock 1 1 demo_validator (block_Hash chain_lib intake_block) (bh_Signature (blk_Header intake_block)) Map.empty = (sd, None)"
    by (simp add: CheckBlock_def Let_def)
  then have "handleIncomingBlock chain_lib no_json mem_leveldb (demo_intake_env stored) intake_block demo_node =
      commit_block chain_lib mem_leveldb (demo_intake_env stored) intake_block (demo_node\<lparr>ns_slashing := sd\<rparr>)"
    using intake_block_valid intake_position [of stored] intake_contents [of stored sd]
    by (simp add: handleIncomingBlock_def c checkAuthorityParent_def maxClockSkewNs_def Let_def)
  then show ?thesis by blast
qed

lemma intake_adds: "\<exists>c. AddBlock chain_lib intake_block demo_chain = Inr c"
  by (simp add: AddBlock_def demo_chain_fields demo_hashes intake_block_hash Let_def) (simp add: demo_block_def)

lemma intake_applies: "\<exists>us. ApplyBlock chain_lib mem_leveldb intake_block (NewUTXOSetWithDB None) = Inr us"
  by (simp add: ApplyBlock_def check_block_def check_tx_def stake_v4_tx_def)

lemma demo_node_ready: "node_ready chain_lib mem_leveldb dom intake_block demo_node"
proof -
  let ?us = "NewUTXOSetWithDB None :: (bytes \<rightharpoonup> bytes) UTXOSet"
  have "canonical_ok chain_lib" using demo_canonical_ok by (simp add: canonical_ok_def chain_lib_def)
  then have "ki_inv chain_lib mem_leveldb dom (us_keyImages ?us)"
    by (simp add: NewUTXOSetWithDB_def ki_inv_def mem_leveldb_ok)
  moreover have "rollback_ready chain_lib intake_block ?us"
    by (simp add: rollback_ready_def NewUTXOSetWithDB_def index_ok_def block_out_keys_def tx_out_keys_def maxRollbackDepth_def
        maxCLSAGRecentOutputs_def)
  moreover have "stake_index_ok G ?us" for G by (simp add: stake_index_ok_def NewUTXOSetWithDB_def)
  moreover have "block_fresh chain_lib intake_block demo_chain"
  proof -
    have "ch_txIndex demo_chain = Map.empty"
      by (simp add: demo_chain_def SetGenesis_def IsGenesis_def demo_block_def indexTxs_def NewChain_def index_block_def)
    then show ?thesis by (simp add: block_fresh_def HasBlock_def demo_chain_fields intake_block_hash)
  qed
  ultimately show ?thesis using demo_chain_reach by (simp add: node_ready_def demo_node_def new_engine_def)
qed

lemma intake_result:
  "\<exists>T. handleIncomingBlock chain_lib no_json mem_leveldb (demo_intake_env stored) intake_block demo_node = (T, if stored then None else Some InPersist)"
proof -
  obtain sd where h: "handleIncomingBlock chain_lib no_json mem_leveldb (demo_intake_env stored) intake_block demo_node =
     commit_block chain_lib mem_leveldb (demo_intake_env stored) intake_block (demo_node\<lparr>ns_slashing := sd\<rparr>)" using intake_checked by blast
  have ok: "node_ready chain_lib mem_leveldb dom intake_block (demo_node\<lparr>ns_slashing := sd\<rparr>)"
    "stakes_checked chain_lib mem_leveldb intake_block (demo_node\<lparr>ns_slashing := sd\<rparr>)"
    using demo_node_ready check_contents_stakes [OF intake_contents] by simp_all
  have calm: "\<not> callbacks_fail (demo_intake_env stored)" by (simp add: callbacks_fail_def demo_intake_env_def)
  obtain us c where us: "ApplyBlock chain_lib mem_leveldb intake_block (NewUTXOSetWithDB None) = Inr us" and c: "AddBlock chain_lib intake_block demo_chain = Inr c"
    using intake_applies intake_adds by blast
  let ?S = "demo_node\<lparr>ns_slashing := sd\<rparr>"
  let ?S1 = "?S\<lparr>ns_utxos := Some us\<rparr>"
  have a: "apply_utxos chain_lib mem_leveldb intake_block ?S = Inr ?S1" using us by (simp add: apply_utxos_def demo_node_def)
  have st: "apply_stakes chain_lib mem_leveldb intake_block ?S1 = (?S1, Inr None)" by (simp add: apply_stakes_def registry_view_def demo_node_def)
  have ch: "chain_of demo_node = demo_chain" by (simp add: demo_node_def new_engine_def)
  obtain Z where "rollbackUnpersistedBlock chain_lib mem_leveldb (demo_intake_env stored) intake_block None (set_chain c ?S1) = (Z, False)"
    using unpersisted_reversal [OF ok a st, of c "demo_intake_env stored"] c ch calm by auto
  moreover have "ie_OnCanonicalBlock (demo_intake_env stored) = Some (\<lambda>_. stored)" by (simp add: demo_intake_env_def)
  ultimately show ?thesis unfolding h by (cases stored) (simp_all add: commit_block_def a st ch c failCanonicalPersistence_def Let_def)
qed

theorem intake_atomic_witness:
  "\<exists>T. handleIncomingBlock chain_lib no_json mem_leveldb (demo_intake_env False) intake_block demo_node = (T, Some InPersist) \<and>
     same_node chain_lib mem_leveldb demo_node T \<and> en_halted (ns_engine T)"
proof -
  obtain T where T: "handleIncomingBlock chain_lib no_json mem_leveldb (demo_intake_env False) intake_block demo_node = (T, Some InPersist)"
    using intake_result [of False] by auto
  have "\<not> en_halted (ns_engine demo_node)" by (simp add: demo_node_def new_engine_def)
  from intake_atomic [OF demo_node_ready this T] T show ?thesis by (auto simp: stops_def)
qed

theorem intake_accepts_witness:
  "\<exists>T. handleIncomingBlock chain_lib no_json mem_leveldb (demo_intake_env True) intake_block demo_node = (T, None) \<and>
     ch_tip (chain_of T) = Some intake_block \<and> es_baseFee (ns_econ T) = init_base_fee (chain_of T)"
proof -
  obtain T where T: "handleIncomingBlock chain_lib no_json mem_leveldb (demo_intake_env True) intake_block demo_node = (T, None)"
    using intake_result [of True] by auto
  have "\<not> en_halted (ns_engine demo_node)" "ec_RingCTV4ActivationHeight (ie_cfg (demo_intake_env True)) = 0"
    by (simp_all add: demo_node_def new_engine_def demo_intake_env_def econ_demo_cfg_def)
  with intake_accepts [OF demo_node_ready _ T] T show ?thesis by simp
qed

end
