(* ===== verification/Spec2Isabelle.thy ===== *)
theory Spec2Isabelle
  imports Lpod_Accounting Sale Blocks Vesting Finality Built_Spend Crypto_Instance Mempool Economics Block_Intake
begin

text \<open>
  \<^bold>\<open>Verification of the core of the Aperod node.\<close>

  Aperod is a proof-of-authority chain with confidential transactions.  The packages under \<open>src/\<close> interact as follows.  A wallet selects coins,
  samples decoys and builds a RingCT transaction (\<open>core/tx_builder.go\<close> over \<open>crypto/\<close>).  The mempool admits it (\<open>core/mempool.go\<close>)
  after the verifier (\<open>core/tx_verifier.go\<close>) has checked signatures, key images, range proofs and the balance of commitments against the output set
  (\<open>core/utxo.go\<close>).  A proposer puts transactions into a block (\<open>core/block.go\<close>), the block is applied to the output set, to the validator registry
  (\<open>core/staking.go\<close>) and to the chain (\<open>core/chain.go\<close>), and the validators vote until it is final (\<open>consensus/poa.go\<close>).  Beside it run two
  accounting protocols on public amounts: LPoD settlements (\<open>lpod/\<close>) and the sale (\<open>sale/\<close>).

  \<^bold>\<open>Conventions.\<close>  \<open>uint64\<close>, \<open>uint32\<close> and byte arrays are words, so sums wrap as in Go; a Go \<open>error\<close> is the left side of a sum type, one
  constructor per error that callers or the order of the checks can tell apart; a panic is an error constructor of its own; a loop with an early return is
  \<open>foldE\<close>; a map is a partial function, and where the code ranges over a map the visiting order is an argument, as is the result of \<open>sort.Slice\<close> (which is
  not stable) under the contract \<open>sort_slice\<close>.  Random reads, clocks and callbacks are arguments.  Locks make each operation one step and do not appear.
  Code outside the repository (SHA-256, Ed25519, edwards25519, base58, JSON, LevelDB) is a record of functions passed to the definitions; a theorem that
  relies on such a function names the documented fact as a hypothesis (\<open>curve_ok\<close>, \<open>leveldb_ok\<close>, \<open>codec\<close> laws), and its witness instantiates the record.

  \<^bold>\<open>Theories and sources.\<close>
  \<^item> \<open>Prelude\<close>, \<open>Bytes\<close>: words, error sums, loops and their locales (\<open>stepwise_inv\<close>, \<open>stepwise_sum\<close>, \<open>one_shot\<close>), byte order, slices, the locales
    \<open>codec\<close> and \<open>canonical_codec\<close>.
  \<^item> \<open>Crypto\<close> (\<open>crypto/hash.go\<close>, \<open>keys.go\<close>, \<open>address.go\<close>), \<open>Curve\<close> (\<open>wallet.go\<close>, \<open>pedersen.go\<close>, \<open>keyimage.go\<close>, \<open>burn.go\<close>),
    \<open>Ring_Signatures\<close> (\<open>ringct.go\<close>, \<open>clsag.go\<close>, \<open>keyimage_proof.go\<close>, \<open>value_authorization.go\<close>), \<open>Bulletproof\<close> (\<open>bulletproof.go\<close>), \<open>Stealth\<close>
    (\<open>stealth.go\<close> and \<open>core/wallet_scanner.go\<close>), \<open>Crypto_Instance\<close> (the record \<open>lib\<close> filled with these models).  The lemmas show that every signature and
    proof the code makes is accepted by its verifier, that commitments balance exactly when amounts and blinding factors do, and that a recipient
    recognizes, decrypts and can spend a stealth payment.
  \<^item> \<open>Transactions\<close>, \<open>Blocks\<close>, \<open>Merkle\<close>, \<open>Vesting\<close>, \<open>Stake_Codec\<close>: the data of the chain, hashes, structural validation, fees, codecs (round trips in both
    directions), Merkle proofs, reward authorizations and vesting schedules.
  \<^item> \<open>Key_Images\<close>, \<open>Utxo\<close>: the three-tier spent set behind the locale \<open>spent_set\<close>, and the output set with two-pass application and its rollback journal.  The
    lemmas show that no key image of a payment or of a V4 deposit is accepted twice along any history, that the rollback of a block which evicted nothing restores
    the maps, that staked outputs cannot be spent, and what goes wrong with ring inputs of stake transactions and with a full window.
  \<^item> \<open>Tx_Verifier\<close> (\<open>core/tx_verifier.go\<close>, \<open>block_verifier.go\<close>, \<open>mint.go\<close>): all checks in the order of the code, characterized exactly; an
    accepted spend conserves value.
  \<^item> \<open>Mempool\<close>: admission, eviction, selection and persistence, with the reservation tables as an invariant of all reachable pools.
  \<^item> \<open>Registry\<close>, \<open>Staking\<close>, \<open>Epochs\<close> (\<open>core/staking.go\<close>, \<open>validator_authority*.go\<close>): the operations, the abstract relation \<open>reg_step\<close> which they refine,
    the invariants of whole histories of blocks and epochs, and the registries for which an epoch depends on the order of a map.
  \<^item> \<open>Chain_State\<close> (\<open>core/chain.go\<close>) and \<open>Finality\<close> (\<open>consensus/poa.go\<close> votes and certificates, \<open>consensus/slashing.go\<close>, \<open>store/finality.go\<close>): index
    consistency, undo, agreement of certificates unless more than a third of the validators have voted for both blocks, and consistency of a node's own votes across restarts.
  \<^item> \<open>Economics\<close> (reward, fee, coinbase and version policies of \<open>consensus/poa.go\<close>, \<open>lpod.go\<close>, \<open>sale.go\<close> and \<open>checkpoint.go\<close>) over \<open>Doubles\<close>, which
    defines \<open>float64\<close> rounding and proves it monotone and exact on small integers: supply accounting of an accepted block, the bounded emission, the pool, the step
    of the base fee, and a height at which no block can be valid.
  \<^item> \<open>Block_Intake\<close> (\<open>handleIncomingBlock\<close> of \<open>consensus/poa.go\<close> with its helpers in \<open>sale.go\<close> and \<open>validator_authority.go\<close>) joins the verifier, the policies, the
    output set, the registry, the chain, the pool and the votes: a block that is refused at any step leaves the node as it was, under the conditions of the rollback of
    the output set, and what an accepted block guarantees.
  \<^item> \<open>Lpod_Accounting\<close> (\<open>lpod/accounting.go\<close>) and \<open>Sale\<close> (\<open>sale/\<close>): conservation laws, replay protection, and the refinement of the ledger by the
    durable state.
  \<^item> \<open>Decoys\<close> (\<open>core/decoy_sampling.go\<close> and the samplers of \<open>core/utxo.go\<close>), \<open>Coin_Selection\<close> and \<open>Tx_Builder\<close> (\<open>core/tx_builder.go\<close>,
    \<open>core/tx_builder_multi.go\<close>): every offset sequence yields a different sample, estimates agree with the builder, and the largest amount is exact.
  \<^item> \<open>Built_Spend\<close> composes them with the verifier: a payment that is built from owned coins and known decoys is accepted by the node.

  \<^bold>\<open>Loops that could run forever.\<close>  Three loops of the code have no bound in their text: hashing to the curve by rejection (\<open>hash_loop\<close>), the wallet's scan
  of the chain (\<open>scan_heights\<close>) and eviction until there is room (\<open>make_room\<close>).  They are \<open>partial_function (option)\<close>; the theorems show that
  they return: the first from the fact of \<open>curve_ok\<close> that some counter decodes to a point, the scan whenever
  its last height is not the largest 64-bit number, and eviction from the number of entries that are left.  No fuel is used anywhere.

  \<^bold>\<open>Not modelled.\<close>  The HTTP and JSON-RPC servers (\<open>api/\<close>), the peer-to-peer transport (\<open>p2p/\<close>), command line tools (\<open>cmd/\<close>), configuration,
  the explorer and deployment scripts are input and output around the code above.  Of \<open>store/\<close> only the key-image index and the finality records are modelled: the
  rest reads and writes JSON in LevelDB.  Of \<open>consensus/\<close> the votes, certificates, block policies and the intake of a block are modelled, while block production, its timers, the requests to the price service and the settlement
  of the liquidity reserve are not.  The contract
  engine (\<open>avm/\<close>) runs WebAssembly in a third-party runtime.  Floating-point prices (\<open>UpdateMinStake\<close>) enter as inputs.  Soundness of the
  cryptographic constructions (unforgeability, binding) rests on computational assumptions and is not a theorem of this development; what is proved
  is what the code computes.
\<close>

end
